(* ===== verification/Prelude.thy ===== *)
theory Prelude
  imports Main "HOL-Library.Word"
begin

text \<open>
  Shared vocabulary of the development: machine words, byte memories and the part of the C
  library (\<open>ctype.h\<close>, \<open>strtol\<close>, \<open>memmove\<close>) that several components use.

  A memory region is a list of bytes. Reads and writes are partial: an access that is not
  wholly inside the region is \<open>None\<close>, which the callers turn into their fault outcome.
  Offsets are integers, because the code computes pointers below the start of a region too.
\<close>

unbundle bit_operations_syntax

type_synonym u8 = "8 word"
type_synonym u16 = "16 word"
type_synonym u32 = "32 word"
type_synonym u64 = "64 word"
type_synonym bytes = "u8 list"

named_theorems mem_simps "rewriting of reads after writes on byte memories"
named_theorems frame_intros "regions an operation leaves alone"

section \<open>Byte memories\<close>

definition in_region :: "bytes \<Rightarrow> int \<Rightarrow> nat \<Rightarrow> bool" where
  "in_region m off n \<longleftrightarrow> 0 \<le> off \<and> off + int n \<le> int (length m)"

definition le32 :: "u8 \<Rightarrow> u8 \<Rightarrow> u8 \<Rightarrow> u8 \<Rightarrow> u32" where
  "le32 a b c d = ucast a OR push_bit 8 (ucast b) OR push_bit 16 (ucast c) OR push_bit 24 (ucast d)"

definition le32_bytes :: "u32 \<Rightarrow> bytes" where
  "le32_bytes w = [ucast w, ucast (drop_bit 8 w), ucast (drop_bit 16 w), ucast (drop_bit 24 w)]"

definition read32 :: "bytes \<Rightarrow> int \<Rightarrow> u32 option" where
  "read32 m off =
     (if in_region m off 4
      then let i = nat off in Some (le32 (m ! i) (m ! (i + 1)) (m ! (i + 2)) (m ! (i + 3)))
      else None)"

definition splice :: "bytes \<Rightarrow> nat \<Rightarrow> bytes \<Rightarrow> bytes" where
  "splice m i bs = take i m @ bs @ drop (i + length bs) m"

definition write32 :: "bytes \<Rightarrow> int \<Rightarrow> u32 \<Rightarrow> bytes option" where
  "write32 m off w = (if in_region m off 4 then Some (splice m (nat off) (le32_bytes w)) else None)"

lemma length_le32_bytes [simp]: "length (le32_bytes w) = 4"
  by (simp add: le32_bytes_def)

lemma le32_roundtrip [mem_simps]:
  "le32 (le32_bytes w ! 0) (le32_bytes w ! Suc 0) (le32_bytes w ! 2) (le32_bytes w ! 3) = w"
proof (rule bit_word_eqI)
  fix n assume n: "n < LENGTH(32)"
  show "bit (le32 (le32_bytes w ! 0) (le32_bytes w ! Suc 0) (le32_bytes w ! 2) (le32_bytes w ! 3)) n
      = bit w n"
    using n by (cases "n < 8"; cases "n < 16"; cases "n < 24")
      (auto simp: le32_def le32_bytes_def bit_simps)
qed

lemma length_splice [simp]: "i + length bs \<le> length m \<Longrightarrow> length (splice m i bs) = length m"
  by (simp add: splice_def)

lemma nth_splice:
  assumes "i + length bs \<le> length m" "j < length m"
  shows "splice m i bs ! j = (if i \<le> j \<and> j < i + length bs then bs ! (j - i) else m ! j)"
  using assms by (auto simp: splice_def nth_append min_def)

lemma nth_splice_inside [mem_simps]:
  "i + length bs \<le> length m \<Longrightarrow> k < length bs \<Longrightarrow> splice m i bs ! (i + k) = bs ! k"
  by (simp add: nth_splice)

lemma nth_splice_outside [mem_simps]:
  "i + length bs \<le> length m \<Longrightarrow> j < length m \<Longrightarrow> j < i \<or> i + length bs \<le> j \<Longrightarrow>
   splice m i bs ! j = m ! j"
  by (auto simp: nth_splice)

lemma write32_length: "write32 m off w = Some m' \<Longrightarrow> length m' = length m"
  by (auto simp: write32_def in_region_def split: if_splits)

lemma write32_SomeD: "write32 m off w = Some m' \<Longrightarrow> in_region m off 4"
  by (simp add: write32_def split: if_splits)

lemma read32_SomeD: "read32 m off = Some w \<Longrightarrow> in_region m off 4"
  by (simp add: read32_def split: if_splits)

lemma write32_ex: "in_region m off 4 \<Longrightarrow> \<exists>m'. write32 m off w = Some m'"
  by (simp add: write32_def)

lemma read32_ex: "in_region m off 4 \<Longrightarrow> \<exists>w. read32 m off = Some w"
  by (simp add: read32_def Let_def)

lemma read32_write32_same [mem_simps]:
  assumes "write32 m off w = Some m'" shows "read32 m' off = Some w"
proof -
  from assms have r: "in_region m off 4" and m': "m' = splice m (nat off) (le32_bytes w)"
    by (auto simp: write32_def split: if_splits)
  from r have b: "nat off + 4 \<le> length m" by (auto simp: in_region_def)
  have "in_region m' off 4"
    using r write32_length [OF assms] by (simp add: in_region_def)
  moreover have "m' ! (nat off + k) = le32_bytes w ! k" if "k < 4" for k
    using that b by (simp add: m' mem_simps)
  from this [of 0] this [of 1] this [of 2] this [of 3]
  have "le32 (m' ! nat off) (m' ! (nat off + 1)) (m' ! (nat off + 2)) (m' ! (nat off + 3)) = w"
    using le32_roundtrip [of w] by simp
  ultimately show ?thesis by (simp add: read32_def Let_def)
qed

lemma write32_frame [frame_intros]:
  assumes "write32 m off w = Some m'" "i < length m" "int i < off \<or> off + 4 \<le> int i"
  shows "m' ! i = m ! i"
proof -
  from assms(1) have r: "in_region m off 4" and m': "m' = splice m (nat off) (le32_bytes w)"
    by (auto simp: write32_def split: if_splits)
  from r assms(2,3) show ?thesis
    unfolding m' by (intro nth_splice_outside) (auto simp: in_region_def)
qed

lemma read32_write32_other [mem_simps]:
  assumes "write32 m off w = Some m'" "off' + 4 \<le> off \<or> off + 4 \<le> off'"
  shows "read32 m' off' = read32 m off'"
proof -
  have l: "length m' = length m" by (rule write32_length [OF assms(1)])
  have "m' ! i = m ! i" if "in_region m off' 4" "nat off' \<le> i" "i < nat off' + 4" for i
    using that assms(2) by (intro write32_frame [OF assms(1)]) (auto simp: in_region_def)
  then show ?thesis
    using l by (auto simp: read32_def in_region_def Let_def)
qed

section \<open>Conversions between widths\<close>

lemma ucast32_of_int: "ucast (word_of_int k :: u64) = (word_of_int k :: u32)"
  by (simp add: unsigned_of_int word_of_int_eq_iff)

lemma unat_bound: "unat (w :: 'a::len word) < 2 ^ LENGTH('a)"
  by (rule unsigned_less)

lemmas unat_bounds =
  unat_bound [where 'a = 8, simplified] unat_bound [where 'a = 16, simplified]
  unat_bound [where 'a = 32, simplified] unat_bound [where 'a = 64, simplified]

section \<open>The C library\<close>

text \<open>\<open>ctype.h\<close> in the C locale.\<close>

definition c_isspace :: "char \<Rightarrow> bool" where
  "c_isspace c \<longleftrightarrow> c = CHR '' '' \<or> (9 \<le> (of_char c :: nat) \<and> (of_char c :: nat) \<le> 13)"

fun skip_space :: "string \<Rightarrow> string" where
  "skip_space [] = []"
| "skip_space (c # cs) = (if c_isspace c then skip_space cs else c # cs)"

definition hex_val :: "char \<Rightarrow> nat option" where
  "hex_val c = (let n = of_char c in
     if 48 \<le> n \<and> n \<le> 57 then Some (n - 48)
     else if 97 \<le> n \<and> n \<le> 102 then Some (n - 87)
     else if 65 \<le> n \<and> n \<le> 70 then Some (n - 55)
     else None)"

text \<open>The longest prefix of hexadecimal digits, its value, and the rest of the string.\<close>

fun hex_digits :: "nat \<Rightarrow> string \<Rightarrow> nat \<times> string" where
  "hex_digits acc [] = (acc, [])"
| "hex_digits acc (c # cs) =
     (case hex_val c of None \<Rightarrow> (acc, c # cs) | Some d \<Rightarrow> hex_digits (16 * acc + d) cs)"

text \<open>An optional \<open>0x\<close> prefix, which counts only when a digit follows.\<close>

definition drop_0x :: "string \<Rightarrow> string" where
  "drop_0x s = (case s of
     c # x # d # cs \<Rightarrow>
       (if c = CHR ''0'' \<and> (x = CHR ''x'' \<or> x = CHR ''X'') \<and> hex_val d \<noteq> None then d # cs else s)
   | _ \<Rightarrow> s)"

text \<open>The sign and magnitude \<open>strtol\<close>/\<open>strtoul\<close>/\<open>%llx\<close> read in base 16.\<close>

definition scan_hex :: "string \<Rightarrow> (bool \<times> nat \<times> string) option" where
  "scan_hex s0 =
     (let s = skip_space s0;
          neg = (case s of c # _ \<Rightarrow> c = CHR ''-'' | [] \<Rightarrow> False);
          s1 = (case s of c # cs \<Rightarrow> if c = CHR ''-'' \<or> c = CHR ''+'' then cs else s | [] \<Rightarrow> s);
          s2 = drop_0x s1
      in case s2 of
           [] \<Rightarrow> None
         | c # _ \<Rightarrow> (if hex_val c = None then None
                    else let (n, r) = hex_digits 0 s2 in Some (neg, n, r)))"

text \<open>\<open>strtol(s, NULL, 16)\<close>: saturates at the range of \<open>long\<close>; 0 when there is no number.\<close>

definition strtol16 :: "string \<Rightarrow> int" where
  "strtol16 s = (case scan_hex s of None \<Rightarrow> 0
     | Some (neg, n, _) \<Rightarrow>
         max (- (2 ^ 63)) (min (2 ^ 63 - 1) (if neg then - int n else int n)))"

text \<open>\<open>strtoul(s, NULL, 16)\<close>: saturates at \<open>ULONG_MAX\<close>; a minus sign negates modulo \<open>2^64\<close>.\<close>

definition strtoul16 :: "string \<Rightarrow> u64" where
  "strtoul16 s = (case scan_hex s of None \<Rightarrow> 0
     | Some (neg, n, _) \<Rightarrow>
         (if 2 ^ 64 \<le> n then - 1 else if neg then - of_nat n else of_nat n))"

text \<open>The C rule of integer division: truncation towards zero (the divisor is not zero).\<close>

definition c_div :: "int \<Rightarrow> int \<Rightarrow> int" where
  "c_div a b = sgn a * sgn b * (\<bar>a\<bar> div \<bar>b\<bar>)"

definition c_mod :: "int \<Rightarrow> int \<Rightarrow> int" where
  "c_mod a b = a - c_div a b * b"

lemma c_div_nonneg: "0 \<le> a \<Longrightarrow> 0 < b \<Longrightarrow> c_div a b = a div b"
  by (cases "a = 0") (simp_all add: c_div_def)

lemma c_mod_nonneg: "0 \<le> a \<Longrightarrow> 0 < b \<Longrightarrow> c_mod a b = a mod b"
  by (simp add: c_mod_def c_div_nonneg minus_div_mult_eq_mod)

end
