(* ===== verification/Arm_Branch.thy ===== *)
theory Arm_Branch
  imports Prelude
begin

text \<open>
  The AArch64 instruction encodings the two ARM tools share: the \<open>SVC #0\<close> word, the
  \<open>B\<close>/\<open>BL\<close> opcodes, the encoder of the rewriter
  (\<open>tools/arm-binary-rewriter/main.c\<close>, lines 127 to 132 and its two copies) and the
  target computation of the identifier (\<open>tools/arm-syscall-identifier/main.c\<close>, lines 94 to
  102). The main lemma is that the identifier's decoder reads back the target the rewriter
  encoded, for every displacement a 26-bit immediate can express.
\<close>

definition SYSCALL_INSTR :: u32 where "SYSCALL_INSTR = 0xd4000001"
definition REWRITE_MASK_B :: u32 where "REWRITE_MASK_B = 0x14000000"
definition REWRITE_MASK_BL :: u32 where "REWRITE_MASK_BL = 0x94000000"
definition RET_CODE :: u32 where "RET_CODE = 0xd65f03c0"
definition PAGE_SIZE :: nat where "PAGE_SIZE = 4096"

text \<open>The encoder: \<open>uint32_t\<close> arithmetic on the difference of the two truncated addresses.\<close>

definition branch_offset :: "u64 \<Rightarrow> u64 \<Rightarrow> u32" where
  "branch_offset addr handler =
     (let instr_offset = (ucast addr :: u32) - (ucast handler :: u32);
          instr_offset = instr_offset div 4;
          instr_offset = NOT instr_offset;
          instr_offset = instr_offset + 1
      in instr_offset AND 0x3FFFFFF)"

definition encode_branch :: "u32 \<Rightarrow> u64 \<Rightarrow> u64 \<Rightarrow> u32" where
  "encode_branch opcode addr handler = opcode OR branch_offset addr handler"

text \<open>\<open>(instr >> 26) == 0x25\<close>, the test both tools use for \<open>BL imm\<close>.\<close>

definition is_bl :: "u32 \<Rightarrow> bool" where
  "is_bl instr \<longleftrightarrow> drop_bit 26 instr = 0x25"

definition bl_target :: "u64 \<Rightarrow> u32 \<Rightarrow> u64" where
  "bl_target addr instr =
     (let offset = instr AND NOT 0xFC000000;
          offset = (if offset AND 0x2000000 \<noteq> 0 then offset OR 0xFC000000 else offset);
          signed_offset = offset * 4
      in addr + scast signed_offset)"

text \<open>The round-up of the mapping length to pages, in \<open>uint32_t\<close>.\<close>

definition map_size :: "u64 \<Rightarrow> u32" where
  "map_size code_size =
     (if code_size mod of_nat PAGE_SIZE = 0 then ucast code_size
      else ucast ((code_size div of_nat PAGE_SIZE + 1) * of_nat PAGE_SIZE))"

section \<open>Encoding and decoding\<close>

lemma is_bl_REWRITE_MASK_BL: "is_bl REWRITE_MASK_BL"
  by (simp add: is_bl_def REWRITE_MASK_BL_def)

lemma mask26: "(0x3FFFFFF :: u32) = mask 26"
  by (simp add: mask_eq_exp_minus_1)

lemma branch_offset_take_bit: "branch_offset a h = take_bit 26 (- ((ucast a - ucast h) div 4))"
  by (simp add: branch_offset_def Let_def mask26 take_bit_eq_mask minus_eq_not_plus_1)

lemma ucast32_diff: "(ucast (a - h :: u64) :: u32) = ucast a - ucast h"
proof -
  have "a - h = word_of_int (uint a - uint h)" by simp
  then have "(ucast (a - h) :: u32) = word_of_int (uint a - uint h)" by (metis ucast32_of_int)
  then show ?thesis by simp
qed

lemma trunc_difference:
  fixes a h :: u64
  shows "(ucast a :: u32) - ucast h = word_of_int (- sint (h - a))"
proof -
  have "a - h = word_of_int (- sint (h - a))" by simp
  then have "(ucast (a - h) :: u32) = word_of_int (- sint (h - a))" by (metis ucast32_of_int)
  then show ?thesis by (simp only: ucast32_diff)
qed

lemma word_quotient: "uint (word_of_int (- (4 * e)) :: u32) div 4 = (- e) mod 2 ^ 30"
proof -
  have "uint (word_of_int (- (4 * e)) :: u32) = (4 * - e) mod (4 * 2 ^ 30)"
    by (simp only: uint_word_of_int) simp
  also have "\<dots> = 4 * ((- e) mod 2 ^ 30)" by (rule mult_mod_right [symmetric])
  finally show ?thesis by simp
qed
lemma take_bit_neg_quotient: "take_bit 26 (- (word_of_int ((- e) mod 2 ^ 30) :: u32)) = word_of_int (take_bit 26 e)"
proof -
  have "(- ((- e) mod 2 ^ 30)) mod 2 ^ 26 = (- ((- e) mod 2 ^ 30 mod 2 ^ 26)) mod (2 ^ 26 :: int)"
    by (simp add: mod_minus_eq)
  also have "(- e) mod 2 ^ 30 mod 2 ^ 26 = (- e) mod (2 ^ 26 :: int)" by (simp add: mod_mod_cancel)
  finally have m: "take_bit 26 (- ((- e) mod 2 ^ 30)) = take_bit 26 e"
    by (simp add: mod_minus_eq take_bit_eq_mod)
  have t: "take_bit 26 (word_of_int k :: u32) = word_of_int (take_bit 26 k)" for k
    by (simp add: word_of_int_eq_iff flip: take_bit_of_int)
  have "- (word_of_int ((- e) mod 2 ^ 30) :: u32) = word_of_int (- ((- e) mod 2 ^ 30))"
    by (simp only: of_int_minus)
  then show ?thesis by (simp only: t m)
qed
lemma top6: "(0xFC000000 :: u32) = NOT (mask 26)" by (simp add: mask_eq_exp_minus_1)
lemma not_top6: "(NOT 0xFC000000 :: u32) = mask 26"
  by (simp add: mask_eq_exp_minus_1)
lemma sign_extend_26: "(if take_bit 26 (word_of_int e :: u32) AND 0x2000000 \<noteq> 0
        then take_bit 26 (word_of_int e :: u32) OR 0xFC000000 else take_bit 26 (word_of_int e :: u32))
      = (word_of_int (signed_take_bit 25 e) :: u32)"
proof -
  have p: "(0x2000000 :: u32) = 2 ^ 25" by simp
  have c: "take_bit 26 (word_of_int e :: u32) AND 0x2000000 \<noteq> 0 \<longleftrightarrow> bit e 25"
    by (simp only: p and_exp_eq_0_iff_not_bit) (simp add: bit_simps)
  show ?thesis
  proof (rule bit_word_eqI)
    fix n assume n: "n < LENGTH(32)"
    show "bit (if take_bit 26 (word_of_int e :: u32) AND 0x2000000 \<noteq> 0
        then take_bit 26 (word_of_int e :: u32) OR 0xFC000000 else take_bit 26 (word_of_int e :: u32)) n
      = bit (word_of_int (signed_take_bit 25 e) :: u32) n"
      using n by (cases "n < 26"; cases "n = 25")
        (simp_all add: c top6 bit_simps min_def)
  qed
qed
lemma byte_displacement:
  assumes "- (2 ^ 25) \<le> e" "e < 2 ^ 25"
  shows "scast (word_of_int e * 4 :: u32) = (word_of_int (4 * e) :: u64)"
proof -
  have "word_of_int e * 4 = (word_of_int (4 * e) :: u32)" by simp
  moreover have "signed_take_bit 31 (4 * e) = 4 * e"
    using assms by (intro signed_take_bit_int_eq_self) auto
  ultimately show ?thesis by (simp only: signed_of_int) simp
qed
text \<open>The immediate field is the word displacement, modulo \<open>2 ^ 26\<close>.\<close>

lemma branch_offset_eq:
  assumes "sint (h - a) = 4 * e"
  shows "branch_offset a h = take_bit 26 (word_of_int e)"
proof -
  have "uint (word_of_int (- (4 * e)) div 4 :: u32) = (- e) mod 2 ^ 30"
    by (simp only: uint_div_distrib uint_numeral word_quotient [symmetric]) simp
  then have "(word_of_int (- (4 * e)) div 4 :: u32) = word_of_int ((- e) mod 2 ^ 30)"
    by (metis word_of_int_uint)
  then show ?thesis
    using assms
    by (simp only: branch_offset_take_bit trunc_difference take_bit_neg_quotient)
       (simp flip: take_bit_of_int)
qed

lemma encode_branch_low:
  assumes "take_bit 26 opcode = 0"
  shows "encode_branch opcode a h AND NOT 0xFC000000 = branch_offset a h"
proof -
  have "take_bit 26 (branch_offset a h) = branch_offset a h"
    by (simp add: branch_offset_take_bit)
  with assms show ?thesis
    unfolding encode_branch_def not_top6 take_bit_eq_mask [symmetric]
    by (simp add: take_bit_or)
qed

lemma bl_target_encode:
  assumes op: "take_bit 26 opcode = 0"
    and e: "sint (h - a) = 4 * e" "- (2 ^ 25) \<le> e" "e < 2 ^ 25"
  shows "bl_target a (encode_branch opcode a h) = h"
proof -
  have s: "signed_take_bit 25 e = e"
    using e(2,3) by (intro signed_take_bit_int_eq_self)
  have "bl_target a (encode_branch opcode a h) = a + scast (word_of_int e * 4 :: u32)"
    by (simp only: bl_target_def Let_def encode_branch_low [OF op] branch_offset_eq [OF e(1)]
        sign_extend_26 s)
  also have "\<dots> = a + word_of_int (sint (h - a))"
    by (simp only: byte_displacement [OF e(2,3)] e(1))
  finally show ?thesis by simp
qed

lemma drop_bit_branch_offset: "drop_bit 26 (branch_offset a h) = 0"
  by (simp add: branch_offset_take_bit drop_bit_take_bit)

lemma opcode_of_encode: "drop_bit 26 (encode_branch opcode a h) = drop_bit 26 opcode"
  by (simp add: encode_branch_def drop_bit_branch_offset)

lemma is_bl_encode [simp]: "is_bl (encode_branch REWRITE_MASK_BL a h)"
  using is_bl_REWRITE_MASK_BL by (simp add: is_bl_def opcode_of_encode)

lemma encode_not_svc:
  assumes "opcode = REWRITE_MASK_B \<or> opcode = REWRITE_MASK_BL"
  shows "encode_branch opcode a h \<noteq> SYSCALL_INSTR"
proof
  assume "encode_branch opcode a h = SYSCALL_INSTR"
  then have "drop_bit 26 opcode = drop_bit 26 SYSCALL_INSTR"
    by (metis opcode_of_encode)
  with assms show False
    by (auto simp: SYSCALL_INSTR_def REWRITE_MASK_B_def REWRITE_MASK_BL_def)
qed

lemma low_opcodes [simp]:
  "take_bit 26 REWRITE_MASK_B = 0" "take_bit 26 REWRITE_MASK_BL = 0"
  by (simp_all add: REWRITE_MASK_B_def REWRITE_MASK_BL_def)

lemma bl_target_eq: "bl_target a w = a + word_of_int (4 * signed_take_bit 25 (uint w))"
proof -
  let ?e = "signed_take_bit 25 (uint w)"
  have r: "- (2 ^ 25) \<le> ?e" "?e < 2 ^ 25"
    by (rule signed_take_bit_int_greater_eq_minus_exp, rule signed_take_bit_int_less_exp)
  have "w AND NOT 0xFC000000 = take_bit 26 (word_of_int (uint w))"
    unfolding not_top6 take_bit_eq_mask by simp
  then have "bl_target a w = a + scast (word_of_int ?e * 4 :: u32)"
    by (simp only: bl_target_def Let_def sign_extend_26)
  also have "\<dots> = a + word_of_int (4 * ?e)"
    by (simp only: byte_displacement [OF r])
  finally show ?thesis .
qed

lemma bl_target_range:
  "\<exists>e. - (2 ^ 25) \<le> e \<and> e < 2 ^ 25 \<and> bl_target a w = a + word_of_int (4 * e)"
  using signed_take_bit_int_greater_eq_minus_exp [of 25 "uint w"] signed_take_bit_int_less_exp [of 25 "uint w"]
  by (intro exI [of _ "signed_take_bit 25 (uint w)"]) (simp add: bl_target_eq)

section \<open>Properties\<close>

text \<open>C4: the branch the rewriter encodes at an address, decoded by the identifier's target
  computation, leads to the handler exactly when the displacement is a multiple of 4 within the
  128 MB range of a 26-bit immediate, in either direction; outside that range the rewriter emits
  a branch to some other place without any diagnostic.\<close>

theorem branch_reaches_handler_iff:
  "bl_target a (encode_branch REWRITE_MASK_BL a h) = h \<longleftrightarrow>
     4 dvd sint (h - a) \<and> - (2 ^ 27) \<le> sint (h - a) \<and> sint (h - a) < 2 ^ 27"
proof
  assume t: "bl_target a (encode_branch REWRITE_MASK_BL a h) = h"
  obtain e where e: "- (2 ^ 25) \<le> e" "e < 2 ^ 25" "h = a + word_of_int (4 * e)"
    using bl_target_range t by metis
  then have "sint (h - a) = signed_take_bit 63 (4 * e)"
    by (simp only: add_diff_cancel_left' signed_of_int) simp
  also have "\<dots> = 4 * e"
    using e by (intro signed_take_bit_int_eq_self) auto
  finally show "4 dvd sint (h - a) \<and> - (2 ^ 27) \<le> sint (h - a) \<and> sint (h - a) < 2 ^ 27"
    using e by simp
next
  assume r: "4 dvd sint (h - a) \<and> - (2 ^ 27) \<le> sint (h - a) \<and> sint (h - a) < 2 ^ 27"
  then obtain e where e: "sint (h - a) = 4 * e" by (auto simp: dvd_def)
  with r show "bl_target a (encode_branch REWRITE_MASK_BL a h) = h"
    by (intro bl_target_encode [OF _ e]) auto
qed

text \<open>The mapping covers the code segment, is a whole number of pages and wastes less than
  a page, as long as the rounded size fits the 32-bit variable that holds it.\<close>

theorem map_size_rounds_up:
  assumes "unat sz \<le> 2 ^ 32 - 4096"
  shows "unat sz \<le> unat (map_size sz) \<and> unat (map_size sz) < unat sz + 4096
    \<and> unat (map_size sz) mod 4096 = 0"
proof -
  let ?n = "unat sz"
  have m: "sz mod of_nat PAGE_SIZE = 0 \<longleftrightarrow> ?n mod 4096 = 0"
  proof -
    have "unat (sz mod of_nat PAGE_SIZE) = ?n mod 4096"
      by (simp only: unat_mod_distrib PAGE_SIZE_def) simp
    then show ?thesis by (metis unsigned_eq_0_iff)
  qed
  show ?thesis
  proof (cases "?n mod 4096 = 0")
    case True
    then have "map_size sz = ucast sz" using m by (simp add: map_size_def)
    moreover have "unat (ucast sz :: u32) = ?n"
      using assms by (simp add: unsigned_ucast_eq take_bit_nat_eq_self)
    ultimately show ?thesis using True by simp
  next
    case False
    let ?k = "(?n div 4096 + 1) * 4096"
    define q r where "q = ?n div 4096" and "r = ?n mod 4096"
    have n: "?n = q * 4096 + r" "r < 4096" "0 < r"
      using False by (simp_all add: q_def r_def)
    have k: "?n \<le> ?k" "?k < ?n + 4096"
      using n by (simp_all add: algebra_simps flip: q_def)
    have "?n \<le> 4294963200" using assms by simp
    with n have k32: "?k < 2 ^ 32" by (simp flip: q_def)
    have "unat (sz div of_nat PAGE_SIZE) = ?n div 4096"
      by (simp only: unat_div_distrib PAGE_SIZE_def) simp
    then have "sz div of_nat PAGE_SIZE = of_nat (?n div 4096)"
      by (metis of_nat_unat ucast_id)
    then have "(sz div of_nat PAGE_SIZE + 1) * of_nat PAGE_SIZE = (of_nat ?k :: u64)"
      by (simp only: PAGE_SIZE_def of_nat_mult of_nat_add of_nat_1)
    then have "map_size sz = ucast (of_nat ?k :: u64)" using False m by (simp add: map_size_def)
    moreover have "take_bit LENGTH(32) (take_bit LENGTH(64) ?k) = ?k"
      using k32 by (simp add: take_bit_nat_eq_self)
    ultimately have "unat (map_size sz) = ?k"
      by (simp only: unsigned_ucast_eq unsigned_of_nat of_nat_id)
    then show ?thesis using k by simp
  qed
qed

theorem map_size_rounds_up_witness:
  "unat (4097 :: u64) \<le> unat (map_size 4097) \<and> unat (map_size 4097) < unat (4097 :: u64) + 4096
    \<and> unat (map_size 4097) mod 4096 = 0"
  by (rule map_size_rounds_up) simp

end
