(* ===== verification/Br_Elf.thy ===== *)
theory Br_Elf
  imports Prelude
begin

text \<open>
  \<open>tools/arm-binary-rewriter/br-elf.c\<close>: the scan of the program headers that both ARM tools
  use to find the code segment. The ELF library (libelf) is not part of the repository: what
  its calls return is the argument \<open>elf_view\<close>, one outcome per call the function makes.
\<close>

record phdr =
  p_flags :: u32
  p_vaddr :: u64
  p_filesz :: u64
  p_offset :: u64

text \<open>What libelf and the operating system answer; \<open>None\<close> is the failing return value.\<close>

record elf_view =
  version_ok :: bool
  open_ok :: bool
  begin_ok :: bool
  is_elf :: bool
  phdrnum :: "nat option"
  getphdr :: "nat \<Rightarrow> phdr option"

datatype elf_error =
  ElfVersion | ElfOpen | ElfBegin | ElfKind | ElfPhdrnum | ElfGetphdr | ElfSegments nat

definition PF_X :: u32 where "PF_X = 1"

record segment =
  vaddr :: u64
  seg_size :: u64
  offset :: u64

text \<open>The loop: the number of executable segments seen and the outputs written so far.\<close>

fun scan_phdrs ::
  "elf_view \<Rightarrow> nat list \<Rightarrow> nat \<Rightarrow> segment \<Rightarrow> elf_error + nat \<times> segment" where
  "scan_phdrs e [] exec_segments out = Inr (exec_segments, out)"
| "scan_phdrs e (i # is) exec_segments out =
     (case getphdr e i of
        None \<Rightarrow> Inl ElfGetphdr
      | Some ph \<Rightarrow>
          if p_flags ph AND PF_X \<noteq> 0
          then scan_phdrs e is (exec_segments + 1)
                 \<lparr>vaddr = p_vaddr ph, seg_size = p_filesz ph, offset = p_offset ph\<rparr>
          else scan_phdrs e is exec_segments out)"

definition parse_elf :: "elf_view \<Rightarrow> segment \<Rightarrow> elf_error + segment" where
  "parse_elf e out =
     (if \<not> version_ok e then Inl ElfVersion
      else if \<not> open_ok e then Inl ElfOpen
      else if \<not> begin_ok e then Inl ElfBegin
      else if \<not> is_elf e then Inl ElfKind
      else case phdrnum e of
          None \<Rightarrow> Inl ElfPhdrnum
        | Some n \<Rightarrow>
            (case scan_phdrs e [0..<n] 0 out of
               Inl err \<Rightarrow> Inl err
             | Inr (exec_segments, out') \<Rightarrow>
                 if exec_segments \<noteq> 1 then Inl (ElfSegments exec_segments) else Inr out'))"

section \<open>The segment that is returned\<close>

definition executable :: "elf_view \<Rightarrow> nat \<Rightarrow> bool" where
  "executable e i \<longleftrightarrow> (\<exists>ph. getphdr e i = Some ph \<and> p_flags ph AND PF_X \<noteq> 0)"

lemma executable_Some: "getphdr e i = Some ph \<Longrightarrow> executable e i \<longleftrightarrow> p_flags ph AND PF_X \<noteq> 0"
  by (simp add: executable_def)

lemma scan_phdrs_count:
  "scan_phdrs e is k out = Inr (n, out') \<Longrightarrow> n = k + length (filter (executable e) is)"
proof (induction "is" arbitrary: k out)
  case Nil
  then show ?case by simp
next
  case (Cons i "is")
  then obtain ph where "getphdr e i = Some ph" by (auto split: option.splits)
  with Cons.prems show ?case
    by (auto simp: executable_Some split: if_splits dest: Cons.IH)
qed

lemma scan_phdrs_none:
  "scan_phdrs e is k out = Inr (k, out') \<Longrightarrow> out' = out"
  by (induction "is" arbitrary: out)
     (auto split: option.splits if_splits dest: scan_phdrs_count)

lemma scan_phdrs_one:
  assumes "scan_phdrs e is k out = Inr (Suc k, out')"
  shows "\<exists>i ph. filter (executable e) is = [i] \<and> getphdr e i = Some ph
    \<and> out' = \<lparr>vaddr = p_vaddr ph, seg_size = p_filesz ph, offset = p_offset ph\<rparr>"
  using assms
proof (induction "is" arbitrary: out)
  case Nil
  then show ?case by simp
next
  case (Cons i "is")
  from Cons.prems obtain ph where ph: "getphdr e i = Some ph" by (auto split: option.splits)
  show ?case
  proof (cases "p_flags ph AND PF_X = 0")
    case True
    with Cons ph show ?thesis by (auto simp: executable_Some)
  next
    case False
    let ?o = "\<lparr>vaddr = p_vaddr ph, seg_size = p_filesz ph, offset = p_offset ph\<rparr>"
    from Cons.prems ph False have r: "scan_phdrs e is (Suc k) ?o = Inr (Suc k, out')" by simp
    then have "out' = ?o" by (rule scan_phdrs_none)
    moreover have "filter (executable e) is = []"
      using scan_phdrs_count [OF r] by simp
    ultimately show ?thesis using ph False by (auto simp: executable_Some)
  qed
qed

lemma scan_phdrs_total:
  "\<forall>i \<in> set is. getphdr e i \<noteq> None \<Longrightarrow> \<exists>r. scan_phdrs e is k out = Inr r"
  by (induction "is" arbitrary: k out) auto

section \<open>Properties\<close>

text \<open>When libelf answers every call, \<open>parse_elf\<close> succeeds exactly if one program header is
  executable, and then returns that header's address, file size and file offset; any other
  number of executable headers is the reported error.\<close>

theorem parse_elf_unique_segment:
  assumes "version_ok e" "open_ok e" "begin_ok e" "is_elf e" "phdrnum e = Some n"
    and "\<forall>i < n. getphdr e i \<noteq> None"
  shows "parse_elf e out = Inr seg \<longleftrightarrow>
    (\<exists>i ph. filter (executable e) [0..<n] = [i] \<and> getphdr e i = Some ph
       \<and> seg = \<lparr>vaddr = p_vaddr ph, seg_size = p_filesz ph, offset = p_offset ph\<rparr>)"
    (is "?L = ?R")
proof -
  obtain k out' where r: "scan_phdrs e [0..<n] 0 out = Inr (k, out')"
    using scan_phdrs_total [of "[0..<n]" e 0 out] assms(6) by auto
  have k: "k = length (filter (executable e) [0..<n])"
    using scan_phdrs_count [OF r] by simp
  show ?thesis
  proof (cases "k = 1")
    case True
    with r scan_phdrs_one [of e "[0..<n]" 0 out out'] show ?thesis
      using assms(1-5) by (auto simp: parse_elf_def)
  next
    case False
    with r k show ?thesis using assms(1-5) by (auto simp: parse_elf_def)
  qed
qed

definition sample_elf :: elf_view where
  "sample_elf = \<lparr>version_ok = True, open_ok = True, begin_ok = True, is_elf = True,
     phdrnum = Some 2,
     getphdr = (\<lambda>i. Some (if i = 1
        then \<lparr>p_flags = 5, p_vaddr = 0x400000, p_filesz = 64, p_offset = 0x1000\<rparr>
        else \<lparr>p_flags = 4, p_vaddr = 0, p_filesz = 16, p_offset = 0\<rparr>))\<rparr>"

theorem parse_elf_unique_segment_witness:
  "parse_elf sample_elf \<lparr>vaddr = 0, seg_size = 0, offset = 0\<rparr> =
     Inr \<lparr>vaddr = 0x400000, seg_size = 64, offset = 0x1000\<rparr>"
proof -
  have "filter (executable sample_elf) [0..<2] = [1]"
    by (simp add: executable_def sample_elf_def PF_X_def numeral_2_eq_2)
  then show ?thesis
    by (subst parse_elf_unique_segment [where n = 2]) (auto simp: sample_elf_def)
qed

end
