(* ===== verification/Arm_Rewriter.thy ===== *)
theory Arm_Rewriter
  imports Arm_Branch Br_Elf
begin

text \<open>
  \<open>tools/arm-binary-rewriter/main.c\<close>: the program that replaces \<open>SVC\<close> instructions of an
  AArch64 binary by branches to HermiTux's system call handler. The mapped code segment is a
  byte memory, the list of system call sites comes from a text file; the main loop returns the
  memory it leaves (the mapping is shared, so partial work persists) together with how it ended.
\<close>

record config =
  binary_name :: string
  code_vaddr :: u64
  code_size :: u64
  file_offset :: u64

record scall =
  addr :: u64
  whitelisted :: bool

section \<open>Reading the list of system calls\<close>

text \<open>\<open>fgets\<close>: at most \<open>n\<close> characters, up to and including a newline.\<close>

fun fgets :: "nat \<Rightarrow> string \<Rightarrow> string \<times> string" where
  "fgets 0 s = ([], s)"
| "fgets (Suc n) [] = ([], [])"
| "fgets (Suc n) (c # cs) =
     (if c = CHR 0x0A then ([c], cs) else (let (l, r) = fgets n cs in (c # l, r)))"

lemma fgets_shorter: "fgets n s = (l, r) \<Longrightarrow> length l + length r = length s"
  by (induction n s arbitrary: l rule: fgets.induct) (auto split: if_splits prod.splits)

text \<open>
  \<open>sscanf(tmp, "0x%llx: %s\n", &addr, white)\<close>: \<open>None\<close> where a conversion fails and the code
  goes on with uninitialised variables, or where \<open>white[12]\<close> overflows.
\<close>

definition scan_line :: "string \<Rightarrow> (u64 \<times> string) option" where
  "scan_line line =
     (case line of
        z # x # cs \<Rightarrow>
          if z = CHR ''0'' \<and> x = CHR ''x'' then
            (case scan_hex cs of
               None \<Rightarrow> None
             | Some (neg, n, r) \<Rightarrow>
                 let a = (if 2 ^ 64 \<le> n then - 1 else if neg then - of_nat n else of_nat n) in
                 (case r of
                    [] \<Rightarrow> None
                  | colon # r' \<Rightarrow>
                      if colon = CHR '':'' then
                        (let white = takeWhile (\<lambda>c. \<not> c_isspace c) (skip_space r')
                         in if white = [] \<or> 12 \<le> length white then None else Some (a, white))
                      else None))
          else None
      | _ \<Rightarrow> None)"

function create_syscall_list :: "string \<Rightarrow> scall list option" where
  "create_syscall_list stream =
     (if stream = [] then Some []
      else let (line, rest) = fgets 63 stream in
        (case scan_line line of
           None \<Rightarrow> None
         | Some (a, white) \<Rightarrow>
             map_option ((#) \<lparr>addr = a, whitelisted = (white = ''True'')\<rparr>)
               (create_syscall_list rest)))"
  by pat_completeness auto
termination
proof (relation "measure length")
  fix stream :: string and x line rest
  assume a: "stream \<noteq> []" "x = fgets 63 stream" "(line, rest) = x"
  have "line \<noteq> []" using a
    by (cases stream) (auto simp: numeral_eq_Suc split: if_splits prod.splits)
  moreover have "length line + length rest = length stream"
    using a by (intro fgets_shorter [of 63]) simp
  ultimately show "(rest, stream) \<in> measure length"
    by (cases line) auto
qed simp

declare create_syscall_list.simps [simp del]

section \<open>The rewriting loop\<close>

datatype site_result =
    SiteFault                \<comment> \<open>an access outside the mapping\<close>
  | SiteNotSyscall u64       \<comment> \<open>the word at the address is not \<open>SVC\<close>: \<open>exit(-1)\<close>\<close>
  | SiteRewritten bytes
  | SiteKept

text \<open>The disjunction over the neighbouring words, evaluated left to right.\<close>

fun any_bl :: "bytes \<Rightarrow> int list \<Rightarrow> bool option" where
  "any_bl m [] = Some False"
| "any_bl m (off # offs) =
     (case read32 m off of
        None \<Rightarrow> None
      | Some w \<Rightarrow> if drop_bit 26 w = drop_bit 26 REWRITE_MASK_BL then Some True else any_bl m offs)"

definition bl_nearby :: "bytes \<Rightarrow> int \<Rightarrow> bool option" where
  "bl_nearby m off = any_bl m [off + 4, off + 8, off + 12, off - 4, off - 8, off - 12]"

definition patch :: "bytes \<Rightarrow> int \<Rightarrow> u32 \<Rightarrow> u64 \<Rightarrow> u64 \<Rightarrow> site_result" where
  "patch m off opcode a handler =
     (case write32 m off (encode_branch opcode a handler) of
        None \<Rightarrow> SiteFault | Some m' \<Rightarrow> SiteRewritten m')"

text \<open>\<open>ptr = map + addr - code_vaddr\<close>, as a byte offset from \<open>map\<close>, and the address read back.\<close>

definition site_off :: "config \<Rightarrow> scall \<Rightarrow> int" where
  "site_off cfg sc = sint (addr sc - code_vaddr cfg)"

definition site_addr :: "config \<Rightarrow> scall \<Rightarrow> u64" where
  "site_addr cfg sc = word_of_int (site_off cfg sc) + code_vaddr cfg"

definition rewrite_site :: "config \<Rightarrow> u64 \<Rightarrow> bytes \<Rightarrow> scall \<Rightarrow> site_result" where
  "rewrite_site cfg handler m sc =
     (let off = site_off cfg sc; a = site_addr cfg sc in
      case read32 m off of
        None \<Rightarrow> SiteFault
      | Some instr \<Rightarrow>
          if instr \<noteq> SYSCALL_INSTR then SiteNotSyscall a
          else if whitelisted sc then patch m off REWRITE_MASK_BL a handler
          else case read32 m (off + 4) of
              None \<Rightarrow> SiteFault
            | Some next_instr \<Rightarrow>
                if next_instr = RET_CODE then patch m off REWRITE_MASK_B a handler
                else case bl_nearby m off of
                    None \<Rightarrow> SiteFault
                  | Some True \<Rightarrow> patch m off REWRITE_MASK_BL a handler
                  | Some False \<Rightarrow> SiteKept)"

datatype loop_result =
    LoopFault bytes | LoopNotSyscall u64 bytes | LoopDone bytes nat

fun rewrite_loop :: "config \<Rightarrow> u64 \<Rightarrow> bytes \<Rightarrow> nat \<Rightarrow> scall list \<Rightarrow> loop_result" where
  "rewrite_loop cfg handler m syscall_rewritten [] = LoopDone m syscall_rewritten"
| "rewrite_loop cfg handler m syscall_rewritten (sc # scs) =
     (case rewrite_site cfg handler m sc of
        SiteFault \<Rightarrow> LoopFault m
      | SiteNotSyscall a \<Rightarrow> LoopNotSyscall a m
      | SiteRewritten m' \<Rightarrow> rewrite_loop cfg handler m' (Suc syscall_rewritten) scs
      | SiteKept \<Rightarrow> rewrite_loop cfg handler m syscall_rewritten scs)"

section \<open>The program\<close>

datatype rewriter_outcome =
    Usage
  | NoSyscallList                \<comment> \<open>\<open>fopen\<close> failed and \<open>fgets\<close> reads through NULL\<close>
  | BadSyscallList               \<comment> \<open>undefined behaviour while reading the list\<close>
  | ElfFailure elf_error
  | NameOverflow                 \<comment> \<open>\<open>strcpy\<close> past \<open>binary_name[128]\<close>\<close>
  | CannotOpen
  | MmapFailed
  | Faulted bytes
  | NotASyscall u64 bytes
  | DivisionByZero bytes         \<comment> \<open>the percentage of an empty list\<close>
  | RewriteDone bytes nat nat nat

definition rewriter_main ::
  "string list \<Rightarrow> string option \<Rightarrow> elf_view \<Rightarrow> bool \<Rightarrow> (u32 \<Rightarrow> u64 \<Rightarrow> bytes option) \<Rightarrow> rewriter_outcome"
  where
  "rewriter_main argv list_file elf openable mmap =
     (if length argv \<noteq> 4 then Usage
      else case list_file of
        None \<Rightarrow> NoSyscallList
      | Some stream \<Rightarrow>
      (case create_syscall_list stream of
        None \<Rightarrow> BadSyscallList
      | Some syscall_list \<Rightarrow>
          let handler = (scast (word_of_int (strtol16 (argv ! 2)) :: u32) :: u64) in
          (case parse_elf elf \<lparr>vaddr = 0, seg_size = 0, offset = 0\<rparr> of
             Inl err \<Rightarrow> ElfFailure err
           | Inr seg \<Rightarrow>
               let cfg = \<lparr>binary_name = argv ! 1, code_vaddr = vaddr seg,
                          code_size = seg_size seg, file_offset = offset seg\<rparr> in
               if 128 \<le> length (argv ! 1) then NameOverflow
               else if \<not> openable then CannotOpen
               else case mmap (map_size (code_size cfg)) (file_offset cfg) of
                   None \<Rightarrow> MmapFailed
                 | Some m \<Rightarrow>
                     (case rewrite_loop cfg handler m 0 syscall_list of
                        LoopFault m' \<Rightarrow> Faulted m'
                      | LoopNotSyscall a m' \<Rightarrow> NotASyscall a m'
                      | LoopDone m' k \<Rightarrow>
                          let n = length syscall_list in
                          if n = 0 then DivisionByZero m'
                          else RewriteDone m' k n (k * 100 div n)))))"

section \<open>What one site does to the memory\<close>

lemma patch_cases:
  "patch m off opcode a h = SiteRewritten m' \<longleftrightarrow> write32 m off (encode_branch opcode a h) = Some m'"
  "patch m off opcode a h \<noteq> SiteKept" "patch m off opcode a h \<noteq> SiteNotSyscall b"
  by (auto simp: patch_def split: option.splits)

lemma site_addr_eq [simp]: "site_addr cfg sc = addr sc"
  by (simp add: site_addr_def site_off_def)

definition links_handler :: "u64 \<Rightarrow> u64 \<Rightarrow> u32 \<Rightarrow> bool" where
  "links_handler a h w \<longleftrightarrow>
     w = encode_branch REWRITE_MASK_BL a h \<or> w = encode_branch REWRITE_MASK_B a h"

lemma links_handler_not_svc [simp]: "links_handler a h w \<Longrightarrow> w \<noteq> SYSCALL_INSTR"
  by (metis encode_not_svc links_handler_def)

lemma links_handler_not_ret: "links_handler a h w \<Longrightarrow> w \<noteq> RET_CODE"
proof
  assume "links_handler a h w" "w = RET_CODE"
  then have "drop_bit 26 RET_CODE = drop_bit 26 REWRITE_MASK_BL \<or> drop_bit 26 RET_CODE = drop_bit 26 REWRITE_MASK_B"
    unfolding links_handler_def by (metis opcode_of_encode)
  then show False by (auto simp: RET_CODE_def REWRITE_MASK_B_def REWRITE_MASK_BL_def)
qed

text \<open>The branch a site gets: with a link, but for a call in front of a return.\<close>

definition site_branch :: "config \<Rightarrow> u64 \<Rightarrow> bytes \<Rightarrow> scall \<Rightarrow> u32" where
  "site_branch cfg h m sc = encode_branch
     (if \<not> whitelisted sc \<and> read32 m (site_off cfg sc + 4) = Some RET_CODE then REWRITE_MASK_B
      else REWRITE_MASK_BL) (addr sc) h"

lemma links_site_branch: "links_handler (addr sc) h (site_branch cfg h m sc)"
  by (simp add: links_handler_def site_branch_def)

text \<open>A rewritten site was an \<open>SVC\<close> and becomes a branch; exactly its four bytes are written.\<close>

lemma rewrite_site_rewritten:
  assumes "rewrite_site cfg h m sc = SiteRewritten m'"
  shows "read32 m (site_off cfg sc) = Some SYSCALL_INSTR
    \<and> write32 m (site_off cfg sc) (site_branch cfg h m sc) = Some m'"
  using assms
  by (auto simp: rewrite_site_def Let_def patch_cases site_branch_def
      split: option.splits if_splits bool.splits)

lemma rewrite_site_kept:
  assumes "rewrite_site cfg h m sc = SiteKept"
  shows "read32 m (site_off cfg sc) = Some SYSCALL_INSTR \<and> \<not> whitelisted sc
    \<and> bl_nearby m (site_off cfg sc) = Some False
    \<and> read32 m (site_off cfg sc + 4) \<noteq> Some RET_CODE"
  using assms
  by (auto simp: rewrite_site_def Let_def patch_cases split: option.splits if_splits bool.splits)

lemmas rewrite_site_results = rewrite_site_rewritten rewrite_site_kept

lemma rewrite_site_length: "rewrite_site cfg h m sc = SiteRewritten m' \<Longrightarrow> length m' = length m"
  by (auto dest: rewrite_site_rewritten write32_length)

section \<open>The loop: frame and result\<close>

fun loop_memory :: "loop_result \<Rightarrow> bytes" where
  "loop_memory (LoopFault m) = m"
| "loop_memory (LoopNotSyscall a m) = m"
| "loop_memory (LoopDone m k) = m"

definition off_site :: "config \<Rightarrow> nat \<Rightarrow> scall \<Rightarrow> bool" where
  "off_site cfg i sc \<longleftrightarrow> int i < site_off cfg sc \<or> site_off cfg sc + 4 \<le> int i"

lemma rewrite_loop_frame_aux:
  "length (loop_memory (rewrite_loop cfg h m k scs)) = length m
   \<and> (i < length m \<longrightarrow> (\<forall>sc \<in> set scs. off_site cfg i sc) \<longrightarrow>
        loop_memory (rewrite_loop cfg h m k scs) ! i = m ! i)"
proof (induction scs arbitrary: m k)
  case Nil
  then show ?case by simp
next
  case (Cons sc scs)
  show ?case
  proof (cases "rewrite_site cfg h m sc")
    case (SiteRewritten m')
    from rewrite_site_rewritten [OF this] obtain w where
      w: "write32 m (site_off cfg sc) w = Some m'" by blast
    have "m' ! i = m ! i" if "i < length m" "off_site cfg i sc"
      using write32_frame [OF w] that by (simp add: off_site_def)
    with Cons.IH [of m' "Suc k"] rewrite_site_length [OF SiteRewritten] SiteRewritten show ?thesis
      by simp
  qed (use Cons.IH in simp_all)
qed

definition apart :: "int \<Rightarrow> int \<Rightarrow> bool" where
  "apart x y \<longleftrightarrow> x + 4 \<le> y \<or> y + 4 \<le> x"

text \<open>No two sites overlap, and they are at the same position within their words.\<close>

fun sites_apart :: "config \<Rightarrow> scall list \<Rightarrow> bool" where
  "sites_apart cfg [] = True"
| "sites_apart cfg (sc # scs) =
     ((\<forall>sc' \<in> set scs. apart (site_off cfg sc) (site_off cfg sc') \<and> 4 dvd (site_off cfg sc - site_off cfg sc'))
      \<and> sites_apart cfg scs)"

lemma rewrite_site_other:
  assumes "rewrite_site cfg h m sc = SiteRewritten m'" "apart (site_off cfg sc) x"
  shows "read32 m' x = read32 m x"
proof -
  obtain w where "write32 m (site_off cfg sc) w = Some m'"
    using rewrite_site_rewritten [OF assms(1)] by blast
  then show ?thesis
    by (rule read32_write32_other) (use assms(2) in \<open>auto simp: apart_def\<close>)
qed

text \<open>Rewriting a site neither makes nor removes a return in front of another site.\<close>

lemma rewrite_site_ret:
  assumes "rewrite_site cfg h m sc = SiteRewritten m'" "apart (site_off cfg sc) x" "4 dvd (site_off cfg sc - x)"
  shows "read32 m' (x + 4) = Some RET_CODE \<longleftrightarrow> read32 m (x + 4) = Some RET_CODE"
proof (cases "site_off cfg sc = x + 4")
  case True
  have "read32 m (x + 4) = Some SYSCALL_INSTR" "write32 m (x + 4) (site_branch cfg h m sc) = Some m'"
    using rewrite_site_rewritten [OF assms(1)] True by simp_all
  moreover from this(2) have "read32 m' (x + 4) = Some (site_branch cfg h m sc)"
    by (rule read32_write32_same)
  moreover have "site_branch cfg h m sc \<noteq> RET_CODE"
    using links_handler_not_ret [OF links_site_branch] by blast
  ultimately show ?thesis by (simp add: SYSCALL_INSTR_def RET_CODE_def)
next
  case False
  then have "apart (site_off cfg sc) (x + 4)"
    using assms(2,3) unfolding apart_def by presburger
  then show ?thesis using rewrite_site_other [OF assms(1)] by simp
qed

lemma rewrite_loop_other:
  assumes "rewrite_loop cfg h m k scs = LoopDone m' k'"
    and "\<forall>sc \<in> set scs. apart (site_off cfg sc) x"
  shows "read32 m' x = read32 m x"
  using assms
proof (induction scs arbitrary: m k)
  case Nil
  then show ?case by simp
next
  case (Cons sc scs)
  then show ?case
    by (cases "rewrite_site cfg h m sc") (auto simp: rewrite_site_other)
qed

definition rewritten :: "config \<Rightarrow> bytes \<Rightarrow> scall \<Rightarrow> bool" where
  "rewritten cfg m sc \<longleftrightarrow> read32 m (site_off cfg sc) \<noteq> Some SYSCALL_INSTR"

definition site_ok :: "config \<Rightarrow> u64 \<Rightarrow> bytes \<Rightarrow> bytes \<Rightarrow> scall \<Rightarrow> bool" where
  "site_ok cfg h m m' sc \<longleftrightarrow>
     read32 m (site_off cfg sc) = Some SYSCALL_INSTR \<and>
     (read32 m' (site_off cfg sc) = Some (site_branch cfg h m sc) \<or>
      read32 m' (site_off cfg sc) = Some SYSCALL_INSTR \<and> \<not> whitelisted sc \<and>
        read32 m (site_off cfg sc + 4) \<noteq> Some RET_CODE)"

lemma rewrite_loop_sites_aux:
  assumes "rewrite_loop cfg h m k scs = LoopDone m' k'" "sites_apart cfg scs"
  shows "(\<forall>sc \<in> set scs. site_ok cfg h m m' sc)
    \<and> k' = k + length (filter (rewritten cfg m') scs)"
  using assms
proof (induction scs arbitrary: m k)
  case Nil
  then show ?case by simp
next
  case (Cons sc scs)
  let ?x = "site_off cfg sc"
  have ap: "\<forall>sc' \<in> set scs. apart (site_off cfg sc') ?x" "sites_apart cfg scs"
    using Cons.prems(2) by (auto simp: apart_def)
  show ?case
  proof (cases "rewrite_site cfg h m sc")
    case (SiteRewritten m1)
    let ?w = "site_branch cfg h m sc"
    from rewrite_site_rewritten [OF SiteRewritten] have
      w: "read32 m ?x = Some SYSCALL_INSTR" "write32 m ?x ?w = Some m1" by simp_all
    have run: "rewrite_loop cfg h m1 (Suc k) scs = LoopDone m' k'"
      using Cons.prems(1) SiteRewritten by simp
    have IH: "\<forall>sc \<in> set scs. site_ok cfg h m1 m' sc"
        "k' = Suc k + length (filter (rewritten cfg m') scs)"
      using Cons.IH [OF run ap(2)] by auto
    have "read32 m' ?x = Some ?w"
      using rewrite_loop_other [OF run ap(1)] read32_write32_same [OF w(2)] by simp
    moreover from this have "rewritten cfg m' sc"
      using links_handler_not_svc [OF links_site_branch] by (simp add: rewritten_def)
    moreover have "site_ok cfg h m m' sc'" if "sc' \<in> set scs" for sc'
    proof -
      have x: "apart ?x (site_off cfg sc')" "4 dvd (?x - site_off cfg sc')" using that Cons.prems(2) by simp_all
      have "site_ok cfg h m1 m' sc'" using IH(1) that by blast
      then show ?thesis
        unfolding site_ok_def site_branch_def
          rewrite_site_other [OF SiteRewritten x(1)] rewrite_site_ret [OF SiteRewritten x] .
    qed
    ultimately show ?thesis using IH w by (auto simp: site_ok_def)
  next
    case SiteKept
    have run: "rewrite_loop cfg h m k scs = LoopDone m' k'"
      using Cons.prems(1) SiteKept by simp
    from rewrite_site_kept [OF SiteKept] rewrite_loop_other [OF run ap(1)]
    have "site_ok cfg h m m' sc" "\<not> rewritten cfg m' sc"
      by (auto simp: site_ok_def rewritten_def)
    with Cons.IH [OF run ap(2)] show ?thesis by simp
  qed (use Cons.prems in simp_all)
qed

section \<open>The list format\<close>

text \<open>
  A line as \<open>tools/arm-binary-rewriter/analyze-syscalls.py\<close> prints it (line 115):
  \<open>hex(s) + ": " + str(whitelisted)\<close>.
\<close>

definition hex_char :: "nat \<Rightarrow> char" where
  "hex_char d = (if d < 10 then char_of (48 + d) else char_of (87 + d))"

fun hex_str :: "nat \<Rightarrow> string" where
  "hex_str n = (if n < 16 then [hex_char n] else hex_str (n div 16) @ [hex_char (n mod 16)])"

declare hex_str.simps [simp del]

definition analyzer_line :: "scall \<Rightarrow> string" where
  "analyzer_line sc =
     ''0x'' @ hex_str (unat (addr sc)) @ '': '' @ (if whitelisted sc then ''True'' else ''False'')
       @ [CHR 0x0A]"

lemma hex_val_hex_char: "d < 16 \<Longrightarrow> hex_val (hex_char d) = Some d"
  by (auto simp: hex_val_def hex_char_def Let_def of_char_of)

lemma hex_digits_str:
  "hex_digits acc (hex_str n @ r) = hex_digits (acc * 16 ^ length (hex_str n) + n) r"
proof (induction n arbitrary: acc r rule: hex_str.induct)
  case (1 n)
  show ?case
  proof (cases "n < 16")
    case True
    then show ?thesis
      by (subst (1 2) hex_str.simps) (simp add: hex_val_hex_char mult.commute)
  next
    case False
    then have "hex_digits acc (hex_str n @ r) =
        hex_digits acc (hex_str (n div 16) @ (hex_char (n mod 16) # r))"
      by (subst hex_str.simps) simp
    also have "\<dots> = hex_digits (16 * (acc * 16 ^ length (hex_str (n div 16)) + n div 16) + n mod 16) r"
      using 1 [OF False] by (simp add: hex_val_hex_char)
    also have "16 * (acc * 16 ^ length (hex_str (n div 16)) + n div 16) + n mod 16
        = acc * 16 ^ length (hex_str n) + n"
      using False by (subst (2) hex_str.simps) (simp add: algebra_simps)
    finally show ?thesis .
  qed
qed

lemma hex_str_chars: "\<forall>c \<in> set (hex_str n). hex_val c \<noteq> None"
proof (induction n rule: hex_str.induct)
  case (1 n)
  then show ?case
    by (subst hex_str.simps) (auto simp: hex_val_hex_char)
qed

lemma hex_str_Cons: "\<exists>c cs. hex_str n = c # cs"
  by (subst hex_str.simps) (cases "hex_str (n div 16)"; simp)

lemma length_hex_str: "n < 16 ^ k \<Longrightarrow> 0 < k \<Longrightarrow> length (hex_str n) \<le> k"
proof (induction n arbitrary: k rule: hex_str.induct)
  case (1 n)
  show ?case
  proof (cases "n < 16")
    case True
    with 1(3) show ?thesis by (subst hex_str.simps) simp
  next
    case False
    with 1(2) obtain k' where k: "k = Suc k'" "0 < k'" by (cases k; cases "k - 1") auto
    with 1(2) have "n div 16 < 16 ^ k'" by (simp add: less_mult_imp_div_less mult.commute)
    with 1(1) [OF False, of k'] k False show ?thesis by (subst hex_str.simps) simp
  qed
qed

lemma hex_not_special: "hex_val c \<noteq> None \<Longrightarrow>
  \<not> c_isspace c \<and> c \<noteq> CHR ''-'' \<and> c \<noteq> CHR ''+'' \<and> c \<noteq> CHR ''x'' \<and> c \<noteq> CHR ''X'' \<and> c \<noteq> CHR 0x0A"
  by (auto simp: hex_val_def c_isspace_def Let_def split: if_splits)

lemma scan_hex_str:
  assumes "hex_val c = None" "c \<noteq> CHR ''x''" "c \<noteq> CHR ''X''"
  shows "scan_hex (hex_str n @ c # r) = Some (False, n, c # r)"
proof -
  obtain d ds where d: "hex_str n = d # ds" using hex_str_Cons by blast
  have h: "hex_val d \<noteq> None" "\<forall>x \<in> set ds. hex_val x \<noteq> None"
    using hex_str_chars [of n] d by auto
  have sp: "skip_space (hex_str n @ c # r) = hex_str n @ c # r"
    using d hex_not_special [OF h(1)] by simp
  have "drop_0x (hex_str n @ c # r) = hex_str n @ c # r"
  proof (cases ds)
    case Nil
    with d assms show ?thesis by (cases r) (simp_all add: drop_0x_def)
  next
    case (Cons e es)
    with h(2) have "e \<noteq> CHR ''x''" "e \<noteq> CHR ''X''" using hex_not_special by auto
    with d Cons show ?thesis by (simp add: drop_0x_def split: list.splits)
  qed
  moreover have "hex_digits 0 (hex_str n @ c # r) = (n, c # r)"
    using assms(1) by (simp add: hex_digits_str)
  ultimately show ?thesis
    using d h(1) hex_not_special [OF h(1)] unfolding scan_hex_def sp Let_def
    by auto
qed

lemma fgets_line:
  "CHR 0x0A \<notin> set l \<Longrightarrow> length l < n \<Longrightarrow> fgets n (l @ CHR 0x0A # r) = (l @ [CHR 0x0A], r)"
proof (induction l arbitrary: n)
  case Nil
  then show ?case by (cases n) auto
next
  case (Cons c l)
  then show ?case by (cases n) auto
qed

lemma scan_analyzer_line:
  "scan_line (analyzer_line sc) =
     Some (addr sc, if whitelisted sc then ''True'' else ''False'')"
proof -
  have s: "scan_hex (hex_str (unat (addr sc)) @ CHR '':'' # r)
      = Some (False, unat (addr sc), CHR '':'' # r)" for r
    by (rule scan_hex_str) (simp_all add: hex_val_def)
  have b: "\<not> 2 ^ 64 \<le> unat (addr sc)" using unat_bound [of "addr sc"] by simp
  have n: "(of_nat (unat (addr sc)) :: u64) = addr sc" by simp
  show ?thesis
    unfolding scan_line_def analyzer_line_def
    by (simp add: s n, use b in \<open>simp add: Let_def c_isspace_def\<close>)
qed

lemma analyzer_line_shape:
  "\<exists>l. analyzer_line sc = l @ [CHR 0x0A] \<and> CHR 0x0A \<notin> set l \<and> length l < 63"
proof -
  have "unat (addr sc) < 16 ^ 16" using unat_bound [of "addr sc"] by simp
  then have "length (hex_str (unat (addr sc))) \<le> 16" by (rule length_hex_str) simp
  moreover have "CHR 0x0A \<notin> set (hex_str (unat (addr sc)))"
    using hex_str_chars hex_not_special by blast
  ultimately show ?thesis
    by (intro exI [of _ "''0x'' @ hex_str (unat (addr sc)) @ '': ''
      @ (if whitelisted sc then ''True'' else ''False'')"]) (auto simp: analyzer_line_def)
qed

section \<open>Properties\<close>

text \<open>The list reader recovers exactly the addresses and marks of a file in the format the
  analyzer prints, for any number of entries and any 64-bit address.\<close>

theorem syscall_list_roundtrip:
  "create_syscall_list (concat (map analyzer_line scs)) = Some scs"
proof (induction scs)
  case Nil
  then show ?case by (simp add: create_syscall_list.simps)
next
  case (Cons sc scs)
  obtain l where l: "analyzer_line sc = l @ [CHR 0x0A]" "CHR 0x0A \<notin> set l" "length l < 63"
    using analyzer_line_shape by blast
  have "fgets 63 (concat (map analyzer_line (sc # scs))) =
      (analyzer_line sc, concat (map analyzer_line scs))"
    using fgets_line [OF l(2,3)] l(1) by simp
  moreover have "concat (map analyzer_line (sc # scs)) \<noteq> []" using l(1) by simp
  moreover have "\<lparr>addr = addr sc, whitelisted = whitelisted sc\<rparr> = sc" by simp
  ultimately show ?case
    using Cons.IH scan_analyzer_line [of sc]
    by (subst create_syscall_list.simps) (cases "whitelisted sc", simp_all add: Let_def)
qed

text \<open>Whatever the outcome of the rewriting loop, the mapping keeps its length and every
  byte outside the four bytes of a listed site keeps its value.\<close>

theorem rewrite_loop_frame:
  assumes "i < length m" "\<forall>sc \<in> set scs. off_site cfg i sc"
  shows "length (loop_memory (rewrite_loop cfg h m k scs)) = length m
    \<and> loop_memory (rewrite_loop cfg h m k scs) ! i = m ! i"
  using rewrite_loop_frame_aux assms by blast

definition sample_cfg :: config where
  "sample_cfg = \<lparr>binary_name = ''prog'', code_vaddr = 0x400000, code_size = 36, file_offset = 0\<rparr>"

definition sample_code :: bytes where
  "sample_code = concat (map le32_bytes
     [0xd503201f, 0xd2800ba8, SYSCALL_INSTR, SYSCALL_INSTR, 0xd503201f, 0xd503201f, 0xd503201f, 0xd503201f,
      0xd503201f])"

definition sample_site :: "u64 \<Rightarrow> bool \<Rightarrow> scall" where
  "sample_site a w = \<lparr>addr = a, whitelisted = w\<rparr>"

theorem rewrite_loop_frame_witness:
  "length (loop_memory (rewrite_loop sample_cfg 0x200000 sample_code 0
      [sample_site 0x400008 True])) = length sample_code
    \<and> loop_memory (rewrite_loop sample_cfg 0x200000 sample_code 0 [sample_site 0x400008 True]) ! 3
      = sample_code ! 3"
  by (rule rewrite_loop_frame)
     (simp_all add: sample_code_def off_site_def site_off_def sample_site_def sample_cfg_def)

text \<open>C5: when the loop completes on sites that do not overlap, every listed site held an \<open>SVC\<close>;
  afterwards it holds a branch to the handler, without link exactly when it is not whitelisted and
  was followed by a return, or the same \<open>SVC\<close>, never for a whitelisted site or one in front of a
  return; and the counter is the number of sites that changed.\<close>

theorem rewrite_loop_sites:
  assumes "rewrite_loop cfg h m 0 scs = LoopDone m' k" "sites_apart cfg scs"
  shows "(\<forall>sc \<in> set scs. site_ok cfg h m m' sc) \<and> k = length (filter (rewritten cfg m') scs)"
  using rewrite_loop_sites_aux [OF assms] by simp

lemmas run_simps =
  rewrite_site_def Let_def site_addr_def site_off_def patch_def write32_def read32_def
  in_region_def splice_def le32_def le32_bytes_def sample_code_def sample_cfg_def sample_site_def
  bl_nearby_def encode_branch_def branch_offset_def SYSCALL_INSTR_def REWRITE_MASK_B_def
  REWRITE_MASK_BL_def RET_CODE_def

theorem rewrite_loop_sites_witness:
  "\<exists>m' k. rewrite_loop sample_cfg 0x200000 sample_code 0 [sample_site 0x400008 True] = LoopDone m' k
    \<and> site_ok sample_cfg 0x200000 sample_code m' (sample_site 0x400008 True)"
proof -
  obtain m' k where r: "rewrite_loop sample_cfg 0x200000 sample_code 0 [sample_site 0x400008 True]
      = LoopDone m' k"
    by (simp add: run_simps)
  moreover have "sites_apart sample_cfg [sample_site 0x400008 True]" by simp
  ultimately show ?thesis using rewrite_loop_sites [of sample_cfg _ sample_code] by fastforce
qed

text \<open>The order of the list matters. In a code segment with two adjacent \<open>SVC\<close>
  instructions, the first whitelisted and the second not, processing the whitelisted one first
  also rewrites the second (the branch-and-link just written counts as one the compiler placed),
  while the opposite order keeps the second.\<close>

theorem rewrite_order_dependent:
  "\<exists>m1 m2.
     rewrite_loop sample_cfg 0x200000 sample_code 0
       [sample_site 0x400008 True, sample_site 0x40000c False] = LoopDone m1 2
     \<and> rewrite_loop sample_cfg 0x200000 sample_code 0
       [sample_site 0x40000c False, sample_site 0x400008 True] = LoopDone m2 1
     \<and> m1 \<noteq> m2"
  by (simp add: run_simps)

end
