(* ===== verification/Arm_Identifier.thy ===== *)
theory Arm_Identifier
  imports Arm_Branch Br_Elf
begin

text \<open>
  \<open>tools/arm-syscall-identifier/main.c\<close>: the linear scan of the code segment that looks for
  \<open>SVC\<close> instructions and calls of the system call wrapper, and backtracks at most 16
  instructions for the \<open>MOVZ\<close> that loads the system call number. What the program prints is
  the list of events, in order.
\<close>

definition MAX_BACKTRACK_LEVEL :: nat where "MAX_BACKTRACK_LEVEL = 16"

datatype event =
    SVC u64 u16 bool        \<comment> \<open>address, identifier, \<open>whitelist\<close> mark\<close>
  | WRAPPER u64 u16 bool
  | COULD_NOT u64

datatype scan_result =
    ScanFault "event list"      \<comment> \<open>a read outside the mapping, after these lines were printed\<close>
  | ScanDone nat nat "event list"  \<comment> \<open>\<open>syscall_num\<close>, \<open>syscall_identified\<close>\<close>

section \<open>Backtracking\<close>

text \<open>\<open>MOVZ Xreg, #imm\<close>, as the code tests it.\<close>

definition is_movz :: "u32 \<Rightarrow> u32 \<Rightarrow> bool" where
  "is_movz reg bt_instr \<longleftrightarrow> drop_bit 20 bt_instr = 0xd28 \<and> bt_instr AND 0x1F = reg"

definition movz_imm :: "u32 \<Rightarrow> u16" where
  "movz_imm bt_instr = ucast (drop_bit 5 bt_instr AND 0xFFFF)"

text \<open>
  The inner loop over \<open>backtrack_level\<close>: the outer option is a fault, the inner one tells
  whether an identifier was found before the levels ran out.
\<close>

fun backtrack :: "bytes \<Rightarrow> int \<Rightarrow> u32 \<Rightarrow> nat list \<Rightarrow> u16 option option" where
  "backtrack m off reg [] = Some None"
| "backtrack m off reg (level # levels) =
     (case read32 m (off - 4 * int level) of
        None \<Rightarrow> None
      | Some bt_instr \<Rightarrow>
          if is_movz reg bt_instr then Some (Some (movz_imm bt_instr))
          else backtrack m off reg levels)"

definition levels :: "nat list" where
  "levels = [1..<Suc MAX_BACKTRACK_LEVEL]"

definition whitelist_mark :: "u16 \<Rightarrow> bool" where
  "whitelist_mark i \<longleftrightarrow> i = 93 \<or> i = 94"

section \<open>The scan\<close>

text \<open>The kind of an instruction: the conditions of the two branches of the loop body.\<close>

datatype kind = SvcSite | WrapperCall | OtherInstr

definition instr_kind :: "u64 \<Rightarrow> u64 \<Rightarrow> u32 \<Rightarrow> kind" where
  "instr_kind wrapper_addr a instr =
     (if instr = SYSCALL_INSTR then SvcSite
      else if is_bl instr then
        (if wrapper_addr \<noteq> 0 \<and> bl_target a instr = wrapper_addr then WrapperCall else OtherInstr)
      else OtherInstr)"

function scan_code ::
  "bytes \<Rightarrow> u64 \<Rightarrow> u64 \<Rightarrow> u64 \<Rightarrow> int \<Rightarrow> nat \<Rightarrow> nat \<Rightarrow> event list \<Rightarrow> scan_result" where
  "scan_code m code_vaddr code_size wrapper_addr off num ident evs =
     (if off = uint code_size then ScanDone num ident evs
      else case read32 m off of
        None \<Rightarrow> ScanFault evs
      | Some instr \<Rightarrow>
          let a = word_of_int off + code_vaddr;
              next_site = scan_code m code_vaddr code_size wrapper_addr (off + 4) in
          (case instr_kind wrapper_addr a instr of
             SvcSite \<Rightarrow>
               (case backtrack m off 8 levels of
                  None \<Rightarrow> ScanFault evs
                | Some (Some i) \<Rightarrow>
                    next_site (num + 1) (ident + 1) (evs @ [SVC a i (whitelist_mark i)])
                | Some None \<Rightarrow> next_site (num + 1) ident (evs @ [COULD_NOT a]))
           | WrapperCall \<Rightarrow>
               (case backtrack m off 0 levels of
                  None \<Rightarrow> ScanFault evs
                | Some (Some i) \<Rightarrow>
                    next_site (num + 1) (ident + 1) (evs @ [WRAPPER a i (whitelist_mark i)])
                | Some None \<Rightarrow> next_site (num + 1) ident (evs @ [COULD_NOT a]))
           | OtherInstr \<Rightarrow> next_site num ident evs))"
  by pat_completeness auto
termination
  by (relation "measure (\<lambda>(m, v, s, w, off, n, i, e). nat (int (length m) - off))")
     (auto dest!: read32_SomeD simp: in_region_def)

declare scan_code.simps [simp del]

datatype identifier_outcome =
    UsageError
  | ElfFailed elf_error
  | NameTooLong
  | OpenFailed
  | MapFailed
  | ReadFault "event list"
  | PercentOfZero "event list"
  | Identified "event list" nat nat nat

definition identifier_main ::
  "string list \<Rightarrow> elf_view \<Rightarrow> bool \<Rightarrow> (u32 \<Rightarrow> u64 \<Rightarrow> bytes option) \<Rightarrow> identifier_outcome"
  where
  "identifier_main argv elf openable mmap =
     (if length argv \<noteq> 3 \<and> length argv \<noteq> 2 then UsageError
      else let wrapper_addr = (if length argv = 3 then strtoul16 (argv ! 2) else 0) in
        (case parse_elf elf \<lparr>vaddr = 0, seg_size = 0, offset = 0\<rparr> of
           Inl err \<Rightarrow> ElfFailed err
         | Inr seg \<Rightarrow>
             if 128 \<le> length (argv ! 1) then NameTooLong
             else if \<not> openable then OpenFailed
             else case mmap (map_size (seg_size seg)) (offset seg) of
                 None \<Rightarrow> MapFailed
               | Some m \<Rightarrow>
                   (case scan_code m (vaddr seg) (seg_size seg) wrapper_addr 0 0 0 [] of
                      ScanFault evs \<Rightarrow> ReadFault evs
                    | ScanDone num ident evs \<Rightarrow>
                        if num = 0 then PercentOfZero evs
                        else Identified evs ident num (ident * 100 div num))))"

section \<open>A reference semantics: the sites one by one\<close>

text \<open>What one instruction contributes to the output; \<open>None\<close> is an access outside the mapping.\<close>

definition site_events :: "bytes \<Rightarrow> u64 \<Rightarrow> u64 \<Rightarrow> int \<Rightarrow> event list option" where
  "site_events m v wrapper_addr off =
     (case read32 m off of
        None \<Rightarrow> None
      | Some instr \<Rightarrow>
          let a = word_of_int off + v in
          (case instr_kind wrapper_addr a instr of
             SvcSite \<Rightarrow> map_option
               (\<lambda>r. [case r of Some i \<Rightarrow> SVC a i (whitelist_mark i) | None \<Rightarrow> COULD_NOT a])
               (backtrack m off 8 levels)
           | WrapperCall \<Rightarrow> map_option
               (\<lambda>r. [case r of Some i \<Rightarrow> WRAPPER a i (whitelist_mark i) | None \<Rightarrow> COULD_NOT a])
               (backtrack m off 0 levels)
           | OtherInstr \<Rightarrow> Some []))"

fun identified :: "event \<Rightarrow> bool" where
  "identified (COULD_NOT a) = False"
| "identified (SVC a i w) = True"
| "identified (WRAPPER a i w) = True"

definition event_lines :: "bytes \<Rightarrow> u64 \<Rightarrow> u64 \<Rightarrow> nat \<Rightarrow> nat \<Rightarrow> event list" where
  "event_lines m v w j n = concat (map (\<lambda>i. the (site_events m v w (4 * int i))) [j..<n])"

lemma scan_stop: "scan_code m v sz w (uint sz) num ident evs = ScanDone num ident evs"
  by (subst scan_code.simps) simp

lemma scan_fault:
  "off \<noteq> uint sz \<Longrightarrow> site_events m v w off = None \<Longrightarrow>
   scan_code m v sz w off num ident evs = ScanFault evs"
  by (subst scan_code.simps)
     (auto simp: site_events_def Let_def split: option.splits kind.splits)

lemma scan_step:
  "off \<noteq> uint sz \<Longrightarrow> site_events m v w off = Some es \<Longrightarrow>
   scan_code m v sz w off num ident evs =
     scan_code m v sz w (off + 4) (num + length es) (ident + length (filter identified es))
       (evs @ es)"
proof -
  assume ne: "off \<noteq> uint sz" and es: "site_events m v w off = Some es"
  from es obtain instr where r: "read32 m off = Some instr"
    by (auto simp: site_events_def split: option.splits)
  note unf = scan_code.simps [of m v sz w off num ident evs] Let_def ne r if_False option.case
  show ?thesis
  proof (cases "instr_kind w (word_of_int off + v) instr")
    case SvcSite
    with es r obtain b where "backtrack m off 8 levels = Some b"
      by (auto simp: site_events_def Let_def)
    with SvcSite es r show ?thesis
      by (cases b) (simp_all only: unf kind.case site_events_def, auto)
  next
    case WrapperCall
    with es r obtain b where "backtrack m off 0 levels = Some b"
      by (auto simp: site_events_def Let_def)
    with WrapperCall es r show ?thesis
      by (cases b) (simp_all only: unf kind.case site_events_def, auto)
  next
    case OtherInstr
    with es r show ?thesis
      by (simp only: unf kind.case site_events_def) simp
  qed
qed

lemma site_events_region: "site_events m v w off = Some es \<Longrightarrow> in_region m off 4"
  by (auto simp: site_events_def split: option.splits dest: read32_SomeD)

lemma scan_prefix:
  assumes "4 * int n \<le> uint sz" "j \<le> n" "\<forall>i \<in> {j..<n}. site_events m v w (4 * int i) \<noteq> None"
  shows "scan_code m v sz w (4 * int j) num ident evs =
    scan_code m v sz w (4 * int n) (num + length (event_lines m v w j n))
      (ident + length (filter identified (event_lines m v w j n))) (evs @ event_lines m v w j n)"
  using assms
proof (induction "n - j" arbitrary: j num ident evs)
  case 0
  then show ?case by (simp add: event_lines_def)
next
  case (Suc d)
  from Suc.hyps Suc.prems(3) obtain es where es: "site_events m v w (4 * int j) = Some es"
    by fastforce
  have ne: "4 * int j \<noteq> uint sz" using Suc.hyps Suc.prems by simp
  have "[j..<n] = j # [Suc j..<n]" using Suc.hyps by (intro upt_conv_Cons) simp
  then have all: "event_lines m v w j n = es @ event_lines m v w (Suc j) n"
    using es by (simp add: event_lines_def)
  have "d = n - Suc j" "Suc j \<le> n" using Suc.hyps by simp_all
  note IH = Suc.hyps(1) [OF this(1) Suc.prems(1) this(2)]
  show ?case
    using IH [of "num + length es" "ident + length (filter identified es)" "evs @ es"] Suc.prems(3)
    by (simp add: scan_step [OF ne es] all add.assoc add.commute [of 4])
qed

text \<open>The loop's exit test is an equality: with a size that is no multiple of 4 it never holds.\<close>

lemma scan_misaligned:
  assumes "uint sz mod 4 \<noteq> 0" "off mod 4 = 0"
  shows "\<exists>evs'. scan_code m v sz w off num ident evs = ScanFault evs'"
  using assms(2)
proof (induction "nat (int (length m) - off)" arbitrary: off num ident evs rule: less_induct)
  case less
  have ne: "off \<noteq> uint sz" using less.prems assms(1) by auto
  show ?case
  proof (cases "site_events m v w off")
    case None
    then show ?thesis using scan_fault [OF ne] by blast
  next
    case (Some es)
    have r: "in_region m off 4" by (rule site_events_region [OF Some])
    show ?thesis
      unfolding scan_step [OF ne Some]
      using r less.prems by (intro less.hyps) (auto simp: in_region_def)
  qed
qed

section \<open>The nearest load\<close>

lemma backtrack_found:
  assumes "backtrack m off reg ls = Some (Some i)"
  shows "\<exists>pre l post bt. ls = pre @ l # post \<and> read32 m (off - 4 * int l) = Some bt
    \<and> is_movz reg bt \<and> i = movz_imm bt
    \<and> (\<forall>k \<in> set pre. \<exists>b. read32 m (off - 4 * int k) = Some b \<and> \<not> is_movz reg b)"
  using assms
proof (induction ls)
  case Nil
  then show ?case by simp
next
  case (Cons l ls)
  from Cons.prems obtain bt where bt: "read32 m (off - 4 * int l) = Some bt"
    by (auto split: option.splits)
  show ?case
  proof (cases "is_movz reg bt")
    case True
    with bt Cons.prems show ?thesis by fastforce
  next
    case False
    with bt Cons obtain pre k post b where
      "ls = pre @ k # post" "read32 m (off - 4 * int k) = Some b" "is_movz reg b" "i = movz_imm b"
      "\<forall>k \<in> set pre. \<exists>b. read32 m (off - 4 * int k) = Some b \<and> \<not> is_movz reg b"
      by auto
    with bt False show ?thesis
      by (intro exI [of _ "l # pre"] exI [of _ k] exI [of _ post] exI [of _ b]) auto
  qed
qed

lemma upt_split: "[a..<b] = pre @ l # post \<Longrightarrow> pre = [a..<l] \<and> a \<le> l \<and> l < b"
proof -
  assume a: "[a..<b] = pre @ l # post"
  have "l = [a..<b] ! length pre" using a by (simp add: nth_append)
  moreover have lp: "length pre < b - a" using arg_cong [OF a, of length] by simp
  ultimately have l: "l = a + length pre" by simp
  have "pre = take (length pre) [a..<b]" using a by simp
  also have "\<dots> = [a..<l]" using lp l by (simp add: take_upt)
  finally show ?thesis using l lp by simp
qed

lemma backtrack_nearest:
  assumes "backtrack m off reg levels = Some (Some i)"
  shows "\<exists>l bt. 1 \<le> l \<and> l \<le> MAX_BACKTRACK_LEVEL \<and> read32 m (off - 4 * int l) = Some bt
    \<and> is_movz reg bt \<and> i = movz_imm bt
    \<and> (\<forall>k. 1 \<le> k \<and> k < l \<longrightarrow> (\<exists>b. read32 m (off - 4 * int k) = Some b \<and> \<not> is_movz reg b))"
proof -
  obtain pre l post bt where h: "levels = pre @ l # post" "read32 m (off - 4 * int l) = Some bt"
    "is_movz reg bt" "i = movz_imm bt"
    "\<forall>k \<in> set pre. \<exists>b. read32 m (off - 4 * int k) = Some b \<and> \<not> is_movz reg b"
    using backtrack_found [OF assms] by blast
  from upt_split [OF h(1) [unfolded levels_def]]
  have "pre = [1..<l]" "1 \<le> l" "l \<le> MAX_BACKTRACK_LEVEL" by simp_all
  with h show ?thesis by (intro exI [of _ l] exI [of _ bt]) auto
qed

lemma backtrack_total:
  "\<forall>l \<in> set ls. in_region m (off - 4 * int l) 4 \<Longrightarrow> backtrack m off reg ls \<noteq> None"
  by (induction ls) (auto dest!: read32_ex)

lemma site_events_total:
  assumes "in_region m off 4" "64 \<le> off"
  shows "site_events m v w off \<noteq> None"
proof -
  have "backtrack m off reg levels \<noteq> None" for reg
    using assms by (intro backtrack_total) (auto simp: levels_def MAX_BACKTRACK_LEVEL_def in_region_def)
  with read32_ex [OF assms(1)] show ?thesis
    by (auto simp: site_events_def Let_def split: kind.splits)
qed

lemma movz_imm_bound: "is_movz reg bt \<Longrightarrow> unat (movz_imm bt) < 2 ^ 15"
proof -
  assume a: "is_movz reg bt"
  have "\<not> bit (movz_imm bt) n" if "15 \<le> n" for n
  proof
    assume b: "bit (movz_imm bt) n"
    then have "n < 16" using bit_imp_le_length by force
    with that have "n = 15" by simp
    with b have "bit bt 20" by (simp add: movz_imm_def bit_simps)
    then have "bit (drop_bit 20 bt) 0" by (simp add: bit_simps)
    moreover have "\<not> bit (0xd28 :: u32) 0" by simp
    ultimately show False using a by (simp add: is_movz_def)
  qed
  then have "take_bit 15 (movz_imm bt) = movz_imm bt"
    by (intro bit_word_eqI) (metis bit_take_bit_iff not_less)
  then have "unat (take_bit 15 (movz_imm bt)) = unat (movz_imm bt)" by simp
  then have "take_bit 15 (unat (movz_imm bt)) = unat (movz_imm bt)" by (simp add: unsigned_take_bit_eq)
  then show ?thesis by (metis take_bit_nat_less_exp)
qed

section \<open>The listing of a program\<close>

text \<open>What the scan is meant to print, said of the list of instructions by arithmetic on the encodings:
  \<open>MOVZ Xreg, #imm\<close> is \<open>0xd28 * 2^20 + 32 * imm + reg\<close> and \<open>BL\<close> is \<open>37 * 2^26\<close> plus the distance in
  instructions, modulo \<open>2^26\<close>.\<close>

definition code_bytes :: "u32 list \<Rightarrow> bytes" where
  "code_bytes ws = concat (map le32_bytes ws)"

definition loaded :: "int \<Rightarrow> u32 \<Rightarrow> int option" where
  "loaded reg w = (if uint w div 2 ^ 20 = 0xd28 \<and> uint w mod 32 = reg then Some (uint w div 32 mod 2 ^ 16) else None)"

text \<open>The number loaded by the first of \<open>n\<close> instructions that loads the register; \<open>None\<close> if there are too few.\<close>

definition nearest_load :: "int \<Rightarrow> nat \<Rightarrow> u32 list \<Rightarrow> int option option" where
  "nearest_load reg n us =
     (case List.map_filter (loaded reg) (take n us) of
        i # _ \<Rightarrow> Some (Some i)
      | [] \<Rightarrow> if length us < n then None else Some None)"

definition calls :: "u64 \<Rightarrow> u64 \<Rightarrow> u32 \<Rightarrow> bool" where
  "calls wrapper a w \<longleftrightarrow> wrapper \<noteq> 0 \<and> uint w div 2 ^ 26 = 37 \<and>
     (let d = uint w mod 2 ^ 26 in a + word_of_int (4 * (if d < 2 ^ 25 then d else d - 2 ^ 26)) = wrapper)"

definition site_line :: "u32 list \<Rightarrow> u64 \<Rightarrow> u64 \<Rightarrow> nat \<Rightarrow> event list option" where
  "site_line ws v wrapper k =
     (let a = word_of_nat (4 * k) + v;
          line = (\<lambda>kind. map_option (\<lambda>r. case r of None \<Rightarrow> [COULD_NOT a] | Some i \<Rightarrow> [kind a (word_of_int i) (i = 93 \<or> i = 94)]))
      in if ws ! k = 0xd4000001 then line SVC (nearest_load 8 16 (rev (take k ws)))
         else if calls wrapper a (ws ! k) then line WRAPPER (nearest_load 0 16 (rev (take k ws)))
         else Some [])"

lemma length_code_bytes: "length (code_bytes ws) = 4 * length ws"
  by (induction ws) (simp_all add: code_bytes_def)

lemma nth_code_bytes: "k < length ws \<Longrightarrow> j < 4 \<Longrightarrow> (code_bytes ws @ rest) ! (4 * k + j) = le32_bytes (ws ! k) ! j"
proof (induction ws arbitrary: k)
  case (Cons w ws)
  then show ?case
    by (cases k) (simp_all add: code_bytes_def nth_append)
qed simp

lemma read_code_bytes:
  assumes "k < length ws"
  shows "read32 (code_bytes ws @ rest) (4 * int k) = Some (ws ! k)"
proof -
  have "in_region (code_bytes ws @ rest) (4 * int k) 4" using assms by (simp add: in_region_def length_code_bytes)
  moreover have "nat (4 * int k) = 4 * k" by simp
  moreover note nth_code_bytes [OF assms, of 0 rest] nth_code_bytes [OF assms, of 1 rest] nth_code_bytes [OF assms, of 2 rest]
    nth_code_bytes [OF assms, of 3 rest]
  ultimately show ?thesis using le32_roundtrip [of "ws ! k"] by (simp add: read32_def Let_def)
qed

lemma uint_drop: "uint (drop_bit n (w :: 'a::len word)) = uint w div 2 ^ n"
  unfolding unsigned_drop_bit_eq using uint_lt2p [of w] by (simp add: drop_bit_eq_div take_bit_int_eq_self)

lemma uint_take: "n \<le> LENGTH('a) \<Longrightarrow> uint (take_bit n (w :: 'a::len word)) = uint w mod 2 ^ n"
  by (subst unsigned_take_bit_eq) (rule take_bit_eq_mod)

lemma loaded_movz: "is_movz reg w \<longleftrightarrow> loaded (uint reg) w \<noteq> None"
proof -
  have "drop_bit 20 w = 0xd28 \<longleftrightarrow> uint w div 2 ^ 20 = 0xd28"
    by (simp only: word_uint_eq_iff uint_drop) simp
  moreover have "w AND 0x1F = take_bit 5 w" by (simp add: take_bit_eq_mask mask_eq_exp_minus_1)
  then have "w AND 0x1F = reg \<longleftrightarrow> uint w mod 32 = uint reg"
    using uint_take [of 5 w] by (simp add: word_uint_eq_iff)
  ultimately show ?thesis by (simp add: is_movz_def loaded_def)
qed

lemma loaded_imm: "loaded reg w = Some i \<Longrightarrow> movz_imm w = word_of_int i \<and> 0 \<le> i \<and> i < 2 ^ 16"
proof -
  assume "loaded reg w = Some i"
  then have i: "i = uint w div 32 mod 2 ^ 16" by (simp add: loaded_def split: if_splits)
  have "drop_bit 5 w AND 0xFFFF = take_bit 16 (drop_bit 5 w)" by (simp add: take_bit_eq_mask mask_eq_exp_minus_1)
  then have "uint (drop_bit 5 w AND 0xFFFF) = i"
    using uint_take [of 16 "drop_bit 5 w"] uint_drop [of 5 w] by (simp only: i) simp
  then have "movz_imm w = word_of_int i" by (simp only: movz_imm_def ucast_eq)
  then show ?thesis using i by simp
qed

lemma nearest_load_Cons:
  "nearest_load reg (Suc n) (u # us) =
     (case loaded reg u of Some i \<Rightarrow> Some (Some i) | None \<Rightarrow> nearest_load reg n us)"
  by (simp add: nearest_load_def split: option.split list.split)

lemma nearest_load_0 [simp]: "nearest_load reg 0 us = Some None"
  by (simp add: nearest_load_def)

lemma nearest_load_Nil [simp]: "nearest_load reg (Suc n) [] = None"
  by (simp add: nearest_load_def)

lemma backtrack_nearest_load:
  assumes "k < length ws"
  shows "backtrack (code_bytes ws @ rest) (4 * int k) reg [Suc l..<Suc l + n] =
    map_option (map_option word_of_int) (nearest_load (uint reg) n (drop l (rev (take k ws))))"
proof (induction n arbitrary: l)
  case 0
  show ?case by simp
next
  case (Suc n)
  let ?m = "code_bytes ws @ rest"
  have u: "[Suc l..<Suc l + Suc n] = Suc l # [Suc (Suc l)..<Suc (Suc l) + n]" by (simp add: upt_conv_Cons del: upt_Suc)
  show ?case
  proof (cases "l < k")
    case True
    have "rev (take k ws) ! l = ws ! (k - Suc l)" using True assms by (simp add: rev_nth)
    moreover have "l < length (rev (take k ws))" using True assms by simp
    ultimately have d: "drop l (rev (take k ws)) = ws ! (k - Suc l) # drop (Suc l) (rev (take k ws))"
      using Cons_nth_drop_Suc by metis
    have r: "read32 ?m (4 * int k - 4 * int (Suc l)) = Some (ws ! (k - Suc l))"
      using read_code_bytes [of "k - Suc l" ws rest] True assms by (simp add: of_nat_diff)
    show ?thesis
    proof (cases "loaded (uint reg) (ws ! (k - Suc l))")
      case None
      then have "\<not> is_movz reg (ws ! (k - Suc l))" by (simp only: loaded_movz not_not)
      then have "backtrack ?m (4 * int k) reg (Suc l # [Suc (Suc l)..<Suc (Suc l) + n]) =
          backtrack ?m (4 * int k) reg [Suc (Suc l)..<Suc (Suc l) + n]"
        by (simp only: backtrack.simps r option.case if_False)
      then show ?thesis unfolding u d nearest_load_Cons None option.case Suc.IH [of "Suc l"] .
    next
      case (Some i)
      then have "is_movz reg (ws ! (k - Suc l))" "movz_imm (ws ! (k - Suc l)) = word_of_int i"
        using loaded_movz loaded_imm by auto
      then show ?thesis
        by (simp only: u d nearest_load_Cons backtrack.simps r option.case Some if_True option.map)
    qed
  next
    case False
    then have r: "read32 ?m (4 * int k - 4 * int (Suc l)) = None" by (simp add: read32_def in_region_def)
    have d: "drop l (rev (take k ws)) = []" using False by simp
    show ?thesis by (simp only: u d backtrack.simps r option.case nearest_load_Nil option.map)
  qed
qed

lemma backtrack_levels:
  "k < length ws \<Longrightarrow> backtrack (code_bytes ws @ rest) (4 * int k) reg levels =
    map_option (map_option word_of_int) (nearest_load (uint reg) 16 (rev (take k ws)))"
  using backtrack_nearest_load [of k ws rest reg 0 16] by (simp add: levels_def MAX_BACKTRACK_LEVEL_def)

lemma signed26:
  fixes x :: int
  defines "d \<equiv> x mod 67108864"
  shows "signed_take_bit 25 x = (if d < 33554432 then d else d - 67108864)"
proof -
  have d: "0 \<le> d" "d < 67108864" by (simp_all add: d_def)
  have "signed_take_bit 25 x = (x + 33554432) mod 67108864 - 33554432"
    by (simp add: signed_take_bit_eq_take_bit_shift take_bit_eq_mod)
  also have "(x + 33554432) mod 67108864 = (d + 33554432) mod 67108864" by (simp add: d_def mod_add_left_eq)
  also have "\<dots> = (if d < 33554432 then d + 33554432 else d - 33554432)"
  proof (cases "d < 33554432")
    case False
    have "(d + 33554432) mod 67108864 = (d + 33554432 - 67108864) mod 67108864" by (rule minus_mod_self2 [symmetric])
    then show ?thesis using d False by simp
  qed (use d in simp)
  finally show ?thesis by simp
qed

lemma kind_listing:
  "instr_kind wrapper a w = (if w = 0xd4000001 then SvcSite else if calls wrapper a w then WrapperCall else OtherInstr)"
proof -
  have "is_bl w \<longleftrightarrow> uint w div 2 ^ 26 = 37"
    unfolding is_bl_def by (simp only: word_uint_eq_iff uint_drop) simp
  then show ?thesis
    by (simp add: instr_kind_def SYSCALL_INSTR_def calls_def bl_target_eq signed26 Let_def)
qed

lemma nearest_load_range: "nearest_load reg n us = Some (Some i) \<Longrightarrow> 0 \<le> i \<and> i < 2 ^ 16"
proof (induction n arbitrary: us)
  case (Suc n)
  then show ?case
    using loaded_imm by (cases us) (auto simp: nearest_load_Cons split: option.splits)
qed simp

lemma whitelist_listing: "0 \<le> i \<Longrightarrow> i < 2 ^ 16 \<Longrightarrow> whitelist_mark (word_of_int i) \<longleftrightarrow> i = 93 \<or> i = 94"
proof -
  assume "0 \<le> i" "i < 2 ^ 16"
  then have "uint (word_of_int i :: u16) = i" by (simp add: uint_word_of_int)
  then show ?thesis by (simp add: whitelist_mark_def word_uint_eq_iff)
qed

lemma site_events_line:
  assumes "k < length ws"
  shows "site_events (code_bytes ws @ rest) v wrapper (4 * int k) = site_line ws v wrapper k"
proof -
  have a: "word_of_int (4 * int k) + v = word_of_nat (4 * k) + v" by simp
  have "whitelist_mark (word_of_int i) \<longleftrightarrow> i = 93 \<or> i = 94" if "nearest_load reg 16 (rev (take k ws)) = Some (Some i)" for reg i
    using nearest_load_range [OF that] whitelist_listing by blast
  then show ?thesis
    unfolding site_events_def site_line_def read_code_bytes [OF assms] option.case Let_def a kind_listing backtrack_levels [OF assms]
    by (auto simp: option.map_comp split: option.split intro!: option.map_cong; simp add: whitelist_mark_def)
qed

section \<open>Properties\<close>

text \<open>C39: The scan of a code segment of whole instructions, for any contents. If every access is inside the mapping,
  it ends with one line for each \<open>SVC\<close> and each call of the wrapper, in address order: the identifier that the
  nearest of the 16 instructions before loads, or that it could not be identified. The two counters are the numbers
  of lines and of identifiers. Otherwise it stops after the lines before the first site with neither a load nor 16
  instructions in front of it.\<close>

theorem scan_code_listing:
  assumes "uint sz = 4 * int (length ws)"
  shows "scan_code (code_bytes ws @ rest) v sz wrapper 0 0 0 [] =
    (let lines = (\<lambda>n. concat (map (\<lambda>k. the (site_line ws v wrapper k)) [0..<n])) in
     case find (\<lambda>k. site_line ws v wrapper k = None) [0..<length ws] of
       None \<Rightarrow> ScanDone (length (lines (length ws))) (length (filter identified (lines (length ws)))) (lines (length ws))
     | Some k \<Rightarrow> ScanFault (lines k))"
proof -
  let ?m = "code_bytes ws @ rest"
  have l: "event_lines ?m v wrapper 0 n = concat (map (\<lambda>k. the (site_line ws v wrapper k)) [0..<n])"
    if "n \<le> length ws" for n
    using that by (auto simp: event_lines_def site_events_line intro!: arg_cong [where f = concat])
  show ?thesis
  proof (cases "find (\<lambda>k. site_line ws v wrapper k = None) [0..<length ws]")
    case None
    then have "\<forall>i \<in> {0..<length ws}. site_events ?m v wrapper (4 * int i) \<noteq> None"
      by (auto simp: find_None_iff site_events_line)
    from scan_prefix [OF _ _ this, of sz 0 0 "[]"] show ?thesis
      using assms None scan_stop [of ?m v sz wrapper] by (simp add: l)
  next
    case (Some k)
    then have k: "k < length ws" "site_line ws v wrapper k = None" "\<forall>j < k. site_line ws v wrapper j \<noteq> None"
      by (auto simp: find_Some_iff)
    then have "\<forall>i \<in> {0..<k}. site_events ?m v wrapper (4 * int i) \<noteq> None"
      by (auto simp: site_events_line)
    from scan_prefix [OF _ _ this, of sz 0 0 "[]"]
    have "scan_code ?m v sz wrapper 0 0 0 [] = scan_code ?m v sz wrapper (4 * int k) (length (event_lines ?m v wrapper 0 k))
        (length (filter identified (event_lines ?m v wrapper 0 k))) (event_lines ?m v wrapper 0 k)"
      using assms k(1) by simp
    also have "\<dots> = ScanFault (event_lines ?m v wrapper 0 k)"
      using assms k(1,2) by (intro scan_fault) (simp_all add: site_events_line)
    finally show ?thesis using Some k(1) by (simp add: l)
  qed
qed

definition sample_text :: bytes where
  "sample_text = concat (map le32_bytes [0xd2800ba8, SYSCALL_INSTR, 0xd503201f])"

lemmas ident_simps =
  site_events_def read32_def in_region_def Let_def le32_def le32_bytes_def sample_text_def
  SYSCALL_INSTR_def instr_kind_def levels_def MAX_BACKTRACK_LEVEL_def is_movz_def movz_imm_def
  whitelist_mark_def upt_rec is_bl_def

theorem scan_code_listing_witness:
  "scan_code (code_bytes [0xd2800ba8, 0xd4000001, 0xd503201f] @ [1, 2]) 0x400000 12 0 0 0 0 [] =
     ScanDone 1 1 [SVC 0x400004 93 True]"
proof -
  have l: "site_line [0xd2800ba8, 0xd4000001, 0xd503201f] 0x400000 0 0 = Some []"
    "site_line [0xd2800ba8, 0xd4000001, 0xd503201f] 0x400000 0 (Suc 0) = Some [SVC 0x400004 93 True]"
    "site_line [0xd2800ba8, 0xd4000001, 0xd503201f] 0x400000 0 2 = Some []"
    by code_simp+
  have n: "[0..<Suc (Suc (Suc 0))] = [0, Suc 0, 2]" by (simp add: upt_rec)
  show ?thesis
    using scan_code_listing [where sz = 12 and ws = "[0xd2800ba8, 0xd4000001, 0xd503201f]" and rest = "[1, 2]" and v = "0x400000" and wrapper = 0]
    by (simp add: n l del: upt_Suc)
qed

text \<open>A code segment whose size is not a multiple of 4 makes the scan run past the end of
  the mapping: the loop's exit test is an equality that never holds, and no result is printed.\<close>

theorem scan_misaligned_faults:
  assumes "uint sz mod 4 \<noteq> 0"
  shows "\<exists>evs. scan_code m v sz w 0 0 0 [] = ScanFault evs"
  using scan_misaligned [OF assms, of 0] by simp

theorem scan_misaligned_faults_witness:
  "\<exists>evs. scan_code sample_text 0x400000 10 0 0 0 0 [] = ScanFault evs"
  by (rule scan_misaligned_faults) simp

text \<open>An identifier the backtracking reports is the immediate of the nearest preceding
  \<open>MOVZ\<close> of the wanted register, at most 16 instructions back, and is below \<open>2 ^ 15\<close>.\<close>

theorem backtrack_reports_nearest:
  assumes "backtrack m off reg levels = Some (Some i)"
  shows "(\<exists>l bt. 1 \<le> l \<and> l \<le> 16 \<and> read32 m (off - 4 * int l) = Some bt
      \<and> is_movz reg bt \<and> i = movz_imm bt
      \<and> (\<forall>k. 1 \<le> k \<and> k < l \<longrightarrow> (\<exists>b. read32 m (off - 4 * int k) = Some b \<and> \<not> is_movz reg b)))
    \<and> unat i < 2 ^ 15"
  using backtrack_nearest [OF assms] movz_imm_bound unfolding MAX_BACKTRACK_LEVEL_def by blast

theorem backtrack_reports_nearest_witness: "unat (93 :: u16) < 2 ^ 15 \<and>
  (\<exists>bt. is_movz 8 bt \<and> (93 :: u16) = movz_imm bt)"
proof -
  have "backtrack sample_text 4 8 levels = Some (Some 93)"
    by (simp add: ident_simps)
  from backtrack_reports_nearest [OF this] show ?thesis by blast
qed

end
