(* ===== verification/Light_Loader.thy ===== *)
theory Light_Loader
  imports Prelude
begin

text \<open>
  \<open>tools/hermitux-light-kernel/hermitux-light.c\<close>: the loader builds the initial process stack
  of the Linux application (auxiliary vector, environment, arguments, argument count) with
  \<open>push\<close> instructions and jumps to its entry point. The stack is a list of 64-bit words with
  the top (lowest address) first; \<open>argv\<close> and \<open>environ\<close> are the NULL-terminated pointer
  arrays the kernel passes. The second half states the layout a C library expects of a fresh
  process, as a reader of that stack.
\<close>

text \<open>Tags of the auxiliary vector.\<close>

definition AT_NULL :: u64 where "AT_NULL = 0"
definition AT_IGNORE :: u64 where "AT_IGNORE = 1"
definition AT_EXECFD :: u64 where "AT_EXECFD = 2"
definition AT_PHDR :: u64 where "AT_PHDR = 3"
definition AT_PHENT :: u64 where "AT_PHENT = 4"
definition AT_PHNUM :: u64 where "AT_PHNUM = 5"
definition AT_PAGESZ :: u64 where "AT_PAGESZ = 6"
definition AT_BASE :: u64 where "AT_BASE = 7"
definition AT_FLAGS :: u64 where "AT_FLAGS = 8"
definition AT_ENTRY :: u64 where "AT_ENTRY = 9"
definition AT_NOTELF :: u64 where "AT_NOTELF = 10"
definition AT_UID :: u64 where "AT_UID = 11"
definition AT_EUID :: u64 where "AT_EUID = 12"
definition AT_GID :: u64 where "AT_GID = 13"
definition AT_EGID :: u64 where "AT_EGID = 14"
definition AT_PLATFORM :: u64 where "AT_PLATFORM = 15"
definition AT_HWCAP :: u64 where "AT_HWCAP = 16"
definition AT_CLKTCK :: u64 where "AT_CLKTCK = 17"
definition AT_DCACHEBSIZE :: u64 where "AT_DCACHEBSIZE = 19"
definition AT_ICACHEBSIZE :: u64 where "AT_ICACHEBSIZE = 20"
definition AT_UCACHEBSIZE :: u64 where "AT_UCACHEBSIZE = 21"
definition AT_SECURE :: u64 where "AT_SECURE = 23"
definition AT_RANDOM :: u64 where "AT_RANDOM = 25"
definition AT_EXECFN :: u64 where "AT_EXECFN = 31"
definition AT_SYSINFO_EHDR :: u64 where "AT_SYSINFO_EHDR = 33"
definition AT_SYSINFO :: u64 where "AT_SYSINFO = 32"

lemmas at_defs =
  AT_NULL_def AT_IGNORE_def AT_EXECFD_def AT_PHDR_def AT_PHENT_def AT_PHNUM_def AT_PAGESZ_def
  AT_BASE_def AT_FLAGS_def AT_ENTRY_def AT_NOTELF_def AT_UID_def AT_EUID_def AT_GID_def
  AT_EGID_def AT_PLATFORM_def AT_HWCAP_def AT_CLKTCK_def AT_DCACHEBSIZE_def AT_ICACHEBSIZE_def
  AT_UCACHEBSIZE_def AT_SECURE_def AT_RANDOM_def AT_EXECFN_def AT_SYSINFO_EHDR_def AT_SYSINFO_def

text \<open>The link-time description of the application and the address of the platform string.\<close>

record tux =
  tux_entry :: u64
  tux_start_address :: u64
  tux_ehdr_phoff :: u64
  tux_ehdr_phnum :: u64
  tux_ehdr_phentsize :: u64
  auxv_platform :: u64

type_synonym stack = "u64 list"

definition push_auxv :: "u64 \<Rightarrow> u64 \<Rightarrow> stack \<Rightarrow> stack" where
  "push_auxv ty val st = ty # val # st"

text \<open>The arguments of the calls of \<open>push_auxv\<close>, in program order.\<close>

definition auxv_calls :: "tux \<Rightarrow> (u64 \<times> u64) list" where
  "auxv_calls t =
     [(AT_NULL, 0), (AT_IGNORE, 0), (AT_EXECFD, 0),
      (AT_PHDR, tux_start_address t + tux_ehdr_phoff t),
      (AT_PHNUM, tux_ehdr_phnum t), (AT_PHENT, tux_ehdr_phentsize t),
      (AT_RANDOM, tux_start_address t), (AT_BASE, 0), (AT_SYSINFO_EHDR, 0), (AT_SYSINFO, 0),
      (AT_PAGESZ, 4096), (AT_HWCAP, 0), (AT_CLKTCK, 0x64), (AT_FLAGS, 0),
      (AT_ENTRY, tux_entry t), (AT_UID, 0), (AT_EUID, 0), (AT_GID, 0), (AT_EGID, 0),
      (AT_SECURE, 0), (AT_SYSINFO, 0), (AT_EXECFN, 0), (AT_DCACHEBSIZE, 0), (AT_ICACHEBSIZE, 0),
      (AT_UCACHEBSIZE, 0), (AT_NOTELF, 0), (AT_PLATFORM, auxv_platform t)]"

fun push_auxvs :: "(u64 \<times> u64) list \<Rightarrow> stack \<Rightarrow> stack" where
  "push_auxvs [] st = st"
| "push_auxvs ((ty, val) # calls) st = push_auxvs calls (push_auxv ty val st)"

text \<open>\<open>for (env = environ; *env; ++env) envc++\<close>; \<open>None\<close> when the array has no terminator. \<open>envc\<close> is an
  \<open>int\<close>, taken to wrap around.\<close>

fun count_env :: "u64 list \<Rightarrow> int \<Rightarrow> int option" where
  "count_env [] envc = None"
| "count_env (p # ps) envc = (if p = 0 then Some envc else count_env ps (signed_take_bit 31 (envc + 1)))"

text \<open>Pushing \<open>array[i]\<close> for the indices of a counting-down loop.\<close>

fun push_elems :: "u64 list \<Rightarrow> nat list \<Rightarrow> stack \<Rightarrow> stack option" where
  "push_elems arr [] st = Some st"
| "push_elems arr (i # is) st =
     (if i < length arr then push_elems arr is (arr ! i # st) else None)"

record machine =
  st_stack :: stack
  rdx :: u64
  rip :: u64

text \<open>
  \<open>main\<close>. The loop bounds are \<open>int\<close>: \<open>envc .. 0\<close> for the environment, and
  \<open>libc_argc + 1 .. 1\<close> for the arguments, where \<open>libc_argc = argc - 1\<close> as an
  \<open>unsigned long long\<close>.
\<close>

definition light_main :: "tux \<Rightarrow> int \<Rightarrow> u64 list \<Rightarrow> u64 list \<Rightarrow> stack \<Rightarrow> machine option" where
  "light_main t argc argv environ st0 =
     (let libc_argc = (word_of_int (argc - 1) :: u64);
          top = sint (ucast (libc_argc + 1) :: u32)
      in case count_env environ 0 of
           None \<Rightarrow> None
         | Some envc \<Rightarrow>
             let st1 = push_auxvs (auxv_calls t) st0 in
             (case push_elems environ (rev [0..<nat (envc + 1)]) st1 of
                None \<Rightarrow> None
              | Some st2 \<Rightarrow>
                  (case push_elems argv (rev [1..<nat top + 1]) st2 of
                     None \<Rightarrow> None
                   | Some st3 \<Rightarrow>
                       Some \<lparr>st_stack = libc_argc # st3, rdx = 0, rip = tux_entry t\<rparr>)))"

definition libc_start :: "tux \<Rightarrow> int \<Rightarrow> u64 list \<Rightarrow> u64 list \<Rightarrow> stack \<Rightarrow> machine option" where
  "libc_start t argc argv environ st0 = light_main t argc argv environ st0"

section \<open>The layout a C library reads\<close>

fun until_null :: "u64 list \<Rightarrow> (u64 list \<times> u64 list) option" where
  "until_null [] = None"
| "until_null (p # ps) =
     (if p = 0 then Some ([], ps)
      else map_option (\<lambda>(xs, r). (p # xs, r)) (until_null ps))"

fun read_auxv :: "u64 list \<Rightarrow> (u64 \<times> u64) list option" where
  "read_auxv (t # v # st) =
     (if t = AT_NULL then Some [] else map_option ((#) (t, v)) (read_auxv st))"
| "read_auxv _ = None"

record process_args =
  args :: "u64 list"
  envp :: "u64 list"
  auxv :: "(u64 \<times> u64) list"

definition read_initial_stack :: "stack \<Rightarrow> process_args option" where
  "read_initial_stack st =
     (case st of
        [] \<Rightarrow> None
      | argc # st1 \<Rightarrow>
          let n = unat argc in
          if length st1 \<le> n \<or> st1 ! n \<noteq> 0 then None
          else (case until_null (drop (n + 1) st1) of
              None \<Rightarrow> None
            | Some (env, st2) \<Rightarrow>
                map_option (\<lambda>av. \<lparr>args = take n st1, envp = env, auxv = av\<rparr>) (read_auxv st2)))"

section \<open>Lemmas\<close>

lemma count_env_terminated:
  "0 \<notin> set env \<Longrightarrow> 0 \<le> n \<Longrightarrow> n + int (length env) < 2 ^ 31 \<Longrightarrow>
   count_env (env @ 0 # r) n = Some (n + int (length env))"
proof (induction env arbitrary: n)
  case (Cons p env)
  then have "signed_take_bit 31 (n + 1) = n + 1" by (intro signed_take_bit_int_eq_self) simp_all
  then show ?case using Cons by simp
qed simp

lemma push_elems_rev:
  "b \<le> length arr \<Longrightarrow> a \<le> b \<Longrightarrow>
   push_elems arr (rev [a..<b]) st = Some (take (b - a) (drop a arr) @ st)"
proof (induction "b - a" arbitrary: b st)
  case 0
  then show ?case by simp
next
  case (Suc d)
  then obtain c where c: "b = Suc c" "a \<le> c" by (cases b) auto
  have "take (Suc c - a) (drop a arr) = take (c - a) (drop a arr) @ [arr ! c]"
    using c Suc.prems(1) by (simp add: Suc_diff_le take_Suc_conv_app_nth)
  with Suc.hyps(1) [of c "arr ! c # st"] Suc.hyps(2) Suc.prems(1) c show ?case by simp
qed

lemma until_null_env: "0 \<notin> set env \<Longrightarrow> until_null (env @ 0 # st) = Some (env, st)"
  by (induction env) auto

lemma push_auxvs_append: "push_auxvs (xs @ ys) st = push_auxvs ys (push_auxvs xs st)"
  by (induction xs st rule: push_auxvs.induct) simp_all

lemma length_push_auxvs: "length (push_auxvs calls st) = 2 * length calls + length st"
  by (induction calls st rule: push_auxvs.induct) (simp_all add: push_auxv_def)

lemma read_auxv_pushed:
  "\<forall>(t, v) \<in> set calls. t \<noteq> AT_NULL \<Longrightarrow>
   read_auxv (push_auxvs calls st) = map_option (\<lambda>r. rev calls @ r) (read_auxv st)"
  by (induction calls st rule: push_auxvs.induct)
     (auto simp: push_auxv_def map_option_case split: option.splits)

lemma read_auxv_calls:
  "read_auxv (push_auxvs (auxv_calls t) st) = Some (rev (tl (auxv_calls t)))"
proof -
  have "auxv_calls t = [(AT_NULL, 0)] @ tl (auxv_calls t)" by (simp add: auxv_calls_def)
  then have "read_auxv (push_auxvs (auxv_calls t) st) =
      read_auxv (push_auxvs (tl (auxv_calls t)) (AT_NULL # 0 # st))"
    by (metis append_Nil push_auxvs.simps push_auxvs_append push_auxv_def)
  also have "\<dots> = map_option (\<lambda>r. rev (tl (auxv_calls t)) @ r) (read_auxv (AT_NULL # 0 # st))"
    by (rule read_auxv_pushed) (simp add: auxv_calls_def at_defs)
  finally show ?thesis by simp
qed

lemma libc_argc_bound:
  assumes "n < 2 ^ 31"
  shows "sint (ucast (word_of_int (int (Suc n) - 1) + 1 :: u64) :: u32) = int n + 1 \<longleftrightarrow> n + 1 < 2 ^ 31"
proof -
  have "(word_of_int (int (Suc n) - 1) + 1 :: u64) = word_of_int (int n + 1)" by simp
  moreover have "sint (ucast (word_of_int (int n + 1) :: u64) :: u32) = signed_take_bit 31 (int n + 1)"
    by (simp only: ucast32_of_int signed_of_int) simp
  moreover have "signed_take_bit 31 (int n + 1) = int n + 1 \<longleftrightarrow> n + 1 < 2 ^ 31"
    using assms by (auto simp: signed_take_bit_int_eq_self_iff)
  ultimately show ?thesis by simp
qed

lemma light_main_stack:
  assumes n: "argc = int (length args') + 1" "length args' + 1 < 2 ^ 31"
    and env: "0 \<notin> set env" "length env < 2 ^ 31"
  shows "light_main t argc (a0 # args' @ [0]) (env @ [0]) st0 =
    Some \<lparr>st_stack = of_nat (length args') # args' @ 0 # env @ 0 # push_auxvs (auxv_calls t) st0,
          rdx = 0, rip = tux_entry t\<rparr>"
proof -
  have top: "sint (ucast (word_of_int (argc - 1) + 1 :: u64) :: u32) = int (length args') + 1"
    using libc_argc_bound [of "length args'"] n by simp
  have e: "push_elems (env @ [0]) (rev [0..<nat (0 + int (length env) + 1)]) st = Some (env @ 0 # st)" for st
    using push_elems_rev [of "length env + 1" "env @ [0]" 0] by (simp add: nat_add_distrib)
  have a: "push_elems (a0 # args' @ [0]) (rev [1..<length args' + 2]) st = Some (args' @ 0 # st)"
    for st
    using push_elems_rev [of "length args' + 2" "a0 # args' @ [0]" 1] by simp
  have "nat (int (length args') + 1) + 1 = length args' + 2" by simp
  moreover have "(word_of_int (argc - 1) :: u64) = of_nat (length args')" using n by simp
  moreover have "count_env (env @ [0]) 0 = Some (0 + int (length env))"
    using env by (intro count_env_terminated) simp_all
  ultimately show ?thesis
    unfolding light_main_def Let_def top
    by (simp only: option.case e a)
qed

section \<open>Properties\<close>

text \<open>C40: the stack at the application's entry point, read as a C library reads a fresh process,
  holds exactly the arguments without the kernel's own \<open>argv[0]\<close>, the whole environment, and
  the auxiliary vector in reverse push order; \<open>rdx\<close> is zero and control is at the entry point.\<close>

theorem loader_initial_stack:
  assumes "argc = int (length args') + 1" "length args' + 1 < 2 ^ 31" "0 \<notin> set env" "length env < 2 ^ 31"
  shows "\<exists>st. libc_start t argc (a0 # args' @ [0]) (env @ [0]) st0 =
      Some \<lparr>st_stack = st, rdx = 0, rip = tux_entry t\<rparr>
    \<and> read_initial_stack st =
        Some \<lparr>args = args', envp = env, auxv = rev (tl (auxv_calls t))\<rparr>"
proof -
  have u: "unat (of_nat (length args') :: u64) = length args'"
    using assms(2) by (simp add: unsigned_of_nat take_bit_nat_eq_self)
  have "drop (length args' + 1) (args' @ 0 # r) = r" for r :: stack by simp
  then show ?thesis
    unfolding libc_start_def light_main_stack [OF assms]
    by (simp add: read_initial_stack_def u nth_append until_null_env [OF assms(3)] read_auxv_calls)
qed

definition sample_tux :: tux where
  "sample_tux = \<lparr>tux_entry = 0x401000, tux_start_address = 0x400000, tux_ehdr_phoff = 64,
     tux_ehdr_phnum = 4, tux_ehdr_phentsize = 56, auxv_platform = 0x600000\<rparr>"

theorem loader_initial_stack_witness:
  "\<exists>st. libc_start sample_tux 3 [1, 2, 3, 0] [4, 0] [] =
      Some \<lparr>st_stack = st, rdx = 0, rip = tux_entry sample_tux\<rparr>
    \<and> read_initial_stack st =
        Some \<lparr>args = [2, 3], envp = [4], auxv = rev (tl (auxv_calls sample_tux))\<rparr>"
  using loader_initial_stack [of 3 "[2, 3]" "[4]" sample_tux 1 "[]"] by simp

text \<open>The number of words pushed is 57 plus the numbers of arguments and environment
  variables, so the stack pointer at the entry point is 16-byte aligned (relative to an aligned
  start) only when those two numbers add up to an odd number: the loader does not align it.\<close>

theorem loader_stack_alignment:
  assumes "argc = int (length args') + 1" "length args' + 1 < 2 ^ 31" "0 \<notin> set env" "length env < 2 ^ 31"
    and "libc_start t argc (a0 # args' @ [0]) (env @ [0]) st0 = Some mc"
  shows "8 * (length (st_stack mc) - length st0) mod 16 = 0 \<longleftrightarrow> odd (length args' + length env)"
proof -
  have "length (auxv_calls t) = 27" by (simp add: auxv_calls_def)
  then have "length (st_stack mc) - length st0 = 57 + length args' + length env"
    using assms(5) unfolding libc_start_def light_main_stack [OF assms(1-4)]
    by (auto simp: length_push_auxvs)
  moreover have "8 * n mod 16 = 0 \<longleftrightarrow> even (n :: nat)" for n by presburger
  ultimately show ?thesis by (simp only:) auto
qed

theorem loader_stack_alignment_witness:
  "\<exists>mc. libc_start sample_tux 3 [1, 2, 3, 0] [4, 5, 0] [] = Some mc
    \<and> 8 * (length (st_stack mc) - 0) mod 16 \<noteq> 0"
proof -
  obtain mc where mc: "libc_start sample_tux 3 [1, 2, 3, 0] [4, 5, 0] [] = Some mc"
    using light_main_stack [of 3 "[2, 3]" "[4, 5]" sample_tux 1 "[]"] by (simp add: libc_start_def)
  with loader_stack_alignment [of 3 "[2, 3]" "[4, 5]" sample_tux 1 "[]" mc] show ?thesis by simp
qed

end
