(* ===== verification/Zmalloc.thy ===== *)
theory Zmalloc
  imports Prelude
begin

text \<open>
  \<open>apps/redis-2.0.4/zmalloc.c\<close>: the accounting allocator of Redis, as compiled on Linux
  (no \<open>HAVE_MALLOC_SIZE\<close>, so every block carries its size in an 8-byte prefix). The state is
  the map from user pointers to the size stored in the prefix and the \<open>used_memory\<close> counter,
  a 64-bit word that wraps. What the C library's \<open>malloc\<close> and \<open>realloc\<close> return is an
  argument (\<open>None\<close> is NULL); the freshness they document is a premise of the step relation.
  The mutex around the counter has no sequential effect; its flag is kept.
\<close>

definition PREFIX_SIZE :: u64 where "PREFIX_SIZE = 8"

record zstate =
  headers :: "u64 \<Rightarrow> u64 option"
  used_memory :: u64
  zmalloc_thread_safe :: bool

datatype 'a zresult =
    ZOk 'a zstate
  | ZAbort          \<comment> \<open>\<open>zmalloc_oom\<close>: message and \<open>abort()\<close>\<close>
  | ZUndefined      \<comment> \<open>the pointer is not one this allocator returned\<close>

text \<open>The rounding of the two macros to a multiple of \<open>sizeof(long)\<close>.\<close>

definition round_long :: "u64 \<Rightarrow> u64" where
  "round_long n = (if n AND 7 \<noteq> 0 then n + (8 - (n AND 7)) else n)"

definition increment_used_memory :: "u64 \<Rightarrow> zstate \<Rightarrow> zstate" where
  "increment_used_memory n z = z\<lparr>used_memory := used_memory z + round_long n\<rparr>"

definition decrement_used_memory :: "u64 \<Rightarrow> zstate \<Rightarrow> zstate" where
  "decrement_used_memory n z = z\<lparr>used_memory := used_memory z - round_long n\<rparr>"

definition zmalloc :: "u64 option \<Rightarrow> u64 \<Rightarrow> zstate \<Rightarrow> u64 zresult" where
  "zmalloc raw sz z =
     (case raw of
        None \<Rightarrow> ZAbort
      | Some ptr \<Rightarrow>
          let z1 = z\<lparr>headers := (headers z)(ptr + PREFIX_SIZE \<mapsto> sz)\<rparr>
          in ZOk (ptr + PREFIX_SIZE) (increment_used_memory (sz + PREFIX_SIZE) z1))"

definition zrealloc :: "u64 option \<Rightarrow> u64 \<Rightarrow> u64 \<Rightarrow> zstate \<Rightarrow> u64 zresult" where
  "zrealloc raw ptr sz z =
     (if ptr = 0 then zmalloc raw sz z
      else case headers z ptr of
        None \<Rightarrow> ZUndefined
      | Some oldsize \<Rightarrow>
          (case raw of
             None \<Rightarrow> ZAbort
           | Some newptr \<Rightarrow>
               let z1 = z\<lparr>headers := ((headers z)(ptr := None))(newptr + PREFIX_SIZE \<mapsto> sz)\<rparr>;
                   z2 = decrement_used_memory oldsize z1;
                   z3 = increment_used_memory sz z2
               in ZOk (newptr + PREFIX_SIZE) z3))"

definition zfree :: "u64 \<Rightarrow> zstate \<Rightarrow> unit zresult" where
  "zfree ptr z =
     (if ptr = 0 then ZOk () z
      else case headers z ptr of
        None \<Rightarrow> ZUndefined
      | Some oldsize \<Rightarrow>
          let z1 = decrement_used_memory (oldsize + PREFIX_SIZE) z
          in ZOk () (z1\<lparr>headers := (headers z1)(ptr := None)\<rparr>))"

text \<open>\<open>zstrdup\<close>: the block and the bytes copied into it, terminator included.\<close>

definition zstrdup :: "u64 option \<Rightarrow> string \<Rightarrow> zstate \<Rightarrow> (u64 \<times> string) zresult" where
  "zstrdup raw s z =
     (let l = of_nat (length s) + 1 in
      case zmalloc raw l z of
        ZOk p z' \<Rightarrow> ZOk (p, s @ [CHR 0x00]) z'
      | ZAbort \<Rightarrow> ZAbort
      | ZUndefined \<Rightarrow> ZUndefined)"

definition zmalloc_used_memory :: "zstate \<Rightarrow> u64" where
  "zmalloc_used_memory z = used_memory z"

definition zmalloc_enable_thread_safeness :: "zstate \<Rightarrow> zstate" where
  "zmalloc_enable_thread_safeness z = z\<lparr>zmalloc_thread_safe := True\<rparr>"

definition zinit :: zstate where
  "zinit = \<lparr>headers = (\<lambda>_. None), used_memory = 0, zmalloc_thread_safe = False\<rparr>"

section \<open>The counter is the sum over the live blocks\<close>

definition block_cost :: "u64 \<Rightarrow> u64" where
  "block_cost sz = round_long (sz + PREFIX_SIZE)"

definition live_cost :: "(u64 \<Rightarrow> u64 option) \<Rightarrow> u64" where
  "live_cost h = (\<Sum>p \<in> dom h. block_cost (the (h p)))"

definition accounted :: "zstate \<Rightarrow> bool" where
  "accounted z \<longleftrightarrow> finite (dom (headers z)) \<and> headers z 0 = None
     \<and> used_memory z = live_cost (headers z)"

lemma and_7_prefix: "(n + 8) AND 7 = n AND (7 :: u64)"
proof -
  have m: "(7 :: u64) = mask 3" by (simp add: mask_eq_exp_minus_1)
  have d: "(8 :: nat) dvd 18446744073709551616" by simp
  have "unat (take_bit 3 (n + 8)) = unat (take_bit 3 n)"
    by (simp add: unsigned_take_bit_eq take_bit_eq_mod unat_word_ariths mod_mod_cancel [OF d])
  then show ?thesis by (simp add: m word_unat_eq_iff flip: take_bit_eq_mask)
qed

lemma block_cost_eq: "block_cost n = round_long n + PREFIX_SIZE"
  by (simp add: block_cost_def round_long_def PREFIX_SIZE_def and_7_prefix)

lemmas zcounter_simps =
  increment_used_memory_def decrement_used_memory_def block_cost_def [symmetric]

lemma live_cost_upd:
  assumes "finite (dom h)" "h q = None"
  shows "live_cost (h(q \<mapsto> v)) = live_cost h + block_cost v"
proof -
  have "(\<Sum>p \<in> dom h. block_cost (the ((h(q \<mapsto> v)) p))) = live_cost h"
    unfolding live_cost_def using assms(2) by (intro sum.cong) auto
  then show ?thesis using assms by (simp add: live_cost_def add.commute domIff)
qed

lemma live_cost_del:
  assumes "finite (dom h)" "h q = Some v"
  shows "live_cost (h(q := None)) = live_cost h - block_cost v"
proof -
  have q: "q \<in> dom h" using assms(2) by auto
  have "(\<Sum>p \<in> dom h - {q}. block_cost (the ((h(q := None)) p))) =
      (\<Sum>p \<in> dom h - {q}. block_cost (the (h p)))"
    by (intro sum.cong) auto
  then show ?thesis
    using assms sum.remove [OF assms(1) q, of "\<lambda>p. block_cost (the (h p))"]
    by (simp add: live_cost_def)
qed

lemma zmalloc_accounted:
  assumes "accounted z" "zmalloc (Some raw) sz z = ZOk p z'"
    and "raw + PREFIX_SIZE \<noteq> 0" "raw + PREFIX_SIZE \<notin> dom (headers z)"
  shows "accounted z' \<and> p = raw + PREFIX_SIZE \<and> headers z' = (headers z)(p \<mapsto> sz)"
  using assms
  by (auto simp: zmalloc_def accounted_def zcounter_simps live_cost_upd domIff)

lemma zfree_accounted:
  assumes "accounted z" "zfree p z = ZOk u z'"
  shows "accounted z' \<and> headers z' = (headers z)(p := None)"
proof (cases "p = 0")
  case True
  with assms show ?thesis by (auto simp: zfree_def accounted_def)
next
  case False
  with assms(2) obtain s where s: "headers z p = Some s"
    by (auto simp: zfree_def split: option.splits)
  with assms False show ?thesis
    by (auto simp: zfree_def accounted_def zcounter_simps live_cost_del)
qed

lemma zrealloc_accounted:
  assumes "accounted z" "zrealloc (Some raw) ptr sz z = ZOk p z'"
    and "raw + PREFIX_SIZE \<noteq> 0"
    and "raw + PREFIX_SIZE = ptr \<or> raw + PREFIX_SIZE \<notin> dom (headers z)"
  shows "accounted z' \<and> p = raw + PREFIX_SIZE \<and> headers z' = ((headers z)(ptr := None))(p \<mapsto> sz)"
proof (cases "ptr = 0")
  case True
  with assms have "headers z ptr = None" by (simp add: accounted_def)
  with True assms zmalloc_accounted [of z raw sz p z'] show ?thesis
    by (auto simp: zrealloc_def fun_upd_idem)
next
  case False
  with assms(2) obtain old where old: "headers z ptr = Some old"
    by (auto simp: zrealloc_def split: option.splits)
  let ?h = "(headers z)(ptr := None)"
  have "?h (raw + PREFIX_SIZE) = None" using assms(4) by auto
  with assms(1) have "live_cost (?h(raw + PREFIX_SIZE \<mapsto> sz)) = live_cost ?h + block_cost sz"
    by (intro live_cost_upd) (simp_all add: accounted_def)
  also have "live_cost ?h = used_memory z - block_cost old"
    using assms(1) old by (simp add: live_cost_del accounted_def)
  finally have c: "live_cost (?h(raw + PREFIX_SIZE \<mapsto> sz)) =
      used_memory z - round_long old + round_long sz"
    by (simp only: block_cost_eq) simp
  have p: "p = raw + PREFIX_SIZE" "headers z' = ?h(raw + PREFIX_SIZE \<mapsto> sz)"
    "used_memory z' = used_memory z - round_long old + round_long sz"
    using assms(2) False old by (auto simp: zrealloc_def zcounter_simps)
  have "finite (dom (headers z'))" "headers z' 0 = None"
    using assms(1,3) p(2) by (auto simp: accounted_def)
  with p c show ?thesis by (simp only: accounted_def)
qed

section \<open>Runs of the allocator\<close>

text \<open>
  One call, with what the C library may return: an address whose user part is neither NULL nor
  inside the set of live blocks (for \<open>realloc\<close>, other than the block itself).
\<close>

inductive zstep :: "zstate \<Rightarrow> zstate \<Rightarrow> bool" where
  alloc: "raw + PREFIX_SIZE \<noteq> 0 \<Longrightarrow> raw + PREFIX_SIZE \<notin> dom (headers z) \<Longrightarrow>
    zmalloc (Some raw) sz z = ZOk p z' \<Longrightarrow> zstep z z'"
| realloc: "raw + PREFIX_SIZE \<noteq> 0 \<Longrightarrow>
    raw + PREFIX_SIZE = ptr \<or> raw + PREFIX_SIZE \<notin> dom (headers z) \<Longrightarrow>
    zrealloc (Some raw) ptr sz z = ZOk p z' \<Longrightarrow> zstep z z'"
| free: "zfree ptr z = ZOk u z' \<Longrightarrow> zstep z z'"
| threads: "zstep z (zmalloc_enable_thread_safeness z)"

inductive zreachable :: "zstate \<Rightarrow> bool" where
  start: "zreachable zinit"
| step: "zreachable z \<Longrightarrow> zstep z z' \<Longrightarrow> zreachable z'"

lemma zstep_accounted: "zstep z z' \<Longrightarrow> accounted z \<Longrightarrow> accounted z'"
proof (induction rule: zstep.induct)
  case (threads z)
  then show ?case by (simp add: accounted_def zmalloc_enable_thread_safeness_def)
qed (use zmalloc_accounted zrealloc_accounted zfree_accounted in blast)+

section \<open>Properties\<close>

text \<open>In every state a sequence of allocator calls can reach, \<open>used_memory\<close> is, modulo
  \<open>2 ^ 64\<close>, the sum of the rounded sizes (prefix included) of exactly the live blocks, although
  \<open>zrealloc\<close> leaves the prefix out of both its updates; with no live block it is 0.\<close>

theorem used_memory_accounted:
  assumes "zreachable z"
  shows "zmalloc_used_memory z = (\<Sum>p \<in> dom (headers z). block_cost (the (headers z p)))
    \<and> (dom (headers z) = {} \<longrightarrow> zmalloc_used_memory z = 0)"
proof -
  from assms have "accounted z"
  proof (induction rule: zreachable.induct)
    case start
    then show ?case by (simp add: accounted_def zinit_def live_cost_def)
  next
    case (step z z')
    then show ?case by (blast intro: zstep_accounted)
  qed
  then show ?thesis by (simp add: accounted_def zmalloc_used_memory_def live_cost_def)
qed

theorem used_memory_accounted_witness:
  "\<exists>z p. zmalloc (Some 0x1000) 5 zinit = ZOk p z \<and> zmalloc_used_memory z = 16
    \<and> zmalloc_used_memory z = (\<Sum>q \<in> dom (headers z). block_cost (the (headers z q)))"
proof -
  let ?z = "zinit\<lparr>headers := [0x1008 \<mapsto> 5], used_memory := 16\<rparr>"
  have e: "zmalloc (Some 0x1000) 5 zinit = ZOk 0x1008 ?z"
    by (simp add: zmalloc_def zinit_def PREFIX_SIZE_def increment_used_memory_def round_long_def)
  then have "zstep zinit ?z"
    by (intro zstep.alloc [of "0x1000"]) (simp_all add: PREFIX_SIZE_def zinit_def)
  then have "zreachable ?z" by (rule zreachable.step [OF zreachable.start])
  from used_memory_accounted [OF this] e show ?thesis by (auto simp: zmalloc_used_memory_def)
qed

end
