(* ===== verification/Adlist.thy ===== *)
theory Adlist
  imports Prelude "HOL-Library.Monad_Syntax"
begin

text \<open>
  \<open>apps/redis-2.0.4/adlist.c\<close> and \<open>adlist.h\<close>: the doubly linked list of Redis, on an explicit
  heap of nodes. Address 0 is NULL; a node is reached through its address, so the pointer
  surgery of insertion and deletion is modelled as it is written. The allocator is the list of
  addresses it will return, in order (0, or nothing left, is a NULL return); the calls of the
  \<open>free\<close> method are logged. A result \<open>None\<close> of an operation is an access through a NULL or
  dangling pointer (or, for the loops, that it does not return).
\<close>

type_synonym ptr = nat

record 'v listNode =
  prev :: ptr
  next_node :: ptr
  value_of :: 'v

record listIter =
  iter_next :: ptr
  direction :: nat

record 'v adlist =
  head :: ptr
  tail :: ptr
  dup :: "('v \<Rightarrow> 'v option) option"
  free_method :: bool
  match_method :: "('v \<Rightarrow> 'v \<Rightarrow> bool) option"
  len :: u32

record 'v mem =
  nodes :: "ptr \<Rightarrow> 'v listNode option"
  avail :: "ptr list"
  freed :: "'v list"

definition AL_START_HEAD :: nat where "AL_START_HEAD = 0"
definition AL_START_TAIL :: nat where "AL_START_TAIL = 1"

definition alloc :: "'v mem \<Rightarrow> ptr \<times> 'v mem" where
  "alloc m = (case avail m of [] \<Rightarrow> (0, m) | p # ps \<Rightarrow> (p, m\<lparr>avail := ps\<rparr>))"

definition put :: "ptr \<Rightarrow> 'v listNode \<Rightarrow> 'v mem \<Rightarrow> 'v mem" where
  "put p n m = m\<lparr>nodes := (nodes m)(p \<mapsto> n)\<rparr>"

definition set_prev :: "ptr \<Rightarrow> ptr \<Rightarrow> 'v mem \<Rightarrow> 'v mem option" where
  "set_prev p q m = do { n \<leftarrow> nodes m p; Some (put p (n\<lparr>prev := q\<rparr>) m) }"

definition set_next :: "ptr \<Rightarrow> ptr \<Rightarrow> 'v mem \<Rightarrow> 'v mem option" where
  "set_next p q m = do { n \<leftarrow> nodes m p; Some (put p (n\<lparr>next_node := q\<rparr>) m) }"

definition zfree_node :: "ptr \<Rightarrow> 'v mem \<Rightarrow> 'v mem option" where
  "zfree_node p m = (if nodes m p = None then None else Some (m\<lparr>nodes := (nodes m)(p := None)\<rparr>))"

definition call_free :: "'v adlist \<Rightarrow> 'v \<Rightarrow> 'v mem \<Rightarrow> 'v mem" where
  "call_free l v m = (if free_method l then m\<lparr>freed := freed m @ [v]\<rparr> else m)"

section \<open>The operations\<close>

definition listCreate :: "'v mem \<Rightarrow> 'v adlist option \<times> 'v mem" where
  "listCreate m =
     (let (p, m') = alloc m in
      if p = 0 then (None, m')
      else (Some \<lparr>head = 0, tail = 0, dup = None, free_method = False, match_method = None,
                  len = 0\<rparr>, m'))"

fun release_loop :: "'v adlist \<Rightarrow> nat \<Rightarrow> ptr \<Rightarrow> 'v mem \<Rightarrow> 'v mem option" where
  "release_loop l 0 current m = Some m"
| "release_loop l (Suc n) current m = do {
     nd \<leftarrow> nodes m current;
     m' \<leftarrow> zfree_node current (call_free l (value_of nd) m);
     release_loop l n (next_node nd) m' }"

definition listRelease :: "'v adlist \<Rightarrow> 'v mem \<Rightarrow> 'v mem option" where
  "listRelease l m = release_loop l (unat (len l)) (head l) m"

definition listAddNodeHead :: "'v adlist \<Rightarrow> 'v \<Rightarrow> 'v mem \<Rightarrow> ('v adlist option \<times> 'v mem) option" where
  "listAddNodeHead l v m =
     (let (node, m1) = alloc m in
      if node = 0 then Some (None, m1)
      else if len l = 0 then
        Some (Some (l\<lparr>head := node, tail := node, len := len l + 1\<rparr>),
              put node \<lparr>prev = 0, next_node = 0, value_of = v\<rparr> m1)
      else do {
        let m2 = put node \<lparr>prev = 0, next_node = head l, value_of = v\<rparr> m1;
        m3 \<leftarrow> set_prev (head l) node m2;
        Some (Some (l\<lparr>head := node, len := len l + 1\<rparr>), m3) })"

definition listAddNodeTail :: "'v adlist \<Rightarrow> 'v \<Rightarrow> 'v mem \<Rightarrow> ('v adlist option \<times> 'v mem) option" where
  "listAddNodeTail l v m =
     (let (node, m1) = alloc m in
      if node = 0 then Some (None, m1)
      else if len l = 0 then
        Some (Some (l\<lparr>head := node, tail := node, len := len l + 1\<rparr>),
              put node \<lparr>prev = 0, next_node = 0, value_of = v\<rparr> m1)
      else do {
        let m2 = put node \<lparr>prev = tail l, next_node = 0, value_of = v\<rparr> m1;
        m3 \<leftarrow> set_next (tail l) node m2;
        Some (Some (l\<lparr>tail := node, len := len l + 1\<rparr>), m3) })"

definition listDelNode :: "'v adlist \<Rightarrow> ptr \<Rightarrow> 'v mem \<Rightarrow> ('v adlist \<times> 'v mem) option" where
  "listDelNode l node m = do {
     n1 \<leftarrow> nodes m node;
     (l1, m1) \<leftarrow> (if prev n1 \<noteq> 0
                  then do { m' \<leftarrow> set_next (prev n1) (next_node n1) m; Some (l, m') }
                  else Some (l\<lparr>head := next_node n1\<rparr>, m));
     n2 \<leftarrow> nodes m1 node;
     (l2, m2) \<leftarrow> (if next_node n2 \<noteq> 0
                  then do { m' \<leftarrow> set_prev (next_node n2) (prev n2) m1; Some (l1, m') }
                  else Some (l1\<lparr>tail := prev n2\<rparr>, m1));
     n3 \<leftarrow> nodes m2 node;
     m3 \<leftarrow> zfree_node node (call_free l2 (value_of n3) m2);
     Some (l2\<lparr>len := len l2 - 1\<rparr>, m3) }"

definition listGetIterator :: "'v adlist \<Rightarrow> nat \<Rightarrow> 'v mem \<Rightarrow> listIter option \<times> 'v mem" where
  "listGetIterator l dir m =
     (let (p, m') = alloc m in
      if p = 0 then (None, m')
      else (Some \<lparr>iter_next = (if dir = AL_START_HEAD then head l else tail l), direction = dir\<rparr>, m'))"

definition listRewind :: "'v adlist \<Rightarrow> listIter" where
  "listRewind l = \<lparr>iter_next = head l, direction = AL_START_HEAD\<rparr>"

definition listRewindTail :: "'v adlist \<Rightarrow> listIter" where
  "listRewindTail l = \<lparr>iter_next = tail l, direction = AL_START_TAIL\<rparr>"

definition listNext :: "listIter \<Rightarrow> 'v mem \<Rightarrow> (ptr \<times> listIter) option" where
  "listNext it m =
     (let current = iter_next it in
      if current = 0 then Some (0, it)
      else do {
        n \<leftarrow> nodes m current;
        Some (current, it\<lparr>iter_next :=
          (if direction it = AL_START_HEAD then next_node n else prev n)\<rparr>) })"

text \<open>
  The copying loop. Every turn that goes on has taken an address from the allocator, which is
  the measure of its termination.
\<close>

function dup_loop :: "'v adlist \<Rightarrow> listIter \<Rightarrow> 'v mem \<Rightarrow> ('v adlist option \<times> 'v mem) option" where
  "dup_loop copy it m =
     (case listNext it m of
        None \<Rightarrow> None
      | Some (node, it') \<Rightarrow>
          if node = 0 then Some (Some copy, m)
          else case nodes m node of
              None \<Rightarrow> None
            | Some n \<Rightarrow>
                (case (case dup copy of Some d \<Rightarrow> d (value_of n) | None \<Rightarrow> Some (value_of n)) of
                   None \<Rightarrow> map_option (Pair None) (listRelease copy m)
                 | Some v \<Rightarrow>
                     (case listAddNodeTail copy v m of
                        None \<Rightarrow> None
                      | Some (None, m') \<Rightarrow> map_option (Pair None) (listRelease copy m')
                      | Some (Some copy', m') \<Rightarrow> dup_loop copy' it' m')))"
  by pat_completeness auto
termination
  by (relation "measure (\<lambda>(l, it, m). length (avail m))")
     (auto simp: listAddNodeTail_def alloc_def put_def set_next_def Let_def
       split: list.splits if_splits Option.bind_splits)

declare dup_loop.simps [simp del]

definition listDup :: "'v adlist \<Rightarrow> 'v mem \<Rightarrow> ('v adlist option \<times> 'v mem) option" where
  "listDup orig m =
     (case listCreate m of
        (None, m1) \<Rightarrow> Some (None, m1)
      | (Some copy0, m1) \<Rightarrow>
          let copy = copy0\<lparr>dup := dup orig, free_method := free_method orig,
                           match_method := match_method orig\<rparr> in
          (case listGetIterator orig AL_START_HEAD m1 of
             (None, m2) \<Rightarrow> None
           | (Some it, m2) \<Rightarrow> dup_loop copy it m2))"

partial_function (option) search_loop ::
  "'v adlist \<Rightarrow> 'v \<Rightarrow> listIter \<Rightarrow> 'v mem \<Rightarrow> ptr option" where
  "search_loop l key it m =
     (case listNext it m of
        None \<Rightarrow> None
      | Some (node, it') \<Rightarrow>
          if node = 0 then Some 0
          else case nodes m node of
              None \<Rightarrow> None
            | Some n \<Rightarrow>
                if (case match_method l of Some f \<Rightarrow> f (value_of n) key | None \<Rightarrow> key = value_of n)
                then Some node
                else search_loop l key it' m)"

definition listSearchKey :: "'v adlist \<Rightarrow> 'v \<Rightarrow> 'v mem \<Rightarrow> (ptr \<times> 'v mem) option" where
  "listSearchKey l key m =
     (case listGetIterator l AL_START_HEAD m of
        (None, m1) \<Rightarrow> None
      | (Some it, m1) \<Rightarrow> map_option (\<lambda>p. (p, m1)) (search_loop l key it m1))"

text \<open>\<open>while (index-- && n) n = n->next\<close> (or \<open>prev\<close>).\<close>

fun walk :: "('v listNode \<Rightarrow> ptr) \<Rightarrow> nat \<Rightarrow> ptr \<Rightarrow> 'v mem \<Rightarrow> ptr option" where
  "walk succ 0 n m = Some n"
| "walk succ (Suc index) n m =
     (if n = 0 then Some 0 else do { nd \<leftarrow> nodes m n; walk succ index (succ nd) m })"

text \<open>An \<open>int\<close> index; the negation of \<open>INT_MIN\<close> is undefined.\<close>

definition listIndex :: "'v adlist \<Rightarrow> int \<Rightarrow> 'v mem \<Rightarrow> ptr option" where
  "listIndex l index m =
     (if index = - (2 ^ 31) then None
      else if index < 0 then walk prev (nat (- index - 1)) (tail l) m
      else walk next_node (nat index) (head l) m)"

section \<open>The sequence a list represents\<close>

text \<open>
  A segment of linked nodes, given as the list of their addresses and values: \<open>pr\<close> is the
  node before the segment and \<open>nx\<close> the one after it.
\<close>

definition first_addr :: "(ptr \<times> 'v) list \<Rightarrow> ptr \<Rightarrow> ptr" where
  "first_addr s d = (case s of [] \<Rightarrow> d | (a, _) # _ \<Rightarrow> a)"

definition last_addr :: "(ptr \<times> 'v) list \<Rightarrow> ptr \<Rightarrow> ptr" where
  "last_addr s d = (if s = [] then d else fst (last s))"

fun dseg :: "(ptr \<Rightarrow> 'v listNode option) \<Rightarrow> ptr \<Rightarrow> ptr \<Rightarrow> (ptr \<times> 'v) list \<Rightarrow> bool" where
  "dseg h pr nx [] = True"
| "dseg h pr nx ((a, v) # r) \<longleftrightarrow>
     h a = Some \<lparr>prev = pr, next_node = first_addr r nx, value_of = v\<rparr> \<and> dseg h a nx r"

definition list_rep :: "'v mem \<Rightarrow> 'v adlist \<Rightarrow> (ptr \<times> 'v) list \<Rightarrow> bool" where
  "list_rep m l s \<longleftrightarrow> dseg (nodes m) 0 0 s \<and> distinct (map fst s) \<and> 0 \<notin> fst ` set s
     \<and> head l = first_addr s 0 \<and> tail l = last_addr s 0
     \<and> len l = of_nat (length s) \<and> length s < 2 ^ 32"

text \<open>What the allocator promises: the addresses to come are not in use and come once.\<close>

definition mem_ok :: "'v mem \<Rightarrow> bool" where
  "mem_ok m \<longleftrightarrow> (\<forall>a \<in> set (avail m). nodes m a = None) \<and> distinct (filter ((\<noteq>) 0) (avail m))
     \<and> nodes m 0 = None"

lemma first_addr_simps [simp]:
  "first_addr [] d = d" "first_addr (p # s) d = fst p"
  by (simp_all add: first_addr_def split: prod.splits)

lemma last_addr_simps [simp]:
  "last_addr [] d = d" "last_addr (s @ [p]) d = fst p" "last_addr (p # s) d = last_addr s (fst p)"
  by (simp_all add: last_addr_def)

lemma first_addr_append: "first_addr (r @ s) d = first_addr r (first_addr s d)"
  by (cases r) simp_all

lemma last_addr_append: "last_addr (r @ s) d = last_addr s (last_addr r d)"
  by (simp add: last_addr_def)

lemma dseg_append:
  "dseg h pr nx (r @ s) \<longleftrightarrow> dseg h pr (first_addr s nx) r \<and> dseg h (last_addr r pr) nx s"
  by (induction h pr nx r rule: dseg.induct) (auto simp: first_addr_append)

lemma dseg_frame [simp]: "a \<notin> fst ` set s \<Longrightarrow> dseg (h(a := x)) pr nx s = dseg h pr nx s"
  by (induction h pr nx s rule: dseg.induct) auto

lemma dseg_nodes: "dseg h pr nx s \<Longrightarrow> a \<in> fst ` set s \<Longrightarrow> h a \<noteq> None"
  by (induction h pr nx s rule: dseg.induct) auto

text \<open>The last node of a segment relinked to another successor, the first to another predecessor.\<close>

lemma dseg_relink_last:
  "dseg h pr nx (r @ [(a, v)]) \<Longrightarrow> a \<notin> fst ` set r \<Longrightarrow>
   dseg (h(a \<mapsto> \<lparr>prev = last_addr r pr, next_node = nx', value_of = v\<rparr>)) pr nx' (r @ [(a, v)])"
  by (auto simp: dseg_append)

lemma dseg_relink_first:
  "dseg h pr nx ((a, v) # s) \<Longrightarrow> a \<notin> fst ` set s \<Longrightarrow>
   dseg (h(a \<mapsto> \<lparr>prev = pr', next_node = first_addr s nx, value_of = v\<rparr>)) pr' nx ((a, v) # s)"
  by auto

lemma unat_len: "list_rep m l s \<Longrightarrow> unat (len l) = length s"
  by (simp add: list_rep_def unsigned_of_nat take_bit_nat_eq_self)

lemma list_rep_empty_iff: "list_rep m l s \<Longrightarrow> len l = 0 \<longleftrightarrow> s = []"
  using unat_len [of m l s] by (metis length_0_conv unat_eq_zero)

lemma list_rep_not_avail:
  "list_rep m l s \<Longrightarrow> mem_ok m \<Longrightarrow> a \<in> set (avail m) \<Longrightarrow> a \<notin> fst ` set s"
  using dseg_nodes [of "nodes m" 0 0 s a] by (auto simp: list_rep_def mem_ok_def)

lemma alloc_cases:
  assumes "mem_ok m" "alloc m = (p, m1)"
  obtains (null) "p = 0" "mem_ok m1" "nodes m1 = nodes m" "freed m1 = freed m"
  | (node) "p \<noteq> 0" "mem_ok m1" "nodes m1 = nodes m" "freed m1 = freed m"
      "p \<in> set (avail m)" "p \<notin> set (avail m1)" "nodes m p = None"
proof (cases "avail m")
  case Nil
  with assms null show ?thesis by (simp add: alloc_def)
next
  case (Cons a as)
  with assms have "p = a" "m1 = m\<lparr>avail := as\<rparr>" by (simp_all add: alloc_def)
  with Cons assms(1) null node show ?thesis by (cases "a = 0") (auto simp: mem_ok_def)
qed

lemma mem_ok_put: "mem_ok m \<Longrightarrow> a \<notin> set (avail m) \<Longrightarrow> a \<noteq> 0 \<Longrightarrow> mem_ok (put a n m)"
  by (auto simp: mem_ok_def put_def)

lemma put_simps [simp]:
  "nodes (put a n m) = (nodes m)(a \<mapsto> n)" "avail (put a n m) = avail m" "freed (put a n m) = freed m"
  by (simp_all add: put_def)

section \<open>The operations refine those of sequences\<close>

text \<open>
  What adding a node leaves alone: the methods of the list, the log of \<open>free\<close> calls and every
  node that is neither the new one nor one of the list.
\<close>

definition same_methods :: "'v adlist \<Rightarrow> 'v adlist \<Rightarrow> bool" where
  "same_methods l l' \<longleftrightarrow> dup l' = dup l \<and> free_method l' = free_method l \<and> match_method l' = match_method l"

definition unchanged_but :: "ptr set \<Rightarrow> 'v mem \<Rightarrow> 'v mem \<Rightarrow> bool" where
  "unchanged_but A m m' \<longleftrightarrow> (\<forall>b. b \<notin> A \<longrightarrow> nodes m' b = nodes m b)"

lemma same_methods_refl [simp]: "same_methods l l"
  by (simp add: same_methods_def)

lemma last_addr_nonempty: "s \<noteq> [] \<Longrightarrow> last_addr s d \<in> fst ` set s"
  by (simp add: last_addr_def)

lemma first_addr_nonempty: "s \<noteq> [] \<Longrightarrow> first_addr s d \<in> fst ` set s"
  by (cases s) simp_all

lemma add_tail_rep:
  assumes "mem_ok m" "list_rep m l s" "length s + 1 < 2 ^ 32" "alloc m = (a, m1)" "a \<noteq> 0"
  shows "\<exists>l' m'. listAddNodeTail l v m = Some (Some l', m') \<and> list_rep m' l' (s @ [(a, v)])
    \<and> mem_ok m' \<and> freed m' = freed m \<and> same_methods l l' \<and> avail m' = avail m1
    \<and> a \<notin> fst ` set s \<and> nodes m a = None \<and> unchanged_but (insert a (fst ` set s)) m m'"
proof -
  from assms(1,4,5) have m1: "mem_ok m1" "nodes m1 = nodes m" "freed m1 = freed m"
      "a \<in> set (avail m)" "a \<notin> set (avail m1)" "nodes m a = None"
    by (auto elim: alloc_cases)
  from m1(4) assms(1,2) have a: "a \<notin> fst ` set s" by (auto dest: list_rep_not_avail)
  show ?thesis
  proof (cases s rule: rev_cases)
    case Nil
    with assms m1 show ?thesis
      by (auto simp: listAddNodeTail_def list_rep_def same_methods_def unchanged_but_def mem_ok_put)
  next
    case (snoc r q)
    obtain b w where q: "q = (b, w)" by (cases q)
    from snoc assms(2) have ne: "len l \<noteq> 0" by (auto dest: list_rep_empty_iff)
    from snoc q assms(2) have b: "b \<noteq> 0" "b \<notin> fst ` set r" "b \<noteq> a" "tail l = b"
      and nb: "nodes m b = Some \<lparr>prev = last_addr r 0, next_node = 0, value_of = w\<rparr>"
      using a by (auto simp: list_rep_def dseg_append)
    have "b \<notin> set (avail m)"
      using snoc q assms(1,2) by (auto dest: list_rep_not_avail)
    then have "b \<notin> set (avail m1)"
      using assms(4) by (auto simp: alloc_def split: list.splits)
    then have ok: "mem_ok (put b n (put a k m1))" for n k
      using m1 b assms(5) by (intro mem_ok_put) simp_all
    show ?thesis
      using snoc q b nb a ne ok m1 assms
      by (auto simp: listAddNodeTail_def set_next_def list_rep_def same_methods_def unchanged_but_def
        dseg_append fun_upd_twist first_addr_append last_addr_append)
  qed
qed

lemma add_head_rep:
  assumes "mem_ok m" "list_rep m l s" "length s + 1 < 2 ^ 32" "alloc m = (a, m1)" "a \<noteq> 0"
  shows "\<exists>l' m'. listAddNodeHead l v m = Some (Some l', m') \<and> list_rep m' l' ((a, v) # s)
    \<and> mem_ok m' \<and> freed m' = freed m \<and> same_methods l l' \<and> avail m' = avail m1
    \<and> a \<notin> fst ` set s \<and> nodes m a = None \<and> unchanged_but (insert a (fst ` set s)) m m'"
proof -
  from assms(1,4,5) have m1: "mem_ok m1" "nodes m1 = nodes m" "freed m1 = freed m"
      "a \<in> set (avail m)" "a \<notin> set (avail m1)" "nodes m a = None"
    by (auto elim: alloc_cases)
  from m1(4) assms(1,2) have a: "a \<notin> fst ` set s" by (auto dest: list_rep_not_avail)
  show ?thesis
  proof (cases s)
    case Nil
    with assms m1 show ?thesis
      by (auto simp: listAddNodeHead_def list_rep_def same_methods_def unchanged_but_def mem_ok_put)
  next
    case (Cons q r)
    obtain b w where q: "q = (b, w)" by (cases q)
    from Cons assms(2) have ne: "len l \<noteq> 0" by (auto dest: list_rep_empty_iff)
    from Cons q assms(2) have b: "b \<noteq> 0" "b \<notin> fst ` set r" "b \<noteq> a" "head l = b"
      and nb: "nodes m b = Some \<lparr>prev = 0, next_node = first_addr r 0, value_of = w\<rparr>"
      using a by (auto simp: list_rep_def)
    have "b \<notin> set (avail m)"
      using Cons q assms(1,2) by (auto dest: list_rep_not_avail)
    then have "b \<notin> set (avail m1)"
      using assms(4) by (auto simp: alloc_def split: list.splits)
    then have ok: "mem_ok (put b n (put a k m1))" for n k
      using m1 b assms(5) by (intro mem_ok_put) simp_all
    show ?thesis
      using Cons q b nb a ne ok m1 assms
      by (auto simp: listAddNodeHead_def set_prev_def list_rep_def same_methods_def unchanged_but_def
        fun_upd_twist)
  qed
qed

lemma list_rep_split:
  assumes "list_rep m l (r @ (a, v) # t)"
  shows "nodes m a = Some \<lparr>prev = last_addr r 0, next_node = first_addr t 0, value_of = v\<rparr>"
    and "a \<noteq> 0" "a \<notin> fst ` set r" "a \<notin> fst ` set t"
  using assms by (auto simp: list_rep_def dseg_append)

lemma unlink_prev:
  assumes "dseg h pr a r" "distinct (map fst r)" "r \<noteq> []"
  shows "dseg (h(last_addr r d \<mapsto> (the (h (last_addr r d)))\<lparr>next_node := x\<rparr>)) pr x r"
proof (cases r rule: rev_cases)
  case (snoc q p)
  with assms show ?thesis by (cases p) (auto simp: dseg_append)
qed (use assms in simp)

lemma unlink_next:
  assumes "dseg h a nx t" "distinct (map fst t)" "t \<noteq> []"
  shows "dseg (h(first_addr t d \<mapsto> (the (h (first_addr t d)))\<lparr>prev := x\<rparr>)) x nx t"
proof (cases t)
  case (Cons p q)
  with assms show ?thesis by (cases p) auto
qed (use assms in simp)

lemma last_addr_const: "r \<noteq> [] \<Longrightarrow> last_addr r d = last_addr r d'"
  by (simp add: last_addr_def)

lemma first_addr_const: "r \<noteq> [] \<Longrightarrow> first_addr r d = first_addr r d'"
  by (cases r) simp_all

lemma del_node_rep:
  assumes "mem_ok m" "list_rep m l (r @ (a, v) # t)"
  shows "\<exists>l' m'. listDelNode l a m = Some (l', m') \<and> list_rep m' l' (r @ t)
    \<and> freed m' = (if free_method l then freed m @ [v] else freed m) \<and> same_methods l l'
    \<and> mem_ok m' \<and> avail m' = avail m \<and> nodes m' a = None
    \<and> unchanged_but (fst ` set (r @ (a, v) # t)) m m'"
proof -
  note sp = list_rep_split [OF assms(2)]
  from assms(2) have d: "dseg (nodes m) 0 a r" "dseg (nodes m) a 0 t" "distinct (map fst r)"
      "distinct (map fst t)" "0 \<notin> fst ` set r" "0 \<notin> fst ` set t"
      "fst ` set r \<inter> fst ` set t = {}"
    by (auto simp: list_rep_def dseg_append)
  define h1 where "h1 = (if r = [] then nodes m else
    (nodes m)(last_addr r 0 \<mapsto> (the (nodes m (last_addr r 0)))\<lparr>next_node := first_addr t 0\<rparr>))"
  define h2 where "h2 = (if t = [] then h1 else
    h1(first_addr t 0 \<mapsto> (the (h1 (first_addr t 0)))\<lparr>prev := last_addr r 0\<rparr>))"
  have r1: "dseg h1 0 (first_addr t 0) r"
  proof (cases "r = []")
    case False
    with d(1,3) show ?thesis
      by (simp add: h1_def unlink_prev)
  qed (simp add: h1_def)
  have fr: "r \<noteq> [] \<Longrightarrow> last_addr r 0 \<notin> fst ` set t" "t \<noteq> [] \<Longrightarrow> first_addr t 0 \<notin> fst ` set r"
    using d(7) last_addr_nonempty [of r 0] first_addr_nonempty [of t 0] by auto
  have t1: "dseg h1 a 0 t"
    using d(2) fr by (auto simp: h1_def)
  have t2: "dseg h2 (last_addr r 0) 0 t"
  proof (cases "t = []")
    case False
    with t1 d(4) show ?thesis
      by (simp add: h2_def unlink_next)
  qed (simp add: h2_def)
  have r2: "dseg h2 0 (first_addr t 0) r"
    using r1 fr by (auto simp: h2_def)
  have h2a: "h2 a = nodes m a" "h1 a = nodes m a"
    using sp(3,4) last_addr_nonempty [of r 0] first_addr_nonempty [of t 0]
    by (auto simp: h1_def h2_def)
  have lr: "last_addr r 0 \<noteq> 0 \<longleftrightarrow> r \<noteq> []" "first_addr t 0 \<noteq> 0 \<longleftrightarrow> t \<noteq> []"
    using d(5,6) last_addr_nonempty [of r 0] first_addr_nonempty [of t 0] by auto
  have nr: "r \<noteq> [] \<Longrightarrow> nodes m (last_addr r 0) \<noteq> None"
    using dseg_nodes [OF d(1)] last_addr_nonempty [of r 0] by blast
  have nt: "t \<noteq> [] \<Longrightarrow> h1 (first_addr t 0) \<noteq> None"
    using dseg_nodes [OF t1] first_addr_nonempty [of t 0] by blast
  have un: "b \<notin> fst ` set (r @ (a, v) # t) \<Longrightarrow> h2 b = nodes m b" for b
    using last_addr_nonempty [of r 0] first_addr_nonempty [of t 0] by (auto simp: h1_def h2_def)
  let ?l = "l\<lparr>head := (if r = [] then first_addr t 0 else head l),
    tail := (if t = [] then last_addr r 0 else tail l), len := len l - 1\<rparr>"
  let ?m = "m\<lparr>nodes := h2(a := None), freed := (if free_method l then freed m @ [v] else freed m)\<rparr>"
  define m1 m2 where "m1 = m\<lparr>nodes := h1\<rparr>" and "m2 = m\<lparr>nodes := h2\<rparr>"
  define l1 where "l1 = l\<lparr>head := (if r = [] then first_addr t 0 else head l)\<rparr>"
  define l2 where "l2 = l1\<lparr>tail := (if t = [] then last_addr r 0 else tail l)\<rparr>"
  have s1: "(if last_addr r 0 \<noteq> 0
      then do { m' \<leftarrow> set_next (last_addr r 0) (first_addr t 0) m; Some (l, m') }
      else Some (l\<lparr>head := first_addr t 0\<rparr>, m)) = Some (l1, m1)"
    using lr(1) nr by (auto simp: h1_def set_next_def put_def l1_def m1_def)
  have s2: "(if first_addr t 0 \<noteq> 0
      then do { m' \<leftarrow> set_prev (first_addr t 0) (last_addr r 0) m1; Some (l1, m') }
      else Some (l1\<lparr>tail := last_addr r 0\<rparr>, m1)) = Some (l2, m2)"
    using lr(2) nt by (auto simp: h2_def set_prev_def put_def l1_def l2_def m1_def m2_def)
  have na: "nodes m1 a = nodes m a" "nodes m2 a = nodes m a"
    using h2a by (simp_all add: m1_def m2_def)
  have "listDelNode l a m = do { m3 \<leftarrow> zfree_node a (call_free l2 v m2); Some (l2\<lparr>len := len l2 - 1\<rparr>, m3) }"
    by (simp only: listDelNode_def sp(1) na bind.bind_lunit listNode.simps s1 s2 prod.case)
  also have "\<dots> = Some (?l, ?m)"
    using na(2) sp(1) by (simp add: zfree_node_def call_free_def l1_def l2_def m2_def)
  finally have e: "listDelNode l a m = Some (?l, ?m)" .
  have "dseg (h2(a := None)) 0 0 (r @ t)"
    using r2 t2 sp(3,4) by (simp add: dseg_append)
  moreover have "len l - 1 = of_nat (length (r @ t))" "length (r @ t) < 2 ^ 32"
    using assms(2) by (simp_all add: list_rep_def)
  moreover have "(if r = [] then first_addr t 0 else head l) = first_addr (r @ t) 0"
    using assms(2) by (cases r) (simp_all add: list_rep_def first_addr_append)
  moreover have "(if t = [] then last_addr r 0 else tail l) = last_addr (r @ t) 0"
    using assms(2) by (simp add: list_rep_def last_addr_def)
  ultimately have "list_rep ?m ?l (r @ t)"
    using assms(2) d by (simp add: list_rep_def)
  moreover have "h2 0 = None"
    using un [of 0] sp(2) d(5,6) assms(1) by (auto simp: mem_ok_def)
  then have "mem_ok ?m"
    using assms(1) un list_rep_not_avail [OF assms(2,1)] by (auto simp: mem_ok_def)
  ultimately show ?thesis
    using e un by (auto simp: same_methods_def unchanged_but_def)
qed

text \<open>Traversal: the iterator and the walk of \<open>listIndex\<close> follow the sequence in both directions.\<close>

lemma walk_forward:
  "dseg (nodes m) pr 0 s \<Longrightarrow> 0 \<notin> fst ` set s \<Longrightarrow>
   walk next_node n (first_addr s 0) m = Some (if n < length s then fst (s ! n) else 0)"
proof (induction s arbitrary: pr n)
  case Nil
  then show ?case by (cases n) simp_all
next
  case (Cons p s)
  then show ?case by (cases p; cases n) auto
qed

lemma walk_backward:
  "dseg (nodes m) 0 nx s \<Longrightarrow> 0 \<notin> fst ` set s \<Longrightarrow>
   walk prev n (last_addr s 0) m = Some (if n < length s then fst (s ! (length s - 1 - n)) else 0)"
proof (induction s arbitrary: nx n rule: rev_induct)
  case Nil
  then show ?case by (cases n) simp_all
next
  case (snoc p s)
  then show ?case
    by (cases p; cases n) (auto simp: dseg_append nth_append Suc_diff_Suc)
qed

lemma listNext_head:
  "dseg (nodes m) pr 0 s \<Longrightarrow> 0 \<notin> fst ` set s \<Longrightarrow>
   listNext \<lparr>iter_next = first_addr s 0, direction = AL_START_HEAD\<rparr> m =
     (case s of [] \<Rightarrow> Some (0, \<lparr>iter_next = 0, direction = AL_START_HEAD\<rparr>)
      | (a, v) # t \<Rightarrow> Some (a, \<lparr>iter_next = first_addr t 0, direction = AL_START_HEAD\<rparr>))"
  by (cases s) (auto simp: listNext_def)

text \<open>What \<open>listSearchKey\<close> compares with: the match method, or equality of the pointers.\<close>

definition matches :: "'v adlist \<Rightarrow> 'v \<Rightarrow> 'v \<Rightarrow> bool" where
  "matches l key v = (case match_method l of Some f \<Rightarrow> f v key | None \<Rightarrow> key = v)"

lemma search_loop_rep:
  "dseg (nodes m) pr 0 s \<Longrightarrow> 0 \<notin> fst ` set s \<Longrightarrow>
   search_loop l key \<lparr>iter_next = first_addr s 0, direction = AL_START_HEAD\<rparr> m =
     Some (first_addr (dropWhile (\<lambda>(a, v). \<not> matches l key v) s) 0)"
proof (induction s arbitrary: pr)
  case Nil
  then show ?case by (subst search_loop.simps) (simp add: listNext_def)
next
  case (Cons p s)
  obtain a v where p: "p = (a, v)" by (cases p)
  from Cons.prems p listNext_head [OF Cons.prems] show ?case
    by (subst search_loop.simps)
       (auto simp: matches_def Cons.IH split: option.splits)
qed

lemma release_loop_rep:
  "dseg (nodes m) pr 0 s \<Longrightarrow> distinct (map fst s) \<Longrightarrow>
   \<exists>m'. release_loop l (length s) (first_addr s 0) m = Some m'
     \<and> nodes m' = (\<lambda>a. if a \<in> fst ` set s then None else nodes m a)
     \<and> freed m' = (if free_method l then freed m @ map snd s else freed m) \<and> avail m' = avail m"
proof (induction s arbitrary: pr m)
  case (Cons p s)
  obtain a v where p: "p = (a, v)" by (cases p)
  let ?m = "call_free l v m\<lparr>nodes := (nodes m)(a := None)\<rparr>"
  from Cons.prems p have "dseg (nodes ?m) a 0 s" "distinct (map fst s)" by auto
  from Cons.IH [OF this] obtain m' where
    "release_loop l (length s) (first_addr s 0) ?m = Some m'"
    "nodes m' = (\<lambda>a. if a \<in> fst ` set s then None else nodes ?m a)"
    "freed m' = (if free_method l then freed ?m @ map snd s else freed ?m)" "avail m' = avail ?m"
    by blast
  with Cons.prems p show ?case by (auto simp: zfree_node_def call_free_def fun_eq_iff)
qed simp

lemma listRelease_rep:
  assumes "list_rep m l s"
  shows "\<exists>m'. listRelease l m = Some m'
     \<and> nodes m' = (\<lambda>a. if a \<in> fst ` set s then None else nodes m a)
     \<and> freed m' = (if free_method l then freed m @ map snd s else freed m) \<and> avail m' = avail m"
  using assms release_loop_rep [of m 0 s l]
  by (simp add: listRelease_def unat_len [OF assms] list_rep_def unsigned_of_nat take_bit_nat_eq_self)

text \<open>The value \<open>listDup\<close> stores for a value of the original; \<open>None\<close> is a failing \<open>dup\<close> method.\<close>

definition dup_value :: "'v adlist \<Rightarrow> 'v \<Rightarrow> 'v option" where
  "dup_value l v = (case dup l of Some d \<Rightarrow> d v | None \<Rightarrow> Some v)"

lemma dup_value_same: "same_methods l l' \<Longrightarrow> dup_value l' = dup_value l"
  by (simp add: dup_value_def same_methods_def fun_eq_iff)

lemma same_methods_trans: "same_methods a b \<Longrightarrow> same_methods b c \<Longrightarrow> same_methods a c"
  by (simp add: same_methods_def)

lemma dseg_unchanged:
  "dseg (nodes m) pr nx s \<Longrightarrow> unchanged_but A m m' \<Longrightarrow> fst ` set s \<inter> A = {} \<Longrightarrow>
   dseg (nodes m') pr nx s"
  by (induction "nodes m" pr nx s rule: dseg.induct) (auto simp: unchanged_but_def)

lemma alloc_Cons: "avail m = a # as \<Longrightarrow> alloc m = (a, m\<lparr>avail := as\<rparr>)"
  by (simp add: alloc_def)

lemma dup_loop_rep:
  "mem_ok m \<Longrightarrow> dseg (nodes m) pr 0 t \<Longrightarrow> 0 \<notin> fst ` set t \<Longrightarrow> list_rep m copy c \<Longrightarrow>
   fst ` set t \<inter> fst ` set c = {} \<Longrightarrow> length c + length t < 2 ^ 32 \<Longrightarrow>
   length t \<le> length (avail m) \<Longrightarrow> 0 \<notin> set (take (length t) (avail m)) \<Longrightarrow>
   map (\<lambda>x. dup_value copy (snd x)) t = map Some ys \<Longrightarrow>
   \<exists>copy' m' c'. dup_loop copy \<lparr>iter_next = first_addr t 0, direction = AL_START_HEAD\<rparr> m
       = Some (Some copy', m')
     \<and> list_rep m' copy' (c @ c') \<and> map snd c' = ys \<and> mem_ok m' \<and> same_methods copy copy'
     \<and> freed m' = freed m \<and> fst ` set c' \<subseteq> set (take (length t) (avail m))
     \<and> unchanged_but (fst ` set c \<union> set (take (length t) (avail m))) m m'"
proof (induction t arbitrary: pr copy c m ys)
  case Nil
  then show ?case
    by (subst dup_loop.simps)
       (auto simp: listNext_def unchanged_but_def intro!: exI [of _ "[]"])
next
  case (Cons p t)
  obtain b w where p: "p = (b, w)" by (cases p)
  from Cons.prems(9) p obtain y ys' where ys: "ys = y # ys'" "dup_value copy w = Some y"
      "map (\<lambda>x. dup_value copy (snd x)) t = map Some ys'"
    by (auto simp: Cons_eq_map_conv)
  from Cons.prems(7,8) obtain a as where av: "avail m = a # as" "a \<noteq> 0" "0 \<notin> set (take (length t) as)"
      "length t \<le> length as"
    by (cases "avail m") auto
  from Cons.prems(6) have "length c + 1 < 2 ^ 32" by simp
  from add_tail_rep [OF Cons.prems(1,4) this alloc_Cons [OF av(1)] av(2), of y]
  obtain l' m' where add: "listAddNodeTail copy y m = Some (Some l', m')"
      "list_rep m' l' (c @ [(a, y)])" "mem_ok m'" "freed m' = freed m" "same_methods copy l'"
      "avail m' = as" "nodes m a = None" "unchanged_but (insert a (fst ` set c)) m m'"
    by auto
  from Cons.prems(2,3) p have nb: "nodes m b = Some \<lparr>prev = pr, next_node = first_addr t 0, value_of = w\<rparr>"
      "b \<noteq> 0" "dseg (nodes m) b 0 t" by auto
  have at: "a \<notin> fst ` set (p # t)" using dseg_nodes [OF Cons.prems(2)] add(7) by blast
  have seg: "dseg (nodes m') b 0 t"
    using dseg_unchanged [OF nb(3) add(8)] at Cons.prems(5) by auto
  from Cons.IH [OF add(3) seg _ add(2), of ys'] Cons.prems(3,5,6) at av add(6) ys(3)
    dup_value_same [OF add(5)]
  obtain copy' m'' c' where ih:
      "dup_loop l' \<lparr>iter_next = first_addr t 0, direction = AL_START_HEAD\<rparr> m' = Some (Some copy', m'')"
      "list_rep m'' copy' ((c @ [(a, y)]) @ c')" "map snd c' = ys'" "mem_ok m''" "same_methods l' copy'"
      "freed m'' = freed m'" "fst ` set c' \<subseteq> set (take (length t) (avail m'))"
      "unchanged_but (fst ` set (c @ [(a, y)]) \<union> set (take (length t) (avail m'))) m' m''"
    by auto
  have "dup_loop copy \<lparr>iter_next = first_addr (p # t) 0, direction = AL_START_HEAD\<rparr> m
      = Some (Some copy', m'')"
    using p nb ys(2) add(1) ih(1)
    by (subst dup_loop.simps, cases "dup copy") (simp_all add: listNext_def dup_value_def)
  moreover have "fst ` set ((a, y) # c') \<subseteq> set (take (length (p # t)) (avail m))"
    using add(6) ih(7) av(1) by auto
  moreover have "unchanged_but (fst ` set c \<union> set (take (length (p # t)) (avail m))) m m''"
    using add(6,8) ih(8) av(1) by (auto simp: unchanged_but_def)
  ultimately show ?case
    using ih(2-6) ys(1) add(4) same_methods_trans [OF add(5) ih(5)]
    by (intro exI [of _ copy'] exI [of _ m''] exI [of _ "(a, y) # c'"]) simp
qed

section \<open>Properties\<close>

text \<open>On a list that represents the sequence \<open>s\<close>, with an allocator that has an address to
  give, \<open>listAddNodeHead\<close> makes it represent \<open>(a, v) # s\<close> and \<open>listAddNodeTail\<close> makes it
  represent \<open>s @ [(a, v)]\<close>, for a new node \<open>a\<close>; no node outside the list changes, and the
  methods and the \<open>free\<close> log are left alone.\<close>

theorem listAddNode_refines:
  assumes "mem_ok m" "list_rep m l s" "length s + 1 < 2 ^ 32" "alloc m = (a, m1)" "a \<noteq> 0"
  shows "a \<notin> fst ` set s
    \<and> (\<exists>l' m'. listAddNodeHead l v m = Some (Some l', m') \<and> list_rep m' l' ((a, v) # s)
      \<and> mem_ok m' \<and> freed m' = freed m \<and> same_methods l l' \<and> unchanged_but (insert a (fst ` set s)) m m')
    \<and> (\<exists>l' m'. listAddNodeTail l v m = Some (Some l', m') \<and> list_rep m' l' (s @ [(a, v)])
      \<and> mem_ok m' \<and> freed m' = freed m \<and> same_methods l l' \<and> unchanged_but (insert a (fst ` set s)) m m')"
  using add_head_rep [OF assms, of v] add_tail_rep [OF assms, of v] by blast

text \<open>C23: \<open>listDelNode\<close> on any node of a list removes exactly that node from the sequence, calls
  the \<open>free\<close> method once on its value when there is one, and changes no node outside the list.\<close>

theorem listDelNode_refines:
  assumes "mem_ok m" "list_rep m l (r @ (a, v) # t)"
  shows "\<exists>l' m'. listDelNode l a m = Some (l', m') \<and> list_rep m' l' (r @ t)
    \<and> freed m' = (if free_method l then freed m @ [v] else freed m) \<and> same_methods l l'
    \<and> mem_ok m' \<and> nodes m' a = None \<and> unchanged_but (fst ` set (r @ (a, v) # t)) m m'"
  using del_node_rep [OF assms] by blast

text \<open>\<open>listIndex\<close> on any index but \<open>INT_MIN\<close> counts from the head for \<open>index \<ge> 0\<close> and from
  the tail for \<open>index < 0\<close> and is NULL exactly out of range; \<open>listSearchKey\<close> returns, and finds
  the first node the match method (or pointer equality) accepts.\<close>

theorem listIndex_search_spec:
  assumes "list_rep m l s" "- (2 ^ 31) < i"
  shows "listIndex l i m = Some
      (if 0 \<le> i \<and> i < int (length s) then fst (s ! nat i)
       else if i < 0 \<and> - i \<le> int (length s) then fst (s ! nat (int (length s) + i))
       else 0)
    \<and> (\<forall>q m'. alloc m = (q, m') \<and> q \<noteq> 0 \<longrightarrow>
        listSearchKey l key m = Some (first_addr (dropWhile (\<lambda>(a, v). \<not> matches l key v) s) 0, m'))"
proof -
  from assms have d: "dseg (nodes m) 0 0 s" "0 \<notin> fst ` set s" "head l = first_addr s 0"
      "tail l = last_addr s 0" by (auto simp: list_rep_def)
  have "listIndex l i m = Some
      (if 0 \<le> i \<and> i < int (length s) then fst (s ! nat i)
       else if i < 0 \<and> - i \<le> int (length s) then fst (s ! nat (int (length s) + i))
       else 0)"
  proof (cases "i < 0")
    case True
    then have "- i \<le> int (length s) \<Longrightarrow> length s - 1 - nat (- i - 1) = nat (int (length s) + i)"
      by linarith
    with True d assms(2) walk_backward [OF d(1,2), of "nat (- i - 1)"] show ?thesis
      by (auto simp: listIndex_def)
  next
    case False
    with d assms(2) walk_forward [OF d(1,2), of "nat i"] show ?thesis
      by (auto simp: listIndex_def nat_less_iff)
  qed
  moreover have "listSearchKey l key m =
      Some (first_addr (dropWhile (\<lambda>(a, v). \<not> matches l key v) s) 0, m')"
    if "alloc m = (q, m')" "q \<noteq> 0" for q m'
  proof -
    from that have "nodes m' = nodes m" by (auto simp: alloc_def split: list.splits)
    with d search_loop_rep [of m' 0 s l key] that show ?thesis
      by (simp add: listSearchKey_def listGetIterator_def)
  qed
  ultimately show ?thesis by blast
qed

text \<open>When the allocator has addresses for the copy (the list, the iterator and one per
  element) and the \<open>dup\<close> method does not fail, \<open>listDup\<close> returns a list of the duplicated values
  in the same order, with the methods of the original, on nodes of its own: the original list
  still represents its sequence.\<close>

theorem listDup_copies:
  assumes "mem_ok m" "list_rep m orig s" "avail m = p # q # as" "p \<noteq> 0" "q \<noteq> 0"
    and "length s \<le> length as" "0 \<notin> set (take (length s) as)"
    and "map (\<lambda>x. dup_value orig (snd x)) s = map Some ys"
  shows "\<exists>copy m' c. listDup orig m = Some (Some copy, m') \<and> list_rep m' copy c \<and> map snd c = ys
    \<and> same_methods orig copy \<and> mem_ok m' \<and> freed m' = freed m
    \<and> list_rep m' orig s \<and> fst ` set c \<inter> fst ` set s = {}"
proof -
  define m2 where "m2 = m\<lparr>avail := as\<rparr>"
  define l0 where "l0 = \<lparr>head = 0, tail = 0, dup = dup orig, free_method = free_method orig,
    match_method = match_method orig, len = 0 :: u32\<rparr>"
  from assms(2) have d: "dseg (nodes m) 0 0 s" "0 \<notin> fst ` set s" "head orig = first_addr s 0"
      "length s < 2 ^ 32" by (auto simp: list_rep_def)
  have m2: "mem_ok m2" "dseg (nodes m2) 0 0 s" "list_rep m2 l0 []" "avail m2 = as" "freed m2 = freed m"
    using assms(1,3) d(1) by (auto simp: mem_ok_def m2_def l0_def list_rep_def split: if_splits)
  have dv: "dup_value l0 = dup_value orig" by (simp add: dup_value_def l0_def fun_eq_iff)
  have sm: "same_methods orig l0" by (simp add: same_methods_def l0_def)
  obtain copy m' c where c:
      "dup_loop l0 \<lparr>iter_next = first_addr s 0, direction = AL_START_HEAD\<rparr> m2 = Some (Some copy, m')"
      "list_rep m' copy c" "map snd c = ys" "mem_ok m'" "same_methods l0 copy" "freed m' = freed m2"
      "fst ` set c \<subseteq> set (take (length s) as)"
      "unchanged_but (set (take (length s) as)) m2 m'"
    using dup_loop_rep [OF m2(1,2) d(2) m2(3), of ys] assms(6-8) d(4) m2(4) dv by auto
  have "listDup orig m = Some (Some copy, m')"
    using assms(3-5) c(1) d(3)
    by (simp add: listDup_def listCreate_def listGetIterator_def alloc_def m2_def l0_def AL_START_HEAD_def)
  moreover have old: "fst ` set s \<inter> set (take (length s) as) = {}"
    using list_rep_not_avail [OF assms(2,1)] assms(3) by (auto dest: in_set_takeD)
  then have "dseg (nodes m') 0 0 s"
    using dseg_unchanged [OF m2(2) c(8)] by blast
  then have "list_rep m' orig s" using assms(2) by (simp add: list_rep_def)
  moreover have "fst ` set c \<inter> fst ` set s = {}"
    using c(7) old by blast
  ultimately show ?thesis
    using c(2-4,6) m2(5) same_methods_trans [OF sm c(5)]
    by (intro exI [of _ copy] exI [of _ m'] exI [of _ c]) simp
qed

section \<open>A concrete list\<close>

definition ex_mem :: "int mem" where
  "ex_mem = \<lparr>nodes = [1 \<mapsto> \<lparr>prev = 0, next_node = 2, value_of = 10\<rparr>,
                       2 \<mapsto> \<lparr>prev = 1, next_node = 0, value_of = 20\<rparr>],
            avail = [3, 4, 5, 6], freed = []\<rparr>"

definition ex_list :: "int adlist" where
  "ex_list = \<lparr>head = 1, tail = 2, dup = Some (\<lambda>v. if v = 0 then None else Some (v + 1)),
             free_method = True, match_method = None, len = 2\<rparr>"

lemma ex_rep:
  "mem_ok ex_mem" "list_rep ex_mem ex_list [(1, 10), (2, 20)]"
  "alloc ex_mem = (3, ex_mem\<lparr>avail := [4, 5, 6]\<rparr>)"
  by (simp_all add: mem_ok_def list_rep_def ex_mem_def ex_list_def alloc_def)

theorem listAddNode_refines_witness:
  "\<exists>l' m'. listAddNodeTail ex_list 30 ex_mem = Some (Some l', m')
    \<and> list_rep m' l' [(1, 10), (2, 20), (3, 30)]"
  using listAddNode_refines [OF ex_rep(1,2) _ ex_rep(3), of 30] by auto

theorem listDelNode_refines_witness:
  "\<exists>l' m'. listDelNode ex_list 1 ex_mem = Some (l', m') \<and> list_rep m' l' [(2, 20)] \<and> freed m' = [10]"
  using listDelNode_refines [of ex_mem ex_list "[]" 1 10 "[(2, 20)]"] ex_rep
  by (auto simp: ex_mem_def ex_list_def)

theorem listIndex_search_spec_witness:
  "listIndex ex_list (- 1) ex_mem = Some 2
   \<and> (\<exists>m'. listSearchKey ex_list 20 ex_mem = Some (2, m'))"
  using listIndex_search_spec [OF ex_rep(2), of "- 1" 20] ex_rep(3)
  by (auto simp: matches_def ex_list_def)

theorem listDup_copies_witness:
  "\<exists>copy m' c. listDup ex_list ex_mem = Some (Some copy, m') \<and> list_rep m' copy c
    \<and> map snd c = [11, 21]"
proof -
  have "map (\<lambda>x. dup_value ex_list (snd x)) [(1, 10), (2, 20)] = map Some [11, 21]"
    by (simp add: dup_value_def ex_list_def)
  from listDup_copies [OF ex_rep(1,2) _ _ _ _ _ this, of 3 4 "[5, 6]"]
  show ?thesis by (force simp: ex_mem_def)
qed

end
