(* ===== verification/Buffers.thy ===== *)
theory Buffers
  imports Prelude "HOL-Library.Monad_Syntax"
begin

text \<open>
  Heap blocks as the C modules of Redis use them: a block is the list of exactly its allocated
  bytes, offsets into it stand for pointers, and every access is checked. \<open>None\<close> is an access
  outside the block, which the C code would commit silently. The bytes \<open>zmalloc\<close> and \<open>zrealloc\<close>
  do not initialise are taken from an argument \<open>g\<close>.
\<close>

type_synonym garbage = "nat \<Rightarrow> u8"

definition malloc_buf :: "garbage \<Rightarrow> nat \<Rightarrow> bytes" where
  "malloc_buf g n = map g [0..<n]"

definition realloc_buf :: "garbage \<Rightarrow> bytes \<Rightarrow> nat \<Rightarrow> bytes" where
  "realloc_buf g b n = map (\<lambda>i. if i < length b then b ! i else g i) [0..<n]"

text \<open>\<open>memcpy\<close> or a store into a buffer, and a read of a block of it.\<close>

definition poke :: "bytes \<Rightarrow> nat \<Rightarrow> bytes \<Rightarrow> bytes option" where
  "poke b i bs = (if i + length bs \<le> length b then Some (splice b i bs) else None)"

definition peek :: "bytes \<Rightarrow> nat \<Rightarrow> nat \<Rightarrow> bytes option" where
  "peek b i n = (if i + n \<le> length b then Some (take n (drop i b)) else None)"

text \<open>\<open>strlen\<close>: undefined when the memory holds no terminator.\<close>

definition c_strlen :: "bytes \<Rightarrow> nat option" where
  "c_strlen b = (if 0 \<in> set b then Some (length (takeWhile (\<lambda>c. c \<noteq> 0) b)) else None)"

definition rd :: "bytes \<Rightarrow> nat \<Rightarrow> u8 option" where
  "rd b i = (if i < length b then Some (b ! i) else None)"

text \<open>\<open>memmove\<close> inside one block.\<close>

definition bmove :: "bytes \<Rightarrow> nat \<Rightarrow> nat \<Rightarrow> nat \<Rightarrow> bytes option" where
  "bmove b dst src n = do { d \<leftarrow> peek b src n; poke b dst d }"

section \<open>Reads and writes of blocks\<close>

lemma take_splice_left: "n \<le> i \<Longrightarrow> i \<le> length m \<Longrightarrow> take n (splice m i bs) = take n m"
  by (simp add: splice_def)

lemma take_splice_through:
  "i \<le> length m \<Longrightarrow> n = i + length bs \<Longrightarrow> take n (splice m i bs) = take i m @ bs"
  by (simp add: splice_def)

lemma length_peek: "peek b i n = Some d \<Longrightarrow> length d = n"
  by (auto simp: peek_def split: if_splits)

lemma length_realloc [simp]: "length (realloc_buf g b n) = n"
  by (simp add: realloc_buf_def)

lemma take_realloc: "k \<le> length b \<Longrightarrow> k \<le> n \<Longrightarrow> take k (realloc_buf g b n) = take k b"
  by (intro nth_equalityI) (simp_all add: realloc_buf_def)

text \<open>Accesses to a block given as a concatenation.\<close>

lemma rd_append [simp]: "rd (a @ c # b) (length a) = Some c"
  by (simp add: rd_def nth_append)

lemma peek_append: "i = length a \<Longrightarrow> n = length d \<Longrightarrow> peek (a @ d @ b) i n = Some d"
  by (simp add: peek_def)

lemma poke_append: "i = length a \<Longrightarrow> length x = length d \<Longrightarrow> poke (a @ d @ b) i x = Some (a @ x @ b)"
  by (simp add: poke_def splice_def)

lemma realloc_grow: "n = length b + k \<Longrightarrow> \<exists>x. realloc_buf g b n = b @ x \<and> length x = k"
proof (intro exI conjI)
  assume n: "n = length b + k"
  show "realloc_buf g b n = b @ map g [length b..<n]"
    using n by (intro nth_equalityI) (simp_all add: realloc_buf_def nth_append)
  show "length (map g [length b..<n]) = k" using n by simp
qed

lemma realloc_shrink: "n \<le> length b \<Longrightarrow> realloc_buf g b n = take n b"
  by (intro nth_equalityI) (simp_all add: realloc_buf_def)

end
