(* ===== verification/Sds.thy ===== *)
theory Sds
  imports Buffers
begin

text \<open>
  \<open>apps/redis-2.0.4/sds.c\<close>: the length-prefixed strings of Redis. A string is its header
  (\<open>len\<close>, \<open>free\<close>) and the bytes of its buffer; the buffer has exactly the bytes that were
  allocated for it, and every access is checked: \<open>None\<close> is an access outside a buffer (or an
  overflow of a signed \<open>long\<close>), which the C code would commit silently. What \<open>zmalloc\<close> and
  \<open>zrealloc\<close> leave in bytes they do not initialise is the argument \<open>g\<close>; running out of memory
  aborts the process (\<open>SDS_ABORT_ON_OOM\<close>), so it has no outcome here. Lengths are natural
  numbers: no object is large enough for \<open>2 * (len + addlen)\<close> to pass \<open>2 ^ 64\<close>.
\<close>

record sds =
  slen :: nat
  sfree :: nat
  buf :: bytes

section \<open>Creation, length, growth\<close>

definition sdsnewlen :: "garbage \<Rightarrow> bytes option \<Rightarrow> nat \<Rightarrow> sds option" where
  "sdsnewlen g init initlen = do {
     let b0 = malloc_buf g (initlen + 1);
     b1 \<leftarrow> (if initlen \<noteq> 0
            then (case init of Some i \<Rightarrow> do { d \<leftarrow> peek i 0 initlen; poke b0 0 d }
                  | None \<Rightarrow> poke b0 0 (replicate initlen 0))
            else Some b0);
     b2 \<leftarrow> poke b1 initlen [0];
     Some \<lparr>slen = initlen, sfree = 0, buf = b2\<rparr> }"

definition sdsempty :: "garbage \<Rightarrow> sds option" where
  "sdsempty g = sdsnewlen g (Some [0]) 0"

definition sdsnew :: "garbage \<Rightarrow> bytes option \<Rightarrow> sds option" where
  "sdsnew g init = do {
     initlen \<leftarrow> (case init of None \<Rightarrow> Some 0 | Some i \<Rightarrow> c_strlen i);
     sdsnewlen g init initlen }"

definition sdslen :: "sds \<Rightarrow> nat" where "sdslen s = slen s"

definition sdsdup :: "garbage \<Rightarrow> sds \<Rightarrow> sds option" where
  "sdsdup g s = sdsnewlen g (Some (buf s)) (sdslen s)"

definition sdsavail :: "sds \<Rightarrow> nat" where "sdsavail s = sfree s"

text \<open>\<open>strlen\<close> goes through an \<open>int\<close>.\<close>

definition sdsupdatelen :: "sds \<Rightarrow> (int \<times> int) option" where
  "sdsupdatelen s = do {
     n \<leftarrow> c_strlen (buf s);
     let reallen = signed_take_bit 31 (int n);
     Some (int (sfree s) + (int (slen s) - reallen), reallen) }"

definition sdsMakeRoomFor :: "garbage \<Rightarrow> sds \<Rightarrow> nat \<Rightarrow> sds" where
  "sdsMakeRoomFor g s addlen =
     (if sdsavail s \<ge> addlen then s
      else let len = sdslen s; newlen = (len + addlen) * 2
           in s\<lparr>buf := realloc_buf g (buf s) (newlen + 1), sfree := newlen - len\<rparr>)"

definition sdscatlen :: "garbage \<Rightarrow> sds \<Rightarrow> bytes \<Rightarrow> nat \<Rightarrow> sds option" where
  "sdscatlen g s t len = do {
     let curlen = sdslen s;
     let s1 = sdsMakeRoomFor g s len;
     d \<leftarrow> peek t 0 len;
     b1 \<leftarrow> poke (buf s1) curlen d;
     let s2 = s1\<lparr>slen := curlen + len, sfree := sfree s1 - len\<rparr>;
     b2 \<leftarrow> poke b1 (curlen + len) [0];
     Some (s2\<lparr>buf := b2\<rparr>) }"

definition sdscat :: "garbage \<Rightarrow> sds \<Rightarrow> bytes \<Rightarrow> sds option" where
  "sdscat g s t = do { n \<leftarrow> c_strlen t; sdscatlen g s t n }"

definition sdscpylen :: "garbage \<Rightarrow> sds \<Rightarrow> bytes \<Rightarrow> nat \<Rightarrow> sds option" where
  "sdscpylen g s t len = do {
     let totlen0 = sfree s + slen s;
     let s1 = (if totlen0 < len then sdsMakeRoomFor g s (len - slen s) else s);
     let totlen = (if totlen0 < len then sfree s1 + slen s1 else totlen0);
     d \<leftarrow> peek t 0 len;
     b1 \<leftarrow> poke (buf s1) 0 d;
     b2 \<leftarrow> poke b1 len [0];
     Some \<lparr>slen = len, sfree = totlen - len, buf = b2\<rparr> }"

definition sdscpy :: "garbage \<Rightarrow> sds \<Rightarrow> bytes \<Rightarrow> sds option" where
  "sdscpy g s t = do { n \<leftarrow> c_strlen t; sdscpylen g s t n }"

text \<open>
  The retry loop of \<open>sdscatprintf\<close> around \<open>vsnprintf\<close>, whose full output is \<open>out\<close>: the buffer of
  \<open>16 * 2 ^ k\<close> bytes is doubled while the byte before its last one is not the zero stored there
  beforehand. The result is what the buffer holds up to and including the terminator. C limits the output
  of \<open>vsnprintf\<close> to \<open>INT_MAX\<close> bytes; the model describes the loop for such texts.
\<close>

definition vsnprintf :: "garbage \<Rightarrow> nat \<Rightarrow> bytes \<Rightarrow> bytes" where
  "vsnprintf g buflen out =
     (let b0 = (malloc_buf g buflen)[buflen - 2 := 0];
          n = min (length out) (buflen - 1)
      in splice b0 0 (take n out @ [0]))"

lemma vsnprintf_probe:
  assumes "2 \<le> buflen"
  shows "length (vsnprintf g buflen out) = buflen"
    and "vsnprintf g buflen out ! (buflen - 2) = (if buflen - 2 < length out then out ! (buflen - 2) else 0)"
  using assms
  by (auto simp: vsnprintf_def malloc_buf_def Let_def nth_splice nth_append)

lemma less_16_power: "n < 16 * 2 ^ n" for n :: nat
  using less_exp [of n] by linarith

function printf_buf :: "garbage \<Rightarrow> nat \<Rightarrow> bytes \<Rightarrow> bytes" where
  "printf_buf g k out =
     (let buflen = 16 * 2 ^ k; b = vsnprintf g buflen out in
      if b ! (buflen - 2) \<noteq> 0 then printf_buf g (Suc k) out else b)"
  by pat_completeness auto

termination
proof (relation "measure (\<lambda>(g, k, out). length out + 2 - 16 * 2 ^ k)")
  fix g :: garbage and k :: nat and out :: bytes and x xa
  assume "x = 16 * 2 ^ k" "xa = vsnprintf g x out" "xa ! (x - 2) \<noteq> 0"
  moreover have "(2::nat) \<le> 16 * 2 ^ k" using one_le_power [of "2::nat" k] by linarith
  ultimately have "x - 2 < length out" using vsnprintf_probe(2) [of x g out] by (auto split: if_splits)
  then show "((g, Suc k, out), (g, k, out)) \<in> measure (\<lambda>(g, k, out). length out + 2 - 16 * 2 ^ k)"
    using \<open>x = _\<close> by (auto intro!: diff_less_mono2)
qed simp

declare printf_buf.simps [simp del]

definition sdscatprintf :: "garbage \<Rightarrow> sds \<Rightarrow> bytes \<Rightarrow> sds option" where
  "sdscatprintf g s out = sdscat g s (printf_buf g 0 out)"

definition lower_of :: "u8 \<Rightarrow> u8" where
  "lower_of c = (if 65 \<le> c \<and> c \<le> 90 then c + 32 else c)"

definition upper_of :: "u8 \<Rightarrow> u8" where
  "upper_of c = (if 97 \<le> c \<and> c \<le> 122 then c - 32 else c)"

definition sdstolower :: "sds \<Rightarrow> sds" where
  "sdstolower s = (let n = nat (signed_take_bit 31 (int (sdslen s))) in
     s\<lparr>buf := map lower_of (take n (buf s)) @ drop n (buf s)\<rparr>)"

definition sdstoupper :: "sds \<Rightarrow> sds" where
  "sdstoupper s = (let n = nat (signed_take_bit 31 (int (sdslen s))) in
     s\<lparr>buf := map upper_of (take n (buf s)) @ drop n (buf s)\<rparr>)"

section \<open>Trimming and ranges\<close>

text \<open>\<open>strchr(cset, c)\<close> also finds the terminator of \<open>cset\<close>.\<close>

definition c_strchr :: "bytes \<Rightarrow> u8 \<Rightarrow> bool" where
  "c_strchr cset c \<longleftrightarrow> c = 0 \<or> c \<in> set (takeWhile (\<lambda>x. x \<noteq> 0) cset)"

function trim_sp :: "bytes \<Rightarrow> bytes \<Rightarrow> int \<Rightarrow> int \<Rightarrow> int" where
  "trim_sp b cset sp e =
     (if sp \<le> e \<and> c_strchr cset (b ! nat sp) then trim_sp b cset (sp + 1) e else sp)"
  by pat_completeness auto
termination by (relation "measure (\<lambda>(b, cset, sp, e). nat (e + 1 - sp))") auto

function trim_ep :: "bytes \<Rightarrow> bytes \<Rightarrow> int \<Rightarrow> int \<Rightarrow> int" where
  "trim_ep b cset start ep =
     (if ep > start \<and> c_strchr cset (b ! nat ep) then trim_ep b cset start (ep - 1) else ep)"
  by pat_completeness auto
termination by (relation "measure (\<lambda>(b, cset, start, ep). nat (ep - start))") auto

declare trim_sp.simps [simp del] trim_ep.simps [simp del]

definition sdstrim :: "sds \<Rightarrow> bytes \<Rightarrow> sds option" where
  "sdstrim s cset = do {
     let e = int (sdslen s) - 1;
     let sp = trim_sp (buf s) cset 0 e;
     let ep = trim_ep (buf s) cset 0 e;
     let len = (if sp > ep then 0 else nat (ep - sp + 1));
     b1 \<leftarrow> (if sp \<noteq> 0 then do { d \<leftarrow> peek (buf s) (nat sp) len; poke (buf s) 0 d } else Some (buf s));
     b2 \<leftarrow> poke b1 len [0];
     Some \<lparr>slen = len, sfree = sfree s + (slen s - len), buf = b2\<rparr> }"

definition sdsrange :: "sds \<Rightarrow> int \<Rightarrow> int \<Rightarrow> sds option" where
  "sdsrange s start0 end0 =
     (let len = int (sdslen s) in
      if len = 0 then Some s
      else
        let start1 = (if start0 < 0 then max 0 (len + start0) else start0);
            end1 = (if end0 < 0 then max 0 (len + end0) else end0)
        in if start1 \<le> end1 \<and> end1 - start1 + 1 \<ge> 2 ^ 63 then None
        else
          let newlen1 = (if start1 > end1 then 0 else end1 - start1 + 1);
              start2 = (if newlen1 \<noteq> 0 then (if start1 \<ge> len then len - 1 else start1) else 0);
              end2 = (if newlen1 \<noteq> 0 \<and> end1 \<ge> len then len - 1 else end1);
              newlen = nat (if newlen1 \<noteq> 0 then (if start2 > end2 then 0 else end2 - start2 + 1)
                            else newlen1)
          in do {
            b1 \<leftarrow> (if start2 \<noteq> 0 then do { d \<leftarrow> peek (buf s) (nat start2) newlen; poke (buf s) 0 d }
                   else Some (buf s));
            b2 \<leftarrow> poke b1 newlen [0];
            Some \<lparr>slen = newlen, sfree = sfree s + (slen s - newlen), buf = b2\<rparr> })"

text \<open>\<open>memcmp\<close>: the sign of the first difference (its magnitude is not specified).\<close>

fun c_memcmp :: "bytes \<Rightarrow> bytes \<Rightarrow> int" where
  "c_memcmp (a # as) (b # bs) = (if a < b then - 1 else if b < a then 1 else c_memcmp as bs)"
| "c_memcmp as bs = 0"

definition sdscmp :: "sds \<Rightarrow> sds \<Rightarrow> int option" where
  "sdscmp s1 s2 = do {
     let l1 = sdslen s1; let l2 = sdslen s2;
     let minlen = (if l1 < l2 then l1 else l2);
     a \<leftarrow> peek (buf s1) 0 minlen;
     b \<leftarrow> peek (buf s2) 0 minlen;
     let cmp = c_memcmp a b;
     Some (if cmp = 0 then signed_take_bit 31 (int l1 - int l2) else cmp) }"

section \<open>Well-formed strings and their contents\<close>

definition sds_ok :: "sds \<Rightarrow> bool" where
  "sds_ok s \<longleftrightarrow> length (buf s) = slen s + sfree s + 1 \<and> buf s ! slen s = 0"

definition content :: "sds \<Rightarrow> bytes" where
  "content s = take (slen s) (buf s)"

lemma length_content [simp]: "sds_ok s \<Longrightarrow> length (content s) = slen s"
  by (simp add: sds_ok_def content_def)

text \<open>The step all writers end with: a block of data, then the terminator after it.\<close>

lemma write_terminated:
  assumes "i + length d + 1 \<le> length b"
  shows "\<exists>b1 b2. poke b i d = Some b1 \<and> poke b1 (i + length d) [0] = Some b2
    \<and> length b2 = length b \<and> take (i + length d) b2 = take i b @ d \<and> b2 ! (i + length d) = 0"
proof -
  define b1 where "b1 = splice b i d"
  have l: "length b1 = length b" using assms by (simp add: b1_def)
  have "take (i + length d) (splice b1 (i + length d) [0]) = take i b @ d"
    using assms l take_splice_through [of i b "i + length d" d] by (simp add: take_splice_left b1_def)
  moreover have "splice b1 (i + length d) [0] ! (i + length d) = 0"
    using assms l nth_splice_inside [of "i + length d" "[0]" b1 0] by simp
  ultimately show ?thesis
    using assms l by (simp add: poke_def b1_def)
qed

lemma sdsMakeRoomFor_ok:
  assumes "sds_ok s"
  shows "sds_ok (sdsMakeRoomFor g s n)" "content (sdsMakeRoomFor g s n) = content s"
    "slen (sdsMakeRoomFor g s n) = slen s" "n \<le> sfree (sdsMakeRoomFor g s n)"
    "sfree (sdsMakeRoomFor g s n) = (if n \<le> sfree s then sfree s else slen s + 2 * n)"
proof -
  have "realloc_buf g (buf s) m ! slen s = 0" if "slen s < m" for m
    using assms that by (simp add: realloc_buf_def sds_ok_def)
  then show "sds_ok (sdsMakeRoomFor g s n)"
    using assms by (auto simp: sdsMakeRoomFor_def sdslen_def sds_ok_def Let_def)
qed (use assms in \<open>auto simp: sdsMakeRoomFor_def sdslen_def sdsavail_def sds_ok_def content_def Let_def
      take_realloc\<close>)

lemma sdscatlen_ok:
  assumes "sds_ok s" "len \<le> length t"
  shows "\<exists>s'. sdscatlen g s t len = Some s' \<and> sds_ok s' \<and> content s' = content s @ take len t
    \<and> slen s' = slen s + len \<and> sfree s' = (if len \<le> sfree s then sfree s - len else slen s + len)"
proof -
  define s1 where "s1 = sdsMakeRoomFor g s len"
  note mk = sdsMakeRoomFor_ok [OF assms(1), where g = g and n = len, folded s1_def]
  have "slen s + length (take len t) + 1 \<le> length (buf s1)"
    using mk(1,3,4) assms(2) by (simp add: sds_ok_def)
  from write_terminated [OF this] obtain b1 b2 where b:
    "poke (buf s1) (slen s) (take len t) = Some b1" "poke b1 (slen s + len) [0] = Some b2"
    "length b2 = length (buf s1)" "take (slen s + len) b2 = take (slen s) (buf s1) @ take len t"
    "b2 ! (slen s + len) = 0"
    using assms(2) by auto
  let ?s = "s1\<lparr>slen := slen s + len, sfree := sfree s1 - len, buf := b2\<rparr>"
  have "sdscatlen g s t len = Some ?s"
    using b(1,2) assms(2)
    by (simp add: sdscatlen_def s1_def [symmetric] sdslen_def peek_def)
  moreover have "sds_ok ?s" using b(3,5) mk by (simp add: sds_ok_def)
  moreover have "content ?s = content s @ take len t"
    using b(4) mk(2,3) by (simp add: content_def)
  ultimately show ?thesis using mk(5) by auto
qed

lemma sdscpylen_ok:
  assumes "sds_ok s" "len \<le> length t"
  shows "\<exists>s'. sdscpylen g s t len = Some s' \<and> sds_ok s' \<and> content s' = take len t
    \<and> slen s + sfree s \<le> slen s' + sfree s'"
proof -
  define s1 where "s1 = (if sfree s + slen s < len then sdsMakeRoomFor g s (len - slen s) else s)"
  note mk = sdsMakeRoomFor_ok [OF assms(1), where g = g and n = "len - slen s"]
  have s1: "sds_ok s1" "len \<le> slen s1 + sfree s1" "slen s + sfree s \<le> slen s1 + sfree s1"
    "(if sfree s + slen s < len then sfree s1 + slen s1 else sfree s + slen s) = slen s1 + sfree s1"
    using mk assms by (auto simp: s1_def)
  have "0 + length (take len t) + 1 \<le> length (buf s1)"
    using s1 assms(2) by (simp add: sds_ok_def)
  from write_terminated [OF this] obtain b1 b2 where b:
    "poke (buf s1) 0 (take len t) = Some b1" "poke b1 len [0] = Some b2"
    "length b2 = length (buf s1)" "take len b2 = take len t" "b2 ! len = 0"
    using assms(2) by auto
  have "sdscpylen g s t len = Some \<lparr>slen = len, sfree = slen s1 + sfree s1 - len, buf = b2\<rparr>"
    using b(1,2) assms(2) s1(4)
    by (simp only: sdscpylen_def s1_def [symmetric] Let_def) (simp add: peek_def)
  then show ?thesis using b(3-5) s1 by (auto simp: sds_ok_def content_def)
qed

section \<open>What trimming computes\<close>

definition strip :: "('a \<Rightarrow> bool) \<Rightarrow> 'a list \<Rightarrow> 'a list" where
  "strip P xs = rev (dropWhile P (rev (dropWhile P xs)))"

lemma rev_dropWhile_rev: "rev (dropWhile P (rev ys)) = take (length (dropWhile P (rev ys))) ys"
proof -
  have "length (dropWhile P (rev ys)) + length (takeWhile P (rev ys)) = length ys"
    by (metis add.commute length_append length_rev takeWhile_dropWhile_id)
  then show ?thesis
    by (simp add: dropWhile_eq_drop rev_drop)
qed

lemma trim_sp_eq:
  "n \<le> length b \<Longrightarrow> i \<le> n \<Longrightarrow>
   trim_sp b cset (int i) (int n - 1) = int (i + length (takeWhile (c_strchr cset) (drop i (take n b))))"
proof (induction "n - i" arbitrary: i)
  case 0
  then show ?case by (subst trim_sp.simps) simp
next
  case (Suc k)
  then have "drop i (take n b) = b ! i # drop (Suc i) (take n b)"
    by (subst Cons_nth_drop_Suc [symmetric]) simp_all
  moreover have "trim_sp b cset (int i + 1) (int n - 1) =
      int (Suc i + length (takeWhile (c_strchr cset) (drop (Suc i) (take n b))))"
    using Suc.hyps(1) [of "Suc i"] Suc.hyps(2) Suc.prems by (simp add: add.commute)
  ultimately show ?case
    using Suc.hyps(2) Suc.prems by (subst trim_sp.simps) auto
qed

lemma trim_ep_eq:
  "n < length b \<Longrightarrow>
   trim_ep b cset 0 (int n) = int (length (dropWhile (c_strchr cset) (rev (drop 1 (take (Suc n) b)))))"
proof (induction n)
  case 0
  then show ?case by (subst trim_ep.simps) simp
next
  case (Suc n)
  define t where "t = take (Suc n) b"
  from Suc.prems have "take (Suc (Suc n)) b = t @ [b ! Suc n]" "length t = Suc n"
    by (simp_all add: take_Suc_conv_app_nth t_def)
  moreover have "nat (1 + int n) = Suc n" by simp
  ultimately show ?case using Suc by (subst trim_ep.simps) (auto simp: t_def [symmetric])
qed

lemma strip_split:
  assumes "xs = t @ x # ys" "\<forall>a \<in> set t. P a" "\<not> P x" "d = length (dropWhile P (rev ys))"
  shows "strip P xs = x # take d ys" "length (takeWhile P xs) = length t"
    "length (dropWhile P (rev (drop 1 xs))) = length t + d"
proof -
  have "dropWhile P xs = x # ys" using assms(1-3) by (simp add: dropWhile_append1 dropWhile_append3)
  moreover have "dropWhile P (rev ys @ [x]) = dropWhile P (rev ys) @ [x]"
    using assms(3) by (induction "rev ys") (auto simp: dropWhile_append)
  ultimately show "strip P xs = x # take d ys"
    using rev_dropWhile_rev [of P ys] assms(4) by (simp add: strip_def)
  show "length (takeWhile P xs) = length t"
    using assms(1-3) by (simp add: takeWhile_append2)
  show "length (dropWhile P (rev (drop 1 xs))) = length t + d"
    using assms(1,3,4) by (cases t) (auto simp: dropWhile_append)
qed

text \<open>The two pointers of \<open>sdstrim\<close> delimit the stripped content.\<close>

lemma trim_bounds:
  assumes "sds_ok s" "sp = trim_sp (buf s) cset 0 (int (slen s) - 1)"
    "ep = trim_ep (buf s) cset 0 (int (slen s) - 1)"
    "len = (if sp > ep then 0 else nat (ep - sp + 1))"
  shows "nat sp + len \<le> slen s" "0 \<le> sp" "take len (drop (nat sp) (buf s)) = strip (c_strchr cset) (content s)"
proof -
  let ?P = "c_strchr cset" and ?xs = "content s"
  have n: "slen s < length (buf s)" using assms(1) by (simp add: sds_ok_def)
  have sp: "sp = int (length (takeWhile ?P ?xs))"
    using trim_sp_eq [of "slen s" "buf s" 0 cset] n assms(2) by (simp add: content_def)
  have "nat sp + len \<le> slen s \<and> take len (drop (nat sp) (buf s)) = strip ?P ?xs"
  proof (cases "\<forall>a \<in> set ?xs. ?P a")
    case True
    then have "takeWhile ?P ?xs = ?xs" "strip ?P ?xs = []"
      by (simp_all add: strip_def dropWhile_eq_Nil_conv [THEN iffD2])
    then have "length (takeWhile ?P ?xs) = slen s" "strip ?P ?xs = []"
      by (simp_all only: length_content [OF assms(1)])
    moreover have "ep \<le> int (slen s) - 1" if "slen s \<noteq> 0"
      using trim_ep_eq [of "slen s - 1" "buf s" cset] n that assms(3)
        length_dropWhile_le [of ?P "rev (drop 1 (take (slen s) (buf s)))"]
      by (auto simp: of_nat_diff)
    moreover have "ep = - 1" if "slen s = 0"
      using that assms(3) by (subst (asm) trim_ep.simps) simp
    ultimately show ?thesis using sp assms(1,4) by (cases "slen s = 0") auto
  next
    case False
    then obtain t x ys where xs: "?xs = t @ x # ys" "\<forall>a \<in> set t. ?P a" "\<not> ?P x"
      using split_list_first_prop [of ?xs "\<lambda>a. \<not> ?P a"] by blast
    define d where "d = length (dropWhile ?P (rev ys))"
    note st = strip_split [OF xs d_def]
    have d: "d \<le> length ys" using length_dropWhile_le [of ?P "rev ys"] by (simp add: d_def)
    have len: "slen s = length t + Suc (length ys)"
      using length_content [OF assms(1)] xs(1) by simp
    have "trim_ep (buf s) cset 0 (int (slen s) - 1) = int (length t + d)"
      using trim_ep_eq [of "slen s - 1" "buf s" cset] n len st(3) by (simp add: content_def)
    then have "ep = int (length t + d)" using assms(3) by simp
    with sp st(2) assms(4) have "len = Suc d" "nat sp = length t" by auto
    moreover have "take (Suc d) (drop (length t) (buf s)) = take (Suc d) (drop (length t) ?xs)"
      using d len by (simp add: content_def drop_take min_def)
    ultimately show ?thesis using st(1) xs(1) d len by simp
  qed
  then show "nat sp + len \<le> slen s" "take len (drop (nat sp) (buf s)) = strip ?P ?xs" by auto
  show "0 \<le> sp" using sp by simp
qed

text \<open>The common tail of \<open>sdstrim\<close> and \<open>sdsrange\<close>: a block moved to the front.\<close>

lemma move_front:
  assumes "sds_ok s" "i + len \<le> slen s"
  shows "\<exists>b1 b2. (if i \<noteq> 0 then do { d \<leftarrow> peek (buf s) i len; poke (buf s) 0 d } else Some (buf s)) = Some b1
    \<and> poke b1 len [0] = Some b2 \<and> length b2 = length (buf s)
    \<and> take len b2 = take len (drop i (buf s)) \<and> b2 ! len = 0"
proof -
  define d where "d = take len (drop i (buf s))"
  have l: "length d = len" "i + len \<le> length (buf s)" "len + 1 \<le> length (buf s)"
    using assms by (simp_all add: sds_ok_def d_def)
  have "0 + length d + 1 \<le> length (buf s)" using l by simp
  from write_terminated [OF this] l obtain b1 b2 where
    b: "poke (buf s) 0 d = Some b1" "poke b1 len [0] = Some b2" "length b2 = length (buf s)"
      "take len b2 = d" "b2 ! len = 0" by auto
  show ?thesis
  proof (cases "i = 0")
    case True
    then have "splice (buf s) 0 d = buf s"
      by (simp add: splice_def l(1)) (simp add: d_def)
    with b(1) l have "b1 = buf s" by (simp add: poke_def split: if_splits)
    with True b show ?thesis by (auto simp: d_def)
  next
    case False
    with b l show ?thesis by (auto simp: peek_def d_def)
  qed
qed

lemma sdstrim_ok:
  assumes "sds_ok s"
  shows "\<exists>s'. sdstrim s cset = Some s' \<and> sds_ok s' \<and> content s' = strip (c_strchr cset) (content s)
    \<and> slen s' + sfree s' = slen s + sfree s"
proof -
  define sp where "sp = trim_sp (buf s) cset 0 (int (slen s) - 1)"
  define ep where "ep = trim_ep (buf s) cset 0 (int (slen s) - 1)"
  define len where "len = (if sp > ep then 0 else nat (ep - sp + 1))"
  note tb = trim_bounds [OF assms sp_def ep_def len_def]
  from move_front [OF assms tb(1)] obtain b1 b2 where b:
    "(if nat sp \<noteq> 0 then do { d \<leftarrow> peek (buf s) (nat sp) len; poke (buf s) 0 d } else Some (buf s)) = Some b1"
    "poke b1 len [0] = Some b2" "length b2 = length (buf s)"
    "take len b2 = take len (drop (nat sp) (buf s))" "b2 ! len = 0"
    by blast
  have "(if sp \<noteq> 0 then do { d \<leftarrow> peek (buf s) (nat sp) len; poke (buf s) 0 d } else Some (buf s)) = Some b1"
    using b(1) tb(2) by (cases "sp = 0") simp_all
  then have "sdstrim s cset = Some \<lparr>slen = len, sfree = sfree s + (slen s - len), buf = b2\<rparr>"
    unfolding sdstrim_def sdslen_def Let_def sp_def [symmetric] ep_def [symmetric] len_def [symmetric]
    using b(2) by simp
  with b tb assms show ?thesis by (auto simp: sds_ok_def content_def)
qed

text \<open>
  The range \<open>sdsrange\<close> keeps: both ends clamped into the string, except that a start beyond the
  end of the string, when it is not beyond \<open>end\<close>, is clamped to the last byte.
\<close>

definition clamp :: "int \<Rightarrow> int \<Rightarrow> int" where
  "clamp len i = (if i < 0 then max 0 (len + i) else i)"

definition range_of :: "int \<Rightarrow> int \<Rightarrow> 'a list \<Rightarrow> 'a list" where
  "range_of a b xs = (let len = int (length xs); a' = clamp len a; b' = clamp len b in
     if a' > b' then []
     else let i = nat (min a' (len - 1)); j = nat (min b' (len - 1)) in take (j + 1 - i) (drop i xs))"

lemma Suc_nat_diff: "0 \<le> x \<Longrightarrow> 0 \<le> y \<Longrightarrow> Suc (nat y) - nat x = nat (y - x + 1)" for x y :: int
  by linarith

lemma range_of_inside:
  "0 \<le> a \<Longrightarrow> a \<le> b \<Longrightarrow> b < int (length xs) \<Longrightarrow>
   range_of a b xs = take (nat (b - a + 1)) (drop (nat a) xs)"
  by (simp add: range_of_def clamp_def Let_def min_def Suc_nat_diff)

lemma range_of_beyond:
  assumes "int (length xs) \<le> a" "a \<le> b" "xs \<noteq> []"
  shows "range_of a b xs = [last xs]"
proof -
  obtain ys x where "xs = ys @ [x]" using assms(3) by (cases xs rule: rev_cases) simp_all
  then show ?thesis
    using assms by (simp add: range_of_def clamp_def Let_def min_def)
qed

lemma range_of_to_end: "0 \<le> a \<Longrightarrow> range_of a (- 1) xs = drop (nat a) xs"
  by (cases "xs = []") (auto simp: range_of_def clamp_def Let_def min_def)

lemma sdsrange_ok:
  assumes "sds_ok s" "a < 2 ^ 63" "b < 2 ^ 63 - 1" "slen s < 2 ^ 62"
  shows "\<exists>s'. sdsrange s a b = Some s' \<and> sds_ok s' \<and> content s' = range_of a b (content s)
    \<and> slen s' + sfree s' = slen s + sfree s"
proof (cases "slen s = 0")
  case True
  with assms(1) show ?thesis
    by (auto simp: sdsrange_def sdslen_def range_of_def content_def Let_def)
next
  case False
  define a' b' where "a' = clamp (int (slen s)) a" and "b' = clamp (int (slen s)) b"
  have nn: "0 \<le> a'" "0 \<le> b'" "b' < 2 ^ 63 - 1"
    using assms(3,4) by (auto simp: a'_def b'_def clamp_def)
  define i n where "i = (if a' > b' then 0 else min a' (int (slen s) - 1))"
    and "n = (if a' > b' then 0 else nat (min b' (int (slen s) - 1) - i + 1))"
  have bounds: "0 \<le> i" "nat i + n \<le> slen s"
    using nn False by (auto simp: i_def n_def)
  have "take n (drop (nat i) (buf s)) = range_of a b (content s)"
  proof (cases "a' > b'")
    case True
    then show ?thesis
      using assms(1) by (simp add: n_def range_of_def Let_def a'_def b'_def)
  next
    case False
    then have "range_of a b (content s) = take n (drop (nat i) (content s))"
      using assms(1) nn \<open>slen s \<noteq> 0\<close> unfolding range_of_def Let_def
      by (simp add: a'_def [symmetric] b'_def [symmetric] i_def n_def Suc_nat_diff)
    then show ?thesis using bounds by (simp add: content_def drop_take min_def)
  qed
  moreover from move_front [OF assms(1) bounds(2)] obtain b1 b2 where w:
    "(if nat i \<noteq> 0 then do { d \<leftarrow> peek (buf s) (nat i) n; poke (buf s) 0 d } else Some (buf s)) = Some b1"
    "poke b1 n [0] = Some b2" "length b2 = length (buf s)"
    "take n b2 = take n (drop (nat i) (buf s))" "b2 ! n = 0"
    by blast
  moreover have "sdsrange s a b = Some \<lparr>slen = n, sfree = sfree s + (slen s - n), buf = b2\<rparr>"
  proof -
    have e: "(if a < 0 then max 0 (int (slen s) + a) else a) = a'"
      "(if b < 0 then max 0 (int (slen s) + b) else b) = b'"
      by (simp_all add: a'_def b'_def clamp_def)
    have "\<not> (a' \<le> b' \<and> 2 ^ 63 \<le> b' - a' + 1)" using nn by linarith
    moreover have "(if (if a' > b' then 0 else b' - a' + 1) \<noteq> 0
        then (if a' \<ge> int (slen s) then int (slen s) - 1 else a') else 0) = i"
      using nn by (auto simp: i_def)
    moreover have "nat (if (if a' > b' then 0 else b' - a' + 1) \<noteq> 0
        then (if i > (if (if a' > b' then 0 else b' - a' + 1) \<noteq> 0 \<and> b' \<ge> int (slen s)
                      then int (slen s) - 1 else b') then 0
              else (if (if a' > b' then 0 else b' - a' + 1) \<noteq> 0 \<and> b' \<ge> int (slen s)
                    then int (slen s) - 1 else b') - i + 1)
        else (if a' > b' then 0 else b' - a' + 1)) = n"
      using nn by (auto simp: i_def n_def)
    moreover have "(if i \<noteq> 0 then do { d \<leftarrow> peek (buf s) (nat i) n; poke (buf s) 0 d }
        else Some (buf s)) = Some b1"
      using w(1) bounds(1) by (cases "i = 0") simp_all
    ultimately show ?thesis
      using w(2) \<open>slen s \<noteq> 0\<close> unfolding sdsrange_def Let_def sdslen_def e
      by (simp only: if_False bind.bind_lunit of_nat_eq_0_iff)
  qed
  ultimately show ?thesis using bounds assms(1) by (auto simp: sds_ok_def content_def)
qed

lemma printf_buf_ok:
  assumes "0 \<notin> set out"
  shows "\<exists>r. printf_buf g k out = out @ 0 # r"
  using assms
proof (induction g k out rule: printf_buf.induct)
  case (1 g k out)
  define n where "n = 16 * (2::nat) ^ k"
  have n: "2 \<le> n" using one_le_power [of "2::nat" k] by (simp add: n_def)
  show ?case
  proof (cases "vsnprintf g n out ! (n - 2) = 0")
    case False
    with 1 show ?thesis by (subst printf_buf.simps) (simp add: n_def Let_def)
  next
    case True
    then have "length out \<le> n - 2"
      using vsnprintf_probe(2) [OF n, of g out] "1.prems" nth_mem [of "n - 2" out]
      by (cases "n - 2 < length out") auto
    then have "vsnprintf g n out = out @ 0 # drop (length out + 1) ((malloc_buf g n)[n - 2 := 0])"
      using n by (simp add: vsnprintf_def Let_def splice_def)
    with True show ?thesis by (subst printf_buf.simps) (simp add: n_def Let_def)
  qed
qed

lemma sdscatprintf_ok:
  assumes "sds_ok s" "0 \<notin> set out"
  shows "\<exists>s'. sdscatprintf g s out = Some s' \<and> sds_ok s' \<and> content s' = content s @ out"
proof -
  from printf_buf_ok [OF assms(2)] obtain r where r: "printf_buf g 0 out = out @ 0 # r" by blast
  have "takeWhile (\<lambda>c. c \<noteq> 0) (out @ 0 # r) = out"
    using assms(2) by (subst takeWhile_append2) auto
  then have "c_strlen (out @ 0 # r) = Some (length out)" by (simp add: c_strlen_def)
  then show ?thesis
    using sdscatlen_ok [OF assms(1), of "length out" "out @ 0 # r" g] r
    by (auto simp: sdscatprintf_def sdscat_def)
qed

lemma sdsnewlen_ok:
  assumes "n \<le> length i"
  shows "\<exists>s. sdsnewlen g (Some i) n = Some s \<and> sds_ok s \<and> content s = take n i \<and> sfree s = 0"
proof -
  have "0 + length (take n i) + 1 \<le> length (malloc_buf g (n + 1))"
    using assms by (simp add: malloc_buf_def)
  from write_terminated [OF this] assms obtain b1 b2 where b:
    "poke (malloc_buf g (n + 1)) 0 (take n i) = Some b1" "poke b1 n [0] = Some b2"
    "length b2 = n + 1" "take n b2 = take n i" "b2 ! n = 0"
    by (auto simp: malloc_buf_def)
  moreover have "b1 = malloc_buf g 1" if "n = 0"
    using b(1) that by (simp add: poke_def splice_def)
  ultimately have "sdsnewlen g (Some i) n = Some \<lparr>slen = n, sfree = 0, buf = b2\<rparr>"
    using assms by (auto simp: sdsnewlen_def Let_def peek_def)
  then show ?thesis using b by (auto simp: sds_ok_def content_def)
qed

section \<open>Properties\<close>

text \<open>C24: the writers of strings never leave their buffers and keep the representation: creating
  takes the first \<open>n\<close> bytes, \<open>sdscatlen\<close> appends and \<open>sdscpylen\<close> replaces; an append that does not
  fit doubles the buffer, so it ends with as much free space as content; and the retry loop of
  \<open>sdscatprintf\<close> ends and appends the whole formatted text, whatever its length.\<close>

theorem sds_writers_refine:
  assumes "sds_ok s" "len \<le> length t" "0 \<notin> set out"
  shows "(\<exists>s'. sdsnewlen g (Some t) len = Some s' \<and> sds_ok s' \<and> content s' = take len t)
    \<and> (\<exists>s'. sdscatlen g s t len = Some s' \<and> sds_ok s' \<and> content s' = content s @ take len t
        \<and> sfree s' = (if len \<le> sfree s then sfree s - len else slen s'))
    \<and> (\<exists>s'. sdscpylen g s t len = Some s' \<and> sds_ok s' \<and> content s' = take len t)
    \<and> (\<exists>s'. sdscatprintf g s out = Some s' \<and> sds_ok s' \<and> content s' = content s @ out)"
  using sdsnewlen_ok [OF assms(2), of g] sdscatlen_ok [OF assms(1,2), of g]
    sdscpylen_ok [OF assms(1,2), of g] sdscatprintf_ok [OF assms(1,3), of g]
  by fastforce

text \<open>\<open>sdstrim\<close> removes from both ends exactly the bytes of \<open>cset\<close> and, because \<open>strchr\<close> also
  finds the terminator of \<open>cset\<close>, every zero byte; it stays inside the buffer and loses no
  allocated byte.\<close>

theorem sdstrim_strips:
  assumes "sds_ok s"
  shows "\<exists>s'. sdstrim s cset = Some s' \<and> sds_ok s'
    \<and> content s' = strip (\<lambda>c. c = 0 \<or> c \<in> set (takeWhile (\<lambda>x. x \<noteq> 0) cset)) (content s)
    \<and> slen s' + sfree s' = slen s + sfree s"
  using sdstrim_ok [OF assms, of cset] by (simp add: c_strchr_def [abs_def])

text \<open>\<open>sdsrange s a b\<close> keeps the bytes from \<open>a\<close> to \<open>b\<close>, negative indexes counting from the end.
  When both ends are beyond the end of the string the result is not empty but the last byte; a
  call \<open>sdsrange s n (- 1)\<close> with \<open>n \<ge> 0\<close>, as the query buffer is consumed, drops the first \<open>n\<close>
  bytes for every \<open>n\<close>.\<close>

theorem sdsrange_spec:
  assumes "sds_ok s" "a < 2 ^ 63" "b < 2 ^ 63 - 1" "slen s < 2 ^ 62"
  shows "\<exists>s'. sdsrange s a b = Some s' \<and> sds_ok s' \<and> slen s' + sfree s' = slen s + sfree s
    \<and> (0 \<le> a \<and> a \<le> b \<and> b < int (slen s) \<longrightarrow>
         content s' = take (nat (b - a + 1)) (drop (nat a) (content s)))
    \<and> (int (slen s) \<le> a \<and> a \<le> b \<and> slen s \<noteq> 0 \<longrightarrow> content s' = [last (content s)])
    \<and> (0 \<le> a \<and> b = - 1 \<longrightarrow> content s' = drop (nat a) (content s))"
  using sdsrange_ok [OF assms] assms(1) range_of_inside [of a b "content s"]
    range_of_beyond [of "content s" a b] range_of_to_end [of a "content s"]
  by (metis length_content length_0_conv)

section \<open>A concrete string\<close>

definition ex_sds :: sds where
  "ex_sds = \<lparr>slen = 3, sfree = 2, buf = [32, 97, 98, 0, 7, 9]\<rparr>"

lemma ex_sds_ok: "sds_ok ex_sds" "content ex_sds = [32, 97, 98]"
  by (simp_all add: sds_ok_def ex_sds_def content_def)

theorem sds_writers_refine_witness:
  "\<exists>s'. sdscatlen (\<lambda>_. 0) ex_sds [99, 100, 101] 3 = Some s' \<and> content s' = [32, 97, 98, 99, 100, 101]
    \<and> sfree s' = slen s'"
  using sds_writers_refine [OF ex_sds_ok(1), of 3 "[99, 100, 101]" "[1]" "\<lambda>_. 0"]
  by (force simp: ex_sds_ok(2) ex_sds_def [THEN arg_cong [of _ _ sfree]])

theorem sdstrim_strips_witness:
  "\<exists>s'. sdstrim ex_sds [32, 98, 0] = Some s' \<and> content s' = [97]"
  using sdstrim_strips [OF ex_sds_ok(1), of "[32, 98, 0]"]
  by (force simp: ex_sds_ok(2) strip_def)

theorem sdsrange_spec_witness:
  "\<exists>s'. sdsrange ex_sds 5 10 = Some s' \<and> content s' = [98]"
proof -
  have "slen ex_sds = 3" by (simp add: ex_sds_def)
  then show ?thesis
    using sdsrange_spec [OF ex_sds_ok(1), of 5 10] by (force simp: ex_sds_ok(2))
qed

end
