(* ===== verification/Sds_Args.thy ===== *)
theory Sds_Args
  imports Sds "HOL-Library.Sublist"
begin

text \<open>
  The parsers and printers of \<open>sds.c\<close> (\<open>sdssplitlen\<close>, \<open>sdsfromlonglong\<close>, \<open>sdssplitargs\<close>) and the
  printer \<open>sdscatrepr\<close> of \<open>redis.c\<close>, whose output \<open>sdssplitargs\<close> is meant to read back. The
  strings they build grow with \<open>sdsnewlen\<close> and \<open>sdscatlen\<close> only, so they are represented by their
  contents here (theory \<open>Sds\<close> shows that these calls append). A C string argument is the list of
  its bytes before the terminator: \<open>*p\<close> is 0 exactly on the empty list.
\<close>

section \<open>Splitting on a separator\<close>

text \<open>
  The scan of \<open>sdssplitlen\<close>. The token array has \<open>slots\<close> entries and doubles when there is no room
  for two more; \<open>None\<close> is a read outside \<open>s\<close> or \<open>sep\<close>, or a store outside the array. The caller
  has returned already when \<open>seplen\<close> is less than 1.
\<close>

definition sep_at :: "bytes \<Rightarrow> nat \<Rightarrow> bytes \<Rightarrow> nat \<Rightarrow> bool option" where
  "sep_at s j sep seplen = do {
     c \<leftarrow> peek s j 1;
     d \<leftarrow> peek sep 0 1;
     if seplen = 1 \<and> c = d then Some True
     else do { a \<leftarrow> peek s j seplen; b \<leftarrow> peek sep 0 seplen; Some (a = b) } }"

definition store_token :: "nat \<Rightarrow> bytes list \<Rightarrow> bytes \<Rightarrow> bytes list option" where
  "store_token slots tokens t = (if length tokens < slots then Some (tokens @ [t]) else None)"

function split_loop :: "bytes \<Rightarrow> nat \<Rightarrow> bytes \<Rightarrow> nat \<Rightarrow> nat \<Rightarrow> nat \<Rightarrow> bytes list \<Rightarrow> nat
    \<Rightarrow> bytes list option" where
  "split_loop s len sep seplen j start tokens slots =
     (if 1 \<le> seplen \<and> int j < int len - (int seplen - 1) then
        let slots' = (if slots < length tokens + 2 then slots * 2 else slots) in
        do {
          hit \<leftarrow> sep_at s j sep seplen;
          if hit then do {
            t \<leftarrow> peek s start (j - start);
            tokens' \<leftarrow> store_token slots' tokens t;
            split_loop s len sep seplen (j + seplen - 1 + 1) (j + seplen) tokens' slots' }
          else split_loop s len sep seplen (j + 1) start tokens slots' }
      else do {
        t \<leftarrow> peek s start (len - start);
        store_token slots tokens t })"
  by pat_completeness auto
termination
  by (relation "measure (\<lambda>(s, len, sep, seplen, j, start, tokens, slots). len - j)") auto

declare split_loop.simps [simp del]

text \<open>\<open>Some None\<close> is the NULL result; otherwise the tokens (\<open>count\<close> is their number).\<close>

definition sdssplitlen :: "bytes \<Rightarrow> int \<Rightarrow> bytes \<Rightarrow> int \<Rightarrow> bytes list option option" where
  "sdssplitlen s len sep seplen =
     (if seplen < 1 \<or> len < 0 then Some None
      else if len = 0 then Some (Some [])
      else map_option Some (split_loop s (nat len) sep (nat seplen) 0 0 [] 5))"

section \<open>Printing a number\<close>

text \<open>
  The digits are stored backwards into \<open>buf[32]\<close>; \<open>p\<close> is the index of the next store. \<open>None\<close> is
  a store outside the buffer. The negation of \<open>LLONG_MIN\<close> is taken modulo \<open>2 ^ 64\<close>.
\<close>

fun put_digits :: "nat \<Rightarrow> nat \<Rightarrow> int \<Rightarrow> bytes \<Rightarrow> (int \<times> bytes) option" where
  "put_digits 0 v p out = None"
| "put_digits (Suc fuel) v p out =
     (if p < 0 then None
      else let out' = of_nat (48 + v mod 10) # out; v' = v div 10 in
        if v' \<noteq> 0 then put_digits fuel v' (p - 1) out' else Some (p - 1, out'))"

definition sdsfromlonglong :: "int \<Rightarrow> bytes option" where
  "sdsfromlonglong value = do {
     let v = (if value < 0 then unat (word_of_int (- value) :: u64) else nat value);
     (p, digits) \<leftarrow> put_digits 32 v 31 [];
     if value < 0 then (if p < 0 then None else Some (45 # digits)) else Some digits }"

section \<open>Arguments of a line\<close>

definition u8_isspace :: "u8 \<Rightarrow> bool" where
  "u8_isspace c \<longleftrightarrow> c = 32 \<or> (9 \<le> c \<and> c \<le> 13)"

definition unescape :: "u8 \<Rightarrow> u8" where
  "unescape c = (if c = 110 then 10 else if c = 114 then 13 else if c = 116 then 9
                 else if c = 98 then 8 else if c = 97 then 7 else c)"

text \<open>One token: whether inside quotes, the token so far, the rest of the line.\<close>

fun arg_token :: "bool \<Rightarrow> bytes \<Rightarrow> bytes \<Rightarrow> (bytes \<times> bytes) option" where
  "arg_token True cur [] = None"
| "arg_token True cur (c # p) =
     (if c = 92 \<and> p \<noteq> [] then
        (case p of d # p' \<Rightarrow> arg_token True (cur @ [unescape d]) p' | [] \<Rightarrow> None)
      else if c = 34 then
        (if p \<noteq> [] \<and> \<not> u8_isspace (hd p) then None else Some (cur, p))
      else arg_token True (cur @ [c]) p)"
| "arg_token False cur [] = Some (cur, [])"
| "arg_token False cur (c # p) =
     (if c = 32 \<or> c = 10 \<or> c = 13 \<or> c = 9 then Some (cur, p)
      else if c = 34 then arg_token True cur p
      else arg_token False (cur @ [c]) p)"

lemma arg_token_length: "arg_token q cur p = Some (t, r) \<Longrightarrow> length r \<le> length p"
proof (induction q cur p rule: arg_token.induct)
  case (2 cur c p)
  then show ?case by (auto split: if_splits list.splits)
next
  case (4 cur c p)
  then show ?case by (fastforce split: if_splits)
qed simp_all

lemma arg_token_progress: "arg_token False cur (c # p) = Some (t, r) \<Longrightarrow> length r < length (c # p)"
  by (auto split: if_splits dest: arg_token_length)

text \<open>
  The outer loop: \<open>vector\<close> is NULL (\<open>None\<close>) until the first token is stored. On an error every
  token is released and, because of the final decrement of \<open>while ((*argc)--)\<close>, \<open>*argc\<close> is -1.
\<close>

function args_loop :: "bytes list option \<Rightarrow> int \<Rightarrow> bytes \<Rightarrow> bytes list option \<times> int" where
  "args_loop vector argc line =
     (case dropWhile u8_isspace line of
        [] \<Rightarrow> (vector, argc)
      | c # p \<Rightarrow>
          (case arg_token False [] (c # p) of
             None \<Rightarrow> (None, - 1)
           | Some (t, r) \<Rightarrow>
               args_loop (Some ((case vector of Some v \<Rightarrow> v | None \<Rightarrow> []) @ [t])) (argc + 1) r))"
  by pat_completeness auto
termination
proof (relation "measure (\<lambda>(vector, argc, line). length line)", simp)
  fix vector :: "bytes list option" and argc :: int and line c p x a b
  assume "dropWhile u8_isspace line = c # p" "arg_token False [] (c # p) = Some x" "(a, b) = x"
  moreover have "length (dropWhile u8_isspace line) \<le> length line" by (rule length_dropWhile_le)
  ultimately show "((Some ((case vector of Some v \<Rightarrow> v | None \<Rightarrow> []) @ [a]), argc + 1, b), vector, argc, line)
      \<in> measure (\<lambda>(vector, argc, line). length line)"
    using arg_token_progress [of "[]" c p a b] by auto
qed

declare args_loop.simps [simp del]

definition sdssplitargs :: "bytes \<Rightarrow> bytes list option \<times> int" where
  "sdssplitargs line = args_loop None 0 line"

section \<open>The quoted representation\<close>

definition u8_isprint :: "u8 \<Rightarrow> bool" where
  "u8_isprint c \<longleftrightarrow> 32 \<le> c \<and> c \<le> 126"

definition hex_digit :: "u8 \<Rightarrow> u8" where
  "hex_digit n = (if n < 10 then 48 + n else 87 + n)"

definition repr_byte :: "u8 \<Rightarrow> bytes" where
  "repr_byte c =
     (if c = 92 \<or> c = 34 then [92, c]
      else if c = 10 then [92, 110]
      else if c = 13 then [92, 114]
      else if c = 9 then [92, 116]
      else if c = 7 then [92, 97]
      else if c = 8 then [92, 98]
      else if u8_isprint c then [c]
      else [92, 120, hex_digit (c div 16), hex_digit (c mod 16)])"

fun repr_loop :: "bytes \<Rightarrow> bytes \<Rightarrow> bytes" where
  "repr_loop s [] = s"
| "repr_loop s (c # p) = repr_loop (s @ repr_byte c) p"

definition sdscatrepr :: "bytes \<Rightarrow> bytes \<Rightarrow> bytes" where
  "sdscatrepr s p = repr_loop (s @ [34]) p @ [34]"

section \<open>What splitting computes\<close>

fun join :: "'a list \<Rightarrow> 'a list list \<Rightarrow> 'a list" where
  "join sep [] = []"
| "join sep [x] = x"
| "join sep (x # y # r) = x @ sep @ join sep (y # r)"

lemma join_Cons: "ts \<noteq> [] \<Longrightarrow> join sep (t # ts) = t @ sep @ join sep ts"
  by (cases ts) simp_all

definition hit_at :: "bytes \<Rightarrow> bytes \<Rightarrow> nat \<Rightarrow> bool" where
  "hit_at s sp i \<longleftrightarrow> take (length sp) (drop i s) = sp"

lemma sep_at_eq:
  assumes "1 \<le> k" "k \<le> length sep" "i + k \<le> length s"
  shows "sep_at s i sep k = Some (hit_at s (take k sep) i)"
proof -
  have "peek s i n = Some (take n (drop i s))" "peek sep 0 n = Some (take n sep)" if "n \<le> k" for n
    using assms that by (simp_all add: peek_def)
  then show ?thesis using assms by (auto simp: sep_at_def hit_at_def)
qed

lemma no_hit_no_sublist:
  assumes "\<forall>i. b \<le> i \<and> i + length sp \<le> e \<longrightarrow> \<not> hit_at s sp i" "sp \<noteq> []"
  shows "\<not> sublist sp (take (e - b) (drop b s))"
proof
  assume "sublist sp (take (e - b) (drop b s))"
  then obtain u v where t: "take (e - b) (drop b s) = u @ sp @ v"
    by (auto simp: sublist_def)
  have "length (u @ sp @ v) \<le> e - b" by (simp only: t [symmetric] length_take min.cobounded2)
  then have "length u + length sp \<le> e - b" by simp
  moreover have "0 < length sp" using assms(2) by simp
  ultimately have l: "length u + length sp \<le> e - b" "b + length u + length sp \<le> e"
    by linarith+
  have "sp = take (length sp) (drop (length u) (take (e - b) (drop b s)))" by (simp add: t)
  also have "\<dots> = take (length sp) (drop (b + length u) s)"
    using l(1) by (simp add: drop_take min_absorb1 add.commute)
  finally have "hit_at s sp (b + length u)" by (simp add: hit_at_def)
  with assms(1) l show False by simp
qed

lemma split_loop_ok:
  assumes "1 \<le> k" "k \<le> length sep" "len \<le> length s"
  shows "start \<le> j \<Longrightarrow> j \<le> len \<Longrightarrow> length tokens < slots \<Longrightarrow>
    \<forall>i. start \<le> i \<and> i < j \<longrightarrow> \<not> hit_at s (take k sep) i \<Longrightarrow>
    \<exists>ts. split_loop s len sep k j start tokens slots = Some (tokens @ ts) \<and> ts \<noteq> []
      \<and> join (take k sep) ts = take (len - start) (drop start s)
      \<and> (\<forall>t \<in> set ts. \<not> sublist (take k sep) t)"
proof (induction "len - j" arbitrary: j start tokens slots rule: less_induct)
  case less
  let ?sp = "take k sep"
  have sp: "length ?sp = k" "?sp \<noteq> []" using assms by auto
  define slots' where "slots' = (if slots < length tokens + 2 then slots * 2 else slots)"
  have step: "split_loop s len sep k j start tokens slots =
     (if 1 \<le> k \<and> int j < int len - (int k - 1) then do {
        hit \<leftarrow> sep_at s j sep k;
        if hit then do {
          t \<leftarrow> peek s start (j - start);
          tokens' \<leftarrow> store_token slots' tokens t;
          split_loop s len sep k (j + k - 1 + 1) (j + k) tokens' slots' }
        else split_loop s len sep k (j + 1) start tokens slots' }
      else do { t \<leftarrow> peek s start (len - start); store_token slots tokens t })"
    by (subst split_loop.simps) (simp only: slots'_def Let_def)
  have sl: "length tokens + 1 < slots'" using less.prems(3) by (auto simp: slots'_def)
  show ?case
  proof (cases "int j < int len - (int k - 1)")
    case False
    have "\<forall>i. start \<le> i \<and> i + length ?sp \<le> len \<longrightarrow> \<not> hit_at s ?sp i"
      using less.prems(4) False sp(1) by auto
    from no_hit_no_sublist [OF this sp(2)] False less.prems assms(3) show ?thesis
      by (subst split_loop.simps) (simp add: store_token_def peek_def)
  next
    case True
    then have jk: "j + k \<le> len" "j < len" using assms(1) by linarith+
    note at = sep_at_eq [OF assms(1,2), of j s]
    show ?thesis
    proof (cases "hit_at s ?sp j")
      case False
      then have "\<forall>i. start \<le> i \<and> i < j + 1 \<longrightarrow> \<not> hit_at s ?sp i"
        using less.prems(4) by (auto simp: less_Suc_eq)
      moreover have "len - (j + 1) < len - j" using jk by linarith
      ultimately obtain ts where
        "split_loop s len sep k (j + 1) start tokens slots' = Some (tokens @ ts)" "ts \<noteq> []"
        "join ?sp ts = take (len - start) (drop start s)" "\<forall>t \<in> set ts. \<not> sublist ?sp t"
        using less.hyps [of "j + 1" start tokens slots'] jk less.prems(1) sl by auto
      with True False at jk assms show ?thesis
        by (simp add: step)
    next
      case hit: True
      let ?t = "take (j - start) (drop start s)"
      have "\<forall>i. start \<le> i \<and> i + length ?sp \<le> j \<longrightarrow> \<not> hit_at s ?sp i"
        using less.prems(4) sp(1) assms(1) by auto
      from no_hit_no_sublist [OF this sp(2)] have nt: "\<not> sublist ?sp ?t" .
      have vac: "\<forall>i. j + k \<le> i \<and> i < j + k \<longrightarrow> \<not> hit_at s (take k sep) i" by auto
      have "len - (j + k) < len - j" using jk assms(1) by linarith
      then obtain ts where
        ts: "split_loop s len sep k (j + k) (j + k) (tokens @ [?t]) slots' = Some ((tokens @ [?t]) @ ts)"
        "ts \<noteq> []" "join ?sp ts = take (len - (j + k)) (drop (j + k) s)"
        "\<forall>t \<in> set ts. \<not> sublist ?sp t"
        using less.hyps [OF _ _ _ _ vac, of "tokens @ [?t]" slots'] jk sl by auto
      have "?t @ ?sp @ take (len - (j + k)) (drop (j + k) s) = take (len - start) (drop start s)"
      proof -
        have "len - start = (j - start) + (k + (len - (j + k)))" using jk less.prems(1) by linarith
        then have "take (len - start) (drop start s) =
            ?t @ take k (drop (j - start + start) s)
              @ take (len - (j + k)) (drop (k + (j - start + start)) s)"
          by (simp only: take_add drop_drop)
        then have "take (len - start) (drop start s) =
            ?t @ take k (drop j s) @ take (len - (j + k)) (drop (j + k) s)"
          using less.prems(1) by (simp add: add.commute)
        with hit sp(1) show ?thesis by (simp add: hit_at_def)
      qed
      with ts have "join ?sp (?t # ts) = take (len - start) (drop start s)"
        by (simp add: join_Cons)
      moreover have "split_loop s len sep k j start tokens slots = Some (tokens @ ?t # ts)"
        using True hit at jk assms ts(1) less.prems(1) sl
        by (simp add: step store_token_def peek_def)
      ultimately show ?thesis using nt ts(4) by (intro exI [of _ "?t # ts"]) simp
    qed
  qed
qed

text \<open>Decimal numbers as C reads them.\<close>

definition dec_value :: "bytes \<Rightarrow> nat" where
  "dec_value ds = foldl (\<lambda>n d. 10 * n + (unat d - 48)) 0 ds"

definition read_decimal :: "bytes \<Rightarrow> int" where
  "read_decimal ds = (case ds of c # r \<Rightarrow> if c = 45 then - int (dec_value r) else int (dec_value ds) | [] \<Rightarrow> 0)"

lemma foldl_dec: "foldl (\<lambda>n d. 10 * n + (unat d - 48)) a ds =
    a * 10 ^ length ds + dec_value (ds :: bytes)"
proof (induction ds arbitrary: a)
  case (Cons d ds)
  have "dec_value (d # ds) = foldl (\<lambda>n d. 10 * n + (unat d - 48)) (unat d - 48) ds"
    by (simp add: dec_value_def)
  then show ?case by (simp only: foldl.simps Cons.IH list.size power_add) (simp add: algebra_simps)
qed (simp add: dec_value_def)

lemma unat_digit: "unat (of_nat (48 + v mod 10) :: u8) = 48 + v mod 10"
  using mod_less_divisor [of 10 v] by (simp only: unsigned_of_nat) (simp add: take_bit_nat_eq_self)

lemma put_digits_ok:
  "v < 10 ^ m \<Longrightarrow> 0 < m \<Longrightarrow> m \<le> fuel \<Longrightarrow> int m \<le> p + 1 \<Longrightarrow>
   \<exists>ds. put_digits fuel v p out = Some (p - int (length ds), ds @ out) \<and> dec_value ds = v
     \<and> ds \<noteq> [] \<and> length ds \<le> m \<and> (\<forall>d \<in> set ds. 48 \<le> d \<and> d \<le> 57)"
proof (induction fuel arbitrary: v m p out)
  case (Suc fuel)
  let ?d = "of_nat (48 + v mod 10) :: u8"
  have d: "dec_value (ds @ [?d]) = 10 * dec_value ds + v mod 10" for ds
    by (simp only: dec_value_def foldl_append foldl.simps unat_digit diff_add_inverse)
  have dr: "48 \<le> ?d \<and> ?d \<le> 57"
    using mod_less_divisor [of 10 v] by (simp add: word_le_nat_alt unat_digit del: of_nat_add)
  show ?case
  proof (cases "v div 10 = 0")
    case True
    with Suc.prems d [of "[]"] dr show ?thesis
      by (intro exI [of _ "[?d]"]) (auto simp: dec_value_def)
  next
    case False
    with Suc.prems obtain k where k: "m = Suc k" "0 < k" by (cases m; cases "m - 1") auto
    then have "v div 10 < 10 ^ k" using Suc.prems(1) by (simp add: less_mult_imp_div_less mult.commute)
    then obtain ds where "put_digits fuel (v div 10) (p - 1) (?d # out) =
        Some (p - 1 - int (length ds), ds @ ?d # out)" "dec_value ds = v div 10" "ds \<noteq> []"
        "length ds \<le> k" "\<forall>d \<in> set ds. 48 \<le> d \<and> d \<le> 57"
      using Suc.IH [of "v div 10" k "p - 1" "?d # out"] Suc.prems(3,4) k by auto
    with False Suc.prems(4) k d [of ds] dr show ?thesis
      by (intro exI [of _ "ds @ [?d]"]) (auto simp: Let_def)
  qed
qed simp

section \<open>Reading a representation back\<close>

text \<open>What \<open>sdssplitargs\<close> reads for the representation of one byte: it has no hexadecimal escape.\<close>

definition reread :: "u8 \<Rightarrow> bytes" where
  "reread c = (if u8_isprint c \<or> c \<in> {7, 8, 9, 10, 13} then [c]
     else [120, hex_digit (c div 16), hex_digit (c mod 16)])"

lemma nibble_cases:
  fixes n :: u8
  assumes "n < 16"
  shows "hex_digit n \<noteq> 34" "hex_digit n \<noteq> 92"
proof -
  have "unat n < 16" using assms by (simp add: word_less_nat_alt)
  then have "unat n \<in> set [0..<16]" by simp
  then have "of_nat (unat n) \<in> set (map of_nat [0..<16] :: u8 list)" by (metis image_eqI list.set_map)
  then have "n \<in> set (map of_nat [0..<16])" by simp
  then show "hex_digit n \<noteq> 34" "hex_digit n \<noteq> 92"
    by (auto simp: upt_rec hex_digit_def)
qed

lemma nibbles: "c div 16 < (16 :: u8)" "c mod 16 < (16 :: u8)"
proof -
  have "unat c div 16 < 16" using unat_bounds(1) [of c] by simp
  then show "c div 16 < (16 :: u8)" by (simp add: word_less_nat_alt unat_div)
  show "c mod 16 < (16 :: u8)" by (simp add: word_less_nat_alt unat_mod)
qed

lemma repr_loop_eq: "repr_loop s p = s @ concat (map repr_byte p)"
  by (induction s p rule: repr_loop.induct) simp_all

lemma arg_token_repr_byte:
  assumes "r \<noteq> []"
  shows "arg_token True cur (repr_byte c @ r) = arg_token True (cur @ reread c) r"
proof -
  consider "c = 92 \<or> c = 34" | "c = 10 \<or> c = 13 \<or> c = 9 \<or> c = 7 \<or> c = 8"
    | "c \<notin> {92, 34, 10, 13, 9, 7, 8}" "u8_isprint c"
    | "c \<notin> {92, 34, 10, 13, 9, 7, 8}" "\<not> u8_isprint c"
    by blast
  then show ?thesis
  proof cases
    case 1
    then show ?thesis by (auto simp: repr_byte_def reread_def unescape_def u8_isprint_def)
  next
    case 2
    then show ?thesis by (auto simp: repr_byte_def reread_def unescape_def u8_isprint_def)
  next
    case 3
    then show ?thesis by (simp add: repr_byte_def reread_def)
  next
    case 4
    then show ?thesis
      using nibble_cases [OF nibbles(1)] nibble_cases [OF nibbles(2)]
      by (simp add: repr_byte_def reread_def unescape_def)
  qed
qed

lemma arg_token_repr:
  assumes "r = [] \<or> u8_isspace (hd r)"
  shows "arg_token True cur (concat (map repr_byte p) @ 34 # r)
    = Some (cur @ concat (map reread p), r)"
  using assms by (induction p arbitrary: cur) (auto simp: arg_token_repr_byte)

lemma arg_token_quoted:
  "r = [] \<or> u8_isspace (hd r) \<Longrightarrow>
   arg_token False [] (sdscatrepr [] p @ r) = Some (concat (map reread p), r)"
  by (simp add: sdscatrepr_def repr_loop_eq arg_token_repr)

lemma repr_head: "sdscatrepr [] p = 34 # tl (sdscatrepr [] p)"
  by (simp add: sdscatrepr_def repr_loop_eq)

lemma dropWhile_repr: "dropWhile u8_isspace (sdscatrepr [] p @ r) = sdscatrepr [] p @ r"
  by (subst repr_head, subst (2) repr_head) (simp add: u8_isspace_def)

lemma args_loop_quoted:
  assumes "r = [] \<or> u8_isspace (hd r)"
  shows "args_loop v n (sdscatrepr [] p @ r) =
    args_loop (Some ((case v of Some v \<Rightarrow> v | None \<Rightarrow> []) @ [concat (map reread p)])) (n + 1) r"
proof (cases "sdscatrepr [] p @ r")
  case Nil
  then show ?thesis using repr_head [of p] by simp
next
  case (Cons c w)
  then show ?thesis
    using arg_token_quoted [OF assms, of p] dropWhile_repr [of p r]
    by (subst args_loop.simps) (simp del: arg_token.simps)
qed

lemma args_loop_space: "args_loop v n (32 # r) = args_loop v n r"
  by (subst (1 2) args_loop.simps) (simp add: u8_isspace_def)

lemma args_loop_join:
  "args \<noteq> [] \<Longrightarrow>
   args_loop v n (join [32] (map (sdscatrepr []) args)) =
     (Some ((case v of Some v \<Rightarrow> v | None \<Rightarrow> []) @ map (\<lambda>a. concat (map reread a)) args),
      n + int (length args))"
proof (induction args arbitrary: v n rule: induct_list012)
  case (2 a)
  show ?case using args_loop_quoted [of "[]" v n a] by (simp add: args_loop.simps [of "Some w" for w])
next
  case (3 a b r)
  from 3(2) show ?case
    using args_loop_quoted [of "32 # join [32] (map (sdscatrepr []) (b # r))" v n a]
    by (simp add: u8_isspace_def args_loop_space)
qed simp

text \<open>A line that holds the quoted representations of some arguments (as \<open>sdscatrepr\<close> prints
  them) is split by \<open>sdssplitargs\<close> into as many arguments; each comes back unchanged but for its
  unprintable bytes, other than the five with an escape letter, which come back as the three
  characters \<open>xhh\<close> of an escape that the parser does not decode.\<close>

theorem splitargs_of_repr:
  assumes "args \<noteq> []"
  shows "sdssplitargs (join [32] (map (sdscatrepr []) args)) =
    (Some (map (\<lambda>a. concat (map (\<lambda>c.
        if (32 \<le> c \<and> c \<le> 126) \<or> c \<in> {7, 8, 9, 10, 13} then [c]
        else [120, hex_digit (c div 16), hex_digit (c mod 16)]) a)) args), int (length args))"
  using args_loop_join [OF assms, of None 0]
  by (simp add: sdssplitargs_def reread_def [abs_def] u8_isprint_def)

theorem splitargs_of_repr_witness:
  "sdssplitargs (sdscatrepr [] [97, 34, 10] @ 32 # sdscatrepr [] [255]) =
    (Some [[97, 34, 10], [120, 102, 102]], 2)"
  using splitargs_of_repr [of "[[97, 34, 10], [255]]"]
  by (simp add: hex_digit_def)

lemma sdssplitlen_ok:
  assumes "1 \<le> seplen" "seplen \<le> int (length sep)" "0 \<le> len" "len \<le> int (length s)"
  shows "\<exists>ts. sdssplitlen s len sep seplen = Some (Some ts)
    \<and> join (take (nat seplen) sep) ts = take (nat len) s
    \<and> (\<forall>t \<in> set ts. \<not> sublist (take (nat seplen) sep) t) \<and> (ts = [] \<longleftrightarrow> len = 0)"
proof (cases "len = 0")
  case False
  have k: "1 \<le> nat seplen" "nat seplen \<le> length sep" "nat len \<le> length s"
    using assms by linarith+
  from split_loop_ok [OF this, of 0 0 "[]" 5] False assms show ?thesis
    by (auto simp: sdssplitlen_def)
qed (use assms in \<open>simp add: sdssplitlen_def\<close>)

text \<open>\<open>sdssplitlen\<close> cuts the string at the occurrences of the separator, scanning from the left:
  joined with the separator the tokens give the string back, and no token contains the separator;
  there is always room in the token array, and no byte outside the two strings is read.\<close>

theorem sdssplitlen_joins:
  assumes "1 \<le> seplen" "seplen \<le> int (length sep)" "0 \<le> len" "len \<le> int (length s)"
  shows "\<exists>ts. sdssplitlen s len sep seplen = Some (Some ts)
    \<and> join (take (nat seplen) sep) ts = take (nat len) s
    \<and> (\<forall>t \<in> set ts. \<not> sublist (take (nat seplen) sep) t) \<and> (ts = [] \<longleftrightarrow> len = 0)"
  by (rule sdssplitlen_ok [OF assms])

theorem sdssplitlen_joins_witness:
  "\<exists>ts. sdssplitlen [97, 45, 45, 98] 4 [45, 45] 2 = Some (Some ts)
    \<and> join [45, 45] ts = [97, 45, 45, 98] \<and> (\<forall>t \<in> set ts. \<not> sublist [45, 45] t)"
  using sdssplitlen_joins [of 2 "[45, 45]" 4 "[97, 45, 45, 98]"] by auto

lemma signed_digits:
  assumes "- (2 ^ 63) \<le> v" "v < 2 ^ 63"
  shows "\<exists>ds. put_digits 32 (if v < 0 then unat (word_of_int (- v) :: u64) else nat v) 31 [] =
      Some (31 - int (length ds), ds) \<and> dec_value ds = nat \<bar>v\<bar> \<and> ds \<noteq> [] \<and> length ds \<le> 19 \<and>
      (\<forall>d \<in> set ds. 48 \<le> d \<and> d \<le> 57)"
proof -
  define n where "n = (if v < 0 then unat (word_of_int (- v) :: u64) else nat v)"
  have "unat (word_of_int (- v) :: u64) = nat (take_bit 64 (- v))"
    by (simp only: unsigned_of_int) simp
  then have n: "n = nat \<bar>v\<bar>"
    using assms by (simp add: n_def take_bit_int_eq_self del: of_int_minus)
  then have "n < 10 ^ 19" using assms by simp
  from put_digits_ok [OF this, of 32 31 "[]"] show ?thesis by (fold n_def) (auto simp: n)
qed

text \<open>\<open>sdsfromlonglong\<close> prints every \<open>long long\<close>, \<open>LLONG_MIN\<close> included, as decimal digits that
  read back as that number, without leaving its 32-byte buffer.\<close>

theorem sdsfromlonglong_reads_back:
  assumes "- (2 ^ 63) \<le> v" "v < 2 ^ 63"
  shows "\<exists>ds. sdsfromlonglong v = Some ds \<and> read_decimal ds = v \<and> length ds \<le> 32"
proof -
  from signed_digits [OF assms] obtain ds where ds:
    "put_digits 32 (if v < 0 then unat (word_of_int (- v) :: u64) else nat v) 31 [] =
      Some (31 - int (length ds), ds)" "dec_value ds = nat \<bar>v\<bar>" "ds \<noteq> []"
    "length ds \<le> 19" "\<forall>d \<in> set ds. 48 \<le> d \<and> d \<le> 57"
    by blast
  have d: "read_decimal ds = int (dec_value ds)"
    using ds(3,5) by (cases ds) (auto simp: read_decimal_def)
  have s: "sdsfromlonglong v = Some (if v < 0 then 45 # ds else ds)"
    using ds(1,4) by (simp only: sdsfromlonglong_def Let_def) simp
  show ?thesis
  proof (cases "v < 0")
    case True
    then show ?thesis using s ds(2,4) by (simp add: read_decimal_def)
  next
    case False
    then show ?thesis using s ds(2,4) d by simp
  qed
qed

theorem sdsfromlonglong_reads_back_witness:
  "\<exists>ds. sdsfromlonglong (- (2 ^ 63)) = Some ds \<and> read_decimal ds = - (2 ^ 63)"
  using sdsfromlonglong_reads_back [of "- (2 ^ 63)"] by auto

end
