(* ===== verification/Kv_Store.thy ===== *)
theory Kv_Store
  imports Main "HOL-Library.Monad_Syntax"
begin

text \<open>
  The contract of a key-value store, as the hash objects of Redis use it: it is provided by the
  packed zipmap (theory \<open>Zipmap\<close>) and by the chained hash table (theory \<open>Dict\<close>). An operation is
  partial (\<open>None\<close> is a fault of the code); the contract says that on a store that represents a
  map it does not fault and agrees with the map, while the size stays below a capacity.
\<close>

datatype ('k, 'v) kv_op = KSet 'k 'v | KDel 'k | KGet 'k

datatype 'v kv_answer = Updated bool | Deleted bool | Value "'v option"

text \<open>The answers of a plain map, and those of a store given by its three operations.\<close>

fun run_map :: "('k \<Rightarrow> 'v option) \<Rightarrow> ('k, 'v) kv_op list \<Rightarrow> 'v kv_answer list" where
  "run_map m [] = []"
| "run_map m (KSet k v # ops) = Updated (m k \<noteq> None) # run_map (m(k \<mapsto> v)) ops"
| "run_map m (KDel k # ops) = Deleted (m k \<noteq> None) # run_map (m(k := None)) ops"
| "run_map m (KGet k # ops) = Value (m k) # run_map m ops"

fun run_store :: "('s \<Rightarrow> 'k \<Rightarrow> ('s \<times> 'v option) option) \<Rightarrow> ('s \<Rightarrow> 'k \<Rightarrow> 'v \<Rightarrow> ('s \<times> bool) option)
    \<Rightarrow> ('s \<Rightarrow> 'k \<Rightarrow> ('s \<times> bool) option) \<Rightarrow> 's \<Rightarrow> ('k, 'v) kv_op list \<Rightarrow> 'v kv_answer list option" where
  "run_store get put del s [] = Some []"
| "run_store get put del s (KSet k v # ops) = do {
     (s', b) \<leftarrow> put s k v; r \<leftarrow> run_store get put del s' ops; Some (Updated b # r) }"
| "run_store get put del s (KDel k # ops) = do {
     (s', b) \<leftarrow> del s k; r \<leftarrow> run_store get put del s' ops; Some (Deleted b # r) }"
| "run_store get put del s (KGet k # ops) = do {
     (s', v) \<leftarrow> get s k; r \<leftarrow> run_store get put del s' ops; Some (Value v # r) }"

text \<open>What the operations of a sequence can add to the size.\<close>

fun op_cost :: "('k \<Rightarrow> 'v \<Rightarrow> nat) \<Rightarrow> ('k, 'v) kv_op \<Rightarrow> nat" where
  "op_cost cost (KSet k v) = cost k v"
| "op_cost cost (KDel k) = 0"
| "op_cost cost (KGet k) = 0"

locale kv_store =
  fixes rep :: "'s \<Rightarrow> ('k \<Rightarrow> 'v option) \<Rightarrow> bool"
    and get :: "'s \<Rightarrow> 'k \<Rightarrow> ('s \<times> 'v option) option"
    and put :: "'s \<Rightarrow> 'k \<Rightarrow> 'v \<Rightarrow> ('s \<times> bool) option"
    and del :: "'s \<Rightarrow> 'k \<Rightarrow> ('s \<times> bool) option"
    and extent :: "'s \<Rightarrow> nat"
    and cost :: "'k \<Rightarrow> 'v \<Rightarrow> nat"
    and capacity :: nat
  assumes get_rep: "rep s m \<Longrightarrow> \<exists>s'. get s k = Some (s', m k) \<and> rep s' m \<and> extent s' \<le> extent s"
    and put_rep: "rep s m \<Longrightarrow> extent s + cost k v < capacity \<Longrightarrow>
      \<exists>s'. put s k v = Some (s', m k \<noteq> None) \<and> rep s' (m(k \<mapsto> v)) \<and> extent s' \<le> extent s + cost k v"
    and del_rep: "rep s m \<Longrightarrow>
      \<exists>s'. del s k = Some (s', m k \<noteq> None) \<and> rep s' (m(k := None)) \<and> extent s' \<le> extent s"
begin

lemma put_get: "rep s m \<Longrightarrow> extent s + cost k v < capacity \<Longrightarrow>
    \<exists>s'. put s k v = Some (s', m k \<noteq> None) \<and>
      (\<exists>s''. get s' k' = Some (s'', if k' = k then Some v else m k'))"
  using put_rep [of s m k v] get_rep by fastforce

lemma del_get: "rep s m \<Longrightarrow>
    \<exists>s'. del s k = Some (s', m k \<noteq> None) \<and>
      (\<exists>s''. get s' k' = Some (s'', if k' = k then None else m k'))"
  using del_rep [of s m k] get_rep by fastforce

lemma run_rep:
  "rep s m \<Longrightarrow> extent s + sum_list (map (op_cost cost) ops) < capacity \<Longrightarrow>
   run_store get put del s ops = Some (run_map m ops)"
proof (induction ops arbitrary: s m)
  case (Cons x ops)
  show ?case
  proof (cases x)
    case (KSet k v)
    with Cons.prems(2) have "extent s + cost k v < capacity" by simp
    from put_rep [OF Cons.prems(1) this] obtain s' where
      s': "put s k v = Some (s', m k \<noteq> None)" "rep s' (m(k \<mapsto> v))" "extent s' \<le> extent s + cost k v"
      by blast
    have "extent s' + sum_list (map (op_cost cost) ops) < capacity"
      using s'(3) Cons.prems(2) KSet by simp
    from Cons.IH [OF s'(2) this] s'(1) KSet show ?thesis by (simp add: fun_upd_def)
  next
    case (KDel k)
    from del_rep [OF Cons.prems(1), of k] obtain s' where
      s': "del s k = Some (s', m k \<noteq> None)" "rep s' (m(k := None))" "extent s' \<le> extent s"
      by blast
    have "extent s' + sum_list (map (op_cost cost) ops) < capacity"
      using s'(3) Cons.prems(2) KDel by simp
    from Cons.IH [OF s'(2) this] s'(1) KDel show ?thesis by (simp add: fun_upd_def)
  next
    case (KGet k)
    from get_rep [OF Cons.prems(1), of k] obtain s' where
      s': "get s k = Some (s', m k)" "rep s' m" "extent s' \<le> extent s" by blast
    have "extent s' + sum_list (map (op_cost cost) ops) < capacity"
      using s'(3) Cons.prems(2) KGet by simp
    from Cons.IH [OF s'(2) this] s'(1) KGet show ?thesis by simp
  qed
qed simp

end

end
