(* ===== verification/Zipmap.thy ===== *)
theory Zipmap
  imports Buffers Kv_Store
begin

text \<open>
  \<open>apps/redis-2.0.4/zipmap.c\<close>: the packed string map of Redis. A zipmap is one heap block, the
  list of exactly its allocated bytes; a pointer into it is an offset and every access is
  checked (\<open>None\<close> leaves the block). Keys and values passed by the caller are byte lists whose
  length is the length argument. Sums the code computes in \<open>unsigned int\<close> are reduced modulo
  \<open>2 ^ 32\<close> (\<open>w32\<close>).
\<close>

definition ZIPMAP_BIGLEN :: nat where "ZIPMAP_BIGLEN = 254"
definition ZIPMAP_END :: u8 where "ZIPMAP_END = 255"
definition ZIPMAP_VALUE_MAX_FREE :: nat where "ZIPMAP_VALUE_MAX_FREE = 4"

definition w32 :: "nat \<Rightarrow> nat" where "w32 n = n mod 2 ^ 32"

definition ZIPMAP_LEN_BYTES :: "nat \<Rightarrow> nat" where
  "ZIPMAP_LEN_BYTES l = (if l < ZIPMAP_BIGLEN then 1 else 4 + 1)"

definition zipmapNew :: "garbage \<Rightarrow> bytes option" where
  "zipmapNew g = do { zm \<leftarrow> poke (malloc_buf g 2) 0 [0]; poke zm 1 [ZIPMAP_END] }"

definition zipmapDecodeLength :: "bytes \<Rightarrow> nat \<Rightarrow> nat option" where
  "zipmapDecodeLength zm p = do {
     c \<leftarrow> rd zm p;
     if unat c < ZIPMAP_BIGLEN then Some (unat c)
     else map_option unat (read32 zm (int (p + 1))) }"

text \<open>\<open>zipmapEncodeLength\<close> with a pointer; with NULL it is \<open>ZIPMAP_LEN_BYTES\<close>.\<close>

definition zipmapEncodeLength :: "bytes \<Rightarrow> nat \<Rightarrow> nat \<Rightarrow> (bytes \<times> nat) option" where
  "zipmapEncodeLength zm p len =
     (if len < ZIPMAP_BIGLEN
      then do { zm' \<leftarrow> poke zm p [of_nat len]; Some (zm', 1) }
      else do {
        zm1 \<leftarrow> poke zm p [of_nat ZIPMAP_BIGLEN];
        zm2 \<leftarrow> poke zm1 (p + 1) (le32_bytes (of_nat len));
        Some (zm2, 1 + 4) })"

text \<open>
  The scan of \<open>zipmapLookupRaw\<close>: the entry found so far and the offset reached. With \<open>all\<close> (a
  caller that asks for the total length) it goes on to the end after a match.
\<close>

function lookup_loop :: "bytes \<Rightarrow> bytes \<Rightarrow> bool \<Rightarrow> nat option \<Rightarrow> nat \<Rightarrow> (nat option \<times> nat) option" where
  "lookup_loop zm key all k p =
     (if length zm \<le> p then None
      else if zm ! p = ZIPMAP_END then Some (k, p)
      else do {
        l \<leftarrow> zipmapDecodeLength zm p;
        let llen = ZIPMAP_LEN_BYTES l;
        hit \<leftarrow> (if k = None \<and> l = length key
                then do { d \<leftarrow> peek zm (p + llen) l; Some (d = key) } else Some False);
        if hit \<and> \<not> all then Some (Some p, p)
        else do {
          let k' = (if hit then Some p else k);
          let p1 = p + (llen + l);
          l' \<leftarrow> zipmapDecodeLength zm p1;
          let p2 = p1 + ZIPMAP_LEN_BYTES l';
          free \<leftarrow> rd zm p2;
          lookup_loop zm key all k' (p2 + (l' + 1 + unat free)) } })"
  by pat_completeness auto
termination
  by (relation "measure (\<lambda>(zm, key, all, k, p). length zm - p)")
     (auto simp: ZIPMAP_LEN_BYTES_def)

declare lookup_loop.simps [simp del]

text \<open>The entry (an offset), with the total length when it is asked for.\<close>

definition zipmapLookupRaw :: "bytes \<Rightarrow> bytes \<Rightarrow> nat option option" where
  "zipmapLookupRaw zm key = map_option fst (lookup_loop zm key False None 1)"

definition zipmapLookupRaw_total :: "bytes \<Rightarrow> bytes \<Rightarrow> (nat option \<times> nat) option" where
  "zipmapLookupRaw_total zm key =
     map_option (\<lambda>(k, p). (k, w32 (p + 1))) (lookup_loop zm key True None 1)"

definition zipmapRequiredLength :: "nat \<Rightarrow> nat \<Rightarrow> nat" where
  "zipmapRequiredLength klen vlen =
     w32 (w32 (klen + vlen + 3) + (if klen \<ge> ZIPMAP_BIGLEN then 4 else 0)
          + (if vlen \<ge> ZIPMAP_BIGLEN then 4 else 0))"

definition zipmapRawKeyLength :: "bytes \<Rightarrow> nat \<Rightarrow> nat option" where
  "zipmapRawKeyLength zm p = do { l \<leftarrow> zipmapDecodeLength zm p; Some (w32 (ZIPMAP_LEN_BYTES l + l)) }"

definition zipmapRawValueLength :: "bytes \<Rightarrow> nat \<Rightarrow> nat option" where
  "zipmapRawValueLength zm p = do {
     l \<leftarrow> zipmapDecodeLength zm p;
     let used = ZIPMAP_LEN_BYTES l;
     free \<leftarrow> rd zm (p + used);
     Some (w32 (used + (unat free + 1 + l))) }"

definition zipmapRawEntryLength :: "bytes \<Rightarrow> nat \<Rightarrow> nat option" where
  "zipmapRawEntryLength zm p = do {
     l \<leftarrow> zipmapRawKeyLength zm p;
     v \<leftarrow> zipmapRawValueLength zm (p + l);
     Some (w32 (l + v)) }"

definition zipmapResize :: "garbage \<Rightarrow> bytes \<Rightarrow> nat \<Rightarrow> bytes option" where
  "zipmapResize g zm len =
     (if len = 0 then None else poke (realloc_buf g zm len) (len - 1) [ZIPMAP_END])"

section \<open>Setting and deleting\<close>

text \<open>The block for the entry: its offset, its length and the total length of the map.\<close>

definition set_block :: "garbage \<Rightarrow> bytes \<Rightarrow> bytes \<Rightarrow> nat \<Rightarrow> (bytes \<times> nat \<times> nat \<times> nat \<times> bool) option" where
  "set_block g zm key reqlen = do {
     (found, zmlen) \<leftarrow> zipmapLookupRaw_total zm key;
     case found of
       None \<Rightarrow> do {
         zm1 \<leftarrow> zipmapResize g zm (w32 (zmlen + reqlen));
         let p = zmlen - 1;
         c \<leftarrow> rd zm1 0;
         zm2 \<leftarrow> (if unat c < ZIPMAP_BIGLEN then poke zm1 0 [c + 1] else Some zm1);
         Some (zm2, p, reqlen, w32 (zmlen + reqlen), False) }
     | Some p \<Rightarrow> do {
         freelen \<leftarrow> zipmapRawEntryLength zm p;
         if freelen < reqlen then do {
           zm1 \<leftarrow> zipmapResize g zm (w32 (zmlen - freelen + reqlen));
           zm2 \<leftarrow> bmove zm1 (p + reqlen) (p + freelen) (zmlen - (p + freelen + 1));
           Some (zm2, p, reqlen, w32 (zmlen - freelen + reqlen), True) }
         else Some (zm, p, freelen, zmlen, True) } }"

text \<open>The key, the value and the free count written at \<open>p\<close>.\<close>

definition write_entry :: "bytes \<Rightarrow> nat \<Rightarrow> bytes \<Rightarrow> bytes \<Rightarrow> nat \<Rightarrow> bytes option" where
  "write_entry zm p key val vempty = do {
     (zm1, n) \<leftarrow> zipmapEncodeLength zm p (length key);
     let p1 = p + n;
     zm2 \<leftarrow> poke zm1 p1 key;
     let p2 = p1 + length key;
     (zm3, n') \<leftarrow> zipmapEncodeLength zm2 p2 (length val);
     let p3 = p2 + n';
     zm4 \<leftarrow> poke zm3 p3 [of_nat vempty];
     poke zm4 (p3 + 1) val }"

text \<open>A block with \<open>ZIPMAP_VALUE_MAX_FREE\<close> bytes or more to spare is shrunk.\<close>

definition shrink_block :: "garbage \<Rightarrow> bytes \<Rightarrow> nat \<Rightarrow> nat \<Rightarrow> nat \<Rightarrow> nat \<Rightarrow> (bytes \<times> nat) option" where
  "shrink_block g zm p freelen zmlen reqlen =
     (let empty = freelen - reqlen in
      if empty \<ge> ZIPMAP_VALUE_MAX_FREE then do {
        m \<leftarrow> bmove zm (p + reqlen) (p + freelen) (zmlen - (p + freelen + 1));
        m' \<leftarrow> zipmapResize g m (zmlen - empty);
        Some (m', 0) }
      else Some (zm, empty))"

definition zipmapSet :: "garbage \<Rightarrow> bytes \<Rightarrow> bytes \<Rightarrow> bytes \<Rightarrow> (bytes \<times> bool) option" where
  "zipmapSet g zm key val = do {
     let reqlen = zipmapRequiredLength (length key) (length val);
     (zm1, p, freelen, zmlen, update) \<leftarrow> set_block g zm key reqlen;
     (zm2, vempty) \<leftarrow> shrink_block g zm1 p freelen zmlen reqlen;
     zm3 \<leftarrow> write_entry zm2 p key val vempty;
     Some (zm3, update) }"

definition zipmapDel :: "garbage \<Rightarrow> bytes \<Rightarrow> bytes \<Rightarrow> (bytes \<times> bool) option" where
  "zipmapDel g zm key = do {
     (found, zmlen) \<leftarrow> zipmapLookupRaw_total zm key;
     case found of
       None \<Rightarrow> Some (zm, False)
     | Some p \<Rightarrow> do {
         freelen \<leftarrow> zipmapRawEntryLength zm p;
         zm1 \<leftarrow> bmove zm p (p + freelen) (zmlen - (p + freelen + 1));
         zm2 \<leftarrow> zipmapResize g zm1 (zmlen - freelen);
         c \<leftarrow> rd zm2 0;
         zm3 \<leftarrow> (if unat c < ZIPMAP_BIGLEN then poke zm2 0 [c - 1] else Some zm2);
         Some (zm3, True) } }"

section \<open>Reading\<close>

definition zipmapRewind :: nat where "zipmapRewind = 1"

text \<open>One step of the iteration: NULL at the end, else the next offset, the key and the value.\<close>

definition zipmapNext :: "bytes \<Rightarrow> nat \<Rightarrow> (nat \<times> bytes \<times> bytes) option option" where
  "zipmapNext zm p = do {
     c \<leftarrow> rd zm p;
     if c = ZIPMAP_END then Some None
     else do {
       klen \<leftarrow> zipmapDecodeLength zm p;
       key \<leftarrow> peek zm (p + ZIPMAP_LEN_BYTES klen) klen;
       rk \<leftarrow> zipmapRawKeyLength zm p;
       let p1 = p + rk;
       vlen \<leftarrow> zipmapDecodeLength zm p1;
       val \<leftarrow> peek zm (p1 + 1 + ZIPMAP_LEN_BYTES vlen) vlen;
       rv \<leftarrow> zipmapRawValueLength zm p1;
       Some (Some (p1 + rv, key, val)) } }"

definition zipmapGet :: "bytes \<Rightarrow> bytes \<Rightarrow> bytes option option" where
  "zipmapGet zm key = do {
     r \<leftarrow> zipmapLookupRaw zm key;
     case r of
       None \<Rightarrow> Some None
     | Some p \<Rightarrow> do {
         rk \<leftarrow> zipmapRawKeyLength zm p;
         let p1 = p + rk;
         vlen \<leftarrow> zipmapDecodeLength zm p1;
         val \<leftarrow> peek zm (p1 + ZIPMAP_LEN_BYTES vlen + 1) vlen;
         Some (Some val) } }"

definition zipmapExists :: "bytes \<Rightarrow> bytes \<Rightarrow> bool option" where
  "zipmapExists zm key = map_option (\<lambda>r. r \<noteq> None) (zipmapLookupRaw zm key)"

text \<open>The traversal the comment of \<open>zipmapNext\<close> describes, collecting the pairs.\<close>

partial_function (option) zipmap_pairs :: "bytes \<Rightarrow> nat \<Rightarrow> (bytes \<times> bytes) list option" where
  "zipmap_pairs zm p =
     (case zipmapNext zm p of
        None \<Rightarrow> None
      | Some None \<Rightarrow> Some []
      | Some (Some (p', k, v)) \<Rightarrow> do { r \<leftarrow> zipmap_pairs zm p'; Some ((k, v) # r) })"

text \<open>
  The counting loop of \<open>zipmapLen\<close>. An entry whose length wraps to 0 would make the code loop
  forever; that is \<open>None\<close> too.
\<close>

function count_loop :: "bytes \<Rightarrow> nat \<Rightarrow> nat \<Rightarrow> nat option" where
  "count_loop zm p len =
     (if length zm \<le> p then None
      else if zm ! p = ZIPMAP_END then Some len
      else do {
        rk \<leftarrow> zipmapRawKeyLength zm p;
        rv \<leftarrow> zipmapRawValueLength zm (p + rk);
        if rk + rv = 0 then None else count_loop zm (p + rk + rv) (w32 (len + 1)) })"
  by pat_completeness auto
termination
  by (relation "measure (\<lambda>(zm, p, len). length zm - p)") auto

declare count_loop.simps [simp del]

definition zipmapLen :: "bytes \<Rightarrow> (nat \<times> bytes) option" where
  "zipmapLen zm = do {
     c \<leftarrow> rd zm 0;
     if unat c < ZIPMAP_BIGLEN then Some (unat c, zm)
     else do {
       len \<leftarrow> count_loop zm zipmapRewind 0;
       zm' \<leftarrow> (if len < ZIPMAP_BIGLEN then poke zm 0 [of_nat len] else Some zm);
       Some (len, zm') } }"

section \<open>The map a block represents\<close>

text \<open>An entry: its key, its value and the free bytes after the value.\<close>

type_synonym entry = "bytes \<times> bytes \<times> bytes"

definition enc_len :: "nat \<Rightarrow> bytes" where
  "enc_len n = (if n < 254 then [of_nat n] else 254 # le32_bytes (of_nat n))"

definition enc :: "entry \<Rightarrow> bytes" where
  "enc x = (case x of (k, v, e) \<Rightarrow>
     enc_len (length k) @ k @ enc_len (length v) @ of_nat (length e) # v @ e)"

definition encs :: "entry list \<Rightarrow> bytes" where
  "encs es = concat (map enc es)"

definition zm_rep :: "bytes \<Rightarrow> entry list \<Rightarrow> bool" where
  "zm_rep zm es \<longleftrightarrow> (\<exists>c. zm = c # encs es @ [255] \<and> unat c \<le> 254
       \<and> (unat c < 254 \<longrightarrow> unat c = length es))
     \<and> (\<forall>x \<in> set es. length (snd (snd x)) < 4) \<and> distinct (map fst es) \<and> length zm < 2 ^ 32"

definition zm_abs :: "entry list \<Rightarrow> bytes \<Rightarrow> bytes option" where
  "zm_abs es = map_of (map (\<lambda>(k, v, e). (k, v)) es)"

lemmas zconsts = ZIPMAP_BIGLEN_def ZIPMAP_END_def ZIPMAP_VALUE_MAX_FREE_def

lemma encs_simps [simp]:
  "encs [] = []" "encs (x # es) = enc x @ encs es" "encs (r @ t) = encs r @ encs t"
  by (simp_all add: encs_def)

lemma length_enc_len: "length (enc_len n) = ZIPMAP_LEN_BYTES n"
  by (simp add: enc_len_def ZIPMAP_LEN_BYTES_def zconsts)

lemma w32_id [simp]: "n < 2 ^ 32 \<Longrightarrow> w32 n = n"
  by (simp add: w32_def)

lemma of_nat_byte: "n < 256 \<Longrightarrow> unat (of_nat n :: u8) = n"
  by (simp add: unsigned_of_nat take_bit_nat_eq_self)

lemma of_nat_u32: "n < 2 ^ 32 \<Longrightarrow> unat (of_nat n :: u32) = n"
  by (simp add: unsigned_of_nat take_bit_nat_eq_self)

lemma read32_le32_bytes:
  assumes "zm = A @ le32_bytes w @ B" "p = int (length A)"
  shows "read32 zm p = Some w"
proof -
  have "zm ! (length A + k) = le32_bytes w ! k" if "k < 4" for k
    using assms(1) that by (simp add: nth_append)
  from this [of 0] this [of 1] this [of 2] this [of 3] show ?thesis
    using assms le32_roundtrip [of w] by (simp add: read32_def in_region_def Let_def)
qed

lemma decode_enc_len:
  assumes "zm = A @ enc_len n @ B" "p = length A" "n < 2 ^ 32"
  shows "zipmapDecodeLength zm p = Some n"
proof (cases "n < 254")
  case True
  with assms(1,2) have "rd zm p = Some (of_nat n)" by (simp add: enc_len_def)
  with True show ?thesis by (simp add: zipmapDecodeLength_def zconsts of_nat_byte)
next
  case False
  with assms(1,2) have "rd zm p = Some 254" by (simp add: enc_len_def)
  moreover have "read32 zm (int (p + 1)) = Some (of_nat n)"
    using False assms(1,2)
    by (intro read32_le32_bytes [of _ "A @ [254]" _ B]) (simp_all add: enc_len_def)
  ultimately show ?thesis
    using assms(3) by (simp add: zipmapDecodeLength_def zconsts of_nat_u32)
qed

lemma enc_len_not_end: "rd (A @ enc_len n @ B) (length A) \<noteq> Some 255"
proof (cases "n < 254")
  case True
  then have "of_nat n \<noteq> (255 :: u8)" using of_nat_byte [of n] by auto
  with True show ?thesis by (simp add: enc_len_def)
qed (simp add: enc_len_def)

lemma enc_parts:
  assumes "zm = A @ enc (k, v, e) @ B" "p = length A" "length zm < 2 ^ 32" "length e < 256"
  defines "p1 \<equiv> p + length (enc_len (length k)) + length k"
  defines "p2 \<equiv> p1 + length (enc_len (length v))"
  shows "p < length zm" "zm ! p \<noteq> 255" "zipmapDecodeLength zm p = Some (length k)"
    "peek zm (p + ZIPMAP_LEN_BYTES (length k)) (length k) = Some k"
    "zipmapDecodeLength zm p1 = Some (length v)"
    "rd zm p2 = Some (of_nat (length e))" "unat (of_nat (length e) :: u8) = length e"
    "peek zm (p2 + 1) (length v) = Some v"
    "p2 + (length v + 1 + length e) = p + length (enc (k, v, e))"
proof -
  let ?lk = "enc_len (length k)" and ?lv = "enc_len (length v)"
  have zm: "zm = A @ ?lk @ (k @ ?lv @ of_nat (length e) # v @ e @ B)"
    "zm = (A @ ?lk) @ k @ (?lv @ of_nat (length e) # v @ e @ B)"
    "zm = (A @ ?lk @ k) @ ?lv @ (of_nat (length e) # v @ e @ B)"
    "zm = (A @ ?lk @ k @ ?lv) @ of_nat (length e) # (v @ e @ B)"
    "zm = (A @ ?lk @ k @ ?lv @ [of_nat (length e)]) @ v @ (e @ B)"
    using assms(1) by (simp_all add: enc_def)
  have l: "length k < 2 ^ 32" "length v < 2 ^ 32"
    using arg_cong [OF zm(1), of length] assms(3) by simp_all
  have "rd zm p \<noteq> Some 255" using enc_len_not_end zm(1) assms(2) by metis
  moreover show "p < length zm"
    using arg_cong [OF zm(1), of length] assms(2) by (simp add: enc_len_def)
  ultimately show "zm ! p \<noteq> 255" by (simp add: rd_def)
  show "zipmapDecodeLength zm p = Some (length k)"
    by (rule decode_enc_len [OF zm(1) assms(2) l(1)])
  show "zipmapDecodeLength zm p1 = Some (length v)"
    using assms(2) by (intro decode_enc_len [OF zm(3) _ l(2)]) (simp add: p1_def)
  show "rd zm p2 = Some (of_nat (length e))"
    using rd_append [of "A @ ?lk @ k @ ?lv" "of_nat (length e)" "v @ e @ B"] zm(4) assms(2)
    by (simp add: p1_def p2_def add.assoc)
  show "peek zm (p + ZIPMAP_LEN_BYTES (length k)) (length k) = Some k"
    using assms(2) by (subst zm(2), intro peek_append) (simp_all add: length_enc_len)
  show "peek zm (p2 + 1) (length v) = Some v"
    using assms(2) by (subst zm(5), intro peek_append) (simp_all add: p1_def p2_def)
  show "unat (of_nat (length e) :: u8) = length e" by (rule of_nat_byte [OF assms(4)])
  show "p2 + (length v + 1 + length e) = p + length (enc (k, v, e))"
    by (simp add: enc_def p1_def p2_def)
qed

lemma length_enc: "length (enc (k, v, e)) = ZIPMAP_LEN_BYTES (length k) + length k
    + ZIPMAP_LEN_BYTES (length v) + (length v + 1 + length e)"
  by (simp add: enc_def length_enc_len)

lemma lookup_step:
  assumes "zm = A @ enc (k, v, e) @ B" "p = length A" "length zm < 2 ^ 32" "length e < 256"
  shows "lookup_loop zm key all found p =
    (if found = None \<and> k = key \<and> \<not> all then Some (Some p, p)
     else lookup_loop zm key all (if found = None \<and> k = key then Some p else found)
            (p + length (enc (k, v, e))))"
proof -
  note parts = enc_parts [OF assms]
  have "\<not> length zm \<le> p" using parts(1) by simp
  then show ?thesis
    using parts(2-8)
    by (subst lookup_loop.simps) (auto simp: Let_def ZIPMAP_END_def length_enc_len length_enc add.assoc)
qed

lemma lookup_end:
  assumes "zm = A @ [255]" "p = length A"
  shows "lookup_loop zm key all found p = Some (found, p)"
  using assms by (subst lookup_loop.simps) (simp add: ZIPMAP_END_def)

text \<open>The offset of the first entry with a key, in a list of entries that starts at \<open>p\<close>.\<close>

fun entry_offset :: "nat \<Rightarrow> bytes \<Rightarrow> entry list \<Rightarrow> nat option" where
  "entry_offset p key [] = None"
| "entry_offset p key (x # es) = (if fst x = key then Some p else entry_offset (p + length (enc x)) key es)"

lemma lookup_loop_encs:
  assumes "zm = A @ encs es @ [255]" "p = length A" "length zm < 2 ^ 32" "\<forall>x \<in> set es. length (snd (snd x)) < 4"
  shows "lookup_loop zm key True found p =
      Some (case found of Some q \<Rightarrow> Some q | None \<Rightarrow> entry_offset p key es, length A + length (encs es))"
    and "map_option fst (lookup_loop zm key False None p) = Some (entry_offset p key es)"
  using assms
proof (induction es arbitrary: A p found)
  case Nil
  { case 1 then show ?case using lookup_end [of zm A p key True found] by (simp split: option.splits) }
  { case 2 then show ?case using lookup_end [of zm A p key False None] by simp }
next
  case (Cons x es)
  obtain k v e where x: "x = (k, v, e)" by (cases x)
  { case 1
    have st: "lookup_loop zm key True found p =
        lookup_loop zm key True (if found = None \<and> k = key then Some p else found) (p + length (enc x))"
      using lookup_step [of zm A k v e "encs es @ [255]" p key True found] 1 x by simp
    show ?case
      unfolding st using 1 x Cons.IH(1) [of "A @ enc x" "p + length (enc x)"]
      by (auto split: option.splits) }
  { case 2
    have st: "lookup_loop zm key False None p =
        (if k = key then Some (Some p, p) else lookup_loop zm key False None (p + length (enc x)))"
      using lookup_step [of zm A k v e "encs es @ [255]" p key False None] 2 x by simp
    show ?case
      unfolding st using 2 x Cons.IH(2) [of "A @ enc x" "p + length (enc x)"] by auto }
qed

lemma entry_offset_split:
  "entry_offset p key es = None \<Longrightarrow> key \<notin> fst ` set es"
  "entry_offset p key es = Some q \<Longrightarrow>
     \<exists>r v e t. es = r @ (key, v, e) # t \<and> key \<notin> fst ` set r \<and> q = p + length (encs r)"
proof (induction es arbitrary: p)
  case (Cons x es)
  { case 1 then show ?case using Cons.IH(1) by (auto split: if_splits) }
  { case 2
    show ?case
    proof (cases "fst x = key")
      case True
      with 2 have "x # es = [] @ (key, fst (snd x), snd (snd x)) # es" "q = p" by (cases x; simp)+
      then show ?thesis by (intro exI conjI) (assumption, simp_all)
    next
      case False
      with 2 Cons.IH(2) [of "p + length (enc x)"] obtain r v e t where
        "es = r @ (key, v, e) # t" "key \<notin> fst ` set r" "q = p + length (enc x) + length (encs r)"
        by auto
      with False show ?thesis by (intro exI [of _ "x # r"]) auto
    qed }
qed simp_all

text \<open>The two cases of a lookup in a represented map.\<close>

lemma lookup_cases:
  assumes "zm_rep zm es"
  obtains (absent) "key \<notin> fst ` set es" "zipmapLookupRaw zm key = Some None"
      "zipmapLookupRaw_total zm key = Some (None, length zm)"
  | (found) r v e t where "es = r @ (key, v, e) # t" "key \<notin> fst ` set r" "key \<notin> fst ` set t"
      "zipmapLookupRaw zm key = Some (Some (1 + length (encs r)))"
      "zipmapLookupRaw_total zm key = Some (Some (1 + length (encs r)), length zm)"
proof -
  from assms obtain c where zm: "zm = [c] @ encs es @ [255]" and e: "\<forall>x \<in> set es. length (snd (snd x)) < 4"
    and l: "length zm < 2 ^ 32" and d: "distinct (map fst es)"
    by (auto simp: zm_rep_def)
  have len: "length zm = 2 + length (encs es)" using zm by simp
  note lk = lookup_loop_encs [OF zm _ l e, of 1 key, simplified]
  have a: "zipmapLookupRaw zm key = Some (entry_offset 1 key es)"
    using lk(2) by (simp add: zipmapLookupRaw_def)
  have b: "zipmapLookupRaw_total zm key = Some (entry_offset 1 key es, length zm)"
    using lk(1) [of None] l len by (simp add: zipmapLookupRaw_total_def)
  show thesis
  proof (cases "entry_offset 1 key es")
    case None
    with a b entry_offset_split(1) show thesis by (intro absent) auto
  next
    case (Some q)
    from entry_offset_split(2) [OF this] obtain r v e t where
      "es = r @ (key, v, e) # t" "key \<notin> fst ` set r" "q = 1 + length (encs r)" by blast
    with a b Some d show thesis by (intro found [of r v e t]) auto
  qed
qed

lemma raw_lengths:
  assumes "zm = A @ enc (k, v, e) @ B" "p = length A" "length zm < 2 ^ 32" "length e < 256"
  shows "zipmapRawKeyLength zm p = Some (length (enc_len (length k)) + length k)"
    "zipmapRawValueLength zm (p + (length (enc_len (length k)) + length k)) =
      Some (length (enc_len (length v)) + (length e + 1 + length v))"
    "zipmapRawEntryLength zm p = Some (length (enc (k, v, e)))"
proof -
  note parts = enc_parts [OF assms]
  have l: "length (enc (k, v, e)) < 2 ^ 32" using assms(1,3) by simp
  show k: "zipmapRawKeyLength zm p = Some (length (enc_len (length k)) + length k)"
    using parts(3) l by (simp add: zipmapRawKeyLength_def length_enc_len enc_def)
  show v: "zipmapRawValueLength zm (p + (length (enc_len (length k)) + length k)) =
      Some (length (enc_len (length v)) + (length e + 1 + length v))"
    using parts(5-7) l
    by (simp add: zipmapRawValueLength_def length_enc_len enc_def Let_def add.assoc)
  show "zipmapRawEntryLength zm p = Some (length (enc (k, v, e)))"
    using k v l by (simp add: zipmapRawEntryLength_def enc_def add_ac)
qed

section \<open>Setting, deleting and reading refine the map operations\<close>

lemma split_length: "length x = a + b \<Longrightarrow> \<exists>u v. x = u @ v \<and> length u = a \<and> length v = b"
  by (intro exI [of _ "take a x"] exI [of _ "drop a x"]) simp

lemma poke_at:
  assumes "zm = A @ d @ B" "i = length A" "length d = length x"
  shows "poke zm i x = Some (A @ x @ B)"
  using assms by (simp add: poke_append)

lemma encode_write:
  assumes "zm = A @ x @ B" "length x = ZIPMAP_LEN_BYTES n" "p = length A"
  shows "zipmapEncodeLength zm p n = Some (A @ enc_len n @ B, ZIPMAP_LEN_BYTES n)"
proof (cases "n < 254")
  case True
  then have "poke zm p [of_nat n] = Some (A @ [of_nat n] @ B)"
    using assms by (simp add: poke_append ZIPMAP_LEN_BYTES_def zconsts)
  with True show ?thesis by (simp add: zipmapEncodeLength_def enc_len_def zconsts ZIPMAP_LEN_BYTES_def)
next
  case False
  with assms(2) obtain y ys where x: "x = [y] @ ys" "length ys = 4"
    by (cases x) (auto simp: ZIPMAP_LEN_BYTES_def zconsts)
  have "poke zm p [254] = Some ((A @ [254]) @ ys @ B)"
    using poke_append [of p A "[254]" "[y]" "ys @ B"] assms x by simp
  moreover have "poke ((A @ [254]) @ ys @ B) (p + 1) (le32_bytes (of_nat n)) =
      Some ((A @ [254]) @ le32_bytes (of_nat n) @ B)"
    using assms(3) x by (intro poke_append) simp_all
  ultimately show ?thesis
    using False by (simp add: zipmapEncodeLength_def enc_len_def zconsts ZIPMAP_LEN_BYTES_def)
qed

lemma write_entry_ok:
  assumes "zm = A @ x @ B" "p = length A" "length x = length (enc (key, val, e0))"
    "length e0 = vempty"
  shows "\<exists>e. length e = vempty \<and> write_entry zm p key val vempty = Some (A @ enc (key, val, e) @ B)"
proof -
  let ?lk = "enc_len (length key)" and ?lv = "enc_len (length val)"
  have "length x = ZIPMAP_LEN_BYTES (length key)
      + (length key + (ZIPMAP_LEN_BYTES (length val) + (1 + (length val + vempty))))"
    using assms(3,4) by (simp add: length_enc)
  from split_length [OF this] obtain x1 y1 where 1: "x = x1 @ y1" "length x1 = ZIPMAP_LEN_BYTES (length key)"
      "length y1 = length key + (ZIPMAP_LEN_BYTES (length val) + (1 + (length val + vempty)))"
    by blast
  from split_length [OF 1(3)] obtain x2 y2 where 2: "y1 = x2 @ y2" "length x2 = length key"
      "length y2 = ZIPMAP_LEN_BYTES (length val) + (1 + (length val + vempty))" by blast
  from split_length [OF 2(3)] obtain x3 y3 where 3: "y2 = x3 @ y3"
      "length x3 = ZIPMAP_LEN_BYTES (length val)" "length y3 = 1 + (length val + vempty)" by blast
  from split_length [OF 3(3)] obtain x4 y4 where 4: "y3 = x4 @ y4" "length x4 = 1"
      "length y4 = length val + vempty" by blast
  from split_length [OF 4(3)] obtain x5 e where 5: "y4 = x5 @ e" "length x5 = length val"
      "length e = vempty" by blast
  have x: "x = x1 @ x2 @ x3 @ x4 @ x5 @ e" "length x1 = ZIPMAP_LEN_BYTES (length key)"
      "length x2 = length key" "length x3 = ZIPMAP_LEN_BYTES (length val)" "length x4 = 1"
      "length x5 = length val" "length e = vempty"
    using 1 2 3 4 5 by simp_all
  define z1 where "z1 = A @ ?lk @ (x2 @ x3 @ x4 @ x5 @ e @ B)"
  have 1: "zipmapEncodeLength zm p (length key) = Some (z1, ZIPMAP_LEN_BYTES (length key))"
    using assms(1,2) x(1,2) unfolding z1_def by (intro encode_write) simp_all
  define z2 where "z2 = (A @ ?lk) @ key @ (x3 @ x4 @ x5 @ e @ B)"
  have 2: "poke z1 (p + ZIPMAP_LEN_BYTES (length key)) key = Some z2"
    unfolding z2_def by (rule poke_at [OF _ _ x(3)]) (simp_all add: z1_def length_enc_len assms(2))
  define z3 where "z3 = (A @ ?lk @ key) @ ?lv @ (x4 @ x5 @ e @ B)"
  have 3: "zipmapEncodeLength z2 (p + ZIPMAP_LEN_BYTES (length key) + length key) (length val)
      = Some (z3, ZIPMAP_LEN_BYTES (length val))"
    unfolding z3_def using assms(2) x(4)
    by (intro encode_write [where x = x3]) (simp_all add: z2_def length_enc_len)
  define z4 where "z4 = (A @ ?lk @ key @ ?lv) @ [of_nat vempty] @ (x5 @ e @ B)"
  have 4: "poke z3 (p + ZIPMAP_LEN_BYTES (length key) + length key + ZIPMAP_LEN_BYTES (length val))
      [of_nat vempty] = Some z4"
    unfolding z4_def using x(5)
    by (intro poke_at [of _ _ x4]) (simp_all add: z3_def length_enc_len assms(2))
  have 6: "poke z4 (p + ZIPMAP_LEN_BYTES (length key) + length key + ZIPMAP_LEN_BYTES (length val) + 1) val
      = Some (A @ enc (key, val, e) @ B)"
  proof -
    have "poke z4 (p + ZIPMAP_LEN_BYTES (length key) + length key + ZIPMAP_LEN_BYTES (length val) + 1) val
      = Some ((A @ ?lk @ key @ ?lv @ [of_nat vempty]) @ val @ (e @ B))"
      using x(6) by (intro poke_at [of _ _ x5]) (simp_all add: z4_def length_enc_len assms(2))
    then show ?thesis using x(7) by (simp add: enc_def)
  qed
  show ?thesis using 1 2 3 4 6 x(7) by (intro exI [of _ e]) (simp add: write_entry_def)
qed

text \<open>Growing moves the tail up, shrinking moves it down.\<close>

lemma resize_append: "zipmapResize g zm n = Some zm' \<Longrightarrow> zm' = butlast (realloc_buf g zm n) @ [255]"
  unfolding zipmapResize_def poke_def splice_def
  by (auto simp: ZIPMAP_END_def butlast_conv_take split: if_splits)

lemma resize_ok: "0 < n \<Longrightarrow> zipmapResize g zm n = Some (butlast (realloc_buf g zm n) @ [255])"
  unfolding zipmapResize_def poke_def splice_def
  by (simp add: ZIPMAP_END_def butlast_conv_take)

lemma resize_grow:
  assumes "n = length zm + k" "0 < k" "zm = A @ [255]"
  shows "\<exists>y. length y = k \<and> zipmapResize g zm n = Some (A @ y @ [255])"
proof -
  from realloc_grow [OF assms(1), of g] obtain x where x: "realloc_buf g zm n = zm @ x" "length x = k"
    by blast
  from x(2) assms(2) obtain x' w where "x = x' @ [w]" by (cases x rule: rev_cases) auto
  then have "butlast (realloc_buf g zm n) = A @ (255 # x')" "length (255 # x') = k"
    using x assms(3) by (simp_all add: butlast_append)
  then show ?thesis
    using resize_ok [of n g zm] assms(1,2) by (intro exI [of _ "255 # x'"]) simp
qed

lemma resize_shrink:
  assumes "zm = A @ W" "W \<noteq> []" "n = length A + 1"
  shows "zipmapResize g zm n = Some (A @ [255])"
proof -
  from assms(2) have "realloc_buf g zm n = take n zm"
    by (intro realloc_shrink) (cases W, auto simp: assms(1,3))
  with assms(2) have "butlast (realloc_buf g zm n) = A"
    by (cases W) (simp_all add: assms(1,3))
  with assms(3) show ?thesis using resize_ok [of n g zm] by simp
qed

lemma move_up:
  assumes "zm = A @ x @ T @ y @ [255]" "dst = length A + length x + length y" "src = length A + length x"
    "n = length T"
  shows "\<exists>x'. length x' = length x + length y \<and> bmove zm dst src n = Some (A @ x' @ T @ [255])"
proof -
  have "length (x @ T @ y) = (length x + length y) + length T" by simp
  from split_length [OF this] obtain u v where
    uv: "x @ T @ y = u @ v" "length u = length x + length y" "length v = length T" by blast
  have "zm = A @ (x @ T @ y) @ [255]" using assms(1) by simp
  then have zm: "zm = (A @ u) @ v @ [255]" by (simp only: uv(1) append_assoc)
  have "peek zm src n = Some T"
    using peek_append [of src "A @ x" n T "y @ [255]"] assms by simp
  moreover have "poke zm dst T = Some ((A @ u) @ T @ [255])"
    using uv(2,3) assms(2) by (intro poke_at [OF zm]) simp_all
  ultimately show ?thesis using uv(2) by (intro exI [of _ u]) (simp add: bmove_def)
qed

lemma move_down:
  assumes "zm = A @ x @ y @ T @ [255]" "dst = length A + length x" "src = length A + length x + length y"
    "n = length T" "m = length zm - length y"
  shows "\<exists>z. bmove zm dst src n = Some z \<and> zipmapResize g z m = Some (A @ x @ T @ [255])"
proof -
  have "length (y @ T @ [255]) = length T + (length y + 1)" by simp
  from split_length [OF this] obtain u v where
    uv: "y @ T @ [255] = u @ v" "length u = length T" "length v = length y + 1" by blast
  have zm: "zm = (A @ x) @ u @ v" using assms(1) uv(1) by simp
  have "peek zm src n = Some T"
    using peek_append [of src "A @ x @ y" n T "[255]"] assms by simp
  moreover have "poke zm dst T = Some ((A @ x) @ T @ v)"
    using uv(2) assms(2) by (intro poke_at [OF zm]) simp_all
  moreover have "zipmapResize g ((A @ x) @ T @ v) m = Some ((A @ x @ T) @ [255])"
    using uv(3) assms(1,5) by (intro resize_shrink [of _ _ v]) auto
  ultimately show ?thesis by (simp add: bmove_def)
qed

lemma shrink_block_ok:
  assumes "zm = A @ x @ B @ [255]" "p = length A" "free = length x" "zmlen = length zm" "req \<le> free"
  shows "\<exists>x' e. shrink_block g zm p free zmlen req = Some (A @ x' @ B @ [255], e)
    \<and> length x' = req + e \<and> e < 4 \<and> length x' \<le> length x"
proof (cases "free - req \<ge> 4")
  case False
  with assms show ?thesis
    by (intro exI [of _ x] exI [of _ "free - req"]) (simp add: shrink_block_def Let_def zconsts)
next
  case True
  have "length x = req + (free - req)" using assms(3,5) by simp
  from split_length [OF this] obtain u v where uv: "x = u @ v" "length u = req" "length v = free - req"
    by blast
  have "\<exists>z. bmove zm (p + req) (p + free) (zmlen - (p + free + 1)) = Some z
      \<and> zipmapResize g z (zmlen - (free - req)) = Some (A @ u @ B @ [255])"
    using assms uv by (intro move_down [of _ A u v B]) simp_all
  with True uv show ?thesis
    by (intro exI [of _ u] exI [of _ 0]) (auto simp: shrink_block_def Let_def zconsts)
qed

definition count_ok :: "u8 \<Rightarrow> nat \<Rightarrow> bool" where
  "count_ok c n \<longleftrightarrow> unat c \<le> 254 \<and> (unat c < 254 \<longrightarrow> unat c = n)"

lemma count_ok_inc: "count_ok c n \<Longrightarrow> unat c < 254 \<Longrightarrow> count_ok (c + 1) (Suc n)"
  by (auto simp: count_ok_def unat_word_ariths)

lemma count_ok_dec:
  assumes "count_ok c (Suc n)" "unat c < 254" shows "count_ok (c - 1) n"
proof -
  have "c \<noteq> 0" using assms by (auto simp: count_ok_def)
  then have "unat (c - 1) = unat c - 1" by (simp add: unat_minus_one)
  with assms show ?thesis by (auto simp: count_ok_def)
qed

lemma required_length: "length (enc (key, val, [])) < 2 ^ 32 \<Longrightarrow>
    zipmapRequiredLength (length key) (length val) = length (enc (key, val, []))"
  by (auto simp: zipmapRequiredLength_def length_enc ZIPMAP_LEN_BYTES_def zconsts w32_def)

lemma zm_repI:
  assumes "zm = c # encs es @ [255]" "count_ok c (length es)" "\<forall>x \<in> set es. length (snd (snd x)) < 4"
    "distinct (map fst es)" "length zm < 2 ^ 32"
  shows "zm_rep zm es"
  using assms by (auto simp: zm_rep_def count_ok_def)

lemma zm_repE:
  assumes "zm_rep zm es"
  obtains c where "zm = c # encs es @ [255]" "count_ok c (length es)" "\<forall>x \<in> set es. length (snd (snd x)) < 4"
    "distinct (map fst es)" "length zm < 2 ^ 32"
  using assms by (auto simp: zm_rep_def count_ok_def)

lemma set_block_ok:
  assumes "zm_rep zm es" "req = length (enc (key, val, []))" "length zm + req < 2 ^ 32"
  shows "\<exists>c r t x upd. set_block g zm key req =
      Some (c # encs r @ x @ encs t @ [255], 1 + length (encs r), length x,
            length (c # encs r @ x @ encs t @ [255]), upd)
    \<and> req \<le> length x \<and> length (c # encs r @ x @ encs t @ [255]) \<le> length zm + req
    \<and> count_ok c (Suc (length r + length t)) \<and> key \<notin> fst ` set r \<and> key \<notin> fst ` set t
    \<and> (if upd then \<exists>v e. es = r @ (key, v, e) # t else es = r \<and> t = [] \<and> key \<notin> fst ` set es)"
  using assms(1)
proof (cases rule: lookup_cases [where key = key, consumes 1, case_names absent found])
  case absent
  from assms(1) obtain c where zm: "zm = c # encs es @ [255]" "count_ok c (length es)"
    "length zm < 2 ^ 32" by (auto elim: zm_repE)
  have req: "0 < req" using assms(2) by (simp add: length_enc)
  obtain y where y: "length y = req" "zipmapResize g zm (length zm + req) = Some ((c # encs es) @ y @ [255])"
    using resize_grow [of "length zm + req" zm req "c # encs es" g] req zm(1) by auto
  define c' where "c' = (if unat c < 254 then c + 1 else c)"
  have "count_ok c' (Suc (length es))"
    using zm(2) count_ok_inc [OF zm(2)] by (auto simp: c'_def count_ok_def)
  moreover have "(if unat c < ZIPMAP_BIGLEN then poke (c # encs es @ y @ [255]) 0 [c + 1]
      else Some (c # encs es @ y @ [255])) = Some (c' # encs es @ y @ [255])"
    by (simp add: c'_def zconsts poke_def splice_def)
  ultimately show ?thesis
    using absent y assms(3) zm(1)
    by (intro exI [of _ c'] exI [of _ es] exI [of _ "[]"] exI [of _ y] exI [of _ False])
       (simp add: set_block_def rd_def)
next
  case (found r v e t)
  from assms(1) obtain c where zm: "zm = c # encs es @ [255]" "count_ok c (length es)"
    "\<forall>x \<in> set es. length (snd (snd x)) < 4" "length zm < 2 ^ 32" by (auto elim: zm_repE)
  let ?x = "enc (key, v, e)" and ?A = "c # encs r"
  have zm': "zm = ?A @ ?x @ (encs t @ [255])" using zm(1) found(1) by simp
  have e4: "length e < 256" using zm(3) found(1) by auto
  have free: "zipmapRawEntryLength zm (1 + length (encs r)) = Some (length ?x)"
    using raw_lengths(3) [OF zm' _ zm(4) e4] by simp
  have cnt: "count_ok c (Suc (length r + length t))" using zm(2) found(1) by simp
  show ?thesis
  proof (cases "length ?x < req")
    case False
    with found free cnt zm' show ?thesis
      by (intro exI [of _ c] exI [of _ r] exI [of _ t] exI [of _ ?x] exI [of _ True])
         (auto simp: set_block_def)
  next
    case True
    define n where "n = length zm - length ?x + req"
    have n: "n = length zm + (req - length ?x)" "n < 2 ^ 32"
      using True zm' assms(3) by (simp_all add: n_def)
    obtain y where y: "length y = req - length ?x"
        "zipmapResize g zm n = Some ((?A @ ?x @ encs t) @ y @ [255])"
      using resize_grow [OF n(1), of "?A @ ?x @ encs t" g] True zm' by auto
    obtain x' where x': "length x' = length ?x + length y"
        "bmove ((?A @ ?x @ encs t) @ y @ [255]) (1 + length (encs r) + req)
          (1 + length (encs r) + length ?x) (length zm - (1 + length (encs r) + length ?x + 1))
          = Some (?A @ x' @ encs t @ [255])"
      using move_up [of "(?A @ ?x @ encs t) @ y @ [255]" ?A ?x "encs t" y
          "1 + length (encs r) + req" "1 + length (encs r) + length ?x"
          "length zm - (1 + length (encs r) + length ?x + 1)"] y(1) True zm' by auto
    have "set_block g zm key req = Some (?A @ x' @ encs t @ [255], 1 + length (encs r), req, n, True)"
      using found(5) free True y(2) x'(2) n(2) by (simp add: set_block_def n_def [symmetric])
    moreover have "n = length (?A @ x' @ encs t @ [255])" "length x' = req"
      using x'(1) y(1) True zm' by (simp_all add: n_def)
    ultimately show ?thesis
      using found cnt True zm'
      by (intro exI [of _ c] exI [of _ r] exI [of _ t] exI [of _ x'] exI [of _ True]) auto
  qed
qed

lemma map_of_entries:
  "key \<notin> fst ` set r \<Longrightarrow> map_of (map (\<lambda>(k, v, e). (k, v)) (r @ (key, v, e) # t)) key = Some v"
  "k' \<noteq> key \<Longrightarrow> map_of (map (\<lambda>(k, v, e). (k, v)) (r @ (key, v, e) # t)) k' =
     map_of (map (\<lambda>(k, v, e). (k, v)) (r @ t)) k'"
  by (induction r) auto

lemma zm_abs_dom: "zm_abs es key = None \<longleftrightarrow> key \<notin> fst ` set es"
  by (induction es) (auto simp: zm_abs_def)

lemma zm_abs_insert:
  assumes "key \<notin> fst ` set r"
  shows "zm_abs (r @ (key, val, e) # t) = (zm_abs (r @ t))(key \<mapsto> val)"
  using map_of_entries(1) [OF assms] map_of_entries(2) [of _ key r val e t]
  by (auto simp: zm_abs_def fun_eq_iff)

lemma zm_abs_remove:
  assumes "key \<notin> fst ` set r" "key \<notin> fst ` set t"
  shows "zm_abs (r @ t) = (zm_abs (r @ (key, v, e) # t))(key := None)"
proof -
  have "zm_abs (r @ t) key = None" using assms by (auto simp: zm_abs_dom)
  then show ?thesis using map_of_entries(2) [of _ key r v e t] by (auto simp: zm_abs_def fun_eq_iff)
qed

lemma zipmapSet_ok:
  assumes "zm_rep zm es" "length zm + length (enc (key, val, [])) < 2 ^ 32"
  shows "\<exists>zm' es'. zipmapSet g zm key val = Some (zm', zm_abs es key \<noteq> None)
    \<and> zm_rep zm' es' \<and> zm_abs es' = (zm_abs es)(key \<mapsto> val)
    \<and> length zm' \<le> length zm + length (enc (key, val, []))
    \<and> length es' = (if zm_abs es key = None then Suc (length es) else length es)"
proof -
  define req where "req = length (enc (key, val, []))"
  have req: "zipmapRequiredLength (length key) (length val) = req"
    using assms(2) unfolding req_def by (intro required_length) simp
  from set_block_ok [OF assms(1) req_def, of g] assms(2)
  obtain c r t x upd where sb: "set_block g zm key req =
      Some (c # encs r @ x @ encs t @ [255], 1 + length (encs r), length x,
            length (c # encs r @ x @ encs t @ [255]), upd)"
    "req \<le> length x" "length (c # encs r @ x @ encs t @ [255]) \<le> length zm + req"
    "count_ok c (Suc (length r + length t))" "key \<notin> fst ` set r" "key \<notin> fst ` set t"
    "if upd then \<exists>v e. es = r @ (key, v, e) # t else es = r \<and> t = [] \<and> key \<notin> fst ` set es"
    unfolding req_def by blast
  obtain x' e where sh: "shrink_block g (c # encs r @ x @ encs t @ [255]) (1 + length (encs r))
      (length x) (length (c # encs r @ x @ encs t @ [255])) req =
      Some (c # encs r @ x' @ encs t @ [255], e)" "length x' = req + e" "e < 4" "length x' \<le> length x"
    using shrink_block_ok [of "c # encs r @ x @ encs t @ [255]" "c # encs r" x "encs t"
        "1 + length (encs r)" "length x" _ req g] sb(2) by auto
  have "length x' = length (enc (key, val, replicate e 0))"
    using sh(2) by (simp add: req_def length_enc)
  then obtain e' where we: "length e' = e" "write_entry (c # encs r @ x' @ encs t @ [255])
      (1 + length (encs r)) key val e = Some (c # encs r @ enc (key, val, e') @ encs t @ [255])"
    using write_entry_ok [of "c # encs r @ x' @ encs t @ [255]" "c # encs r" x' "encs t @ [255]"
        "1 + length (encs r)" key val "replicate e 0" e] by auto
  let ?es = "r @ (key, val, e') # t" and ?zm = "c # encs (r @ (key, val, e') # t) @ [255]"
  have set: "zipmapSet g zm key val = Some (?zm, upd)"
    using sb(1) sh(1) we(2) by (simp add: zipmapSet_def req)
  have le: "length ?zm \<le> length zm + req"
    using sb(3) sh(2,4) we(1) by (simp add: req_def length_enc)
  from assms(1) have es: "\<forall>x \<in> set es. length (snd (snd x)) < 4" "distinct (map fst es)"
    by (auto elim: zm_repE)
  have "distinct (map fst ?es)"
  proof (cases upd)
    case True
    with sb(7) have "map fst ?es = map fst es" by auto
    with es(2) show ?thesis by (simp only:)
  next
    case False
    with sb(7) es(2) show ?thesis by auto
  qed
  moreover have "\<forall>x \<in> set (r @ t). length (snd (snd x)) < 4"
    using es(1) sb(7) by (cases upd) auto
  then have "\<forall>x \<in> set ?es. length (snd (snd x)) < 4" using we(1) sh(3) by auto
  moreover have "length ?zm < 2 ^ 32" using le assms(2) by (simp only: req_def)
  ultimately have rep: "zm_rep ?zm ?es"
    using sb(4) by (intro zm_repI [of _ c]) simp_all
  have upd: "zm_abs ?es = (zm_abs es)(key \<mapsto> val) \<and> upd = (zm_abs es key \<noteq> None)
      \<and> length ?es = (if zm_abs es key = None then Suc (length es) else length es)"
  proof (cases upd)
    case True
    with sb(7) obtain v e where "es = r @ (key, v, e) # t" by auto
    with True sb(5) show ?thesis by (simp add: zm_abs_insert)
  next
    case False
    with sb(7) have "es = r" "t = []" "zm_abs es key = None" by (auto simp: zm_abs_dom)
    with False sb(5) show ?thesis by (simp add: zm_abs_insert del: fun_upd_apply)
  qed
  show ?thesis
    by (intro exI [of _ ?zm] exI [of _ ?es] conjI)
       (use set rep upd le in \<open>simp_all only: req_def\<close>)
qed

lemma zipmapDel_ok:
  assumes "zm_rep zm es"
  shows "\<exists>zm' es'. zipmapDel g zm key = Some (zm', zm_abs es key \<noteq> None)
    \<and> zm_rep zm' es' \<and> zm_abs es' = (zm_abs es)(key := None) \<and> length zm' \<le> length zm"
  using assms
proof (cases rule: lookup_cases [where key = key, consumes 1, case_names absent found])
  case absent
  then show ?thesis using assms
    by (intro exI [of _ zm] exI [of _ es]) (auto simp: zipmapDel_def zm_abs_dom [symmetric])
next
  case (found r v e t)
  from assms obtain c where zm: "zm = c # encs es @ [255]" "count_ok c (length es)"
    "\<forall>x \<in> set es. length (snd (snd x)) < 4" "distinct (map fst es)" "length zm < 2 ^ 32"
    by (auto elim: zm_repE)
  let ?x = "enc (key, v, e)"
  have zm': "zm = (c # encs r) @ ?x @ (encs t @ [255])" using zm(1) found(1) by simp
  have e4: "length e < 256" using zm(3) found(1) by auto
  have free: "zipmapRawEntryLength zm (1 + length (encs r)) = Some (length ?x)"
    using raw_lengths(3) [OF zm' _ zm(5) e4] by simp
  obtain z where z: "bmove zm (1 + length (encs r)) (1 + length (encs r) + length ?x)
      (length zm - (1 + length (encs r) + length ?x + 1)) = Some z"
    "zipmapResize g z (length zm - length ?x) = Some (c # encs r @ encs t @ [255])"
    using move_down [of zm "c # encs r" "[]" ?x "encs t" "1 + length (encs r)"
        "1 + length (encs r) + length ?x" "length zm - (1 + length (encs r) + length ?x + 1)"
        "length zm - length ?x" g] zm' by auto
  define c' where "c' = (if unat c < 254 then c - 1 else c)"
  have c': "count_ok c' (length (r @ t))"
    using zm(2) found(1) count_ok_dec [of c "length (r @ t)"] by (auto simp: c'_def count_ok_def)
  have "(if unat c < ZIPMAP_BIGLEN then poke (c # encs r @ encs t @ [255]) 0 [c - 1]
      else Some (c # encs r @ encs t @ [255])) = Some (c' # encs (r @ t) @ [255])"
    by (simp add: c'_def zconsts poke_def splice_def)
  then have "zipmapDel g zm key = Some (c' # encs (r @ t) @ [255], True)"
    using found(5) free z by (simp add: zipmapDel_def rd_def)
  moreover have "zm_rep (c' # encs (r @ t) @ [255]) (r @ t)"
    using c' zm(3-5) zm' found(1) by (intro zm_repI) auto
  moreover have "zm_abs (r @ t) = (zm_abs es)(key := None)"
    using zm_abs_remove [OF found(2,3)] found(1) by simp
  moreover have "zm_abs es key \<noteq> None" using found(1) by (auto simp: zm_abs_dom)
  ultimately show ?thesis using zm' by (intro exI [of _ "c' # encs (r @ t) @ [255]"] exI [of _ "r @ t"]) simp
qed

lemma zipmapGet_ok:
  assumes "zm_rep zm es"
  shows "zipmapGet zm key = Some (zm_abs es key)
    \<and> zipmapExists zm key = Some (zm_abs es key \<noteq> None)"
  using assms
proof (cases rule: lookup_cases [where key = key, consumes 1, case_names absent found])
  case absent
  then have "zm_abs es key = None" by (simp add: zm_abs_dom)
  with absent show ?thesis by (simp add: zipmapGet_def zipmapExists_def)
next
  case (found r v e t)
  from assms obtain c where zm: "zm = c # encs es @ [255]"
    "\<forall>x \<in> set es. length (snd (snd x)) < 4" "length zm < 2 ^ 32"
    by (auto elim: zm_repE)
  have zm': "zm = (c # encs r) @ enc (key, v, e) @ (encs t @ [255])" using zm(1) found(1) by simp
  have e4: "length e < 256" using zm(2) found(1) by auto
  have abs: "zm_abs es key = Some v"
    using map_of_entries(1) [OF found(2)] found(1) by (simp add: zm_abs_def)
  note p = enc_parts [OF zm' _ zm(3) e4, of "1 + length (encs r)", simplified]
    raw_lengths [OF zm' _ zm(3) e4, of "1 + length (encs r)", simplified]
  show ?thesis
    using p found(4) abs by (simp add: zipmapGet_def zipmapExists_def length_enc_len add_ac)
qed

lemma zipmap_pairs_ok:
  assumes "zm = A @ encs es @ [255]" "p = length A" "length zm < 2 ^ 32"
    "\<forall>x \<in> set es. length (snd (snd x)) < 4"
  shows "zipmap_pairs zm p = Some (map (\<lambda>(k, v, e). (k, v)) es)"
  using assms
proof (induction es arbitrary: A p)
  case Nil
  then have "zipmapNext zm p = Some None" by (simp add: zipmapNext_def ZIPMAP_END_def)
  then show ?case by (subst zipmap_pairs.simps) simp
next
  case (Cons x es)
  obtain k v e where x: "x = (k, v, e)" by (cases x)
  have zm: "zm = A @ enc (k, v, e) @ (encs es @ [255])" using Cons.prems(1) x by simp
  have e4: "length e < 256" using Cons.prems(4) x by simp
  note p = enc_parts [OF zm Cons.prems(2,3) e4] raw_lengths [OF zm Cons.prems(2,3) e4]
  have "rd zm p = Some (zm ! p)" "zm ! p \<noteq> 255" using p(1,2) by (simp_all add: rd_def)
  then have "zipmapNext zm p = Some (Some (p + length (enc (k, v, e)), k, v))"
    using p(3-11) by (simp add: zipmapNext_def ZIPMAP_END_def length_enc_len length_enc add_ac)
  moreover have "zipmap_pairs zm (p + length (enc x)) = Some (map (\<lambda>(k, v, e). (k, v)) es)"
    using Cons.prems by (intro Cons.IH [of "A @ enc x"]) simp_all
  ultimately show ?case using x by (subst zipmap_pairs.simps) simp
qed

lemma zipmap_pairs_Nil: "zipmap_pairs zm p = Some [] \<Longrightarrow> zipmapNext zm p = Some None"
  by (subst (asm) zipmap_pairs.simps) (auto split: option.splits Option.bind_splits)

lemma zipmap_pairs_Cons:
  assumes "zipmap_pairs zm p = Some ((k, v) # ps)"
  obtains p' where "zipmapNext zm p = Some (Some (p', k, v))" "zipmap_pairs zm p' = Some ps"
  using assms by (subst (asm) zipmap_pairs.simps) (auto split: option.splits Option.bind_splits)

lemma length_encs_le: "length es \<le> length (encs es)"
proof (induction es)
  case (Cons x es)
  then show ?case by (cases x) (simp add: length_enc)
qed simp

lemma count_loop_ok:
  assumes "zm = A @ encs es @ [255]" "p = length A" "length zm < 2 ^ 32"
    "\<forall>x \<in> set es. length (snd (snd x)) < 4" "n + length es < 2 ^ 32"
  shows "count_loop zm p n = Some (n + length es)"
  using assms
proof (induction es arbitrary: A p n)
  case Nil
  then show ?case by (subst count_loop.simps) (simp add: ZIPMAP_END_def)
next
  case (Cons x es)
  obtain k v e where x: "x = (k, v, e)" by (cases x)
  have zm: "zm = A @ enc (k, v, e) @ (encs es @ [255])" using Cons.prems(1) x by simp
  have e4: "length e < 256" using Cons.prems(4) x by simp
  note p = enc_parts(1,2) [OF zm Cons.prems(2,3) e4] raw_lengths [OF zm Cons.prems(2,3) e4]
  have "count_loop zm (p + length (enc x)) (n + 1) = Some (n + 1 + length es)"
    using Cons.prems by (intro Cons.IH [of "A @ enc x"]) simp_all
  then show ?case
    using p x Cons.prems(5)
    by (subst count_loop.simps) (simp add: ZIPMAP_END_def length_enc_len length_enc add_ac)
qed

lemma zipmapLen_ok:
  assumes "zm_rep zm es"
  shows "\<exists>zm'. zipmapLen zm = Some (length es, zm') \<and> zm_rep zm' es"
proof -
  from assms obtain c where zm: "zm = [c] @ encs es @ [255]" "count_ok c (length es)"
    "\<forall>x \<in> set es. length (snd (snd x)) < 4" "distinct (map fst es)" "length zm < 2 ^ 32"
    by (auto elim: zm_repE)
  have n: "length es < 2 ^ 32" using length_encs_le [of es] zm(1,5) by simp
  show ?thesis
  proof (cases "unat c < 254")
    case True
    with zm(1,2) assms show ?thesis
      by (intro exI [of _ zm]) (simp add: zipmapLen_def rd_def zconsts count_ok_def)
  next
    case False
    have cl: "count_loop zm 1 0 = Some (length es)"
      using count_loop_ok [OF zm(1) _ zm(5,3), of 1 0] n by simp
    define c' where "c' = (if length es < 254 then of_nat (length es) else c)"
    have "zipmapLen zm = Some (length es, [c'] @ encs es @ [255])"
      using False cl zm(1) by (simp add: zipmapLen_def rd_def zconsts zipmapRewind_def c'_def poke_def splice_def)
    moreover have "count_ok c' (length es)"
      using zm(2) False of_nat_byte [of "length es"] by (auto simp: c'_def count_ok_def)
    then have "zm_rep ([c'] @ encs es @ [255]) es"
      using zm by (intro zm_repI) simp_all
    ultimately show ?thesis by blast
  qed
qed

lemma zipmapNew_ok: "\<exists>zm. zipmapNew g = Some zm \<and> zm_rep zm [] \<and> length zm = 2"
  by (simp add: zipmapNew_def malloc_buf_def poke_def splice_def ZIPMAP_END_def zm_rep_def upt_rec)

text \<open>The zipmap is a key-value store.\<close>

definition zm_store :: "bytes \<Rightarrow> (bytes \<Rightarrow> bytes option) \<Rightarrow> bool" where
  "zm_store zm m \<longleftrightarrow> (\<exists>es. zm_rep zm es \<and> m = zm_abs es)"

lemma zm_storeI: "zm_rep zm es \<Longrightarrow> zm_abs es = m \<Longrightarrow> zm_store zm m"
  by (auto simp: zm_store_def)

definition entry_cost :: "bytes \<Rightarrow> bytes \<Rightarrow> nat" where
  "entry_cost k v = length (enc (k, v, []))"

text \<open>\<open>zipmapGet\<close> leaves the map as it is.\<close>

definition zm_get :: "bytes \<Rightarrow> bytes \<Rightarrow> (bytes \<times> bytes option) option" where
  "zm_get zm key = map_option (Pair zm) (zipmapGet zm key)"

interpretation zipmap: kv_store zm_store zm_get "zipmapSet g" "zipmapDel g" length entry_cost "2 ^ 32"
  for g
proof (unfold_locales, goal_cases)
  case (1 s m k)
  then show ?case by (auto simp: zm_store_def zm_get_def zipmapGet_ok)
next
  case (2 s m k v)
  then obtain es where "zm_rep s es" "m = zm_abs es" by (auto simp: zm_store_def)
  with zipmapSet_ok [of s es k v g] 2(2) show ?case by (auto simp: entry_cost_def intro: zm_storeI)
next
  case (3 s m k)
  then obtain es where "zm_rep s es" "m = zm_abs es" by (auto simp: zm_store_def)
  with zipmapDel_ok [of s es g k] show ?case by (auto intro: zm_storeI)
qed

section \<open>Properties\<close>

text \<open>C10: any sequence of \<open>zipmapSet\<close>, \<open>zipmapDel\<close> and \<open>zipmapGet\<close> on a new zipmap answers as a
  map from byte strings to byte strings does, and never leaves the block, as long as the encoded
  entries set stay below \<open>2 ^ 32\<close> bytes; keys and values of any length, the 254-byte boundary
  and the reuse of free space included.\<close>

theorem zipmap_runs_as_map:
  assumes "zipmapNew g = Some zm"
    and "2 + sum_list (map (op_cost (\<lambda>k v. length (enc (k, v, [])))) ops) < 2 ^ 32"
  shows "run_store zm_get (zipmapSet g) (zipmapDel g) zm ops = Some (run_map (\<lambda>_. None) ops)"
proof -
  from zipmapNew_ok [of g] assms(1) have "zm_rep zm []" "length zm = 2" by auto
  moreover have "zm_abs [] = (\<lambda>_. None)" by (simp add: zm_abs_def)
  ultimately show ?thesis
    using assms(2) by (intro zipmap.run_rep [of zm]) (auto simp: entry_cost_def [abs_def] intro: zm_storeI)
qed

lemma zm_rep_pairs:
  assumes "zm_rep zm es"
  shows "\<exists>zm' ps. zipmapLen zm = Some (length ps, zm') \<and> zm_rep zm' es
    \<and> zipmap_pairs zm zipmapRewind = Some ps \<and> distinct (map fst ps)
    \<and> (\<forall>key. zipmapGet zm key = Some (map_of ps key))"
proof -
  let ?ps = "map (\<lambda>(k, v, e). (k, v)) es"
  from assms obtain c where zm: "zm = [c] @ encs es @ [255]" "length zm < 2 ^ 32"
    "\<forall>x \<in> set es. length (snd (snd x)) < 4" "distinct (map fst es)"
    by (auto elim: zm_repE)
  from zipmap_pairs_ok [OF zm(1) _ zm(2,3), of 1]
  have "zipmap_pairs zm zipmapRewind = Some ?ps" by (simp add: zipmapRewind_def)
  moreover have "map fst ?ps = map fst es" by (induction es) auto
  with zm(4) have "distinct (map fst ?ps)" by (simp only:)
  moreover obtain zm' where "zipmapLen zm = Some (length ?ps, zm')" "zm_rep zm' es"
    using zipmapLen_ok [OF assms] by auto
  ultimately show ?thesis
    using zipmapGet_ok [OF assms] by (auto simp: zm_abs_def)
qed

text \<open>On a well-formed zipmap, whose count byte is either exact or saturated at 254,
  \<open>zipmapLen\<close> returns the number of entries and leaves the count byte exact when it can be, the
  traversal by \<open>zipmapNext\<close> returns every entry once in the order of the block, and these entries
  are what \<open>zipmapGet\<close> finds.\<close>

theorem zipmapLen_traversal:
  assumes "zm_rep zm es"
  shows "\<exists>zm' ps. zipmapLen zm = Some (length ps, zm') \<and> zm_rep zm' es
    \<and> zipmap_pairs zm zipmapRewind = Some ps \<and> distinct (map fst ps)
    \<and> (\<forall>key. zipmapGet zm key = Some (map_of ps key))"
  by (rule zm_rep_pairs [OF assms])

text \<open>C31: setting a key in a well-formed zipmap succeeds while the block stays below \<open>2 ^ 32\<close>
  bytes, tells whether the key was there, keeps the block well-formed with one entry more exactly
  when it was not, and never leaves four free bytes after a value.\<close>

theorem zipmapSet_wellformed:
  assumes "zm_rep zm es" "length zm + length (enc (key, val, [])) < 2 ^ 32"
  shows "\<exists>zm' es'. zipmapSet g zm key val = Some (zm', key \<in> fst ` set es) \<and> zm_rep zm' es'
    \<and> (\<forall>x \<in> set es'. length (snd (snd x)) < 4)
    \<and> (\<forall>k. zipmapGet zm' k = Some (if k = key then Some val else zm_abs es k))
    \<and> length es' = (if key \<in> fst ` set es then length es else Suc (length es))"
proof -
  from zipmapSet_ok [OF assms, of g] obtain zm' es' where r:
    "zipmapSet g zm key val = Some (zm', zm_abs es key \<noteq> None)" "zm_rep zm' es'"
    "zm_abs es' = (zm_abs es)(key \<mapsto> val)"
    "length es' = (if zm_abs es key = None then Suc (length es) else length es)"
    by blast
  from r(2) have "\<forall>x \<in> set es'. length (snd (snd x)) < 4" by (auto elim: zm_repE)
  with r zipmapGet_ok [OF r(2)] show ?thesis
    by (intro exI [of _ zm'] exI [of _ es']) (simp add: zm_abs_dom)
qed

section \<open>Concrete maps\<close>

text \<open>The map \<open>"foo" \<mapsto> "bar"\<close> of the comment in the source.\<close>

definition ex_zm :: bytes where
  "ex_zm = [1, 3, 102, 111, 111, 3, 0, 98, 97, 114, 255]"

lemma ex_zm_rep: "zm_rep ex_zm [([102, 111, 111], [98, 97, 114], [])]"
  by (simp add: zm_rep_def ex_zm_def enc_def enc_len_def)

theorem zipmap_runs_as_map_witness:
  "\<exists>zm. zipmapNew (\<lambda>_. 0) = Some zm \<and>
    run_store zm_get (zipmapSet (\<lambda>_. 0)) (zipmapDel (\<lambda>_. 0)) zm
      [KSet [102] [98, 97], KSet [102] [], KGet [102], KDel [102], KGet [102]] =
    Some [Updated False, Updated True, Value (Some []), Deleted True, Value None]"
proof -
  obtain zm where zm: "zipmapNew (\<lambda>_. 0) = Some zm" using zipmapNew_ok by blast
  from zipmap_runs_as_map [OF zm, of "[KSet [102] [98, 97], KSet [102] [], KGet [102], KDel [102], KGet [102]]"]
  show ?thesis using zm by (simp add: length_enc ZIPMAP_LEN_BYTES_def zconsts)
qed

theorem zipmapLen_traversal_witness:
  "\<exists>zm'. zipmapLen ex_zm = Some (1, zm') \<and> zipmapGet ex_zm [102, 111, 111] = Some (Some [98, 97, 114])"
proof -
  from zipmapLen_traversal [OF ex_zm_rep] obtain zm' ps where
    r: "zipmapLen ex_zm = Some (length (ps :: (bytes \<times> bytes) list), zm')" "zm_rep zm' [([102, 111, 111], [98, 97, 114], [])]"
    by blast
  from zipmapGet_ok [OF ex_zm_rep] have "zipmapGet ex_zm [102, 111, 111] = Some (Some [98, 97, 114])"
    by (simp add: zm_abs_def)
  with r zipmapLen_ok [OF ex_zm_rep] show ?thesis by auto
qed

theorem zipmapSet_wellformed_witness:
  "\<exists>zm'. zipmapSet (\<lambda>_. 0) ex_zm [102, 111, 111] [120] = Some (zm', True)
    \<and> zipmapGet zm' [102, 111, 111] = Some (Some [120])"
  using zipmapSet_wellformed [OF ex_zm_rep, of "[102, 111, 111]" "[120]" "\<lambda>_. 0"]
  by (force simp: ex_zm_def length_enc ZIPMAP_LEN_BYTES_def zconsts)

end
