(* ===== verification/Dict.thy ===== *)
theory Dict
  imports Prelude Kv_Store "HOL-Library.Multiset"
begin

text \<open>
  \<open>apps/redis-2.0.4/dict.c\<close> and \<open>dict.h\<close>: the chained hash table of Redis with its incremental
  rehashing. A bucket is the list of the entries of its chain, head first; an access to a bucket
  outside the table is \<open>None\<close>. Keys and values are what the pointers stand for, so duplicating
  and comparing them are functions of the dictionary type, and the calls of the destructors are
  logged. Sizes and counters are natural numbers; the conversions the code makes to \<open>int\<close> and
  \<open>unsigned int\<close> are written out. The global \<open>dict_can_resize\<close> is an argument.
\<close>

record ('k, 'v) dictType =
  hashFunction :: "'k \<Rightarrow> u32"
  keyDup :: "('k \<Rightarrow> 'k) option"
  valDup :: "('v \<Rightarrow> 'v) option"
  keyCompare :: "('k \<Rightarrow> 'k \<Rightarrow> bool) option"
  keyDestructor :: bool
  valDestructor :: bool

record ('k, 'v) dictht =
  table :: "('k \<times> 'v) list list"
  size_of :: nat
  sizemask :: nat
  used :: nat

datatype ('k, 'v) destroyed = DestroyedKey 'k | DestroyedVal 'v

record ('k, 'v) dict =
  dtype :: "('k, 'v) dictType"
  ht0 :: "('k, 'v) dictht"
  ht1 :: "('k, 'v) dictht"
  rehashidx :: int
  iterators :: int
  destroyed :: "('k, 'v) destroyed list"

definition DICT_OK :: int where "DICT_OK = 0"
definition DICT_ERR :: int where "DICT_ERR = 1"
definition DICT_HT_INITIAL_SIZE :: nat where "DICT_HT_INITIAL_SIZE = 4"
definition dict_force_resize_ratio :: nat where "dict_force_resize_ratio = 5"
definition LONG_MAX :: nat where "LONG_MAX = 2 ^ 63 - 1"

section \<open>Hash functions\<close>

definition dictIntHashFunction :: "u32 \<Rightarrow> u32" where
  "dictIntHashFunction key0 =
     (let key1 = key0 + NOT (push_bit 15 key0);
          key2 = key1 XOR drop_bit 10 key1;
          key3 = key2 + push_bit 3 key2;
          key4 = key3 XOR drop_bit 6 key3;
          key5 = key4 + NOT (push_bit 11 key4)
      in key5 XOR drop_bit 16 key5)"

definition dictIdentityHashFunction :: "u32 \<Rightarrow> u32" where
  "dictIdentityHashFunction key = key"

fun hash_loop :: "u32 \<Rightarrow> bytes \<Rightarrow> u32" where
  "hash_loop hash [] = hash"
| "hash_loop hash (c # cs) = hash_loop ((push_bit 5 hash + hash) + ucast c) cs"

definition dictGenHashFunction :: "bytes \<Rightarrow> u32" where
  "dictGenHashFunction b = hash_loop 5381 b"

section \<open>The macros of the header\<close>

definition dictSetHashKey :: "('k, 'v) dict \<Rightarrow> 'k \<Rightarrow> 'k" where
  "dictSetHashKey d k = (case keyDup (dtype d) of Some f \<Rightarrow> f k | None \<Rightarrow> k)"

definition dictSetHashVal :: "('k, 'v) dict \<Rightarrow> 'v \<Rightarrow> 'v" where
  "dictSetHashVal d v = (case valDup (dtype d) of Some f \<Rightarrow> f v | None \<Rightarrow> v)"

definition dictFreeEntryKey :: "('k, 'v) dict \<Rightarrow> 'k \<Rightarrow> ('k, 'v) dict" where
  "dictFreeEntryKey d k =
     (if keyDestructor (dtype d) then d\<lparr>destroyed := destroyed d @ [DestroyedKey k]\<rparr> else d)"

definition dictFreeEntryVal :: "('k, 'v) dict \<Rightarrow> 'v \<Rightarrow> ('k, 'v) dict" where
  "dictFreeEntryVal d v =
     (if valDestructor (dtype d) then d\<lparr>destroyed := destroyed d @ [DestroyedVal v]\<rparr> else d)"

definition dictCompareHashKeys :: "('k, 'v) dict \<Rightarrow> 'k \<Rightarrow> 'k \<Rightarrow> bool" where
  "dictCompareHashKeys d k k' = (case keyCompare (dtype d) of Some f \<Rightarrow> f k k' | None \<Rightarrow> k = k')"

definition dictHashKey :: "('k, 'v) dict \<Rightarrow> 'k \<Rightarrow> nat" where
  "dictHashKey d k = unat (hashFunction (dtype d) k)"

definition dictSize :: "('k, 'v) dict \<Rightarrow> nat" where
  "dictSize d = used (ht0 d) + used (ht1 d)"

definition dictSlots :: "('k, 'v) dict \<Rightarrow> nat" where
  "dictSlots d = size_of (ht0 d) + size_of (ht1 d)"

definition dictIsRehashing :: "('k, 'v) dict \<Rightarrow> bool" where
  "dictIsRehashing d \<longleftrightarrow> rehashidx d \<noteq> - 1"

definition bucket :: "('k, 'v) dictht \<Rightarrow> nat \<Rightarrow> ('k \<times> 'v) list option" where
  "bucket t i = (if i < length (table t) then Some (table t ! i) else None)"

definition set_bucket :: "nat \<Rightarrow> ('k \<times> 'v) list \<Rightarrow> ('k, 'v) dictht \<Rightarrow> ('k, 'v) dictht" where
  "set_bucket i c t = t\<lparr>table := (table t)[i := c]\<rparr>"

section \<open>Creation and expansion\<close>

definition dictReset :: "('k, 'v) dictht" where
  "dictReset = \<lparr>table = [], size_of = 0, sizemask = 0, used = 0\<rparr>"

definition dictInit :: "('k, 'v) dictType \<Rightarrow> ('k, 'v) dict" where
  "dictInit ty = \<lparr>dtype = ty, ht0 = dictReset, ht1 = dictReset, rehashidx = - 1, iterators = 0,
                  destroyed = []\<rparr>"

definition dictCreate :: "('k, 'v) dictType \<Rightarrow> ('k, 'v) dict" where
  "dictCreate ty = dictInit ty"

text \<open>The loop starts from a positive \<open>i\<close>, so it doubles until it has reached \<open>size\<close>.\<close>

function next_power :: "nat \<Rightarrow> nat \<Rightarrow> nat" where
  "next_power i sz = (if i \<ge> sz \<or> i = 0 then i else next_power (i * 2) sz)"
  by pat_completeness auto
termination by (relation "measure (\<lambda>(i, sz). sz - i)") auto

declare next_power.simps [simp del]

definition dictNextPower :: "nat \<Rightarrow> nat" where
  "dictNextPower sz =
     (if sz \<ge> LONG_MAX then LONG_MAX else next_power DICT_HT_INITIAL_SIZE sz)"

definition dictExpand :: "('k, 'v) dict \<Rightarrow> nat \<Rightarrow> int \<times> ('k, 'v) dict" where
  "dictExpand d sz =
     (let realsize = dictNextPower sz in
      if dictIsRehashing d \<or> used (ht0 d) > sz then (DICT_ERR, d)
      else
        let n = \<lparr>table = replicate realsize [], size_of = realsize, sizemask = realsize - 1, used = 0\<rparr>
        in if table (ht0 d) = [] then (DICT_OK, d\<lparr>ht0 := n\<rparr>)
           else (DICT_OK, d\<lparr>ht1 := n, rehashidx := 0\<rparr>))"

definition dictResize :: "bool \<Rightarrow> ('k, 'v) dict \<Rightarrow> int \<times> ('k, 'v) dict" where
  "dictResize can_resize d =
     (if \<not> can_resize \<or> dictIsRehashing d then (DICT_ERR, d)
      else
        let minimal = signed_take_bit 31 (int (used (ht0 d)));
            minimal' = (if minimal < int DICT_HT_INITIAL_SIZE then int DICT_HT_INITIAL_SIZE else minimal)
        in dictExpand d (nat minimal'))"

definition dictExpandIfNeeded :: "bool \<Rightarrow> ('k, 'v) dict \<Rightarrow> int \<times> ('k, 'v) dict" where
  "dictExpandIfNeeded can_resize d =
     (if dictIsRehashing d then (DICT_OK, d)
      else if size_of (ht0 d) = 0 then dictExpand d DICT_HT_INITIAL_SIZE
      else if used (ht0 d) \<ge> size_of (ht0 d)
           \<and> (can_resize \<or> used (ht0 d) div size_of (ht0 d) > dict_force_resize_ratio)
      then dictExpand d ((if size_of (ht0 d) > used (ht0 d) then size_of (ht0 d) else used (ht0 d)) * 2)
      else (DICT_OK, d))"

section \<open>Incremental rehashing\<close>

text \<open>\<open>rehashidx\<close> is an \<open>int\<close>: behind \<open>INT_MAX\<close> it is negative, and no index of a table.\<close>

function skip_empty :: "('k \<times> 'v) list list \<Rightarrow> nat \<Rightarrow> nat option" where
  "skip_empty tbl i =
     (if i < length tbl \<and> i < 2 ^ 31 then (if tbl ! i = [] then skip_empty tbl (i + 1) else Some i) else None)"
  by pat_completeness auto
termination by (relation "measure (\<lambda>(tbl, i). length tbl - i)") auto

declare skip_empty.simps [simp del]

text \<open>Moving a chain, entry by entry, to the heads of the buckets of the new table.\<close>

fun move_chain :: "('k \<times> 'v) list \<Rightarrow> ('k, 'v) dict \<Rightarrow> ('k, 'v) dict option" where
  "move_chain [] d = Some d"
| "move_chain (de # rest) d =
     (let h = dictHashKey d (fst de) AND sizemask (ht1 d) in
      case bucket (ht1 d) h of
        None \<Rightarrow> None
      | Some c \<Rightarrow>
          move_chain rest
            (d\<lparr>ht1 := (set_bucket h (de # c) (ht1 d))\<lparr>used := used (ht1 d) + 1\<rparr>,
               ht0 := (ht0 d)\<lparr>used := used (ht0 d) - 1\<rparr>\<rparr>))"

fun rehash_loop :: "nat \<Rightarrow> ('k, 'v) dict \<Rightarrow> (int \<times> ('k, 'v) dict) option" where
  "rehash_loop 0 d = Some (1, d)"
| "rehash_loop (Suc n) d =
     (if used (ht0 d) = 0
      then Some (0, d\<lparr>ht0 := ht1 d, ht1 := dictReset, rehashidx := - 1\<rparr>)
      else do {
        i \<leftarrow> (if rehashidx d < 0 then None else skip_empty (table (ht0 d)) (nat (rehashidx d)));
        d1 \<leftarrow> move_chain (table (ht0 d) ! i) d;
        rehash_loop n (d1\<lparr>ht0 := set_bucket i [] (ht0 d1), rehashidx := signed_take_bit 31 (int i + 1)\<rparr>) })"

definition dictRehash :: "('k, 'v) dict \<Rightarrow> nat \<Rightarrow> (int \<times> ('k, 'v) dict) option" where
  "dictRehash d n = (if \<not> dictIsRehashing d then Some (0, d) else rehash_loop n d)"

definition dictRehashStep :: "('k, 'v) dict \<Rightarrow> ('k, 'v) dict option" where
  "dictRehashStep d = (if iterators d = 0 then map_option snd (dictRehash d 1) else Some d)"

text \<open>
  \<open>dictRehashMilliseconds\<close>: the clock readings after each batch are an argument; the loop ends at
  the latest when it has none left to compare.
\<close>

fun rehash_ms_loop :: "('k, 'v) dict \<Rightarrow> int \<Rightarrow> int \<Rightarrow> int list \<Rightarrow> int \<Rightarrow> (int \<times> ('k, 'v) dict) option" where
  "rehash_ms_loop d start ms clock rehashes =
     (case dictRehash d 100 of
        None \<Rightarrow> None
      | Some (r, d') \<Rightarrow>
          if r = 0 then Some (rehashes, d')
          else (case clock of
              [] \<Rightarrow> Some (rehashes + 100, d')
            | now # clock' \<Rightarrow>
                if now - start > ms then Some (rehashes + 100, d')
                else rehash_ms_loop d' start ms clock' (rehashes + 100)))"

definition dictRehashMilliseconds :: "('k, 'v) dict \<Rightarrow> int \<Rightarrow> int \<Rightarrow> int list \<Rightarrow> (int \<times> ('k, 'v) dict) option" where
  "dictRehashMilliseconds d ms start clock = rehash_ms_loop d start ms clock 0"

section \<open>Lookup, insertion, deletion\<close>

text \<open>The chain of a key in one table.\<close>

definition chain :: "('k, 'v) dict \<Rightarrow> ('k, 'v) dictht \<Rightarrow> 'k \<Rightarrow> (nat \<times> ('k \<times> 'v) list) option" where
  "chain d t key = do {
     let idx = dictHashKey d key AND sizemask t;
     he \<leftarrow> bucket t idx;
     Some (idx, he) }"

definition in_chain :: "('k, 'v) dict \<Rightarrow> 'k \<Rightarrow> ('k \<times> 'v) list \<Rightarrow> bool" where
  "in_chain d key he = list_ex (\<lambda>e. dictCompareHashKeys d key (fst e)) he"

text \<open>\<open>_dictKeyIndex\<close> returns the slot as an \<open>int\<close>, -1 when the key is there already.\<close>

definition dictKeyIndex :: "bool \<Rightarrow> ('k, 'v) dict \<Rightarrow> 'k \<Rightarrow> (int \<times> ('k, 'v) dict) option" where
  "dictKeyIndex can_resize d0 key =
     (let (r, d) = dictExpandIfNeeded can_resize d0 in
      if r = DICT_ERR then Some (- 1, d)
      else do {
        (idx, he) \<leftarrow> chain d (ht0 d) key;
        if in_chain d key he then Some (- 1, d)
        else if \<not> dictIsRehashing d then Some (signed_take_bit 31 (int idx), d)
        else do {
          (idx', he') \<leftarrow> chain d (ht1 d) key;
          if in_chain d key he' then Some (- 1, d)
          else Some (signed_take_bit 31 (int idx'), d) } })"

definition dictAdd :: "bool \<Rightarrow> ('k, 'v) dict \<Rightarrow> 'k \<Rightarrow> 'v \<Rightarrow> (int \<times> ('k, 'v) dict) option" where
  "dictAdd can_resize d0 key val = do {
     d1 \<leftarrow> (if dictIsRehashing d0 then dictRehashStep d0 else Some d0);
     (index, d) \<leftarrow> dictKeyIndex can_resize d1 key;
     if index = - 1 then Some (DICT_ERR, d)
     else if index < 0 then None
     else do {
       let ht = (if dictIsRehashing d then ht1 d else ht0 d);
       c \<leftarrow> bucket ht (nat index);
       let ht' = (set_bucket (nat index) ((dictSetHashKey d key, dictSetHashVal d val) # c) ht)
                   \<lparr>used := used ht + 1\<rparr>;
       Some (DICT_OK, if dictIsRehashing d then d\<lparr>ht1 := ht'\<rparr> else d\<lparr>ht0 := ht'\<rparr>) } }"

text \<open>\<open>dictFind\<close>: the entry found, as its table, its slot and its position in the chain.\<close>

fun chain_pos :: "('k, 'v) dict \<Rightarrow> 'k \<Rightarrow> ('k \<times> 'v) list \<Rightarrow> nat option" where
  "chain_pos d key [] = None"
| "chain_pos d key (e # he) =
     (if dictCompareHashKeys d key (fst e) then Some 0 else map_option Suc (chain_pos d key he))"

definition find_entry :: "('k, 'v) dict \<Rightarrow> 'k \<Rightarrow> (bool \<times> nat \<times> nat) option option" where
  "find_entry d key = do {
     (idx, he) \<leftarrow> chain d (ht0 d) key;
     case chain_pos d key he of
       Some j \<Rightarrow> Some (Some (False, idx, j))
     | None \<Rightarrow>
         if \<not> dictIsRehashing d then Some None
         else do {
           (idx', he') \<leftarrow> chain d (ht1 d) key;
           Some (map_option (\<lambda>j. (True, idx', j)) (chain_pos d key he')) } }"

definition dictFind :: "('k, 'v) dict \<Rightarrow> 'k \<Rightarrow> ((bool \<times> nat \<times> nat) option \<times> ('k, 'v) dict) option" where
  "dictFind d0 key =
     (if size_of (ht0 d0) = 0 then Some (None, d0)
      else do {
        d \<leftarrow> (if dictIsRehashing d0 then dictRehashStep d0 else Some d0);
        r \<leftarrow> find_entry d key;
        Some (r, d) })"

definition entry_at :: "('k, 'v) dict \<Rightarrow> bool \<times> nat \<times> nat \<Rightarrow> 'k \<times> 'v" where
  "entry_at d p = (case p of (second, i, j) \<Rightarrow> table (if second then ht1 d else ht0 d) ! i ! j)"

definition dictFetchValue :: "('k, 'v) dict \<Rightarrow> 'k \<Rightarrow> ('v option \<times> ('k, 'v) dict) option" where
  "dictFetchValue d key = do {
     (r, d') \<leftarrow> dictFind d key;
     Some (map_option (\<lambda>p. snd (entry_at d' p)) r, d') }"

definition set_val :: "bool \<times> nat \<times> nat \<Rightarrow> 'v \<Rightarrow> ('k, 'v) dict \<Rightarrow> ('k, 'v) dict" where
  "set_val p v d = (case p of (second, i, j) \<Rightarrow>
     let t = (if second then ht1 d else ht0 d);
         t' = set_bucket i ((table t ! i)[j := (fst (table t ! i ! j), v)]) t
     in if second then d\<lparr>ht1 := t'\<rparr> else d\<lparr>ht0 := t'\<rparr>)"

text \<open>The result is 1 when the key was added; a key that \<open>dictFind\<close> does not find is a fault.\<close>

definition dictReplace :: "bool \<Rightarrow> ('k, 'v) dict \<Rightarrow> 'k \<Rightarrow> 'v \<Rightarrow> (int \<times> ('k, 'v) dict) option" where
  "dictReplace can_resize d key val = do {
     (r, d1) \<leftarrow> dictAdd can_resize d key val;
     if r = DICT_OK then Some (1, d1)
     else do {
       (p, d2) \<leftarrow> dictFind d1 key;
       entry \<leftarrow> p;
       let old = snd (entry_at d2 entry);
       Some (0, dictFreeEntryVal (set_val entry (dictSetHashVal d2 val) d2) old) } }"

definition unlink :: "('k, 'v) dict \<Rightarrow> bool \<times> nat \<times> nat \<Rightarrow> ('k, 'v) dict" where
  "unlink d p = (case p of (second, i, j) \<Rightarrow>
     let t = (if second then ht1 d else ht0 d);
         c = table t ! i;
         t' = (set_bucket i (take j c @ drop (Suc j) c) t)\<lparr>used := used t - 1\<rparr>
     in if second then d\<lparr>ht1 := t'\<rparr> else d\<lparr>ht0 := t'\<rparr>)"

definition dictGenericDelete :: "('k, 'v) dict \<Rightarrow> 'k \<Rightarrow> bool \<Rightarrow> (int \<times> ('k, 'v) dict) option" where
  "dictGenericDelete d0 key nofree =
     (if size_of (ht0 d0) = 0 then Some (DICT_ERR, d0)
      else do {
        d \<leftarrow> (if dictIsRehashing d0 then dictRehashStep d0 else Some d0);
        r \<leftarrow> find_entry d key;
        case r of
          None \<Rightarrow> Some (DICT_ERR, d)
        | Some p \<Rightarrow>
            let (k, v) = entry_at d p;
                d1 = unlink d p;
                d2 = (if nofree then d1 else dictFreeEntryVal (dictFreeEntryKey d1 k) v)
            in Some (DICT_OK, d2) })"

definition dictDelete :: "('k, 'v) dict \<Rightarrow> 'k \<Rightarrow> (int \<times> ('k, 'v) dict) option" where
  "dictDelete d key = dictGenericDelete d key False"

definition dictDeleteNoFree :: "('k, 'v) dict \<Rightarrow> 'k \<Rightarrow> (int \<times> ('k, 'v) dict) option" where
  "dictDeleteNoFree d key = dictGenericDelete d key True"

section \<open>Iterating, clearing, random entries\<close>

text \<open>
  An iterator: the entry returned last and the chain from its successor, which \<open>dictNext\<close> saves so
  that the caller may delete the entry. The loop of \<open>dictNext\<close> moves to the next bucket while the
  bucket is empty; \<open>None\<close> is an access outside a table.
\<close>

record ('k, 'v) dictIterator =
  itable :: nat
  iindex :: int
  ientry :: "('k \<times> 'v) option"
  inext :: "('k \<times> 'v) list"

definition dictGetIterator :: "('k, 'v) dictIterator" where
  "dictGetIterator = \<lparr>itable = 0, iindex = - 1, ientry = None, inext = []\<rparr>"

text \<open>
  The choice of the chain to look at, in one turn of the loop (\<open>None\<close> is the \<open>break\<close>). The index is an
  \<open>int\<close>, and so is the size it is compared with, \<open>(signed) ht->size\<close>.
\<close>

definition next_chain :: "('k, 'v) dictIterator \<Rightarrow> ('k, 'v) dict
    \<Rightarrow> (('k \<times> 'v) list option \<times> ('k, 'v) dictIterator \<times> ('k, 'v) dict) option" where
  "next_chain it d =
     (if ientry it = None then
        let d' = (if iindex it = - 1 \<and> itable it = 0 then d\<lparr>iterators := iterators d + 1\<rparr> else d);
            index = signed_take_bit 31 (iindex it + 1);
            ht = (if itable it = 0 then ht0 d' else ht1 d')
        in if index \<ge> signed_take_bit 31 (int (size_of ht)) then
             (if dictIsRehashing d' \<and> itable it = 0
              then do { c \<leftarrow> bucket (ht1 d') 0; Some (Some c, it\<lparr>itable := 1, iindex := 0\<rparr>, d') }
              else Some (None, it\<lparr>iindex := index\<rparr>, d'))
           else do {
             c \<leftarrow> (if index < 0 then None else bucket ht (nat index));
             Some (Some c, it\<lparr>iindex := index\<rparr>, d') }
      else Some (Some (inext it), it, d))"

partial_function (option) dictNext :: "('k, 'v) dictIterator \<Rightarrow> ('k, 'v) dict
    \<Rightarrow> (('k \<times> 'v) option \<times> ('k, 'v) dictIterator \<times> ('k, 'v) dict) option" where
  "dictNext it d =
     (case next_chain it d of
        None \<Rightarrow> None
      | Some (None, it', d') \<Rightarrow> Some (None, it', d')
      | Some (Some [], it', d') \<Rightarrow> dictNext (it'\<lparr>ientry := None\<rparr>) d'
      | Some (Some (e # rest), it', d') \<Rightarrow> Some (Some e, it'\<lparr>ientry := Some e, inext := rest\<rparr>, d'))"

text \<open>The loop of a caller: the entries \<open>dictNext\<close> returns until NULL.\<close>

partial_function (option) dict_collect :: "('k, 'v) dictIterator \<Rightarrow> ('k, 'v) dict
    \<Rightarrow> (('k \<times> 'v) list \<times> ('k, 'v) dictIterator \<times> ('k, 'v) dict) option" where
  "dict_collect it d =
     (case dictNext it d of
        None \<Rightarrow> None
      | Some (None, it', d') \<Rightarrow> Some ([], it', d')
      | Some (Some e, it', d') \<Rightarrow>
          do { (es, it'', d'') \<leftarrow> dict_collect it' d'; Some (e # es, it'', d'') })"

definition dictReleaseIterator :: "('k, 'v) dictIterator \<Rightarrow> ('k, 'v) dict \<Rightarrow> ('k, 'v) dict" where
  "dictReleaseIterator it d =
     (if \<not> (iindex it = - 1 \<and> itable it = 0) then d\<lparr>iterators := iterators d - 1\<rparr> else d)"

text \<open>
  \<open>dictGetRandomKey\<close>: the values of \<open>random()\<close> are an argument; \<open>None\<close> when they run out before a
  bucket that is not empty is hit.
\<close>

fun random_bucket :: "('k, 'v) dict \<Rightarrow> nat list \<Rightarrow> (('k \<times> 'v) list \<times> nat list) option" where
  "random_bucket d [] = None"
| "random_bucket d (r # rs) =
     (case (if dictIsRehashing d
            then let h = (r mod dictSlots d) mod 2 ^ 32 in
                 (if h \<ge> size_of (ht0 d) then bucket (ht1 d) (h - size_of (ht0 d)) else bucket (ht0 d) h)
            else bucket (ht0 d) ((r AND sizemask (ht0 d)) mod 2 ^ 32)) of
        None \<Rightarrow> None
      | Some [] \<Rightarrow> random_bucket d rs
      | Some he \<Rightarrow> Some (he, rs))"

definition dictGetRandomKey :: "('k, 'v) dict \<Rightarrow> nat list
    \<Rightarrow> (('k \<times> 'v) option \<times> ('k, 'v) dict) option" where
  "dictGetRandomKey d0 rs =
     (if dictSize d0 = 0 then Some (None, d0)
      else do {
        d \<leftarrow> (if dictIsRehashing d0 then dictRehashStep d0 else Some d0);
        (he, rs') \<leftarrow> random_bucket d rs;
        case rs' of
          [] \<Rightarrow> None
        | r # _ \<Rightarrow> Some (Some (he ! (r mod length he)), d) })"

text \<open>\<open>_dictClear\<close> stops as soon as no entry is left.\<close>

fun free_chain :: "('k \<times> 'v) list \<Rightarrow> ('k, 'v) dict \<Rightarrow> ('k, 'v) dict" where
  "free_chain [] d = d"
| "free_chain ((k, v) # he) d = free_chain he (dictFreeEntryVal (dictFreeEntryKey d k) v)"

fun clear_loop :: "('k \<times> 'v) list list \<Rightarrow> nat \<Rightarrow> ('k, 'v) dict \<Rightarrow> ('k, 'v) dict" where
  "clear_loop [] n d = d"
| "clear_loop (c # cs) n d =
     (if n > 0 then clear_loop cs (n - length c) (free_chain c d) else d)"

definition dictClear :: "bool \<Rightarrow> ('k, 'v) dict \<Rightarrow> ('k, 'v) dict" where
  "dictClear second d =
     (let t = (if second then ht1 d else ht0 d);
          d' = clear_loop (table t) (used t) d
      in if second then d'\<lparr>ht1 := dictReset\<rparr> else d'\<lparr>ht0 := dictReset\<rparr>)"

text \<open>\<open>dictRelease\<close>: what is left is the log of the destructors.\<close>

definition dictRelease :: "('k, 'v) dict \<Rightarrow> ('k, 'v) destroyed list" where
  "dictRelease d = destroyed (dictClear True (dictClear False d))"

definition dictEmpty :: "('k, 'v) dict \<Rightarrow> ('k, 'v) dict" where
  "dictEmpty d = (dictClear True (dictClear False d))\<lparr>rehashidx := - 1, iterators := 0\<rparr>"

definition dictEnableResize :: bool where "dictEnableResize = True"
definition dictDisableResize :: bool where "dictDisableResize = False"

section \<open>The string dictionary types\<close>

text \<open>Keys and values are C strings, given by their bytes before the terminator.\<close>

definition dictTypeHeapStringCopyKey :: "(bytes, 'v) dictType" where
  "dictTypeHeapStringCopyKey = \<lparr>hashFunction = dictGenHashFunction, keyDup = Some (\<lambda>k. k), valDup = None,
     keyCompare = Some (\<lambda>k k'. k = k'), keyDestructor = True, valDestructor = False\<rparr>"

definition dictTypeHeapStrings :: "(bytes, 'v) dictType" where
  "dictTypeHeapStrings = \<lparr>hashFunction = dictGenHashFunction, keyDup = None, valDup = None,
     keyCompare = Some (\<lambda>k k'. k = k'), keyDestructor = True, valDestructor = False\<rparr>"

definition dictTypeHeapStringCopyKeyValue :: "(bytes, bytes) dictType" where
  "dictTypeHeapStringCopyKeyValue = \<lparr>hashFunction = dictGenHashFunction, keyDup = Some (\<lambda>k. k),
     valDup = Some (\<lambda>v. v), keyCompare = Some (\<lambda>k k'. k = k'), keyDestructor = True, valDestructor = True\<rparr>"

section \<open>Well-formed tables\<close>

definition plain_type :: "('k, 'v) dictType \<Rightarrow> bool" where
  "plain_type ty \<longleftrightarrow> (\<forall>k. (case keyDup ty of Some f \<Rightarrow> f k | None \<Rightarrow> k) = k)
     \<and> (\<forall>v. (case valDup ty of Some f \<Rightarrow> f v | None \<Rightarrow> v) = v)
     \<and> (\<forall>k k'. (case keyCompare ty of Some f \<Rightarrow> f k k' | None \<Rightarrow> k = k') \<longleftrightarrow> k = k')"

text \<open>Tables of up to \<open>2 ^ 30\<close> buckets: those of twice the size overflow the \<open>int\<close>s that index them.\<close>

definition ht_wf :: "('k \<Rightarrow> nat) \<Rightarrow> ('k, 'v) dictht \<Rightarrow> bool" where
  "ht_wf H t \<longleftrightarrow> length (table t) = size_of t \<and> used t = length (concat (table t))
     \<and> (size_of t = 0 \<and> sizemask t = 0 \<or> (\<exists>k\<le>30. size_of t = 2 ^ k \<and> sizemask t = 2 ^ k - 1))
     \<and> (\<forall>i < size_of t. \<forall>e \<in> set (table t ! i). H (fst e) AND sizemask t = i)"

definition rehash_wf :: "('k, 'v) dict \<Rightarrow> bool" where
  "rehash_wf d \<longleftrightarrow>
     (if rehashidx d = - 1 then ht1 d = dictReset
      else 0 \<le> rehashidx d \<and> rehashidx d \<le> int (size_of (ht0 d)) \<and> 0 < size_of (ht0 d) \<and> 0 < size_of (ht1 d)
        \<and> (\<forall>i < nat (rehashidx d). i < size_of (ht0 d) \<longrightarrow> table (ht0 d) ! i = []))"

definition dict_wf :: "('k, 'v) dict \<Rightarrow> bool" where
  "dict_wf d \<longleftrightarrow> plain_type (dtype d) \<and> ht_wf (dictHashKey d) (ht0 d) \<and> ht_wf (dictHashKey d) (ht1 d)
     \<and> rehash_wf d"

definition entries :: "('k, 'v) dict \<Rightarrow> ('k \<times> 'v) multiset" where
  "entries d = mset (concat (table (ht0 d))) + mset (concat (table (ht1 d)))"

definition dict_rep :: "('k, 'v) dict \<Rightarrow> ('k \<Rightarrow> 'v option) \<Rightarrow> bool" where
  "dict_rep d m \<longleftrightarrow> dict_wf d \<and> finite (dom m) \<and> entries d = mset_set (Map.graph m)"

lemma plain_simps:
  assumes "plain_type (dtype d)"
  shows "dictSetHashKey d k = k" "dictSetHashVal d v = v" "dictCompareHashKeys d k k' \<longleftrightarrow> k = k'"
  using assms by (auto simp: plain_type_def dictSetHashKey_def dictSetHashVal_def dictCompareHashKeys_def)

lemma and_sizemask:
  assumes "ht_wf H t" "size_of t \<noteq> 0"
  shows "n AND sizemask t < size_of t" "size_of t \<le> 2 ^ 30"
proof -
  from assms obtain k where k: "k \<le> 30" "size_of t = 2 ^ k" "sizemask t = 2 ^ k - 1"
    by (auto simp: ht_wf_def)
  have "n AND (2 ^ k - 1) = n mod 2 ^ k" for n :: nat
    by (simp only: take_bit_eq_mask [symmetric] mask_eq_exp_minus_1 [symmetric] take_bit_eq_mod)
  with k show "n AND sizemask t < size_of t" by simp
  from k(1,2) show "size_of t \<le> 2 ^ 30" by (simp only: power_increasing)
qed

lemma table_size: "ht_wf H t \<Longrightarrow> size_of t \<le> 2 ^ 30"
  using and_sizemask(2) [of H t] by (cases "size_of t = 0") simp_all

lemma mset_concat_update:
  "i < length xs \<Longrightarrow> mset (concat (xs[i := c])) + mset (xs ! i) = mset (concat xs) + mset c"
  by (induction xs arbitrary: i) (auto split: nat.splits simp: ac_simps)

lemma length_concat_update:
  "i < length xs \<Longrightarrow> length (concat (xs[i := c])) + length (xs ! i) = length (concat xs) + length c"
  using arg_cong [OF mset_concat_update [of i xs c], of size] by simp

lemma set_bucket_used: "set_bucket i c (t\<lparr>used := n\<rparr>) = (set_bucket i c t)\<lparr>used := n\<rparr>"
  by (cases t) (simp add: set_bucket_def)

lemma ht_wf_set_bucket:
  assumes "ht_wf H t" "i < size_of t" "\<forall>e \<in> set c. H (fst e) AND sizemask t = i"
    "n + length (table t ! i) = used t + length c"
  shows "ht_wf H ((set_bucket i c t)\<lparr>used := n\<rparr>)"
proof -
  have "n = length (concat ((table t)[i := c]))"
    using length_concat_update [of i "table t" c] assms by (simp add: ht_wf_def)
  then show ?thesis
    using assms by (auto simp: ht_wf_def set_bucket_def nth_list_update)
qed

lemma bucket_of_key:
  assumes "ht_wf H t" "size_of t \<noteq> 0"
  shows "bucket t (H k AND sizemask t) = Some (table t ! (H k AND sizemask t))"
    "(k, v) \<in> set (table t ! (H k AND sizemask t)) \<longleftrightarrow> (k, v) \<in> set (concat (table t))"
proof -
  have b: "H k AND sizemask t < length (table t)"
    using and_sizemask(1) [OF assms, of "H k"] assms(1) by (simp add: ht_wf_def)
  then show "bucket t (H k AND sizemask t) = Some (table t ! (H k AND sizemask t))"
    by (simp add: bucket_def)
  show "(k, v) \<in> set (table t ! (H k AND sizemask t)) \<longleftrightarrow> (k, v) \<in> set (concat (table t))"
  proof
    assume "(k, v) \<in> set (table t ! (H k AND sizemask t))"
    with b show "(k, v) \<in> set (concat (table t))" by auto
  next
    assume "(k, v) \<in> set (concat (table t))"
    then obtain c where "c \<in> set (table t)" "(k, v) \<in> set c" by auto
    then obtain i where "i < length (table t)" "table t ! i = c" by (auto simp: in_set_conv_nth)
    with assms(1) \<open>(k, v) \<in> set c\<close> have "H k AND sizemask t = i" by (force simp: ht_wf_def)
    with \<open>table t ! i = c\<close> \<open>(k, v) \<in> set c\<close> show "(k, v) \<in> set (table t ! (H k AND sizemask t))" by simp
  qed
qed

lemma ht_wf_reset [simp]: "ht_wf H dictReset" "table dictReset = []" "size_of dictReset = 0"
  by (simp_all add: ht_wf_def dictReset_def)

section \<open>Rehashing keeps the entries\<close>

lemma skip_empty_ok:
  assumes "i \<le> j" "j < length tbl" "tbl ! j \<noteq> []" "length tbl \<le> 2 ^ 31"
  shows "\<exists>l. skip_empty tbl i = Some l \<and> i \<le> l \<and> l < length tbl \<and> tbl ! l \<noteq> []
    \<and> (\<forall>n. i \<le> n \<and> n < l \<longrightarrow> tbl ! n = [])"
  using assms
proof (induction "j - i" arbitrary: i)
  case 0
  then show ?case by (intro exI [of _ j]) (subst skip_empty.simps, auto)
next
  case (Suc k)
  show ?case
  proof (cases "tbl ! i = []")
    case True
    have "k = j - Suc i" "Suc i \<le> j" using Suc.hyps(2) by linarith+
    from Suc.hyps(1) [OF this(1) this(2) Suc.prems(2-4)] obtain l where
      "skip_empty tbl (Suc i) = Some l" "Suc i \<le> l" "l < length tbl" "tbl ! l \<noteq> []"
      "\<forall>n. Suc i \<le> n \<and> n < l \<longrightarrow> tbl ! n = []" by blast
    moreover from this(5) True have "\<forall>n. i \<le> n \<and> n < l \<longrightarrow> tbl ! n = []"
      by (metis Suc_leI le_neq_implies_less)
    moreover have "skip_empty tbl i = skip_empty tbl (Suc i)"
      using True Suc.prems by (subst skip_empty.simps) simp
    ultimately show ?thesis by auto
  next
    case False
    with Suc.prems Suc.hyps(2) show ?thesis
      by (intro exI [of _ i]) (subst skip_empty.simps, auto)
  qed
qed

lemma move_chain_ok:
  assumes "ht_wf (dictHashKey d) (ht1 d)" "size_of (ht1 d) \<noteq> 0"
  shows "\<exists>t. move_chain c d = Some (d\<lparr>ht1 := t, ht0 := (ht0 d)\<lparr>used := used (ht0 d) - length c\<rparr>\<rparr>)
    \<and> ht_wf (dictHashKey d) t \<and> size_of t = size_of (ht1 d)
    \<and> mset (concat (table t)) = mset c + mset (concat (table (ht1 d)))"
  using assms
proof (induction c arbitrary: d)
  case Nil
  then show ?case by (intro exI [of _ "ht1 d"]) simp
next
  case (Cons de c)
  let ?h = "dictHashKey d (fst de) AND sizemask (ht1 d)"
  let ?t = "(set_bucket ?h (de # table (ht1 d) ! ?h) (ht1 d))\<lparr>used := used (ht1 d) + 1\<rparr>"
  let ?d = "d\<lparr>ht1 := ?t, ht0 := (ht0 d)\<lparr>used := used (ht0 d) - 1\<rparr>\<rparr>"
  have h: "?h < size_of (ht1 d)" using and_sizemask [OF Cons.prems] by simp
  have H: "dictHashKey ?d = dictHashKey d" by (simp add: dictHashKey_def fun_eq_iff)
  have "\<forall>e \<in> set (table (ht1 d) ! ?h). dictHashKey d (fst e) AND sizemask (ht1 d) = ?h"
    using Cons.prems(1) h by (auto simp: ht_wf_def)
  then have wf: "ht_wf (dictHashKey d) ?t"
    using Cons.prems(1) h by (intro ht_wf_set_bucket) auto
  have "mset (concat (table ?t)) = {#de#} + mset (concat (table (ht1 d)))"
    using mset_concat_update [of ?h "table (ht1 d)" "de # table (ht1 d) ! ?h"] h Cons.prems(1)
    by (simp add: set_bucket_def ht_wf_def)
  moreover obtain t where "move_chain c ?d = Some (?d\<lparr>ht1 := t, ht0 := (ht0 ?d)\<lparr>used := used (ht0 ?d) - length c\<rparr>\<rparr>)"
    "ht_wf (dictHashKey d) t" "size_of t = size_of ?t"
    "mset (concat (table t)) = mset c + mset (concat (table ?t))"
    using Cons.IH [of ?d] wf Cons.prems(2) H by (auto simp: set_bucket_def)
  moreover have "move_chain (de # c) d = move_chain c ?d"
    using bucket_of_key(1) [OF Cons.prems, of "fst de"] by (simp add: Let_def)
  ultimately show ?case by (intro exI [of _ t]) (simp add: set_bucket_def)
qed

lemma concat_nonempty_bucket: "concat xs \<noteq> [] \<Longrightarrow> \<exists>i < length xs. xs ! i \<noteq> []"
  by (auto simp: in_set_conv_nth)

lemma dict_wfD:
  assumes "dict_wf d"
  shows "plain_type (dtype d)" "ht_wf (dictHashKey d) (ht0 d)" "ht_wf (dictHashKey d) (ht1 d)"
    "rehash_wf d"
  using assms by (simp_all add: dict_wf_def)

lemma dictHashKey_update [simp]:
  "dictHashKey (d\<lparr>ht0 := a\<rparr>) = dictHashKey d" "dictHashKey (d\<lparr>ht1 := a\<rparr>) = dictHashKey d"
  "dictHashKey (d\<lparr>rehashidx := i\<rparr>) = dictHashKey d" "dictHashKey (d\<lparr>iterators := i\<rparr>) = dictHashKey d"
  "dictHashKey (d\<lparr>destroyed := l\<rparr>) = dictHashKey d"
  by (simp_all add: dictHashKey_def fun_eq_iff)

text \<open>One turn of \<open>dictRehash\<close>: the end of the rehashing, or a bucket moved.\<close>

lemma rehash_turn:
  assumes "dict_wf d" "dictIsRehashing d"
  shows "\<exists>r d'. rehash_loop (Suc n) d = (if r then Some (0, d') else rehash_loop n d')
    \<and> dict_wf d' \<and> entries d' = entries d \<and> dtype d' = dtype d \<and> iterators d' = iterators d
    \<and> destroyed d' = destroyed d
    \<and> (if r then \<not> dictIsRehashing d' \<and> size_of (ht0 d') = size_of (ht1 d)
       else dictIsRehashing d' \<and> rehashidx d < rehashidx d' \<and> rehashidx d' \<le> int (size_of (ht0 d))
         \<and> size_of (ht0 d') = size_of (ht0 d) \<and> size_of (ht1 d') = size_of (ht1 d))"
proof (cases "used (ht0 d) = 0")
  case True
  have "ht_wf (dictHashKey d) (ht0 d)" using dict_wfD [OF assms(1)] by simp
  with True have "concat (table (ht0 d)) = []" by (simp add: ht_wf_def)
  then have "mset (concat (table (ht0 d))) = {#}" by simp
  with True assms dict_wfD [OF assms(1)] show ?thesis
    by (intro exI [of _ True] exI [of _ "d\<lparr>ht0 := ht1 d, ht1 := dictReset, rehashidx := - 1\<rparr>"])
       (simp add: dict_wf_def rehash_wf_def entries_def dictIsRehashing_def del: mset_concat)
next
  case False
  note wf = dict_wfD [OF assms(1)]
  from wf(4) assms(2) have rh: "0 \<le> rehashidx d" "size_of (ht1 d) \<noteq> 0"
    "\<forall>i < nat (rehashidx d). i < size_of (ht0 d) \<longrightarrow> table (ht0 d) ! i = []"
    by (auto simp: rehash_wf_def dictIsRehashing_def split: if_splits)
  have len: "length (table (ht0 d)) = size_of (ht0 d)" using wf(2) by (simp add: ht_wf_def)
  then have len_int: "length (table (ht0 d)) \<le> 2 ^ 31" using table_size [OF wf(2)] by simp
  from False wf(2) have "concat (table (ht0 d)) \<noteq> []" by (auto simp: ht_wf_def)
  from concat_nonempty_bucket [OF this] obtain j where j: "j < length (table (ht0 d))" "table (ht0 d) ! j \<noteq> []"
    by blast
  have "nat (rehashidx d) \<le> j" using j rh(3) len by (auto simp: not_less [symmetric])
  from skip_empty_ok [OF this j len_int] obtain i where i: "skip_empty (table (ht0 d)) (nat (rehashidx d)) = Some i"
    "nat (rehashidx d) \<le> i" "i < size_of (ht0 d)" "table (ht0 d) ! i \<noteq> []"
    "\<forall>n. nat (rehashidx d) \<le> n \<and> n < i \<longrightarrow> table (ht0 d) ! n = []"
    using len by auto
  let ?c = "table (ht0 d) ! i"
  from move_chain_ok [OF wf(3) rh(2), of ?c] obtain t where t:
    "move_chain ?c d = Some (d\<lparr>ht1 := t, ht0 := (ht0 d)\<lparr>used := used (ht0 d) - length ?c\<rparr>\<rparr>)"
    "ht_wf (dictHashKey d) t" "size_of t = size_of (ht1 d)"
    "mset (concat (table t)) = mset ?c + mset (concat (table (ht1 d)))" by blast
  let ?t0 = "(set_bucket i [] (ht0 d))\<lparr>used := used (ht0 d) - length ?c\<rparr>"
  have "i + 1 < 2 ^ 31" using i(3) table_size [OF wf(2)] by simp
  then have idx: "signed_take_bit 31 (int i + 1) = int i + 1" by (intro signed_take_bit_int_eq_self) simp_all
  let ?d = "d\<lparr>ht1 := t, ht0 := ?t0, rehashidx := int i + 1\<rparr>"
  have lc: "length ?c \<le> used (ht0 d)"
    using length_concat_update [of i "table (ht0 d)" "[]"] i(3) len wf(2) by (simp add: ht_wf_def)
  have "ht_wf (dictHashKey d) ?t0"
    using lc i(3) by (intro ht_wf_set_bucket [OF wf(2)]) simp_all
  moreover have below: "table (ht0 d) ! n = []" if "n < i" for n
    using that i(3,5) rh(3) by (cases "n < nat (rehashidx d)") auto
  have "nat (int i + 1) = Suc i" by simp
  with below have "rehash_wf ?d"
    using i(3) rh(2) t(3) len by (auto simp: rehash_wf_def set_bucket_def nth_list_update less_Suc_eq)
  ultimately have "dict_wf ?d" using wf(1) t(2) by (simp add: dict_wf_def)
  moreover have "entries ?d = entries d"
    using mset_concat_update [of i "table (ht0 d)" "[]"] i(3) len t(4)
    by (simp add: entries_def set_bucket_def)
  moreover have "rehash_loop (Suc n) d = rehash_loop n ?d"
    using False i(1) t(1) rh(1) by (simp add: set_bucket_used idx)
  ultimately show ?thesis
    using i(2,3) rh(1) t(3)
    by (intro exI [of _ False] exI [of _ ?d]) (simp add: dictIsRehashing_def set_bucket_def nat_le_iff)
qed

lemma rehash_loop_ok:
  assumes "dict_wf d" "dictIsRehashing d"
  shows "\<exists>r d'. rehash_loop n d = Some (r, d') \<and> dict_wf d' \<and> entries d' = entries d
    \<and> dtype d' = dtype d \<and> iterators d' = iterators d \<and> destroyed d' = destroyed d
    \<and> 0 < size_of (ht0 d')
    \<and> (r = 0 \<longleftrightarrow> \<not> dictIsRehashing d') \<and> (r = 0 \<or> r = 1)
    \<and> (int (size_of (ht0 d)) - rehashidx d < int n \<longrightarrow> r = 0)"
  using assms
proof (induction n arbitrary: d)
  case 0
  from 0 have "0 < size_of (ht0 d)" "rehashidx d \<le> int (size_of (ht0 d))"
    by (auto simp: dict_wf_def rehash_wf_def dictIsRehashing_def)
  then show ?case using 0 by simp
next
  case (Suc n)
  have pos: "0 < size_of (ht0 d)" "0 < size_of (ht1 d)"
    using Suc.prems by (auto simp: dict_wf_def rehash_wf_def dictIsRehashing_def)
  from rehash_turn [OF Suc.prems, of n] obtain r d' where t:
    "rehash_loop (Suc n) d = (if r then Some (0, d') else rehash_loop n d')"
    "dict_wf d'" "entries d' = entries d" "dtype d' = dtype d" "iterators d' = iterators d"
    "destroyed d' = destroyed d"
    "if r then \<not> dictIsRehashing d' \<and> size_of (ht0 d') = size_of (ht1 d)
     else dictIsRehashing d' \<and> rehashidx d < rehashidx d' \<and> rehashidx d' \<le> int (size_of (ht0 d))
       \<and> size_of (ht0 d') = size_of (ht0 d) \<and> size_of (ht1 d') = size_of (ht1 d)"
    by blast
  show ?case
  proof (cases r)
    case True
    with t pos show ?thesis by (intro exI [of _ 0] exI [of _ d']) simp
  next
    case False
    with t have rd: "dictIsRehashing d'" "rehashidx d < rehashidx d'"
      "rehashidx d' \<le> int (size_of (ht0 d))" "size_of (ht0 d') = size_of (ht0 d)" by simp_all
    from Suc.IH [OF t(2) rd(1)] obtain r' d'' where ih:
      "rehash_loop n d' = Some (r', d'')" "dict_wf d''" "entries d'' = entries d'"
      "dtype d'' = dtype d'" "iterators d'' = iterators d'" "destroyed d'' = destroyed d'"
      "0 < size_of (ht0 d'')" "r' = 0 \<longleftrightarrow> \<not> dictIsRehashing d''" "r' = 0 \<or> r' = 1"
      "int (size_of (ht0 d')) - rehashidx d' < int n \<longrightarrow> r' = 0" by blast
    have "rehash_loop (Suc n) d = Some (r', d'')" using t(1) False ih(1) by simp
    moreover have "int (size_of (ht0 d)) - rehashidx d < int (Suc n) \<longrightarrow> r' = 0"
      using ih(10) rd by simp
    ultimately show ?thesis using ih t(3-6) by (intro exI [of _ r'] exI [of _ d'']) simp
  qed
qed

text \<open>What every operation keeps: the entries, the type, the iterators and the log.\<close>

definition same_content :: "('k, 'v) dict \<Rightarrow> ('k, 'v) dict \<Rightarrow> bool" where
  "same_content d d' \<longleftrightarrow> entries d' = entries d \<and> dtype d' = dtype d \<and> iterators d' = iterators d
     \<and> destroyed d' = destroyed d"

lemma same_content_refl [simp]: "same_content d d"
  by (simp add: same_content_def)

lemma same_content_trans: "same_content a b \<Longrightarrow> same_content b c \<Longrightarrow> same_content a c"
  by (simp add: same_content_def)

lemma rehash_first:
  assumes "dict_wf d"
  shows "\<exists>d'. (if dictIsRehashing d then dictRehashStep d else Some d) = Some d' \<and> dict_wf d'
    \<and> same_content d d' \<and> (size_of (ht0 d) \<noteq> 0 \<longrightarrow> size_of (ht0 d') \<noteq> 0)"
proof (cases "dictIsRehashing d \<and> iterators d = 0")
  case True
  with rehash_loop_ok [OF assms, of 1] show ?thesis
    by (auto simp: dictRehashStep_def dictRehash_def same_content_def simp del: rehash_loop.simps)
next
  case False
  with assms show ?thesis by (auto simp: dictRehashStep_def)
qed

lemma next_power_ok:
  "\<exists>b. next_power (2 ^ a) n = 2 ^ b \<and> a \<le> b \<and> n \<le> 2 ^ b \<and> (b = a \<or> 2 ^ (b - 1) < n)"
proof (induction "(2 :: nat) ^ a" n arbitrary: a rule: next_power.induct)
  case (1 n a)
  show ?case
  proof (cases "n \<le> 2 ^ a")
    case True
    then show ?thesis by (subst next_power.simps) auto
  next
    case False
    then obtain b where b: "next_power (2 ^ Suc a) n = 2 ^ b" "Suc a \<le> b" "n \<le> 2 ^ b"
      "b = Suc a \<or> 2 ^ (b - 1) < n"
      using 1 [of "Suc a"] by (auto simp: mult.commute)
    from False have "next_power (2 ^ a) n = next_power (2 ^ Suc a) n"
      by (subst next_power.simps) (simp add: mult.commute)
    with b False show ?thesis by (intro exI [of _ b]) auto
  qed
qed

lemma dictNextPower_ok:
  assumes "n < LONG_MAX"
  shows "\<exists>k. dictNextPower n = 2 ^ k \<and> 2 \<le> k \<and> n \<le> 2 ^ k \<and> (k = 2 \<or> 2 ^ (k - 1) < n)"
proof -
  have "DICT_HT_INITIAL_SIZE = 2 ^ 2" by (simp add: DICT_HT_INITIAL_SIZE_def)
  with next_power_ok [of 2 n] assms show ?thesis by (auto simp: dictNextPower_def)
qed

lemma small_power: "2 ^ (k - 1) < n \<Longrightarrow> n \<le> 2 ^ 30 \<Longrightarrow> k \<le> (30 :: nat)" for n :: nat
proof (rule ccontr)
  assume *: "2 ^ (k - 1) < n" "n \<le> 2 ^ 30" "\<not> k \<le> 30"
  then have "(2 :: nat) ^ 30 \<le> 2 ^ (k - 1)" by (intro power_increasing) auto
  with * show False by linarith
qed

lemma dictExpand_ok:
  assumes "dict_wf d" "\<not> dictIsRehashing d" "used (ht0 d) \<le> n" "n \<le> 2 ^ 30"
  shows "\<exists>d'. dictExpand d n = (DICT_OK, d') \<and> dict_wf d' \<and> same_content d d' \<and> size_of (ht0 d') \<noteq> 0"
proof -
  have "n < LONG_MAX" using assms(4) by (simp add: LONG_MAX_def)
  from dictNextPower_ok [OF this] obtain k where k: "dictNextPower n = 2 ^ k" "2 \<le> k"
    "k = 2 \<or> 2 ^ (k - 1) < n" by blast
  have k30: "k \<le> 30" using k(3) small_power [of k n] assms(4) by auto
  let ?n = "\<lparr>table = replicate (2 ^ k) [], size_of = 2 ^ k, sizemask = 2 ^ k - 1, used = 0\<rparr>"
  have cn: "concat (replicate m []) = []" for m by (induction m) simp_all
  have wfn: "ht_wf H ?n" for H using k30 by (auto simp: ht_wf_def cn)
  note wf = dict_wfD [OF assms(1)]
  have r: "rehashidx d = - 1" "ht1 d = dictReset"
    using wf(4) assms(2) by (auto simp: rehash_wf_def dictIsRehashing_def)
  show ?thesis
  proof (cases "table (ht0 d) = []")
    case True
    with assms(2,3) k(1) wfn wf r show ?thesis
      by (auto simp: dictExpand_def Let_def dict_wf_def rehash_wf_def same_content_def entries_def cn)
  next
    case False
    then have "size_of (ht0 d) \<noteq> 0" using wf(2) by (auto simp: ht_wf_def)
    with False assms(2,3) k(1) wfn wf r show ?thesis
      by (auto simp: dictExpand_def Let_def dict_wf_def rehash_wf_def same_content_def entries_def cn)
  qed
qed

lemma dictExpandIfNeeded_ok:
  assumes "dict_wf d" "dictSize d < 2 ^ 29"
  shows "\<exists>d'. dictExpandIfNeeded cr d = (DICT_OK, d') \<and> dict_wf d' \<and> same_content d d' \<and> size_of (ht0 d') \<noteq> 0"
proof (cases "dictIsRehashing d")
  case True
  then have "size_of (ht0 d) \<noteq> 0"
    using assms(1) by (auto simp: dict_wf_def rehash_wf_def dictIsRehashing_def)
  with True assms(1) show ?thesis by (simp add: dictExpandIfNeeded_def)
next
  case False
  have "used (ht0 d) = 0" if "size_of (ht0 d) = 0"
    using dict_wfD(2) [OF assms(1)] that by (simp add: ht_wf_def)
  then have 0: "size_of (ht0 d) = 0 \<Longrightarrow> used (ht0 d) \<le> DICT_HT_INITIAL_SIZE"
    "DICT_HT_INITIAL_SIZE \<le> 2 ^ 30" by (simp_all add: DICT_HT_INITIAL_SIZE_def)
  have 2: "used (ht0 d) * 2 \<le> 2 ^ 30" using assms(2) by (simp add: dictSize_def)
  show ?thesis
    using False assms(1) dictExpand_ok [OF assms(1) False 0]
      dictExpand_ok [OF assms(1) False _ 2]
    by (cases "size_of (ht0 d) = 0") (auto simp: dictExpandIfNeeded_def not_less)
qed

section \<open>Finding an entry\<close>

lemma chain_pos_ok:
  assumes "plain_type (dtype d)"
  shows "chain_pos d key he = None \<longleftrightarrow> key \<notin> fst ` set he"
    and "chain_pos d key he = Some j \<Longrightarrow> j < length he \<and> fst (he ! j) = key"
  using plain_simps(3) [OF assms] by (induction he arbitrary: j) (auto split: if_splits)

definition table_of :: "('k, 'v) dict \<Rightarrow> bool \<Rightarrow> ('k, 'v) dictht" where
  "table_of d second = (if second then ht1 d else ht0 d)"

text \<open>A position that \<open>dictFind\<close> returns.\<close>

definition pos_ok :: "('k, 'v) dict \<Rightarrow> bool \<times> nat \<times> nat \<Rightarrow> 'k \<Rightarrow> 'v \<Rightarrow> bool" where
  "pos_ok d p k v \<longleftrightarrow> (case p of (second, i, j) \<Rightarrow>
     i = dictHashKey d k AND sizemask (table_of d second) \<and> i < size_of (table_of d second)
     \<and> j < length (table (table_of d second) ! i) \<and> table (table_of d second) ! i ! j = (k, v))"

lemma entries_iff: "(k, v) \<in># entries d \<longleftrightarrow>
    (k, v) \<in> set (concat (table (ht0 d))) \<or> (k, v) \<in> set (concat (table (ht1 d)))"
  by (auto simp: entries_def)

lemma find_in_table:
  assumes "plain_type (dtype d)" "ht_wf (dictHashKey d) (table_of d b)" "size_of (table_of d b) \<noteq> 0"
  obtains he where
    "chain d (table_of d b) key = Some (dictHashKey d key AND sizemask (table_of d b), he)"
    "chain_pos d key he = None \<longleftrightarrow> (\<forall>v. (key, v) \<notin> set (concat (table (table_of d b))))"
    "\<And>j. chain_pos d key he = Some j \<Longrightarrow>
       \<exists>v. pos_ok d (b, dictHashKey d key AND sizemask (table_of d b), j) key v
         \<and> (key, v) \<in> set (concat (table (table_of d b)))"
proof -
  let ?t = "table_of d b" and ?i = "dictHashKey d key AND sizemask (table_of d b)"
  note b = bucket_of_key [OF assms(2,3), of key]
  have c: "chain d ?t key = Some (?i, table ?t ! ?i)" using b(1) by (simp add: chain_def Let_def)
  have n: "chain_pos d key (table ?t ! ?i) = None \<longleftrightarrow> (\<forall>v. (key, v) \<notin> set (concat (table ?t)))"
    unfolding chain_pos_ok(1) [OF assms(1)] using b(2) by (force simp: image_iff)
  have "\<exists>v. pos_ok d (b, ?i, j) key v \<and> (key, v) \<in> set (concat (table ?t))"
    if "chain_pos d key (table ?t ! ?i) = Some j" for j
  proof -
    from chain_pos_ok(2) [OF assms(1) that] obtain v where j: "j < length (table ?t ! ?i)"
      "table ?t ! ?i ! j = (key, v)" by (cases "table ?t ! ?i ! j") auto
    then have "(key, v) \<in> set (table ?t ! ?i)" using nth_mem by metis
    then have "(key, v) \<in> set (concat (table ?t))" by (simp only: b(2))
    moreover have "pos_ok d (b, ?i, j) key v"
      using j and_sizemask(1) [OF assms(2,3)] by (simp add: pos_ok_def)
    ultimately show ?thesis by blast
  qed
  with c n show thesis by (rule that)
qed

lemma find_entry_ok:
  assumes "dict_wf d" "size_of (ht0 d) \<noteq> 0"
  shows "if \<exists>v. (key, v) \<in># entries d
    then \<exists>p v. find_entry d key = Some (Some p) \<and> pos_ok d p key v \<and> (key, v) \<in># entries d
    else find_entry d key = Some None"
proof -
  note wf = dict_wfD [OF assms(1)]
  have t: "table_of d False = ht0 d" "table_of d True = ht1 d" by (simp_all add: table_of_def)
  have nr: "\<not> dictIsRehashing d \<Longrightarrow> concat (table (ht1 d)) = []"
    using wf(4) by (auto simp: rehash_wf_def dictIsRehashing_def)
  from find_in_table [of d False key, unfolded t, OF wf(1,2) assms(2)] obtain he where he:
    "chain d (ht0 d) key = Some (dictHashKey d key AND sizemask (ht0 d), he)"
    "chain_pos d key he = None \<longleftrightarrow> (\<forall>v. (key, v) \<notin> set (concat (table (ht0 d))))"
    "\<And>j. chain_pos d key he = Some j \<Longrightarrow>
       \<exists>v. pos_ok d (False, dictHashKey d key AND sizemask (ht0 d), j) key v
         \<and> (key, v) \<in> set (concat (table (ht0 d)))" by blast
  show ?thesis
  proof (cases "chain_pos d key he")
    case (Some j)
    with he(3) [OF Some] he(1) show ?thesis
      by (auto simp: find_entry_def entries_iff)
  next
    case None
    show ?thesis
    proof (cases "dictIsRehashing d")
      case False
      with None he(1,2) nr show ?thesis by (auto simp: find_entry_def entries_iff)
    next
      case True
      then have "size_of (ht1 d) \<noteq> 0" using wf(4) by (auto simp: rehash_wf_def dictIsRehashing_def)
      from find_in_table [of d True key, unfolded t, OF wf(1,3) this] obtain he' where he':
        "chain d (ht1 d) key = Some (dictHashKey d key AND sizemask (ht1 d), he')"
        "chain_pos d key he' = None \<longleftrightarrow> (\<forall>v. (key, v) \<notin> set (concat (table (ht1 d))))"
        "\<And>j. chain_pos d key he' = Some j \<Longrightarrow>
           \<exists>v. pos_ok d (True, dictHashKey d key AND sizemask (ht1 d), j) key v
             \<and> (key, v) \<in> set (concat (table (ht1 d)))" by blast
      have fe: "find_entry d key = Some (map_option
          (\<lambda>j. (True, dictHashKey d key AND sizemask (ht1 d), j)) (chain_pos d key he'))"
        using True None he(1) he'(1) by (simp add: find_entry_def)
      show ?thesis
      proof (cases "chain_pos d key he'")
        case (Some j)
        with he'(3) [OF Some] fe show ?thesis by (auto simp: entries_iff)
      next
        case None': None
        with None he(2) he'(2) fe show ?thesis by (simp add: entries_iff)
      qed
    qed
  qed
qed

section \<open>Changing one bucket\<close>

definition put_table :: "('k, 'v) dict \<Rightarrow> bool \<Rightarrow> ('k, 'v) dictht \<Rightarrow> ('k, 'v) dict" where
  "put_table d second t = (if second then d\<lparr>ht1 := t\<rparr> else d\<lparr>ht0 := t\<rparr>)"

lemma put_bucket_ok:
  assumes "dict_wf d" "i < size_of (table_of d b)" "b \<longrightarrow> dictIsRehashing d"
    "\<not> b \<and> dictIsRehashing d \<longrightarrow> table (ht0 d) ! i \<noteq> []"
    "\<forall>e \<in> set c. dictHashKey d (fst e) AND sizemask (table_of d b) = i"
    "n + length (table (table_of d b) ! i) = used (table_of d b) + length c"
  defines "d' \<equiv> put_table d b ((set_bucket i c (table_of d b))\<lparr>used := n\<rparr>)"
  shows "dict_wf d'" "entries d' + mset (table (table_of d b) ! i) = entries d + mset c"
    "dtype d' = dtype d" "iterators d' = iterators d" "destroyed d' = destroyed d"
    "dictHashKey d' = dictHashKey d" "dictIsRehashing d' = dictIsRehashing d"
proof -
  note wf = dict_wfD [OF assms(1)]
  have t: "ht_wf (dictHashKey d) (table_of d b)" using wf by (simp add: table_of_def)
  have t': "ht_wf (dictHashKey d) ((set_bucket i c (table_of d b))\<lparr>used := n\<rparr>)"
    by (rule ht_wf_set_bucket [OF t assms(2,5,6)])
  have low: "nat (rehashidx d) \<le> i" if "\<not> b" "dictIsRehashing d"
    using wf(4) assms(2,4) that
    by (auto simp: rehash_wf_def dictIsRehashing_def table_of_def not_less [symmetric] split: if_splits)
  have rw: "rehash_wf d'"
  proof (cases "dictIsRehashing d")
    case False
    with wf(4) assms(3) show ?thesis
      by (auto simp: rehash_wf_def d'_def put_table_def dictIsRehashing_def)
  next
    case True
    with wf(4) low show ?thesis
      by (auto simp: rehash_wf_def d'_def put_table_def table_of_def set_bucket_def dictIsRehashing_def)
  qed
  show hk: "dictHashKey d' = dictHashKey d" by (simp add: d'_def put_table_def)
  have "plain_type (dtype d')" using wf(1) by (simp add: d'_def put_table_def)
  moreover have "ht_wf (dictHashKey d) (ht0 d')" "ht_wf (dictHashKey d) (ht1 d')"
    using wf(2,3) t' by (cases b; simp add: d'_def put_table_def)+
  ultimately show "dict_wf d'" using rw hk by (simp add: dict_wf_def)
  have "i < length (table (table_of d b))" using t assms(2) by (simp add: ht_wf_def)
  from mset_concat_update [OF this, of c]
  show "entries d' + mset (table (table_of d b) ! i) = entries d + mset c"
    by (cases b) (simp_all add: entries_def d'_def put_table_def table_of_def set_bucket_def)
qed (simp_all add: d'_def put_table_def dictIsRehashing_def)

lemma in_chain_iff: "in_chain d key he \<longleftrightarrow> chain_pos d key he \<noteq> None"
  by (induction he) (auto simp: in_chain_def)

lemma signed_index: "n < 2 ^ 31 \<Longrightarrow> signed_take_bit 31 (int n) = int n"
  by (intro signed_take_bit_int_eq_self) simp_all

lemma dictKeyIndex_ok:
  assumes "dict_wf d0" "dictSize d0 < 2 ^ 29"
  shows "\<exists>d. dict_wf d \<and> same_content d0 d \<and> size_of (ht0 d) \<noteq> 0 \<and>
    dictKeyIndex cr d0 key = Some
      (if \<exists>v. (key, v) \<in># entries d0 then - 1
       else int (dictHashKey d key AND sizemask (table_of d (dictIsRehashing d))), d)"
proof -
  from dictExpandIfNeeded_ok [OF assms] obtain d where d: "dictExpandIfNeeded cr d0 = (DICT_OK, d)"
    "dict_wf d" "same_content d0 d" "size_of (ht0 d) \<noteq> 0" by blast
  note wf = dict_wfD [OF d(2)]
  have t: "table_of d False = ht0 d" "table_of d True = ht1 d" by (simp_all add: table_of_def)
  have e: "entries d0 = entries d" using d(3) by (simp add: same_content_def)
  have nr: "\<not> dictIsRehashing d \<Longrightarrow> table (ht1 d) = []"
    using wf(4) by (auto simp: rehash_wf_def dictIsRehashing_def)
  have idx: "dictHashKey d key AND sizemask h < 2 ^ 31"
    if "ht_wf (dictHashKey d) h" "size_of h \<noteq> 0" for h :: "('a, 'b) dictht"
    using less_le_trans [OF and_sizemask(1) [OF that] and_sizemask(2) [OF that]] by (rule less_trans) simp
  from find_in_table [of d False key, unfolded t, OF wf(1,2) d(4)] obtain he where he:
    "chain d (ht0 d) key = Some (dictHashKey d key AND sizemask (ht0 d), he)"
    "chain_pos d key he = None \<longleftrightarrow> (\<forall>v. (key, v) \<notin> set (concat (table (ht0 d))))"
    "\<And>j. chain_pos d key he = Some j \<Longrightarrow>
       \<exists>v. pos_ok d (False, dictHashKey d key AND sizemask (ht0 d), j) key v
         \<and> (key, v) \<in> set (concat (table (ht0 d)))" by blast
  have "dictKeyIndex cr d0 key = Some
      (if \<exists>v. (key, v) \<in># entries d then - 1
       else int (dictHashKey d key AND sizemask (table_of d (dictIsRehashing d))), d)"
  proof (cases "dictIsRehashing d")
    case False
    have "(\<exists>v. (key, v) \<in># entries d) \<longleftrightarrow> in_chain d key he"
      unfolding in_chain_iff he(2) entries_iff by (simp add: nr [OF False])
    with False he(1) d(1) signed_index [OF idx [OF wf(2) d(4)]] show ?thesis
      by (simp add: dictKeyIndex_def table_of_def DICT_OK_def DICT_ERR_def)
  next
    case True
    then have s1: "size_of (ht1 d) \<noteq> 0" using wf(4) by (auto simp: rehash_wf_def dictIsRehashing_def)
    from find_in_table [of d True key, unfolded t, OF wf(1,3) s1] obtain he' where he':
      "chain d (ht1 d) key = Some (dictHashKey d key AND sizemask (ht1 d), he')"
      "chain_pos d key he' = None \<longleftrightarrow> (\<forall>v. (key, v) \<notin> set (concat (table (ht1 d))))"
      "\<And>j. chain_pos d key he' = Some j \<Longrightarrow>
         \<exists>v. pos_ok d (True, dictHashKey d key AND sizemask (ht1 d), j) key v
           \<and> (key, v) \<in> set (concat (table (ht1 d)))" by blast
    have "(\<exists>v. (key, v) \<in># entries d) \<longleftrightarrow> in_chain d key he \<or> in_chain d key he'"
      unfolding in_chain_iff he(2) he'(2) entries_iff by blast
    with True he(1) he'(1) d(1) signed_index [OF idx [OF wf(3) s1]] show ?thesis
      by (simp add: dictKeyIndex_def table_of_def DICT_OK_def DICT_ERR_def)
  qed
  with d(2-4) show ?thesis unfolding e by (intro exI [of _ d] conjI)
qed

lemma dictSize_entries: "dict_wf d \<Longrightarrow> dictSize d = size (entries d)"
  by (simp add: dict_wf_def ht_wf_def dictSize_def entries_def del: length_concat mset_concat)

section \<open>The operations on the entries\<close>

lemma dictAdd_ok:
  assumes "dict_wf d0" "dictSize d0 < 2 ^ 29"
  shows "\<exists>r d. dictAdd cr d0 key val = Some (r, d) \<and> dict_wf d \<and> size_of (ht0 d) \<noteq> 0
    \<and> dtype d = dtype d0 \<and> iterators d = iterators d0 \<and> destroyed d = destroyed d0
    \<and> (if \<exists>v. (key, v) \<in># entries d0 then r = DICT_ERR \<and> entries d = entries d0
       else r = DICT_OK \<and> entries d = add_mset (key, val) (entries d0))"
proof -
  from rehash_first [OF assms(1)] obtain d1 where d1:
    "(if dictIsRehashing d0 then dictRehashStep d0 else Some d0) = Some d1" "dict_wf d1"
    "same_content d0 d1" by blast
  have "dictSize d1 < 2 ^ 29"
    using assms d1(2,3) by (simp add: dictSize_entries same_content_def)
  from dictKeyIndex_ok [OF d1(2) this] obtain d where d: "dict_wf d" "same_content d1 d"
    "size_of (ht0 d) \<noteq> 0" "dictKeyIndex cr d1 key = Some
      (if \<exists>v. (key, v) \<in># entries d1 then - 1
       else int (dictHashKey d key AND sizemask (table_of d (dictIsRehashing d))), d)" by blast
  have sc: "entries d1 = entries d0" "entries d = entries d0" "dtype d = dtype d0"
    "iterators d = iterators d0" "destroyed d = destroyed d0"
    using d1(3) d(2) by (simp_all add: same_content_def)
  show ?thesis
  proof (cases "\<exists>v. (key, v) \<in># entries d0")
    case True
    then have "dictAdd cr d0 key val = Some (DICT_ERR, d)"
      using d1(1) d(4) sc(1) by (simp add: dictAdd_def)
    with True d sc show ?thesis by (intro exI [of _ DICT_ERR] exI [of _ d]) simp
  next
    case False
    let ?b = "dictIsRehashing d"
    let ?t = "table_of d ?b"
    let ?i = "dictHashKey d key AND sizemask ?t"
    let ?c = "(key, val) # table ?t ! ?i"
    let ?d = "put_table d ?b ((set_bucket ?i ?c ?t)\<lparr>used := used ?t + 1\<rparr>)"
    note wf = dict_wfD [OF d(1)]
    have t: "ht_wf (dictHashKey d) ?t" using wf(2,3) by (simp add: table_of_def)
    have s: "size_of ?t \<noteq> 0"
      using d(3) wf(4) by (auto simp: table_of_def rehash_wf_def dictIsRehashing_def)
    have i: "?i < size_of ?t" by (rule and_sizemask(1) [OF t s])
    have c: "\<forall>e \<in> set ?c. dictHashKey d (fst e) AND sizemask ?t = ?i"
      using t i by (auto simp: ht_wf_def)
    have "used ?t + 1 + length (table ?t ! ?i) = used ?t + length ?c" by simp
    note pb = put_bucket_ok [OF d(1) i _ _ c this]
    have k: "dictKeyIndex cr d1 key = Some (int ?i, d)" using d(4) False sc(1) by simp
    have "dictAdd cr d0 key val = Some (DICT_OK, ?d)"
      using d1(1) k bucket_of_key(1) [OF t s] plain_simps [OF wf(1)]
      by (simp add: dictAdd_def table_of_def put_table_def Let_def)
    moreover have "size_of (ht0 ?d) \<noteq> 0"
      using d(3) by (simp add: put_table_def table_of_def set_bucket_def)
    ultimately show ?thesis
      using False pb sc
      by (intro exI [of _ DICT_OK] exI [of _ ?d]) simp
  qed
qed

lemma dictFind_ok:
  assumes "dict_wf d0"
  shows "\<exists>r d. dictFind d0 key = Some (r, d) \<and> dict_wf d \<and> same_content d0 d
    \<and> (if \<exists>v. (key, v) \<in># entries d0
       then \<exists>p v. r = Some p \<and> pos_ok d p key v \<and> (key, v) \<in># entries d0 else r = None)"
proof (cases "size_of (ht0 d0) = 0")
  case True
  note wf = dict_wfD [OF assms]
  from True wf(4) have "table (ht1 d0) = []" by (auto simp: rehash_wf_def split: if_splits)
  moreover from True wf(2) have "table (ht0 d0) = []" by (auto simp: ht_wf_def)
  ultimately have "entries d0 = {#}" by (simp add: entries_def)
  with True assms show ?thesis by (simp add: dictFind_def)
next
  case False
  from rehash_first [OF assms] False obtain d where d:
    "(if dictIsRehashing d0 then dictRehashStep d0 else Some d0) = Some d" "dict_wf d"
    "same_content d0 d" "size_of (ht0 d) \<noteq> 0" by blast
  have e: "entries d = entries d0" using d(3) by (simp add: same_content_def)
  have "\<exists>r. find_entry d key = Some r \<and> (if \<exists>v. (key, v) \<in># entries d
      then \<exists>p v. r = Some p \<and> pos_ok d p key v \<and> (key, v) \<in># entries d else r = None)"
    using find_entry_ok [OF d(2,4), of key] by (cases "\<exists>v. (key, v) \<in># entries d") auto
  then obtain r where "find_entry d key = Some r" "if \<exists>v. (key, v) \<in># entries d
      then \<exists>p v. r = Some p \<and> pos_ok d p key v \<and> (key, v) \<in># entries d else r = None"
    by blast
  then show ?thesis
    using False d(1-3) unfolding e dictFind_def by (intro exI [of _ r] exI [of _ d]) simp
qed

lemma pos_okE:
  assumes "dict_wf d" "pos_ok d p key v"
  obtains b i j where "p = (b, i, j)" "i < size_of (table_of d b)" "b \<longrightarrow> dictIsRehashing d"
    "\<not> b \<and> dictIsRehashing d \<longrightarrow> table (ht0 d) ! i \<noteq> []"
    "j < length (table (table_of d b) ! i)" "table (table_of d b) ! i ! j = (key, v)"
    "\<forall>e \<in> set (table (table_of d b) ! i). dictHashKey d (fst e) AND sizemask (table_of d b) = i"
proof -
  obtain b i j where p: "p = (b, i, j)" by (cases p)
  have i: "i < size_of (table_of d b)" "j < length (table (table_of d b) ! i)"
    "table (table_of d b) ! i ! j = (key, v)" using assms(2) unfolding p pos_ok_def by auto
  note wf = dict_wfD [OF assms(1)]
  have "ht_wf (dictHashKey d) (table_of d b)" using wf(2,3) by (simp add: table_of_def)
  then have "\<forall>e \<in> set (table (table_of d b) ! i). dictHashKey d (fst e) AND sizemask (table_of d b) = i"
    using i(1) by (simp add: ht_wf_def)
  moreover have "b \<Longrightarrow> dictIsRehashing d"
    using i(1) wf(4) by (auto simp: table_of_def rehash_wf_def dictIsRehashing_def split: if_splits)
  moreover have "\<not> b \<Longrightarrow> table (ht0 d) ! i \<noteq> []" using i(2) by (auto simp: table_of_def)
  ultimately show thesis using p i by (intro that [of b i j]) auto
qed

lemma mset_exchange:
  fixes E :: "'a multiset"
  assumes "C + x = M + y" "E' + M = E + C"
  shows "E' + x = E + y"
proof -
  have "(E' + x) + M = (E' + M) + x" by (simp only: ac_simps)
  also have "\<dots> = E + (C + x)" by (simp only: assms(2) add.assoc)
  also have "\<dots> = (E + y) + M" by (simp only: assms(1) ac_simps)
  finally show ?thesis by (simp only: add_right_cancel)
qed

lemma set_val_ok:
  assumes "dict_wf d" "pos_ok d p key v0"
  shows "dict_wf (set_val p v d)" "entries (set_val p v d) + {#(key, v0)#} = entries d + {#(key, v)#}"
    "dtype (set_val p v d) = dtype d" "iterators (set_val p v d) = iterators d"
    "destroyed (set_val p v d) = destroyed d" "snd (entry_at d p) = v0"
proof -
  from assms obtain b i j where p: "p = (b, i, j)" "i < size_of (table_of d b)" "b \<longrightarrow> dictIsRehashing d"
    "\<not> b \<and> dictIsRehashing d \<longrightarrow> table (ht0 d) ! i \<noteq> []"
    "j < length (table (table_of d b) ! i)" "table (table_of d b) ! i ! j = (key, v0)"
    "\<forall>e \<in> set (table (table_of d b) ! i). dictHashKey d (fst e) AND sizemask (table_of d b) = i"
    by (rule pos_okE) blast
  let ?t = "table_of d b"
  let ?c = "(table ?t ! i)[j := (key, v)]"
  have "dictHashKey d (fst (table ?t ! i ! j)) AND sizemask ?t = i"
    using p(5,7) nth_mem by blast
  then have c: "\<forall>e \<in> set ?c. dictHashKey d (fst e) AND sizemask ?t = i"
    using p(5-7) by (auto dest: subsetD [OF set_update_subset_insert])
  have "used ?t + length (table ?t ! i) = used ?t + length ?c" by simp
  note pb = put_bucket_ok [OF assms(1) p(2-4) c this]
  have e: "set_val p v d = put_table d b ((set_bucket i ?c ?t)\<lparr>used := used ?t\<rparr>)"
    using p(1,6)
    by (cases b) (simp_all add: set_val_def table_of_def put_table_def set_bucket_def Let_def)
  show "dict_wf (set_val p v d)" "dtype (set_val p v d) = dtype d"
    "iterators (set_val p v d) = iterators d" "destroyed (set_val p v d) = destroyed d"
    unfolding e by (rule pb)+
  have "(key, v0) \<in># mset (table ?t ! i)" using nth_mem [OF p(5)] p(6) by simp
  then have "mset ?c + {#(key, v0)#} = mset (table ?t ! i) + {#(key, v)#}"
    using p(5,6) by (simp add: mset_update)
  moreover have "entries (set_val p v d) + mset (table ?t ! i) = entries d + mset ?c"
    unfolding e by (rule pb(2))
  ultimately show "entries (set_val p v d) + {#(key, v0)#} = entries d + {#(key, v)#}"
    by (rule mset_exchange)
  show "snd (entry_at d p) = v0" using p(1,6) by (simp add: entry_at_def table_of_def)
qed

lemma unlink_ok:
  assumes "dict_wf d" "pos_ok d p key v0"
  shows "dict_wf (unlink d p)" "entries (unlink d p) + {#(key, v0)#} = entries d"
    "dtype (unlink d p) = dtype d" "iterators (unlink d p) = iterators d"
    "destroyed (unlink d p) = destroyed d" "entry_at d p = (key, v0)"
proof -
  from assms obtain b i j where p: "p = (b, i, j)" "i < size_of (table_of d b)" "b \<longrightarrow> dictIsRehashing d"
    "\<not> b \<and> dictIsRehashing d \<longrightarrow> table (ht0 d) ! i \<noteq> []"
    "j < length (table (table_of d b) ! i)" "table (table_of d b) ! i ! j = (key, v0)"
    "\<forall>e \<in> set (table (table_of d b) ! i). dictHashKey d (fst e) AND sizemask (table_of d b) = i"
    by (rule pos_okE) blast
  let ?t = "table_of d b"
  let ?c = "take j (table ?t ! i) @ drop (Suc j) (table ?t ! i)"
  have split: "table ?t ! i = take j (table ?t ! i) @ (key, v0) # drop (Suc j) (table ?t ! i)"
    using id_take_nth_drop [OF p(5)] p(6) by simp
  have ms: "mset (table ?t ! i) = mset ?c + {#(key, v0)#}" by (subst split) simp
  have "set ?c \<subseteq> set (table ?t ! i)" by (auto dest: in_set_takeD in_set_dropD)
  with p(7) have c: "\<forall>e \<in> set ?c. dictHashKey d (fst e) AND sizemask ?t = i" by blast
  have "ht_wf (dictHashKey d) ?t" using dict_wfD(2,3) [OF assms(1)] by (simp add: table_of_def)
  then have "length (table ?t ! i) \<le> used ?t"
    using length_concat_update [of i "table ?t" "[]"] p(2) by (simp add: ht_wf_def)
  then have "used ?t - 1 + length (table ?t ! i) = used ?t + length ?c" using p(5) by simp
  note pb = put_bucket_ok [OF assms(1) p(2-4) c this]
  have e: "unlink d p = put_table d b ((set_bucket i ?c ?t)\<lparr>used := used ?t - 1\<rparr>)"
    using p(1) by (simp add: unlink_def table_of_def put_table_def Let_def)
  show "dict_wf (unlink d p)" "dtype (unlink d p) = dtype d" "iterators (unlink d p) = iterators d"
    "destroyed (unlink d p) = destroyed d" unfolding e by (rule pb)+
  show "entries (unlink d p) + {#(key, v0)#} = entries d"
    using pb(2) unfolding e ms by simp
  show "entry_at d p = (key, v0)" using p(1,6) by (simp add: entry_at_def table_of_def)
qed

section \<open>The map a dictionary represents\<close>

lemma dict_repD:
  assumes "dict_rep d m"
  shows "dict_wf d" "finite (dom m)" "entries d = mset_set (Map.graph m)"
    "(k, v) \<in># entries d \<longleftrightarrow> m k = Some v" "dictSize d = card (dom m)"
proof -
  show *: "dict_wf d" "finite (dom m)" "entries d = mset_set (Map.graph m)"
    using assms by (simp_all add: dict_rep_def)
  then show "(k, v) \<in># entries d \<longleftrightarrow> m k = Some v"
    by (auto dest: in_graphD intro: in_graphI)
  have "card (Map.graph m) = card (dom m)"
    using card_image [OF inj_on_fst_graph [of m]] by (simp add: fst_graph_eq_dom)
  with * show "dictSize d = card (dom m)" by (simp add: dictSize_entries)
qed

lemma graph_split:
  assumes "finite (dom m)"
  shows "mset_set (Map.graph (m(k \<mapsto> v))) = add_mset (k, v) (mset_set (Map.graph (m(k := None))))"
proof -
  have "(k, v) \<notin> Map.graph (m(k := None))" by (auto dest: in_graphD)
  with assms show ?thesis by simp
qed

lemma dictAdd_rep:
  assumes "dict_rep d m" "dictSize d < 2 ^ 29"
  shows "\<exists>d'. dictAdd cr d key val = Some (if m key = None then DICT_OK else DICT_ERR, d')
    \<and> dict_rep d' (if m key = None then m(key \<mapsto> val) else m)
    \<and> destroyed d' = destroyed d \<and> dtype d' = dtype d \<and> iterators d' = iterators d"
proof -
  note rep = dict_repD [OF assms(1)]
  have ex: "(\<exists>v. (key, v) \<in># entries d) \<longleftrightarrow> m key \<noteq> None" using rep(4) by auto
  from dictAdd_ok [OF rep(1) assms(2), of cr key val, unfolded ex] obtain r d' where a:
    "dictAdd cr d key val = Some (r, d')" "dict_wf d'"
    "dtype d' = dtype d" "iterators d' = iterators d" "destroyed d' = destroyed d"
    "if m key \<noteq> None then r = DICT_ERR \<and> entries d' = entries d
     else r = DICT_OK \<and> entries d' = add_mset (key, val) (entries d)" by blast
  show ?thesis
  proof (cases "m key")
    case None
    then have "m(key := None) = m" by auto
    with None a rep(2,3) graph_split [OF rep(2), of key val] show ?thesis
      by (simp add: dict_rep_def)
  next
    case (Some v)
    with a rep(2,3) show ?thesis by (simp add: dict_rep_def)
  qed
qed

lemma dictFind_rep:
  assumes "dict_rep d m"
  shows "\<exists>r d'. dictFind d key = Some (r, d') \<and> dict_rep d' m
    \<and> destroyed d' = destroyed d \<and> dtype d' = dtype d \<and> iterators d' = iterators d
    \<and> (case m key of None \<Rightarrow> r = None | Some v \<Rightarrow> \<exists>p. r = Some p \<and> pos_ok d' p key v)"
proof -
  note rep = dict_repD [OF assms]
  from dictFind_ok [OF rep(1), of key] obtain r d' where f: "dictFind d key = Some (r, d')" "dict_wf d'"
    "same_content d d'" "if \<exists>v. (key, v) \<in># entries d
       then \<exists>p v. r = Some p \<and> pos_ok d' p key v \<and> (key, v) \<in># entries d else r = None" by blast
  have "case m key of None \<Rightarrow> r = None | Some v \<Rightarrow> \<exists>p. r = Some p \<and> pos_ok d' p key v"
    using f(4) rep(4) by (auto split: if_splits option.splits)
  moreover have "dict_rep d' m" using f(2,3) rep(2,3) by (simp add: dict_rep_def same_content_def)
  ultimately show ?thesis using f(1,3) by (intro exI [of _ r] exI [of _ d']) (simp add: same_content_def)
qed

lemma dictFetchValue_rep:
  assumes "dict_rep d m"
  shows "\<exists>d'. dictFetchValue d key = Some (m key, d') \<and> dict_rep d' m"
proof -
  from dictFind_rep [OF assms, of key] obtain r d' where f: "dictFind d key = Some (r, d')" "dict_rep d' m"
    "case m key of None \<Rightarrow> r = None | Some v \<Rightarrow> \<exists>p. r = Some p \<and> pos_ok d' p key v" by blast
  show ?thesis
  proof (cases "m key")
    case (Some v)
    with f(3) obtain p where "r = Some p" "pos_ok d' p key v" by auto
    with f(1,2) Some set_val_ok(6) [OF dict_repD(1) [OF f(2)]] show ?thesis
      by (auto simp: dictFetchValue_def)
  qed (use f in \<open>simp add: dictFetchValue_def\<close>)
qed

lemma dictReplace_rep:
  assumes "dict_rep d m" "dictSize d < 2 ^ 29"
  shows "\<exists>d'. dictReplace cr d key val = Some (if m key = None then 1 else 0, d')
    \<and> dict_rep d' (m(key \<mapsto> val))
    \<and> destroyed d' = destroyed d @ (case m key of
        Some v \<Rightarrow> if valDestructor (dtype d) then [DestroyedVal v] else [] | None \<Rightarrow> [])"
proof -
  from dictAdd_rep [OF assms, of cr key val] obtain d1 where a:
    "dictAdd cr d key val = Some (if m key = None then DICT_OK else DICT_ERR, d1)"
    "dict_rep d1 (if m key = None then m(key \<mapsto> val) else m)"
    "destroyed d1 = destroyed d" "dtype d1 = dtype d" by blast
  show ?thesis
  proof (cases "m key")
    case None
    with a show ?thesis by (auto simp: dictReplace_def)
  next
    case (Some v)
    with a have d1: "dictAdd cr d key val = Some (DICT_ERR, d1)" "dict_rep d1 m" by simp_all
    from dictFind_rep [OF d1(2), of key] Some obtain p d2 where f: "dictFind d1 key = Some (Some p, d2)"
      "dict_rep d2 m" "pos_ok d2 p key v" "destroyed d2 = destroyed d1" "dtype d2 = dtype d1" by auto
    note rep = dict_repD [OF f(2)]
    note sv = set_val_ok(1-5) [OF rep(1) f(3), of val] set_val_ok(6) [OF rep(1) f(3)]
    let ?d = "dictFreeEntryVal (set_val p val d2) v"
    have "dictReplace cr d key val = Some (0, ?d)"
      using d1(1) f(1) sv(6) plain_simps(2) [OF dict_wfD(1) [OF rep(1)]]
      by (simp add: dictReplace_def DICT_OK_def DICT_ERR_def)
    moreover have "entries (set_val p val d2) = mset_set (Map.graph (m(key \<mapsto> val)))"
    proof -
      have "m(key \<mapsto> v) = m" using Some by auto
      then have "entries d2 = add_mset (key, v) (mset_set (Map.graph (m(key := None))))"
        using graph_split [OF rep(2), of key v] rep(3) by simp
      with sv(2) graph_split [OF rep(2), of key val] show ?thesis by simp
    qed
    then have "dict_rep (set_val p val d2) (m(key \<mapsto> val))"
      using sv(1) rep(2) by (simp add: dict_rep_def)
    then have "dict_rep ?d (m(key \<mapsto> val))"
      by (simp add: dict_rep_def dictFreeEntryVal_def dict_wf_def rehash_wf_def entries_def)
    moreover have "destroyed ?d = destroyed d @ (if valDestructor (dtype d) then [DestroyedVal v] else [])"
      using sv(3,5) f(4,5) a(3,4) by (simp add: dictFreeEntryVal_def)
    ultimately show ?thesis using Some by simp
  qed
qed

lemma dictGenericDelete_find:
  "dictGenericDelete d0 key nofree = do {
     (r, d) \<leftarrow> dictFind d0 key;
     case r of
       None \<Rightarrow> Some (DICT_ERR, d)
     | Some p \<Rightarrow>
         let (k, v) = entry_at d p;
             d1 = unlink d p;
             d2 = (if nofree then d1 else dictFreeEntryVal (dictFreeEntryKey d1 k) v)
         in Some (DICT_OK, d2) }"
proof (cases "size_of (ht0 d0) = 0")
  case False
  define st where "st = (if dictIsRehashing d0 then dictRehashStep d0 else Some d0)"
  show ?thesis
  proof (cases st)
    case (Some d)
    with False show ?thesis
      by (cases "find_entry d key")
        (simp_all add: dictGenericDelete_def dictFind_def st_def [symmetric] Let_def split: option.splits)
  qed (use False in \<open>simp add: dictGenericDelete_def dictFind_def st_def [symmetric]\<close>)
qed (simp add: dictGenericDelete_def dictFind_def)

lemma dictGenericDelete_rep:
  assumes "dict_rep d m"
  shows "\<exists>d'. dictGenericDelete d key nofree = Some (if m key = None then DICT_ERR else DICT_OK, d')
    \<and> dict_rep d' (m(key := None))"
proof -
  from dictFind_rep [OF assms, of key] obtain r d1 where f: "dictFind d key = Some (r, d1)" "dict_rep d1 m"
    "case m key of None \<Rightarrow> r = None | Some v \<Rightarrow> \<exists>p. r = Some p \<and> pos_ok d1 p key v" by blast
  show ?thesis
  proof (cases "m key")
    case None
    then have "m(key := None) = m" by auto
    with None f show ?thesis by (simp add: dictGenericDelete_find)
  next
    case (Some v)
    with f(3) obtain p where p: "r = Some p" "pos_ok d1 p key v" by auto
    note rep = dict_repD [OF f(2)]
    note un = unlink_ok [OF rep(1) p(2)]
    let ?d = "if nofree then unlink d1 p else dictFreeEntryVal (dictFreeEntryKey (unlink d1 p) key) v"
    have "m(key \<mapsto> v) = m" using Some by auto
    with graph_split [OF rep(2), of key v] rep(3) un(2)
    have "entries (unlink d1 p) = mset_set (Map.graph (m(key := None)))" by simp
    then have "dict_rep (unlink d1 p) (m(key := None))"
      using un(1) rep(2) by (simp add: dict_rep_def)
    then have "dict_rep ?d (m(key := None))"
      by (simp add: dict_rep_def dictFreeEntryVal_def dictFreeEntryKey_def dict_wf_def rehash_wf_def entries_def)
    moreover have "dictGenericDelete d key nofree = Some (DICT_OK, ?d)"
      using f(1) p(1) un(6) by (simp add: dictGenericDelete_find)
    ultimately show ?thesis using Some by auto
  qed
qed

lemma dictCreate_rep: "plain_type ty \<Longrightarrow> dict_rep (dictCreate ty) (\<lambda>_. None)"
  by (simp add: dict_rep_def dictCreate_def dictInit_def dict_wf_def rehash_wf_def entries_def)

text \<open>The dictionary as a key-value store: \<open>dictFetchValue\<close>, \<open>dictReplace\<close> and \<open>dictDelete\<close>.\<close>

definition dict_get :: "('k, 'v) dict \<Rightarrow> 'k \<Rightarrow> (('k, 'v) dict \<times> 'v option) option" where
  "dict_get d k = map_option (\<lambda>(v, d'). (d', v)) (dictFetchValue d k)"

definition dict_put :: "bool \<Rightarrow> ('k, 'v) dict \<Rightarrow> 'k \<Rightarrow> 'v \<Rightarrow> (('k, 'v) dict \<times> bool) option" where
  "dict_put cr d k v = map_option (\<lambda>(r, d'). (d', r = 0)) (dictReplace cr d k v)"

definition dict_del :: "('k, 'v) dict \<Rightarrow> 'k \<Rightarrow> (('k, 'v) dict \<times> bool) option" where
  "dict_del d k = map_option (\<lambda>(r, d'). (d', r = DICT_OK)) (dictDelete d k)"

interpretation dict: kv_store dict_rep dict_get "dict_put cr" dict_del dictSize "\<lambda>k v. 1" "2 ^ 29"
  for cr
proof (unfold_locales, goal_cases)
  case (1 s m k)
  from dictFetchValue_rep [OF 1, of k] dict_repD(5) [OF 1] dict_repD(5) show ?case
    by (fastforce simp: dict_get_def)
next
  case (2 s m k v)
  from 2(2) have "dictSize s < 2 ^ 29" by simp
  from dictReplace_rep [OF 2(1) this, of cr k v] obtain d' where d':
    "dictReplace cr s k v = Some (if m k = None then 1 else 0, d')" "dict_rep d' (m(k \<mapsto> v))" by blast
  have "card (dom (m(k \<mapsto> v))) \<le> card (dom m) + 1"
    using dict_repD(2) [OF 2(1)] by (simp add: card_insert_if)
  then show ?case
    using d' dict_repD(5) [OF 2(1)] dict_repD(5) [OF d'(2)] by (auto simp: dict_put_def)
next
  case (3 s m k)
  from dictGenericDelete_rep [OF 3, of k False] obtain d' where d':
    "dictGenericDelete s k False = Some (if m k = None then DICT_ERR else DICT_OK, d')"
    "dict_rep d' (m(k := None))" by blast
  have "card (dom (m(k := None))) \<le> card (dom m)"
    using dict_repD(2) [OF 3] by (auto intro!: card_mono)
  then show ?case
    using d' dict_repD(5) [OF 3] dict_repD(5) [OF d'(2)]
    by (auto simp: dict_del_def dictDelete_def DICT_ERR_def DICT_OK_def)
qed

section \<open>Traversal and release\<close>

text \<open>What an iterator has still to return.\<close>

definition remaining :: "('k, 'v) dictIterator \<Rightarrow> ('k, 'v) dict \<Rightarrow> ('k \<times> 'v) list" where
  "remaining it d = (if ientry it = None then [] else inext it)
     @ concat (drop (nat (iindex it + 1)) (table (table_of d (itable it = 1))))
     @ (if itable it = 0 \<and> dictIsRehashing d then concat (table (ht1 d)) else [])"

definition iter_ok :: "('k, 'v) dictIterator \<Rightarrow> ('k, 'v) dict \<Rightarrow> bool" where
  "iter_ok it d \<longleftrightarrow> - 1 \<le> iindex it \<and> (itable it = 0 \<or> itable it = 1 \<and> dictIsRehashing d \<and> 0 \<le> iindex it)
     \<and> length (table (ht0 d)) = size_of (ht0 d) \<and> length (table (ht1 d)) = size_of (ht1 d)
     \<and> (dictIsRehashing d \<longrightarrow> 0 < size_of (ht1 d)) \<and> size_of (ht0 d) \<le> 2 ^ 30 \<and> size_of (ht1 d) \<le> 2 ^ 30
     \<and> iindex it \<le> int (size_of (table_of d (itable it = 1)))"

text \<open>The iterations left before \<open>dictNext\<close> returns.\<close>

definition iter_measure :: "('k, 'v) dictIterator \<Rightarrow> ('k, 'v) dict \<Rightarrow> nat" where
  "iter_measure it d =
     2 * ((if itable it = 0 then nat (int (size_of (ht0 d)) - iindex it) + size_of (ht1 d) + 1
           else nat (int (size_of (ht1 d)) - iindex it)))
     + (if ientry it = None then 0 else 1)"

definition same_tables :: "('k, 'v) dict \<Rightarrow> ('k, 'v) dict \<Rightarrow> bool" where
  "same_tables d d' \<longleftrightarrow> (\<exists>n. d' = d\<lparr>iterators := n\<rparr>)"

text \<open>How many times the count of running iterators has been raised by an iterator.\<close>

definition started :: "('k, 'v) dictIterator \<Rightarrow> int" where
  "started it = (if iindex it = - 1 \<and> itable it = 0 then 0 else 1)"

lemma concat_drop_nth: "i < length xs \<Longrightarrow> concat (drop i xs) = xs ! i @ concat (drop (Suc i) xs)"
  by (subst Cons_nth_drop_Suc [symmetric]) simp_all

lemma iter_indices:
  assumes "iter_ok it d"
  shows "signed_take_bit 31 (iindex it + 1) = iindex it + 1"
    "signed_take_bit 31 (int (size_of (ht0 d))) = int (size_of (ht0 d))"
    "signed_take_bit 31 (int (size_of (ht1 d))) = int (size_of (ht1 d))"
proof -
  have "- 1 \<le> iindex it" "iindex it \<le> 2 ^ 30" "int (size_of (ht0 d)) \<le> 2 ^ 30" "int (size_of (ht1 d)) \<le> 2 ^ 30"
    using assms by (auto simp: iter_ok_def table_of_def split: if_splits)
  then show "signed_take_bit 31 (iindex it + 1) = iindex it + 1"
    "signed_take_bit 31 (int (size_of (ht0 d))) = int (size_of (ht0 d))"
    "signed_take_bit 31 (int (size_of (ht1 d))) = int (size_of (ht1 d))"
    by (auto intro: signed_take_bit_int_eq_self)
qed

lemma next_chain_ok:
  assumes "iter_ok it d" "ientry it = None"
  shows "\<exists>c it' d'. next_chain it d = Some (c, it', d') \<and> same_tables d d'
    \<and> ientry it' = None \<and> iterators d' - started it' = iterators d - started it \<and> started it' = 1
    \<and> (case c of None \<Rightarrow> remaining it d = []
       | Some c \<Rightarrow> iter_ok it' d' \<and> iter_measure it' d' + 2 \<le> iter_measure it d
           \<and> remaining it d = c @ remaining it' d')"
proof (cases "int (size_of (table_of d (itable it = 1))) \<le> iindex it + 1")
  case True
  note idx = iter_indices [OF assms(1)]
  let ?d = "if iindex it = - 1 \<and> itable it = 0 then d\<lparr>iterators := iterators d + 1\<rparr> else d"
  have st: "same_tables d ?d" "dictIsRehashing ?d = dictIsRehashing d"
    by (auto simp: same_tables_def dictIsRehashing_def intro: exI [of _ "iterators d"])
  from True assms(1) have drop: "drop (nat (iindex it + 1)) (table (table_of d (itable it = 1))) = []"
    by (auto simp: iter_ok_def table_of_def)
  show ?thesis
  proof (cases "dictIsRehashing d \<and> itable it = 0")
    case sw: True
    with assms(1) have n: "0 < length (table (ht1 d))" "iindex it \<ge> - 1" by (auto simp: iter_ok_def)
    let ?it = "it\<lparr>itable := 1, iindex := 0\<rparr>"
    have "next_chain it d = Some (Some (table (ht1 d) ! 0), ?it, ?d)"
      using sw True assms(2) n by (auto simp: next_chain_def Let_def table_of_def bucket_def dictIsRehashing_def idx)
    moreover have "remaining it d = table (ht1 d) ! 0 @ remaining ?it ?d"
      using sw drop n(1) concat_drop_nth [of 0 "table (ht1 d)"] assms(2)
      by (auto simp: remaining_def table_of_def)
    moreover have "iter_ok ?it ?d" "iter_measure ?it ?d + 2 \<le> iter_measure it d"
      using sw assms n by (auto simp: iter_ok_def iter_measure_def table_of_def dictIsRehashing_def)
    ultimately show ?thesis
      using st assms(2) sw
      by (intro exI [of _ "Some (table (ht1 d) ! 0)"] exI [of _ ?it] exI [of _ ?d]) (simp add: started_def)
  next
    case stop: False
    with assms(1) have t: "itable it = 0 \<or> itable it = 1" by (auto simp: iter_ok_def)
    let ?it = "it\<lparr>iindex := iindex it + 1\<rparr>"
    have "next_chain it d = Some (None, ?it, ?d)"
      using stop True t assms(2) by (auto simp: next_chain_def Let_def table_of_def dictIsRehashing_def idx)
    moreover have "remaining it d = []" using stop drop assms(2) by (auto simp: remaining_def)
    ultimately show ?thesis
      using st assms t by (intro exI [of _ None] exI [of _ ?it] exI [of _ ?d]) (auto simp: started_def iter_ok_def)
  qed
next
  case False
  note idx = iter_indices [OF assms(1)]
  let ?d = "if iindex it = - 1 \<and> itable it = 0 then d\<lparr>iterators := iterators d + 1\<rparr> else d"
  let ?it = "it\<lparr>iindex := iindex it + 1\<rparr>"
  let ?t = "table_of d (itable it = 1)"
  let ?i = "nat (iindex it + 1)"
  have t: "itable it = 0 \<or> itable it = 1" "- 1 \<le> iindex it" "length (table ?t) = size_of ?t"
    using assms(1) by (auto simp: iter_ok_def table_of_def)
  have i: "?i < length (table ?t)" using False t by linarith
  have td: "table_of ?d b = table_of d b" "dictIsRehashing ?d = dictIsRehashing d" "ht1 ?d = ht1 d" "ht0 ?d = ht0 d"
    for b by (simp_all add: table_of_def dictIsRehashing_def)
  have "next_chain it d = Some (Some (table ?t ! ?i), ?it, ?d)"
    using False t i assms(2) by (auto simp: next_chain_def Let_def table_of_def bucket_def idx)
  moreover have "nat (iindex ?it + 1) = Suc ?i" using t(2) by simp
  then have "remaining it d = table ?t ! ?i @ remaining ?it ?d"
    using concat_drop_nth [OF i] assms(2) by (simp add: remaining_def td)
  moreover have "iter_ok ?it ?d"
    using assms(1) False t by (auto simp: iter_ok_def td)
  moreover have "iter_measure ?it ?d + 2 \<le> iter_measure it d"
    using False t assms(2) by (auto simp: iter_measure_def td table_of_def)
  moreover have "same_tables d ?d" by (auto simp: same_tables_def intro: exI [of _ "iterators d"])
  ultimately show ?thesis
    using assms(2) t
    by (intro exI [of _ "Some (table ?t ! ?i)"] exI [of _ ?it] exI [of _ ?d]) (auto simp: started_def)
qed

lemma iter_entry_simps [simp]:
  "started (it\<lparr>ientry := x\<rparr>) = started it" "started (it\<lparr>ientry := x, inext := y\<rparr>) = started it"
  "iter_ok (it\<lparr>ientry := x\<rparr>) d = iter_ok it d" "iter_ok (it\<lparr>ientry := x, inext := y\<rparr>) d = iter_ok it d"
  by (simp_all add: started_def iter_ok_def)

lemma remaining_entry:
  "remaining (it\<lparr>ientry := Some e, inext := r\<rparr>) d = r @ remaining (it\<lparr>ientry := None\<rparr>) d"
  by (simp add: remaining_def)

lemma ientry_None [simp]: "ientry it = None \<Longrightarrow> it\<lparr>ientry := None\<rparr> = it"
  by (cases it) simp

lemma same_tables_trans: "same_tables a b \<Longrightarrow> same_tables b c \<Longrightarrow> same_tables a c"
  by (auto simp: same_tables_def)

lemma same_tables_refl [simp]: "same_tables d d"
  by (auto simp: same_tables_def intro: exI [of _ "iterators d"])

definition next_spec :: "('k, 'v) dictIterator \<Rightarrow> ('k, 'v) dict \<Rightarrow> bool" where
  "next_spec it d \<longleftrightarrow> (\<exists>it' d'.
     dictNext it d = Some (case remaining it d of [] \<Rightarrow> None | e # _ \<Rightarrow> Some e, it', d')
     \<and> same_tables d d' \<and> iterators d' - started it' = iterators d - started it \<and> started it' = 1
     \<and> (remaining it d \<noteq> [] \<longrightarrow> iter_ok it' d' \<and> remaining it' d' = tl (remaining it d)))"

lemma dictNext_ok: "iter_ok it d \<Longrightarrow> (ientry it \<noteq> None \<longrightarrow> started it = 1) \<Longrightarrow> next_spec it d"
proof (induction "iter_measure it d" arbitrary: it d rule: less_induct)
  case less
  show ?case
  proof (cases "ientry it")
    case (Some e)
    have nc: "next_chain it d = Some (Some (inext it), it, d)" using Some by (simp add: next_chain_def)
    have rem: "remaining it d = inext it @ remaining (it\<lparr>ientry := None\<rparr>) d"
      using Some by (simp add: remaining_def)
    show ?thesis
    proof (cases "inext it")
      case Nil
      have "iter_measure (it\<lparr>ientry := None\<rparr>) d < iter_measure it d"
        using Some by (simp add: iter_measure_def)
      from less.hyps [OF this] less.prems have "next_spec (it\<lparr>ientry := None\<rparr>) d" by simp
      moreover have "dictNext it d = dictNext (it\<lparr>ientry := None\<rparr>) d"
        using nc Nil by (subst dictNext.simps) simp
      ultimately show ?thesis using rem Nil unfolding next_spec_def by simp
    next
      case (Cons a r)
      then have "dictNext it d = Some (Some a, it\<lparr>ientry := Some a, inext := r\<rparr>, d)"
        using nc by (subst dictNext.simps) simp
      with Cons rem less.prems Some show ?thesis
        unfolding next_spec_def
        by (intro exI [of _ "it\<lparr>ientry := Some a, inext := r\<rparr>"] exI [of _ d]) (simp add: remaining_entry)
    qed
  next
    case None
    from next_chain_ok [OF less.prems(1) None] obtain c it' d' where nc:
      "next_chain it d = Some (c, it', d')" "same_tables d d'" "ientry it' = None"
      "iterators d' - started it' = iterators d - started it" "started it' = 1"
      "case c of None \<Rightarrow> remaining it d = []
       | Some c \<Rightarrow> iter_ok it' d' \<and> iter_measure it' d' + 2 \<le> iter_measure it d
           \<and> remaining it d = c @ remaining it' d'" by blast
    show ?thesis
    proof (cases c)
      case None': None
      with nc show ?thesis
        unfolding next_spec_def by (subst dictNext.simps) simp
    next
      case (Some l)
      with nc(6) have l: "iter_ok it' d'" "iter_measure it' d' + 2 \<le> iter_measure it d"
        "remaining it d = l @ remaining it' d'" by simp_all
      show ?thesis
      proof (cases l)
        case Nil
        have "next_spec it' d'" using less.hyps [of it' d'] l(1,2) nc(3) by simp
        moreover have "dictNext it d = dictNext it' d'"
          using nc(1,3) Some Nil by (subst dictNext.simps) simp
        ultimately show ?thesis
          using l(3) Nil nc(2,4) same_tables_trans [OF nc(2)] unfolding next_spec_def by fastforce
      next
        case (Cons a r)
        then have "dictNext it d = Some (Some a, it'\<lparr>ientry := Some a, inext := r\<rparr>, d')"
          using nc(1) Some by (subst dictNext.simps) simp
        with Cons l nc show ?thesis
          unfolding next_spec_def
          by (intro exI [of _ "it'\<lparr>ientry := Some a, inext := r\<rparr>"] exI [of _ d'])
             (simp add: remaining_entry)
      qed
    qed
  qed
qed

lemma dict_collect_ok:
  "iter_ok it d \<Longrightarrow> (ientry it \<noteq> None \<longrightarrow> started it = 1) \<Longrightarrow>
   \<exists>it' d'. dict_collect it d = Some (remaining it d, it', d') \<and> same_tables d d'
     \<and> iterators (dictReleaseIterator it' d') = iterators d - started it"
proof (induction "remaining it d" arbitrary: it d)
  case Nil
  from dictNext_ok [OF Nil(2,3)] Nil(1) obtain it' d' where
    "dictNext it d = Some (None, it', d')" "same_tables d d'"
    "iterators d' - started it' = iterators d - started it" "started it' = 1"
    by (auto simp: next_spec_def)
  with Nil(1) show ?case
    by (subst dict_collect.simps) (auto simp: dictReleaseIterator_def started_def split: if_splits)
next
  case (Cons e r)
  from dictNext_ok [OF Cons(3,4)] Cons(2) obtain it' d' where n:
    "dictNext it d = Some (Some e, it', d')" "same_tables d d'"
    "iterators d' - started it' = iterators d - started it" "started it' = 1"
    "iter_ok it' d'" "remaining it' d' = r"
    unfolding next_spec_def by (metis (no_types, lifting) list.case(2) list.distinct(1) list.sel(3))
  from Cons(1) [of it' d'] n obtain it'' d'' where
    "dict_collect it' d' = Some (remaining it' d', it'', d'')" "same_tables d' d''"
    "iterators (dictReleaseIterator it'' d'') = iterators d' - started it'" by auto
  with n Cons(2) same_tables_trans [OF n(2)] show ?case
    by (subst dict_collect.simps) auto
qed

text \<open>The destructor calls for an entry.\<close>

definition destroy_entry :: "('k, 'v) dictType \<Rightarrow> 'k \<times> 'v \<Rightarrow> ('k, 'v) destroyed list" where
  "destroy_entry ty e = (if keyDestructor ty then [DestroyedKey (fst e)] else [])
     @ (if valDestructor ty then [DestroyedVal (snd e)] else [])"

lemma free_chain_eq:
  "free_chain c d = d\<lparr>destroyed := destroyed d @ concat (map (destroy_entry (dtype d)) c)\<rparr>"
  by (induction c d rule: free_chain.induct)
     (simp_all add: destroy_entry_def dictFreeEntryKey_def dictFreeEntryVal_def)

lemma clear_loop_eq:
  "n = length (concat cs) \<Longrightarrow>
   clear_loop cs n d = d\<lparr>destroyed := destroyed d @ concat (map (destroy_entry (dtype d)) (concat cs))\<rparr>"
proof (induction cs n d rule: clear_loop.induct)
  case (2 c cs n d)
  show ?case
  proof (cases "n > 0")
    case True
    with 2 show ?thesis by (simp add: free_chain_eq)
  next
    case False
    with 2(2) have e: "concat cs = []" "c = []" by simp_all
    show ?thesis using False by (simp add: e)
  qed
qed simp

lemma dictClear_eq:
  assumes "dict_wf d"
  shows "dictClear True (dictClear False d) = d\<lparr>ht0 := dictReset, ht1 := dictReset,
    destroyed := destroyed d @ concat (map (destroy_entry (dtype d)) (concat (table (ht0 d))))
      @ concat (map (destroy_entry (dtype d)) (concat (table (ht1 d))))\<rparr>"
  using dict_wfD(2,3) [OF assms] by (simp add: dictClear_def Let_def clear_loop_eq ht_wf_def)

lemma mset_destroyed: "mset (concat (map f xs)) = (\<Sum>x \<in># mset xs. mset (f x))"
  by (induction xs) simp_all

section \<open>Properties\<close>

text \<open>C22: any sequence of \<open>dictReplace\<close>, \<open>dictDelete\<close> and \<open>dictFetchValue\<close> on a new dictionary
  answers as a map does, for every hash function, with resizing enabled or not, whatever
  expansions and rehashing steps the operations do on the way, up to \<open>2 ^ 29\<close> entries; no access
  leaves a table.\<close>

theorem dict_runs_as_map:
  assumes "plain_type ty" "length ops < 2 ^ 29"
  shows "run_store dict_get (dict_put cr) dict_del (dictCreate ty) ops = Some (run_map (\<lambda>_. None) ops)"
proof (rule dict.run_rep [OF dictCreate_rep [OF assms(1)]])
  have "sum_list (map (op_cost (\<lambda>k v. 1)) ops) \<le> length ops"
  proof (induction ops)
    case (Cons x ops)
    then show ?case by (cases x) simp_all
  qed simp
  then show "dictSize (dictCreate ty) + sum_list (map (op_cost (\<lambda>k v. 1)) ops) < 2 ^ 29"
    using assms(2) by (simp add: dictSize_def dictCreate_def dictInit_def dictReset_def)
qed

text \<open>C29: incremental rehashing never loses, duplicates or changes an entry, however many steps are
  done; while it is under way every call moves on, and one call with more steps than the old table
  has buckets left ends it (the result is 0 exactly when it is over).\<close>

theorem dictRehash_completes:
  assumes "dict_rep d m"
  shows "\<exists>r d'. dictRehash d n = Some (r, d') \<and> dict_rep d' m \<and> (r = 0 \<longleftrightarrow> \<not> dictIsRehashing d')
    \<and> (int (size_of (ht0 d)) - rehashidx d < int n \<longrightarrow> r = 0)"
proof (cases "dictIsRehashing d")
  case False
  with assms show ?thesis by (simp add: dictRehash_def)
next
  case True
  note rep = dict_repD [OF assms]
  from rehash_loop_ok [OF rep(1) True, of n] True show ?thesis
    using rep(2,3) by (auto simp: dictRehash_def dict_rep_def)
qed

lemma traversal_start:
  fixes d :: "('k, 'v) dict"
  assumes "dict_rep d m"
  defines "it \<equiv> dictGetIterator :: ('k, 'v) dictIterator"
  shows "iter_ok it d" "started it = 0" "ientry it = None"
    "set (remaining it d) = {(k, v). m k = Some v}" "distinct (remaining it d)"
proof -
  note rep = dict_repD [OF assms(1)]
  show "iter_ok it d" "started it = 0" "ientry it = None"
    using dict_wfD [OF rep(1)] table_size [OF dict_wfD(2) [OF rep(1)]] table_size [OF dict_wfD(3) [OF rep(1)]]
    by (auto simp: it_def iter_ok_def dictGetIterator_def started_def ht_wf_def rehash_wf_def dictIsRehashing_def)
  have "\<not> dictIsRehashing d \<Longrightarrow> table (ht1 d) = []"
    using dict_wfD(4) [OF rep(1)] by (auto simp: rehash_wf_def dictIsRehashing_def)
  then have "mset (remaining it d) = entries d"
    by (auto simp: it_def remaining_def dictGetIterator_def table_of_def entries_def)
  then have ms: "mset (remaining it d) = mset_set (Map.graph m)" using rep(3) by simp
  then have g: "set (remaining it d) = Map.graph m"
    using rep(2) by (metis finite_graph_iff_finite_dom finite_set_mset_mset_set set_mset_mset)
  then show "set (remaining it d) = {(k, v). m k = Some v}" by (auto dest: in_graphD intro: in_graphI)
  show "distinct (remaining it d)"
    using ms rep(2) g by (metis count_mset_set' distinct_count_atmost_1 finite_graph_iff_finite_dom)
qed

lemma same_tables_rep: "same_tables d d' \<Longrightarrow> dict_rep d m \<Longrightarrow> dict_rep d' m"
  unfolding same_tables_def
  by (auto simp: dict_rep_def dict_wf_def dictHashKey_def [abs_def] rehash_wf_def entries_def)

text \<open>C30: a traversal with \<open>dictGetIterator\<close> and \<open>dictNext\<close>, also in the middle of a rehashing,
  returns every entry of the dictionary exactly once and ends, and releasing the iterator brings
  the number of running iterators back to what it was; as long as an iterator runs, the rehashing
  step of the other operations does nothing.\<close>

theorem dict_traversal_once:
  fixes d :: "('k, 'v) dict"
  assumes "dict_rep d m"
  shows "\<exists>es it' d'. dict_collect dictGetIterator d = Some (es, it', d')
    \<and> set es = {(k, v). m k = Some v} \<and> distinct es
    \<and> iterators (dictReleaseIterator it' d') = iterators d
    \<and> (iterators d \<noteq> 0 \<longrightarrow> dictRehashStep d = Some d)"
proof -
  note start = traversal_start [OF assms]
  have "ientry (dictGetIterator :: ('k, 'v) dictIterator) \<noteq> None
      \<longrightarrow> started (dictGetIterator :: ('k, 'v) dictIterator) = 1" using start(3) by simp
  from dict_collect_ok [OF start(1) this] start(2) obtain it' d' where c:
    "dict_collect dictGetIterator d = Some (remaining dictGetIterator d, it', d')"
    "iterators (dictReleaseIterator it' d') = iterators d" by auto
  with start(4,5) show ?thesis by (auto simp: dictRehashStep_def)
qed

text \<open>On a table of \<open>2 ^ 31\<close> buckets the cast makes the size negative: \<open>dictNext\<close> ends at once.\<close>

theorem dictNext_ends_on_large_table:
  assumes "\<not> dictIsRehashing d" "size_of (ht0 d) = 2 ^ 31"
  shows "dictNext dictGetIterator d = Some (None, dictGetIterator\<lparr>iindex := 0\<rparr>, d\<lparr>iterators := iterators d + 1\<rparr>)"
proof -
  have "signed_take_bit 31 (int (2 ^ 31)) = - (2 ^ 31 :: int)" by (simp add: signed_take_bit_eq_if_negative take_bit_eq_mod bit_iff_odd)
  moreover have "\<not> dictIsRehashing (d\<lparr>iterators := iterators d + 1\<rparr>)" using assms(1) by (simp add: dictIsRehashing_def)
  ultimately have "next_chain dictGetIterator d = Some (None, dictGetIterator\<lparr>iindex := 0\<rparr>, d\<lparr>iterators := iterators d + 1\<rparr>)"
    using assms(2) by (simp add: next_chain_def dictGetIterator_def Let_def)
  then show ?thesis by (subst dictNext.simps) simp
qed

lemma dictEmpty_rep: "dict_rep d m \<Longrightarrow> dict_rep (dictEmpty d) (\<lambda>_. None)"
  using dict_wfD(1) [OF dict_repD(1)] dictClear_eq [OF dict_repD(1)]
  by (fastforce simp: dictEmpty_def dict_rep_def dict_wf_def rehash_wf_def entries_def)

text \<open>Releasing a dictionary calls the key destructor once for each key it holds and the value
  destructor once for each value, after whatever was destroyed before, in the middle of a rehashing
  too; emptying it does the same and leaves an empty dictionary that can be used again.\<close>

theorem dictRelease_destroys_once:
  assumes "dict_rep d m" "keyDestructor (dtype d)" "valDestructor (dtype d)"
  shows "mset (dictRelease d) = mset (destroyed d)
      + (\<Sum>e \<in># mset_set {(k, v). m k = Some v}. {# DestroyedKey (fst e), DestroyedVal (snd e) #})
    \<and> destroyed (dictEmpty d) = dictRelease d \<and> dict_rep (dictEmpty d) (\<lambda>_. None)"
proof -
  note rep = dict_repD [OF assms(1)]
  have g: "{(k, v). m k = Some v} = Map.graph m" by (auto dest: in_graphD intro: in_graphI)
  have de: "mset (destroy_entry (dtype d) e) = {# DestroyedKey (fst e), DestroyedVal (snd e) #}" for e
    using assms(2,3) by (simp add: destroy_entry_def)
  have "mset (dictRelease d) = mset (destroyed d)
      + (\<Sum>e \<in># entries d. {# DestroyedKey (fst e), DestroyedVal (snd e) #})"
    by (simp add: dictRelease_def dictClear_eq [OF rep(1)] mset_destroyed entries_def de del: mset_concat)
  moreover have "dict_rep (dictEmpty d) (\<lambda>_. None)" by (rule dictEmpty_rep [OF assms(1)])
  ultimately show ?thesis using rep(3) by (simp add: g dictEmpty_def dictRelease_def)
qed

section \<open>A concrete dictionary\<close>

definition ex_type :: "(nat, nat) dictType" where
  "ex_type = \<lparr>hashFunction = of_nat, keyDup = None, valDup = None, keyCompare = None,
     keyDestructor = True, valDestructor = True\<rparr>"

text \<open>Key 1 is in the new table already, key 2 still in the old one.\<close>

definition ex_dict :: "(nat, nat) dict" where
  "ex_dict = \<lparr>dtype = ex_type,
     ht0 = \<lparr>table = [[], [], [(2, 20)], []], size_of = 4, sizemask = 3, used = 1\<rparr>,
     ht1 = \<lparr>table = [[], [(1, 10)], [], [], [], [], [], []], size_of = 8, sizemask = 7, used = 1\<rparr>,
     rehashidx = 2, iterators = 0, destroyed = []\<rparr>"

lemma ex_dict_rep: "dict_rep ex_dict [1 \<mapsto> 10, 2 \<mapsto> 20]"
proof -
  have u: "dictHashKey ex_dict 1 = 1" "dictHashKey ex_dict 2 = 2"
    by (simp_all add: dictHashKey_def ex_dict_def ex_type_def)
  have m: "(1::nat) AND 7 = 1" "(2::nat) AND 3 = 2" by (simp_all add: and_nat_unfold)
  have "ht_wf (dictHashKey ex_dict) (ht0 ex_dict)"
    using u m by (auto simp: ht_wf_def ex_dict_def numeral_eq_Suc less_Suc_eq intro: exI [of _ 2])
  moreover have "ht_wf (dictHashKey ex_dict) (ht1 ex_dict)"
    using u m by (auto simp: ht_wf_def ex_dict_def numeral_eq_Suc less_Suc_eq intro: exI [of _ 3])
  moreover have "rehash_wf ex_dict"
    by (auto simp: rehash_wf_def ex_dict_def numeral_eq_Suc less_Suc_eq)
  moreover have "Map.graph [1 \<mapsto> 10, 2 \<mapsto> 20] = {(1, 10), (2 :: nat, 20 :: nat)}"
    by (auto simp: Map.graph_def split: if_splits)
  ultimately show ?thesis
    by (simp add: dict_rep_def dict_wf_def entries_def) (simp add: ex_dict_def ex_type_def plain_type_def)
qed

theorem dict_runs_as_map_witness:
  "run_store dict_get (dict_put True) dict_del (dictCreate ex_type)
     [KSet 1 10, KSet 5 50, KSet 1 11, KGet 1, KDel 5, KGet 5] =
   Some [Updated False, Updated False, Updated True, Value (Some 11), Deleted True, Value None]"
proof -
  have "plain_type ex_type" by (simp add: plain_type_def ex_type_def)
  from dict_runs_as_map [OF this, of "[KSet 1 10, KSet 5 50, KSet 1 11, KGet 1, KDel 5, KGet 5]" True]
  show ?thesis by simp
qed

theorem dictRehash_completes_witness:
  "\<exists>d'. dictRehash ex_dict 3 = Some (0, d') \<and> dict_rep d' [1 \<mapsto> 10, 2 \<mapsto> 20] \<and> \<not> dictIsRehashing d'"
proof -
  have "int (size_of (ht0 ex_dict)) - rehashidx ex_dict < int 3" by (simp add: ex_dict_def)
  with dictRehash_completes [OF ex_dict_rep, of 3] show ?thesis by auto
qed

theorem dict_traversal_once_witness:
  "\<exists>es it' d'. dict_collect dictGetIterator ex_dict = Some (es, it', d')
    \<and> set es = {(k, v). [1 \<mapsto> 10, 2 \<mapsto> 20] k = Some v} \<and> distinct es"
  using dict_traversal_once [OF ex_dict_rep] by blast

theorem dictRelease_destroys_once_witness:
  "mset (dictRelease ex_dict) =
    (\<Sum>e \<in># mset_set {(k, v). [1 \<mapsto> 10, 2 \<mapsto> 20] k = Some v}. {# DestroyedKey (fst e), DestroyedVal (snd e) #})"
  using dictRelease_destroys_once [OF ex_dict_rep]
  by (simp add: ex_dict_def ex_type_def)

end
