(* ===== verification/Lzf.thy ===== *)
theory Lzf
  imports Buffers
begin

text \<open>
  \<open>apps/redis-2.0.4/lzf_c.c\<close>, \<open>lzf_d.c\<close> and \<open>lzfP.h\<close>: the LZF compressor that \<open>rdbSave\<close> uses and
  its decompressor, in the configuration the repository compiles (\<open>HLOG\<close> 16, \<open>VERY_FAST\<close>,
  \<open>CHECK_INPUT\<close>, no \<open>INIT_HTAB\<close>). Input pointers are offsets. The output written so far is a byte
  list, so that \<open>op\<close> is its length; a store outside the \<open>cap\<close> bytes of the output block or a read
  outside the input is \<open>None\<close>. The hash table holds offsets; it lives on the stack without being
  initialised, so its first content is an argument.
\<close>

definition HLOG :: nat where "HLOG = 16"
definition MAX_LIT :: nat where "MAX_LIT = 32"
definition MAX_OFF :: int where "MAX_OFF = 8192"
definition MAX_REF :: nat where "MAX_REF = 264"

definition FRST :: "bytes \<Rightarrow> nat \<Rightarrow> u32 option" where
  "FRST p i = do { a \<leftarrow> rd p i; b \<leftarrow> rd p (i + 1); Some (push_bit 8 (ucast a) OR ucast b) }"

definition NEXT :: "u32 \<Rightarrow> bytes \<Rightarrow> nat \<Rightarrow> u32 option" where
  "NEXT v p i = do { c \<leftarrow> rd p (i + 2); Some (push_bit 8 v OR ucast c) }"

definition IDX :: "u32 \<Rightarrow> nat" where
  "IDX h = unat ((drop_bit (3 * 8 - HLOG) h - h * 5) AND 65535)"

section \<open>The compressor\<close>

text \<open>A store at \<open>*op++\<close>, and one at an earlier position of the output.\<close>

definition emit :: "nat \<Rightarrow> bytes \<Rightarrow> u8 \<Rightarrow> bytes option" where
  "emit cap out b = (if length out < cap then Some (out @ [b]) else None)"

definition stop_run :: "nat \<Rightarrow> bytes \<Rightarrow> nat \<Rightarrow> bytes option" where
  "stop_run cap out lit =
     (if lit + 1 \<le> length out \<and> length out - lit - 1 < cap
      then Some (out[length out - lit - 1 := of_nat lit - 1]) else None)"

text \<open>\<open>op++\<close> without a store: the byte there is what the block held.\<close>

definition start_run :: "bytes \<Rightarrow> bytes" where
  "start_run out = out @ [0]"

definition undo_run :: "bytes \<Rightarrow> nat \<Rightarrow> bytes" where
  "undo_run out lit = (if lit = 0 then butlast out else out)"

text \<open>The three-byte test at a candidate reference.\<close>

definition same3 :: "bytes \<Rightarrow> nat \<Rightarrow> nat \<Rightarrow> bool option" where
  "same3 p ref ip = do {
     r0 \<leftarrow> rd p ref; i0 \<leftarrow> rd p ip; r1 \<leftarrow> rd p (ref + 1); i1 \<leftarrow> rd p (ip + 1);
     if r0 = i0 \<and> r1 = i1
     then do { r2 \<leftarrow> rd p (ref + 2); i2 \<leftarrow> rd p (ip + 2); Some (r2 = i2) }
     else Some False }"

text \<open>The unrolled comparisons (a count of them) and the loop after them.\<close>

fun cmp_run :: "bytes \<Rightarrow> nat \<Rightarrow> nat \<Rightarrow> nat \<Rightarrow> nat \<Rightarrow> (bool \<times> nat) option" where
  "cmp_run p ref ip 0 len = Some (True, len)"
| "cmp_run p ref ip (Suc k) len = do {
     a \<leftarrow> rd p (ref + (len + 1)); b \<leftarrow> rd p (ip + (len + 1));
     if a \<noteq> b then Some (False, len + 1) else cmp_run p ref ip k (len + 1) }"

function cmp_tail :: "bytes \<Rightarrow> nat \<Rightarrow> nat \<Rightarrow> nat \<Rightarrow> nat \<Rightarrow> nat option" where
  "cmp_tail p ref ip maxlen len =
     (if len + 1 < maxlen then do {
        a \<leftarrow> rd p (ref + (len + 1)); b \<leftarrow> rd p (ip + (len + 1));
        if a = b then cmp_tail p ref ip maxlen (len + 1) else Some (len + 1) }
      else Some (len + 1))"
  by pat_completeness auto
termination by (relation "measure (\<lambda>(p, ref, ip, maxlen, len). maxlen - len)") auto

declare cmp_tail.simps [simp del]

definition match_len :: "bytes \<Rightarrow> nat \<Rightarrow> nat \<Rightarrow> nat option" where
  "match_len p ref ip =
     (let m = length p - ip - 2; maxlen = (if m > MAX_REF then MAX_REF else m) in
      if maxlen > 16 then do {
        (all, len) \<leftarrow> cmp_run p ref ip 16 2;
        if all then cmp_tail p ref ip maxlen len else Some len }
      else cmp_tail p ref ip maxlen 2)"

text \<open>The two or three bytes of a back reference of \<open>len + 2\<close> octets.\<close>

definition emit_ref :: "nat \<Rightarrow> bytes \<Rightarrow> nat \<Rightarrow> nat \<Rightarrow> bytes option" where
  "emit_ref cap out off len =
     (if len < 7 then do {
        o1 \<leftarrow> emit cap out (of_nat (off div 256 + len * 32)); emit cap o1 (of_nat off) }
      else do {
        o1 \<leftarrow> emit cap out (of_nat (off div 256 + 7 * 32));
        o2 \<leftarrow> emit cap o1 (of_nat (len - 7));
        emit cap o2 (of_nat off) })"

text \<open>The literals left at the end, and the last run.\<close>

function tail_literals :: "bytes \<Rightarrow> nat \<Rightarrow> nat \<Rightarrow> nat \<Rightarrow> bytes \<Rightarrow> (nat \<times> bytes) option" where
  "tail_literals p cap ip lit out =
     (if ip < length p then do {
        c \<leftarrow> rd p ip;
        o1 \<leftarrow> emit cap out c;
        if lit + 1 = MAX_LIT
        then do { o2 \<leftarrow> stop_run cap o1 (lit + 1); tail_literals p cap (ip + 1) 0 (start_run o2) }
        else tail_literals p cap (ip + 1) (lit + 1) o1 }
      else Some (lit, out))"
  by pat_completeness auto
termination by (relation "measure (\<lambda>(p, cap, ip, lit, out). length p - ip)") auto

declare tail_literals.simps [simp del]

definition finish :: "bytes \<Rightarrow> nat \<Rightarrow> nat \<Rightarrow> nat \<Rightarrow> nat \<Rightarrow> bytes \<Rightarrow> bytes option option" where
  "finish p out_len cap ip lit out =
     (if length out + 3 > out_len then Some None
      else do {
        (lit', o1) \<leftarrow> tail_literals p cap ip lit out;
        o2 \<leftarrow> stop_run cap o1 lit';
        Some (Some (undo_run o2 lit')) })"

text \<open>
  The condition of the match (lines 151-166). The unsigned comparison
  \<open>(off = ip - ref - 1) < MAX_OFF\<close> also rejects every \<open>ref\<close> from \<open>ip\<close> on.
\<close>

definition match_at :: "bytes \<Rightarrow> int \<Rightarrow> nat \<Rightarrow> bool option" where
  "match_at p ref ip =
     (let off = int ip - ref - 1 in
      if 0 \<le> off \<and> off < MAX_OFF \<and> ip + 4 < length p \<and> ref > 0 then same3 p (nat ref) ip
      else Some False)"

text \<open>
  The two branches of the loop. \<open>Some None\<close> is the result 0: the output does not fit. The first
  gives the position after the match.
\<close>

definition lzf_match :: "bytes \<Rightarrow> nat \<Rightarrow> nat \<Rightarrow> nat \<Rightarrow> nat \<Rightarrow> nat \<Rightarrow> bytes \<Rightarrow> (nat \<times> bytes) option option" where
  "lzf_match p out_len cap ref ip lit out = do {
     o1 \<leftarrow> stop_run cap out lit;
     let o2 = undo_run o1 lit;
     if length o2 + 3 + 1 \<ge> out_len then Some None
     else do {
       l \<leftarrow> match_len p ref ip;
       o3 \<leftarrow> emit_ref cap o2 (ip - ref - 1) (l - 2);
       Some (Some (ip + 1 + (l - 2 + 1), start_run o3)) } }"

definition lzf_literal :: "bytes \<Rightarrow> nat \<Rightarrow> nat \<Rightarrow> nat \<Rightarrow> nat \<Rightarrow> bytes \<Rightarrow> (nat \<times> bytes) option option" where
  "lzf_literal p out_len cap ip lit out =
     (if length out \<ge> out_len then Some None
      else do {
        c \<leftarrow> rd p ip;
        o1 \<leftarrow> emit cap out c;
        if lit + 1 = MAX_LIT
        then do { o2 \<leftarrow> stop_run cap o1 (lit + 1); Some (Some (0, start_run o2)) }
        else Some (Some (lit + 1, o1)) })"

text \<open>The two positions before \<open>ip\<close> entered into the table after a match.\<close>

definition rehash :: "bytes \<Rightarrow> (nat \<Rightarrow> int) \<Rightarrow> nat \<Rightarrow> ((nat \<Rightarrow> int) \<times> u32) option" where
  "rehash p htab ip = do {
     h1 \<leftarrow> FRST p (ip - 2);
     h2 \<leftarrow> NEXT h1 p (ip - 2);
     h3 \<leftarrow> NEXT h2 p (ip - 1);
     Some (htab(IDX h2 := int (ip - 2), IDX h3 := int (ip - 1)), h3) }"

lemma lzf_match_gt: "lzf_match p out_len cap ref ip lit out = Some (Some (ip', out')) \<Longrightarrow> ip < ip'"
  by (auto simp: lzf_match_def Let_def split: Option.bind_splits if_splits)

function lzf_loop :: "bytes \<Rightarrow> nat \<Rightarrow> nat \<Rightarrow> (nat \<Rightarrow> int) \<Rightarrow> nat \<Rightarrow> nat \<Rightarrow> bytes \<Rightarrow> u32
    \<Rightarrow> bytes option option" where
  "lzf_loop p out_len cap htab ip lit out hval0 =
     (if ip + 2 < length p then
        case NEXT hval0 p ip of
          None \<Rightarrow> None
        | Some hval \<Rightarrow>
            let ref = htab (IDX hval); htab1 = htab(IDX hval := int ip) in
            case match_at p ref ip of
              None \<Rightarrow> None
            | Some True \<Rightarrow>
                (case lzf_match p out_len cap (nat ref) ip lit out of
                   None \<Rightarrow> None
                 | Some None \<Rightarrow> Some None
                 | Some (Some (ip', out')) \<Rightarrow>
                     if ip' + 2 \<ge> length p then finish p out_len cap ip' 0 out'
                     else (case rehash p htab1 ip' of
                         None \<Rightarrow> None
                       | Some (htab2, hval') \<Rightarrow> lzf_loop p out_len cap htab2 ip' 0 out' hval'))
            | Some False \<Rightarrow>
                (case lzf_literal p out_len cap ip lit out of
                   None \<Rightarrow> None
                 | Some None \<Rightarrow> Some None
                 | Some (Some (lit', out')) \<Rightarrow> lzf_loop p out_len cap htab1 (ip + 1) lit' out' hval)
      else finish p out_len cap ip lit out)"
  by pat_completeness auto
termination
  by (relation "measure (\<lambda>(p, out_len, cap, htab, ip, lit, out, hval). length p - ip)")
     (auto dest: lzf_match_gt)

declare lzf_loop.simps [simp del]

definition lzf_compress :: "(nat \<Rightarrow> int) \<Rightarrow> nat \<Rightarrow> bytes \<Rightarrow> nat \<Rightarrow> bytes option option" where
  "lzf_compress htab cap p out_len =
     (if p = [] \<or> out_len = 0 then Some None
      else do {
        hval \<leftarrow> FRST p 0;
        lzf_loop p out_len cap htab 0 0 (start_run []) hval })"

section \<open>The decompressor\<close>

datatype lzf_result = LzfOk bytes | LzfE2BIG | LzfEINVAL

text \<open>
  Both buffers are checked at every access: a read of the input outside \<open>p\<close> and a store behind
  \<open>out_len\<close> are \<open>None\<close>, whatever the code tested before.
\<close>

definition emits :: "nat \<Rightarrow> bytes \<Rightarrow> bytes \<Rightarrow> bytes option" where
  "emits cap out bs = (if length out + length bs \<le> cap then Some (out @ bs) else None)"

text \<open>\<open>*op++ = *ref++\<close>, a number of times; the source may reach the bytes just written.\<close>

fun copy_back :: "nat \<Rightarrow> bytes \<Rightarrow> nat \<Rightarrow> nat \<Rightarrow> bytes option" where
  "copy_back cap out ref 0 = Some out"
| "copy_back cap out ref (Suc n) = do {
     b \<leftarrow> rd out ref;
     out' \<leftarrow> emit cap out b;
     copy_back cap out' (ref + 1) n }"

text \<open>One round of the loop ends the function or goes on at a position with more output.\<close>

datatype lzf_step = Return lzf_result | Goon nat bytes

definition literal_run :: "bytes \<Rightarrow> nat \<Rightarrow> nat \<Rightarrow> nat \<Rightarrow> bytes \<Rightarrow> lzf_step option" where
  "literal_run p out_len ctrl ip out =
     (let n = ctrl + 1 in
      if length out + n > out_len then Some (Return LzfE2BIG)
      else if ip + n > length p then Some (Return LzfEINVAL)
      else do {
        d \<leftarrow> peek p ip n;
        out' \<leftarrow> emits out_len out d;
        Some (Goon (ip + n) out') })"

text \<open>The second length byte (lines 111-121); \<open>Some None\<close> is the input ending behind it.\<close>

definition long_length :: "bytes \<Rightarrow> nat \<Rightarrow> nat \<Rightarrow> (nat \<times> nat) option option" where
  "long_length p len ip =
     (if len = 7 then do {
        b \<leftarrow> rd p ip;
        if ip + 1 \<ge> length p then Some None else Some (Some (len + unat b, ip + 1)) }
      else Some (Some (len, ip)))"

definition back_reference :: "bytes \<Rightarrow> nat \<Rightarrow> nat \<Rightarrow> nat \<Rightarrow> bytes \<Rightarrow> lzf_step option" where
  "back_reference p out_len ctrl ip out =
     (let ref0 = int (length out) - int ((ctrl mod 32) * 256) - 1 in
      if ip \<ge> length p then Some (Return LzfEINVAL)
      else case long_length p (ctrl div 32) ip of
          None \<Rightarrow> None
        | Some None \<Rightarrow> Some (Return LzfEINVAL)
        | Some (Some (len, ip')) \<Rightarrow> do {
            b \<leftarrow> rd p ip';
            let ref = ref0 - int (unat b);
            if length out + len + 2 > out_len then Some (Return LzfE2BIG)
            else if ref < 0 then Some (Return LzfEINVAL)
            else do {
              out' \<leftarrow> copy_back out_len out (nat ref) (len + 2);
              Some (Goon (ip' + 1) out') } })"

definition decompress_step :: "bytes \<Rightarrow> nat \<Rightarrow> nat \<Rightarrow> bytes \<Rightarrow> lzf_step option" where
  "decompress_step p out_len ip out = do {
     c \<leftarrow> rd p ip;
     if unat c < 32 then literal_run p out_len (unat c) (ip + 1) out
     else back_reference p out_len (unat c) (ip + 1) out }"

lemma long_length_ge: "long_length p len ip = Some (Some (len', ip')) \<Longrightarrow> ip \<le> ip'"
  by (auto simp: long_length_def split: Option.bind_splits if_splits)

lemma decompress_step_gt: "decompress_step p out_len ip out = Some (Goon ip' out') \<Longrightarrow> ip < ip' \<and> ip < length p"
  by (auto simp: decompress_step_def literal_run_def back_reference_def Let_def rd_def dest!: long_length_ge
      split: Option.bind_splits if_splits option.splits)

function decompress_loop :: "bytes \<Rightarrow> nat \<Rightarrow> nat \<Rightarrow> bytes \<Rightarrow> lzf_result option" where
  "decompress_loop p out_len ip out =
     (case decompress_step p out_len ip out of
        None \<Rightarrow> None
      | Some (Return r) \<Rightarrow> Some r
      | Some (Goon ip' out') \<Rightarrow>
          if ip' < length p then decompress_loop p out_len ip' out' else Some (LzfOk out'))"
  by pat_completeness auto
termination
  by (relation "measure (\<lambda>(p, out_len, ip, out). length p - ip)") (auto dest: decompress_step_gt)

declare decompress_loop.simps [simp del]

definition lzf_decompress :: "bytes \<Rightarrow> nat \<Rightarrow> lzf_result option" where
  "lzf_decompress p out_len = decompress_loop p out_len 0 []"

section \<open>The decompressor on a list of tokens\<close>

datatype tok = Lit bytes | Ref nat nat

fun copy_n :: "bytes \<Rightarrow> nat \<Rightarrow> nat \<Rightarrow> bytes" where
  "copy_n out ref 0 = out"
| "copy_n out ref (Suc n) = copy_n (out @ [out ! ref]) (ref + 1) n"

fun enc_tok :: "tok \<Rightarrow> bytes" where
  "enc_tok (Lit xs) = of_nat (length xs - 1) # xs"
| "enc_tok (Ref off n) =
     (if n - 2 < 7 then [of_nat (off div 256 + (n - 2) * 32), of_nat off]
      else [of_nat (off div 256 + 7 * 32), of_nat (n - 2 - 7), of_nat off])"

fun run_tok :: "bytes \<Rightarrow> tok \<Rightarrow> bytes" where
  "run_tok out (Lit xs) = out @ xs"
| "run_tok out (Ref off n) = copy_n out (length out - off - 1) n"

fun tok_ok :: "bytes \<Rightarrow> tok \<Rightarrow> bool" where
  "tok_ok out (Lit xs) \<longleftrightarrow> 1 \<le> length xs \<and> length xs \<le> 32"
| "tok_ok out (Ref off n) \<longleftrightarrow> off < 8192 \<and> off < length out \<and> 3 \<le> n \<and> n \<le> 264"

fun toks_ok :: "bytes \<Rightarrow> tok list \<Rightarrow> bool" where
  "toks_ok out [] = True"
| "toks_ok out (t # ts) \<longleftrightarrow> tok_ok out t \<and> toks_ok (run_tok out t) ts"

definition enc_toks :: "tok list \<Rightarrow> bytes" where
  "enc_toks ts = concat (map enc_tok ts)"

definition run_toks :: "bytes \<Rightarrow> tok list \<Rightarrow> bytes" where
  "run_toks out ts = foldl run_tok out ts"

lemma toks_simps [simp]:
  "enc_toks [] = []" "enc_toks (t # ts) = enc_tok t @ enc_toks ts" "enc_toks (us @ ts) = enc_toks us @ enc_toks ts"
  "run_toks out [] = out" "run_toks out (t # ts) = run_toks (run_tok out t) ts"
  "run_toks out (us @ ts) = run_toks (run_toks out us) ts"
  by (simp_all add: enc_toks_def run_toks_def)

lemma toks_ok_append [simp]: "toks_ok out (us @ ts) \<longleftrightarrow> toks_ok out us \<and> toks_ok (run_toks out us) ts"
  by (induction us arbitrary: out) auto

lemma copy_back_eq:
  "ref < length out \<Longrightarrow> length out + n \<le> cap \<Longrightarrow> copy_back cap out ref n = Some (copy_n out ref n)"
  by (induction n arbitrary: out ref) (simp_all add: rd_def emit_def)

lemma decompress_goon:
  "decompress_step p out_len ip out = Some (Goon ip' out') \<Longrightarrow>
   decompress_loop p out_len ip out =
     (if ip' < length p then decompress_loop p out_len ip' out' else Some (LzfOk out'))"
  by (subst decompress_loop.simps) simp

lemma length_copy_n [simp]: "length (copy_n out ref n) = length out + n"
  by (induction out ref n rule: copy_n.induct) simp_all

lemma length_run_tok: "length out \<le> length (run_tok out t)"
  by (cases t) simp_all

lemma length_run_toks: "length out \<le> length (run_toks out ts)"
proof (induction ts arbitrary: out)
  case (Cons t ts)
  then show ?case using length_run_tok [of out t] by (auto intro: le_trans)
qed simp

lemma unat_u8: "n < 256 \<Longrightarrow> unat (of_nat n :: u8) = n"
  by (simp only: unsigned_of_nat) (simp add: take_bit_nat_eq_self)

lemma unat_u8_mod: "unat (of_nat n :: u8) = n mod 256"
  by (simp add: unsigned_of_nat take_bit_eq_mod)

lemma back_offset:
  "off = hi * 256 + lo \<Longrightarrow> off < n \<Longrightarrow> int n - int (hi * 256) - 1 - int lo = int (n - off - 1)"
  by simp

lemma decompress_lit:
  assumes "ip < length p" "unat (p ! ip) = c" "c < 32" "length out + (c + 1) \<le> out_len"
    "ip + 1 + (c + 1) \<le> length p"
  shows "decompress_loop p out_len ip out =
    (let out' = out @ take (c + 1) (drop (ip + 1) p) in
     if ip + 1 + (c + 1) < length p then decompress_loop p out_len (ip + 1 + (c + 1)) out'
     else Some (LzfOk out'))"
proof -
  have "rd p ip = Some (p ! ip)" "peek p (ip + 1) (c + 1) = Some (take (c + 1) (drop (ip + 1) p))"
    using assms(1,5) by (simp_all add: rd_def peek_def)
  then have "decompress_step p out_len ip out =
      Some (Goon (ip + 1 + (c + 1)) (out @ take (c + 1) (drop (ip + 1) p)))"
    using assms(2-5) by (simp add: decompress_step_def literal_run_def emits_def)
  from decompress_goon [OF this] show ?thesis by (simp only: Let_def)
qed

text \<open>A reference whose length and offset are read goes on with the bytes copied.\<close>

lemma back_reference_goon:
  assumes "ip < length p" "unat (p ! ip) = c" "32 \<le> c" "ip + 1 < length p"
    "long_length p (c div 32) (ip + 1) = Some (Some (len, ip'))" "ip' < length p"
    "off = (c mod 32) * 256 + unat (p ! ip')" "off < length out" "length out + (len + 2) \<le> out_len"
  shows "decompress_step p out_len ip out = Some (Goon (ip' + 1) (copy_n out (length out - off - 1) (len + 2)))"
proof -
  have "rd p ip = Some (p ! ip)" "rd p ip' = Some (p ! ip')" using assms(1,6) by (simp_all add: rd_def)
  moreover have "copy_back out_len out (length out - off - 1) (len + 2) =
      Some (copy_n out (length out - off - 1) (len + 2))"
    using assms(8,9) by (intro copy_back_eq) simp_all
  ultimately show ?thesis
    using assms(2-4,9)
    by (simp only: decompress_step_def back_reference_def Let_def assms(2,5) back_offset [OF assms(7,8)]
        bind.bind_lunit option.case prod.case nat_int of_nat_less_0_iff if_False not_less [symmetric]) simp
qed

lemma decompress_short:
  assumes "ip + 1 < length p" "unat (p ! ip) = c" "c div 32 = q" "0 < q" "q \<noteq> 7"
    "off = (c mod 32) * 256 + unat (p ! (ip + 1))" "off < length out" "length out + q + 2 \<le> out_len"
  shows "decompress_loop p out_len ip out =
    (let out' = copy_n out (length out - off - 1) (q + 2) in
     if ip + 2 < length p then decompress_loop p out_len (ip + 2) out' else Some (LzfOk out'))"
proof -
  have "32 \<le> c" using assms(3,4) by (metis div_less not_less less_irrefl)
  moreover have "long_length p (c div 32) (ip + 1) = Some (Some (q, ip + 1))"
    using assms(3,5) by (simp add: long_length_def)
  ultimately have "decompress_step p out_len ip out =
      Some (Goon (ip + 1 + 1) (copy_n out (length out - off - 1) (q + 2)))"
    using assms by (intro back_reference_goon) simp_all
  moreover have "ip + 1 + 1 = ip + 2" by simp
  ultimately show ?thesis by (simp only: decompress_goon Let_def)
qed

lemma decompress_long:
  assumes "ip + 2 < length p" "unat (p ! ip) = c" "c div 32 = 7"
    "off = (c mod 32) * 256 + unat (p ! (ip + 2))" "off < length out"
    "length out + n \<le> out_len" "unat (p ! (ip + 1)) = n - 9" "9 \<le> n"
  shows "decompress_loop p out_len ip out =
    (let out' = copy_n out (length out - off - 1) n in
     if ip + 3 < length p then decompress_loop p out_len (ip + 3) out' else Some (LzfOk out'))"
proof -
  have "32 \<le> c" using assms(3) by (metis div_less not_less numeral_neq_zero)
  moreover have "long_length p (c div 32) (ip + 1) = Some (Some (7 + (n - 9), ip + 2))"
    using assms(1,3,7) by (simp add: long_length_def rd_def)
  ultimately have "decompress_step p out_len ip out =
      Some (Goon (ip + 2 + 1) (copy_n out (length out - off - 1) (7 + (n - 9) + 2)))"
    using assms by (intro back_reference_goon) simp_all
  moreover have "ip + 2 + 1 = ip + 3" "7 + (n - 9) + 2 = n" using assms(8) by simp_all
  ultimately show ?thesis by (simp only: decompress_goon Let_def)
qed

lemma decompress_tok:
  assumes "p = A @ enc_tok t @ B" "ip = length A" "tok_ok out t" "length (run_tok out t) \<le> out_len"
  shows "decompress_loop p out_len ip out =
    (if B = [] then Some (LzfOk (run_tok out t))
     else decompress_loop p out_len (ip + length (enc_tok t)) (run_tok out t))"
proof (cases t)
  case (Lit xs)
  with assms(3) have b: "length xs - 1 < 32" "length xs - 1 + 1 = length xs"
    by auto
  have u: "unat (of_nat (length xs - 1) :: u8) = length xs - 1"
    using b(1) by (intro unat_u8) simp
  have p: "p ! ip = of_nat (length xs - 1)" "length p = ip + 1 + length xs + length B"
    "take (length xs) (drop (ip + 1) p) = xs" "length out + length xs \<le> out_len"
    using assms Lit by simp_all
  have up: "unat (p ! ip) = length xs - 1" using p(1) u by (simp only:)
  have "ip < length p" "length out + (length xs - 1 + 1) \<le> out_len"
    "ip + 1 + (length xs - 1 + 1) \<le> length p"
    using p b(2) by simp_all
  note decompress_lit [OF this(1) up b(1) this(2,3), unfolded b(2) p(3)]
  then show ?thesis using Lit p(2) by (simp add: Let_def)
next
  case (Ref off n)
  with assms(3,4) have o: "off < 8192" "off < length out" "3 \<le> n" "n \<le> 264" "length out + n \<le> out_len"
    by simp_all
  have hi: "off div 256 < 32" "off = off div 256 * 256 + off mod 256" using o(1) by simp_all
  show ?thesis
  proof (cases "n - 2 < 7")
    case True
    let ?c = "off div 256 + (n - 2) * 32"
    have c: "unat (of_nat ?c :: u8) = ?c" using hi(1) True by (intro unat_u8) simp
    have p: "p ! ip = of_nat ?c" "p ! (ip + 1) = of_nat off" "length p = ip + 2 + length B"
      using assms(1,2) Ref True by (simp_all add: nth_append)
    have up: "unat (p ! ip) = ?c" using p(1) c by (simp only:)
    have "?c div 32 = n - 2" "0 < n - 2" "n - 2 \<noteq> 7" "off = (?c mod 32) * 256 + unat (p ! (ip + 1))"
      "length out + (n - 2) + 2 \<le> out_len" "ip + 1 < length p"
      using True o hi p(3) unat_u8_mod [of off] unfolding p(2) by simp_all
    have n2: "n - 2 + 2 = n" using o(3) by simp
    note decompress_short [OF \<open>ip + 1 < length p\<close> up \<open>?c div 32 = n - 2\<close> \<open>0 < n - 2\<close> \<open>n - 2 \<noteq> 7\<close>
      \<open>off = (?c mod 32) * 256 + unat (p ! (ip + 1))\<close> o(2) \<open>length out + (n - 2) + 2 \<le> out_len\<close>,
      unfolded n2]
    then show ?thesis using Ref True o(3) p(3) by (simp add: Let_def)
  next
    case False
    let ?c = "off div 256 + 7 * 32"
    have c: "unat (of_nat ?c :: u8) = ?c" "unat (of_nat (n - 2 - 7) :: u8) = n - 9"
      using hi(1) o(4) unat_u8 [of ?c] unat_u8 [of "n - 2 - 7"] by simp_all
    have p: "p ! ip = of_nat ?c" "p ! (ip + 1) = of_nat (n - 2 - 7)" "p ! (ip + 2) = of_nat off"
      "length p = ip + 3 + length B"
      using assms(1,2) Ref False by (simp_all add: nth_append)
    have up: "unat (p ! ip) = ?c" using p(1) c(1) by (simp only:)
    have lp: "unat (p ! (ip + 1)) = n - 9" using p(2) c(2) by (simp only:)
    have "?c div 32 = 7" "off = (?c mod 32) * 256 + unat (p ! (ip + 2))" "9 \<le> n" "ip + 2 < length p"
      using False o hi p(4) unat_u8_mod [of off] unfolding p(3)
      by (simp_all only: mod_mult_self1) simp_all
    note decompress_long [OF this(4) up this(1,2) o(2,5) lp this(3)]
    then show ?thesis using Ref False p(4) by (simp add: Let_def numeral_3_eq_3)
  qed
qed

lemma enc_tok_ne [simp]: "enc_tok t \<noteq> []"
  by (cases t) simp_all

lemma decompress_toks:
  assumes "toks_ok out ts" "ts \<noteq> []" "length (run_toks out ts) \<le> out_len"
  shows "decompress_loop (A @ enc_toks ts) out_len (length A) out = Some (LzfOk (run_toks out ts))"
  using assms
proof (induction ts arbitrary: A out)
  case (Cons t ts)
  have len: "length (run_tok out t) \<le> out_len"
    using Cons.prems(3) length_run_toks [of "run_tok out t" ts] by simp
  have step: "decompress_loop (A @ enc_toks (t # ts)) out_len (length A) out =
    (if enc_toks ts = [] then Some (LzfOk (run_tok out t))
     else decompress_loop (A @ enc_toks (t # ts)) out_len (length A + length (enc_tok t)) (run_tok out t))"
    using Cons.prems(1) len by (intro decompress_tok) simp_all
  show ?case
  proof (cases ts)
    case Nil
    then show ?thesis using step by simp
  next
    case (Cons u us)
    have "decompress_loop ((A @ enc_tok t) @ enc_toks ts) out_len (length (A @ enc_tok t)) (run_tok out t)
        = Some (LzfOk (run_toks (run_tok out t) ts))"
      using Cons.prems Cons by (intro Cons.IH) auto
    then show ?thesis using step Cons by simp
  qed
qed simp

section \<open>The match\<close>

lemma cmp_tail_spec:
  assumes "ip + maxlen \<le> length p" "ref < ip" "\<forall>j\<le>len. p ! (ref + j) = p ! (ip + j)"
  shows "\<exists>l. cmp_tail p ref ip maxlen len = Some l \<and> len < l \<and> l \<le> max (len + 1) maxlen \<and>
    (\<forall>j<l. p ! (ref + j) = p ! (ip + j))"
  using assms
proof (induction p ref ip maxlen len rule: cmp_tail.induct)
  case (1 p ref ip maxlen len)
  show ?case
  proof (cases "len + 1 < maxlen \<and> p ! (ref + (len + 1)) = p ! (ip + (len + 1))")
    case True
    have all: "\<forall>j\<le>len + 1. p ! (ref + j) = p ! (ip + j)"
      using 1(4) True by (metis le_Suc_eq Suc_eq_plus1)
    have rd: "rd p (ref + (len + 1)) = Some (p ! (ref + (len + 1)))"
      "rd p (ip + (len + 1)) = Some (p ! (ip + (len + 1)))"
      using 1(2,3) True by (simp_all add: rd_def)
    obtain l where l: "cmp_tail p ref ip maxlen (len + 1) = Some l" "len + 1 < l"
      "l \<le> max (len + 1 + 1) maxlen" "\<forall>j<l. p ! (ref + j) = p ! (ip + j)"
      using 1(1) [OF _ rd _ 1(2) 1(3) all] True by blast
    have "cmp_tail p ref ip maxlen len = Some l"
      using True rd l(1) by (subst cmp_tail.simps) simp
    then show ?thesis using l True by auto
  next
    case False
    have "cmp_tail p ref ip maxlen len = Some (len + 1)"
      using False 1(2,3) by (subst cmp_tail.simps) (auto simp: rd_def)
    then show ?thesis using 1(4) by auto
  qed
qed

lemma cmp_run_spec:
  assumes "ip + len + k < length p" "ref < ip" "\<forall>j\<le>len. p ! (ref + j) = p ! (ip + j)"
  shows "\<exists>b l. cmp_run p ref ip k len = Some (b, l) \<and> len \<le> l \<and> l \<le> len + k \<and>
    (\<forall>j<l. p ! (ref + j) = p ! (ip + j)) \<and> (if b then l = len + k \<and> p ! (ref + l) = p ! (ip + l) else len < l)"
  using assms
proof (induction k arbitrary: len)
  case (Suc k)
  have rd: "rd p (ref + (len + 1)) = Some (p ! (ref + (len + 1)))"
      "rd p (ip + (len + 1)) = Some (p ! (ip + (len + 1)))"
    using Suc.prems(1,2) by (simp_all add: rd_def)
  show ?case
  proof (cases "p ! (ref + (len + 1)) = p ! (ip + (len + 1))")
    case True
    then have all: "\<forall>j\<le>len + 1. p ! (ref + j) = p ! (ip + j)"
      using Suc.prems(3) by (metis le_Suc_eq Suc_eq_plus1)
    show ?thesis using Suc.IH [OF _ Suc.prems(2) all] Suc.prems(1) rd True by fastforce
  next
    case False
    then show ?thesis using rd Suc.prems(3) by (auto intro!: exI [of _ False] exI [of _ "len + 1"])
  qed
qed auto

lemma match_len_spec:
  assumes "ref < ip" "ip + 4 < length p" "\<forall>j\<le>2. p ! (ref + j) = p ! (ip + j)"
  shows "\<exists>l. match_len p ref ip = Some l \<and> 3 \<le> l \<and> l \<le> MAX_REF \<and> ip + l \<le> length p \<and>
    (\<forall>j<l. p ! (ref + j) = p ! (ip + j))"
proof -
  define m where "m = length p - ip - 2"
  define maxlen where "maxlen = (if m > MAX_REF then MAX_REF else m)"
  have mx: "ip + maxlen \<le> length p" "3 \<le> maxlen" "maxlen \<le> MAX_REF" "MAX_REF = 264" "ip + maxlen + 2 \<le> length p"
    using assms(2) by (auto simp: m_def maxlen_def MAX_REF_def)
  have unf: "match_len p ref ip = (if maxlen > 16 then do {
      (all, len) \<leftarrow> cmp_run p ref ip 16 2; if all then cmp_tail p ref ip maxlen len else Some len }
    else cmp_tail p ref ip maxlen 2)"
    unfolding match_len_def Let_def m_def maxlen_def by (rule refl)
  show ?thesis
  proof (cases "maxlen > 16")
    case True
    obtain b l where l: "cmp_run p ref ip 16 2 = Some (b, l)" "2 \<le> l" "l \<le> 2 + 16"
      "\<forall>j<l. p ! (ref + j) = p ! (ip + j)"
      "if b then l = 2 + 16 \<and> p ! (ref + l) = p ! (ip + l) else 2 < l"
      using cmp_run_spec [of ip 2 16 p ref] mx True assms by auto
    show ?thesis
    proof (cases b)
      case True
      have all: "\<forall>j\<le>l. p ! (ref + j) = p ! (ip + j)" and l18: "l = 18"
        using l True by (auto simp: le_less)
      show ?thesis
        using cmp_tail_spec [OF mx(1) assms(1) all] unf \<open>maxlen > 16\<close> l(1) l18 True mx by auto
    next
      case False
      then show ?thesis using unf l \<open>maxlen > 16\<close> mx by auto
    qed
  next
    case False
    then show ?thesis using cmp_tail_spec [OF mx(1) assms(1,3)] unf mx by auto
  qed
qed

lemma copy_n_match:
  assumes "ref < ip" "ip + l \<le> length p" "\<forall>j<l. p ! (ref + j) = p ! (ip + j)"
  shows "copy_n (take ip p) ref l = take (ip + l) p"
  using assms
proof (induction l arbitrary: ip ref)
  case (Suc l)
  have "take ip p @ [take ip p ! ref] = take (Suc ip) p"
    using Suc.prems by (auto simp: take_Suc_conv_app_nth)
  moreover have "copy_n (take (Suc ip) p) (Suc ref) l = take (Suc ip + l) p"
    using Suc.prems by (intro Suc.IH) auto
  ultimately show ?case by simp
qed simp

section \<open>The compressor's invariant\<close>

text \<open>
  What the compressor has written is a list of tokens that expands to the input read so far. With
  an open run of \<open>lit\<close> literals, the tokens are followed by a byte for the run's header and the
  literals. The third part bounds the size: 33 bytes for 32, and one header for a run cut short.
\<close>

definition closed :: "bytes \<Rightarrow> nat \<Rightarrow> nat \<Rightarrow> bytes \<Rightarrow> bool" where
  "closed p ip s out \<longleftrightarrow> (\<exists>ts. out = enc_toks ts \<and> toks_ok [] ts \<and> run_toks [] ts = take ip p) \<and>
     ip \<le> length p \<and> 32 * length out \<le> 33 * ip + s"

definition open_run :: "bytes \<Rightarrow> nat \<Rightarrow> nat \<Rightarrow> bytes \<Rightarrow> bool" where
  "open_run p ip lit out \<longleftrightarrow> (\<exists>o1 h. out = o1 @ h # take lit (drop (ip - lit) p) \<and> closed p (ip - lit) 0 o1) \<and>
     lit \<le> ip \<and> ip \<le> length p \<and> lit \<le> 32"

lemma open_run_length: "open_run p ip lit out \<Longrightarrow> lit + 1 \<le> length out \<and> 32 * length out \<le> 33 * ip + 32"
  by (auto simp: open_run_def closed_def)

lemma open_run_start: "closed p ip 0 out \<Longrightarrow> open_run p ip 0 (start_run out)"
  by (auto simp: open_run_def start_run_def closed_def)

lemma open_run_literal:
  assumes "open_run p ip lit out" "ip < length p" "lit < 32"
  shows "open_run p (ip + 1) (lit + 1) (out @ [p ! ip])"
proof -
  have "take (lit + 1) (drop (ip - lit) p) = take lit (drop (ip - lit) p) @ [p ! ip]"
    using assms by (auto simp: open_run_def take_Suc_conv_app_nth)
  then show ?thesis using assms by (auto simp: open_run_def)
qed

lemma stop_run_closed:
  assumes "open_run p ip lit out" "length out - lit - 1 < cap"
  shows "\<exists>o1. stop_run cap out lit = Some o1 \<and> length o1 = length out \<and>
    closed p ip 32 (undo_run o1 lit) \<and> (lit = 32 \<longrightarrow> closed p ip 0 o1)"
proof -
  obtain o1 h where o1: "out = o1 @ h # take lit (drop (ip - lit) p)" "closed p (ip - lit) 0 o1"
    and b: "lit \<le> ip" "ip \<le> length p" "lit \<le> 32"
    using assms(1) by (auto simp: open_run_def)
  let ?l = "take lit (drop (ip - lit) p)"
  have len: "length ?l = lit" using b by simp
  obtain ts where ts: "o1 = enc_toks ts" "toks_ok [] ts" "run_toks [] ts = take (ip - lit) p"
    and sz: "32 * length o1 \<le> 33 * (ip - lit)"
    using o1(2) by (auto simp: closed_def)
  let ?r = "o1 @ (of_nat lit - 1) # ?l"
  have "out[length o1 := of_nat lit - 1] = ?r" using o1(1) by simp
  then have st: "stop_run cap out lit = Some ?r" "length ?r = length out"
    using assms(2) o1(1) len by (simp_all add: stop_run_def)
  show ?thesis
  proof (cases lit)
    case 0
    then have "closed p ip 32 (undo_run ?r lit)"
      using o1(2) by (auto simp: closed_def undo_run_def)
    then show ?thesis using st 0 by auto
  next
    case (Suc k)
    have "take (ip - lit) p @ ?l = take ip p"
      using b by (metis add.commute le_add_diff_inverse take_add)
    moreover have "enc_tok (Lit ?l) = (of_nat lit - 1) # ?l" using len Suc by simp
    ultimately have "?r = enc_toks (ts @ [Lit ?l])" "toks_ok [] (ts @ [Lit ?l])"
      "run_toks [] (ts @ [Lit ?l]) = take ip p"
      using ts b len Suc by simp_all
    then have "\<exists>ts. ?r = enc_toks ts \<and> toks_ok [] ts \<and> run_toks [] ts = take ip p" by blast
    moreover have "32 * length ?r \<le> 33 * ip + 32" "lit = 32 \<longrightarrow> 32 * length ?r \<le> 33 * ip"
      using sz b len by (simp, auto)
    ultimately have "closed p ip 32 ?r" "lit = 32 \<longrightarrow> closed p ip 0 ?r"
      unfolding closed_def using b(2) by auto
    then show ?thesis using st Suc by (simp only: undo_run_def) simp
  qed
qed

lemma closed_ref:
  assumes "closed p ip 32 out" "ref < ip" "ip - ref - 1 < 8192" "3 \<le> l" "l \<le> 264" "ip + l \<le> length p"
    "\<forall>j<l. p ! (ref + j) = p ! (ip + j)"
  shows "closed p (ip + l) 0 (out @ enc_tok (Ref (ip - ref - 1) l))"
proof -
  obtain ts where ts: "out = enc_toks ts" "toks_ok [] ts" "run_toks [] ts = take ip p"
    and sz: "ip \<le> length p" "32 * length out \<le> 33 * ip + 32"
    using assms(1) by (auto simp: closed_def)
  let ?t = "Ref (ip - ref - 1) l"
  have "run_tok (take ip p) ?t = take (ip + l) p"
    using copy_n_match [OF assms(2,6,7)] assms(2) sz(1) by simp
  moreover have "tok_ok (take ip p) ?t" using assms(2-5) sz(1) by simp
  ultimately have "out @ enc_tok ?t = enc_toks (ts @ [?t])" "toks_ok [] (ts @ [?t])"
    "run_toks [] (ts @ [?t]) = take (ip + l) p"
    using ts by (simp_all del: enc_tok.simps run_tok.simps tok_ok.simps)
  then have "\<exists>ts. out @ enc_tok ?t = enc_toks ts \<and> toks_ok [] ts \<and> run_toks [] ts = take (ip + l) p"
    by blast
  moreover have "32 * length (out @ enc_tok ?t) \<le> 33 * (ip + l)" using sz(2) assms(4) by auto
  ultimately show ?thesis using assms(6) by (simp add: closed_def)
qed

section \<open>The compressor\<close>

lemma emit_room: "length out < cap \<Longrightarrow> emit cap out b = Some (out @ [b])"
  by (simp add: emit_def)

lemma emit_ref_eq:
  assumes "length out + 3 \<le> cap" "l = n + 2"
  shows "emit_ref cap out off n = Some (out @ enc_tok (Ref off l))"
  using assms by (simp add: emit_ref_def emit_room)

lemma length_start_run [simp]: "length (start_run out) = length out + 1"
  by (simp add: start_run_def)

lemma length_undo_run: "length (undo_run out lit) \<le> length out"
  by (simp add: undo_run_def)

lemma full_run:
  assumes "open_run p ip 32 out" "length out \<le> cap"
  shows "\<exists>o2. stop_run cap out 32 = Some o2 \<and> open_run p ip 0 (start_run o2) \<and> length o2 = length out"
proof -
  have "length out - 32 - 1 < cap" using open_run_length [OF assms(1)] assms(2) by arith
  from stop_run_closed [OF assms(1) this] show ?thesis by (auto intro: open_run_start)
qed

definition tail_bound :: "bytes \<Rightarrow> nat \<Rightarrow> nat \<Rightarrow> nat" where
  "tail_bound p ip lit = (length p - ip) + (if lit + (length p - ip) \<ge> 32 then 1 else 0)"

lemma tail_literals_spec:
  assumes "open_run p ip lit out" "lit < 32" "length p - ip \<le> 2" "length out + tail_bound p ip lit \<le> cap"
  shows "\<exists>lit' o1. tail_literals p cap ip lit out = Some (lit', o1) \<and> open_run p (length p) lit' o1 \<and>
    lit' < 32 \<and> length o1 \<le> length out + tail_bound p ip lit"
  using assms
proof (induction p cap ip lit out rule: tail_literals.induct)
  case (1 p cap ip lit out)
  show ?case
  proof (cases "ip < length p")
    case False
    then have "ip = length p" using 1(3) by (simp add: open_run_def)
    then show ?thesis using 1(3,4) False by (subst tail_literals.simps) simp
  next
    case True
    let ?o1 = "out @ [p ! ip]"
    have e: "emit cap out (p ! ip) = Some ?o1"
      using 1(6) True by (intro emit_room) (auto simp: tail_bound_def)
    have c: "rd p ip = Some (p ! ip)" using True by (simp add: rd_def)
    have run: "open_run p (ip + 1) (lit + 1) ?o1"
      by (rule open_run_literal [OF 1(3) True 1(4)])
    show ?thesis
    proof (cases "lit + 1 = MAX_LIT")
      case full: True
      then have l: "lit + 1 = 32" by (simp add: MAX_LIT_def)
      have tb: "length ?o1 + 1 + tail_bound p (ip + 1) 0 \<le> length out + tail_bound p ip lit"
        using True l 1(5) by (auto simp: tail_bound_def)
      obtain o2 where o2: "stop_run cap ?o1 32 = Some o2" "open_run p (ip + 1) 0 (start_run o2)"
        "length o2 = length ?o1"
        using full_run [OF run [unfolded l], of cap] tb 1(6) by auto
      have le: "length (start_run o2) + tail_bound p (ip + 1) 0 \<le> cap" using o2(3) tb 1(6) by simp
      have "\<exists>lit' o1. tail_literals p cap (ip + 1) 0 (start_run o2) = Some (lit', o1) \<and>
        open_run p (length p) lit' o1 \<and> lit' < 32 \<and>
        length o1 \<le> length (start_run o2) + tail_bound p (ip + 1) 0"
        using 1(1) [OF True c e full _ o2(2) _ _ le] o2(1) l 1(5) by simp
      then show ?thesis
        using True c e full o2(1,3) l tb by (subst tail_literals.simps) fastforce
    next
      case False
      then have l: "lit + 1 < 32" using 1(4) by (simp add: MAX_LIT_def)
      have tb: "length ?o1 + tail_bound p (ip + 1) (lit + 1) = length out + tail_bound p ip lit"
        using True by (auto simp: tail_bound_def)
      have le: "length ?o1 + tail_bound p (ip + 1) (lit + 1) \<le> cap" using tb 1(6) by simp
      have "length p - (ip + 1) \<le> 2" using 1(5) by simp
      from 1(2) [OF True c e False run l this le]
      have "\<exists>lit' o1. tail_literals p cap (ip + 1) (lit + 1) ?o1 = Some (lit', o1) \<and>
        open_run p (length p) lit' o1 \<and> lit' < 32 \<and> length o1 \<le> length out + tail_bound p ip lit"
        unfolding tb .
      moreover have "tail_literals p cap ip lit out = tail_literals p cap (ip + 1) (lit + 1) ?o1"
        using True c e False by (subst tail_literals.simps) simp
      ultimately show ?thesis by simp
    qed
  qed
qed

text \<open>What a run of the compressor from a point of the input must end with.\<close>

definition compressed :: "bytes \<Rightarrow> nat \<Rightarrow> bytes option option \<Rightarrow> bool" where
  "compressed p out_len res \<longleftrightarrow> (\<exists>r. res = Some r \<and>
     (\<forall>c. r = Some c \<longrightarrow> length c \<le> out_len \<and> closed p (length p) 32 c) \<and>
     (33 * length p + 128 \<le> 32 * out_len \<longrightarrow> r \<noteq> None))"

lemma finish_spec:
  assumes "open_run p ip lit out" "lit < 32" "length p - ip \<le> 2" "out_len < cap"
  shows "compressed p out_len (finish p out_len cap ip lit out)"
proof (cases "length out + 3 > out_len")
  case True
  moreover have "\<not> 33 * length p + 128 \<le> 32 * out_len"
    using open_run_length [OF assms(1)] assms(1) True by (auto simp: open_run_def)
  ultimately show ?thesis by (simp add: finish_def compressed_def)
next
  case False
  have tb: "tail_bound p ip lit \<le> 3" using assms(3) by (simp add: tail_bound_def)
  have "length out + tail_bound p ip lit \<le> cap" using False tb assms(4) by linarith
  from tail_literals_spec [OF assms(1-3) this] obtain lit' o1 where
    o1: "tail_literals p cap ip lit out = Some (lit', o1)" "open_run p (length p) lit' o1" "lit' < 32"
      "length o1 \<le> length out + tail_bound p ip lit"
    by blast
  have "length o1 \<le> out_len" using o1(4) tb False by linarith
  moreover obtain o2 where "stop_run cap o1 lit' = Some o2" "length o2 = length o1"
      "closed p (length p) 32 (undo_run o2 lit')"
  proof -
    have "length o1 - lit' - 1 < cap" using \<open>length o1 \<le> out_len\<close> assms(4) by simp
    from stop_run_closed [OF o1(2) this] show ?thesis using that by blast
  qed
  ultimately show ?thesis
    using o1(1) False length_undo_run [of o2 lit'] by (simp add: finish_def compressed_def)
qed

lemma compressed_zero:
  "32 * out_len < 33 * length p + 128 \<Longrightarrow> compressed p out_len (Some None)"
  by (simp add: compressed_def)

lemma same3_match:
  assumes "ref < ip" "ip + 4 < length p"
  shows "\<exists>b. same3 p ref ip = Some b \<and> (b \<longrightarrow> (\<forall>j\<le>2. p ! (ref + j) = p ! (ip + j)))"
proof -
  have "\<And>j. j \<le> (2 :: nat) \<longleftrightarrow> j = 0 \<or> j = 1 \<or> j = 2" by auto
  then show ?thesis using assms by (auto simp: same3_def rd_def)
qed

lemma FRST_ok: "i + 1 < length p \<Longrightarrow> FRST p i \<noteq> None"
  by (simp add: FRST_def rd_def)

lemma NEXT_ok: "i + 2 < length p \<Longrightarrow> NEXT v p i \<noteq> None"
  by (simp add: NEXT_def rd_def)

lemma rehash_ok:
  assumes "2 \<le> ip" "ip + 2 < length p"
  shows "\<exists>htab' h. rehash p htab ip = Some (htab', h)"
proof -
  have b: "ip - 2 + 1 < length p" "ip - 2 + 2 < length p" "ip - 1 + 2 < length p" using assms by simp_all
  obtain h1 where "FRST p (ip - 2) = Some h1" using FRST_ok [OF b(1)] by auto
  moreover obtain h2 where "NEXT h1 p (ip - 2) = Some h2" using NEXT_ok [OF b(2), of h1] by auto
  moreover obtain h3 where "NEXT h2 p (ip - 1) = Some h3" using NEXT_ok [OF b(3), of h2] by auto
  ultimately show ?thesis by (simp add: rehash_def)
qed

lemma match_at_spec:
  "\<exists>b. match_at p ref ip = Some b \<and> (b \<longrightarrow> nat ref < ip \<and> ip - nat ref - 1 < 8192 \<and>
    ip + 4 < length p \<and> (\<forall>j\<le>2. p ! (nat ref + j) = p ! (ip + j)))"
proof (cases "0 \<le> int ip - ref - 1 \<and> int ip - ref - 1 < MAX_OFF \<and> ip + 4 < length p \<and> ref > 0")
  case True
  then have "nat ref < ip" "ip - nat ref - 1 < 8192" by (auto simp: MAX_OFF_def)
  then show ?thesis using same3_match [of "nat ref" ip p] True by (auto simp: match_at_def Let_def)
qed (auto simp: match_at_def Let_def)

text \<open>What holds of the writer between two steps of the loop.\<close>

definition writer :: "bytes \<Rightarrow> nat \<Rightarrow> nat \<Rightarrow> nat \<Rightarrow> bytes \<Rightarrow> bool" where
  "writer p out_len ip lit out \<longleftrightarrow> open_run p ip lit out \<and> lit < 32 \<and> length out \<le> out_len + 1 \<and>
     (lit = 0 \<or> length out \<le> out_len)"

lemma lzf_literal_spec:
  assumes "writer p out_len ip lit out" "ip < length p" "out_len < cap"
  shows "\<exists>r. lzf_literal p out_len cap ip lit out = Some r \<and>
    (case r of None \<Rightarrow> 32 * out_len < 33 * length p + 128
     | Some (lit', out') \<Rightarrow> writer p out_len (ip + 1) lit' out')"
proof (cases "length out \<ge> out_len")
  case True
  then show ?thesis using open_run_length [of p ip lit out] assms(1,2)
    by (simp add: lzf_literal_def writer_def)
next
  case False
  let ?o1 = "out @ [p ! ip]"
  have e: "emit cap out (p ! ip) = Some ?o1" "rd p ip = Some (p ! ip)"
    using False assms(2,3) by (simp_all add: emit_def rd_def)
  have run: "open_run p (ip + 1) (lit + 1) ?o1" and "lit < 32"
    using assms(1,2) open_run_literal by (auto simp: writer_def)
  show ?thesis
  proof (cases "lit + 1 = MAX_LIT")
    case full: True
    then have l: "lit + 1 = 32" by (simp add: MAX_LIT_def)
    have "length ?o1 \<le> cap" using False assms(3) by simp
    from full_run [OF run [unfolded l] this] show ?thesis
      using False e full l by (auto simp: lzf_literal_def writer_def)
  next
    case part: False
    then show ?thesis
      using False e run \<open>lit < 32\<close> by (simp add: lzf_literal_def writer_def MAX_LIT_def)
  qed
qed

lemma lzf_match_spec:
  assumes "writer p out_len ip lit out" "out_len < cap" "ref < ip" "ip - ref - 1 < 8192" "ip + 4 < length p"
    "\<forall>j\<le>2. p ! (ref + j) = p ! (ip + j)"
  shows "\<exists>r. lzf_match p out_len cap ref ip lit out = Some r \<and>
    (case r of None \<Rightarrow> 32 * out_len < 33 * length p + 128
     | Some (ip', out') \<Rightarrow> writer p out_len ip' 0 out' \<and> ip + 3 \<le> ip' \<and> ip' \<le> length p)"
proof -
  have w: "open_run p ip lit out" "length out \<le> out_len + 1" "lit = 0 \<or> length out \<le> out_len" "lit < 32"
    using assms(1) by (simp_all add: writer_def)
  have "length out - lit - 1 < cap" using open_run_length [OF w(1)] w(2) assms(2) by arith
  from stop_run_closed [OF w(1) this] obtain o1 where
    o1: "stop_run cap out lit = Some o1" "length o1 = length out" "closed p ip 32 (undo_run o1 lit)"
    by blast
  let ?o2 = "undo_run o1 lit"
  show ?thesis
  proof (cases "length ?o2 + 3 + 1 \<ge> out_len")
    case True
    have "32 * length ?o2 \<le> 33 * ip + 32" using o1(3) by (simp add: closed_def)
    then show ?thesis using True o1(1) assms(5) by (simp add: lzf_match_def Let_def)
  next
    case False
    obtain l where l: "match_len p ref ip = Some l" "3 \<le> l" "l \<le> MAX_REF" "ip + l \<le> length p"
      "\<forall>j<l. p ! (ref + j) = p ! (ip + j)"
      using match_len_spec [OF assms(3,5,6)] by blast
    let ?o3 = "?o2 @ enc_tok (Ref (ip - ref - 1) l)"
    have e: "emit_ref cap ?o2 (ip - ref - 1) (l - 2) = Some ?o3"
      using False assms(2) l(2) by (intro emit_ref_eq) simp_all
    have "closed p (ip + l) 0 ?o3"
      using closed_ref [OF o1(3) assms(3,4) l(2) _ l(4,5)] l(3) by (simp add: MAX_REF_def)
    then have "writer p out_len (ip + l) 0 (start_run ?o3)"
      using open_run_start False by (simp add: writer_def)
    moreover have "ip + 1 + (l - 2 + 1) = ip + l" using l(2) by simp
    ultimately show ?thesis using o1(1) False l(1,2,4) e by (simp add: lzf_match_def Let_def)
  qed
qed

lemma lzf_loop_spec:
  assumes "writer p out_len ip lit out" "out_len < cap"
  shows "compressed p out_len (lzf_loop p out_len cap htab ip lit out hval0)"
  using assms
proof (induction "length p - ip" arbitrary: ip lit out htab hval0 rule: less_induct)
  case less
  note IH = less(1) and w = less(2) and cap = less(3)
  show ?case
  proof (cases "ip + 2 < length p")
    case False
    then have "length p - ip \<le> 2" by simp
    then show ?thesis using finish_spec [of p ip lit out out_len cap] w cap False
      by (subst lzf_loop.simps) (simp add: writer_def)
  next
    case ip: True
    obtain hval where hval: "NEXT hval0 p ip = Some hval" using NEXT_ok [OF ip, of hval0] by auto
    define ref where "ref = htab (IDX hval)"
    define htab1 where "htab1 = htab(IDX hval := int ip)"
    obtain b where b: "match_at p ref ip = Some b"
      "b \<longrightarrow> nat ref < ip \<and> ip - nat ref - 1 < 8192 \<and> ip + 4 < length p \<and>
        (\<forall>j\<le>2. p ! (nat ref + j) = p ! (ip + j))"
      using match_at_spec by blast
    note unf = lzf_loop.simps [of p out_len cap htab ip lit out hval0,
      unfolded hval option.case Let_def ref_def [symmetric] htab1_def [symmetric] b(1)]
    show ?thesis
    proof (cases b)
      case False
      obtain r where r: "lzf_literal p out_len cap ip lit out = Some r"
        "case r of None \<Rightarrow> 32 * out_len < 33 * length p + 128
         | Some (lit', out') \<Rightarrow> writer p out_len (ip + 1) lit' out'"
        using lzf_literal_spec [OF w _ cap] ip by fastforce
      show ?thesis
        using unf ip False r IH [of "ip + 1"] cap
        by (auto simp: compressed_zero split: option.splits prod.splits)
    next
      case True
      obtain r where r: "lzf_match p out_len cap (nat ref) ip lit out = Some r"
        "case r of None \<Rightarrow> 32 * out_len < 33 * length p + 128
         | Some (ip', out') \<Rightarrow> writer p out_len ip' 0 out' \<and> ip + 3 \<le> ip' \<and> ip' \<le> length p"
        using lzf_match_spec [OF w cap] b(2) True by blast
      show ?thesis
      proof (cases r)
        case None
        then show ?thesis using unf ip True r by (simp add: compressed_zero)
      next
        case (Some q)
        then obtain ip' out' where q: "r = Some (ip', out')" by (cases q) auto
        with r have r': "writer p out_len ip' 0 out'" "ip + 3 \<le> ip'" "ip' \<le> length p" by simp_all
        show ?thesis
        proof (cases "ip' + 2 \<ge> length p")
          case last: True
          then have "length p - ip' \<le> 2" by simp
          then show ?thesis
            using finish_spec [of p ip' 0 out' out_len cap] r' cap unf ip True r(1) q last
            by (simp add: writer_def)
        next
          case more: False
          have "2 \<le> ip'" "ip' + 2 < length p" using r'(2) more by simp_all
          from rehash_ok [OF this] obtain htab2 h where h: "rehash p htab1 ip' = Some (htab2, h)" by blast
          have "compressed p out_len (lzf_loop p out_len cap htab2 ip' 0 out' h)"
            using r' ip cap by (intro IH) simp_all
          then show ?thesis using unf ip True r(1) q more h by simp
        qed
      qed
    qed
  qed
qed

lemma lzf_compress_spec:
  assumes "2 \<le> length p" "out_len \<noteq> 0" "out_len < cap"
  shows "compressed p out_len (lzf_compress htab cap p out_len)"
proof -
  obtain h where h: "FRST p 0 = Some h" using FRST_ok [of 0 p] assms(1) by auto
  have "closed p 0 0 []" by (auto simp: closed_def intro: exI [of _ "[]"])
  then have "writer p out_len 0 0 (start_run [])"
    using open_run_start by (simp add: writer_def)
  then show ?thesis using lzf_loop_spec [OF _ assms(3)] h assms(1,2) by (auto simp: lzf_compress_def)
qed

lemma literal_run_safe:
  assumes "length out \<le> out_len"
  shows "\<exists>r. literal_run p out_len ctrl ip out = Some r \<and> (\<forall>ip' o'. r = Goon ip' o' \<longrightarrow> length o' \<le> out_len) \<and>
    (\<forall>o'. r \<noteq> Return (LzfOk o'))"
  by (auto simp: literal_run_def peek_def emits_def)

lemma back_reference_safe:
  assumes "length out \<le> out_len"
  shows "\<exists>r. back_reference p out_len ctrl ip out = Some r \<and> (\<forall>ip' o'. r = Goon ip' o' \<longrightarrow> length o' \<le> out_len) \<and>
    (\<forall>o'. r \<noteq> Return (LzfOk o'))"
proof (cases "ip \<ge> length p")
  case False
  obtain l where l: "long_length p (ctrl div 32) ip = Some l"
    using False by (cases "long_length p (ctrl div 32) ip") (simp_all add: long_length_def rd_def split: if_splits)
  have len: "\<And>len ip'. l = Some (len, ip') \<Longrightarrow> ip' < length p"
    using False l by (auto simp: long_length_def rd_def split: if_splits)
  show ?thesis
  proof (cases l)
    case (Some x)
    then obtain len ip' where x: "l = Some (len, ip')" "ip' < length p" using len by (cases x) auto
    define ref where "ref = int (length out) - int ((ctrl mod 32) * 256) - 1 - int (unat (p ! ip'))"
    have "ref < int (length out)" unfolding ref_def by linarith
    then have "\<not> ref < 0 \<Longrightarrow> nat ref < length out" by (simp add: nat_less_iff)
    then have "\<not> ref < 0 \<Longrightarrow> length out + len + 2 \<le> out_len \<Longrightarrow>
        copy_back out_len out (nat ref) (len + 2) = Some (copy_n out (nat ref) (len + 2))"
      by (intro copy_back_eq) simp_all
    moreover have "back_reference p out_len ctrl ip out =
        (if length out + len + 2 > out_len then Some (Return LzfE2BIG)
         else if ref < 0 then Some (Return LzfEINVAL)
         else copy_back out_len out (nat ref) (len + 2) \<bind> (\<lambda>out'. Some (Goon (ip' + 1) out')))"
      unfolding back_reference_def Let_def l x option.case prod.case ref_def
      using False x(2) by (simp only: rd_def if_True if_False bind.bind_lunit)
    ultimately show ?thesis by (simp del: copy_back.simps copy_n.simps)
  qed (use False l in \<open>simp add: back_reference_def\<close>)
qed (simp add: back_reference_def)

lemma decompress_loop_safe:
  assumes "ip < length p" "length out \<le> out_len"
  shows "\<exists>r. decompress_loop p out_len ip out = Some r \<and> (\<forall>o'. r = LzfOk o' \<longrightarrow> length o' \<le> out_len)"
  using assms
proof (induction "length p - ip" arbitrary: ip out rule: less_induct)
  case less
  have rd: "rd p ip = Some (p ! ip)" using less(2) by (simp add: rd_def)
  obtain r where r: "decompress_step p out_len ip out = Some r"
    "\<And>ip' o'. r = Goon ip' o' \<Longrightarrow> length o' \<le> out_len" "\<And>o'. r \<noteq> Return (LzfOk o')"
    using literal_run_safe [OF less(3), of p "unat (p ! ip)" "ip + 1"]
      back_reference_safe [OF less(3), of p "unat (p ! ip)" "ip + 1"]
    by (cases "unat (p ! ip) < 32") (auto simp: decompress_step_def rd simp del: add_Suc_right)
  show ?case
  proof (cases r)
    case (Return x)
    then show ?thesis using r(1,3) by (subst decompress_loop.simps) auto
  next
    case (Goon ip' o')
    with r have "length o' \<le> out_len" "ip < ip'" using decompress_step_gt by blast+
    then show ?thesis
      using less(1) [of ip' o'] less(2) decompress_goon [OF r(1) [unfolded Goon]] by simp
  qed
qed

lemma lzf_compress_total:
  "2 \<le> length p \<Longrightarrow> out_len \<noteq> 0 \<Longrightarrow> out_len < cap \<Longrightarrow> \<exists>r. lzf_compress htab cap p out_len = Some r"
  using lzf_compress_spec [of p out_len cap htab] by (auto simp: compressed_def)

section \<open>The properties\<close>

lemma lzf_compress_inverse:
  assumes "2 \<le> length p" "out_len < cap" "lzf_compress htab cap p out_len = Some (Some c)"
    "length p \<le> n"
  shows "length c \<le> out_len \<and> lzf_decompress c n = Some (LzfOk p)"
proof -
  have "out_len \<noteq> 0" using assms(3) by (auto simp: lzf_compress_def split: if_splits)
  from lzf_compress_spec [OF assms(1) this assms(2), of htab]
  have c: "length c \<le> out_len" "closed p (length p) 32 c" using assms(3) by (auto simp: compressed_def)
  then obtain ts where ts: "c = enc_toks ts" "toks_ok [] ts" "run_toks [] ts = p"
    by (auto simp: closed_def)
  then have "ts \<noteq> []" using assms(1) by auto
  with decompress_toks [OF ts(2), of n "[]"] ts assms(4) c(1) show ?thesis
    by (simp add: lzf_decompress_def)
qed

text \<open>C14: whatever the uninitialised hash table held, a result of \<open>lzf_compress\<close> fits the room
  given and \<open>lzf_decompress\<close> turns it back into the input.\<close>

theorem lzf_roundtrip:
  assumes "2 \<le> length p" "out_len < cap" "lzf_compress htab cap p out_len = Some (Some c)"
    "length p \<le> n"
  shows "length c \<le> out_len \<and> lzf_decompress c n = Some (LzfOk p)"
  by (rule lzf_compress_inverse [OF assms])

text \<open>C37: On an output block one byte larger than \<open>out_len\<close> (as \<open>rdbSaveLzfStringObject\<close>
  allocates it) and an input of two bytes or more, the compressor makes no access outside its
  buffers, and when \<open>out_len\<close> leaves 4 bytes beside 33 for every 32 of the input it does not give
  up.\<close>

theorem lzf_compress_safe:
  assumes "2 \<le> length p" "out_len \<noteq> 0" "out_len < cap"
  shows "\<exists>r. lzf_compress htab cap p out_len = Some r \<and>
    (33 * length p + 128 \<le> 32 * out_len \<longrightarrow> r \<noteq> None)"
  using lzf_compress_spec [OF assms, of htab] by (auto simp: compressed_def)

text \<open>C19: on any non-empty input, well-formed or not, the decompressor stays within both buffers,
  ends, and writes at most \<open>out_len\<close> bytes.\<close>

theorem lzf_decompress_safe:
  assumes "p \<noteq> []"
  shows "\<exists>r. lzf_decompress p out_len = Some r \<and> (\<forall>out. r = LzfOk out \<longrightarrow> length out \<le> out_len)"
  using decompress_loop_safe [of 0 p "[]" out_len] assms by (simp add: lzf_decompress_def)

text \<open>Concrete runs. The hash table starts as zeroes here.\<close>

definition lzf_sample :: bytes where
  "lzf_sample = [97, 98, 99, 97, 98, 99, 97, 98, 99, 97, 98, 99]"

lemmas lzf_eval = lzf_compress_def lzf_loop.simps finish_def tail_literals.simps MAX_LIT_def FRST_def
  NEXT_def rd_def emit_def start_run_def match_at_def lzf_literal_def lzf_match_def stop_run_def
  undo_run_def MAX_OFF_def IDX_def HLOG_def match_len_def cmp_tail.simps MAX_REF_def emit_ref_def
  same3_def rehash_def

lemma lzf_sample_compressed:
  "lzf_compress (\<lambda>_. 0) 13 lzf_sample 12 = Some (Some [3, 97, 98, 99, 97, 128, 2, 1, 98, 99])"
  by (simp add: lzf_sample_def lzf_eval)

theorem lzf_roundtrip_witness:
  "lzf_decompress [3, 97, 98, 99, 97, 128, 2, 1, 98, 99] 12 = Some (LzfOk lzf_sample)"
  using lzf_roundtrip [OF _ _ lzf_sample_compressed, of 12] by (simp add: lzf_sample_def)

theorem lzf_compress_safe_witness: "\<exists>r. lzf_compress (\<lambda>_. 7) 18 lzf_sample 17 = Some (Some r)"
  using lzf_compress_safe [of lzf_sample 17 18 "\<lambda>_. 7"] by (auto simp: lzf_sample_def)

theorem lzf_decompress_safe_witness: "lzf_decompress [224, 255] 100 \<noteq> None"
  using lzf_decompress_safe [of "[224, 255]" 100] by auto

text \<open>
  The block has to be larger than \<open>out_len\<close>: after a full run of 32 literals \<open>op\<close> may stand one byte
  behind the end of the output, and the header of the empty run is stored there (line 173) before
  the room is checked (line 176). One byte of input is read past its end by \<open>FRST\<close> (line 144).
\<close>

theorem lzf_compress_writes_past_end:
  "lzf_compress (\<lambda>_. 0) 33 [1, 2, 3, 4, 5, 6, 7, 8, 9, 10, 11, 12, 13, 14, 15, 16, 17, 18, 19, 20,
    21, 22, 23, 24, 25, 26, 27, 28, 29, 30, 31, 32, 2, 3, 4, 5, 6] 33 = None"
  by (simp add: lzf_eval)

theorem lzf_compress_reads_past_end: "lzf_compress htab 100 [65] 50 = None"
  by (simp add: lzf_eval)

end
