(* ===== verification/Redis_Object.thy ===== *)
theory Redis_Object
  imports Sds_Args
begin

text \<open>
  The string objects of \<open>apps/redis-2.0.4/redis.c\<close>: a string is kept as the text itself or, when it
  is the decimal form of a \<open>long\<close>, as the number. An object is represented by its contents; the
  reference count and the identity of an object are arguments where the code looks at them, and
  an integer that is taken from the table of shared objects is the number. A string passed to the
  C library is the memory from the pointer on, of which running off the end is \<open>None\<close>; the
  text of an sds is followed by a terminator.
\<close>

section \<open>Conversions of the C library\<close>

fun dec_scan :: "nat \<Rightarrow> bytes \<Rightarrow> (nat \<times> bytes) option" where
  "dec_scan acc [] = None"
| "dec_scan acc (c # cs) =
     (if 48 \<le> c \<and> c \<le> 57 then dec_scan (10 * acc + (unat c - 48)) cs else Some (acc, c # cs))"

fun skip_blank :: "bytes \<Rightarrow> bytes" where
  "skip_blank [] = []"
| "skip_blank (c # cs) = (if u8_isspace c then skip_blank cs else c # cs)"

definition saturate64 :: "int \<Rightarrow> int" where
  "saturate64 v = max (- (2 ^ 63)) (min (2 ^ 63 - 1) v)"

text \<open>\<open>strtoll(s, &endptr, 10)\<close> and, \<open>long\<close> having 64 bits, \<open>strtol\<close>: the value and the memory at
  \<open>endptr\<close>, which is the start when there is no number.\<close>

definition strtoll10 :: "bytes \<Rightarrow> (int \<times> bytes) option" where
  "strtoll10 mem =
     (case skip_blank mem of
        [] \<Rightarrow> None
      | c # cs \<Rightarrow>
          let s = (if c = 45 \<or> c = 43 then cs else c # cs) in
          (case s of
             [] \<Rightarrow> None
           | d # ds \<Rightarrow>
               if 48 \<le> d \<and> d \<le> 57 then do {
                 (n, e) \<leftarrow> dec_scan 0 s;
                 Some (saturate64 (if c = 45 then - int n else int n), e) }
               else Some (0, mem)))"

fun c_strcmp :: "bytes \<Rightarrow> bytes \<Rightarrow> int option" where
  "c_strcmp (a # as) (b # bs) =
     (if a \<noteq> b then Some (int (unat a) - int (unat b)) else if a = 0 then Some 0 else c_strcmp as bs)"
| "c_strcmp _ _ = None"

text \<open>\<open>ll2string\<close> with a buffer of \<open>len\<close> bytes: the text stored in it, without the terminator.\<close>

definition ll2string :: "nat \<Rightarrow> int \<Rightarrow> bytes option" where
  "ll2string len value =
     (if len = 0 then Some []
      else do {
        let v = (if value < 0 then unat (word_of_int (- value) :: u64) else nat value);
        (p, digits) \<leftarrow> put_digits 32 v 31 [];
        text \<leftarrow> (if value < 0 then if p < 0 then None else Some (45 # digits) else Some digits);
        let l = length text;
        Some (take (if l + 1 > len then len - 1 else l) text) })"

section \<open>String objects\<close>

datatype sobj = Raw bytes | Enc int

definition createStringObjectFromLongLong :: "int \<Rightarrow> sobj option" where
  "createStringObjectFromLongLong value =
     (if 0 \<le> value \<and> value < 10000 then Some (Enc value)
      else if - (2 ^ 63) \<le> value \<and> value < 2 ^ 63 then Some (Enc value)
      else map_option Raw (sdsfromlonglong value))"

text \<open>\<open>Some None\<close> is \<open>REDIS_ERR\<close>.\<close>

definition isStringRepresentableAsLong :: "bytes \<Rightarrow> int option option" where
  "isStringRepresentableAsLong s = do {
     (value, e) \<leftarrow> strtoll10 (s @ [0]);
     e0 \<leftarrow> rd e 0;
     if e0 \<noteq> 0 then Some None
     else do {
       b \<leftarrow> ll2string 32 value;
       let slen = length b;
       if length s \<noteq> slen then Some None
       else do { t \<leftarrow> peek s 0 slen; Some (if b \<noteq> t then None else Some value) } } }"

definition tryObjectEncoding :: "nat \<Rightarrow> sobj \<Rightarrow> sobj option" where
  "tryObjectEncoding refcount obj =
     (case obj of
        Enc v \<Rightarrow> Some (Enc v)
      | Raw s \<Rightarrow>
          if refcount > 1 then Some (Raw s)
          else do {
            r \<leftarrow> isStringRepresentableAsLong s;
            Some (case r of None \<Rightarrow> Raw s | Some v \<Rightarrow> Enc v) })"

text \<open>The text of \<open>getDecodedObject\<close>'s result.\<close>

definition getDecodedObject :: "sobj \<Rightarrow> bytes option" where
  "getDecodedObject obj = (case obj of Raw s \<Rightarrow> Some s | Enc v \<Rightarrow> ll2string 32 v)"

text \<open>\<open>same\<close> tells whether the two pointers are equal. The comparison of two sds is \<open>sdscmp\<close>, here
  on the contents.\<close>

definition contents_cmp :: "bytes \<Rightarrow> bytes \<Rightarrow> int" where
  "contents_cmp a b =
     (let m = min (length a) (length b); c = c_memcmp (take m a) (take m b)
      in if c = 0 then signed_take_bit 31 (int (length a) - int (length b)) else c)"

definition compareStringObjects :: "bool \<Rightarrow> sobj \<Rightarrow> sobj \<Rightarrow> int option" where
  "compareStringObjects same a b =
     (if same then Some 0
      else do {
        astr \<leftarrow> (case a of Enc v \<Rightarrow> ll2string 128 v | Raw s \<Rightarrow> Some s);
        bstr \<leftarrow> (case b of Enc v \<Rightarrow> ll2string 128 v | Raw s \<Rightarrow> Some s);
        (case (a, b) of
           (Raw _, Raw _) \<Rightarrow> Some (contents_cmp astr bstr)
         | _ \<Rightarrow> c_strcmp (astr @ [0]) (bstr @ [0])) })"

definition equalStringObjects :: "bool \<Rightarrow> sobj \<Rightarrow> sobj \<Rightarrow> bool option" where
  "equalStringObjects same a b =
     (case (a, b) of
        (Enc v, Enc w) \<Rightarrow> Some (v = w)
      | _ \<Rightarrow> map_option (\<lambda>c. c = 0) (compareStringObjects same a b))"

definition stringObjectLen :: "sobj \<Rightarrow> nat option" where
  "stringObjectLen obj = (case obj of Raw s \<Rightarrow> Some (length s) | Enc v \<Rightarrow> map_option length (ll2string 32 v))"

text \<open>\<open>Some None\<close> is \<open>REDIS_ERR\<close>; the object may be NULL.\<close>

definition getLongLongFromObject :: "sobj option \<Rightarrow> int option option" where
  "getLongLongFromObject obj =
     (case obj of
        None \<Rightarrow> Some (Some 0)
      | Some (Raw s) \<Rightarrow> do {
          (value, e) \<leftarrow> strtoll10 (s @ [0]);
          e0 \<leftarrow> rd e 0;
          Some (if e0 \<noteq> 0 then None else Some value) }
      | Some (Enc v) \<Rightarrow> Some (Some v))"

section \<open>The decimal text of a number\<close>

definition is_long :: "int \<Rightarrow> bool" where
  "is_long v \<longleftrightarrow> - (2 ^ 63) \<le> v \<and> v < 2 ^ 63"

definition dec_text :: "int \<Rightarrow> bytes" where
  "dec_text v = the (sdsfromlonglong v)"

lemma dec_text_digits:
  assumes "is_long v"
  shows "\<exists>ds. dec_text v = (if v < 0 then 45 # ds else ds) \<and> sdsfromlonglong v = Some (dec_text v) \<and>
    (\<forall>len > 20. ll2string len v = Some (dec_text v)) \<and>
    dec_value ds = nat \<bar>v\<bar> \<and> ds \<noteq> [] \<and> length ds \<le> 19 \<and> (\<forall>d \<in> set ds. 48 \<le> d \<and> d \<le> 57)"
proof -
  from signed_digits [of v] assms obtain ds where ds:
    "put_digits 32 (if v < 0 then unat (word_of_int (- v) :: u64) else nat v) 31 [] =
      Some (31 - int (length ds), ds)" "dec_value ds = nat \<bar>v\<bar>" "ds \<noteq> []"
    "length ds \<le> 19" "\<forall>d \<in> set ds. 48 \<le> d \<and> d \<le> 57"
    by (auto simp: is_long_def)
  have s: "sdsfromlonglong v = Some (if v < 0 then 45 # ds else ds)"
    using ds(1,4) by (simp only: sdsfromlonglong_def Let_def) simp
  have l: "ll2string len v = Some (if v < 0 then 45 # ds else ds)" if "len > 20" for len
    using ds(1,4) that by (simp only: ll2string_def Let_def) simp
  show ?thesis
    using ds s l by (intro exI [of _ ds]) (auto simp: dec_text_def)
qed

lemma sdsfromlonglong_eq [simp]: "is_long v \<Longrightarrow> sdsfromlonglong v = Some (dec_text v)"
  using dec_text_digits by blast

lemma ll2string_eq [simp]: "is_long v \<Longrightarrow> 20 < len \<Longrightarrow> ll2string len v = Some (dec_text v)"
  using dec_text_digits by blast

lemma dec_textE:
  assumes "is_long v"
  obtains ds where "dec_text v = (if v < 0 then 45 # ds else ds)" "dec_value ds = nat \<bar>v\<bar>"
    "ds \<noteq> []" "length ds \<le> 19" "\<forall>d \<in> set ds. 48 \<le> d \<and> d \<le> 57"
  using dec_text_digits [OF assms] by blast

lemma length_dec_text: "is_long v \<Longrightarrow> length (dec_text v) \<le> 20 \<and> dec_text v \<noteq> []"
  by (erule dec_textE) (cases "v < 0"; simp)

lemma dec_text_no_zero: "is_long v \<Longrightarrow> 0 \<notin> set (dec_text v)"
  by (erule dec_textE) (cases "v < 0"; force)

lemma dec_scan_digits:
  assumes "\<forall>d \<in> set ds. 48 \<le> d \<and> d \<le> 57" "\<not> (48 \<le> c \<and> c \<le> 57)"
  shows "dec_scan a (ds @ c # r) = Some (foldl (\<lambda>n d. 10 * n + (unat d - 48)) a ds, c # r)"
  using assms by (induction ds arbitrary: a) auto

lemma digit_no_blank: "48 \<le> c \<and> c \<le> 57 \<Longrightarrow> \<not> u8_isspace c \<and> c \<noteq> 45 \<and> c \<noteq> 43"
  by (auto simp: u8_isspace_def word_le_nat_alt)

lemma strtoll10_dec_text:
  assumes "is_long v" "\<not> (48 \<le> c \<and> c \<le> 57)"
  shows "strtoll10 (dec_text v @ c # r) = Some (v, c # r)"
proof -
  from assms(1) obtain ds where ds:
    "dec_text v = (if v < 0 then 45 # ds else ds)" "dec_value ds = nat \<bar>v\<bar>" "ds \<noteq> []"
    "length ds \<le> 19" "\<forall>d \<in> set ds. 48 \<le> d \<and> d \<le> 57"
    by (rule dec_textE)
  obtain d ds' where d: "ds = d # ds'" "48 \<le> d \<and> d \<le> 57" using ds(3,5) by (cases ds) simp_all
  have scan: "dec_scan 0 (ds @ c # r) = Some (nat \<bar>v\<bar>, c # r)"
    using dec_scan_digits [OF ds(5) assms(2), of 0] ds(2) by (simp add: dec_value_def)
  have sat: "saturate64 v = v" using assms(1) by (simp add: saturate64_def is_long_def)
  show ?thesis
  proof (cases "v < 0")
    case True
    have "skip_blank (dec_text v @ c # r) = 45 # ds @ c # r" using ds(1) True by (simp add: u8_isspace_def)
    then show ?thesis using scan d sat True by (simp add: strtoll10_def Let_def)
  next
    case False
    have "skip_blank (dec_text v @ c # r) = d # ds' @ c # r"
      using ds(1) False d digit_no_blank [OF d(2)] by simp
    then show ?thesis using scan d sat False digit_no_blank [OF d(2)]
      by (simp only: strtoll10_def Let_def list.case if_False if_True simp_thms append_Cons) simp
  qed
qed

lemma zero_no_digit: "\<not> (48 \<le> (0 :: u8) \<and> (0 :: u8) \<le> 57)"
  by simp

lemma dec_text_inject:
  assumes "is_long v" "is_long w"
  shows "dec_text v = dec_text w \<longleftrightarrow> v = w"
proof
  assume eq: "dec_text v = dec_text w"
  note strtoll10_dec_text [OF assms(1) zero_no_digit, of "[]", unfolded eq]
  then show "v = w"
    unfolding strtoll10_dec_text [OF assms(2) zero_no_digit, of "[]"] by simp
qed simp

text \<open>A byte at which the conversion stops at the latest: the terminator of a string is one, the
  end mark of a zipmap another.\<close>

definition stop_byte :: "u8 \<Rightarrow> bool" where
  "stop_byte c \<longleftrightarrow> \<not> (48 \<le> c \<and> c \<le> 57) \<and> \<not> u8_isspace c \<and> c \<noteq> 45 \<and> c \<noteq> 43"

lemma stop_byte_zero [simp]: "stop_byte 0" and stop_byte_end [simp]: "stop_byte 255"
  by (simp_all add: stop_byte_def u8_isspace_def)

lemma dec_scan_total: "z \<in> set s \<Longrightarrow> stop_byte z \<Longrightarrow> \<exists>n e. dec_scan a s = Some (n, e) \<and> z \<in> set e"
  by (induction s arbitrary: a) (auto simp: stop_byte_def)

lemma skip_blank_stop: "z \<in> set s \<Longrightarrow> stop_byte z \<Longrightarrow> z \<in> set (skip_blank s)"
  by (induction s) (auto simp: stop_byte_def)

lemma strtoll10_total:
  assumes "z \<in> set mem" "stop_byte z"
  shows "\<exists>v e. strtoll10 mem = Some (v, e) \<and> is_long v \<and> z \<in> set e"
proof -
  obtain c cs where c: "skip_blank mem = c # cs" "z \<in> set (c # cs)"
    using skip_blank_stop [OF assms] by (cases "skip_blank mem") auto
  define s where "s = (if c = 45 \<or> c = 43 then cs else c # cs)"
  have z: "z \<in> set s" using c(2) assms(2) by (auto simp: s_def stop_byte_def)
  then obtain d ds where d: "s = d # ds" by (cases s) auto
  obtain n e where n: "dec_scan 0 s = Some (n, e)" "z \<in> set e" using dec_scan_total [OF z assms(2)] by blast
  define v where "v = saturate64 (if c = 45 then - int n else int n)"
  have v: "is_long v" "is_long 0" by (simp_all add: v_def is_long_def saturate64_def)
  have "strtoll10 mem = (if 48 \<le> d \<and> d \<le> 57 then Some (v, e) else Some (0, mem))"
    unfolding strtoll10_def c(1) Let_def list.case s_def [symmetric] n(1)
    unfolding d list.case by (simp add: v_def)
  then show ?thesis using v n(2) assms by simp
qed

section \<open>Encoding and comparing\<close>

lemma isStringRepresentableAsLong_spec:
  "\<exists>r. isStringRepresentableAsLong s = Some r \<and> (\<forall>v. r = Some v \<longleftrightarrow> is_long v \<and> s = dec_text v)"
proof -
  obtain v e where v: "strtoll10 (s @ [0]) = Some (v, e)" "is_long v" "0 \<in> set e"
    using strtoll10_total [of 0 "s @ [0]"] by auto
  then obtain c r where e: "e = c # r" by (cases e) auto
  have unf: "isStringRepresentableAsLong s =
    Some (if c = 0 \<and> s = dec_text v then Some v else None)"
  proof (cases "length s = length (dec_text v)")
    case True
    then have p: "peek s 0 (length (dec_text v)) = Some s" by (simp add: peek_def)
    show ?thesis
      unfolding isStringRepresentableAsLong_def v(1) e
      by (simp add: v(2) rd_def Let_def p True)
  next
    case False
    then have "s \<noteq> dec_text v" by blast
    then show ?thesis
      unfolding isStringRepresentableAsLong_def v(1) e by (simp add: v(2) rd_def Let_def False)
  qed
  have uniq: "v' = v \<and> c = 0" if "is_long v'" "s = dec_text v'" for v'
    using strtoll10_dec_text [OF that(1) zero_no_digit, of "[]", folded that(2)] v(1) e by simp
  have "(if c = 0 \<and> s = dec_text v then Some v else None) = Some v' \<longleftrightarrow> is_long v' \<and> s = dec_text v'" for v'
    using uniq [of v'] v(2) by (cases "is_long v' \<and> s = dec_text v'") (auto split: if_splits)
  then show ?thesis using unf by blast
qed

definition sobj_ok :: "sobj \<Rightarrow> bool" where
  "sobj_ok obj = (case obj of Raw s \<Rightarrow> length s < 2 ^ 31 | Enc v \<Rightarrow> is_long v)"

definition text_of :: "sobj \<Rightarrow> bytes" where
  "text_of obj = (case obj of Raw s \<Rightarrow> s | Enc v \<Rightarrow> dec_text v)"

lemma sobj_simps [simp]:
  "sobj_ok (Raw s) \<longleftrightarrow> length s < 2 ^ 31" "sobj_ok (Enc v) \<longleftrightarrow> is_long v"
  "text_of (Raw s) = s" "text_of (Enc v) = dec_text v"
  by (simp_all add: sobj_ok_def text_of_def)

lemma getDecodedObject_eq: "sobj_ok obj \<Longrightarrow> getDecodedObject obj = Some (text_of obj)"
  by (cases obj) (simp_all add: getDecodedObject_def)

lemma c_strcmp_eq:
  "\<exists>c. c_strcmp (s @ [0]) (t @ [0]) = Some c \<and> (c = 0 \<longleftrightarrow> takeWhile (\<lambda>x. x \<noteq> 0) s = takeWhile (\<lambda>x. x \<noteq> 0) t)"
proof (induction s arbitrary: t)
  case Nil
  show ?case by (cases t) (auto simp: word_uint_eq_iff)
next
  case (Cons a s)
  show ?case
  proof (cases t)
    case Nil
    then show ?thesis by (auto simp: word_uint_eq_iff)
  next
    case (Cons b t')
    then show ?thesis using Cons.IH [of t'] by (auto simp: word_uint_eq_iff)
  qed
qed

lemma c_memcmp_eq: "length a = length b \<Longrightarrow> c_memcmp a b = 0 \<longleftrightarrow> a = b"
  by (induction a b rule: list_induct2) auto

lemma contents_cmp_eq:
  assumes "length a < 2 ^ 31" "length b < 2 ^ 31"
  shows "contents_cmp a b = 0 \<longleftrightarrow> a = b"
proof -
  let ?m = "min (length a) (length b)"
  have "signed_take_bit 31 (int (length a) - int (length b)) = int (length a) - int (length b)"
    using assms by (intro signed_take_bit_int_eq_self) auto
  then have "contents_cmp a b = 0 \<longleftrightarrow> take ?m a = take ?m b \<and> length a = length b"
    using c_memcmp_eq [of "take ?m a" "take ?m b"] by (simp add: contents_cmp_def Let_def)
  then show ?thesis by auto
qed

lemma takeWhile_dec_text: "is_long v \<Longrightarrow> takeWhile (\<lambda>x. x \<noteq> 0) (dec_text v) = dec_text v"
  using dec_text_no_zero by (metis (mono_tags, lifting) takeWhile_eq_all_conv)

lemma tryObjectEncoding_text:
  assumes "sobj_ok obj"
  shows "\<exists>obj'. tryObjectEncoding refcount obj = Some obj' \<and> sobj_ok obj' \<and>
    getDecodedObject obj' = getDecodedObject obj \<and>
    (refcount \<le> 1 \<longrightarrow> (\<forall>v. obj' = Enc v \<longleftrightarrow> is_long v \<and> getDecodedObject obj = Some (dec_text v)))"
proof (cases obj)
  case (Enc v)
  then show ?thesis using assms dec_text_inject by (auto simp: tryObjectEncoding_def getDecodedObject_def)
next
  case (Raw s)
  obtain r where r: "isStringRepresentableAsLong s = Some r"
    "\<forall>v. r = Some v \<longleftrightarrow> is_long v \<and> s = dec_text v"
    using isStringRepresentableAsLong_spec by blast
  show ?thesis
  proof (cases r)
    case None
    then show ?thesis using r Raw assms by (auto simp: tryObjectEncoding_def getDecodedObject_def)
  next
    case (Some v)
    then have "is_long v" "s = dec_text v" using r(2) by blast+
    then show ?thesis
      using r(1) Some Raw assms dec_text_inject by (auto simp: tryObjectEncoding_def getDecodedObject_def)
  qed
qed

text \<open>C36: the integer encoding of strings loses nothing: the decoded text is the same, and an
  unshared text is encoded exactly when it is the canonical decimal form of a \<open>long\<close>.\<close>

theorem tryObjectEncoding_lossless:
  assumes "sobj_ok obj"
  shows "\<exists>obj'. tryObjectEncoding refcount obj = Some obj' \<and> sobj_ok obj' \<and>
    getDecodedObject obj' = getDecodedObject obj \<and>
    (refcount \<le> 1 \<longrightarrow> (\<forall>v. obj' = Enc v \<longleftrightarrow> is_long v \<and> getDecodedObject obj = Some (dec_text v)))"
  by (rule tryObjectEncoding_text [OF assms])

text \<open>Two string objects are equal for \<open>equalStringObjects\<close> when their texts are equal if both
  are encoded the same way, and when their texts agree up to the first zero byte if not.\<close>

theorem equalStringObjects_spec:
  assumes "sobj_ok a" "sobj_ok b" "same \<longrightarrow> a = b"
  shows "equalStringObjects same a b = Some (
    case (a, b) of
      (Raw s, Enc v) \<Rightarrow> takeWhile (\<lambda>c. c \<noteq> 0) s = dec_text v
    | (Enc v, Raw s) \<Rightarrow> takeWhile (\<lambda>c. c \<noteq> 0) s = dec_text v
    | _ \<Rightarrow> text_of a = text_of b)"
proof -
  have cmp: "\<exists>c. compareStringObjects False a b = Some c \<and> (c = 0 \<longleftrightarrow>
    (case (a, b) of
      (Raw s, Enc v) \<Rightarrow> takeWhile (\<lambda>c. c \<noteq> 0) s = dec_text v
    | (Enc v, Raw s) \<Rightarrow> takeWhile (\<lambda>c. c \<noteq> 0) s = dec_text v
    | _ \<Rightarrow> text_of a = text_of b))" if "\<not> (\<exists>v w. a = Enc v \<and> b = Enc w)"
    using that assms c_strcmp_eq [of "text_of a" "text_of b"]
    by (cases a; cases b) (auto simp: compareStringObjects_def contents_cmp_eq takeWhile_dec_text)
  show ?thesis
  proof (cases "\<exists>v w. a = Enc v \<and> b = Enc w")
    case True
    then show ?thesis using assms dec_text_inject by (auto simp: equalStringObjects_def)
  next
    case False
    obtain s where "same \<Longrightarrow> a = Raw s \<and> b = Raw s" using False assms(3) by (cases a) auto
    then show ?thesis
      using cmp [OF False] False assms(3)
      by (cases same; cases a; cases b) (auto simp: equalStringObjects_def compareStringObjects_def)
  qed
qed

lemma getLongLongFromObject_ok:
  assumes "obj \<noteq> None \<longrightarrow> sobj_ok (the obj)"
  shows "\<exists>r. getLongLongFromObject obj = Some r \<and> (\<forall>v. r = Some v \<longrightarrow> is_long v) \<and>
    (obj = None \<longrightarrow> r = Some 0) \<and>
    (\<forall>v. is_long v \<and> obj \<noteq> None \<and> text_of (the obj) = dec_text v \<longrightarrow> r = Some v)"
proof (cases obj)
  case None
  then show ?thesis by (simp add: getLongLongFromObject_def is_long_def)
next
  case (Some o1)
  show ?thesis
  proof (cases o1)
    case (Enc v)
    then show ?thesis using Some assms dec_text_inject by (auto simp: getLongLongFromObject_def)
  next
    case (Raw s)
    obtain v e where v: "strtoll10 (s @ [0]) = Some (v, e)" "is_long v" "0 \<in> set e"
      using strtoll10_total [of 0 "s @ [0]"] by auto
    then obtain c r where e: "e = c # r" by (cases e) auto
    have "v' = v \<and> c = 0" if "is_long v'" "s = dec_text v'" for v'
      using strtoll10_dec_text [OF that(1) zero_no_digit, of "[]", folded that(2)] v(1) e by simp
    then show ?thesis using v e Some Raw by (auto simp: getLongLongFromObject_def rd_def)
  qed
qed

lemma getLongLongFromObject_text:
  assumes "sobj_ok ob"
  shows "getLongLongFromObject (Some ob) = getLongLongFromObject (Some (Raw (text_of ob)))"
proof (cases ob)
  case (Enc v)
  then have v: "is_long v" using assms by simp
  have s: "Some (Raw (dec_text v)) \<noteq> None \<longrightarrow> sobj_ok (the (Some (Raw (dec_text v))))"
    using length_dec_text [OF v] by simp
  obtain r where r: "getLongLongFromObject (Some (Raw (dec_text v))) = Some r"
    "\<forall>w. is_long w \<and> dec_text v = dec_text w \<longrightarrow> r = Some w"
    using getLongLongFromObject_ok [OF s] by auto
  then have "r = Some v" using v by blast
  with r(1) show ?thesis unfolding Enc by (simp add: getLongLongFromObject_def [of "Some (Enc v)"])
qed simp

lemma tryObjectEncoding_ok:
  assumes "sobj_ok ob"
  shows "\<exists>ob'. tryObjectEncoding n ob = Some ob' \<and> sobj_ok ob' \<and> text_of ob' = text_of ob"
  using tryObjectEncoding_text [OF assms, of n] assms by (auto simp: getDecodedObject_eq)

lemma createStringObjectFromLongLong_ok: "is_long v \<Longrightarrow> createStringObjectFromLongLong v = Some (Enc v)"
  by (simp add: createStringObjectFromLongLong_def is_long_def)

text \<open>\<open>getLongLongFromObject\<close> always gives a \<open>long long\<close> or \<open>REDIS_ERR\<close>, reads every number in
  canonical form as it is, and a NULL object as 0.\<close>

theorem getLongLongFromObject_spec:
  assumes "obj \<noteq> None \<longrightarrow> sobj_ok (the obj)"
  shows "\<exists>r. getLongLongFromObject obj = Some r \<and> (\<forall>v. r = Some v \<longrightarrow> is_long v) \<and>
    (obj = None \<longrightarrow> r = Some 0) \<and>
    (\<forall>v. is_long v \<and> obj \<noteq> None \<and> text_of (the obj) = dec_text v \<longrightarrow> r = Some v)"
  by (rule getLongLongFromObject_ok [OF assms])

section \<open>Concrete objects\<close>

lemma put_digits_numeral:
  "put_digits (numeral k) v p out =
     (if p < 0 then None
      else let out' = of_nat (48 + v mod 10) # out; v' = v div 10 in
        if v' \<noteq> 0 then put_digits (pred_numeral k) v' (p - 1) out' else Some (p - 1, out'))"
  by (simp add: numeral_eq_Suc)

lemma dec_text_12: "dec_text 12 = [49, 50]"
  by (simp add: dec_text_def sdsfromlonglong_def put_digits_numeral Let_def)

lemma is_long_12: "is_long 12"
  by (simp add: is_long_def)

theorem tryObjectEncoding_lossless_witness: "tryObjectEncoding 1 (Raw [49, 50]) = Some (Enc 12)"
proof -
  obtain obj' where o: "tryObjectEncoding 1 (Raw [49, 50]) = Some obj'"
    "\<forall>v. obj' = Enc v \<longleftrightarrow> is_long v \<and> getDecodedObject (Raw [49, 50]) = Some (dec_text v)"
    using tryObjectEncoding_lossless [of "Raw [49, 50]" 1] by auto
  show ?thesis
    using o(1) spec [OF o(2), of 12] by (simp add: dec_text_12 is_long_12 getDecodedObject_def)
qed

theorem equalStringObjects_spec_witness:
  "equalStringObjects False (Raw [49, 50]) (Enc 12) = Some True"
  using equalStringObjects_spec [of "Raw [49, 50]" "Enc 12" False] by (simp add: dec_text_12 is_long_def)

text \<open>The comparison with an encoded object is not binary safe.\<close>

theorem equalStringObjects_not_binary_safe:
  "equalStringObjects False (Raw [49, 50, 0, 120]) (Enc 12) = Some True"
  by (simp add: equalStringObjects_def compareStringObjects_def dec_text_12 is_long_def)

theorem getLongLongFromObject_spec_witness: "getLongLongFromObject (Some (Raw [49, 50])) = Some (Some 12)"
proof -
  obtain r where r: "getLongLongFromObject (Some (Raw [49, 50])) = Some r"
    "\<forall>v. is_long v \<and> Some (Raw [49, 50]) \<noteq> None \<and> text_of (the (Some (Raw [49, 50]))) = dec_text v \<longrightarrow> r = Some v"
    using getLongLongFromObject_spec [of "Some (Raw [49, 50])"] by auto
  show ?thesis using r(1) spec [OF r(2), of 12] by (simp add: dec_text_12 is_long_12)
qed

text \<open>What else is taken for a number: the empty string, and a number out of range, which is
  replaced by the nearest one.\<close>

theorem getLongLongFromObject_lax:
  "getLongLongFromObject (Some (Raw [])) = Some (Some 0)"
  "getLongLongFromObject (Some (Raw [57, 57, 57, 57, 57, 57, 57, 57, 57, 57, 57, 57, 57, 57, 57, 57, 57, 57, 57, 57]))
    = Some (Some (2 ^ 63 - 1))"
  by (simp_all add: getLongLongFromObject_def strtoll10_def rd_def u8_isspace_def saturate64_def)

end
