(* ===== verification/Rdb_File.thy ===== *)
theory Rdb_File
  imports Buffers
begin

text \<open>
  Files as the dump code of Redis uses them, and the contract between a saving and a loading
  function. A file being written is the bytes accepted so far and the number of bytes that will
  still be accepted before writing fails. The result of a writer is that of the C function (0, or
  -1 when \<open>fwrite\<close> fails) with the file; \<open>None\<close> is an access outside a buffer. A file being read
  is the bytes left.
\<close>

section \<open>Files\<close>

record ofile =
  fdata :: bytes
  froom :: nat

definition fwrite :: "bytes \<Rightarrow> ofile \<Rightarrow> bool \<times> ofile" where
  "fwrite bs fp =
     (if bs = [] then (False, fp)
      else if length bs \<le> froom fp
      then (True, fp\<lparr>fdata := fdata fp @ bs, froom := froom fp - length bs\<rparr>)
      else (False, fp\<lparr>fdata := fdata fp @ take (froom fp) bs, froom := 0\<rparr>))"

type_synonym writer_fun = "ofile \<Rightarrow> (int \<times> ofile) option"

text \<open>\<open>if (fwrite(..) == 0) return -1; return 0;\<close> and \<open>if (a == -1) return -1; b\<close>.\<close>

definition put :: "bytes \<Rightarrow> writer_fun" where
  "put bs fp = (case fwrite bs fp of (ok, fp') \<Rightarrow> Some (if ok then 0 else - 1, fp'))"

definition and_then :: "writer_fun \<Rightarrow> writer_fun \<Rightarrow> writer_fun" where
  "and_then a b fp = do { (r, fp') \<leftarrow> a fp; if r = - 1 then Some (- 1, fp') else b fp' }"

definition fread :: "nat \<Rightarrow> bytes \<Rightarrow> (bytes \<times> bytes) option" where
  "fread n fp = (if n = 0 \<or> length fp < n then None else Some (take n fp, drop n fp))"

text \<open>The result of a reader: a value, NULL (or -1) for a short or invalid file, a panic of the
  server, or an access outside a buffer.\<close>

datatype 'a load = Got 'a bytes | Short | Panic | Fault

fun load_bind :: "'a load \<Rightarrow> ('a \<Rightarrow> bytes \<Rightarrow> 'b load) \<Rightarrow> 'b load" where
  "load_bind (Got x fp) f = f x fp"
| "load_bind Short f = Short"
| "load_bind Panic f = Panic"
| "load_bind Fault f = Fault"

section \<open>What a writer writes and what a reader reads\<close>

definition accept :: "bytes \<Rightarrow> ofile \<Rightarrow> ofile" where
  "accept e fp = fp\<lparr>fdata := fdata fp @ e, froom := froom fp - length e\<rparr>"

lemma accept_simps [simp]:
  "fdata (accept e fp) = fdata fp @ e" "froom (accept e fp) = froom fp - length e"
  "accept [] fp = fp" "accept b (accept a fp) = accept (a @ b) fp"
  by (simp_all add: accept_def)

text \<open>The writer writes \<open>e\<close> if there is room, and reports a failure if not.\<close>

definition writes :: "writer_fun \<Rightarrow> bytes \<Rightarrow> bool" where
  "writes w e \<longleftrightarrow> (\<forall>fp. if length e \<le> froom fp then w fp = Some (0, accept e fp)
     else \<exists>fp'. w fp = Some (- 1, fp'))"

lemma writesD: "writes w e \<Longrightarrow> length e \<le> froom fp \<Longrightarrow> w fp = Some (0, accept e fp)"
  by (simp add: writes_def)

lemma writes_fail: "writes w e \<Longrightarrow> froom fp < length e \<Longrightarrow> \<exists>fp'. w fp = Some (- 1, fp')"
  unfolding writes_def by (metis not_le)

lemma writes_put: "e \<noteq> [] \<Longrightarrow> writes (put e) e"
  by (simp add: writes_def put_def fwrite_def accept_def)

lemma writes_skip: "writes (\<lambda>fp. Some (0, fp)) []"
  by (simp add: writes_def)

lemma writes_and_then:
  assumes "writes a x" "writes b y"
  shows "writes (and_then a b) (x @ y)"
  unfolding writes_def
proof (intro allI)
  fix fp
  show "if length (x @ y) \<le> froom fp then and_then a b fp = Some (0, accept (x @ y) fp)
     else \<exists>fp'. and_then a b fp = Some (- 1, fp')"
  proof (cases "length x \<le> froom fp")
    case True
    have a: "a fp = Some (0, accept x fp)" by (rule writesD [OF assms(1) True])
    show ?thesis
    proof (cases "length (x @ y) \<le> froom fp")
      case True
      then have "b (accept x fp) = Some (0, accept y (accept x fp))" by (intro writesD [OF assms(2)]) simp
      then show ?thesis using a True by (simp add: and_then_def)
    next
      case False
      then have "\<exists>fp'. b (accept x fp) = Some (- 1, fp')" using True by (intro writes_fail [OF assms(2)]) simp
      then show ?thesis using a False by (auto simp: and_then_def)
    qed
  next
    case False
    then obtain fp' where "a fp = Some (- 1, fp')" using writes_fail [OF assms(1), of fp] by auto
    then show ?thesis using False by (simp add: and_then_def)
  qed
qed

definition reads :: "(bytes \<Rightarrow> 'a load) \<Rightarrow> bytes \<Rightarrow> 'a \<Rightarrow> bool" where
  "reads r e x \<longleftrightarrow> (\<forall>rest. r (e @ rest) = Got x rest)"

lemma readsD: "reads r e x \<Longrightarrow> r (e @ rest) = Got x rest"
  by (simp add: reads_def)

lemma fread_append: "n = length a \<Longrightarrow> a \<noteq> [] \<Longrightarrow> fread n (a @ r) = Some (a, r)"
  by (simp add: fread_def)

lemma fread_one: "fread (Suc 0) (x # r) = Some ([x], r)"
  by (simp add: fread_def)

section \<open>Sequences of values\<close>

text \<open>\<open>while ((x = next)) if (save(x) == -1) return -1;\<close>\<close>

fun save_list :: "('a \<Rightarrow> writer_fun) \<Rightarrow> 'a list \<Rightarrow> writer_fun" where
  "save_list save [] = (\<lambda>fp. Some (0, fp))"
| "save_list save (x # xs) = and_then (save x) (save_list save xs)"

text \<open>\<open>while (len--) { if ((x = load()) == NULL) return NULL; add(o,x); }\<close>, where adding may fault.\<close>

fun load_n :: "nat \<Rightarrow> (bytes \<Rightarrow> 'b load) \<Rightarrow> ('o \<Rightarrow> 'b \<Rightarrow> 'o option) \<Rightarrow> 'o \<Rightarrow> bytes \<Rightarrow> 'o load" where
  "load_n 0 load add obj fp = Got obj fp"
| "load_n (Suc n) load add obj fp =
     load_bind (load fp) (\<lambda>x fp'. case add obj x of None \<Rightarrow> Fault | Some obj' \<Rightarrow> load_n n load add obj' fp')"

fun add_all :: "('o \<Rightarrow> 'b \<Rightarrow> 'o option) \<Rightarrow> 'o \<Rightarrow> 'b list \<Rightarrow> 'o option" where
  "add_all add obj [] = Some obj"
| "add_all add obj (x # xs) = do { obj' \<leftarrow> add obj x; add_all add obj' xs }"

text \<open>
  The contract: on a value in the domain \<open>ok\<close>, \<open>save\<close> writes at least one byte, or fails for lack
  of room, and \<open>load\<close> reads a value related to it back from those bytes, whatever follows them.
\<close>

locale codec =
  fixes save :: "'a \<Rightarrow> writer_fun"
    and load :: "bytes \<Rightarrow> 'b load"
    and ok :: "'a \<Rightarrow> bool"
    and rel :: "'a \<Rightarrow> 'b \<Rightarrow> bool"
  assumes saved: "ok x \<Longrightarrow> \<exists>e y. e \<noteq> [] \<and> writes (save x) e \<and> reads load e y \<and> rel x y"
begin

lemma saved_list:
  assumes "\<forall>x \<in> set xs. ok x"
  shows "\<exists>e ys. writes (save_list save xs) e \<and> list_all2 rel xs ys \<and>
    (\<forall>(add :: 'o \<Rightarrow> 'b \<Rightarrow> 'o option) obj rest. load_n (length xs) load add obj (e @ rest) =
       (case add_all add obj ys of None \<Rightarrow> Fault | Some obj' \<Rightarrow> Got obj' rest))"
  using assms
proof (induction xs)
  case Nil
  show ?case
    by (intro exI [of _ "[]"] conjI allI) (auto simp: writes_def)
next
  case (Cons x xs)
  obtain e ys where e: "writes (save_list save xs) e" "list_all2 rel xs ys"
    "\<forall>(add :: 'o \<Rightarrow> 'b \<Rightarrow> 'o option) obj rest. load_n (length xs) load add obj (e @ rest) =
       (case add_all add obj ys of None \<Rightarrow> Fault | Some obj' \<Rightarrow> Got obj' rest)"
    using Cons by auto
  obtain e1 y where y: "writes (save x) e1" "reads load e1 y" "rel x y"
    using saved [of x] Cons.prems by auto
  have "writes (save_list save (x # xs)) (e1 @ e)"
    using writes_and_then [OF y(1) e(1)] by simp
  moreover have "load_n (length (x # xs)) load add obj ((e1 @ e) @ rest) =
       (case add_all add obj (y # ys) of None \<Rightarrow> Fault | Some obj' \<Rightarrow> Got obj' rest)" for add :: "'o \<Rightarrow> 'b \<Rightarrow> 'o option" and obj rest
    using readsD [OF y(2), of "e @ rest"] e(3) by (auto split: option.split)
  ultimately show ?case
    using y(3) e(2) by (intro exI [of _ "e1 @ e"] exI [of _ "y # ys"]) auto
qed

end

text \<open>Two values in a row.\<close>

definition save_pair :: "('a \<Rightarrow> writer_fun) \<Rightarrow> ('b \<Rightarrow> writer_fun) \<Rightarrow> 'a \<times> 'b \<Rightarrow> writer_fun" where
  "save_pair save1 save2 p = and_then (save1 (fst p)) (save2 (snd p))"

definition load_pair :: "(bytes \<Rightarrow> 'a load) \<Rightarrow> (bytes \<Rightarrow> 'b load) \<Rightarrow> bytes \<Rightarrow> ('a \<times> 'b) load" where
  "load_pair load1 load2 fp =
     load_bind (load1 fp) (\<lambda>x fp1. load_bind (load2 fp1) (\<lambda>y fp2. Got (x, y) fp2))"

locale codec_pair =
  first: codec save1 load1 ok1 rel1 + second: codec save2 load2 ok2 rel2
  for save1 :: "'a \<Rightarrow> writer_fun" and load1 :: "bytes \<Rightarrow> 'b load" and ok1 rel1
    and save2 :: "'c \<Rightarrow> writer_fun" and load2 :: "bytes \<Rightarrow> 'd load" and ok2 rel2

sublocale codec_pair \<subseteq> both: codec "save_pair save1 save2" "load_pair load1 load2"
  "\<lambda>p. ok1 (fst p) \<and> ok2 (snd p)" "\<lambda>p q. rel1 (fst p) (fst q) \<and> rel2 (snd p) (snd q)"
proof
  fix p :: "'a \<times> 'c"
  assume "ok1 (fst p) \<and> ok2 (snd p)"
  then obtain e1 y1 e2 y2 where
    e: "e1 \<noteq> []" "writes (save1 (fst p)) e1" "reads load1 e1 y1" "rel1 (fst p) y1"
       "writes (save2 (snd p)) e2" "reads load2 e2 y2" "rel2 (snd p) y2"
    using first.saved [of "fst p"] second.saved [of "snd p"] by blast
  have "load_pair load1 load2 ((e1 @ e2) @ rest) = Got (y1, y2) rest" for rest
    using readsD [OF e(3), of "e2 @ rest"] readsD [OF e(6), of rest] by (simp add: load_pair_def)
  then show "\<exists>e y. e \<noteq> [] \<and> writes (save_pair save1 save2 p) e \<and> reads (load_pair load1 load2) e y \<and>
      rel1 (fst p) (fst y) \<and> rel2 (snd p) (snd y)"
    using writes_and_then [OF e(2,5)] e(1,4,7)
    by (intro exI [of _ "e1 @ e2"] exI [of _ "(y1, y2)"]) (simp add: save_pair_def reads_def)
qed

end
