(* ===== verification/Rdb_Value.thy ===== *)
theory Rdb_Value
  imports Redis_Object Lzf Rdb_File
begin

text \<open>
  The values of a Redis dump file (\<open>apps/redis-2.0.4/redis.c\<close>, lines 3402-3617 and 3853-3998):
  types, times, lengths, integers, strings (verbatim, as an integer, or compressed by \<open>Lzf\<close>) and
  doubles.

  A double is one of the three special values or a finite one of a type parameter;
  the text \<open>snprintf("%.17g")\<close> prints for it and what \<open>sscanf("%lg")\<close> reads are parameters.
\<close>

section \<open>Saving\<close>

definition REDIS_RDB_6BITLEN :: u8 where "REDIS_RDB_6BITLEN = 0"
definition REDIS_RDB_14BITLEN :: u8 where "REDIS_RDB_14BITLEN = 1"
definition REDIS_RDB_32BITLEN :: u8 where "REDIS_RDB_32BITLEN = 2"
definition REDIS_RDB_ENCVAL :: u8 where "REDIS_RDB_ENCVAL = 3"
definition REDIS_RDB_LENERR :: u32 where "REDIS_RDB_LENERR = 0xFFFFFFFF"
definition REDIS_RDB_ENC_INT8 :: u8 where "REDIS_RDB_ENC_INT8 = 0"
definition REDIS_RDB_ENC_INT16 :: u8 where "REDIS_RDB_ENC_INT16 = 1"
definition REDIS_RDB_ENC_INT32 :: u8 where "REDIS_RDB_ENC_INT32 = 2"
definition REDIS_RDB_ENC_LZF :: u8 where "REDIS_RDB_ENC_LZF = 3"

text \<open>\<open>htonl\<close> on a little-endian machine, and \<open>ntohl\<close>.\<close>

definition htonl :: "u32 \<Rightarrow> u32" where
  "htonl w = le32 (ucast (drop_bit 24 w)) (ucast (drop_bit 16 w)) (ucast (drop_bit 8 w)) (ucast w)"

definition rdbSaveType :: "u8 \<Rightarrow> writer_fun" where
  "rdbSaveType t = put [t]"

definition rdbSaveTime :: "int \<Rightarrow> writer_fun" where
  "rdbSaveTime t = put (le32_bytes (word_of_int t))"

definition rdbSaveLen :: "u32 \<Rightarrow> writer_fun" where
  "rdbSaveLen len =
     (if len < 64 then put [ucast (len AND 0xFF) OR push_bit 6 REDIS_RDB_6BITLEN]
      else if len < 16384
      then put [ucast (drop_bit 8 len AND 0xFF) OR push_bit 6 REDIS_RDB_14BITLEN, ucast (len AND 0xFF)]
      else and_then (put [push_bit 6 REDIS_RDB_32BITLEN]) (put (le32_bytes (htonl len))))"

text \<open>The bytes stored in \<open>enc\<close>; none when the result is 0.\<close>

definition rdbEncodeInteger :: "int \<Rightarrow> bytes" where
  "rdbEncodeInteger value =
     (if - (2 ^ 7) \<le> value \<and> value \<le> 2 ^ 7 - 1
      then [push_bit 6 REDIS_RDB_ENCVAL OR REDIS_RDB_ENC_INT8, word_of_int value AND 0xFF]
      else if - (2 ^ 15) \<le> value \<and> value \<le> 2 ^ 15 - 1
      then [push_bit 6 REDIS_RDB_ENCVAL OR REDIS_RDB_ENC_INT16, word_of_int value AND 0xFF,
            word_of_int (drop_bit 8 value) AND 0xFF]
      else if - (2 ^ 31) \<le> value \<and> value \<le> 2 ^ 31 - 1
      then [push_bit 6 REDIS_RDB_ENCVAL OR REDIS_RDB_ENC_INT32, word_of_int value AND 0xFF,
            word_of_int (drop_bit 8 value) AND 0xFF, word_of_int (drop_bit 16 value) AND 0xFF,
            word_of_int (drop_bit 24 value) AND 0xFF]
      else [])"

text \<open>\<open>mem\<close> is the memory from the string on, \<open>len\<close> the length of the string.\<close>

definition rdbTryIntegerEncoding :: "bytes \<Rightarrow> nat \<Rightarrow> bytes option" where
  "rdbTryIntegerEncoding mem len = do {
     (value, e) \<leftarrow> strtoll10 mem;
     e0 \<leftarrow> rd e 0;
     if e0 \<noteq> 0 then Some []
     else do {
       b \<leftarrow> ll2string 32 value;
       if length b \<noteq> len then Some []
       else do { s \<leftarrow> peek mem 0 len; Some (if b \<noteq> s then [] else rdbEncodeInteger value) } } }"

text \<open>\<open>htab\<close> is what the compressor's hash table holds at its start.\<close>

definition rdbSaveLzfStringObject :: "(nat \<Rightarrow> int) \<Rightarrow> bytes \<Rightarrow> writer_fun" where
  "rdbSaveLzfStringObject htab s fp =
     (let len = length s in
      if len \<le> 4 then Some (0, fp)
      else let outlen = len - 4 in do {
        r \<leftarrow> lzf_compress htab (outlen + 1) s outlen;
        case r of
          None \<Rightarrow> Some (0, fp)
        | Some out \<Rightarrow> do {
            (w, fp') \<leftarrow> and_then (put [push_bit 6 REDIS_RDB_ENCVAL OR REDIS_RDB_ENC_LZF])
              (and_then (rdbSaveLen (of_nat (length out)))
                (and_then (rdbSaveLen (of_nat len)) (put out))) fp;
            Some (if w = - 1 then - 1 else int (length out), fp') } })"

definition rdbSaveRawString :: "(nat \<Rightarrow> int) \<Rightarrow> bool \<Rightarrow> bytes \<Rightarrow> nat \<Rightarrow> writer_fun" where
  "rdbSaveRawString htab rdbcompression mem len fp = do {
     enc \<leftarrow> (if len \<le> 11 then rdbTryIntegerEncoding mem len else Some []);
     if enc \<noteq> [] then put enc fp
     else do {
       (retval, fp1) \<leftarrow>
         (if rdbcompression \<and> len > 20
          then do { s \<leftarrow> peek mem 0 len; rdbSaveLzfStringObject htab s fp }
          else Some (0, fp));
       if retval = - 1 then Some (- 1, fp1)
       else if retval > 0 then Some (0, fp1)
       else and_then (rdbSaveLen (of_nat len))
         (\<lambda>fp2. if len = 0 then Some (0, fp2) else do { s \<leftarrow> peek mem 0 len; put s fp2 }) fp1 } }"

definition rdbSaveStringObject :: "(nat \<Rightarrow> int) \<Rightarrow> bool \<Rightarrow> sobj \<Rightarrow> writer_fun" where
  "rdbSaveStringObject htab rdbcompression obj fp =
     (case obj of
        Enc val \<Rightarrow>
          let enc = rdbEncodeInteger val in
          if enc \<noteq> [] then put enc fp
          else do { s \<leftarrow> getDecodedObject obj; rdbSaveRawString htab rdbcompression (s @ [0]) (length s) fp }
      | Raw s \<Rightarrow> rdbSaveRawString htab rdbcompression (s @ [0]) (length s) fp)"

datatype 'd double = NaN | PosInf | NegInf | Finite 'd

definition rdbSaveDoubleValue :: "('d \<Rightarrow> bytes) \<Rightarrow> 'd double \<Rightarrow> writer_fun" where
  "rdbSaveDoubleValue print_double val =
     (case val of
        NaN \<Rightarrow> put [253]
      | PosInf \<Rightarrow> put [254]
      | NegInf \<Rightarrow> put [255]
      | Finite d \<Rightarrow> put (of_nat (length (print_double d)) # print_double d))"

section \<open>Loading\<close>

definition rdbLoadType :: "bytes \<Rightarrow> u8 load" where
  "rdbLoadType fp = (case fread 1 fp of None \<Rightarrow> Short | Some (b, fp') \<Rightarrow> Got (b ! 0) fp')"

definition rdbLoadTime :: "bytes \<Rightarrow> int load" where
  "rdbLoadTime fp =
     (case fread 4 fp of None \<Rightarrow> Short
      | Some (b, fp') \<Rightarrow> Got (sint (le32 (b ! 0) (b ! 1) (b ! 2) (b ! 3))) fp')"

text \<open>The length and \<open>*isencoded\<close>. A short read gives \<open>REDIS_RDB_LENERR\<close>.\<close>

definition rdbLoadLen :: "bytes \<Rightarrow> u32 \<times> bool \<times> bytes" where
  "rdbLoadLen fp =
     (case fread 1 fp of
        None \<Rightarrow> (REDIS_RDB_LENERR, False, fp)
      | Some (b, fp1) \<Rightarrow>
          let b0 = b ! 0; t = drop_bit 6 (b0 AND 0xC0) in
          if t = REDIS_RDB_6BITLEN then (ucast (b0 AND 0x3F), False, fp1)
          else if t = REDIS_RDB_ENCVAL then (ucast (b0 AND 0x3F), True, fp1)
          else if t = REDIS_RDB_14BITLEN then
            (case fread 1 fp1 of
               None \<Rightarrow> (REDIS_RDB_LENERR, False, fp1)
             | Some (b', fp2) \<Rightarrow> (push_bit 8 (ucast (b0 AND 0x3F)) OR ucast (b' ! 0), False, fp2))
          else
            (case fread 4 fp1 of
               None \<Rightarrow> (REDIS_RDB_LENERR, False, fp1)
             | Some (b', fp2) \<Rightarrow> (htonl (le32 (b' ! 0) (b' ! 1) (b' ! 2) (b' ! 3)), False, fp2)))"

definition integer_object :: "bool \<Rightarrow> int \<Rightarrow> bytes \<Rightarrow> sobj load" where
  "integer_object encode val fp =
     (case (if encode then createStringObjectFromLongLong val else map_option Raw (sdsfromlonglong val)) of
        None \<Rightarrow> Fault
      | Some obj \<Rightarrow> Got obj fp)"

definition rdbLoadIntegerObject :: "bytes \<Rightarrow> u32 \<Rightarrow> bool \<Rightarrow> sobj load" where
  "rdbLoadIntegerObject fp enctype encode =
     (if enctype = ucast REDIS_RDB_ENC_INT8 then
        (case fread 1 fp of None \<Rightarrow> Short
         | Some (enc, fp') \<Rightarrow> integer_object encode (sint (enc ! 0)) fp')
      else if enctype = ucast REDIS_RDB_ENC_INT16 then
        (case fread 2 fp of None \<Rightarrow> Short
         | Some (enc, fp') \<Rightarrow>
             integer_object encode (sint (ucast (enc ! 0) OR push_bit 8 (ucast (enc ! 1)) :: u16)) fp')
      else if enctype = ucast REDIS_RDB_ENC_INT32 then
        (case fread 4 fp of None \<Rightarrow> Short
         | Some (enc, fp') \<Rightarrow>
             integer_object encode (sint (le32 (enc ! 0) (enc ! 1) (enc ! 2) (enc ! 3))) fp')
      else Panic)"

text \<open>\<open>g\<close> is what \<open>sdsnewlen(NULL,len)\<close> leaves in the bytes the decompressor does not reach.\<close>

text \<open>
  \<open>sdsnewlen(NULL, len)\<close> makes \<open>len\<close> zero bytes (sds.c:59); the decompressor writes over the first of
  them and its result is only compared with 0.
\<close>

definition rdbLoadLzfStringObject :: "bytes \<Rightarrow> sobj load" where
  "rdbLoadLzfStringObject fp =
     (let (clen, _, fp1) = rdbLoadLen fp in
      if clen = REDIS_RDB_LENERR then Short
      else let (len, _, fp2) = rdbLoadLen fp1 in
        if len = REDIS_RDB_LENERR then Short
        else (case fread (unat clen) fp2 of
            None \<Rightarrow> Short
          | Some (c, fp3) \<Rightarrow>
              (case lzf_decompress c (unat len) of
                 None \<Rightarrow> Fault
               | Some (LzfOk out) \<Rightarrow>
                   if out = [] then Short
                   else Got (Raw (out @ replicate (unat len - length out) 0)) fp3
               | Some _ \<Rightarrow> Short)))"

definition rdbGenericLoadStringObject :: "bytes \<Rightarrow> bool \<Rightarrow> sobj load" where
  "rdbGenericLoadStringObject fp encode =
     (let (len, isencoded, fp1) = rdbLoadLen fp in
      if isencoded then
        (if len = ucast REDIS_RDB_ENC_INT8 \<or> len = ucast REDIS_RDB_ENC_INT16 \<or> len = ucast REDIS_RDB_ENC_INT32
         then rdbLoadIntegerObject fp1 len encode
         else if len = ucast REDIS_RDB_ENC_LZF then rdbLoadLzfStringObject fp1
         else Panic)
      else if len = REDIS_RDB_LENERR then Short
      else if len = 0 then Got (Raw []) fp1
      else (case fread (unat len) fp1 of None \<Rightarrow> Short | Some (val, fp2) \<Rightarrow> Got (Raw val) fp2))"

definition rdbLoadStringObject :: "bytes \<Rightarrow> sobj load" where
  "rdbLoadStringObject fp = rdbGenericLoadStringObject fp False"

definition rdbLoadEncodedStringObject :: "bytes \<Rightarrow> sobj load" where
  "rdbLoadEncodedStringObject fp = rdbGenericLoadStringObject fp True"

text \<open>The text goes to \<open>buf[128]\<close> with a terminator behind it.\<close>

definition rdbLoadDoubleValue :: "(bytes \<Rightarrow> 'd double) \<Rightarrow> bytes \<Rightarrow> 'd double load" where
  "rdbLoadDoubleValue scan_double fp =
     (case fread 1 fp of
        None \<Rightarrow> Short
      | Some (b, fp1) \<Rightarrow>
          let len = b ! 0 in
          if len = 255 then Got NegInf fp1
          else if len = 254 then Got PosInf fp1
          else if len = 253 then Got NaN fp1
          else if 128 < unat len \<and> 128 < length fp1 then Fault
          else (case fread (unat len) fp1 of
              None \<Rightarrow> Short
            | Some (txt, fp2) \<Rightarrow> if unat len < 128 then Got (scan_double txt) fp2 else Fault))"

section \<open>Lengths and integers\<close>

definition len_bytes :: "u32 \<Rightarrow> bytes" where
  "len_bytes len =
     (if len < 64 then [ucast (len AND 0xFF) OR push_bit 6 REDIS_RDB_6BITLEN]
      else if len < 16384
      then [ucast (drop_bit 8 len AND 0xFF) OR push_bit 6 REDIS_RDB_14BITLEN, ucast (len AND 0xFF)]
      else push_bit 6 REDIS_RDB_32BITLEN # le32_bytes (htonl len))"

lemma len_bytes_ne [simp]: "len_bytes n \<noteq> []"
  by (simp add: len_bytes_def)

lemma rdbSaveLen_writes: "writes (rdbSaveLen n) (len_bytes n)"
  using writes_and_then [OF writes_put writes_put, of "[push_bit 6 REDIS_RDB_32BITLEN]" "le32_bytes (htonl n)"]
  by (auto simp: rdbSaveLen_def len_bytes_def writes_put le32_bytes_def)

lemmas rdb_consts = REDIS_RDB_6BITLEN_def REDIS_RDB_14BITLEN_def REDIS_RDB_32BITLEN_def
  REDIS_RDB_ENCVAL_def REDIS_RDB_ENC_INT8_def REDIS_RDB_ENC_INT16_def REDIS_RDB_ENC_INT32_def
  REDIS_RDB_ENC_LZF_def

lemma masks: "(0xFF :: 'a::len word) = mask 8" "(0x3F :: 'a word) = mask 6" "(0xC0 :: u8) = push_bit 6 (mask 2)"
  by (simp_all add: mask_eq_exp_minus_1)

lemma top2: "drop_bit 6 ((x :: u8) AND 0xC0) = drop_bit 6 x"
  unfolding masks by (rule bit_word_eqI) (auto simp: bit_simps dest: bit_imp_le_length)

lemma low6: "(x :: u8) AND 0x3F = take_bit 6 x"
  unfolding masks by (simp add: take_bit_eq_mask)

lemma len6:
  assumes "n < (64 :: u32)"
  shows "drop_bit 6 (ucast (n AND 0xFF) :: u8) = 0" (is ?A) "ucast (take_bit 6 (ucast (n AND 0xFF) :: u8)) = n" (is ?B)
proof -
  have n: "take_bit 6 n = n" using less_mask_eq [of n 6] assms by (simp add: take_bit_eq_mask)
  show ?A
    unfolding masks
    by (subst n [symmetric], rule bit_word_eqI) (auto simp: bit_simps dest: bit_imp_le_length)
  show ?B
    unfolding masks
    by (subst (1 2) n [symmetric], rule bit_word_eqI) (auto simp: bit_simps dest: bit_imp_le_length)
qed

lemma len14:
  assumes "n < (16384 :: u32)"
  shows "drop_bit 6 ((ucast (drop_bit 8 n AND 0xFF) :: u8) OR push_bit 6 1) = 1" (is ?A)
    "push_bit 8 (ucast (take_bit 6 ((ucast (drop_bit 8 n AND 0xFF) :: u8) OR push_bit 6 1))) OR
      ucast (ucast (n AND 0xFF) :: u8) = n" (is ?B)
proof -
  have n: "take_bit 14 n = n" using less_mask_eq [of n 14] assms by (simp add: take_bit_eq_mask)
  show ?A
    unfolding masks
    by (subst n [symmetric], rule bit_word_eqI) (auto simp: bit_simps dest: bit_imp_le_length)
  show ?B
    unfolding masks
    by (subst (1 2 3) n [symmetric], rule bit_word_eqI) (auto simp: bit_simps dest: bit_imp_le_length)
qed

lemma le32_byte:
  "ucast (le32 a b c d) = a" "ucast (drop_bit 8 (le32 a b c d)) = b"
  "ucast (drop_bit 16 (le32 a b c d)) = c" "ucast (drop_bit 24 (le32 a b c d)) = d"
  by (rule bit_word_eqI; auto simp: le32_def bit_simps dest: bit_imp_le_length)+

lemma htonl_htonl: "htonl (htonl n) = n"
  using le32_roundtrip [of n] by (simp add: htonl_def le32_byte le32_bytes_def)

lemma int16: "(ucast (word_of_int v AND 0xFF :: u8) OR
    push_bit 8 (ucast (word_of_int (drop_bit 8 v) AND 0xFF :: u8)) :: u16) = word_of_int v"
  unfolding masks by (rule bit_word_eqI) (auto simp: bit_simps dest: bit_imp_le_length)

lemma int32: "le32 (word_of_int v AND 0xFF) (word_of_int (drop_bit 8 v) AND 0xFF)
   (word_of_int (drop_bit 16 v) AND 0xFF) (word_of_int (drop_bit 24 v) AND 0xFF) = word_of_int v"
  unfolding masks
proof (rule bit_word_eqI)
  fix n assume n: "n < LENGTH(32)"
  then consider "n < 8" | "8 \<le> n" "n < 16" | "16 \<le> n" "n < 24" | "24 \<le> n" "n < 32" by fastforce
  then show "bit (le32 (word_of_int v AND mask 8) (word_of_int (drop_bit 8 v) AND mask 8)
      (word_of_int (drop_bit 16 v) AND mask 8) (word_of_int (drop_bit 24 v) AND mask 8)) n =
    bit (word_of_int v :: u32) n"
    by cases (auto simp: le32_def bit_simps)
qed

lemma rdbLoadLen_len_bytes: "rdbLoadLen (len_bytes n @ r) = (n, False, r)"
proof -
  consider "n < 64" | "\<not> n < 64" "n < 16384" | "\<not> n < 64" "\<not> n < 16384" by blast
  then show ?thesis
  proof cases
    case 1
    then show ?thesis
      by (simp add: rdbLoadLen_def len_bytes_def rdb_consts fread_one Let_def len6 top2 low6)
  next
    case 2
    then show ?thesis
      using len14 [of n]
      by (simp only: rdbLoadLen_def len_bytes_def rdb_consts Let_def top2 low6 if_True if_False)
         (simp add: fread_one)
  next
    case 3
    have "fread 4 (le32_bytes (htonl n) @ r) = Some (le32_bytes (htonl n), r)"
      by (rule fread_append) (simp_all add: le32_bytes_def)
    moreover have "le32 (le32_bytes (htonl n) ! 0) (le32_bytes (htonl n) ! 1) (le32_bytes (htonl n) ! 2)
        (le32_bytes (htonl n) ! 3) = htonl n"
      using le32_roundtrip [of "htonl n"] by simp
    ultimately show ?thesis
      using 3 htonl_htonl by (simp add: rdbLoadLen_def len_bytes_def rdb_consts fread_one Let_def)
  qed
qed

lemma rdbLoadLen_encoded:
  "rdbLoadLen ((push_bit 6 REDIS_RDB_ENCVAL OR REDIS_RDB_ENC_INT8) # r) = (ucast REDIS_RDB_ENC_INT8, True, r)"
  "rdbLoadLen ((push_bit 6 REDIS_RDB_ENCVAL OR REDIS_RDB_ENC_INT16) # r) = (ucast REDIS_RDB_ENC_INT16, True, r)"
  "rdbLoadLen ((push_bit 6 REDIS_RDB_ENCVAL OR REDIS_RDB_ENC_INT32) # r) = (ucast REDIS_RDB_ENC_INT32, True, r)"
  "rdbLoadLen ((push_bit 6 REDIS_RDB_ENCVAL OR REDIS_RDB_ENC_LZF) # r) = (ucast REDIS_RDB_ENC_LZF, True, r)"
  by (simp_all add: rdbLoadLen_def rdb_consts fread_one)

lemma integer_object_eq:
  "is_long v \<Longrightarrow> integer_object encode v r = Got (if encode then Enc v else Raw (dec_text v)) r"
  by (auto simp: integer_object_def createStringObjectFromLongLong_def is_long_def)

lemma sint_word_of_int:
  "- (2 ^ 7) \<le> v \<Longrightarrow> v < 2 ^ 7 \<Longrightarrow> sint (word_of_int v :: u8) = v"
  "- (2 ^ 15) \<le> v \<Longrightarrow> v < 2 ^ 15 \<Longrightarrow> sint (word_of_int v :: u16) = v"
  "- (2 ^ 31) \<le> v \<Longrightarrow> v < 2 ^ 31 \<Longrightarrow> sint (word_of_int v :: u32) = v"
  by (simp_all add: signed_of_int signed_take_bit_int_eq_self)

lemma integer_codec:
  assumes "rdbEncodeInteger v \<noteq> []"
  shows "rdbGenericLoadStringObject (rdbEncodeInteger v @ r) encode =
    Got (if encode then Enc v else Raw (dec_text v)) r \<and> is_long v"
proof -
  have v: "- (2 ^ 31) \<le> v" "v \<le> 2 ^ 31 - 1"
    using assms by (auto simp: rdbEncodeInteger_def split: if_splits)
  then have l: "is_long v" by (simp add: is_long_def)
  have a: "(word_of_int v AND 0xFF :: u8) = word_of_int v" 
    by (simp add: masks(1) take_bit_word_eq_self flip: take_bit_eq_mask)
  consider "- (2 ^ 7) \<le> v \<and> v \<le> 2 ^ 7 - 1"
    | "\<not> (- (2 ^ 7) \<le> v \<and> v \<le> 2 ^ 7 - 1)" "- (2 ^ 15) \<le> v \<and> v \<le> 2 ^ 15 - 1"
    | "\<not> (- (2 ^ 7) \<le> v \<and> v \<le> 2 ^ 7 - 1)" "\<not> (- (2 ^ 15) \<le> v \<and> v \<le> 2 ^ 15 - 1)" by blast
  then show ?thesis
  proof cases
    case 1
    then have "rdbEncodeInteger v =
        [push_bit 6 REDIS_RDB_ENCVAL OR REDIS_RDB_ENC_INT8, word_of_int v]"
      by (simp only: rdbEncodeInteger_def a if_True simp_thms)
    then show ?thesis
      using 1 l sint_word_of_int(1) [of v]
      by (simp add: rdbGenericLoadStringObject_def rdbLoadLen_encoded rdbLoadIntegerObject_def
        fread_one integer_object_eq)
  next
    case 2
    then have "rdbEncodeInteger v =
        [push_bit 6 REDIS_RDB_ENCVAL OR REDIS_RDB_ENC_INT16, word_of_int v AND 0xFF,
            word_of_int (drop_bit 8 v) AND 0xFF]"
      by (simp only: rdbEncodeInteger_def if_True if_False simp_thms)
    then show ?thesis
      using 2 l sint_word_of_int(2) [of v]
      by (simp only: rdbGenericLoadStringObject_def rdbLoadLen_encoded rdbLoadIntegerObject_def append_Cons
          Let_def prod.case if_True simp_thms)
         (simp add: fread_def int16 integer_object_eq rdb_consts)
  next
    case 3
    then have "rdbEncodeInteger v =
        [push_bit 6 REDIS_RDB_ENCVAL OR REDIS_RDB_ENC_INT32, word_of_int v AND 0xFF,
            word_of_int (drop_bit 8 v) AND 0xFF, word_of_int (drop_bit 16 v) AND 0xFF,
            word_of_int (drop_bit 24 v) AND 0xFF]"
      using v by (simp only: rdbEncodeInteger_def if_True if_False simp_thms)
    then show ?thesis
      using v l sint_word_of_int(3) [of v]
      by (simp only: rdbGenericLoadStringObject_def rdbLoadLen_encoded rdbLoadIntegerObject_def append_Cons
          Let_def prod.case if_True simp_thms)
         (simp add: fread_def int32 integer_object_eq rdb_consts)
  qed
qed

section \<open>Strings\<close>

lemma rdbTryIntegerEncoding_spec:
  assumes "z \<in> set tail" "stop_byte z"
  shows "\<exists>enc. rdbTryIntegerEncoding (s @ tail) (length s) = Some enc \<and>
    (enc \<noteq> [] \<longrightarrow> (\<exists>v. is_long v \<and> s = dec_text v \<and> enc = rdbEncodeInteger v))"
proof -
  have "z \<in> set (s @ tail)" using assms(1) by simp
  from strtoll10_total [OF this assms(2)] obtain v e where
    v: "strtoll10 (s @ tail) = Some (v, e)" "is_long v" "z \<in> set e" by blast
  then obtain c r where e: "e = c # r" by (cases e) auto
  have p: "peek (s @ tail) 0 (length s) = Some s" by (simp add: peek_def)
  have b: "ll2string 32 v = Some (dec_text v)" using v(2) by simp
  show ?thesis
  proof (cases "c = 0 \<and> s = dec_text v")
    case True
    then show ?thesis using v p
      unfolding rdbTryIntegerEncoding_def v(1) e b by (auto simp: rd_def)
  next
    case False
    then show ?thesis
      unfolding rdbTryIntegerEncoding_def v(1) e by (auto simp: rd_def p v(2))
  qed
qed

text \<open>What loading a saved text gives: as a raw string, and when numbers may stay encoded.\<close>

definition string_saved :: "bytes \<Rightarrow> bytes \<Rightarrow> bool" where
  "string_saved e s \<longleftrightarrow> e \<noteq> [] \<and> reads rdbLoadStringObject e (Raw s) \<and>
     (\<exists>y. text_of y = s \<and> sobj_ok y \<and> reads rdbLoadEncodedStringObject e y)"

lemma string_savedI:
  assumes "e \<noteq> []" "length s < 2 ^ 31"
    "\<And>r enc. rdbGenericLoadStringObject (e @ r) enc = Got (Raw s) r"
  shows "string_saved e s"
  using assms by (auto simp: string_saved_def reads_def rdbLoadStringObject_def rdbLoadEncodedStringObject_def
    intro!: exI [of _ "Raw s"])

lemma integer_saved:
  assumes "rdbEncodeInteger v \<noteq> []"
  shows "string_saved (rdbEncodeInteger v) (dec_text v)"
  using assms integer_codec [OF assms]
  by (auto simp: string_saved_def reads_def rdbLoadStringObject_def rdbLoadEncodedStringObject_def
    intro!: exI [of _ "Enc v"])

lemma u32_of_nat: "n < 2 ^ 31 \<Longrightarrow> unat (of_nat n :: u32) = n"
  by (simp only: unsigned_of_nat) (simp add: take_bit_nat_eq_self)

lemma u32_not_err: "n < 2 ^ 31 \<Longrightarrow> (of_nat n :: u32) \<noteq> REDIS_RDB_LENERR"
proof
  assume n: "n < 2 ^ 31" "(of_nat n :: u32) = REDIS_RDB_LENERR"
  have "unat REDIS_RDB_LENERR = 4294967295" by (simp add: REDIS_RDB_LENERR_def)
  then show False using u32_of_nat [OF n(1)] n by simp
qed

lemma verbatim_saved:
  assumes "length s < 2 ^ 31"
  shows "string_saved (len_bytes (of_nat (length s)) @ s) s"
proof (rule string_savedI [OF _ assms])
  fix r enc
  show "rdbGenericLoadStringObject ((len_bytes (of_nat (length s)) @ s) @ r) enc = Got (Raw s) r"
  proof (cases "s = []")
    case True
    then show ?thesis using rdbLoadLen_len_bytes [of 0 r] u32_not_err [of 0]
      by (simp add: rdbGenericLoadStringObject_def)
  next
    case False
    have "(of_nat (length s) :: u32) \<noteq> 0"
      using u32_of_nat [OF assms] False by (metis length_0_conv unat_0)
    then show ?thesis
      using rdbLoadLen_len_bytes [of "of_nat (length s)" "s @ r"] u32_not_err [OF assms] u32_of_nat [OF assms]
        fread_append [of "length s" s r] False
      by (simp add: rdbGenericLoadStringObject_def)
  qed
qed simp

definition lzf_bytes :: "bytes \<Rightarrow> nat \<Rightarrow> bytes" where
  "lzf_bytes out len = [push_bit 6 REDIS_RDB_ENCVAL OR REDIS_RDB_ENC_LZF] @
     len_bytes (of_nat (length out)) @ len_bytes (of_nat len) @ out"

lemma lzf_saved:
  assumes "lzf_compress htab (length s - 4 + 1) s (length s - 4) = Some (Some out)"
    "4 < length s" "length s < 2 ^ 31"
  shows "string_saved (lzf_bytes out (length s)) s \<and> out \<noteq> []"
proof -
  from lzf_compress_inverse [OF _ _ assms(1), of "length s"] assms(2)
  have d: "length out \<le> length s - 4" "lzf_decompress out (length s) = Some (LzfOk s)" by simp_all
  have ne: "out \<noteq> []"
  proof
    assume "out = []"
    with d(2) show False by (simp add: lzf_decompress_def decompress_loop.simps decompress_step_def rd_def)
  qed
  have s: "s \<noteq> []" using assms(2) by auto
  have l: "length out < 2 ^ 31" using d(1) assms(3) by simp
  have "string_saved (lzf_bytes out (length s)) s"
  proof (rule string_savedI [OF _ assms(3)])
    fix r enc
    have "rdbLoadLzfStringObject (len_bytes (of_nat (length out)) @ len_bytes (of_nat (length s)) @ out @ r)
        = Got (Raw s) r"
      using u32_not_err [OF l] u32_not_err [OF assms(3)] u32_of_nat [OF l] u32_of_nat [OF assms(3)]
        fread_append [of "length out" out r] ne d(2) s
      by (simp add: rdbLoadLzfStringObject_def rdbLoadLen_len_bytes)
    then show "rdbGenericLoadStringObject (lzf_bytes out (length s) @ r) enc = Got (Raw s) r"
      by (simp add: rdbGenericLoadStringObject_def lzf_bytes_def rdbLoadLen_encoded) (simp add: rdb_consts)
  qed (simp add: lzf_bytes_def)
  then show ?thesis using ne by simp
qed

lemma rdbSaveLzf_writes:
  assumes "lzf_compress htab (length s - 4 + 1) s (length s - 4) = Some (Some out)" "4 < length s"
    "length s < 2 ^ 31"
  shows "if length (lzf_bytes out (length s)) \<le> froom fp
    then rdbSaveLzfStringObject htab s fp = Some (int (length out), accept (lzf_bytes out (length s)) fp)
    else \<exists>fp'. rdbSaveLzfStringObject htab s fp = Some (- 1, fp')"
proof -
  have ne: "out \<noteq> []" using lzf_saved [OF assms] by simp
  define w where "w = and_then (put [push_bit 6 REDIS_RDB_ENCVAL OR REDIS_RDB_ENC_LZF])
    (and_then (rdbSaveLen (of_nat (length out))) (and_then (rdbSaveLen (of_nat (length s))) (put out)))"
  have "writes w (lzf_bytes out (length s))"
    unfolding w_def lzf_bytes_def by (intro writes_and_then writes_put rdbSaveLen_writes ne) simp
  note w = writesD [OF this, of fp] writes_fail [OF this, of fp]
  have "rdbSaveLzfStringObject htab s fp =
      (case w fp of None \<Rightarrow> None | Some (r, fp') \<Rightarrow> Some (if r = - 1 then - 1 else int (length out), fp'))"
    using assms(1,2) by (simp add: rdbSaveLzfStringObject_def w_def Let_def split: option.split)
  then show ?thesis using w by (cases "length (lzf_bytes out (length s)) \<le> froom fp") auto
qed

lemma rdbSaveRawString_saved:
  assumes "z \<in> set tail" "stop_byte z" "length s < 2 ^ 31"
  shows "\<exists>e. writes (rdbSaveRawString htab compr (s @ tail) (length s)) e \<and> string_saved e s"
proof -
  have p: "peek (s @ tail) 0 (length s) = Some s" by (simp add: peek_def)
  obtain enc where enc: "(if length s \<le> 11 then rdbTryIntegerEncoding (s @ tail) (length s) else Some []) = Some enc"
    "enc \<noteq> [] \<longrightarrow> (\<exists>v. is_long v \<and> s = dec_text v \<and> enc = rdbEncodeInteger v)"
    using rdbTryIntegerEncoding_spec [OF assms(1,2), of s] by (cases "length s \<le> 11") auto
  define verb where "verb = and_then (rdbSaveLen (of_nat (length s)))
    (\<lambda>fp2. if length s = 0 then Some (0, fp2) else do { s' \<leftarrow> peek (s @ tail) 0 (length s); put s' fp2 })"
  have verb: "writes verb (len_bytes (of_nat (length s)) @ s)"
    unfolding verb_def
  proof (rule writes_and_then [OF rdbSaveLen_writes])
    show "writes (\<lambda>fp2. if length s = 0 then Some (0, fp2) else do { s' \<leftarrow> peek (s @ tail) 0 (length s); put s' fp2 }) s"
      using writes_skip writes_put [of s] by (cases "s = []") (simp_all add: p)
  qed
  show ?thesis
  proof (cases "enc = []")
    case False
    then obtain v where v: "s = dec_text v" "enc = rdbEncodeInteger v" using enc(2) by blast
    have "rdbSaveRawString htab compr (s @ tail) (length s) = put enc"
      unfolding rdbSaveRawString_def enc(1) using False by simp
    then show ?thesis using integer_saved [of v] v False writes_put [OF False] by auto
  next
    case True
    have unf: "rdbSaveRawString htab compr (s @ tail) (length s) fp =
      (case (if compr \<and> length s > 20 then rdbSaveLzfStringObject htab s fp else Some (0, fp)) of
         None \<Rightarrow> None
       | Some (r, fp1) \<Rightarrow> if r = - 1 then Some (- 1, fp1) else if r > 0 then Some (0, fp1) else verb fp1)" for fp
      unfolding rdbSaveRawString_def enc(1) verb_def [symmetric] using True
      by (simp add: p split: option.split)
    show ?thesis
    proof (cases "compr \<and> length s > 20 \<and> (\<exists>out. lzf_compress htab (length s - 4 + 1) s (length s - 4) = Some (Some out))")
      case True
      then obtain out where out: "lzf_compress htab (length s - 4 + 1) s (length s - 4) = Some (Some out)" by blast
      have "4 < length s" using True by simp
      note o = rdbSaveLzf_writes [OF out this assms(3)] lzf_saved [OF out this assms(3)]
      have "writes (rdbSaveRawString htab compr (s @ tail) (length s)) (lzf_bytes out (length s))"
        unfolding writes_def
      proof (intro allI)
        fix fp
        show "if length (lzf_bytes out (length s)) \<le> froom fp
          then rdbSaveRawString htab compr (s @ tail) (length s) fp = Some (0, accept (lzf_bytes out (length s)) fp)
          else \<exists>fp'. rdbSaveRawString htab compr (s @ tail) (length s) fp = Some (- 1, fp')"
          using o(1) [of fp] o(2) True unf [of fp] by (auto split: if_splits)
      qed
      then show ?thesis using o(2) by blast
    next
      case False
      have "rdbSaveRawString htab compr (s @ tail) (length s) fp = verb fp" for fp
      proof (cases "compr \<and> length s > 20")
        case True
        then obtain r where "lzf_compress htab (length s - 4 + 1) s (length s - 4) = Some r"
          using lzf_compress_total [of s "length s - 4" "length s - 4 + 1" htab] by auto
        with False True have "lzf_compress htab (length s - 4 + 1) s (length s - 4) = Some None" by (cases r) auto
        then have "rdbSaveLzfStringObject htab s fp = Some (0, fp)"
          using True by (simp add: rdbSaveLzfStringObject_def Let_def)
        then show ?thesis using unf True by simp
      next
        case False
        then show ?thesis using unf [of fp] by (simp only: if_False option.case prod.case) simp
      qed
      then have "rdbSaveRawString htab compr (s @ tail) (length s) = verb" by (intro ext)
      then show ?thesis using verb verbatim_saved [OF assms(3)] by auto
    qed
  qed
qed

lemma rdbSaveStringObject_saved:
  assumes "sobj_ok obj"
  shows "\<exists>e. writes (rdbSaveStringObject htab compr obj) e \<and> string_saved e (text_of obj)"
proof -
  have raw: "\<exists>e. writes (rdbSaveRawString htab compr (s @ [0]) (length s)) e \<and> string_saved e s"
    if "length s < 2 ^ 31" for s
    using that by (intro rdbSaveRawString_saved [of 0]) simp_all
  show ?thesis
  proof (cases obj)
    case (Raw s)
    have "rdbSaveStringObject htab compr obj = rdbSaveRawString htab compr (s @ [0]) (length s)"
      by (intro ext) (simp add: rdbSaveStringObject_def Raw)
    then show ?thesis using raw [of s] assms Raw by simp
  next
    case (Enc v)
    then have v: "is_long v" using assms by simp
    show ?thesis
    proof (cases "rdbEncodeInteger v = []")
      case True
      have "rdbSaveStringObject htab compr obj =
          rdbSaveRawString htab compr (dec_text v @ [0]) (length (dec_text v))"
        by (intro ext) (simp add: rdbSaveStringObject_def Enc True getDecodedObject_eq v)
      then show ?thesis using raw [of "dec_text v"] length_dec_text [OF v] Enc by simp
    next
      case False
      have "rdbSaveStringObject htab compr obj = put (rdbEncodeInteger v)"
        by (intro ext) (simp add: rdbSaveStringObject_def Enc False Let_def)
      then show ?thesis using integer_saved [OF False] writes_put [OF False] Enc by auto
    qed
  qed
qed

text \<open>An element of a list, set or sorted set is loaded and then encoded if possible; a new object
  has one reference.\<close>

definition load_encoded :: "bytes \<Rightarrow> sobj load" where
  "load_encoded fp = load_bind (rdbLoadEncodedStringObject fp)
     (\<lambda>ele fp'. case tryObjectEncoding 1 ele of None \<Rightarrow> Fault | Some ele' \<Rightarrow> Got ele' fp')"

interpretation element: codec "rdbSaveStringObject htab compr" "load_encoded" sobj_ok
  "\<lambda>x y. text_of y = text_of x \<and> sobj_ok y" for htab compr
proof
  fix x assume "sobj_ok x"
  then obtain e y where e: "writes (rdbSaveStringObject htab compr x) e" "e \<noteq> []" "text_of y = text_of x"
    "sobj_ok y" "reads (rdbLoadEncodedStringObject) e y"
    using rdbSaveStringObject_saved [of x htab compr] by (auto simp: string_saved_def)
  obtain y' where y': "tryObjectEncoding 1 y = Some y'" "sobj_ok y'" "getDecodedObject y' = getDecodedObject y"
    using tryObjectEncoding_text [OF e(4), of 1] by blast
  have "reads load_encoded e y'"
    using e(5) y'(1) by (simp add: reads_def load_encoded_def)
  then show "\<exists>e y. e \<noteq> [] \<and> writes (rdbSaveStringObject htab compr x) e \<and> reads load_encoded e y \<and>
      text_of y = text_of x \<and> sobj_ok y"
    using e(1-4) y'(2,3) getDecodedObject_eq [OF e(4)] getDecodedObject_eq [OF y'(2)] by auto
qed

text \<open>A key, or a string that is to stay raw.\<close>

interpretation raw: codec "rdbSaveStringObject htab compr" "rdbLoadStringObject" sobj_ok
  "\<lambda>x y. y = Raw (text_of x)" for htab compr
proof
  fix x assume "sobj_ok x"
  from rdbSaveStringObject_saved [OF this, of htab compr]
  show "\<exists>e y. e \<noteq> [] \<and> writes (rdbSaveStringObject htab compr x) e \<and> reads rdbLoadStringObject e y \<and>
      y = Raw (text_of x)"
    by (auto simp: string_saved_def)
qed

section \<open>Doubles\<close>

text \<open>The printed text fits the buffer and reads back: 17 significant digits identify a double.\<close>

definition double_ok :: "('d \<Rightarrow> bytes) \<Rightarrow> (bytes \<Rightarrow> 'd double) \<Rightarrow> 'd double \<Rightarrow> bool" where
  "double_ok print_double scan_double val \<longleftrightarrow>
     (case val of
        Finite d \<Rightarrow> print_double d \<noteq> [] \<and> length (print_double d) < 128 \<and>
          scan_double (print_double d) = Finite d
      | _ \<Rightarrow> True)"

lemma double_reads:
  assumes "double_ok pd sd val"
  shows "\<exists>e. e \<noteq> [] \<and> writes (rdbSaveDoubleValue pd val) e \<and> reads (rdbLoadDoubleValue sd) e val"
proof (cases val)
  case (Finite d)
  let ?t = "pd d"
  have t: "?t \<noteq> []" "length ?t < 128" "sd ?t = Finite d" using assms Finite by (simp_all add: double_ok_def)
  have u: "unat (of_nat (length ?t) :: u8) = length ?t" using t(2) by (intro unat_u8) simp
  have ne: "(of_nat (length ?t) :: u8) \<noteq> k" if "128 \<le> unat k" for k
  proof
    assume "(of_nat (length ?t) :: u8) = k"
    then have "length ?t = unat k" using u by (simp only:)
    then show False using that t(2) by simp
  qed
  have "rdbLoadDoubleValue sd (of_nat (length ?t) # ?t @ r) = Got val r" for r
    using ne [of 255] ne [of 254] ne [of 253] u t fread_append [of "length ?t" ?t r] Finite
    by (simp add: rdbLoadDoubleValue_def fread_one Let_def)
  moreover have "writes (rdbSaveDoubleValue pd val) (of_nat (length ?t) # ?t)"
    unfolding rdbSaveDoubleValue_def Finite double.case by (rule writes_put) simp
  ultimately show ?thesis by (intro exI [of _ "of_nat (length ?t) # ?t"]) (simp add: reads_def)
next
  case NaN
  then show ?thesis
    by (intro exI [of _ "[253]"]) (simp add: rdbSaveDoubleValue_def writes_put reads_def rdbLoadDoubleValue_def fread_one)
next
  case PosInf
  then show ?thesis
    by (intro exI [of _ "[254]"]) (simp add: rdbSaveDoubleValue_def writes_put reads_def rdbLoadDoubleValue_def fread_one)
next
  case NegInf
  then show ?thesis
    by (intro exI [of _ "[255]"]) (simp add: rdbSaveDoubleValue_def writes_put reads_def rdbLoadDoubleValue_def fread_one)
qed

interpretation double: codec "rdbSaveDoubleValue pd" "rdbLoadDoubleValue sd" "double_ok pd sd" "\<lambda>x y. y = x"
  for pd sd
  by unfold_locales (use double_reads in blast)

text \<open>Compressed data that ends early is accepted: the rest of the string stays zero bytes.\<close>

theorem rdbLoadLzfStringObject_accepts_short:
  "rdbLoadLzfStringObject [2, 5, 0, 97] = Got (Raw [97, 0, 0, 0, 0]) []"
proof -
  have "rdbLoadLen [2, 5, 0, 97] = (2, False, [5, 0, 97])" "rdbLoadLen [5, 0, 97] = (5, False, [0, 97])"
    by (simp_all add: rdbLoadLen_def fread_def REDIS_RDB_6BITLEN_def Let_def)
  moreover have "lzf_decompress [0, 97] 5 = Some (LzfOk [97])"
    by (simp add: lzf_decompress_def decompress_loop.simps decompress_step_def literal_run_def rd_def peek_def
      emits_def)
  moreover have "replicate (5 - 1) (0 :: u8) = [0, 0, 0, 0]" by (simp add: numeral_eq_Suc)
  ultimately show ?thesis
    by (simp add: rdbLoadLzfStringObject_def fread_def REDIS_RDB_LENERR_def)
qed

end
