(* ===== verification/Rdb.thy ===== *)
theory Rdb
  imports Rdb_Value Zipmap
begin

text \<open>
  Saving and loading a whole dump (\<open>apps/redis-2.0.4/redis.c\<close>, \<open>rdbSaveObject\<close>, \<open>rdbSave\<close>,
  \<open>rdbLoadObject\<close>, \<open>rdbLoad\<close>), with virtual memory disabled. A list is its elements from head to
  tail; a set, a sorted set and a hash table are their entries in the order in which the iterator
  of the dictionary returns them, each once (see theory \<open>Dict\<close>); a small hash is the zipmap itself.
  The skip list of a sorted set is not part of the dump and is left out.
\<close>

datatype 'd robj =
    RString sobj
  | RList "sobj list"
  | RSet "sobj list"
  | RZset "(sobj \<times> 'd double) list"
  | RHashZip bytes
  | RHash "(sobj \<times> sobj) list"

text \<open>The settings of the server, and what the code takes from outside: the initial hash table of
  the compressor, fresh memory, the text of doubles.\<close>

record 'd conf =
  rdbcompression :: bool
  hash_max_zipmap_entries :: nat
  hash_max_zipmap_value :: nat
  dbnum :: nat
  c_htab :: "nat \<Rightarrow> int"
  c_garbage :: garbage
  c_print :: "'d \<Rightarrow> bytes"
  c_scan :: "bytes \<Rightarrow> 'd double"

record 'd redisDb =
  db_dict :: "(bytes \<times> 'd robj) list"
  db_expires :: "(bytes \<times> int) list"

definition REDIS_STRING :: u8 where "REDIS_STRING = 0"
definition REDIS_LIST :: u8 where "REDIS_LIST = 1"
definition REDIS_SET :: u8 where "REDIS_SET = 2"
definition REDIS_ZSET :: u8 where "REDIS_ZSET = 3"
definition REDIS_HASH :: u8 where "REDIS_HASH = 4"
definition REDIS_EXPIRETIME :: u8 where "REDIS_EXPIRETIME = 253"
definition REDIS_SELECTDB :: u8 where "REDIS_SELECTDB = 254"
definition REDIS_EOF :: u8 where "REDIS_EOF = 255"

definition obj_type :: "'d robj \<Rightarrow> u8" where
  "obj_type obj = (case obj of RString _ \<Rightarrow> REDIS_STRING | RList _ \<Rightarrow> REDIS_LIST | RSet _ \<Rightarrow> REDIS_SET
     | RZset _ \<Rightarrow> REDIS_ZSET | RHashZip _ \<Rightarrow> REDIS_HASH | RHash _ \<Rightarrow> REDIS_HASH)"

section \<open>Saving\<close>

text \<open>The pointers to the key and the value that \<open>zipmapNext\<close> stores.\<close>

definition zipmapNext_ptrs :: "bytes \<Rightarrow> nat \<Rightarrow> (nat \<times> nat) option" where
  "zipmapNext_ptrs zm p = do {
     klen \<leftarrow> zipmapDecodeLength zm p;
     rk \<leftarrow> zipmapRawKeyLength zm p;
     vlen \<leftarrow> zipmapDecodeLength zm (p + rk);
     Some (p + ZIPMAP_LEN_BYTES klen, p + rk + 1 + ZIPMAP_LEN_BYTES vlen) }"

partial_function (option) save_zipmap :: "'d conf \<Rightarrow> bytes \<Rightarrow> nat \<Rightarrow> ofile \<Rightarrow> (int \<times> ofile) option" where
  "save_zipmap c zm p fp =
     (case zipmapNext zm p of
        None \<Rightarrow> None
      | Some None \<Rightarrow> Some (0, fp)
      | Some (Some (p', key, val)) \<Rightarrow> do {
          (kp, vp) \<leftarrow> zipmapNext_ptrs zm p;
          (r1, fp1) \<leftarrow> rdbSaveRawString (c_htab c) (rdbcompression c) (drop kp zm) (length key) fp;
          if r1 = - 1 then Some (- 1, fp1)
          else do {
            (r2, fp2) \<leftarrow> rdbSaveRawString (c_htab c) (rdbcompression c) (drop vp zm) (length val) fp1;
            if r2 = - 1 then Some (- 1, fp2) else save_zipmap c zm p' fp2 } })"

definition save_string :: "'d conf \<Rightarrow> sobj \<Rightarrow> writer_fun" where
  "save_string c = rdbSaveStringObject (c_htab c) (rdbcompression c)"

definition rdbSaveObject :: "'d conf \<Rightarrow> 'd robj \<Rightarrow> writer_fun" where
  "rdbSaveObject c obj =
     (case obj of
        RString s \<Rightarrow> save_string c s
      | RList xs \<Rightarrow> and_then (rdbSaveLen (of_nat (length xs))) (save_list (save_string c) xs)
      | RSet xs \<Rightarrow> and_then (rdbSaveLen (of_nat (length xs))) (save_list (save_string c) xs)
      | RZset xs \<Rightarrow> and_then (rdbSaveLen (of_nat (length xs)))
          (save_list (save_pair (save_string c) (rdbSaveDoubleValue (c_print c))) xs)
      | RHashZip zm \<Rightarrow> (\<lambda>fp. do {
          (count, zm') \<leftarrow> zipmapLen zm;
          and_then (rdbSaveLen (of_nat count)) (save_zipmap c zm' zipmapRewind) fp })
      | RHash xs \<Rightarrow> and_then (rdbSaveLen (of_nat (length xs)))
          (save_list (save_pair (save_string c) (save_string c)) xs))"

definition getExpire :: "'d redisDb \<Rightarrow> bytes \<Rightarrow> int" where
  "getExpire db key =
     (if db_expires db = [] then - 1
      else case map_of (db_expires db) key of None \<Rightarrow> - 1 | Some t \<Rightarrow> t)"

definition setExpire :: "'d redisDb \<Rightarrow> bytes \<Rightarrow> int \<Rightarrow> 'd redisDb" where
  "setExpire db key t =
     (if map_of (db_expires db) key \<noteq> None then db
      else db\<lparr>db_expires := db_expires db @ [(key, t)]\<rparr>)"

fun save_keys :: "'d conf \<Rightarrow> int \<Rightarrow> 'd redisDb \<Rightarrow> (bytes \<times> 'd robj) list \<Rightarrow> writer_fun" where
  "save_keys c now db [] = (\<lambda>fp. Some (0, fp))"
| "save_keys c now db ((key, obj) # es) =
     (let expiretime = getExpire db key in
      if expiretime \<noteq> - 1 \<and> expiretime < now then save_keys c now db es
      else and_then
        (if expiretime \<noteq> - 1
         then and_then (rdbSaveType REDIS_EXPIRETIME) (rdbSaveTime expiretime)
         else (\<lambda>fp. Some (0, fp)))
        (and_then (rdbSaveType (obj_type obj))
          (and_then (save_string c (Raw key)) (and_then (rdbSaveObject c obj) (save_keys c now db es)))))"

fun save_dbs :: "'d conf \<Rightarrow> int \<Rightarrow> nat \<Rightarrow> 'd redisDb list \<Rightarrow> writer_fun" where
  "save_dbs c now j [] = (\<lambda>fp. Some (0, fp))"
| "save_dbs c now j (db # dbs) =
     (if db_dict db = [] then save_dbs c now (j + 1) dbs
      else and_then (rdbSaveType REDIS_SELECTDB)
        (and_then (rdbSaveLen (of_nat j))
          (and_then (save_keys c now db (db_dict db)) (save_dbs c now (j + 1) dbs))))"

text \<open>\<open>"REDIS0001"\<close>\<close>

definition rdb_magic :: bytes where
  "rdb_magic = [82, 69, 68, 73, 83, 48, 48, 48, 49]"

text \<open>
  What the operating system answers: whether the temporary file can be opened, how many bytes
  \<open>fwrite\<close> accepts, how many of these have reached the disk after \<open>fflush\<close>, \<open>fsync\<close> and
  \<open>fclose\<close> (whose results the code ignores), whether the file can be renamed, and the time then.
\<close>

record os =
  os_open :: bool
  os_room :: nat
  os_disk :: nat
  os_rename :: bool
  os_time :: int

type_synonym fs = "string \<Rightarrow> bytes option"

text \<open>The file system, \<open>server.dirty\<close> and \<open>server.lastsave\<close>.\<close>

record save_state =
  files :: fs
  dirty :: nat
  lastsave :: int

definition unlink_file :: "string \<Rightarrow> save_state \<Rightarrow> save_state" where
  "unlink_file name st = st\<lparr>files := (files st)(name := None)\<rparr>"

text \<open>
  The result is whether \<open>REDIS_OK\<close> is returned, and the state. When the end marker cannot be
  written, the code at \<open>werr\<close> releases \<open>di\<close>: the iterator of the last database that is not empty,
  which the loop has released already. \<open>None\<close> stands for that access to freed memory too.
\<close>

definition rdbSave :: "'d conf \<Rightarrow> os \<Rightarrow> int \<Rightarrow> string \<Rightarrow> string \<Rightarrow> 'd redisDb list \<Rightarrow> save_state \<Rightarrow>
    (bool \<times> save_state) option" where
  "rdbSave c os now tmpfile filename dbs st =
     (if \<not> os_open os then Some (False, st)
      else do {
        (r, fp) \<leftarrow> and_then (put rdb_magic) (save_dbs c now 0 dbs) \<lparr>fdata = [], froom = os_room os\<rparr>;
        if r = - 1 then Some (False, unlink_file tmpfile st)
        else do {
          (r', fp') \<leftarrow> rdbSaveType REDIS_EOF fp;
          if r' = - 1
          then (if \<exists>db \<in> set dbs. db_dict db \<noteq> [] then None else Some (False, unlink_file tmpfile st))
          else if \<not> os_rename os then Some (False, unlink_file tmpfile st)
          else Some (True, st\<lparr>
            files := (files st)(tmpfile := None, filename \<mapsto> take (os_disk os) (fdata fp')),
            dirty := 0, lastsave := os_time os\<rparr>) } })"

section \<open>Loading\<close>

text \<open>\<open>dictAdd\<close> on the entries of a dictionary: nothing changes when the key is there.\<close>

definition set_add :: "sobj list \<Rightarrow> sobj \<Rightarrow> sobj list" where
  "set_add xs x = (if text_of x \<in> text_of ` set xs then xs else xs @ [x])"

definition entry_add :: "(sobj \<times> 'b) list \<Rightarrow> sobj \<times> 'b \<Rightarrow> (sobj \<times> 'b) list" where
  "entry_add xs x = (if text_of (fst x) \<in> text_of ` fst ` set xs then xs else xs @ [x])"

text \<open>\<open>convertToRealHash\<close>\<close>

partial_function (option) convert_loop :: "bytes \<Rightarrow> nat \<Rightarrow> (sobj \<times> sobj) list \<Rightarrow> (sobj \<times> sobj) list option" where
  "convert_loop zm p d =
     (case zipmapNext zm p of
        None \<Rightarrow> None
      | Some None \<Rightarrow> Some d
      | Some (Some (p', key, val)) \<Rightarrow> do {
          keyobj \<leftarrow> tryObjectEncoding 1 (Raw key);
          valobj \<leftarrow> tryObjectEncoding 1 (Raw val);
          convert_loop zm p' (entry_add d (keyobj, valobj)) })"

definition convertToRealHash :: "'d robj \<Rightarrow> 'd robj option" where
  "convertToRealHash obj =
     (case obj of
        RHashZip zm \<Rightarrow> map_option RHash (convert_loop zm zipmapRewind [])
      | _ \<Rightarrow> None)"

text \<open>The body of the loop that loads a hash.\<close>

definition hash_add :: "'d conf \<Rightarrow> 'd robj \<Rightarrow> sobj \<times> sobj \<Rightarrow> 'd robj option" where
  "hash_add c obj kv = do {
     key \<leftarrow> getDecodedObject (fst kv);
     val \<leftarrow> getDecodedObject (snd kv);
     obj1 \<leftarrow> (case obj of
         RHashZip zm \<Rightarrow>
           if length key > hash_max_zipmap_value c \<or> length val > hash_max_zipmap_value c
           then convertToRealHash obj else Some obj
       | _ \<Rightarrow> Some obj);
     case obj1 of
       RHashZip zm \<Rightarrow> do { (zm', _) \<leftarrow> zipmapSet (c_garbage c) zm key val; Some (RHashZip zm') }
     | RHash d \<Rightarrow> do {
         k \<leftarrow> tryObjectEncoding 1 (fst kv);
         v \<leftarrow> tryObjectEncoding 1 (snd kv);
         Some (RHash (entry_add d (k, v))) }
     | _ \<Rightarrow> None }"

definition load_counted :: "(nat \<Rightarrow> bytes \<Rightarrow> 'b load) \<Rightarrow> bytes \<Rightarrow> 'b load" where
  "load_counted body fp =
     (let (len, _, fp1) = rdbLoadLen fp in
      if len = REDIS_RDB_LENERR then Short else body (unat len) fp1)"

definition rdbLoadObject :: "'d conf \<Rightarrow> u8 \<Rightarrow> bytes \<Rightarrow> 'd robj load" where
  "rdbLoadObject c t fp =
     (if t = REDIS_STRING then
        load_bind (load_encoded fp) (\<lambda>s. Got (RString s))
      else if t = REDIS_LIST then
        load_counted (\<lambda>n fp1. load_bind
          (load_n n load_encoded (\<lambda>xs x. Some (xs @ [x])) [] fp1)
          (\<lambda>xs. Got (RList xs))) fp
      else if t = REDIS_SET then
        load_counted (\<lambda>n fp1. load_bind
          (load_n n load_encoded (\<lambda>xs x. Some (set_add xs x)) [] fp1)
          (\<lambda>xs. Got (RSet xs))) fp
      else if t = REDIS_ZSET then
        load_counted (\<lambda>n fp1. load_bind
          (load_n n (load_pair load_encoded (rdbLoadDoubleValue (c_scan c)))
            (\<lambda>xs x. Some (entry_add xs x)) [] fp1)
          (\<lambda>xs. Got (RZset xs))) fp
      else if t = REDIS_HASH then
        load_counted (\<lambda>n fp1.
          case (do {
              zm \<leftarrow> zipmapNew (c_garbage c);
              if n > hash_max_zipmap_entries c then convertToRealHash (RHashZip zm)
              else Some (RHashZip zm) }) of
            None \<Rightarrow> Fault
          | Some obj \<Rightarrow>
              load_n n (load_pair rdbLoadStringObject rdbLoadStringObject)
                (hash_add c) obj fp1) fp
      else Panic)"

text \<open>The result of \<open>rdbLoad\<close>: \<open>REDIS_OK\<close>, \<open>REDIS_ERR\<close>, the end of the process by \<open>exit(1)\<close>,
  a panic, or an access outside a buffer.\<close>

datatype 'd loaded = LoadOk "'d redisDb list" | LoadErr | LoadExit | LoadPanic | LoadFault

fun load_fail :: "'a load \<Rightarrow> 'd loaded" where
  "load_fail Short = LoadExit"
| "load_fail Panic = LoadPanic"
| "load_fail Fault = LoadFault"
| "load_fail (Got x fp) = LoadExit"

text \<open>The expire time (-1 for none) and the type of the next entry.\<close>

definition load_head :: "bytes \<Rightarrow> (int \<times> u8) load" where
  "load_head fp = load_bind (rdbLoadType fp) (\<lambda>t fp1.
     if t = REDIS_EXPIRETIME then
       load_bind (rdbLoadTime fp1) (\<lambda>time fp2.
         if time = - 1 then Short else load_bind (rdbLoadType fp2) (\<lambda>t'. Got (time, t')))
     else Got (- 1, t) fp1)"

definition db_add :: "'d redisDb \<Rightarrow> bytes \<Rightarrow> 'd robj \<Rightarrow> int \<Rightarrow> 'd redisDb" where
  "db_add db key val expiretime =
     (let db1 = db\<lparr>db_dict := db_dict db @ [(key, val)]\<rparr> in
      if expiretime \<noteq> - 1 then setExpire db1 key expiretime else db1)"

partial_function (option) load_entries :: "'d conf \<Rightarrow> int \<Rightarrow> 'd redisDb list \<Rightarrow> nat \<Rightarrow> bytes \<Rightarrow> 'd loaded option" where
  "load_entries c now dbs cur fp =
     (case load_head fp of
        Got (expiretime, t) fp1 \<Rightarrow>
          if t = REDIS_EOF then Some (LoadOk dbs)
          else if t = REDIS_SELECTDB then
            (case rdbLoadLen fp1 of
               (dbid, _, fp2) \<Rightarrow>
                 if dbid = REDIS_RDB_LENERR then Some LoadExit
                 else if unat dbid \<ge> dbnum c then Some LoadExit
                 else load_entries c now dbs (unat dbid) fp2)
          else
            (case load_pair rdbLoadStringObject (rdbLoadObject c t) fp1 of
               Got (key, val) fp2 \<Rightarrow>
                 if expiretime \<noteq> - 1 \<and> expiretime < now then load_entries c now dbs cur fp2
                 else if map_of (db_dict (dbs ! cur)) (text_of key) \<noteq> None then Some LoadExit
                 else load_entries c now (dbs[cur := db_add (dbs ! cur) (text_of key) val expiretime]) cur fp2
             | x \<Rightarrow> Some (load_fail x))
      | x \<Rightarrow> Some (load_fail x))"

text \<open>The dump file, if it can be opened; \<open>atoi\<close> reads the four bytes of the version.\<close>

definition rdbLoad :: "'d conf \<Rightarrow> int \<Rightarrow> 'd redisDb list \<Rightarrow> bytes option \<Rightarrow> 'd loaded option" where
  "rdbLoad c now dbs dump =
     (case dump of
        None \<Rightarrow> Some LoadErr
      | Some fp \<Rightarrow>
          (case fread 9 fp of
             None \<Rightarrow> Some LoadExit
           | Some (b, fp1) \<Rightarrow>
               if take 5 b \<noteq> take 5 rdb_magic then Some LoadErr
               else (case strtoll10 (drop 5 b @ [0]) of
                   None \<Rightarrow> Some LoadFault
                 | Some (rdbver, _) \<Rightarrow>
                     if rdbver \<noteq> 1 then Some LoadErr else load_entries c now dbs 0 fp1)))"

section \<open>Counted sequences\<close>

lemma load_counted_eq:
  "n < 2 ^ 31 \<Longrightarrow> load_counted body (len_bytes (of_nat n) @ r) = body n r"
  using u32_not_err [of n] u32_of_nat [of n] by (simp add: load_counted_def rdbLoadLen_len_bytes)

interpretation zset_element: codec_pair "rdbSaveStringObject htab compr" "load_encoded" sobj_ok
  "\<lambda>x y. text_of y = text_of x \<and> sobj_ok y"
  "rdbSaveDoubleValue pd" "rdbLoadDoubleValue sd" "double_ok pd sd" "\<lambda>x y. y = x" for htab compr pd sd
  by unfold_locales

interpretation hash_entry: codec_pair "rdbSaveStringObject htab compr" "rdbLoadStringObject" sobj_ok
  "\<lambda>x y. y = Raw (text_of x)"
  "rdbSaveStringObject htab compr" "rdbLoadStringObject" sobj_ok "\<lambda>x y. y = Raw (text_of x)" for htab compr
  by unfold_locales

lemma add_all_append: "add_all (\<lambda>xs x. Some (xs @ [x])) acc ys = Some (acc @ ys)"
  by (induction ys arbitrary: acc) auto

lemma add_all_set:
  "distinct (map text_of (acc @ ys)) \<Longrightarrow> add_all (\<lambda>xs x. Some (set_add xs x)) acc ys = Some (acc @ ys)"
proof (induction ys arbitrary: acc)
  case (Cons y ys)
  then have "text_of y \<notin> text_of ` set acc" by auto
  then show ?case using Cons.IH [of "acc @ [y]"] Cons.prems by (simp add: set_add_def)
qed simp

lemma add_all_entry:
  "distinct (map (text_of \<circ> fst) (acc @ ys)) \<Longrightarrow> add_all (\<lambda>xs x. Some (entry_add xs x)) acc ys = Some (acc @ ys)"
proof (induction ys arbitrary: acc)
  case (Cons y ys)
  then have "text_of (fst y) \<notin> text_of ` fst ` set acc" by auto
  then show ?case using Cons.IH [of "acc @ [y]"] Cons.prems by (simp add: entry_add_def)
qed simp

section \<open>Saving a zipmap\<close>

definition raw_pair :: "entry \<Rightarrow> sobj \<times> sobj" where
  "raw_pair x = (case x of (k, v, e) \<Rightarrow> (Raw k, Raw v))"

lemma save_zipmap_ok:
  assumes "zm = A @ encs es @ [255]" "p = length A" "length zm < 2 ^ 32"
    "\<forall>x \<in> set es. length (snd (snd x)) < 4"
    "\<forall>x \<in> set es. length (fst x) < 2 ^ 31 \<and> length (fst (snd x)) < 2 ^ 31"
  shows "\<exists>e. writes (save_zipmap c zm p) e \<and> (\<forall>(add :: 'o \<Rightarrow> _) obj rest.
    load_n (length es) (load_pair rdbLoadStringObject rdbLoadStringObject) add obj (e @ rest) =
    (case add_all add obj (map raw_pair es) of None \<Rightarrow> Fault | Some obj' \<Rightarrow> Got obj' rest))"
  using assms
proof (induction es arbitrary: A p)
  case Nil
  then have "zipmapNext zm p = Some None" by (simp add: zipmapNext_def ZIPMAP_END_def)
  then have "save_zipmap c zm p = (\<lambda>fp. Some (0, fp))" by (intro ext) (subst save_zipmap.simps, simp)
  then show ?case by (intro exI [of _ "[]"]) (simp add: writes_skip)
next
  case (Cons x es)
  obtain k v ex where x: "x = (k, v, ex)" by (cases x)
  have zm: "zm = A @ enc (k, v, ex) @ (encs es @ [255])" using Cons.prems(1) x by simp
  have e4: "length ex < 256" using Cons.prems(4) x by simp
  note q = enc_parts [OF zm Cons.prems(2,3) e4] raw_lengths [OF zm Cons.prems(2,3) e4]
  have "rd zm p = Some (zm ! p)" "zm ! p \<noteq> 255" using q(1,2) by (simp_all add: rd_def)
  then have nx: "zipmapNext zm p = Some (Some (p + length (enc (k, v, ex)), k, v))"
    using q(3-11) by (simp add: zipmapNext_def ZIPMAP_END_def length_enc_len length_enc add_ac)
  let ?kp = "p + ZIPMAP_LEN_BYTES (length k)"
  let ?vp = "p + (ZIPMAP_LEN_BYTES (length k) + length k) + 1 + ZIPMAP_LEN_BYTES (length v)"
  have ptrs: "zipmapNext_ptrs zm p = Some (?kp, ?vp)"
    using q(3-11) by (simp add: zipmapNext_ptrs_def length_enc_len add_ac)
  have km: "drop ?kp zm = k @ (enc_len (length v) @ of_nat (length ex) # v @ ex @ encs es @ [255])"
    using zm Cons.prems(2) by (simp add: enc_def length_enc_len [symmetric])
  have vm: "drop ?vp zm = v @ (ex @ encs es @ [255])"
    using zm Cons.prems(2) by (simp add: enc_def length_enc_len [symmetric])
  have kl: "length k < 2 ^ 31" "length v < 2 ^ 31" using Cons.prems(5) x by auto
  obtain ek where ek: "writes (rdbSaveRawString (c_htab c) (rdbcompression c) (drop ?kp zm) (length k)) ek"
      "string_saved ek k"
  proof -
    have "255 \<in> set (enc_len (length v) @ of_nat (length ex) # v @ ex @ encs es @ [255])" by simp
    from rdbSaveRawString_saved [OF this stop_byte_end kl(1)] that show ?thesis unfolding km by blast
  qed
  obtain ev where ev: "writes (rdbSaveRawString (c_htab c) (rdbcompression c) (drop ?vp zm) (length v)) ev"
      "string_saved ev v"
  proof -
    have "255 \<in> set (ex @ encs es @ [255])" by simp
    from rdbSaveRawString_saved [OF this stop_byte_end kl(2)] that show ?thesis unfolding vm by blast
  qed
  obtain e where e: "writes (save_zipmap c zm (p + length (enc (k, v, ex)))) e"
    "\<forall>(add :: 'o \<Rightarrow> _) obj rest.
      load_n (length es) (load_pair rdbLoadStringObject rdbLoadStringObject) add obj (e @ rest) =
      (case add_all add obj (map raw_pair es) of None \<Rightarrow> Fault | Some obj' \<Rightarrow> Got obj' rest)"
    using Cons.IH [of "A @ enc x" "p + length (enc (k, v, ex))"] Cons.prems x by auto
  have "save_zipmap c zm p = and_then (rdbSaveRawString (c_htab c) (rdbcompression c) (drop ?kp zm) (length k))
      (and_then (rdbSaveRawString (c_htab c) (rdbcompression c) (drop ?vp zm) (length v))
        (save_zipmap c zm (p + length (enc (k, v, ex)))))"
    by (intro ext, subst save_zipmap.simps)
       (simp add: nx ptrs and_then_def split: option.split Option.bind_split)
  then have w: "writes (save_zipmap c zm p) (ek @ ev @ e)"
    using writes_and_then [OF ek(1) writes_and_then [OF ev(1) e(1)]] by simp
  have "load_n (length (x # es)) (load_pair rdbLoadStringObject rdbLoadStringObject) add obj ((ek @ ev @ e) @ rest) =
    (case add_all add obj (map raw_pair (x # es)) of None \<Rightarrow> Fault | Some obj' \<Rightarrow> Got obj' rest)"
    for add :: "'o \<Rightarrow> sobj \<times> sobj \<Rightarrow> 'o option" and obj rest
    using ek(2) ev(2) e(2) x
    by (auto simp: string_saved_def reads_def load_pair_def raw_pair_def split: option.split)
  then show ?case using w by blast
qed

section \<open>Loading a hash\<close>

definition texts :: "(sobj \<times> sobj) list \<Rightarrow> (bytes \<times> bytes) list" where
  "texts d = map (\<lambda>(k, v). (text_of k, text_of v)) d"

lemma texts_simps [simp]:
  "texts [] = []" "texts (x # d) = (text_of (fst x), text_of (snd x)) # texts d" "texts (a @ b) = texts a @ texts b"
  by (simp_all add: texts_def split_beta)

lemma fst_texts: "fst ` set (texts d) = text_of ` fst ` set d"
  by (force simp: texts_def)

text \<open>The settings keep a zipmap below \<open>2 ^ 32\<close> bytes.\<close>

definition conf_ok :: "'d conf \<Rightarrow> bool" where
  "conf_ok c \<longleftrightarrow> 2 + hash_max_zipmap_entries c * (2 * hash_max_zipmap_value c + 11) < 2 ^ 32
     \<and> hash_max_zipmap_value c < 2 ^ 31"

lemma encode_text:
  assumes "length s < 2 ^ 31"
  shows "\<exists>y. tryObjectEncoding 1 (Raw s) = Some y \<and> text_of y = s \<and> sobj_ok y"
proof -
  have "sobj_ok (Raw s)" using assms by simp
  from tryObjectEncoding_text [OF this, of 1] obtain y where
    y: "tryObjectEncoding 1 (Raw s) = Some y" "sobj_ok y" "getDecodedObject y = getDecodedObject (Raw s)" by blast
  then show ?thesis using getDecodedObject_eq [OF y(2)] by (auto simp: getDecodedObject_def)
qed

lemma convert_loop_ok:
  assumes "zipmap_pairs zm p = Some ps" "\<forall>(k, v) \<in> set ps. length k < 2 ^ 31 \<and> length v < 2 ^ 31"
    "distinct (map fst (texts d) @ map fst ps)"
  shows "\<exists>d'. convert_loop zm p d = Some (d @ d') \<and> texts d' = ps"
  using assms
proof (induction ps arbitrary: p d)
  case Nil
  then show ?case by (subst convert_loop.simps) (simp add: zipmap_pairs_Nil)
next
  case (Cons x ps)
  obtain k v where x: "x = (k, v)" by (cases x)
  obtain p' where p': "zipmapNext zm p = Some (Some (p', k, v))" "zipmap_pairs zm p' = Some ps"
    using Cons.prems(1) x by (auto elim: zipmap_pairs_Cons)
  obtain k' where k': "tryObjectEncoding 1 (Raw k) = Some k'" "text_of k' = k"
    using encode_text [of k] Cons.prems(2) x by auto
  obtain v' where v': "tryObjectEncoding 1 (Raw v) = Some v'" "text_of v' = v"
    using encode_text [of v] Cons.prems(2) x by auto
  have "text_of k' \<notin> text_of ` fst ` set d"
    using Cons.prems(3) x k'(2) fst_texts [of d] by auto
  then have a: "entry_add d (k', v') = d @ [(k', v')]" by (simp add: entry_add_def)
  obtain d' where "convert_loop zm p' (d @ [(k', v')]) = Some ((d @ [(k', v')]) @ d')" "texts d' = ps"
    using Cons.IH [OF p'(2), of "d @ [(k', v')]"] Cons.prems(2,3) x k'(2) by auto
  then show ?case
    using p'(1) k' v' x a by (subst convert_loop.simps) (auto intro!: exI [of _ "(k', v') # d'"])
qed

definition hash_inv :: "'d conf \<Rightarrow> nat \<Rightarrow> 'd robj \<Rightarrow> (bytes \<Rightarrow> bytes option) \<Rightarrow> bool" where
  "hash_inv c n obj m \<longleftrightarrow>
     (case obj of
        RHashZip zm \<Rightarrow> (\<exists>es. zm_rep zm es \<and> zm_abs es = m) \<and>
          length zm \<le> 2 + n * (2 * hash_max_zipmap_value c + 11) \<and>
          (\<forall>k v. m k = Some v \<longrightarrow> length k \<le> hash_max_zipmap_value c \<and> length v \<le> hash_max_zipmap_value c)
      | RHash d \<Rightarrow> distinct (map fst (texts d)) \<and> map_of (texts d) = m
      | _ \<Rightarrow> False)"

lemma zm_pairs:
  assumes "zm_rep zm es"
  shows "zipmap_pairs zm zipmapRewind = Some (map (\<lambda>(k, v, e). (k, v)) es)"
proof -
  from assms obtain h where zm: "zm = [h] @ encs es @ [255]" "length zm < 2 ^ 32"
    "\<forall>x \<in> set es. length (snd (snd x)) < 4"
    by (auto elim: zm_repE)
  from zipmap_pairs_ok [OF zm(1) _ zm(2,3), of 1] show ?thesis by (simp add: zipmapRewind_def)
qed

lemma convert_inv:
  assumes "hash_inv c n (RHashZip zm) m" "conf_ok c"
  shows "\<exists>d. convertToRealHash (RHashZip zm) = Some (RHash d) \<and> hash_inv c n' (RHash d) m"
proof -
  obtain es where es: "zm_rep zm es" "zm_abs es = m" using assms(1) by (auto simp: hash_inv_def)
  define ps where "ps = map (\<lambda>(k, v, e). (k, v)) es"
  have "map fst ps = map fst es" unfolding ps_def by (induction es) auto
  moreover have "distinct (map fst es)" using es(1) by (auto elim: zm_repE)
  ultimately have d: "distinct (map fst ps)" by (simp only:)
  have m: "m = map_of ps" using es(2) by (simp add: zm_abs_def ps_def)
  have l: "length k < 2 ^ 31 \<and> length v < 2 ^ 31" if "(k, v) \<in> set ps" for k v
    using that assms map_of_is_SomeI [OF d that] m by (fastforce simp: hash_inv_def conf_ok_def)
  have "\<exists>d'. convert_loop zm zipmapRewind [] = Some ([] @ d') \<and> texts d' = ps"
  proof (rule convert_loop_ok)
    show "zipmap_pairs zm zipmapRewind = Some ps" using zm_pairs [OF es(1)] by (simp add: ps_def)
    show "\<forall>(k, v) \<in> set ps. length k < 2 ^ 31 \<and> length v < 2 ^ 31" using l by blast
    show "distinct (map fst (texts []) @ map fst ps)" using d by simp
  qed
  then show ?thesis using d m by (auto simp: convertToRealHash_def hash_inv_def)
qed

lemma hash_add_real:
  assumes "hash_inv c n (RHash d) m" "m key = None" "length key < 2 ^ 31" "length val < 2 ^ 31"
  shows "\<exists>d'. (do { k \<leftarrow> tryObjectEncoding 1 (Raw key); v \<leftarrow> tryObjectEncoding 1 (Raw val);
      Some (RHash (entry_add d (k, v))) }) = Some (RHash d') \<and> hash_inv c n' (RHash d') (m(key \<mapsto> val))"
proof -
  obtain k where k: "tryObjectEncoding 1 (Raw key) = Some k" "text_of k = key"
    using encode_text [OF assms(3)] by blast
  obtain v where v: "tryObjectEncoding 1 (Raw val) = Some v" "text_of v = val"
    using encode_text [OF assms(4)] by blast
  have m: "map_of (texts d) = m" "distinct (map fst (texts d))" using assms(1) by (simp_all add: hash_inv_def)
  then have n: "key \<notin> fst ` set (texts d)" using assms(2) by (simp flip: map_of_eq_None_iff)
  then have "entry_add d (k, v) = d @ [(k, v)]" using k(2) by (simp add: entry_add_def fst_texts)
  moreover have "map_of (texts d @ [(key, val)]) = m(key \<mapsto> val)"
    using m(1) assms(2) by (auto simp: map_add_def fun_eq_iff split: option.split)
  ultimately show ?thesis using k v m n by (simp add: hash_inv_def)
qed

lemma hash_add_zip:
  assumes "hash_inv c n (RHashZip zm) m" "conf_ok c" "n < hash_max_zipmap_entries c"
    "length key \<le> hash_max_zipmap_value c" "length val \<le> hash_max_zipmap_value c"
  shows "\<exists>zm'. hash_add c (RHashZip zm) (Raw key, Raw val) = Some (RHashZip zm') \<and>
    hash_inv c (Suc n) (RHashZip zm') (m(key \<mapsto> val))"
proof -
  let ?mv = "hash_max_zipmap_value c"
  obtain es where es: "zm_rep zm es" "zm_abs es = m" "length zm \<le> 2 + n * (2 * ?mv + 11)"
    "\<forall>k v. m k = Some v \<longrightarrow> length k \<le> ?mv \<and> length v \<le> ?mv"
    using assms(1) by (auto simp: hash_inv_def)
  have e: "length (enc (key, val, [])) \<le> 2 * ?mv + 11"
    using assms(4,5) by (auto simp: length_enc ZIPMAP_LEN_BYTES_def)
  have "Suc n * (2 * ?mv + 11) \<le> hash_max_zipmap_entries c * (2 * ?mv + 11)"
    using assms(3) by (intro mult_le_mono1) simp
  then have "length zm + length (enc (key, val, [])) < 2 ^ 32"
    using es(3) e assms(2) by (simp add: conf_ok_def)
  from zipmapSet_ok [OF es(1) this, of "c_garbage c"] obtain zm' es' where
    z: "zipmapSet (c_garbage c) zm key val = Some (zm', zm_abs es key \<noteq> None)" "zm_rep zm' es'"
      "zm_abs es' = (zm_abs es)(key \<mapsto> val)" "length zm' \<le> length zm + length (enc (key, val, []))"
    by blast
  have "length zm' \<le> 2 + Suc n * (2 * ?mv + 11)" using z(4) es(3) e by simp
  then have "hash_inv c (Suc n) (RHashZip zm') (m(key \<mapsto> val))"
    using z(2,3) es(2,4) assms(4,5) by (auto simp: hash_inv_def)
  then show ?thesis using z(1) assms(4,5) by (auto simp: hash_add_def getDecodedObject_def)
qed

lemma hash_add_ok:
  fixes c :: "'d conf"
  assumes "hash_inv c n obj m" "conf_ok c" "m key = None" "length key < 2 ^ 31" "length val < 2 ^ 31"
    "(\<exists>zm. obj = RHashZip zm) \<longrightarrow> n < hash_max_zipmap_entries c"
  shows "\<exists>obj'. hash_add c obj (Raw key, Raw val) = Some obj' \<and> hash_inv c (Suc n) obj' (m(key \<mapsto> val)) \<and>
    ((\<exists>zm. obj' = RHashZip zm) \<longrightarrow> (\<exists>zm. obj = RHashZip zm))"
proof (cases obj)
  case (RHash d)
  then show ?thesis
    using hash_add_real [of c n d m key val] assms by (auto simp: hash_add_def getDecodedObject_def)
next
  case (RHashZip zm)
  let ?mv = "hash_max_zipmap_value c"
  show ?thesis
  proof (cases "length key > ?mv \<or> length val > ?mv")
    case True
    obtain d where d: "convertToRealHash (RHashZip zm :: 'd robj) = Some (RHash d)" "hash_inv c n (RHash d) m"
      using convert_inv [of c n zm m n] assms(1,2) RHashZip by auto
    show ?thesis
      using hash_add_real [OF d(2) assms(3,4,5), of "Suc n"] d(1) True RHashZip
      by (auto simp: hash_add_def getDecodedObject_def)
  next
    case False
    then show ?thesis using hash_add_zip [of c n zm m key val] assms RHashZip by auto
  qed
qed (use assms(1) in \<open>simp_all add: hash_inv_def\<close>)

lemma hash_add_all:
  assumes "hash_inv c n obj m" "conf_ok c" "distinct (map fst ps)" "\<forall>k \<in> fst ` set ps. m k = None"
    "\<forall>(k, v) \<in> set ps. length k < 2 ^ 31 \<and> length v < 2 ^ 31"
    "(\<exists>zm. obj = RHashZip zm) \<longrightarrow> n + length ps \<le> hash_max_zipmap_entries c"
  shows "\<exists>obj'. add_all (hash_add c) obj (map (\<lambda>(k, v). (Raw k, Raw v)) ps) = Some obj' \<and>
    hash_inv c (n + length ps) obj' (\<lambda>k. case map_of ps k of None \<Rightarrow> m k | Some v \<Rightarrow> Some v)"
  using assms
proof (induction ps arbitrary: n obj m)
  case (Cons x ps)
  obtain k v where x: "x = (k, v)" by (cases x)
  obtain obj1 where o1: "hash_add c obj (Raw k, Raw v) = Some obj1" "hash_inv c (Suc n) obj1 (m(k \<mapsto> v))"
    "(\<exists>zm. obj1 = RHashZip zm) \<longrightarrow> (\<exists>zm. obj = RHashZip zm)"
    using hash_add_ok [OF Cons.prems(1,2), of k v] Cons.prems x by auto
  have "\<exists>obj'. add_all (hash_add c) obj1 (map (\<lambda>(k, v). (Raw k, Raw v)) ps) = Some obj' \<and>
    hash_inv c (Suc n + length ps) obj' (\<lambda>k'. case map_of ps k' of None \<Rightarrow> (m(k \<mapsto> v)) k' | Some v \<Rightarrow> Some v)"
    using Cons.prems x o1(3) by (intro Cons.IH [OF o1(2)]) auto
  moreover have "(\<lambda>k'. case map_of ps k' of None \<Rightarrow> (m(k \<mapsto> v)) k' | Some v \<Rightarrow> Some v) =
      (\<lambda>k'. case map_of (x # ps) k' of None \<Rightarrow> m k' | Some v \<Rightarrow> Some v)"
  proof -
    have "map_of ps k = None" using Cons.prems(3) x by (simp add: map_of_eq_None_iff)
    then show ?thesis using x by (auto simp: fun_eq_iff split: option.split)
  qed
  ultimately show ?case using o1(1) x by auto
qed simp

section \<open>Objects\<close>

definition robj_ok :: "'d conf \<Rightarrow> 'd robj \<Rightarrow> bool" where
  "robj_ok c obj \<longleftrightarrow>
     (case obj of
        RString s \<Rightarrow> sobj_ok s
      | RList xs \<Rightarrow> (\<forall>x \<in> set xs. sobj_ok x) \<and> length xs < 2 ^ 31
      | RSet xs \<Rightarrow> (\<forall>x \<in> set xs. sobj_ok x) \<and> length xs < 2 ^ 31 \<and> distinct (map text_of xs)
      | RZset xs \<Rightarrow> (\<forall>x \<in> set xs. sobj_ok (fst x) \<and> double_ok (c_print c) (c_scan c) (snd x)) \<and>
          length xs < 2 ^ 31 \<and> distinct (map (text_of \<circ> fst) xs)
      | RHashZip zm \<Rightarrow> (\<exists>es. zm_rep zm es \<and> length es < 2 ^ 31 \<and>
          (\<forall>x \<in> set es. length (fst x) < 2 ^ 31 \<and> length (fst (snd x)) < 2 ^ 31))
      | RHash d \<Rightarrow> (\<forall>x \<in> set d. sobj_ok (fst x) \<and> sobj_ok (snd x)) \<and> length d < 2 ^ 31 \<and>
          distinct (map fst (texts d)))"

definition hash_view :: "'d robj \<Rightarrow> bytes \<Rightarrow> bytes option" where
  "hash_view obj key =
     (case obj of
        RHashZip zm \<Rightarrow> (case zipmapGet zm key of None \<Rightarrow> None | Some r \<Rightarrow> r)
      | RHash d \<Rightarrow> map_of (texts d) key
      | _ \<Rightarrow> None)"

text \<open>Two objects hold the same value, whatever the encodings of strings and hashes.\<close>

fun same_value :: "'d robj \<Rightarrow> 'd robj \<Rightarrow> bool" where
  "same_value (RString a) (RString b) \<longleftrightarrow> text_of a = text_of b"
| "same_value (RList a) (RList b) \<longleftrightarrow> map text_of a = map text_of b"
| "same_value (RSet a) (RSet b) \<longleftrightarrow> text_of ` set a = text_of ` set b \<and> length a = length b"
| "same_value (RZset a) (RZset b) \<longleftrightarrow>
     (\<lambda>(x, d). (text_of x, d)) ` set a = (\<lambda>(x, d). (text_of x, d)) ` set b \<and> length a = length b"
| "same_value a b \<longleftrightarrow> obj_type a = REDIS_HASH \<and> obj_type b = REDIS_HASH \<and> hash_view a = hash_view b"

lemma reads_object:
  assumes "n < 2 ^ 31" "\<And>rest. body n (e @ rest) = Got y rest"
    "\<And>fp. rdbLoadObject c t fp = load_counted body fp"
  shows "reads (rdbLoadObject c t) (len_bytes (of_nat n) @ e) y"
  using assms by (simp add: reads_def load_counted_eq)

lemmas obj_types = REDIS_STRING_def REDIS_LIST_def REDIS_SET_def REDIS_ZSET_def REDIS_HASH_def

lemma save_string_eq: "save_string c = rdbSaveStringObject (c_htab c) (rdbcompression c)"
  by (simp add: save_string_def)

lemma elements_saved:
  assumes "\<forall>x \<in> set xs. sobj_ok x"
  shows "\<exists>e ys. writes (save_list (save_string c) xs) e \<and> map text_of ys = map text_of xs \<and>
    (\<forall>(add :: 'o \<Rightarrow> sobj \<Rightarrow> 'o option) obj rest. load_n (length xs) load_encoded add obj (e @ rest) =
       (case add_all add obj ys of None \<Rightarrow> Fault | Some obj' \<Rightarrow> Got obj' rest))"
proof -
  obtain e ys where e: "writes (save_list (save_string c) xs) e"
    "list_all2 (\<lambda>x y. text_of y = text_of x \<and> sobj_ok y) xs ys"
    "\<forall>(add :: 'o \<Rightarrow> sobj \<Rightarrow> 'o option) obj rest. load_n (length xs) load_encoded add obj (e @ rest) =
       (case add_all add obj ys of None \<Rightarrow> Fault | Some obj' \<Rightarrow> Got obj' rest)"
    using element.saved_list [OF assms, of "c_htab c" "rdbcompression c"] unfolding save_string_eq by blast
  from e(2) have "map text_of ys = map text_of xs" by (induction) auto
  then show ?thesis using e(1,3) by blast
qed

lemma new_hash_ok:
  fixes c :: "'d conf"
  assumes "conf_ok c"
  shows "\<exists>obj. (do { zm \<leftarrow> zipmapNew (c_garbage c);
      if n > hash_max_zipmap_entries c then convertToRealHash (RHashZip zm) else Some (RHashZip zm) }) =
      Some (obj :: 'd robj) \<and> hash_inv c 0 obj (\<lambda>_. None) \<and>
      ((\<exists>zm. obj = RHashZip zm) \<longrightarrow> n \<le> hash_max_zipmap_entries c)"
proof -
  obtain zm where zm: "zipmapNew (c_garbage c) = Some zm" "zm_rep zm []" "length zm = 2"
    using zipmapNew_ok by blast
  have "\<exists>es. zm_rep zm es \<and> zm_abs es = (\<lambda>_. None)"
    using zm(2) by (intro exI [of _ "[]"]) (simp add: zm_abs_def)
  then have i: "hash_inv c 0 (RHashZip zm :: 'd robj) (\<lambda>_. None)" using zm(3) by (simp add: hash_inv_def)
  from convert_inv [OF i assms, of 0] zm(1) i show ?thesis by auto
qed

lemma hash_loaded:
  fixes c :: "'d conf"
  assumes "conf_ok c" "distinct (map fst ps)"
    "\<forall>(k, v) \<in> set ps. length k < 2 ^ 31 \<and> length v < 2 ^ 31" "length ps < 2 ^ 31"
    "\<And>(add :: 'd robj \<Rightarrow> _) obj rest.
       load_n (length ps) (load_pair rdbLoadStringObject rdbLoadStringObject) add obj (e @ rest) =
       (case add_all add obj (map (\<lambda>(k, v). (Raw k, Raw v)) ps) of None \<Rightarrow> Fault | Some obj' \<Rightarrow> Got obj' rest)"
  shows "\<exists>obj. reads (rdbLoadObject c REDIS_HASH) (len_bytes (of_nat (length ps)) @ e) obj \<and>
    obj_type obj = REDIS_HASH \<and> hash_view obj = map_of ps"
proof -
  from new_hash_ok [OF assms(1), of "length ps"] obtain obj0 :: "'d robj" where
    o0: "(do { zm \<leftarrow> zipmapNew (c_garbage c);
      if length ps > hash_max_zipmap_entries c then convertToRealHash (RHashZip zm) else Some (RHashZip zm) }) =
      Some obj0" "hash_inv c 0 obj0 (\<lambda>_. None)"
    "(\<exists>zm. obj0 = RHashZip zm) \<longrightarrow> length ps \<le> hash_max_zipmap_entries c"
    by blast
  obtain obj where o1: "add_all (hash_add c) obj0 (map (\<lambda>(k, v). (Raw k, Raw v)) ps) = Some obj"
    "hash_inv c (length ps) obj (\<lambda>k. case map_of ps k of None \<Rightarrow> None | Some v \<Rightarrow> Some v)"
    using hash_add_all [OF o0(2) assms(1,2) _ assms(3)] o0(3) by auto
  have m: "(\<lambda>k. case map_of ps k of None \<Rightarrow> None | Some v \<Rightarrow> Some v) = map_of ps"
    by (auto simp: fun_eq_iff split: option.split)
  have "obj_type obj = REDIS_HASH \<and> hash_view obj = map_of ps"
    using o1(2) zipmapGet_ok unfolding m
    by (cases obj) (auto simp: hash_inv_def obj_type_def hash_view_def fun_eq_iff)
  moreover have "reads (rdbLoadObject c REDIS_HASH) (len_bytes (of_nat (length ps)) @ e) obj"
  proof (rule reads_object [OF assms(4)])
    show "rdbLoadObject c REDIS_HASH fp = load_counted (\<lambda>n fp1.
          case (do { zm \<leftarrow> zipmapNew (c_garbage c);
              if n > hash_max_zipmap_entries c then convertToRealHash (RHashZip zm)
              else Some (RHashZip zm) }) of
            None \<Rightarrow> Fault
          | Some obj \<Rightarrow>
              load_n n (load_pair rdbLoadStringObject rdbLoadStringObject)
                (hash_add c) obj fp1) fp" for fp
      by (simp add: rdbLoadObject_def obj_types)
    show "(case (do { zm \<leftarrow> zipmapNew (c_garbage c);
              if length ps > hash_max_zipmap_entries c then convertToRealHash (RHashZip zm)
              else Some (RHashZip zm) }) of
            None \<Rightarrow> Fault
          | Some obj \<Rightarrow>
              load_n (length ps) (load_pair rdbLoadStringObject rdbLoadStringObject)
                (hash_add c) obj (e @ rest)) = Got obj rest" for rest
      unfolding o0(1) option.case assms(5) o1(1) by (rule refl)
  qed
  ultimately show ?thesis by blast
qed

end
