(* ===== verification/Rdb_Dump.thy ===== *)
theory Rdb_Dump
  imports Rdb
begin

text \<open>
  What the dump file guarantees: an object that is saved is read back with the same value, a whole
  file is read back as the databases that were saved, \<open>rdbSave\<close> replaces the old dump or leaves it
  alone, and \<open>rdbLoad\<close> returns on every file.
\<close>

section \<open>Objects\<close>

lemma map_same:
  assumes "map f ys = map f xs"
  shows "f ` set xs = f ` set ys \<and> length xs = length ys"
  using assms by (metis length_map set_map)

lemma string_object_saved:
  assumes "sobj_ok s"
  shows "\<exists>e y. writes (rdbSaveObject c (RString s)) e \<and> reads (rdbLoadObject c REDIS_STRING) e y \<and>
    same_value (RString s) y"
proof -
  obtain e y where e: "writes (rdbSaveStringObject (c_htab c) (rdbcompression c) s) e"
    "reads load_encoded e y" "text_of y = text_of s"
    using element.saved [OF assms] by blast
  then have "reads (rdbLoadObject c REDIS_STRING) e (RString y)"
    by (simp add: reads_def rdbLoadObject_def)
  then show ?thesis
    using e(1,3) by (intro exI [of _ e] exI [of _ "RString y"]) (simp add: rdbSaveObject_def save_string_def)
qed

lemma list_object_saved:
  fixes c :: "'d conf"
  assumes "robj_ok c (RList xs)"
  shows "\<exists>e y. writes (rdbSaveObject c (RList xs)) e \<and> reads (rdbLoadObject c REDIS_LIST) e y \<and>
    same_value (RList xs) y"
proof -
  have xs: "\<forall>x \<in> set xs. sobj_ok x" "length xs < 2 ^ 31" using assms by (simp_all add: robj_ok_def)
  obtain e ys where e: "writes (save_list (save_string c) xs) e" "map text_of ys = map text_of xs"
    "\<forall>add (obj :: sobj list) rest. load_n (length xs) load_encoded add obj (e @ rest) =
       (case add_all add obj ys of None \<Rightarrow> Fault | Some obj' \<Rightarrow> Got obj' rest)"
    using elements_saved [OF xs(1), of c] by blast
  have "reads (rdbLoadObject c REDIS_LIST) (len_bytes (of_nat (length xs)) @ e) (RList ys)"
    by (rule reads_object [OF xs(2)]) (simp_all add: rdbLoadObject_def obj_types e(3) add_all_append)
  moreover have "writes (rdbSaveObject c (RList xs)) (len_bytes (of_nat (length xs)) @ e)"
    using writes_and_then [OF rdbSaveLen_writes e(1)] by (simp add: rdbSaveObject_def)
  ultimately show ?thesis using e(2) by force
qed

lemma set_object_saved:
  fixes c :: "'d conf"
  assumes "robj_ok c (RSet xs)"
  shows "\<exists>e y. writes (rdbSaveObject c (RSet xs)) e \<and> reads (rdbLoadObject c REDIS_SET) e y \<and>
    same_value (RSet xs) y"
proof -
  have xs: "\<forall>x \<in> set xs. sobj_ok x" "length xs < 2 ^ 31" "distinct (map text_of xs)"
    using assms by (simp_all add: robj_ok_def)
  obtain e ys where e: "writes (save_list (save_string c) xs) e" "map text_of ys = map text_of xs"
    "\<forall>add (obj :: sobj list) rest. load_n (length xs) load_encoded add obj (e @ rest) =
       (case add_all add obj ys of None \<Rightarrow> Fault | Some obj' \<Rightarrow> Got obj' rest)"
    using elements_saved [OF xs(1), of c] by blast
  have a: "add_all (\<lambda>xs x. Some (set_add xs x)) [] ys = Some ys"
    using add_all_set [of "[]" ys] xs(3) e(2) by simp
  have "reads (rdbLoadObject c REDIS_SET) (len_bytes (of_nat (length xs)) @ e) (RSet ys)"
    by (rule reads_object [OF xs(2)]) (simp_all add: rdbLoadObject_def obj_types e(3) a)
  moreover have "writes (rdbSaveObject c (RSet xs)) (len_bytes (of_nat (length xs)) @ e)"
    using writes_and_then [OF rdbSaveLen_writes e(1)] by (simp add: rdbSaveObject_def)
  moreover have "same_value (RSet xs) (RSet ys)"
    using map_same [OF e(2)] by simp
  ultimately show ?thesis by blast
qed

lemma zset_object_saved:
  fixes c :: "'d conf"
  assumes "robj_ok c (RZset xs)"
  shows "\<exists>e y. writes (rdbSaveObject c (RZset xs)) e \<and> reads (rdbLoadObject c REDIS_ZSET) e y \<and>
    same_value (RZset xs) y"
proof -
  let ?load = "load_pair load_encoded (rdbLoadDoubleValue (c_scan c))"
  have xs: "\<forall>x \<in> set xs. sobj_ok (fst x) \<and> double_ok (c_print c) (c_scan c) (snd x)"
    "length xs < 2 ^ 31" "distinct (map (text_of \<circ> fst) xs)"
    using assms by (simp_all add: robj_ok_def)
  obtain e ys where e: "writes (save_list (save_pair (save_string c) (rdbSaveDoubleValue (c_print c))) xs) e"
    "list_all2 (\<lambda>p q. (text_of (fst q) = text_of (fst p) \<and> sobj_ok (fst q)) \<and> snd q = snd p) xs ys"
    "\<forall>add (obj :: (sobj \<times> 'd double) list) rest. load_n (length xs) ?load add obj (e @ rest) =
       (case add_all add obj ys of None \<Rightarrow> Fault | Some obj' \<Rightarrow> Got obj' rest)"
    using zset_element.both.saved_list [OF xs(1), of "c_htab c" "rdbcompression c"]
    unfolding save_string_eq by blast
  from e(2) have m: "map (\<lambda>(x, d). (text_of x, d)) ys = map (\<lambda>(x, d). (text_of x, d)) xs"
    by induction auto
  from e(2) have "map (text_of \<circ> fst) ys = map (text_of \<circ> fst) xs" by induction auto
  then have "distinct (map (text_of \<circ> fst) ys)" using xs(3) by (simp only:)
  then have a: "add_all (\<lambda>xs x. Some (entry_add xs x)) [] ys = Some ys"
    using add_all_entry [of "[]" ys] by simp
  have "reads (rdbLoadObject c REDIS_ZSET) (len_bytes (of_nat (length xs)) @ e) (RZset ys)"
    by (rule reads_object [OF xs(2)]) (simp_all add: rdbLoadObject_def obj_types e(3) a)
  moreover have "writes (rdbSaveObject c (RZset xs)) (len_bytes (of_nat (length xs)) @ e)"
    using writes_and_then [OF rdbSaveLen_writes e(1)] by (simp add: rdbSaveObject_def)
  moreover have "same_value (RZset xs) (RZset ys)"
    using map_same [OF m] by simp
  ultimately show ?thesis by blast
qed

lemma same_hash:
  assumes "obj_type y = REDIS_HASH" "hash_view x = hash_view y" "x = RHash d \<or> x = RHashZip zm"
  shows "same_value x y"
  using assms by (cases y) (auto simp: obj_type_def)

lemma sobj_ok_length: "sobj_ok x \<Longrightarrow> length (text_of x) < 2 ^ 31"
  using length_dec_text by (cases x) fastforce+

lemma hash_object_saved:
  fixes c :: "'d conf"
  assumes "robj_ok c (RHash d)" "conf_ok c"
  shows "\<exists>e y. writes (rdbSaveObject c (RHash d)) e \<and> reads (rdbLoadObject c REDIS_HASH) e y \<and>
    same_value (RHash d) y"
proof -
  let ?load = "load_pair rdbLoadStringObject rdbLoadStringObject"
  have d: "\<forall>x \<in> set d. sobj_ok (fst x) \<and> sobj_ok (snd x)" "length d < 2 ^ 31"
    "distinct (map fst (texts d))"
    using assms(1) by (simp_all add: robj_ok_def)
  obtain e ys where e: "writes (save_list (save_pair (save_string c) (save_string c)) d) e"
    "list_all2 (\<lambda>p q. fst q = Raw (text_of (fst p)) \<and> snd q = Raw (text_of (snd p))) d ys"
    "\<forall>add (obj :: 'd robj) rest. load_n (length d) ?load add obj (e @ rest) =
       (case add_all add obj ys of None \<Rightarrow> Fault | Some obj' \<Rightarrow> Got obj' rest)"
    using hash_entry.both.saved_list [OF d(1), of "c_htab c" "rdbcompression c"]
    unfolding save_string_eq by blast
  from e(2) have ys: "ys = map (\<lambda>(k, v). (Raw k, Raw v)) (texts d)"
    by induction (auto simp: prod_eq_iff)
  have len: "length (texts d) = length d" by (simp add: texts_def)
  have "\<forall>(k, v) \<in> set (texts d). length k < 2 ^ 31 \<and> length v < 2 ^ 31"
    using d(1) sobj_ok_length by (fastforce simp: texts_def)
  then obtain obj where obj: "reads (rdbLoadObject c REDIS_HASH) (len_bytes (of_nat (length (texts d))) @ e) obj"
    "obj_type obj = REDIS_HASH" "hash_view obj = map_of (texts d)"
    using hash_loaded [OF assms(2) d(3), of e] e(3) ys d(2) len by auto
  have "writes (rdbSaveObject c (RHash d)) (len_bytes (of_nat (length d)) @ e)"
    using writes_and_then [OF rdbSaveLen_writes e(1)] by (simp add: rdbSaveObject_def)
  moreover have "hash_view (RHash d) = hash_view obj"
    unfolding obj(3) by (intro ext) (simp add: hash_view_def)
  ultimately show ?thesis using obj(1) same_hash [OF obj(2)] unfolding len by blast
qed

lemma zipmap_object_saved:
  fixes c :: "'d conf"
  assumes "robj_ok c (RHashZip zm)" "conf_ok c"
  shows "\<exists>e y. writes (rdbSaveObject c (RHashZip zm)) e \<and> reads (rdbLoadObject c REDIS_HASH) e y \<and>
    same_value (RHashZip zm) y"
proof -
  obtain es where es: "zm_rep zm es" "length es < 2 ^ 31"
    "\<forall>x \<in> set es. length (fst x) < 2 ^ 31 \<and> length (fst (snd x)) < 2 ^ 31"
    using assms(1) by (auto simp: robj_ok_def)
  define ps where "ps = map (\<lambda>(k, v, e). (k, v)) es"
  have ps: "length ps = length es" "map fst ps = map fst es"
    "map raw_pair es = map (\<lambda>(k, v). (Raw k, Raw v)) ps"
    unfolding ps_def raw_pair_def by (induction es) auto
  obtain zm' where zm': "zipmapLen zm = Some (length es, zm')" "zm_rep zm' es"
    using zipmapLen_ok [OF es(1)] by blast
  obtain h where h: "zm' = [h] @ encs es @ [255]" "length zm' < 2 ^ 32"
    "\<forall>x \<in> set es. length (snd (snd x)) < 4" "distinct (map fst es)"
    using zm'(2) by (auto elim: zm_repE)
  obtain e where e: "writes (save_zipmap c zm' zipmapRewind) e"
    "\<forall>add (obj :: 'd robj) rest.
      load_n (length es) (load_pair rdbLoadStringObject rdbLoadStringObject) add obj (e @ rest) =
      (case add_all add obj (map raw_pair es) of None \<Rightarrow> Fault | Some obj' \<Rightarrow> Got obj' rest)"
    using save_zipmap_ok [OF h(1) _ h(2,3) es(3), of zipmapRewind c] by (auto simp: zipmapRewind_def)
  have "distinct (map fst ps)" using ps(2) h(4) by (simp only:)
  moreover have "\<forall>(k, v) \<in> set ps. length k < 2 ^ 31 \<and> length v < 2 ^ 31"
    using es(3) by (fastforce simp: ps_def)
  ultimately obtain obj where obj: "reads (rdbLoadObject c REDIS_HASH) (len_bytes (of_nat (length ps)) @ e) obj"
    "obj_type obj = REDIS_HASH" "hash_view obj = map_of ps"
    using hash_loaded [OF assms(2), of ps e] e(2) ps(1,3) es(2) by auto
  have "rdbSaveObject c (RHashZip zm) =
      and_then (rdbSaveLen (of_nat (length es))) (save_zipmap c zm' zipmapRewind)"
    by (intro ext) (simp add: rdbSaveObject_def zm'(1))
  then have "writes (rdbSaveObject c (RHashZip zm)) (len_bytes (of_nat (length ps)) @ e)"
    using writes_and_then [OF rdbSaveLen_writes e(1)] ps(1) by simp
  moreover have "hash_view (RHashZip zm) = hash_view obj"
    using zipmapGet_ok [OF es(1)] obj(3) by (auto simp: hash_view_def zm_abs_def ps_def)
  ultimately show ?thesis using obj(1) same_hash [OF obj(2)] by blast
qed

text \<open>Every object is read back with the same value.\<close>

lemma object_saved:
  assumes "robj_ok c obj" "conf_ok c"
  shows "\<exists>e y. writes (rdbSaveObject c obj) e \<and> reads (rdbLoadObject c (obj_type obj)) e y \<and> same_value obj y"
proof (cases obj)
  case (RString x)
  then show ?thesis using assms(1) string_object_saved [of x c] by (simp add: obj_type_def robj_ok_def)
next
  case (RList x)
  then show ?thesis using assms(1) list_object_saved [of c x] by (simp add: obj_type_def)
next
  case (RSet x)
  then show ?thesis using assms(1) set_object_saved [of c x] by (simp add: obj_type_def)
next
  case (RZset x)
  then show ?thesis using assms(1) zset_object_saved [of c x] by (simp add: obj_type_def)
next
  case (RHashZip x)
  then show ?thesis using assms zipmap_object_saved [of c x] by (simp only:) (simp add: obj_type_def)
next
  case (RHash x)
  then show ?thesis using assms hash_object_saved [of c x] by (simp only:) (simp add: obj_type_def)
qed

section \<open>Databases\<close>

definition empty_db :: "'d redisDb" where
  "empty_db = \<lparr>db_dict = [], db_expires = []\<rparr>"

definition live :: "int \<Rightarrow> 'd redisDb \<Rightarrow> bytes \<times> 'd robj \<Rightarrow> bool" where
  "live now db x \<longleftrightarrow> getExpire db (fst x) = - 1 \<or> now \<le> getExpire db (fst x)"

definition db_ok :: "'d conf \<Rightarrow> 'd redisDb \<Rightarrow> bool" where
  "db_ok c db \<longleftrightarrow> distinct (map fst (db_dict db)) \<and>
     (\<forall>(k, obj) \<in> set (db_dict db). length k < 2 ^ 31 \<and> robj_ok c obj \<and>
        - (2 ^ 31) \<le> getExpire db k \<and> getExpire db k < 2 ^ 31)"

text \<open>\<open>db'\<close> is what a dump of \<open>db\<close> gives when it is loaded at the time \<open>now\<close>: the keys that have not
  expired, in the same order, with the same values and expire times.\<close>

definition db_loaded :: "int \<Rightarrow> 'd redisDb \<Rightarrow> 'd redisDb \<Rightarrow> bool" where
  "db_loaded now db db' \<longleftrightarrow>
     list_all2 (\<lambda>x y. fst y = fst x \<and> same_value (snd x) (snd y)) (filter (live now db) (db_dict db)) (db_dict db') \<and>
     (\<forall>k. getExpire db' k = (if k \<in> fst ` set (db_dict db') then getExpire db k else - 1))"

lemma rdbSaveTime_loaded:
  assumes "- (2 ^ 31) \<le> t" "t < 2 ^ 31"
  shows "\<exists>e. writes (rdbSaveTime t) e \<and> reads rdbLoadTime e t"
proof -
  let ?e = "le32_bytes (word_of_int t)"
  have l: "length ?e = 4" by (simp add: le32_bytes_def)
  have ne: "?e \<noteq> []" by (simp add: le32_bytes_def)
  have "sint (le32 (?e ! 0) (?e ! 1) (?e ! 2) (?e ! 3)) = t"
    using sint_word_of_int(3) [OF assms] le32_roundtrip [of "word_of_int t"] by simp
  then have "reads rdbLoadTime ?e t"
    using fread_append [OF l [symmetric] ne] by (simp add: reads_def rdbLoadTime_def)
  then show ?thesis using writes_put [OF ne] unfolding rdbSaveTime_def by blast
qed

lemma rdbSaveType_writes: "writes (rdbSaveType t) [t]"
  by (simp add: rdbSaveType_def writes_put)

lemma rdbLoadType_Cons: "rdbLoadType (t # r) = Got t r"
  by (simp add: rdbLoadType_def fread_one)

lemmas opcodes = REDIS_EXPIRETIME_def REDIS_SELECTDB_def REDIS_EOF_def

lemma obj_type_opcode:
  "obj_type obj \<noteq> REDIS_EXPIRETIME" "obj_type obj \<noteq> REDIS_SELECTDB" "obj_type obj \<noteq> REDIS_EOF"
  by (cases obj; simp add: obj_type_def obj_types opcodes)+

text \<open>The expire time, if any, and the type.\<close>

definition save_head :: "int \<Rightarrow> u8 \<Rightarrow> writer_fun" where
  "save_head t ty = and_then
     (if t \<noteq> - 1 then and_then (rdbSaveType REDIS_EXPIRETIME) (rdbSaveTime t) else (\<lambda>fp. Some (0, fp)))
     (rdbSaveType ty)"

lemma head_saved:
  assumes "- (2 ^ 31) \<le> t" "t < 2 ^ 31" "ty \<noteq> REDIS_EXPIRETIME"
  shows "\<exists>e. writes (save_head t ty) e \<and> reads load_head e (t, ty)"
proof (cases "t = - 1")
  case True
  then show ?thesis
    using writes_and_then [OF writes_skip rdbSaveType_writes [of ty]] assms(3)
    by (intro exI [of _ "[ty]"]) (simp add: save_head_def reads_def load_head_def rdbLoadType_Cons)
next
  case False
  obtain e where e: "writes (rdbSaveTime t) e" "reads rdbLoadTime e t"
    using rdbSaveTime_loaded [OF assms(1,2)] by blast
  have "writes (save_head t ty) (([REDIS_EXPIRETIME] @ e) @ [ty])"
    using writes_and_then [OF writes_and_then [OF rdbSaveType_writes e(1)] rdbSaveType_writes] False
    by (simp add: save_head_def)
  moreover have "reads load_head (([REDIS_EXPIRETIME] @ e) @ [ty]) (t, ty)"
    using e(2) False by (simp add: reads_def load_head_def rdbLoadType_Cons)
  ultimately show ?thesis by blast
qed

lemma and_then_assoc: "and_then a (and_then b d) = and_then (and_then a b) d"
  by (intro ext) (auto simp: and_then_def split: Option.bind_split prod.split)

text \<open>One key with its value.\<close>

lemma entry_saved:
  fixes c :: "'d conf"
  assumes "robj_ok c obj" "conf_ok c" "length key < 2 ^ 31" "- (2 ^ 31) \<le> t" "t < 2 ^ 31"
  shows "\<exists>e y. writes (and_then (save_head t (obj_type obj))
      (and_then (save_string c (Raw key)) (rdbSaveObject c obj))) e \<and> same_value obj y \<and>
    (\<forall>dbs cur now rest. load_entries c now dbs cur (e @ rest) =
      (if t \<noteq> - 1 \<and> t < now then load_entries c now dbs cur rest
       else if map_of (db_dict (dbs ! cur)) key \<noteq> None then Some LoadExit
       else load_entries c now (dbs[cur := db_add (dbs ! cur) key y t]) cur rest))"
proof -
  obtain e1 where e1: "writes (save_head t (obj_type obj)) e1" "reads load_head e1 (t, obj_type obj)"
    using head_saved [OF assms(4,5) obj_type_opcode(1)] by blast
  have "sobj_ok (Raw key)" using assms(3) by simp
  then obtain e2 where e2: "writes (save_string c (Raw key)) e2"
    "reads rdbLoadStringObject e2 (Raw key)"
    using raw.saved [of "Raw key" "c_htab c" "rdbcompression c"] unfolding save_string_eq by auto
  obtain e3 y where e3: "writes (rdbSaveObject c obj) e3" "reads (rdbLoadObject c (obj_type obj)) e3 y"
    "same_value obj y"
    using object_saved [OF assms(1,2)] by blast
  have "load_entries c now dbs cur ((e1 @ e2 @ e3) @ rest) =
      (if t \<noteq> - 1 \<and> t < now then load_entries c now dbs cur rest
       else if map_of (db_dict (dbs ! cur)) key \<noteq> None then Some LoadExit
       else load_entries c now (dbs[cur := db_add (dbs ! cur) key y t]) cur rest)" for now dbs cur rest
    using readsD [OF e1(2), of "e2 @ e3 @ rest"] readsD [OF e2(2), of "e3 @ rest"] readsD [OF e3(2), of rest]
      obj_type_opcode [of obj]
    by (subst load_entries.simps) (simp add: load_pair_def)
  then show ?thesis using writes_and_then [OF e1(1) writes_and_then [OF e2(1) e3(1)]] e3(3) by blast
qed

lemma save_keys_Cons:
  "save_keys c now db ((key, obj) # es) =
     (if getExpire db key \<noteq> - 1 \<and> getExpire db key < now then save_keys c now db es
      else and_then (and_then (save_head (getExpire db key) (obj_type obj))
          (and_then (save_string c (Raw key)) (rdbSaveObject c obj)))
        (save_keys c now db es))"
  by (simp add: Let_def save_head_def and_then_assoc)

definition add_entries :: "'d redisDb \<Rightarrow> 'd redisDb \<Rightarrow> (bytes \<times> 'd robj) list \<Rightarrow> 'd redisDb" where
  "add_entries db = foldl (\<lambda>d (k, obj). db_add d k obj (getExpire db k))"

lemma add_entries_simps [simp]:
  "add_entries db d [] = d"
  "add_entries db d ((k, obj) # es) = add_entries db (db_add d k obj (getExpire db k)) es"
  by (simp_all add: add_entries_def)

lemma db_dict_db_add [simp]: "db_dict (db_add d k obj t) = db_dict d @ [(k, obj)]"
  by (simp add: db_add_def Let_def setExpire_def)

lemma save_keys_loaded:
  fixes c :: "'d conf"
  assumes "conf_ok c" "distinct (map fst es)" "now \<le> now'"
    "\<forall>(k, obj) \<in> set es. length k < 2 ^ 31 \<and> robj_ok c obj \<and> - (2 ^ 31) \<le> getExpire db k \<and> getExpire db k < 2 ^ 31"
  shows "\<exists>e ys. writes (save_keys c now db es) e \<and>
    list_all2 (\<lambda>x y. fst y = fst x \<and> same_value (snd x) (snd y)) (filter (live now' db) es) ys \<and>
    (\<forall>dbs cur rest. cur < length dbs \<longrightarrow> (\<forall>k \<in> fst ` set es. map_of (db_dict (dbs ! cur)) k = None) \<longrightarrow>
      load_entries c now' dbs cur (e @ rest) =
      load_entries c now' (dbs[cur := add_entries db (dbs ! cur) ys]) cur rest)"
  using assms(2,4)
proof (induction es)
  case Nil
  show ?case by (intro exI [of _ "[]"]) (auto simp: writes_skip)
next
  case (Cons x es)
  obtain key obj where x: "x = (key, obj)" by (cases x)
  let ?t = "getExpire db key"
  obtain e ys where IH: "writes (save_keys c now db es) e"
    "list_all2 (\<lambda>x y. fst y = fst x \<and> same_value (snd x) (snd y)) (filter (live now' db) es) ys"
    "\<forall>dbs cur rest. cur < length dbs \<longrightarrow> (\<forall>k \<in> fst ` set es. map_of (db_dict (dbs ! cur)) k = None) \<longrightarrow>
      load_entries c now' dbs cur (e @ rest) =
      load_entries c now' (dbs[cur := add_entries db (dbs ! cur) ys]) cur rest"
    using Cons by auto
  have ok: "robj_ok c obj" "length key < 2 ^ 31" "- (2 ^ 31) \<le> ?t" "?t < 2 ^ 31" using Cons.prems(2) x by auto
  obtain e1 y where e1: "writes (and_then (save_head ?t (obj_type obj))
      (and_then (save_string c (Raw key)) (rdbSaveObject c obj))) e1" "same_value obj y"
    "\<forall>dbs cur now rest. load_entries c now dbs cur (e1 @ rest) =
      (if ?t \<noteq> - 1 \<and> ?t < now then load_entries c now dbs cur rest
       else if map_of (db_dict (dbs ! cur)) key \<noteq> None then Some LoadExit
       else load_entries c now (dbs[cur := db_add (dbs ! cur) key y ?t]) cur rest)"
    using entry_saved [OF ok(1) assms(1) ok(2-4)] by blast
  have w: "writes (save_keys c now db (x # es)) (e1 @ e)" if "\<not> (?t \<noteq> - 1 \<and> ?t < now)"
    unfolding x save_keys_Cons using that writes_and_then [OF e1(1) IH(1)] by auto
  consider (gone) "?t \<noteq> - 1" "?t < now" | (late) "?t \<noteq> - 1" "now \<le> ?t" "?t < now'" | (kept) "?t = - 1 \<or> now' \<le> ?t"
    by linarith
  then show ?case
  proof cases
    case gone
    then have "\<not> live now' db x" using assms(3) x by (simp add: live_def)
    moreover have "writes (save_keys c now db (x # es)) e" unfolding x save_keys_Cons using gone IH(1) by simp
    ultimately show ?thesis using IH(2,3) by (intro exI [of _ e] exI [of _ ys]) simp
  next
    case late
    then have "\<not> live now' db x" using x by (simp add: live_def)
    then show ?thesis using IH(2,3) w late e1(3) by (intro exI [of _ "e1 @ e"] exI [of _ ys]) simp
  next
    case kept
    then have l: "live now' db x" using x by (simp add: live_def)
    have "load_entries c now' dbs cur ((e1 @ e) @ rest) =
        load_entries c now' (dbs[cur := add_entries db (dbs ! cur) ((key, y) # ys)]) cur rest"
      if "cur < length dbs" "\<forall>k \<in> fst ` set (x # es). map_of (db_dict (dbs ! cur)) k = None" for dbs cur rest
    proof -
      have "key \<notin> fst ` set es" using Cons.prems(1) x by simp
      then have n: "map_of (db_dict (db_add (dbs ! cur) key y ?t)) k = None" if "k \<in> fst ` set es" for k
      proof -
        have "k \<noteq> key" "map_of (db_dict (dbs ! cur)) k = None"
          using \<open>\<forall>k \<in> fst ` set (x # es). map_of (db_dict (dbs ! cur)) k = None\<close> \<open>key \<notin> fst ` set es\<close> that by auto
        then show ?thesis by (simp add: map_add_def)
      qed
      let ?dbs = "dbs[cur := db_add (dbs ! cur) key y ?t]"
      have "load_entries c now' ?dbs cur (e @ rest) =
          load_entries c now' (?dbs[cur := add_entries db (?dbs ! cur) ys]) cur rest"
        using n that(1) by (intro IH(3) [rule_format]) simp_all
      moreover have "load_entries c now' dbs cur (e1 @ e @ rest) = load_entries c now' ?dbs cur (e @ rest)"
        using e1(3) kept that(2) x by auto
      ultimately show ?thesis using that(1) by simp
    qed
    moreover have "writes (save_keys c now db (x # es)) (e1 @ e)" using w kept assms(3) by auto
    ultimately show ?thesis
      using IH(2) l e1(2) x by (intro exI [of _ "e1 @ e"] exI [of _ "(key, y) # ys"]) auto
  qed
qed

text \<open>The expire times of the entries added to an empty database.\<close>

lemma getExpire_eq: "getExpire db k = (case map_of (db_expires db) k of None \<Rightarrow> - 1 | Some t \<Rightarrow> t)"
  by (simp add: getExpire_def)

lemma getExpire_db_add:
  assumes "map_of (db_expires d) k = None"
  shows "getExpire (db_add d k obj t) k' = (if k' = k then t else getExpire d k')"
  using assms by (auto simp: getExpire_eq db_add_def Let_def setExpire_def map_add_def split: option.split)

lemma add_entries_ok:
  assumes "distinct (map fst ys)" "\<forall>k \<in> fst ` set ys. map_of (db_expires d) k = None"
  shows "db_dict (add_entries db d ys) = db_dict d @ ys \<and>
    (\<forall>k. getExpire (add_entries db d ys) k = (if k \<in> fst ` set ys then getExpire db k else getExpire d k))"
  using assms
proof (induction ys arbitrary: d)
  case (Cons y ys)
  obtain k obj where y: "y = (k, obj)" by (cases y)
  have k: "map_of (db_expires d) k = None" "k \<notin> fst ` set ys" using Cons.prems y by simp_all
  have "map_of (db_expires (db_add d k obj (getExpire db k))) k' = None" if "k' \<in> fst ` set ys" for k'
  proof -
    have "k' \<noteq> k" "map_of (db_expires d) k' = None" using that k(2) Cons.prems(2) y by auto
    then show ?thesis by (simp add: db_add_def Let_def setExpire_def map_add_def)
  qed
  then have "db_dict (add_entries db (db_add d k obj (getExpire db k)) ys) =
      db_dict (db_add d k obj (getExpire db k)) @ ys \<and>
    (\<forall>k'. getExpire (add_entries db (db_add d k obj (getExpire db k)) ys) k' =
      (if k' \<in> fst ` set ys then getExpire db k' else getExpire (db_add d k obj (getExpire db k)) k'))"
    using Cons.IH [of "db_add d k obj (getExpire db k)"] Cons.prems(1) by simp
  then show ?case using y getExpire_db_add [OF k(1)] by auto
qed simp

lemma save_dbs_loaded:
  fixes c :: "'d conf"
  assumes "conf_ok c" "now \<le> now'" "\<forall>db \<in> set dbs. db_ok c db" "j + length dbs \<le> dbnum c" "dbnum c < 2 ^ 31"
  shows "\<exists>e dbs'. writes (save_dbs c now j dbs) e \<and> list_all2 (db_loaded now') dbs dbs' \<and>
    (\<forall>pre cur rest. length pre = j \<longrightarrow>
      load_entries c now' (pre @ replicate (length dbs) empty_db) cur (e @ REDIS_EOF # rest) =
      Some (LoadOk (pre @ dbs')))"
  using assms(3,4)
proof (induction dbs arbitrary: j)
  case Nil
  have "load_entries c now' pre cur (REDIS_EOF # rest) = Some (LoadOk pre)" for pre cur rest
    by (subst load_entries.simps) (simp add: load_head_def rdbLoadType_Cons opcodes)
  then show ?case by (intro exI [of _ "[]"]) (simp add: writes_skip)
next
  case (Cons db dbs)
  obtain e dbs' where IH: "writes (save_dbs c now (j + 1) dbs) e" "list_all2 (db_loaded now') dbs dbs'"
    "\<forall>pre cur rest. length pre = j + 1 \<longrightarrow>
      load_entries c now' (pre @ replicate (length dbs) empty_db) cur (e @ REDIS_EOF # rest) =
      Some (LoadOk (pre @ dbs'))"
    using Cons.IH [of "j + 1"] Cons.prems by auto
  show ?case
  proof (cases "db_dict db = []")
    case True
    then have "db_loaded now' db empty_db" by (simp add: db_loaded_def empty_db_def getExpire_def)
    moreover have "load_entries c now' (pre @ replicate (length (db # dbs)) empty_db) cur (e @ REDIS_EOF # rest) =
        Some (LoadOk (pre @ empty_db # dbs'))" if "length pre = j" for pre cur rest
      using IH(3) [rule_format, of "pre @ [empty_db]"] that by simp
    ultimately show ?thesis
      using IH(1,2) True by (intro exI [of _ e] exI [of _ "empty_db # dbs'"]) simp
  next
    case False
    have d: "distinct (map fst (db_dict db))" using Cons.prems(1) by (simp add: db_ok_def)
    obtain e1 ys where e1: "writes (save_keys c now db (db_dict db)) e1"
      "list_all2 (\<lambda>x y. fst y = fst x \<and> same_value (snd x) (snd y)) (filter (live now' db) (db_dict db)) ys"
      "\<forall>dbs cur rest. cur < length dbs \<longrightarrow> (\<forall>k \<in> fst ` set (db_dict db). map_of (db_dict (dbs ! cur)) k = None) \<longrightarrow>
        load_entries c now' dbs cur (e1 @ rest) =
        load_entries c now' (dbs[cur := add_entries db (dbs ! cur) ys]) cur rest"
      using save_keys_loaded [OF assms(1) d assms(2), of db] Cons.prems(1) by (auto simp: db_ok_def)
    define db' where "db' = add_entries db empty_db ys"
    have fst_eq: "map fst ys = map fst (filter (live now' db) (db_dict db))"
      using e1(2) by induction auto
    have "distinct (map fst ys)" unfolding fst_eq using d by (rule distinct_map_filter)
    from add_entries_ok [OF this, of empty_db db] have
      db': "db_dict db' = ys" "\<forall>k. getExpire db' k = (if k \<in> fst ` set ys then getExpire db k else - 1)"
      by (simp_all add: db'_def empty_db_def getExpire_def)
    then have l: "db_loaded now' db db'" using e1(2) by (simp add: db_loaded_def)
    have j: "j < 2 ^ 31" "j < dbnum c" using Cons.prems(2) assms(5) by simp_all
    have w: "writes (save_dbs c now j (db # dbs)) ([REDIS_SELECTDB] @ len_bytes (of_nat j) @ e1 @ e)"
      using writes_and_then [OF rdbSaveType_writes writes_and_then [OF rdbSaveLen_writes
          writes_and_then [OF e1(1) IH(1)]]] False by simp
    have "load_entries c now' (pre @ replicate (length (db # dbs)) empty_db) cur
        (([REDIS_SELECTDB] @ len_bytes (of_nat j) @ e1 @ e) @ REDIS_EOF # rest) = Some (LoadOk (pre @ db' # dbs'))"
      if "length pre = j" for pre cur rest
    proof -
      let ?r = "e1 @ e @ REDIS_EOF # rest"
      have "load_entries c now' (pre @ replicate (length (db # dbs)) empty_db) cur
          (([REDIS_SELECTDB] @ len_bytes (of_nat j) @ e1 @ e) @ REDIS_EOF # rest) =
        load_entries c now' (pre @ empty_db # replicate (length dbs) empty_db) j ?r"
        using u32_not_err [OF j(1)] u32_of_nat [OF j(1)] j(2)
        by (subst load_entries.simps)
           (simp add: load_head_def rdbLoadType_Cons opcodes rdbLoadLen_len_bytes)
      also have "\<dots> = load_entries c now' ((pre @ [db']) @ replicate (length dbs) empty_db) j (e @ REDIS_EOF # rest)"
        using e1(3) [rule_format, of j "pre @ empty_db # replicate (length dbs) empty_db" "e @ REDIS_EOF # rest"] that
        by (simp add: nth_append list_update_append db'_def) (simp add: empty_db_def)
      also have "\<dots> = Some (LoadOk (pre @ db' # dbs'))"
        using IH(3) [rule_format, of "pre @ [db']"] that by simp
      finally show ?thesis .
    qed
    then show ?thesis
      using w IH(2) l by (intro exI [of _ "[REDIS_SELECTDB] @ len_bytes (of_nat j) @ e1 @ e"] exI [of _ "db' # dbs'"]) simp
  qed
qed

section \<open>The dump file\<close>

lemma writes_unique:
  assumes "writes w a" "writes w b"
  shows "a = b"
proof -
  let ?fp = "\<lparr>fdata = [], froom = length a + length b\<rparr>"
  have "w ?fp = Some (0, accept a ?fp)" "w ?fp = Some (0, accept b ?fp)"
    using writesD [OF assms(1), of ?fp] writesD [OF assms(2), of ?fp] by simp_all
  then have "fdata (accept a ?fp) = fdata (accept b ?fp)" by simp
  then show ?thesis by (simp only: accept_simps ofile.select_convs append_Nil)
qed

lemma rdbLoad_magic: "rdbLoad c now dbs (Some (rdb_magic @ r)) = load_entries c now dbs 0 r"
proof -
  have "strtoll10 (drop 5 rdb_magic @ [0]) = Some (1, [0])"
    by (simp add: rdb_magic_def strtoll10_def u8_isspace_def saturate64_def)
  moreover have "fread 9 (rdb_magic @ r) = Some (rdb_magic, r)"
    by (rule fread_append) (simp_all add: rdb_magic_def)
  ultimately show ?thesis by (simp add: rdbLoad_def)
qed

text \<open>The bytes of a dump are the same whatever the system does with them; they fail to reach the
  file when there is no room, and a failure at the last byte releases an iterator twice.\<close>

lemma rdbSave_image:
  fixes c :: "'d conf"
  assumes "conf_ok c" "\<forall>db \<in> set dbs. db_ok c db" "length dbs = dbnum c" "dbnum c < 2 ^ 31"
  shows "\<exists>img.
    (\<forall>os tmpfile filename st. rdbSave c os now tmpfile filename dbs st =
      (if \<not> os_open os then Some (False, st)
       else if os_room os = length img \<and> (\<exists>db \<in> set dbs. db_dict db \<noteq> []) then None
       else if os_room os \<le> length img \<or> \<not> os_rename os then Some (False, unlink_file tmpfile st)
       else Some (True, st\<lparr>files := (files st)(tmpfile := None, filename \<mapsto> take (os_disk os) (img @ [REDIS_EOF])),
         dirty := 0, lastsave := os_time os\<rparr>))) \<and>
    (\<forall>now'. now \<le> now' \<longrightarrow> (\<exists>dbs'. rdbLoad c now' (replicate (dbnum c) empty_db) (Some (img @ [REDIS_EOF])) =
      Some (LoadOk dbs') \<and> list_all2 (db_loaded now') dbs dbs'))"
proof -
  have j: "0 + length dbs \<le> dbnum c" using assms(3) by simp
  note loaded = save_dbs_loaded [OF assms(1) _ assms(2) j assms(4)]
  obtain e where e: "writes (save_dbs c now 0 dbs) e" using loaded [of now now] by blast
  define img where "img = rdb_magic @ e"
  have w: "writes (and_then (put rdb_magic) (save_dbs c now 0 dbs)) img"
    unfolding img_def by (rule writes_and_then [OF writes_put e]) (simp add: rdb_magic_def)
  have "rdbSave c os now tmpfile filename dbs st =
      (if \<not> os_open os then Some (False, st)
       else if os_room os = length img \<and> (\<exists>db \<in> set dbs. db_dict db \<noteq> []) then None
       else if os_room os \<le> length img \<or> \<not> os_rename os then Some (False, unlink_file tmpfile st)
       else Some (True, st\<lparr>files := (files st)(tmpfile := None, filename \<mapsto> take (os_disk os) (img @ [REDIS_EOF])),
         dirty := 0, lastsave := os_time os\<rparr>))" for os tmpfile filename st
  proof -
    let ?fp = "\<lparr>fdata = [], froom = os_room os\<rparr>"
    consider "os_room os < length img" | "os_room os = length img" | "length img < os_room os" by linarith
    then show ?thesis
    proof cases
      case 1
      then obtain fp where "and_then (put rdb_magic) (save_dbs c now 0 dbs) ?fp = Some (- 1, fp)"
        using writes_fail [OF w, of ?fp] by auto
      then show ?thesis using 1 by (simp add: rdbSave_def)
    next
      case 2
      then have "and_then (put rdb_magic) (save_dbs c now 0 dbs) ?fp = Some (0, accept img ?fp)"
        by (intro writesD [OF w]) simp
      moreover obtain fp where "rdbSaveType REDIS_EOF (accept img ?fp) = Some (- 1, fp)"
        using writes_fail [OF rdbSaveType_writes, of "accept img ?fp"] 2 by auto
      ultimately show ?thesis using 2 by (simp add: rdbSave_def)
    next
      case 3
      then have "and_then (put rdb_magic) (save_dbs c now 0 dbs) ?fp = Some (0, accept img ?fp)"
        by (intro writesD [OF w]) simp
      moreover have "rdbSaveType REDIS_EOF (accept img ?fp) = Some (0, accept [REDIS_EOF] (accept img ?fp))"
        using 3 by (intro writesD [OF rdbSaveType_writes]) simp
      ultimately show ?thesis using 3 by (simp add: rdbSave_def)
    qed
  qed
  moreover have "\<exists>dbs'. rdbLoad c now' (replicate (dbnum c) empty_db) (Some (img @ [REDIS_EOF])) =
      Some (LoadOk dbs') \<and> list_all2 (db_loaded now') dbs dbs'" if le: "now \<le> now'" for now'
  proof -
    obtain e' dbs' where e': "writes (save_dbs c now 0 dbs) e'" "list_all2 (db_loaded now') dbs dbs'"
      "\<forall>pre cur rest. length pre = 0 \<longrightarrow>
        load_entries c now' (pre @ replicate (length dbs) empty_db) cur (e' @ REDIS_EOF # rest) =
        Some (LoadOk (pre @ dbs'))"
      using loaded [OF le] by blast
    have "e' = e" by (rule writes_unique [OF e'(1) e])
    then have "rdbLoad c now' (replicate (dbnum c) empty_db) (Some (img @ [REDIS_EOF])) = Some (LoadOk dbs')"
      using e'(3) [rule_format, of "[]" 0 "[]"] assms(3) by (simp add: rdbLoad_magic img_def)
    then show ?thesis using e'(2) by blast
  qed
  ultimately show ?thesis by blast
qed



text \<open>C32: \<open>rdbSave\<close> replaces the old dump or leaves it alone. When it returns \<open>REDIS_ERR\<close> the old
  file, the count of unsaved changes and the time of the last save are what they were; when it returns
  \<open>REDIS_OK\<close> the file holds what reached the disk of one fixed image, and no change is unsaved. The
  server dies only when exactly the end marker finds no room and some database is not empty.\<close>

theorem rdbSave_all_or_nothing:
  fixes c :: "'d conf"
  assumes "conf_ok c" "\<forall>db \<in> set dbs. db_ok c db" "length dbs = dbnum c" "dbnum c < 2 ^ 31"
  shows "\<exists>img. \<forall>os tmpfile filename st. tmpfile \<noteq> filename \<longrightarrow>
    (case rdbSave c os now tmpfile filename dbs st of
       None \<Rightarrow> os_open os \<and> os_room os = length img \<and> (\<exists>db \<in> set dbs. db_dict db \<noteq> [])
     | Some (False, st') \<Rightarrow> (\<not> os_open os \<or> os_room os \<le> length img \<or> \<not> os_rename os) \<and>
         files st' filename = files st filename \<and> dirty st' = dirty st \<and> lastsave st' = lastsave st
     | Some (True, st') \<Rightarrow> os_open os \<and> length img < os_room os \<and> os_rename os \<and>
         files st' filename = Some (take (os_disk os) (img @ [REDIS_EOF])) \<and> files st' tmpfile = None \<and>
         dirty st' = 0 \<and> lastsave st' = os_time os)"
proof -
  from rdbSave_image [OF assms, of now] obtain img where
    "\<forall>os tmpfile filename st. rdbSave c os now tmpfile filename dbs st =
      (if \<not> os_open os then Some (False, st)
       else if os_room os = length img \<and> (\<exists>db \<in> set dbs. db_dict db \<noteq> []) then None
       else if os_room os \<le> length img \<or> \<not> os_rename os then Some (False, unlink_file tmpfile st)
       else Some (True, st\<lparr>files := (files st)(tmpfile := None, filename \<mapsto> take (os_disk os) (img @ [REDIS_EOF])),
         dirty := 0, lastsave := os_time os\<rparr>))"
    by blast
  note save = this
  show ?thesis
    by (intro exI [of _ img] allI impI, unfold save [rule_format])
       (simp add: unlink_file_def not_less)
qed

section \<open>Examples\<close>

definition ex_conf :: "unit conf" where
  "ex_conf = \<lparr>rdbcompression = True, hash_max_zipmap_entries = 64, hash_max_zipmap_value = 512, dbnum = 2,
    c_htab = (\<lambda>_. 0), c_garbage = (\<lambda>_. 0), c_print = (\<lambda>_. [49]), c_scan = (\<lambda>_. Finite ())\<rparr>"

definition ex_dbs :: "unit redisDb list" where
  "ex_dbs = [\<lparr>db_dict = [([107], RString (Enc 5)), ([108], RList [Raw [97], Enc 12])], db_expires = [([108], 2000)]\<rparr>,
    empty_db]"

definition ex_os :: "nat \<Rightarrow> nat \<Rightarrow> os" where
  "ex_os room disk = \<lparr>os_open = True, os_room = room, os_disk = disk, os_rename = True, os_time = 1001\<rparr>"

definition ex_state :: save_state where
  "ex_state = \<lparr>files = [''dump'' \<mapsto> [1]], dirty = 3, lastsave = 7\<rparr>"

lemmas rdb_eval = rdbSave_def rdbSaveType_def rdbSaveTime_def rdbSaveLen_def rdbSaveObject_def
  save_string_def rdbSaveStringObject_def rdbSaveRawString_def rdbTryIntegerEncoding_def rdbEncodeInteger_def
  strtoll10_def ll2string_def u8_isspace_def saturate64_def rd_def peek_def put_def and_then_def fwrite_def
  getExpire_def obj_type_def le32_bytes_def

lemma word8_2000: "(2000 :: u8) = 208"
  by simp

lemma ex_save:
  "rdbSave ex_conf (ex_os 100 disk) 1000 ''tmp'' ''dump'' ex_dbs ex_state = Some (True, ex_state\<lparr>
    files := (files ex_state)(''tmp'' := None, ''dump'' \<mapsto> take disk
      [82, 69, 68, 73, 83, 48, 48, 48, 49, 254, 0, 0, 1, 107, 192, 5,
       253, 208, 7, 0, 0, 1, 1, 108, 2, 1, 97, 192, 12, 255]), dirty := 0, lastsave := 1001\<rparr>)"
  by (simp add: word8_2000 rdb_eval ex_os_def ex_dbs_def ex_conf_def rdb_magic_def Let_def obj_types opcodes
    rdb_consts empty_db_def)

lemma ex_ok:
  "conf_ok ex_conf" "\<forall>db \<in> set ex_dbs. db_ok ex_conf db" "length ex_dbs = dbnum ex_conf" "dbnum ex_conf < 2 ^ 31"
  by (auto simp: conf_ok_def ex_conf_def ex_dbs_def db_ok_def robj_ok_def getExpire_def empty_db_def is_long_def)


theorem rdbSave_all_or_nothing_witness:
  "\<exists>img. \<forall>room. case rdbSave ex_conf (ex_os room room) 1000 ''tmp'' ''dump'' ex_dbs ex_state of
       None \<Rightarrow> room = length img
     | Some (False, st') \<Rightarrow> files st' ''dump'' = Some [1] \<and> dirty st' = 3
     | Some (True, st') \<Rightarrow> length img < room \<and> files st' ''dump'' = Some (img @ [255]) \<and> dirty st' = 0"
proof -
  obtain img where img: "\<forall>os tmpfile filename st. tmpfile \<noteq> filename \<longrightarrow>
    (case rdbSave ex_conf os 1000 tmpfile filename ex_dbs st of
       None \<Rightarrow> os_open os \<and> os_room os = length img \<and> (\<exists>db \<in> set ex_dbs. db_dict db \<noteq> [])
     | Some (False, st') \<Rightarrow> (\<not> os_open os \<or> os_room os \<le> length img \<or> \<not> os_rename os) \<and>
         files st' filename = files st filename \<and> dirty st' = dirty st \<and> lastsave st' = lastsave st
     | Some (True, st') \<Rightarrow> os_open os \<and> length img < os_room os \<and> os_rename os \<and>
         files st' filename = Some (take (os_disk os) (img @ [REDIS_EOF])) \<and> files st' tmpfile = None \<and>
         dirty st' = 0 \<and> lastsave st' = os_time os)"
    using rdbSave_all_or_nothing [OF ex_ok, of 1000] by blast
  have "''tmp'' \<noteq> ''dump''" by simp
  note i = img [rule_format, OF this]
  have "case rdbSave ex_conf (ex_os room room) 1000 ''tmp'' ''dump'' ex_dbs ex_state of
       None \<Rightarrow> room = length img
     | Some (False, st') \<Rightarrow> files st' ''dump'' = Some [1] \<and> dirty st' = 3
     | Some (True, st') \<Rightarrow> length img < room \<and> files st' ''dump'' = Some (img @ [255]) \<and> dirty st' = 0" for room
    using i [of "ex_os room room" ex_state]
    by (auto simp: ex_os_def ex_state_def opcodes split: option.splits bool.splits)
  then show ?thesis by blast
qed

text \<open>\<open>rdbSave\<close> does not look at the results of \<open>fflush\<close>, \<open>fsync\<close> and \<open>fclose\<close>: when the disk is full
  by then, the good dump is replaced by a truncated one, which cannot be loaded, and the changes
  count as saved.\<close>

theorem rdbSave_reports_truncated_dump:
  "\<exists>st'. rdbSave ex_conf (ex_os 100 20) 1000 ''tmp'' ''dump'' ex_dbs ex_state = Some (True, st') \<and> dirty st' = 0 \<and>
    rdbLoad ex_conf 1000 (replicate (dbnum ex_conf) empty_db) (files st' ''dump'') = Some LoadExit"
proof -
  have "load_entries ex_conf 1000 dbs 0 [253, 208, 7, 0] = Some LoadExit" for dbs
    by (subst load_entries.simps)
       (simp add: load_head_def rdbLoadType_Cons rdbLoadTime_def fread_def opcodes)
  then have "load_entries ex_conf 1000 (replicate 2 empty_db) 0 [0, 1, 107, 192, 5, 253, 208, 7, 0] = Some LoadExit"
    by (subst load_entries.simps)
       (simp add: load_head_def rdbLoadType_Cons opcodes load_pair_def rdbLoadObject_def obj_types load_encoded_def
         rdbLoadStringObject_def rdbLoadEncodedStringObject_def rdbGenericLoadStringObject_def rdbLoadLen_def
         rdbLoadIntegerObject_def integer_object_def createStringObjectFromLongLong_def tryObjectEncoding_def
         fread_def rdb_consts REDIS_RDB_LENERR_def Let_def empty_db_def)
  then have "load_entries ex_conf 1000 (replicate 2 empty_db) 0 [254, 0, 0, 1, 107, 192, 5, 253, 208, 7, 0] = Some LoadExit"
    by (subst load_entries.simps)
       (simp add: load_head_def rdbLoadType_Cons opcodes rdbLoadLen_def fread_def rdb_consts
         REDIS_RDB_LENERR_def Let_def ex_conf_def)
  then have "rdbLoad ex_conf 1000 (replicate (dbnum ex_conf) empty_db)
      (Some (rdb_magic @ [254, 0, 0, 1, 107, 192, 5, 253, 208, 7, 0])) = Some LoadExit"
    unfolding rdbLoad_magic by (simp add: ex_conf_def)
  then show ?thesis using ex_save [of 20] by (simp add: rdb_magic_def)
qed

text \<open>A write error at the end marker makes \<open>rdbSave\<close> release an iterator a second time.\<close>

theorem rdbSave_releases_iterator_twice:
  "rdbSave ex_conf (ex_os 29 29) 1000 ''tmp'' ''dump'' ex_dbs ex_state = None"
  by (simp add: rdb_eval ex_os_def ex_dbs_def ex_conf_def rdb_magic_def Let_def obj_types opcodes
    rdb_consts empty_db_def)

text \<open>Expire times are stored in 32 bits: a time from 2038 on comes back as one in the past, and
  the key is dropped when the dump is loaded.\<close>

theorem expire_time_truncated:
  assumes "2 ^ 31 \<le> t" "t < 2 ^ 32"
  shows "\<exists>e. writes (rdbSaveTime t) e \<and> reads rdbLoadTime e (t - 2 ^ 32)"
proof -
  have "(word_of_int (t - 2 ^ 32) :: u32) = word_of_int t" by simp
  then have "rdbSaveTime t = rdbSaveTime (t - 2 ^ 32)" by (simp only: rdbSaveTime_def)
  then show ?thesis using rdbSaveTime_loaded [of "t - 2 ^ 32"] assms by simp
qed

text \<open>The length byte of a double may be up to 252, and the buffer has 128 bytes.\<close>

theorem rdbLoadDoubleValue_overflows_buffer:
  assumes "128 \<le> n" "n \<le> 252" "n \<le> length r"
  shows "rdbLoadDoubleValue scan (of_nat n # r) = Fault"
proof -
  have u: "unat (of_nat n :: u8) = n" using assms(2) by (intro unat_u8) simp
  then have "(of_nat n :: u8) \<noteq> 255" "(of_nat n :: u8) \<noteq> 254" "(of_nat n :: u8) \<noteq> 253"
    using assms(2) by auto
  then show ?thesis using u assms by (simp add: rdbLoadDoubleValue_def fread_def Let_def)
qed

end
