(* ===== verification/Rdb_Safe.thy ===== *)
theory Rdb_Safe
  imports Rdb_Dump
begin

text \<open>
  Loading a file that may be damaged (\<open>rdbLoad\<close>): every reader hands on a rest of the file or gives
  up, so that loading ends, and the only access outside a buffer is that of the text of a double.
\<close>

section \<open>Readers\<close>

text \<open>On success a rest of the input is left, and a fault is one that \<open>F\<close> allows on a rest.\<close>

definition tame :: "(bytes \<Rightarrow> bool) \<Rightarrow> (bytes \<Rightarrow> 'a load) \<Rightarrow> bool" where
  "tame F r \<longleftrightarrow> (\<forall>fp. case r fp of
       Got x fp' \<Rightarrow> \<exists>k. fp' = drop k fp
     | Fault \<Rightarrow> \<exists>k. F (drop k fp)
     | _ \<Rightarrow> True)"

lemma tame_Got: "tame F r \<Longrightarrow> r fp = Got x fp' \<Longrightarrow> \<exists>k. fp' = drop k fp"
  unfolding tame_def by (drule spec [of _ fp]) simp

lemma tame_Fault: "tame F r \<Longrightarrow> r fp = Fault \<Longrightarrow> \<exists>k. F (drop k fp)"
  unfolding tame_def by (drule spec [of _ fp]) simp

lemma tameI:
  assumes "\<And>fp x fp'. r fp = Got x fp' \<Longrightarrow> \<exists>k. fp' = drop k fp" "\<And>fp. r fp = Fault \<Longrightarrow> \<exists>k. F (drop k fp)"
  shows "tame F r"
  unfolding tame_def using assms by (auto split: load.split)

lemma tame_mono: "tame (\<lambda>_. False) r \<Longrightarrow> tame F r"
  by (auto simp: tame_def split: load.splits)

lemma tame_bind:
  assumes "tame F r" "\<And>fp x fp'. r fp = Got x fp' \<Longrightarrow> tame F (f x)"
  shows "tame F (\<lambda>fp. load_bind (r fp) f)"
proof (rule tameI)
  fix fp y fp'
  assume "load_bind (r fp) f = Got y fp'"
  then obtain x fp1 where x: "r fp = Got x fp1" "f x fp1 = Got y fp'" by (cases "r fp") auto
  then obtain k k' where "fp1 = drop k fp" "fp' = drop k' fp1"
    using tame_Got [OF assms(1)] tame_Got [OF assms(2)] by meson
  then show "\<exists>k. fp' = drop k fp" by auto
next
  fix fp
  assume f: "load_bind (r fp) f = Fault"
  show "\<exists>k. F (drop k fp)"
  proof (cases "r fp")
    case (Got x fp1)
    then obtain k k' where "fp1 = drop k fp" "F (drop k' fp1)"
      using f tame_Got [OF assms(1)] tame_Fault [OF assms(2)] by (metis load_bind.simps(1))
    then show ?thesis by auto
  qed (use f tame_Fault [OF assms(1)] in auto)
qed

lemma tame_ret: "tame F (Got x)"
  by (rule tameI) (auto intro: exI [of _ 0])

lemma tame_pair:
  assumes "tame F a" "tame F b"
  shows "tame F (load_pair a b)"
  unfolding load_pair_def by (intro tame_bind assms tame_ret)

text \<open>A counted loop whose step keeps an invariant indexed by the number of steps left.\<close>

lemma tame_load_n:
  assumes "tame F r" "\<And>fp x fp'. r fp = Got x fp' \<Longrightarrow> V x"
    "\<And>m obj x. I (Suc m) obj \<Longrightarrow> V x \<Longrightarrow> \<exists>obj'. add obj x = Some obj' \<and> I m obj'" "I n obj"
  shows "tame F (load_n n r add obj)"
  using assms(4)
proof (induction n arbitrary: obj)
  case 0
  show ?case unfolding load_n.simps by (rule tame_ret)
next
  case (Suc n)
  have "tame F (\<lambda>fp. load_bind (r fp) (\<lambda>x fp'. case add obj x of None \<Rightarrow> Fault | Some obj' \<Rightarrow> load_n n r add obj' fp'))"
  proof (rule tame_bind [OF assms(1)])
    fix fp x fp'
    assume "r fp = Got x fp'"
    then obtain obj' where "add obj x = Some obj'" "I n obj'"
      using assms(3) [OF Suc.prems assms(2)] by blast
    then show "tame F (\<lambda>fp'. case add obj x of None \<Rightarrow> Fault | Some obj' \<Rightarrow> load_n n r add obj' fp')"
      using Suc.IH by simp
  qed
  then show ?case by simp
qed

lemma load_bind_GotE:
  assumes "load_bind l f = Got y fp'"
  obtains x fp1 where "l = Got x fp1" "f x fp1 = Got y fp'"
  using assms by (cases l) auto

section \<open>Strings\<close>

lemma fread_drop: "fread n fp = Some (b, fp') \<Longrightarrow> fp' = drop n fp \<and> length b = n \<and> 0 < n"
  by (auto simp: fread_def split: if_splits)

lemma rdbLoadType_tame: "tame F rdbLoadType"
  by (rule tameI) (auto simp: rdbLoadType_def dest: fread_drop split: option.splits prod.splits)

lemma rdbLoadTime_tame: "tame F rdbLoadTime"
  by (rule tameI) (auto simp: rdbLoadTime_def dest: fread_drop split: option.splits prod.splits)

lemma rdbLoadLen_drop:
  assumes "rdbLoadLen fp = (len, isenc, fp')"
  shows "\<exists>k. fp' = drop k fp"
proof (cases "fread 1 fp")
  case None
  then show ?thesis using assms by (auto simp: rdbLoadLen_def intro: exI [of _ 0])
next
  case (Some p)
  obtain b fp1 where p: "fread 1 fp = Some (b, fp1)" using Some by (cases p) auto
  then have d: "fp1 = drop 1 fp" using fread_drop by blast
  have "fp' = fp1 \<or> fp' = drop 1 fp1 \<or> fp' = drop 4 fp1"
    using assms unfolding rdbLoadLen_def p
    by (auto simp: Let_def dest!: fread_drop split: if_splits option.splits)
  then show ?thesis using d by auto
qed

lemma integer_object_total: "is_long v \<Longrightarrow> \<exists>y. integer_object encode v fp = Got y fp"
  by (simp add: integer_object_eq)

lemma small_is_long:
  "is_long (sint (x :: u8))" "is_long (sint (y :: u16))" "is_long (sint (z :: u32))"
  using sint_lt [of x] sint_ge [of x] sint_lt [of y] sint_ge [of y] sint_lt [of z] sint_ge [of z]
  by (auto simp: is_long_def)

lemma rdbLoadIntegerObject_tame: "tame F (\<lambda>fp. rdbLoadIntegerObject fp enctype encode)"
  by (rule tameI)
     (auto simp: rdbLoadIntegerObject_def integer_object_eq small_is_long dest!: fread_drop
       split: option.splits if_splits)

lemma lzf_decompress_total: "p \<noteq> [] \<Longrightarrow> \<exists>r. lzf_decompress p out_len = Some r"
  using decompress_loop_safe [of 0 p "[]" out_len] by (auto simp: lzf_decompress_def)

lemma rdbLoadLzfStringObject_tame: "tame F (rdbLoadLzfStringObject)"
proof -
  have "case rdbLoadLzfStringObject fp of Got x fp' \<Rightarrow> \<exists>k. fp' = drop k fp | Fault \<Rightarrow> False | _ \<Rightarrow> True" for fp
  proof -
    obtain clen i fp1 where c: "rdbLoadLen fp = (clen, i, fp1)" by (cases "rdbLoadLen fp")
    obtain len i' fp2 where l: "rdbLoadLen fp1 = (len, i', fp2)" by (cases "rdbLoadLen fp1")
    obtain k k' where d: "fp1 = drop k fp" "fp2 = drop k' fp1"
      using rdbLoadLen_drop [OF c] rdbLoadLen_drop [OF l] by blast
    show ?thesis
    proof (cases "fread (unat clen) fp2")
      case None
      then show ?thesis by (simp add: rdbLoadLzfStringObject_def c l)
    next
      case (Some p)
      obtain b fp3 where p: "fread (unat clen) fp2 = Some (b, fp3)" using Some by (cases p) auto
      then have f: "fp3 = drop (unat clen) fp2" "b \<noteq> []" using fread_drop by fastforce+
      obtain r where r: "lzf_decompress b (unat len) = Some r" using lzf_decompress_total [OF f(2)] by blast
      show ?thesis
        unfolding rdbLoadLzfStringObject_def c Let_def prod.case l p option.case r
        using d f(1) by (cases r) auto
    qed
  qed
  note cases = this
  show ?thesis
  proof (rule tameI)
    fix fp x fp'
    assume "rdbLoadLzfStringObject fp = Got x fp'"
    with cases [of fp] show "\<exists>k. fp' = drop k fp" by simp
  next
    fix fp
    assume "rdbLoadLzfStringObject fp = Fault"
    with cases [of fp] show "\<exists>k. F (drop k fp)" by simp
  qed
qed

lemma tame_cases:
  assumes "\<And>fp. \<exists>k r'. r fp = r' (drop k fp) \<and> tame F r'"
  shows "tame F r"
proof (rule tameI)
  fix fp x fp'
  assume r: "r fp = Got x fp'"
  obtain k r' where "r fp = r' (drop k fp)" "tame F r'" using assms [of fp] by blast
  with r obtain k' where "fp' = drop k' (drop k fp)" using tame_Got [of F r' "drop k fp"] by auto
  then show "\<exists>k. fp' = drop k fp" by auto
next
  fix fp
  assume r: "r fp = Fault"
  obtain k r' where "r fp = r' (drop k fp)" "tame F r'" using assms [of fp] by blast
  with r obtain k' where "F (drop k' (drop k fp))" using tame_Fault [of F r' "drop k fp"] by auto
  then show "\<exists>k. F (drop k fp)" by auto
qed

lemma tame_if: "tame F a \<Longrightarrow> tame F b \<Longrightarrow> tame F (\<lambda>fp. if P then a fp else b fp)"
  by (cases P) simp_all

lemma tame_stop: "tame F (\<lambda>fp. Panic)" "tame F (\<lambda>fp. Short)"
  by (simp_all add: tame_def)

lemma rdbGenericLoadStringObject_tame: "tame F (\<lambda>fp. rdbGenericLoadStringObject fp encode)"
proof (rule tame_cases)
  fix fp
  obtain len isenc fp1 where l: "rdbLoadLen fp = (len, isenc, fp1)" by (cases "rdbLoadLen fp")
  obtain k where d: "fp1 = drop k fp" using rdbLoadLen_drop [OF l] by blast
  define r' where "r' = (\<lambda>fp1. if isenc then
        (if len = ucast REDIS_RDB_ENC_INT8 \<or> len = ucast REDIS_RDB_ENC_INT16 \<or> len = ucast REDIS_RDB_ENC_INT32
         then rdbLoadIntegerObject fp1 len encode
         else if len = ucast REDIS_RDB_ENC_LZF then rdbLoadLzfStringObject fp1
         else Panic)
      else if len = REDIS_RDB_LENERR then Short
      else if len = 0 then Got (Raw []) fp1
      else (case fread (unat len) fp1 of None \<Rightarrow> Short | Some (val, fp2) \<Rightarrow> Got (Raw val) fp2))"
  have "tame F (\<lambda>fp1. case fread n fp1 of None \<Rightarrow> Short | Some (val, fp2) \<Rightarrow> Got (Raw val) fp2)" for n
    by (rule tameI) (auto dest!: fread_drop split: option.splits)
  then have "tame F r'"
    unfolding r'_def by (intro tame_if rdbLoadIntegerObject_tame rdbLoadLzfStringObject_tame tame_ret tame_stop)
  then show "\<exists>k r'. rdbGenericLoadStringObject fp encode = r' (drop k fp) \<and> tame F r'"
    using d by (intro exI [of _ k] exI [of _ r']) (simp add: rdbGenericLoadStringObject_def l r'_def)
qed

lemma strings_tame: "tame F rdbLoadStringObject" "tame F (rdbLoadEncodedStringObject)"
  using rdbGenericLoadStringObject_tame [of F False] rdbGenericLoadStringObject_tame [of F True]
  unfolding rdbLoadStringObject_def rdbLoadEncodedStringObject_def by simp_all

lemma tryObjectEncoding_total: "\<exists>y. tryObjectEncoding n x = Some y"
proof (cases x)
  case (Raw s)
  obtain r where "isStringRepresentableAsLong s = Some r" using isStringRepresentableAsLong_spec by blast
  then show ?thesis using Raw by (simp add: tryObjectEncoding_def)
qed (simp add: tryObjectEncoding_def)

lemma load_encoded_tame: "tame F load_encoded"
  unfolding load_encoded_def
proof (rule tame_bind [OF strings_tame(2)])
  fix ele :: sobj
  obtain y where "tryObjectEncoding 1 ele = Some y" using tryObjectEncoding_total by blast
  then show "tame F (\<lambda>fp'. case tryObjectEncoding 1 ele of None \<Rightarrow> Fault | Some ele' \<Rightarrow> Got ele' fp')"
    using tame_ret by simp
qed

lemma raw_result:
  assumes "rdbLoadStringObject fp = Got x fp'"
  shows "\<exists>s. x = Raw s"
  using assms
  by (auto simp: rdbLoadStringObject_def rdbGenericLoadStringObject_def rdbLoadIntegerObject_def integer_object_def
      rdbLoadLzfStringObject_def Let_def split: if_splits option.splits prod.splits lzf_result.splits)

section \<open>Objects\<close>

abbreviation bad_double :: "'d conf \<Rightarrow> bytes \<Rightarrow> bool" where
  "bad_double c fp \<equiv> rdbLoadDoubleValue (c_scan c) fp = Fault"

lemma ex_drop: "\<exists>k. drop n fp = drop k fp"
  by blast

lemma rdbLoadDoubleValue_tame: "tame (\<lambda>fp. rdbLoadDoubleValue scan fp = Fault) (rdbLoadDoubleValue scan)"
proof (rule tameI)
  fix fp x fp'
  assume "rdbLoadDoubleValue scan fp = Got x fp'"
  then show "\<exists>k. fp' = drop k fp"
    by (auto simp: rdbLoadDoubleValue_def Let_def ex_drop dest!: fread_drop split: option.splits if_splits)
next
  fix fp
  assume "rdbLoadDoubleValue scan fp = Fault"
  then show "\<exists>k. rdbLoadDoubleValue scan (drop k fp) = Fault" by (intro exI [of _ 0]) simp
qed

lemma load_counted_tame:
  assumes "\<And>n. tame F (body n)"
  shows "tame F (load_counted body)"
proof (rule tame_cases)
  fix fp
  obtain len i fp1 where l: "rdbLoadLen fp = (len, i, fp1)" by (cases "rdbLoadLen fp")
  obtain k where "fp1 = drop k fp" using rdbLoadLen_drop [OF l] by blast
  then show "\<exists>k r'. load_counted body fp = r' (drop k fp) \<and> tame F r'"
    using l tame_if [OF tame_stop(2) assms]
    by (intro exI [of _ k] exI [of _ "\<lambda>fp1. if len = REDIS_RDB_LENERR then Short else body (unat len) fp1"])
       (simp only: load_counted_def Let_def prod.case simp_thms)
qed

text \<open>A hash being loaded, with \<open>m\<close> entries to come.\<close>

definition hash_safe :: "'d conf \<Rightarrow> nat \<Rightarrow> 'd robj \<Rightarrow> bool" where
  "hash_safe c m obj \<longleftrightarrow> (\<exists>d. obj = RHash d) \<or>
     (\<exists>zm n mp. obj = RHashZip zm \<and> hash_inv c n obj mp \<and> n + m \<le> hash_max_zipmap_entries c)"

lemma hash_add_safe:
  fixes c :: "'d conf"
  assumes "hash_safe c (Suc m) obj" "conf_ok c"
  shows "\<exists>obj'. hash_add c obj (Raw key, Raw val) = Some obj' \<and> hash_safe c m obj'"
proof -
  obtain k v where kv: "tryObjectEncoding 1 (Raw key) = Some k" "tryObjectEncoding 1 (Raw val) = Some v"
    using tryObjectEncoding_total by blast
  from assms(1) consider d where "obj = RHash d"
    | zm n mp where "obj = RHashZip zm" "hash_inv c n obj mp" "n + Suc m \<le> hash_max_zipmap_entries c"
    by (auto simp: hash_safe_def)
  then show ?thesis
  proof cases
    case 1
    then show ?thesis using kv by (simp add: hash_add_def getDecodedObject_def hash_safe_def)
  next
    case 2
    show ?thesis
    proof (cases "length key > hash_max_zipmap_value c \<or> length val > hash_max_zipmap_value c")
      case True
      obtain d where "convertToRealHash (RHashZip zm :: 'd robj) = Some (RHash d)"
        using convert_inv [of c n zm mp n] 2 assms(2) by auto
      then show ?thesis using kv True 2(1) by (simp add: hash_add_def getDecodedObject_def hash_safe_def)
    next
      case False
      then obtain zm' where "hash_add c obj (Raw key, Raw val) = Some (RHashZip zm')"
        "hash_inv c (Suc n) (RHashZip zm') (mp(key \<mapsto> val))"
        using hash_add_zip [of c n zm mp key val] 2 assms(2) by auto
      then show ?thesis using 2(3) by (fastforce simp: hash_safe_def)
    qed
  qed
qed

lemma new_hash_safe:
  fixes c :: "'d conf"
  assumes "conf_ok c"
  shows "\<exists>obj. (do { zm \<leftarrow> zipmapNew (c_garbage c);
      if n > hash_max_zipmap_entries c then convertToRealHash (RHashZip zm) else Some (RHashZip zm) }) =
      Some (obj :: 'd robj) \<and> hash_safe c n obj"
proof -
  obtain obj :: "'d robj" where "(do { zm \<leftarrow> zipmapNew (c_garbage c);
      if n > hash_max_zipmap_entries c then convertToRealHash (RHashZip zm) else Some (RHashZip zm) }) = Some obj"
    "hash_inv c 0 obj (\<lambda>_. None)" "(\<exists>zm. obj = RHashZip zm) \<longrightarrow> n \<le> hash_max_zipmap_entries c"
    using new_hash_ok [OF assms] by blast
  moreover have "hash_safe c n obj"
  proof (cases obj)
    case (RHashZip zm)
    then show ?thesis
      using calculation(2,3) unfolding hash_safe_def by (intro disjI2 exI [of _ zm] exI [of _ 0]) auto
  qed (use calculation(2) in \<open>simp_all add: hash_safe_def hash_inv_def\<close>)
  ultimately show ?thesis by blast
qed

lemma rdbLoadObject_tame:
  fixes c :: "'d conf"
  assumes "conf_ok c" "t = REDIS_ZSET \<Longrightarrow> F = bad_double c"
  shows "tame F (rdbLoadObject c t)"
proof -
  have plain: "tame F (load_n n r (\<lambda>xs x. Some (f xs x)) [])" if "tame F r"
    for n and r :: "bytes \<Rightarrow> 'b load" and f :: "'b list \<Rightarrow> 'b \<Rightarrow> 'b list"
    using that by (rule tame_load_n [where V = "\<lambda>_. True" and I = "\<lambda>_ _. True"]) simp_all
  have strings: "tame F (load_counted (\<lambda>n fp1. load_bind
      (load_n n load_encoded (\<lambda>xs x. Some (f xs x)) [] fp1) (\<lambda>xs. Got (k xs))))"
    for f and k :: "sobj list \<Rightarrow> 'd robj"
    by (intro load_counted_tame tame_bind plain load_encoded_tame tame_ret)
  have zset: "tame F (load_counted (\<lambda>n fp1. load_bind
      (load_n n (load_pair load_encoded (rdbLoadDoubleValue (c_scan c)))
        (\<lambda>xs x. Some (entry_add xs x)) [] fp1) (\<lambda>xs. Got (RZset xs :: 'd robj))))" if "t = REDIS_ZSET"
    unfolding assms(2) [OF that] using plain
    by (intro load_counted_tame tame_bind tame_ret plain [unfolded assms(2) [OF that]] tame_pair load_encoded_tame
        rdbLoadDoubleValue_tame)
  have entry: "\<exists>key val. x = (Raw key, Raw val)"
    if "load_pair rdbLoadStringObject rdbLoadStringObject fp = Got x fp'" for x fp fp'
    using that raw_result unfolding load_pair_def
    by (cases "rdbLoadStringObject fp") (auto elim!: load_bind_GotE)
  have hash: "tame F (load_counted (\<lambda>n fp1.
          case (do {
              zm \<leftarrow> zipmapNew (c_garbage c);
              if n > hash_max_zipmap_entries c then convertToRealHash (RHashZip zm)
              else Some (RHashZip zm) }) of
            None \<Rightarrow> Fault
          | Some obj \<Rightarrow>
              load_n n (load_pair rdbLoadStringObject rdbLoadStringObject)
                (hash_add c) obj fp1))"
  proof (rule load_counted_tame)
    fix n
    obtain obj :: "'d robj" where obj: "(do { zm \<leftarrow> zipmapNew (c_garbage c);
      if n > hash_max_zipmap_entries c then convertToRealHash (RHashZip zm) else Some (RHashZip zm) }) = Some obj"
      "hash_safe c n obj"
      using new_hash_safe [OF assms(1)] by blast
    have "tame F (load_n n (load_pair rdbLoadStringObject rdbLoadStringObject)
        (hash_add c) obj)"
      using entry hash_add_safe [OF _ assms(1)] obj(2)
      by (intro tame_load_n [where V = "\<lambda>x. \<exists>key val. x = (Raw key, Raw val)" and I = "hash_safe c"]
          tame_pair strings_tame) blast+
    then show "tame F (\<lambda>fp1. case (do { zm \<leftarrow> zipmapNew (c_garbage c);
              if n > hash_max_zipmap_entries c then convertToRealHash (RHashZip zm)
              else Some (RHashZip zm) }) of
            None \<Rightarrow> Fault
          | Some obj \<Rightarrow>
              load_n n (load_pair rdbLoadStringObject rdbLoadStringObject)
                (hash_add c) obj fp1)"
      unfolding obj(1) option.case .
  qed
  consider "t = REDIS_STRING" | "t = REDIS_LIST" | "t = REDIS_SET" | "t = REDIS_ZSET" | "t = REDIS_HASH"
    | "t \<noteq> REDIS_STRING" "t \<noteq> REDIS_LIST" "t \<noteq> REDIS_SET" "t \<noteq> REDIS_ZSET" "t \<noteq> REDIS_HASH"
    by blast
  then show ?thesis
    using tame_bind [OF load_encoded_tame tame_ret] strings zset hash tame_stop(1)
    by cases (simp_all add: rdbLoadObject_def [abs_def] obj_types)
qed

section \<open>Files\<close>

lemma rdbLoadType_less: "rdbLoadType fp = Got t fp' \<Longrightarrow> \<exists>k > 0. fp' = drop k fp \<and> fp \<noteq> []"
  by (auto simp: rdbLoadType_def fread_def split: if_splits)

lemma load_head_less:
  assumes "load_head fp = Got x fp'"
  shows "\<exists>k > 0. fp' = drop k fp \<and> fp \<noteq> []"
proof -
  obtain t fp1 where t: "rdbLoadType fp = Got t fp1"
    "(if t = REDIS_EXPIRETIME then
       load_bind (rdbLoadTime fp1) (\<lambda>time fp2.
         if time = - 1 then Short else load_bind (rdbLoadType fp2) (\<lambda>t'. Got (time, t')))
     else Got (- 1, t) fp1) = Got x fp'"
    using assms unfolding load_head_def by (rule load_bind_GotE)
  obtain k where k: "k > 0" "fp1 = drop k fp" "fp \<noteq> []" using rdbLoadType_less [OF t(1)] by blast
  have "tame (\<lambda>_. True) (\<lambda>fp1. if t = REDIS_EXPIRETIME then
       load_bind (rdbLoadTime fp1) (\<lambda>time fp2.
         if time = - 1 then Short else load_bind (rdbLoadType fp2) (\<lambda>t'. Got (time, t')))
     else Got (- 1, t) fp1)"
    by (intro tame_if tame_bind rdbLoadTime_tame rdbLoadType_tame tame_ret tame_stop)
  from tame_Got [OF this t(2)] obtain k' where "fp' = drop k' fp1" by blast
  with k show ?thesis by (intro exI [of _ "k + k'"]) (simp add: add.commute)
qed

lemma load_head_no_fault: "load_head fp \<noteq> Fault"
proof
  assume f: "load_head fp = Fault"
  have "tame (\<lambda>_. False) load_head"
    unfolding load_head_def
    by (intro tame_if tame_bind rdbLoadTime_tame rdbLoadType_tame tame_ret tame_stop)
  from tame_Fault [OF this f] show False by simp
qed

text \<open>
  Where a fault can happen. A record of the file is followed by the next one; behind the head and the
  key of the record of a sorted set come the number of its members and the pairs of a member and a
  score, and \<open>score_at\<close> is the rest of the file behind one of these members.
\<close>

fun members_read :: "'d conf \<Rightarrow> nat \<Rightarrow> bytes \<Rightarrow> bytes \<Rightarrow> bool" where
  "members_read c 0 fp fp' \<longleftrightarrow> fp' = fp"
| "members_read c (Suc j) fp fp' \<longleftrightarrow> (\<exists>m s v fp1.
     load_encoded fp = Got m s \<and> rdbLoadDoubleValue (c_scan c) s = Got v fp1 \<and> members_read c j fp1 fp')"

definition next_record :: "'d conf \<Rightarrow> bytes \<Rightarrow> bytes \<Rightarrow> bool" where
  "next_record c fp fp' \<longleftrightarrow> (\<exists>expiretime t fp1. load_head fp = Got (expiretime, t) fp1 \<and> t \<noteq> REDIS_EOF \<and>
     (if t = REDIS_SELECTDB then \<exists>dbid i. rdbLoadLen fp1 = (dbid, i, fp')
      else \<exists>key fp2 val. rdbLoadStringObject fp1 = Got key fp2 \<and> rdbLoadObject c t fp2 = Got val fp'))"

definition score_at :: "'d conf \<Rightarrow> bytes \<Rightarrow> bytes \<Rightarrow> bool" where
  "score_at c fp s \<longleftrightarrow> (\<exists>expiretime fp1 key fp2 n i fp3 j fp4 m.
     load_head fp = Got (expiretime, REDIS_ZSET) fp1 \<and> rdbLoadStringObject fp1 = Got key fp2 \<and>
     rdbLoadLen fp2 = (n, i, fp3) \<and> n \<noteq> REDIS_RDB_LENERR \<and> j < unat n \<and> members_read c j fp3 fp4 \<and>
     load_encoded fp4 = Got m s)"

lemma load_pair_fault:
  assumes "load_pair a b fp = Fault" "a fp \<noteq> Fault"
  shows "\<exists>m s. a fp = Got m s \<and> b s = Fault"
proof (cases "a fp")
  case (Got m s)
  then show ?thesis using assms(1) by (cases "b s") (simp_all add: load_pair_def)
qed (use assms in \<open>simp_all add: load_pair_def\<close>)

lemma load_pair_got:
  assumes "load_pair a b fp = Got x fp'"
  shows "\<exists>m s v. a fp = Got m s \<and> b s = Got v fp'"
proof (cases "a fp")
  case (Got m s)
  then show ?thesis using assms by (cases "b s") (simp_all add: load_pair_def)
qed (use assms in \<open>simp_all add: load_pair_def\<close>)

lemma strings_no_fault: "load_encoded fp \<noteq> Fault" "rdbLoadStringObject fp \<noteq> Fault"
  using tame_Fault [OF load_encoded_tame [of "\<lambda>_. False"]] tame_Fault [OF strings_tame(1) [of "\<lambda>_. False"]]
  by blast+

lemma zset_load_fault:
  assumes "load_n n (load_pair load_encoded (rdbLoadDoubleValue (c_scan c))) (\<lambda>xs x. Some (f xs x)) acc fp = Fault"
  shows "\<exists>j fp4 m s. j < n \<and> members_read c j fp fp4 \<and> load_encoded fp4 = Got m s \<and> bad_double c s"
  using assms
proof (induction n arbitrary: acc fp)
  case (Suc n)
  show ?case
  proof (cases "load_pair load_encoded (rdbLoadDoubleValue (c_scan c)) fp")
    case (Got x fp1)
    then obtain m s v where x: "load_encoded fp = Got m s" "rdbLoadDoubleValue (c_scan c) s = Got v fp1"
      using load_pair_got by blast
    have "load_n n (load_pair load_encoded (rdbLoadDoubleValue (c_scan c))) (\<lambda>xs x. Some (f xs x)) (f acc x) fp1 = Fault"
      using Suc.prems Got by simp
    from Suc.IH [OF this] obtain j fp4 m' s' where
      j: "j < n" "members_read c j fp1 fp4" "load_encoded fp4 = Got m' s'" "bad_double c s'" by blast
    have "members_read c (Suc j) fp fp4" using x j(2) by auto
    then show ?thesis using j by (intro exI [of _ "Suc j"]) auto
  next
    case Fault
    then obtain m s where "load_encoded fp = Got m s" "bad_double c s"
      using load_pair_fault strings_no_fault(1) by blast
    then show ?thesis by (intro exI [of _ 0]) auto
  qed (use Suc.prems in simp_all)
qed simp

lemma record_fault:
  assumes "conf_ok c" "load_head fp = Got (expiretime, t) fp1"
    "load_pair rdbLoadStringObject (rdbLoadObject c t) fp1 = Fault"
  shows "\<exists>s. score_at c fp s \<and> bad_double c s"
proof -
  obtain key fp2 where key: "rdbLoadStringObject fp1 = Got key fp2" "rdbLoadObject c t fp2 = Fault"
    using load_pair_fault [OF assms(3) strings_no_fault(2)] by blast
  have t: "t = REDIS_ZSET"
    using tame_Fault [OF rdbLoadObject_tame [OF assms(1), of t "\<lambda>_. False"] key(2)] by blast
  obtain n i fp3 where l: "rdbLoadLen fp2 = (n, i, fp3)" by (cases "rdbLoadLen fp2")
  have n: "n \<noteq> REDIS_RDB_LENERR"
    "load_n (unat n) (load_pair load_encoded (rdbLoadDoubleValue (c_scan c))) (\<lambda>xs x. Some (entry_add xs x)) [] fp3 = Fault"
    using key(2) l unfolding rdbLoadObject_def t load_counted_def
    by (simp_all add: obj_types Let_def split: if_splits)
      (cases "load_n (unat n) (load_pair load_encoded (rdbLoadDoubleValue (c_scan c)))
        (\<lambda>xs x. Some (entry_add xs x)) [] fp3", simp_all)
  from zset_load_fault [OF n(2)] show ?thesis
    using assms(2) key(1) l n(1) unfolding score_at_def t by blast
qed

lemma load_entries_returns:
  fixes c :: "'d conf"
  assumes "conf_ok c"
  shows "\<exists>r. load_entries c now dbs cur fp = Some r \<and>
    (r = LoadFault \<longrightarrow> (\<exists>rec s. (next_record c)\<^sup>*\<^sup>* fp rec \<and> score_at c rec s \<and> bad_double c s))"
proof (induction "length fp" arbitrary: fp dbs cur rule: less_induct)
  case less
  have next_ok: "\<exists>r. load_entries c now dbs' cur' fp' = Some r \<and>
      (r = LoadFault \<longrightarrow> (\<exists>rec s. (next_record c)\<^sup>*\<^sup>* fp rec \<and> score_at c rec s \<and> bad_double c s))"
    if "next_record c fp fp'" "fp' = drop k' (drop k fp)" "0 < k" "fp \<noteq> []" for dbs' cur' fp' k k'
  proof -
    have "length fp' < length fp" using that by (cases fp) auto
    from less.hyps [OF this] obtain r where "load_entries c now dbs' cur' fp' = Some r"
      "r = LoadFault \<longrightarrow> (\<exists>rec s. (next_record c)\<^sup>*\<^sup>* fp' rec \<and> score_at c rec s \<and> bad_double c s)" by blast
    then show ?thesis using that(1) by (meson converse_rtranclp_into_rtranclp)
  qed
  show ?case
  proof (cases "load_head fp")
    case (Got p fp1)
    obtain expiretime t where p: "p = (expiretime, t)" by (cases p)
    obtain k where k: "0 < k" "fp1 = drop k fp" "fp \<noteq> []" using load_head_less [OF Got] by blast
    obtain dbid i fp2 where l: "rdbLoadLen fp1 = (dbid, i, fp2)" by (cases "rdbLoadLen fp1")
    obtain k' where k': "fp2 = drop k' (drop k fp)" using rdbLoadLen_drop [OF l] k(2) by blast
    have tame: "tame (bad_double c) (load_pair rdbLoadStringObject (rdbLoadObject c t))"
      by (intro tame_pair strings_tame rdbLoadObject_tame assms refl)
    consider "t = REDIS_EOF" | "t = REDIS_SELECTDB"
      | x fp3 where "t \<noteq> REDIS_EOF" "t \<noteq> REDIS_SELECTDB"
          "load_pair rdbLoadStringObject (rdbLoadObject c t) fp1 = Got x fp3"
      | "t \<noteq> REDIS_EOF" "t \<noteq> REDIS_SELECTDB"
          "load_pair rdbLoadStringObject (rdbLoadObject c t) fp1 = Fault"
      | r where "t \<noteq> REDIS_EOF" "t \<noteq> REDIS_SELECTDB"
          "load_pair rdbLoadStringObject (rdbLoadObject c t) fp1 = r" "r = Short \<or> r = Panic"
      by (cases "load_pair rdbLoadStringObject (rdbLoadObject c t) fp1") auto
    then show ?thesis
    proof cases
      case 1
      then show ?thesis by (subst load_entries.simps) (simp add: Got p)
    next
      case 2
      have "next_record c fp fp2" using 2 Got p l by (auto simp: next_record_def opcodes)
      from next_ok [OF this k' k(1,3)] show ?thesis
        using 2 by (subst load_entries.simps) (auto simp: Got p l opcodes)
    next
      case 3
      then have "next_record c fp fp3" using Got p
        by (auto simp: next_record_def dest!: load_pair_got)
      moreover obtain k' where "fp3 = drop k' (drop k fp)" using tame_Got [OF tame 3(3)] k(2) by blast
      ultimately show ?thesis
        using next_ok [OF _ _ k(1,3)] 3 by (subst load_entries.simps) (auto simp: Got p split: prod.split)
    next
      case 4
      from record_fault [OF assms Got [unfolded p] 4(3)] show ?thesis
        using 4 by (subst load_entries.simps) (auto simp: Got p)
    next
      case 5
      then show ?thesis by (subst load_entries.simps) (auto simp: Got p)
    qed
  qed (use load_head_no_fault in \<open>subst load_entries.simps, simp\<close>)+
qed

lemma bad_double_length:
  assumes "bad_double c fp"
  shows "127 < unat (fp ! 0) \<and> unat (fp ! 0) < 253 \<and> 128 < length fp"
proof (cases fp)
  case Nil
  then show ?thesis using assms by (simp add: rdbLoadDoubleValue_def fread_def)
next
  case (Cons l r)
  have l: "l \<noteq> 255" "l \<noteq> 254" "l \<noteq> 253" "127 < unat l" "128 \<le> length r"
    using assms Cons
    by (auto simp: rdbLoadDoubleValue_def fread_one fread_def Let_def split: if_splits option.splits)
  have "unat l < 256" using unsigned_less [of l] by simp
  moreover have "unat l \<noteq> 255" "unat l \<noteq> 254" "unat l \<noteq> 253"
    using l(1-3) word_unat_eq_iff [of l 255] word_unat_eq_iff [of l 254] word_unat_eq_iff [of l 253] by simp_all
  ultimately show ?thesis using l(4,5) Cons by simp
qed

text \<open>C33: loading returns on every file, damaged or not. It leaves its buffers only where the score of
  a sorted set is read, behind the member it belongs to, and only when the length byte there is
  between 128 and 252 and at least 128 bytes follow it: the text overruns the 128 bytes of \<open>buf\<close>.\<close>

theorem rdbLoad_returns:
  fixes c :: "'d conf"
  assumes "conf_ok c"
  shows "\<exists>r. rdbLoad c now dbs dump = Some r \<and>
    (r = LoadFault \<longrightarrow> (\<exists>fp rec s. dump = Some fp \<and> (next_record c)\<^sup>*\<^sup>* (drop 9 fp) rec \<and> score_at c rec s \<and>
       127 < unat (s ! 0) \<and> unat (s ! 0) < 253 \<and> 128 < length s))"
proof (cases dump)
  case None
  then show ?thesis by (simp add: rdbLoad_def)
next
  case (Some fp)
  show ?thesis
  proof (cases "fread 9 fp")
    case None
    then show ?thesis using Some by (simp add: rdbLoad_def)
  next
    case (Some p)
    obtain b fp1 where p: "fread 9 fp = Some (b, fp1)" using Some by (cases p) auto
    obtain v e where v: "strtoll10 (drop 5 b @ [0]) = Some (v, e)"
      using strtoll10_total [of 0 "drop 5 b @ [0]"] by auto
    obtain r where r: "load_entries c now dbs 0 fp1 = Some r"
      "r = LoadFault \<longrightarrow> (\<exists>rec s. (next_record c)\<^sup>*\<^sup>* fp1 rec \<and> score_at c rec s \<and> bad_double c s)"
      using load_entries_returns [OF assms] by blast
    have "fp1 = drop 9 fp" using fread_drop [OF p] by blast
    with r(2) have "r = LoadFault \<longrightarrow> (\<exists>rec s. (next_record c)\<^sup>*\<^sup>* (drop 9 fp) rec \<and> score_at c rec s \<and>
        127 < unat (s ! 0) \<and> unat (s ! 0) < 253 \<and> 128 < length s)"
      using bad_double_length by blast
    then show ?thesis using \<open>dump = Some fp\<close> p v r(1) by (auto simp: rdbLoad_def)
  qed
qed

theorem rdbLoad_returns_witness:
  "\<exists>r. rdbLoad ex_conf 0 [] (Some (rdb_magic @ [3, 1, 97, 1, 1, 98, 200])) = Some r"
  using rdbLoad_returns [OF ex_ok(1)] by blast

end
