(* ===== verification/Pattern.thy ===== *)
theory Pattern
  imports Redis_Object
begin

text \<open>
  Glob-style patterns and amounts of memory (\<open>apps/redis-2.0.4/redis.c\<close>, lines 862-1033). A pointer
  is the memory from it on; a length is the \<open>int\<close> the code keeps beside it, which may become negative.
  Reading beyond the memory is \<open>None\<close>. The characters of C are signed. Blocks are shorter than
  \<open>2 ^ 31\<close> bytes, so that the lengths stay within an \<open>int\<close>.
\<close>

section \<open>The matcher\<close>

definition schar :: "u8 \<Rightarrow> int" where
  "schar c = sint c"

text \<open>\<open>tolower\<close> of the C locale.\<close>

definition c_tolower :: "int \<Rightarrow> int" where
  "c_tolower c = (if 65 \<le> c \<and> c \<le> 90 then c + 32 else c)"

text \<open>\<open>while (*pattern == '*')\<close> and \<open>while (pattern[1] == '*')\<close>.\<close>

fun leading_stars :: "bytes \<Rightarrow> int \<Rightarrow> (bytes \<times> int) option" where
  "leading_stars [] n = None"
| "leading_stars (c # p) n = (if c = 42 then leading_stars p (n - 1) else Some (c # p, n))"

fun next_stars :: "bytes \<Rightarrow> int \<Rightarrow> (bytes \<times> int) option" where
  "next_stars (c # d # p) n = (if d = 42 then next_stars (d # p) (n - 1) else Some (c # d # p, n))"
| "next_stars _ n = None"

definition same_char :: "bool \<Rightarrow> u8 \<Rightarrow> u8 \<Rightarrow> bool" where
  "same_char nocase a b = (if \<not> nocase then a = b else c_tolower (schar a) = c_tolower (schar b))"

definition in_range :: "bool \<Rightarrow> u8 \<Rightarrow> u8 \<Rightarrow> u8 \<Rightarrow> bool" where
  "in_range nocase a b x =
     (let (start, end') = (if schar a > schar b then (schar b, schar a) else (schar a, schar b));
          (start, end', c) = (if nocase then (c_tolower start, c_tolower end', c_tolower (schar x)) else (start, end', schar x))
      in c \<ge> start \<and> c \<le> end')"

text \<open>One iteration of the loop of a class: whether the character matches here, or \<open>None\<close> inside when
  the class ends, and the pointer after the last \<open>pattern++\<close> of the branch: behind the closing bracket,
  or at the end of the pattern, where the step back of the unclosed class cancels it.\<close>

definition class_step :: "bool \<Rightarrow> bytes \<Rightarrow> int \<Rightarrow> bytes \<Rightarrow> (bool option \<times> bytes \<times> int) option" where
  "class_step nocase p pn sm =
     (case p of
        [] \<Rightarrow> None
      | c # p1 \<Rightarrow>
          if c = 92 then
            (case p1 of
               [] \<Rightarrow> None
             | d # p2 \<Rightarrow> do { sc \<leftarrow> rd sm 0; Some (Some (d = sc), p2, pn - 2) })
          else if c = 93 then Some (None, p1, pn - 1)
          else if pn = 0 then Some (None, c # p1, pn)
          else
            (case p1 of
               [] \<Rightarrow> None
             | d # p2 \<Rightarrow>
                 if d = 45 \<and> pn \<ge> 3 then
                   (case p2 of
                      [] \<Rightarrow> None
                    | e # p3 \<Rightarrow> do { sc \<leftarrow> rd sm 0; Some (Some (in_range nocase c e sc), p3, pn - 3) })
                 else do { sc \<leftarrow> rd sm 0; Some (Some (same_char nocase c sc), p1, pn - 1) }))"

lemma class_step_shorter:
  "class_step nocase p pn sm = Some (Some hit, p', pn') \<Longrightarrow> length p' < length p"
  "class_step nocase p pn sm = Some (None, p', pn') \<Longrightarrow> length p' \<le> length p"
  by (auto simp: class_step_def split: if_splits list.splits Option.bind_splits)

function class_loop :: "bool \<Rightarrow> bytes \<Rightarrow> int \<Rightarrow> bytes \<Rightarrow> bool \<Rightarrow> (bool \<times> bytes \<times> int) option" where
  "class_loop nocase p pn sm m =
     (case class_step nocase p pn sm of
        None \<Rightarrow> None
      | Some (None, p', pn') \<Rightarrow> Some (m, p', pn')
      | Some (Some hit, p', pn') \<Rightarrow> class_loop nocase p' pn' sm (m \<or> hit))"
  by pat_completeness auto
termination
  by (relation "measure (\<lambda>(nocase, p, pn, sm, m). length p)") (auto dest: class_step_shorter)

declare class_loop.simps [simp del]

lemma class_loop_shorter: "class_loop nocase p pn sm m = Some (r, p', pn') \<Longrightarrow> length p' \<le> length p"
proof (induction "length p" arbitrary: p pn m rule: less_induct)
  case less
  obtain h q n where st: "class_step nocase p pn sm = Some (h, q, n)"
    using less.prems by (subst (asm) class_loop.simps) (auto split: option.splits)
  show ?case
  proof (cases h)
    case None
    then show ?thesis
      using less.prems st class_step_shorter(2) by (subst (asm) class_loop.simps) fastforce
  next
    case (Some hit)
    then have "length q < length p" using st class_step_shorter(1) by blast
    moreover have "class_loop nocase q n sm (m \<or> hit) = Some (r, p', pn')"
      using less.prems st Some by (subst (asm) class_loop.simps) simp
    ultimately show ?thesis using less.hyps by fastforce
  qed
qed

definition ended :: "bytes \<Rightarrow> int \<Rightarrow> bool option" where
  "ended p pn = map_option (\<lambda>(p', pn'). pn' = 0) (leading_stars p pn)"

lemma next_stars_shorter: "next_stars p n = Some (p', n') \<Longrightarrow> length p' \<le> length p \<and> p' \<noteq> []"
  by (induction p n rule: next_stars.induct) (fastforce split: if_splits)+

function stringmatchlen :: "bool \<Rightarrow> bytes \<Rightarrow> int \<Rightarrow> bytes \<Rightarrow> int \<Rightarrow> bool option"
  and star_loop :: "bool \<Rightarrow> bytes \<Rightarrow> int \<Rightarrow> bytes \<Rightarrow> int \<Rightarrow> bool option"
where
  "stringmatchlen nocase p pn sm sn =
     (if pn = 0 then Some (sn = 0)
      else (case p of
        [] \<Rightarrow> None
      | c # p1 \<Rightarrow>
          if c = 42 then
            (case next_stars p pn of
               None \<Rightarrow> None
             | Some (p', pn') \<Rightarrow> if pn' = 1 then Some True else star_loop nocase p' pn' sm sn)
          else if c = 63 then
            if sn = 0 then Some False
            else (case sm of
                [] \<Rightarrow> None
              | x # sm' \<Rightarrow>
                  if sn - 1 = 0 then ended p1 (pn - 1)
                  else stringmatchlen nocase p1 (pn - 1) sm' (sn - 1))
          else if c = 91 then
            (case p1 of
               [] \<Rightarrow> None
             | d # p2 \<Rightarrow>
                 (case (if d = 94 then class_loop nocase p2 (pn - 2) sm False
                        else class_loop nocase p1 (pn - 1) sm False) of
                    None \<Rightarrow> None
                  | Some (m, p', pn') \<Rightarrow>
                      if (if d = 94 then m else \<not> m) then Some False
                      else (case sm of
                          [] \<Rightarrow> None
                        | x # sm' \<Rightarrow>
                            if sn - 1 = 0 then ended p' pn'
                            else stringmatchlen nocase p' pn' sm' (sn - 1))))
          else
            (case (if c = 92 \<and> pn \<ge> 2 then (p1, pn - 1) else (p, pn)) of
               ([], pn') \<Rightarrow> None
             | (pc # p', pn') \<Rightarrow>
                 (case sm of
                    [] \<Rightarrow> None
                  | sc # sm' \<Rightarrow>
                      if \<not> same_char nocase pc sc then Some False
                      else if sn - 1 = 0 then ended p' (pn' - 1)
                      else stringmatchlen nocase p' (pn' - 1) sm' (sn - 1)))))"
| "star_loop nocase p pn sm sn =
     (if sn = 0 then Some False
      else (case p of
        [] \<Rightarrow> None
      | c # p1 \<Rightarrow>
          (case stringmatchlen nocase p1 (pn - 1) sm sn of
             None \<Rightarrow> None
           | Some True \<Rightarrow> Some True
           | Some False \<Rightarrow> (case sm of [] \<Rightarrow> None | x # sm' \<Rightarrow> star_loop nocase p pn sm' (sn - 1)))))"
  by pat_completeness auto
termination
proof (relation "measures [\<lambda>x. case x of Inl (nc, p, n, sm, l) \<Rightarrow> length p | Inr (nc, p, n, sm, l) \<Rightarrow> length p,
    \<lambda>x. case x of Inl (nc, p, n, sm, l) \<Rightarrow> Suc (length sm) | Inr (nc, p, n, sm, l) \<Rightarrow> length sm]", goal_cases)
qed (auto split: if_splits dest!: next_stars_shorter class_loop_shorter)

declare stringmatchlen.simps [simp del] star_loop.simps [simp del]

definition stringmatch :: "bool \<Rightarrow> bytes \<Rightarrow> bytes \<Rightarrow> bool option" where
  "stringmatch nocase pm sm = do {
     pn \<leftarrow> c_strlen pm;
     sn \<leftarrow> c_strlen sm;
     stringmatchlen nocase pm (signed_take_bit 31 (int pn)) sm (signed_take_bit 31 (int sn)) }"

section \<open>Amounts of memory\<close>

fun skip_digits :: "bytes \<Rightarrow> bytes option" where
  "skip_digits [] = None"
| "skip_digits (c # u) = (if 48 \<le> c \<and> c \<le> 57 then skip_digits u else Some (c # u))"

text \<open>\<open>!strcasecmp(a, b)\<close>.\<close>

fun same_text :: "bytes \<Rightarrow> bytes \<Rightarrow> bool option" where
  "same_text (a # as) (b # bs) =
     (if \<not> same_char True a b then Some False else if a = 0 then Some True else same_text as bs)"
| "same_text _ _ = None"

definition memory_units :: "(bytes \<times> int) list" where
  "memory_units = [([98], 1), ([107], 1000), ([107, 98], 1024), ([109], 1000 * 1000), ([109, 98], 1024 * 1024),
     ([103], 1000 * 1000 * 1000), ([103, 98], 1024 * 1024 * 1024)]"

text \<open>The multiplier, \<open>None\<close> inside for a text that is no unit.\<close>

fun find_unit :: "(bytes \<times> int) list \<Rightarrow> bytes \<Rightarrow> int option option" where
  "find_unit [] u = Some None"
| "find_unit ((name, mul) # units) u = do {
     b \<leftarrow> same_text u (name @ [0]);
     if b then Some (Some mul) else find_unit units u }"

text \<open>The value and whether \<open>*err\<close> is set. The product wraps around.\<close>

definition memtoll :: "bytes \<Rightarrow> (int \<times> bool) option" where
  "memtoll p = do {
     c \<leftarrow> rd p 0;
     u \<leftarrow> skip_digits (if c = 45 then tl p else p);
     u0 \<leftarrow> rd u 0;
     unit \<leftarrow> (if u0 = 0 then Some (Some 1) else find_unit memory_units u);
     let (mul, err) = (case unit of Some mul \<Rightarrow> (mul, False) | None \<Rightarrow> (1, True));
     let digits = length p - length u;
     if digits \<ge> 128 then Some (2 ^ 63 - 1, True)
     else do {
       (val, _) \<leftarrow> strtoll10 (take digits p @ [0]);
       Some (signed_take_bit 63 (val * mul), err) } }"

end
