(* ===== verification/Pattern_Spec.thy ===== *)
theory Pattern_Spec
  imports Pattern
begin

text \<open>
  What a glob-style pattern means, and that the matcher computes it: a pattern is read as a list of
  tokens, and the tokens are matched against a text.
\<close>

section \<open>Meaning of a pattern\<close>

datatype class_item = ItemChar u8 | ItemEscaped u8 | ItemRange u8 u8

datatype glob_token = AnyText | AnyChar | Literal u8 | Class bool "class_item list"

text \<open>The first item of a class, \<open>None\<close> inside at its end, and the pattern behind it; a class may end
  with the pattern. \<open>None\<close> is a pattern that ends with a backslash in a class.\<close>

definition parse_item :: "bytes \<Rightarrow> (class_item option \<times> bytes) option" where
  "parse_item p =
     (case p of
        [] \<Rightarrow> Some (None, [])
      | [c] \<Rightarrow> if c = 92 then None else if c = 93 then Some (None, []) else Some (Some (ItemChar c), [])
      | c # d # q \<Rightarrow>
          if c = 92 then Some (Some (ItemEscaped d), q)
          else if c = 93 then Some (None, d # q)
          else if d = 45 \<and> q \<noteq> [] then Some (Some (ItemRange c (hd q)), tl q)
          else Some (Some (ItemChar c), d # q))"

lemma parse_item_shorter:
  "parse_item p = Some (Some i, q) \<Longrightarrow> length q < length p"
  "parse_item p = Some (None, q) \<Longrightarrow> length q \<le> length p"
  by (auto simp: parse_item_def split: list.splits if_splits)

function parse_class :: "bytes \<Rightarrow> (class_item list \<times> bytes) option" where
  "parse_class p =
     (case parse_item p of
        None \<Rightarrow> None
      | Some (None, q) \<Rightarrow> Some ([], q)
      | Some (Some i, q) \<Rightarrow> map_option (apfst (Cons i)) (parse_class q))"
  by pat_completeness auto
termination
  by (relation "measure length") (auto dest: parse_item_shorter)

declare parse_class.simps [simp del]

text \<open>Induction along the items of a class.\<close>

lemma parse_class_induct [consumes 1, case_names closed item]:
  assumes "parse_class p = Some (items, q)"
    and "\<And>p. parse_item p = Some (None, q) \<Longrightarrow> P p []"
    and "\<And>p i r is. parse_item p = Some (Some i, r) \<Longrightarrow> parse_class r = Some (is, q) \<Longrightarrow> P r is \<Longrightarrow> P p (i # is)"
  shows "P p items"
  using assms(1)
proof (induction "length p" arbitrary: p items rule: less_induct)
  case less
  then obtain it r where it: "parse_item p = Some (it, r)"
    by (subst (asm) parse_class.simps) (auto split: option.splits)
  show ?case
  proof (cases it)
    case None
    then show ?thesis using less.prems it assms(2) by (subst (asm) parse_class.simps) simp
  next
    case (Some i)
    then obtain "is" where "parse_class r = Some (is, q)" "items = i # is"
      using less.prems it by (subst (asm) parse_class.simps) auto
    moreover have "length r < length p" using it Some parse_item_shorter(1) by blast
    ultimately show ?thesis using less.hyps it Some assms(3) by blast
  qed
qed

lemma parse_class_shorter: "parse_class p = Some (items, q) \<Longrightarrow> length q \<le> length p"
  by (induction rule: parse_class_induct) (auto dest: parse_item_shorter)

function parse_glob :: "bytes \<Rightarrow> glob_token list option" where
  "parse_glob [] = Some []"
| "parse_glob (c # p) =
     (if c = 42 then map_option (Cons AnyText) (parse_glob p)
      else if c = 63 then map_option (Cons AnyChar) (parse_glob p)
      else if c = 91 then
        (case (case p of [] \<Rightarrow> Some (False, [], []) | d # q \<Rightarrow>
              map_option (\<lambda>(items, r). (d = 94, items, r)) (parse_class (if d = 94 then q else p))) of
           None \<Rightarrow> None
         | Some (neg, items, r) \<Rightarrow> map_option (Cons (Class neg items)) (parse_glob r))
      else if c = 92 then
        (case p of [] \<Rightarrow> Some [Literal c] | d # q \<Rightarrow> map_option (Cons (Literal d)) (parse_glob q))
      else map_option (Cons (Literal c)) (parse_glob p))"
  by pat_completeness auto
termination
  by (relation "measure length") (auto split: list.splits if_splits dest!: parse_class_shorter)

fun item_matches :: "bool \<Rightarrow> class_item \<Rightarrow> u8 \<Rightarrow> bool" where
  "item_matches nocase (ItemChar c) x = same_char nocase c x"
| "item_matches nocase (ItemEscaped c) x = (c = x)"
| "item_matches nocase (ItemRange c e) x = in_range nocase c e x"

fun glob_matches :: "bool \<Rightarrow> glob_token list \<Rightarrow> bytes \<Rightarrow> bool" where
  "glob_matches nocase [] s = (s = [])"
| "glob_matches nocase (AnyText # ts) s = (\<exists>k \<le> length s. glob_matches nocase ts (drop k s))"
| "glob_matches nocase (AnyChar # ts) s = (case s of [] \<Rightarrow> False | x # s' \<Rightarrow> glob_matches nocase ts s')"
| "glob_matches nocase (Literal c # ts) s =
     (case s of [] \<Rightarrow> False | x # s' \<Rightarrow> same_char nocase c x \<and> glob_matches nocase ts s')"
| "glob_matches nocase (Class neg items # ts) s =
     (case s of [] \<Rightarrow> False | x # s' \<Rightarrow>
        (\<exists>i \<in> set items. item_matches nocase i x) \<noteq> neg \<and> glob_matches nocase ts s')"

section \<open>The class\<close>

lemma class_step_ok:
  assumes "parse_item p = Some (it, q)"
  shows "class_step nocase (p @ [0]) (int (length p)) (x # sm) =
    Some (map_option (\<lambda>i. item_matches nocase i x) it, q @ [0], int (length q))"
proof (cases p)
  case (Cons c p1)
  show ?thesis
  proof (cases p1)
    case Nil
    then show ?thesis using assms Cons by (auto simp: parse_item_def class_step_def rd_def split: if_splits)
  next
    case c2: (Cons d r)
    then show ?thesis
      using assms Cons by (cases r) (auto simp: parse_item_def class_step_def rd_def split: if_splits)
  qed
qed (use assms in \<open>auto simp: parse_item_def class_step_def\<close>)

lemma class_loop_ok:
  assumes "parse_class p = Some (items, q)"
  shows "class_loop nocase (p @ [0]) (int (length p)) (x # sm) m =
    Some (m \<or> (\<exists>i \<in> set items. item_matches nocase i x), q @ [0], int (length q))"
  using assms
proof (induction arbitrary: m rule: parse_class_induct)
  case (closed p)
  then show ?case using class_step_ok by (subst class_loop.simps) simp
next
  case (item p i r "is")
  show ?case
    using class_step_ok [OF item(1)] item(3) by (subst class_loop.simps) (auto simp: disj_assoc)
qed

section \<open>Stars\<close>

lemma leading_stars_ok:
  "leading_stars (p @ [0]) n = Some (dropWhile (\<lambda>c. c = 42) p @ [0], n - int (length p) + int (length (dropWhile (\<lambda>c. c = 42) p)))"
  by (induction p arbitrary: n) simp_all

lemma next_stars_ok:
  "next_stars (42 # p @ [0]) (1 + int (length p)) =
     Some (42 # dropWhile (\<lambda>c. c = 42) p @ [0], 1 + int (length (dropWhile (\<lambda>c. c = 42) p)))"
  by (induction p) simp_all

lemma ended_ok: "ended (p @ [0]) (int (length p)) = Some (\<forall>c \<in> set p. c = 42)"
  by (auto simp: ended_def leading_stars_ok dropWhile_eq_Nil_conv)

lemma any_text_simps:
  "glob_matches nocase (AnyText # ts) [] = glob_matches nocase ts []"
  "glob_matches nocase (AnyText # ts) (x # s) \<longleftrightarrow> glob_matches nocase ts (x # s) \<or> glob_matches nocase (AnyText # ts) s"
proof -
  show "glob_matches nocase (AnyText # ts) (x # s) \<longleftrightarrow> glob_matches nocase ts (x # s) \<or> glob_matches nocase (AnyText # ts) s"
    (is "?l \<longleftrightarrow> ?r")
  proof
    assume ?l
    then obtain k where "k \<le> length (x # s)" "glob_matches nocase ts (drop k (x # s))" by auto
    then show ?r by (cases k) auto
  next
    assume ?r
    then show ?l by (auto intro: exI [of _ 0] exI [of _ "Suc k" for k])
  qed
qed simp

lemma any_text_twice: "glob_matches nocase (AnyText # AnyText # ts) s = glob_matches nocase (AnyText # ts) s"
  by (induction s) (simp_all add: any_text_simps del: glob_matches.simps(2))

lemma parse_stars:
  assumes "parse_glob p = Some ts"
  obtains ts' where "parse_glob (dropWhile (\<lambda>c. c = 42) p) = Some ts'"
    "\<forall>s. glob_matches nocase (AnyText # ts) s = glob_matches nocase (AnyText # ts') s"
  using assms
proof (induction p arbitrary: ts thesis)
  case (Cons c p)
  show ?case
  proof (cases "c = 42")
    case True
    then obtain us where us: "parse_glob p = Some us" "ts = AnyText # us" using Cons.prems(2) by auto
    show ?thesis
      by (rule Cons.IH [OF _ us(1)]) (use Cons.prems(1) True us(2) any_text_twice in simp)
  qed (use Cons.prems in simp)
qed simp

lemma glob_empty: "parse_glob p = Some ts \<Longrightarrow> glob_matches nocase ts [] \<longleftrightarrow> (\<forall>c \<in> set p. c = 42)"
  by (induction p arbitrary: ts rule: parse_glob.induct) (auto split: if_splits list.splits option.splits)

lemma star_loop_ok:
  assumes "\<And>s. s \<noteq> [] \<Longrightarrow> stringmatchlen nocase (p @ [0]) (int (length p)) (s @ [0]) (int (length s)) = Some (glob_matches nocase ts s)"
    "\<not> glob_matches nocase ts []"
  shows "star_loop nocase (42 # p @ [0]) (1 + int (length p)) (s @ [0]) (int (length s)) = Some (glob_matches nocase (AnyText # ts) s)"
proof (induction s)
  case Nil
  show ?case using assms(2) by (subst star_loop.simps) simp
next
  case (Cons x s)
  show ?case
    using assms(1) [of "x # s"] Cons
    by (subst star_loop.simps) (simp add: any_text_simps del: glob_matches.simps(2) split: bool.split)
qed

section \<open>The matcher\<close>

text \<open>What is left to do behind a character.\<close>

definition behind :: "bool \<Rightarrow> bytes \<Rightarrow> int \<Rightarrow> bytes \<Rightarrow> int \<Rightarrow> bool option" where
  "behind nocase p pn sm sn = (if sn = 0 then ended p pn else stringmatchlen nocase p pn sm sn)"

lemma match_any: "pn \<noteq> 0 \<Longrightarrow> sn \<noteq> 0 \<Longrightarrow>
    stringmatchlen nocase (63 # p) pn (x # sm) sn = behind nocase p (pn - 1) sm (sn - 1)"
  by (subst stringmatchlen.simps) (simp add: behind_def)

lemma match_literal:
  assumes "pn \<noteq> 0" "c \<noteq> 42" "c \<noteq> 63" "c \<noteq> 91" "c \<noteq> 92 \<or> pn < 2"
  shows "stringmatchlen nocase (c # p) pn (x # sm) sn =
    (if same_char nocase c x then behind nocase p (pn - 1) sm (sn - 1) else Some False)"
  using assms by (subst stringmatchlen.simps) (auto simp: behind_def)

lemma match_escape: "2 \<le> pn \<Longrightarrow>
    stringmatchlen nocase (92 # c # p) pn (x # sm) sn =
    (if same_char nocase c x then behind nocase p (pn - 2) sm (sn - 1) else Some False)"
  by (subst stringmatchlen.simps) (simp add: behind_def)

lemma match_class:
  assumes "pn \<noteq> 0" "class_loop nocase q qn (x # sm) False = Some (m, p', pn')"
    "if neg then d = 94 \<and> q = p \<and> qn = pn - 2 else d \<noteq> 94 \<and> q = d # p \<and> qn = pn - 1"
  shows "stringmatchlen nocase (91 # d # p) pn (x # sm) sn =
    (if m \<noteq> neg then behind nocase p' pn' sm (sn - 1) else Some False)"
  using assms by (subst stringmatchlen.simps) (cases neg; simp add: behind_def)

lemma stringmatchlen_ok:
  assumes "parse_glob p = Some ts" "s \<noteq> []"
  shows "stringmatchlen nocase (p @ [0]) (int (length p)) (s @ [0]) (int (length s)) = Some (glob_matches nocase ts s)"
  using assms
proof (induction "length p" arbitrary: p ts s rule: less_induct)
  case less
  obtain x s' where s: "s = x # s'" using less.prems(2) by (cases s) simp_all
  have rest: "behind nocase (q @ [0]) (int (length q)) (s' @ [0]) (int (length s')) = Some (glob_matches nocase us s')"
    if "parse_glob q = Some us" "length q < length p" for q us
    using less.hyps [OF that(2,1), of s'] glob_empty [OF that(1), of nocase]
    by (cases s') (simp_all add: behind_def ended_ok)
  show ?case
  proof (cases p)
    case Nil
    then show ?thesis using less.prems by (subst stringmatchlen.simps) simp
  next
    case (Cons c p1)
    consider (star) "c = 42" | (any) "c = 63" | (bracket) "c = 91" | (escape) d q where "c = 92" "p1 = d # q"
      | (literal) "c \<noteq> 42" "c \<noteq> 63" "c \<noteq> 91" "c = 92 \<longrightarrow> p1 = []" by (cases "c = 92"; cases p1) blast+
    then show ?thesis
    proof cases
      case star
      then obtain us where us: "parse_glob p1 = Some us" "ts = AnyText # us" using less.prems(1) Cons by auto
      define q where "q = dropWhile (\<lambda>c. c = 42) p1"
      obtain us' where us': "parse_glob q = Some us'"
        "\<forall>s. glob_matches nocase (AnyText # us) s = glob_matches nocase (AnyText # us') s"
        unfolding q_def by (rule parse_stars [where nocase = nocase, OF us(1)])
      have len: "length q < length p" using Cons length_dropWhile_le [of "\<lambda>c. c = 42" p1] by (simp add: q_def)
      have unf: "stringmatchlen nocase (p @ [0]) (int (length p)) (s @ [0]) (int (length s)) =
          (if int (length q) = 0 then Some True else star_loop nocase (42 # q @ [0]) (1 + int (length q)) (s @ [0]) (int (length s)))"
        using Cons star next_stars_ok [of p1] by (subst stringmatchlen.simps) (simp add: q_def [symmetric])
      show ?thesis
      proof (cases "q = []")
        case True
        then have "us' = []" using us'(1) by simp
        then show ?thesis using unf True us(2) us'(2) by auto
      next
        case False
        have "hd q \<noteq> 42" using False hd_dropWhile [of "\<lambda>c. c = 42" p1] by (simp add: q_def)
        then have "\<not> glob_matches nocase us' []" using glob_empty [OF us'(1), of nocase] False hd_in_set by blast
        from star_loop_ok [OF _ this, of q s] less.hyps [OF len us'(1)] unf False us(2) us'(2) show ?thesis by simp
      qed
    next
      case any
      then obtain us where us: "parse_glob p1 = Some us" "ts = AnyChar # us" using less.prems(1) Cons by auto
      show ?thesis
        using rest [OF us(1)] Cons any us(2) s by (simp add: match_any)
    next
      case bracket
      define neg where "neg = (p1 \<noteq> [] \<and> hd p1 = 94)"
      define p2 where "p2 = (if neg then tl p1 else p1)"
      obtain items q us where q: "parse_class p2 = Some (items, q)" "parse_glob q = Some us" "ts = Class neg items # us"
        using less.prems(1) Cons bracket parse_class.simps [of "[]"]
        by (cases p1) (auto simp: p2_def neg_def parse_item_def split: option.splits if_splits)
      have len: "length q < length p" using parse_class_shorter [OF q(1)] Cons by (auto simp: p2_def split: if_splits)
      obtain d m where m: "p1 @ [0] = d # m" by (cases "p1 @ [0]") auto
      have "if neg then d = 94 \<and> p2 @ [0] = m \<and> int (length p2) = int (length p) - 2
          else d \<noteq> 94 \<and> p2 @ [0] = d # m \<and> int (length p2) = int (length p) - 1"
        using Cons m by (cases p1) (auto simp: p2_def neg_def)
      from match_class [OF _ class_loop_ok [OF q(1), of nocase x "s' @ [0]" False] this, of "int (length s)"]
      have "stringmatchlen nocase (p @ [0]) (int (length p)) (s @ [0]) (int (length s)) =
          (if (\<exists>i \<in> set items. item_matches nocase i x) \<noteq> neg
           then behind nocase (q @ [0]) (int (length q)) (s' @ [0]) (int (length s')) else Some False)"
        using Cons bracket s m by simp
      then show ?thesis using rest [OF q(2) len] q(3) s by simp
    next
      case (escape d q)
      then obtain us where us: "parse_glob q = Some us" "ts = Literal d # us" using less.prems(1) Cons by auto
      show ?thesis
        using rest [OF us(1)] Cons escape us(2) s by (simp add: match_escape)
    next
      case literal
      then obtain us where us: "parse_glob p1 = Some us" "ts = Literal c # us"
        using less.prems(1) Cons by (cases "c = 92") auto
      show ?thesis
        using rest [OF us(1)] Cons literal us(2) s by (auto simp: match_literal)
    qed
  qed
qed

text \<open>On an empty text the first character of the pattern is compared with the terminator.\<close>

definition starts_plain :: "bytes \<Rightarrow> bool" where
  "starts_plain p = (case p of [] \<Rightarrow> True | c # q \<Rightarrow> c \<noteq> 91 \<and> c \<noteq> 0 \<and> (c = 92 \<longrightarrow> q = [] \<or> hd q \<noteq> 0))"

lemma same_char_zero: "same_char nocase c 0 \<longleftrightarrow> c = 0"
proof -
  have "sint c = 0 \<longleftrightarrow> c = 0" using signed_eq_0_iff by blast
  then show ?thesis by (auto simp: same_char_def c_tolower_def schar_def)
qed

lemma stringmatchlen_empty:
  assumes "parse_glob p = Some ts" "starts_plain p"
  shows "stringmatchlen nocase (p @ [0]) (int (length p)) [0] 0 = Some (glob_matches nocase ts [])"
proof (cases p)
  case Nil
  then show ?thesis using assms by (subst stringmatchlen.simps) simp
next
  case (Cons c p1)
  note plain = assms(2) [unfolded Cons starts_plain_def list.case]
  show ?thesis
  proof (cases "c = 42")
    case True
    define q where "q = dropWhile (\<lambda>c. c = 42) p1"
    have "q = [] \<longleftrightarrow> (\<forall>c \<in> set p. c = 42)" using True Cons by (simp add: q_def dropWhile_eq_Nil_conv)
    moreover have "stringmatchlen nocase (p @ [0]) (int (length p)) [0] 0 =
        (if int (length q) = 0 then Some True else star_loop nocase (42 # q @ [0]) (1 + int (length q)) [0] 0)"
      using Cons True next_stars_ok [of p1] by (subst stringmatchlen.simps) (simp add: q_def [symmetric])
    ultimately show ?thesis
      using glob_empty [OF assms(1), of nocase] by (simp add: star_loop.simps)
  next
    case False
    have "\<not> glob_matches nocase ts []" using glob_empty [OF assms(1), of nocase] Cons False by simp
    moreover have "stringmatchlen nocase (p @ [0]) (int (length p)) [0] 0 = Some False"
      using Cons False plain by (subst stringmatchlen.simps) (cases p1; auto simp: same_char_zero)
    ultimately show ?thesis by simp
  qed
qed

text \<open>C21: the pattern matcher computes the meaning of the pattern and ends, for every pattern and
  text, zero bytes included, with stars, single characters, classes with ranges, escapes and
  negation, with and without regard to case, unless the pattern ends inside a class with a
  backslash, or the text is empty and the pattern begins with a class or a zero byte. In these
  cases the answer is the matcher's alone.\<close>

theorem stringmatchlen_glob:
  assumes "parse_glob p = Some ts" "s = [] \<longrightarrow> starts_plain p"
  shows "stringmatchlen nocase (p @ [0]) (int (length p)) (s @ [0]) (int (length s)) = Some (glob_matches nocase ts s)"
  using stringmatchlen_ok [OF assms(1), of s nocase] stringmatchlen_empty [OF assms(1), of nocase] assms(2)
  by (cases "s = []") simp_all

text \<open>The pattern \<open>h[^e-g]*o\<close> and the texts \<open>hallo\<close> and \<open>hello\<close>.\<close>

theorem stringmatchlen_glob_witness:
  "stringmatchlen False ([104, 91, 94, 101, 45, 103, 93, 42, 111] @ [0]) 9 ([104, 97, 108, 108, 111] @ [0]) 5 = Some True \<and>
   stringmatchlen False ([104, 91, 94, 101, 45, 103, 93, 42, 111] @ [0]) 9 ([104, 101, 108, 108, 111] @ [0]) 5 = Some False"
proof -
  let ?p = "[104, 91, 94, 101, 45, 103, 93, 42, 111] :: bytes"
  let ?ts = "[Literal 104, Class True [ItemRange 101 103], AnyText, Literal 111]"
  have p: "parse_glob ?p = Some ?ts" by (simp add: parse_class.simps parse_item_def)
  have "glob_matches False [AnyText, Literal 111] [108, 108, 111]"
    by (simp add: any_text_simps same_char_def del: glob_matches.simps(2))
  then have "glob_matches False ?ts [104, 97, 108, 108, 111]" "\<not> glob_matches False ?ts [104, 101, 108, 108, 111]"
    by (simp_all add: same_char_def in_range_def schar_def del: glob_matches.simps(2))
  then show ?thesis
    using stringmatchlen_glob [OF p, of "[104, 97, 108, 108, 111]" False]
      stringmatchlen_glob [OF p, of "[104, 101, 108, 108, 111]" False] by simp
qed

section \<open>Divergences\<close>

text \<open>A negated class matches the terminator of an empty text: \<open>[^a]*\<close> matches the empty text.\<close>

theorem negated_class_matches_nothing:
  "stringmatchlen False ([91, 94, 97, 93, 42] @ [0]) 5 [0] 0 = Some True"
  "parse_glob [91, 94, 97, 93, 42] = Some [Class True [ItemChar 97], AnyText]"
  "\<not> glob_matches False [Class True [ItemChar 97], AnyText] []"
  by (simp_all add: stringmatchlen.simps class_loop.simps class_step_def rd_def same_char_def parse_class.simps parse_item_def)

text \<open>Behind it the matcher reads beyond the text: \<open>[^a]b\<close> and the empty text.\<close>

theorem class_reads_beyond_text: "stringmatchlen False ([91, 94, 97, 93, 98] @ [0]) 5 [0] 0 = None"
  by (simp add: stringmatchlen.simps class_loop.simps class_step_def rd_def same_char_def)

text \<open>A backslash at the end of an unclosed class leads beyond the pattern.\<close>

theorem class_reads_beyond_pattern: "stringmatchlen False ([91, 92] @ [0]) 2 [97, 0] 1 = None"
  by (simp add: stringmatchlen.simps class_loop.simps class_step_def rd_def)

section \<open>Amounts of memory\<close>

lemma skip_digits_ok:
  assumes "\<forall>d \<in> set ds. 48 \<le> d \<and> d \<le> 57" "\<not> (48 \<le> c \<and> c \<le> 57)"
  shows "skip_digits (ds @ c # r) = Some (c # r)"
  using assms by (induction ds) auto

text \<open>An amount of memory is the number times its unit, for every 64-bit number in decimal and
  every unit, reduced to 64 bits; no error is reported.\<close>

theorem memtoll_units:
  assumes "is_long v" "(name, mul) \<in> set (([], 1) # memory_units)"
  shows "memtoll (dec_text v @ name @ 0 # rest) = Some (signed_take_bit 63 (v * mul), False)"
proof -
  obtain ds where ds: "dec_text v = (if v < 0 then 45 # ds else ds)" "ds \<noteq> []" "length ds \<le> 19"
    "\<forall>d \<in> set ds. 48 \<le> d \<and> d \<le> 57"
    by (rule dec_textE [OF assms(1)])
  obtain c r where c: "name @ 0 # rest = c # r" "\<not> (48 \<le> c \<and> c \<le> 57)" "c = 0 \<longrightarrow> mul = 1"
    "c \<noteq> 0 \<longrightarrow> find_unit memory_units (c # r) = Some (Some mul)"
    using assms(2) by (auto simp: memory_units_def same_char_def schar_def c_tolower_def)
  let ?p = "dec_text v @ c # r"
  obtain d ds' where d: "ds = d # ds'" "d \<noteq> 45" using ds(2,4) digit_no_blank by (cases ds) auto
  have first: "rd ?p 0 = Some (hd ?p)" using ds(1) d by (simp add: rd_def)
  have skip: "skip_digits (if hd ?p = 45 then tl ?p else ?p) = Some (c # r)"
    using ds(1) d skip_digits_ok [OF ds(4) c(2)] by auto
  have len: "length ?p - length (c # r) = length (dec_text v)" "length (dec_text v) < 128"
    using ds(1,3) by simp_all
  have num: "strtoll10 (take (length (dec_text v)) ?p @ [0]) = Some (v, [0])"
    using strtoll10_dec_text [OF assms(1) zero_no_digit, of "[]"] by simp
  have "memtoll ?p = Some (signed_take_bit 63 (v * mul), False)"
    unfolding memtoll_def first bind.bind_lunit skip len(1)
    using c(3,4) len(2) num by (simp add: rd_def)
  then show ?thesis using c(1) by simp
qed

text \<open>\<open>-12kb\<close>\<close>

theorem memtoll_units_witness: "memtoll (dec_text (- 12) @ [107, 98, 0]) = Some (- 12288, False)"
  using memtoll_units [of "- 12" "[107, 98]" 1024 "[]"]
  by (simp add: is_long_def memory_units_def signed_take_bit_int_eq_self)

text \<open>The comment of \<open>memtoll\<close> gives \<open>1Gi\<close> as an example for 1073741824; the code does not know the unit.\<close>

theorem memtoll_comment_example: "memtoll ([49, 71, 105] @ [0]) = Some (1, True)"
  by (simp add: memtoll_def memory_units_def same_char_def schar_def c_tolower_def rd_def strtoll10_def u8_isspace_def saturate64_def)

end
