(* ===== verification/Object_Dict.thy ===== *)
theory Object_Dict
  imports Redis_Object Dict
begin

text \<open>
  Hash tables with string objects as keys (\<open>apps/redis-2.0.4/redis.c\<close>, lines 1101-1172 and
  1279-1286). The hash and the comparison look at the decoded text only, so an object is found
  however it is encoded. The table shrinks when it is almost empty.
\<close>

section \<open>Hash and comparison\<close>

definition sdsDictKeyCompare :: "bytes \<Rightarrow> bytes \<Rightarrow> bool" where
  "sdsDictKeyCompare key1 key2 = (length key1 = length key2 \<and> c_memcmp key1 key2 = 0)"

definition dictObjHash :: "bytes \<Rightarrow> u32" where
  "dictObjHash key = dictGenHashFunction key"

definition dictEncObjKeyCompare :: "sobj \<Rightarrow> sobj \<Rightarrow> bool option" where
  "dictEncObjKeyCompare o1 o2 =
     (case (o1, o2) of
        (Enc v, Enc w) \<Rightarrow> Some (v = w)
      | _ \<Rightarrow> do { t1 \<leftarrow> getDecodedObject o1; t2 \<leftarrow> getDecodedObject o2; Some (sdsDictKeyCompare t1 t2) })"

definition dictEncObjHash :: "sobj \<Rightarrow> u32 option" where
  "dictEncObjHash ob =
     (case ob of
        Raw s \<Rightarrow> Some (dictGenHashFunction s)
      | Enc v \<Rightarrow> map_option dictGenHashFunction (ll2string 32 v))"

lemma sdsDictKeyCompare_eq: "sdsDictKeyCompare a b \<longleftrightarrow> a = b"
  using c_memcmp_eq by (auto simp: sdsDictKeyCompare_def)

lemma dictEncObjKeyCompare_text:
  "sobj_ok a \<Longrightarrow> sobj_ok b \<Longrightarrow> dictEncObjKeyCompare a b = Some (text_of a = text_of b)"
  using dec_text_inject
  by (cases a; cases b) (auto simp: dictEncObjKeyCompare_def getDecodedObject_def sdsDictKeyCompare_eq)

lemma dictEncObjHash_text: "sobj_ok ob \<Longrightarrow> dictEncObjHash ob = Some (dictObjHash (text_of ob))"
  by (cases ob) (auto simp: dictEncObjHash_def dictObjHash_def)

section \<open>Shrinking\<close>

definition REDIS_HT_MINFILL :: nat where "REDIS_HT_MINFILL = 10"

definition htNeedsResize :: "('k, 'v) dict \<Rightarrow> bool" where
  "htNeedsResize d =
     (let size = dictSlots d; used = dictSize d in
      size \<noteq> 0 \<and> used \<noteq> 0 \<and> size > DICT_HT_INITIAL_SIZE \<and> used * 100 div size < REDIS_HT_MINFILL)"

lemma dictResize_rep:
  assumes "dict_rep d m" "dictSize d < 2 ^ 29"
  shows "dict_rep (snd (dictResize cr d)) m"
proof (cases "\<not> cr \<or> dictIsRehashing d")
  case False
  note rep = dict_repD [OF assms(1)]
  have u: "used (ht0 d) < 2 ^ 29" using assms(2) by (simp add: dictSize_def)
  then have m: "signed_take_bit 31 (int (used (ht0 d))) = int (used (ht0 d))"
    by (intro signed_take_bit_int_eq_self) auto
  define n where "n = max (used (ht0 d)) DICT_HT_INITIAL_SIZE"
  have "dictResize cr d = dictExpand d n"
    using False m by (auto simp: dictResize_def Let_def n_def DICT_HT_INITIAL_SIZE_def max_def)
  moreover have "used (ht0 d) \<le> n" "n \<le> 2 ^ 30" using u by (auto simp: n_def DICT_HT_INITIAL_SIZE_def)
  ultimately show ?thesis
    using dictExpand_ok [OF rep(1), of n] False rep(2,3) by (auto simp: dict_rep_def same_content_def)
qed (use assms in \<open>auto simp: dictResize_def\<close>)

end
