(* ===== verification/Set_Object.thy ===== *)
theory Set_Object
  imports Object_Dict
begin

text \<open>
  Sets and the commands on one of them (\<open>apps/redis-2.0.4/redis.c\<close>, lines 1175-1182, 2989-2992 and
  5097-5234): a hash table of elements without values, keyed by the text of the element, the only
  thing its hash and comparison look at (theory \<open>Object_Dict\<close>). A command is a function of the value
  its key holds, as in theory \<open>Sorted_Set\<close>: it returns the reply, the new value, and how much
  \<open>server.dirty\<close> grows. \<open>None\<close> is an access outside a table, or a choice of a random element that
  needs more random numbers than there are.
\<close>

type_synonym setobj = "(bytes, unit) dict"

definition setDictType :: "(bytes, unit) dictType" where
  "setDictType = \<lparr>hashFunction = dictObjHash, keyDup = None, valDup = None, keyCompare = Some sdsDictKeyCompare,
     keyDestructor = True, valDestructor = False\<rparr>"

definition createSetObject :: setobj where
  "createSetObject = dictCreate setDictType"

datatype svalue = SetVal setobj | OtherSet

datatype sreply = SZero | SOne | SNull | SWrongType | SInt int | SBulk bytes

type_synonym sresult = "(sreply \<times> svalue option \<times> int) option"

definition saddCommand :: "bool \<Rightarrow> bytes \<Rightarrow> svalue option \<Rightarrow> sresult" where
  "saddCommand cr elem v =
     (case v of
        Some OtherSet \<Rightarrow> Some (SWrongType, v, 0)
      | _ \<Rightarrow> do {
          let s = (case v of Some (SetVal s) \<Rightarrow> s | _ \<Rightarrow> createSetObject);
          (r, s') \<leftarrow> dictAdd cr s elem ();
          Some (if r = DICT_OK then SOne else SZero, Some (SetVal s'), if r = DICT_OK then 1 else 0) })"

text \<open>A set that has become empty is deleted with its key.\<close>

definition shrink_set :: "bool \<Rightarrow> setobj \<Rightarrow> svalue option" where
  "shrink_set cr s =
     (let s' = (if htNeedsResize s then snd (dictResize cr s) else s)
      in if dictSize s' = 0 then None else Some (SetVal s'))"

definition sremCommand :: "bool \<Rightarrow> bytes \<Rightarrow> svalue option \<Rightarrow> sresult" where
  "sremCommand cr elem v =
     (case v of
        None \<Rightarrow> Some (SZero, None, 0)
      | Some OtherSet \<Rightarrow> Some (SWrongType, v, 0)
      | Some (SetVal s) \<Rightarrow> do {
          (r, s') \<leftarrow> dictDelete s elem;
          Some (if r = DICT_OK then (SOne, shrink_set cr s', 1) else (SZero, Some (SetVal s'), 0)) })"

definition sismemberCommand :: "bytes \<Rightarrow> svalue option \<Rightarrow> sresult" where
  "sismemberCommand elem v =
     (case v of
        None \<Rightarrow> Some (SZero, None, 0)
      | Some OtherSet \<Rightarrow> Some (SWrongType, v, 0)
      | Some (SetVal s) \<Rightarrow> do {
          (de, s') \<leftarrow> dictFind s elem;
          Some (if de \<noteq> None then SOne else SZero, Some (SetVal s'), 0) })"

definition scardCommand :: "svalue option \<Rightarrow> sresult" where
  "scardCommand v =
     (case v of
        None \<Rightarrow> Some (SZero, None, 0)
      | Some OtherSet \<Rightarrow> Some (SWrongType, v, 0)
      | Some (SetVal s) \<Rightarrow> Some (SInt (int (dictSize s)), v, 0))"

definition spopCommand :: "bool \<Rightarrow> nat list \<Rightarrow> svalue option \<Rightarrow> sresult" where
  "spopCommand cr rs v =
     (case v of
        None \<Rightarrow> Some (SNull, None, 0)
      | Some OtherSet \<Rightarrow> Some (SWrongType, v, 0)
      | Some (SetVal s) \<Rightarrow> do {
          (de, s1) \<leftarrow> dictGetRandomKey s rs;
          case de of
            None \<Rightarrow> Some (SNull, Some (SetVal s1), 0)
          | Some (ele, _) \<Rightarrow> do {
              (_, s2) \<leftarrow> dictDelete s1 ele;
              Some (SBulk ele, shrink_set cr s2, 1) } })"

definition srandmemberCommand :: "nat list \<Rightarrow> svalue option \<Rightarrow> sresult" where
  "srandmemberCommand rs v =
     (case v of
        None \<Rightarrow> Some (SNull, None, 0)
      | Some OtherSet \<Rightarrow> Some (SWrongType, v, 0)
      | Some (SetVal s) \<Rightarrow> do {
          (de, s1) \<leftarrow> dictGetRandomKey s rs;
          Some (case de of None \<Rightarrow> SNull | Some (ele, _) \<Rightarrow> SBulk ele, Some (SetVal s1), 0) })"

datatype setcmd = SAdd bytes | SRem bytes | SIsMember bytes | SCard | SPop "nat list" | SRandMember "nat list"

fun setexec :: "bool \<Rightarrow> setcmd \<Rightarrow> svalue option \<Rightarrow> sresult" where
  "setexec cr (SAdd elem) = saddCommand cr elem"
| "setexec cr (SRem elem) = sremCommand cr elem"
| "setexec cr (SIsMember elem) = sismemberCommand elem"
| "setexec cr SCard = scardCommand"
| "setexec cr (SPop rs) = spopCommand cr rs"
| "setexec cr (SRandMember rs) = srandmemberCommand rs"

end
