(* ===== verification/Dict_Random.thy ===== *)
theory Dict_Random
  imports Object_Dict
begin

text \<open>
  The background work on a dictionary: rehashing for a while, and picking an entry at random. The
  clock readings and the random numbers are arguments, so that each statement is about every choice
  of them.
\<close>

section \<open>Rehashing for a while\<close>

lemma dictRehash_rep:
  assumes "dict_rep d m"
  obtains r d' where "dictRehash d n = Some (r, d')" "dict_rep d' m"
proof (cases "dictIsRehashing d")
  case False
  then show ?thesis using that [of 0 d] assms by (simp add: dictRehash_def)
next
  case True
  note rep = dict_repD [OF assms]
  from rehash_loop_ok [OF rep(1) True, of n] obtain r d' where
    "rehash_loop n d = Some (r, d')" "dict_wf d'" "entries d' = entries d" by blast
  then show ?thesis using that [of r d'] True rep(2,3) by (simp add: dictRehash_def dict_rep_def)
qed

lemma rehash_ms_loop_rep:
  assumes "dict_rep d m"
  shows "\<exists>r d'. rehash_ms_loop d start ms clock n = Some (r, d') \<and> dict_rep d' m"
  using assms
proof (induction d start ms clock n rule: rehash_ms_loop.induct)
  case (1 d start ms clock n)
  obtain r d' where r: "dictRehash d 100 = Some (r, d')" "dict_rep d' m" by (rule dictRehash_rep [OF 1(2)])
  show ?case
  proof (cases clock)
    case Nil
    then show ?thesis using r by simp
  next
    case (Cons now clock')
    then show ?thesis using r 1(1) [OF r(1) refl _ Cons _ r(2)] by simp
  qed
qed

lemma dictRehashMilliseconds_rep:
  assumes "dict_rep d m"
  obtains r d' where "dictRehashMilliseconds d ms start clock = Some (r, d')" "dict_rep d' m"
  using rehash_ms_loop_rep [OF assms, where start = start and ms = ms and clock = clock and n = 0] that unfolding dictRehashMilliseconds_def by blast

section \<open>A random entry\<close>

text \<open>The bucket a random number selects.\<close>

lemma slot_of:
  assumes "dict_wf d" "size_of (ht0 d) \<noteq> 0"
  shows "\<exists>b i. (if dictIsRehashing d
            then let h = (r mod dictSlots d) mod 2 ^ 32 in
                 (if h \<ge> size_of (ht0 d) then bucket (ht1 d) (h - size_of (ht0 d)) else bucket (ht0 d) h)
            else bucket (ht0 d) ((r AND sizemask (ht0 d)) mod 2 ^ 32)) = Some (table (table_of d b) ! i)
      \<and> i < length (table (table_of d b))"
proof -
  note wf = dict_wfD [OF assms(1)]
  have len: "length (table (ht0 d)) = size_of (ht0 d)" "length (table (ht1 d)) = size_of (ht1 d)"
    using wf(2,3) by (simp_all add: ht_wf_def)
  show ?thesis
  proof (cases "dictIsRehashing d")
    case False
    have "r AND sizemask (ht0 d) < size_of (ht0 d)" "size_of (ht0 d) \<le> 2 ^ 31"
      using and_sizemask [OF wf(2) assms(2)] by simp_all
    then show ?thesis using False len
      by (intro exI [of _ False] exI [of _ "r AND sizemask (ht0 d)"]) (simp add: bucket_def table_of_def)
  next
    case True
    then have s1: "size_of (ht1 d) \<noteq> 0" using wf(4) by (auto simp: rehash_wf_def dictIsRehashing_def)
    let ?h = "r mod dictSlots d"
    have "dictSlots d \<le> 2 ^ 32"
      using and_sizemask(2) [OF wf(2) assms(2)] and_sizemask(2) [OF wf(3) s1] by (simp add: dictSlots_def)
    moreover have h: "?h < dictSlots d" using assms(2) by (simp add: dictSlots_def)
    ultimately have m: "?h mod 2 ^ 32 = ?h" by simp
    show ?thesis
    proof (cases "?h \<ge> size_of (ht0 d)")
      case ge: True
      have "?h - size_of (ht0 d) < size_of (ht1 d)" using h ge by (simp add: dictSlots_def)
      then show ?thesis using True ge m len
        by (intro exI [of _ True] exI [of _ "?h - size_of (ht0 d)"]) (simp add: bucket_def table_of_def Let_def)
    next
      case lt: False
      then show ?thesis using True m len
        by (intro exI [of _ False] exI [of _ "?h"]) (simp add: bucket_def table_of_def Let_def)
    qed
  qed
qed

lemma slot_entries: "i < length (table (table_of d b)) \<Longrightarrow> set (table (table_of d b) ! i) \<subseteq> set_mset (entries d)"
  by (auto simp: entries_def table_of_def split: if_splits dest: nth_mem)

lemma random_bucket_ok:
  assumes "dict_wf d" "size_of (ht0 d) \<noteq> 0" "random_bucket d rs = Some (he, rs')"
  shows "he \<noteq> [] \<and> set he \<subseteq> set_mset (entries d)"
  using assms(3)
proof (induction rs)
  case (Cons r rs)
  from slot_of [OF assms(1,2), of r] obtain b i where s:
    "(if dictIsRehashing d
            then let h = (r mod dictSlots d) mod 2 ^ 32 in
                 (if h \<ge> size_of (ht0 d) then bucket (ht1 d) (h - size_of (ht0 d)) else bucket (ht0 d) h)
            else bucket (ht0 d) ((r AND sizemask (ht0 d)) mod 2 ^ 32)) = Some (table (table_of d b) ! i)"
    "i < length (table (table_of d b))" by blast
  have r: "random_bucket d (r # rs) = (case table (table_of d b) ! i of [] \<Rightarrow> random_bucket d rs | e # es \<Rightarrow> Some (e # es, rs))"
    unfolding random_bucket.simps s(1) by (simp split: list.split)
  show ?case
  proof (cases "table (table_of d b) ! i")
    case Nil
    then show ?thesis using Cons r by simp
  next
    case (Cons e es)
    then have "he = table (table_of d b) ! i" "he \<noteq> []" using Cons.prems r by simp_all
    then show ?thesis using slot_entries [OF s(2)] by simp
  qed
qed simp

text \<open>Every bucket is the choice of some random number.\<close>

lemma slot_reached:
  assumes "dict_wf d" "size_of (ht0 d) \<noteq> 0" "e \<in># entries d"
  obtains r he where "\<forall>rs. random_bucket d (r # rs) = Some (he, rs)" "e \<in> set he"
proof -
  note wf = dict_wfD [OF assms(1)]
  have len: "length (table (ht0 d)) = size_of (ht0 d)" "length (table (ht1 d)) = size_of (ht1 d)"
    using wf(2,3) by (simp_all add: ht_wf_def)
  have s0: "size_of (ht0 d) \<le> 2 ^ 30" using and_sizemask(2) [OF wf(2) assms(2)] .
  from assms(3) consider i where "i < size_of (ht0 d)" "e \<in> set (table (ht0 d) ! i)"
    | i where "i < size_of (ht1 d)" "e \<in> set (table (ht1 d) ! i)"
    unfolding entries_def using len by (fastforce simp: in_set_conv_nth)
  then show ?thesis
  proof cases
    case (1 i)
    obtain k where k: "size_of (ht0 d) = 2 ^ k" "sizemask (ht0 d) = 2 ^ k - 1"
      using wf(2) assms(2) by (auto simp: ht_wf_def)
    have a: "i AND sizemask (ht0 d) = i"
      using 1(1) unfolding k by (simp only: take_bit_eq_mask [symmetric] mask_eq_exp_minus_1 [symmetric] take_bit_eq_mod mod_less)
    have i: "i mod 2 ^ 32 = i" "i mod dictSlots d = i" using 1(1) s0 by (simp_all add: dictSlots_def)
    have "random_bucket d (i # rs) = Some (table (ht0 d) ! i, rs)" for rs
      using 1 a i len by (cases "table (ht0 d) ! i") (simp_all add: bucket_def Let_def)
    then show ?thesis using that 1(2) by blast
  next
    case (2 i)
    have s1: "size_of (ht1 d) \<noteq> 0" using 2(1) by simp
    have rh: "dictIsRehashing d"
      using wf(4) s1 by (auto simp: rehash_wf_def dictIsRehashing_def split: if_splits)
    let ?r = "size_of (ht0 d) + i"
    have "?r < 2 ^ 32" using s0 and_sizemask(2) [OF wf(3) s1] 2(1) by simp
    then have i: "?r mod 2 ^ 32 = ?r" "?r mod dictSlots d = ?r" using 2(1) by (simp_all add: dictSlots_def)
    have "random_bucket d (?r # rs) = Some (table (ht1 d) ! i, rs)" for rs
      using 2 i rh len by (cases "table (ht1 d) ! i") (simp_all add: bucket_def Let_def)
    then show ?thesis using that 2(2) by blast
  qed
qed

lemma dictGetRandomKey_start:
  assumes "dict_rep d m" "m k = Some v"
  obtains d' where "(if dictIsRehashing d then dictRehashStep d else Some d) = Some d'" "dict_rep d' m"
    "size_of (ht0 d') \<noteq> 0" "dictSize d \<noteq> 0"
proof -
  note rep = dict_repD [OF assms(1)]
  from rehash_first [OF rep(1)] obtain d' where d': "(if dictIsRehashing d then dictRehashStep d else Some d) = Some d'"
    "dict_wf d'" "same_content d d'" "size_of (ht0 d) \<noteq> 0 \<longrightarrow> size_of (ht0 d') \<noteq> 0" by blast
  have sz: "dictSize d \<noteq> 0" using rep(2,5) assms(2) by (auto simp: card_eq_0_iff)
  have "size_of (ht0 d) \<noteq> 0"
  proof
    assume z: "size_of (ht0 d) = 0"
    note wf = dict_wfD [OF rep(1)]
    have "used (ht0 d) = 0" using wf(2) z by (simp add: ht_wf_def)
    moreover have "ht1 d = dictReset" using wf(4) z by (auto simp: rehash_wf_def split: if_splits)
    ultimately show False using sz by (simp add: dictSize_def dictReset_def)
  qed
  then show ?thesis using that d' sz rep(2,3) by (simp add: dict_rep_def same_content_def)
qed

text \<open>What is picked is in the dictionary; nothing is picked from an empty one.\<close>

lemma dictGetRandomKey_rep:
  assumes "dict_rep d m" "dictGetRandomKey d rs = Some (e, d')"
  shows "dict_rep d' m" "case e of None \<Rightarrow> m = (\<lambda>_. None) | Some (k, v) \<Rightarrow> m k = Some v"
proof -
  note rep = dict_repD [OF assms(1)]
  have "dict_rep d' m \<and> (case e of None \<Rightarrow> m = (\<lambda>_. None) | Some (k, v) \<Rightarrow> m k = Some v)"
  proof (cases "dictSize d = 0")
    case True
    then have "m = (\<lambda>_. None)" using rep(2,5) by (simp add: dom_eq_empty_conv [symmetric] del: dom_eq_empty_conv)
    then show ?thesis using True assms by (simp add: dictGetRandomKey_def)
  next
    case False
    then have "dom m \<noteq> {}" using rep(5) by auto
    then obtain k v where "m k = Some v" by blast
    then obtain d1 where d1: "(if dictIsRehashing d then dictRehashStep d else Some d) = Some d1" "dict_rep d1 m"
      "size_of (ht0 d1) \<noteq> 0" using dictGetRandomKey_start [OF assms(1)] by metis
    from assms(2) d1(1) False obtain he r rs' where r: "random_bucket d1 rs = Some (he, r # rs')"
      "e = Some (he ! (r mod length he))" "d' = d1"
      by (auto simp: dictGetRandomKey_def split: option.splits list.splits bind_splits)
    have he: "he \<noteq> []" "set he \<subseteq> set_mset (entries d1)"
      using random_bucket_ok [OF dict_repD(1) [OF d1(2)] d1(3) r(1)] by simp_all
    have "he ! (r mod length he) \<in># entries d1" using he by (auto intro: subsetD [OF he(2)])
    then have "he ! (r mod length he) \<in> Map.graph m"
      using dict_repD(2,3) [OF d1(2)] by (simp add: finite_graph_iff_finite_dom)
    then show ?thesis using r(2,3) d1(2) by (auto simp: graph_def split: option.split prod.split)
  qed
  then show "dict_rep d' m" "case e of None \<Rightarrow> m = (\<lambda>_. None) | Some (k, v) \<Rightarrow> m k = Some v" by blast+
qed

text \<open>Each entry is picked for some choice of the two random numbers, in the middle of a rehashing too.\<close>

lemma dictGetRandomKey_reaches:
  assumes "dict_rep d m" "m k = Some v"
  obtains r j d' where "\<forall>rs. dictGetRandomKey d (r # j # rs) = Some (Some (k, v), d')" "dict_rep d' m"
proof -
  obtain d1 where d1: "(if dictIsRehashing d then dictRehashStep d else Some d) = Some d1" "dict_rep d1 m"
    "size_of (ht0 d1) \<noteq> 0" "dictSize d \<noteq> 0" by (rule dictGetRandomKey_start [OF assms])
  have "(k, v) \<in># entries d1"
    using dict_repD(2,3) [OF d1(2)] in_graphI [of m k v, OF assms(2)] by (simp add: finite_graph_iff_finite_dom)
  then obtain r he where r: "\<forall>rs. random_bucket d1 (r # rs) = Some (he, rs)" "(k, v) \<in> set he"
    by (rule slot_reached [OF dict_repD(1) [OF d1(2)] d1(3)])
  obtain j where j: "j < length he" "he ! j = (k, v)" using r(2) by (auto simp: in_set_conv_nth)
  have "dictGetRandomKey d (r # j # rs) = Some (Some (k, v), d1)" for rs
    unfolding dictGetRandomKey_def d1(1) using d1(4) r(1) j by simp
  then show ?thesis using that d1(2) by blast
qed

text \<open>
  The only way for a pick to fail is that the random numbers run out: with more of them behind the
  given ones it succeeds.
\<close>

lemma random_bucket_extend:
  assumes "dict_wf d" "size_of (ht0 d) \<noteq> 0" "e \<in># entries d"
  shows "\<exists>more he r rs'. random_bucket d (rs @ more) = Some (he, r # rs')"
proof (induction rs)
  case Nil
  obtain r he where "\<forall>rs. random_bucket d (r # rs) = Some (he, rs)" by (rule slot_reached [OF assms])
  then have "random_bucket d ([] @ [r, 0]) = Some (he, 0 # [])" by simp
  then show ?case by blast
next
  case (Cons r rs)
  from slot_of [OF assms(1,2), of r] obtain c where
    c: "\<And>rs. random_bucket d (r # rs) = (case c of [] \<Rightarrow> random_bucket d rs | e # es \<Rightarrow> Some (e # es, rs))"
    by (force split: list.split)
  show ?case
  proof (cases c)
    case Nil
    then show ?thesis using Cons.IH c by simp
  next
    case (Cons e es)
    then have "random_bucket d ((r # rs) @ [0]) = Some (e # es, hd (rs @ [0]) # tl (rs @ [0]))" using c by simp
    then show ?thesis by blast
  qed
qed

lemma dictGetRandomKey_extend:
  assumes "dict_rep d m"
  shows "\<exists>more e d'. dictGetRandomKey d (rs @ more) = Some (e, d')"
proof (cases "dictSize d = 0")
  case True
  then show ?thesis by (simp add: dictGetRandomKey_def)
next
  case False
  then have "dom m \<noteq> {}" using dict_repD(5) [OF assms] by auto
  then obtain k v where kv: "m k = Some v" by blast
  obtain d1 where d1: "(if dictIsRehashing d then dictRehashStep d else Some d) = Some d1" "dict_rep d1 m"
    "size_of (ht0 d1) \<noteq> 0" by (rule dictGetRandomKey_start [OF assms kv])
  have "(k, v) \<in># entries d1"
    using dict_repD(2,3) [OF d1(2)] in_graphI [of m k v, OF kv] by (simp add: finite_graph_iff_finite_dom)
  from random_bucket_extend [OF dict_repD(1) [OF d1(2)] d1(3) this, of rs] obtain more he r rs' where
    "random_bucket d1 (rs @ more) = Some (he, r # rs')" by blast
  then have "dictGetRandomKey d (rs @ more) = Some (Some (he ! (r mod length he)), d1)"
    unfolding dictGetRandomKey_def d1(1) using False by simp
  then show ?thesis by blast
qed

end
