(* ===== verification/Dict_Iterators.thy ===== *)
theory Dict_Iterators
  imports Dict_Random
begin

text \<open>
  The count of running iterators: no operation on a dictionary but those of an iterator changes it,
  and a dictionary with running iterators is not rehashed by a lookup.
\<close>

lemma move_chain_iterators: "move_chain c d = Some d' \<Longrightarrow> iterators d' = iterators d"
  by (induction c d rule: move_chain.induct) (auto simp: Let_def split: option.splits)

lemma rehash_loop_iterators: "rehash_loop n d = Some (r, d') \<Longrightarrow> iterators d' = iterators d"
proof (induction n d arbitrary: r d' rule: rehash_loop.induct)
  case (2 n d)
  show ?case
  proof (cases "used (ht0 d) = 0")
    case False
    then obtain i d1 where i: "(if rehashidx d < 0 then None else skip_empty (table (ht0 d)) (nat (rehashidx d))) = Some i"
      "move_chain (table (ht0 d) ! i) d = Some d1"
      "rehash_loop n (d1\<lparr>ht0 := set_bucket i [] (ht0 d1), rehashidx := signed_take_bit 31 (int i + 1)\<rparr>) = Some (r, d')"
      using 2(2) by (auto split: bind_splits)
    from 2(1) [OF False i(1,2) i(3)] move_chain_iterators [OF i(2)] show ?thesis by simp
  qed (use 2(2) in auto)
qed simp

lemma rehash_first_iterators:
  "(if dictIsRehashing d then dictRehashStep d else Some d) = Some d' \<Longrightarrow> iterators d' = iterators d"
  by (auto simp: dictRehashStep_def dictRehash_def simp del: rehash_loop.simps split: if_splits dest: rehash_loop_iterators)

lemma rehash_first_paused:
  "iterators d \<noteq> 0 \<Longrightarrow> (if dictIsRehashing d then dictRehashStep d else Some d) = Some d"
  by (simp add: dictRehashStep_def)

lemma dictExpand_iterators: "iterators (snd (dictExpand d n)) = iterators d"
  by (simp add: dictExpand_def Let_def)

lemma dictResize_iterators: "iterators (snd (dictResize cr d)) = iterators d"
  by (simp add: dictResize_def Let_def dictExpand_iterators)

lemma dictKeyIndex_iterators: "dictKeyIndex cr d key = Some (i, d') \<Longrightarrow> iterators d' = iterators d"
  by (auto simp: dictKeyIndex_def dictExpandIfNeeded_def dictExpand_iterators Let_def case_prod_beta split: if_splits bind_splits)

lemma dictAdd_iterators:
  assumes "dictAdd cr d key v = Some (r, d')"
  shows "iterators d' = iterators d"
proof -
  obtain d1 where d1: "(if dictIsRehashing d then dictRehashStep d else Some d) = Some d1"
    using assms by (cases "if dictIsRehashing d then dictRehashStep d else Some d") (simp_all add: dictAdd_def)
  obtain i d2 where d2: "dictKeyIndex cr d1 key = Some (i, d2)"
    using assms unfolding dictAdd_def d1 by (auto split: bind_splits)
  have "iterators d' = iterators d2"
    using assms unfolding dictAdd_def d1 by (auto simp: d2 Let_def split: if_splits bind_splits)
  then show ?thesis using dictKeyIndex_iterators [OF d2] rehash_first_iterators [OF d1] by simp
qed

lemma dictFind_iterators: "dictFind d key = Some (r, d') \<Longrightarrow> iterators d' = iterators d"
  using rehash_first_iterators [of d] by (auto simp: dictFind_def split: bind_splits if_split_asm)

lemma dictFind_paused: "dictFind d key = Some (r, d') \<Longrightarrow> iterators d \<noteq> 0 \<Longrightarrow> d' = d"
  using rehash_first_paused [of d] by (auto simp: dictFind_def split: if_splits bind_splits)

lemma dictDelete_iterators:
  assumes "dictDelete d key = Some (r, d')"
  shows "iterators d' = iterators d"
proof (cases "size_of (ht0 d) = 0")
  case True
  then show ?thesis using assms by (simp add: dictDelete_def dictGenericDelete_def)
next
  case False
  then obtain d1 where d1: "(if dictIsRehashing d then dictRehashStep d else Some d) = Some d1"
    using assms by (cases "if dictIsRehashing d then dictRehashStep d else Some d")
      (simp_all add: dictDelete_def dictGenericDelete_def)
  have "iterators d' = iterators d1"
    using assms False unfolding dictDelete_def dictGenericDelete_def d1
    by (auto simp: unlink_def dictFreeEntryVal_def dictFreeEntryKey_def Let_def split: if_splits bind_splits option.splits prod.splits)
  then show ?thesis using rehash_first_iterators [OF d1] by simp
qed

lemma dictGetRandomKey_iterators: "dictGetRandomKey d rs = Some (e, d') \<Longrightarrow> iterators d' = iterators d"
  using rehash_first_iterators [of d]
  by (auto simp: dictGetRandomKey_def split: if_splits bind_splits list.splits)

end
