(* ===== verification/Set_Spec.thy ===== *)
theory Set_Spec
  imports Set_Object Dict_Iterators
begin

text \<open>
  Sets against their specification: a hash table with an entry for every element represents the set of
  the elements. The count of running iterators is never negative.
\<close>

section \<open>Representation\<close>

definition unit_map :: "bytes set \<Rightarrow> bytes \<Rightarrow> unit option" where
  "unit_map S k = (if k \<in> S then Some () else None)"

definition set_rep :: "setobj \<Rightarrow> bytes set \<Rightarrow> bool" where
  "set_rep s S \<longleftrightarrow> dict_rep s (unit_map S) \<and> 0 \<le> iterators s"

lemma unit_map_simps [simp]:
  "dom (unit_map S) = S" "(unit_map S)(k \<mapsto> ()) = unit_map (insert k S)" "(unit_map S)(k := None) = unit_map (S - {k})"
  "unit_map S k = None \<longleftrightarrow> k \<notin> S" "unit_map S k = Some v \<longleftrightarrow> k \<in> S" "unit_map S = (\<lambda>_. None) \<longleftrightarrow> S = {}"
  by (auto simp: unit_map_def dom_def fun_eq_iff)

lemma set_repD:
  assumes "set_rep s S"
  shows "dict_rep s (unit_map S)" "finite S" "dictSize s = card S" "0 \<le> iterators s"
  using assms dict_repD(2,5) by (fastforce simp: set_rep_def)+

lemma createSetObject_rep: "set_rep createSetObject {}"
proof -
  have "plain_type setDictType" by (simp add: plain_type_def setDictType_def sdsDictKeyCompare_eq)
  then have "dict_rep createSetObject (\<lambda>_. None)" by (simp add: createSetObject_def dictCreate_rep)
  then have "dict_rep createSetObject (unit_map {})" unfolding unit_map_simps(6) [THEN iffD2, OF refl] .
  then show ?thesis by (simp add: set_rep_def createSetObject_def dictCreate_def dictInit_def)
qed

lemma set_add:
  assumes "set_rep s S" "card S < 2 ^ 29"
  obtains s' where "dictAdd cr s k () = Some (if k \<in> S then DICT_ERR else DICT_OK, s')" "set_rep s' (insert k S)"
proof -
  note R = set_repD [OF assms(1)]
  have "dictSize s < 2 ^ 29" using R(3) assms(2) by simp
  from dictAdd_rep [OF R(1) this, of cr k "()"] obtain s' where
    "dictAdd cr s k () = Some (if unit_map S k = None then DICT_OK else DICT_ERR, s')"
    "dict_rep s' (if unit_map S k = None then (unit_map S)(k \<mapsto> ()) else unit_map S)" by blast
  then show ?thesis
    using that [of s'] dictAdd_iterators [of cr s k "()"] R(4) by (cases "k \<in> S") (simp_all add: set_rep_def insert_absorb)
qed

lemma set_delete:
  assumes "set_rep s S"
  obtains s' where "dictDelete s k = Some (if k \<in> S then DICT_OK else DICT_ERR, s')" "set_rep s' (S - {k})"
proof -
  note R = set_repD [OF assms(1)]
  from dictGenericDelete_rep [OF R(1), of k False] obtain s' where
    "dictDelete s k = Some (if unit_map S k = None then DICT_ERR else DICT_OK, s')" "dict_rep s' ((unit_map S)(k := None))"
    by (auto simp: dictDelete_def)
  then show ?thesis using that [of s'] dictDelete_iterators [of s k] R(4) by (auto simp: set_rep_def split: if_splits)
qed

lemma set_find:
  assumes "set_rep s S"
  obtains r s' where "dictFind s k = Some (r, s')" "r = None \<longleftrightarrow> k \<notin> S" "set_rep s' S"
proof -
  note R = set_repD [OF assms(1)]
  from dictFind_rep [OF R(1), of k] obtain r s' where f: "dictFind s k = Some (r, s')" "dict_rep s' (unit_map S)"
    "case unit_map S k of None \<Rightarrow> r = None | Some v \<Rightarrow> \<exists>p. r = Some p \<and> pos_ok s' p k v" by blast
  have "r = None \<longleftrightarrow> k \<notin> S" using f(3) by (cases "k \<in> S") (auto simp: unit_map_def)
  then show ?thesis using that f(1,2) dictFind_iterators [OF f(1)] R(4) by (simp add: set_rep_def)
qed

lemma set_random:
  assumes "set_rep s S" "dictGetRandomKey s rs = Some (e, s')"
  shows "set_rep s' S" "case e of None \<Rightarrow> S = {} | Some (k, _) \<Rightarrow> k \<in> S"
  using dictGetRandomKey_rep [OF set_repD(1) [OF assms(1)] assms(2)] dictGetRandomKey_iterators [OF assms(2)] set_repD(4) [OF assms(1)]
  by (simp_all add: set_rep_def split: option.splits prod.splits)

definition svalue_ok :: "svalue option \<Rightarrow> bytes set \<Rightarrow> bool" where
  "svalue_ok v S \<longleftrightarrow> (case v of None \<Rightarrow> S = {} | Some OtherSet \<Rightarrow> False | Some (SetVal s) \<Rightarrow> S \<noteq> {} \<and> set_rep s S)"

lemma svalue_simps [simp]:
  "svalue_ok None S \<longleftrightarrow> S = {}" "\<not> svalue_ok (Some OtherSet) S" "svalue_ok (Some (SetVal s)) S \<longleftrightarrow> S \<noteq> {} \<and> set_rep s S"
  by (simp_all add: svalue_ok_def)

lemma svalue_cases [consumes 1]:
  assumes "svalue_ok v S"
  obtains "v = None" "S = {}" | s where "v = Some (SetVal s)" "S \<noteq> {}" "set_rep s S"
  using assms by (cases v) (auto simp: svalue_ok_def split: svalue.splits)

lemma shrink_set_ok:
  assumes "set_rep s S" "card S < 2 ^ 29"
  shows "svalue_ok (shrink_set cr s) S"
proof -
  note R = set_repD [OF assms(1)]
  have "set_rep (if htNeedsResize s then snd (dictResize cr s) else s) S"
    using dictResize_rep [OF R(1), of cr] R(3,4) assms dictResize_iterators [of cr s] by (simp add: set_rep_def)
  then show ?thesis using set_repD(2,3) by (fastforce simp: shrink_set_def Let_def)
qed

section \<open>The commands\<close>

text \<open>The reply, the set afterwards and the number of changes.\<close>

fun setspec :: "setcmd \<Rightarrow> bytes set \<Rightarrow> sreply \<Rightarrow> bytes set \<Rightarrow> int \<Rightarrow> bool" where
  "setspec (SAdd e) S r S' n \<longleftrightarrow> S' = insert e S \<and> (if e \<in> S then r = SZero \<and> n = 0 else r = SOne \<and> n = 1)"
| "setspec (SRem e) S r S' n \<longleftrightarrow> S' = S - {e} \<and> (if e \<in> S then r = SOne \<and> n = 1 else r = SZero \<and> n = 0)"
| "setspec (SIsMember e) S r S' n \<longleftrightarrow> S' = S \<and> n = 0 \<and> r = (if e \<in> S then SOne else SZero)"
| "setspec SCard S r S' n \<longleftrightarrow> S' = S \<and> n = 0 \<and> r = (if S = {} then SZero else SInt (int (card S)))"
| "setspec (SPop rs) S r S' n \<longleftrightarrow>
     (if S = {} then r = SNull \<and> S' = {} \<and> n = 0 else \<exists>e \<in> S. r = SBulk e \<and> S' = S - {e} \<and> n = 1)"
| "setspec (SRandMember rs) S r S' n \<longleftrightarrow> S' = S \<and> n = 0 \<and> (if S = {} then r = SNull else \<exists>e \<in> S. r = SBulk e)"

text \<open>The same command with more random numbers behind the given ones.\<close>

fun set_more :: "setcmd \<Rightarrow> setcmd \<Rightarrow> bool" where
  "set_more (SPop rs) (SPop rs') \<longleftrightarrow> take (length rs) rs' = rs"
| "set_more (SRandMember rs) (SRandMember rs') \<longleftrightarrow> take (length rs) rs' = rs"
| "set_more _ _ \<longleftrightarrow> False"

definition setstep_ok :: "bool \<Rightarrow> setcmd \<Rightarrow> svalue option \<Rightarrow> bytes set \<Rightarrow> bool" where
  "setstep_ok cr c v S \<longleftrightarrow> (\<exists>r v' S' n. setexec cr c v = Some (r, v', n) \<and> setspec c S r S' n \<and> svalue_ok v' S')"

lemma setstepI:
  "setexec cr c v = Some (r, v', n) \<Longrightarrow> setspec c S r S' n \<Longrightarrow> svalue_ok v' S' \<Longrightarrow> setstep_ok cr c v S"
  by (auto simp: setstep_ok_def)

lemma sadd_ok:
  assumes "svalue_ok v S" "card S < 2 ^ 29"
  shows "setstep_ok cr (SAdd e) v S"
proof -
  define s where "s = (case v of Some (SetVal s) \<Rightarrow> s | _ \<Rightarrow> createSetObject)"
  have s: "set_rep s S" "v \<noteq> Some OtherSet"
    using assms(1) createSetObject_rep by (auto simp: s_def elim: svalue_cases)
  obtain s' where a: "dictAdd cr s e () = Some (if e \<in> S then DICT_ERR else DICT_OK, s')" "set_rep s' (insert e S)"
    by (rule set_add [OF s(1) assms(2)])
  have u: "saddCommand cr e v = do { (r, s') \<leftarrow> dictAdd cr s e ();
      Some (if r = DICT_OK then SOne else SZero, Some (SetVal s'), if r = DICT_OK then 1 else 0) }"
    using s(2) by (auto simp: saddCommand_def s_def Let_def split: option.split svalue.split)
  show ?thesis
    by (rule setstepI [where r = "if e \<in> S then SZero else SOne" and n = "if e \<in> S then 0 else 1"])
      (use a u in \<open>auto simp: DICT_OK_def DICT_ERR_def\<close>)
qed

lemma srem_ok:
  assumes "svalue_ok v S" "card S < 2 ^ 29"
  shows "setstep_ok cr (SRem e) v S"
  using assms(1)
proof (cases rule: svalue_cases)
  case 1
  then show ?thesis by (intro setstepI [where v' = None]) (auto simp: sremCommand_def)
next
  case (2 s)
  obtain s' where d: "dictDelete s e = Some (if e \<in> S then DICT_OK else DICT_ERR, s')" "set_rep s' (S - {e})"
    by (rule set_delete [OF 2(3)])
  have "card (S - {e}) < 2 ^ 29" using assms(2) card_Diff1_le [of S e] by simp
  note sh = shrink_set_ok [OF d(2) this, of cr]
  show ?thesis
  proof (cases "e \<in> S")
    case True
    then show ?thesis using d(1) 2 sh by (intro setstepI [where v' = "shrink_set cr s'"]) (simp_all add: sremCommand_def)
  next
    case False
    then show ?thesis using d 2
      by (intro setstepI [where v' = "Some (SetVal s')"]) (simp_all add: sremCommand_def DICT_OK_def DICT_ERR_def)
  qed
qed

lemma sismember_ok:
  assumes "svalue_ok v S"
  shows "setstep_ok cr (SIsMember e) v S"
  using assms
proof (cases rule: svalue_cases)
  case 1
  then show ?thesis by (intro setstepI [where v' = None]) (auto simp: sismemberCommand_def)
next
  case (2 s)
  obtain r s' where "dictFind s e = Some (r, s')" "r = None \<longleftrightarrow> e \<notin> S" "set_rep s' S" by (rule set_find [OF 2(3)])
  then show ?thesis using 2 by (intro setstepI [where v' = "Some (SetVal s')"]) (auto simp: sismemberCommand_def simp del: not_None_eq)
qed

lemma scard_ok:
  assumes "svalue_ok v S"
  shows "setstep_ok cr SCard v S"
  using assms
proof (cases rule: svalue_cases)
  case 1
  then show ?thesis by (intro setstepI [where v' = None]) (auto simp: scardCommand_def)
next
  case (2 s)
  then show ?thesis using set_repD(3) [OF 2(3)] by (intro setstepI [where v' = v]) (simp_all add: scardCommand_def)
qed

lemma spop_ok:
  assumes "svalue_ok v S" "card S < 2 ^ 29" "setexec cr (SPop rs) v \<noteq> None"
  shows "setstep_ok cr (SPop rs) v S"
  using assms(1)
proof (cases rule: svalue_cases)
  case 1
  then show ?thesis by (intro setstepI [where v' = None]) (auto simp: spopCommand_def)
next
  case (2 s)
  with assms(3) obtain de s1 where r: "dictGetRandomKey s rs = Some (de, s1)" by (auto simp: spopCommand_def split: bind_splits)
  note R = set_random [OF 2(3) r]
  then obtain e u where e: "de = Some (e, u)" "e \<in> S" using 2(2) by (auto split: option.splits)
  obtain s' where d: "dictDelete s1 e = Some (if e \<in> S then DICT_OK else DICT_ERR, s')" "set_rep s' (S - {e})"
    by (rule set_delete [OF R(1)])
  have "card (S - {e}) < 2 ^ 29" using assms(2) card_Diff1_le [of S e] by simp
  note sh = shrink_set_ok [OF d(2) this, of cr]
  then show ?thesis
    using 2 r e d(1) by (intro setstepI [where v' = "shrink_set cr s'" and r = "SBulk e"]) (auto simp: spopCommand_def)
qed

lemma srandmember_ok:
  assumes "svalue_ok v S" "setexec cr (SRandMember rs) v \<noteq> None"
  shows "setstep_ok cr (SRandMember rs) v S"
  using assms(1)
proof (cases rule: svalue_cases)
  case 1
  then show ?thesis by (intro setstepI [where v' = None]) (auto simp: srandmemberCommand_def)
next
  case (2 s)
  with assms(2) obtain de s1 where r: "dictGetRandomKey s rs = Some (de, s1)" by (auto simp: srandmemberCommand_def split: bind_splits)
  note R = set_random [OF 2(3) r]
  then obtain e u where "de = Some (e, u)" "e \<in> S" using 2(2) by (auto split: option.splits)
  then show ?thesis
    using 2 r R(1) by (intro setstepI [where v' = "Some (SetVal s1)" and r = "SBulk e"]) (auto simp: srandmemberCommand_def)
qed

lemma setexec_ok:
  assumes "svalue_ok v S" "card S < 2 ^ 29" "(\<exists>c'. set_more c c') \<longrightarrow> setexec cr c v \<noteq> None"
  shows "setstep_ok cr c v S"
proof -
  have "(\<exists>c'. set_more c c')" if "(\<exists>rs. c = SPop rs) \<or> (\<exists>rs. c = SRandMember rs)"
    using that by (metis set_more.simps(1,2) take_all_iff order_refl)
  then show ?thesis
    using assms sadd_ok srem_ok sismember_ok scard_ok spop_ok srandmember_ok by (cases c) auto
qed

text \<open>A command that fails returns when it is given more random numbers.\<close>

lemma setexec_extend:
  assumes "svalue_ok v S" "card S < 2 ^ 29" "setexec cr c v = None"
  shows "\<exists>c'. set_more c c' \<and> setexec cr c' v \<noteq> None"
proof -
  have no: "\<not> setstep_ok cr c v S" using assms(3) by (simp add: setstep_ok_def)
  have obj: "\<exists>s. v = Some (SetVal s) \<and> set_rep s S" if "setexec cr c None \<noteq> None"
    using assms(1,3) that by (cases rule: svalue_cases) auto
  have pick: "\<exists>more e s1. dictGetRandomKey s (rs @ more) = Some (e, s1)" if "set_rep s S" for s rs
    by (rule dictGetRandomKey_extend [OF set_repD(1) [OF that]])
  show ?thesis
  proof (cases c)
    case (SPop rs)
    then obtain s where s: "v = Some (SetVal s)" "set_rep s S" using obj by (auto simp: spopCommand_def)
    obtain more e s1 where p: "dictGetRandomKey s (rs @ more) = Some (e, s1)" using pick [OF s(2)] by blast
    have "setexec cr (SPop (rs @ more)) v \<noteq> None"
    proof (cases e)
      case (Some x)
      obtain s2 where "dictDelete s1 (fst x) = Some (if fst x \<in> S then DICT_OK else DICT_ERR, s2)"
        by (rule set_delete [OF set_random(1) [OF s(2) p]])
      then show ?thesis using p s(1) Some by (cases x) (simp add: spopCommand_def)
    qed (use p s(1) in \<open>simp add: spopCommand_def\<close>)
    then show ?thesis using SPop by (intro exI [of _ "SPop (rs @ more)"]) simp
  next
    case (SRandMember rs)
    then obtain s where s: "v = Some (SetVal s)" "set_rep s S" using obj by (auto simp: srandmemberCommand_def)
    obtain more e s1 where "dictGetRandomKey s (rs @ more) = Some (e, s1)" using pick [OF s(2)] by blast
    then have "setexec cr (SRandMember (rs @ more)) v \<noteq> None" using s(1) by (simp add: srandmemberCommand_def)
    then show ?thesis using SRandMember by (intro exI [of _ "SRandMember (rs @ more)"]) simp
  qed (use no sadd_ok [OF assms(1,2)] srem_ok [OF assms(1,2)] sismember_ok [OF assms(1)] scard_ok [OF assms(1)] in blast)+
qed

lemma setspec_card: "setspec c S r S' n \<Longrightarrow> finite S \<Longrightarrow> card S' \<le> card S + 1 \<and> finite S'"
  by (cases c) (auto simp: card_insert_if split: if_splits intro: le_SucI card_Diff1_le)

lemma set_wrong: "setexec cr c (Some OtherSet) = Some (SWrongType, Some OtherSet, 0)"
  by (cases c) (simp_all add: saddCommand_def sremCommand_def sismemberCommand_def scardCommand_def spopCommand_def srandmemberCommand_def)

section \<open>Sequences of commands\<close>

fun run_set :: "bool \<Rightarrow> setcmd list \<Rightarrow> svalue option \<Rightarrow> ((sreply \<times> int) list \<times> svalue option) option" where
  "run_set cr [] v = Some ([], v)"
| "run_set cr (c # cs) v = do {
     (r, v1, n) \<leftarrow> setexec cr c v;
     (rs, v') \<leftarrow> run_set cr cs v1;
     Some ((r, n) # rs, v') }"

inductive set_answers :: "bytes set \<Rightarrow> setcmd list \<Rightarrow> (sreply \<times> int) list \<Rightarrow> bytes set \<Rightarrow> bool" where
  no_command: "set_answers S [] [] S"
| command: "setspec c S r S1 n \<Longrightarrow> set_answers S1 cs rs S' \<Longrightarrow> set_answers S (c # cs) ((r, n) # rs) S'"

inductive_simps set_answers_simps:
  "set_answers S [] rs S'" "set_answers S (c # cs) rs S'"

text \<open>
  A run from a value \<open>v\<close> that holds the set \<open>S\<close>: it answers every command, or it stops at one that chooses
  at random and that returns when it is given more random numbers.
\<close>

definition set_run_ok :: "bool \<Rightarrow> setcmd list \<Rightarrow> svalue option \<Rightarrow> bytes set \<Rightarrow> bool" where
  "set_run_ok cr cs v S \<longleftrightarrow>
     (case run_set cr cs v of
        Some (rs, v') \<Rightarrow> \<exists>S'. set_answers S cs rs S' \<and> svalue_ok v' S'
      | None \<Rightarrow> \<exists>cs1 c cs2 rs v1 S1 c'. cs = cs1 @ c # cs2 \<and>
          run_set cr cs1 v = Some (rs, v1) \<and> set_answers S cs1 rs S1 \<and> svalue_ok v1 S1 \<and>
          setexec cr c v1 = None \<and> set_more c c' \<and> setexec cr c' v1 \<noteq> None)"

lemma run_set_ok:
  assumes "svalue_ok v S" "finite S" "card S + length cs < 2 ^ 29"
  shows "set_run_ok cr cs v S"
  using assms
proof (induction cs arbitrary: v S)
  case Nil
  then show ?case by (auto simp: set_run_ok_def intro: set_answers.no_command)
next
  case (Cons c cs)
  have S: "card S < 2 ^ 29" using Cons.prems(3) by simp
  show ?case
  proof (cases "setexec cr c v")
    case None
    from setexec_extend [OF Cons.prems(1) S None] obtain c' where "set_more c c'" "setexec cr c' v \<noteq> None" by blast
    moreover have "c # cs = [] @ c # cs" "run_set cr [] v = Some ([], v)" "set_answers S [] [] S"
      "run_set cr (c # cs) v = None"
      using None by (simp_all add: set_answers.no_command)
    ultimately show ?thesis using None Cons.prems(1) unfolding set_run_ok_def by (simp only: option.case) blast
  next
    case (Some x)
    then obtain r v1 S1 n where c: "setexec cr c v = Some (r, v1, n)" "setspec c S r S1 n" "svalue_ok v1 S1"
      using setexec_ok [OF Cons.prems(1) S, of c cr] by (auto simp: setstep_ok_def)
    have "finite S1" "card S1 + length cs < 2 ^ 29" using setspec_card [OF c(2)] Cons.prems(2,3) by simp_all
    note IH = Cons.IH [OF c(3) this]
    show ?thesis
    proof (cases "run_set cr cs v1")
      case (Some y)
      then show ?thesis using IH c by (cases y) (auto simp: set_run_ok_def intro: set_answers.command)
    next
      case None
      with IH obtain cs1 c1 cs2 rs v2 S2 c' where st: "cs = cs1 @ c1 # cs2" "run_set cr cs1 v1 = Some (rs, v2)"
        "set_answers S1 cs1 rs S2" "svalue_ok v2 S2" "setexec cr c1 v2 = None" "set_more c1 c'" "setexec cr c' v2 \<noteq> None"
        by (auto simp: set_run_ok_def)
      have "run_set cr (c # cs1) v = Some ((r, n) # rs, v2)" "set_answers S (c # cs1) ((r, n) # rs) S2"
        using c st(2,3) by (auto intro: set_answers.command)
      moreover have "c # cs = (c # cs1) @ c1 # cs2" using st(1) by simp
      moreover have "run_set cr (c # cs) v = None" using None c(1) by simp
      ultimately show ?thesis using st(4-7) unfolding set_run_ok_def by (simp only: option.case) blast
    qed
  qed
qed

text \<open>C26: Any sequence of commands on one set, through the growing, shrinking and rehashing of its table,
  answers as a set does, and what is stored at the end holds that set. A run that does not return has
  stopped at \<open>SPOP\<close> or \<open>SRANDMEMBER\<close> for lack of random numbers: everything before it is answered, and
  with more numbers behind those it was given the same command returns.\<close>

theorem set_runs_as_set:
  assumes "length cs < 2 ^ 29"
  shows "case run_set cr cs None of
      Some (rs, v) \<Rightarrow> \<exists>S. set_answers {} cs rs S \<and> svalue_ok v S
    | None \<Rightarrow> \<exists>cs1 c cs2 rs v S c'. cs = cs1 @ c # cs2 \<and>
        run_set cr cs1 None = Some (rs, v) \<and> set_answers {} cs1 rs S \<and> svalue_ok v S \<and>
        setexec cr c v = None \<and> set_more c c' \<and> setexec cr c' v \<noteq> None"
  using run_set_ok [of None "{}" cs cr] assms by (simp only: set_run_ok_def) simp

text \<open>A set of two elements, one of which is popped, with random numbers that suffice.\<close>

theorem set_runs_as_set_witness:
  "\<exists>rs. run_set True [SAdd [97], SAdd [98], SRem [97], SIsMember [97], SPop rs, SCard] None =
     Some ([(SOne, 1), (SOne, 1), (SOne, 1), (SZero, 0), (SBulk [98], 1), (SZero, 0)], None)"
proof -
  let ?pre = "[SAdd [97], SAdd [98], SRem [97], SIsMember [97]]"
  have "set_run_ok True ?pre None {}" by (rule run_set_ok) simp_all
  moreover have "\<not> set_more c c'" if "?pre = cs1 @ c # cs2" for c c' cs1 cs2
  proof -
    have "c \<in> set ?pre" unfolding that by simp
    then show ?thesis by auto
  qed
  ultimately obtain as v where v: "run_set True ?pre None = Some (as, v)" "\<exists>S. set_answers {} ?pre as S \<and> svalue_ok v S"
    unfolding set_run_ok_def by (auto split: option.splits simp del: run_set.simps) blast
  have "svalue_ok v ({[98], [97]} - {[97]}) \<and> as = [(SOne, 1), (SOne, 1), (SOne, 1), (SZero, 0)]"
    using v(2) by (auto simp: set_answers_simps)
  moreover have "{[98], [97]} - {[97]} = {[98 :: u8]}" by auto
  ultimately have s: "svalue_ok v {[98]}" "as = [(SOne, 1), (SOne, 1), (SOne, 1), (SZero, 0)]" by simp_all
  obtain rs where rs: "setexec True (SPop rs) v \<noteq> None"
  proof (cases "setexec True (SPop []) v")
    case None
    from setexec_extend [OF s(1) _ None] obtain c' where "set_more (SPop []) c'" "setexec True c' v \<noteq> None" by auto
    then show ?thesis using that by (cases c') simp_all
  qed (use that in auto)
  have "setstep_ok True (SPop rs) v {[98]}" by (rule spop_ok [OF s(1) _ rs]) simp
  then obtain v' where p: "setexec True (SPop rs) v = Some (SBulk [98], v', 1)" "svalue_ok v' {}"
    by (auto simp: setstep_ok_def)
  have "v' = None" using p(2) by (auto elim: svalue_cases)
  let ?cs = "?pre @ [SPop rs, SCard]"
  have "run_set True ?cs None \<noteq> None"
    using v(1) p(1) \<open>v' = None\<close> by (auto simp: scardCommand_def split: bind_splits)
  with set_runs_as_set [of ?cs True] obtain qs w where q: "run_set True ?cs None = Some (qs, w)"
    "\<exists>S. set_answers {} ?cs qs S \<and> svalue_ok w S" by (auto split: option.splits simp del: run_set.simps)
  have e: "{[98], [97]} - {[97]} = {[98 :: u8]}" by auto
  have "qs = as @ [(SBulk [98], 1), (SZero, 0)] \<and> svalue_ok w {}"
    using q(2) s(2) by (auto simp: set_answers_simps e)
  then have "qs = as @ [(SBulk [98], 1), (SZero, 0)]" "w = None" by (auto elim: svalue_cases)
  then show ?thesis using q(1) s(2) by (intro exI [of _ rs]) (simp del: run_set.simps)
qed

end
