(* ===== verification/Client.thy ===== *)
theory Client
  imports Redis_Object
begin

text \<open>
  The connection of a client (\<open>apps/redis-2.0.4/redis.c\<close>, lines 307-336, 460-473, 749-857, 2009-2018,
  2262-2475, 2607-2719, 2737-2799, 4258-4266 and 7531-7612): the bytes it sends are cut into commands, in the inline form and in
  the multi bulk form; a complete command is checked against the table and executed, or queued between
  \<open>MULTI\<close> and \<open>EXEC\<close>.

  The array \<open>argv\<close> is a list of slots of its allocated size; a slot is \<open>None\<close> when it is not
  initialised or the object it points to has been released. \<open>None\<close> as a result is an access outside an array
  or to such an object. What the bodies of the commands do is an argument (\<open>command_proc\<close>), as is the
  memory they use. Virtual memory, the append-only file, slaves and monitors are off.
\<close>

section \<open>The table of commands\<close>

definition REDIS_CMD_BULK :: nat where "REDIS_CMD_BULK = 1"
definition REDIS_CMD_INLINE :: nat where "REDIS_CMD_INLINE = 2"
definition REDIS_CMD_DENYOOM :: nat where "REDIS_CMD_DENYOOM = 4"
definition REDIS_CMD_FORCE_REPLICATION :: nat where "REDIS_CMD_FORCE_REPLICATION = 8"

text \<open>A function pointer is the name of the function.\<close>

record redisCommand =
  cname :: string
  proc :: string
  arity :: int
  cflags :: nat

definition entry :: "string \<Rightarrow> string \<Rightarrow> int \<Rightarrow> nat \<Rightarrow> redisCommand" where
  "entry n p a f = \<lparr>cname = n, proc = p, arity = a, cflags = f\<rparr>"

definition cmdTable :: "redisCommand list" where
  "cmdTable = [
     entry ''get'' ''getCommand'' 2 REDIS_CMD_INLINE,
     entry ''set'' ''setCommand'' 3 (REDIS_CMD_BULK OR REDIS_CMD_DENYOOM),
     entry ''setnx'' ''setnxCommand'' 3 (REDIS_CMD_BULK OR REDIS_CMD_DENYOOM),
     entry ''setex'' ''setexCommand'' 4 (REDIS_CMD_BULK OR REDIS_CMD_DENYOOM),
     entry ''append'' ''appendCommand'' 3 (REDIS_CMD_BULK OR REDIS_CMD_DENYOOM),
     entry ''substr'' ''substrCommand'' 4 REDIS_CMD_INLINE,
     entry ''del'' ''delCommand'' (- 2) REDIS_CMD_INLINE,
     entry ''exists'' ''existsCommand'' 2 REDIS_CMD_INLINE,
     entry ''incr'' ''incrCommand'' 2 (REDIS_CMD_INLINE OR REDIS_CMD_DENYOOM),
     entry ''decr'' ''decrCommand'' 2 (REDIS_CMD_INLINE OR REDIS_CMD_DENYOOM),
     entry ''mget'' ''mgetCommand'' (- 2) REDIS_CMD_INLINE,
     entry ''rpush'' ''rpushCommand'' 3 (REDIS_CMD_BULK OR REDIS_CMD_DENYOOM),
     entry ''lpush'' ''lpushCommand'' 3 (REDIS_CMD_BULK OR REDIS_CMD_DENYOOM),
     entry ''rpop'' ''rpopCommand'' 2 REDIS_CMD_INLINE,
     entry ''lpop'' ''lpopCommand'' 2 REDIS_CMD_INLINE,
     entry ''brpop'' ''brpopCommand'' (- 3) REDIS_CMD_INLINE,
     entry ''blpop'' ''blpopCommand'' (- 3) REDIS_CMD_INLINE,
     entry ''llen'' ''llenCommand'' 2 REDIS_CMD_INLINE,
     entry ''lindex'' ''lindexCommand'' 3 REDIS_CMD_INLINE,
     entry ''lset'' ''lsetCommand'' 4 (REDIS_CMD_BULK OR REDIS_CMD_DENYOOM),
     entry ''lrange'' ''lrangeCommand'' 4 REDIS_CMD_INLINE,
     entry ''ltrim'' ''ltrimCommand'' 4 REDIS_CMD_INLINE,
     entry ''lrem'' ''lremCommand'' 4 REDIS_CMD_BULK,
     entry ''rpoplpush'' ''rpoplpushcommand'' 3 (REDIS_CMD_INLINE OR REDIS_CMD_DENYOOM),
     entry ''sadd'' ''saddCommand'' 3 (REDIS_CMD_BULK OR REDIS_CMD_DENYOOM),
     entry ''srem'' ''sremCommand'' 3 REDIS_CMD_BULK,
     entry ''smove'' ''smoveCommand'' 4 REDIS_CMD_BULK,
     entry ''sismember'' ''sismemberCommand'' 3 REDIS_CMD_BULK,
     entry ''scard'' ''scardCommand'' 2 REDIS_CMD_INLINE,
     entry ''spop'' ''spopCommand'' 2 REDIS_CMD_INLINE,
     entry ''srandmember'' ''srandmemberCommand'' 2 REDIS_CMD_INLINE,
     entry ''sinter'' ''sinterCommand'' (- 2) (REDIS_CMD_INLINE OR REDIS_CMD_DENYOOM),
     entry ''sinterstore'' ''sinterstoreCommand'' (- 3) (REDIS_CMD_INLINE OR REDIS_CMD_DENYOOM),
     entry ''sunion'' ''sunionCommand'' (- 2) (REDIS_CMD_INLINE OR REDIS_CMD_DENYOOM),
     entry ''sunionstore'' ''sunionstoreCommand'' (- 3) (REDIS_CMD_INLINE OR REDIS_CMD_DENYOOM),
     entry ''sdiff'' ''sdiffCommand'' (- 2) (REDIS_CMD_INLINE OR REDIS_CMD_DENYOOM),
     entry ''sdiffstore'' ''sdiffstoreCommand'' (- 3) (REDIS_CMD_INLINE OR REDIS_CMD_DENYOOM),
     entry ''smembers'' ''sinterCommand'' 2 REDIS_CMD_INLINE,
     entry ''zadd'' ''zaddCommand'' 4 (REDIS_CMD_BULK OR REDIS_CMD_DENYOOM),
     entry ''zincrby'' ''zincrbyCommand'' 4 (REDIS_CMD_BULK OR REDIS_CMD_DENYOOM),
     entry ''zrem'' ''zremCommand'' 3 REDIS_CMD_BULK,
     entry ''zremrangebyscore'' ''zremrangebyscoreCommand'' 4 REDIS_CMD_INLINE,
     entry ''zremrangebyrank'' ''zremrangebyrankCommand'' 4 REDIS_CMD_INLINE,
     entry ''zunionstore'' ''zunionstoreCommand'' (- 4) (REDIS_CMD_INLINE OR REDIS_CMD_DENYOOM),
     entry ''zinterstore'' ''zinterstoreCommand'' (- 4) (REDIS_CMD_INLINE OR REDIS_CMD_DENYOOM),
     entry ''zrange'' ''zrangeCommand'' (- 4) REDIS_CMD_INLINE,
     entry ''zrangebyscore'' ''zrangebyscoreCommand'' (- 4) REDIS_CMD_INLINE,
     entry ''zcount'' ''zcountCommand'' 4 REDIS_CMD_INLINE,
     entry ''zrevrange'' ''zrevrangeCommand'' (- 4) REDIS_CMD_INLINE,
     entry ''zcard'' ''zcardCommand'' 2 REDIS_CMD_INLINE,
     entry ''zscore'' ''zscoreCommand'' 3 (REDIS_CMD_BULK OR REDIS_CMD_DENYOOM),
     entry ''zrank'' ''zrankCommand'' 3 REDIS_CMD_BULK,
     entry ''zrevrank'' ''zrevrankCommand'' 3 REDIS_CMD_BULK,
     entry ''hset'' ''hsetCommand'' 4 (REDIS_CMD_BULK OR REDIS_CMD_DENYOOM),
     entry ''hsetnx'' ''hsetnxCommand'' 4 (REDIS_CMD_BULK OR REDIS_CMD_DENYOOM),
     entry ''hget'' ''hgetCommand'' 3 REDIS_CMD_BULK,
     entry ''hmset'' ''hmsetCommand'' (- 4) (REDIS_CMD_BULK OR REDIS_CMD_DENYOOM),
     entry ''hmget'' ''hmgetCommand'' (- 3) REDIS_CMD_BULK,
     entry ''hincrby'' ''hincrbyCommand'' 4 (REDIS_CMD_INLINE OR REDIS_CMD_DENYOOM),
     entry ''hdel'' ''hdelCommand'' 3 REDIS_CMD_BULK,
     entry ''hlen'' ''hlenCommand'' 2 REDIS_CMD_INLINE,
     entry ''hkeys'' ''hkeysCommand'' 2 REDIS_CMD_INLINE,
     entry ''hvals'' ''hvalsCommand'' 2 REDIS_CMD_INLINE,
     entry ''hgetall'' ''hgetallCommand'' 2 REDIS_CMD_INLINE,
     entry ''hexists'' ''hexistsCommand'' 3 REDIS_CMD_BULK,
     entry ''incrby'' ''incrbyCommand'' 3 (REDIS_CMD_INLINE OR REDIS_CMD_DENYOOM),
     entry ''decrby'' ''decrbyCommand'' 3 (REDIS_CMD_INLINE OR REDIS_CMD_DENYOOM),
     entry ''getset'' ''getsetCommand'' 3 (REDIS_CMD_BULK OR REDIS_CMD_DENYOOM),
     entry ''mset'' ''msetCommand'' (- 3) (REDIS_CMD_BULK OR REDIS_CMD_DENYOOM),
     entry ''msetnx'' ''msetnxCommand'' (- 3) (REDIS_CMD_BULK OR REDIS_CMD_DENYOOM),
     entry ''randomkey'' ''randomkeyCommand'' 1 REDIS_CMD_INLINE,
     entry ''select'' ''selectCommand'' 2 REDIS_CMD_INLINE,
     entry ''move'' ''moveCommand'' 3 REDIS_CMD_INLINE,
     entry ''rename'' ''renameCommand'' 3 REDIS_CMD_INLINE,
     entry ''renamenx'' ''renamenxCommand'' 3 REDIS_CMD_INLINE,
     entry ''expire'' ''expireCommand'' 3 REDIS_CMD_INLINE,
     entry ''expireat'' ''expireatCommand'' 3 REDIS_CMD_INLINE,
     entry ''keys'' ''keysCommand'' 2 REDIS_CMD_INLINE,
     entry ''dbsize'' ''dbsizeCommand'' 1 REDIS_CMD_INLINE,
     entry ''auth'' ''authCommand'' 2 REDIS_CMD_INLINE,
     entry ''ping'' ''pingCommand'' 1 REDIS_CMD_INLINE,
     entry ''echo'' ''echoCommand'' 2 REDIS_CMD_BULK,
     entry ''save'' ''saveCommand'' 1 REDIS_CMD_INLINE,
     entry ''bgsave'' ''bgsaveCommand'' 1 REDIS_CMD_INLINE,
     entry ''bgrewriteaof'' ''bgrewriteaofCommand'' 1 REDIS_CMD_INLINE,
     entry ''shutdown'' ''shutdownCommand'' 1 REDIS_CMD_INLINE,
     entry ''lastsave'' ''lastsaveCommand'' 1 REDIS_CMD_INLINE,
     entry ''type'' ''typeCommand'' 2 REDIS_CMD_INLINE,
     entry ''multi'' ''multiCommand'' 1 REDIS_CMD_INLINE,
     entry ''exec'' ''execCommand'' 1 (REDIS_CMD_INLINE OR REDIS_CMD_DENYOOM),
     entry ''discard'' ''discardCommand'' 1 REDIS_CMD_INLINE,
     entry ''sync'' ''syncCommand'' 1 REDIS_CMD_INLINE,
     entry ''flushdb'' ''flushdbCommand'' 1 REDIS_CMD_INLINE,
     entry ''flushall'' ''flushallCommand'' 1 REDIS_CMD_INLINE,
     entry ''sort'' ''sortCommand'' (- 2) (REDIS_CMD_INLINE OR REDIS_CMD_DENYOOM),
     entry ''info'' ''infoCommand'' 1 REDIS_CMD_INLINE,
     entry ''monitor'' ''monitorCommand'' 1 REDIS_CMD_INLINE,
     entry ''ttl'' ''ttlCommand'' 2 REDIS_CMD_INLINE,
     entry ''slaveof'' ''slaveofCommand'' 3 REDIS_CMD_INLINE,
     entry ''debug'' ''debugCommand'' (- 2) REDIS_CMD_INLINE,
     entry ''config'' ''configCommand'' (- 2) REDIS_CMD_BULK,
     entry ''subscribe'' ''subscribeCommand'' (- 2) REDIS_CMD_INLINE,
     entry ''unsubscribe'' ''unsubscribeCommand'' (- 1) REDIS_CMD_INLINE,
     entry ''psubscribe'' ''psubscribeCommand'' (- 2) REDIS_CMD_INLINE,
     entry ''punsubscribe'' ''punsubscribeCommand'' (- 1) REDIS_CMD_INLINE,
     entry ''publish'' ''publishCommand'' 3 (REDIS_CMD_BULK OR REDIS_CMD_FORCE_REPLICATION)]"

definition is_bulk :: "redisCommand \<Rightarrow> bool" where "is_bulk cmd \<longleftrightarrow> cflags cmd AND REDIS_CMD_BULK \<noteq> 0"

definition is_denyoom :: "redisCommand \<Rightarrow> bool" where "is_denyoom cmd \<longleftrightarrow> cflags cmd AND REDIS_CMD_DENYOOM \<noteq> 0"

definition ascii :: "string \<Rightarrow> bytes" where "ascii = map of_char"

definition crlf :: bytes where "crlf = [13, 10]"

text \<open>\<open>strcasecmp(a, b) == 0\<close>: only the bytes before the first terminator count.\<close>

definition c_string :: "bytes \<Rightarrow> bytes" where "c_string = takeWhile (\<lambda>x. x \<noteq> 0)"

definition strcaseeq :: "bytes \<Rightarrow> bytes \<Rightarrow> bool" where
  "strcaseeq a b \<longleftrightarrow> map lower_of (c_string a) = map lower_of (c_string b)"

definition lookupCommand :: "bytes \<Rightarrow> redisCommand option" where
  "lookupCommand name = find (\<lambda>cmd. strcaseeq name (ascii (cname cmd))) cmdTable"

section \<open>The state of a client\<close>

text \<open>The part the parser works on.\<close>

record client =
  querybuf :: bytes
  argv :: "bytes option list"
  argc :: nat
  mbargv :: "bytes option list"
  mbargc :: nat
  bulklen :: int
  multibulk :: int

text \<open>The part the commands work on; \<open>subscriptions\<close> counts channels and patterns, \<open>world\<close> is all the
  rest of the server.\<close>

record 'w session =
  authenticated :: bool
  multi_flag :: bool
  mstate :: "(redisCommand \<times> sobj list) list"
  subscriptions :: nat
  blocked :: bool
  reply :: "bytes list"
  numcommands :: nat
  world :: 'w

text \<open>The configuration and the code that is called: a command adds to the reply of its client, and may
  change its subscriptions, block it, and change the server.\<close>

record 'w senv =
  requirepass :: "bytes option"
  maxmemory :: nat
  used_memory :: "'w \<Rightarrow> nat"
  freeMemoryIfNeeded :: "'w \<Rightarrow> 'w"
  dirty_incr :: "'w \<Rightarrow> 'w"
  command_proc :: "string \<Rightarrow> sobj list \<Rightarrow> nat \<times> bool \<times> 'w \<Rightarrow> (bytes list \<times> nat \<times> bool \<times> 'w) option"

datatype 'w conn = Freed | Alive client "'w session"

definition createClient :: client where
  "createClient = \<lparr>querybuf = [], argv = [], argc = 0, mbargv = [], mbargc = 0, bulklen = - 1, multibulk = 0\<rparr>"

definition new_session :: "'w \<Rightarrow> 'w session" where
  "new_session w = \<lparr>authenticated = False, multi_flag = False, mstate = [], subscriptions = 0, blocked = False, reply = [],
     numcommands = 0, world = w\<rparr>"

definition addReplySds :: "'w session \<Rightarrow> bytes \<Rightarrow> 'w session" where
  "addReplySds s r = s\<lparr>reply := reply s @ [r]\<rparr>"

text \<open>Slots: reading the object, releasing it, storing a pointer.\<close>

definition slot_object :: "bytes option list \<Rightarrow> nat \<Rightarrow> bytes option" where
  "slot_object slots i = (if i < length slots then slots ! i else None)"

definition slot_release :: "bytes option list \<Rightarrow> nat \<Rightarrow> bytes option list option" where
  "slot_release slots i = (if i < length slots \<and> slots ! i \<noteq> None then Some (slots[i := None]) else None)"

definition slot_store :: "bytes option list \<Rightarrow> nat \<Rightarrow> bytes option \<Rightarrow> bytes option list option" where
  "slot_store slots i v = (if i < length slots then Some (slots[i := v]) else None)"

definition live_objects :: "bytes option list \<Rightarrow> nat \<Rightarrow> bytes list option" where
  "live_objects slots n = (if n \<le> length slots then those (take n slots) else None)"

definition freeClientArgv :: "client \<Rightarrow> client option" where
  "freeClientArgv c = do {
     _ \<leftarrow> live_objects (argv c) (argc c);
     _ \<leftarrow> live_objects (mbargv c) (mbargc c);
     Some (c\<lparr>argv := map (\<lambda>_. None) (argv c), argc := 0, mbargv := map (\<lambda>_. None) (mbargv c), mbargc := 0\<rparr>) }"

definition resetClient :: "client \<Rightarrow> client option" where
  "resetClient c = do { c1 \<leftarrow> freeClientArgv c; Some (c1\<lparr>bulklen := - 1, multibulk := 0\<rparr>) }"

section \<open>Executing a command\<close>

definition authCommand :: "'w senv \<Rightarrow> sobj list \<Rightarrow> 'w session \<Rightarrow> 'w session option" where
  "authCommand env args s =
     (case requirepass env of
        None \<Rightarrow> Some (addReplySds (s\<lparr>authenticated := True\<rparr>) (ascii ''+OK'' @ crlf))
      | Some pass \<Rightarrow>
          (case args of
             _ # Raw a # _ \<Rightarrow>
               Some (if c_string a = c_string pass
                     then addReplySds (s\<lparr>authenticated := True\<rparr>) (ascii ''+OK'' @ crlf)
                     else addReplySds (s\<lparr>authenticated := False\<rparr>) (ascii ''-ERR invalid password'' @ crlf))
           | _ \<Rightarrow> None))"

definition queueMultiCommand :: "redisCommand \<Rightarrow> sobj list \<Rightarrow> 'w session \<Rightarrow> 'w session" where
  "queueMultiCommand cmd args s = s\<lparr>mstate := mstate s @ [(cmd, args)]\<rparr>"

definition multiCommand :: "'w session \<Rightarrow> 'w session" where
  "multiCommand s = addReplySds (s\<lparr>multi_flag := True\<rparr>) (ascii ''+OK'' @ crlf)"

definition discardCommand :: "'w session \<Rightarrow> 'w session" where
  "discardCommand s =
     (if \<not> multi_flag s then addReplySds s (ascii ''-ERR DISCARD without MULTI'' @ crlf)
      else addReplySds (s\<lparr>mstate := [], multi_flag := False\<rparr>) (ascii ''+OK'' @ crlf))"

definition other_command :: "'w senv \<Rightarrow> string \<Rightarrow> sobj list \<Rightarrow> 'w session \<Rightarrow> 'w session option" where
  "other_command env p args s = do {
     (rs, n, b, w) \<leftarrow> command_proc env p args (subscriptions s, blocked s, world s);
     Some (s\<lparr>reply := reply s @ rs, subscriptions := n, blocked := b, world := w\<rparr>) }"

text \<open>\<open>call\<close> for the commands that can be queued: \<open>EXEC\<close> and \<open>DISCARD\<close> never are.\<close>

definition call_plain :: "'w senv \<Rightarrow> redisCommand \<Rightarrow> sobj list \<Rightarrow> 'w session \<Rightarrow> 'w session option" where
  "call_plain env cmd args s = do {
     s' \<leftarrow> (if proc cmd = ''authCommand'' then authCommand env args s
           else if proc cmd = ''multiCommand'' then Some (multiCommand s)
           else other_command env (proc cmd) args s);
     Some (s'\<lparr>numcommands := numcommands s' + 1\<rparr>) }"

primrec exec_loop :: "'w senv \<Rightarrow> (redisCommand \<times> sobj list) list \<Rightarrow> 'w session \<Rightarrow> 'w session option" where
  "exec_loop env [] s = Some s"
| "exec_loop env (q # qs) s = do { s' \<leftarrow> call_plain env (fst q) (snd q) s; exec_loop env qs s' }"

definition execCommand :: "'w senv \<Rightarrow> 'w session \<Rightarrow> 'w session option" where
  "execCommand env s =
     (if \<not> multi_flag s then Some (addReplySds s (ascii ''-ERR EXEC without MULTI'' @ crlf))
      else do {
        s' \<leftarrow> exec_loop env (mstate s) (addReplySds s (ascii ''*'' @ dec_text (int (length (mstate s))) @ crlf));
        Some (s'\<lparr>mstate := [], multi_flag := False, world := dirty_incr env (world s')\<rparr>) })"

definition call :: "'w senv \<Rightarrow> redisCommand \<Rightarrow> sobj list \<Rightarrow> 'w session \<Rightarrow> 'w session option" where
  "call env cmd args s =
     (if proc cmd = ''execCommand'' then do { s' \<leftarrow> execCommand env s; Some (s'\<lparr>numcommands := numcommands s' + 1\<rparr>) }
      else if proc cmd = ''discardCommand'' then Some ((discardCommand s)\<lparr>numcommands := numcommands s + 1\<rparr>)
      else call_plain env cmd args s)"

text \<open>The second half of \<open>processCommand\<close>: the arguments are complete.\<close>

definition run_command :: "'w senv \<Rightarrow> redisCommand \<Rightarrow> bytes list \<Rightarrow> 'w session \<Rightarrow> 'w session option" where
  "run_command env cmd args s = do {
     objs \<leftarrow> (if is_bulk cmd
             then do { o1 \<leftarrow> tryObjectEncoding 1 (Raw (last args)); Some (map Raw (butlast args) @ [o1]) }
             else Some (map Raw args));
     if requirepass env \<noteq> None \<and> \<not> authenticated s \<and> proc cmd \<noteq> ''authCommand''
     then Some (addReplySds s (ascii ''-ERR operation not permitted'' @ crlf))
     else
       let s1 = (if maxmemory env \<noteq> 0 then s\<lparr>world := freeMemoryIfNeeded env (world s)\<rparr> else s) in
       if maxmemory env \<noteq> 0 \<and> is_denyoom cmd \<and> used_memory env (world s1) > maxmemory env
       then Some (addReplySds s1 (ascii ''-ERR command not allowed when used memory > '' @ [39] @ ascii ''maxmemory'' @ [39] @ crlf))
       else if subscriptions s1 > 0 \<and>
         proc cmd \<notin> {''subscribeCommand'', ''unsubscribeCommand'', ''psubscribeCommand'', ''punsubscribeCommand''}
       then Some (addReplySds s1 (ascii ''-ERR only (P)SUBSCRIBE / (P)UNSUBSCRIBE / QUIT allowed in this context'' @ crlf))
       else if multi_flag s1 \<and> proc cmd \<noteq> ''execCommand'' \<and> proc cmd \<noteq> ''discardCommand''
       then Some (addReplySds (queueMultiCommand cmd objs s1) (ascii ''+QUEUED'' @ crlf))
       else call env cmd objs s1 }"

section \<open>Commands from lines and bulks\<close>

text \<open>\<open>atoi\<close> of the C library: \<open>strtol\<close> cut to an \<open>int\<close>. Its argument is the memory from the pointer on.\<close>

definition atoi :: "bytes \<Rightarrow> int option" where
  "atoi mem = do { (v, _) \<leftarrow> strtoll10 mem; Some (signed_take_bit 31 v) }"

definition max_bulk :: int where "max_bulk = 1024 * 1024 * 1024"

text \<open>\<open>processCommand\<close> answers an error, resets the client and returns.\<close>

definition reject :: "bytes \<Rightarrow> client \<Rightarrow> 'w session \<Rightarrow> 'w conn option" where
  "reject msg c s = do { c' \<leftarrow> resetClient c; Some (Alive c' (addReplySds s (msg @ crlf))) }"

text \<open>The line \<open>*<count>\<close> that starts a multi bulk command.\<close>

definition multibulk_start :: "client \<Rightarrow> 'w session \<Rightarrow> 'w conn option" where
  "multibulk_start c s = do {
     a \<leftarrow> slot_object (argv c) 0;
     n \<leftarrow> atoi (tl (a @ [0]));
     let c1 = c\<lparr>multibulk := n\<rparr>;
     if n \<le> 0 then do { c2 \<leftarrow> resetClient c1; Some (Alive c2 s) }
     else do {
       slots \<leftarrow> slot_release (argv c1) (argc c1 - 1);
       Some (Alive (c1\<lparr>argv := slots, argc := argc c1 - 1\<rparr>) s) } }"

text \<open>The line \<open>$<length>\<close> before an argument.\<close>

definition multibulk_length :: "client \<Rightarrow> 'w session \<Rightarrow> 'w conn option" where
  "multibulk_length c s = do {
     a \<leftarrow> slot_object (argv c) 0;
     if (a @ [0]) ! 0 \<noteq> 36 then reject (ascii ''-ERR multi bulk protocol error'') c s
     else do {
       n \<leftarrow> atoi (tl (a @ [0]));
       slots \<leftarrow> slot_release (argv c) 0;
       let c1 = c\<lparr>argv := slots, argc := argc c - 1\<rparr>;
       if n < 0 \<or> n > max_bulk then reject (ascii ''-ERR invalid bulk write count'') c1 s
       else Some (Alive (c1\<lparr>bulklen := n + 2\<rparr>) s) } }"

text \<open>An argument has been read: the pointer moves to \<open>mbargv\<close>. After the last one the two arrays change
  places.\<close>

definition multibulk_argument :: "client \<Rightarrow> client option" where
  "multibulk_argument c = do {
     p \<leftarrow> (if 0 < length (argv c) then Some (argv c ! 0) else None);
     slots \<leftarrow> slot_store (take (mbargc c + 1) (mbargv c @ replicate (mbargc c + 1) None)) (mbargc c) p;
     let c1 = c\<lparr>mbargv := slots, mbargc := mbargc c + 1, argc := argc c - 1, multibulk := multibulk c - 1\<rparr>;
     Some (if multibulk c1 = 0
           then c1\<lparr>argv := mbargv c1, mbargv := argv c1, argc := mbargc c1, mbargc := argc c1, bulklen := 0\<rparr>
           else c1\<lparr>bulklen := - 1\<rparr>) }"

text \<open>The rest of \<open>processCommand\<close> when all arguments are there.\<close>

definition execute :: "'w senv \<Rightarrow> redisCommand \<Rightarrow> client \<Rightarrow> 'w session \<Rightarrow> 'w conn option" where
  "execute env cmd c s = do {
     args \<leftarrow> live_objects (argv c) (argc c);
     s' \<leftarrow> run_command env cmd args s;
     c' \<leftarrow> resetClient c;
     Some (Alive c' s') }"

text \<open>The last argument of a bulk command: its length has been read, the argument is read at once when
  it is in the buffer already.\<close>

definition bulk_length :: "'w senv \<Rightarrow> redisCommand \<Rightarrow> client \<Rightarrow> 'w session \<Rightarrow> 'w conn option" where
  "bulk_length env cmd c s = do {
     a \<leftarrow> slot_object (argv c) (argc c - 1);
     n \<leftarrow> atoi (a @ [0]);
     slots \<leftarrow> slot_release (argv c) (argc c - 1);
     let c1 = c\<lparr>argv := slots, argc := argc c - 1\<rparr>;
     if n < 0 \<or> n > max_bulk then reject (ascii ''-ERR invalid bulk write count'') c1 s
     else
       let c2 = c1\<lparr>bulklen := n + 2\<rparr> in
       if signed_take_bit 31 (int (length (querybuf c2))) \<ge> bulklen c2 then do {
         slots' \<leftarrow> slot_store (argv c2) (argc c2) (Some (take (nat (bulklen c2 - 2)) (querybuf c2)));
         execute env cmd (c2\<lparr>argv := slots', argc := argc c2 + 1, querybuf := drop (nat (bulklen c2)) (querybuf c2)\<rparr>) s }
       else Some (Alive c2 s) }"

definition process_args :: "'w senv \<Rightarrow> client \<Rightarrow> 'w session \<Rightarrow> 'w conn option" where
  "process_args env c s = do {
     name \<leftarrow> slot_object (argv c) 0;
     if strcaseeq name (ascii ''quit'') then do { _ \<leftarrow> freeClientArgv c; Some Freed }
     else
       (case lookupCommand name of
          None \<Rightarrow> reject (ascii ''-ERR unknown command '' @ [39] @ c_string name @ [39]) c s
        | Some cmd \<Rightarrow>
            if (arity cmd > 0 \<and> arity cmd \<noteq> int (argc c)) \<or> int (argc c) < - arity cmd
            then reject (ascii ''-ERR wrong number of arguments for '' @ [39] @ ascii (cname cmd) @ [39] @ ascii '' command'') c s
            else if is_bulk cmd \<and> bulklen c = - 1 then bulk_length env cmd c s
            else execute env cmd c s) }"

definition processCommand :: "'w senv \<Rightarrow> client \<Rightarrow> 'w session \<Rightarrow> 'w conn option" where
  "processCommand env c s = do {
     star \<leftarrow> (if multibulk c = 0 \<and> argc c = 1 then do { a \<leftarrow> slot_object (argv c) 0; Some ((a @ [0]) ! 0 = 42) }
             else Some False);
     if star then multibulk_start c s
     else if multibulk c \<noteq> 0 then
       if bulklen c = - 1 then multibulk_length c s
       else do {
         c1 \<leftarrow> multibulk_argument c;
         if multibulk c1 = 0 then process_args env c1 s else Some (Alive c1 s) }
     else process_args env c s }"

section \<open>The input buffer\<close>

definition REDIS_REQUEST_MAX_SIZE :: int where "REDIS_REQUEST_MAX_SIZE = 1024 * 1024 * 256"

text \<open>\<open>strchr(querybuf, '\n')\<close>: the search ends at the terminator or at a zero byte before it.\<close>

fun newline_pos :: "bytes \<Rightarrow> nat option" where
  "newline_pos [] = None"
| "newline_pos (x # xs) = (if x = 10 then Some 0 else if x = 0 then None else map_option Suc (newline_pos xs))"

text \<open>The line without the newline and a carriage return before it. Before the text of an empty
  line stands the highest byte of the count of free bytes, which is not a carriage return.\<close>

definition query_line :: "bytes \<Rightarrow> nat \<Rightarrow> bytes" where
  "query_line q p = (if 0 < p \<and> q ! (p - 1) = 13 then take (p - 1) q else take p q)"

primrec store_tokens :: "bytes list \<Rightarrow> client \<Rightarrow> client option" where
  "store_tokens [] c = Some c"
| "store_tokens (t # ts) c =
     (if length t \<noteq> 0 then do {
        slots \<leftarrow> slot_store (argv c) (argc c) (Some t);
        store_tokens ts (c\<lparr>argv := slots, argc := argc c + 1\<rparr>) }
      else store_tokens ts c)"

text \<open>One turn of the loop of \<open>processInputBuffer\<close>: the result, and whether the loop goes on when there is
  something left in the buffer.\<close>

definition input_step :: "'w senv \<Rightarrow> client \<Rightarrow> 'w session \<Rightarrow> ('w conn \<times> bool) option" where
  "input_step env c s =
     (if bulklen c = - 1 then
        (case newline_pos (querybuf c) of
           Some p \<Rightarrow> do {
             let query = query_line (querybuf c) p;
             tokens \<leftarrow> sdssplitlen query (int (length query)) [32] 1;
             ts \<leftarrow> tokens;
             c1 \<leftarrow> store_tokens ts (c\<lparr>querybuf := drop (p + 1) (querybuf c), argv := replicate (length ts) None\<rparr>);
             if argc c1 \<noteq> 0 then do { r \<leftarrow> processCommand env c1 s; Some (r, True) }
             else Some (Alive c1 s, True) }
         | None \<Rightarrow>
             if int (length (querybuf c)) \<ge> REDIS_REQUEST_MAX_SIZE then do { _ \<leftarrow> freeClientArgv c; Some (Freed, False) }
             else Some (Alive c s, False))
      else if bulklen c \<le> signed_take_bit 31 (int (length (querybuf c))) then do {
        slots \<leftarrow> slot_store (argv c) (argc c) (Some (take (nat (bulklen c - 2)) (querybuf c)));
        r \<leftarrow> processCommand env
               (c\<lparr>argv := slots, argc := argc c + 1, querybuf := drop (nat (bulklen c)) (querybuf c)\<rparr>) s;
        Some (r, True) }
      else Some (Alive c s, False))"

partial_function (option) processInputBuffer :: "'w senv \<Rightarrow> client \<Rightarrow> 'w session \<Rightarrow> 'w conn option" where
  "processInputBuffer env c s =
     (if blocked s then Some (Alive c s)
      else do {
        (r, processed) \<leftarrow> input_step env c s;
        case r of
          Freed \<Rightarrow> Some Freed
        | Alive c' s' \<Rightarrow>
            if processed \<and> querybuf c' \<noteq> [] then processInputBuffer env c' s' else Some (Alive c' s') })"

declare processInputBuffer.simps [code]

text \<open>What \<open>read\<close> returned: an error (whether it is \<open>EAGAIN\<close>), or bytes, none at the end of the connection.\<close>

datatype read_result = ReadError bool | ReadBytes bytes

definition readQueryFromClient :: "'w senv \<Rightarrow> read_result \<Rightarrow> client \<Rightarrow> 'w session \<Rightarrow> 'w conn option" where
  "readQueryFromClient env r c s =
     (case r of
        ReadError again \<Rightarrow> if again then Some (Alive c s) else do { _ \<leftarrow> freeClientArgv c; Some Freed }
      | ReadBytes input \<Rightarrow>
          if input = [] then do { _ \<leftarrow> freeClientArgv c; Some Freed }
          else processInputBuffer env (c\<lparr>querybuf := querybuf c @ input\<rparr>) s)"

text \<open>A client that sends pieces of input one after the other.\<close>

primrec feed :: "'w senv \<Rightarrow> bytes list \<Rightarrow> client \<Rightarrow> 'w session \<Rightarrow> 'w conn option" where
  "feed env [] c s = Some (Alive c s)"
| "feed env (b # bs) c s = do {
     r \<leftarrow> readQueryFromClient env (ReadBytes b) c s;
     case r of Freed \<Rightarrow> Some Freed | Alive c' s' \<Rightarrow> feed env bs c' s' }"

end
