(* ===== verification/Client_Spec.thy ===== *)
theory Client_Spec
  imports Client
begin

text \<open>
  What the connection of a client promises: the commands do not depend on how the bytes arrive, and
  a request in the multi bulk form is executed with exactly the arguments that were sent.
\<close>

section \<open>The buffer and the parser\<close>

fun set_conn :: "bytes \<Rightarrow> 'w conn \<Rightarrow> 'w conn" where
  "set_conn q Freed = Freed"
| "set_conn q (Alive c s) = Alive (c\<lparr>querybuf := q\<rparr>) s"

text \<open>The buffer is the last of the updates.\<close>

lemma buf_last:
  "c\<lparr>querybuf := q, argv := a\<rparr> = c\<lparr>argv := a, querybuf := q\<rparr>"
  "c\<lparr>querybuf := q, argc := n\<rparr> = c\<lparr>argc := n, querybuf := q\<rparr>"
  "c\<lparr>querybuf := q, mbargv := a\<rparr> = c\<lparr>mbargv := a, querybuf := q\<rparr>"
  "c\<lparr>querybuf := q, mbargc := n\<rparr> = c\<lparr>mbargc := n, querybuf := q\<rparr>"
  "c\<lparr>querybuf := q, bulklen := i\<rparr> = c\<lparr>bulklen := i, querybuf := q\<rparr>"
  "c\<lparr>querybuf := q, multibulk := i\<rparr> = c\<lparr>multibulk := i, querybuf := q\<rparr>"
  for c :: client
  by (cases c; simp)+

lemma freeClientArgv_buf: "freeClientArgv (c\<lparr>querybuf := q\<rparr>) = map_option (\<lambda>c. c\<lparr>querybuf := q\<rparr>) (freeClientArgv c)"
  by (cases "live_objects (argv c) (argc c)"; cases "live_objects (mbargv c) (mbargc c)")
    (simp_all add: freeClientArgv_def buf_last)

lemma resetClient_buf: "resetClient (c\<lparr>querybuf := q\<rparr>) = map_option (\<lambda>c. c\<lparr>querybuf := q\<rparr>) (resetClient c)"
  by (cases "freeClientArgv c") (simp_all add: resetClient_def freeClientArgv_buf buf_last)

lemma reject_buf: "reject msg (c\<lparr>querybuf := q\<rparr>) s = map_option (set_conn q) (reject msg c s)"
  by (cases "resetClient c") (simp_all add: reject_def resetClient_buf)

lemma bind_map: "Option.bind (map_option g x) f = Option.bind x (f \<circ> g)"
  by (cases x) simp_all

lemma map_bind: "map_option g (Option.bind x f) = Option.bind x (map_option g \<circ> f)"
  by (cases x) simp_all

lemma multibulk_start_buf: "multibulk_start (c\<lparr>querybuf := q\<rparr>) s = map_option (set_conn q) (multibulk_start c s)"
  by (simp add: multibulk_start_def Let_def buf_last resetClient_buf bind_map map_bind o_def if_distrib [of "map_option _"] cong: if_cong)

lemma multibulk_length_buf: "multibulk_length (c\<lparr>querybuf := q\<rparr>) s = map_option (set_conn q) (multibulk_length c s)"
  by (simp add: multibulk_length_def Let_def buf_last reject_buf bind_map map_bind o_def if_distrib [of "map_option _"] cong: if_cong)

lemma multibulk_argument_buf:
  "multibulk_argument (c\<lparr>querybuf := q\<rparr>) = map_option (\<lambda>c. c\<lparr>querybuf := q\<rparr>) (multibulk_argument c)"
  by (simp add: multibulk_argument_def Let_def buf_last bind_map map_bind o_def if_distrib [of "\<lambda>c. c\<lparr>querybuf := q\<rparr>"] cong: if_cong)

lemma execute_buf: "execute env cmd (c\<lparr>querybuf := q\<rparr>) s = map_option (set_conn q) (execute env cmd c s)"
  by (cases "live_objects (argv c) (argc c)"; cases "run_command env cmd (the (live_objects (argv c) (argc c))) s"; cases "resetClient c")
    (simp_all add: execute_def resetClient_buf)

text \<open>Everything but the reading of a last argument ignores the buffer.\<close>

definition wants_bulk :: "client \<Rightarrow> redisCommand \<Rightarrow> bool" where
  "wants_bulk c cmd \<longleftrightarrow> (\<exists>name. slot_object (argv c) 0 = Some name \<and> \<not> strcaseeq name (ascii ''quit'') \<and>
     lookupCommand name = Some cmd) \<and> \<not> (arity cmd > 0 \<and> arity cmd \<noteq> int (argc c)) \<and> \<not> int (argc c) < - arity cmd
     \<and> is_bulk cmd"

lemma process_args_buf:
  assumes "bulklen c \<noteq> - 1 \<or> (\<forall>cmd. \<not> wants_bulk c cmd)"
  shows "process_args env (c\<lparr>querybuf := q\<rparr>) s = map_option (set_conn q) (process_args env c s)"
proof (cases "slot_object (argv c) 0")
  case (Some name)
  show ?thesis
  proof (cases "lookupCommand name")
    case None
    then show ?thesis using Some by (cases "freeClientArgv c") (simp_all add: process_args_def freeClientArgv_buf reject_buf)
  next
    case (Some cmd)
    show ?thesis
      using assms Some \<open>slot_object (argv c) 0 = Some name\<close>
      by (cases "freeClientArgv c"; cases "strcaseeq name (ascii ''quit'')")
        (auto simp: process_args_def freeClientArgv_buf reject_buf execute_buf wants_bulk_def)
  qed
qed (simp add: process_args_def)

lemma process_args_bulk:
  "wants_bulk c cmd \<Longrightarrow> bulklen c = - 1 \<Longrightarrow> process_args env c s = bulk_length env cmd c s"
  by (auto simp: process_args_def wants_bulk_def)

lemma processCommand_buf:
  assumes "bulklen c \<noteq> - 1 \<or> multibulk c \<noteq> 0 \<or> (\<forall>cmd. \<not> wants_bulk c cmd)"
  shows "processCommand env (c\<lparr>querybuf := q\<rparr>) s = map_option (set_conn q) (processCommand env c s)"
proof -
  have arg: "process_args env (c1\<lparr>querybuf := q\<rparr>) s = map_option (set_conn q) (process_args env c1 s)"
    if "multibulk_argument c = Some c1" "multibulk c1 = 0" for c1
    using that by (intro process_args_buf) (auto simp: multibulk_argument_def Let_def split: bind_splits if_splits)
  show ?thesis
  proof (cases "multibulk c = 0")
    case True
    have "process_args env (c\<lparr>querybuf := q\<rparr>) s = map_option (set_conn q) (process_args env c s)"
      using assms True by (intro process_args_buf) auto
    then show ?thesis
      using True by (cases "slot_object (argv c) 0") (simp_all add: processCommand_def multibulk_start_buf)
  next
    case False
    then show ?thesis
      using arg by (cases "multibulk_argument c")
        (auto simp: processCommand_def multibulk_length_buf multibulk_argument_buf)
  qed
qed

text \<open>Every bulk command has an argument besides its name.\<close>

lemma bulk_arity: "cmd \<in> set cmdTable \<Longrightarrow> is_bulk cmd \<Longrightarrow> 2 \<le> \<bar>arity cmd\<bar>"
proof -
  have "list_all (\<lambda>cmd. is_bulk cmd \<longrightarrow> 2 \<le> \<bar>arity cmd\<bar>) cmdTable"
    by (simp add: cmdTable_def entry_def is_bulk_def REDIS_CMD_BULK_def REDIS_CMD_INLINE_def REDIS_CMD_DENYOOM_def
        REDIS_CMD_FORCE_REPLICATION_def)
  then show "cmd \<in> set cmdTable \<Longrightarrow> is_bulk cmd \<Longrightarrow> 2 \<le> \<bar>arity cmd\<bar>" by (simp add: list_all_iff)
qed

lemma lookupCommand_table: "lookupCommand name = Some cmd \<Longrightarrow> cmd \<in> set cmdTable"
  by (auto simp: lookupCommand_def find_Some_iff)

lemma wants_bulk_args: "wants_bulk c cmd \<Longrightarrow> 2 \<le> argc c"
  using bulk_arity [of cmd] lookupCommand_table by (fastforce simp: wants_bulk_def)

text \<open>The reading of a last argument is what a turn of the loop does in the state that waits for it.\<close>

lemma bulk_length_cases:
  assumes "wants_bulk c cmd" "bulklen c = - 1" "multibulk c = 0"
  obtains (free) "\<forall>q. bulk_length env cmd (c\<lparr>querybuf := q\<rparr>) s = map_option (set_conn q) (bulk_length env cmd c s)"
  | (waits) c2 where "2 \<le> bulklen c2"
      "\<forall>q. bulk_length env cmd (c\<lparr>querybuf := q\<rparr>) s = map_option fst (input_step env (c2\<lparr>querybuf := q\<rparr>) s)"
proof -
  define a where "a = slot_object (argv c) (argc c - 1)"
  define n where "n = (case a of None \<Rightarrow> None | Some a \<Rightarrow> atoi (a @ [0]))"
  define sl where "sl = slot_release (argv c) (argc c - 1)"
  show thesis
  proof (cases "a = None \<or> n = None \<or> sl = None")
    case True
    then have "bulk_length env cmd (c\<lparr>querybuf := q\<rparr>) s = None" for q
      unfolding a_def n_def sl_def bulk_length_def by (auto split: option.splits bind_splits)
    then show thesis using free by (metis client.surjective client.update_convs(1) option.simps(8))
  next
    case False
    then obtain t m slots where d: "slot_object (argv c) (argc c - 1) = Some t" "atoi (t @ [0]) = Some m"
      "slot_release (argv c) (argc c - 1) = Some slots"
      by (auto simp: a_def n_def sl_def split: option.splits)
    show thesis
    proof (cases "m < 0 \<or> m > max_bulk")
      case True
      then show thesis using free d by (simp add: bulk_length_def buf_last reject_buf)
    next
      case ok: False
      define c2 where "c2 = c\<lparr>argv := slots, argc := argc c - 1, bulklen := m + 2\<rparr>"
      have exec: "processCommand env (c2\<lparr>argv := slots', argc := argc c, querybuf := q'\<rparr>) s =
          execute env cmd (c2\<lparr>argv := slots', argc := argc c, querybuf := q'\<rparr>) s"
        if "slot_store slots (argc c - 1) v = Some slots'" for slots' q' v
      proof -
        have n2: "2 \<le> argc c" by (rule wants_bulk_args [OF assms(1)])
        then have "slot_object slots' 0 = slot_object (argv c) 0"
          using that d(3) by (auto simp: slot_store_def slot_release_def slot_object_def split: if_splits)
        then show ?thesis
          using assms(1,3) n2 ok by (auto simp: processCommand_def process_args_def wants_bulk_def c2_def)
      qed
      have "bulk_length env cmd (c\<lparr>querybuf := q\<rparr>) s = map_option fst (input_step env (c2\<lparr>querybuf := q\<rparr>) s)" for q
        using ok d exec wants_bulk_args [OF assms(1)]
        by (cases "slot_store slots (argc c - Suc 0) (Some (take (nat m) q))")
          (auto simp: bulk_length_def input_step_def c2_def buf_last Let_def map_bind o_def)
      then show thesis using ok by (intro waits [of c2]) (simp_all add: c2_def)
    qed
  qed
qed

lemma processCommand_cases:
  assumes "bulklen c = - 1"
  obtains (free) "\<forall>q. processCommand env (c\<lparr>querybuf := q\<rparr>) s = map_option (set_conn q) (processCommand env c s)"
  | (waits) c2 where "2 \<le> bulklen c2"
      "\<forall>q. processCommand env (c\<lparr>querybuf := q\<rparr>) s = map_option fst (input_step env (c2\<lparr>querybuf := q\<rparr>) s)"
proof (cases "multibulk c \<noteq> 0 \<or> (\<forall>cmd. \<not> wants_bulk c cmd)")
  case True
  then show thesis using processCommand_buf free by blast
next
  case False
  then obtain cmd where w: "wants_bulk c cmd" "multibulk c = 0" by auto
  have eq: "processCommand env (c\<lparr>querybuf := q\<rparr>) s = bulk_length env cmd (c\<lparr>querybuf := q\<rparr>) s" for q
  proof -
    have "wants_bulk (c\<lparr>querybuf := q\<rparr>) cmd" using w(1) by (simp add: wants_bulk_def)
    then show ?thesis
      using wants_bulk_args [OF w(1)] w(2) assms process_args_bulk [of "c\<lparr>querybuf := q\<rparr>" cmd env s]
      by (simp add: processCommand_def)
  qed
  have "processCommand env c s = bulk_length env cmd c s" using eq [of "querybuf c"] by simp
  then show thesis using eq free waits by (cases rule: bulk_length_cases [OF w(1) assms w(2), of env s]) simp_all
qed

section \<open>What a turn of the loop does to the client\<close>

definition conn_ok :: "client \<Rightarrow> bool" where
  "conn_ok c \<longleftrightarrow> bulklen c = - 1 \<or> 2 \<le> bulklen c"

lemma resetClient_state: "resetClient c = Some c' \<Longrightarrow> querybuf c' = querybuf c \<and> bulklen c' = - 1"
  by (auto simp: resetClient_def freeClientArgv_def split: bind_splits)

lemma reject_state: "reject m c s = Some (Alive c' s') \<Longrightarrow> querybuf c' = querybuf c \<and> bulklen c' = - 1"
  by (auto simp: reject_def dest: resetClient_state split: bind_splits)

lemma execute_state: "execute env cmd c s = Some (Alive c' s') \<Longrightarrow> querybuf c' = querybuf c \<and> bulklen c' = - 1"
  by (auto simp: execute_def dest: resetClient_state split: bind_splits)

lemma bulk_length_state:
  "bulk_length env cmd c s = Some (Alive c' s') \<Longrightarrow> length (querybuf c') \<le> length (querybuf c) \<and> conn_ok c'"
  by (auto simp: bulk_length_def Let_def conn_ok_def dest!: reject_state execute_state split: bind_splits if_splits)

lemma process_args_state:
  "process_args env c s = Some (Alive c' s') \<Longrightarrow> length (querybuf c') \<le> length (querybuf c) \<and> conn_ok c'"
  by (auto simp: process_args_def conn_ok_def dest!: reject_state execute_state bulk_length_state split: bind_splits if_splits option.splits)

lemma processCommand_state:
  "processCommand env c s = Some (Alive c' s') \<Longrightarrow> conn_ok c \<Longrightarrow> length (querybuf c') \<le> length (querybuf c) \<and> conn_ok c'"
  by (auto simp: processCommand_def multibulk_start_def multibulk_length_def multibulk_argument_def Let_def conn_ok_def
      dest!: reject_state resetClient_state process_args_state split: bind_splits if_splits)

lemma store_tokens_state:
  "store_tokens ts c = Some c' \<Longrightarrow> querybuf c' = querybuf c \<and> bulklen c' = bulklen c \<and> multibulk c' = multibulk c
     \<and> mbargv c' = mbargv c \<and> mbargc c' = mbargc c"
  by (induction ts arbitrary: c) (fastforce split: if_splits bind_splits)+

lemma store_tokens_buf: "store_tokens ts (c\<lparr>querybuf := q\<rparr>) = map_option (\<lambda>c. c\<lparr>querybuf := q\<rparr>) (store_tokens ts c)"
  by (induction ts arbitrary: c) (simp_all add: buf_last bind_map map_bind o_def if_distrib [of "map_option _"] cong: if_cong)

lemma newline_pos_bound: "newline_pos q = Some p \<Longrightarrow> p < length q"
  by (induction q arbitrary: p) (auto split: if_splits)

lemma newline_pos_append: "newline_pos q = Some p \<Longrightarrow> newline_pos (q @ b) = Some p"
  by (induction q arbitrary: p) (auto split: if_splits)

lemma input_step_state:
  assumes "input_step env c s = Some (Alive c' s', True)" "conn_ok c" "int (length (querybuf c)) < 2 ^ 31"
  shows "length (querybuf c') < length (querybuf c) \<and> conn_ok c'"
proof (cases "bulklen c = - 1")
  case True
  then obtain p ts c1 where p: "newline_pos (querybuf c) = Some p"
    "store_tokens ts (c\<lparr>querybuf := drop (p + 1) (querybuf c), argv := replicate (length ts) None\<rparr>) = Some c1"
    "c1 = c' \<or> processCommand env c1 s = Some (Alive c' s')"
    using assms(1) by (auto simp: input_step_def Let_def split: option.splits if_splits bind_splits)
  note st = store_tokens_state [OF p(2)]
  have "conn_ok c1" "length (querybuf c1) < length (querybuf c)"
    using st assms(2) newline_pos_bound [OF p(1)] by (auto simp: conn_ok_def)
  then show ?thesis using p(3) processCommand_state [of env c1 s c' s'] by auto
next
  case False
  then have b: "2 \<le> bulklen c" using assms(2) by (simp add: conn_ok_def)
  have "signed_take_bit 31 (int (length (querybuf c))) = int (length (querybuf c))"
    using assms(3) by (intro signed_take_bit_int_eq_self) auto
  then obtain slots where "bulklen c \<le> int (length (querybuf c))"
    "processCommand env (c\<lparr>argv := slots, argc := argc c + 1, querybuf := drop (nat (bulklen c)) (querybuf c)\<rparr>) s =
      Some (Alive c' s')"
    using assms(1) False by (auto simp: input_step_def split: if_splits bind_splits)
  from processCommand_state [OF this(2)] this(1) b show ?thesis by (auto simp: conn_ok_def)
qed

section \<open>Input in pieces\<close>

fun append_conn :: "bytes \<Rightarrow> 'w conn \<Rightarrow> 'w conn" where
  "append_conn b Freed = Freed"
| "append_conn b (Alive c s) = Alive (c\<lparr>querybuf := querybuf c @ b\<rparr>) s"

lemma append_conn_set: "set_conn (d @ b) r = append_conn b (set_conn d r)"
  by (cases r) simp_all

lemma free_append:
  assumes "\<forall>q. f (c\<lparr>querybuf := q\<rparr>) = map_option (set_conn q) r"
  shows "f (c\<lparr>querybuf := d @ b\<rparr>) = map_option (append_conn b) (f (c\<lparr>querybuf := d\<rparr>))"
  using assms by (cases r) (simp_all add: append_conn_set)

lemma int_of_length: "int n < 2 ^ 28 \<Longrightarrow> signed_take_bit 31 (int n) = int n"
  by (intro signed_take_bit_int_eq_self) auto

lemma bulk_step_append:
  assumes "2 \<le> bulklen c" "bulklen c \<le> int (length (querybuf c))" "int (length (querybuf c) + length b) < 2 ^ 28"
  shows "input_step env (c\<lparr>querybuf := querybuf c @ b\<rparr>) s = map_option (map_prod (append_conn b) id) (input_step env c s)"
proof -
  define n where "n = nat (bulklen c)"
  have n: "n \<le> length (querybuf c)" "n - 2 \<le> length (querybuf c)" using assms(1,2) by (auto simp: n_def)
  have l: "signed_take_bit 31 (int (length (querybuf c))) = int (length (querybuf c))"
    "signed_take_bit 31 (int (length (querybuf c @ b))) = int (length (querybuf c @ b))"
    using assms(3) by (intro int_of_length; simp)+
  have pc: "processCommand env (c\<lparr>argv := a, argc := k, querybuf := d @ b\<rparr>) s =
      map_option (append_conn b) (processCommand env (c\<lparr>argv := a, argc := k, querybuf := d\<rparr>) s)" for a k d
    using assms(1) by (intro free_append [where r = "processCommand env (c\<lparr>argv := a, argc := k\<rparr>) s"] allI processCommand_buf) simp
  have "nat (bulklen c - 2) = n - 2" by (simp add: n_def nat_diff_distrib)
  then show ?thesis
    using assms(1,2) l n pc
    by (simp add: input_step_def buf_last map_bind o_def n_def [symmetric] bind_map option.map_comp)
qed

lemma newline_line:
  assumes "newline_pos q = Some p"
  shows "newline_pos (q @ b) = Some p" "query_line (q @ b) p = query_line q p" "drop (p + 1) (q @ b) = drop (p + 1) q @ b"
  using newline_pos_append [OF assms] newline_pos_bound [OF assms] by (auto simp: query_line_def nth_append)

lemma input_step_wait:
  assumes "input_step env c s = Some (r, False)" "int (length (querybuf c)) < 2 ^ 28"
  shows "r = Alive c s"
  using assms by (auto simp: input_step_def Let_def REDIS_REQUEST_MAX_SIZE_def split: option.splits if_splits bind_splits)

text \<open>A turn of the loop with more bytes in the buffer: the same, or it has gone on to the state the
  turn ended in.\<close>

lemma input_step_append:
  assumes "conn_ok c" "int (length (querybuf c) + length b) < 2 ^ 28" "input_step env c s \<noteq> Some (Alive c s, False)"
  obtains (same) "input_step env (c\<lparr>querybuf := querybuf c @ b\<rparr>) s = map_option (map_prod (append_conn b) id) (input_step env c s)"
  | (further) c' where "input_step env c s = Some (Alive c' s, True)"
      "input_step env (c\<lparr>querybuf := querybuf c @ b\<rparr>) s =
        map_option (\<lambda>x. (fst x, True)) (input_step env (c'\<lparr>querybuf := querybuf c' @ b\<rparr>) s)"
proof (cases "bulklen c = - 1")
  case False
  then have b: "2 \<le> bulklen c" using assms(1) by (simp add: conn_ok_def)
  have "signed_take_bit 31 (int (length (querybuf c))) = int (length (querybuf c))"
    using assms(2) by (intro int_of_length) simp
  then have "bulklen c \<le> int (length (querybuf c))"
    using assms(3) False by (auto simp: input_step_def split: if_splits)
  from bulk_step_append [OF b this assms(2)] same show thesis by blast
next
  case line: True
  show thesis
  proof (cases "newline_pos (querybuf c)")
    case None
    then have "input_step env c s = Some (Alive c s, False)"
      using line assms(2) by (simp add: input_step_def REDIS_REQUEST_MAX_SIZE_def)
    with assms(3) show thesis by simp
  next
    case (Some p)
    define query where "query = query_line (querybuf c) p"
    define d where "d = drop (p + 1) (querybuf c)"
    define tokens where "tokens = do { t \<leftarrow> sdssplitlen query (int (length query)) [32] 1; t }"
    have step: "input_step env (c\<lparr>querybuf := q\<rparr>) s = do {
        ts \<leftarrow> tokens;
        c1 \<leftarrow> store_tokens ts (c\<lparr>argv := replicate (length ts) None\<rparr>);
        if argc c1 \<noteq> 0 then do { r \<leftarrow> processCommand env (c1\<lparr>querybuf := drop (p + 1) q\<rparr>) s; Some (r, True) }
        else Some (Alive (c1\<lparr>querybuf := drop (p + 1) q\<rparr>) s, True) }"
      if "newline_pos q = Some p" "query_line q p = query" for q
      using line that by (simp add: input_step_def tokens_def buf_last store_tokens_buf bind_map o_def Let_def cong: if_cong)
    note s1 = step [OF Some query_def [symmetric], folded d_def, simplified]
    note s2 = step [of "querybuf c @ b", unfolded newline_line [OF Some] query_def [symmetric] d_def [symmetric], OF refl refl]
    show thesis
    proof (cases "\<exists>ts c1. tokens = Some ts \<and> store_tokens ts (c\<lparr>argv := replicate (length ts) None\<rparr>) = Some c1")
      case False
      then have "input_step env c s = None" "input_step env (c\<lparr>querybuf := querybuf c @ b\<rparr>) s = None"
        unfolding s1 s2 by (cases tokens; auto)+
      then show thesis using same by simp
    next
      case True
      then obtain ts c1 where t: "tokens = Some ts" "store_tokens ts (c\<lparr>argv := replicate (length ts) None\<rparr>) = Some c1" by blast
      then have c1: "bulklen c1 = - 1" using store_tokens_state line by fastforce
      show thesis
      proof (cases "argc c1 = 0")
        case True
        then show thesis using same s1 s2 t by simp
      next
        case False
        from c1 show thesis
        proof (cases rule: processCommand_cases [of c1 env s])
          case free
          from free_append [OF this, of d b] show thesis
            using same s1 s2 t False by (simp add: map_bind bind_map o_def)
        next
          case (waits c2)
          then have e: "input_step env (c\<lparr>querybuf := querybuf c @ b\<rparr>) s =
              map_option (\<lambda>x. (fst x, True)) (input_step env (c2\<lparr>querybuf := d @ b\<rparr>) s)"
            "input_step env c s = map_option (\<lambda>x. (fst x, True)) (input_step env (c2\<lparr>querybuf := d\<rparr>) s)"
            using s1 s2 t False by (simp_all add: bind_map o_def) (simp_all add: map_conv_bind_option o_def)
          have l: "int (length d + length b) < 2 ^ 28" using assms(2) by (simp add: d_def)
          show thesis
          proof (cases "bulklen c2 \<le> int (length d)")
            case True
            from bulk_step_append [of "c2\<lparr>querybuf := d\<rparr>" b env s] True waits(1) l
            have "input_step env (c2\<lparr>querybuf := d @ b\<rparr>) s =
              map_option (map_prod (append_conn b) id) (input_step env (c2\<lparr>querybuf := d\<rparr>) s)" by simp
            then show thesis using same e by (simp add: option.map_comp o_def)
          next
            case False
            have "signed_take_bit 31 (int (length d)) = int (length d)" using l by (intro int_of_length) simp
            then have "input_step env (c2\<lparr>querybuf := d\<rparr>) s = Some (Alive (c2\<lparr>querybuf := d\<rparr>) s, False)"
              using False waits(1) by (simp add: input_step_def)
            then show thesis using further [of "c2\<lparr>querybuf := d\<rparr>"] e by simp
          qed
        qed
      qed
    qed
  qed
qed

fun go_on :: "'w senv \<Rightarrow> 'w conn \<Rightarrow> 'w conn option" where
  "go_on env Freed = Some Freed"
| "go_on env (Alive c s) = processInputBuffer env c s"

lemma processInputBuffer_wait:
  "input_step env c s = Some (Alive c s, False) \<or> blocked s \<Longrightarrow> processInputBuffer env c s = Some (Alive c s)"
  by (subst processInputBuffer.simps) auto

lemma empty_buffer_waits:
  assumes "querybuf c = []" "conn_ok c"
  shows "processInputBuffer env c s = Some (Alive c s)"
  using assms by (intro processInputBuffer_wait) (auto simp: input_step_def conn_ok_def REDIS_REQUEST_MAX_SIZE_def)

lemma processInputBuffer_step:
  assumes "\<not> blocked s" "conn_ok c" "int (length (querybuf c)) < 2 ^ 28"
  shows "processInputBuffer env c s = do { x \<leftarrow> input_step env c s; go_on env (fst x) }"
proof (cases "input_step env c s")
  case None
  then show ?thesis using assms(1) by (subst processInputBuffer.simps) simp
next
  case (Some x)
  obtain r w where x: "x = (r, w)" by (cases x)
  show ?thesis
  proof (cases w)
    case False
    then have "x = (Alive c s, False)" using input_step_wait [of env c s r] Some x assms(3) by simp
    then show ?thesis using processInputBuffer_wait [of env c s] Some by simp
  next
    case True
    show ?thesis
    proof (cases r)
      case Freed
      then show ?thesis using Some x assms(1) by (subst processInputBuffer.simps) simp
    next
      case (Alive c' s')
      have "input_step env c s = Some (Alive c' s', True)" using Some x True Alive by simp
      then have "conn_ok c'" using input_step_state [of env c s c' s'] assms(2,3) by auto
      then show ?thesis using Some x True Alive assms(1) empty_buffer_waits [of c' env s']
        by (subst processInputBuffer.simps) simp
    qed
  qed
qed

lemma processInputBuffer_append:
  assumes "conn_ok c" "int (length (querybuf c) + length b) < 2 ^ 28"
  shows "processInputBuffer env (c\<lparr>querybuf := querybuf c @ b\<rparr>) s =
    do { r \<leftarrow> processInputBuffer env c s; go_on env (append_conn b r) }"
  using assms
proof (induction "length (querybuf c)" arbitrary: c s rule: less_induct)
  case less
  let ?e = "\<lambda>c. c\<lparr>querybuf := querybuf c @ b\<rparr>"
  have ok: "conn_ok (?e c)" "int (length (querybuf (?e c))) < 2 ^ 28" "int (length (querybuf c)) < 2 ^ 28"
    using less.prems by (simp_all add: conn_ok_def)
  show ?case
  proof (cases "blocked s \<or> input_step env c s = Some (Alive c s, False)")
    case True
    then show ?thesis using processInputBuffer_wait [of env c s] by auto
  next
    case False
    then have nb: "\<not> blocked s" and nw: "input_step env c s \<noteq> Some (Alive c s, False)" by simp_all
    note C = processInputBuffer_step [OF nb less.prems(1) ok(3), of env]
    have rest: "processInputBuffer env (?e c') s' = do { r \<leftarrow> processInputBuffer env c' s'; go_on env (append_conn b r) }"
      if "input_step env c s = Some (Alive c' s', w)" for c' s' w
    proof -
      have "w" using input_step_wait [of env c s "Alive c' s'"] that nw ok(3) by (cases w) auto
      with that have "length (querybuf c') < length (querybuf c) \<and> conn_ok c'"
        using input_step_state [of env c s c' s'] less.prems(1) ok(3) by simp
      then show ?thesis using less.hyps [of c' s'] less.prems(2) by simp
    qed
    from less.prems nw show ?thesis
    proof (cases rule: input_step_append)
      case same
      have "processInputBuffer env (?e c) s = do { x \<leftarrow> input_step env c s; go_on env (append_conn b (fst x)) }"
        using processInputBuffer_step [OF nb ok(1,2), of env] same by (simp add: bind_map o_def)
      also have "\<dots> = do { x \<leftarrow> input_step env c s; r \<leftarrow> go_on env (fst x); go_on env (append_conn b r) }"
      proof (cases "input_step env c s")
        case (Some x)
        obtain r w where x: "x = (r, w)" by (cases x)
        then show ?thesis using Some rest by (cases r) auto
      qed simp
      finally show ?thesis unfolding C by (cases "input_step env c s") simp_all
    next
      case (further c')
      have "length (querybuf c') < length (querybuf c) \<and> conn_ok c'"
        using input_step_state [OF further(1) less.prems(1)] ok(3) by simp
      then have ok': "conn_ok (?e c')" "int (length (querybuf (?e c'))) < 2 ^ 28"
        using less.prems(2) by (simp_all add: conn_ok_def)
      have "processInputBuffer env (?e c) s = processInputBuffer env (?e c') s"
        using processInputBuffer_step [OF nb ok(1,2), of env] processInputBuffer_step [OF nb ok', of env] further(2)
        by (simp add: bind_map o_def)
      then show ?thesis using rest [OF further(1)] C further(1) by simp
    qed
  qed
qed

lemma processInputBuffer_state:
  assumes "processInputBuffer env c s = Some (Alive c' s')" "conn_ok c" "int (length (querybuf c)) < 2 ^ 28"
  shows "conn_ok c' \<and> length (querybuf c') \<le> length (querybuf c)"
  using assms
proof (induction "length (querybuf c)" arbitrary: c s rule: less_induct)
  case less
  show ?case
  proof (cases "blocked s \<or> input_step env c s = Some (Alive c s, False)")
    case True
    then show ?thesis using processInputBuffer_wait [of env c s] less.prems by auto
  next
    case False
    then obtain r w where x: "input_step env c s = Some (r, w)" "go_on env r = Some (Alive c' s')"
      using processInputBuffer_step [of s c env] less.prems by (auto split: bind_splits)
    then have "w" using input_step_wait [of env c s r] False less.prems(3) by (cases w) auto
    moreover obtain c1 s1 where r: "r = Alive c1 s1" using x(2) by (cases r) simp_all
    ultimately have "length (querybuf c1) < length (querybuf c) \<and> conn_ok c1"
      using input_step_state [of env c s c1 s1] x(1) less.prems(2,3) by simp
    then show ?thesis using less.hyps [of c1 s1] x(2) r less.prems(3) by fastforce
  qed
qed

lemma feed_concat:
  assumes "conn_ok c" "int (length (querybuf c) + length (concat bs)) < 2 ^ 28" "bs \<noteq> []" "\<forall>b \<in> set bs. b \<noteq> []"
  shows "feed env bs c s = processInputBuffer env (c\<lparr>querybuf := querybuf c @ concat bs\<rparr>) s"
  using assms
proof (induction bs arbitrary: c s)
  case (Cons b bs)
  let ?c = "c\<lparr>querybuf := querybuf c @ b\<rparr>"
  have ok: "conn_ok ?c" "int (length (querybuf ?c) + length (concat bs)) < 2 ^ 28"
    using Cons.prems(1,2) by (simp_all add: conn_ok_def)
  have eq: "feed env (b # bs) c s = do { r \<leftarrow> processInputBuffer env ?c s; case r of Freed \<Rightarrow> Some Freed | Alive c' s' \<Rightarrow> feed env bs c' s' }"
    using Cons.prems(4) by (simp add: readQueryFromClient_def)
  show ?case
  proof (cases "bs = []")
    case True
    then show ?thesis unfolding eq by (cases "processInputBuffer env ?c s") (auto split: conn.split)
  next
    case False
    have "(case r of Freed \<Rightarrow> Some Freed | Alive c' s' \<Rightarrow> feed env bs c' s') = go_on env (append_conn (concat bs) r)"
      if r: "processInputBuffer env ?c s = Some r" for r
    proof (cases r)
      case (Alive c' s')
      have "conn_ok c' \<and> length (querybuf c') \<le> length (querybuf ?c)"
        using r Alive ok by (intro processInputBuffer_state [of env ?c s]) simp_all
      then show ?thesis using Cons.IH [of c' s'] Cons.prems(4) ok(2) False Alive by simp
    qed simp
    then have "feed env (b # bs) c s = do { r \<leftarrow> processInputBuffer env ?c s; go_on env (append_conn (concat bs) r) }"
      unfolding eq by (cases "processInputBuffer env ?c s") simp_all
    also have "\<dots> = processInputBuffer env (?c\<lparr>querybuf := querybuf ?c @ concat bs\<rparr>) s"
      using processInputBuffer_append [OF ok, of env s] by simp
    finally show ?thesis by simp
  qed
qed simp

text \<open>C13: How the bytes a client sends are cut into pieces when they arrive does not matter: the commands executed,
  the replies, the state of the parser and also the accesses outside an array are the same. The bytes
  may be anything; there are fewer than \<open>2 ^ 28\<close>, the longest line accepted.\<close>

theorem pieces_do_not_matter:
  assumes "concat bs = concat bs'" "\<forall>b \<in> set bs. b \<noteq> []" "\<forall>b \<in> set bs'. b \<noteq> []"
    and "int (length (concat bs)) < 2 ^ 28"
  shows "feed env bs createClient s = feed env bs' createClient s"
proof (cases "concat bs = []")
  case True
  then have "bs = []" "bs' = []" using assms by (cases bs; cases bs'; auto)+
  then show ?thesis by simp
next
  case False
  then have "bs \<noteq> []" "bs' \<noteq> []" using assms(1) by auto
  moreover have "conn_ok createClient" "querybuf createClient = []" by (simp_all add: conn_ok_def createClient_def)
  ultimately show ?thesis using feed_concat [of createClient bs env s] feed_concat [of createClient bs' env s] assms by simp
qed

section \<open>Requests in the multi bulk form\<close>

definition encode_arg :: "bytes \<Rightarrow> bytes" where
  "encode_arg a = 36 # dec_text (int (length a)) @ crlf @ a @ crlf"

definition encode_request :: "bytes list \<Rightarrow> bytes" where
  "encode_request args = 42 # dec_text (int (length args)) @ crlf @ concat (map encode_arg args)"

text \<open>What a request does: the checks of its name and number of arguments, then the command.\<close>

definition request :: "'w senv \<Rightarrow> bytes list \<Rightarrow> 'w session \<Rightarrow> 'w session option" where
  "request env args s =
     (case lookupCommand (hd args) of
        None \<Rightarrow> Some (addReplySds s (ascii ''-ERR unknown command '' @ [39] @ c_string (hd args) @ [39] @ crlf))
      | Some cmd \<Rightarrow>
          if (arity cmd > 0 \<and> arity cmd \<noteq> int (length args)) \<or> int (length args) < - arity cmd
          then Some (addReplySds s (ascii ''-ERR wrong number of arguments for '' @ [39] @ ascii (cname cmd) @ [39] @ ascii '' command'' @ crlf))
          else run_command env cmd args s)"

primrec run_requests :: "'w senv \<Rightarrow> bytes list list \<Rightarrow> 'w session \<Rightarrow> 'w session option" where
  "run_requests env [] s = Some s"
| "run_requests env (r # rs) s = do { s' \<leftarrow> request env r s; run_requests env rs s' }"

definition request_ok :: "bytes list \<Rightarrow> bool" where
  "request_ok args \<longleftrightarrow> args \<noteq> [] \<and> int (length args) < 2 ^ 31 \<and> (\<forall>a \<in> set args. int (length a) \<le> max_bulk)
     \<and> \<not> strcaseeq (hd args) (ascii ''quit'')"

text \<open>A client between two commands.\<close>

definition idle :: "client \<Rightarrow> bool" where
  "idle c \<longleftrightarrow> bulklen c = - 1 \<and> multibulk c = 0 \<and> argc c = 0 \<and> mbargc c = 0"

lemma dec_text_bytes: "is_long v \<Longrightarrow> 0 \<le> v \<Longrightarrow> x \<in> set (dec_text v) \<Longrightarrow> 48 \<le> x \<and> x \<le> 57"
  by (erule dec_textE) auto

lemma newline_pos_line:
  "10 \<notin> set l \<Longrightarrow> 0 \<notin> set l \<Longrightarrow> newline_pos (l @ crlf @ rest) = Some (length l + 1)"
  by (induction l) (auto simp: crlf_def)

lemma join_head: "ts \<noteq> [] \<Longrightarrow> x \<notin> set (join [x] ts) \<Longrightarrow> ts = [join [x] ts]"
  by (cases "tl ts"; cases ts) (auto simp: join_Cons)

lemma split_one_token:
  assumes "l \<noteq> []" "32 \<notin> set l"
  shows "sdssplitlen l (int (length l)) [32] 1 = Some (Some [l])"
proof -
  obtain ts where ts: "sdssplitlen l (int (length l)) [32] 1 = Some (Some ts)" "join [32] ts = l" "ts \<noteq> []"
    using sdssplitlen_ok [of 1 "[32]" "int (length l)" l] assms(1) by auto
  then show ?thesis using join_head [of ts 32] assms(2) by simp
qed

lemma line_step:
  assumes "querybuf c = l @ crlf @ rest" "bulklen c = - 1" "argc c = 0" "l \<noteq> []" "10 \<notin> set l" "0 \<notin> set l" "32 \<notin> set l"
  shows "input_step env c s = do { r \<leftarrow> processCommand env (c\<lparr>querybuf := rest, argv := [Some l], argc := 1\<rparr>) s; Some (r, True) }"
proof -
  have "query_line (l @ crlf @ rest) (length l + 1) = l" by (simp add: query_line_def crlf_def nth_append)
  moreover have "drop (length l + 1 + 1) (l @ crlf @ rest) = rest" by (simp add: crlf_def)
  ultimately show ?thesis
    using newline_pos_line [OF assms(5,6), of rest] split_one_token [OF assms(4,7)] assms(1-4)
    by (simp add: input_step_def slot_store_def)
qed

lemma small_long: "0 \<le> v \<Longrightarrow> v < 2 ^ 31 \<Longrightarrow> is_long v"
  by (simp add: is_long_def)

lemma atoi_dec: "0 \<le> v \<Longrightarrow> v < 2 ^ 31 \<Longrightarrow> atoi (dec_text v @ [0]) = Some v"
  using strtoll10_dec_text [of v 0 "[]"] small_long [of v] signed_take_bit_int_eq_self [of 31 v] by (simp add: atoi_def)

lemma number_line:
  assumes "0 \<le> v" "v < 2 ^ 31" "h \<noteq> 10" "h \<noteq> 0" "h \<noteq> 32"
  shows "10 \<notin> set (h # dec_text v)" "0 \<notin> set (h # dec_text v)" "32 \<notin> set (h # dec_text v)"
  using dec_text_bytes [OF small_long [OF assms(1,2)] assms(1), of 10] dec_text_bytes [OF small_long [OF assms(1,2)] assms(1), of 0]
    dec_text_bytes [OF small_long [OF assms(1,2)] assms(1), of 32] assms(3-) by auto

text \<open>In the middle of a request: \<open>have\<close> are the arguments read, \<open>n\<close> are to come.\<close>

definition mid :: "client \<Rightarrow> bytes list \<Rightarrow> nat \<Rightarrow> bytes \<Rightarrow> bool" where
  "mid c have n q \<longleftrightarrow> bulklen c = - 1 \<and> multibulk c = int n \<and> argc c = 0 \<and> mbargc c = length have
     \<and> length have \<le> length (mbargv c) \<and> take (length have) (mbargv c) = map Some have \<and> querybuf c = q"

lemma start_request:
  assumes "idle c" "querybuf c = 42 # dec_text (int n) @ crlf @ q" "0 < n" "int n < 2 ^ 31"
  obtains c' where "input_step env c s = Some (Alive c' s, True)" "mid c' [] n q"
proof -
  have l: "10 \<notin> set (42 # dec_text (int n))" "0 \<notin> set (42 # dec_text (int n))" "32 \<notin> set (42 # dec_text (int n))"
    using number_line [of "int n" 42] assms(4) by simp_all
  define c' where "c' = c\<lparr>querybuf := q, argv := [None], argc := 0, multibulk := int n\<rparr>"
  have "processCommand env (c\<lparr>querybuf := q, argv := [Some (42 # dec_text (int n))], argc := 1\<rparr>) s = Some (Alive c' s)"
    using assms(1,3,4) atoi_dec [of "int n"]
    by (simp add: processCommand_def multibulk_start_def slot_object_def slot_release_def idle_def c'_def buf_last)
  moreover have "mid c' [] n q" using assms(1) by (simp add: mid_def c'_def idle_def)
  ultimately show thesis
    using that line_step [of c "42 # dec_text (int n)" q env s] assms(1,2) l by (simp add: idle_def)
qed

lemma length_line:
  assumes "mid c have n (36 # dec_text (int (length a)) @ crlf @ q)" "0 < n" "int (length a) \<le> max_bulk"
  shows "input_step env c s =
    Some (Alive (c\<lparr>querybuf := q, argv := [None], bulklen := int (length a) + 2\<rparr>) s, True)"
proof -
  let ?l = "36 # dec_text (int (length a))"
  have b: "int (length a) < 2 ^ 31" using assms(3) by (simp add: max_bulk_def)
  have l: "10 \<notin> set ?l" "0 \<notin> set ?l" "32 \<notin> set ?l" using number_line [of "int (length a)" 36] b by simp_all
  have c: "bulklen c = - 1" "argc c = 0" "multibulk c \<noteq> 0" using assms(1,2) by (simp_all add: mid_def)
  have "processCommand env (c\<lparr>querybuf := q, argv := [Some ?l], argc := 1\<rparr>) s =
      Some (Alive (c\<lparr>querybuf := q, argv := [None], argc := 0, bulklen := int (length a) + 2\<rparr>) s)"
    using c b assms(3) atoi_dec [of "int (length a)"]
    by (simp add: processCommand_def multibulk_length_def slot_object_def slot_release_def buf_last)
  moreover have "c\<lparr>querybuf := q, argv := [None], argc := 0, bulklen := int (length a) + 2\<rparr> =
      c\<lparr>querybuf := q, argv := [None], bulklen := int (length a) + 2\<rparr>" using c(2) by (cases c) simp
  ultimately show ?thesis using line_step [of c ?l q env s] c l assms(1) by (simp add: mid_def)
qed

lemma take_snoc:
  assumes "length xs \<le> length ys" "take (length xs) ys = map Some xs"
  shows "(take (length xs + 1) (ys @ replicate (length xs + 1) None))[length xs := Some x] = map Some (xs @ [x])"
proof -
  have "length xs < length (ys @ replicate (length xs + 1) None)" by simp
  from take_Suc_conv_app_nth [OF this] obtain z where
    "take (length xs + 1) (ys @ replicate (length xs + 1) None) = map Some xs @ [z]" using assms by simp
  moreover have "(map Some xs @ [z])[length xs := Some x] = map Some (xs @ [x])" by (simp add: list_update_append)
  ultimately show ?thesis by simp
qed

lemma argument_read:
  assumes "mid c have (Suc n) q0" "querybuf c1 = a @ crlf @ q" "c1 = c\<lparr>querybuf := a @ crlf @ q, argv := [None], bulklen := int (length a) + 2\<rparr>"
    "int (length (querybuf c1)) < 2 ^ 28"
  shows "\<exists>c'. input_step env c1 s =
      (if n = 0 then do { r \<leftarrow> process_args env c' s; Some (r, True) } else Some (Alive c' s, True))
    \<and> (if n = 0 then argv c' = map Some (have @ [a]) \<and> argc c' = length have + 1 \<and> mbargc c' = 0 \<and> bulklen c' = 0 \<and> multibulk c' = 0
         \<and> querybuf c' = q
       else mid c' (have @ [a]) n q)"
proof -
  have m: "bulklen c = - 1" "multibulk c = int (Suc n)" "argc c = 0" "mbargc c = length have"
    "length have \<le> length (mbargv c)" "take (length have) (mbargv c) = map Some have"
    using assms(1) by (simp_all add: mid_def)
  define sl where "sl = map Some (have @ [a])"
  have st: "slot_store (take (mbargc c + 1) (mbargv c @ replicate (mbargc c + 1) None)) (mbargc c) (Some a) = Some sl"
    using take_snoc [OF m(5,6), of a] m(4) by (simp add: slot_store_def sl_def)
  define c2 where "c2 = c\<lparr>bulklen := int (length a) + 2, argv := [Some a], argc := 1, querybuf := q\<rparr>"
  have step: "input_step env c1 s = do { r \<leftarrow> processCommand env c2 s; Some (r, True) }"
  proof -
    have "signed_take_bit 31 (int (length (a @ crlf @ q))) = int (length (a @ crlf @ q))"
      using assms(2,4) by (intro int_of_length) simp
    moreover have "nat (int (length a) + 2 - 2) = length a" "nat (int (length a) + 2) = length a + 2" by simp_all
    ultimately show ?thesis
      using m(3) by (simp add: input_step_def assms(3) slot_store_def buf_last c2_def crlf_def)
  qed
  define c3 where "c3 = (if n = 0
    then c2\<lparr>mbargv := [Some a], mbargc := 0, multibulk := 0, argv := sl, argc := length have + 1, bulklen := 0\<rparr>
    else c2\<lparr>mbargv := sl, mbargc := length have + 1, argc := 0, multibulk := int n, bulklen := - 1\<rparr>)"
  have arg: "multibulk_argument c2 = Some c3"
    using st m(2,3,4) by (cases c) (simp add: multibulk_argument_def c2_def c3_def Let_def)
  have "processCommand env c2 s = (if n = 0 then process_args env c3 s else Some (Alive c3 s))"
    using arg m(2) by (simp add: processCommand_def) (simp add: c2_def c3_def)
  then show ?thesis
    using step by (intro exI [of _ c3]) (simp add: c3_def c2_def mid_def sl_def)
qed

lemma those_Some: "those (map Some xs) = Some xs"
  by (induction xs) simp_all

lemma finish_request:
  assumes "argv c = map Some args" "argc c = length args" "mbargc c = 0" "bulklen c = 0" "args \<noteq> []"
    "\<not> strcaseeq (hd args) (ascii ''quit'')"
  shows "\<exists>c'. idle c' \<and> querybuf c' = querybuf c \<and> process_args env c s = map_option (Alive c') (request env args s)"
proof -
  define c' where "c' = c\<lparr>argv := map (\<lambda>_. None) (argv c), argc := 0, mbargv := map (\<lambda>_. None) (mbargv c), mbargc := 0,
    bulklen := - 1, multibulk := 0\<rparr>"
  have live: "live_objects (argv c) (argc c) = Some args" "live_objects (mbargv c) (mbargc c) = Some []"
    using assms(1-3) those_Some [of args] by (simp_all add: live_objects_def)
  then have r: "resetClient c = Some c'" by (simp add: resetClient_def freeClientArgv_def c'_def)
  have name: "slot_object (argv c) 0 = Some (hd args)" using assms(1,5) by (cases args) (simp_all add: slot_object_def)
  have "process_args env c s = map_option (Alive c') (request env args s)"
  proof (cases "lookupCommand (hd args)")
    case None
    then show ?thesis using name assms(6) r by (simp add: process_args_def reject_def request_def)
  next
    case (Some cmd)
    then show ?thesis
      using name assms(2,4,6) r live by (cases "run_command env cmd args s")
        (auto simp: process_args_def reject_def request_def execute_def)
  qed
  then show ?thesis by (intro exI [of _ c']) (simp add: c'_def idle_def)
qed

lemma length_encode_arg: "length (encode_arg a @ q) = length (36 # dec_text (int (length a)) @ crlf @ a @ crlf @ q)"
  by (simp add: encode_arg_def)

lemma parse_arguments:
  assumes "mid c have (length todo) (concat (map encode_arg todo) @ q)" "todo \<noteq> []" "\<forall>a \<in> set todo. int (length a) \<le> max_bulk"
    "\<not> strcaseeq (hd (have @ todo)) (ascii ''quit'')" "\<not> blocked s" "int (length (concat (map encode_arg todo) @ q)) < 2 ^ 28"
  shows "\<exists>c'. idle c' \<and> querybuf c' = q \<and> processInputBuffer env c s = do { s' \<leftarrow> request env (have @ todo) s; processInputBuffer env c' s' }"
  using assms
proof (induction todo arbitrary: c "have")
  case (Cons a todo)
  define q1 where "q1 = concat (map encode_arg todo) @ q"
  have qs: "concat (map encode_arg (a # todo)) @ q = 36 # dec_text (int (length a)) @ crlf @ a @ crlf @ q1"
    by (simp add: encode_arg_def q1_def)
  have m: "mid c have (Suc (length todo)) (36 # dec_text (int (length a)) @ crlf @ a @ crlf @ q1)"
    using Cons.prems(1) unfolding qs by simp
  define c1 where "c1 = c\<lparr>querybuf := a @ crlf @ q1, argv := [None], bulklen := int (length a) + 2\<rparr>"
  have ok: "conn_ok c" "int (length (querybuf c)) < 2 ^ 28" "conn_ok c1" "int (length (querybuf c1)) < 2 ^ 28"
    using m Cons.prems(6) unfolding qs by (simp_all add: mid_def conn_ok_def c1_def)
  have "processInputBuffer env c s = processInputBuffer env c1 s"
    using length_line [OF m, of env s] Cons.prems(3) processInputBuffer_step [OF Cons.prems(5) ok(1,2), of env] by (simp add: c1_def)
  also have "\<dots> = do { x \<leftarrow> input_step env c1 s; go_on env (fst x) }"
    by (rule processInputBuffer_step [OF Cons.prems(5) ok(3,4)])
  finally have eq: "processInputBuffer env c s = do { x \<leftarrow> input_step env c1 s; go_on env (fst x) }" .
  from argument_read [OF m _ c1_def ok(4), of env s] obtain c' where c':
    "input_step env c1 s = (if length todo = 0 then do { r \<leftarrow> process_args env c' s; Some (r, True) } else Some (Alive c' s, True))"
    "if length todo = 0 then argv c' = map Some (have @ [a]) \<and> argc c' = length have + 1 \<and> mbargc c' = 0 \<and> bulklen c' = 0
       \<and> multibulk c' = 0 \<and> querybuf c' = q1 else mid c' (have @ [a]) (length todo) q1"
    by (auto simp: c1_def)
  show ?case
  proof (cases "todo = []")
    case True
    then have "\<exists>c2. idle c2 \<and> querybuf c2 = querybuf c' \<and> process_args env c' s = map_option (Alive c2) (request env (have @ [a]) s)"
      using c'(2) Cons.prems(4) by (intro finish_request) simp_all
    then obtain c2 where c2: "idle c2" "querybuf c2 = q" "process_args env c' s = map_option (Alive c2) (request env (have @ [a]) s)"
      using c'(2) True by (auto simp: q1_def)
    then show ?thesis using eq c'(1) True by (intro exI [of _ c2]) (cases "request env (have @ [a]) s"; simp)
  next
    case False
    then have "\<exists>c2. idle c2 \<and> querybuf c2 = q \<and>
        processInputBuffer env c' s = do { s' \<leftarrow> request env ((have @ [a]) @ todo) s; processInputBuffer env c2 s' }"
      using c'(2) Cons.prems(3-6) by (intro Cons.IH) (simp_all add: q1_def)
    then show ?thesis using eq c'(1) False by simp
  qed
qed simp

lemma parse_request:
  assumes "idle c" "querybuf c = encode_request args @ q" "request_ok args" "\<not> blocked s" "int (length (querybuf c)) < 2 ^ 28"
  shows "\<exists>c'. idle c' \<and> querybuf c' = q \<and> processInputBuffer env c s = do { s' \<leftarrow> request env args s; processInputBuffer env c' s' }"
proof -
  have buf: "querybuf c = 42 # dec_text (int (length args)) @ crlf @ concat (map encode_arg args) @ q"
    using assms(2) by (simp add: encode_request_def)
  obtain c1 where c1: "input_step env c s = Some (Alive c1 s, True)" "mid c1 [] (length args) (concat (map encode_arg args) @ q)"
    using start_request [OF assms(1) buf, of env s] assms(3) by (auto simp: request_ok_def)
  have "conn_ok c" using assms(1) by (simp add: idle_def conn_ok_def)
  then have "processInputBuffer env c s = processInputBuffer env c1 s"
    using processInputBuffer_step [OF assms(4) _ assms(5), of env] c1(1) by simp
  moreover have "\<exists>c'. idle c' \<and> querybuf c' = q \<and>
      processInputBuffer env c1 s = do { s' \<leftarrow> request env ([] @ args) s; processInputBuffer env c' s' }"
    using assms(3-5) by (intro parse_arguments [OF c1(2)]) (auto simp: request_ok_def buf)
  ultimately show ?thesis by simp
qed

section \<open>Sequences of requests\<close>

text \<open>Commands that block a client (\<open>BLPOP\<close>, \<open>BRPOP\<close>) leave the rest of its input for later; here there are none.\<close>

definition never_blocks :: "'w senv \<Rightarrow> bool" where
  "never_blocks env \<longleftrightarrow> (\<forall>p args n w rs n' b w'. command_proc env p args (n, False, w) = Some (rs, n', b, w') \<longrightarrow> \<not> b)"

lemma other_command_unblocked:
  assumes "never_blocks env" "\<not> blocked s" "other_command env p args s = Some s'"
  shows "\<not> blocked s'"
proof -
  obtain rs n b w where "command_proc env p args (subscriptions s, False, world s) = Some (rs, n, b, w)"
    "s' = s\<lparr>reply := reply s @ rs, subscriptions := n, blocked := b, world := w\<rparr>"
    using assms(2,3) by (auto simp: other_command_def split: bind_splits)
  moreover have "\<not> b" using assms(1) calculation(1) unfolding never_blocks_def by blast
  ultimately show ?thesis by simp
qed

lemma call_plain_unblocked:
  assumes "never_blocks env" "\<not> blocked s" "call_plain env cmd args s = Some s'"
  shows "\<not> blocked s'"
  using assms other_command_unblocked [OF assms(1,2)]
  by (auto simp: call_plain_def authCommand_def multiCommand_def addReplySds_def split: bind_splits if_splits option.splits list.splits sobj.splits)

lemma exec_loop_unblocked: "never_blocks env \<Longrightarrow> \<not> blocked s \<Longrightarrow> exec_loop env qs s = Some s' \<Longrightarrow> \<not> blocked s'"
  by (induction qs arbitrary: s) (auto dest: call_plain_unblocked split: bind_splits)

lemma call_unblocked:
  assumes "never_blocks env" "\<not> blocked s" "call env cmd args s = Some s'"
  shows "\<not> blocked s'"
proof (cases "proc cmd = ''execCommand'' \<and> multi_flag s")
  case True
  then obtain s1 where "exec_loop env (mstate s) (addReplySds s (ascii ''*'' @ dec_text (int (length (mstate s))) @ crlf)) = Some s1"
    "blocked s' = blocked s1"
    using assms(3) by (auto simp: call_def execCommand_def split: bind_splits)
  moreover have "\<not> blocked (addReplySds s m)" for m using assms(2) by (simp add: addReplySds_def)
  ultimately show ?thesis using exec_loop_unblocked [OF assms(1)] by metis
next
  case False
  then show ?thesis
    using assms(2,3) call_plain_unblocked [OF assms(1,2)]
    by (auto simp: call_def execCommand_def discardCommand_def addReplySds_def split: if_split_asm)
qed

lemma run_command_unblocked:
  assumes "never_blocks env" "\<not> blocked s" "run_command env cmd args s = Some s'"
  shows "\<not> blocked s'"
proof -
  define s1 where "s1 = (if maxmemory env \<noteq> 0 then s\<lparr>world := freeMemoryIfNeeded env (world s)\<rparr> else s)"
  define outside where
    "outside = (proc cmd \<notin> {''subscribeCommand'', ''unsubscribeCommand'', ''psubscribeCommand'', ''punsubscribeCommand''})"
  have b: "\<not> blocked s1" using assms(2) by (simp add: s1_def)
  have "(\<exists>m. s' = addReplySds s m \<or> s' = addReplySds s1 m \<or> (\<exists>objs. s' = addReplySds (queueMultiCommand cmd objs s1) m))
      \<or> (\<exists>objs. call env cmd objs s1 = Some s')"
    using assms(3) unfolding run_command_def Let_def s1_def [symmetric] outside_def [symmetric]
    by (auto split: if_split_asm bind_splits)
  then show ?thesis
    using assms(2) b call_unblocked [OF assms(1) b] by (auto simp: addReplySds_def queueMultiCommand_def)
qed

lemma request_unblocked:
  assumes "never_blocks env" "\<not> blocked s" "request env args s = Some s'"
  shows "\<not> blocked s'"
  using assms(2,3) run_command_unblocked [OF assms(1,2)] by (auto simp: request_def addReplySds_def split: option.splits if_splits)

lemma parse_requests:
  assumes "never_blocks env" "\<not> blocked s" "\<forall>r \<in> set rs. request_ok r" "idle c" "querybuf c = concat (map encode_request rs)"
    "int (length (querybuf c)) < 2 ^ 28"
  shows "\<exists>c'. idle c' \<and> querybuf c' = [] \<and> processInputBuffer env c s = map_option (Alive c') (run_requests env rs s)"
  using assms(2-)
proof (induction rs arbitrary: c s)
  case Nil
  then show ?case using empty_buffer_waits [of c env s] by (intro exI [of _ c]) (simp add: idle_def conn_ok_def)
next
  case (Cons r rs)
  obtain c1 where c1: "idle c1" "querybuf c1 = concat (map encode_request rs)"
    "processInputBuffer env c s = do { s' \<leftarrow> request env r s; processInputBuffer env c1 s' }"
    using parse_request [OF Cons.prems(3), of r "concat (map encode_request rs)" s env] Cons.prems by auto
  show ?case
  proof (cases "request env r s")
    case None
    then show ?thesis using c1(3) by (intro exI [of _ createClient]) (simp add: createClient_def idle_def)
  next
    case (Some s')
    have "\<exists>c'. idle c' \<and> querybuf c' = [] \<and> processInputBuffer env c1 s' = map_option (Alive c') (run_requests env rs s')"
      using request_unblocked [OF assms(1) Cons.prems(1) Some] Cons.prems c1 by (intro Cons.IH) simp_all
    then show ?thesis using c1(3) Some by auto
  qed
qed

lemma requests_fed:
  assumes "never_blocks env" "\<not> blocked s" "\<forall>r \<in> set rs. request_ok r"
    and "concat bs = concat (map encode_request rs)" "\<forall>b \<in> set bs. b \<noteq> []" "int (length (concat bs)) < 2 ^ 28"
  shows "\<exists>c'. idle c' \<and> querybuf c' = [] \<and> feed env bs createClient s = map_option (Alive c') (run_requests env rs s)"
proof (cases "bs = []")
  case True
  then have "rs = []" using assms(4) by (cases rs) (auto simp: encode_request_def)
  then show ?thesis using True by (intro exI [of _ createClient]) (simp add: createClient_def idle_def)
next
  case False
  have c: "conn_ok createClient" "querybuf createClient = []" "idle createClient"
    by (simp_all add: conn_ok_def createClient_def idle_def)
  have "feed env bs createClient s = processInputBuffer env (createClient\<lparr>querybuf := concat bs\<rparr>) s"
    using feed_concat [OF c(1) _ False assms(5), of env s] c(2) assms(6) by simp
  moreover have "\<exists>c'. idle c' \<and> querybuf c' = [] \<and>
      processInputBuffer env (createClient\<lparr>querybuf := concat bs\<rparr>) s = map_option (Alive c') (run_requests env rs s)"
    using c(3) assms by (intro parse_requests) (simp_all add: idle_def)
  ultimately show ?thesis by simp
qed

text \<open>C3: Requests in the multi bulk form are executed in order, each with exactly the arguments that were sent,
  whatever bytes they are made of and however the bytes arrive; nothing is left over, and the client
  is ready for the next request. There is no access outside an array or to a released
  object, except those that a command makes.\<close>

theorem requests_executed_as_sent:
  assumes "never_blocks env" "\<not> blocked s" "\<forall>r \<in> set rs. request_ok r"
    and "concat bs = concat (map encode_request rs)" "\<forall>b \<in> set bs. b \<noteq> []" "int (length (concat bs)) < 2 ^ 28"
  shows "\<exists>c'. idle c' \<and> querybuf c' = [] \<and> feed env bs createClient s = map_option (Alive c') (run_requests env rs s)"
  by (rule requests_fed [OF assms])

section \<open>The inline form\<close>

text \<open>Arguments on one line, separated by spaces; the last argument of a bulk command follows the line, which
  has its length.\<close>

definition encode_inline :: "redisCommand \<Rightarrow> bytes list \<Rightarrow> bytes" where
  "encode_inline cmd args =
     (if is_bulk cmd
      then join [32] (butlast args @ [dec_text (int (length (last args)))]) @ crlf @ last args @ crlf
      else join [32] args @ crlf)"

definition word_ok :: "bytes \<Rightarrow> bool" where
  "word_ok t \<longleftrightarrow> t \<noteq> [] \<and> 10 \<notin> set t \<and> 0 \<notin> set t \<and> 32 \<notin> set t"

lemma join_inject:
  assumes "join [x] ts = join [x] us" "ts \<noteq> []" "us \<noteq> []" "\<forall>t \<in> set ts. x \<notin> set t" "\<forall>u \<in> set us. x \<notin> set u"
  shows "ts = us"
  using assms
proof (induction ts arbitrary: us)
  case (Cons t ts)
  obtain u us' where us: "us = u # us'" using Cons.prems(3) by (cases us) auto
  have tw: "takeWhile (\<lambda>y. y \<noteq> x) (join [x] (v # vs)) = v" if "x \<notin> set v" for v vs
    using that by (cases "vs = []") (auto simp: join_Cons takeWhile_append takeWhile_eq_all_conv)
  have "t = u" using tw [of t ts] tw [of u us'] Cons.prems(1,4,5) us by simp
  moreover have "ts = us'"
    using Cons.prems us \<open>t = u\<close> Cons.IH [of us'] by (cases "ts = []"; cases "us' = []") (auto simp: join_Cons)
  ultimately show ?case using us by simp
qed simp

lemma split_words:
  assumes "ts \<noteq> []" "\<forall>t \<in> set ts. 32 \<notin> set t" "join [32] ts \<noteq> []"
  shows "sdssplitlen (join [32] ts) (int (length (join [32] ts))) [32] 1 = Some (Some ts)"
proof -
  obtain us where us: "sdssplitlen (join [32] ts) (int (length (join [32] ts))) [32] 1 = Some (Some us)" "join [32] us = join [32] ts"
    "\<forall>u \<in> set us. \<not> sublist [32] u" "us \<noteq> []"
    using sdssplitlen_ok [of 1 "[32]" "int (length (join [32] ts))" "join [32] ts"] assms(3) by auto
  have "32 \<notin> set u" if "u \<in> set us" for u
    using us(3) that by (auto simp: sublist_def in_set_conv_decomp)
  then have "us = ts" using us(2,4) assms(1,2) by (intro join_inject [of 32]) auto
  then show ?thesis using us(1) by simp
qed

lemma store_words:
  "\<forall>t \<in> set ts. t \<noteq> [] \<Longrightarrow> argv c = map Some us @ replicate (length ts) None \<Longrightarrow> argc c = length us \<Longrightarrow>
    store_tokens ts c = Some (c\<lparr>argv := map Some (us @ ts), argc := length us + length ts\<rparr>)"
proof (induction ts arbitrary: c us)
  case (Cons t ts)
  let ?c = "c\<lparr>argv := map Some (us @ [t]) @ replicate (length ts) None, argc := length (us @ [t])\<rparr>"
  have "slot_store (argv c) (argc c) (Some t) = Some (argv ?c)"
    using Cons.prems(2,3) by (simp add: slot_store_def list_update_append)
  then have "store_tokens (t # ts) c = store_tokens ts ?c" using Cons.prems(1,3) by (simp add: buf_last)
  also have "\<dots> = Some (?c\<lparr>argv := map Some ((us @ [t]) @ ts), argc := length (us @ [t]) + length ts\<rparr>)"
    using Cons.prems(1) by (intro Cons.IH) simp_all
  finally show ?case by simp
next
  case Nil
  then show ?case by (cases c) simp
qed

lemma execute_words:
  assumes "argv c = map Some args" "argc c = length args" "mbargc c = 0"
  obtains c' where "idle c'" "querybuf c' = querybuf c"
    "execute env cmd c s = map_option (Alive c') (run_command env cmd args s)"
proof -
  define c' where "c' = c\<lparr>argv := map (\<lambda>_. None) (argv c), argc := 0, mbargv := map (\<lambda>_. None) (mbargv c), mbargc := 0,
    bulklen := - 1, multibulk := 0\<rparr>"
  have live: "live_objects (argv c) (argc c) = Some args" "live_objects (mbargv c) (mbargc c) = Some []"
    using assms those_Some [of args] by (simp_all add: live_objects_def)
  then have "resetClient c = Some c'" by (simp add: resetClient_def freeClientArgv_def c'_def)
  then show thesis
    using that [of c'] live by (cases "run_command env cmd args s") (simp_all add: execute_def c'_def idle_def)
qed

lemma join_bytes: "set (join sep ts) \<subseteq> set sep \<union> \<Union> (set ` set ts)"
  by (induction sep ts rule: join.induct) auto

text \<open>The line of an inline command is cut into its words.\<close>

lemma inline_step:
  assumes "idle c" "querybuf c = join [32] ts @ crlf @ q" "ts \<noteq> []" "\<forall>t \<in> set ts. word_ok t"
  shows "input_step env c s = do {
    r \<leftarrow> processCommand env (c\<lparr>argv := map Some ts, argc := length ts, querybuf := q\<rparr>) s;
    Some (r, True) }"
proof -
  let ?l = "join [32] ts"
  have no: "10 \<notin> set ?l" "0 \<notin> set ?l"
    using assms(4) join_bytes [of "[32]" ts] by (auto simp: word_ok_def)
  have ne: "?l \<noteq> []" using assms(3,4) by (cases ts; cases "tl ts") (auto simp: join_Cons word_ok_def)
  have sp: "sdssplitlen ?l (int (length ?l)) [32] 1 = Some (Some ts)"
    using assms(3,4) ne by (intro split_words) (auto simp: word_ok_def)
  have "query_line (?l @ crlf @ q) (length ?l + 1) = ?l" "drop (length ?l + 1 + 1) (?l @ crlf @ q) = q"
    by (simp_all add: query_line_def crlf_def nth_append)
  moreover have "store_tokens ts (c\<lparr>argv := replicate (length ts) None, querybuf := q\<rparr>) =
      Some (c\<lparr>argv := map Some ts, argc := length ts, querybuf := q\<rparr>)"
    using store_words [of ts "c\<lparr>argv := replicate (length ts) None\<rparr>" "[]"] assms(1,4)
    by (simp add: store_tokens_buf idle_def word_ok_def)
  ultimately show ?thesis
    using newline_pos_line [OF no, of q] sp assms(1-3) by (simp add: input_step_def idle_def buf_last)
qed

lemma dec_text_word: "0 \<le> v \<Longrightarrow> v < 2 ^ 31 \<Longrightarrow> word_ok (dec_text v)"
  using number_line [of v 1] length_dec_text [OF small_long, of v] by (simp add: word_ok_def)

definition inline_ok :: "redisCommand \<Rightarrow> bytes list \<Rightarrow> bool" where
  "inline_ok cmd args \<longleftrightarrow> lookupCommand (hd args) = Some cmd
     \<and> \<not> (arity cmd > 0 \<and> arity cmd \<noteq> int (length args)) \<and> \<not> int (length args) < - arity cmd
     \<and> (\<forall>t \<in> set (if is_bulk cmd then butlast args else args). word_ok t)"

lemma star_no_command: "lookupCommand (42 # a) = None"
proof -
  have "list_all (\<lambda>cmd. case cname cmd of [] \<Rightarrow> False | x # _ \<Rightarrow> lower_of (of_char x) \<noteq> 42 \<and> (of_char x :: u8) \<noteq> 0) cmdTable"
    by (simp add: cmdTable_def entry_def lower_of_def)
  then have "\<not> strcaseeq (42 # a) (ascii (cname cmd))" if "cmd \<in> set cmdTable" for cmd
  proof -
    from that \<open>list_all _ _\<close> obtain x xs where "cname cmd = x # xs" "lower_of (of_char x) \<noteq> 42" "(of_char x :: u8) \<noteq> 0"
      by (cases "cname cmd") (auto simp: list_all_iff)
    moreover have "lower_of 42 = 42" by (simp add: lower_of_def)
    ultimately show ?thesis by (auto simp: strcaseeq_def c_string_def ascii_def)
  qed
  then show ?thesis by (auto simp: lookupCommand_def find_None_iff)
qed

lemma parse_inline:
  assumes "idle c" "querybuf c = encode_inline cmd args @ q" "request_ok args" "inline_ok cmd args" "\<not> blocked s"
    "int (length (querybuf c)) < 2 ^ 28"
  shows "\<exists>c'. idle c' \<and> querybuf c' = q \<and> processInputBuffer env c s = do { s' \<leftarrow> request env args s; processInputBuffer env c' s' }"
proof -
  have req: "request env args s = run_command env cmd args s" using assms(4) by (auto simp: inline_ok_def request_def)
  have ne: "args \<noteq> []" "\<not> strcaseeq (hd args) (ascii ''quit'')" using assms(3) by (simp_all add: request_ok_def)
  have lookup: "lookupCommand (hd args) = Some cmd" using assms(4) by (simp add: inline_ok_def)
  have star: "\<not> (\<exists>a. hd args = 42 # a)" using lookup star_no_command by auto
  have one: "\<exists>c'. idle c' \<and> querybuf c' = q \<and> input_step env c s = do { s' \<leftarrow> request env args s; Some (Alive c' s', True) }"
  proof (cases "is_bulk cmd")
    case False
    let ?c = "c\<lparr>argv := map Some args, argc := length args, querybuf := q\<rparr>"
    have st: "input_step env c s = do { r \<leftarrow> processCommand env ?c s; Some (r, True) }"
      using assms(2,4) False ne(1) by (intro inline_step [OF assms(1)]) (simp_all add: encode_inline_def inline_ok_def)
    obtain c' where c': "idle c'" "querybuf c' = q" "execute env cmd ?c s = map_option (Alive c') (run_command env cmd args s)"
      using execute_words [of ?c args env cmd s] assms(1) by (auto simp: idle_def)
    have name: "slot_object (argv ?c) 0 = Some (hd args)" using ne(1) by (cases args) (simp_all add: slot_object_def)
    have first: "(hd args @ [0]) ! 0 \<noteq> 42" using star by (cases "hd args") auto
    have "process_args env ?c s = execute env cmd ?c s"
      using lookup ne name False assms(4) by (auto simp: process_args_def inline_ok_def)
    then have "processCommand env ?c s = execute env cmd ?c s"
      using name first assms(1) by (auto simp: processCommand_def idle_def)
    then show ?thesis using st c' req by (intro exI [of _ c']) (simp add: bind_map o_def)
  next
    case True
    define ws where "ws = butlast args @ [dec_text (int (length (last args)))]"
    have small: "int (length (last args)) < 2 ^ 31" "int (length (last args)) \<le> max_bulk"
      using assms(3) ne(1) last_in_set by (fastforce simp: request_ok_def max_bulk_def)+
    have args2: "2 \<le> length args"
      using bulk_arity [of cmd] lookupCommand_table [OF lookup] True assms(4) by (fastforce simp: inline_ok_def)
    have lw: "length ws = length args" "hd ws = hd args" using args2 by (cases args; cases "tl args"; simp add: ws_def)+
    let ?r = "last args @ crlf @ q"
    let ?c = "c\<lparr>argv := map Some ws, argc := length ws, querybuf := ?r\<rparr>"
    have st: "input_step env c s = do { r \<leftarrow> processCommand env ?c s; Some (r, True) }"
      using assms(2,4) True ne(1) dec_text_word [of "int (length (last args))"] small
      by (intro inline_step [OF assms(1)]) (auto simp: encode_inline_def inline_ok_def ws_def)
    have name: "slot_object (argv ?c) 0 = Some (hd args)"
      using lw args2 ne(1) by (cases ws) (simp_all add: slot_object_def)
    have wants: "wants_bulk ?c cmd" using name ne(2) lookup assms(4) True lw(1) by (simp add: wants_bulk_def inline_ok_def)
    have pc: "processCommand env ?c s = bulk_length env cmd ?c s"
      using process_args_bulk [OF wants, of env s] assms(1) args2 lw(1) by (simp add: processCommand_def idle_def)
    let ?c2 = "c\<lparr>bulklen := int (length (last args)) + 2, argv := map Some args, argc := length args, querybuf := q\<rparr>"
    have sl: "slot_object (argv ?c) (argc ?c - 1) = Some (dec_text (int (length (last args))))"
      "slot_release (argv ?c) (argc ?c - 1) = Some (map Some (butlast args) @ [None])"
      using args2 lw(1) by (auto simp: slot_object_def slot_release_def ws_def nth_append list_update_append)
    have sl2: "slot_store (map Some (butlast args) @ [None]) (length args - 1) (Some (last args)) = Some (map Some args)"
      using ne(1) by (simp add: slot_store_def list_update_append flip: append_butlast_last_id)
        (metis append_butlast_last_id list.simps(8) list.simps(9) map_append)
    have len: "signed_take_bit 31 (int (length ?r)) = int (length ?r)"
      using assms(2,6) True by (intro int_of_length) (simp add: encode_inline_def)
    have "nat (int (length (last args)) + 2) = length (last args) + 2" "Suc (length args - Suc 0) = length args"
      using args2 by simp_all
    then have "bulk_length env cmd ?c s = execute env cmd ?c2 s"
      using sl sl2 atoi_dec [of "int (length (last args))"] small len lw(1) args2
      by (simp add: bulk_length_def Let_def buf_last crlf_def)
    moreover obtain c' where "idle c'" "querybuf c' = q" "execute env cmd ?c2 s = map_option (Alive c') (run_command env cmd args s)"
      using execute_words [of ?c2 args env cmd s] assms(1) by (auto simp: idle_def)
    ultimately show ?thesis using st pc req by (intro exI [of _ c']) (simp add: bind_map o_def)
  qed
  then obtain c' where c': "idle c'" "querybuf c' = q" "input_step env c s = do { s' \<leftarrow> request env args s; Some (Alive c' s', True) }"
    by blast
  have "conn_ok c" using assms(1) by (simp add: idle_def conn_ok_def)
  then have "processInputBuffer env c s = do { s' \<leftarrow> request env args s; processInputBuffer env c' s' }"
    using processInputBuffer_step [OF assms(5) _ assms(6), of env] c'(3) by (cases "request env args s") simp_all
  then show ?thesis using c'(1,2) by blast
qed

text \<open>C28: The two forms of a request mean the same: sent on one line, with the last argument of a bulk command after it,
  or as a multi bulk, a command with the right number of arguments is executed in the same way, and the client is ready
  for the next.\<close>

theorem inline_same_as_multibulk:
  assumes "request_ok args" "inline_ok cmd args" "\<not> blocked s"
    and "int (length (encode_inline cmd args)) < 2 ^ 28" "int (length (encode_request args)) < 2 ^ 28"
  shows "\<exists>c1 c2. idle c1 \<and> idle c2 \<and> querybuf c1 = [] \<and> querybuf c2 = []
    \<and> feed env [encode_inline cmd args] createClient s = map_option (Alive c1) (request env args s)
    \<and> feed env [encode_request args] createClient s = map_option (Alive c2) (request env args s)"
proof -
  let ?c = "\<lambda>b. createClient\<lparr>querybuf := b\<rparr>"
  have feed1: "feed env [b] createClient s = processInputBuffer env (?c b) s" if "b \<noteq> []" "int (length b) < 2 ^ 28" for b
    using feed_concat [of createClient "[b]" env s] that by (simp add: conn_ok_def createClient_def)
  have ready: "do { s' \<leftarrow> r; processInputBuffer env c' s' } = map_option (Alive c') r" if "idle c'" "querybuf c' = []" for c' r
    using that empty_buffer_waits [of c' env] by (cases r) (auto simp: idle_def conn_ok_def)
  have ne: "encode_inline cmd args \<noteq> []" "encode_request args \<noteq> []"
    by (simp_all add: encode_inline_def encode_request_def crlf_def)
  have i: "idle (?c b)" for b by (simp add: idle_def createClient_def)
  obtain c1 where "idle c1" "querybuf c1 = []"
    "processInputBuffer env (?c (encode_inline cmd args)) s = do { s' \<leftarrow> request env args s; processInputBuffer env c1 s' }"
    using parse_inline [OF i, of _ cmd args "[]" s env] assms by auto
  moreover obtain c2 where "idle c2" "querybuf c2 = []"
    "processInputBuffer env (?c (encode_request args)) s = do { s' \<leftarrow> request env args s; processInputBuffer env c2 s' }"
    using parse_request [OF i, of _ args "[]" s env] assms by auto
  ultimately show ?thesis using feed1 [OF ne(1) assms(4)] feed1 [OF ne(2) assms(5)] ready by metis
qed

section \<open>Transactions\<close>

text \<open>The objects of a request, and what \<open>MULTI\<close> keeps of it.\<close>

definition objs_of :: "redisCommand \<Rightarrow> bytes list \<Rightarrow> sobj list" where
  "objs_of cmd args =
     (if is_bulk cmd then map Raw (butlast args) @ [the (tryObjectEncoding 1 (Raw (last args)))] else map Raw args)"

definition queued :: "bytes list \<Rightarrow> redisCommand \<times> sobj list" where
  "queued args = (let cmd = the (lookupCommand (hd args)) in (cmd, objs_of cmd args))"

definition queueable :: "bytes list \<Rightarrow> bool" where
  "queueable args \<longleftrightarrow> (\<exists>cmd. lookupCommand (hd args) = Some cmd \<and> \<not> (arity cmd > 0 \<and> arity cmd \<noteq> int (length args))
     \<and> \<not> int (length args) < - arity cmd \<and> proc cmd \<noteq> ''execCommand'' \<and> proc cmd \<noteq> ''discardCommand'')"

definition open_access :: "'w senv \<Rightarrow> 'w session \<Rightarrow> bool" where
  "open_access env s \<longleftrightarrow> (requirepass env = None \<or> authenticated s) \<and> maxmemory env = 0 \<and> subscriptions s = 0"

abbreviation (input) reply_ok :: bytes where "reply_ok \<equiv> ascii ''+OK'' @ crlf"

abbreviation (input) reply_queued :: bytes where "reply_queued \<equiv> ascii ''+QUEUED'' @ crlf"

lemma objects_made:
  "(if is_bulk cmd then do { o1 \<leftarrow> tryObjectEncoding 1 (Raw (last args)); Some (map Raw (butlast args) @ [o1]) }
    else Some (map Raw args)) = Some (objs_of cmd args)"
proof -
  obtain r where "isStringRepresentableAsLong (last args) = Some r" using isStringRepresentableAsLong_spec by blast
  then show ?thesis by (simp add: objs_of_def tryObjectEncoding_def)
qed

lemma run_command_open:
  assumes "open_access env s"
  shows "run_command env cmd args s =
    (if multi_flag s \<and> proc cmd \<noteq> ''execCommand'' \<and> proc cmd \<noteq> ''discardCommand''
     then Some (addReplySds (queueMultiCommand cmd (objs_of cmd args) s) reply_queued)
     else call env cmd (objs_of cmd args) s)"
  using assms unfolding run_command_def objects_made by (auto simp: open_access_def)

lemma requests_queued:
  assumes "\<forall>r \<in> set rs. queueable r" "open_access env s" "multi_flag s"
  shows "run_requests env rs s =
    Some (s\<lparr>mstate := mstate s @ map queued rs, reply := reply s @ replicate (length rs) reply_queued\<rparr>)"
  using assms
proof (induction rs arbitrary: s)
  case (Cons r rs)
  obtain cmd where cmd: "lookupCommand (hd r) = Some cmd" "\<not> (arity cmd > 0 \<and> arity cmd \<noteq> int (length r))"
    "\<not> int (length r) < - arity cmd" "proc cmd \<noteq> ''execCommand''" "proc cmd \<noteq> ''discardCommand''"
    using Cons.prems(1) by (auto simp: queueable_def)
  let ?s = "s\<lparr>mstate := mstate s @ [queued r], reply := reply s @ [reply_queued]\<rparr>"
  have "request env r s = Some ?s"
    using cmd Cons.prems(3) run_command_open [OF Cons.prems(2)]
    by (auto simp: request_def queueMultiCommand_def addReplySds_def queued_def)
  moreover have "run_requests env rs ?s =
      Some (?s\<lparr>mstate := mstate ?s @ map queued rs, reply := reply ?s @ replicate (length rs) reply_queued\<rparr>)"
    using Cons.prems by (intro Cons.IH) (simp_all add: open_access_def)
  ultimately show ?case by simp
qed simp

lemma lookup_multi: "lookupCommand (ascii ''multi'') = Some (entry ''multi'' ''multiCommand'' 1 REDIS_CMD_INLINE)"
  by (simp add: lookupCommand_def cmdTable_def entry_def strcaseeq_def c_string_def lower_of_def ascii_def)

lemma lookup_exec: "lookupCommand (ascii ''exec'') = Some (entry ''exec'' ''execCommand'' 1 (REDIS_CMD_INLINE OR REDIS_CMD_DENYOOM))"
  by (simp add: lookupCommand_def cmdTable_def entry_def strcaseeq_def c_string_def lower_of_def ascii_def)

text \<open>C16: Commands between \<open>MULTI\<close> and \<open>EXEC\<close> change nothing but the queue; at \<open>EXEC\<close> they are executed one after the
  other, in the order and with the arguments in which they were sent, and their number is announced
  before their replies.\<close>

theorem transaction_executes_queue:
  assumes "\<forall>r \<in> set rs. queueable r" "open_access env s" "\<not> multi_flag s" "mstate s = []"
  shows "run_requests env ([ascii ''multi''] # rs @ [[ascii ''exec'']]) s =
    do {
      s' \<leftarrow> exec_loop env (map queued rs)
        (s\<lparr>multi_flag := True, numcommands := numcommands s + 1, mstate := map queued rs,
           reply := reply s @ [reply_ok] @ replicate (length rs) reply_queued @ [ascii ''*'' @ dec_text (int (length rs)) @ crlf]\<rparr>);
      Some (s'\<lparr>mstate := [], multi_flag := False, world := dirty_incr env (world s'), numcommands := numcommands s' + 1\<rparr>) }"
proof -
  let ?s1 = "s\<lparr>multi_flag := True, reply := reply s @ [reply_ok], numcommands := numcommands s + 1\<rparr>"
  let ?s2 = "?s1\<lparr>mstate := mstate ?s1 @ map queued rs, reply := reply ?s1 @ replicate (length rs) reply_queued\<rparr>"
  have multi: "request env [ascii ''multi''] s = Some ?s1"
    using assms(2,3) by (simp add: request_def lookup_multi run_command_open call_def call_plain_def multiCommand_def addReplySds_def entry_def)
  have o1: "open_access env ?s1" "open_access env ?s2" using assms(2) by (simp_all add: open_access_def)
  have queue: "run_requests env (rs @ [[ascii ''exec'']]) ?s1 = request env [ascii ''exec''] ?s2"
  proof -
    have split: "run_requests env (as @ bs) t = do { t' \<leftarrow> run_requests env as t; run_requests env bs t' }" for as bs t
      by (induction as arbitrary: t) simp_all
    show ?thesis unfolding split using requests_queued [OF assms(1) o1(1)] by simp
  qed
  define E where "E = entry ''exec'' ''execCommand'' 1 (REDIS_CMD_INLINE OR REDIS_CMD_DENYOOM)"
  have E: "proc E = ''execCommand''" "arity E = 1" "lookupCommand (ascii ''exec'') = Some E"
    by (simp_all add: E_def lookup_exec) (simp_all add: entry_def)
  have "run_requests env ([ascii ''multi''] # rs @ [[ascii ''exec'']]) s = request env [ascii ''exec''] ?s2"
    using multi queue by simp
  also have "\<dots> = call env E (objs_of E [ascii ''exec'']) ?s2"
    using E run_command_open [OF o1(2), of E "[ascii ''exec'']"] by (simp add: request_def)
  finally show ?thesis
    by (simp add: call_def execCommand_def addReplySds_def assms(4) E(1) bind_assoc)
qed

section \<open>Examples\<close>

text \<open>A server whose commands answer their name and count their arguments.\<close>

definition sample_senv :: "nat senv" where
  "sample_senv = \<lparr>requirepass = None, maxmemory = 0, used_memory = (\<lambda>_. 0), freeMemoryIfNeeded = (\<lambda>w. w), dirty_incr = Suc,
     command_proc = (\<lambda>p args (n, b, w). Some ([ascii p], n, b, w + length args))\<rparr>"

lemma sample_never_blocks: "never_blocks sample_senv"
  by (auto simp: never_blocks_def sample_senv_def)

lemma dec_texts: "dec_text 1 = [49]" "dec_text 2 = [50]" "dec_text 3 = [51]"
  by (simp_all add: dec_text_def sdsfromlonglong_def put_digits_numeral Let_def)

lemmas request_eval = request_def lookupCommand_def cmdTable_def entry_def strcaseeq_def c_string_def lower_of_def
  run_command_def is_bulk_def is_denyoom_def call_def call_plain_def other_command_def sample_senv_def new_session_def
  REDIS_CMD_BULK_def REDIS_CMD_INLINE_def REDIS_CMD_DENYOOM_def

lemma sample_set_request: "request sample_senv [[115, 101, 116], [107], [120]] (new_session 0) =
    Some (new_session 0 \<lparr>reply := [ascii ''setCommand''], numcommands := 1, world := 3\<rparr>)"
proof -
  have "tryObjectEncoding 1 (Raw [120]) = Some (Raw [120])"
    by (simp add: tryObjectEncoding_def isStringRepresentableAsLong_def strtoll10_def u8_isspace_def rd_def)
  then show ?thesis by (simp add: request_eval ascii_def)
qed

lemma sample_get_request: "request sample_senv [[103, 101, 116], [107]]
    (new_session 0 \<lparr>reply := [ascii ''setCommand''], numcommands := 1, world := 3\<rparr>) =
    Some (new_session 0 \<lparr>reply := [ascii ''setCommand'', ascii ''getCommand''], numcommands := 2, world := 5\<rparr>)"
  by (simp add: request_eval ascii_def)

text \<open>Two requests, cut in the middle of a number.\<close>

theorem requests_executed_as_sent_witness:
  "\<exists>c'. idle c' \<and> feed sample_senv
     [[42, 51, 13, 10, 36, 51, 13, 10, 115, 101, 116, 13, 10, 36],
      [49, 13, 10, 107, 13, 10, 36, 49, 13, 10, 120, 13, 10, 42, 50, 13, 10, 36, 51, 13, 10, 103, 101, 116, 13, 10, 36, 49, 13, 10, 107, 13, 10]]
     createClient (new_session 0) =
   Some (Alive c' (new_session 0 \<lparr>reply := [ascii ''setCommand'', ascii ''getCommand''], numcommands := 2, world := 5\<rparr>))"
proof -
  let ?rs = "[[[115, 101, 116], [107], [120]], [[103, 101, 116], [107]]] :: bytes list list"
  let ?bs = "[[42, 51, 13, 10, 36, 51, 13, 10, 115, 101, 116, 13, 10, 36],
      [49, 13, 10, 107, 13, 10, 36, 49, 13, 10, 120, 13, 10, 42, 50, 13, 10, 36, 51, 13, 10, 103, 101, 116, 13, 10, 36, 49, 13, 10, 107, 13, 10]]
      :: bytes list"
  have "\<forall>r \<in> set ?rs. request_ok r"
    by (simp add: request_ok_def max_bulk_def strcaseeq_def c_string_def lower_of_def ascii_def)
  moreover have "concat ?bs = concat (map encode_request ?rs)"
    by (simp add: encode_request_def encode_arg_def crlf_def dec_texts)
  moreover have "\<not> blocked (new_session (0 :: nat))" by (simp add: new_session_def)
  moreover have "\<forall>b \<in> set ?bs. b \<noteq> []" "int (length (concat ?bs)) < 2 ^ 28" by simp_all
  ultimately have "\<exists>c'. idle c' \<and> querybuf c' = [] \<and>
      feed sample_senv ?bs createClient (new_session 0) = map_option (Alive c') (run_requests sample_senv ?rs (new_session 0))"
    by (intro requests_executed_as_sent [OF sample_never_blocks])
  then show ?thesis using sample_set_request sample_get_request by auto
qed

theorem pieces_do_not_matter_witness:
  "feed sample_senv [[80], [73, 78, 71, 13], [10]] createClient (new_session 0) =
   feed sample_senv [[80, 73, 78, 71, 13, 10]] createClient (new_session 0)"
  by (rule pieces_do_not_matter) simp_all

text \<open>The inline form of a request whose last argument has a space.\<close>

theorem inline_same_as_multibulk_witness:
  "\<exists>c1 c2. idle c1 \<and> idle c2
    \<and> feed sample_senv [[115, 101, 116, 32, 107, 32, 49, 13, 10, 120, 13, 10]] createClient (new_session 0) =
        Some (Alive c1 (new_session 0 \<lparr>reply := [ascii ''setCommand''], numcommands := 1, world := 3\<rparr>))
    \<and> feed sample_senv [encode_request [[115, 101, 116], [107], [120]]] createClient (new_session 0) =
        Some (Alive c2 (new_session 0 \<lparr>reply := [ascii ''setCommand''], numcommands := 1, world := 3\<rparr>))"
proof -
  let ?r = "[[115, 101, 116], [107], [120]] :: bytes list"
  let ?cmd = "entry ''set'' ''setCommand'' 3 (REDIS_CMD_BULK OR REDIS_CMD_DENYOOM)"
  have "request_ok ?r" by (simp add: request_ok_def max_bulk_def strcaseeq_def c_string_def lower_of_def ascii_def)
  moreover have "inline_ok ?cmd ?r"
    by (simp add: inline_ok_def lookupCommand_def cmdTable_def entry_def strcaseeq_def c_string_def lower_of_def ascii_def
        is_bulk_def REDIS_CMD_BULK_def REDIS_CMD_DENYOOM_def word_ok_def)
  moreover have e: "encode_inline ?cmd ?r = [115, 101, 116, 32, 107, 32, 49, 13, 10, 120, 13, 10]"
    by (simp add: encode_inline_def entry_def is_bulk_def REDIS_CMD_BULK_def REDIS_CMD_DENYOOM_def crlf_def dec_texts)
  moreover have "int (length (encode_request ?r)) < 2 ^ 28" by (simp add: encode_request_def encode_arg_def crlf_def dec_texts)
  moreover have "\<not> blocked (new_session (0 :: nat))" by (simp add: new_session_def)
  ultimately show ?thesis
    using inline_same_as_multibulk [of ?r ?cmd "new_session 0" sample_senv] sample_set_request by auto
qed

text \<open>A transaction of one command.\<close>

theorem transaction_executes_queue_witness:
  "run_requests sample_senv [[ascii ''multi''], [[103, 101, 116], [107]], [ascii ''exec'']] (new_session 0) =
   Some (new_session 0 \<lparr>numcommands := 3, world := 3,
     reply := [ascii ''+OK'' @ crlf, ascii ''+QUEUED'' @ crlf, ascii ''*'' @ [49] @ crlf, ascii ''getCommand'']\<rparr>)"
proof -
  let ?r = "[[103, 101, 116], [107]] :: bytes list"
  have q: "queueable ?r" "queued ?r = (entry ''get'' ''getCommand'' 2 REDIS_CMD_INLINE, [Raw [103, 101, 116], Raw [107]])"
    by (simp_all add: queueable_def queued_def objs_of_def request_eval ascii_def)
  have "open_access sample_senv (new_session 0)" "\<not> multi_flag (new_session 0)" "mstate (new_session 0) = []"
    by (simp_all add: open_access_def sample_senv_def new_session_def)
  then show ?thesis
    using transaction_executes_queue [of "[?r]" sample_senv "new_session 0"] q
    by (simp add: call_plain_def other_command_def sample_senv_def new_session_def entry_def dec_texts)
qed

section \<open>Divergences\<close>

text \<open>
  The line with the length of an argument is taken for one word, but is cut into words like any other: with a second
  word, the first object of \<open>argv\<close> is released while the count stays above zero. The released object becomes the
  argument; and the words of the next line are stored behind the end of their array.
\<close>

lemma two_words: "sdssplitlen [36, 51, 32, 120] 4 [32] 1 = Some (Some [[36, 51], [120]])"
  using split_words [of "[[36, 51], [120]]"] by simp

lemma one_word: "sdssplitlen [36, 49] 2 [32] 1 = Some (Some [[36, 49]])" "sdssplitlen [42, 49] 2 [32] 1 = Some (Some [[42, 49]])"
  "sdssplitlen [42, 50] 2 [32] 1 = Some (Some [[42, 50]])"
  using split_one_token [of "[36, 49]"] split_one_token [of "[42, 49]"] split_one_token [of "[42, 50]"] by simp_all

lemma atoi_digits: "atoi [49, 0] = Some 1" "atoi [50, 0] = Some 2" "atoi [51, 0] = Some 3"
  using atoi_dec [of 1] atoi_dec [of 2] atoi_dec [of 3] by (simp_all add: dec_texts)

lemmas step_eval = input_step_def query_line_def slot_store_def processCommand_def slot_object_def multibulk_start_def
  multibulk_length_def slot_release_def max_bulk_def multibulk_argument_def Let_def buf_last

lemma step_start:
  assumes "k = 49 \<and> n = 1 \<or> k = 50 \<and> n = 2"
  shows "input_step env (createClient\<lparr>querybuf := 42 # k # 13 # 10 # q\<rparr>) s =
    Some (Alive (createClient\<lparr>querybuf := q, argv := [None], multibulk := n\<rparr>) s, True)"
  using assms by (auto simp: step_eval createClient_def one_word atoi_digits)

lemma step_two_words:
  assumes "0 < n"
  shows "input_step env (createClient\<lparr>querybuf := 36 # 51 # 32 # 120 # 13 # 10 # q, argv := [None], multibulk := n\<rparr>) s =
    Some (Alive (createClient\<lparr>querybuf := q, argv := [None, Some [120]], argc := 1, multibulk := n, bulklen := 5\<rparr>) s, True)"
  using assms by (simp add: step_eval createClient_def two_words atoi_digits)

lemma step_released_argument:
  "input_step env (createClient\<lparr>querybuf := [103, 101, 116, 13, 10], argv := [None, Some [120]], argc := 1, multibulk := 1, bulklen := 5\<rparr>) s
    = None"
  by (simp add: step_eval createClient_def process_args_def)

lemma step_left_over:
  "input_step env (createClient\<lparr>querybuf := [103, 101, 116, 13, 10, 36, 49, 13, 10], argv := [None, Some [120]], argc := 1,
      multibulk := 2, bulklen := 5\<rparr>) s =
    Some (Alive (createClient\<lparr>querybuf := [36, 49, 13, 10], argv := [None, Some [103, 101, 116]], argc := 1, mbargv := [None], mbargc := 1,
      multibulk := 1, bulklen := - 1\<rparr>) s, True)"
  by (simp add: step_eval createClient_def)

lemma step_outside:
  "input_step env (createClient\<lparr>querybuf := [36, 49, 13, 10], argv := [None, Some [103, 101, 116]], argc := 1, mbargv := [None], mbargc := 1,
      multibulk := 1, bulklen := - 1\<rparr>) s = None"
  by (simp add: step_eval createClient_def one_word)

lemma processInputBuffer_stop:
  "\<not> blocked s \<Longrightarrow> input_step env c s = None \<Longrightarrow> processInputBuffer env c s = None"
  by (subst processInputBuffer.simps) simp

lemma processInputBuffer_next:
  "\<not> blocked s \<Longrightarrow> input_step env c s = Some (Alive c' s, True) \<Longrightarrow> querybuf c' \<noteq> [] \<Longrightarrow>
    processInputBuffer env c s = processInputBuffer env c' s"
  by (subst processInputBuffer.simps) simp

theorem released_argument_used:
  assumes "\<not> blocked s"
  shows "feed env [[42, 49, 13, 10, 36, 51, 32, 120, 13, 10, 103, 101, 116, 13, 10]] createClient s = None"
proof -
  note go = processInputBuffer_next [OF assms] and start = step_start [of 49 1]
  show ?thesis
    using go [OF start] go [OF step_two_words [of 1]] processInputBuffer_stop [OF assms step_released_argument]
    by (simp add: readQueryFromClient_def createClient_def)
qed

theorem words_stored_outside:
  assumes "\<not> blocked s"
  shows "feed env [[42, 50, 13, 10, 36, 51, 32, 120, 13, 10, 103, 101, 116, 13, 10, 36, 49, 13, 10]] createClient s = None"
proof -
  note go = processInputBuffer_next [OF assms] and start = step_start [of 50 2]
  show ?thesis
    using go [OF start] go [OF step_two_words [of 2]] go [OF step_left_over] processInputBuffer_stop [OF assms step_outside]
    by (simp add: readQueryFromClient_def createClient_def)
qed

end
