(* ===== verification/Hash_Object.thy ===== *)
theory Hash_Object
  imports Zipmap Object_Dict
begin

text \<open>
  The hash object and its commands (\<open>apps/redis-2.0.4/redis.c\<close>, lines 6434-6546 and 6608-6833): a
  zipmap while it is small, a hash table afterwards. The table is keyed by the decoded text of the
  field, the only thing its hash and comparison look at (theory \<open>Object_Dict\<close>); its values are
  string objects. A command is a function of the value its key holds, as in theory \<open>Sorted_Set\<close>;
  the objects of the command line are not shared, so that \<open>tryObjectEncoding\<close> may encode them.
  Texts of replies are decoded. \<open>None\<close> is an access outside a zipmap or a table.
\<close>

datatype hobj = HZip bytes | HTab "(bytes, sobj) dict"

record henv =
  h_garbage :: garbage
  max_zipmap_entries :: nat
  max_zipmap_value :: nat
  hashDictType :: "(bytes, sobj) dictType"
  h_can_resize :: bool

section \<open>The object\<close>

partial_function (option) convert_zipmap ::
  "bool \<Rightarrow> bytes \<Rightarrow> nat \<Rightarrow> (bytes, sobj) dict \<Rightarrow> (bytes, sobj) dict option"
where
  "convert_zipmap cr zm p d =
     (case zipmapNext zm p of
        None \<Rightarrow> None
      | Some None \<Rightarrow> Some d
      | Some (Some (p', key, val)) \<Rightarrow> do {
          keyobj \<leftarrow> tryObjectEncoding 1 (Raw key);
          valobj \<leftarrow> tryObjectEncoding 1 (Raw val);
          k \<leftarrow> getDecodedObject keyobj;
          (_, d') \<leftarrow> dictAdd cr d k valobj;
          convert_zipmap cr zm p' d' })"

definition convert_hash :: "henv \<Rightarrow> bytes \<Rightarrow> hobj option" where
  "convert_hash env zm =
     map_option HTab (convert_zipmap (h_can_resize env) zm zipmapRewind (dictCreate (hashDictType env)))"

definition hashTryConversion :: "henv \<Rightarrow> hobj \<Rightarrow> sobj list \<Rightarrow> hobj option" where
  "hashTryConversion env h args =
     (case h of
        HTab d \<Rightarrow> Some h
      | HZip zm \<Rightarrow>
          if \<exists>a \<in> set args. case a of Raw s \<Rightarrow> length s > max_zipmap_value env | Enc v \<Rightarrow> False
          then convert_hash env zm else Some h)"

definition hashTryObjectEncoding :: "hobj \<Rightarrow> sobj \<Rightarrow> sobj option" where
  "hashTryObjectEncoding h ob = (case h of HTab d \<Rightarrow> tryObjectEncoding 1 ob | HZip zm \<Rightarrow> Some ob)"

text \<open>\<open>dictFind\<close> may move a bucket of a table that is rehashing, so that reading returns the object.\<close>

definition hashGet :: "hobj \<Rightarrow> sobj \<Rightarrow> (sobj option \<times> hobj) option" where
  "hashGet h key =
     (case h of
        HZip zm \<Rightarrow> do {
          k \<leftarrow> getDecodedObject key;
          v \<leftarrow> zipmapGet zm k;
          Some (map_option Raw v, h) }
      | HTab d \<Rightarrow> do {
          k \<leftarrow> getDecodedObject key;
          (de, d') \<leftarrow> dictFind d k;
          Some (map_option (\<lambda>p. snd (entry_at d' p)) de, HTab d') })"

definition hashExists :: "hobj \<Rightarrow> sobj \<Rightarrow> (bool \<times> hobj) option" where
  "hashExists h key =
     (case h of
        HZip zm \<Rightarrow> do {
          k \<leftarrow> getDecodedObject key;
          b \<leftarrow> zipmapExists zm k;
          Some (b, h) }
      | HTab d \<Rightarrow> do {
          k \<leftarrow> getDecodedObject key;
          (de, d') \<leftarrow> dictFind d k;
          Some (de \<noteq> None, HTab d') })"

definition hashSet :: "henv \<Rightarrow> hobj \<Rightarrow> sobj \<Rightarrow> sobj \<Rightarrow> (hobj \<times> bool) option" where
  "hashSet env h key value =
     (case h of
        HZip zm \<Rightarrow> do {
          k \<leftarrow> getDecodedObject key;
          v \<leftarrow> getDecodedObject value;
          (zm1, update) \<leftarrow> zipmapSet (h_garbage env) zm k v;
          (n, zm2) \<leftarrow> zipmapLen zm1;
          h' \<leftarrow> (if n > max_zipmap_entries env then convert_hash env zm2 else Some (HZip zm2));
          Some (h', update) }
      | HTab d \<Rightarrow> do {
          k \<leftarrow> getDecodedObject key;
          (r, d') \<leftarrow> dictReplace (h_can_resize env) d k value;
          Some (HTab d', r = 0) })"

definition hashDelete :: "henv \<Rightarrow> hobj \<Rightarrow> sobj \<Rightarrow> (hobj \<times> bool) option" where
  "hashDelete env h key =
     (case h of
        HZip zm \<Rightarrow> do {
          k \<leftarrow> getDecodedObject key;
          (zm', deleted) \<leftarrow> zipmapDel (h_garbage env) zm k;
          Some (HZip zm', deleted) }
      | HTab d \<Rightarrow> do {
          k \<leftarrow> getDecodedObject key;
          (r, d') \<leftarrow> dictDelete d k;
          let deleted = (r = DICT_OK);
          let d'' = (if deleted \<and> htNeedsResize d' then snd (dictResize (h_can_resize env) d') else d');
          Some (HTab d'', deleted) })"

definition hashLength :: "hobj \<Rightarrow> (nat \<times> hobj) option" where
  "hashLength h =
     (case h of
        HZip zm \<Rightarrow> map_option (\<lambda>(n, zm'). (n, HZip zm')) (zipmapLen zm)
      | HTab d \<Rightarrow> Some (dictSize d, h))"

text \<open>The iterator: a position in the zipmap or an iterator of the table; \<open>hashNext\<close> gives the field
  and the value that \<open>hashCurrent\<close> returns, \<open>None\<close> inside is \<open>REDIS_ERR\<close>.\<close>

datatype hashIterator = HIZip nat | HIDict "(bytes, sobj) dictIterator"

definition hashInitIterator :: "hobj \<Rightarrow> hashIterator" where
  "hashInitIterator h = (case h of HZip zm \<Rightarrow> HIZip zipmapRewind | HTab d \<Rightarrow> HIDict dictGetIterator)"

definition hashNext :: "hashIterator \<Rightarrow> hobj \<Rightarrow> ((bytes \<times> sobj) option \<times> hashIterator \<times> hobj) option" where
  "hashNext hi h =
     (case (hi, h) of
        (HIZip p, HZip zm) \<Rightarrow> do {
          r \<leftarrow> zipmapNext zm p;
          Some (case r of None \<Rightarrow> (None, hi, h) | Some (p', k, v) \<Rightarrow> (Some (k, Raw v), HIZip p', h)) }
      | (HIDict it, HTab d) \<Rightarrow> do {
          (r, it', d') \<leftarrow> dictNext it d;
          Some (r, HIDict it', HTab d') }
      | _ \<Rightarrow> None)"

definition hashReleaseIterator :: "hashIterator \<Rightarrow> hobj \<Rightarrow> hobj" where
  "hashReleaseIterator hi h =
     (case (hi, h) of (HIDict it, HTab d) \<Rightarrow> HTab (dictReleaseIterator it d) | _ \<Rightarrow> h)"

section \<open>The commands\<close>

datatype hvalue = OtherVal | HashVal hobj

datatype hreply =
    HWrongType | HArity | HNotInteger | HZero | HOne | HOk | HNull | HEmptyMultibulk
  | HInt int | HBulk bytes | HMulti "bytes option list"

type_synonym hresult = "(hreply \<times> hvalue option \<times> int) option"

definition createHashObject :: "henv \<Rightarrow> hobj option" where
  "createHashObject env = map_option HZip (zipmapNew (h_garbage env))"

text \<open>\<open>Some None\<close> is the value of another type.\<close>

definition hashLookupWriteOrCreate :: "henv \<Rightarrow> hvalue option \<Rightarrow> hobj option option" where
  "hashLookupWriteOrCreate env v =
     (case v of
        None \<Rightarrow> map_option Some (createHashObject env)
      | Some OtherVal \<Rightarrow> Some None
      | Some (HashVal h) \<Rightarrow> Some (Some h))"

definition hsetCommand :: "henv \<Rightarrow> sobj \<Rightarrow> sobj \<Rightarrow> hvalue option \<Rightarrow> hresult" where
  "hsetCommand env key value v = do {
     r \<leftarrow> hashLookupWriteOrCreate env v;
     case r of
       None \<Rightarrow> Some (HWrongType, v, 0)
     | Some h \<Rightarrow> do {
         h1 \<leftarrow> hashTryConversion env h [key, value];
         key' \<leftarrow> hashTryObjectEncoding h1 key;
         value' \<leftarrow> hashTryObjectEncoding h1 value;
         (h2, update) \<leftarrow> hashSet env h1 key' value';
         Some (if update then HZero else HOne, Some (HashVal h2), 1) } }"

definition hsetnxCommand :: "henv \<Rightarrow> sobj \<Rightarrow> sobj \<Rightarrow> hvalue option \<Rightarrow> hresult" where
  "hsetnxCommand env key value v = do {
     r \<leftarrow> hashLookupWriteOrCreate env v;
     case r of
       None \<Rightarrow> Some (HWrongType, v, 0)
     | Some h \<Rightarrow> do {
         h1 \<leftarrow> hashTryConversion env h [key, value];
         (ex, h2) \<leftarrow> hashExists h1 key;
         if ex then Some (HZero, Some (HashVal h2), 0)
         else do {
           key' \<leftarrow> hashTryObjectEncoding h2 key;
           value' \<leftarrow> hashTryObjectEncoding h2 value;
           (h3, _) \<leftarrow> hashSet env h2 key' value';
           Some (HOne, Some (HashVal h3), 1) } } }"

fun hmset_loop :: "henv \<Rightarrow> sobj list \<Rightarrow> hobj \<Rightarrow> hobj option" where
  "hmset_loop env (key # value # rest) h = do {
     key' \<leftarrow> hashTryObjectEncoding h key;
     value' \<leftarrow> hashTryObjectEncoding h value;
     (h', _) \<leftarrow> hashSet env h key' value';
     hmset_loop env rest h' }"
| "hmset_loop env _ h = Some h"

text \<open>\<open>args\<close> are the fields and values, \<open>argv[2..]\<close>.\<close>

definition hmsetCommand :: "henv \<Rightarrow> sobj list \<Rightarrow> hvalue option \<Rightarrow> hresult" where
  "hmsetCommand env args v =
     (if odd (length args) then Some (HArity, v, 0)
      else do {
        r \<leftarrow> hashLookupWriteOrCreate env v;
        case r of
          None \<Rightarrow> Some (HWrongType, v, 0)
        | Some h \<Rightarrow> do {
            h1 \<leftarrow> hashTryConversion env h args;
            h2 \<leftarrow> hmset_loop env args h1;
            Some (HOk, Some (HashVal h2), 1) } })"

text \<open>\<open>incr\<close> is the parsed increment; the addition wraps around.\<close>

definition hincrbyCommand :: "henv \<Rightarrow> sobj \<Rightarrow> int \<Rightarrow> hvalue option \<Rightarrow> hresult" where
  "hincrbyCommand env key incr v = do {
     r \<leftarrow> hashLookupWriteOrCreate env v;
     case r of
       None \<Rightarrow> Some (HWrongType, v, 0)
     | Some h \<Rightarrow> do {
         (current, h1) \<leftarrow> hashGet h key;
         value \<leftarrow> (case current of None \<Rightarrow> Some (Some 0) | Some cur \<Rightarrow> getLongLongFromObject (Some cur));
         case value of
           None \<Rightarrow> Some (HNotInteger, Some (HashVal h1), 0)
         | Some old \<Rightarrow> do {
             let value = signed_take_bit 63 (old + incr);
             new \<leftarrow> createStringObjectFromLongLong value;
             key' \<leftarrow> hashTryObjectEncoding h1 key;
             (h2, _) \<leftarrow> hashSet env h1 key' new;
             Some (HInt value, Some (HashVal h2), 1) } } }"

definition hgetCommand :: "sobj \<Rightarrow> hvalue option \<Rightarrow> hresult" where
  "hgetCommand key v =
     (case v of
        None \<Rightarrow> Some (HNull, v, 0)
      | Some OtherVal \<Rightarrow> Some (HWrongType, v, 0)
      | Some (HashVal h) \<Rightarrow> do {
          (value, h') \<leftarrow> hashGet h key;
          reply \<leftarrow> (case value of None \<Rightarrow> Some HNull | Some x \<Rightarrow> map_option HBulk (getDecodedObject x));
          Some (reply, Some (HashVal h'), 0) })"

fun hmget_loop :: "sobj list \<Rightarrow> hobj option \<Rightarrow> (bytes option list \<times> hobj option) option" where
  "hmget_loop [] h = Some ([], h)"
| "hmget_loop (key # keys) None = do {
     (rest, h) \<leftarrow> hmget_loop keys None;
     Some (None # rest, h) }"
| "hmget_loop (key # keys) (Some h) = do {
     (value, h') \<leftarrow> hashGet h key;
     t \<leftarrow> (case value of None \<Rightarrow> Some None | Some x \<Rightarrow> map_option Some (getDecodedObject x));
     (rest, h'') \<leftarrow> hmget_loop keys (Some h');
     Some (t # rest, h'') }"

definition hmgetCommand :: "sobj list \<Rightarrow> hvalue option \<Rightarrow> hresult" where
  "hmgetCommand keys v =
     (if v = Some OtherVal then Some (HWrongType, v, 0)
      else do {
        (texts, h) \<leftarrow> hmget_loop keys (case v of Some (HashVal h) \<Rightarrow> Some h | _ \<Rightarrow> None);
        Some (HMulti texts, map_option HashVal h, 0) })"

text \<open>A hash that has become empty loses its key.\<close>

definition hdelCommand :: "henv \<Rightarrow> sobj \<Rightarrow> hvalue option \<Rightarrow> hresult" where
  "hdelCommand env key v =
     (case v of
        None \<Rightarrow> Some (HZero, v, 0)
      | Some OtherVal \<Rightarrow> Some (HWrongType, v, 0)
      | Some (HashVal h) \<Rightarrow> do {
          (h1, deleted) \<leftarrow> hashDelete env h key;
          if deleted then do {
            (n, h2) \<leftarrow> hashLength h1;
            Some (HOne, if n = 0 then None else Some (HashVal h2), 1) }
          else Some (HZero, Some (HashVal h1), 0) })"

definition hlenCommand :: "hvalue option \<Rightarrow> hresult" where
  "hlenCommand v =
     (case v of
        None \<Rightarrow> Some (HZero, v, 0)
      | Some OtherVal \<Rightarrow> Some (HWrongType, v, 0)
      | Some (HashVal h) \<Rightarrow> do {
          (n, h') \<leftarrow> hashLength h;
          Some (HInt (int n), Some (HashVal h'), 0) })"

partial_function (option) getall_loop ::
  "bool \<Rightarrow> bool \<Rightarrow> hashIterator \<Rightarrow> hobj \<Rightarrow> bytes option list \<Rightarrow> (bytes option list \<times> hobj) option"
where
  "getall_loop keys vals hi h out = do {
     (r, hi', h') \<leftarrow> hashNext hi h;
     case r of
       None \<Rightarrow> Some (out, hashReleaseIterator hi' h')
     | Some (k, val) \<Rightarrow> do {
         t \<leftarrow> getDecodedObject val;
         getall_loop keys vals hi' h'
           (out @ (if keys then [Some k] else []) @ (if vals then [Some t] else [])) } }"

definition genericHgetallCommand :: "bool \<Rightarrow> bool \<Rightarrow> hvalue option \<Rightarrow> hresult" where
  "genericHgetallCommand keys vals v =
     (case v of
        None \<Rightarrow> Some (HEmptyMultibulk, v, 0)
      | Some OtherVal \<Rightarrow> Some (HWrongType, v, 0)
      | Some (HashVal h) \<Rightarrow> do {
          (out, h') \<leftarrow> getall_loop keys vals (hashInitIterator h) h [];
          Some (HMulti out, Some (HashVal h'), 0) })"

definition hexistsCommand :: "sobj \<Rightarrow> hvalue option \<Rightarrow> hresult" where
  "hexistsCommand key v =
     (case v of
        None \<Rightarrow> Some (HZero, v, 0)
      | Some OtherVal \<Rightarrow> Some (HWrongType, v, 0)
      | Some (HashVal h) \<Rightarrow> do {
          (ex, h') \<leftarrow> hashExists h key;
          Some (if ex then HOne else HZero, Some (HashVal h'), 0) })"

section \<open>All commands\<close>

datatype hcmd =
    HSet sobj sobj | HSetNx sobj sobj | HMSet "sobj list" | HIncrBy sobj int
  | HGet sobj | HMGet "sobj list" | HDel sobj | HLen | HGetAll bool bool | HExists sobj

fun hexec :: "henv \<Rightarrow> hcmd \<Rightarrow> hvalue option \<Rightarrow> hresult" where
  "hexec env (HSet k v) x = hsetCommand env k v x"
| "hexec env (HSetNx k v) x = hsetnxCommand env k v x"
| "hexec env (HMSet args) x = hmsetCommand env args x"
| "hexec env (HIncrBy k i) x = hincrbyCommand env k i x"
| "hexec env (HGet k) x = hgetCommand k x"
| "hexec env (HMGet ks) x = hmgetCommand ks x"
| "hexec env (HDel k) x = hdelCommand env k x"
| "hexec env HLen x = hlenCommand x"
| "hexec env (HGetAll keys vals) x = genericHgetallCommand keys vals x"
| "hexec env (HExists k) x = hexistsCommand k x"

end
