(* ===== verification/Skip_Index.thy ===== *)
theory Skip_Index
  imports Main
begin

text \<open>
  The geometry of a skip list: the positions of its nodes, 0 being the header, and the number of
  levels of each. At a level \<open>i\<close> the list runs through the positions of more than \<open>i\<close> levels:
  \<open>nx ls i k\<close> is the one after position \<open>k\<close> (the length when there is none) and \<open>lst ls i r\<close> the
  last one up to \<open>r\<close>. Inserting a position shifts these functions.
\<close>

definition nx :: "nat list \<Rightarrow> nat \<Rightarrow> nat \<Rightarrow> nat" where
  "nx ls i k = (LEAST m. k < m \<and> (m < length ls \<longrightarrow> i < ls ! m))"

definition lst :: "nat list \<Rightarrow> nat \<Rightarrow> nat \<Rightarrow> nat" where
  "lst ls i r = (GREATEST k. k \<le> r \<and> i < ls ! k)"

lemma nx_props:
  assumes "k < length ls"
  shows "k < nx ls i k" "nx ls i k \<le> length ls" "nx ls i k < length ls \<Longrightarrow> i < ls ! nx ls i k"
    "k < m \<Longrightarrow> m < nx ls i k \<Longrightarrow> m < length ls \<and> ls ! m \<le> i"
proof -
  let ?P = "\<lambda>m. k < m \<and> (m < length ls \<longrightarrow> i < ls ! m)"
  have l: "?P (length ls)" using assms by simp
  then have p: "?P (nx ls i k)" unfolding nx_def by (rule LeastI)
  then show "k < nx ls i k" "nx ls i k < length ls \<Longrightarrow> i < ls ! nx ls i k" by simp_all
  show le: "nx ls i k \<le> length ls" unfolding nx_def using l by (rule Least_le)
  assume m: "k < m" "m < nx ls i k"
  from not_less_Least [of m ?P] m(2) have "\<not> ?P m" unfolding nx_def by blast
  with m le show "m < length ls \<and> ls ! m \<le> i" by auto
qed

lemma nx_eqI:
  assumes "k < m" "m < length ls \<Longrightarrow> i < ls ! m" "m \<le> length ls" "\<And>j. k < j \<Longrightarrow> j < m \<Longrightarrow> ls ! j \<le> i"
  shows "nx ls i k = m"
  unfolding nx_def
proof (rule Least_equality)
  show "k < m \<and> (m < length ls \<longrightarrow> i < ls ! m)" using assms(1,2) by blast
next
  fix j assume j: "k < j \<and> (j < length ls \<longrightarrow> i < ls ! j)"
  show "m \<le> j"
  proof (rule ccontr)
    assume "\<not> m \<le> j"
    then have "ls ! j \<le> i" "j < length ls" using assms(3,4) j by auto
    then show False using j by simp
  qed
qed

lemma lst_props:
  assumes "i < ls ! 0"
  shows "lst ls i r \<le> r" "i < ls ! lst ls i r" "lst ls i r < k \<Longrightarrow> k \<le> r \<Longrightarrow> ls ! k \<le> i"
proof -
  let ?P = "\<lambda>k. k \<le> r \<and> i < ls ! k"
  have b: "\<forall>y. ?P y \<longrightarrow> y \<le> r" by blast
  have "?P (lst ls i r)" unfolding lst_def by (rule GreatestI_nat [of ?P 0 r]) (use assms b in auto)
  then show "lst ls i r \<le> r" "i < ls ! lst ls i r" by simp_all
  assume k: "lst ls i r < k" "k \<le> r"
  show "ls ! k \<le> i"
  proof (rule ccontr)
    assume "\<not> ls ! k \<le> i"
    then have "k \<le> lst ls i r" unfolding lst_def by (intro Greatest_le_nat [of ?P k r]) (use k b in auto)
    then show False using k by simp
  qed
qed

lemma lst_eqI:
  assumes "k \<le> r" "i < ls ! k" "\<And>j. k < j \<Longrightarrow> j \<le> r \<Longrightarrow> ls ! j \<le> i"
  shows "lst ls i r = k"
  unfolding lst_def using assms by (intro Greatest_equality) (auto simp: not_le [symmetric])

text \<open>From a position before \<open>r\<close>, the next one lies behind \<open>r\<close> exactly when it was the last.\<close>

lemma nx_beyond:
  assumes "k \<le> r" "r < length ls" "i < ls ! k" "i < ls ! 0"
  shows "r < nx ls i k \<longleftrightarrow> k = lst ls i r"
proof
  assume r: "r < nx ls i k"
  have "lst ls i r = k"
    using assms(1,3)
  proof (rule lst_eqI)
    fix j assume "k < j" "j \<le> r"
    then show "ls ! j \<le> i" using nx_props(4) [of k ls j i] assms(1,2) r by simp
  qed
  then show "k = lst ls i r" by simp
next
  assume k: "k = lst ls i r"
  show "r < nx ls i k"
  proof (rule ccontr)
    assume n: "\<not> r < nx ls i k"
    have p: "k < nx ls i k" using nx_props(1) assms(1,2) by (meson le_less_trans)
    moreover have "i < ls ! nx ls i k" using nx_props(3) [of k ls i] assms(1,2) n by simp
    ultimately show False using lst_props(3) [OF assms(4), of r "nx ls i k"] k n by simp
  qed
qed

lemma lst_mono_level:
  assumes "i < ls ! 0" "j \<le> i"
  shows "lst ls i r \<le> lst ls j r"
proof (rule ccontr)
  assume "\<not> lst ls i r \<le> lst ls j r"
  then have "ls ! lst ls i r \<le> j"
    using lst_props(1,2) [OF assms(1), of r] assms by (intro lst_props(3) [of j ls r]) auto
  then show False using lst_props(2) [OF assms(1), of r] assms(2) by simp
qed

lemma nx_0: "0 < ls ! Suc k \<Longrightarrow> Suc k < length ls \<Longrightarrow> nx ls 0 k = Suc k"
  by (rule nx_eqI) auto

section \<open>Inserting a position\<close>

definition ins :: "nat \<Rightarrow> 'a \<Rightarrow> 'a list \<Rightarrow> 'a list" where
  "ins p x xs = take p xs @ x # drop p xs"

lemma length_ins [simp]: "length (ins p x xs) = Suc (length xs)"
  by (simp add: ins_def)

lemma nth_ins:
  assumes "p \<le> length xs"
  shows "ins p x xs ! k = (if k < p then xs ! k else if k = p then x else xs ! (k - 1))"
  using assms by (auto simp: ins_def nth_append nth_Cons' min_def)

lemma set_ins [simp]: "set (ins p x xs) = insert x (set xs)"
proof -
  have "set xs = set (take p xs) \<union> set (drop p xs)" by (metis append_take_drop_id set_append)
  then show ?thesis by (auto simp: ins_def)
qed

lemma distinct_ins: "distinct (ins p x xs) \<longleftrightarrow> x \<notin> set xs \<and> distinct xs"
proof -
  have "distinct (a @ x # b) \<longleftrightarrow> x \<notin> set (a @ b) \<and> distinct (a @ b)" for a b by auto
  from this [of "take p xs" "drop p xs"] show ?thesis by (simp add: ins_def)
qed

lemma nx_ins:
  assumes "r < length ls" "k \<le> r"
  shows "nx ls i k \<le> r \<Longrightarrow> nx (ins (Suc r) lev ls) i k = nx ls i k"
    and "r < nx ls i k \<Longrightarrow> i < lev \<Longrightarrow> nx (ins (Suc r) lev ls) i k = Suc r"
    and "r < nx ls i k \<Longrightarrow> lev \<le> i \<Longrightarrow> nx (ins (Suc r) lev ls) i k = Suc (nx ls i k)"
    and "r < nx ls i k \<Longrightarrow> nx (ins (Suc r) lev ls) i (Suc r) = Suc (nx ls i k)"
proof -
  have k: "k < length ls" using assms by simp
  note n = nx_props [OF k, where i = i] and g = nth_ins [of "Suc r" ls lev, OF Suc_leI [OF assms(1)]]
  show "nx (ins (Suc r) lev ls) i k = nx ls i k" if "nx ls i k \<le> r"
    by (rule nx_eqI) (use that assms n g in auto)
  show "nx (ins (Suc r) lev ls) i k = Suc r" if "r < nx ls i k" "i < lev"
    by (rule nx_eqI) (use that assms n(4) g in auto)
  show "nx (ins (Suc r) lev ls) i k = Suc (nx ls i k)" if b: "r < nx ls i k" "lev \<le> i"
  proof (rule nx_eqI)
    fix j assume j: "k < j" "j < Suc (nx ls i k)"
    consider "j \<le> r" | "j = Suc r" | "Suc r < j" by linarith
    then show "ins (Suc r) lev ls ! j \<le> i"
      by cases (use j b assms n(4) [of j] n(4) [of "j - 1"] g [of j] in auto)
  qed (use b assms n g in auto)
  show "nx (ins (Suc r) lev ls) i (Suc r) = Suc (nx ls i k)" if b: "r < nx ls i k"
  proof (rule nx_eqI)
    fix j assume j: "Suc r < j" "j < Suc (nx ls i k)"
    then show "ins (Suc r) lev ls ! j \<le> i" using b assms n(4) [of "j - 1"] g [of j] by auto
  qed (use b assms n g in auto)
qed

lemma nx_ins_right:
  assumes "r < k" "k < length ls"
  shows "nx (ins (Suc r) lev ls) i (Suc k) = Suc (nx ls i k)"
proof (rule nx_eqI)
  note n = nx_props [OF assms(2), where i = i] and g = nth_ins [of "Suc r" ls lev]
  show "Suc k < Suc (nx ls i k)" "Suc (nx ls i k) \<le> length (ins (Suc r) lev ls)" using n by auto
  show "i < ins (Suc r) lev ls ! Suc (nx ls i k)" if "Suc (nx ls i k) < length (ins (Suc r) lev ls)"
    using that n(1,3) assms g by auto
  fix j assume "Suc k < j" "j < Suc (nx ls i k)"
  then show "ins (Suc r) lev ls ! j \<le> i" using n(4) [of "j - 1"] assms g [of j] by auto
qed

text \<open>The distance a node's span records: to the next node of its level, or to the last node.\<close>

definition dist :: "nat list \<Rightarrow> nat \<Rightarrow> nat \<Rightarrow> nat" where
  "dist ls i k = min (nx ls i k) (length ls - 1) - k"

lemma dist_ins:
  assumes "r < length ls" "k \<le> r"
  shows "nx ls i k \<le> r \<Longrightarrow> dist (ins (Suc r) lev ls) i k = dist ls i k"
    and "r < nx ls i k \<Longrightarrow> i < lev \<Longrightarrow> dist (ins (Suc r) lev ls) i k = Suc r - k"
    and "r < nx ls i k \<Longrightarrow> lev \<le> i \<Longrightarrow> dist (ins (Suc r) lev ls) i k = Suc (dist ls i k)"
    and "r < nx ls i k \<Longrightarrow> dist (ins (Suc r) lev ls) i (Suc r) = dist ls i k - (r - k)"
  using assms nx_ins [OF assms, of i lev] by (auto simp: dist_def min_def)

lemma dist_ins_right:
  assumes "r < k" "k < length ls"
  shows "dist (ins (Suc r) lev ls) i (Suc k) = dist ls i k"
  using nx_ins_right [OF assms, of lev i] nx_props(1,2) [OF assms(2), of i] assms by (auto simp: dist_def)

lemma dist_le: "dist ls i k \<le> length ls - 1 - k"
  by (auto simp: dist_def)

lemma dist_step: "k < length ls \<Longrightarrow> nx ls i k < length ls \<Longrightarrow> dist ls i k = nx ls i k - k"
  by (auto simp: dist_def)

end
