(* ===== verification/Skiplist.thy ===== *)
theory Skiplist
  imports Skip_Index Redis_Object Dict "HOL-Library.List_Lexorder" "HOL-Library.Product_Lexorder"
begin

text \<open>
  The skip list of sorted sets (\<open>apps/redis-2.0.4/redis.c\<close>, lines 495-507 and 5470-5761), on an
  explicit heap of nodes with their arrays of forward pointers and spans. Address 0 is NULL, a
  result \<open>None\<close> is an access through NULL, to a freed node or outside an array, or a loop that
  does not end. Scores are a type parameter with a linear order: the doubles but NaN.
  The model of \<open>compareStringObjects\<close> is called with \<open>same = False\<close>; the pointer test at its start
  is a shortcut.
\<close>

type_synonym zptr = nat

definition ZSKIPLIST_MAXLEVEL :: nat where "ZSKIPLIST_MAXLEVEL = 32"

record 's znode =
  forward :: "zptr list"
  backward :: zptr
  span :: "u32 list"
  score :: 's
  zobj :: "sobj option"

text \<open>\<open>zfreed\<close> logs the calls of \<open>decrRefCount\<close>.\<close>

record 's zsl =
  znodes :: "zptr \<Rightarrow> 's znode option"
  header :: zptr
  ztail :: zptr
  zlength :: u64
  zlevel :: nat
  zfreed :: "sobj list"

definition sel :: "'a list \<Rightarrow> nat \<Rightarrow> 'a option" where
  "sel xs i = (if i < length xs then Some (xs ! i) else None)"

definition put_node :: "zptr \<Rightarrow> 's znode \<Rightarrow> 's zsl \<Rightarrow> 's zsl" where
  "put_node p nd z = z\<lparr>znodes := (znodes z)(p \<mapsto> nd)\<rparr>"

text \<open>\<open>p->forward[i]\<close>, \<open>p->span[i-1]\<close> (for \<open>i > 0\<close>) and the stores to them.\<close>

definition get_forward :: "'s zsl \<Rightarrow> zptr \<Rightarrow> nat \<Rightarrow> zptr option" where
  "get_forward z p i = do { nd \<leftarrow> znodes z p; sel (forward nd) i }"

definition get_span :: "'s zsl \<Rightarrow> zptr \<Rightarrow> nat \<Rightarrow> u32 option" where
  "get_span z p i = do { nd \<leftarrow> znodes z p; if 0 < i then sel (span nd) (i - 1) else None }"

definition set_forward :: "zptr \<Rightarrow> nat \<Rightarrow> zptr \<Rightarrow> 's zsl \<Rightarrow> 's zsl option" where
  "set_forward p i q z = do {
     nd \<leftarrow> znodes z p;
     if i < length (forward nd) then Some (put_node p (nd\<lparr>forward := (forward nd)[i := q]\<rparr>) z) else None }"

definition set_span :: "zptr \<Rightarrow> nat \<Rightarrow> u32 \<Rightarrow> 's zsl \<Rightarrow> 's zsl option" where
  "set_span p i v z = do {
     nd \<leftarrow> znodes z p;
     if 0 < i \<and> i - 1 < length (span nd)
     then Some (put_node p (nd\<lparr>span := (span nd)[i - 1 := v]\<rparr>) z) else None }"

definition set_backward :: "zptr \<Rightarrow> zptr \<Rightarrow> 's zsl \<Rightarrow> 's zsl option" where
  "set_backward p q z = do { nd \<leftarrow> znodes z p; Some (put_node p (nd\<lparr>backward := q\<rparr>) z) }"

section \<open>Creating and freeing\<close>

text \<open>\<open>fill\<close> is what \<open>zmalloc\<close> leaves in the fields that are not initialised.\<close>

definition zslCreateNode :: "(nat \<Rightarrow> nat) \<Rightarrow> nat \<Rightarrow> 's \<Rightarrow> sobj option \<Rightarrow> 's znode" where
  "zslCreateNode fill level s ob =
     \<lparr>forward = map fill [0..<level], backward = fill 0,
      span = (if level > 1 then map (of_nat \<circ> fill) [0..<level - 1] else []), score = s, zobj = ob\<rparr>"

definition zslCreate :: "(nat \<Rightarrow> nat) \<Rightarrow> zptr \<Rightarrow> 's::zero zsl" where
  "zslCreate fill p =
     (let nd = zslCreateNode fill ZSKIPLIST_MAXLEVEL 0 None in
      \<lparr>znodes = [p \<mapsto> nd\<lparr>forward := replicate ZSKIPLIST_MAXLEVEL 0,
                        span := replicate (ZSKIPLIST_MAXLEVEL - 1) 0, backward := 0\<rparr>],
       header = p, ztail = 0, zlength = 0, zlevel = 1, zfreed = []\<rparr>)"

definition zslFreeNode :: "zptr \<Rightarrow> 's zsl \<Rightarrow> 's zsl option" where
  "zslFreeNode p z = do {
     nd \<leftarrow> znodes z p;
     ob \<leftarrow> zobj nd;
     Some (z\<lparr>znodes := (znodes z)(p := None), zfreed := zfreed z @ [ob]\<rparr>) }"

partial_function (option) free_nodes :: "zptr \<Rightarrow> 's zsl \<Rightarrow> 's zsl option" where
  "free_nodes node z =
     (if node = 0 then Some z
      else do { next \<leftarrow> get_forward z node 0; z' \<leftarrow> zslFreeNode node z; free_nodes next z' })"

definition zslFree :: "'s zsl \<Rightarrow> 's zsl option" where
  "zslFree z = do {
     node \<leftarrow> get_forward z (header z) 0;
     free_nodes node (z\<lparr>znodes := (znodes z)(header z := None)\<rparr>) }"

text \<open>The argument is the sequence of values of \<open>random()&0xFFFF\<close>; \<open>0.25 * 0xFFFF\<close> is 16383.75.\<close>

fun random_level :: "nat list \<Rightarrow> nat \<Rightarrow> nat" where
  "random_level [] level = level"
| "random_level (r # rs) level = (if r < 16384 then random_level rs (level + 1) else level)"

definition zslRandomLevel :: "nat list \<Rightarrow> nat" where
  "zslRandomLevel rs =
     (let level = random_level rs 1 in if level < ZSKIPLIST_MAXLEVEL then level else ZSKIPLIST_MAXLEVEL)"

section \<open>Searching\<close>

text \<open>
  The inner loop of all searches: while there is a next node at level \<open>i\<close> and \<open>go\<close> holds of the
  number of nodes passed, the span and the next node, the span is added and the node visited.
\<close>

partial_function (option) walk ::
  "'s zsl \<Rightarrow> ('w::len word \<Rightarrow> u32 \<Rightarrow> 's znode \<Rightarrow> bool option) \<Rightarrow> nat \<Rightarrow> zptr \<Rightarrow> 'w word \<Rightarrow> (zptr \<times> 'w word) option"
where
  "walk z go i x acc = do {
     f \<leftarrow> get_forward z x i;
     if f = 0 then Some (x, acc)
     else do {
       nf \<leftarrow> znodes z f;
       s \<leftarrow> (if i > 0 then get_span z x i else Some 1);
       b \<leftarrow> go acc s nf;
       if b then walk z go i f (acc + ucast s) else Some (x, acc) } }"

text \<open>The outer loop down the levels; the result holds \<open>update[i]\<close> and \<open>rank[i]\<close> at index \<open>i\<close>.\<close>

fun descend :: "'s zsl \<Rightarrow> ('w::len word \<Rightarrow> u32 \<Rightarrow> 's znode \<Rightarrow> bool option) \<Rightarrow> nat \<Rightarrow> zptr \<Rightarrow> 'w word \<Rightarrow>
    (zptr \<times> 'w word) list option" where
  "descend z go 0 x acc = Some []"
| "descend z go (Suc i) x acc = do {
     (x', acc') \<leftarrow> walk z go i x acc;
     us \<leftarrow> descend z go i x' acc';
     Some (us @ [(x', acc')]) }"

definition before :: "'s::linorder \<Rightarrow> sobj \<Rightarrow> 'w word \<Rightarrow> u32 \<Rightarrow> 's znode \<Rightarrow> bool option" where
  "before s ob acc sp nf =
     (if score nf < s then Some True
      else if score nf = s then do { o' \<leftarrow> zobj nf; c \<leftarrow> compareStringObjects False o' ob; Some (c < 0) }
      else Some False)"

definition up_to :: "'s::linorder \<Rightarrow> sobj \<Rightarrow> 'w word \<Rightarrow> u32 \<Rightarrow> 's znode \<Rightarrow> bool option" where
  "up_to s ob acc sp nf =
     (if score nf < s then Some True
      else if score nf = s then do { o' \<leftarrow> zobj nf; c \<leftarrow> compareStringObjects False o' ob; Some (c \<le> 0) }
      else Some False)"

section \<open>Inserting\<close>

text \<open>The levels the list did not have: \<open>update[i]\<close> becomes the header.\<close>

fun grow_loop :: "nat \<Rightarrow> nat \<Rightarrow> (zptr \<times> u32) list \<Rightarrow> 's zsl \<Rightarrow> ((zptr \<times> u32) list \<times> 's zsl) option" where
  "grow_loop 0 i us z = Some (us, z)"
| "grow_loop (Suc c) i us z = do {
     z' \<leftarrow> set_span (header z) i (ucast (zlength z)) z;
     grow_loop c (Suc i) (us @ [(header z, 0)]) z' }"

definition grow :: "nat \<Rightarrow> (zptr \<times> u32) list \<Rightarrow> 's zsl \<Rightarrow> ((zptr \<times> u32) list \<times> 's zsl) option" where
  "grow level us z =
     (if level > zlevel z then do {
        (us', z') \<leftarrow> grow_loop (level - zlevel z) (zlevel z) us z;
        Some (us', z'\<lparr>zlevel := level\<rparr>) }
      else Some (us, z))"

text \<open>Linking the node \<open>x\<close> at the levels from \<open>i\<close> on, one per entry of \<open>update\<close>.\<close>

fun link_loop :: "zptr \<Rightarrow> u32 \<Rightarrow> nat \<Rightarrow> (zptr \<times> u32) list \<Rightarrow> 's zsl \<Rightarrow> 's zsl option" where
  "link_loop x rank0 i [] z = Some z"
| "link_loop x rank0 i ((u, rk) # us) z = do {
     f \<leftarrow> get_forward z u i;
     z1 \<leftarrow> set_forward x i f z;
     z2 \<leftarrow> set_forward u i x z1;
     z3 \<leftarrow> (if i > 0 then do {
         s \<leftarrow> get_span z2 u i;
         z' \<leftarrow> set_span x i (s - (rank0 - rk)) z2;
         set_span u i (rank0 - rk + 1) z' }
       else Some z2);
     link_loop x rank0 (Suc i) us z3 }"

fun touch_loop :: "nat \<Rightarrow> (zptr \<times> u32) list \<Rightarrow> 's zsl \<Rightarrow> 's zsl option" where
  "touch_loop i [] z = Some z"
| "touch_loop i ((u, rk) # us) z = do {
     s \<leftarrow> get_span z u i;
     z' \<leftarrow> set_span u i (s + 1) z;
     touch_loop (Suc i) us z' }"

text \<open>\<open>p\<close> is the address of the new node, \<open>rs\<close> the random numbers.\<close>

definition zslInsert :: "(nat \<Rightarrow> nat) \<Rightarrow> zptr \<Rightarrow> nat list \<Rightarrow> 's::linorder \<Rightarrow> sobj \<Rightarrow> 's zsl \<Rightarrow> 's zsl option" where
  "zslInsert fill p rs s ob z = do {
     us \<leftarrow> descend z (before s ob) (zlevel z) (header z) 0;
     let level = zslRandomLevel rs;
     (us', z1) \<leftarrow> grow level us z;
     let z2 = put_node p (zslCreateNode fill level s (Some ob)) z1;
     (u0, rank0) \<leftarrow> sel us' 0;
     z3 \<leftarrow> link_loop p rank0 0 (take level us') z2;
     z4 \<leftarrow> touch_loop level (drop level us') z3;
     z5 \<leftarrow> set_backward p (if u0 = header z4 then 0 else u0) z4;
     f \<leftarrow> get_forward z5 p 0;
     z6 \<leftarrow> (if f \<noteq> 0 then set_backward f p z5 else Some (z5\<lparr>ztail := p\<rparr>));
     Some (z6\<lparr>zlength := zlength z6 + 1\<rparr>) }"

section \<open>Deleting\<close>

fun unlink_loop :: "zptr \<Rightarrow> nat \<Rightarrow> (zptr \<times> 'w word) list \<Rightarrow> 's zsl \<Rightarrow> 's zsl option" where
  "unlink_loop x i [] z = Some z"
| "unlink_loop x i ((u, rk) # us) z = do {
     f \<leftarrow> get_forward z u i;
     z' \<leftarrow> (if f = x then do {
         z1 \<leftarrow> (if i > 0 then do {
             a \<leftarrow> get_span z u i;
             b \<leftarrow> get_span z x i;
             set_span u i (a + (b - 1)) z }
           else Some z);
         g \<leftarrow> get_forward z1 x i;
         set_forward u i g z1 }
       else do { a \<leftarrow> get_span z u i; set_span u i (a - 1) z });
     unlink_loop x (Suc i) us z' }"

fun lower_level :: "'s zsl \<Rightarrow> nat \<Rightarrow> nat option" where
  "lower_level z 0 = Some 0"
| "lower_level z (Suc l) =
     (if l = 0 then Some 1
      else do { f \<leftarrow> get_forward z (header z) l; if f = 0 then lower_level z l else Some (Suc l) })"

definition zslDeleteNode :: "'s zsl \<Rightarrow> zptr \<Rightarrow> (zptr \<times> 'w word) list \<Rightarrow> 's zsl option" where
  "zslDeleteNode z x update =
     (if length update < zlevel z then None
      else do {
        z1 \<leftarrow> unlink_loop x 0 (take (zlevel z) update) z;
        f \<leftarrow> get_forward z1 x 0;
        nd \<leftarrow> znodes z1 x;
        z2 \<leftarrow> (if f \<noteq> 0 then set_backward f (backward nd) z1 else Some (z1\<lparr>ztail := backward nd\<rparr>));
        l \<leftarrow> lower_level z2 (zlevel z2);
        Some (z2\<lparr>zlevel := l, zlength := zlength z2 - 1\<rparr>) })"

definition zslDelete :: "'s::linorder \<Rightarrow> sobj \<Rightarrow> 's zsl \<Rightarrow> (bool \<times> 's zsl) option" where
  "zslDelete s ob z = do {
     update \<leftarrow> descend z (before s ob) (zlevel z) (header z) (0 :: u32);
     (u0, _) \<leftarrow> sel update 0;
     x \<leftarrow> get_forward z u0 0;
     if x = 0 then Some (False, z)
     else do {
       nd \<leftarrow> znodes z x;
       ob' \<leftarrow> zobj nd;
       eq \<leftarrow> (if s = score nd then equalStringObjects False ob' ob else Some False);
       if eq then do { z1 \<leftarrow> zslDeleteNode z x update; z2 \<leftarrow> zslFreeNode x z1; Some (True, z2) }
       else Some (False, z) } }"

text \<open>The deleting loop of the two range functions, which differ in the condition; \<open>t\<close> counts the
  nodes passed. Each node leaves the dictionary of the sorted set too.\<close>

partial_function (option) delete_loop ::
  "(u64 \<Rightarrow> 's znode \<Rightarrow> bool) \<Rightarrow> (zptr \<times> u64) list \<Rightarrow> zptr \<Rightarrow> u64 \<Rightarrow> u64 \<Rightarrow> 's zsl \<Rightarrow> (sobj, 's) dict \<Rightarrow>
    (u64 \<times> 's zsl \<times> (sobj, 's) dict) option"
where
  "delete_loop ok update x t removed z d =
     (if x = 0 then Some (removed, z, d)
      else do {
        nd \<leftarrow> znodes z x;
        if ok t nd then do {
          next \<leftarrow> get_forward z x 0;
          z1 \<leftarrow> zslDeleteNode z x update;
          ob \<leftarrow> zobj nd;
          (r, d') \<leftarrow> dictDelete d ob;
          z2 \<leftarrow> zslFreeNode x z1;
          delete_loop ok update next (t + 1) (removed + 1) z2 d' }
        else Some (removed, z, d) })"

definition zslDeleteRangeByScore :: "'s::linorder \<Rightarrow> 's \<Rightarrow> 's zsl \<Rightarrow> (sobj, 's) dict \<Rightarrow>
    (u64 \<times> 's zsl \<times> (sobj, 's) dict) option" where
  "zslDeleteRangeByScore mn mx z d = do {
     update \<leftarrow> descend z (\<lambda>acc sp nf. Some (score nf < mn)) (zlevel z) (header z) 0;
     (u0, _) \<leftarrow> sel update 0;
     x \<leftarrow> get_forward z u0 0;
     delete_loop (\<lambda>t nd. score nd \<le> mx) update x 0 0 z d }"

definition zslDeleteRangeByRank :: "u32 \<Rightarrow> u32 \<Rightarrow> 's zsl \<Rightarrow> (sobj, 's) dict \<Rightarrow>
    (u64 \<times> 's zsl \<times> (sobj, 's) dict) option" where
  "zslDeleteRangeByRank start stop z d = do {
     update \<leftarrow> descend z (\<lambda>traversed sp nf. Some (traversed + ucast sp < ucast start)) (zlevel z) (header z) 0;
     (u0, traversed) \<leftarrow> sel update 0;
     x \<leftarrow> get_forward z u0 0;
     delete_loop (\<lambda>t nd. t \<le> ucast stop) update x (traversed + 1) 0 z d }"

section \<open>Ranks\<close>

definition zslFirstWithScore :: "'s::linorder \<Rightarrow> 's zsl \<Rightarrow> zptr option" where
  "zslFirstWithScore s z = do {
     us \<leftarrow> descend z (\<lambda>acc sp nf. Some (score nf < s)) (zlevel z) (header z) (0 :: u32);
     (x, _) \<leftarrow> sel us 0;
     get_forward z x 0 }"

fun rank_levels :: "'s::linorder zsl \<Rightarrow> 's \<Rightarrow> sobj \<Rightarrow> nat \<Rightarrow> zptr \<Rightarrow> u64 \<Rightarrow> u64 option" where
  "rank_levels z s ob 0 x rank = Some 0"
| "rank_levels z s ob (Suc i) x rank = do {
     (x', rank') \<leftarrow> walk z (up_to s ob) i x rank;
     nd \<leftarrow> znodes z x';
     hit \<leftarrow> (case zobj nd of None \<Rightarrow> Some False | Some ob' \<Rightarrow> equalStringObjects False ob' ob);
     if hit then Some rank' else rank_levels z s ob i x' rank' }"

definition zslGetRank :: "'s::linorder \<Rightarrow> sobj \<Rightarrow> 's zsl \<Rightarrow> u64 option" where
  "zslGetRank s ob z = rank_levels z s ob (zlevel z) (header z) 0"

fun element_levels :: "'s zsl \<Rightarrow> u64 \<Rightarrow> nat \<Rightarrow> zptr \<Rightarrow> u64 \<Rightarrow> zptr option" where
  "element_levels z rank 0 x traversed = Some 0"
| "element_levels z rank (Suc i) x traversed = do {
     (x', traversed') \<leftarrow> walk z (\<lambda>t sp nf. Some (t + ucast sp \<le> rank)) i x traversed;
     if traversed' = rank then Some x' else element_levels z rank i x' traversed' }"

definition zslGetElementByRank :: "u64 \<Rightarrow> 's zsl \<Rightarrow> zptr option" where
  "zslGetElementByRank rank z = element_levels z rank (zlevel z) (header z) 0"

end
