(* ===== verification/Skiplist_Rep.thy ===== *)
theory Skiplist_Rep
  imports Skiplist
begin

text \<open>
  What a skip list represents: the sequence of its elements, in the order of scores and, for equal
  scores, of texts. The heap is described cell by cell, each forward pointer and span by the
  geometry of theory \<open>Skip_Index\<close>.
\<close>

section \<open>Cells\<close>

definition sizes :: "'s zsl \<Rightarrow> zptr \<Rightarrow> (nat \<times> nat) option" where
  "sizes z p = map_option (\<lambda>nd. (length (forward nd), length (span nd))) (znodes z p)"

definition content_of :: "'s zsl \<Rightarrow> zptr \<Rightarrow> ('s \<times> sobj option) option" where
  "content_of z p = map_option (\<lambda>nd. (score nd, zobj nd)) (znodes z p)"

definition get_backward :: "'s zsl \<Rightarrow> zptr \<Rightarrow> zptr option" where
  "get_backward z p = map_option backward (znodes z p)"

lemma cells_frame [simp]:
  "sizes (z\<lparr>ztail := t\<rparr>) = sizes z" "content_of (z\<lparr>ztail := t\<rparr>) = content_of z"
  "get_backward (z\<lparr>ztail := t\<rparr>) = get_backward z" "get_forward (z\<lparr>ztail := t\<rparr>) = get_forward z"
  "get_span (z\<lparr>ztail := t\<rparr>) = get_span z"
  "sizes (z\<lparr>zlevel := l\<rparr>) = sizes z" "content_of (z\<lparr>zlevel := l\<rparr>) = content_of z"
  "get_backward (z\<lparr>zlevel := l\<rparr>) = get_backward z" "get_forward (z\<lparr>zlevel := l\<rparr>) = get_forward z"
  "get_span (z\<lparr>zlevel := l\<rparr>) = get_span z"
  "sizes (z\<lparr>zlength := n\<rparr>) = sizes z" "content_of (z\<lparr>zlength := n\<rparr>) = content_of z"
  "get_backward (z\<lparr>zlength := n\<rparr>) = get_backward z" "get_forward (z\<lparr>zlength := n\<rparr>) = get_forward z"
  "get_span (z\<lparr>zlength := n\<rparr>) = get_span z"
  by (simp_all add: sizes_def [abs_def] content_of_def [abs_def] get_backward_def [abs_def]
      get_forward_def [abs_def] get_span_def [abs_def])

text \<open>Nothing but nodes has changed.\<close>

definition same_frame :: "'s zsl \<Rightarrow> 's zsl \<Rightarrow> bool" where
  "same_frame z z' \<longleftrightarrow> header z' = header z \<and> ztail z' = ztail z \<and> zlength z' = zlength z \<and>
     zlevel z' = zlevel z \<and> zfreed z' = zfreed z \<and> sizes z' = sizes z \<and> content_of z' = content_of z"

lemma same_frame_refl [simp]: "same_frame z z"
  by (simp add: same_frame_def)

lemma same_frame_trans: "same_frame a b \<Longrightarrow> same_frame b c \<Longrightarrow> same_frame a c"
  by (simp add: same_frame_def)

lemma set_forward_ok:
  assumes "get_forward z p i = Some w"
  shows "\<exists>z'. set_forward p i q z = Some z' \<and> same_frame z z' \<and> get_backward z' = get_backward z \<and>
    get_span z' = get_span z \<and>
    get_forward z' = (\<lambda>a j. if a = p \<and> j = i then Some q else get_forward z a j)"
  using assms
  by (auto simp: set_forward_def get_forward_def get_span_def get_backward_def same_frame_def put_node_def
      sizes_def content_of_def sel_def fun_eq_iff nth_list_update split: Option.bind_splits if_splits)

lemma set_span_ok:
  assumes "get_span z p i = Some w"
  shows "\<exists>z'. set_span p i v z = Some z' \<and> same_frame z z' \<and> get_backward z' = get_backward z \<and>
    get_forward z' = get_forward z \<and>
    get_span z' = (\<lambda>a j. if a = p \<and> j = i then Some v else get_span z a j)"
proof -
  obtain nd where nd: "znodes z p = Some nd" "0 < i" "i - 1 < length (span nd)"
    using assms by (auto simp: get_span_def sel_def split: Option.bind_splits if_splits)
  let ?z = "put_node p (nd\<lparr>span := (span nd)[i - 1 := v]\<rparr>) z"
  have "set_span p i v z = Some ?z" using nd by (simp add: set_span_def)
  moreover have "same_frame z ?z" "get_backward ?z = get_backward z" "get_forward ?z = get_forward z"
    using nd by (auto simp: same_frame_def put_node_def sizes_def content_of_def get_backward_def
        get_forward_def fun_eq_iff)
  moreover have "get_span ?z a j = (if a = p \<and> j = i then Some v else get_span z a j)" for a j
  proof (cases "a = p \<and> 0 < j")
    case True
    then have "i - 1 = j - 1 \<longleftrightarrow> j = i" using nd(2) by auto
    then show ?thesis using True nd by (auto simp: get_span_def put_node_def sel_def nth_list_update)
  qed (use nd in \<open>auto simp: get_span_def put_node_def\<close>)
  ultimately show ?thesis by blast
qed

lemma set_backward_ok:
  assumes "get_backward z p = Some w"
  shows "\<exists>z'. set_backward p q z = Some z' \<and> same_frame z z' \<and> get_forward z' = get_forward z \<and>
    get_span z' = get_span z \<and> get_backward z' = (get_backward z)(p \<mapsto> q)"
  using assms
  by (auto simp: set_backward_def get_forward_def get_span_def get_backward_def same_frame_def put_node_def
      sizes_def content_of_def fun_eq_iff)

section \<open>Representation\<close>

definition addr_at :: "zptr list \<Rightarrow> nat \<Rightarrow> zptr" where
  "addr_at as k = (if k < length as then as ! k else 0)"

definition back_at :: "zptr list \<Rightarrow> nat \<Rightarrow> zptr" where
  "back_at as k = (if k \<le> 1 then 0 else as ! (k - 1))"

definition elem_at :: "('s \<times> sobj) list \<Rightarrow> nat \<Rightarrow> ('s \<times> sobj option) option \<Rightarrow> bool" where
  "elem_at es k c \<longleftrightarrow> (if k = 0 then \<exists>s. c = Some (s, None)
     else c = Some (fst (es ! (k - 1)), Some (snd (es ! (k - 1)))))"

text \<open>\<open>as\<close>, \<open>ls\<close>: the addresses and level numbers of the header and the nodes; \<open>es\<close>: the elements.\<close>

definition zrep :: "'s zsl \<Rightarrow> zptr list \<Rightarrow> nat list \<Rightarrow> ('s \<times> sobj) list \<Rightarrow> bool" where
  "zrep z as ls es \<longleftrightarrow>
     length as = Suc (length es) \<and> length ls = Suc (length es) \<and> length es < 2 ^ 32 \<and>
     distinct as \<and> 0 \<notin> set as \<and> {p. sizes z p \<noteq> None} = set as \<and>
     header z = as ! 0 \<and> ls ! 0 = 32 \<and> 1 \<le> zlevel z \<and> zlevel z \<le> 32 \<and>
     (\<forall>k. 0 < k \<longrightarrow> k < length ls \<longrightarrow> 1 \<le> ls ! k \<and> ls ! k \<le> zlevel z) \<and>
     zlength z = of_nat (length es) \<and> ztail z = (if es = [] then 0 else last as) \<and>
     (\<forall>k < length ls.
        sizes z (as ! k) = Some (ls ! k, ls ! k - 1) \<and>
        elem_at es k (content_of z (as ! k)) \<and>
        get_backward z (as ! k) = Some (back_at as k) \<and>
        (\<forall>i < ls ! k. get_forward z (as ! k) i = Some (addr_at as (nx ls i k))) \<and>
        (\<forall>i. 0 < i \<longrightarrow> i < ls ! k \<longrightarrow> i < zlevel z \<longrightarrow> get_span z (as ! k) i = Some (of_nat (dist ls i k))))"

lemma zrepD:
  assumes "zrep z as ls es"
  shows "length as = Suc (length es)" "length ls = Suc (length es)" "length es < 2 ^ 32"
    "distinct as" "0 \<notin> set as" "{p. sizes z p \<noteq> None} = set as" "header z = as ! 0" "ls ! 0 = 32"
    "1 \<le> zlevel z" "zlevel z \<le> 32" "\<And>k. 0 < k \<Longrightarrow> k < length ls \<Longrightarrow> 1 \<le> ls ! k \<and> ls ! k \<le> zlevel z"
    "zlength z = of_nat (length es)" "ztail z = (if es = [] then 0 else last as)"
    "\<And>k. k < length ls \<Longrightarrow> sizes z (as ! k) = Some (ls ! k, ls ! k - 1)"
    "\<And>k. k < length ls \<Longrightarrow> elem_at es k (content_of z (as ! k))"
    "\<And>k. k < length ls \<Longrightarrow> get_backward z (as ! k) = Some (back_at as k)"
    "\<And>k i. k < length ls \<Longrightarrow> i < ls ! k \<Longrightarrow> get_forward z (as ! k) i = Some (addr_at as (nx ls i k))"
    "\<And>k i. k < length ls \<Longrightarrow> 0 < i \<Longrightarrow> i < ls ! k \<Longrightarrow> i < zlevel z \<Longrightarrow>
      get_span z (as ! k) i = Some (of_nat (dist ls i k))"
  using assms unfolding zrep_def by simp_all

lemma zrep_level: "zrep z as ls es \<Longrightarrow> k < length ls \<Longrightarrow> 0 < ls ! k"
  using zrepD(8) [of z as ls es] zrepD(11) [of z as ls es k] by (cases "k = 0") auto

lemma zrep_addr:
  assumes "zrep z as ls es" "k < length ls"
  shows "as ! k \<noteq> 0" "addr_at as k = as ! k" "\<exists>nd. znodes z (as ! k) = Some nd"
proof -
  have k: "k < length as" using assms(2) zrepD(1,2) [OF assms(1)] by simp
  then have "as ! k \<in> set as" by simp
  then show "as ! k \<noteq> 0" using zrepD(5) [OF assms(1)] by metis
  show "addr_at as k = as ! k" using k by (simp add: addr_at_def)
  show "\<exists>nd. znodes z (as ! k) = Some nd" using zrepD(14) [OF assms] by (auto simp: sizes_def)
qed

lemma zrep_next:
  assumes "zrep z as ls es" "k < length ls"
  shows "addr_at as (nx ls i k) = 0 \<longleftrightarrow> nx ls i k = length ls"
  using zrep_addr(1,2) [OF assms(1), of "nx ls i k"] zrepD(1,2) [OF assms(1)] nx_props(2) [OF assms(2), of i]
  by (auto simp: addr_at_def)

section \<open>Searching\<close>

text \<open>The test of a search accepts exactly the nodes up to position \<open>r\<close>.\<close>

definition go_ok :: "'s zsl \<Rightarrow> zptr list \<Rightarrow> nat \<Rightarrow> ('w::len word \<Rightarrow> u32 \<Rightarrow> 's znode \<Rightarrow> bool option) \<Rightarrow> nat \<Rightarrow> bool" where
  "go_ok z as n go r \<longleftrightarrow> r \<le> n \<and> (\<forall>k m nd. k < m \<longrightarrow> m \<le> n \<longrightarrow> znodes z (as ! m) = Some nd \<longrightarrow>
     go (of_nat k) (of_nat (m - k)) nd = Some (m \<le> r))"

lemma ucast_of_nat32:
  "n < 2 ^ 32 \<Longrightarrow> (ucast (of_nat n :: u32) :: 'w::len word) = of_nat n"
  by (simp add: unsigned_of_nat take_bit_nat_eq_self)

lemma walk_ok:
  fixes go :: "'w::len word \<Rightarrow> u32 \<Rightarrow> 's znode \<Rightarrow> bool option"
  assumes "zrep z as ls es" "i < zlevel z" "go_ok z as (length es) go r"
    "k \<le> r" "i < ls ! k"
  shows "walk z go i (as ! k) (of_nat k) = Some (as ! lst ls i r, of_nat (lst ls i r))"
  using assms(4,5)
proof (induction "r - k" arbitrary: k rule: less_induct)
  case less
  note D = zrepD [OF assms(1)]
  have r: "r \<le> length es" using assms(3) by (simp add: go_ok_def)
  then have k: "k < length ls" using less.prems D(2) by simp
  have i0: "i < ls ! 0" using assms(2) D(8,10) by simp
  let ?m = "nx ls i k"
  have m: "k < ?m" "?m \<le> length ls" using nx_props [OF k, of i] by simp_all
  have f: "get_forward z (as ! k) i = Some (addr_at as ?m)" by (rule D(17) [OF k less.prems(2)])
  show ?case
  proof (cases "?m = length ls")
    case True
    then have "addr_at as ?m = 0" using zrep_next [OF assms(1) k] by blast
    moreover have "k = lst ls i r"
      using nx_beyond [OF less.prems(1) _ less.prems(2) i0] r D(2) True by simp
    ultimately show ?thesis using f by (subst walk.simps) simp
  next
    case False
    then have ml: "?m < length ls" using m by simp
    obtain nf where nf: "znodes z (as ! ?m) = Some nf" using zrep_addr(3) [OF assms(1) ml] by blast
    have a: "addr_at as ?m = as ! ?m" "as ! ?m \<noteq> 0" using zrep_addr [OF assms(1) ml] by simp_all
    have "(if i > 0 then get_span z (as ! k) i else Some 1) = Some (of_nat (?m - k))"
    proof (cases "i = 0")
      case True
      have "0 < ls ! Suc k" using m ml by (intro zrep_level [OF assms(1)]) simp
      then have "?m = Suc k" using True nx_0 [of ls k] m ml by simp
      then show ?thesis using True by simp
    next
      case False
      then show ?thesis using D(18) [OF k _ less.prems(2) assms(2)] dist_step [OF k ml] by simp
    qed
    moreover have "go (of_nat k) (of_nat (?m - k)) nf = Some (?m \<le> r)"
      using assms(3) m ml nf D(2) by (simp add: go_ok_def)
    ultimately have step: "walk z go i (as ! k) (of_nat k) =
        (if ?m \<le> r then walk z go i (as ! ?m) (of_nat k + ucast (of_nat (?m - k) :: u32))
         else Some (as ! k, of_nat k))"
      using f a nf by (subst walk.simps) simp
    show ?thesis
    proof (cases "?m \<le> r")
      case True
      have "?m - k < 2 ^ 32" using ml D(2,3) by simp
      then have "(of_nat k + ucast (of_nat (?m - k) :: u32) :: 'w word) = of_nat ?m"
        using m by (simp only: ucast_of_nat32 of_nat_add [symmetric]) simp
      moreover have "walk z go i (as ! ?m) (of_nat ?m) = Some (as ! lst ls i r, of_nat (lst ls i r))"
        using True m nx_props(3) [OF k ml] by (intro less.hyps) auto
      ultimately show ?thesis using step True by simp
    next
      case False
      then have "k = lst ls i r" using nx_beyond [OF less.prems(1) _ less.prems(2) i0] r D(2) by simp
      then show ?thesis using step False by simp
    qed
  qed
qed

definition update_of :: "zptr list \<Rightarrow> nat list \<Rightarrow> nat \<Rightarrow> nat \<Rightarrow> (zptr \<times> 'w::len word) list" where
  "update_of as ls r n = map (\<lambda>i. (as ! lst ls i r, of_nat (lst ls i r))) [0..<n]"

lemma descend_ok:
  fixes go :: "'w::len word \<Rightarrow> u32 \<Rightarrow> 's znode \<Rightarrow> bool option"
  assumes "zrep z as ls es" "go_ok z as (length es) go r" "n \<le> zlevel z"
    "k \<le> r" "n \<le> ls ! k"
  shows "descend z go n (as ! k) (of_nat k) = Some (update_of as ls r n)"
  using assms(3-5)
proof (induction n arbitrary: k)
  case (Suc n)
  have i0: "n < ls ! 0" using Suc.prems(1) zrepD(8,10) [OF assms(1)] by simp
  have "walk z go n (as ! k) (of_nat k) = Some (as ! lst ls n r, of_nat (lst ls n r))"
    using Suc.prems by (intro walk_ok [OF assms(1) _ assms(2)]) simp_all
  moreover have "descend z go n (as ! lst ls n r) (of_nat (lst ls n r)) = Some (update_of as ls r n)"
    using Suc.prems lst_props [OF i0, of r] by (intro Suc.IH) simp_all
  ultimately show ?case by (simp add: update_of_def)
qed (simp add: update_of_def)

section \<open>The loops of the insertion\<close>

lemma link_step:
  assumes "u \<noteq> x" "get_forward z u i = Some f" "get_forward z x i \<noteq> None"
    "0 < i \<Longrightarrow> get_span z u i = Some s" "0 < i \<Longrightarrow> get_span z x i \<noteq> None"
  shows "\<exists>z'. link_loop x rank0 i ((u, rk) # us) z = link_loop x rank0 (Suc i) us z' \<and> same_frame z z' \<and>
    get_backward z' = get_backward z \<and>
    get_forward z' = (\<lambda>a j. if j = i then if a = x then Some f else if a = u then Some x else get_forward z a j
      else get_forward z a j) \<and>
    get_span z' = (\<lambda>a j. if 0 < i \<and> j = i then if a = x then Some (s - (rank0 - rk))
      else if a = u then Some (rank0 - rk + 1) else get_span z a j else get_span z a j)"
proof -
  obtain z1 where z1: "set_forward x i f z = Some z1" "same_frame z z1" "get_backward z1 = get_backward z"
    "get_span z1 = get_span z" "get_forward z1 = (\<lambda>a j. if a = x \<and> j = i then Some f else get_forward z a j)"
    using set_forward_ok [of z x i _ f] assms(3) by blast
  have "get_forward z1 u i = Some f" using assms(1,2) z1(5) by simp
  from set_forward_ok [OF this, of x] obtain z2 where z2: "set_forward u i x z1 = Some z2" "same_frame z1 z2"
    "get_backward z2 = get_backward z1" "get_span z2 = get_span z1"
    "get_forward z2 = (\<lambda>a j. if a = u \<and> j = i then Some x else get_forward z1 a j)"
    by blast
  show ?thesis
  proof (cases "i = 0")
    case True
    then show ?thesis
      using assms(1,2) z1 z2 same_frame_trans [OF z1(2) z2(2)]
      by (intro exI [of _ z2]) (auto simp: fun_eq_iff)
  next
    case False
    then have i: "0 < i" by simp
    have s: "get_span z2 u i = Some s" "get_span z2 x i \<noteq> None" using assms(4,5) i z1(4) z2(4) by simp_all
    then obtain z3 where z3: "set_span x i (s - (rank0 - rk)) z2 = Some z3" "same_frame z2 z3"
      "get_backward z3 = get_backward z2" "get_forward z3 = get_forward z2"
      "get_span z3 = (\<lambda>a j. if a = x \<and> j = i then Some (s - (rank0 - rk)) else get_span z2 a j)"
      using set_span_ok [of z2 x i _ "s - (rank0 - rk)"] by blast
    have "get_span z3 u i = Some s" using s(1) z3(5) assms(1) by simp
    from set_span_ok [OF this, of "rank0 - rk + 1"] obtain z4 where
      z4: "set_span u i (rank0 - rk + 1) z3 = Some z4" "same_frame z3 z4" "get_backward z4 = get_backward z3"
      "get_forward z4 = get_forward z3"
      "get_span z4 = (\<lambda>a j. if a = u \<and> j = i then Some (rank0 - rk + 1) else get_span z3 a j)"
      by blast
    have "same_frame z z4" using z1(2) z2(2) z3(2) z4(2) by (blast intro: same_frame_trans)
    then show ?thesis
      using i assms(1,2) s(1) z1 z2 z3 z4 by (intro exI [of _ z4]) (auto simp: fun_eq_iff)
  qed
qed

lemma link_loop_ok:
  assumes "\<forall>j < length us. fst (us ! j) \<noteq> x \<and> get_forward z (fst (us ! j)) (i + j) \<noteq> None \<and>
      get_forward z x (i + j) \<noteq> None \<and>
      (0 < i + j \<longrightarrow> get_span z (fst (us ! j)) (i + j) \<noteq> None \<and> get_span z x (i + j) \<noteq> None)"
  shows "\<exists>z'. link_loop x rank0 i us z = Some z' \<and> same_frame z z' \<and> get_backward z' = get_backward z \<and>
    (\<forall>a j. get_forward z' a j = (if i \<le> j \<and> j < i + length us then
        if a = x then get_forward z (fst (us ! (j - i))) j
        else if a = fst (us ! (j - i)) then Some x else get_forward z a j
      else get_forward z a j)) \<and>
    (\<forall>a j. get_span z' a j = (if 0 < j \<and> i \<le> j \<and> j < i + length us then
        if a = x then map_option (\<lambda>s. s - (rank0 - snd (us ! (j - i)))) (get_span z (fst (us ! (j - i))) j)
        else if a = fst (us ! (j - i)) then Some (rank0 - snd (us ! (j - i)) + 1) else get_span z a j
      else get_span z a j))"
  using assms
proof (induction us arbitrary: i z)
  case Nil
  then show ?case by (auto simp: fun_eq_iff)
next
  case (Cons y us)
  obtain u rk where y: "y = (u, rk)" by (cases y)
  have h: "u \<noteq> x" "get_forward z u i \<noteq> None" "get_forward z x i \<noteq> None"
    "0 < i \<Longrightarrow> get_span z u i \<noteq> None" "0 < i \<Longrightarrow> get_span z x i \<noteq> None"
    using Cons.prems [rule_format, of 0] y by auto
  obtain f where f: "get_forward z u i = Some f" using h(2) by blast
  have s: "0 < i \<Longrightarrow> get_span z u i = Some (the (get_span z u i))" using h(4) by auto
  from link_step [OF h(1) f h(3) s h(5), of rank0 rk us] obtain z1 where
    z1: "link_loop x rank0 i ((u, rk) # us) z = link_loop x rank0 (Suc i) us z1" "same_frame z z1"
    "get_backward z1 = get_backward z"
    "get_forward z1 = (\<lambda>a j. if j = i then if a = x then Some f else if a = u then Some x else get_forward z a j
      else get_forward z a j)"
    "get_span z1 = (\<lambda>a j. if 0 < i \<and> j = i then if a = x then Some (the (get_span z u i) - (rank0 - rk))
      else if a = u then Some (rank0 - rk + 1) else get_span z a j else get_span z a j)"
    by blast
  have p: "\<forall>j < length us. fst (us ! j) \<noteq> x \<and> get_forward z1 (fst (us ! j)) (Suc i + j) \<noteq> None \<and>
      get_forward z1 x (Suc i + j) \<noteq> None \<and>
      (0 < Suc i + j \<longrightarrow> get_span z1 (fst (us ! j)) (Suc i + j) \<noteq> None \<and> get_span z1 x (Suc i + j) \<noteq> None)"
  proof (intro allI impI)
    fix j assume "j < length us"
    then show "fst (us ! j) \<noteq> x \<and> get_forward z1 (fst (us ! j)) (Suc i + j) \<noteq> None \<and>
      get_forward z1 x (Suc i + j) \<noteq> None \<and>
      (0 < Suc i + j \<longrightarrow> get_span z1 (fst (us ! j)) (Suc i + j) \<noteq> None \<and> get_span z1 x (Suc i + j) \<noteq> None)"
      using Cons.prems [rule_format, of "Suc j"] z1(4,5) by simp
  qed
  from Cons.IH [OF p] obtain z' where z': "link_loop x rank0 (Suc i) us z1 = Some z'" "same_frame z1 z'"
    "get_backward z' = get_backward z1"
    "\<forall>a j. get_forward z' a j = (if Suc i \<le> j \<and> j < Suc i + length us then
        if a = x then get_forward z1 (fst (us ! (j - Suc i))) j
        else if a = fst (us ! (j - Suc i)) then Some x else get_forward z1 a j
      else get_forward z1 a j)"
    "\<forall>a j. get_span z' a j = (if 0 < j \<and> Suc i \<le> j \<and> j < Suc i + length us then
        if a = x then map_option (\<lambda>s. s - (rank0 - snd (us ! (j - Suc i)))) (get_span z1 (fst (us ! (j - Suc i))) j)
        else if a = fst (us ! (j - Suc i)) then Some (rank0 - snd (us ! (j - Suc i)) + 1) else get_span z1 a j
      else get_span z1 a j)"
    by blast
  have fw: "get_forward z' a j = (if i \<le> j \<and> j < i + length (y # us) then
        if a = x then get_forward z (fst ((y # us) ! (j - i))) j
        else if a = fst ((y # us) ! (j - i)) then Some x else get_forward z a j
      else get_forward z a j)" for a j
  proof (cases "j = i")
    case True
    then show ?thesis using z'(4) z1(4) f y by simp
  next
    case False
    then show ?thesis using z'(4) [rule_format, of a j] z1(4) by (auto simp: nth_Cons' Suc_le_eq)
  qed
  have sp: "get_span z' a j = (if 0 < j \<and> i \<le> j \<and> j < i + length (y # us) then
        if a = x then map_option (\<lambda>s. s - (rank0 - snd ((y # us) ! (j - i)))) (get_span z (fst ((y # us) ! (j - i))) j)
        else if a = fst ((y # us) ! (j - i)) then Some (rank0 - snd ((y # us) ! (j - i)) + 1) else get_span z a j
      else get_span z a j)" for a j
  proof (cases "j = i")
    case True
    then show ?thesis using z'(5) z1(5) h(4) y by auto
  next
    case False
    then show ?thesis using z'(5) z1(5) by (auto simp: nth_Cons' Suc_le_eq)
  qed
  show ?case
    using z1(1-3) z'(1-3) fw sp same_frame_trans [OF z1(2) z'(2)] y by (intro exI [of _ z']) simp
qed

lemma touch_loop_ok:
  assumes "\<forall>j < length us. get_span z (fst (us ! j)) (i + j) \<noteq> None"
  shows "\<exists>z'. touch_loop i us z = Some z' \<and> same_frame z z' \<and> get_backward z' = get_backward z \<and>
    get_forward z' = get_forward z \<and>
    (\<forall>a j. get_span z' a j = (if i \<le> j \<and> j < i + length us \<and> a = fst (us ! (j - i))
      then map_option (\<lambda>s. s + 1) (get_span z a j) else get_span z a j))"
  using assms
proof (induction us arbitrary: i z)
  case Nil
  then show ?case by (auto simp: fun_eq_iff)
next
  case (Cons y us)
  obtain u rk where y: "y = (u, rk)" by (cases y)
  obtain s where s: "get_span z u i = Some s" using Cons.prems [rule_format, of 0] y by auto
  from set_span_ok [OF s, of "s + 1"] obtain z1 where z1: "set_span u i (s + 1) z = Some z1" "same_frame z z1"
    "get_backward z1 = get_backward z" "get_forward z1 = get_forward z"
    "get_span z1 = (\<lambda>a j. if a = u \<and> j = i then Some (s + 1) else get_span z a j)" by blast
  have "\<forall>j < length us. get_span z1 (fst (us ! j)) (Suc i + j) \<noteq> None"
  proof (intro allI impI)
    fix j assume "j < length us"
    then show "get_span z1 (fst (us ! j)) (Suc i + j) \<noteq> None"
      using Cons.prems [rule_format, of "Suc j"] z1(5) by simp
  qed
  from Cons.IH [OF this] obtain z' where z': "touch_loop (Suc i) us z1 = Some z'" "same_frame z1 z'"
    "get_backward z' = get_backward z1" "get_forward z' = get_forward z1"
    "\<forall>a j. get_span z' a j = (if Suc i \<le> j \<and> j < Suc i + length us \<and> a = fst (us ! (j - Suc i))
      then map_option (\<lambda>s. s + 1) (get_span z1 a j) else get_span z1 a j)"
    by blast
  have "get_span z' a j = (if i \<le> j \<and> j < i + length (y # us) \<and> a = fst ((y # us) ! (j - i))
      then map_option (\<lambda>s. s + 1) (get_span z a j) else get_span z a j)" for a j
  proof (cases "j = i")
    case True
    then show ?thesis using z'(5) z1(5) s y by simp
  next
    case False
    then show ?thesis using z'(5) z1(5) by (auto simp: nth_Cons' Suc_le_eq)
  qed
  then show ?case
    using s z1(1-4) z'(1-4) same_frame_trans [OF z1(2) z'(2)] y by (intro exI [of _ z']) simp
qed

lemma grow_loop_ok:
  assumes "\<forall>j < c. get_span z (header z) (i + j) \<noteq> None"
  shows "\<exists>z'. grow_loop c i us z = Some (us @ replicate c (header z, 0), z') \<and> same_frame z z' \<and>
    get_backward z' = get_backward z \<and> get_forward z' = get_forward z \<and>
    (\<forall>a j. get_span z' a j = (if a = header z \<and> i \<le> j \<and> j < i + c then Some (ucast (zlength z)) else get_span z a j))"
  using assms
proof (induction c arbitrary: i us z)
  case 0
  then show ?case by (auto simp: fun_eq_iff)
next
  case (Suc c)
  obtain w where w: "get_span z (header z) i = Some w" using Suc.prems [rule_format, of 0] by auto
  from set_span_ok [OF w, of "ucast (zlength z)"] obtain z1 where
    z1: "set_span (header z) i (ucast (zlength z)) z = Some z1" "same_frame z z1"
    "get_backward z1 = get_backward z" "get_forward z1 = get_forward z"
    "get_span z1 = (\<lambda>a j. if a = header z \<and> j = i then Some (ucast (zlength z)) else get_span z a j)" by blast
  have h: "header z1 = header z" "zlength z1 = zlength z" using z1(2) by (simp_all add: same_frame_def)
  have "\<forall>j < c. get_span z1 (header z1) (Suc i + j) \<noteq> None"
  proof (intro allI impI)
    fix j assume "j < c"
    then show "get_span z1 (header z1) (Suc i + j) \<noteq> None"
      using Suc.prems [rule_format, of "Suc j"] z1(5) h by simp
  qed
  from Suc.IH [OF this, of "us @ [(header z, 0)]"] obtain z' where
    z': "grow_loop c (Suc i) (us @ [(header z, 0)]) z1 = Some ((us @ [(header z, 0)]) @ replicate c (header z, 0), z')"
    "same_frame z1 z'" "get_backward z' = get_backward z1" "get_forward z' = get_forward z1"
    "\<forall>a j. get_span z' a j = (if a = header z \<and> Suc i \<le> j \<and> j < Suc i + c then Some (ucast (zlength z)) else get_span z1 a j)"
    unfolding h by blast
  have "get_span z' a j = (if a = header z \<and> i \<le> j \<and> j < i + Suc c then Some (ucast (zlength z)) else get_span z a j)" for a j
    using z'(5) z1(5) by auto
  then show ?case
    using z1(1-4) z'(1-4) same_frame_trans [OF z1(2) z'(2)] by (intro exI [of _ z']) simp
qed

section \<open>Growing\<close>

lemma length_update_of [simp]: "length (update_of as ls r n) = n"
  by (simp add: update_of_def)

lemma nth_update_of [simp]: "i < n \<Longrightarrow> update_of as ls r n ! i = (as ! lst ls i r, of_nat (lst ls i r))"
  by (simp add: update_of_def)

text \<open>Above the level of the list there is only the header.\<close>

lemma high_level:
  assumes "zrep z as ls es" "zlevel z \<le> i" "i < 32" "r < length ls"
  shows "lst ls i r = 0" "nx ls i 0 = length ls" "dist ls i 0 = length es"
proof -
  note D = zrepD [OF assms(1)]
  have low: "ls ! k \<le> i" if "0 < k" "k < length ls" for k using D(11) [OF that] assms(2) by simp
  show "lst ls i r = 0" using assms low D(8) by (intro lst_eqI) auto
  show nx: "nx ls i 0 = length ls" using low D(2) by (intro nx_eqI) auto
  show "dist ls i 0 = length es" using D(2) nx by (simp add: dist_def)
qed

lemma grow_ok:
  assumes "zrep z as ls es" "level \<le> 32" "r \<le> length es"
  shows "\<exists>z'. grow level (update_of as ls r (zlevel z)) z = Some (update_of as ls r (max (zlevel z) level), z') \<and>
    zrep z' as ls es \<and> zlevel z' = max (zlevel z) level \<and> zfreed z' = zfreed z"
proof (cases "level > zlevel z")
  case False
  then show ?thesis using assms(1) by (intro exI [of _ z]) (simp add: grow_def max_def)
next
  case True
  note D = zrepD [OF assms(1)]
  have h: "0 < length ls" "header z = as ! 0" "ls ! 0 = 32" using D by simp_all
  have "sizes z (as ! 0) = Some (32, 31)" using D(14) [OF h(1)] h(3) by simp
  then have "get_span z (header z) i \<noteq> None" if "0 < i" "i < 32" for i
    using that h(2) by (auto simp: sizes_def get_span_def sel_def)
  then have "\<forall>j < level - zlevel z. get_span z (header z) (zlevel z + j) \<noteq> None"
    using D(9) assms(2) by simp
  from grow_loop_ok [OF this, of "update_of as ls r (zlevel z)"] obtain z1 where
    z1: "grow_loop (level - zlevel z) (zlevel z) (update_of as ls r (zlevel z)) z =
      Some (update_of as ls r (zlevel z) @ replicate (level - zlevel z) (header z, 0), z1)"
    "same_frame z z1" "get_backward z1 = get_backward z" "get_forward z1 = get_forward z"
    "\<forall>a j. get_span z1 a j = (if a = header z \<and> zlevel z \<le> j \<and> j < zlevel z + (level - zlevel z)
      then Some (ucast (zlength z)) else get_span z a j)"
    by blast
  have us: "update_of as ls r (zlevel z) @ replicate (level - zlevel z) (header z, 0) = update_of as ls r level"
  proof (rule nth_equalityI)
    fix i assume "i < length (update_of as ls r (zlevel z) @ replicate (level - zlevel z) (header z, 0))"
    then show "(update_of as ls r (zlevel z) @ replicate (level - zlevel z) (header z, 0)) ! i = update_of as ls r level ! i"
      using high_level(1) [OF assms(1), of i r] assms(2,3) D(2) h(2) True by (auto simp: nth_append)
  qed (use True in simp)
  have len: "(ucast (zlength z) :: u32) = of_nat (length es)"
    using D(3,12) by (simp add: unsigned_of_nat take_bit_nat_eq_self)
  let ?z = "z1\<lparr>zlevel := level\<rparr>"
  have cells: "sizes ?z = sizes z" "content_of ?z = content_of z" "get_backward ?z = get_backward z"
    "get_forward ?z = get_forward z" "get_span ?z = get_span z1"
    using z1(2-4) by (simp_all add: same_frame_def)
  have span: "get_span z1 (as ! k) i = Some (of_nat (dist ls i k))"
    if k: "k < length ls" "0 < i" "i < ls ! k" "i < level" for k i
  proof (cases "i < zlevel z")
    case True
    then show ?thesis using z1(5) D(18) [OF k(1,2,3)] by simp
  next
    case False
    have "k = 0"
    proof (rule ccontr)
      assume "k \<noteq> 0"
      then have "ls ! k \<le> zlevel z" using D(11) k(1) by blast
      then show False using k(3) False by simp
    qed
    then show ?thesis
      using z1(5) False k(4) len high_level(3) [OF assms(1), of i 0] assms(2) h by simp
  qed
  have lev: "1 \<le> ls ! k \<and> ls ! k \<le> level" if "0 < k" "k < length ls" for k
    using D(11) [OF that] True by simp
  have "zrep ?z as ls es"
    using D(1-10,12-18) True assms(2) z1(2) span lev unfolding zrep_def cells
    by (simp add: same_frame_def)
  moreover have "zfreed ?z = zfreed z" using z1(2) by (simp add: same_frame_def)
  ultimately show ?thesis using z1(1) us True by (intro exI [of _ ?z]) (simp add: grow_def max_def)
qed

section \<open>Inserting\<close>

lemma cells_put_node:
  "get_forward (put_node p nd z) a i = (if a = p then sel (forward nd) i else get_forward z a i)"
  "get_span (put_node p nd z) a i = (if a = p then if 0 < i then sel (span nd) (i - 1) else None else get_span z a i)"
  "get_backward (put_node p nd z) a = (if a = p then Some (backward nd) else get_backward z a)"
  "sizes (put_node p nd z) a = (if a = p then Some (length (forward nd), length (span nd)) else sizes z a)"
  "content_of (put_node p nd z) a = (if a = p then Some (score nd, zobj nd) else content_of z a)"
  by (simp_all add: put_node_def get_forward_def get_span_def get_backward_def sizes_def content_of_def)

lemma same_level_0:
  assumes "zrep z as ls es" "r \<le> length es"
  shows "lst ls 0 r = r"
  using assms zrep_level [OF assms(1), of r] zrepD(2) [OF assms(1)] by (intro lst_eqI) auto

text \<open>The heap after the node has been linked at its levels and the other spans counted up.\<close>

lemma linked:
  assumes z: "zrep z as ls es" "r \<le> length es" "1 \<le> lev" "lev \<le> zlevel z" "p \<notin> set as"
  shows "\<exists>z3 z4. link_loop p (of_nat r) 0 (take lev (update_of as ls r (zlevel z)))
      (put_node p (zslCreateNode fill lev s ob) z) = Some z3 \<and>
    touch_loop lev (drop lev (update_of as ls r (zlevel z))) z3 = Some z4 \<and>
    same_frame (put_node p (zslCreateNode fill lev s ob) z) z4 \<and>
    get_backward z4 = (get_backward z)(p \<mapsto> fill 0) \<and>
    (\<forall>i < lev. get_forward z4 p i = Some (addr_at as (nx ls i (lst ls i r)))) \<and>
    (\<forall>i. 0 < i \<longrightarrow> i < lev \<longrightarrow> get_span z4 p i = Some (of_nat (dist ls i (lst ls i r) - (r - lst ls i r)))) \<and>
    (\<forall>k < length ls. \<forall>i < ls ! k. get_forward z4 (as ! k) i =
      Some (if i < lev \<and> k = lst ls i r then p else addr_at as (nx ls i k))) \<and>
    (\<forall>k < length ls. \<forall>i. 0 < i \<longrightarrow> i < ls ! k \<longrightarrow> i < zlevel z \<longrightarrow> get_span z4 (as ! k) i = Some (of_nat
      (if k \<noteq> lst ls i r then dist ls i k else if i < lev then Suc r - k else Suc (dist ls i k))))"
proof -
  note D = zrepD [OF z(1)]
  define us :: "(nat \<times> u32) list" where "us = update_of as ls r (zlevel z)"
  define z2 where "z2 = put_node p (zslCreateNode fill lev s ob) z"
  have usn: "us ! i = (as ! lst ls i r, of_nat (lst ls i r))" if "i < zlevel z" for i
    using that by (simp add: us_def)
  have len: "length (take lev us) = lev" "length (drop lev us) = zlevel z - lev" using z(4) by (simp_all add: us_def)
  have lst: "lst ls i r \<le> r" "i < ls ! lst ls i r" "lst ls i r < length ls" if "i < zlevel z" for i
    using that lst_props [of i ls r] D(2,8,10) z(2) by auto
  have np: "as ! k \<noteq> p" if "k < length ls" for k using that z(5) D(1,2) nth_mem [of k as] by metis
  have new: "get_forward z2 p i = Some (fill i)" "0 < i \<Longrightarrow> get_span z2 p i = Some (of_nat (fill (i - 1)))"
    if "i < lev" for i
    using that by (auto simp: z2_def cells_put_node zslCreateNode_def sel_def)
  have old: "get_forward z2 (as ! k) i = get_forward z (as ! k) i" "get_span z2 (as ! k) i = get_span z (as ! k) i"
    if "k < length ls" for k i
    using np [OF that] by (simp_all add: z2_def cells_put_node)
  have "\<forall>j < length (take lev us). fst (take lev us ! j) \<noteq> p \<and> get_forward z2 (fst (take lev us ! j)) (0 + j) \<noteq> None \<and>
      get_forward z2 p (0 + j) \<noteq> None \<and>
      (0 < 0 + j \<longrightarrow> get_span z2 (fst (take lev us ! j)) (0 + j) \<noteq> None \<and> get_span z2 p (0 + j) \<noteq> None)"
  proof (intro allI impI)
    fix j assume "j < length (take lev us)"
    then have j: "j < lev" "j < zlevel z" using len z(4) by simp_all
    then show "fst (take lev us ! j) \<noteq> p \<and> get_forward z2 (fst (take lev us ! j)) (0 + j) \<noteq> None \<and>
      get_forward z2 p (0 + j) \<noteq> None \<and>
      (0 < 0 + j \<longrightarrow> get_span z2 (fst (take lev us ! j)) (0 + j) \<noteq> None \<and> get_span z2 p (0 + j) \<noteq> None)"
      using lst [OF j(2)] np old new [OF j(1)] D(17) [OF lst(3) [OF j(2)] lst(2) [OF j(2)]] D(18) [OF lst(3) [OF j(2)] _ lst(2) [OF j(2)] j(2)]
      by (simp add: usn)
  qed
  from link_loop_ok [OF this, of "of_nat r"] obtain z3 where
    z3: "link_loop p (of_nat r) 0 (take lev us) z2 = Some z3" "same_frame z2 z3" "get_backward z3 = get_backward z2"
    "\<forall>a j. get_forward z3 a j = (if 0 \<le> j \<and> j < 0 + length (take lev us) then
        if a = p then get_forward z2 (fst (take lev us ! (j - 0))) j
        else if a = fst (take lev us ! (j - 0)) then Some p else get_forward z2 a j
      else get_forward z2 a j)"
    "\<forall>a j. get_span z3 a j = (if 0 < j \<and> 0 \<le> j \<and> j < 0 + length (take lev us) then
        if a = p then map_option (\<lambda>s. s - (of_nat r - snd (take lev us ! (j - 0)))) (get_span z2 (fst (take lev us ! (j - 0))) j)
        else if a = fst (take lev us ! (j - 0)) then Some (of_nat r - snd (take lev us ! (j - 0)) + 1) else get_span z2 a j
      else get_span z2 a j)"
    by blast
  have fw3: "get_forward z3 a i = (if i < lev then if a = p then get_forward z2 (as ! lst ls i r) i
      else if a = as ! lst ls i r then Some p else get_forward z2 a i else get_forward z2 a i)" for a i
    using z3(4) [rule_format, of a i] len z(4) by (auto simp: usn)
  have sp3: "get_span z3 a i = (if 0 < i \<and> i < lev then
      if a = p then map_option (\<lambda>s. s - (of_nat r - of_nat (lst ls i r))) (get_span z2 (as ! lst ls i r) i)
      else if a = as ! lst ls i r then Some (of_nat r - of_nat (lst ls i r) + 1) else get_span z2 a i
      else get_span z2 a i)" for a i
    using z3(5) [rule_format, of a i] len z(4) by (auto simp: usn)
  have drop: "drop lev us ! j = (as ! lst ls (lev + j) r, of_nat (lst ls (lev + j) r))" if "lev + j < zlevel z" for j
    using that usn [of "lev + j"] by (simp add: us_def)
  have old_span: "get_span z2 (as ! lst ls i r) i = Some (of_nat (dist ls i (lst ls i r)))" if "0 < i" "i < zlevel z" for i
    using old(2) [OF lst(3) [OF that(2)], of i] D(18) [OF lst(3) [OF that(2)] that(1) lst(2) [OF that(2)] that(2)] by simp
  have "\<forall>j < length (drop lev us). get_span z3 (fst (drop lev us ! j)) (lev + j) \<noteq> None"
  proof (intro allI impI)
    fix j assume "j < length (drop lev us)"
    then have "lev + j < zlevel z" using len by simp
    then show "get_span z3 (fst (drop lev us ! j)) (lev + j) \<noteq> None"
      using sp3 drop old_span [of "lev + j"] z(3) by simp
  qed
  from touch_loop_ok [OF this] obtain z4 where z4: "touch_loop lev (drop lev us) z3 = Some z4" "same_frame z3 z4"
    "get_backward z4 = get_backward z3" "get_forward z4 = get_forward z3"
    "\<forall>a j. get_span z4 a j = (if lev \<le> j \<and> j < lev + length (drop lev us) \<and> a = fst (drop lev us ! (j - lev))
      then map_option (\<lambda>s. s + 1) (get_span z3 a j) else get_span z3 a j)"
    by blast
  have sp4: "get_span z4 a i = (if lev \<le> i \<and> i < zlevel z \<and> a = as ! lst ls i r
      then map_option (\<lambda>s. s + 1) (get_span z3 a i) else get_span z3 a i)" for a i
    using z4(5) [rule_format, of a i] len z(4) drop [of "i - lev"] by auto
  have inj: "as ! k = as ! lst ls i r \<longleftrightarrow> k = lst ls i r" if "k < length ls" "i < zlevel z" for k i
    using that lst(3) [OF that(2)] D(1,2,4) by (simp add: nth_eq_iff_index_eq)
  have beyond: "r - lst ls i r \<le> dist ls i (lst ls i r)" if "i < zlevel z" for i
    using nx_beyond [OF lst(1) [OF that] _ lst(2) [OF that]] lst [OF that] z(2) D(2,8,10) that
    by (auto simp: dist_def)
  have c1: "get_forward z4 p i = Some (addr_at as (nx ls i (lst ls i r)))" if "i < lev" for i
  proof -
    have i: "i < zlevel z" using that z(4) by simp
    show ?thesis using that z4(4) fw3 [of p i] old(1) [OF lst(3) [OF i], of i] D(17) [OF lst(3) [OF i] lst(2) [OF i]] by simp
  qed
  have c2: "get_span z4 p i = Some (of_nat (dist ls i (lst ls i r) - (r - lst ls i r)))" if "0 < i" "i < lev" for i
    using that sp4 [of p i] sp3 [of p i] old_span [of i] beyond [of i] lst(1) [of i] z(4)
    by (simp add: of_nat_diff)
  have c3: "get_forward z4 (as ! k) i = Some (if i < lev \<and> k = lst ls i r then p else addr_at as (nx ls i k))"
    if "k < length ls" "i < ls ! k" for k i
    using that z4(4) fw3 [of "as ! k" i] old(1) [OF that(1), of i] np [OF that(1)] D(17) [OF that] inj [OF that(1), of i] z(4)
    by simp
  have c4: "get_span z4 (as ! k) i = Some (of_nat
      (if k \<noteq> lst ls i r then dist ls i k else if i < lev then Suc r - k else Suc (dist ls i k)))"
    if "k < length ls" "0 < i" "i < ls ! k" "i < zlevel z" for k i
    using that sp4 [of "as ! k" i] sp3 [of "as ! k" i] old(2) [OF that(1), of i] np [OF that(1)] D(18) [OF that]
      inj [OF that(1,4)] lst(1) [OF that(4)]
    by (auto simp: of_nat_diff Suc_diff_le)
  have "get_backward z4 = (get_backward z)(p \<mapsto> fill 0)"
    unfolding z4(3) z3(3) by (auto simp: fun_eq_iff z2_def cells_put_node zslCreateNode_def)
  moreover note same_frame_trans [OF z3(2) z4(2)] z3(1) z4(1)
  ultimately show ?thesis
    unfolding us_def [symmetric] z2_def [symmetric] using c1 c2 c3 c4
    by (intro exI [of _ z3] exI [of _ z4]) simp
qed

lemma random_level_ge: "level \<le> random_level rs level"
proof (induction rs arbitrary: level)
  case (Cons r rs)
  then show ?case using Cons.IH [of "level + 1"] by (simp add: Suc_leD)
qed simp

lemma zslRandomLevel_bounds: "1 \<le> zslRandomLevel rs" "zslRandomLevel rs \<le> 32"
  using random_level_ge [of 1 rs] by (auto simp: zslRandomLevel_def Let_def ZSKIPLIST_MAXLEVEL_def)

lemma zrepI:
  assumes "length as = Suc (length es)" "length ls = Suc (length es)" "length es < 2 ^ 32"
    "distinct as" "0 \<notin> set as" "{p. sizes z p \<noteq> None} = set as" "header z = as ! 0" "ls ! 0 = 32"
    "1 \<le> zlevel z" "zlevel z \<le> 32" "\<And>k. 0 < k \<Longrightarrow> k < length ls \<Longrightarrow> 1 \<le> ls ! k \<and> ls ! k \<le> zlevel z"
    "zlength z = of_nat (length es)" "ztail z = (if es = [] then 0 else last as)"
    "\<And>k. k < length ls \<Longrightarrow> sizes z (as ! k) = Some (ls ! k, ls ! k - 1)"
    "\<And>k. k < length ls \<Longrightarrow> elem_at es k (content_of z (as ! k))"
    "\<And>k. k < length ls \<Longrightarrow> get_backward z (as ! k) = Some (back_at as k)"
    "\<And>k i. k < length ls \<Longrightarrow> i < ls ! k \<Longrightarrow> get_forward z (as ! k) i = Some (addr_at as (nx ls i k))"
    "\<And>k i. k < length ls \<Longrightarrow> 0 < i \<Longrightarrow> i < ls ! k \<Longrightarrow> i < zlevel z \<Longrightarrow>
      get_span z (as ! k) i = Some (of_nat (dist ls i k))"
  shows "zrep z as ls es"
  using assms unfolding zrep_def by simp

lemma addr_at_ins:
  assumes "r < length as"
  shows "addr_at (ins (Suc r) p as) m = (if m \<le> r then addr_at as m else if m = Suc r then p else addr_at as (m - 1))"
  using assms nth_ins [of "Suc r" as p m] by (auto simp: addr_at_def)

lemma back_at_ins:
  assumes "r < length as"
  shows "k \<le> r \<Longrightarrow> back_at (ins (Suc r) p as) k = back_at as k"
    "back_at (ins (Suc r) p as) (Suc r) = (if r = 0 then 0 else as ! r)"
    "back_at (ins (Suc r) p as) (Suc (Suc r)) = p"
    "Suc r < k \<Longrightarrow> back_at (ins (Suc r) p as) (Suc k) = back_at as k"
  using assms nth_ins [of "Suc r" as p] by (auto simp: back_at_def)

lemma elem_at_ins:
  assumes "r \<le> length es"
  shows "k \<le> r \<Longrightarrow> elem_at (ins r e es) k c = elem_at es k c"
    "elem_at (ins r e es) (Suc r) c \<longleftrightarrow> c = Some (fst e, Some (snd e))"
    "r < k \<Longrightarrow> elem_at (ins r e es) (Suc k) c = elem_at es k c"
  using assms nth_ins [of r es e] by (auto simp: elem_at_def)

lemma last_ins:
  assumes "r < length as"
  shows "last (ins (Suc r) p as) = (if Suc r = length as then p else last as)"
  using assms by (auto simp: ins_def last_append)

lemma insert_cells:
  assumes z: "zrep z as ls es" "r \<le> length es" "length es + 1 < 2 ^ 32" "lev \<le> zlevel z'" "1 \<le> lev"
    "p \<notin> set as" "p \<noteq> 0"
    and z': "header z' = header z" "zlevel z' = zlevel z" "zlength z' = zlength z + 1"
      "ztail z' = (if r = length es then p else ztail z)"
      "sizes z' = (sizes z)(p \<mapsto> (lev, lev - 1))" "content_of z' = (content_of z)(p \<mapsto> (s, Some ob))"
      "\<And>k. k < length ls \<Longrightarrow> k \<noteq> Suc r \<Longrightarrow> get_backward z' (as ! k) = get_backward z (as ! k)"
      "Suc r < length ls \<Longrightarrow> get_backward z' (as ! Suc r) = Some p"
      "get_backward z' p = Some (if r = 0 then 0 else as ! r)"
      "\<And>i. i < lev \<Longrightarrow> get_forward z' p i = Some (addr_at as (nx ls i (lst ls i r)))"
      "\<And>i. 0 < i \<Longrightarrow> i < lev \<Longrightarrow> get_span z' p i = Some (of_nat (dist ls i (lst ls i r) - (r - lst ls i r)))"
      "\<And>k i. k < length ls \<Longrightarrow> i < ls ! k \<Longrightarrow> get_forward z' (as ! k) i =
        Some (if i < lev \<and> k = lst ls i r then p else addr_at as (nx ls i k))"
      "\<And>k i. k < length ls \<Longrightarrow> 0 < i \<Longrightarrow> i < ls ! k \<Longrightarrow> i < zlevel z \<Longrightarrow> get_span z' (as ! k) i = Some (of_nat
        (if k \<noteq> lst ls i r then dist ls i k else if i < lev then Suc r - k else Suc (dist ls i k)))"
  shows "zrep z' (ins (Suc r) p as) (ins (Suc r) lev ls) (ins r (s, ob) es)"
proof -
  note D = zrepD [OF z(1)]
  have r: "r < length as" "r < length ls" using z(2) D(1,2) by simp_all
  note ia = nth_ins [OF Suc_leI [OF r(1)], of p] and il = nth_ins [OF Suc_leI [OF r(2)], of lev]
  have lst: "lst ls i r \<le> r" "i < ls ! lst ls i r" "r < nx ls i (lst ls i r)" if "i < zlevel z" for i
  proof -
    have i0: "i < ls ! 0" using that D(8,10) by simp
    show "lst ls i r \<le> r" "i < ls ! lst ls i r" using lst_props [OF i0] by simp_all
    then show "r < nx ls i (lst ls i r)" using nx_beyond [of "lst ls i r" r ls i] r(2) i0 by simp
  qed
  have at_last: "r < nx ls i k \<longleftrightarrow> k = lst ls i r" if "k \<le> r" "i < ls ! k" for i k
  proof -
    have "ls ! k \<le> 32" using D(8,10) D(11) [of k] that(1) r(2) by (cases "k = 0") auto
    then show ?thesis using nx_beyond [OF that(1) r(2) that(2)] that(2) D(8) by simp
  qed
  have np: "as ! k \<noteq> p" if "k < length ls" for k using that z(6) D(1,2) nth_mem [of k as] by metis
  have pos: "(k = Suc r \<Longrightarrow> P) \<Longrightarrow> (k \<le> r \<Longrightarrow> k < length ls \<Longrightarrow> P) \<Longrightarrow>
      (\<And>q. k = Suc q \<Longrightarrow> r < q \<Longrightarrow> q < length ls \<Longrightarrow> P) \<Longrightarrow> P"
    if "k < length (ins (Suc r) lev ls)" for k P
    using that r by (cases k) (fastforce simp: not_le)+
  show ?thesis
  proof (rule zrepI)
    show "length (ins (Suc r) p as) = Suc (length (ins r (s, ob) es))" "length (ins (Suc r) lev ls) = Suc (length (ins r (s, ob) es))"
      using D(1,2) by simp_all
    show "length (ins r (s, ob) es) < 2 ^ 32" using z(3) by simp
    show "distinct (ins (Suc r) p as)" "0 \<notin> set (ins (Suc r) p as)" using z(6,7) D(4,5) by (auto simp: distinct_ins)
    have "{q. sizes z' q \<noteq> None} = insert p {q. sizes z q \<noteq> None}" unfolding z'(5) by auto
    then show "{q. sizes z' q \<noteq> None} = set (ins (Suc r) p as)" unfolding D(6) by simp
    show "header z' = ins (Suc r) p as ! 0" "ins (Suc r) lev ls ! 0 = 32" using z'(1) D(7,8) ia il by simp_all
    show "1 \<le> zlevel z'" "zlevel z' \<le> 32" using z'(2) D(9,10) by simp_all
    show "1 \<le> ins (Suc r) lev ls ! k \<and> ins (Suc r) lev ls ! k \<le> zlevel z'"
      if "0 < k" "k < length (ins (Suc r) lev ls)" for k
      by (rule pos [OF that(2)]) (use that z(4,5) D(11) il z'(2) in auto)
    show "zlength z' = of_nat (length (ins r (s, ob) es))" using z'(3) D(12) by simp
    show "ztail z' = (if ins r (s, ob) es = [] then 0 else last (ins (Suc r) p as))"
      using z'(4) D(1,13) z(2) last_ins [OF r(1), of p] by (auto simp: ins_def)
  next
    fix k assume k: "k < length (ins (Suc r) lev ls)"
    show "sizes z' (ins (Suc r) p as ! k) = Some (ins (Suc r) lev ls ! k, ins (Suc r) lev ls ! k - 1)"
      by (rule pos [OF k]) (use ia il D(14) np z'(5) in auto)
    show "elem_at (ins r (s, ob) es) k (content_of z' (ins (Suc r) p as ! k))"
      by (rule pos [OF k]) (use ia D(15) np z'(6) elem_at_ins [OF z(2)] in auto)
    show "get_backward z' (ins (Suc r) p as ! k) = Some (back_at (ins (Suc r) p as) k)"
    proof (rule pos [OF k])
      fix q assume q: "k = Suc q" "r < q" "q < length ls"
      then show ?thesis
        using ia D(16) [OF q(3)] z'(7) [OF q(3)] z'(8) back_at_ins [OF r(1), where p = p] by (cases "q = Suc r") auto
    qed (use ia D(16) z'(7,9) back_at_ins [OF r(1), where p = p] in auto)
    fix i assume i: "i < ins (Suc r) lev ls ! k"
    show "get_forward z' (ins (Suc r) p as ! k) i = Some (addr_at (ins (Suc r) p as) (nx (ins (Suc r) lev ls) i k))"
    proof (rule pos [OF k])
      assume "k = Suc r"
      then have l: "i < lev" "i < zlevel z" using i il z(4) z'(2) by simp_all
      then show ?thesis
        using \<open>k = Suc r\<close> z'(10) [OF l(1)] ia nx_ins(4) [OF r(2) lst(1) [OF l(2)] lst(3) [OF l(2)], of lev] lst(3) [OF l(2)]
        by (simp add: addr_at_ins [OF r(1)])
    next
      assume q: "k \<le> r" "k < length ls"
      have ik: "i < ls ! k" using i il q(1) by simp
      have f: "get_forward z' (ins (Suc r) p as ! k) i =
          Some (if i < lev \<and> k = lst ls i r then p else addr_at as (nx ls i k))"
        using z'(12) [OF q(2) ik] ia q(1) by simp
      show ?thesis
      proof (cases "nx ls i k \<le> r")
        case True
        then have "k \<noteq> lst ls i r" using at_last [OF q(1) ik] by simp
        then show ?thesis using f nx_ins(1) [OF r(2) q(1) True, of lev] True by (simp add: addr_at_ins [OF r(1)])
      next
        case False
        then have "k = lst ls i r" "r < nx ls i k" using at_last [OF q(1) ik] by simp_all
        then show ?thesis
          using f nx_ins(2,3) [OF r(2) q(1), of i lev] by (cases "i < lev") (simp_all add: addr_at_ins [OF r(1)])
      qed
    next
      fix q assume q: "k = Suc q" "r < q" "q < length ls"
      have iq: "i < ls ! q" using i il q(1,2) by simp
      have "\<not> (i < lev \<and> q = lst ls i r)" using lst(1) [of i] z(4) z'(2) q(2) by auto
      then have "get_forward z' (as ! q) i = Some (addr_at as (nx ls i q))" using z'(12) [OF q(3) iq] by auto
      then show ?thesis
        using ia q nx_ins_right [OF q(2,3), of lev i] nx_props(1) [OF q(3), of i]
        by (simp add: addr_at_ins [OF r(1)])
    qed
    assume i': "0 < i" "i < zlevel z'"
    then have iL: "i < zlevel z" using z'(2) by simp
    show "get_span z' (ins (Suc r) p as ! k) i = Some (of_nat (dist (ins (Suc r) lev ls) i k))"
    proof (rule pos [OF k])
      assume "k = Suc r"
      then have "i < lev" using i il by simp
      then show ?thesis
        using \<open>k = Suc r\<close> z'(11) [OF i'(1)] ia dist_ins(4) [OF r(2) lst(1) [OF iL] lst(3) [OF iL], of lev] by simp
    next
      assume q: "k \<le> r" "k < length ls"
      have ik: "i < ls ! k" using i il q(1) by simp
      have f: "get_span z' (ins (Suc r) p as ! k) i = Some (of_nat
          (if k \<noteq> lst ls i r then dist ls i k else if i < lev then Suc r - k else Suc (dist ls i k)))"
        using z'(13) [OF q(2) i'(1) ik iL] ia q(1) by simp
      show ?thesis
      proof (cases "nx ls i k \<le> r")
        case True
        then have "k \<noteq> lst ls i r" using at_last [OF q(1) ik] by simp
        then show ?thesis using f dist_ins(1) [OF r(2) q(1) True, of lev] by simp
      next
        case False
        then have "k = lst ls i r" "r < nx ls i k" using at_last [OF q(1) ik] by simp_all
        then show ?thesis using f dist_ins(2,3) [OF r(2) q(1), of i lev] by (cases "i < lev") simp_all
      qed
    next
      fix q assume q: "k = Suc q" "r < q" "q < length ls"
      have iq: "i < ls ! q" using i il q(1,2) by simp
      have "q \<noteq> lst ls i r" using lst(1) [OF iL] q(2) by simp
      then show ?thesis
        using z'(13) [OF q(3) i'(1) iq iL] ia q dist_ins_right [OF q(2,3), of lev i] by simp
    qed
  qed
qed

lemma zslInsert_rep:
  assumes "zrep z as ls es" "go_ok z as (length es) (before s ob :: u32 \<Rightarrow> _) r" "length es + 1 < 2 ^ 32"
    "p \<notin> set as" "p \<noteq> 0"
  shows "\<exists>z'. zslInsert fill p rs s ob z = Some z' \<and>
    zrep z' (ins (Suc r) p as) (ins (Suc r) (zslRandomLevel rs) ls) (ins r (s, ob) es) \<and> zfreed z' = zfreed z"
proof -
  define lev where "lev = zslRandomLevel rs"
  have lev: "1 \<le> lev" "lev \<le> 32" using zslRandomLevel_bounds by (simp_all add: lev_def)
  note D0 = zrepD [OF assms(1)]
  have r: "r \<le> length es" using assms(2) by (simp add: go_ok_def)
  have us: "descend z (before s ob) (zlevel z) (header z) (0 :: u32) = Some (update_of as ls r (zlevel z))"
    using descend_ok [OF assms(1,2) order_refl, of 0] D0(7,8,10) by simp
  obtain z1 where z1: "grow lev (update_of as ls r (zlevel z)) z = Some (update_of as ls r (max (zlevel z) lev), z1)"
    "zrep z1 as ls es" "zlevel z1 = max (zlevel z) lev" "zfreed z1 = zfreed z"
    using grow_ok [OF assms(1) lev(2) r] by blast
  note D = zrepD [OF z1(2)]
  define z2 where "z2 = put_node p (zslCreateNode fill lev s (Some ob)) z1"
  have L: "lev \<le> zlevel z1" using z1(3) by simp
  from linked [OF z1(2) r lev(1) L assms(4), of fill s "Some ob"] obtain z3 z4 where
    z4: "link_loop p (of_nat r) 0 (take lev (update_of as ls r (zlevel z1))) z2 = Some z3"
    "touch_loop lev (drop lev (update_of as ls r (zlevel z1))) z3 = Some z4" "same_frame z2 z4"
    "get_backward z4 = (get_backward z1)(p \<mapsto> fill 0)"
    "\<forall>i < lev. get_forward z4 p i = Some (addr_at as (nx ls i (lst ls i r)))"
    "\<forall>i. 0 < i \<longrightarrow> i < lev \<longrightarrow> get_span z4 p i = Some (of_nat (dist ls i (lst ls i r) - (r - lst ls i r)))"
    "\<forall>k < length ls. \<forall>i < ls ! k. get_forward z4 (as ! k) i =
      Some (if i < lev \<and> k = lst ls i r then p else addr_at as (nx ls i k))"
    "\<forall>k < length ls. \<forall>i. 0 < i \<longrightarrow> i < ls ! k \<longrightarrow> i < zlevel z1 \<longrightarrow> get_span z4 (as ! k) i = Some (of_nat
      (if k \<noteq> lst ls i r then dist ls i k else if i < lev then Suc r - k else Suc (dist ls i k)))"
    unfolding z2_def [symmetric] by blast
  define b where "b = (if r = 0 then 0 else as ! r)"
  have hd: "as ! r = header z4 \<longleftrightarrow> r = 0"
    using z4(3) D(1,4,7) r nth_eq_iff_index_eq [of as r 0] by (simp add: same_frame_def z2_def put_node_def)
  obtain z5 where z5: "set_backward p b z4 = Some z5" "same_frame z4 z5" "get_forward z5 = get_forward z4"
    "get_span z5 = get_span z4" "get_backward z5 = (get_backward z4)(p \<mapsto> b)"
    using set_backward_ok [of z4 p "fill 0" b] z4(4) by auto
  have f: "get_forward z5 p 0 = Some (addr_at as (Suc r))"
    using z4(5) [rule_format, of 0] lev(1) z5(3) same_level_0 [OF z1(2) r] r D(1,2) zrep_level [OF z1(2), of "Suc r"]
      nx_0 [of ls r] nx_props(1,2) [of r ls 0] by (cases "r = length es") (auto simp: addr_at_def)
  have np: "as ! k \<noteq> p" if "k < length ls" for k using that assms(4) D(1,2) nth_mem [of k as] by metis
  have "\<exists>z6. (if addr_at as (Suc r) \<noteq> 0 then set_backward (addr_at as (Suc r)) p z5 else Some (z5\<lparr>ztail := p\<rparr>)) = Some z6 \<and>
    header z6 = header z4 \<and> zlevel z6 = zlevel z4 \<and> zlength z6 = zlength z4 \<and> zfreed z6 = zfreed z4 \<and>
    ztail z6 = (if r = length es then p else ztail z4) \<and> sizes z6 = sizes z4 \<and> content_of z6 = content_of z4 \<and>
    get_forward z6 = get_forward z4 \<and> get_span z6 = get_span z4 \<and> get_backward z6 p = Some b \<and>
    (\<forall>k < length ls. get_backward z6 (as ! k) = (if k = Suc r then Some p else get_backward z1 (as ! k)))"
  proof (cases "r = length es")
    case True
    then have "addr_at as (Suc r) = 0" using D(1) by (simp add: addr_at_def)
    then show ?thesis
      using True z5(2-5) z4(4) np D(2)
      by (simp add: same_frame_def)
  next
    case False
    then have sr: "Suc r < length ls" using r D(2) by simp
    have a: "addr_at as (Suc r) = as ! Suc r" "as ! Suc r \<noteq> 0" using zrep_addr [OF z1(2) sr] by simp_all
    have "get_backward z5 (as ! Suc r) = Some (back_at as (Suc r))" using z5(5) z4(4) np [OF sr] D(16) [OF sr] by simp
    from set_backward_ok [OF this, of p] obtain z6 where
      z6: "set_backward (as ! Suc r) p z5 = Some z6" "same_frame z5 z6" "get_forward z6 = get_forward z5"
      "get_span z6 = get_span z5" "get_backward z6 = (get_backward z5)(as ! Suc r \<mapsto> p)" by blast
    have "as ! k = as ! Suc r \<longleftrightarrow> k = Suc r" if "k < length ls" for k
      using that sr D(1,2,4) by (simp add: nth_eq_iff_index_eq)
    then have "get_backward z6 (as ! k) = (if k = Suc r then Some p else get_backward z1 (as ! k))" if "k < length ls" for k
      using that np [OF that] z6(5) z5(5) z4(4) by simp
    moreover have "get_backward z6 p = Some b" using z6(5) z5(5) np [OF sr] by simp
    ultimately show ?thesis
      using False a z6 z5(2-4) by (intro exI [of _ z6]) (simp add: same_frame_def)
  qed
  then obtain z6 where z6: "(if addr_at as (Suc r) \<noteq> 0 then set_backward (addr_at as (Suc r)) p z5 else Some (z5\<lparr>ztail := p\<rparr>)) = Some z6"
    "header z6 = header z4" "zlevel z6 = zlevel z4" "zlength z6 = zlength z4" "zfreed z6 = zfreed z4"
    "ztail z6 = (if r = length es then p else ztail z4)" "sizes z6 = sizes z4" "content_of z6 = content_of z4"
    "get_forward z6 = get_forward z4" "get_span z6 = get_span z4" "get_backward z6 p = Some b"
    "\<forall>k < length ls. get_backward z6 (as ! k) = (if k = Suc r then Some p else get_backward z1 (as ! k))"
    by blast
  let ?z = "z6\<lparr>zlength := zlength z6 + 1\<rparr>"
  have "sel (update_of as ls r (zlevel z1)) 0 = Some (as ! r, of_nat r :: u32)"
    using D(9) same_level_0 [OF z1(2) r] by (simp add: sel_def)
  moreover have "(if as ! r = header z4 then 0 else as ! r) = b" using hd by (simp add: b_def)
  ultimately have "zslInsert fill p rs s ob z = Some ?z"
    unfolding zslInsert_def us lev_def [symmetric] Let_def bind.bind_lunit z1(1,3) [symmetric] prod.case
    by (simp only: bind.bind_lunit z1(1) z1(3) [symmetric] prod.case z2_def [symmetric] z4(1,2) z5(1) f z6(1))
  moreover have "zrep ?z (ins (Suc r) p as) (ins (Suc r) lev ls) (ins r (s, ob) es)"
  proof (rule insert_cells [OF z1(2) r assms(3)])
    show "sizes ?z = (sizes z1)(p \<mapsto> (lev, lev - 1))"
      using z6(7) z4(3) lev by (auto simp: same_frame_def z2_def cells_put_node zslCreateNode_def fun_eq_iff)
    show "content_of ?z = (content_of z1)(p \<mapsto> (s, Some ob))"
      using z6(8) z4(3) by (auto simp: same_frame_def z2_def cells_put_node zslCreateNode_def fun_eq_iff)
    show "header ?z = header z1" "zlevel ?z = zlevel z1" "zlength ?z = zlength z1 + 1"
      "ztail ?z = (if r = length es then p else ztail z1)"
      using z6(2-4,6) z4(3) by (simp_all add: same_frame_def z2_def put_node_def)
    show "get_backward ?z (as ! k) = get_backward z1 (as ! k)" if "k < length ls" "k \<noteq> Suc r" for k
      using z6(12) that by simp
    show "get_backward ?z (as ! Suc r) = Some p" if "Suc r < length ls" using z6(12) that by simp
    show "get_backward ?z p = Some (if r = 0 then 0 else as ! r)" using z6(11) by (simp add: b_def)
    show "get_forward ?z p i = Some (addr_at as (nx ls i (lst ls i r)))" if "i < lev" for i
      using z6(9) z4(5) that by simp
    show "get_span ?z p i = Some (of_nat (dist ls i (lst ls i r) - (r - lst ls i r)))" if "0 < i" "i < lev" for i
      using z6(10) z4(6) that by simp
    show "get_forward ?z (as ! k) i = Some (if i < lev \<and> k = lst ls i r then p else addr_at as (nx ls i k))"
      if "k < length ls" "i < ls ! k" for k i
      using z6(9) z4(7) that by simp
    show "get_span ?z (as ! k) i = Some (of_nat
        (if k \<noteq> lst ls i r then dist ls i k else if i < lev then Suc r - k else Suc (dist ls i k)))"
      if "k < length ls" "0 < i" "i < ls ! k" "i < zlevel z1" for k i
      using z6(10) z4(8) that by simp
    show "lev \<le> zlevel ?z" using L z6(3) z4(3) by (simp add: same_frame_def z2_def put_node_def)
  qed (use lev assms(4,5) in simp_all)
  moreover have "zfreed ?z = zfreed z"
    using z6(5) z4(3) z1(4) by (simp add: same_frame_def z2_def put_node_def)
  ultimately show ?thesis unfolding lev_def by blast
qed

end
