(* ===== verification/Skiplist_Delete.thy ===== *)
theory Skiplist_Delete
  imports Skiplist_Rep
begin

text \<open>
  Deleting a node of a skip list is the inverse of inserting it: a represented list whose sequence
  is \<open>ins r e es\<close> represents \<open>es\<close> after \<open>zslDeleteNode\<close> and \<open>zslFreeNode\<close>, with every forward
  pointer and span as the geometry of the shorter list has it.
\<close>

section \<open>The loops of the deletion\<close>

lemma unlink_step:
  assumes "u \<noteq> x" "get_forward z u i \<noteq> None"
    "get_forward z u i = Some x \<Longrightarrow> get_forward z x i \<noteq> None \<and> (0 < i \<longrightarrow> get_span z u i \<noteq> None \<and> get_span z x i \<noteq> None)"
    "get_forward z u i \<noteq> Some x \<Longrightarrow> get_span z u i \<noteq> None"
  shows "\<exists>z'. unlink_loop x i ((u, rk) # us) z = unlink_loop x (Suc i) us z' \<and> same_frame z z' \<and>
    get_backward z' = get_backward z \<and>
    get_forward z' = (\<lambda>a j. if j = i \<and> a = u \<and> get_forward z u i = Some x then get_forward z x i else get_forward z a j) \<and>
    get_span z' = (\<lambda>a j. if j = i \<and> a = u then
      if get_forward z u i = Some x then
        if 0 < i then Some (the (get_span z u i) + (the (get_span z x i) - 1)) else get_span z a j
      else Some (the (get_span z u i) - 1) else get_span z a j)"
proof (cases "get_forward z u i = Some x")
  case False
  then obtain f a where f: "get_forward z u i = Some f" "f \<noteq> x" "get_span z u i = Some a" using assms(2,4) by fastforce
  from set_span_ok [OF f(3), of "a - 1"] obtain z' where "set_span u i (a - 1) z = Some z'" "same_frame z z'"
    "get_backward z' = get_backward z" "get_forward z' = get_forward z"
    "get_span z' = (\<lambda>b j. if b = u \<and> j = i then Some (a - 1) else get_span z b j)" by blast
  then show ?thesis using f by (intro exI [of _ z']) (auto simp: fun_eq_iff)
next
  case True
  then obtain g where g: "get_forward z x i = Some g" using assms(3) by auto
  have "\<exists>z1. (if i > 0 then do { a \<leftarrow> get_span z u i; b \<leftarrow> get_span z x i; set_span u i (a + (b - 1)) z } else Some z) = Some z1 \<and>
    same_frame z z1 \<and> get_backward z1 = get_backward z \<and> get_forward z1 = get_forward z \<and>
    get_span z1 = (\<lambda>a j. if j = i \<and> a = u \<and> 0 < i then Some (the (get_span z u i) + (the (get_span z x i) - 1)) else get_span z a j)"
  proof (cases "i > 0")
    case True
    then obtain a b where ab: "get_span z u i = Some a" "get_span z x i = Some b"
      using assms(3) \<open>get_forward z u i = Some x\<close> by auto
    from set_span_ok [OF ab(1), of "a + (b - 1)"] obtain z1 where "set_span u i (a + (b - 1)) z = Some z1" "same_frame z z1"
      "get_backward z1 = get_backward z" "get_forward z1 = get_forward z"
      "get_span z1 = (\<lambda>c j. if c = u \<and> j = i then Some (a + (b - 1)) else get_span z c j)" by blast
    then show ?thesis using True ab by (intro exI [of _ z1]) (auto simp: fun_eq_iff)
  qed (auto simp: fun_eq_iff)
  then obtain z1 where z1: "(if i > 0 then do { a \<leftarrow> get_span z u i; b \<leftarrow> get_span z x i; set_span u i (a + (b - 1)) z } else Some z) = Some z1"
    "same_frame z z1" "get_backward z1 = get_backward z" "get_forward z1 = get_forward z"
    "get_span z1 = (\<lambda>a j. if j = i \<and> a = u \<and> 0 < i then Some (the (get_span z u i) + (the (get_span z x i) - 1)) else get_span z a j)"
    by blast
  have "get_forward z1 u i = Some x" using z1(4) True by simp
  from set_forward_ok [OF this, of g] obtain z2 where z2: "set_forward u i g z1 = Some z2" "same_frame z1 z2"
    "get_backward z2 = get_backward z1" "get_span z2 = get_span z1"
    "get_forward z2 = (\<lambda>a j. if a = u \<and> j = i then Some g else get_forward z1 a j)" by blast
  have "unlink_loop x i ((u, rk) # us) z = unlink_loop x (Suc i) us z2"
    using True z1(1) z1(4) g z2(1) by (simp only: unlink_loop.simps bind.bind_lunit if_True simp_thms)
  then show ?thesis
    using True g z1(3-5) z2(3-5) same_frame_trans [OF z1(2) z2(2)]
    by (intro exI [of _ z2]) (auto simp: fun_eq_iff)
qed

definition unlink_pre :: "zptr \<Rightarrow> nat \<Rightarrow> (zptr \<times> 'w word) list \<Rightarrow> 's zsl \<Rightarrow> bool" where
  "unlink_pre x i us z \<longleftrightarrow> (\<forall>j < length us. let u = fst (us ! j) in u \<noteq> x \<and> get_forward z u (i + j) \<noteq> None \<and>
     (get_forward z u (i + j) = Some x \<longrightarrow> get_forward z x (i + j) \<noteq> None \<and>
        (0 < i + j \<longrightarrow> get_span z u (i + j) \<noteq> None \<and> get_span z x (i + j) \<noteq> None)) \<and>
     (get_forward z u (i + j) \<noteq> Some x \<longrightarrow> get_span z u (i + j) \<noteq> None))"

lemma unlink_loop_ok:
  assumes "unlink_pre x i us z"
  shows "\<exists>z'. unlink_loop x i us z = Some z' \<and> same_frame z z' \<and> get_backward z' = get_backward z \<and>
    (\<forall>a j. get_forward z' a j = (if i \<le> j \<and> j < i + length us \<and> a = fst (us ! (j - i)) \<and> get_forward z a j = Some x
      then get_forward z x j else get_forward z a j)) \<and>
    (\<forall>a j. get_span z' a j = (if i \<le> j \<and> j < i + length us \<and> a = fst (us ! (j - i)) then
      if get_forward z a j = Some x then
        if 0 < j then Some (the (get_span z a j) + (the (get_span z x j) - 1)) else get_span z a j
      else Some (the (get_span z a j) - 1) else get_span z a j))"
  using assms
proof (induction us arbitrary: i z)
  case Nil
  then show ?case by (auto simp: fun_eq_iff)
next
  case (Cons y us)
  obtain u rk where y: "y = (u, rk)" by (cases y)
  have h: "u \<noteq> x" "get_forward z u i \<noteq> None"
    "get_forward z u i = Some x \<Longrightarrow> get_forward z x i \<noteq> None \<and> (0 < i \<longrightarrow> get_span z u i \<noteq> None \<and> get_span z x i \<noteq> None)"
    "get_forward z u i \<noteq> Some x \<Longrightarrow> get_span z u i \<noteq> None"
    using Cons.prems [unfolded unlink_pre_def Let_def, rule_format, of 0] y by auto
  obtain z1 where z1: "unlink_loop x i ((u, rk) # us) z = unlink_loop x (Suc i) us z1" "same_frame z z1"
    "get_backward z1 = get_backward z"
    "get_forward z1 = (\<lambda>a j. if j = i \<and> a = u \<and> get_forward z u i = Some x then get_forward z x i else get_forward z a j)"
    "get_span z1 = (\<lambda>a j. if j = i \<and> a = u then
      if get_forward z u i = Some x then
        if 0 < i then Some (the (get_span z u i) + (the (get_span z x i) - 1)) else get_span z a j
      else Some (the (get_span z u i) - 1) else get_span z a j)"
    using unlink_step [OF h, of rk us] by blast
  have p: "unlink_pre x (Suc i) us z1"
    unfolding unlink_pre_def Let_def
  proof (intro allI impI)
    fix j assume "j < length us"
    then show "fst (us ! j) \<noteq> x \<and> get_forward z1 (fst (us ! j)) (Suc i + j) \<noteq> None \<and>
      (get_forward z1 (fst (us ! j)) (Suc i + j) = Some x \<longrightarrow> get_forward z1 x (Suc i + j) \<noteq> None \<and>
        (0 < Suc i + j \<longrightarrow> get_span z1 (fst (us ! j)) (Suc i + j) \<noteq> None \<and> get_span z1 x (Suc i + j) \<noteq> None)) \<and>
      (get_forward z1 (fst (us ! j)) (Suc i + j) \<noteq> Some x \<longrightarrow> get_span z1 (fst (us ! j)) (Suc i + j) \<noteq> None)"
      using Cons.prems [unfolded unlink_pre_def Let_def, rule_format, of "Suc j"] z1(4,5) by simp
  qed
  from Cons.IH [OF p] obtain z' where z': "unlink_loop x (Suc i) us z1 = Some z'" "same_frame z1 z'"
    "get_backward z' = get_backward z1"
    "\<forall>a j. get_forward z' a j = (if Suc i \<le> j \<and> j < Suc i + length us \<and> a = fst (us ! (j - Suc i)) \<and> get_forward z1 a j = Some x
      then get_forward z1 x j else get_forward z1 a j)"
    "\<forall>a j. get_span z' a j = (if Suc i \<le> j \<and> j < Suc i + length us \<and> a = fst (us ! (j - Suc i)) then
      if get_forward z1 a j = Some x then
        if 0 < j then Some (the (get_span z1 a j) + (the (get_span z1 x j) - 1)) else get_span z1 a j
      else Some (the (get_span z1 a j) - 1) else get_span z1 a j)"
    by blast
  have fw: "get_forward z' a j = (if i \<le> j \<and> j < i + length (y # us) \<and> a = fst ((y # us) ! (j - i)) \<and> get_forward z a j = Some x
      then get_forward z x j else get_forward z a j)" for a j
  proof (cases "j = i")
    case True
    then show ?thesis using z'(4) [rule_format, of a j] z1(4) y by auto
  next
    case False
    then show ?thesis using z'(4) [rule_format, of a j] z1(4) by (auto simp: nth_Cons' Suc_le_eq)
  qed
  have sp: "get_span z' a j = (if i \<le> j \<and> j < i + length (y # us) \<and> a = fst ((y # us) ! (j - i)) then
      if get_forward z a j = Some x then
        if 0 < j then Some (the (get_span z a j) + (the (get_span z x j) - 1)) else get_span z a j
      else Some (the (get_span z a j) - 1) else get_span z a j)" for a j
  proof (cases "j = i")
    case True
    then show ?thesis using z'(5) [rule_format, of a j] z1(5) y by auto
  next
    case False
    then show ?thesis using z'(5) [rule_format, of a j] z1(4,5) by (auto simp: nth_Cons' Suc_le_eq)
  qed
  show ?case
    using z1(1-3) z'(1-3) fw sp same_frame_trans [OF z1(2) z'(2)] y by (intro exI [of _ z']) simp
qed

lemma lower_level_ok:
  assumes "\<forall>i < L. get_forward z (header z) i \<noteq> None" "1 \<le> L"
  shows "\<exists>l. lower_level z L = Some l \<and> 1 \<le> l \<and> l \<le> L \<and> (\<forall>i. l \<le> i \<longrightarrow> i < L \<longrightarrow> get_forward z (header z) i = Some 0)"
  using assms
proof (induction L)
  case (Suc L)
  show ?case
  proof (cases "L = 0")
    case False
    obtain f where f: "get_forward z (header z) L = Some f" using Suc.prems(1) by blast
    show ?thesis
    proof (cases "f = 0")
      case True
      obtain l where "lower_level z L = Some l" "1 \<le> l" "l \<le> L"
        "\<forall>i. l \<le> i \<longrightarrow> i < L \<longrightarrow> get_forward z (header z) i = Some 0"
        using Suc.IH Suc.prems False by auto
      then show ?thesis using False True f by (intro exI [of _ l]) (auto simp: less_Suc_eq)
    next
      case f0: False
      then show ?thesis using False f by (intro exI [of _ "Suc L"]) simp
    qed
  qed simp
qed simp

section \<open>The cells around a node\<close>

lemma ins_before:
  assumes "r < length xs" "k \<le> r"
  shows "ins (Suc r) x xs ! k = xs ! k"
  using assms nth_ins [of "Suc r" xs x k] by simp

lemma ins_new: "r < length xs \<Longrightarrow> ins (Suc r) x xs ! Suc r = x"
  using nth_ins [of "Suc r" xs x "Suc r"] by simp

lemma ins_after:
  assumes "r < length xs" "r < k"
  shows "ins (Suc r) x xs ! Suc k = xs ! k"
  using assms nth_ins [of "Suc r" xs x "Suc k"] by simp

lemma lst_ins: "r < length ls \<Longrightarrow> lst (ins (Suc r) lev ls) i r = lst ls i r"
  unfolding lst_def by (rule arg_cong [where f = Greatest]) (auto simp: ins_before fun_eq_iff)

lemma update_of_ins:
  assumes "r < length as" "r < length ls" "n \<le> ls ! 0"
  shows "update_of (ins (Suc r) x as) (ins (Suc r) lev ls) r n = update_of as ls r n"
  using assms lst_props(1) [of _ ls r] by (auto simp: update_of_def lst_ins ins_before)

definition shift :: "nat \<Rightarrow> nat \<Rightarrow> nat" where
  "shift r k = (if k \<le> r then k else Suc k)"

text \<open>A representation of \<open>ins\<close> sequences, seen from the positions of the sequence without the node.\<close>

lemma inserted_cells:
  assumes z: "zrep z (ins (Suc r) x as) (ins (Suc r) lev ls) (ins r e es)" and r: "r \<le> length es"
  shows "length as = Suc (length es)" "length ls = Suc (length es)" "x \<noteq> 0" "x \<notin> set as" "distinct as" "0 \<notin> set as"
    "header z = as ! 0" "ls ! 0 = 32" "1 \<le> lev" "lev \<le> zlevel z" "zlevel z \<le> 32"
    "\<And>k. 0 < k \<Longrightarrow> k < length ls \<Longrightarrow> 1 \<le> ls ! k \<and> ls ! k \<le> zlevel z"
    "\<And>k. k < length ls \<Longrightarrow> sizes z (as ! k) = Some (ls ! k, ls ! k - 1)"
    "\<And>k. k < length ls \<Longrightarrow> elem_at es k (content_of z (as ! k))"
    "content_of z x = Some (fst e, Some (snd e))"
    "\<And>k. k < length ls \<Longrightarrow> get_backward z (as ! k) = Some (if k = Suc r then x else back_at as k)"
    "get_backward z x = Some (if r = 0 then 0 else as ! r)"
    "\<And>i. i < lev \<Longrightarrow> get_forward z x i = Some (addr_at as (nx ls i (lst ls i r)))"
    "\<And>k i. k < length ls \<Longrightarrow> i < ls ! k \<Longrightarrow> get_forward z (as ! k) i =
      Some (if i < lev \<and> k = lst ls i r then x else addr_at as (nx ls i k))"
proof -
  note D = zrepD [OF z]
  show l: "length as = Suc (length es)" "length ls = Suc (length es)" using D(1,2) by simp_all
  have ra: "r < length as" and rl: "r < length ls" using l r by simp_all
  note D18 = ins_new [OF ra, of x] ins_new [OF rl, of lev]
  show "x \<notin> set as" "distinct as" "0 \<notin> set as" using D(4,5) by (auto simp: distinct_ins)
  show "x \<noteq> 0" using D(5) by auto
  show "header z = as ! 0" using D(7) by (simp add: ins_before [OF ra])
  show ls0: "ls ! 0 = 32" using D(8) by (simp add: ins_before [OF rl])
  show lev: "1 \<le> lev" "lev \<le> zlevel z" "zlevel z \<le> 32" using D(11) [of "Suc r"] D18 rl D(10) by simp_all
  have at: "ins (Suc r) x as ! shift r k = as ! k" "ins (Suc r) lev ls ! shift r k = ls ! k"
    "shift r k < length (ins (Suc r) lev ls)" if "k < length ls" for k
    using that by (simp_all add: shift_def ins_before [OF ra] ins_before [OF rl] ins_after [OF ra] ins_after [OF rl])
  show "1 \<le> ls ! k \<and> ls ! k \<le> zlevel z" if "0 < k" "k < length ls" for k
    using D(11) [of "shift r k"] at [OF that(2)] that(1) by (simp add: shift_def split: if_splits)
  show "sizes z (as ! k) = Some (ls ! k, ls ! k - 1)" if "k < length ls" for k
    using D(14) [of "shift r k"] at [OF that] by simp
  show "elem_at es k (content_of z (as ! k))" if "k < length ls" for k
    using D(15) [of "shift r k"] at [OF that] elem_at_ins [OF r, where e = e] by (auto simp: shift_def split: if_splits)
  show "content_of z x = Some (fst e, Some (snd e))"
    using D(15) [of "Suc r"] D18 rl elem_at_ins(2) [OF r, where e = e] by simp
  show "get_backward z (as ! k) = Some (if k = Suc r then x else back_at as k)" if "k < length ls" for k
    using D(16) [of "shift r k"] at [OF that] back_at_ins [OF ra, where p = x] by (auto simp: shift_def split: if_splits)
  show "get_backward z x = Some (if r = 0 then 0 else as ! r)"
    using D(16) [of "Suc r"] D18 rl back_at_ins(2) [OF ra, of x] by simp
  have lst: "lst ls i r \<le> r" "r < nx ls i (lst ls i r)" if "i < 32" for i
    using lst_props(1,2) [of i ls r] nx_beyond [of "lst ls i r" r ls i] that ls0 rl by simp_all
  show "get_forward z x i = Some (addr_at as (nx ls i (lst ls i r)))" if "i < lev" for i
  proof -
    have i: "i < 32" using that lev by simp
    show ?thesis
      using D(17) [of "Suc r" i] D18 that rl nx_ins(4) [OF rl lst [OF i], of lev] lst(2) [OF i]
      by (simp add: addr_at_ins [OF ra])
  qed
  show "get_forward z (as ! k) i = Some (if i < lev \<and> k = lst ls i r then x else addr_at as (nx ls i k))"
    if k: "k < length ls" and i: "i < ls ! k" for k i
  proof -
    have i32: "i < 32" using ls0 i k lev \<open>\<And>k. 0 < k \<Longrightarrow> k < length ls \<Longrightarrow> 1 \<le> ls ! k \<and> ls ! k \<le> zlevel z\<close> [of k]
      by (cases "k = 0") auto
    have f: "get_forward z (as ! k) i = Some (addr_at (ins (Suc r) x as) (nx (ins (Suc r) lev ls) i (shift r k)))"
      using D(17) [of "shift r k" i] at [OF k] i by simp
    show ?thesis
    proof (cases "k \<le> r")
      case True
      have e: "r < nx ls i k \<longleftrightarrow> k = lst ls i r" using nx_beyond [OF True rl i] i32 ls0 by simp
      consider "nx ls i k \<le> r" | "r < nx ls i k" "i < lev" | "r < nx ls i k" "lev \<le> i" by linarith
      then show ?thesis
        by cases (use f True e nx_ins [OF rl True, of i lev] in \<open>simp_all add: shift_def addr_at_ins [OF ra]\<close>)
    next
      case False
      then show ?thesis
        using f nx_ins_right [of r k ls lev i] k nx_props(1) [OF k, of i] lst(1) [OF i32]
        by (auto simp: shift_def addr_at_ins [OF ra])
    qed
  qed
qed

lemma inserted_spans:
  assumes z: "zrep z (ins (Suc r) x as) (ins (Suc r) lev ls) (ins r e es)" and r: "r \<le> length es"
    and i: "0 < i" "i < zlevel z"
  shows "i < lev \<Longrightarrow> get_span z x i = Some (of_nat (dist ls i (lst ls i r) - (r - lst ls i r)))"
    "\<And>k. k < length ls \<Longrightarrow> i < ls ! k \<Longrightarrow> get_span z (as ! k) i = Some (of_nat
       (if k \<noteq> lst ls i r then dist ls i k else if i < lev then Suc r - k else Suc (dist ls i k)))"
proof -
  note D = zrepD [OF z] and C = inserted_cells [OF z r]
  have ra: "r < length as" and rl: "r < length ls" using C(1,2) r by simp_all
  have i32: "i < ls ! 0" using i C(8,11) by simp
  have lst: "lst ls i r \<le> r" "r < nx ls i (lst ls i r)"
    using lst_props(1,2) [OF i32, of r] nx_beyond [of "lst ls i r" r ls i] i32 rl by simp_all
  show "get_span z x i = Some (of_nat (dist ls i (lst ls i r) - (r - lst ls i r)))" if "i < lev"
    using D(18) [of "Suc r" i] that i rl dist_ins(4) [OF rl lst, of lev] ins_new [OF ra, of x] ins_new [OF rl, of lev]
    by simp
  fix k assume k: "k < length ls" "i < ls ! k"
  have "ins (Suc r) x as ! shift r k = as ! k" "ins (Suc r) lev ls ! shift r k = ls ! k"
    "shift r k < length (ins (Suc r) lev ls)"
    using k by (simp_all add: shift_def ins_before [OF ra] ins_before [OF rl] ins_after [OF ra] ins_after [OF rl])
  then have f: "get_span z (as ! k) i = Some (of_nat (dist (ins (Suc r) lev ls) i (shift r k)))"
    using D(18) [of "shift r k" i] i k by simp
  show "get_span z (as ! k) i = Some (of_nat
       (if k \<noteq> lst ls i r then dist ls i k else if i < lev then Suc r - k else Suc (dist ls i k)))"
  proof (cases "k \<le> r")
    case True
    have e: "r < nx ls i k \<longleftrightarrow> k = lst ls i r" using nx_beyond [OF True rl k(2) i32] by simp
    consider "nx ls i k \<le> r" | "r < nx ls i k" "i < lev" | "r < nx ls i k" "lev \<le> i" by linarith
    then show ?thesis
      by cases (use f True e dist_ins [OF rl True, of i lev] in \<open>simp_all add: shift_def\<close>)
  next
    case False
    then show ?thesis
      using f dist_ins_right [of r k ls lev i] k lst(1) by (simp add: shift_def)
  qed
qed

section \<open>Deleting a node\<close>

lemma unlinked:
  assumes z: "zrep z (ins (Suc r) x as) (ins (Suc r) lev ls) (ins r e es)" and r: "r \<le> length es"
  shows "\<exists>z'. unlink_loop x 0 (update_of as ls r (zlevel z) :: (zptr \<times> 'w::len word) list) z = Some z' \<and>
    same_frame z z' \<and> get_backward z' = get_backward z \<and> get_forward z' x = get_forward z x \<and>
    (\<forall>k < length ls. \<forall>i < ls ! k. get_forward z' (as ! k) i = Some (addr_at as (nx ls i k))) \<and>
    (\<forall>k < length ls. \<forall>i. 0 < i \<longrightarrow> i < ls ! k \<longrightarrow> i < zlevel z \<longrightarrow>
       get_span z' (as ! k) i = Some (of_nat (dist ls i k)))"
proof -
  note C = inserted_cells [OF z r] and S = inserted_spans [OF z r]
  let ?us = "update_of as ls r (zlevel z) :: (zptr \<times> 'w word) list"
  have ra: "r < length as" and rl: "r < length ls" using C(1,2) r by simp_all
  have lst: "lst ls i r < length ls" "i < ls ! lst ls i r" "as ! lst ls i r \<noteq> x" "r - lst ls i r \<le> dist ls i (lst ls i r)"
    "lst ls i r \<le> r" if "i < zlevel z" for i
  proof -
    have i0: "i < ls ! 0" using that C(8,11) by simp
    show l: "lst ls i r \<le> r" "i < ls ! lst ls i r" using lst_props [OF i0, of r] by simp_all
    show ll: "lst ls i r < length ls" using l(1) rl by simp
    show "as ! lst ls i r \<noteq> x" using C(1,2,4) nth_mem [of "lst ls i r" as] ll by metis
    have "r < nx ls i (lst ls i r)" using nx_beyond [OF l(1) rl l(2) i0] by simp
    then show "r - lst ls i r \<le> dist ls i (lst ls i r)" using rl by (simp add: dist_def)
  qed
  have ax: "addr_at as m \<noteq> x" for m using C(3,4) nth_mem [of m as] by (auto simp: addr_at_def)
  have to_x: "get_forward z (as ! k) i = Some x \<longleftrightarrow> i < lev \<and> k = lst ls i r" if "k < length ls" "i < ls ! k" for k i
    using C(19) [OF that] ax by simp
  have pre: "unlink_pre x 0 ?us z"
    unfolding unlink_pre_def Let_def
  proof (intro allI impI)
    fix j assume "j < length ?us"
    then have j: "j < zlevel z" by simp
    note l = lst [OF j]
    show "fst (?us ! j) \<noteq> x \<and> get_forward z (fst (?us ! j)) (0 + j) \<noteq> None \<and>
      (get_forward z (fst (?us ! j)) (0 + j) = Some x \<longrightarrow> get_forward z x (0 + j) \<noteq> None \<and>
        (0 < 0 + j \<longrightarrow> get_span z (fst (?us ! j)) (0 + j) \<noteq> None \<and> get_span z x (0 + j) \<noteq> None)) \<and>
      (get_forward z (fst (?us ! j)) (0 + j) \<noteq> Some x \<longrightarrow> get_span z (fst (?us ! j)) (0 + j) \<noteq> None)"
      using j l C(9) C(18) [of j] C(19) [OF l(1,2)] to_x [OF l(1,2)] S(1) [OF _ j] S(2) [OF _ j l(1,2)]
      by (cases "j < lev") auto
  qed
  from unlink_loop_ok [OF pre] obtain z' where z': "unlink_loop x 0 ?us z = Some z'" "same_frame z z'"
    "get_backward z' = get_backward z"
    "\<forall>a j. get_forward z' a j = (if 0 \<le> j \<and> j < 0 + length ?us \<and> a = fst (?us ! (j - 0)) \<and> get_forward z a j = Some x
      then get_forward z x j else get_forward z a j)"
    "\<forall>a j. get_span z' a j = (if 0 \<le> j \<and> j < 0 + length ?us \<and> a = fst (?us ! (j - 0)) then
      if get_forward z a j = Some x then
        if 0 < j then Some (the (get_span z a j) + (the (get_span z x j) - 1)) else get_span z a j
      else Some (the (get_span z a j) - 1) else get_span z a j)"
    by blast
  have eq: "as ! k = as ! lst ls i r \<longleftrightarrow> k = lst ls i r" if "k < length ls" "i < zlevel z" for k i
    using that lst [OF that(2)] C(1,2,5) by (simp add: nth_eq_iff_index_eq)
  have fx: "get_forward z' x j = get_forward z x j" for j
    using z'(4) [rule_format, of x j] lst(3) [of j] by auto
  have fk: "get_forward z' (as ! k) i = Some (addr_at as (nx ls i k))" if k: "k < length ls" "i < ls ! k" for k i
  proof (cases "i < lev \<and> k = lst ls i r")
    case True
    then show ?thesis using z'(4) [rule_format, of "as ! k" i] to_x [OF k] C(10) C(18) [of i] by auto
  next
    case False
    then have "get_forward z (as ! k) i \<noteq> Some x" using to_x [OF k] by simp
    then have "get_forward z' (as ! k) i = get_forward z (as ! k) i" using z'(4) [rule_format, of "as ! k" i] by simp
    then show ?thesis using False C(19) [OF k] by auto
  qed
  have sk: "get_span z' (as ! k) i = Some (of_nat (dist ls i k))"
    if k: "k < length ls" "0 < i" "i < ls ! k" "i < zlevel z" for k i
  proof (cases "k = lst ls i r")
    case False
    then show ?thesis
      using z'(5) [rule_format, of "as ! k" i] eq [OF k(1,4)] S(2) [OF k(2,4,1,3)] k(4) by simp
  next
    case True
    note l = lst [OF k(4)]
    show ?thesis
    proof (cases "i < lev")
      case lev: True
      have "(of_nat (Suc r - k) + (of_nat (dist ls i k - (r - k)) - 1) :: u32) =
          of_nat (Suc r - k + (dist ls i k - (r - k))) - 1"
        by simp
      also have "Suc r - k + (dist ls i k - (r - k)) = Suc (dist ls i k)" using l(4,5) True by simp
      finally show ?thesis
        using z'(5) [rule_format, of "as ! k" i] True S(1) [OF k(2,4) lev] S(2) [OF k(2,4,1,3)] to_x [OF k(1,3)] k lev by simp
    next
      case False
      then show ?thesis
        using z'(5) [rule_format, of "as ! k" i] True S(2) [OF k(2,4,1,3)] to_x [OF k(1,3)] k by simp
    qed
  qed
  show ?thesis using z'(1-3) fx fk sk by (intro exI [of _ z']) (simp add: fun_eq_iff)
qed

lemma free_cells:
  assumes "content_of z x = Some (s, Some ob)"
  shows "\<exists>z'. zslFreeNode x z = Some z' \<and> header z' = header z \<and> ztail z' = ztail z \<and> zlength z' = zlength z \<and>
    zlevel z' = zlevel z \<and> zfreed z' = zfreed z @ [ob] \<and> sizes z' = (sizes z)(x := None) \<and>
    (\<forall>p. p \<noteq> x \<longrightarrow> content_of z' p = content_of z p \<and> get_backward z' p = get_backward z p \<and>
       get_forward z' p = get_forward z p \<and> get_span z' p = get_span z p)"
  using assms
  by (auto simp: content_of_def zslFreeNode_def sizes_def get_backward_def get_forward_def [abs_def]
      get_span_def [abs_def] fun_eq_iff)

lemma take_update_of: "l \<le> n \<Longrightarrow> take l (update_of as ls r n) = update_of as ls r l"
  by (simp add: update_of_def take_map)

theorem zslDeleteNode_rep:
  assumes z: "zrep z (ins (Suc r) x as) (ins (Suc r) lev ls) (ins r e es)" and r: "r \<le> length es"
    and n: "zlevel z \<le> n"
  shows "\<exists>z1 z2. zslDeleteNode z x (update_of as ls r n :: (zptr \<times> 'w::len word) list) = Some z1 \<and>
    zslFreeNode x z1 = Some z2 \<and> zrep z2 as ls es \<and> zfreed z2 = zfreed z @ [snd e] \<and>
    zlevel z2 \<le> zlevel z \<and> get_forward z x 0 = Some (addr_at as (Suc r))"
proof -
  note C = inserted_cells [OF z r] and D = zrepD [OF z]
  have ra: "r < length as" and rl: "r < length ls" using C(1,2) r by simp_all
  have "0 < ls ! r" using C(8,9) C(12) [of r] rl by (cases "r = 0") auto
  then have "lst ls 0 r = r" by (intro lst_eqI) auto
  moreover have "nx ls 0 r = Suc r"
    using C(2) C(12) [of "Suc r"] rl by (intro nx_eqI) auto
  ultimately have f: "get_forward z x 0 = Some (addr_at as (Suc r))" using C(9) C(18) [of 0] by simp
  from unlinked [OF z r] obtain z1 where z1: "unlink_loop x 0 (update_of as ls r (zlevel z) :: (zptr \<times> 'w word) list) z = Some z1"
    "same_frame z z1" "get_backward z1 = get_backward z" "get_forward z1 x = get_forward z x"
    "\<forall>k < length ls. \<forall>i < ls ! k. get_forward z1 (as ! k) i = Some (addr_at as (nx ls i k))"
    "\<forall>k < length ls. \<forall>i. 0 < i \<longrightarrow> i < ls ! k \<longrightarrow> i < zlevel z \<longrightarrow> get_span z1 (as ! k) i = Some (of_nat (dist ls i k))"
    by blast
  define b where "b = (if r = 0 then 0 else as ! r)"
  have "get_backward z1 x = Some b" using z1(3) C(17) by (simp add: b_def)
  then obtain nd where nd: "znodes z1 x = Some nd" "backward nd = b" by (auto simp: get_backward_def)
  have inj: "as ! k = as ! Suc r \<longleftrightarrow> k = Suc r" if "k < length ls" "Suc r < length ls" for k
    using that C(1,2,5) by (simp add: nth_eq_iff_index_eq)
  have "\<exists>z2. (if addr_at as (Suc r) \<noteq> 0 then set_backward (addr_at as (Suc r)) b z1 else Some (z1\<lparr>ztail := b\<rparr>)) = Some z2 \<and>
    header z2 = header z \<and> zlevel z2 = zlevel z \<and> zlength z2 = zlength z \<and> zfreed z2 = zfreed z \<and>
    ztail z2 = (if r = length es then b else ztail z) \<and> sizes z2 = sizes z \<and> content_of z2 = content_of z \<and>
    get_forward z2 = get_forward z1 \<and> get_span z2 = get_span z1 \<and>
    (\<forall>k < length ls. get_backward z2 (as ! k) = Some (back_at as k))"
  proof (cases "r = length es")
    case True
    then have "addr_at as (Suc r) = 0" "Suc r = length ls" using C(1,2) by (simp_all add: addr_at_def)
    then show ?thesis using True z1(2,3) C(16) by (simp add: same_frame_def)
  next
    case False
    then have sr: "Suc r < length ls" "Suc r < length as" using r C(1,2) by simp_all
    have "as ! Suc r \<in> set as" using sr(2) by simp
    then have a: "addr_at as (Suc r) = as ! Suc r" "as ! Suc r \<noteq> 0"
      using sr(2) C(6) by (simp add: addr_at_def, metis)
    have "get_backward z1 (as ! Suc r) = Some x" using z1(3) C(16) [OF sr(1)] by simp
    from set_backward_ok [OF this, of b] obtain z2 where z2: "set_backward (as ! Suc r) b z1 = Some z2" "same_frame z1 z2"
      "get_forward z2 = get_forward z1" "get_span z2 = get_span z1" "get_backward z2 = (get_backward z1)(as ! Suc r \<mapsto> b)" by blast
    have "get_backward z2 (as ! k) = Some (back_at as k)" if "k < length ls" for k
      using z2(5) z1(3) C(16) [OF that] inj [OF that sr(1)] by (auto simp: b_def back_at_def)
    then show ?thesis using False a z1(2) z2(1-4) by (intro exI [of _ z2]) (simp add: same_frame_def)
  qed
  then obtain z2 where z2: "(if addr_at as (Suc r) \<noteq> 0 then set_backward (addr_at as (Suc r)) b z1 else Some (z1\<lparr>ztail := b\<rparr>)) = Some z2"
    "header z2 = header z" "zlevel z2 = zlevel z" "zlength z2 = zlength z" "zfreed z2 = zfreed z"
    "ztail z2 = (if r = length es then b else ztail z)" "sizes z2 = sizes z" "content_of z2 = content_of z"
    "get_forward z2 = get_forward z1" "get_span z2 = get_span z1"
    "\<forall>k < length ls. get_backward z2 (as ! k) = Some (back_at as k)" by blast
  have l0: "0 < length ls" using C(2) by simp
  have hd: "get_forward z2 (header z2) i = Some (addr_at as (nx ls i 0))" if "i < zlevel z" for i
    using z2(2,9) C(7,8,11) z1(5) [rule_format, OF l0, of i] that by simp
  obtain l where l: "lower_level z2 (zlevel z) = Some l" "1 \<le> l" "l \<le> zlevel z"
    "\<forall>i. l \<le> i \<longrightarrow> i < zlevel z \<longrightarrow> get_forward z2 (header z2) i = Some 0"
    using lower_level_ok [of "zlevel z" z2] hd D(9) by auto
  define z3 where "z3 = z2\<lparr>zlevel := l, zlength := zlength z2 - 1\<rparr>"
  have "zslDeleteNode z x (update_of as ls r n :: (zptr \<times> 'w word) list) = Some z3"
    using n z1(1,4) f nd z2(1,3) l(1)
    by (auto simp: zslDeleteNode_def take_update_of z3_def split: if_splits)
  moreover obtain z4 where z4: "zslFreeNode x z3 = Some z4" "header z4 = header z" "ztail z4 = ztail z2" "zlength z4 = zlength z - 1"
    "zlevel z4 = l" "zfreed z4 = zfreed z @ [snd e]" "sizes z4 = (sizes z)(x := None)"
    "\<forall>p. p \<noteq> x \<longrightarrow> content_of z4 p = content_of z p \<and> get_backward z4 p = get_backward z2 p \<and>
       get_forward z4 p = get_forward z1 p \<and> get_span z4 p = get_span z1 p"
  proof -
    have "content_of z3 x = Some (fst e, Some (snd e))" using C(15) z2(8) by (simp add: z3_def)
    from free_cells [OF this] z2(2-10) that show thesis by (auto simp: z3_def)
  qed
  moreover have "zrep z4 as ls es"
  proof (rule zrepI)
    have np: "as ! k \<noteq> x" if "k < length ls" for k using that C(1,2,4) nth_mem [of k as] by metis
    have "{p. sizes z p \<noteq> None} = insert x (set as)" using D(6) by simp
    then show "{p. sizes z4 p \<noteq> None} = set as" unfolding z4(7) using C(4) by auto
    show "length es < 2 ^ 32" using D(3) by simp
    show "1 \<le> ls ! k \<and> ls ! k \<le> zlevel z4" if k: "0 < k" "k < length ls" for k
    proof (rule ccontr)
      assume n: "\<not> (1 \<le> ls ! k \<and> ls ! k \<le> zlevel z4)"
      define i where "i = ls ! k - 1"
      have i: "l \<le> i" "i < ls ! k" "i < zlevel z" using n C(12) [OF k] z4(5) by (auto simp: i_def)
      have "addr_at as (nx ls i 0) = 0" using l(4) i hd [OF i(3)] by simp
      moreover have "nx ls i 0 < length as"
        using nx_props(4) [OF l0 k(1), of i] i(2) k(2) C(1,2) by (rule_tac ccontr) (simp add: not_less)
      ultimately show False using C(6) nth_mem [of "nx ls i 0" as] by (simp add: addr_at_def)
    qed
    show "zlength z4 = of_nat (length es)" using z4(4) D(12) by simp
    show "ztail z4 = (if es = [] then 0 else last as)"
    proof (cases "r = length es")
      case True
      then have "as ! r = last as" using C(1) by (simp add: last_conv_nth flip: length_0_conv)
      then show ?thesis using True z4(3) z2(6) by (simp add: b_def)
    next
      case False
      then have "ztail z = last (ins (Suc r) x as)" using D(13) by (simp add: ins_def split: if_splits)
      then show ?thesis using False z4(3) z2(6) r C(1) last_ins [OF ra, of x] by auto
    qed
    fix k assume k: "k < length ls"
    show "sizes z4 (as ! k) = Some (ls ! k, ls ! k - 1)" using z4(7) C(13) [OF k] np [OF k] by simp
    show "elem_at es k (content_of z4 (as ! k))" using z4(8) C(14) [OF k] np [OF k] by simp
    show "get_backward z4 (as ! k) = Some (back_at as k)" using z4(8) z2(11) k np [OF k] by simp
    show "get_forward z4 (as ! k) i = Some (addr_at as (nx ls i k))" if "i < ls ! k" for i
      using z4(8) np [OF k] z1(5) k that by simp
    show "get_span z4 (as ! k) i = Some (of_nat (dist ls i k))" if "0 < i" "i < ls ! k" "i < zlevel z4" for i
      using z4(8) np [OF k] z1(6) k that z4(5) l(3) by simp
  qed (use C(1,2,5,6,7,8,11) z4(2,5) l in auto)
  ultimately show ?thesis using f z4(5) l(3) by blast
qed

end
