(* ===== verification/Skiplist_Order.thy ===== *)
theory Skiplist_Order
  imports Skiplist_Delete
begin

text \<open>
  The order of a skip list: by score and, for equal scores, by the text of the object. On texts
  without zero bytes \<open>compareStringObjects\<close> is the lexicographic order, however the objects are
  encoded, so that the searches of theory \<open>Skiplist\<close> stop where a sorted sequence says.
\<close>

section \<open>The comparison of objects\<close>

definition plain :: "sobj \<Rightarrow> bool" where
  "plain ob \<longleftrightarrow> sobj_ok ob \<and> 0 \<notin> set (text_of ob)"

lemma bytes_less_Cons: "a # as < b # bs \<longleftrightarrow> a < b \<or> a = b \<and> as < (bs :: bytes)"
  by (simp add: list_less_def)

lemma c_strcmp_order:
  assumes "0 \<notin> set s" "0 \<notin> set t"
  shows "\<exists>c. c_strcmp (s @ [0]) (t @ [0]) = Some c \<and> (c < 0 \<longleftrightarrow> s < t) \<and> (c = 0 \<longleftrightarrow> s = t)"
  using assms
proof (induction s arbitrary: t)
  case Nil
  then show ?case by (cases t) (auto simp: word_uint_eq_iff order_less_le)
next
  case (Cons a s)
  show ?case
  proof (cases t)
    case Nil
    then show ?thesis using Cons.prems by (auto simp: word_uint_eq_iff)
  next
    case (Cons b t')
    then show ?thesis using Cons.IH [of t'] Cons.prems by (auto simp: bytes_less_Cons word_less_alt word_uint_eq_iff)
  qed
qed

lemma c_memcmp_order:
  "let m = min (length a) (length b); c = c_memcmp (take m a) (take m b) in
    (c < 0 \<or> c = 0 \<and> length a < length b \<longleftrightarrow> a < b)"
proof (induction a arbitrary: b)
  case Nil
  then show ?case by (cases b) simp_all
next
  case (Cons x a)
  then show ?case by (cases b) (auto simp: bytes_less_Cons Let_def)
qed

lemma contents_cmp_order:
  assumes "length a < 2 ^ 31" "length b < 2 ^ 31"
  shows "contents_cmp a b < 0 \<longleftrightarrow> a < b"
proof -
  have "signed_take_bit 31 (int (length a) - int (length b)) = int (length a) - int (length b)"
    using assms by (intro signed_take_bit_int_eq_self) auto
  then show ?thesis using c_memcmp_order [of a b] by (auto simp: contents_cmp_def Let_def split: if_splits)
qed

lemma compare_order:
  assumes "plain a" "plain b"
  shows "\<exists>c. compareStringObjects False a b = Some c \<and> (c < 0 \<longleftrightarrow> text_of a < text_of b) \<and>
    (c \<le> 0 \<longleftrightarrow> text_of a \<le> text_of b)"
proof -
  have "\<exists>c. compareStringObjects False a b = Some c \<and> (c < 0 \<longleftrightarrow> text_of a < text_of b) \<and>
    (c = 0 \<longleftrightarrow> text_of a = text_of b)"
    using assms c_strcmp_order [of "text_of a" "text_of b"]
    by (cases a; cases b) (auto simp: plain_def compareStringObjects_def contents_cmp_order contents_cmp_eq)
  then show ?thesis by (metis le_less)
qed

lemma equal_plain:
  assumes "plain a" "plain b"
  shows "equalStringObjects False a b = Some (text_of a = text_of b)"
proof -
  obtain c where c: "compareStringObjects False a b = Some c" "c \<le> 0 \<longleftrightarrow> text_of a \<le> text_of b" "c < 0 \<longleftrightarrow> text_of a < text_of b"
    using compare_order [OF assms] by blast
  then have e: "c = 0 \<longleftrightarrow> text_of a = text_of b" by (metis le_less less_irrefl)
  show ?thesis
    using assms c(1) e dec_text_inject by (cases a; cases b) (auto simp: equalStringObjects_def plain_def)
qed

section \<open>Sorted sequences\<close>

definition zkey :: "'s \<times> sobj \<Rightarrow> 's \<times> bytes" where
  "zkey e = (fst e, text_of (snd e))"

text \<open>The contract: the list holds the elements \<open>es\<close>, in strictly ascending order.\<close>

definition zsl_ok :: "'s::linorder zsl \<Rightarrow> ('s \<times> sobj) list \<Rightarrow> bool" where
  "zsl_ok z es \<longleftrightarrow> (\<exists>as ls. zrep z as ls es) \<and> sorted_wrt (<) (map zkey es) \<and> (\<forall>e \<in> set es. plain (snd e))"

text \<open>A condition that holds of an initial part of a sequence.\<close>

definition initial :: "('a \<Rightarrow> bool) \<Rightarrow> 'a list \<Rightarrow> bool" where
  "initial P xs \<longleftrightarrow> (\<forall>i j. i < j \<longrightarrow> j < length xs \<longrightarrow> P (xs ! j) \<longrightarrow> P (xs ! i))"

lemma initial_takeWhile:
  assumes "initial P xs" "k < length xs"
  shows "P (xs ! k) \<longleftrightarrow> k < length (takeWhile P xs)"
proof
  assume p: "P (xs ! k)"
  show "k < length (takeWhile P xs)"
  proof (rule ccontr)
    assume n: "\<not> k < length (takeWhile P xs)"
    then have "length (takeWhile P xs) < length xs" using assms(2) by simp
    then have "\<not> P (xs ! length (takeWhile P xs))" by (rule nth_length_takeWhile)
    moreover have "P (xs ! length (takeWhile P xs))"
      using assms p n unfolding initial_def by (metis linorder_neqE_nat)
    ultimately show False by blast
  qed
next
  assume "k < length (takeWhile P xs)"
  then show "P (xs ! k)" by (metis nth_mem set_takeWhileD takeWhile_nth)
qed

lemma initial_filter: "initial P xs \<Longrightarrow> filter P xs = takeWhile P xs \<and> filter (\<lambda>x. \<not> P x) xs = dropWhile P xs"
proof (induction xs)
  case (Cons x xs)
  have i: "initial P xs" using Cons.prems unfolding initial_def by (metis Suc_less_eq length_Cons nth_Cons_Suc)
  have "\<not> P x \<Longrightarrow> \<forall>y \<in> set xs. \<not> P y"
    using Cons.prems unfolding initial_def by (metis in_set_conv_nth length_Cons nth_Cons_0 nth_Cons_Suc Suc_less_eq zero_less_Suc)
  then show ?case using Cons.IH [OF i] by (auto simp: filter_empty_conv filter_id_conv)
qed simp

lemma sorted_initial:
  assumes "sorted_wrt (<) (map zkey (es :: ('s::linorder \<times> sobj) list))" "\<And>a b. zkey a < zkey b \<Longrightarrow> P b \<Longrightarrow> P a"
  shows "initial P es"
  unfolding initial_def
proof (intro allI impI)
  fix i j assume "i < j" "j < length es" "P (es ! j)"
  then show "P (es ! i)" using assms(2) [of "es ! i" "es ! j"] sorted_wrt_nth_less [OF assms(1), of i j] by simp
qed

lemma zkey_less: "zkey (a :: 's::linorder \<times> sobj) < zkey b \<longleftrightarrow> fst a < fst b \<or> fst a = fst b \<and> text_of (snd a) < text_of (snd b)"
  by (auto simp: zkey_def less_prod_def)

section \<open>Searching in order\<close>

lemma content_node:
  assumes "zrep z as ls es" "m < length es" "znodes z (as ! Suc m) = Some nd"
  shows "score nd = fst (es ! m)" "zobj nd = Some (snd (es ! m))"
  using zrepD(15) [OF assms(1), of "Suc m"] zrepD(2) [OF assms(1)] assms(2,3)
  by (auto simp: elem_at_def content_of_def)

text \<open>A search with a test that depends on the element stops at the end of an initial part.\<close>

lemma search_go:
  assumes "zrep z as ls es" "initial P es"
    "\<And>m nd acc sp. m < length es \<Longrightarrow> score nd = fst (es ! m) \<Longrightarrow> zobj nd = Some (snd (es ! m)) \<Longrightarrow>
      go acc sp nd = Some (P (es ! m))"
  shows "go_ok z as (length es) go (length (takeWhile P es))"
  unfolding go_ok_def
proof (intro conjI allI impI)
  show "length (takeWhile P es) \<le> length es" by (rule length_takeWhile_le)
  fix k m nd assume m: "k < m" "m \<le> length es" "znodes z (as ! m) = Some nd"
  then obtain q where q: "m = Suc q" "q < length es" by (cases m) auto
  have "go (of_nat k) (of_nat (m - k)) nd = Some (P (es ! q))"
    using m(3) q content_node [OF assms(1) q(2)] by (intro assms(3) [OF q(2)]) auto
  then show "go (of_nat k) (of_nat (m - k)) nd = Some (m \<le> length (takeWhile P es))"
    using initial_takeWhile [OF assms(2) q(2)] q(1) by (simp add: Suc_le_eq)
qed

lemma sorted_key_initial:
  fixes es :: "('s::linorder \<times> sobj) list"
  assumes "sorted_wrt (<) (map zkey es)"
  shows "initial (\<lambda>e. zkey e < q) es" "initial (\<lambda>e. zkey e \<le> q) es"
    "initial (\<lambda>e. fst e < s) es" "initial (\<lambda>e. fst e \<le> s) es"
proof -
  have f: "fst a \<le> fst b" if "zkey a < zkey b" for a b :: "'s \<times> sobj" using that by (auto simp: zkey_less)
  note i = sorted_initial [OF assms]
  show "initial (\<lambda>e. zkey e < q) es" by (rule i) (rule less_trans)
  show "initial (\<lambda>e. zkey e \<le> q) es" by (rule i) (rule order.trans [OF order.strict_implies_order])
  show "initial (\<lambda>e. fst e < s) es" by (rule i) (rule le_less_trans [OF f])
  show "initial (\<lambda>e. fst e \<le> s) es" by (rule i) (rule order.trans [OF f])
qed

lemma before_go:
  fixes es :: "('s::linorder \<times> sobj) list"
  assumes "zrep z as ls es" "sorted_wrt (<) (map zkey es)" "\<forall>e \<in> set es. plain (snd e)" "plain ob"
  shows "go_ok z as (length es) (before s ob) (length (takeWhile (\<lambda>e. zkey e < (s, text_of ob)) es))"
proof (rule search_go [OF assms(1) sorted_key_initial(1) [OF assms(2)]])
  fix m acc sp and nd :: "'s znode" assume m: "m < length es" "score nd = fst (es ! m)" "zobj nd = Some (snd (es ! m))"
  then have "plain (snd (es ! m))" using assms(3) by simp
  from compare_order [OF this assms(4)] show "before s ob acc sp nd = Some (zkey (es ! m) < (s, text_of ob))"
    using m by (auto simp: before_def zkey_def less_prod_def)
qed

lemma up_to_go:
  fixes es :: "('s::linorder \<times> sobj) list"
  assumes "zrep z as ls es" "sorted_wrt (<) (map zkey es)" "\<forall>e \<in> set es. plain (snd e)" "plain ob"
  shows "go_ok z as (length es) (up_to s ob) (length (takeWhile (\<lambda>e. zkey e \<le> (s, text_of ob)) es))"
proof (rule search_go [OF assms(1) sorted_key_initial(2) [OF assms(2)]])
  fix m acc sp and nd :: "'s znode" assume m: "m < length es" "score nd = fst (es ! m)" "zobj nd = Some (snd (es ! m))"
  then have "plain (snd (es ! m))" using assms(3) by simp
  from compare_order [OF this assms(4)] show "up_to s ob acc sp nd = Some (zkey (es ! m) \<le> (s, text_of ob))"
    using m by (auto simp: up_to_def zkey_def less_eq_prod_def)
qed

lemma score_go:
  fixes es :: "('s::linorder \<times> sobj) list"
  assumes "zrep z as ls es" "sorted_wrt (<) (map zkey es)"
  shows "go_ok z as (length es) (\<lambda>acc sp nf. Some (score nf < s)) (length (takeWhile (\<lambda>e. fst e < s) es))"
  by (rule search_go [OF assms(1) sorted_key_initial(3) [OF assms(2)]]) simp

text \<open>Searches by the number of nodes passed.\<close>

lemma rank_go:
  assumes "length es < 2 ^ 32" "r < 2 ^ 64"
  shows "go_ok z as (length es) (\<lambda>t sp nf. Some ((t :: u64) + ucast sp \<le> of_nat r)) (min r (length es))"
  unfolding go_ok_def
proof (intro conjI allI impI)
  fix k m nd assume m: "k < m" "m \<le> length es"
  have "(of_nat k + ucast (of_nat (m - k) :: u32) :: u64) = of_nat m"
    using m assms(1) by (simp only: ucast_of_nat32 of_nat_add [symmetric]) (simp add: ucast_of_nat32)
  moreover have "((of_nat m :: u64) \<le> of_nat r) = (m \<le> r)"
    using m assms by (simp add: word_le_nat_alt unat_of_nat take_bit_nat_eq_self)
  ultimately show "Some ((of_nat k + ucast (of_nat (m - k) :: u32) :: u64) \<le> of_nat r) = Some (m \<le> min r (length es))"
    using m by simp
qed simp

section \<open>The first node of a search\<close>

text \<open>After \<open>descend\<close>, \<open>update[0]->forward[0]\<close> is the node behind the initial part.\<close>

lemma first_behind:
  assumes "zrep z as ls es" "r \<le> length es"
  shows "sel (update_of as ls r (zlevel z)) 0 = Some (as ! r, of_nat r :: 'w::len word)" "get_forward z (as ! r) 0 = Some (addr_at as (Suc r))"
proof -
  note D = zrepD [OF assms(1)]
  show "sel (update_of as ls r (zlevel z)) 0 = Some (as ! r, of_nat r :: 'w::len word)"
    using D(9) same_level_0 [OF assms(1)] assms(2) D(2) by (simp add: sel_def)
  have r: "r < length ls" using D(2) assms(2) by simp
  have "nx ls 0 r = Suc r" using zrep_level [OF assms(1), of "Suc r"] r by (intro nx_eqI) auto
  then show "get_forward z (as ! r) 0 = Some (addr_at as (Suc r))"
    using D(17) [OF r, of 0] zrep_level [OF assms(1) r] by simp
qed

end
