(* ===== verification/Skiplist_Spec.thy ===== *)
theory Skiplist_Spec
  imports Skiplist_Order
begin

text \<open>
  What the operations of the skip list do to the sequence of its elements: insertion in order,
  removal of one element or of a range, ranks, and the release of everything.
\<close>

section \<open>Inserting\<close>

lemma insort_split:
  "insort_key f x xs = takeWhile (\<lambda>y. f y < f x) xs @ x # dropWhile (\<lambda>y. f y < f x) xs"
  by (induction xs) auto

lemma map_insort: "map f (insort_key f x xs) = insort (f x) (map f xs)"
  by (induction xs) auto

lemma ins_takeWhile: "ins (length (takeWhile P xs)) x xs = takeWhile P xs @ x # dropWhile P xs"
  unfolding ins_def by (simp add: takeWhile_eq_take [symmetric] dropWhile_eq_drop [symmetric])

lemma sorted_insort_strict:
  assumes "sorted_wrt (<) (map f xs)" "f x \<notin> f ` set xs"
  shows "sorted_wrt (<) (map f (insort_key f x xs) :: 'k::linorder list)"
  using assms by (simp add: strict_sorted_iff map_insort sorted_insort distinct_insort)

text \<open>\<open>zslInsert\<close> puts a new element at its place in the order, whatever level the random numbers
  give the node: the result is the insertion into the sorted sequence, with every forward pointer
  and span correct, and no object is released.\<close>

lemma zslInsert_sorted:
  assumes "zsl_ok z es" "plain ob" "(s, text_of ob) \<notin> zkey ` set es" "length es + 1 < 2 ^ 32"
    "znodes z p = None" "p \<noteq> 0"
  shows "\<exists>z'. zslInsert fill p rs s ob z = Some z' \<and> zsl_ok z' (insort_key zkey (s, ob) es) \<and>
    zfreed z' = zfreed z"
proof -
  obtain as ls where z: "zrep z as ls es" and o: "sorted_wrt (<) (map zkey es)" "\<forall>e \<in> set es. plain (snd e)"
    using assms(1) by (auto simp: zsl_ok_def)
  have k: "zkey (s, ob) = (s, text_of ob)" by (simp add: zkey_def)
  have "p \<notin> set as" using zrepD(6) [OF z] assms(5) by (metis (mono_tags, lifting) mem_Collect_eq option.map(1) sizes_def)
  then obtain z' where z': "zslInsert fill p rs s ob z = Some z'" "zfreed z' = zfreed z"
    "\<exists>as ls. zrep z' as ls (ins (length (takeWhile (\<lambda>e. zkey e < zkey (s, ob)) es)) (s, ob) es)"
    using zslInsert_rep [OF z before_go [OF z o assms(2)] assms(4) _ assms(6)] k by metis
  moreover have "\<forall>e \<in> set (insort_key zkey (s, ob) es). plain (snd e)" using assms(2) o(2) by (simp add: set_insort_key)
  moreover have "sorted_wrt (<) (map zkey (insort_key zkey (s, ob) es))"
    using sorted_insort_strict [OF o(1), of "(s, ob)"] assms(3) k by simp
  moreover have "insort_key zkey (s, ob) es = ins (length (takeWhile (\<lambda>e. zkey e < zkey (s, ob)) es)) (s, ob) es"
    unfolding insort_split ins_takeWhile ..
  ultimately show ?thesis unfolding zsl_ok_def by metis
qed

section \<open>Deleting\<close>

definition omit :: "nat \<Rightarrow> 'a list \<Rightarrow> 'a list" where
  "omit r xs = take r xs @ drop (Suc r) xs"

lemma ins_omit: "r < length xs \<Longrightarrow> ins r (xs ! r) (omit r xs) = xs"
  by (simp add: ins_def omit_def id_take_nth_drop [symmetric])

lemma nth_omit: "r < length xs \<Longrightarrow> omit r xs ! k = (if k < r then xs ! k else xs ! Suc k)"
  by (auto simp: omit_def nth_append min_def)

lemma length_omit: "r < length xs \<Longrightarrow> length (omit r xs) = length xs - 1"
  by (simp add: omit_def)

lemma sorted_cut:
  assumes "sorted_wrt P (map f xs)" "a \<le> b"
  shows "sorted_wrt P (map f (take a xs @ drop b xs))"
proof -
  have d: "drop b xs = drop (b - a) (drop a xs)" using assms(2) by simp
  have "sorted_wrt P (map f (take a xs @ drop a xs))" using assms(1) by simp
  then have s: "sorted_wrt P (map f (take a xs))" "sorted_wrt P (map f (drop a xs))"
    "\<forall>x \<in> set (map f (take a xs)). \<forall>y \<in> set (map f (drop a xs)). P x y"
    unfolding map_append sorted_wrt_append by blast+
  have "set (map f (drop b xs)) \<subseteq> set (map f (drop a xs))" using set_drop_subset_set_drop [OF assms(2), of xs] by auto
  moreover have "sorted_wrt P (map f (drop b xs))"
    unfolding d using sorted_wrt_drop [OF s(2), of "b - a"] by (simp only: drop_map)
  ultimately show ?thesis using s(1,3) unfolding map_append sorted_wrt_append by blast
qed

lemma zslDeleteNode_at:
  assumes z: "zrep z as ls es" and r: "r < length es" and n: "zlevel z \<le> n" "n \<le> 32"
  shows "\<exists>z1 z2 as' ls'. zslDeleteNode z (as ! Suc r) (update_of as ls r n :: (zptr \<times> 'w::len word) list) = Some z1 \<and>
    zslFreeNode (as ! Suc r) z1 = Some z2 \<and> zrep z2 as' ls' (omit r es) \<and> zfreed z2 = zfreed z @ [snd (es ! r)] \<and>
    zlevel z2 \<le> zlevel z \<and> get_forward z (as ! Suc r) 0 = Some (addr_at as' (Suc r)) \<and>
    (update_of as' ls' r n :: (zptr \<times> 'w word) list) = update_of as ls r n"
proof -
  note D = zrepD [OF z]
  have l: "Suc r < length as" "Suc r < length ls" using D(1,2) r by simp_all
  let ?as = "omit (Suc r) as" and ?ls = "omit (Suc r) ls"
  have e: "ins (Suc r) (as ! Suc r) ?as = as" "ins (Suc r) (ls ! Suc r) ?ls = ls" "ins r (es ! r) (omit r es) = es"
    using l r by (simp_all add: ins_omit)
  have "zrep z (ins (Suc r) (as ! Suc r) ?as) (ins (Suc r) (ls ! Suc r) ?ls) (ins r (es ! r) (omit r es))"
    using z by (simp add: e)
  note del = zslDeleteNode_rep [OF this _ n(1), where 'w = 'w]
  have "r < length ?as" "r < length ?ls" "n \<le> ?ls ! 0" using l n(2) D(8) by (simp_all add: length_omit nth_omit)
  from update_of_ins [OF this, of "as ! Suc r" "ls ! Suc r", where 'a = 'w]
  have "(update_of ?as ?ls r n :: (zptr \<times> 'w word) list) = update_of as ls r n" by (simp only: e)
  moreover have "r \<le> length (omit r es)" using r by (simp add: length_omit)
  ultimately show ?thesis using del by (simp only: e) metis
qed

text \<open>\<open>zslDelete\<close> removes the element with the given score and text if the list has one, says
  whether it had, and releases exactly its object; the other elements stay in order.\<close>

lemma zslDelete_sorted:
  assumes "zsl_ok z es" "plain ob"
  shows "\<exists>z'. zslDelete s ob z = Some ((s, text_of ob) \<in> zkey ` set es, z') \<and>
    zsl_ok z' (filter (\<lambda>e. zkey e \<noteq> (s, text_of ob)) es) \<and>
    zfreed z' = zfreed z @ map snd (filter (\<lambda>e. zkey e = (s, text_of ob)) es)"
proof -
  obtain as ls where z: "zrep z as ls es" and o: "sorted_wrt (<) (map zkey es)" "\<forall>e \<in> set es. plain (snd e)"
    using assms(1) by (auto simp: zsl_ok_def)
  note D = zrepD [OF z]
  let ?q = "(s, text_of ob)"
  define r where "r = length (takeWhile (\<lambda>e. zkey e < ?q) es)"
  have rl: "r \<le> length es" by (simp add: r_def length_takeWhile_le)
  have go: "go_ok z as (length es) (before s ob) r" unfolding r_def by (rule before_go [OF z o assms(2)])
  have us: "descend z (before s ob) (zlevel z) (header z) (0 :: u32) = Some (update_of as ls r (zlevel z))"
    using descend_ok [OF z go order_refl, of 0] D(7,8,10) by simp
  have less: "zkey (es ! k) < ?q \<longleftrightarrow> k < r" if "k < length es" for k
    using initial_takeWhile [OF sorted_key_initial(1) [OF o(1)] that] by (simp add: r_def)
  have only: "k = r" if "k < length es" "zkey (es ! k) = ?q" for k
  proof (rule ccontr)
    assume "k \<noteq> r"
    moreover have "\<not> k < r" using less [OF that(1)] that(2) by simp
    ultimately have "r < k" by simp
    then have "zkey (es ! r) < ?q" using sorted_wrt_nth_less [OF o(1), of r k] that by simp
    then show False using less [of r] \<open>r < k\<close> that(1) by simp
  qed
  show ?thesis
  proof (cases "r < length es \<and> zkey (es ! r) = ?q")
    case False
    have no: "zkey e \<noteq> ?q" if "e \<in> set es" for e
      using that only False by (metis in_set_conv_nth)
    then have "filter (\<lambda>e. zkey e \<noteq> ?q) es = es" "filter (\<lambda>e. zkey e = ?q) es = []"
      by (simp_all add: filter_id_conv filter_empty_conv)
    moreover have "?q \<notin> zkey ` set es" using no by (metis imageE)
    moreover have "zslDelete s ob z = Some (False, z)"
    proof (cases "r < length es")
      case True
      then have a: "addr_at as (Suc r) = as ! Suc r" "as ! Suc r \<noteq> 0" using zrep_addr [OF z, of "Suc r"] D(2) by simp_all
      obtain nd where nd: "znodes z (as ! Suc r) = Some nd" using zrep_addr(3) [OF z, of "Suc r"] D(2) True by auto
      note c = content_node [OF z True nd]
      have "plain (snd (es ! r))" using o(2) True by simp
      from equal_plain [OF this assms(2)] show ?thesis
        using us first_behind(1) [OF z rl, where 'w = 32] first_behind(2) [OF z rl] a nd c False True by (auto simp: zslDelete_def zkey_def)
    next
      case no: False
      then have "addr_at as (Suc r) = 0" using D(1) by (simp add: addr_at_def)
      then show ?thesis using us first_behind(1) [OF z rl, where 'w = 32] first_behind(2) [OF z rl] by (simp add: zslDelete_def)
    qed
    ultimately show ?thesis using assms(1) by simp
  next
    case True
    then have rs: "r < length es" and q: "zkey (es ! r) = ?q" by simp_all
    have a: "addr_at as (Suc r) = as ! Suc r" "as ! Suc r \<noteq> 0" using zrep_addr [OF z, of "Suc r"] D(2) rs by simp_all
    obtain nd where nd: "znodes z (as ! Suc r) = Some nd" using zrep_addr(3) [OF z, of "Suc r"] D(2) rs by auto
    note c = content_node [OF z rs nd]
    have "plain (snd (es ! r))" using o(2) rs by simp
    note eq = equal_plain [OF this assms(2)]
    from zslDeleteNode_at [OF z rs order_refl D(10), where 'w = 32] obtain z1 z2 as' ls' where
      del: "zslDeleteNode z (as ! Suc r) (update_of as ls r (zlevel z) :: (zptr \<times> u32) list) = Some z1"
      "zslFreeNode (as ! Suc r) z1 = Some z2" "zrep z2 as' ls' (omit r es)" "zfreed z2 = zfreed z @ [snd (es ! r)]"
      by auto
    have "zslDelete s ob z = Some (True, z2)"
      using us first_behind(1) [OF z rl, where 'w = 32] first_behind(2) [OF z rl] a nd c eq del(1,2) q by (simp add: zslDelete_def zkey_def)
    moreover note split = id_take_nth_drop [OF rs]
    have "distinct (map zkey (take r es @ es ! r # drop (Suc r) es))"
      using o(1) split [symmetric] by (simp add: strict_sorted_iff)
    then have "?q \<notin> zkey ` set (omit r es)" using q by (auto simp: omit_def)
    then have others: "\<forall>e \<in> set (omit r es). zkey e \<noteq> ?q" by (metis image_eqI)
    then have "filter (\<lambda>e. zkey e \<noteq> ?q) (take r es @ es ! r # drop (Suc r) es) = omit r es"
      "filter (\<lambda>e. zkey e = ?q) (take r es @ es ! r # drop (Suc r) es) = [es ! r]"
      using q by (auto simp: omit_def filter_id_conv filter_empty_conv)
    then have f: "filter (\<lambda>e. zkey e \<noteq> ?q) es = omit r es" "filter (\<lambda>e. zkey e = ?q) es = [es ! r]"
      by (simp_all only: split [symmetric])
    moreover have "?q \<in> zkey ` set es" using q rs by (metis image_eqI nth_mem)
    moreover have "sorted_wrt (<) (map zkey (omit r es))"  unfolding omit_def by (rule sorted_cut [OF o(1)]) simp
    moreover have "\<forall>e \<in> set (omit r es). plain (snd e)" using o(2) f(1) by (metis filter_is_subset subsetD)
    ultimately show ?thesis using del(3,4) by (auto simp: zsl_ok_def)
  qed
qed

section \<open>Deleting a range\<close>

lemma unat_ucast_32_64 [simp]: "unat (ucast (x :: u32) :: u64) = unat x"
  by transfer simp

lemma take_omit: "drop r (omit r xs) = drop (Suc r) xs" "take r (omit r xs) = take r xs" if "r < length xs"
  using that by (simp_all add: omit_def)

lemma delete_loop_ok:
  fixes ok :: "u64 \<Rightarrow> 's znode \<Rightarrow> bool"
  assumes "zrep z as ls es" "r + c \<le> length es" "zlevel z \<le> n" "n \<le> 32" "dict_rep d m"
    "\<And>j nd. j < c \<Longrightarrow> score nd = fst (es ! (r + j)) \<Longrightarrow> ok (t + of_nat j) nd"
    "\<And>nd. r + c < length es \<Longrightarrow> score nd = fst (es ! (r + c)) \<Longrightarrow> \<not> ok (t + of_nat c) nd"
  shows "\<exists>z' d' as' ls'. delete_loop ok (update_of as ls r n) (addr_at as (Suc r)) t removed z d =
      Some (removed + of_nat c, z', d') \<and>
    zrep z' as' ls' (take r es @ drop (r + c) es) \<and> zfreed z' = zfreed z @ map snd (take c (drop r es)) \<and>
    dict_rep d' (m |` (- snd ` set (take c (drop r es))))"
  using assms
proof (induction c arbitrary: z as ls es t removed d m)
  case 0
  note D = zrepD [OF 0(1)]
  have "delete_loop ok (update_of as ls r n) (addr_at as (Suc r)) t removed z d = Some (removed, z, d)"
  proof (cases "r < length es")
    case True
    then obtain nd where nd: "znodes z (as ! Suc r) = Some nd" using zrep_addr(3) [OF 0(1), of "Suc r"] D(2) by auto
    have "\<not> ok t nd" using 0(7) [of nd] content_node [OF 0(1) True nd] True by simp
    then show ?thesis
      using nd zrep_addr(2) [OF 0(1), of "Suc r"] D(2) True by (subst delete_loop.simps) simp
  next
    case False
    then have "addr_at as (Suc r) = 0" using D(1) by (simp add: addr_at_def)
    then show ?thesis by (subst delete_loop.simps) simp
  qed
  then show ?case using 0(1,5) by auto
next
  case (Suc c)
  note D = zrepD [OF Suc.prems(1)]
  have r: "r < length es" using Suc.prems(2) by simp
  then obtain nd where nd: "znodes z (as ! Suc r) = Some nd" using zrep_addr(3) [OF Suc.prems(1), of "Suc r"] D(2) by auto
  note c = content_node [OF Suc.prems(1) r nd]
  have ok: "ok t nd" using Suc.prems(6) [of 0 nd] c by simp
  have a: "addr_at as (Suc r) = as ! Suc r" "as ! Suc r \<noteq> 0" using zrep_addr [OF Suc.prems(1), of "Suc r"] D(2) r by simp_all
  from zslDeleteNode_at [OF Suc.prems(1) r Suc.prems(3,4), where 'w = 64] obtain z1 z2 as' ls' where
    del: "zslDeleteNode z (as ! Suc r) (update_of as ls r n :: (zptr \<times> u64) list) = Some z1"
    "zslFreeNode (as ! Suc r) z1 = Some z2" "zrep z2 as' ls' (omit r es)" "zfreed z2 = zfreed z @ [snd (es ! r)]"
    "zlevel z2 \<le> zlevel z" "get_forward z (as ! Suc r) 0 = Some (addr_at as' (Suc r))"
    "(update_of as' ls' r n :: (zptr \<times> u64) list) = update_of as ls r n" by blast
  from dictGenericDelete_rep [OF Suc.prems(5), of "snd (es ! r)" False] obtain x d' where
    d': "dictDelete d (snd (es ! r)) = Some (x, d')" "dict_rep d' (m(snd (es ! r) := None))"
    unfolding dictDelete_def by blast
  have step: "delete_loop ok (update_of as ls r n) (addr_at as (Suc r)) t removed z d =
      delete_loop ok (update_of as' ls' r n) (addr_at as' (Suc r)) (t + 1) (removed + 1) z2 d'"
    using a nd ok c del(1,2,6,7) d'(1) by (subst delete_loop.simps) simp
  have o: "omit r es ! (r + j) = es ! (r + Suc j)" "length (omit r es) = length es - 1" for j
    using r by (simp_all add: nth_omit length_omit)
  have "\<exists>z'' d'' as'' ls''. delete_loop ok (update_of as' ls' r n) (addr_at as' (Suc r)) (t + 1) (removed + 1) z2 d' =
      Some (removed + 1 + of_nat c, z'', d'') \<and>
    zrep z'' as'' ls'' (take r (omit r es) @ drop (r + c) (omit r es)) \<and>
    zfreed z'' = zfreed z2 @ map snd (take c (drop r (omit r es))) \<and>
    dict_rep d'' (m(snd (es ! r) := None) |` (- snd ` set (take c (drop r (omit r es)))))"
  proof (rule Suc.IH [OF del(3) _ _ Suc.prems(4) d'(2)])
    show "r + c \<le> length (omit r es)" "zlevel z2 \<le> n" using Suc.prems(2,3) del(5) o by simp_all
    show "ok (t + 1 + of_nat j) nd" if "j < c" "score nd = fst (omit r es ! (r + j))" for j nd
      using Suc.prems(6) [of "Suc j" nd] that o by (simp add: add.assoc)
    show "\<not> ok (t + 1 + of_nat c) nd" if "r + c < length (omit r es)" "score nd = fst (omit r es ! (r + c))" for nd
      using Suc.prems(7) [of nd] that o by (simp add: add.assoc)
  qed
  moreover have "take (Suc c) (drop r es) = es ! r # take c (drop (Suc r) es)"
    using r by (simp add: Cons_nth_drop_Suc [symmetric])
  moreover have "drop (r + c) (omit r es) = drop (r + Suc c) es"
    using r by (simp add: omit_def add.commute)
  moreover have "m(snd (es ! r) := None) |` (- snd ` set (take c (drop (Suc r) es))) =
      m |` (- insert (snd (es ! r)) (snd ` set (take c (drop (Suc r) es))))"
    by (auto simp: fun_eq_iff restrict_map_def)
  ultimately show ?case
    unfolding step using del(4) take_omit [OF r] by (simp add: add.assoc)
qed

definition in_range :: "'s::linorder \<Rightarrow> 's \<Rightarrow> 's \<times> sobj \<Rightarrow> bool" where
  "in_range mn mx e \<longleftrightarrow> mn \<le> fst e \<and> fst e \<le> mx"

definition ranked :: "nat \<Rightarrow> nat \<Rightarrow> 'a list \<Rightarrow> 'a list" where
  "ranked a b xs = take (b - (a - 1)) (drop (a - 1) xs)"

text \<open>\<open>zslDeleteRangeByScore\<close> removes exactly the elements with a score between the bounds,
  from the list and from the dictionary of the sorted set, counts them and releases their objects.\<close>

lemma zslDeleteRangeByScore_sorted:
  assumes "zsl_ok z es" "dict_rep d m"
  shows "\<exists>z' d'. zslDeleteRangeByScore mn mx z d = Some (of_nat (length (filter (in_range mn mx) es)), z', d') \<and>
    zsl_ok z' (filter (\<lambda>e. \<not> in_range mn mx e) es) \<and> zfreed z' = zfreed z @ map snd (filter (in_range mn mx) es) \<and>
    dict_rep d' (m |` (- snd ` set (filter (in_range mn mx) es)))"
proof -
  let ?P = "in_range mn mx"
  obtain as ls where z: "zrep z as ls es" and o: "sorted_wrt (<) (map zkey es)" "\<forall>e \<in> set es. plain (snd e)"
    using assms(1) by (auto simp: zsl_ok_def)
  note D = zrepD [OF z]
  define r where "r = length (takeWhile (\<lambda>e. fst e < mn) es)"
  define c where "c = length (takeWhile ?P (drop r es))"
  have rl: "r \<le> length es" by (simp add: r_def length_takeWhile_le)
  have lt: "fst (es ! k) < mn \<longleftrightarrow> k < r" if "k < length es" for k
    using initial_takeWhile [OF sorted_key_initial(3) [OF o(1)] that] by (simp add: r_def)
  have "initial (\<lambda>e. fst e \<le> mx) es" by (rule sorted_key_initial(4) [OF o(1)])
  then have i: "initial ?P (drop r es)"
    using lt unfolding initial_def in_range_def
    by (simp add: not_less [symmetric]) (metis add_strict_left_mono less_diff_conv add.commute)
  have at: "fst (es ! (r + j)) \<le> mx \<longleftrightarrow> j < c" if "r + j < length es" for j
    using initial_takeWhile [OF i, of j] that lt [of "r + j"] by (simp add: c_def in_range_def not_less [symmetric])
  have cl: "r + c \<le> length es" using length_takeWhile_le [of ?P "drop r es"] rl by (simp add: c_def)
  have low: "\<forall>e \<in> set (take r es). \<not> ?P e"
  proof
    fix e assume "e \<in> set (take r es)"
    then obtain k where "k < r" "e = es ! k" using rl by (auto simp: in_set_conv_nth)
    then show "\<not> ?P e" using lt [of k] rl by (auto simp: in_range_def)
  qed
  have "filter ?P (take r es) = []" "filter (\<lambda>e. \<not> ?P e) (take r es) = take r es"
    using low by (simp_all add: filter_empty_conv filter_id_conv)
  then have "filter ?P es = takeWhile ?P (drop r es)" "filter (\<lambda>e. \<not> ?P e) es = take r es @ dropWhile ?P (drop r es)"
    using initial_filter [OF i] filter_append [of _ "take r es" "drop r es"] unfolding append_take_drop_id by simp_all
  then have f: "filter ?P es = take c (drop r es)" "filter (\<lambda>e. \<not> ?P e) es = take r es @ drop (r + c) es"
    by (simp_all add: c_def takeWhile_eq_take [symmetric] dropWhile_eq_drop add.commute)
  have us: "descend z (\<lambda>acc sp nf. Some (score nf < mn)) (zlevel z) (header z) 0 =
      Some (update_of as ls r (zlevel z) :: (zptr \<times> u64) list)"
    using descend_ok [OF z score_go [OF z o(1)] order_refl, of 0 mn] D(7,8,10) by (simp add: r_def)
  obtain z' d' as' ls' where "delete_loop (\<lambda>t nd. score nd \<le> mx) (update_of as ls r (zlevel z)) (addr_at as (Suc r)) 0 0 z d =
      Some (0 + of_nat c, z', d')" and
    z': "zrep z' as' ls' (take r es @ drop (r + c) es)" "zfreed z' = zfreed z @ map snd (take c (drop r es))"
    "dict_rep d' (m |` (- snd ` set (take c (drop r es))))"
    using delete_loop_ok [OF z cl order_refl D(10) assms(2), of "\<lambda>t nd. score nd \<le> mx" 0 0] at cl by auto
  then have "zslDeleteRangeByScore mn mx z d = Some (of_nat (length (filter ?P es)), z', d')"
    using us first_behind(1) [OF z rl, where 'w = 64] first_behind(2) [OF z rl] cl
    by (simp add: zslDeleteRangeByScore_def f(1))
  moreover have "zsl_ok z' (filter (\<lambda>e. \<not> ?P e) es)"
    using z'(1) o(2) f(2) sorted_cut [OF o(1), of r "r + c"] unfolding zsl_ok_def by (metis filter_is_subset subsetD le_add1)
  ultimately show ?thesis using z' f by metis
qed

text \<open>\<open>zslDeleteRangeByRank\<close> removes exactly the elements with 1-based ranks from \<open>start\<close> to
  \<open>stop\<close>, from the list and from the dictionary, counts them and releases their objects.\<close>

lemma zslDeleteRangeByRank_sorted:
  assumes "zsl_ok z es" "dict_rep d m" "1 \<le> start" "start \<le> stop" "unat stop \<le> length es"
  shows "\<exists>z' d'. zslDeleteRangeByRank start stop z d = Some (of_nat (length (ranked (unat start) (unat stop) es)), z', d') \<and>
    zsl_ok z' (take (unat start - 1) es @ drop (unat stop) es) \<and>
    zfreed z' = zfreed z @ map snd (ranked (unat start) (unat stop) es) \<and>
    dict_rep d' (m |` (- snd ` set (ranked (unat start) (unat stop) es)))"
proof -
  obtain as ls where z: "zrep z as ls es" and o: "sorted_wrt (<) (map zkey es)" "\<forall>e \<in> set es. plain (snd e)"
    using assms(1) by (auto simp: zsl_ok_def)
  note D = zrepD [OF z]
  define r where "r = unat start - 1"
  define c where "c = unat stop - r"
  have st: "unat start = Suc r" using assms(3) by (simp add: r_def word_le_nat_alt)
  have le: "Suc r \<le> unat stop" using assms(4) st by (simp add: word_le_nat_alt)
  then have rc: "r + c = unat stop" and rl: "r \<le> length es" using assms(5) by (simp_all add: c_def)
  have go: "go_ok z as (length es) (\<lambda>t sp nf. Some ((t :: u64) + ucast sp < ucast start)) r"
  proof -
    have "(x < ucast start) = (x \<le> of_nat r)" for x :: u64
      using st rl D(3) by (simp add: less_Suc_eq_le word_less_nat_alt word_le_nat_alt unat_of_nat take_bit_nat_eq_self)
    then show ?thesis using rank_go [OF D(3), of r z as] rl D(3) by simp
  qed
  have us: "descend z (\<lambda>t sp nf. Some ((t :: u64) + ucast sp < ucast start)) (zlevel z) (header z) 0 =
      Some (update_of as ls r (zlevel z))"
    using descend_ok [OF z go order_refl, of 0] D(7,8,10) by simp
  have ok: "(of_nat r + 1 + of_nat j \<le> (ucast stop :: u64)) = (j < c)" if "j \<le> c" for j
  proof -
    have "(of_nat r + 1 + of_nat j :: u64) = of_nat (Suc (r + j))" by simp
    then show ?thesis
      using that rc [symmetric] assms(5) D(3)
      by (simp only: word_le_nat_alt unat_of_nat) (simp add: take_bit_nat_eq_self Suc_le_eq)
  qed
  obtain z' d' as' ls' where "delete_loop (\<lambda>t nd. t \<le> ucast stop) (update_of as ls r (zlevel z)) (addr_at as (Suc r))
      (of_nat r + 1) 0 z d = Some (0 + of_nat c, z', d')" and
    z': "zrep z' as' ls' (take r es @ drop (r + c) es)" "zfreed z' = zfreed z @ map snd (take c (drop r es))"
    "dict_rep d' (m |` (- snd ` set (take c (drop r es))))"
    using delete_loop_ok [OF z _ order_refl D(10) assms(2), of r c "\<lambda>t nd. t \<le> ucast stop" "of_nat r + 1" 0] ok rc assms(5) by auto
  moreover have g: "ranked (unat start) (unat stop) es = take c (drop r es)" "length (take c (drop r es)) = c"
    using rc assms(5) by (simp_all add: ranked_def r_def c_def)
  ultimately have "zslDeleteRangeByRank start stop z d = Some (of_nat (length (take c (drop r es))), z', d')"
    using us first_behind(1) [OF z rl, where 'w = 64] first_behind(2) [OF z rl]
    by (simp add: zslDeleteRangeByRank_def)
  moreover have "zsl_ok z' (take (unat start - 1) es @ drop (unat stop) es)"
    using z'(1) o(2) rc sorted_cut [OF o(1), of r "unat stop"] le
    unfolding r_def [symmetric] by (auto simp: zsl_ok_def dest: in_set_takeD in_set_dropD)
  ultimately show ?thesis using z' g by metis
qed

section \<open>Ranks\<close>

lemma lst_0:
  assumes "zrep z as ls es" "r \<le> length es"
  shows "lst ls 0 r = r"
  using zrep_level [OF assms(1), of r] zrepD(2) [OF assms(1)] assms(2) by (intro lst_eqI) auto

lemma element_levels_ok:
  assumes "zrep z as ls es" "n \<le> zlevel z" "k \<le> min (unat rank) (length es)" "n \<le> ls ! k"
    "n = 0 \<Longrightarrow> length es < unat rank"
  shows "element_levels z rank n (as ! k) (of_nat k) = Some (addr_at as (unat rank))"
  using assms(2-)
proof (induction n arbitrary: k)
  case 0
  then show ?case using zrepD(1) [OF assms(1)] by (simp add: addr_at_def)
next
  case (Suc n)
  note D = zrepD [OF assms(1)]
  let ?r = "min (unat rank) (length es)"
  have i0: "n < ls ! 0" using Suc.prems(1) D(8,10) by simp
  have "go_ok z as (length es) (\<lambda>t sp nf. Some ((t :: u64) + ucast sp \<le> rank)) ?r"
    using rank_go [OF D(3), of "unat rank" z as] unsigned_less [of rank] by simp
  then have w: "walk z (\<lambda>t sp nf. Some (t + ucast sp \<le> rank)) n (as ! k) (of_nat k) = Some (as ! lst ls n ?r, of_nat (lst ls n ?r))"
    using Suc.prems by (intro walk_ok [OF assms(1)]) simp_all
  note l = lst_props(1,2) [OF i0, of ?r]
  have "unat (of_nat (lst ls n ?r) :: u64) = lst ls n ?r"
    using l(1) D(3) by (simp add: unat_of_nat take_bit_nat_eq_self)
  then have eq: "of_nat (lst ls n ?r) = rank \<longleftrightarrow> lst ls n ?r = unat rank" by (simp add: word_unat_eq_iff)
  show ?case
  proof (cases "lst ls n ?r = unat rank")
    case True
    then show ?thesis using w eq l D(1) by (simp add: addr_at_def)
  next
    case False
    have "length es < unat rank" if "n = 0"
      using that False lst_0 [OF assms(1), of ?r] by (simp add: min_def split: if_splits)
    then show ?thesis using w eq False Suc.IH [of "lst ls n ?r"] Suc.prems(1) l by simp
  qed
qed

text \<open>\<open>zslGetElementByRank\<close> finds the node that holds the element of the given 1-based rank, and
  NULL for a rank beyond the end.\<close>

lemma zslGetElementByRank_nth:
  assumes "zsl_ok z es" "1 \<le> rank"
  shows "\<exists>p. zslGetElementByRank rank z = Some p \<and>
    (if unat rank \<le> length es
     then content_of z p = Some (fst (es ! (unat rank - 1)), Some (snd (es ! (unat rank - 1)))) else p = 0)"
proof -
  obtain as ls where z: "zrep z as ls es" using assms(1) by (auto simp: zsl_ok_def)
  note D = zrepD [OF z]
  have "zslGetElementByRank rank z = Some (addr_at as (unat rank))"
    using element_levels_ok [OF z order_refl, of 0 rank] D(7-10) by (simp add: zslGetElementByRank_def)
  moreover have "0 < unat rank" using assms(2) by (simp add: word_le_nat_alt)
  ultimately show ?thesis using D(1,2) D(15) [of "unat rank"] by (auto simp: addr_at_def elem_at_def)
qed

lemma rank_levels_ok:
  fixes s :: "'s::linorder"
  assumes "zrep z as ls es" "\<forall>e \<in> set es. plain (snd e)" "plain ob" "go_ok z as (length es) (up_to s ob :: u64 \<Rightarrow> _) r"
    "\<And>j. j < length es \<Longrightarrow> text_of (snd (es ! j)) = text_of ob \<Longrightarrow> Suc j = r"
    "n \<le> zlevel z" "k \<le> r" "n \<le> ls ! k" "n = 0 \<Longrightarrow> r = 0 \<or> text_of (snd (es ! (r - 1))) \<noteq> text_of ob"
  shows "rank_levels z s ob n (as ! k) (of_nat k) =
    Some (if 0 < r \<and> text_of (snd (es ! (r - 1))) = text_of ob then of_nat r else 0)"
  using assms(6-)
proof (induction n arbitrary: k)
  case 0
  then show ?case by auto
next
  case (Suc n)
  note D = zrepD [OF assms(1)]
  have r: "r \<le> length es" using assms(4) by (simp add: go_ok_def)
  have i0: "n < ls ! 0" using Suc.prems(1) D(8,10) by simp
  note l = lst_props(1,2) [OF i0, of r]
  have w: "walk z (up_to s ob) n (as ! k) (of_nat k) = Some (as ! lst ls n r, of_nat (lst ls n r) :: u64)"
    using Suc.prems by (intro walk_ok [OF assms(1) _ assms(4)]) simp_all
  obtain nd where nd: "znodes z (as ! lst ls n r) = Some nd" using zrep_addr(3) [OF assms(1), of "lst ls n r"] l(1) r D(2) by auto
  have hit: "(case zobj nd of None \<Rightarrow> Some False | Some ob' \<Rightarrow> equalStringObjects False ob' ob) =
      Some (0 < lst ls n r \<and> text_of (snd (es ! (lst ls n r - 1))) = text_of ob)"
  proof (cases "lst ls n r")
    case 0
    then have "zobj nd = None" using D(15) [of 0] nd D(2) by (auto simp: elem_at_def content_of_def)
    then show ?thesis using 0 by simp
  next
    case (Suc q)
    then have q: "q < length es" using l(1) r by simp
    then have "plain (snd (es ! q))" using assms(2) by simp
    then show ?thesis using content_node [OF assms(1) q] nd Suc equal_plain [OF _ assms(3)] by simp
  qed
  show ?case
  proof (cases "0 < lst ls n r \<and> text_of (snd (es ! (lst ls n r - 1))) = text_of ob")
    case True
    moreover from this have "lst ls n r - 1 < length es" using l(1) r by linarith
    ultimately have "lst ls n r = r" using assms(5) [of "lst ls n r - 1"] by simp
    then show ?thesis using w nd hit True by simp
  next
    case False
    have "r = 0 \<or> text_of (snd (es ! (r - 1))) \<noteq> text_of ob" if "n = 0"
      using that False lst_0 [OF assms(1) r] by auto
    then have "rank_levels z s ob n (as ! lst ls n r) (of_nat (lst ls n r)) =
      Some (if 0 < r \<and> text_of (snd (es ! (r - 1))) = text_of ob then of_nat r else 0)"
      using Suc.prems(1) l by (intro Suc.IH) simp_all
    moreover have "rank_levels z s ob (Suc n) (as ! k) (of_nat k) = rank_levels z s ob n (as ! lst ls n r) (of_nat (lst ls n r))"
      using w nd trans [OF hit arg_cong [OF False [THEN iffD2 [OF eq_False]], of Some]] by simp
    ultimately show ?thesis by (simp only:)
  qed
qed

lemma rank_of_key:
  assumes "zsl_ok z es" "k < length es"
  shows "length (takeWhile (\<lambda>e. zkey e \<le> zkey (es ! k)) es) = Suc k"
proof -
  have o: "sorted_wrt (<) (map zkey es)" using assms(1) by (simp add: zsl_ok_def)
  note i = initial_takeWhile [OF sorted_key_initial(2) [OF o, of "zkey (es ! k)"]]
  have "k < length (takeWhile (\<lambda>e. zkey e \<le> zkey (es ! k)) es)" using i [OF assms(2)] by simp
  moreover have "\<not> Suc k < length (takeWhile (\<lambda>e. zkey e \<le> zkey (es ! k)) es)"
  proof
    assume h: "Suc k < length (takeWhile (\<lambda>e. zkey e \<le> zkey (es ! k)) es)"
    then have l: "Suc k < length es" using length_takeWhile_le less_le_trans by blast
    then show False using h i [OF l] sorted_wrt_nth_less [OF o, of k "Suc k"] by simp
  qed
  ultimately show ?thesis by simp
qed

text \<open>\<open>zslGetRank\<close> gives the 1-based rank of an element, the number of elements up to it, and 0
  for an object the list does not hold; the list must not hold the object with another score.\<close>

lemma zslGetRank_count:
  assumes "zsl_ok z es" "plain ob" "\<forall>e \<in> set es. text_of (snd e) = text_of ob \<longrightarrow> fst e = s"
  shows "zslGetRank s ob z = Some (if (s, text_of ob) \<in> zkey ` set es
    then of_nat (length (filter (\<lambda>e. zkey e \<le> (s, text_of ob)) es)) else 0)"
proof -
  obtain as ls where z: "zrep z as ls es" and o: "sorted_wrt (<) (map zkey es)" "\<forall>e \<in> set es. plain (snd e)"
    using assms(1) by (auto simp: zsl_ok_def)
  note D = zrepD [OF z]
  let ?q = "(s, text_of ob)"
  define r where "r = length (takeWhile (\<lambda>e. zkey e \<le> ?q) es)"
  have key: "zkey (es ! j) = ?q" if "j < length es" "text_of (snd (es ! j)) = text_of ob" for j
    using assms(3) that by (simp add: zkey_def)
  have at: "Suc j = r" if "j < length es" "text_of (snd (es ! j)) = text_of ob" for j
    using rank_of_key [OF assms(1) that(1)] key [OF that] by (simp add: r_def)
  have "zslGetRank s ob z = Some (if 0 < r \<and> text_of (snd (es ! (r - 1))) = text_of ob then of_nat r else 0)"
    using rank_levels_ok [OF z o(2) assms(2) up_to_go [OF z o assms(2)] at [unfolded r_def] order_refl, of 0] D(7-10)
    by (simp add: zslGetRank_def r_def)
  moreover have "?q \<in> zkey ` set es \<longleftrightarrow> 0 < r \<and> text_of (snd (es ! (r - 1))) = text_of ob"
  proof
    assume "?q \<in> zkey ` set es"
    then obtain j where "j < length es" "zkey (es ! j) = ?q" by (metis imageE in_set_conv_nth)
    then show "0 < r \<and> text_of (snd (es ! (r - 1))) = text_of ob" using at [of j] by (auto simp: zkey_def)
  next
    assume h: "0 < r \<and> text_of (snd (es ! (r - 1))) = text_of ob"
    have "r \<le> length es" by (simp add: r_def length_takeWhile_le)
    then have l: "r - 1 < length es" using h by linarith
    have "?q = zkey (es ! (r - 1))" using key [OF l] h by simp
    then show "?q \<in> zkey ` set es" using l by simp
  qed
  moreover have "length (filter (\<lambda>e. zkey e \<le> ?q) es) = r"
    using initial_filter [OF sorted_key_initial(2) [OF o(1)]] by (simp add: r_def)
  ultimately show ?thesis by simp
qed

section \<open>Creating and freeing\<close>

lemma zslCreate_ok: "p \<noteq> 0 \<Longrightarrow> zsl_ok (zslCreate fill p) []"
proof -
  assume p: "p \<noteq> 0"
  have nx: "nx [32] i 0 = 1" for i by (rule nx_eqI) auto
  have "zrep (zslCreate fill p) [p] [32] []"
    using p by (intro zrepI) (auto simp: zslCreate_def zslCreateNode_def Let_def ZSKIPLIST_MAXLEVEL_def sizes_def
        elem_at_def content_of_def get_backward_def back_at_def get_forward_def get_span_def sel_def addr_at_def nx dist_def
        split: if_splits)
  then show ?thesis by (auto simp: zsl_ok_def)
qed

lemma free_nodes_ok:
  assumes "zrep z as ls es" "k \<le> length es" "znodes z' = znodes z |` set (drop (Suc k) as)"
  shows "\<exists>z''. free_nodes (addr_at as (Suc k)) z' = Some z'' \<and> znodes z'' = Map.empty \<and>
    zfreed z'' = zfreed z' @ map snd (drop k es)"
  using assms(2,3)
proof (induction "length es - k" arbitrary: k z')
  case 0
  then have "addr_at as (Suc k) = 0" "drop (Suc k) as = []" using zrepD(1) [OF assms(1)] by (simp_all add: addr_at_def)
  then show ?case using 0 by (subst free_nodes.simps) (simp add: fun_eq_iff)
next
  case (Suc n)
  note D = zrepD [OF assms(1)]
  have k: "k < length es" using Suc.hyps(2) by simp
  then have l: "Suc k < length ls" "Suc k < length as" using D(1,2) by simp_all
  have a: "addr_at as (Suc k) = as ! Suc k" "as ! Suc k \<noteq> 0" using zrep_addr [OF assms(1) l(1)] by simp_all
  obtain nd where nd: "znodes z (as ! Suc k) = Some nd" using zrep_addr(3) [OF assms(1) l(1)] by blast
  have dr: "drop (Suc k) as = as ! Suc k # drop (Suc (Suc k)) as" using l(2) by (simp add: Cons_nth_drop_Suc)
  then have nd': "znodes z' (as ! Suc k) = Some nd" using Suc.prems(2) nd by simp
  have "nx ls 0 (Suc k) = Suc (Suc k)"
    using zrep_level [OF assms(1), of "Suc (Suc k)"] l(1) by (intro nx_eqI) auto
  then have "get_forward z (as ! Suc k) 0 = Some (addr_at as (Suc (Suc k)))"
    using D(17) [OF l(1), of 0] zrep_level [OF assms(1) l(1)] by simp
  then have f: "get_forward z' (as ! Suc k) 0 = Some (addr_at as (Suc (Suc k)))" using nd nd' by (simp add: get_forward_def)
  let ?z = "z'\<lparr>znodes := (znodes z')(as ! Suc k := None), zfreed := zfreed z' @ [snd (es ! k)]\<rparr>"
  have fr: "zslFreeNode (as ! Suc k) z' = Some ?z" using nd' content_node [OF assms(1) k nd] by (simp add: zslFreeNode_def)
  have "as ! Suc k \<notin> set (drop (Suc (Suc k)) as)"
    using distinct_drop [OF D(4), of "Suc k"] dr by simp
  then have "znodes ?z = znodes z |` set (drop (Suc (Suc k)) as)"
    using Suc.prems(2) dr by (auto simp: fun_eq_iff restrict_map_def)
  moreover have "n = length es - Suc k" "Suc k \<le> length es" using Suc.hyps(2) k by simp_all
  ultimately obtain z'' where
    "free_nodes (addr_at as (Suc (Suc k))) ?z = Some z''" "znodes z'' = Map.empty"
    "zfreed z'' = zfreed ?z @ map snd (drop (Suc k) es)"
    using Suc.hyps(1) [of "Suc k" ?z] by blast
  then show ?case
    using a f fr k by (subst free_nodes.simps) (simp add: Cons_nth_drop_Suc [symmetric])
qed

text \<open>\<open>zslFree\<close> frees the header and every node, each once, and releases the object of every
  element exactly once.\<close>

lemma zslFree_all:
  assumes "zsl_ok z es"
  shows "\<exists>z'. zslFree z = Some z' \<and> znodes z' = Map.empty \<and> zfreed z' = zfreed z @ map snd es"
proof -
  obtain as ls where z: "zrep z as ls es" using assms(1) by (auto simp: zsl_ok_def)
  note D = zrepD [OF z]
  have as: "as = as ! 0 # drop (Suc 0) as" using D(1) Cons_nth_drop_Suc [of 0 as] by simp
  have dom: "znodes z p = None" if "p \<notin> set as" for p
    using D(6) that by (auto simp: sizes_def)
  have "as ! 0 \<notin> set (drop (Suc 0) as)" using D(4) as by (metis distinct.simps(2))
  moreover have "p = as ! 0 \<or> p \<in> set (drop (Suc 0) as)" if "p \<in> set as" for p using as that by (metis set_ConsD)
  ultimately have "(znodes z)(header z := None) = znodes z |` set (drop (Suc 0) as)"
    using dom D(7) by (auto simp: fun_eq_iff restrict_map_def)
  with free_nodes_ok [OF z, of 0 "z\<lparr>znodes := (znodes z)(header z := None)\<rparr>"]
  show ?thesis using first_behind(2) [OF z, of 0] D(7) by (auto simp: zslFree_def)
qed

section \<open>The properties of the skip list\<close>

text \<open>C9: \<open>zslInsert\<close> puts a new element at its place in the order, whatever level the random numbers
  give the node: the list represents the insertion into the sorted sequence, with every forward
  pointer, backward pointer and span in place, and no object is released.\<close>

theorem zslInsert_refines:
  assumes "zsl_ok z es" "plain ob" "(s, text_of ob) \<notin> zkey ` set es" "length es + 1 < 2 ^ 32"
    "znodes z p = None" "p \<noteq> 0"
  shows "\<exists>z'. zslInsert fill p rs s ob z = Some z' \<and> zsl_ok z' (insort_key zkey (s, ob) es) \<and>
    zfreed z' = zfreed z"
  by (rule zslInsert_sorted [OF assms])

text \<open>C11: \<open>zslDelete\<close> removes the element with the given score and text if the list has one, says
  whether it had, and releases exactly its object; the other elements stay in order.\<close>

theorem zslDelete_refines:
  assumes "zsl_ok z es" "plain ob"
  shows "\<exists>z'. zslDelete s ob z = Some ((s, text_of ob) \<in> zkey ` set es, z') \<and>
    zsl_ok z' (filter (\<lambda>e. zkey e \<noteq> (s, text_of ob)) es) \<and>
    zfreed z' = zfreed z @ map snd (filter (\<lambda>e. zkey e = (s, text_of ob)) es)"
  by (rule zslDelete_sorted [OF assms])

text \<open>C34: \<open>zslDeleteRangeByScore\<close> removes exactly the elements with a score between the bounds,
  from the list and from the dictionary of the sorted set, counts them and releases each object once.\<close>

theorem zslDeleteRangeByScore_refines:
  assumes "zsl_ok z es" "dict_rep d m"
  shows "\<exists>z' d'. zslDeleteRangeByScore mn mx z d = Some (of_nat (length (filter (in_range mn mx) es)), z', d') \<and>
    zsl_ok z' (filter (\<lambda>e. \<not> in_range mn mx e) es) \<and> zfreed z' = zfreed z @ map snd (filter (in_range mn mx) es) \<and>
    dict_rep d' (m |` (- snd ` set (filter (in_range mn mx) es)))"
  by (rule zslDeleteRangeByScore_sorted [OF assms])

text \<open>C35: \<open>zslGetRank\<close> and \<open>zslGetElementByRank\<close> are inverse: the 1-based rank of an element of the
  list, whose text no other element has, is its position, and at this rank is the node of the element.\<close>

theorem zsl_rank_roundtrip:
  assumes "zsl_ok z es" "k < length es" "distinct (map (text_of \<circ> snd) es)"
  shows "\<exists>rank p. zslGetRank (fst (es ! k)) (snd (es ! k)) z = Some rank \<and> unat rank = Suc k \<and>
    zslGetElementByRank rank z = Some p \<and> content_of z p = Some (fst (es ! k), Some (snd (es ! k)))"
proof -
  obtain as ls where z: "zrep z as ls es" using assms(1) by (auto simp: zsl_ok_def)
  have o: "sorted_wrt (<) (map zkey es)" and pl: "plain (snd (es ! k))" using assms(1,2) by (simp_all add: zsl_ok_def)
  have "\<forall>e \<in> set es. text_of (snd e) = text_of (snd (es ! k)) \<longrightarrow> fst e = fst (es ! k)"
  proof (intro ballI impI)
    fix e assume e: "e \<in> set es" "text_of (snd e) = text_of (snd (es ! k))"
    then obtain j where j: "j < length es" "es ! j = e" by (metis in_set_conv_nth)
    then have "j = k" using nth_eq_iff_index_eq [OF assms(3), of j k] e(2) assms(2) by simp
    then show "fst e = fst (es ! k)" using j by simp
  qed
  from zslGetRank_count [OF assms(1) pl this]
  have "zslGetRank (fst (es ! k)) (snd (es ! k)) z = Some (of_nat (Suc k))"
    using rank_of_key [OF assms(1,2)] initial_filter [OF sorted_key_initial(2) [OF o]] assms(2)
    by (simp add: zkey_def [symmetric] del: of_nat_Suc)
  moreover have u: "unat (of_nat (Suc k) :: u64) = Suc k"
    using assms(2) zrepD(3) [OF z] by (simp only: unsigned_of_nat) (simp add: take_bit_nat_eq_self)
  moreover have "1 \<le> (of_nat (Suc k) :: u64)" using u by (simp add: word_le_nat_alt)
  ultimately show ?thesis using zslGetElementByRank_nth [OF assms(1), of "of_nat (Suc k)"] assms(2) by auto
qed

text \<open>\<open>zslFree\<close> frees the header and every node, each once, and releases the object of every
  element exactly once.\<close>

theorem zslFree_frees_all:
  assumes "zsl_ok z es"
  shows "\<exists>z'. zslFree z = Some z' \<and> znodes z' = Map.empty \<and> zfreed z' = zfreed z @ map snd es"
  by (rule zslFree_all [OF assms])

section \<open>A concrete list\<close>

lemma plain_a: "plain (Raw [97])"
  by (simp add: plain_def)

lemma sample_list: "\<exists>z. zsl_ok z [(5 :: int, Raw [97])] \<and> zfreed z = []"
  using zslInsert_sorted [OF zslCreate_ok [of 1 id] plain_a, of 5 2 id "[]"]
  by (auto simp: zslCreate_def Let_def)

theorem zslInsert_refines_witness:
  "\<exists>z'. zslInsert id 2 [7] (5 :: int) (Raw [97]) (zslCreate id 1) = Some z' \<and> zsl_ok z' [(5, Raw [97])]"
  using zslInsert_refines [OF zslCreate_ok [of 1 id] plain_a, of 5 2 id "[7]"] by (auto simp: zslCreate_def Let_def)

theorem zslDelete_refines_witness:
  "\<exists>z z'. zslDelete (5 :: int) (Raw [97]) z = Some (True, z') \<and> zsl_ok z' [] \<and> zfreed z' = [Raw [97]]"
proof -
  obtain z where z: "zsl_ok z [(5 :: int, Raw [97])]" "zfreed z = []" using sample_list by blast
  from zslDelete_refines [OF z(1) plain_a, of 5] z(2) show ?thesis by (auto simp: zkey_def)
qed

theorem zslDeleteRangeByScore_refines_witness:
  "\<exists>z z' d d'. zslDeleteRangeByScore (4 :: int) 6 z d = Some (1, z', d') \<and> zsl_ok z' []"
proof -
  obtain z where z: "zsl_ok z [(5 :: int, Raw [97])]" "zfreed z = []" using sample_list by blast
  have "plain_type \<lparr>hashFunction = (\<lambda>_. 0), keyDup = None, valDup = None, keyCompare = None, keyDestructor = True, valDestructor = True\<rparr>"
    by (simp add: plain_type_def)
  from zslDeleteRangeByScore_refines [OF z(1) dictCreate_rep [OF this], of 4 6] show ?thesis
    by (fastforce simp: in_range_def)
qed

theorem zsl_rank_roundtrip_witness:
  "\<exists>z p. zslGetRank (5 :: int) (Raw [97]) z = Some 1 \<and> zslGetElementByRank 1 z = Some p"
proof -
  obtain z where z: "zsl_ok z [(5 :: int, Raw [97])]" "zfreed z = []" using sample_list by blast
  obtain rank p where r: "zslGetRank (5 :: int) (Raw [97]) z = Some rank" "unat rank = 1" "zslGetElementByRank rank z = Some p"
    using zsl_rank_roundtrip [OF z(1), of 0] by auto
  have "rank = 1" using r(2) by (simp add: word_unat_eq_iff)
  then show ?thesis using r by blast
qed

theorem zslFree_frees_all_witness: "\<exists>z z'. zslFree (z :: int zsl) = Some z' \<and> zfreed z' = [Raw [97]]"
proof -
  obtain z where z: "zsl_ok z [(5 :: int, Raw [97])]" "zfreed z = []" using sample_list by blast
  from zslFree_frees_all [OF z(1)] z(2) show ?thesis by auto
qed

text \<open>\<open>zslGetRank\<close> does not compare the score: it finds an object that is in the list with a lower one.\<close>

theorem zslGetRank_ignores_score: "\<exists>z. zsl_ok z [(5 :: int, Raw [97])] \<and> zslGetRank 8 (Raw [97]) z = Some 1"
proof -
  obtain z where z: "zsl_ok z [(5 :: int, Raw [97])]" using sample_list by blast
  then obtain as ls where r: "zrep z as ls [(5 :: int, Raw [97])]" and o: "sorted_wrt (<) (map zkey [(5 :: int, Raw [97])])"
    by (auto simp: zsl_ok_def)
  have "go_ok z as 1 (up_to 8 (Raw [97]) :: u64 \<Rightarrow> _) 1"
    using up_to_go [OF r o _ plain_a, of 8] plain_a by (simp add: zkey_def less_eq_prod_def)
  then have g: "go_ok z as (length [(5 :: int, Raw [97])]) (up_to 8 (Raw [97]) :: u64 \<Rightarrow> _) 1" by simp
  have "rank_levels z 8 (Raw [97]) (zlevel z) (as ! 0) (of_nat 0) =
      Some (if 0 < (1 :: nat) \<and> text_of (snd ([(5 :: int, Raw [97])] ! (1 - 1))) = text_of (Raw [97]) then of_nat 1 else 0)"
    by (rule rank_levels_ok [OF r _ plain_a g]) (use plain_a zrepD(8-10) [OF r] in auto)
  then have "zslGetRank 8 (Raw [97]) z = Some 1" using zrepD(7) [OF r] by (simp add: zslGetRank_def)
  then show ?thesis using z by blast
qed

end
