(* ===== verification/Sorted_Set.thy ===== *)
theory Sorted_Set
  imports Skiplist_Spec Object_Dict
begin

text \<open>
  The sorted set and its commands (\<open>apps/redis-2.0.4/redis.c\<close>, lines 509-512, 1279-1286, 3004-3010 and
  5763-5946, 6147-6422): a hash table from objects to scores and a skip list. A command is a
  function of the value its key holds (\<open>None\<close> when there is no such key), with the arguments
  already parsed; it gives the reply, the value the key holds afterwards and what is added to
  \<open>server.dirty\<close>. \<open>None\<close> is a fault of the skip list or the table, or a failed \<open>redisAssert\<close>.
\<close>

record 's zset =
  zdict :: "(sobj, 's) dict"
  zlist :: "'s zsl"

datatype 's zvalue = OtherType | ZsetVal "'s zset"

datatype 's zreply =
    WrongType | NanScore | CZero | COne | NullBulk | EmptyMultibulk
  | RDouble 's | RInt int | RMulti "(sobj \<times> 's option) list"

type_synonym 's zresult = "('s zreply \<times> 's zvalue option \<times> int) option"

text \<open>What the commands take from their surroundings: \<open>dict_can_resize\<close>, \<open>zsetDictType\<close>, the bytes
  and addresses \<open>zmalloc\<close> returns, and the addition of doubles (\<open>None\<close> is NaN).\<close>

record 's zenv =
  can_resize :: bool
  zsetDictType :: "(sobj, 's) dictType"
  fill_of :: "nat \<Rightarrow> nat"
  header_at :: zptr
  alloc :: "'s zsl \<Rightarrow> zptr"
  plus_of :: "'s \<Rightarrow> 's \<Rightarrow> 's option"

definition createZsetObject :: "'s::zero zenv \<Rightarrow> 's zset" where
  "createZsetObject env =
     \<lparr>zdict = dictCreate (zsetDictType env), zlist = zslCreate (fill_of env) (header_at env)\<rparr>"

text \<open>\<open>dictFind\<close> and \<open>dictGetEntryVal\<close>.\<close>

definition find_score :: "(sobj, 's) dict \<Rightarrow> sobj \<Rightarrow> ('s option \<times> (sobj, 's) dict) option" where
  "find_score d ele = do {
     (de, d') \<leftarrow> dictFind d ele;
     Some (map_option (\<lambda>p. snd (entry_at d' p)) de, d') }"

section \<open>Adding\<close>

text \<open>
  \<open>rs\<close> are the random numbers the call of \<open>zslRandomLevel\<close> draws. When the score of an element stays as it
  is, \<open>score\<close> is freed (line 5845), and the reply of \<open>ZINCRBY\<close> reads \<open>*score\<close> after that (line 5848).
\<close>

definition zaddGenericCommand ::
  "'s::{linorder, zero} zenv \<Rightarrow> nat list \<Rightarrow> sobj \<Rightarrow> 's \<Rightarrow> bool \<Rightarrow> 's zvalue option \<Rightarrow> 's zresult"
where
  "zaddGenericCommand env rs ele scoreval doincrement zsetobj =
     (if zsetobj = Some OtherType then Some (WrongType, zsetobj, 0)
      else do {
        let zs = (case zsetobj of Some (ZsetVal zs) \<Rightarrow> zs | _ \<Rightarrow> createZsetObject env);
        (newscore, d1) \<leftarrow> (if doincrement then do {
            (old, d') \<leftarrow> find_score (zdict zs) ele;
            Some (case old of Some oldscore \<Rightarrow> plus_of env oldscore scoreval | None \<Rightarrow> Some scoreval, d') }
          else Some (Some scoreval, zdict zs));
        case newscore of
          None \<Rightarrow> Some (NanScore, Some (ZsetVal (zs\<lparr>zdict := d1\<rparr>)), 0)
        | Some newscore \<Rightarrow> do {
            (r, d2) \<leftarrow> dictAdd (can_resize env) d1 ele newscore;
            if r = DICT_OK then do {
              z' \<leftarrow> zslInsert (fill_of env) (alloc env (zlist zs)) rs newscore ele (zlist zs);
              Some (if doincrement then RDouble newscore else COne, Some (ZsetVal \<lparr>zdict = d2, zlist = z'\<rparr>), 1) }
            else do {
              (de, d3) \<leftarrow> find_score d2 ele;
              oldscore \<leftarrow> de;
              (zs', dirty, freed) \<leftarrow> (if newscore \<noteq> oldscore then do {
                  (deleted, z1) \<leftarrow> zslDelete oldscore ele (zlist zs);
                  if \<not> deleted then None
                  else do {
                    z2 \<leftarrow> zslInsert (fill_of env) (alloc env z1) rs newscore ele z1;
                    (_, d4) \<leftarrow> dictReplace (can_resize env) d3 ele newscore;
                    Some (\<lparr>zdict = d4, zlist = z2\<rparr>, 1, False) } }
                else Some (\<lparr>zdict = d3, zlist = zlist zs\<rparr>, 0, True));
              reply \<leftarrow> (if doincrement then if freed then None else Some (RDouble newscore) else Some CZero);
              Some (reply, Some (ZsetVal zs'), dirty) } } })"

section \<open>Removing\<close>

text \<open>What all removing commands end with; an empty sorted set loses its key.\<close>

definition shrink_zset :: "'s zenv \<Rightarrow> 's zset \<Rightarrow> 's zvalue option" where
  "shrink_zset env zs =
     (let d = (if htNeedsResize (zdict zs) then snd (dictResize (can_resize env) (zdict zs)) else zdict zs)
      in if dictSize d = 0 then None else Some (ZsetVal (zs\<lparr>zdict := d\<rparr>)))"

definition zremCommand :: "'s::linorder zenv \<Rightarrow> sobj \<Rightarrow> 's zvalue option \<Rightarrow> 's zresult" where
  "zremCommand env ele zsetobj =
     (case zsetobj of
        None \<Rightarrow> Some (CZero, zsetobj, 0)
      | Some OtherType \<Rightarrow> Some (WrongType, zsetobj, 0)
      | Some (ZsetVal zs) \<Rightarrow> do {
          (de, d1) \<leftarrow> find_score (zdict zs) ele;
          case de of
            None \<Rightarrow> Some (CZero, Some (ZsetVal (zs\<lparr>zdict := d1\<rparr>)), 0)
          | Some oldscore \<Rightarrow> do {
              (deleted, z') \<leftarrow> zslDelete oldscore ele (zlist zs);
              if \<not> deleted then None
              else do {
                (_, d2) \<leftarrow> dictDelete d1 ele;
                Some (COne, shrink_zset env \<lparr>zdict = d2, zlist = z'\<rparr>, 1) } } })"

definition zremrangebyscoreCommand :: "'s::linorder zenv \<Rightarrow> 's \<Rightarrow> 's \<Rightarrow> 's zvalue option \<Rightarrow> 's zresult" where
  "zremrangebyscoreCommand env mn mx zsetobj =
     (case zsetobj of
        None \<Rightarrow> Some (CZero, zsetobj, 0)
      | Some OtherType \<Rightarrow> Some (WrongType, zsetobj, 0)
      | Some (ZsetVal zs) \<Rightarrow> do {
          (deleted, z', d') \<leftarrow> zslDeleteRangeByScore mn mx (zlist zs) (zdict zs);
          Some (RInt (sint deleted), shrink_zset env \<lparr>zdict = d', zlist = z'\<rparr>, sint deleted) })"

text \<open>\<open>llen\<close>, and the conversion of the two indices: \<open>None\<close> is the empty range.\<close>

definition list_len :: "'s zsl \<Rightarrow> int" where
  "list_len z = signed_take_bit 31 (uint (zlength z))"

definition convert_range :: "int \<Rightarrow> int \<Rightarrow> int \<Rightarrow> (int \<times> int) option" where
  "convert_range llen start end' =
     (let start = (if start < 0 then llen + start else start);
          end' = (if end' < 0 then llen + end' else end');
          start = (if start < 0 then 0 else start)
      in if start > end' \<or> start \<ge> llen then None
         else Some (start, if end' \<ge> llen then llen - 1 else end'))"

definition zremrangebyrankCommand :: "'s::linorder zenv \<Rightarrow> int \<Rightarrow> int \<Rightarrow> 's zvalue option \<Rightarrow> 's zresult" where
  "zremrangebyrankCommand env start end' zsetobj =
     (case zsetobj of
        None \<Rightarrow> Some (CZero, zsetobj, 0)
      | Some OtherType \<Rightarrow> Some (WrongType, zsetobj, 0)
      | Some (ZsetVal zs) \<Rightarrow>
          (case convert_range (list_len (zlist zs)) start end' of
             None \<Rightarrow> Some (CZero, zsetobj, 0)
           | Some (s, e) \<Rightarrow> do {
               (deleted, z', d') \<leftarrow> zslDeleteRangeByRank (word_of_int (s + 1)) (word_of_int (e + 1)) (zlist zs) (zdict zs);
               Some (RInt (sint deleted), shrink_zset env \<lparr>zdict = d', zlist = z'\<rparr>, sint deleted) }))"

section \<open>Reading\<close>

fun range_loop :: "'s zsl \<Rightarrow> bool \<Rightarrow> bool \<Rightarrow> nat \<Rightarrow> zptr \<Rightarrow> (sobj \<times> 's option) list option" where
  "range_loop z reverse withscores 0 ln = Some []"
| "range_loop z reverse withscores (Suc n) ln = do {
     nd \<leftarrow> znodes z ln;
     ele \<leftarrow> zobj nd;
     ln' \<leftarrow> (if reverse then Some (backward nd) else get_forward z ln 0);
     rest \<leftarrow> range_loop z reverse withscores n ln';
     Some ((ele, if withscores then Some (score nd) else None) # rest) }"

definition zrangeGenericCommand :: "bool \<Rightarrow> bool \<Rightarrow> int \<Rightarrow> int \<Rightarrow> 's zvalue option \<Rightarrow> 's zresult" where
  "zrangeGenericCommand reverse withscores start end' so =
     (case so of
        None \<Rightarrow> Some (EmptyMultibulk, so, 0)
      | Some OtherType \<Rightarrow> Some (WrongType, so, 0)
      | Some (ZsetVal zs) \<Rightarrow>
          let z = zlist zs; llen = list_len z in
          (case convert_range llen start end' of
             None \<Rightarrow> Some (EmptyMultibulk, so, 0)
           | Some (s, e) \<Rightarrow> do {
               ln \<leftarrow> (if reverse then
                   (if s = 0 then Some (ztail z) else zslGetElementByRank (word_of_int (llen - s)) z)
                 else
                   (if s = 0 then get_forward z (header z) 0 else zslGetElementByRank (word_of_int (s + 1)) z));
               rows \<leftarrow> range_loop z reverse withscores (nat (e - s + 1)) ln;
               Some (RMulti rows, so, 0) }))"

text \<open>The two loops of \<open>ZRANGEBYSCORE\<close> and \<open>ZCOUNT\<close>; the rows are the elements that are counted.\<close>

partial_function (option) skip_equal :: "'s zsl \<Rightarrow> 's \<Rightarrow> zptr \<Rightarrow> zptr option" where
  "skip_equal z mn ln =
     (if ln = 0 then Some ln
      else do {
        nd \<leftarrow> znodes z ln;
        if score nd = mn then do { f \<leftarrow> get_forward z ln 0; skip_equal z mn f } else Some ln })"

partial_function (option) score_loop ::
  "'s::linorder zsl \<Rightarrow> 's \<Rightarrow> bool \<Rightarrow> bool \<Rightarrow> int \<Rightarrow> int \<Rightarrow> zptr \<Rightarrow> (sobj \<times> 's option) list \<Rightarrow> (sobj \<times> 's option) list option"
where
  "score_loop z mx maxex withscores offset limit ln rows =
     (if ln = 0 then Some rows
      else do {
        nd \<leftarrow> znodes z ln;
        if \<not> (if maxex then score nd < mx else score nd \<le> mx) then Some rows
        else if offset \<noteq> 0 then do {
          f \<leftarrow> get_forward z ln 0;
          score_loop z mx maxex withscores (offset - 1) limit f rows }
        else if limit = 0 then Some rows
        else do {
          ele \<leftarrow> zobj nd;
          f \<leftarrow> get_forward z ln 0;
          score_loop z mx maxex withscores offset (if limit > 0 then limit - 1 else limit) f
            (rows @ [(ele, if withscores then Some (score nd) else None)]) } })"

definition genericZrangebyscoreCommand ::
  "bool \<Rightarrow> 's::linorder \<Rightarrow> bool \<Rightarrow> 's \<Rightarrow> bool \<Rightarrow> bool \<Rightarrow> int \<Rightarrow> int \<Rightarrow> 's zvalue option \<Rightarrow> 's zresult"
where
  "genericZrangebyscoreCommand justcount mn minex mx maxex withscores offset limit so =
     (let offset = (if offset < 0 then 0 else offset) in
      case so of
        None \<Rightarrow> Some (if justcount then CZero else EmptyMultibulk, so, 0)
      | Some OtherType \<Rightarrow> Some (WrongType, so, 0)
      | Some (ZsetVal zs) \<Rightarrow> do {
          let z = zlist zs;
          ln0 \<leftarrow> zslFirstWithScore mn z;
          ln \<leftarrow> (if minex then skip_equal z mn ln0 else Some ln0);
          if ln = 0 then Some (if justcount then CZero else EmptyMultibulk, so, 0)
          else do {
            rows \<leftarrow> score_loop z mx maxex withscores offset limit ln [];
            Some (if justcount then RInt (int (length rows)) else RMulti rows, so, 0) } })"

definition zcardCommand :: "'s zvalue option \<Rightarrow> 's zresult" where
  "zcardCommand so =
     (case so of
        None \<Rightarrow> Some (CZero, so, 0)
      | Some OtherType \<Rightarrow> Some (WrongType, so, 0)
      | Some (ZsetVal zs) \<Rightarrow> Some (RInt (uint (zlength (zlist zs))), so, 0))"

definition zscoreCommand :: "sobj \<Rightarrow> 's zvalue option \<Rightarrow> 's zresult" where
  "zscoreCommand ele so =
     (case so of
        None \<Rightarrow> Some (NullBulk, so, 0)
      | Some OtherType \<Rightarrow> Some (WrongType, so, 0)
      | Some (ZsetVal zs) \<Rightarrow> do {
          (de, d') \<leftarrow> find_score (zdict zs) ele;
          Some (case de of None \<Rightarrow> NullBulk | Some s \<Rightarrow> RDouble s, Some (ZsetVal (zs\<lparr>zdict := d'\<rparr>)), 0) })"

definition zrankGenericCommand :: "bool \<Rightarrow> sobj \<Rightarrow> 's::linorder zvalue option \<Rightarrow> 's zresult" where
  "zrankGenericCommand reverse ele so =
     (case so of
        None \<Rightarrow> Some (NullBulk, so, 0)
      | Some OtherType \<Rightarrow> Some (WrongType, so, 0)
      | Some (ZsetVal zs) \<Rightarrow> do {
          (de, d') \<leftarrow> find_score (zdict zs) ele;
          let so' = Some (ZsetVal (zs\<lparr>zdict := d'\<rparr>));
          case de of
            None \<Rightarrow> Some (NullBulk, so', 0)
          | Some s \<Rightarrow> do {
              rank \<leftarrow> zslGetRank s ele (zlist zs);
              Some (if rank \<noteq> 0 then RInt (sint (if reverse then zlength (zlist zs) - rank else rank - 1)) else NullBulk,
                so', 0) } })"

section \<open>All commands\<close>

datatype 's zcmd =
    ZAdd bool "nat list" 's sobj
  | ZRem sobj
  | ZRemRangeByScore 's 's
  | ZRemRangeByRank int int
  | ZRange bool bool int int
  | ZRangeByScore bool 's bool 's bool bool int int
  | ZCard
  | ZScore sobj
  | ZRank bool sobj

text \<open>\<open>ZAdd True\<close> is \<open>ZINCRBY\<close>, \<open>ZRange True\<close> is \<open>ZREVRANGE\<close>, \<open>ZRangeByScore True\<close> is \<open>ZCOUNT\<close> and
  \<open>ZRank True\<close> is \<open>ZREVRANK\<close>.\<close>

fun zexec :: "'s::{linorder, zero} zenv \<Rightarrow> 's zcmd \<Rightarrow> 's zvalue option \<Rightarrow> 's zresult" where
  "zexec env (ZAdd incr rs s ob) = zaddGenericCommand env rs ob s incr"
| "zexec env (ZRem ob) = zremCommand env ob"
| "zexec env (ZRemRangeByScore mn mx) = zremrangebyscoreCommand env mn mx"
| "zexec env (ZRemRangeByRank a b) = zremrangebyrankCommand env a b"
| "zexec env (ZRange reverse ws a b) = zrangeGenericCommand reverse ws a b"
| "zexec env (ZRangeByScore jc mn minex mx maxex ws off lim) = genericZrangebyscoreCommand jc mn minex mx maxex ws off lim"
| "zexec env ZCard = zcardCommand"
| "zexec env (ZScore ob) = zscoreCommand ob"
| "zexec env (ZRank reverse ob) = zrankGenericCommand reverse ob"

end
