(* ===== verification/Keyspace.thy ===== *)
theory Keyspace
  imports Hash_Object Sorted_Set Pattern
begin

text \<open>
  The databases of the server and the commands on their keys (\<open>apps/redis-2.0.4/redis.c\<close>, lines
  3093-3172, 4278-4552 and 7397-7456): a table from keys to objects and a table from keys to the time
  at which they expire. Keys are the texts of the key objects, the only thing the tables look at
  (\<open>dictObjHash\<close>, \<open>dictObjKeyCompare\<close>). Virtual memory is off, and no client waits for a key. The
  commands on hashes and sorted sets run on the value the key holds (theories \<open>Hash_Object\<close> and
  \<open>Sorted_Set\<close>). \<open>None\<close> is a fault below or a failed assertion.
\<close>

section \<open>Databases\<close>

text \<open>Lists and sets are objects of which only the type matters here.\<close>

datatype 's rvalue = VString sobj | VHash hobj | VZset "'s zset" | VList | VSet

text \<open>A database, with the counters \<open>server.dirty\<close> and \<open>server.stat_expiredkeys\<close>.\<close>

record 'v kdb =
  kdict :: "(bytes, 'v) dict"
  kexpires :: "(bytes, int) dict"
  kdirty :: int
  kexpired :: int

section \<open>Looking up and expiring\<close>

text \<open>The position of the entry, for changing its value in place, and the value.\<close>

definition lookupKey :: "'v kdb \<Rightarrow> bytes \<Rightarrow> (((bool \<times> nat \<times> nat) \<times> 'v) option \<times> 'v kdb) option" where
  "lookupKey db key = do {
     (de, d) \<leftarrow> dictFind (kdict db) key;
     Some (map_option (\<lambda>p. (p, snd (entry_at d p))) de, db\<lparr>kdict := d\<rparr>) }"

definition deleteKey :: "'v kdb \<Rightarrow> bytes \<Rightarrow> (bool \<times> 'v kdb) option" where
  "deleteKey db key = do {
     ex \<leftarrow> (if dictSize (kexpires db) \<noteq> 0 then map_option snd (dictDelete (kexpires db) key) else Some (kexpires db));
     (retval, d) \<leftarrow> dictDelete (kdict db) key;
     Some (retval = DICT_OK, db\<lparr>kdict := d, kexpires := ex\<rparr>) }"

definition removeExpire :: "'v kdb \<Rightarrow> bytes \<Rightarrow> (bool \<times> 'v kdb) option" where
  "removeExpire db key = do {
     (r, ex) \<leftarrow> dictDelete (kexpires db) key;
     Some (r = DICT_OK, db\<lparr>kexpires := ex\<rparr>) }"

definition setExpire :: "bool \<Rightarrow> 'v kdb \<Rightarrow> bytes \<Rightarrow> int \<Rightarrow> (bool \<times> 'v kdb) option" where
  "setExpire cr db key when = do {
     (r, ex) \<leftarrow> dictAdd cr (kexpires db) key when;
     Some (r \<noteq> DICT_ERR, db\<lparr>kexpires := ex\<rparr>) }"

text \<open>The lookup in the table of expires that the following three have in common.\<close>

definition find_expire :: "'v kdb \<Rightarrow> bytes \<Rightarrow> (int option \<times> 'v kdb) option" where
  "find_expire db key =
     (if dictSize (kexpires db) = 0 then Some (None, db)
      else do {
        (de, ex) \<leftarrow> dictFind (kexpires db) key;
        Some (map_option (\<lambda>p. snd (entry_at ex p)) de, db\<lparr>kexpires := ex\<rparr>) })"

definition getExpire :: "'v kdb \<Rightarrow> bytes \<Rightarrow> (int \<times> 'v kdb) option" where
  "getExpire db key = do {
     (when, db1) \<leftarrow> find_expire db key;
     Some (case when of None \<Rightarrow> - 1 | Some t \<Rightarrow> t, db1) }"

definition expireIfNeeded :: "int \<Rightarrow> 'v kdb \<Rightarrow> bytes \<Rightarrow> (bool \<times> 'v kdb) option" where
  "expireIfNeeded now db key = do {
     (when, db1) \<leftarrow> find_expire db key;
     case when of
       None \<Rightarrow> Some (False, db1)
     | Some t \<Rightarrow>
         if now \<le> t then Some (False, db1)
         else do {
           (_, ex) \<leftarrow> dictDelete (kexpires db1) key;
           (r, d) \<leftarrow> dictDelete (kdict db1) key;
           Some (r = DICT_OK, db1\<lparr>kdict := d, kexpires := ex, kexpired := kexpired db1 + 1\<rparr>) } }"

definition deleteIfVolatile :: "'v kdb \<Rightarrow> bytes \<Rightarrow> (bool \<times> 'v kdb) option" where
  "deleteIfVolatile db key = do {
     (when, db1) \<leftarrow> find_expire db key;
     case when of
       None \<Rightarrow> Some (False, db1)
     | Some t \<Rightarrow> do {
         (_, ex) \<leftarrow> dictDelete (kexpires db1) key;
         (r, d) \<leftarrow> dictDelete (kdict db1) key;
         Some (r = DICT_OK, db1\<lparr>kdict := d, kexpires := ex, kdirty := kdirty db1 + 1, kexpired := kexpired db1 + 1\<rparr>) } }"

definition lookupKeyRead :: "int \<Rightarrow> 'v kdb \<Rightarrow> bytes \<Rightarrow> (((bool \<times> nat \<times> nat) \<times> 'v) option \<times> 'v kdb) option" where
  "lookupKeyRead now db key = do { (_, db1) \<leftarrow> expireIfNeeded now db key; lookupKey db1 key }"

definition lookupKeyWrite :: "'v kdb \<Rightarrow> bytes \<Rightarrow> (((bool \<times> nat \<times> nat) \<times> 'v) option \<times> 'v kdb) option" where
  "lookupKeyWrite db key = do { (_, db1) \<leftarrow> deleteIfVolatile db key; lookupKey db1 key }"

text \<open>\<open>dictAdd\<close>, and \<open>dictReplace\<close> when the key is there: whether it was added.\<close>

definition add_or_replace :: "bool \<Rightarrow> 'v kdb \<Rightarrow> bytes \<Rightarrow> 'v \<Rightarrow> (bool \<times> 'v kdb) option" where
  "add_or_replace cr db key val = do {
     (retval, d1) \<leftarrow> dictAdd cr (kdict db) key val;
     if retval = DICT_ERR then do {
       (_, d2) \<leftarrow> dictReplace cr d1 key val;
       Some (False, db\<lparr>kdict := d2\<rparr>) }
     else Some (True, db\<lparr>kdict := d1\<rparr>) }"

section \<open>Commands on strings\<close>

datatype 's kreply =
    KOk | KZero | KOne | KNull | KWrongType | KNoKey | KSameObject | KOutOfRange | KArity | KBadExpire | KNotInteger | KBadIndex
  | KInt int | KBulk bytes | KMulti "bytes option list" | KTypeName bytes | KHash hreply | KZset "'s zreply"

text \<open>\<open>now\<close> is what \<open>time\<close> returns, the same during a command; \<open>cr\<close> is \<open>dict_can_resize\<close>. The time
  wraps around.\<close>

definition setGenericCommand ::
  "bool \<Rightarrow> int \<Rightarrow> bool \<Rightarrow> bytes \<Rightarrow> sobj \<Rightarrow> int option \<Rightarrow> 's rvalue kdb \<Rightarrow> ('s kreply \<times> 's rvalue kdb) option"
where
  "setGenericCommand cr now fresh key val expire db =
     (if expire \<noteq> None \<and> the expire \<le> 0 then Some (KBadExpire, db)
      else do {
        (_, db1) \<leftarrow> (if fresh then deleteIfVolatile db key else Some (False, db));
        (retval, d) \<leftarrow> dictAdd cr (kdict db1) key (VString val);
        let db2 = db1\<lparr>kdict := d\<rparr>;
        if retval = DICT_ERR \<and> fresh then Some (KZero, db2)
        else do {
          db3 \<leftarrow> (if retval = DICT_ERR then map_option (\<lambda>(_, d). db2\<lparr>kdict := d\<rparr>) (dictReplace cr (kdict db2) key (VString val))
                 else Some db2);
          (_, db4) \<leftarrow> removeExpire (db3\<lparr>kdirty := kdirty db3 + 1\<rparr>) key;
          (_, db5) \<leftarrow> (case expire of None \<Rightarrow> Some (False, db4)
                    | Some seconds \<Rightarrow> setExpire cr db4 key (signed_take_bit 63 (now + seconds)));
          Some (if fresh then KOne else KOk, db5) } })"

definition getGenericCommand :: "int \<Rightarrow> bytes \<Rightarrow> 's rvalue kdb \<Rightarrow> ('s kreply \<times> 's rvalue kdb) option" where
  "getGenericCommand now key db = do {
     (r, db1) \<leftarrow> lookupKeyRead now db key;
     case r of
       None \<Rightarrow> Some (KNull, db1)
     | Some (_, VString ob) \<Rightarrow> do { t \<leftarrow> getDecodedObject ob; Some (KBulk t, db1) }
     | Some (_, _) \<Rightarrow> Some (KWrongType, db1) }"

definition getsetCommand :: "bool \<Rightarrow> int \<Rightarrow> bytes \<Rightarrow> sobj \<Rightarrow> 's rvalue kdb \<Rightarrow> ('s kreply \<times> 's rvalue kdb) option" where
  "getsetCommand cr now key val db = do {
     (r, db1) \<leftarrow> getGenericCommand now key db;
     if r = KWrongType then Some (r, db1)
     else do {
       (_, db2) \<leftarrow> add_or_replace cr db1 key (VString val);
       (_, db3) \<leftarrow> removeExpire (db2\<lparr>kdirty := kdirty db2 + 1\<rparr>) key;
       Some (r, db3) } }"

fun mget_loop :: "int \<Rightarrow> bytes list \<Rightarrow> 's rvalue kdb \<Rightarrow> (bytes option list \<times> 's rvalue kdb) option" where
  "mget_loop now [] db = Some ([], db)"
| "mget_loop now (key # keys) db = do {
     (r, db1) \<leftarrow> lookupKeyRead now db key;
     t \<leftarrow> (case r of Some (_, VString ob) \<Rightarrow> map_option Some (getDecodedObject ob) | _ \<Rightarrow> Some None);
     (ts, db2) \<leftarrow> mget_loop now keys db1;
     Some (t # ts, db2) }"

definition mgetCommand :: "int \<Rightarrow> bytes list \<Rightarrow> 's rvalue kdb \<Rightarrow> ('s kreply \<times> 's rvalue kdb) option" where
  "mgetCommand now keys db = map_option (\<lambda>(ts, db'). (KMulti ts, db')) (mget_loop now keys db)"

text \<open>The arguments are \<open>argv[1..]\<close>: keys and values in turn.\<close>

fun busy_keys :: "bytes list \<Rightarrow> 'v kdb \<Rightarrow> (nat \<times> 'v kdb) option" where
  "busy_keys (key # value # args) db = do {
     (r, db1) \<leftarrow> lookupKeyWrite db key;
     (n, db2) \<leftarrow> busy_keys args db1;
     Some (if r \<noteq> None then Suc n else n, db2) }"
| "busy_keys _ db = Some (0, db)"

fun mset_loop :: "bool \<Rightarrow> bytes list \<Rightarrow> 's rvalue kdb \<Rightarrow> 's rvalue kdb option" where
  "mset_loop cr (key # val # args) db = do {
     ob \<leftarrow> tryObjectEncoding 1 (Raw val);
     (_, db1) \<leftarrow> add_or_replace cr db key (VString ob);
     (_, db2) \<leftarrow> removeExpire db1 key;
     mset_loop cr args db2 }"
| "mset_loop cr _ db = Some db"

definition msetGenericCommand :: "bool \<Rightarrow> bool \<Rightarrow> bytes list \<Rightarrow> 's rvalue kdb \<Rightarrow> ('s kreply \<times> 's rvalue kdb) option" where
  "msetGenericCommand cr fresh args db =
     (if odd (length args) then Some (KArity, db)
      else do {
        (busykeys, db1) \<leftarrow> (if fresh then busy_keys args db else Some (0, db));
        if busykeys \<noteq> 0 then Some (KZero, db1)
        else do {
          db2 \<leftarrow> mset_loop cr args db1;
          Some (if fresh then KOne else KOk, db2\<lparr>kdirty := kdirty db2 + int (length args div 2)\<rparr>) } })"

text \<open>The sum wraps around. \<open>DECRBY\<close> negates the amount first.\<close>

definition incrDecrCommand :: "bool \<Rightarrow> bytes \<Rightarrow> int \<Rightarrow> 's rvalue kdb \<Rightarrow> ('s kreply \<times> 's rvalue kdb) option" where
  "incrDecrCommand cr key incr db = do {
     (r, db1) \<leftarrow> lookupKeyWrite db key;
     (case r of
        Some (_, VString ob) \<Rightarrow> Some (Some (Some ob))
      | None \<Rightarrow> Some (Some None)
      | Some (_, _) \<Rightarrow> Some None) \<bind> (\<lambda>ob.
     case ob of
       None \<Rightarrow> Some (KWrongType, db1)
     | Some ob \<Rightarrow> do {
         v \<leftarrow> getLongLongFromObject ob;
         case v of
           None \<Rightarrow> Some (KNotInteger, db1)
         | Some old \<Rightarrow> do {
             let value = signed_take_bit 63 (old + incr);
             new \<leftarrow> createStringObjectFromLongLong value;
             (added, db2) \<leftarrow> add_or_replace cr db1 key (VString new);
             (_, db3) \<leftarrow> (if added then Some (False, db2) else removeExpire db2 key);
             Some (KInt value, db3\<lparr>kdirty := kdirty db3 + 1\<rparr>) } }) }"

text \<open>A value that is encoded or shared (\<open>refcount\<close>) is copied and replaced first; a number is appended
  as its decimal text.\<close>

definition appendCommand :: "bool \<Rightarrow> bool \<Rightarrow> bytes \<Rightarrow> sobj \<Rightarrow> 's rvalue kdb \<Rightarrow> ('s kreply \<times> 's rvalue kdb) option" where
  "appendCommand cr shared key arg db = do {
     (r, db1) \<leftarrow> lookupKeyWrite db key;
     case r of
       None \<Rightarrow> do {
         (_, d) \<leftarrow> dictAdd cr (kdict db1) key (VString arg);
         n \<leftarrow> stringObjectLen arg;
         Some (KInt (int n), db1\<lparr>kdict := d, kdirty := kdirty db1 + 1\<rparr>) }
     | Some _ \<Rightarrow> do {
         (de, db2) \<leftarrow> lookupKey db1 key;
         (p, v) \<leftarrow> de;
         case v of
           VString ob \<Rightarrow> do {
             t \<leftarrow> getDecodedObject ob;
             a \<leftarrow> (case arg of Raw s \<Rightarrow> Some s | Enc n \<Rightarrow> sdsfromlonglong n);
             let new = VString (Raw (t @ a));
             db3 \<leftarrow> (if \<not> shared \<and> ob = Raw t then Some (db2\<lparr>kdict := set_val p new (kdict db2)\<rparr>)
                    else map_option (\<lambda>(_, d). db2\<lparr>kdict := d\<rparr>) (dictReplace cr (kdict db2) key new));
             Some (KInt (int (length (t @ a))), db3\<lparr>kdirty := kdirty db3 + 1\<rparr>) }
         | _ \<Rightarrow> Some (KWrongType, db2) } }"

definition substr_range :: "int \<Rightarrow> int \<Rightarrow> int \<Rightarrow> (int \<times> int) option" where
  "substr_range len start end' =
     (let start = (if start < 0 then len + start else start);
          end' = (if end' < 0 then len + end' else end');
          start = (if start < 0 then 0 else start);
          end' = (if end' < 0 then 0 else end')
      in if start > end' \<or> start \<ge> len then None
         else Some (start, (if end' \<ge> len then len - 1 else end') - start + 1))"

definition substrCommand :: "int \<Rightarrow> bytes \<Rightarrow> int \<Rightarrow> int \<Rightarrow> 's rvalue kdb \<Rightarrow> ('s kreply \<times> 's rvalue kdb) option" where
  "substrCommand now key start end' db = do {
     (r, db1) \<leftarrow> lookupKeyRead now db key;
     case r of
       None \<Rightarrow> Some (KNull, db1)
     | Some (_, VString ob) \<Rightarrow> do {
         t \<leftarrow> getDecodedObject ob;
         case substr_range (int (length t)) start end' of
           None \<Rightarrow> Some (KNull, db1)
         | Some (s, n) \<Rightarrow> do { range \<leftarrow> peek t (nat s) (nat n); Some (KBulk range, db1) } }
     | Some (_, _) \<Rightarrow> Some (KWrongType, db1) }"

end
