(* ===== verification/Keyspace_Commands.thy ===== *)
theory Keyspace_Commands
  imports Keyspace
begin

text \<open>
  Commands on keys of any type (\<open>apps/redis-2.0.4/redis.c\<close>, lines 4556-4666, 4700-4727, 6836-6841 and
  7458-7505), and the commands on hashes and sorted sets at their key.
\<close>

section \<open>Commands on one database\<close>

fun del_loop :: "bytes list \<Rightarrow> 'v kdb \<Rightarrow> (nat \<times> 'v kdb) option" where
  "del_loop [] db = Some (0, db)"
| "del_loop (key # keys) db = do {
     (b, db1) \<leftarrow> deleteKey db key;
     (n, db2) \<leftarrow> del_loop keys (if b then db1\<lparr>kdirty := kdirty db1 + 1\<rparr> else db1);
     Some (if b then Suc n else n, db2) }"

definition delCommand :: "bytes list \<Rightarrow> 's rvalue kdb \<Rightarrow> ('s kreply \<times> 's rvalue kdb) option" where
  "delCommand keys db = map_option (\<lambda>(n, db'). (KInt (int n), db')) (del_loop keys db)"

definition existsCommand :: "int \<Rightarrow> bytes \<Rightarrow> 's rvalue kdb \<Rightarrow> ('s kreply \<times> 's rvalue kdb) option" where
  "existsCommand now key db = do {
     (_, db1) \<leftarrow> expireIfNeeded now db key;
     (de, d) \<leftarrow> dictFind (kdict db1) key;
     Some (if de \<noteq> None then KOne else KZero, db1\<lparr>kdict := d\<rparr>) }"

text \<open>The names of the types, as byte strings: none, string, list, set, zset, hash.\<close>

definition type_name :: "'s rvalue option \<Rightarrow> bytes" where
  "type_name v =
     (case v of
        None \<Rightarrow> [110, 111, 110, 101]
      | Some (VString ob) \<Rightarrow> [115, 116, 114, 105, 110, 103]
      | Some VList \<Rightarrow> [108, 105, 115, 116]
      | Some VSet \<Rightarrow> [115, 101, 116]
      | Some (VZset zs) \<Rightarrow> [122, 115, 101, 116]
      | Some (VHash h) \<Rightarrow> [104, 97, 115, 104])"

definition typeCommand :: "int \<Rightarrow> bytes \<Rightarrow> 's rvalue kdb \<Rightarrow> ('s kreply \<times> 's rvalue kdb) option" where
  "typeCommand now key db = do {
     (r, db1) \<leftarrow> lookupKeyRead now db key;
     Some (KTypeName (type_name (map_option snd r)), db1) }"

text \<open>\<open>EXPIRE\<close> has the offset 0 and \<open>EXPIREAT\<close> the current time; differences and sums wrap around.\<close>

definition expireGenericCommand ::
  "bool \<Rightarrow> int \<Rightarrow> bytes \<Rightarrow> int \<Rightarrow> int \<Rightarrow> 's rvalue kdb \<Rightarrow> ('s kreply \<times> 's rvalue kdb) option"
where
  "expireGenericCommand cr now key param offset db = do {
     let seconds = signed_take_bit 63 (param - offset);
     (de, d) \<leftarrow> dictFind (kdict db) key;
     let db1 = db\<lparr>kdict := d\<rparr>;
     if de = None then Some (KZero, db1)
     else if seconds \<le> 0 then do {
       (b, db2) \<leftarrow> deleteKey db1 key;
       Some (KOne, if b then db2\<lparr>kdirty := kdirty db2 + 1\<rparr> else db2) }
     else do {
       (b, db2) \<leftarrow> setExpire cr db1 key (signed_take_bit 63 (now + seconds));
       Some (if b then (KOne, db2\<lparr>kdirty := kdirty db2 + 1\<rparr>) else (KZero, db2)) } }"

definition ttlCommand :: "int \<Rightarrow> bytes \<Rightarrow> 's rvalue kdb \<Rightarrow> ('s kreply \<times> 's rvalue kdb) option" where
  "ttlCommand now key db = do {
     (expire, db1) \<leftarrow> getExpire db key;
     let ttl = (if expire \<noteq> - 1 then signed_take_bit 31 (expire - now) else - 1);
     Some (KInt (if ttl < 0 then - 1 else ttl), db1) }"

definition renameGenericCommand ::
  "bool \<Rightarrow> bool \<Rightarrow> bytes \<Rightarrow> bytes \<Rightarrow> 's rvalue kdb \<Rightarrow> ('s kreply \<times> 's rvalue kdb) option"
where
  "renameGenericCommand cr fresh src dst db =
     (if contents_cmp src dst = 0 then Some (KSameObject, db)
      else do {
        (r, db1) \<leftarrow> lookupKeyWrite db src;
        case r of
          None \<Rightarrow> Some (KNoKey, db1)
        | Some (_, v) \<Rightarrow> do {
            (_, db2) \<leftarrow> deleteIfVolatile db1 dst;
            (retval, d) \<leftarrow> dictAdd cr (kdict db2) dst v;
            let db3 = db2\<lparr>kdict := d\<rparr>;
            if retval = DICT_ERR \<and> fresh then Some (KZero, db3)
            else do {
              db4 \<leftarrow> (if retval = DICT_ERR then map_option (\<lambda>(_, d). db3\<lparr>kdict := d\<rparr>) (dictReplace cr (kdict db3) dst v)
                     else Some db3);
              (_, db5) \<leftarrow> deleteKey db4 src;
              Some (if fresh then KOne else KOk, db5\<lparr>kdirty := kdirty db5 + 1\<rparr>) } } })"

definition dbsizeCommand :: "'s rvalue kdb \<Rightarrow> ('s kreply \<times> 's rvalue kdb) option" where
  "dbsizeCommand db = Some (KInt (int (dictSize (kdict db))), db)"

definition flushdbCommand :: "'s rvalue kdb \<Rightarrow> ('s kreply \<times> 's rvalue kdb) option" where
  "flushdbCommand db =
     Some (KOk, db\<lparr>kdirty := kdirty db + int (dictSize (kdict db)), kdict := dictEmpty (kdict db),
       kexpires := dictEmpty (kexpires db)\<rparr>)"

section \<open>Hashes and sorted sets at their key\<close>

definition hash_view :: "'s rvalue option \<Rightarrow> hvalue option" where
  "hash_view v = map_option (\<lambda>v. case v of VHash h \<Rightarrow> HashVal h | _ \<Rightarrow> OtherVal) v"

definition zset_view :: "'s rvalue option \<Rightarrow> 's zvalue option" where
  "zset_view v = map_option (\<lambda>v. case v of VZset zs \<Rightarrow> ZsetVal zs | _ \<Rightarrow> OtherType) v"

text \<open>An object is changed in place, a new one added by \<open>dictAdd\<close>, and an empty one deleted with its key.\<close>

definition store_value :: "bool \<Rightarrow> bytes \<Rightarrow> (bool \<times> nat \<times> nat) option \<Rightarrow> 'v option \<Rightarrow> 'v kdb \<Rightarrow> 'v kdb option" where
  "store_value cr key pos new db =
     (case (pos, new) of
        (None, None) \<Rightarrow> Some db
      | (None, Some v) \<Rightarrow> map_option (\<lambda>(_, d). db\<lparr>kdict := d\<rparr>) (dictAdd cr (kdict db) key v)
      | (Some p, Some v) \<Rightarrow> Some (db\<lparr>kdict := set_val p v (kdict db)\<rparr>)
      | (Some p, None) \<Rightarrow> map_option snd (deleteKey db key))"

definition hash_reads :: "hcmd \<Rightarrow> bool" where
  "hash_reads c = (case c of HGet k \<Rightarrow> True | HMGet ks \<Rightarrow> True | HLen \<Rightarrow> True | HGetAll a b \<Rightarrow> True | HExists k \<Rightarrow> True | _ \<Rightarrow> False)"

definition zset_reads :: "'s zcmd \<Rightarrow> bool" where
  "zset_reads c =
     (case c of ZRange a b i j \<Rightarrow> True | ZRangeByScore a mn b mx d e i j \<Rightarrow> True | ZCard \<Rightarrow> True | ZScore ob \<Rightarrow> True
      | ZRank a ob \<Rightarrow> True | _ \<Rightarrow> False)"

definition lookup_for :: "bool \<Rightarrow> int \<Rightarrow> 'v kdb \<Rightarrow> bytes \<Rightarrow> (((bool \<times> nat \<times> nat) \<times> 'v) option \<times> 'v kdb) option" where
  "lookup_for reads now db key = (if reads then lookupKeyRead now db key else lookupKeyWrite db key)"

definition hashCommand ::
  "bool \<Rightarrow> henv \<Rightarrow> int \<Rightarrow> bytes \<Rightarrow> hcmd \<Rightarrow> 's rvalue kdb \<Rightarrow> ('s kreply \<times> 's rvalue kdb) option"
where
  "hashCommand cr env now key c db =
     (if (case c of HMSet args \<Rightarrow> odd (length args) | _ \<Rightarrow> False) then Some (KHash HArity, db)
      else do {
        (r, db1) \<leftarrow> lookup_for (hash_reads c) now db key;
        (reply, v, n) \<leftarrow> hexec env c (hash_view (map_option snd r));
        db2 \<leftarrow> (case v of
                  None \<Rightarrow> store_value cr key (map_option fst r) None db1
                | Some OtherVal \<Rightarrow> Some db1
                | Some (HashVal h) \<Rightarrow> store_value cr key (map_option fst r) (Some (VHash h)) db1);
        Some (KHash reply, db2\<lparr>kdirty := kdirty db2 + n\<rparr>) })"

definition zsetCommand ::
  "bool \<Rightarrow> 's::{linorder, zero} zenv \<Rightarrow> int \<Rightarrow> bytes \<Rightarrow> 's zcmd \<Rightarrow> 's rvalue kdb \<Rightarrow> ('s kreply \<times> 's rvalue kdb) option"
where
  "zsetCommand cr env now key c db = do {
     (r, db1) \<leftarrow> lookup_for (zset_reads c) now db key;
     (reply, v, n) \<leftarrow> zexec env c (zset_view (map_option snd r));
     db2 \<leftarrow> (case v of
               None \<Rightarrow> store_value cr key (map_option fst r) None db1
             | Some OtherType \<Rightarrow> Some db1
             | Some (ZsetVal zs) \<Rightarrow> store_value cr key (map_option fst r) (Some (VZset zs)) db1);
     Some (KZset reply, db2\<lparr>kdirty := kdirty db2 + n\<rparr>) }"

section \<open>All commands on a database\<close>

text \<open>The first argument of \<open>CSet\<close>, \<open>CMSet\<close> and \<open>CRename\<close> tells the variant that does not overwrite,
  that of \<open>CAppend\<close> whether the value is shared; \<open>CExpire\<close> has the offset last.\<close>

datatype 's kcmd =
    CSet bool bytes sobj "int option" | CGet bytes | CGetSet bytes sobj | CMGet "bytes list" | CMSet bool "bytes list"
  | CIncrBy bytes int | CAppend bool bytes sobj | CSubstr bytes int int
  | CDel "bytes list" | CExists bytes | CType bytes | CExpire bytes int int | CTtl bytes | CRename bool bytes bytes
  | CDbSize | CFlushDb | CHash bytes hcmd | CZset bytes "'s zcmd"

record 's kenv =
  key_can_resize :: bool
  hash_env :: henv
  zset_env :: "'s zenv"

fun kexec :: "'s::{linorder, zero} kenv \<Rightarrow> int \<Rightarrow> 's kcmd \<Rightarrow> 's rvalue kdb \<Rightarrow> ('s kreply \<times> 's rvalue kdb) option" where
  "kexec env now (CSet fresh key val expire) = setGenericCommand (key_can_resize env) now fresh key val expire"
| "kexec env now (CGet key) = getGenericCommand now key"
| "kexec env now (CGetSet key val) = getsetCommand (key_can_resize env) now key val"
| "kexec env now (CMGet keys) = mgetCommand now keys"
| "kexec env now (CMSet fresh args) = msetGenericCommand (key_can_resize env) fresh args"
| "kexec env now (CIncrBy key i) = incrDecrCommand (key_can_resize env) key i"
| "kexec env now (CAppend shared key val) = appendCommand (key_can_resize env) shared key val"
| "kexec env now (CSubstr key a b) = substrCommand now key a b"
| "kexec env now (CDel keys) = delCommand keys"
| "kexec env now (CExists key) = existsCommand now key"
| "kexec env now (CType key) = typeCommand now key"
| "kexec env now (CExpire key param offset) = expireGenericCommand (key_can_resize env) now key param offset"
| "kexec env now (CTtl key) = ttlCommand now key"
| "kexec env now (CRename fresh src dst) = renameGenericCommand (key_can_resize env) fresh src dst"
| "kexec env now CDbSize = dbsizeCommand"
| "kexec env now CFlushDb = flushdbCommand"
| "kexec env now (CHash key c) = hashCommand (key_can_resize env) (hash_env env) now key c"
| "kexec env now (CZset key c) = zsetCommand (key_can_resize env) (zset_env env) now key c"

end
