(* ===== verification/Keyspace_Rep.thy ===== *)
theory Keyspace_Rep
  imports Keyspace_Commands
begin

text \<open>
  What a database represents: a map from keys to values and a map from some of the keys to their
  deadlines. The lookups, expirations and deletions of the code are functions on these maps, in
  whatever state of rehashing the two tables are.
\<close>

section \<open>Maps of keys\<close>

record 'a kstate =
  vals :: "bytes \<Rightarrow> 'a option"
  deadline :: "bytes \<Rightarrow> int option"
  changes :: int
  gone :: int

definition a_remove :: "bytes \<Rightarrow> 'a kstate \<Rightarrow> 'a kstate" where
  "a_remove k ks = ks\<lparr>vals := (vals ks)(k := None), deadline := (deadline ks)(k := None)\<rparr>"

definition overdue :: "int \<Rightarrow> 'a kstate \<Rightarrow> bytes \<Rightarrow> bool" where
  "overdue now ks k \<longleftrightarrow> (case deadline ks k of None \<Rightarrow> False | Some t \<Rightarrow> t < now)"

definition a_expire :: "int \<Rightarrow> bytes \<Rightarrow> 'a kstate \<Rightarrow> 'a kstate" where
  "a_expire now k ks = (if overdue now ks k then (a_remove k ks)\<lparr>gone := gone ks + 1\<rparr> else ks)"

definition a_volatile :: "bytes \<Rightarrow> 'a kstate \<Rightarrow> 'a kstate" where
  "a_volatile k ks =
     (if deadline ks k \<noteq> None then (a_remove k ks)\<lparr>changes := changes ks + 1, gone := gone ks + 1\<rparr> else ks)"

definition a_put :: "bytes \<Rightarrow> 'a \<Rightarrow> 'a kstate \<Rightarrow> 'a kstate" where
  "a_put k v ks = ks\<lparr>vals := (vals ks)(k \<mapsto> v)\<rparr>"

definition a_persist :: "bytes \<Rightarrow> 'a kstate \<Rightarrow> 'a kstate" where
  "a_persist k ks = ks\<lparr>deadline := (deadline ks)(k := None)\<rparr>"

definition a_deadline :: "bytes \<Rightarrow> int \<Rightarrow> 'a kstate \<Rightarrow> 'a kstate" where
  "a_deadline k t ks = ks\<lparr>deadline := (deadline ks)(k \<mapsto> t)\<rparr>"

definition a_touch :: "int \<Rightarrow> 'a kstate \<Rightarrow> 'a kstate" where
  "a_touch n ks = ks\<lparr>changes := changes ks + n\<rparr>"

lemmas a_defs = a_remove_def a_expire_def a_volatile_def a_put_def a_persist_def a_deadline_def a_touch_def

lemma a_simps [simp]:
  "vals (a_remove k ks) = (vals ks)(k := None)" "deadline (a_remove k ks) = (deadline ks)(k := None)"
  "vals (a_put k v ks) = (vals ks)(k \<mapsto> v)" "deadline (a_put k v ks) = deadline ks"
  "vals (a_persist k ks) = vals ks" "deadline (a_persist k ks) = (deadline ks)(k := None)"
  "vals (a_deadline k t ks) = vals ks" "deadline (a_deadline k t ks) = (deadline ks)(k \<mapsto> t)"
  "vals (a_touch n ks) = vals ks" "deadline (a_touch n ks) = deadline ks"
  "deadline (a_volatile k ks) k = None"
  "changes (a_remove k ks) = changes ks" "changes (a_put k v ks) = changes ks" "changes (a_persist k ks) = changes ks"
  "changes (a_deadline k t ks) = changes ks" "changes (a_touch n ks) = changes ks + n" "changes (a_expire now k ks) = changes ks"
  "gone (a_remove k ks) = gone ks" "gone (a_put k v ks) = gone ks" "gone (a_persist k ks) = gone ks"
  "gone (a_deadline k t ks) = gone ks" "gone (a_touch n ks) = gone ks"
  by (simp_all add: a_defs)

section \<open>Representation\<close>

definition krep :: "'v kdb \<Rightarrow> 'v kstate \<Rightarrow> bool" where
  "krep db ks \<longleftrightarrow> dict_rep (kdict db) (vals ks) \<and> dict_rep (kexpires db) (deadline ks) \<and>
     dom (deadline ks) \<subseteq> dom (vals ks) \<and> kdirty db = changes ks \<and> kexpired db = gone ks"

lemma krepD:
  assumes "krep db ks"
  shows "dict_rep (kdict db) (vals ks)" "dict_rep (kexpires db) (deadline ks)" "dom (deadline ks) \<subseteq> dom (vals ks)"
    "kdirty db = changes ks" "kexpired db = gone ks" "finite (dom (vals ks))"
    "dictSize (kdict db) = card (dom (vals ks))" "dictSize (kexpires db) \<le> card (dom (vals ks))"
    "vals ks k = None \<Longrightarrow> deadline ks k = None"
proof -
  show *: "dict_rep (kdict db) (vals ks)" "dict_rep (kexpires db) (deadline ks)" "dom (deadline ks) \<subseteq> dom (vals ks)"
    "kdirty db = changes ks" "kexpired db = gone ks"
    using assms by (simp_all add: krep_def)
  show f: "finite (dom (vals ks))" using dict_repD(2) [OF *(1)] .
  show "dictSize (kdict db) = card (dom (vals ks))" using dict_repD(5) [OF *(1)] .
  show "dictSize (kexpires db) \<le> card (dom (vals ks))"
    using dict_repD(5) [OF *(2)] card_mono [OF f *(3)] by simp
  show "vals ks k = None \<Longrightarrow> deadline ks k = None" using *(3) by blast
qed

lemma dictDelete_rep:
  "dict_rep d m \<Longrightarrow> \<exists>d'. dictDelete d key = Some (if m key = None then DICT_ERR else DICT_OK, d') \<and> dict_rep d' (m(key := None))"
  using dictGenericDelete_rep [of d m key False] by (simp add: dictDelete_def)

lemma lookupKey_ok:
  assumes "krep db ks"
  obtains r db' where "lookupKey db k = Some (r, db')" "krep db' ks" "map_option snd r = vals ks k"
    "\<forall>p v. r = Some (p, v) \<longrightarrow> pos_ok (kdict db') p k v"
proof -
  note K = krepD [OF assms]
  from dictFind_rep [OF K(1), of k] obtain de d where f: "dictFind (kdict db) k = Some (de, d)" "dict_rep d (vals ks)"
    "case vals ks k of None \<Rightarrow> de = None | Some v \<Rightarrow> \<exists>p. de = Some p \<and> pos_ok d p k v" by blast
  let ?r = "map_option (\<lambda>p. (p, snd (entry_at d p))) de"
  have r: "lookupKey db k = Some (?r, db\<lparr>kdict := d\<rparr>)" by (simp add: lookupKey_def f(1))
  have k: "krep (db\<lparr>kdict := d\<rparr>) ks" using assms f(2) by (simp add: krep_def)
  show ?thesis
  proof (cases "vals ks k")
    case None
    then show ?thesis using that [OF r k] f(3) by simp
  next
    case (Some v)
    then obtain p where p: "de = Some p" "pos_ok d p k v" using f(3) by auto
    have "snd (entry_at d p) = v" using set_val_ok(6) [OF dict_repD(1) [OF f(2)] p(2)] .
    then show ?thesis using that [OF r k] p Some by simp
  qed
qed

lemma find_expire_ok:
  assumes "krep db ks"
  obtains db' where "find_expire db k = Some (deadline ks k, db')" "krep db' ks"
proof -
  note K = krepD [OF assms]
  show ?thesis
  proof (cases "dictSize (kexpires db) = 0")
    case True
    then have "deadline ks = (\<lambda>_. None)"
      using dict_repD(2,5) [OF K(2)] by (simp add: dom_eq_empty_conv [symmetric] del: dom_eq_empty_conv)
    then show ?thesis using that [of db] True assms by (simp add: find_expire_def)
  next
    case False
    from dictFind_rep [OF K(2), of k] obtain de ex where f: "dictFind (kexpires db) k = Some (de, ex)"
      "dict_rep ex (deadline ks)"
      "case deadline ks k of None \<Rightarrow> de = None | Some v \<Rightarrow> \<exists>p. de = Some p \<and> pos_ok ex p k v" by blast
    have "map_option (\<lambda>p. snd (entry_at ex p)) de = deadline ks k"
      using f(3) set_val_ok(6) [OF dict_repD(1) [OF f(2)]] by (cases "deadline ks k") auto
    moreover have "krep (db\<lparr>kexpires := ex\<rparr>) ks" using assms f(2) by (simp add: krep_def)
    ultimately show ?thesis using that False f(1) by (simp add: find_expire_def)
  qed
qed

text \<open>Deleting an entry in both tables.\<close>

lemma delete_both:
  assumes "krep db ks"
  obtains ex d r where "dictDelete (kexpires db) k = Some (if deadline ks k = None then DICT_ERR else DICT_OK, ex)"
    "dictDelete (kdict db) k = Some (if vals ks k = None then DICT_ERR else DICT_OK, d)"
    "krep (db\<lparr>kdict := d, kexpires := ex\<rparr>) (a_remove k ks)"
proof -
  note K = krepD [OF assms]
  from dictDelete_rep [OF K(2), of k] obtain ex where
    ex: "dictDelete (kexpires db) k = Some (if deadline ks k = None then DICT_ERR else DICT_OK, ex)"
      "dict_rep ex ((deadline ks)(k := None))" by blast
  from dictDelete_rep [OF K(1), of k] obtain d where
    d: "dictDelete (kdict db) k = Some (if vals ks k = None then DICT_ERR else DICT_OK, d)"
      "dict_rep d ((vals ks)(k := None))" by blast
  have "krep (db\<lparr>kdict := d, kexpires := ex\<rparr>) (a_remove k ks)" using assms ex(2) d(2) by (auto simp: krep_def)
  with that ex(1) d(1) show ?thesis by blast
qed

lemma dict_codes: "DICT_ERR \<noteq> DICT_OK" "DICT_OK \<noteq> DICT_ERR"
  by (simp_all add: DICT_ERR_def DICT_OK_def)

lemma deleteKey_ok:
  assumes "krep db ks"
  obtains db' where "deleteKey db k = Some (vals ks k \<noteq> None, db')" "krep db' (a_remove k ks)"
proof -
  note K = krepD [OF assms]
  from delete_both [OF assms, of k] obtain ex d where D:
    "dictDelete (kexpires db) k = Some (if deadline ks k = None then DICT_ERR else DICT_OK, ex)"
    "dictDelete (kdict db) k = Some (if vals ks k = None then DICT_ERR else DICT_OK, d)"
    "krep (db\<lparr>kdict := d, kexpires := ex\<rparr>) (a_remove k ks)" by blast
  show ?thesis
  proof (cases "dictSize (kexpires db) = 0")
    case True
    then have e: "deadline ks = (\<lambda>_. None)"
      using dict_repD(2,5) [OF K(2)] by (simp add: dom_eq_empty_conv [symmetric] del: dom_eq_empty_conv)
    have "krep (db\<lparr>kdict := d\<rparr>) (a_remove k ks)" using D(3) K(2) e by (simp add: krep_def)
    then show ?thesis using that [of "db\<lparr>kdict := d, kexpires := kexpires db\<rparr>"] True D(2) dict_codes by (simp add: deleteKey_def)
  next
    case False
    then show ?thesis using that [OF _ D(3)] D(1,2) dict_codes by (simp add: deleteKey_def)
  qed
qed

lemma expireIfNeeded_ok:
  assumes "krep db ks"
  obtains db' where "expireIfNeeded now db k = Some (overdue now ks k, db')" "krep db' (a_expire now k ks)"
proof -
  obtain db1 where f: "find_expire db k = Some (deadline ks k, db1)" "krep db1 ks" by (rule find_expire_ok [OF assms])
  show ?thesis
  proof (cases "overdue now ks k")
    case False
    then show ?thesis
      using that [of db1] f by (auto simp: expireIfNeeded_def overdue_def a_expire_def split: option.splits)
  next
    case True
    then obtain t where t: "deadline ks k = Some t" "t < now" by (auto simp: overdue_def split: option.splits)
    then have v: "vals ks k \<noteq> None" using krepD(9) [OF f(2), of k] by auto
    from delete_both [OF f(2), of k] obtain ex d where D:
      "dictDelete (kexpires db1) k = Some (DICT_OK, ex)" "dictDelete (kdict db1) k = Some (DICT_OK, d)"
      "krep (db1\<lparr>kdict := d, kexpires := ex\<rparr>) (a_remove k ks)" using t(1) v by auto
    have "krep (db1\<lparr>kdict := d, kexpires := ex, kexpired := kexpired db1 + 1\<rparr>) (a_expire now k ks)"
      using D(3) True krepD(5) [OF f(2)] by (simp add: krep_def a_expire_def)
    then show ?thesis using that f(1) t D(1,2) True by (simp add: expireIfNeeded_def)
  qed
qed

lemma deleteIfVolatile_ok:
  assumes "krep db ks"
  obtains b db' where "deleteIfVolatile db k = Some (b, db')" "krep db' (a_volatile k ks)"
proof -
  obtain db1 where f: "find_expire db k = Some (deadline ks k, db1)" "krep db1 ks" by (rule find_expire_ok [OF assms])
  show ?thesis
  proof (cases "deadline ks k")
    case None
    then show ?thesis using that [of False db1] f by (simp add: deleteIfVolatile_def a_volatile_def)
  next
    case (Some t)
    from delete_both [OF f(2), of k] obtain ex d where D:
      "dictDelete (kexpires db1) k = Some (if deadline ks k = None then DICT_ERR else DICT_OK, ex)"
      "dictDelete (kdict db1) k = Some (if vals ks k = None then DICT_ERR else DICT_OK, d)"
      "krep (db1\<lparr>kdict := d, kexpires := ex\<rparr>) (a_remove k ks)" by blast
    have "krep (db1\<lparr>kdict := d, kexpires := ex, kdirty := kdirty db1 + 1, kexpired := kexpired db1 + 1\<rparr>) (a_volatile k ks)"
      using D(3) Some krepD(4,5) [OF f(2)] by (simp add: krep_def a_volatile_def)
    then show ?thesis using that f(1) Some D(1,2) by (simp add: deleteIfVolatile_def)
  qed
qed

lemma removeExpire_ok:
  assumes "krep db ks"
  obtains b db' where "removeExpire db k = Some (b, db')" "krep db' (a_persist k ks)"
proof -
  from dictDelete_rep [OF krepD(2) [OF assms], of k] obtain ex r where
    "dictDelete (kexpires db) k = Some (r, ex)" "dict_rep ex ((deadline ks)(k := None))" by blast
  then show ?thesis using that [of "r = DICT_OK" "db\<lparr>kexpires := ex\<rparr>"] assms by (force simp: removeExpire_def krep_def)
qed

lemma setExpire_ok:
  assumes "krep db ks" "vals ks k \<noteq> None" "card (dom (vals ks)) < 2 ^ 29"
  obtains db' where "setExpire cr db k t = Some (deadline ks k = None, db')"
    "krep db' (if deadline ks k = None then a_deadline k t ks else ks)"
proof -
  have "dictSize (kexpires db) < 2 ^ 29" using krepD(8) [OF assms(1)] assms(3) by simp
  from dictAdd_rep [OF krepD(2) [OF assms(1)] this, of cr k t] obtain ex where a:
    "dictAdd cr (kexpires db) k t = Some (if deadline ks k = None then DICT_OK else DICT_ERR, ex)"
    "dict_rep ex (if deadline ks k = None then (deadline ks)(k \<mapsto> t) else deadline ks)" by blast
  have "krep (db\<lparr>kexpires := ex\<rparr>) (if deadline ks k = None then a_deadline k t ks else ks)"
    using assms(1,2) a(2) by (auto simp: krep_def)
  then show ?thesis using that a(1) dict_codes by (simp add: setExpire_def)
qed

lemma kadd_ok:
  assumes "krep db ks" "card (dom (vals ks)) < 2 ^ 29"
  obtains d where "dictAdd cr (kdict db) k v = Some (if vals ks k = None then DICT_OK else DICT_ERR, d)"
    "krep (db\<lparr>kdict := d\<rparr>) (if vals ks k = None then a_put k v ks else ks)"
proof -
  have "dictSize (kdict db) < 2 ^ 29" using krepD(7) [OF assms(1)] assms(2) by simp
  from dictAdd_rep [OF krepD(1) [OF assms(1)] this, of cr k v] obtain d where a:
    "dictAdd cr (kdict db) k v = Some (if vals ks k = None then DICT_OK else DICT_ERR, d)"
    "dict_rep d (if vals ks k = None then (vals ks)(k \<mapsto> v) else vals ks)" by blast
  have "krep (db\<lparr>kdict := d\<rparr>) (if vals ks k = None then a_put k v ks else ks)"
    using assms(1) a(2) by (auto simp: krep_def)
  then show ?thesis using that a(1) by blast
qed

lemma kreplace_ok:
  assumes "krep db ks" "card (dom (vals ks)) < 2 ^ 29"
  obtains r d where "dictReplace cr (kdict db) k v = Some (r, d)" "krep (db\<lparr>kdict := d\<rparr>) (a_put k v ks)"
proof -
  have "dictSize (kdict db) < 2 ^ 29" using krepD(7) [OF assms(1)] assms(2) by simp
  from dictReplace_rep [OF krepD(1) [OF assms(1)] this, of cr k v] obtain r d where a:
    "dictReplace cr (kdict db) k v = Some (r, d)" "dict_rep d ((vals ks)(k \<mapsto> v))" by blast
  have "krep (db\<lparr>kdict := d\<rparr>) (a_put k v ks)" using assms(1) a(2) by (auto simp: krep_def)
  then show ?thesis using that a(1) by blast
qed

lemma kset_ok:
  assumes "krep db ks" "pos_ok (kdict db) p k v0" "vals ks k = Some v0"
  shows "krep (db\<lparr>kdict := set_val p v (kdict db)\<rparr>) (a_put k v ks)"
proof -
  note K = krepD [OF assms(1)]
  note rep = dict_repD [OF K(1)]
  note sv = set_val_ok [OF rep(1) assms(2)]
  have m: "(vals ks)(k \<mapsto> v0) = vals ks" using assms(3) by auto
  have "entries (kdict db) = add_mset (k, v0) (mset_set (Map.graph ((vals ks)(k := None))))"
    using graph_split [OF rep(2), of k v0] rep(3) m by simp
  then have "entries (set_val p v (kdict db)) = mset_set (Map.graph ((vals ks)(k \<mapsto> v)))"
    using sv(2) [of v] graph_split [OF rep(2), of k v] by simp
  then have "dict_rep (set_val p v (kdict db)) ((vals ks)(k \<mapsto> v))"
    using sv(1) rep(2) by (simp add: dict_rep_def)
  then show ?thesis using assms(1) by (auto simp: krep_def)
qed

lemma add_or_replace_ok:
  assumes "krep db ks" "card (dom (vals ks)) < 2 ^ 29"
  obtains db' where "add_or_replace cr db k v = Some (vals ks k = None, db')" "krep db' (a_put k v ks)"
proof -
  obtain d where a: "dictAdd cr (kdict db) k v = Some (if vals ks k = None then DICT_OK else DICT_ERR, d)"
    "krep (db\<lparr>kdict := d\<rparr>) (if vals ks k = None then a_put k v ks else ks)" by (rule kadd_ok [OF assms])
  show ?thesis
  proof (cases "vals ks k = None")
    case True
    then show ?thesis using that [of "db\<lparr>kdict := d\<rparr>"] a dict_codes by (simp add: add_or_replace_def)
  next
    case False
    have "krep (db\<lparr>kdict := d\<rparr>) ks" using a(2) by (simp only: if_not_P [OF False])
    then obtain r d' where "dictReplace cr (kdict (db\<lparr>kdict := d\<rparr>)) k v = Some (r, d')"
      "krep (db\<lparr>kdict := d, kdict := d'\<rparr>) (a_put k v ks)" by (rule kreplace_ok [OF _ assms(2)])
    then show ?thesis using that [of "db\<lparr>kdict := d'\<rparr>"] a(1) False by (simp add: add_or_replace_def)
  qed
qed

end
