(* ===== verification/Hash_Object_Spec.thy ===== *)
theory Hash_Object_Spec
  imports Hash_Object Kv_Store
begin

text \<open>
  The hash object against its specification, a map from byte strings to byte strings: zipmap and hash
  table both represent such a map, the conversion keeps it, and the commands answer from it.
\<close>

section \<open>What a hash represents\<close>

definition texts_of :: "(bytes \<Rightarrow> sobj option) \<Rightarrow> bytes \<Rightarrow> bytes option" where
  "texts_of dm = (\<lambda>k. map_option text_of (dm k))"

definition tab_rep :: "(bytes, sobj) dict \<Rightarrow> (bytes \<Rightarrow> bytes option) \<Rightarrow> bool" where
  "tab_rep d m \<longleftrightarrow> (\<exists>dm. dict_rep d dm \<and> (\<forall>v \<in> ran dm. sobj_ok v) \<and> m = texts_of dm)"

text \<open>The size a hash has: bytes of a zipmap, entries of a table.\<close>

definition hash_extent :: "hobj \<Rightarrow> nat" where
  "hash_extent h = (case h of HZip zm \<Rightarrow> length zm | HTab d \<Rightarrow> dictSize d)"

definition hash_rep :: "hobj \<Rightarrow> (bytes \<Rightarrow> bytes option) \<Rightarrow> bool" where
  "hash_rep h m \<longleftrightarrow> (case h of HZip zm \<Rightarrow> zm_store zm m | HTab d \<Rightarrow> tab_rep d m) \<and> hash_extent h < 2 ^ 29"

text \<open>A bound of what setting a field adds to the size.\<close>

definition field_cost :: "bytes \<Rightarrow> bytes \<Rightarrow> nat" where
  "field_cost k v = length k + length v + 11"

lemma hash_rep_simps [simp]:
  "hash_rep (HZip zm) m \<longleftrightarrow> zm_store zm m \<and> length zm < 2 ^ 29"
  "hash_rep (HTab d) m \<longleftrightarrow> tab_rep d m \<and> dictSize d < 2 ^ 29"
  "hash_extent (HZip zm) = length zm" "hash_extent (HTab d) = dictSize d"
  by (simp_all add: hash_rep_def hash_extent_def)

lemma entry_cost_le: "entry_cost k v \<le> field_cost k v"
  by (simp add: entry_cost_def field_cost_def length_enc ZIPMAP_LEN_BYTES_def)

section \<open>The table\<close>

lemma texts_of_simps [simp]:
  "texts_of (dm(k \<mapsto> v)) = (texts_of dm)(k \<mapsto> text_of v)"
  "texts_of (dm(k := None)) = (texts_of dm)(k := None)"
  "texts_of (\<lambda>_. None) = (\<lambda>_. None)"
  "texts_of dm k = None \<longleftrightarrow> dm k = None"
  "dom (texts_of dm) = dom dm"
  by (auto simp: texts_of_def fun_eq_iff)

lemma tab_repE:
  assumes "tab_rep d m"
  obtains dm where "dict_rep d dm" "\<forall>v \<in> ran dm. sobj_ok v" "m = texts_of dm"
  using assms by (auto simp: tab_rep_def)

lemma tab_repI: "dict_rep d dm \<Longrightarrow> \<forall>v \<in> ran dm. sobj_ok v \<Longrightarrow> texts_of dm = m \<Longrightarrow> tab_rep d m"
  by (auto simp: tab_rep_def)

lemma tab_size: "tab_rep d m \<Longrightarrow> dictSize d = card (dom m)" "tab_rep d m \<Longrightarrow> finite (dom m)"
  using dict_repD(2,5) by (auto simp: tab_rep_def)

lemma ran_upd: "\<forall>v \<in> ran dm. sobj_ok v \<Longrightarrow> sobj_ok w \<Longrightarrow> \<forall>v \<in> ran (dm(k \<mapsto> w)). sobj_ok v"
  "\<forall>v \<in> ran dm. sobj_ok v \<Longrightarrow> \<forall>v \<in> ran (dm(k := None)). sobj_ok v"
  by (auto simp: ran_def split: if_splits)

lemma tab_add:
  assumes "tab_rep d m" "m k = None" "sobj_ok v" "dictSize d < 2 ^ 29"
  shows "\<exists>d'. dictAdd cr d k v = Some (DICT_OK, d') \<and> tab_rep d' (m(k \<mapsto> text_of v))"
proof -
  from assms(1) obtain dm where dm: "dict_rep d dm" "\<forall>v \<in> ran dm. sobj_ok v" "m = texts_of dm"
    by (rule tab_repE)
  have "dm k = None" using assms(2) dm(3) by simp
  with dictAdd_rep [OF dm(1) assms(4), of cr k v] obtain d' where
    "dictAdd cr d k v = Some (DICT_OK, d')" "dict_rep d' (dm(k \<mapsto> v))" by auto
  then show ?thesis using tab_repI ran_upd(1) [OF dm(2) assms(3)] dm(3) by fastforce
qed

lemma tab_find:
  assumes "tab_rep d m"
  obtains de d' where "dictFind d k = Some (de, d')" "tab_rep d' m" "dictSize d' = dictSize d"
    "de = None \<longleftrightarrow> m k = None"
    "\<forall>p. de = Some p \<longrightarrow> sobj_ok (snd (entry_at d' p)) \<and> m k = Some (text_of (snd (entry_at d' p)))"
proof -
  from assms obtain dm where dm: "dict_rep d dm" "\<forall>v \<in> ran dm. sobj_ok v" "m = texts_of dm"
    by (rule tab_repE)
  from dictFind_rep [OF dm(1), of k] obtain de d' where f: "dictFind d k = Some (de, d')" "dict_rep d' dm"
    "case dm k of None \<Rightarrow> de = None | Some v \<Rightarrow> \<exists>p. de = Some p \<and> pos_ok d' p k v" by blast
  have t: "tab_rep d' m" using f(2) dm(2,3) by (auto intro: tab_repI)
  have sz: "dictSize d' = dictSize d" using tab_size(1) [OF t] tab_size(1) [OF assms] by simp
  show ?thesis
  proof (cases "dm k")
    case None
    then show ?thesis using that [OF f(1) t sz] f(3) dm(3) by simp
  next
    case (Some v)
    then obtain p where p: "de = Some p" "pos_ok d' p k v" using f(3) by auto
    have "snd (entry_at d' p) = v" using set_val_ok(6) [OF dict_repD(1) [OF f(2)] p(2)] .
    moreover have "sobj_ok v" using dm(2) Some by (auto simp: ran_def)
    ultimately show ?thesis
      using that [OF f(1) t sz] p(1) Some dm(3) by (simp add: texts_of_def)
  qed
qed

lemma tab_replace:
  assumes "tab_rep d m" "sobj_ok v" "dictSize d < 2 ^ 29"
  shows "\<exists>d'. dictReplace cr d k v = Some (if m k = None then 1 else 0, d') \<and> tab_rep d' (m(k \<mapsto> text_of v))"
proof -
  from assms(1) obtain dm where dm: "dict_rep d dm" "\<forall>v \<in> ran dm. sobj_ok v" "m = texts_of dm"
    by (rule tab_repE)
  have e: "m k = None \<longleftrightarrow> dm k = None" using dm(3) by simp
  from dictReplace_rep [OF dm(1) assms(3), of cr k v] obtain d' where
    "dictReplace cr d k v = Some (if dm k = None then 1 else 0, d')" "dict_rep d' (dm(k \<mapsto> v))" by blast
  then show ?thesis
    unfolding e using tab_repI ran_upd(1) [OF dm(2) assms(2)] dm(3) by fastforce
qed

lemma tab_delete:
  assumes "tab_rep d m"
  shows "\<exists>d'. dictDelete d k = Some (if m k = None then DICT_ERR else DICT_OK, d') \<and> tab_rep d' (m(k := None))"
proof -
  from assms obtain dm where dm: "dict_rep d dm" "\<forall>v \<in> ran dm. sobj_ok v" "m = texts_of dm"
    by (rule tab_repE)
  have e: "m k = None \<longleftrightarrow> dm k = None" using dm(3) by simp
  from dictGenericDelete_rep [OF dm(1), of k False] obtain d' where
    "dictDelete d k = Some (if dm k = None then DICT_ERR else DICT_OK, d')" "dict_rep d' (dm(k := None))"
    unfolding dictDelete_def by blast
  then show ?thesis unfolding e using tab_repI ran_upd(2) [OF dm(2)] dm(3) by fastforce
qed

lemma tab_resize: "tab_rep d m \<Longrightarrow> dictSize d < 2 ^ 29 \<Longrightarrow> tab_rep (snd (dictResize cr d)) m"
  using dictResize_rep by (fastforce simp: tab_rep_def)

section \<open>Conversion\<close>

lemma convert_zipmap_ok:
  assumes "zipmap_pairs zm p = Some ps" "tab_rep d m" "distinct (map fst ps)" "fst ` set ps \<inter> dom m = {}"
    "\<forall>(k, v) \<in> set ps. length k < 2 ^ 31 \<and> length v < 2 ^ 31" "dictSize d + length ps < 2 ^ 29"
  shows "\<exists>d'. convert_zipmap cr zm p d = Some d' \<and> tab_rep d' (m ++ map_of ps) \<and> dictSize d' = dictSize d + length ps"
  using assms
proof (induction ps arbitrary: p d m)
  case Nil
  then show ?case by (subst convert_zipmap.simps) (simp add: zipmap_pairs_Nil)
next
  case (Cons x ps)
  obtain k v where x: "x = (k, v)" by (cases x)
  obtain p' where p': "zipmapNext zm p = Some (Some (p', k, v))" "zipmap_pairs zm p' = Some ps"
    using Cons.prems(1) x by (auto elim: zipmap_pairs_Cons)
  obtain k' where k': "tryObjectEncoding 1 (Raw k) = Some k'" "sobj_ok k'" "text_of k' = k"
    using tryObjectEncoding_ok [of "Raw k" 1] Cons.prems(5) x by auto
  obtain v' where v': "tryObjectEncoding 1 (Raw v) = Some v'" "sobj_ok v'" "text_of v' = v"
    using tryObjectEncoding_ok [of "Raw v" 1] Cons.prems(5) x by auto
  have mk: "m k = None" using Cons.prems(4) x by auto
  have sz: "dictSize d < 2 ^ 29" using Cons.prems(6) by simp
  obtain d1 where d1: "dictAdd cr d k v' = Some (DICT_OK, d1)" "tab_rep d1 (m(k \<mapsto> v))"
    using tab_add [OF Cons.prems(2) mk v'(2) sz, of cr] v'(3) by auto
  have sz1: "dictSize d1 = Suc (dictSize d)"
    using tab_size [OF d1(2)] tab_size [OF Cons.prems(2)] mk by (simp add: domIff)
  have dist: "k \<notin> fst ` set ps" "distinct (map fst ps)" using Cons.prems(3) x by auto
  have "fst ` set ps \<inter> dom (m(k \<mapsto> v)) = {}" using Cons.prems(4) x dist(1) by auto
  moreover have "\<forall>(k, v) \<in> set ps. length k < 2 ^ 31 \<and> length v < 2 ^ 31" using Cons.prems(5) by simp
  moreover have "dictSize d1 + length ps < 2 ^ 29" using Cons.prems(6) sz1 by simp
  ultimately have "\<exists>d'. convert_zipmap cr zm p' d1 = Some d' \<and> tab_rep d' (m(k \<mapsto> v) ++ map_of ps)
      \<and> dictSize d' = dictSize d1 + length ps"
    by (rule Cons.IH [OF p'(2) d1(2) dist(2)])
  then obtain d' where d': "convert_zipmap cr zm p' d1 = Some d'" "tab_rep d' (m(k \<mapsto> v) ++ map_of ps)"
    "dictSize d' = dictSize d1 + length ps" by blast
  have "m(k \<mapsto> v) ++ map_of ps = m ++ map_of (x # ps)"
  proof -
    have "map_of ps k = None" using dist(1) by (simp add: map_of_eq_None_iff)
    then show ?thesis using x by (auto simp: fun_eq_iff map_add_def split: option.split)
  qed
  with d' sz1 show ?case
    using p'(1) k' v'(1) d1(1) getDecodedObject_eq [OF k'(2)]
    by (subst convert_zipmap.simps) simp
qed

definition henv_ok :: "henv \<Rightarrow> bool" where
  "henv_ok env = plain_type (hashDictType env)"

lemma zm_store_pairs:
  assumes "zm_store zm m" "length zm < 2 ^ 29"
  obtains ps zm' where "zipmap_pairs zm zipmapRewind = Some ps" "distinct (map fst ps)" "m = map_of ps"
    "zipmapLen zm = Some (length ps, zm')" "zm_store zm' m" "length zm' = length zm" "length ps \<le> length zm"
    "\<forall>(k, v) \<in> set ps. length k \<le> length zm \<and> length v \<le> length zm"
proof -
  from assms(1) obtain es where es: "zm_rep zm es" "m = zm_abs es" by (auto simp: zm_store_def)
  from zm_rep_pairs [OF es(1)] obtain zm' ps where z: "zipmapLen zm = Some (length ps, zm')" "zm_rep zm' es"
    "zipmap_pairs zm zipmapRewind = Some ps" "distinct (map fst ps)" "\<forall>key. zipmapGet zm key = Some (map_of ps key)"
    by blast
  have len: "length zm = 2 + length (encs es)" "length zm' = 2 + length (encs es)"
    using es(1) z(2) by (auto simp: zm_rep_def)
  have m: "m = map_of ps" using z(5) zipmapGet_ok [OF es(1)] es(2) by (auto simp: fun_eq_iff)
  have n: "length ps = length es" using z(1) zipmapLen_ok [OF es(1)] by auto
  have "\<forall>(k, v) \<in> set ps. length k \<le> length zm \<and> length v \<le> length zm"
  proof safe
    fix k v assume "(k, v) \<in> set ps"
    then have "zm_abs es k = Some v" using z(4) m es(2) by (simp add: map_of_eq_Some_iff [OF z(4)])
    then obtain e where "(k, v, e) \<in> set es" by (auto simp: zm_abs_def dest!: map_of_SomeD)
    then obtain a b where "es = a @ (k, v, e) # b" by (auto simp: in_set_conv_decomp)
    then show "length k \<le> length zm" "length v \<le> length zm" using len(1) by (simp_all add: length_enc)
  qed
  moreover have "zm_store zm' m" using z(2) es(2) by (simp add: zm_store_def) blast
  moreover have "length ps \<le> length zm" using n length_encs_le [of es] len(1) by simp
  ultimately show ?thesis using that z(1,3,4) m len by simp
qed

lemma convert_hash_ok:
  assumes "henv_ok env" "zm_store zm m" "length zm < 2 ^ 29"
  shows "\<exists>d. convert_hash env zm = Some (HTab d) \<and> tab_rep d m \<and> dictSize d \<le> length zm"
proof -
  obtain ps where ps: "zipmap_pairs zm zipmapRewind = Some ps" "distinct (map fst ps)" "m = map_of ps"
    "length ps \<le> length zm" "\<forall>(k, v) \<in> set ps. length k \<le> length zm \<and> length v \<le> length zm"
    by (rule zm_store_pairs [OF assms(2,3)]) blast
  have t: "tab_rep (dictCreate (hashDictType env)) (\<lambda>_. None)"
    using dictCreate_rep assms(1) by (intro tab_repI) (auto simp: henv_ok_def)
  have sz: "dictSize (dictCreate (hashDictType env)) = 0" using tab_size(1) [OF t] by simp
  have "\<forall>(k, v) \<in> set ps. length k < 2 ^ 31 \<and> length v < 2 ^ 31" using ps(5) assms(3) by fastforce
  from convert_zipmap_ok [OF ps(1) t ps(2) _ this, of "h_can_resize env"] sz ps(3,4) assms(3)
  show ?thesis by (auto simp: convert_hash_def)
qed

section \<open>The operations\<close>

lemma hashTryConversion_ok:
  assumes "henv_ok env" "hash_rep h m"
  shows "\<exists>h'. hashTryConversion env h args = Some h' \<and> hash_rep h' m \<and> hash_extent h' \<le> hash_extent h"
proof (cases h)
  case (HZip zm)
  then show ?thesis
    using convert_hash_ok [OF assms(1), of zm m] assms(2) by (auto simp: hashTryConversion_def)
qed (use assms in \<open>simp add: hashTryConversion_def\<close>)

lemma hashTryObjectEncoding_ok:
  assumes "sobj_ok ob"
  shows "\<exists>ob'. hashTryObjectEncoding h ob = Some ob' \<and> sobj_ok ob' \<and> text_of ob' = text_of ob"
  using tryObjectEncoding_ok [OF assms, of 1] assms by (cases h) (auto simp: hashTryObjectEncoding_def)

lemma hashGet_ok:
  assumes "hash_rep h m" "getDecodedObject key = Some k"
  shows "\<exists>v h'. hashGet h key = Some (v, h') \<and> hash_rep h' m \<and> hash_extent h' = hash_extent h \<and>
    map_option text_of v = m k \<and> (\<forall>x. v = Some x \<longrightarrow> sobj_ok x)"
proof (cases h)
  case (HZip zm)
  then have z: "zm_store zm m" "length zm < 2 ^ 29" using assms(1) by simp_all
  then obtain es where es: "zm_rep zm es" "m = zm_abs es" by (auto simp: zm_store_def)
  obtain ps where ps: "distinct (map fst ps)" "m = map_of ps" "\<forall>(k, v) \<in> set ps. length k \<le> length zm \<and> length v \<le> length zm"
    by (rule zm_store_pairs [OF z]) blast
  have "length v < 2 ^ 31" if "m k = Some v" for v
    using that ps(3) z(2) unfolding ps(2) by (fastforce dest!: map_of_SomeD)
  then show ?thesis
    using HZip zipmapGet_ok [OF es(1)] es(2) assms
    by (cases "m k") (simp_all add: hashGet_def)
next
  case (HTab d)
  then have t: "tab_rep d m" using assms(1) by simp
  obtain de d' where f: "dictFind d k = Some (de, d')" "tab_rep d' m" "dictSize d' = dictSize d"
    "de = None \<longleftrightarrow> m k = None"
    "\<forall>p. de = Some p \<longrightarrow> sobj_ok (snd (entry_at d' p)) \<and> m k = Some (text_of (snd (entry_at d' p)))"
    by (rule tab_find [OF t])
  then show ?thesis
    using HTab f assms by (cases de) (auto simp: hashGet_def)
qed

lemma hashExists_ok:
  assumes "hash_rep h m" "getDecodedObject key = Some k"
  shows "\<exists>h'. hashExists h key = Some (m k \<noteq> None, h') \<and> hash_rep h' m \<and> hash_extent h' = hash_extent h"
proof (cases h)
  case (HZip zm)
  then obtain es where es: "zm_rep zm es" "m = zm_abs es" using assms(1) by (auto simp: zm_store_def)
  show ?thesis
    using HZip zipmapGet_ok [OF es(1)] es(2) assms by (simp add: hashExists_def)
next
  case (HTab d)
  then have t: "tab_rep d m" using assms(1) by simp
  obtain de d' where f: "dictFind d k = Some (de, d')" "tab_rep d' m" "dictSize d' = dictSize d"
    "de = None \<longleftrightarrow> m k = None"
    by (rule tab_find [OF t])
  then show ?thesis using HTab f assms by (simp add: hashExists_def del: not_None_eq)
qed

lemma hashSet_ok:
  assumes "henv_ok env" "hash_rep h m" "getDecodedObject key = Some k" "sobj_ok value"
    "hash_extent h + field_cost k (text_of value) < 2 ^ 29"
  shows "\<exists>h'. hashSet env h key value = Some (h', m k \<noteq> None) \<and>
    hash_rep h' (m(k \<mapsto> text_of value)) \<and>
    hash_extent h' \<le> hash_extent h + field_cost k (text_of value)"
proof (cases h)
  case (HZip zm)
  let ?v = "text_of value" and ?m = "m(k \<mapsto> text_of value)"
  have z: "zm_store zm m" "length zm + entry_cost k ?v < 2 ^ 32"
    using HZip assms(2,5) entry_cost_le [of k ?v] by simp_all
  from zipmap.put_rep [OF z, of "h_garbage env"] obtain zm1 where
    z1: "zipmapSet (h_garbage env) zm k ?v = Some (zm1, m k \<noteq> None)" "zm_store zm1 ?m"
      "length zm1 \<le> length zm + entry_cost k ?v" by blast
  have l1: "length zm1 \<le> length zm + field_cost k ?v" "length zm1 < 2 ^ 29"
    using z1(3) HZip assms(5) entry_cost_le [of k ?v] by simp_all
  obtain n zm2 where z2: "zipmapLen zm1 = Some (n, zm2)" "zm_store zm2 ?m" "length zm2 = length zm1"
    by (rule zm_store_pairs [OF z1(2) l1(2)])
  have l2: "length zm2 < 2 ^ 29" using l1(2) z2(3) by simp
  obtain h' where h': "(if n > max_zipmap_entries env then convert_hash env zm2 else Some (HZip zm2)) = Some h'"
    "hash_rep h' ?m" "hash_extent h' \<le> length zm2"
    using convert_hash_ok [OF assms(1) z2(2) l2] z2(2) l2
    by (cases "n > max_zipmap_entries env") fastforce+
  have "hashSet env h key value = Some (h', m k \<noteq> None)"
    unfolding HZip hashSet_def hobj.case assms(3) getDecodedObject_eq [OF assms(4)]
      bind.bind_lunit z1(1) z2(1) h'(1) prod.case ..
  then show ?thesis using h'(2,3) HZip l1(1) z2(3) by simp
next
  case (HTab d)
  let ?v = "text_of value"
  have t: "tab_rep d m" "dictSize d < 2 ^ 29" using HTab assms(2) by simp_all
  from tab_replace [OF t(1) assms(4) t(2), of "h_can_resize env" k] obtain d' where
    d': "dictReplace (h_can_resize env) d k value = Some (if m k = None then 1 else 0, d')"
      "tab_rep d' (m(k \<mapsto> ?v))" by blast
  have "card (dom (m(k \<mapsto> ?v))) \<le> card (dom m) + 1"
    using tab_size(2) [OF t(1)] by (simp add: card_insert_if)
  then have "dictSize d' \<le> dictSize d + 1" using tab_size(1) [OF t(1)] tab_size(1) [OF d'(2)] by simp
  then show ?thesis
    using HTab d' assms(3,5) by (simp add: hashSet_def getDecodedObject_eq field_cost_def)
qed

lemma hashDelete_ok:
  assumes "hash_rep h m" "getDecodedObject key = Some k"
  shows "\<exists>h'. hashDelete env h key = Some (h', m k \<noteq> None) \<and> hash_rep h' (m(k := None)) \<and>
    hash_extent h' \<le> hash_extent h"
proof (cases h)
  case (HZip zm)
  then have z: "zm_store zm m" using assms(1) by simp
  from zipmap.del_rep [OF this, of "h_garbage env" k] show ?thesis
    using HZip assms by (auto simp: hashDelete_def)
next
  case (HTab d)
  let ?m = "m(k := None)"
  have t: "tab_rep d m" "dictSize d < 2 ^ 29" using HTab assms(1) by simp_all
  from tab_delete [OF t(1), of k] obtain d' where d':
    "dictDelete d k = Some (if m k = None then DICT_ERR else DICT_OK, d')"
    "tab_rep d' ?m" by blast
  have "card (dom ?m) \<le> card (dom m)" using tab_size(2) [OF t(1)] by (simp add: card_Diff1_le)
  then have s': "dictSize d' \<le> dictSize d" using tab_size(1) [OF t(1)] tab_size(1) [OF d'(2)] by simp
  define d'' where "d'' = (if m k \<noteq> None \<and> htNeedsResize d' then snd (dictResize (h_can_resize env) d') else d')"
  have d'': "tab_rep d'' ?m" using tab_resize [OF d'(2)] s' t(2) d'(2) by (simp add: d''_def)
  then have "dictSize d'' = dictSize d'" using tab_size(1) d'(2) by metis
  moreover have "hashDelete env h key = Some (HTab d'', m k \<noteq> None)"
    using HTab d'(1) assms(2) by (simp add: hashDelete_def  d''_def DICT_OK_def DICT_ERR_def)
  ultimately show ?thesis using HTab d'' s' t(2) by simp
qed

lemma hashLength_ok:
  assumes "hash_rep h m"
  shows "\<exists>h'. hashLength h = Some (card (dom m), h') \<and> hash_rep h' m \<and> hash_extent h' = hash_extent h"
proof (cases h)
  case (HZip zm)
  then have z: "zm_store zm m" "length zm < 2 ^ 29" using assms by simp_all
  obtain ps zm' where ps: "distinct (map fst ps)" "m = map_of ps"
    "zipmapLen zm = Some (length ps, zm')" "zm_store zm' m" "length zm' = length zm"
    by (rule zm_store_pairs [OF z])
  have "card (dom m) = length ps" using distinct_card [OF ps(1)] ps(2) by (simp add: dom_map_of_conv_image_fst)
  then show ?thesis using HZip ps z by (simp add: hashLength_def)
qed (use assms tab_size(1) in \<open>simp add: hashLength_def\<close>)

lemma hash_rep_finite: "hash_rep h m \<Longrightarrow> finite (dom m)"
  by (cases h) (auto simp: zm_store_def zm_abs_def finite_dom_map_of dest: tab_size(2))

text \<open>The hash object is a key-value store again, of either encoding.\<close>

definition hash_get :: "hobj \<Rightarrow> bytes \<Rightarrow> (hobj \<times> bytes option) option" where
  "hash_get h k = map_option (\<lambda>(v, h'). (h', map_option text_of v)) (hashGet h (Raw k))"

interpretation hash: kv_store "\<lambda>h m. henv_ok env \<and> hash_rep h m" hash_get "\<lambda>h k v. hashSet env h (Raw k) (Raw v)"
    "\<lambda>h k. hashDelete env h (Raw k)" hash_extent field_cost "2 ^ 29"
  for env
proof (unfold_locales, goal_cases)
  case (1 s m k)
  then show ?case using hashGet_ok [of s m "Raw k" k] by (auto simp: hash_get_def getDecodedObject_def)
next
  case (2 s m k v)
  then have "sobj_ok (Raw v)" by (simp add: field_cost_def)
  with 2 hashSet_ok [of env s m "Raw k" k "Raw v"] show ?case by (simp add: getDecodedObject_def)
next
  case (3 s m k)
  then show ?case using hashDelete_ok [of s m "Raw k" k env] by (auto simp: getDecodedObject_def)
qed

section \<open>Iteration\<close>

definition row_texts :: "bool \<Rightarrow> bool \<Rightarrow> bytes \<times> bytes \<Rightarrow> bytes option list" where
  "row_texts keys vals = (\<lambda>(k, v). (if keys then [Some k] else []) @ (if vals then [Some v] else []))"

lemma getall_zip:
  "zipmap_pairs zm p = Some ps \<Longrightarrow>
   getall_loop keys vals (HIZip p) (HZip zm) out = Some (out @ concat (map (row_texts keys vals) ps), HZip zm)"
proof (induction ps arbitrary: p out)
  case Nil
  then show ?case
    by (subst getall_loop.simps) (simp add: zipmap_pairs_Nil hashNext_def hashReleaseIterator_def)
next
  case (Cons x ps)
  obtain k v where x: "x = (k, v)" by (cases x)
  obtain p' where p': "zipmapNext zm p = Some (Some (p', k, v))" "zipmap_pairs zm p' = Some ps"
    using Cons.prems(1) x by (auto elim: zipmap_pairs_Cons)
  then show ?case
    using Cons.IH [OF p'(2)] x
    by (subst getall_loop.simps) (simp add: hashNext_def getDecodedObject_def row_texts_def)
qed

lemma getall_tab:
  "iter_ok it d \<Longrightarrow> (ientry it \<noteq> None \<longrightarrow> started it = 1) \<Longrightarrow> \<forall>(k, v) \<in> set (remaining it d). sobj_ok v \<Longrightarrow>
   \<exists>d'. getall_loop keys vals (HIDict it) (HTab d) out =
     Some (out @ concat (map (\<lambda>(k, v). row_texts keys vals (k, text_of v)) (remaining it d)), HTab d') \<and> same_tables d d'"
proof (induction "remaining it d" arbitrary: it d out)
  case Nil
  from dictNext_ok [OF Nil(2,3)] Nil(1) obtain it' d' where n:
    "dictNext it d = Some (None, it', d')" "same_tables d d'" by (auto simp: next_spec_def)
  have "same_tables d (dictReleaseIterator it' d')"
    using n(2) by (auto simp: same_tables_def dictReleaseIterator_def)
  then show ?case
    using n(1) Nil(1) by (subst getall_loop.simps) (simp add: hashNext_def hashReleaseIterator_def)
next
  case (Cons e r)
  obtain k v where e: "e = (k, v)" by (cases e)
  from dictNext_ok [OF Cons(3,4)] Cons(2) obtain it' d' where n:
    "dictNext it d = Some (Some e, it', d')" "same_tables d d'" "started it' = 1"
    "iter_ok it' d'" "remaining it' d' = r"
    unfolding next_spec_def by (metis (no_types, lifting) list.case(2) list.distinct(1) list.sel(3))
  have "\<forall>(k, v) \<in> set (remaining it' d'). sobj_ok v" using Cons(5) unfolding n(5) Cons(2) [symmetric] by simp
  from Cons(1) [OF n(5) [symmetric] n(4) _ this, of "out @ row_texts keys vals (k, text_of v)"] n(3) obtain d'' where
    d'': "getall_loop keys vals (HIDict it') (HTab d') (out @ row_texts keys vals (k, text_of v)) =
      Some (out @ concat (map (\<lambda>(k, v). row_texts keys vals (k, text_of v)) (e # r)), HTab d'')"
    "same_tables d' d''" using n(5) e by auto
  have "sobj_ok v" using Cons(5) unfolding Cons(2) [symmetric] e by simp
  then have "getall_loop keys vals (HIDict it) (HTab d) out =
      getall_loop keys vals (HIDict it') (HTab d') (out @ row_texts keys vals (k, text_of v))"
    using n(1) e by (subst getall_loop.simps) (simp add: hashNext_def getDecodedObject_eq row_texts_def)
  then show ?case
    using d'' same_tables_trans [OF n(2)] Cons(2) by auto
qed

text \<open>The fields are listed once each, in an order that is not specified.\<close>

lemma getall_ok:
  assumes "hash_rep h m"
  shows "\<exists>ps h'. getall_loop keys vals (hashInitIterator h) h [] = Some (concat (map (row_texts keys vals) ps), h') \<and>
    distinct (map fst ps) \<and> m = map_of ps \<and> hash_rep h' m \<and> hash_extent h' = hash_extent h"
proof (cases h)
  case (HZip zm)
  then have z: "zm_store zm m" "length zm < 2 ^ 29" using assms by simp_all
  obtain ps where ps: "zipmap_pairs zm zipmapRewind = Some ps" "distinct (map fst ps)" "m = map_of ps"
    by (rule zm_store_pairs [OF z])
  then show ?thesis
    using getall_zip [OF ps(1), of keys vals "[]"] HZip assms by (auto simp: hashInitIterator_def)
next
  case (HTab d)
  then have t: "tab_rep d m" "dictSize d < 2 ^ 29" using assms by simp_all
  from t(1) obtain dm where dm: "dict_rep d dm" "\<forall>v \<in> ran dm. sobj_ok v" "m = texts_of dm" by (rule tab_repE)
  note st = traversal_start [OF dm(1)]
  let ?es = "remaining dictGetIterator d"
  have "\<forall>(k, v) \<in> set ?es. sobj_ok v" using dm(2) st(4) by (auto simp: ran_def)
  from getall_tab [OF st(1) _ this, of keys vals "[]"] st(3) obtain d' where
    d': "getall_loop keys vals (HIDict dictGetIterator) (HTab d) [] =
      Some (concat (map (\<lambda>(k, v). row_texts keys vals (k, text_of v)) ?es), HTab d')" "same_tables d d'" by auto
  define ps where "ps = map (\<lambda>(k, v). (k, text_of v)) ?es"
  have "inj_on fst (set ?es)" using st(4) by (auto simp: inj_on_def)
  then have dist: "distinct (map fst ?es)" using st(5) by (simp add: distinct_map)
  have fst: "map fst ps = map fst ?es" by (auto simp: ps_def)
  have "m = map_of ps"
  proof
    fix k
    show "m k = map_of ps k"
    proof (cases "m k")
      case None
      then have "k \<notin> fst ` set ?es" using dm(3) st(4) by auto
      then have "k \<notin> set (map fst ps)" unfolding fst by simp
      then have "map_of ps k = None" by (simp add: map_of_eq_None_iff)
      then show ?thesis using None by simp
    next
      case (Some w)
      then obtain v where "dm k = Some v" "w = text_of v" using dm(3) by (auto simp: texts_of_def)
      then have "(k, w) \<in> set ps" using st(4) by (force simp: ps_def)
      then show ?thesis using Some dist fst by (metis map_of_eq_Some_iff)
    qed
  qed
  moreover have t': "tab_rep d' m" using same_tables_rep [OF d'(2) dm(1)] dm(2,3) by (auto intro: tab_repI)
  have "dictSize d' = dictSize d" using tab_size(1) [OF t'] tab_size(1) [OF t(1)] by simp
  moreover have "map (\<lambda>(k, v). row_texts keys vals (k, text_of v)) ?es = map (row_texts keys vals) ps"
    by (auto simp: ps_def)
  moreover have "distinct (map fst ps)" using dist fst by simp
  ultimately show ?thesis
    using d'(1) HTab t t' by (intro exI [of _ ps] exI [of _ "HTab d'"]) (simp add: hashInitIterator_def)
qed

end
