(* ===== verification/Hash_Commands_Spec.thy ===== *)
theory Hash_Commands_Spec
  imports Hash_Object_Spec
begin

text \<open>
  The hash commands against their specification: a key holds a map from fields to values, both byte
  strings, and a command answers from it, whether the hash is a zipmap or a table.
\<close>

section \<open>What the commands mean\<close>

text \<open>The number a text is taken for.\<close>

definition number_of :: "bytes \<Rightarrow> int option" where
  "number_of t = the (getLongLongFromObject (Some (Raw t)))"

fun put_all :: "sobj list \<Rightarrow> (bytes \<Rightarrow> bytes option) \<Rightarrow> bytes \<Rightarrow> bytes option" where
  "put_all (k # v # rest) m = put_all rest (m(text_of k \<mapsto> text_of v))"
| "put_all _ m = m"

text \<open>What a command answers, does to the map, and counts as changes. \<open>HGETALL\<close> may list the fields
  in any order; a missing key is the empty map.\<close>

inductive hspec :: "hcmd \<Rightarrow> (bytes \<Rightarrow> bytes option) \<Rightarrow> hreply \<Rightarrow> (bytes \<Rightarrow> bytes option) \<Rightarrow> int \<Rightarrow> bool" where
  hset: "hspec (HSet k v) m (if m (text_of k) = None then HOne else HZero) (m(text_of k \<mapsto> text_of v)) 1"
| hsetnx: "m (text_of k) = None \<Longrightarrow> hspec (HSetNx k v) m HOne (m(text_of k \<mapsto> text_of v)) 1"
| hsetnx_there: "m (text_of k) \<noteq> None \<Longrightarrow> hspec (HSetNx k v) m HZero m 0"
| hmset: "even (length args) \<Longrightarrow> hspec (HMSet args) m HOk (put_all args m) 1"
| hmset_arity: "odd (length args) \<Longrightarrow> hspec (HMSet args) m HArity m 0"
| hincrby: "(case m (text_of k) of None \<Rightarrow> Some 0 | Some t \<Rightarrow> number_of t) = Some old \<Longrightarrow>
    new = signed_take_bit 63 (old + i) \<Longrightarrow>
    hspec (HIncrBy k i) m (HInt new) (m(text_of k \<mapsto> dec_text new)) 1"
| hincrby_text: "m (text_of k) = Some t \<Longrightarrow> number_of t = None \<Longrightarrow> hspec (HIncrBy k i) m HNotInteger m 0"
| hget: "hspec (HGet k) m (case m (text_of k) of None \<Rightarrow> HNull | Some t \<Rightarrow> HBulk t) m 0"
| hmget: "hspec (HMGet ks) m (HMulti (map (\<lambda>k. m (text_of k)) ks)) m 0"
| hdel: "m (text_of k) \<noteq> None \<Longrightarrow> hspec (HDel k) m HOne (m(text_of k := None)) 1"
| hdel_missing: "m (text_of k) = None \<Longrightarrow> hspec (HDel k) m HZero m 0"
| hlen: "hspec HLen m (if m = (\<lambda>_. None) then HZero else HInt (int (card (dom m)))) m 0"
| hgetall_empty: "m = (\<lambda>_. None) \<Longrightarrow> hspec (HGetAll keys vals) m HEmptyMultibulk m 0"
| hgetall: "m \<noteq> (\<lambda>_. None) \<Longrightarrow> distinct (map fst ps) \<Longrightarrow> m = map_of ps \<Longrightarrow>
    hspec (HGetAll keys vals) m (HMulti (concat (map (row_texts keys vals) ps))) m 0"
| hexists: "hspec (HExists k) m (if m (text_of k) = None then HZero else HOne) m 0"

inductive_simps hspec_simps:
  "hspec (HSet k v) m r m' n" "hspec (HGet k) m r m' n" "hspec (HDel k) m r m' n" "hspec HLen m r m' n"
  "hspec (HExists k) m r m' n" "hspec (HIncrBy k i) m r m' n"

section \<open>One command\<close>

lemma upd_not_empty: "m(k \<mapsto> v) \<noteq> (\<lambda>_. None)"
  by (auto simp: fun_eq_iff)

definition hvalue_ok :: "hvalue option \<Rightarrow> (bytes \<Rightarrow> bytes option) \<Rightarrow> bool" where
  "hvalue_ok v m \<longleftrightarrow> (case v of None \<Rightarrow> m = (\<lambda>_. None) | Some OtherVal \<Rightarrow> False
     | Some (HashVal h) \<Rightarrow> m \<noteq> (\<lambda>_. None) \<and> hash_rep h m)"

definition value_extent :: "hvalue option \<Rightarrow> nat" where
  "value_extent v = (case v of Some (HashVal h) \<Rightarrow> max 2 (hash_extent h) | _ \<Rightarrow> 2)"

lemma hvalue_simps [simp]:
  "hvalue_ok None m \<longleftrightarrow> m = (\<lambda>_. None)" "\<not> hvalue_ok (Some OtherVal) m"
  "hvalue_ok (Some (HashVal h)) m \<longleftrightarrow> m \<noteq> (\<lambda>_. None) \<and> hash_rep h m"
  "value_extent None = 2" "value_extent (Some (HashVal h)) = max 2 (hash_extent h)"
  by (simp_all add: hvalue_ok_def value_extent_def)

lemma value_extent_ge: "2 \<le> value_extent v"
  by (simp add: value_extent_def split: option.split hvalue.split)

lemma hvalue_cases:
  assumes "hvalue_ok v m"
  obtains "v = None" "m = (\<lambda>_. None)" | h where "v = Some (HashVal h)" "m \<noteq> (\<lambda>_. None)" "hash_rep h m"
  using assms by (cases v rule: option.exhaust; cases "the v") auto

fun pair_costs :: "sobj list \<Rightarrow> nat" where
  "pair_costs (k # v # rest) = field_cost (text_of k) (text_of v) + pair_costs rest"
| "pair_costs _ = 0"

fun cmd_cost :: "hcmd \<Rightarrow> nat" where
  "cmd_cost (HSet k v) = field_cost (text_of k) (text_of v)"
| "cmd_cost (HSetNx k v) = field_cost (text_of k) (text_of v)"
| "cmd_cost (HMSet args) = pair_costs args"
| "cmd_cost (HIncrBy k i) = field_cost (text_of k) [] + 20"
| "cmd_cost _ = 0"

text \<open>The arguments are string objects; \<open>HMSET\<close> has at least one field, by the command table.\<close>

fun hcmd_ok :: "hcmd \<Rightarrow> bool" where
  "hcmd_ok (HSet k v) = (sobj_ok k \<and> sobj_ok v)"
| "hcmd_ok (HSetNx k v) = (sobj_ok k \<and> sobj_ok v)"
| "hcmd_ok (HMSet args) = (args \<noteq> [] \<and> (\<forall>a \<in> set args. sobj_ok a))"
| "hcmd_ok (HIncrBy k i) = (sobj_ok k \<and> is_long i)"
| "hcmd_ok (HGet k) = sobj_ok k"
| "hcmd_ok (HMGet ks) = (\<forall>a \<in> set ks. sobj_ok a)"
| "hcmd_ok (HDel k) = sobj_ok k"
| "hcmd_ok (HExists k) = sobj_ok k"
| "hcmd_ok _ = True"

definition hstep_ok :: "henv \<Rightarrow> hcmd \<Rightarrow> hvalue option \<Rightarrow> (bytes \<Rightarrow> bytes option) \<Rightarrow> bool" where
  "hstep_ok env c v m \<longleftrightarrow> (\<exists>r v' m' n. hexec env c v = Some (r, v', n) \<and> hspec c m r m' n \<and>
     hvalue_ok v' m' \<and> value_extent v' \<le> value_extent v + cmd_cost c)"

lemma hstepI:
  assumes "hexec env c v = Some (r, v', n)" "hspec c m r m' n" "hvalue_ok v' m'"
    "value_extent v' \<le> value_extent v + cmd_cost c"
  shows "hstep_ok env c v m"
  using assms unfolding hstep_ok_def by blast

lemma lookup_or_create:
  assumes "hvalue_ok v m"
  obtains h where "hashLookupWriteOrCreate env v = Some (Some h)" "hash_rep h m" "hash_extent h \<le> value_extent v"
  using assms
proof (cases rule: hvalue_cases)
  case 1
  obtain zm where zm: "zipmapNew (h_garbage env) = Some zm" "zm_rep zm []" "length zm = 2"
    using zipmapNew_ok by blast
  have "zm_store zm (\<lambda>_. None)" using zm(2) by (intro zm_storeI) (auto simp: zm_abs_def)
  then show ?thesis
    using that [of "HZip zm"] 1 zm by (simp add: hashLookupWriteOrCreate_def createHashObject_def)
next
  case (2 h)
  then show ?thesis using that [of h] by (simp add: hashLookupWriteOrCreate_def)
qed

text \<open>Encoding the arguments, then setting the field.\<close>

lemma set_encoded:
  assumes "henv_ok env" "hash_rep h m" "sobj_ok k" "sobj_ok v"
    "hash_extent h + field_cost (text_of k) (text_of v) < 2 ^ 29"
  obtains k' v' h' where "hashTryObjectEncoding h k = Some k'" "hashTryObjectEncoding h v = Some v'"
    "hashSet env h k' v' = Some (h', m (text_of k) \<noteq> None)" "hash_rep h' (m(text_of k \<mapsto> text_of v))"
    "hash_extent h' \<le> hash_extent h + field_cost (text_of k) (text_of v)"
proof -
  obtain k' where k': "hashTryObjectEncoding h k = Some k'" "sobj_ok k'" "text_of k' = text_of k"
    using hashTryObjectEncoding_ok [OF assms(3)] by blast
  obtain v' where v': "hashTryObjectEncoding h v = Some v'" "sobj_ok v'" "text_of v' = text_of v"
    using hashTryObjectEncoding_ok [OF assms(4)] by blast
  have "getDecodedObject k' = Some (text_of k)" using getDecodedObject_eq [OF k'(2)] k'(3) by simp
  from hashSet_ok [OF assms(1,2) this v'(2)] assms(5) v'(3) that k'(1) v'(1) show ?thesis by auto
qed

lemma hset_ok:
  assumes "hvalue_ok v m" "henv_ok env" "sobj_ok key" "sobj_ok val"
    "value_extent v + field_cost (text_of key) (text_of val) < 2 ^ 29"
  shows "hstep_ok env (HSet key val) v m"
proof -
  obtain h where h: "hashLookupWriteOrCreate env v = Some (Some h)" "hash_rep h m" "hash_extent h \<le> value_extent v"
    by (rule lookup_or_create [OF assms(1)])
  obtain h1 where h1: "hashTryConversion env h [key, val] = Some h1" "hash_rep h1 m" "hash_extent h1 \<le> hash_extent h"
    using hashTryConversion_ok [OF assms(2) h(2)] by blast
  have "hash_extent h1 + field_cost (text_of key) (text_of val) < 2 ^ 29" using h(3) h1(3) assms(5) by simp
  then obtain k' v' h2 where s: "hashTryObjectEncoding h1 key = Some k'" "hashTryObjectEncoding h1 val = Some v'"
    "hashSet env h1 k' v' = Some (h2, m (text_of key) \<noteq> None)" "hash_rep h2 (m(text_of key \<mapsto> text_of val))"
    "hash_extent h2 \<le> hash_extent h1 + field_cost (text_of key) (text_of val)"
    by (rule set_encoded [OF assms(2) h1(2) assms(3,4)])
  have "hexec env (HSet key val) v =
      Some (if m (text_of key) = None then HOne else HZero, Some (HashVal h2), 1)"
    unfolding hexec.simps hsetCommand_def h(1) bind.bind_lunit option.case h1(1) s(1-3) prod.case by simp
  then show ?thesis
    by (rule hstepI [OF _ hset]) (use s(4,5) h1(3) h(3) value_extent_ge [of v] in \<open>auto simp: fun_eq_iff\<close>)
qed

lemma hsetnx_ok:
  assumes "hvalue_ok v m" "henv_ok env" "sobj_ok key" "sobj_ok val"
    "value_extent v + field_cost (text_of key) (text_of val) < 2 ^ 29"
  shows "hstep_ok env (HSetNx key val) v m"
proof -
  obtain h where h: "hashLookupWriteOrCreate env v = Some (Some h)" "hash_rep h m" "hash_extent h \<le> value_extent v"
    by (rule lookup_or_create [OF assms(1)])
  obtain h1 where h1: "hashTryConversion env h [key, val] = Some h1" "hash_rep h1 m" "hash_extent h1 \<le> hash_extent h"
    using hashTryConversion_ok [OF assms(2) h(2)] by blast
  obtain h2 where h2: "hashExists h1 key = Some (m (text_of key) \<noteq> None, h2)" "hash_rep h2 m"
    "hash_extent h2 = hash_extent h1"
    using hashExists_ok [OF h1(2) getDecodedObject_eq [OF assms(3)]] by blast
  have ext: "hash_extent h2 + field_cost (text_of key) (text_of val) < 2 ^ 29"
    using h(3) h1(3) h2(3) assms(5) by simp
  note unf = hexec.simps hsetnxCommand_def h(1) bind.bind_lunit option.case h1(1) h2(1) prod.case
  show ?thesis
  proof (cases "m (text_of key) = None")
    case False
    then have "hexec env (HSetNx key val) v = Some (HZero, Some (HashVal h2), 0)" unfolding unf by simp
    then show ?thesis
      by (rule hstepI [OF _ hsetnx_there [of m, OF False]]) (use False h2(2,3) h1(3) h(3) value_extent_ge [of v] in \<open>auto simp: fun_eq_iff\<close>)
  next
    case True
    obtain k' v' h3 where s: "hashTryObjectEncoding h2 key = Some k'" "hashTryObjectEncoding h2 val = Some v'"
      "hashSet env h2 k' v' = Some (h3, m (text_of key) \<noteq> None)" "hash_rep h3 (m(text_of key \<mapsto> text_of val))"
      "hash_extent h3 \<le> hash_extent h2 + field_cost (text_of key) (text_of val)"
      using ext by (rule set_encoded [OF assms(2) h2(2) assms(3,4)])
    have "hexec env (HSetNx key val) v = Some (HOne, Some (HashVal h3), 1)"
      unfolding unf using True s(1-3) by simp
    then show ?thesis
      by (rule hstepI [OF _ hsetnx [of m, OF True]]) (use s(4,5) h2(3) h1(3) h(3) value_extent_ge [of v] in \<open>auto simp: fun_eq_iff\<close>)
  qed
qed

lemma hmset_loop_ok:
  assumes "henv_ok env"
  shows "hash_rep h m \<Longrightarrow> \<forall>a \<in> set args. sobj_ok a \<Longrightarrow> hash_extent h + pair_costs args < 2 ^ 29 \<Longrightarrow>
    \<exists>h'. hmset_loop env args h = Some h' \<and> hash_rep h' (put_all args m) \<and> hash_extent h' \<le> hash_extent h + pair_costs args"
proof (induction args m arbitrary: h rule: put_all.induct)
  case (1 k v rest m)
  have ok: "sobj_ok k" "sobj_ok v" using 1(3) by simp_all
  have "hash_extent h + field_cost (text_of k) (text_of v) < 2 ^ 29" using 1(4) by simp
  then obtain k' v' h' where s: "hashTryObjectEncoding h k = Some k'" "hashTryObjectEncoding h v = Some v'"
    "hashSet env h k' v' = Some (h', m (text_of k) \<noteq> None)" "hash_rep h' (m(text_of k \<mapsto> text_of v))"
    "hash_extent h' \<le> hash_extent h + field_cost (text_of k) (text_of v)"
    by (rule set_encoded [OF assms 1(2) ok])
  have "hash_extent h' + pair_costs rest < 2 ^ 29" using s(5) 1(4) by simp
  from 1(1) [OF s(4) _ this] 1(3) obtain h'' where "hmset_loop env rest h' = Some h''"
    "hash_rep h'' (put_all rest (m(text_of k \<mapsto> text_of v)))" "hash_extent h'' \<le> hash_extent h' + pair_costs rest"
    by (auto simp del: fun_upd_apply)
  then show ?case using s(1-3,5) by (intro exI [of _ h'']) (simp del: fun_upd_apply)
qed simp_all

lemma put_all_keeps: "m x \<noteq> None \<Longrightarrow> put_all args m x \<noteq> None"
  by (induction args m rule: put_all.induct) auto

lemma hmset_ok:
  assumes "hvalue_ok v m" "henv_ok env" "args \<noteq> []" "\<forall>a \<in> set args. sobj_ok a"
    "value_extent v + pair_costs args < 2 ^ 29"
  shows "hstep_ok env (HMSet args) v m"
proof (cases "odd (length args)")
  case True
  then have "hexec env (HMSet args) v = Some (HArity, v, 0)" by (simp add: hmsetCommand_def)
  then show ?thesis by (rule hstepI [OF _ hmset_arity [OF True]]) (use assms(1) in simp_all)
next
  case False
  obtain h where h: "hashLookupWriteOrCreate env v = Some (Some h)" "hash_rep h m" "hash_extent h \<le> value_extent v"
    by (rule lookup_or_create [OF assms(1)])
  obtain h1 where h1: "hashTryConversion env h args = Some h1" "hash_rep h1 m" "hash_extent h1 \<le> hash_extent h"
    using hashTryConversion_ok [OF assms(2) h(2)] by blast
  have "hash_extent h1 + pair_costs args < 2 ^ 29" using h(3) h1(3) assms(5) by simp
  from hmset_loop_ok [OF assms(2) h1(2) assms(4) this] obtain h2 where h2: "hmset_loop env args h1 = Some h2"
    "hash_rep h2 (put_all args m)" "hash_extent h2 \<le> hash_extent h1 + pair_costs args" by blast
  obtain k w rest where a: "args = k # w # rest" using False assms(3) by (cases args; cases "tl args") auto
  have "put_all args m (text_of k) \<noteq> None" unfolding a put_all.simps by (rule put_all_keeps) simp
  then have ne: "put_all args m \<noteq> (\<lambda>_. None)" by metis
  have "hexec env (HMSet args) v = Some (HOk, Some (HashVal h2), 1)"
    unfolding hexec.simps hmsetCommand_def h(1) bind.bind_lunit option.case h1(1) h2(1) using False by simp
  moreover have "even (length args)" using False by simp
  ultimately show ?thesis
    by (rule hstepI [OF _ hmset]) (use ne h2 h1(3) h(3) value_extent_ge [of v] in auto)
qed

lemma number_ok:
  assumes "sobj_ok x"
  shows "getLongLongFromObject (Some x) = Some (number_of (text_of x))"
proof -
  have "Some x \<noteq> None \<longrightarrow> sobj_ok (the (Some x))" using assms by simp
  from getLongLongFromObject_ok [OF this] obtain r where "getLongLongFromObject (Some x) = Some r" by blast
  then show ?thesis by (simp add: number_of_def getLongLongFromObject_text [OF assms])
qed

lemma wrap_is_long: "is_long (signed_take_bit 63 v)"
  using signed_take_bit_int_greater_eq_minus_exp [of 63 v] signed_take_bit_int_less_exp [of 63 v]
  by (simp add: is_long_def)

lemma hincrby_ok:
  assumes "hvalue_ok v m" "henv_ok env" "sobj_ok key" "value_extent v + (field_cost (text_of key) [] + 20) < 2 ^ 29"
  shows "hstep_ok env (HIncrBy key i) v m"
proof -
  obtain h where h: "hashLookupWriteOrCreate env v = Some (Some h)" "hash_rep h m" "hash_extent h \<le> value_extent v"
    by (rule lookup_or_create [OF assms(1)])
  obtain cur h1 where h1: "hashGet h key = Some (cur, h1)" "hash_rep h1 m" "hash_extent h1 = hash_extent h"
    "map_option text_of cur = m (text_of key)" "\<forall>x. cur = Some x \<longrightarrow> sobj_ok x"
    using hashGet_ok [OF h(2) getDecodedObject_eq [OF assms(3)]] by blast
  define old where "old = (case m (text_of key) of None \<Rightarrow> Some 0 | Some t \<Rightarrow> number_of t)"
  have old: "(case cur of None \<Rightarrow> Some (Some 0) | Some c \<Rightarrow> getLongLongFromObject (Some c)) = Some old"
    unfolding old_def h1(4) [symmetric] using h1(5) number_ok by (cases cur) simp_all
  note unf = hexec.simps hincrbyCommand_def h(1) bind.bind_lunit option.case h1(1) prod.case old Let_def
  show ?thesis
  proof (cases old)
    case None
    then obtain t where t: "m (text_of key) = Some t" "number_of t = None"
      by (auto simp: old_def split: option.splits)
    have "hexec env (HIncrBy key i) v = Some (HNotInteger, Some (HashVal h1), 0)"
      unfolding unf None by simp
    then show ?thesis
      by (rule hstepI [OF _ hincrby_text [of m, OF t]])
        (use t h1(2,3) h(3) value_extent_ge [of v] in \<open>auto simp: fun_eq_iff\<close>)
  next
    case (Some n)
    define new where "new = signed_take_bit 63 (n + i)"
    have new: "is_long new" by (simp add: new_def wrap_is_long)
    have len: "length (dec_text new) \<le> 20" using length_dec_text [OF new] by blast
    obtain k' where k': "hashTryObjectEncoding h1 key = Some k'" "sobj_ok k'" "text_of k' = text_of key"
      using hashTryObjectEncoding_ok [OF assms(3)] by blast
    have kd: "getDecodedObject k' = Some (text_of key)" using getDecodedObject_eq [OF k'(2)] k'(3) by simp
    have "hash_extent h1 + field_cost (text_of key) (text_of (Enc new)) < 2 ^ 29"
      using assms(4) h(3) h1(3) len by (simp add: field_cost_def)
    from hashSet_ok [OF assms(2) h1(2) kd _ this] new obtain h2 where
      s: "hashSet env h1 k' (Enc new) = Some (h2, m (text_of key) \<noteq> None)" "hash_rep h2 (m(text_of key \<mapsto> dec_text new))"
      "hash_extent h2 \<le> hash_extent h1 + field_cost (text_of key) (dec_text new)" by auto
    have ex: "hexec env (HIncrBy key i) v = Some (HInt new, Some (HashVal h2), 1)"
      unfolding unf Some new_def [symmetric] createStringObjectFromLongLong_ok [OF new] k'(1) s(1) by simp
    have "hspec (HIncrBy key i) m (HInt new) (m(text_of key \<mapsto> dec_text new)) 1"
      using Some by (intro hincrby [where old = n]) (simp_all add: old_def new_def)
    then show ?thesis
      by (rule hstepI [OF ex])
        (use s(2,3) h1(3) h(3) len value_extent_ge [of v] in \<open>auto simp: upd_not_empty field_cost_def\<close>)
  qed
qed

lemma hget_ok:
  assumes "hvalue_ok v m" "sobj_ok key"
  shows "hstep_ok env (HGet key) v m"
  using assms(1)
proof (cases rule: hvalue_cases)
  case 1
  then have "hexec env (HGet key) v = Some (case m (text_of key) of None \<Rightarrow> HNull | Some t \<Rightarrow> HBulk t, v, 0)"
    by (simp add: hgetCommand_def)
  then show ?thesis by (rule hstepI [OF _ hget]) (use assms(1) in simp_all)
next
  case (2 h)
  obtain x h1 where h1: "hashGet h key = Some (x, h1)" "hash_rep h1 m" "hash_extent h1 = hash_extent h"
    "map_option text_of x = m (text_of key)" "\<forall>y. x = Some y \<longrightarrow> sobj_ok y"
    using hashGet_ok [OF 2(3) getDecodedObject_eq [OF assms(2)]] by blast
  have "hexec env (HGet key) v = Some (case m (text_of key) of None \<Rightarrow> HNull | Some t \<Rightarrow> HBulk t, Some (HashVal h1), 0)"
    unfolding h1(4) [symmetric] using 2(1) h1(1,5) by (cases x) (simp_all add: hgetCommand_def getDecodedObject_eq)
  then show ?thesis by (rule hstepI [OF _ hget]) (use 2 h1(2,3) in simp_all)
qed

lemma hmget_loop_ok:
  "hash_rep h m \<Longrightarrow> \<forall>k \<in> set keys. sobj_ok k \<Longrightarrow>
   \<exists>h'. hmget_loop keys (Some h) = Some (map (\<lambda>k. m (text_of k)) keys, Some h') \<and> hash_rep h' m \<and> hash_extent h' = hash_extent h"
proof (induction keys arbitrary: h)
  case (Cons key keys)
  have "getDecodedObject key = Some (text_of key)" using Cons.prems(2) by (simp add: getDecodedObject_eq)
  then obtain x h1 where h1: "hashGet h key = Some (x, h1)" "hash_rep h1 m" "hash_extent h1 = hash_extent h"
    "map_option text_of x = m (text_of key)" "\<forall>y. x = Some y \<longrightarrow> sobj_ok y"
    using hashGet_ok [OF Cons.prems(1)] by blast
  have t: "(case x of None \<Rightarrow> Some None | Some y \<Rightarrow> map_option Some (getDecodedObject y)) = Some (m (text_of key))"
    unfolding h1(4) [symmetric] using h1(5) by (cases x) (simp_all add: getDecodedObject_eq)
  from Cons.IH [OF h1(2)] Cons.prems(2) obtain h2 where
    "hmget_loop keys (Some h1) = Some (map (\<lambda>k. m (text_of k)) keys, Some h2)" "hash_rep h2 m"
    "hash_extent h2 = hash_extent h1" by auto
  then show ?case using h1(1,3) t by simp
qed simp

lemma hmget_none: "hmget_loop keys None = Some (map (\<lambda>k. None) keys, None)"
  by (induction keys) simp_all

lemma hmget_ok:
  assumes "hvalue_ok v m" "\<forall>k \<in> set keys. sobj_ok k"
  shows "hstep_ok env (HMGet keys) v m"
  using assms(1)
proof (cases rule: hvalue_cases)
  case 1
  then have "hexec env (HMGet keys) v = Some (HMulti (map (\<lambda>k. m (text_of k)) keys), v, 0)"
    by (simp add: hmgetCommand_def hmget_none)
  then show ?thesis by (rule hstepI [OF _ hmget]) (use assms(1) in simp_all)
next
  case (2 h)
  from hmget_loop_ok [OF 2(3) assms(2)] obtain h' where
    h': "hmget_loop keys (Some h) = Some (map (\<lambda>k. m (text_of k)) keys, Some h')" "hash_rep h' m"
    "hash_extent h' = hash_extent h" by blast
  then have "hexec env (HMGet keys) v = Some (HMulti (map (\<lambda>k. m (text_of k)) keys), Some (HashVal h'), 0)"
    using 2(1) by (simp add: hmgetCommand_def)
  then show ?thesis by (rule hstepI [OF _ hmget]) (use 2 h'(2,3) in simp_all)
qed

lemma hdel_ok:
  assumes "hvalue_ok v m" "sobj_ok key"
  shows "hstep_ok env (HDel key) v m"
  using assms(1)
proof (cases rule: hvalue_cases)
  case 1
  then have "hexec env (HDel key) v = Some (HZero, v, 0)" "m (text_of key) = None" by (simp_all add: hdelCommand_def)
  from hstepI [OF this(1) hdel_missing [of m, OF this(2)] assms(1)] show ?thesis by simp
next
  case (2 h)
  let ?m = "m(text_of key := None)"
  obtain h1 where h1: "hashDelete env h key = Some (h1, m (text_of key) \<noteq> None)" "hash_rep h1 ?m"
    "hash_extent h1 \<le> hash_extent h"
    using hashDelete_ok [OF 2(3) getDecodedObject_eq [OF assms(2)]] by blast
  show ?thesis
  proof (cases "m (text_of key) = None")
    case True
    then have "hexec env (HDel key) v = Some (HZero, Some (HashVal h1), 0)" using 2(1) h1(1) by (simp add: hdelCommand_def)
    moreover have "?m = m" using True by auto
    then have "hvalue_ok (Some (HashVal h1)) m" using 2(2) h1(2) by simp
    ultimately show ?thesis using hstepI [OF _ hdel_missing [of m, OF True]] 2(1) h1(3) by auto
  next
    case False
    obtain h2 where h2: "hashLength h1 = Some (card (dom ?m), h2)" "hash_rep h2 ?m" "hash_extent h2 = hash_extent h1"
      using hashLength_ok [OF h1(2)] by blast
    let ?v = "if card (dom ?m) = 0 then None else Some (HashVal h2)"
    have "hexec env (HDel key) v = Some (HOne, ?v, 1)"
      using 2(1) h1(1) h2(1) False by (simp add: hdelCommand_def)
    moreover have "card (dom ?m) = 0 \<longleftrightarrow> ?m = (\<lambda>_. None)"
      using hash_rep_finite [OF h2(2)] by (simp only: card_0_eq dom_eq_empty_conv)
    then have "hvalue_ok ?v ?m" using h2(2) by simp
    moreover have "value_extent ?v \<le> value_extent v + cmd_cost (HDel key)" using 2(1) h1(3) h2(3) by auto
    ultimately show ?thesis by (rule hstepI [OF _ hdel [of m, OF False]])
  qed
qed

lemma hlen_ok:
  assumes "hvalue_ok v m"
  shows "hstep_ok env HLen v m"
  using assms
proof (cases rule: hvalue_cases)
  case 1
  then have "hexec env HLen v = Some (if m = (\<lambda>_. None) then HZero else HInt (int (card (dom m))), v, 0)"
    by (simp add: hlenCommand_def)
  then show ?thesis by (rule hstepI [OF _ hlen]) (use assms in simp_all)
next
  case (2 h)
  obtain h2 where h2: "hashLength h = Some (card (dom m), h2)" "hash_rep h2 m" "hash_extent h2 = hash_extent h"
    using hashLength_ok [OF 2(3)] by blast
  have "hexec env HLen v = Some (if m = (\<lambda>_. None) then HZero else HInt (int (card (dom m))), Some (HashVal h2), 0)"
    using 2(1,2) h2(1) by (simp add: hlenCommand_def)
  then show ?thesis by (rule hstepI [OF _ hlen]) (use 2 h2 in simp_all)
qed

lemma hgetall_ok:
  assumes "hvalue_ok v m"
  shows "hstep_ok env (HGetAll keys vals) v m"
  using assms
proof (cases rule: hvalue_cases)
  case 1
  then have "hexec env (HGetAll keys vals) v = Some (HEmptyMultibulk, v, 0)" by (simp add: genericHgetallCommand_def)
  then show ?thesis by (rule hstepI [OF _ hgetall_empty [OF 1(2)]]) (use assms in simp_all)
next
  case (2 h)
  obtain ps h2 where h2: "getall_loop keys vals (hashInitIterator h) h [] = Some (concat (map (row_texts keys vals) ps), h2)"
    "distinct (map fst ps)" "m = map_of ps" "hash_rep h2 m" "hash_extent h2 = hash_extent h"
    using getall_ok [OF 2(3)] by blast
  have "hexec env (HGetAll keys vals) v = Some (HMulti (concat (map (row_texts keys vals) ps)), Some (HashVal h2), 0)"
    using 2(1) h2(1) by (simp add: genericHgetallCommand_def)
  then show ?thesis by (rule hstepI [OF _ hgetall [OF 2(2) h2(2,3)]]) (use 2 h2(4,5) in simp_all)
qed

lemma hexists_ok:
  assumes "hvalue_ok v m" "sobj_ok key"
  shows "hstep_ok env (HExists key) v m"
  using assms(1)
proof (cases rule: hvalue_cases)
  case 1
  then have "hexec env (HExists key) v = Some (if m (text_of key) = None then HZero else HOne, v, 0)"
    by (simp add: hexistsCommand_def)
  then show ?thesis by (rule hstepI [OF _ hexists]) (use assms(1) in simp_all)
next
  case (2 h)
  obtain h2 where h2: "hashExists h key = Some (m (text_of key) \<noteq> None, h2)" "hash_rep h2 m" "hash_extent h2 = hash_extent h"
    using hashExists_ok [OF 2(3) getDecodedObject_eq [OF assms(2)]] by blast
  have "hexec env (HExists key) v = Some (if m (text_of key) = None then HZero else HOne, Some (HashVal h2), 0)"
    using 2(1) h2(1) by (simp add: hexistsCommand_def)
  then show ?thesis by (rule hstepI [OF _ hexists]) (use 2 h2 in simp_all)
qed

section \<open>Sequences of commands\<close>

lemma hexec_ok:
  assumes "hvalue_ok v m" "henv_ok env" "hcmd_ok c" "value_extent v + cmd_cost c < 2 ^ 29"
  shows "hstep_ok env c v m"
  using assms(3,4) hset_ok [OF assms(1,2)] hsetnx_ok [OF assms(1,2)] hmset_ok [OF assms(1,2)]
    hincrby_ok [OF assms(1,2)] hget_ok [OF assms(1)] hmget_ok [OF assms(1)] hdel_ok [OF assms(1)]
    hlen_ok [OF assms(1)] hgetall_ok [OF assms(1)] hexists_ok [OF assms(1)]
  by (cases c) simp_all

fun run_hash :: "henv \<Rightarrow> hcmd list \<Rightarrow> hvalue option \<Rightarrow> (hreply \<times> int) list option" where
  "run_hash env [] v = Some []"
| "run_hash env (c # cs) v = do {
     (r, v', n) \<leftarrow> hexec env c v;
     rs \<leftarrow> run_hash env cs v';
     Some ((r, n) # rs) }"

inductive hash_answers :: "(bytes \<Rightarrow> bytes option) \<Rightarrow> hcmd list \<Rightarrow> (hreply \<times> int) list \<Rightarrow> bool" where
  no_command: "hash_answers m [] []"
| command: "hspec c m r m' n \<Longrightarrow> hash_answers m' cs rs \<Longrightarrow> hash_answers m (c # cs) ((r, n) # rs)"

inductive_simps hash_answers_simps:
  "hash_answers m [] rs" "hash_answers m (c # cs) rs"

lemma run_hash_ok:
  assumes "henv_ok env"
  shows "hvalue_ok v m \<Longrightarrow> \<forall>c \<in> set cs. hcmd_ok c \<Longrightarrow> value_extent v + sum_list (map cmd_cost cs) < 2 ^ 29 \<Longrightarrow>
    \<exists>rs. run_hash env cs v = Some rs \<and> hash_answers m cs rs"
proof (induction cs arbitrary: v m)
  case (Cons c cs)
  have "hcmd_ok c" "value_extent v + cmd_cost c < 2 ^ 29" using Cons.prems(2,3) by simp_all
  from hexec_ok [OF Cons.prems(1) assms this] obtain r v' m' n where c: "hexec env c v = Some (r, v', n)"
    "hspec c m r m' n" "hvalue_ok v' m'" "value_extent v' \<le> value_extent v + cmd_cost c"
    unfolding hstep_ok_def by blast
  have "value_extent v' + sum_list (map cmd_cost cs) < 2 ^ 29" using c(4) Cons.prems(3) by simp
  from Cons.IH [OF c(3) _ this] Cons.prems(2) obtain rs where "run_hash env cs v' = Some rs" "hash_answers m' cs rs"
    by auto
  then show ?case using c(1) command [OF c(2)] by auto
qed (auto intro: no_command)

text \<open>C7: any sequence of hash commands on a key answers as a map from fields to values does, whatever
  the limits at which the zipmap is converted to a hash table and whatever rehashing the table is in,
  until the fields set reach \<open>2 ^ 29\<close> bytes: \<open>HSET\<close>, \<open>HSETNX\<close>, \<open>HMSET\<close>, \<open>HINCRBY\<close>, \<open>HGET\<close>,
  \<open>HMGET\<close>, \<open>HDEL\<close>, \<open>HLEN\<close>, \<open>HGETALL\<close> and \<open>HEXISTS\<close>. No command faults.\<close>

theorem hash_runs_as_map:
  assumes "henv_ok env" "\<forall>c \<in> set cs. hcmd_ok c" "2 + sum_list (map cmd_cost cs) < 2 ^ 29"
  shows "\<exists>rs. run_hash env cs None = Some rs \<and> hash_answers (\<lambda>_. None) cs rs"
  using run_hash_ok [OF assms(1), of None "\<lambda>_. None" cs] assms(2,3) by simp

text \<open>A hash of which the first field already is too many for a zipmap.\<close>

definition sample_henv :: henv where
  "sample_henv = \<lparr>h_garbage = (\<lambda>_. 170), max_zipmap_entries = 0, max_zipmap_value = 64,
     hashDictType = \<lparr>hashFunction = dictObjHash, keyDup = None, valDup = None, keyCompare = Some sdsDictKeyCompare,
       keyDestructor = True, valDestructor = True\<rparr>, h_can_resize = True\<rparr>"

theorem hash_runs_as_map_witness:
  "run_hash sample_henv [HSet (Raw [97]) (Raw [98]), HSet (Raw [97]) (Raw [49, 50]), HLen, HGet (Raw [97]), HDel (Raw [97]),
     HExists (Raw [97])] None =
   Some [(HOne, 1), (HZero, 1), (HInt 1, 0), (HBulk [49, 50], 0), (HOne, 1), (HZero, 0)]"
proof -
  let ?cs = "[HSet (Raw [97]) (Raw [98]), HSet (Raw [97]) (Raw [49, 50]), HLen, HGet (Raw [97]), HDel (Raw [97]),
     HExists (Raw [97])]"
  have "henv_ok sample_henv"
    by (simp add: henv_ok_def sample_henv_def plain_type_def sdsDictKeyCompare_eq)
  moreover have "\<forall>c \<in> set ?cs. hcmd_ok c" "2 + sum_list (map cmd_cost ?cs) < 2 ^ 29"
    by (simp_all add: field_cost_def)
  ultimately obtain rs where "run_hash sample_henv ?cs None = Some rs" "hash_answers (\<lambda>_. None) ?cs rs"
    using hash_runs_as_map by blast
  then show ?thesis by (auto simp: hash_answers_simps hspec_simps upd_not_empty)
qed

section \<open>Divergences\<close>

lemma number_of_dec_text: "is_long v \<Longrightarrow> number_of (dec_text v) = Some v"
  using number_ok [of "Enc v"] by (simp add: getLongLongFromObject_def)

lemma wrap_id: "is_long v \<Longrightarrow> signed_take_bit 63 v = v"
  by (intro signed_take_bit_int_eq_self) (auto simp: is_long_def)

text \<open>\<open>HINCRBY\<close> does not check for an overflow.\<close>

theorem hincrby_wraps_around:
  assumes "henv_ok env"
  shows "run_hash env [HIncrBy (Raw [97]) (2 ^ 63 - 1), HIncrBy (Raw [97]) 1] None =
    Some [(HInt (2 ^ 63 - 1), 1), (HInt (- (2 ^ 63)), 1)]"
proof -
  let ?cs = "[HIncrBy (Raw [97]) (2 ^ 63 - 1), HIncrBy (Raw [97]) 1]"
  have long: "is_long (2 ^ 63 - 1)" by (simp add: is_long_def)
  have "\<forall>c \<in> set ?cs. hcmd_ok c" "2 + sum_list (map cmd_cost ?cs) < 2 ^ 29"
    by (simp_all add: is_long_def field_cost_def)
  then obtain rs where rs: "run_hash env ?cs None = Some rs" "hash_answers (\<lambda>_. None) ?cs rs"
    using run_hash_ok [OF assms, of None "\<lambda>_. None" ?cs] by auto
  have w: "signed_take_bit 63 (2 ^ 63 - 1) = (2 ^ 63 - 1 :: int)" "signed_take_bit 63 (2 ^ 63) = (- (2 ^ 63) :: int)"
    using wrap_id [OF long] by (simp_all add: signed_take_bit_eq_take_bit_shift take_bit_eq_mod)
  have "rs = [(HInt (2 ^ 63 - 1), 1), (HInt (- (2 ^ 63)), 1)]"
    using rs(2) w number_of_dec_text [OF long] by (auto simp: hash_answers_simps hspec_simps)
  with rs(1) show ?thesis by simp
qed

text \<open>\<open>HINCRBY\<close> leaves a field of any length in the zipmap, also one longer than the limit beyond
  which \<open>HSET\<close> converts it to a table.\<close>

theorem hincrby_no_conversion:
  assumes "1 \<le> max_zipmap_entries env" "length key < 2 ^ 28" "is_long i"
  shows "\<exists>zm. hincrbyCommand env (Raw key) i None = Some (HInt i, Some (HashVal (HZip zm)), 1)"
proof -
  obtain zm where zm: "zipmapNew (h_garbage env) = Some zm" "zm_rep zm []" "length zm = 2"
    using zipmapNew_ok by blast
  have l: "length (dec_text i) \<le> 20" using length_dec_text [OF assms(3)] by blast
  have "length zm + length (enc (key, dec_text i, [])) < 2 ^ 32"
    using zm(3) assms(2) l entry_cost_le [of key "dec_text i"] by (simp add: entry_cost_def field_cost_def)
  from zipmapSet_ok [OF zm(2) this, of "h_garbage env"] obtain zm1 es where
    s: "zipmapSet (h_garbage env) zm key (dec_text i) = Some (zm1, False)" "zm_rep zm1 es" "length es = 1"
    by (auto simp: zm_abs_def)
  from zipmapLen_ok [OF s(2)] obtain zm2 where z2: "zipmapLen zm1 = Some (1, zm2)" using s(3) by auto
  have "zipmapGet zm key = Some None" using zipmapGet_ok [OF zm(2)] by (simp add: zm_abs_def)
  then have g: "hashGet (HZip zm) (Raw key) = Some (None, HZip zm)" by (simp add: hashGet_def getDecodedObject_def)
  have "hashSet env (HZip zm) (Raw key) (Enc i) = Some (HZip zm2, False)"
    using s(1) z2 assms(1,3) by (simp add: hashSet_def getDecodedObject_def)
  then show ?thesis
    using zm(1) g createStringObjectFromLongLong_ok [OF assms(3)] wrap_id [OF assms(3)]
    by (simp add: hincrbyCommand_def hashLookupWriteOrCreate_def createHashObject_def hashTryObjectEncoding_def)
qed

end
