(* ===== verification/Sorted_Set_Spec.thy ===== *)
theory Sorted_Set_Spec
  imports Sorted_Set
begin

text \<open>
  The sorted set against its specification: the sequence of its elements in ascending order. The
  hash table represents the same elements as a map from objects to scores.
\<close>

section \<open>Canonical objects\<close>

text \<open>The objects that members of sorted sets are: encoded as a number exactly when the text is one.\<close>

definition canon :: "sobj \<Rightarrow> bool" where
  "canon ob \<longleftrightarrow> plain ob \<and> (\<forall>s v. ob = Raw s \<longrightarrow> is_long v \<longrightarrow> s \<noteq> dec_text v)"

lemma canon_inject: "canon a \<Longrightarrow> canon b \<Longrightarrow> text_of a = text_of b \<longleftrightarrow> a = b"
  using dec_text_inject by (cases a; cases b) (auto simp: canon_def plain_def)

lemma canon_plain: "canon ob \<Longrightarrow> plain ob"
  by (simp add: canon_def)

text \<open>So the comparison of the hash table, on decoded texts, is equality of the objects.\<close>

lemma canon_compare: "canon a \<Longrightarrow> canon b \<Longrightarrow> dictEncObjKeyCompare a b = Some (a = b)"
  by (simp add: canon_inject dictEncObjKeyCompare_text canon_def plain_def)

section \<open>What a sorted set represents\<close>

definition score_map :: "('s \<times> sobj) list \<Rightarrow> sobj \<Rightarrow> 's option" where
  "score_map es = map_of (map prod.swap es)"

lemma score_map_iff:
  assumes "distinct (map snd es)"
  shows "score_map es ob = Some s \<longleftrightarrow> (s, ob) \<in> set es"
proof -
  have "map fst (map prod.swap es) = map snd es" by simp
  then have "distinct (map fst (map prod.swap es))" using assms by metis
  then show ?thesis by (auto simp: score_map_def map_of_eq_Some_iff)
qed

lemma score_map_None: "score_map es ob = None \<longleftrightarrow> ob \<notin> snd ` set es"
proof -
  have "fst ` set (map prod.swap es) = snd ` set es" by (simp add: image_image)
  then show ?thesis by (simp only: score_map_def map_of_eq_None_iff)
qed

lemma score_map_Nil [simp]: "score_map [] = (\<lambda>_. None)"
  by (simp add: score_map_def fun_eq_iff)

lemma dom_score_map: "dom (score_map es) = snd ` set es"
  by (rule set_eqI) (simp only: domIff score_map_None not_not)

lemma score_map_eqI:
  assumes "distinct (map snd es)" "\<And>s ob. m ob = Some s \<longleftrightarrow> (s, ob) \<in> set es"
  shows "m = score_map es"
proof
  fix ob
  show "m ob = score_map es ob"
    using assms(2) [of ob] score_map_iff [OF assms(1), of ob] by (cases "m ob"; cases "score_map es ob") auto
qed

definition zset_ok :: "'s::linorder zset \<Rightarrow> ('s \<times> sobj) list \<Rightarrow> bool" where
  "zset_ok zs es \<longleftrightarrow> zsl_ok (zlist zs) es \<and> dict_rep (zdict zs) (score_map es) \<and> distinct (map snd es) \<and>
     (\<forall>e \<in> set es. canon (snd e))"

definition value_ok :: "'s::linorder zvalue option \<Rightarrow> ('s \<times> sobj) list \<Rightarrow> bool" where
  "value_ok v es \<longleftrightarrow> (case v of None \<Rightarrow> es = [] | Some OtherType \<Rightarrow> False | Some (ZsetVal zs) \<Rightarrow> es \<noteq> [] \<and> zset_ok zs es)"

text \<open>What the surroundings must guarantee; \<open>zmalloc\<close> gives addresses that are not in use.\<close>

definition env_ok :: "'s zenv \<Rightarrow> bool" where
  "env_ok env \<longleftrightarrow> plain_type (zsetDictType env) \<and> header_at env \<noteq> 0 \<and>
     (\<forall>z. finite (dom (znodes z)) \<longrightarrow> alloc env z \<noteq> 0 \<and> znodes z (alloc env z) = None)"

lemma zset_okD:
  assumes "zset_ok zs es"
  shows "zsl_ok (zlist zs) es" "dict_rep (zdict zs) (score_map es)" "distinct (map snd es)"
    "\<And>e. e \<in> set es \<Longrightarrow> canon (snd e)" "dictSize (zdict zs) = length es" "\<exists>as ls. zrep (zlist zs) as ls es"
    "length es < 2 ^ 32" "zlength (zlist zs) = of_nat (length es)" "sorted_wrt (<) (map zkey es)"
    "finite (dom (znodes (zlist zs)))"
proof -
  show z: "zsl_ok (zlist zs) es" and d: "dict_rep (zdict zs) (score_map es)" and ds: "distinct (map snd es)"
    and "\<And>e. e \<in> set es \<Longrightarrow> canon (snd e)"
    using assms by (simp_all add: zset_ok_def)
  have "card (snd ` set es) = length es" using distinct_card [OF ds] by simp
  then show "dictSize (zdict zs) = length es" using dict_repD(5) [OF d] by (simp add: dom_score_map)
  show "\<exists>as ls. zrep (zlist zs) as ls es" "sorted_wrt (<) (map zkey es)" using z by (simp_all add: zsl_ok_def)
  then obtain as ls where r: "zrep (zlist zs) as ls es" by blast
  show "length es < 2 ^ 32" "zlength (zlist zs) = of_nat (length es)" using zrepD [OF r] by simp_all
  have "dom (znodes (zlist zs)) = set as" using zrepD(6) [OF r] by (auto simp: sizes_def)
  then show "finite (dom (znodes (zlist zs)))" by simp
qed

lemma zset_ok_empty:
  assumes "env_ok env"
  shows "zset_ok (createZsetObject env) []"
  using assms by (simp add: zset_ok_def createZsetObject_def env_ok_def zslCreate_ok dictCreate_rep)

text \<open>Changing both parts in step.\<close>

lemma zset_okI:
  assumes "zsl_ok z es" "dict_rep d m" "distinct (map snd es)" "\<And>e. e \<in> set es \<Longrightarrow> canon (snd e)"
    "\<And>s ob. m ob = Some s \<longleftrightarrow> (s, ob) \<in> set es"
  shows "zset_ok \<lparr>zdict = d, zlist = z\<rparr> es"
  using assms score_map_eqI [OF assms(3,5)] by (auto simp: zset_ok_def)

lemma zset_ok_part:
  assumes "zset_ok zs es" "zsl_ok z' es'" "mset es = mset es' + mset gone"
    "dict_rep d' (score_map es |` (- snd ` set gone))"
  shows "zset_ok \<lparr>zdict = d', zlist = z'\<rparr> es'"
proof (rule zset_okI [OF assms(2,4)])
  note Z = zset_okD [OF assms(1)]
  have "mset (map snd (es' @ gone)) = mset (map snd es)" using assms(3) by simp
  then have d: "distinct (map snd (es' @ gone))" using Z(3) mset_eq_imp_distinct_iff by metis
  then show "distinct (map snd es')" by simp
  have es: "set es = set es' \<union> set gone" using assms(3) by (metis set_mset_mset set_mset_union)
  then show "\<And>e. e \<in> set es' \<Longrightarrow> canon (snd e)" using Z(4) by simp
  have dj: "snd ` set es' \<inter> snd ` set gone = {}" using d by simp
  fix s ob
  show "(score_map es |` (- snd ` set gone)) ob = Some s \<longleftrightarrow> (s, ob) \<in> set es'"
  proof (cases "ob \<in> snd ` set gone")
    case True
    then have "(s, ob) \<notin> set es'" using dj by force
    then show ?thesis using True by (simp add: restrict_map_def)
  next
    case False
    then have "(s, ob) \<notin> set gone" by force
    then show ?thesis using False score_map_iff [OF Z(3), of ob s] es by (simp add: restrict_map_def)
  qed
qed

lemma find_score_ok:
  assumes "dict_rep d m"
  shows "\<exists>d'. find_score d ele = Some (m ele, d') \<and> dict_rep d' m"
proof -
  from dictFind_rep [OF assms, of ele] obtain r d' where f: "dictFind d ele = Some (r, d')" "dict_rep d' m"
    "case m ele of None \<Rightarrow> r = None | Some v \<Rightarrow> \<exists>p. r = Some p \<and> pos_ok d' p ele v" by blast
  then show ?thesis
    using set_val_ok(6) [OF dict_repD(1) [OF f(2)]]
    by (cases "m ele") (auto simp: find_score_def)
qed

lemma shrink_zset_ok:
  assumes "zset_ok zs es" "length es < 2 ^ 29"
  shows "value_ok (shrink_zset env zs) es"
proof -
  note Z = zset_okD [OF assms(1)]
  define d where "d = (if htNeedsResize (zdict zs) then snd (dictResize (can_resize env) (zdict zs)) else zdict zs)"
  have d: "dict_rep d (score_map es)" using Z(2,5) dictResize_rep [OF Z(2)] assms(2) by (simp add: d_def)
  have "zset_ok (zs\<lparr>zdict := d\<rparr>) es" using assms(1) d by (simp add: zset_ok_def)
  moreover from this have "dictSize d = length es" using zset_okD(5) by fastforce
  ultimately show ?thesis by (simp add: shrink_zset_def value_ok_def d_def [symmetric])
qed

section \<open>The specification of the commands\<close>

definition zput :: "'s::linorder \<Rightarrow> sobj \<Rightarrow> ('s \<times> sobj) list \<Rightarrow> ('s \<times> sobj) list" where
  "zput s ob es = insort_key zkey (s, ob) (filter (\<lambda>e. snd e \<noteq> ob) es)"

definition row :: "bool \<Rightarrow> 's \<times> sobj \<Rightarrow> sobj \<times> 's option" where
  "row ws e = (snd e, if ws then Some (fst e) else None)"

definition index_of :: "sobj \<Rightarrow> ('s \<times> sobj) list \<Rightarrow> nat" where
  "index_of ob es = length (takeWhile (\<lambda>e. snd e \<noteq> ob) es)"

definition limited :: "int \<Rightarrow> int \<Rightarrow> 'a list \<Rightarrow> 'a list" where
  "limited off lim xs = (if lim < 0 then drop (nat off) xs else take (nat lim) (drop (nat off) xs))"

definition above :: "'s::linorder \<Rightarrow> bool \<Rightarrow> 's \<times> sobj \<Rightarrow> bool" where
  "above mn minex e \<longleftrightarrow> (if minex then mn < fst e else mn \<le> fst e)"

definition below :: "'s::linorder \<Rightarrow> bool \<Rightarrow> 's \<times> sobj \<Rightarrow> bool" where
  "below mx maxex e \<longleftrightarrow> (if maxex then fst e < mx else fst e \<le> mx)"

fun zspec :: "('s::linorder \<Rightarrow> 's \<Rightarrow> 's option) \<Rightarrow> 's zcmd \<Rightarrow> ('s \<times> sobj) list \<Rightarrow> 's zreply \<times> ('s \<times> sobj) list \<times> int" where
  "zspec addf (ZAdd incr rs s ob) es =
     (case (if incr then case score_map es ob of Some old \<Rightarrow> addf old s | None \<Rightarrow> Some s else Some s) of
        None \<Rightarrow> (NanScore, es, 0)
      | Some new \<Rightarrow> (if incr then RDouble new else if score_map es ob = None then COne else CZero,
          zput new ob es, if score_map es ob = Some new then 0 else 1))"
| "zspec addf (ZRem ob) es =
     (if score_map es ob = None then (CZero, es, 0) else (COne, filter (\<lambda>e. snd e \<noteq> ob) es, 1))"
| "zspec addf (ZRemRangeByScore mn mx) es =
     (let n = int (length (filter (in_range mn mx) es)) in
      if es = [] then (CZero, es, 0) else (RInt n, filter (\<lambda>e. \<not> in_range mn mx e) es, n))"
| "zspec addf (ZRemRangeByRank a b) es =
     (case convert_range (int (length es)) a b of
        None \<Rightarrow> (CZero, es, 0)
      | Some (s, e) \<Rightarrow> (RInt (e - s + 1), take (nat s) es @ drop (nat (e + 1)) es, e - s + 1))"
| "zspec addf (ZRange reverse ws a b) es =
     (case convert_range (int (length es)) a b of
        None \<Rightarrow> (EmptyMultibulk, es, 0)
      | Some (s, e) \<Rightarrow>
          (RMulti (map (row ws) (take (nat (e - s + 1)) (drop (nat s) (if reverse then rev es else es)))), es, 0))"
| "zspec addf (ZRangeByScore jc mn minex mx maxex ws off lim) es =
     (let hits = limited off lim (filter (\<lambda>e. above mn minex e \<and> below mx maxex e) es) in
      (if filter (above mn minex) es = [] then if jc then CZero else EmptyMultibulk
       else if jc then RInt (int (length hits)) else RMulti (map (row ws) hits), es, 0))"
| "zspec addf ZCard es = (if es = [] then CZero else RInt (int (length es)), es, 0)"
| "zspec addf (ZScore ob) es = (case score_map es ob of None \<Rightarrow> NullBulk | Some s \<Rightarrow> RDouble s, es, 0)"
| "zspec addf (ZRank reverse ob) es =
     (if score_map es ob = None then NullBulk
      else RInt (int (if reverse then length es - 1 - index_of ob es else index_of ob es)), es, 0)"

text \<open>\<open>ZINCRBY\<close> leaves the score of an element as it is: its reply is read from memory already freed.\<close>

fun keeps_score :: "('s \<Rightarrow> 's \<Rightarrow> 's option) \<Rightarrow> 's zcmd \<Rightarrow> ('s \<times> sobj) list \<Rightarrow> bool" where
  "keeps_score addf (ZAdd incr rs s ob) es \<longleftrightarrow>
     incr \<and> (case score_map es ob of None \<Rightarrow> False | Some old \<Rightarrow> addf old s = Some old)"
| "keeps_score addf _ es \<longleftrightarrow> False"

definition zstep_ok :: "'s::{linorder, zero} zenv \<Rightarrow> 's zcmd \<Rightarrow> 's zvalue option \<Rightarrow> ('s \<times> sobj) list \<Rightarrow> bool" where
  "zstep_ok env c v es \<longleftrightarrow> (\<exists>v'. zexec env c v = Some (fst (zspec (plus_of env) c es), v', snd (snd (zspec (plus_of env) c es))) \<and>
     value_ok v' (fst (snd (zspec (plus_of env) c es))))"

lemma value_okE:
  assumes "value_ok v es"
  obtains "v = None" "es = []" | zs where "v = Some (ZsetVal zs)" "es \<noteq> []" "zset_ok zs es"
  using assms by (auto simp: value_ok_def split: option.splits zvalue.splits)

section \<open>Adding\<close>

lemma score_of:
  assumes "zset_ok zs es"
  shows "score_map es ob = Some s \<Longrightarrow> e \<in> set es \<Longrightarrow> snd e = ob \<longleftrightarrow> e = (s, ob)"
  using score_map_iff [OF zset_okD(3) [OF assms], of ob] by (cases e) (metis option.inject snd_conv)

lemma key_of_object:
  assumes "zset_ok zs es" "canon ob" "e \<in> set es"
  shows "text_of (snd e) = text_of ob \<longleftrightarrow> snd e = ob"
  using canon_inject [OF zset_okD(4) [OF assms(1,3)] assms(2)] .

lemma strict_key_unique:
  assumes "sorted_wrt (<) (map f xs :: 'k::linorder list)" "sorted_wrt (<) (map f ys)" "set xs = set ys"
  shows "xs = ys"
proof -
  have "map f xs = map f ys" using assms by (intro strict_sorted_equal) auto
  moreover have "inj_on f (set xs)" using assms(1) by (simp add: strict_sorted_iff distinct_map)
  ultimately show ?thesis using assms(3) by (metis inj_on_map_eq_map sup.idem)
qed

lemma zput_same:
  assumes "zset_ok zs es" "canon ob" "score_map es ob = Some s"
  shows "zput s ob es = es"
proof (rule strict_key_unique)
  note Z = zset_okD [OF assms(1)]
  let ?es = "filter (\<lambda>e. snd e \<noteq> ob) es"
  have m: "(s, ob) \<in> set es" using assms(3) score_map_iff [OF Z(3)] by simp
  have "sorted_wrt (<) (map zkey ?es)" using Z(9) by (simp add: sorted_wrt_map sorted_wrt_filter)
  moreover have "zkey (s, ob) \<notin> zkey ` set ?es"
  proof
    assume "zkey (s, ob) \<in> zkey ` set ?es"
    then obtain e where "e \<in> set es" "snd e \<noteq> ob" "text_of (snd e) = text_of ob" by (auto simp: zkey_def)
    then show False using key_of_object [OF assms(1,2)] by blast
  qed
  ultimately show "sorted_wrt (<) (map zkey (zput s ob es))" unfolding zput_def by (rule sorted_insort_strict)
  show "set (zput s ob es) = set es"
    using m score_of [OF assms(1,3)] by (auto simp: zput_def set_insort_key)
qed (rule zset_okD(9) [OF assms(1)])

lemma zset_insert:
  assumes "zset_ok zs es" "ob \<notin> snd ` set es" "canon ob" "length es < 2 ^ 29" "env_ok env"
    "dict_rep d ((score_map es)(ob \<mapsto> s))"
  shows "\<exists>z'. zslInsert (fill_of env) (alloc env (zlist zs)) rs s ob (zlist zs) = Some z' \<and>
    zset_ok \<lparr>zdict = d, zlist = z'\<rparr> (insort_key zkey (s, ob) es)"
proof -
  note Z = zset_okD [OF assms(1)]
  have "(s, text_of ob) \<notin> zkey ` set es"
  proof
    assume "(s, text_of ob) \<in> zkey ` set es"
    then obtain e where "e \<in> set es" "text_of (snd e) = text_of ob" by (auto simp: zkey_def)
    then show False using key_of_object [OF assms(1,3)] assms(2) by blast
  qed
  moreover have "alloc env (zlist zs) \<noteq> 0" "znodes (zlist zs) (alloc env (zlist zs)) = None"
    using assms(5) Z(10) by (simp_all add: env_ok_def)
  ultimately obtain z' where z': "zslInsert (fill_of env) (alloc env (zlist zs)) rs s ob (zlist zs) = Some z'"
    "zsl_ok z' (insort_key zkey (s, ob) es)"
    using zslInsert_sorted [OF Z(1) canon_plain [OF assms(3)], of s "alloc env (zlist zs)" "fill_of env" rs] assms(4) by auto
  have "zset_ok \<lparr>zdict = d, zlist = z'\<rparr> (insort_key zkey (s, ob) es)"
  proof (rule zset_okI [OF z'(2) assms(6)])
    have "mset (map snd (insort_key zkey (s, ob) es)) = add_mset ob (mset (map snd es))" by simp
    then show "distinct (map snd (insort_key zkey (s, ob) es))"
      using Z(3) assms(2) by (metis distinct.simps(2) list.set_map mset.simps(2) mset_eq_imp_distinct_iff)
    show "\<And>e. e \<in> set (insort_key zkey (s, ob) es) \<Longrightarrow> canon (snd e)"
      using Z(4) assms(3) by (auto simp: set_insort_key)
    show "((score_map es)(ob \<mapsto> s)) ob' = Some s' \<longleftrightarrow> (s', ob') \<in> set (insort_key zkey (s, ob) es)" for s' ob'
      using assms(2) score_map_iff [OF Z(3), of ob' s'] by (force simp: set_insort_key)
  qed
  then show ?thesis using z'(1) by blast
qed

lemma delete_keeps:
  assumes "zset_ok zs es" "canon ob" "score_map es ob = Some s"
  shows "\<exists>z'. zslDelete s ob (zlist zs) = Some (True, z') \<and> zsl_ok z' (filter (\<lambda>e. snd e \<noteq> ob) es)"
proof -
  note Z = zset_okD [OF assms(1)]
  have m: "(s, ob) \<in> set es" using assms(3) score_map_iff [OF Z(3)] by simp
  have k: "zkey e = (s, text_of ob) \<longleftrightarrow> snd e = ob" if "e \<in> set es" for e
    using that score_of [OF assms(1,3)] key_of_object [OF assms(1,2)] by (auto simp: zkey_def)
  have "(s, text_of ob) \<in> zkey ` set es" using m by (force simp: zkey_def)
  moreover have "filter (\<lambda>e. zkey e \<noteq> (s, text_of ob)) es = filter (\<lambda>e. snd e \<noteq> ob) es"
    using k by (auto intro: filter_cong)
  ultimately show ?thesis using zslDelete_sorted [OF Z(1) canon_plain [OF assms(2)], of s] by auto
qed

lemma without_ok:
  assumes "zset_ok zs es" "zsl_ok z' (filter (\<lambda>e. snd e \<noteq> ob) es)" "dict_rep d' ((score_map es)(ob := None))"
  shows "zset_ok \<lparr>zdict = d', zlist = z'\<rparr> (filter (\<lambda>e. snd e \<noteq> ob) es)"
proof (rule zset_okI [OF assms(2,3)])
  note Z = zset_okD [OF assms(1)]
  show "distinct (map snd (filter (\<lambda>e. snd e \<noteq> ob) es))" using Z(3) by (rule distinct_map_filter)
  show "\<And>e. e \<in> set (filter (\<lambda>e. snd e \<noteq> ob) es) \<Longrightarrow> canon (snd e)" using Z(4) by simp
  show "((score_map es)(ob := None)) ob' = Some s' \<longleftrightarrow> (s', ob') \<in> set (filter (\<lambda>e. snd e \<noteq> ob) es)" for s' ob'
    using score_map_iff [OF Z(3), of ob' s'] by simp
qed

lemma new_score:
  assumes "zset_ok zs es"
  shows "\<exists>d'. (if incr then do { (old, d') \<leftarrow> find_score (zdict zs) ob;
        Some (case old of Some oldscore \<Rightarrow> add oldscore s | None \<Rightarrow> Some s, d') }
      else Some (Some s, zdict zs)) =
    Some (if incr then case score_map es ob of Some old \<Rightarrow> add old s | None \<Rightarrow> Some s else Some s, d') \<and>
    dict_rep d' (score_map es)"
proof (cases incr)
  case True
  obtain d' where "find_score (zdict zs) ob = Some (score_map es ob, d')" "dict_rep d' (score_map es)"
    using find_score_ok [OF zset_okD(2) [OF assms]] by blast
  then show ?thesis using True by simp
qed (use zset_okD(2) [OF assms] in simp)

lemma update_score:
  assumes z: "zset_ok zs es" and "env_ok env" "canon ob" "length es < 2 ^ 29" and old: "score_map es ob = Some old"
    and d3: "dict_rep d3 (score_map es)"
  shows "\<exists>zs'. (if new \<noteq> old then do {
            (deleted, z1) \<leftarrow> zslDelete old ob (zlist zs);
            if \<not> deleted then None
            else do {
              z2 \<leftarrow> zslInsert (fill_of env) (alloc env z1) rs new ob z1;
              (_, d4) \<leftarrow> dictReplace (can_resize env) d3 ob new;
              Some (\<lparr>zdict = d4, zlist = z2\<rparr>, 1, False) } }
          else Some (\<lparr>zdict = d3, zlist = zlist zs\<rparr>, 0 :: int, True)) = Some (zs', if new = old then 0 else 1, new = old) \<and>
          zset_ok zs' (zput new ob es)"
proof (cases "new = old")
  case True
  then show ?thesis using z d3 zput_same [OF z assms(3) old] by (simp add: zset_ok_def)
next
  case False
  note Z = zset_okD [OF z]
  obtain z1 where z1: "zslDelete old ob (zlist zs) = Some (True, z1)" "zsl_ok z1 (filter (\<lambda>e. snd e \<noteq> ob) es)"
    using delete_keeps [OF z assms(3) old] by blast
  have sz3: "dictSize d3 < 2 ^ 29"
    using dict_repD(5) [OF d3] dict_repD(5) [OF Z(2)] Z(5) assms(4) by simp
  obtain d4 where d4: "dictReplace (can_resize env) d3 ob new = Some (0, d4)" "dict_rep d4 ((score_map es)(ob \<mapsto> new))"
    using dictReplace_rep [OF d3 sz3, of "can_resize env" ob new] old by auto
  obtain dd where dd: "dict_rep dd ((score_map es)(ob := None))"
    using dictGenericDelete_rep [OF Z(2)] by blast
  have w: "zset_ok \<lparr>zdict = dd, zlist = z1\<rparr> (filter (\<lambda>e. snd e \<noteq> ob) es)" by (rule without_ok [OF z z1(2) dd])
  have "score_map (filter (\<lambda>e. snd e \<noteq> ob) es) = (score_map es)(ob := None)"
    using zset_okD(3) [OF w] score_map_iff [OF Z(3)] by (intro score_map_eqI [symmetric]) auto
  then have "dict_rep d4 ((score_map (filter (\<lambda>e. snd e \<noteq> ob) es))(ob \<mapsto> new))" using d4(2) by simp
  moreover have "length (filter (\<lambda>e. snd e \<noteq> ob) es) < 2 ^ 29"
    using assms(4) length_filter_le [of "\<lambda>e. snd e \<noteq> ob" es] by linarith
  ultimately obtain z2 where "zslInsert (fill_of env) (alloc env z1) rs new ob z1 = Some z2"
    "zset_ok \<lparr>zdict = d4, zlist = z2\<rparr> (zput new ob es)"
    using zset_insert [OF w _ assms(3) _ assms(2), of d4 new rs] by (auto simp: zput_def)
  then show ?thesis using False z1(1) d4(1) by simp
qed

lemma zadd_ok:
  assumes "value_ok v es" "env_ok env" "canon ob" "length es < 2 ^ 29"
  shows "if keeps_score (plus_of env) (ZAdd incr rs s ob) es then zexec env (ZAdd incr rs s ob) v = None
    else zstep_ok env (ZAdd incr rs s ob) v es"
proof -
  define zs where "zs = (case v of Some (ZsetVal zs) \<Rightarrow> zs | _ \<Rightarrow> createZsetObject env)"
  have z: "zset_ok zs es" using assms(1) zset_ok_empty [OF assms(2)] by (cases rule: value_okE) (simp_all add: zs_def)
  have v: "v \<noteq> Some OtherType" using assms(1) by (auto simp: value_ok_def)
  note Z = zset_okD [OF z]
  let ?new = "if incr then case score_map es ob of Some old \<Rightarrow> plus_of env old s | None \<Rightarrow> Some s else Some s"
  from new_score [OF z, where incr = incr and ob = ob and add = "plus_of env" and s = s] obtain d1 where
    d1: "(if incr then do { (old, d') \<leftarrow> find_score (zdict zs) ob;
        Some (case old of Some oldscore \<Rightarrow> plus_of env oldscore s | None \<Rightarrow> Some s, d') }
      else Some (Some s, zdict zs)) = Some (?new, d1)" "dict_rep d1 (score_map es)"
    by blast
  note start = zaddGenericCommand_def Let_def if_not_P [OF v] zs_def [symmetric] d1(1) bind.bind_lunit prod.case
  show ?thesis
  proof (cases ?new)
    case None
    then have "es \<noteq> []" by (auto split: if_splits)
    have "zset_ok (zs\<lparr>zdict := d1\<rparr>) es" using z d1(2) by (simp add: zset_ok_def)
    then have "value_ok (Some (ZsetVal (zs\<lparr>zdict := d1\<rparr>))) es" using \<open>es \<noteq> []\<close> by (simp add: value_ok_def)
    moreover have "zaddGenericCommand env rs ob s incr v = Some (NanScore, Some (ZsetVal (zs\<lparr>zdict := d1\<rparr>)), 0)"
      unfolding start None by simp
    moreover have "\<not> keeps_score (plus_of env) (ZAdd incr rs s ob) es" using None by (auto split: option.splits if_splits)
    ultimately show ?thesis using None by (simp only: if_False) (simp add: zstep_ok_def)
  next
    case (Some new)
    have sz: "dictSize d1 < 2 ^ 29"
      using dict_repD(5) [OF d1(2)] dict_repD(5) [OF Z(2)] Z(5) assms(4) by simp
    from dictAdd_rep [OF d1(2) sz, of "can_resize env" ob new] obtain d2 where
      d2: "dictAdd (can_resize env) d1 ob new = Some (if score_map es ob = None then DICT_OK else DICT_ERR, d2)"
      "dict_rep d2 (if score_map es ob = None then (score_map es)(ob \<mapsto> new) else score_map es)" by blast
    have val: "value_ok (Some (ZsetVal zs')) (zput new ob es)" if "zset_ok zs' (zput new ob es)" for zs'
      using that by (simp add: value_ok_def zput_def insort_not_Nil)
    show ?thesis
    proof (cases "score_map es ob")
      case None
      then have no: "ob \<notin> snd ` set es" by (simp add: score_map_None)
      have "filter (\<lambda>e. snd e \<noteq> ob) es = es" using no by (auto simp: filter_id_conv)
      then have put: "zput new ob es = insort_key zkey (new, ob) es" by (simp add: zput_def)
      obtain z' where z': "zslInsert (fill_of env) (alloc env (zlist zs)) rs new ob (zlist zs) = Some z'"
        "zset_ok \<lparr>zdict = d2, zlist = z'\<rparr> (zput new ob es)"
        using zset_insert [OF z no assms(3,4,2), of d2 new rs] d2(2) None unfolding put by auto
      have "zaddGenericCommand env rs ob s incr v =
          Some (if incr then RDouble new else COne, Some (ZsetVal \<lparr>zdict = d2, zlist = z'\<rparr>), 1)"
        unfolding start Some option.case d2(1) using None z'(1) by simp
      then show ?thesis using Some None val [OF z'(2)] by (simp add: zstep_ok_def)
    next
      case old: (Some old)
      obtain d3 where d3: "find_score d2 ob = Some (Some old, d3)" "dict_rep d3 (score_map es)"
        using find_score_ok [of d2 "score_map es" ob] d2(2) old by auto
      from update_score [OF z assms(2,3,4) old d3(2), of new rs] obtain zs' where upd: "(if new \<noteq> old then do {
            (deleted, z1) \<leftarrow> zslDelete old ob (zlist zs);
            if \<not> deleted then None
            else do {
              z2 \<leftarrow> zslInsert (fill_of env) (alloc env z1) rs new ob z1;
              (_, d4) \<leftarrow> dictReplace (can_resize env) d3 ob new;
              Some (\<lparr>zdict = d4, zlist = z2\<rparr>, 1, False) } }
          else Some (\<lparr>zdict = d3, zlist = zlist zs\<rparr>, 0 :: int, True)) = Some (zs', if new = old then 0 else 1, new = old)"
        "zset_ok zs' (zput new ob es)" by blast
      have "DICT_ERR \<noteq> DICT_OK" by (simp add: DICT_ERR_def DICT_OK_def)
      moreover have "dictAdd (can_resize env) d1 ob new = Some (DICT_ERR, d2)" using d2(1) old by simp
      ultimately have "zaddGenericCommand env rs ob s incr v =
          (if incr then if new = old then None else Some (RDouble new) else Some CZero) \<bind>
            (\<lambda>reply. Some (reply, Some (ZsetVal zs'), if new = old then 0 else 1))"
        unfolding start Some option.case
        by (simp only: d3(1) upd(1) bind.bind_lunit prod.case if_False option.distinct)
      then show ?thesis using Some old val [OF upd(2)] by (auto simp: zstep_ok_def)
    qed
  qed
qed

section \<open>Removing\<close>

lemma zrem_ok:
  assumes "value_ok v es" "canon ob" "length es < 2 ^ 29"
  shows "zstep_ok env (ZRem ob) v es"
  using assms(1)
proof (cases rule: value_okE)
  case 1
  then show ?thesis by (simp add: zstep_ok_def zremCommand_def value_ok_def)
next
  case (2 zs)
  note Z = zset_okD [OF 2(3)]
  obtain d1 where d1: "find_score (zdict zs) ob = Some (score_map es ob, d1)" "dict_rep d1 (score_map es)"
    using find_score_ok [OF Z(2)] by blast
  show ?thesis
  proof (cases "score_map es ob")
    case None
    then have "zset_ok (zs\<lparr>zdict := d1\<rparr>) es" using 2(3) d1(2) by (simp add: zset_ok_def)
    then show ?thesis using None d1(1) 2 by (simp add: zstep_ok_def zremCommand_def value_ok_def)
  next
    case (Some s)
    obtain z1 where z1: "zslDelete s ob (zlist zs) = Some (True, z1)" "zsl_ok z1 (filter (\<lambda>e. snd e \<noteq> ob) es)"
      using delete_keeps [OF 2(3) assms(2) Some] by blast
    obtain r d2 where d2: "dictDelete d1 ob = Some (r, d2)" "dict_rep d2 ((score_map es)(ob := None))"
      using dictGenericDelete_rep [OF d1(2)] unfolding dictDelete_def by blast
    have "length (filter (\<lambda>e. snd e \<noteq> ob) es) < 2 ^ 29"
      using assms(3) length_filter_le [of "\<lambda>e. snd e \<noteq> ob" es] by linarith
    then have "value_ok (shrink_zset env \<lparr>zdict = d2, zlist = z1\<rparr>) (filter (\<lambda>e. snd e \<noteq> ob) es)"
      using shrink_zset_ok without_ok [OF 2(3) z1(2) d2(2)] by blast
    then show ?thesis using Some d1(1) z1(1) d2(1) 2(1) by (simp add: zstep_ok_def zremCommand_def)
  qed
qed

lemma sint_count: "n < 2 ^ 32 \<Longrightarrow> sint (of_nat n :: u64) = int n"
  by (simp add: signed_of_nat signed_take_bit_int_eq_self)

lemma zremscore_ok:
  assumes "value_ok v es" "length es < 2 ^ 29"
  shows "zstep_ok env (ZRemRangeByScore mn mx) v es"
  using assms(1)
proof (cases rule: value_okE)
  case 1
  then show ?thesis by (simp add: zstep_ok_def zremrangebyscoreCommand_def value_ok_def)
next
  case (2 zs)
  note Z = zset_okD [OF 2(3)]
  let ?gone = "filter (in_range mn mx) es" and ?es = "filter (\<lambda>e. \<not> in_range mn mx e) es"
  obtain z' d' where del: "zslDeleteRangeByScore mn mx (zlist zs) (zdict zs) = Some (of_nat (length ?gone), z', d')"
    "zsl_ok z' ?es" "dict_rep d' (score_map es |` (- snd ` set ?gone))"
    using zslDeleteRangeByScore_sorted [OF Z(1,2)] by blast
  have ms: "mset es = mset ?es + mset ?gone" by (simp add: union_commute flip: multiset_partition)
  have "length ?gone < 2 ^ 29" "length ?es < 2 ^ 29" by (rule le_less_trans [OF length_filter_le assms(2)])+
  then have l: "length ?gone < 2 ^ 32" "length ?es < 2 ^ 29" by simp_all
  have "value_ok (shrink_zset env \<lparr>zdict = d', zlist = z'\<rparr>) ?es"
    by (rule shrink_zset_ok [OF zset_ok_part [OF 2(3) del(2) ms del(3)] l(2)])
  then show ?thesis using del(1) 2 sint_count [OF l(1)] by (simp add: zstep_ok_def zremrangebyscoreCommand_def Let_def)
qed

lemma list_len_ok: "zset_ok zs es \<Longrightarrow> length es < 2 ^ 29 \<Longrightarrow> list_len (zlist zs) = int (length es)"
  using zset_okD(8) [of zs es] by (simp add: list_len_def unsigned_of_nat take_bit_nat_eq_self signed_take_bit_int_eq_self)

lemma convert_range_bounds:
  "convert_range n a b = Some (s, e) \<Longrightarrow> 0 \<le> s \<and> s \<le> e \<and> e < n"
  by (auto simp: convert_range_def Let_def split: if_splits)

lemma zremrank_ok:
  assumes "value_ok v es" "length es < 2 ^ 29"
  shows "zstep_ok env (ZRemRangeByRank a b) v es"
  using assms(1)
proof (cases rule: value_okE)
  case 1
  moreover have "convert_range 0 a b = None" by (simp add: convert_range_def Let_def)
  ultimately show ?thesis by (simp add: zstep_ok_def zremrangebyrankCommand_def value_ok_def)
next
  case (2 zs)
  note Z = zset_okD [OF 2(3)]
  note L = list_len_ok [OF 2(3) assms(2)]
  show ?thesis
  proof (cases "convert_range (int (length es)) a b")
    case None
    then show ?thesis using 2 L assms(1) by (simp add: zstep_ok_def zremrangebyrankCommand_def)
  next
    case (Some se)
    obtain s e where se: "se = (s, e)" by (cases se)
    have b: "0 \<le> s" "s \<le> e" "e < int (length es)" using convert_range_bounds [of "int (length es)" a b s e] Some se by simp_all
    let ?s = "word_of_int (s + 1) :: u32" and ?e = "word_of_int (e + 1) :: u32"
    have w: "unat (word_of_int k :: u32) = nat k" if "0 \<le> k" "k < 2 ^ 32" for k
      using that by (simp add: unsigned_of_int take_bit_int_eq_self)
    have u: "unat ?s = Suc (nat s)" "unat ?e = nat (e + 1)"
      using b assms(2) w [of "s + 1"] w [of "e + 1"] by (simp_all add: nat_add_distrib del: of_int_add)
    let ?gone = "ranked (Suc (nat s)) (nat (e + 1)) es" and ?es = "take (nat s) es @ drop (nat (e + 1)) es"
    have "1 \<le> ?s" "?s \<le> ?e" "unat ?e \<le> length es" using u b by (simp_all add: word_le_nat_alt)
    from zslDeleteRangeByRank_sorted [OF Z(1,2) this] obtain z' d' where
      del: "zslDeleteRangeByRank ?s ?e (zlist zs) (zdict zs) = Some (of_nat (length ?gone), z', d')"
      "zsl_ok z' ?es" "dict_rep d' (score_map es |` (- snd ` set ?gone))"
      unfolding u by auto
    have len: "length ?gone = nat (e - s + 1)" using b by (simp add: ranked_def)
    have "take (nat s) es @ ?gone @ drop (nat (e + 1)) es = es"
    proof -
      have "?gone @ drop (nat (e + 1)) es = drop (nat s) es"
        using b append_take_drop_id [of "nat (e + 1) - nat s" "drop (nat s) es"] by (simp add: ranked_def)
      then show ?thesis by simp
    qed
    then have "mset es = mset (take (nat s) es @ ?gone @ drop (nat (e + 1)) es)" by simp
    then have ms: "mset es = mset ?es + mset ?gone" by (simp only: mset_append union_ac)
    have l: "length ?gone < 2 ^ 32" "length ?es < 2 ^ 29" using len b assms(2) by simp_all
    have "value_ok (shrink_zset env \<lparr>zdict = d', zlist = z'\<rparr>) ?es"
      by (rule shrink_zset_ok [OF zset_ok_part [OF 2(3) del(2) ms del(3)] l(2)])
    then show ?thesis
      using del(1) 2 L Some se sint_count [OF l(1)] len b by (simp add: zstep_ok_def zremrangebyrankCommand_def)
  qed
qed

section \<open>Reading by rank\<close>

lemma node_at:
  assumes "zrep z as ls es" "k < length es"
  shows "addr_at as (Suc k) = as ! Suc k" "\<exists>nd. znodes z (as ! Suc k) = Some nd \<and> score nd = fst (es ! k) \<and>
    zobj nd = Some (snd (es ! k)) \<and> backward nd = back_at as (Suc k)"
    "get_forward z (as ! Suc k) 0 = Some (addr_at as (Suc (Suc k)))" "as ! Suc k \<noteq> 0"
proof -
  note D = zrepD [OF assms(1)]
  have l: "Suc k < length ls" using D(2) assms(2) by simp
  show "addr_at as (Suc k) = as ! Suc k" "as ! Suc k \<noteq> 0" using zrep_addr [OF assms(1) l] by simp_all
  obtain nd where nd: "znodes z (as ! Suc k) = Some nd" using zrep_addr(3) [OF assms(1) l] by blast
  then have "backward nd = back_at as (Suc k)" using D(16) [OF l] by (simp add: get_backward_def)
  then show "\<exists>nd. znodes z (as ! Suc k) = Some nd \<and> score nd = fst (es ! k) \<and>
    zobj nd = Some (snd (es ! k)) \<and> backward nd = back_at as (Suc k)"
    using nd content_node [OF assms(1,2) nd] by blast
  show "get_forward z (as ! Suc k) 0 = Some (addr_at as (Suc (Suc k)))"
    using first_behind(2) [OF assms(1), of "Suc k"] assms(2) by simp
qed

lemma beyond: "zrep z as ls es \<Longrightarrow> addr_at as (Suc (length es)) = 0"
  by (drule zrepD(1)) (simp add: addr_at_def)

lemma range_forward:
  assumes "zrep z as ls es" "k + n \<le> length es"
  shows "range_loop z False ws n (addr_at as (Suc k)) = Some (map (row ws) (take n (drop k es)))"
  using assms(2)
proof (induction n arbitrary: k)
  case (Suc n)
  then have k: "k < length es" by simp
  note n = node_at [OF assms(1) k]
  show ?case
    using n Suc.IH [of "Suc k"] Suc.prems k by (auto simp: row_def simp flip: Cons_nth_drop_Suc)
qed simp

lemma range_backward:
  assumes "zrep z as ls es" "n \<le> k" "k \<le> length es"
  shows "range_loop z True ws n (if k = 0 then 0 else addr_at as k) = Some (map (row ws) (take n (rev (take k es))))"
  using assms(2,3)
proof (induction n arbitrary: k)
  case (Suc n)
  then obtain q where q: "k = Suc q" "q < length es" by (cases k) auto
  note n = node_at [OF assms(1) q(2)]
  have "back_at as (Suc q) = (if q = 0 then 0 else addr_at as q)"
    using q(2) zrepD(1) [OF assms(1)] by (simp add: back_at_def addr_at_def)
  moreover have "rev (take (Suc q) es) = es ! q # rev (take q es)" using q(2) by (simp add: take_Suc_conv_app_nth)
  ultimately show ?case
    using n Suc.IH [of q] Suc.prems q by (auto simp: row_def)
qed simp

lemma element_addr:
  assumes "zrep z as ls es" "0 < k" "k \<le> length es"
  shows "zslGetElementByRank (of_nat k) z = Some (addr_at as k)"
proof -
  note D = zrepD [OF assms(1)]
  have "unat (of_nat k :: u64) = k" using assms(3) D(3) by (simp add: unsigned_of_nat take_bit_nat_eq_self)
  then show ?thesis
    using element_levels_ok [OF assms(1) order_refl, of 0 "of_nat k"] D(7-10) by (simp add: zslGetElementByRank_def)
qed

lemma zrange_start:
  assumes "zset_ok zs es" "length es < 2 ^ 29" "0 \<le> s" "s \<le> e" "e < int (length es)"
  shows "\<exists>ln. (if reverse then
        (if s = 0 then Some (ztail (zlist zs)) else zslGetElementByRank (word_of_int (int (length es) - s)) (zlist zs))
      else
        (if s = 0 then get_forward (zlist zs) (header (zlist zs)) 0 else zslGetElementByRank (word_of_int (s + 1)) (zlist zs))) = Some ln \<and>
    range_loop (zlist zs) reverse ws (nat (e - s + 1)) ln =
      Some (map (row ws) (take (nat (e - s + 1)) (drop (nat s) (if reverse then rev es else es))))"
proof -
  obtain as ls where z: "zrep (zlist zs) as ls es" using zset_okD(6) [OF assms(1)] by blast
  note D = zrepD [OF z]
  obtain k where k: "s = int k" using assms(3) nonneg_int_cases by blast
  obtain n where n: "nat (e - s + 1) = n" "k + n \<le> length es" using assms(3-5) k by auto
  show ?thesis
  proof (cases reverse)
    case False
    have "(if s = 0 then get_forward (zlist zs) (header (zlist zs)) 0 else zslGetElementByRank (word_of_int (s + 1)) (zlist zs)) =
        Some (addr_at as (Suc k))"
    proof (cases "s = 0")
      case True
      then show ?thesis using first_behind(2) [OF z, of 0] D(7) k by simp
    next
      case False
      have "word_of_int (s + 1) = (of_nat (Suc k) :: u64)" using k by simp
      then show ?thesis using False element_addr [OF z, of "Suc k"] assms(4,5) k by (simp add: add.commute)
    qed
    then show ?thesis using False range_forward [OF z n(2)] n(1) k by simp
  next
    case True
    let ?m = "length es - k"
    have m: "0 < ?m" "?m \<le> length es" "n \<le> ?m" using assms(4,5) k n(2) by auto
    have "(if s = 0 then Some (ztail (zlist zs)) else zslGetElementByRank (word_of_int (int (length es) - s)) (zlist zs)) =
        Some (addr_at as ?m)"
    proof (cases "s = 0")
      case True
      moreover have "as \<noteq> []" using D(1) by auto
      ultimately show ?thesis using D(1,13) m(1) k by (auto simp: addr_at_def last_conv_nth)
    next
      case False
      have "word_of_int (int (length es) - s) = (of_nat ?m :: u64)" using k m(1) by (simp add: of_nat_diff)
      then show ?thesis using False element_addr [OF z m(1,2)] by simp
    qed
    moreover have "drop k (rev es) = rev (take ?m es)" using n(2) by (simp add: rev_take)
    ultimately show ?thesis using True range_backward [OF z m(3,2)] m(1) n(1) k by simp
  qed
qed

lemma zrange_ok:
  assumes "value_ok v es" "length es < 2 ^ 29"
  shows "zstep_ok env (ZRange reverse ws a b) v es"
  using assms(1)
proof (cases rule: value_okE)
  case 1
  moreover have "convert_range 0 a b = None" by (simp add: convert_range_def Let_def)
  ultimately show ?thesis by (simp add: zstep_ok_def zrangeGenericCommand_def value_ok_def)
next
  case (2 zs)
  note L = list_len_ok [OF 2(3) assms(2)]
  show ?thesis
  proof (cases "convert_range (int (length es)) a b")
    case None
    then show ?thesis using 2 L assms(1) by (simp add: zstep_ok_def zrangeGenericCommand_def)
  next
    case (Some se)
    obtain s e where se: "se = (s, e)" by (cases se)
    have b: "0 \<le> s" "s \<le> e" "e < int (length es)" using convert_range_bounds [of "int (length es)" a b s e] Some se by simp_all
    let ?rows = "map (row ws) (take (nat (e - s + 1)) (drop (nat s) (if reverse then rev es else es)))"
    from zrange_start [OF 2(3) assms(2) b, of reverse ws] obtain ln where
      ln: "(if reverse then
          (if s = 0 then Some (ztail (zlist zs)) else zslGetElementByRank (word_of_int (int (length es) - s)) (zlist zs))
        else
          (if s = 0 then get_forward (zlist zs) (header (zlist zs)) 0 else zslGetElementByRank (word_of_int (s + 1)) (zlist zs))) = Some ln"
      "range_loop (zlist zs) reverse ws (nat (e - s + 1)) ln = Some ?rows"
      by blast
    have "zrangeGenericCommand reverse ws a b v = Some (RMulti ?rows, v, 0)"
      unfolding zrangeGenericCommand_def 2(1) option.case zvalue.case L Let_def Some se prod.case ln bind.bind_lunit ..
    then show ?thesis using assms(1) Some se by (simp add: zstep_ok_def)
  qed
qed

section \<open>Reading by score\<close>

lemma above_filter:
  assumes "sorted_wrt (<) (map zkey (es :: ('s::linorder \<times> sobj) list))"
  shows "filter (above mn minex) es = drop (length (takeWhile (\<lambda>e. \<not> above mn minex e) es)) es"
proof -
  have "initial (\<lambda>e. \<not> above mn minex e) es"
    using sorted_key_initial(3,4) [OF assms, of mn] by (cases minex) (simp_all add: above_def not_less not_le)
  from initial_filter [OF this] show ?thesis by (simp add: dropWhile_eq_drop)
qed

lemma skip_equal_ok:
  assumes "zrep z as ls es" "k \<le> r" "r \<le> length es"
    "\<And>j. k \<le> j \<Longrightarrow> j < r \<Longrightarrow> fst (es ! j) = mn" "r < length es \<Longrightarrow> fst (es ! r) \<noteq> mn"
  shows "skip_equal z mn (addr_at as (Suc k)) = Some (addr_at as (Suc r))"
  using assms(2,4)
proof (induction "r - k" arbitrary: k)
  case 0
  then have k: "k = r" by simp
  show ?case
  proof (cases "r < length es")
    case True
    note n = node_at [OF assms(1) True]
    then show ?thesis using assms(5) True k by (subst skip_equal.simps) auto
  next
    case False
    then have "r = length es" using assms(3) by simp
    then show ?thesis using beyond [OF assms(1)] k by (subst skip_equal.simps) simp
  qed
next
  case (Suc n)
  then have k: "k < r" "k < length es" using assms(3) by simp_all
  note n = node_at [OF assms(1) k(2)]
  have "skip_equal z mn (addr_at as (Suc (Suc k))) = Some (addr_at as (Suc r))"
    using Suc.hyps k Suc.prems(2) by (intro Suc.hyps(1)) auto
  moreover have "fst (es ! k) = mn" using Suc.prems(2) [of k] k(1) by simp
  ultimately show ?case using n by (subst skip_equal.simps) auto
qed

lemma score_loop_ok:
  assumes "zrep z as ls es" "k \<le> length es" "0 \<le> off"
  shows "score_loop z mx maxex ws off lim (addr_at as (Suc k)) rows =
    Some (rows @ map (row ws) (limited off lim (takeWhile (below mx maxex) (drop k es))))"
  using assms(2,3)
proof (induction "length es - k" arbitrary: k off lim rows)
  case 0
  then have "k = length es" by simp
  then show ?case using beyond [OF assms(1)] by (subst score_loop.simps) (simp add: limited_def)
next
  case (Suc n)
  then have k: "k < length es" by simp
  note nd = node_at [OF assms(1) k]
  have dr: "drop k es = es ! k # drop (Suc k) es" using k by (simp add: Cons_nth_drop_Suc)
  have IH: "score_loop z mx maxex ws off' lim' (addr_at as (Suc (Suc k))) rows' =
    Some (rows' @ map (row ws) (limited off' lim' (takeWhile (below mx maxex) (drop (Suc k) es))))"
    if "0 \<le> off'" for off' lim' rows'
    using Suc.hyps(2) k that by (intro Suc.hyps(1)) auto
  obtain x where x: "znodes z (as ! Suc k) = Some x" "score x = fst (es ! k)" "zobj x = Some (snd (es ! k))"
    using nd(2) by blast
  show ?case
  proof (cases "below mx maxex (es ! k)")
    case False
    then show ?thesis using nd x dr by (subst score_loop.simps) (auto simp: below_def limited_def)
  next
    case True
    then have go: "if maxex then score x < mx else score x \<le> mx" using x(2) by (simp add: below_def)
    let ?tl = "takeWhile (below mx maxex) (drop (Suc k) es)"
    have tw: "takeWhile (below mx maxex) (drop k es) = es ! k # ?tl" using dr True by simp
    consider "off \<noteq> 0" | "off = 0" "lim = 0" | "off = 0" "lim \<noteq> 0" by blast
    then show ?thesis
    proof cases
      case 1
      have "nat off = Suc (nat (off - 1))" using 1 Suc.prems(2) by simp
      then have "limited off lim (es ! k # ?tl) = limited (off - 1) lim ?tl" by (simp add: limited_def)
      then show ?thesis
        using 1 nd x go tw IH [of "off - 1" lim rows] Suc.prems(2) by (subst score_loop.simps) (cases maxex; simp)
    next
      case 2
      then show ?thesis using nd x go tw by (subst score_loop.simps) (cases maxex; simp add: limited_def)
    next
      case 3
      have "limited 0 lim (es ! k # ?tl) = es ! k # limited 0 (if lim > 0 then lim - 1 else lim) ?tl"
      proof (cases "lim > 0")
        case True
        then have "nat lim = Suc (nat (lim - 1))" by simp
        then show ?thesis using True by (simp add: limited_def)
      qed (use 3 in \<open>simp add: limited_def\<close>)
      then show ?thesis
        using 3 nd x go tw IH [of 0] by (subst score_loop.simps) (cases maxex; simp add: row_def)
    qed
  qed
qed

lemma first_with_score:
  assumes "zrep z as ls es" "sorted_wrt (<) (map zkey es)"
  shows "zslFirstWithScore s z = Some (addr_at as (Suc (length (takeWhile (\<lambda>e. fst e < s) es))))"
proof -
  let ?r = "length (takeWhile (\<lambda>e. fst e < s) es)"
  note D = zrepD [OF assms(1)]
  have "descend z (\<lambda>acc sp nf. Some (score nf < s)) (zlevel z) (header z) (0 :: u32) = Some (update_of as ls ?r (zlevel z))"
    using descend_ok [OF assms(1) score_go [OF assms] order_refl, of 0 s] D(7,8,10) by simp
  then show ?thesis
    using first_behind(1) [OF assms(1) length_takeWhile_le, where 'w = 32] first_behind(2) [OF assms(1) length_takeWhile_le]
    by (simp add: zslFirstWithScore_def)
qed

lemma skip_start:
  assumes "zrep z as ls es" "sorted_wrt (<) (map zkey es)"
  shows "(if minex then skip_equal z mn (addr_at as (Suc (length (takeWhile (\<lambda>e. fst e < mn) es))))
      else Some (addr_at as (Suc (length (takeWhile (\<lambda>e. fst e < mn) es))))) =
    Some (addr_at as (Suc (length (takeWhile (\<lambda>e. \<not> above mn minex e) es))))"
proof (cases minex)
  case False
  then show ?thesis by (simp add: above_def not_le)
next
  case True
  let ?k = "length (takeWhile (\<lambda>e. fst e < mn) es)" and ?r = "length (takeWhile (\<lambda>e. fst e \<le> mn) es)"
  note lt = initial_takeWhile [OF sorted_key_initial(3) [OF assms(2), of mn]]
  note le = initial_takeWhile [OF sorted_key_initial(4) [OF assms(2), of mn]]
  have rl: "?r \<le> length es" by (rule length_takeWhile_le)
  have "?k \<le> ?r"
  proof (rule ccontr)
    assume n: "\<not> ?k \<le> ?r"
    then have "?r < length es" using length_takeWhile_le [of "\<lambda>e. fst e < mn" es] by simp
    then show False using lt [of ?r] le [of ?r] n by auto
  qed
  then have "skip_equal z mn (addr_at as (Suc ?k)) = Some (addr_at as (Suc ?r))"
  proof (rule skip_equal_ok [OF assms(1) _ rl])
    show "fst (es ! j) = mn" if "?k \<le> j" "j < ?r" for j
      using lt [of j] le [of j] that rl by (simp add: antisym_conv2)
    show "fst (es ! ?r) \<noteq> mn" if "?r < length es" using le [OF that] by auto
  qed
  then show ?thesis using True by (simp add: above_def not_less)
qed

lemma zrangebyscore_ok:
  assumes "value_ok v es"
  shows "zstep_ok env (ZRangeByScore jc mn minex mx maxex ws off lim) v es"
  using assms(1)
proof (cases rule: value_okE)
  case 1
  then show ?thesis by (simp add: zstep_ok_def genericZrangebyscoreCommand_def value_ok_def limited_def Let_def)
next
  case (2 zs)
  note Z = zset_okD [OF 2(3)]
  obtain as ls where z: "zrep (zlist zs) as ls es" using Z(6) by blast
  let ?r = "length (takeWhile (\<lambda>e. \<not> above mn minex e) es)"
  note A = above_filter [OF Z(9), of mn minex]
  have rl: "?r \<le> length es" by (rule length_takeWhile_le)
  have ab: "filter (above mn minex) es = [] \<longleftrightarrow> ?r = length es" unfolding A using rl by auto
  have ln: "addr_at as (Suc ?r) = 0 \<longleftrightarrow> ?r = length es"
    using node_at(1,4) [OF z, of ?r] beyond [OF z] rl by (cases "?r = length es") auto
  define o' where "o' = (if off < 0 then 0 else off)"
  have o': "0 \<le> o'" "nat o' = nat off" by (simp_all add: o'_def)
  have "initial (below mx maxex) es"
    using sorted_key_initial(3,4) [OF Z(9), of mx] by (cases maxex) (simp_all add: below_def [abs_def])
  then have "initial (below mx maxex) (drop ?r es)"
    unfolding initial_def by (metis (no_types, lifting) add_less_cancel_left length_drop less_diff_conv add.commute nth_drop rl)
  then have "filter (below mx maxex) (drop ?r es) = takeWhile (below mx maxex) (drop ?r es)"
    using initial_filter by blast
  then have hits: "filter (\<lambda>e. above mn minex e \<and> below mx maxex e) es = takeWhile (below mx maxex) (drop ?r es)"
    unfolding A [symmetric] by (simp add: conj_commute)
  have "score_loop (zlist zs) mx maxex ws o' lim (addr_at as (Suc ?r)) [] =
      Some (map (row ws) (limited off lim (filter (\<lambda>e. above mn minex e \<and> below mx maxex e) es)))"
    using score_loop_ok [OF z rl o'(1), of mx maxex ws lim "[]"] o'(2) unfolding hits by (simp add: limited_def)
  then have "genericZrangebyscoreCommand jc mn minex mx maxex ws off lim v =
      Some (fst (zspec (plus_of env) (ZRangeByScore jc mn minex mx maxex ws off lim) es), v, 0)"
    using 2(1) first_with_score [OF z Z(9), of mn] skip_start [OF z Z(9), of minex mn] ab ln
    unfolding genericZrangebyscoreCommand_def Let_def o'_def [symmetric] by simp
  then show ?thesis using assms by (simp add: zstep_ok_def Let_def)
qed

section \<open>Cardinality, scores and ranks\<close>

lemma zcard_ok:
  assumes "value_ok v es"
  shows "zstep_ok env ZCard v es"
  using assms(1)
proof (cases rule: value_okE)
  case (2 zs)
  note Z = zset_okD [OF 2(3)]
  have "uint (zlength (zlist zs)) = int (length es)"
    using Z(7,8) by (simp add: unsigned_of_nat take_bit_nat_eq_self)
  then show ?thesis using 2 assms by (simp add: zstep_ok_def zcardCommand_def)
qed (simp add: zstep_ok_def zcardCommand_def value_ok_def)

lemma zscore_ok:
  assumes "value_ok v es"
  shows "zstep_ok env (ZScore ob) v es"
  using assms(1)
proof (cases rule: value_okE)
  case (2 zs)
  obtain d1 where d1: "find_score (zdict zs) ob = Some (score_map es ob, d1)" "dict_rep d1 (score_map es)"
    using find_score_ok [OF zset_okD(2) [OF 2(3)]] by blast
  have "zset_ok (zs\<lparr>zdict := d1\<rparr>) es" using 2(3) d1(2) by (simp add: zset_ok_def)
  then have "value_ok (Some (ZsetVal (zs\<lparr>zdict := d1\<rparr>))) es" using 2(2) by (simp add: value_ok_def)
  then show ?thesis using d1(1) 2(1) by (simp add: zstep_ok_def zscoreCommand_def split: option.splits)
qed (simp add: zstep_ok_def zscoreCommand_def value_ok_def)

lemma index_of_nth:
  assumes "distinct (map snd es)" "k < length es"
  shows "index_of (snd (es ! k)) es = k"
proof -
  have "takeWhile (\<lambda>e. snd e \<noteq> snd (es ! k)) es = take k es"
    using assms nth_eq_iff_index_eq [OF assms(1)] by (intro takeWhile_eq_take_P_nth) auto
  then show ?thesis using assms(2) by (simp add: index_of_def)
qed

lemma rank_in:
  assumes "zset_ok zs es" "canon ob" "score_map es ob = Some s"
  shows "zslGetRank s ob (zlist zs) = Some (of_nat (Suc (index_of ob es)))" "index_of ob es < length es"
proof -
  note Z = zset_okD [OF assms(1)]
  have m: "(s, ob) \<in> set es" using assms(3) score_map_iff [OF Z(3)] by simp
  then obtain k where k: "k < length es" "es ! k = (s, ob)" by (metis in_set_conv_nth)
  have idx: "index_of ob es = k" using index_of_nth [OF Z(3) k(1)] k(2) by simp
  then show "index_of ob es < length es" using k(1) by simp
  have q: "zkey (es ! k) = (s, text_of ob)" using k(2) by (simp add: zkey_def)
  have "\<forall>e \<in> set es. text_of (snd e) = text_of ob \<longrightarrow> fst e = s"
    using key_of_object [OF assms(1,2)] score_of [OF assms(1,3)] by auto
  from zslGetRank_count [OF Z(1) canon_plain [OF assms(2)] this]
  have "zslGetRank s ob (zlist zs) = Some (if (s, text_of ob) \<in> zkey ` set es
      then of_nat (length (filter (\<lambda>e. zkey e \<le> (s, text_of ob)) es)) else 0)" .
  moreover have "(s, text_of ob) \<in> zkey ` set es" using m by (force simp: zkey_def)
  moreover have "length (filter (\<lambda>e. zkey e \<le> (s, text_of ob)) es) = Suc k"
    using rank_of_key [OF Z(1) k(1)] initial_filter [OF sorted_key_initial(2) [OF Z(9)]] unfolding q by simp
  ultimately show "zslGetRank s ob (zlist zs) = Some (of_nat (Suc (index_of ob es)))" unfolding idx by (simp only: if_True)
qed

lemma zrank_ok:
  assumes "value_ok v es" "canon ob" "length es < 2 ^ 29"
  shows "zstep_ok env (ZRank reverse ob) v es"
  using assms(1)
proof (cases rule: value_okE)
  case (2 zs)
  note Z = zset_okD [OF 2(3)]
  obtain d1 where d1: "find_score (zdict zs) ob = Some (score_map es ob, d1)" "dict_rep d1 (score_map es)"
    using find_score_ok [OF Z(2)] by blast
  have "zset_ok (zs\<lparr>zdict := d1\<rparr>) es" using 2(3) d1(2) by (simp add: zset_ok_def)
  then have v: "value_ok (Some (ZsetVal (zs\<lparr>zdict := d1\<rparr>))) es" using 2(2) by (simp add: value_ok_def)
  show ?thesis
  proof (cases "score_map es ob")
    case None
    then show ?thesis using v d1(1) 2(1) by (simp add: zstep_ok_def zrankGenericCommand_def Let_def)
  next
    case (Some s)
    let ?i = "index_of ob es"
    note R = rank_in [OF 2(3) assms(2) Some]
    have nz: "(of_nat (Suc ?i) :: u64) \<noteq> 0"
    proof -
      have "unat (of_nat (Suc ?i) :: u64) = Suc ?i"
        using R(2) assms(3) by (simp only: unsigned_of_nat) (simp add: take_bit_nat_eq_self)
      then show ?thesis by (metis nat.distinct(1) unsigned_0)
    qed
    have c: "sint (of_nat (length es) - of_nat (Suc ?i) :: u64) = int (length es - 1 - ?i)"
      "sint (of_nat (Suc ?i) - 1 :: u64) = int ?i"
    proof -
      have "(of_nat (length es) - of_nat (Suc ?i) :: u64) = of_nat (length es - 1 - ?i)" using R(2) by (simp add: of_nat_diff)
      then show "sint (of_nat (length es) - of_nat (Suc ?i) :: u64) = int (length es - 1 - ?i)"
        using sint_count [of "length es - 1 - ?i"] assms(3) by simp
      show "sint (of_nat (Suc ?i) - 1 :: u64) = int ?i" using sint_count [of ?i] R(2) assms(3) by simp
    qed
    have "zrankGenericCommand reverse ob v = Some (RInt (int (if reverse then length es - 1 - ?i else ?i)),
        Some (ZsetVal (zs\<lparr>zdict := d1\<rparr>)), 0)"
      unfolding zrankGenericCommand_def 2(1) option.case zvalue.case d1(1) bind.bind_lunit prod.case Let_def Some R(1)
      using nz c Z(8) by (simp del: of_nat_Suc)
    then show ?thesis using v Some by (simp add: zstep_ok_def)
  qed
qed (simp add: zstep_ok_def zrankGenericCommand_def value_ok_def)

section \<open>Sequences of commands\<close>

definition zcmd_ok :: "'s zcmd \<Rightarrow> bool" where
  "zcmd_ok c \<longleftrightarrow> (case c of ZAdd incr rs s ob \<Rightarrow> canon ob | ZRem ob \<Rightarrow> canon ob | ZRank reverse ob \<Rightarrow> canon ob | _ \<Rightarrow> True)"

lemma zexec_ok:
  assumes "value_ok v es" "env_ok env" "zcmd_ok c" "length es < 2 ^ 29"
  shows "if keeps_score (plus_of env) c es then zexec env c v = None else zstep_ok env c v es"
  using assms(3) zadd_ok [OF assms(1,2) _ assms(4)] zrem_ok [OF assms(1) _ assms(4)] zremscore_ok [OF assms(1,4)]
    zremrank_ok [OF assms(1,4)] zrange_ok [OF assms(1,4)] zrangebyscore_ok [OF assms(1)] zcard_ok [OF assms(1)]
    zscore_ok [OF assms(1)] zrank_ok [OF assms(1) _ assms(4)]
  by (cases c) (simp_all add: zcmd_ok_def del: keeps_score.simps(1) zexec.simps(1))

fun run_zset :: "'s::{linorder, zero} zenv \<Rightarrow> 's zcmd list \<Rightarrow> 's zvalue option \<Rightarrow> ('s zreply \<times> int) list option" where
  "run_zset env [] v = Some []"
| "run_zset env (c # cs) v = do {
     (r, v', dirty) \<leftarrow> zexec env c v;
     rs \<leftarrow> run_zset env cs v';
     Some ((r, dirty) # rs) }"

text \<open>The answers a sequence of elements gives; there is none from a \<open>ZINCRBY\<close> on that keeps a score.\<close>

fun run_spec :: "('s::linorder \<Rightarrow> 's \<Rightarrow> 's option) \<Rightarrow> 's zcmd list \<Rightarrow> ('s \<times> sobj) list \<Rightarrow> ('s zreply \<times> int) list option" where
  "run_spec addf [] es = Some []"
| "run_spec addf (c # cs) es =
     (if keeps_score addf c es then None
      else let (r, es', dirty) = zspec addf c es in do { rs \<leftarrow> run_spec addf cs es'; Some ((r, dirty) # rs) })"

lemma zspec_length: "length (fst (snd (zspec addf c es))) \<le> Suc (length es)"
proof (cases c)
  case (ZAdd incr rs s ob)
  have "length (zput x ob es) \<le> Suc (length es)" for x
    using length_filter_le [of "\<lambda>e. snd e \<noteq> ob" es] by (simp add: zput_def length_insort)
  then show ?thesis using ZAdd by (auto split: option.split)
next
  case (ZRemRangeByRank a b)
  then show ?thesis
    by (auto split: option.split prod.split dest!: convert_range_bounds)
qed (auto simp: Let_def le_SucI length_filter_le split: option.split prod.split)

lemma run_zset_ok:
  assumes "value_ok v es" "env_ok env" "\<forall>c \<in> set cs. zcmd_ok c" "length es + length cs < 2 ^ 29"
  shows "run_zset env cs v = run_spec (plus_of env) cs es"
  using assms(1,3,4)
proof (induction cs arbitrary: v es)
  case (Cons c cs)
  have c: "zcmd_ok c" "length es < 2 ^ 29" using Cons.prems by simp_all
  note step = zexec_ok [OF Cons.prems(1) assms(2) c]
  show ?case
  proof (cases "keeps_score (plus_of env) c es")
    case True
    then show ?thesis using step by simp
  next
    case False
    obtain r es' dirty where sp: "zspec (plus_of env) c es = (r, es', dirty)" by (metis prod_cases3)
    obtain v' where v': "zexec env c v = Some (r, v', dirty)" "value_ok v' es'"
      using step False sp by (auto simp: zstep_ok_def)
    have "length es' \<le> Suc (length es)" using zspec_length [of "plus_of env" c es] sp by simp
    then have "run_zset env cs v' = run_spec (plus_of env) cs es'"
      using Cons.prems(2,3) by (intro Cons.IH [OF v'(2)]) auto
    then show ?thesis using v'(1) sp False by simp
  qed
qed simp

text \<open>C8: any sequence of sorted set commands on a key answers as a sequence of elements in ascending
  order does, up to \<open>2 ^ 29\<close> elements, whatever levels the skip list draws and whatever rehashing the
  hash table is in: \<open>ZADD\<close>, \<open>ZINCRBY\<close>, \<open>ZREM\<close>, the two range removals, ranges by rank and by score in
  both directions, with limits, counts, scores and ranks. No assertion fails, the number of changes
  reported is right, and the only fault is that of a \<open>ZINCRBY\<close> that leaves the score as it is: it
  always reads the number it has just freed.\<close>

theorem zset_runs_as_sorted_sequence:
  assumes "env_ok env" "\<forall>c \<in> set cs. zcmd_ok c" "length cs < 2 ^ 29"
  shows "run_zset env cs None = run_spec (plus_of env) cs []"
  using run_zset_ok [of None "[]" env cs] assms by (simp add: value_ok_def)

definition sample_env :: "int zenv" where
  "sample_env = \<lparr>can_resize = True,
     zsetDictType = \<lparr>hashFunction = (\<lambda>_. 0), keyDup = None, valDup = None, keyCompare = None,
       keyDestructor = True, valDestructor = True\<rparr>,
     fill_of = (\<lambda>_. 0), header_at = 1, alloc = (\<lambda>z. Suc (Max (insert 0 (dom (znodes z))))),
     plus_of = (\<lambda>a b. Some (a + b))\<rparr>"

lemma sample_env_ok: "env_ok sample_env"
proof -
  have "znodes z (Suc (Max (insert 0 (dom (znodes z))))) = None" if "finite (dom (znodes z))" for z :: "int zsl"
  proof (rule ccontr)
    assume "znodes z (Suc (Max (insert 0 (dom (znodes z))))) \<noteq> None"
    then have "Suc (Max (insert 0 (dom (znodes z)))) \<le> Max (insert 0 (dom (znodes z)))"
      using that by (intro Max_ge) auto
    then show False by simp
  qed
  then show ?thesis by (simp add: env_ok_def sample_env_def plain_type_def)
qed

lemma canon_letter:
  assumes "\<not> (48 \<le> c \<and> c \<le> 57)" "c \<noteq> 45" "c \<noteq> 0"
  shows "canon (Raw [c])"
proof -
  have "[c] \<noteq> dec_text v" if lv: "is_long v" for v
  proof -
    obtain ds where ds: "dec_text v = (if v < 0 then 45 # ds else ds)" "\<forall>d \<in> set ds. 48 \<le> d \<and> d \<le> 57"
      by (rule dec_textE [OF lv])
    show ?thesis
    proof
      assume e: "[c] = dec_text v"
      show False using ds assms(1,2) unfolding e [symmetric] by (auto split: if_splits)
    qed
  qed
  then show ?thesis using assms(3) by (simp add: canon_def plain_def)
qed

theorem zset_runs_as_sorted_sequence_witness:
  "run_zset sample_env [ZAdd False [] 5 (Raw [97]), ZAdd True [0] (- 2) (Raw [97]), ZAdd False [] 1 (Raw [98]),
     ZRange False True 0 (- 1), ZRank True (Raw [98])] None =
   Some [(COne, 1), (RDouble 3, 1), (COne, 1), (RMulti [(Raw [98], Some 1), (Raw [97], Some 3)], 0), (RInt 1, 0)]"
proof -
  let ?cs = "[ZAdd False [] 5 (Raw [97]), ZAdd True [0] (- 2) (Raw [97]), ZAdd False [] 1 (Raw [98]),
     ZRange False True 0 (- 1), ZRank True (Raw [98])] :: int zcmd list"
  have "\<forall>c \<in> set ?cs. zcmd_ok c" by (simp add: zcmd_ok_def canon_letter)
  from zset_runs_as_sorted_sequence [OF sample_env_ok this] show ?thesis
    by (simp add: sample_env_def score_map_def zput_def zkey_def less_eq_prod_def convert_range_def Let_def row_def index_of_def)
qed

text \<open>\<open>ZADD key 5 a\<close> and \<open>ZINCRBY key 0 a\<close>.\<close>

theorem zincrby_reads_freed_score:
  "run_zset sample_env [ZAdd False [] 5 (Raw [97]), ZAdd True [] 0 (Raw [97])] None = None"
proof -
  have "\<forall>c \<in> set [ZAdd False [] 5 (Raw [97]), ZAdd True [] 0 (Raw [97])]. zcmd_ok c"
    by (simp add: zcmd_ok_def canon_letter)
  from run_zset_ok [OF _ sample_env_ok this, of None "[]"] show ?thesis
    by (simp add: value_ok_def sample_env_def score_map_def zput_def)
qed

end
