(* ===== verification/Keyspace_Values.thy ===== *)
theory Keyspace_Values
  imports Keyspace_Rep Hash_Commands_Spec Sorted_Set_Spec
begin

text \<open>
  The values of keys, apart from their encoding: a text, a map from fields to values, a sequence of
  scored elements. A database of objects represents a database of such values; \<open>N\<close> bounds the number
  of keys and the size of each value.
\<close>

datatype 's avalue = AString bytes | AHash "bytes \<Rightarrow> bytes option" | AZset "('s \<times> sobj) list" | AList | ASet

fun value_rep :: "nat \<Rightarrow> 's::linorder rvalue \<Rightarrow> 's avalue \<Rightarrow> bool" where
  "value_rep N (VString ob) (AString t) = (sobj_ok ob \<and> text_of ob = t \<and> length t \<le> N)"
| "value_rep N (VHash h) (AHash m) = (m \<noteq> (\<lambda>_. None) \<and> hash_rep h m \<and> max 2 (hash_extent h) \<le> N)"
| "value_rep N (VZset zs) (AZset es) = (es \<noteq> [] \<and> zset_ok zs es \<and> length es \<le> N)"
| "value_rep N VList AList = True"
| "value_rep N VSet ASet = True"
| "value_rep N _ _ = False"

fun_cases value_rep_cases:
  "value_rep N v (AString t) = True" "value_rep N v (AHash m) = True" "value_rep N v (AZset es) = True"

lemma value_rep_mono: "value_rep N v w \<Longrightarrow> N \<le> N' \<Longrightarrow> value_rep N' v w"
  by (induction N v w rule: value_rep.induct) auto

definition sim :: "nat \<Rightarrow> 's::linorder rvalue kstate \<Rightarrow> 's avalue kstate \<Rightarrow> bool" where
  "sim N ks as \<longleftrightarrow> (\<forall>k. rel_option (value_rep N) (vals ks k) (vals as k)) \<and> deadline ks = deadline as \<and>
     changes ks = changes as \<and> gone ks = gone as \<and> card (dom (vals ks)) \<le> N"

definition db_ok :: "nat \<Rightarrow> 's::linorder rvalue kdb \<Rightarrow> 's avalue kstate \<Rightarrow> bool" where
  "db_ok N db as \<longleftrightarrow> (\<exists>ks. krep db ks \<and> sim N ks as)"

lemma sim_mono: "sim N ks as \<Longrightarrow> N \<le> N' \<Longrightarrow> sim N' ks as"
  unfolding sim_def using value_rep_mono by (metis (mono_tags, lifting) le_trans option.rel_mono_strong)

lemma db_ok_mono: "db_ok N db as \<Longrightarrow> N \<le> N' \<Longrightarrow> db_ok N' db as"
  unfolding db_ok_def using sim_mono by blast

lemma simD:
  assumes "sim N ks as"
  shows "rel_option (value_rep N) (vals ks k) (vals as k)" "vals ks k = None \<longleftrightarrow> vals as k = None"
    "deadline ks = deadline as" "dom (vals ks) = dom (vals as)" "card (dom (vals as)) \<le> N" "card (dom (vals ks)) \<le> N"
proof -
  have r: "rel_option (value_rep N) (vals ks x) (vals as x)" for x using assms by (simp add: sim_def)
  show "rel_option (value_rep N) (vals ks k) (vals as k)" by (rule r)
  have n: "vals ks x = None \<longleftrightarrow> vals as x = None" for x
    using r [of x] by (cases "vals ks x"; cases "vals as x") auto
  show "vals ks k = None \<longleftrightarrow> vals as k = None" by (rule n)
  show d: "dom (vals ks) = dom (vals as)" using n by (simp add: dom_def)
  show "deadline ks = deadline as" "card (dom (vals as)) \<le> N" "card (dom (vals ks)) \<le> N"
    using assms d by (simp_all add: sim_def)
qed

section \<open>The operations on keys preserve the simulation\<close>

lemma card_remove: "finite A \<Longrightarrow> card (A - {x}) \<le> card A"
  by (simp add: card_mono)

lemma sim_remove:
  assumes "sim N ks as" "finite (dom (vals ks))"
  shows "sim N (a_remove k ks) (a_remove k as)"
proof -
  have "card (dom ((vals ks)(k := None))) \<le> N"
    using card_remove [OF assms(2), of k] simD(6) [OF assms(1)] by simp
  then show ?thesis using assms(1) by (simp add: sim_def a_remove_def)
qed

lemma sim_counts: "sim N ks as \<Longrightarrow> sim N (ks\<lparr>changes := changes ks + m, gone := gone ks + n\<rparr>) (as\<lparr>changes := changes as + m, gone := gone as + n\<rparr>)"
  by (simp add: sim_def)

lemma sim_gone: "sim N ks as \<Longrightarrow> sim N (ks\<lparr>gone := gone ks + n\<rparr>) (as\<lparr>gone := gone as + n\<rparr>)"
  by (simp add: sim_def)

lemma sim_touch: "sim N ks as \<Longrightarrow> sim N (a_touch n ks) (a_touch n as)"
  by (simp add: sim_def a_touch_def)

lemma sim_expire:
  assumes "sim N ks as" "finite (dom (vals ks))"
  shows "sim N (a_expire now k ks) (a_expire now k as)"
proof -
  have "overdue now ks k = overdue now as k" by (simp add: overdue_def simD(3) [OF assms(1)])
  then show ?thesis
    using sim_gone [OF sim_remove [OF assms], of k 1] assms(1) by (simp add: a_expire_def)
qed

lemma sim_volatile:
  assumes "sim N ks as" "finite (dom (vals ks))"
  shows "sim N (a_volatile k ks) (a_volatile k as)"
  using sim_counts [OF sim_remove [OF assms], of k 1 1] assms(1)
  by (simp add: a_volatile_def simD(3) [OF assms(1)])

lemma sim_persist: "sim N ks as \<Longrightarrow> sim N (a_persist k ks) (a_persist k as)"
  by (simp add: sim_def a_persist_def)

lemma sim_deadline: "sim N ks as \<Longrightarrow> sim N (a_deadline k t ks) (a_deadline k t as)"
  by (simp add: sim_def a_deadline_def)

lemma sim_put:
  assumes "sim N ks as" "finite (dom (vals ks))" "value_rep N' v w" "N < N'"
  shows "sim N' (a_put k v ks) (a_put k w as)"
proof -
  have "card (dom ((vals ks)(k \<mapsto> v))) \<le> Suc (card (dom (vals ks)))"
    using assms(2) by (simp add: card_insert_if)
  then have "card (dom ((vals ks)(k \<mapsto> v))) \<le> N'" using simD(6) [OF assms(1)] assms(4) by simp
  moreover have "sim N' ks as" using sim_mono [OF assms(1)] assms(4) by simp
  ultimately show ?thesis using assms(3) by (auto simp: sim_def a_put_def)
qed

section \<open>The operations on databases\<close>

lemma db_okE:
  assumes "db_ok N db as"
  obtains ks where "krep db ks" "sim N ks as" "finite (dom (vals ks))"
  using assms krepD(6) by (auto simp: db_ok_def)

lemma db_okI: "krep db ks \<Longrightarrow> sim N ks as \<Longrightarrow> db_ok N db as"
  by (auto simp: db_ok_def)

lemma db_card: "db_ok N db as \<Longrightarrow> card (dom (vals as)) \<le> N" "db_ok N db as \<Longrightarrow> dictSize (kdict db) = card (dom (vals as))"
  "db_ok N db as \<Longrightarrow> vals as k = None \<Longrightarrow> deadline as k = None"
proof -
  assume "db_ok N db as"
  then obtain ks where ks: "krep db ks" "sim N ks as" by (rule db_okE)
  show "card (dom (vals as)) \<le> N" using simD(5) [OF ks(2)] .
  show "dictSize (kdict db) = card (dom (vals as))" using krepD(7) [OF ks(1)] simD(4) [OF ks(2)] by simp
  show "vals as k = None \<Longrightarrow> deadline as k = None" using krepD(9) [OF ks(1)] simD(2,3) [OF ks(2)] by metis
qed

text \<open>What a lookup finds: the place of the value the key has, or nothing.\<close>

definition found :: "nat \<Rightarrow> 's::linorder rvalue kdb \<Rightarrow> bytes \<Rightarrow> 's avalue kstate \<Rightarrow> ((bool \<times> nat \<times> nat) \<times> 's rvalue) option \<Rightarrow> bool" where
  "found N db k as r \<longleftrightarrow> rel_option (value_rep N) (map_option snd r) (vals as k) \<and>
     (\<exists>ks. krep db ks \<and> sim N ks as \<and> (\<forall>p v. r = Some (p, v) \<longrightarrow> pos_ok (kdict db) p k v \<and> vals ks k = Some v))"

lemma foundD: "found N db k as r \<Longrightarrow> db_ok N db as" "found N db k as r \<Longrightarrow> r = None \<longleftrightarrow> vals as k = None"
  "found N db k as (Some (p, v)) \<Longrightarrow> \<exists>w. vals as k = Some w \<and> value_rep N v w"
  by (auto simp: found_def db_ok_def option_rel_Some1)

lemma lookup_found:
  assumes "db_ok N db as"
  obtains r db' where "lookupKey db k = Some (r, db')" "found N db' k as r"
proof -
  obtain ks where ks: "krep db ks" "sim N ks as" by (rule db_okE [OF assms])
  obtain r db' where l: "lookupKey db k = Some (r, db')" "krep db' ks" "map_option snd r = vals ks k"
    "\<forall>p v. r = Some (p, v) \<longrightarrow> pos_ok (kdict db') p k v" by (rule lookupKey_ok [OF ks(1)])
  have "found N db' k as r" unfolding found_def using l(2-4) ks(2) simD(1) [OF ks(2), of k] by fastforce
  with that l(1) show ?thesis by blast
qed

lemma expire_sim:
  assumes "db_ok N db as"
  obtains db' where "expireIfNeeded now db k = Some (overdue now as k, db')" "db_ok N db' (a_expire now k as)"
proof -
  obtain ks where ks: "krep db ks" "sim N ks as" "finite (dom (vals ks))" by (rule db_okE [OF assms])
  obtain db' where "expireIfNeeded now db k = Some (overdue now ks k, db')" "krep db' (a_expire now k ks)"
    by (rule expireIfNeeded_ok [OF ks(1)])
  with that sim_expire [OF ks(2,3)] simD(3) [OF ks(2)] show ?thesis by (auto simp: db_ok_def overdue_def)
qed

lemma volatile_sim:
  assumes "db_ok N db as"
  obtains b db' where "deleteIfVolatile db k = Some (b, db')" "db_ok N db' (a_volatile k as)"
proof -
  obtain ks where ks: "krep db ks" "sim N ks as" "finite (dom (vals ks))" by (rule db_okE [OF assms])
  obtain b db' where "deleteIfVolatile db k = Some (b, db')" "krep db' (a_volatile k ks)"
    by (rule deleteIfVolatile_ok [OF ks(1)])
  with that sim_volatile [OF ks(2,3)] show ?thesis by (auto simp: db_ok_def)
qed

lemma remove_sim:
  assumes "db_ok N db as"
  obtains db' where "deleteKey db k = Some (vals as k \<noteq> None, db')" "db_ok N db' (a_remove k as)"
proof -
  obtain ks where ks: "krep db ks" "sim N ks as" "finite (dom (vals ks))" by (rule db_okE [OF assms])
  obtain db' where d: "deleteKey db k = Some (vals ks k \<noteq> None, db')" "krep db' (a_remove k ks)"
    by (rule deleteKey_ok [OF ks(1)])
  have "deleteKey db k = Some (vals as k \<noteq> None, db')" using d(1) simD(2) [OF ks(2), of k] by simp
  with that d(2) sim_remove [OF ks(2,3)] show ?thesis by (auto simp: db_ok_def)
qed

lemma persist_sim:
  assumes "db_ok N db as"
  obtains b db' where "removeExpire db k = Some (b, db')" "db_ok N db' (a_persist k as)"
proof -
  obtain ks where ks: "krep db ks" "sim N ks as" by (rule db_okE [OF assms])
  obtain b db' where "removeExpire db k = Some (b, db')" "krep db' (a_persist k ks)"
    by (rule removeExpire_ok [OF ks(1)])
  with that sim_persist [OF ks(2)] show ?thesis by (auto simp: db_ok_def)
qed

lemma deadline_sim:
  assumes "db_ok N db as" "vals as k \<noteq> None" "N < 2 ^ 29"
  obtains db' where "setExpire cr db k t = Some (deadline as k = None, db')"
    "db_ok N db' (if deadline as k = None then a_deadline k t as else as)"
proof -
  obtain ks where ks: "krep db ks" "sim N ks as" by (rule db_okE [OF assms(1)])
  have "vals ks k \<noteq> None" "card (dom (vals ks)) < 2 ^ 29"
    using assms(2,3) simD(2,6) [OF ks(2)] by (simp_all del: not_None_eq)
  then obtain db' where "setExpire cr db k t = Some (deadline ks k = None, db')"
    "krep db' (if deadline ks k = None then a_deadline k t ks else ks)" by (rule setExpire_ok [OF ks(1)])
  with that ks(2) sim_deadline [OF ks(2)] simD(3) [OF ks(2)] show ?thesis by (auto simp: db_ok_def split: if_splits)
qed

lemma touch_sim:
  assumes "db_ok N db as"
  shows "db_ok N (db\<lparr>kdirty := kdirty db + n\<rparr>) (a_touch n as)"
proof -
  obtain ks where ks: "krep db ks" "sim N ks as" by (rule db_okE [OF assms])
  have "krep (db\<lparr>kdirty := kdirty db + n\<rparr>) (a_touch n ks)" using ks(1) by (simp add: krep_def a_touch_def)
  then show ?thesis using sim_touch [OF ks(2)] by (rule db_okI)
qed

lemma add_sim:
  assumes "db_ok N db as" "value_rep N' v w" "N < N'" "N < 2 ^ 29"
  obtains d where "dictAdd cr (kdict db) k v = Some (if vals as k = None then DICT_OK else DICT_ERR, d)"
    "db_ok (if vals as k = None then N' else N) (db\<lparr>kdict := d\<rparr>) (if vals as k = None then a_put k w as else as)"
proof -
  obtain ks where ks: "krep db ks" "sim N ks as" "finite (dom (vals ks))" by (rule db_okE [OF assms(1)])
  have "card (dom (vals ks)) < 2 ^ 29" using assms(4) simD(6) [OF ks(2)] by simp
  then obtain d where d: "dictAdd cr (kdict db) k v = Some (if vals ks k = None then DICT_OK else DICT_ERR, d)"
    "krep (db\<lparr>kdict := d\<rparr>) (if vals ks k = None then a_put k v ks else ks)" by (rule kadd_ok [OF ks(1)])
  have n: "vals ks k = None \<longleftrightarrow> vals as k = None" by (rule simD(2) [OF ks(2)])
  show ?thesis
    using that d sim_put [OF ks(2,3) assms(2,3), of k] ks(2) unfolding n by (auto simp: db_ok_def split: if_splits)
qed

lemma replace_sim:
  assumes "db_ok N db as" "value_rep N' v w" "N < N'" "N < 2 ^ 29"
  obtains r d where "dictReplace cr (kdict db) k v = Some (r, d)" "db_ok N' (db\<lparr>kdict := d\<rparr>) (a_put k w as)"
proof -
  obtain ks where ks: "krep db ks" "sim N ks as" "finite (dom (vals ks))" by (rule db_okE [OF assms(1)])
  have "card (dom (vals ks)) < 2 ^ 29" using assms(4) simD(6) [OF ks(2)] by simp
  then obtain r d where "dictReplace cr (kdict db) k v = Some (r, d)" "krep (db\<lparr>kdict := d\<rparr>) (a_put k v ks)"
    by (rule kreplace_ok [OF ks(1)])
  with that sim_put [OF ks(2,3) assms(2,3)] show ?thesis by (auto simp: db_ok_def)
qed

lemma put_sim:
  assumes "db_ok N db as" "value_rep N' v w" "N < N'" "N < 2 ^ 29"
  obtains db' where "add_or_replace cr db k v = Some (vals as k = None, db')" "db_ok N' db' (a_put k w as)"
proof -
  obtain ks where ks: "krep db ks" "sim N ks as" "finite (dom (vals ks))" by (rule db_okE [OF assms(1)])
  have "card (dom (vals ks)) < 2 ^ 29" using assms(4) simD(6) [OF ks(2)] by simp
  then obtain db' where "add_or_replace cr db k v = Some (vals ks k = None, db')" "krep db' (a_put k v ks)"
    by (rule add_or_replace_ok [OF ks(1)])
  with that sim_put [OF ks(2,3) assms(2,3)] simD(2) [OF ks(2), of k] show ?thesis by (auto simp: db_ok_def)
qed

lemma set_sim:
  assumes "found N db k as (Some (p, v0))" "value_rep N' v w" "N < N'"
  shows "db_ok N' (db\<lparr>kdict := set_val p v (kdict db)\<rparr>) (a_put k w as)"
proof -
  obtain ks where ks: "krep db ks" "sim N ks as" "pos_ok (kdict db) p k v0" "vals ks k = Some v0"
    using assms(1) by (auto simp: found_def)
  from kset_ok [OF ks(1,3,4), of v] sim_put [OF ks(2) krepD(6) [OF ks(1)] assms(2,3)]
  show ?thesis by (auto simp: db_ok_def)
qed

lemma read_found:
  assumes "db_ok N db as"
  obtains r db' where "lookupKeyRead now db k = Some (r, db')" "found N db' k (a_expire now k as) r"
proof -
  obtain db1 where e: "expireIfNeeded now db k = Some (overdue now as k, db1)" "db_ok N db1 (a_expire now k as)"
    by (rule expire_sim [OF assms])
  obtain r db' where "lookupKey db1 k = Some (r, db')" "found N db' k (a_expire now k as) r"
    by (rule lookup_found [OF e(2)])
  with that e(1) show ?thesis by (simp add: lookupKeyRead_def)
qed

lemma write_found:
  assumes "db_ok N db as"
  obtains r db' where "lookupKeyWrite db k = Some (r, db')" "found N db' k (a_volatile k as) r"
proof -
  obtain b db1 where e: "deleteIfVolatile db k = Some (b, db1)" "db_ok N db1 (a_volatile k as)"
    by (rule volatile_sim [OF assms])
  obtain r db' where "lookupKey db1 k = Some (r, db')" "found N db' k (a_volatile k as) r"
    by (rule lookup_found [OF e(2)])
  with that e(1) show ?thesis by (simp add: lookupKeyWrite_def)
qed

end
