(* ===== verification/Keyspace_Spec.thy ===== *)
theory Keyspace_Spec
  imports Keyspace_Values
begin

text \<open>
  The commands on keys against their specification on maps of values. Expired keys are removed when
  they are looked up for reading, and keys with a deadline when they are looked up for writing.
\<close>

section \<open>What the commands mean\<close>

fun a_mget :: "int \<Rightarrow> bytes list \<Rightarrow> 's avalue kstate \<Rightarrow> bytes option list \<times> 's avalue kstate" where
  "a_mget now [] as = ([], as)"
| "a_mget now (k # keys) as =
     (let as1 = a_expire now k as; (ts, as2) = a_mget now keys as1
      in ((case vals as1 k of Some (AString t) \<Rightarrow> Some t | _ \<Rightarrow> None) # ts, as2))"

fun a_busy :: "bytes list \<Rightarrow> 's avalue kstate \<Rightarrow> nat \<times> 's avalue kstate" where
  "a_busy (k # t # args) as =
     (let as1 = a_volatile k as; (n, as2) = a_busy args as1 in (if vals as1 k \<noteq> None then Suc n else n, as2))"
| "a_busy _ as = (0, as)"

fun a_mset :: "bytes list \<Rightarrow> 's avalue kstate \<Rightarrow> 's avalue kstate" where
  "a_mset (k # t # args) as = a_mset args (a_persist k (a_put k (AString t) as))"
| "a_mset _ as = as"

fun a_del :: "bytes list \<Rightarrow> 's avalue kstate \<Rightarrow> nat \<times> 's avalue kstate" where
  "a_del [] as = (0, as)"
| "a_del (k # keys) as =
     (if vals as k = None then a_del keys (a_remove k as)
      else let (n, as') = a_del keys (a_touch 1 (a_remove k as)) in (Suc n, as'))"

definition read_reply :: "'s avalue option \<Rightarrow> 's kreply" where
  "read_reply w = (case w of None \<Rightarrow> KNull | Some (AString t) \<Rightarrow> KBulk t | Some _ \<Rightarrow> KWrongType)"

definition a_type :: "'s avalue option \<Rightarrow> bytes" where
  "a_type w =
     (case w of None \<Rightarrow> [110, 111, 110, 101] | Some (AString t) \<Rightarrow> [115, 116, 114, 105, 110, 103] | Some AList \<Rightarrow> [108, 105, 115, 116]
      | Some ASet \<Rightarrow> [115, 101, 116] | Some (AZset es) \<Rightarrow> [122, 115, 101, 116] | Some (AHash m) \<Rightarrow> [104, 97, 115, 104])"

definition a_lookup :: "bool \<Rightarrow> int \<Rightarrow> bytes \<Rightarrow> 'a kstate \<Rightarrow> 'a kstate" where
  "a_lookup reads now k as = (if reads then a_expire now k as else a_volatile k as)"

text \<open>The value a key has after a command on it; an empty one is gone.\<close>

definition a_store :: "bytes \<Rightarrow> 'a option \<Rightarrow> 'a kstate \<Rightarrow> 'a kstate" where
  "a_store k w as = (case w of None \<Rightarrow> a_remove k as | Some w \<Rightarrow> a_put k w as)"

definition a_set :: "int \<Rightarrow> bool \<Rightarrow> bytes \<Rightarrow> bytes \<Rightarrow> int option \<Rightarrow> 's avalue kstate \<Rightarrow> 's kreply \<times> 's avalue kstate" where
  "a_set now fresh k t expire as =
     (if expire \<noteq> None \<and> the expire \<le> 0 then (KBadExpire, as)
      else let as1 = (if fresh then a_volatile k as else as) in
        if fresh \<and> vals as1 k \<noteq> None then (KZero, as1)
        else let as2 = a_touch 1 (a_persist k (a_put k (AString t) as1)) in
          (if fresh then KOne else KOk,
           case expire of None \<Rightarrow> as2 | Some s \<Rightarrow> a_deadline k (signed_take_bit 63 (now + s)) as2))"

definition a_incr :: "bytes \<Rightarrow> int \<Rightarrow> 's avalue kstate \<Rightarrow> 's kreply \<times> 's avalue kstate" where
  "a_incr k i as =
     (let as1 = a_volatile k as in
      case (case vals as1 k of None \<Rightarrow> Some (Some 0) | Some (AString t) \<Rightarrow> Some (number_of t) | Some _ \<Rightarrow> None) of
        None \<Rightarrow> (KWrongType, as1)
      | Some None \<Rightarrow> (KNotInteger, as1)
      | Some (Some old) \<Rightarrow>
          let new = signed_take_bit 63 (old + i) in (KInt new, a_touch 1 (a_put k (AString (dec_text new)) as1)))"

definition a_append :: "bytes \<Rightarrow> bytes \<Rightarrow> 's avalue kstate \<Rightarrow> 's kreply \<times> 's avalue kstate" where
  "a_append k a as =
     (let as1 = a_volatile k as in
      case (case vals as1 k of None \<Rightarrow> Some [] | Some (AString t) \<Rightarrow> Some t | Some _ \<Rightarrow> None) of
        None \<Rightarrow> (KWrongType, as1)
      | Some t \<Rightarrow> (KInt (int (length (t @ a))), a_touch 1 (a_put k (AString (t @ a)) as1)))"

definition a_substr :: "int \<Rightarrow> bytes \<Rightarrow> int \<Rightarrow> int \<Rightarrow> 's avalue kstate \<Rightarrow> 's kreply \<times> 's avalue kstate" where
  "a_substr now k a b as =
     (let as1 = a_expire now k as in
      (case vals as1 k of
         None \<Rightarrow> KNull
       | Some (AString t) \<Rightarrow>
           (case substr_range (int (length t)) a b of None \<Rightarrow> KNull | Some (s, n) \<Rightarrow> KBulk (take (nat n) (drop (nat s) t)))
       | Some _ \<Rightarrow> KWrongType, as1))"

definition a_expire_at :: "int \<Rightarrow> bytes \<Rightarrow> int \<Rightarrow> int \<Rightarrow> 's avalue kstate \<Rightarrow> 's kreply \<times> 's avalue kstate" where
  "a_expire_at now k param offset as =
     (let seconds = signed_take_bit 63 (param - offset) in
      if vals as k = None then (KZero, as)
      else if seconds \<le> 0 then (KOne, a_touch 1 (a_remove k as))
      else if deadline as k \<noteq> None then (KZero, as)
      else (KOne, a_touch 1 (a_deadline k (signed_take_bit 63 (now + seconds)) as)))"

text \<open>The reply of \<open>TTL\<close>: the seconds left, as an \<open>int\<close>; a deadline of \<open>- 1\<close> counts as none.\<close>

definition ttl_of :: "int \<Rightarrow> int option \<Rightarrow> int" where
  "ttl_of now t =
     (case t of None \<Rightarrow> - 1
      | Some t \<Rightarrow> let ttl = signed_take_bit 31 (t - now) in if t = - 1 \<or> ttl < 0 then - 1 else ttl)"

definition a_rename :: "bool \<Rightarrow> bytes \<Rightarrow> bytes \<Rightarrow> 's avalue kstate \<Rightarrow> 's kreply \<times> 's avalue kstate" where
  "a_rename fresh src dst as =
     (if src = dst then (KSameObject, as)
      else let as1 = a_volatile src as in
        case vals as1 src of
          None \<Rightarrow> (KNoKey, as1)
        | Some w \<Rightarrow>
            let as2 = a_volatile dst as1 in
            if fresh \<and> vals as2 dst \<noteq> None then (KZero, as2)
            else (if fresh then KOne else KOk, a_touch 1 (a_remove src (a_put dst w as2))))"

definition a_zset :: "('s::linorder \<Rightarrow> 's \<Rightarrow> 's option) \<Rightarrow> int \<Rightarrow> bytes \<Rightarrow> 's zcmd \<Rightarrow> 's avalue kstate \<Rightarrow> 's kreply \<times> 's avalue kstate" where
  "a_zset addf now k c as =
     (let as1 = a_lookup (zset_reads c) now k as in
      case (case vals as1 k of None \<Rightarrow> Some [] | Some (AZset es) \<Rightarrow> Some es | Some _ \<Rightarrow> None) of
        None \<Rightarrow> (KZset WrongType, as1)
      | Some es \<Rightarrow>
          let (r, es', n) = zspec addf c es
          in (KZset r, a_touch n (a_store k (if es' = [] then None else Some (AZset es')) as1)))"

text \<open>The order in which \<open>HGETALL\<close> lists the fields is open.\<close>

definition a_hash :: "int \<Rightarrow> bytes \<Rightarrow> hcmd \<Rightarrow> 's avalue kstate \<Rightarrow> 's kreply \<Rightarrow> 's avalue kstate \<Rightarrow> bool" where
  "a_hash now k c as r as' \<longleftrightarrow>
     (if (case c of HMSet args \<Rightarrow> odd (length args) | _ \<Rightarrow> False) then r = KHash HArity \<and> as' = as
      else let as1 = a_lookup (hash_reads c) now k as in
        case (case vals as1 k of None \<Rightarrow> Some (\<lambda>_. None) | Some (AHash m) \<Rightarrow> Some m | Some _ \<Rightarrow> None) of
          None \<Rightarrow> r = KHash HWrongType \<and> as' = as1
        | Some m \<Rightarrow> \<exists>hr m' n. hspec c m hr m' n \<and> r = KHash hr \<and>
            as' = a_touch n (a_store k (if m' = (\<lambda>_. None) then None else Some (AHash m')) as1))"

text \<open>The commands that read memory they have freed: a \<open>ZINCRBY\<close> that leaves a score as it is.\<close>

fun kfault :: "('s::linorder \<Rightarrow> 's \<Rightarrow> 's option) \<Rightarrow> int \<Rightarrow> 's kcmd \<Rightarrow> 's avalue kstate \<Rightarrow> bool" where
  "kfault addf now (CZset k c) as =
     (case vals (a_lookup (zset_reads c) now k as) k of Some (AZset es) \<Rightarrow> keeps_score addf c es | _ \<Rightarrow> False)"
| "kfault addf now _ as = False"

fun kspec :: "('s::linorder \<Rightarrow> 's \<Rightarrow> 's option) \<Rightarrow> int \<Rightarrow> 's kcmd \<Rightarrow> 's avalue kstate \<Rightarrow> 's kreply \<Rightarrow> 's avalue kstate \<Rightarrow> bool" where
  "kspec addf now (CSet fresh k val expire) as r as' = ((r, as') = a_set now fresh k (text_of val) expire as)"
| "kspec addf now (CGet k) as r as' = ((r, as') = (read_reply (vals (a_expire now k as) k), a_expire now k as))"
| "kspec addf now (CGetSet k val) as r as' =
     (let as1 = a_expire now k as in r = read_reply (vals as1 k) \<and>
        as' = (if r = KWrongType then as1 else a_touch 1 (a_persist k (a_put k (AString (text_of val)) as1))))"
| "kspec addf now (CMGet keys) as r as' = (\<exists>ts. a_mget now keys as = (ts, as') \<and> r = KMulti ts)"
| "kspec addf now (CMSet fresh args) as r as' =
     (if odd (length args) then r = KArity \<and> as' = as
      else let (busy, as1) = (if fresh then a_busy args as else (0, as)) in
        if busy \<noteq> 0 then r = KZero \<and> as' = as1
        else r = (if fresh then KOne else KOk) \<and> as' = a_touch (int (length args div 2)) (a_mset args as1))"
| "kspec addf now (CIncrBy k i) as r as' = ((r, as') = a_incr k i as)"
| "kspec addf now (CAppend shared k val) as r as' = ((r, as') = a_append k (text_of val) as)"
| "kspec addf now (CSubstr k a b) as r as' = ((r, as') = a_substr now k a b as)"
| "kspec addf now (CDel keys) as r as' = (\<exists>n. a_del keys as = (n, as') \<and> r = KInt (int n))"
| "kspec addf now (CExists k) as r as' =
     ((r, as') = (if vals (a_expire now k as) k = None then KZero else KOne, a_expire now k as))"
| "kspec addf now (CType k) as r as' = ((r, as') = (KTypeName (a_type (vals (a_expire now k as) k)), a_expire now k as))"
| "kspec addf now (CExpire k param offset) as r as' = ((r, as') = a_expire_at now k param offset as)"
| "kspec addf now (CTtl k) as r as' = ((r, as') = (KInt (ttl_of now (deadline as k)), as))"
| "kspec addf now (CRename fresh src dst) as r as' = ((r, as') = a_rename fresh src dst as)"
| "kspec addf now CDbSize as r as' = ((r, as') = (KInt (int (card (dom (vals as)))), as))"
| "kspec addf now CFlushDb as r as' =
     ((r, as') = (KOk, as\<lparr>vals := \<lambda>_. None, deadline := \<lambda>_. None, changes := changes as + int (card (dom (vals as)))\<rparr>))"
| "kspec addf now (CHash k c) as r as' = a_hash now k c as r as'"
| "kspec addf now (CZset k c) as r as' =
     (\<not> kfault addf now (CZset k c) as \<and> (r, as') = a_zset addf now k c as)"

text \<open>How much a command may add to the number of keys and to the size of a value.\<close>

fun mset_cost :: "bytes list \<Rightarrow> nat" where
  "mset_cost (k # t # args) = 1 + length t + mset_cost args"
| "mset_cost _ = 0"

fun kcost :: "'s kcmd \<Rightarrow> nat" where
  "kcost (CSet fresh k val expire) = 1 + length (text_of val)"
| "kcost (CGetSet k val) = 1 + length (text_of val)"
| "kcost (CMSet fresh args) = mset_cost args"
| "kcost (CIncrBy k i) = 21"
| "kcost (CAppend shared k val) = 1 + length (text_of val)"
| "kcost (CRename fresh src dst) = 1"
| "kcost (CHash k c) = 3 + cmd_cost c"
| "kcost (CZset k c) = 1"
| "kcost _ = 0"

fun kcmd_ok :: "'s kcmd \<Rightarrow> bool" where
  "kcmd_ok (CSet fresh k val expire) = sobj_ok val"
| "kcmd_ok (CGetSet k val) = sobj_ok val"
| "kcmd_ok (CAppend shared k val) = sobj_ok val"
| "kcmd_ok (CRename fresh src dst) = (length src < 2 ^ 31 \<and> length dst < 2 ^ 31)"
| "kcmd_ok (CHash k c) = hcmd_ok c"
| "kcmd_ok (CZset k c) = zcmd_ok c"
| "kcmd_ok _ = True"

definition kenv_ok :: "'s::linorder kenv \<Rightarrow> bool" where
  "kenv_ok env \<longleftrightarrow> henv_ok (hash_env env) \<and> env_ok (zset_env env)"

section \<open>One command\<close>

definition kstep_ok :: "'s::{linorder, zero} kenv \<Rightarrow> int \<Rightarrow> nat \<Rightarrow> 's kcmd \<Rightarrow> 's rvalue kdb \<Rightarrow> 's avalue kstate \<Rightarrow> bool" where
  "kstep_ok env now N c db as \<longleftrightarrow> (\<exists>r db' as'. kexec env now c db = Some (r, db') \<and>
     kspec (plus_of (zset_env env)) now c as r as' \<and> db_ok (N + kcost c) db' as')"

lemma kstepI:
  assumes "kexec env now c db = Some (r, db')" "kspec (plus_of (zset_env env)) now c as r as'" "db_ok M db' as'" "M \<le> N + kcost c"
  shows "kstep_ok env now N c db as"
  using assms db_ok_mono unfolding kstep_ok_def by blast

lemma found_cases [consumes 1, case_names missing there]:
  assumes "found N db k as r"
  obtains "r = None" "vals as k = None" | p v w where "r = Some (p, v)" "vals as k = Some w" "value_rep N v w"
proof (cases r)
  case None
  then show ?thesis using that(1) foundD(2) [OF assms] by simp
next
  case (Some x)
  obtain p v where x: "x = (p, v)" by (cases x)
  then show ?thesis using that(2) foundD(3) assms Some by metis
qed

lemma value_string [consumes 1, case_names str other]:
  assumes "value_rep N v w"
  obtains ob where "v = VString ob" "w = AString (text_of ob)" "sobj_ok ob" "length (text_of ob) \<le> N"
  | "\<And>ob. v \<noteq> VString ob" "\<And>t. w \<noteq> AString t"
  using assms by (cases v; cases w) auto

lemma string_rep: "sobj_ok ob \<Longrightarrow> length (text_of ob) \<le> N \<Longrightarrow> value_rep N (VString ob) (AString (text_of ob))"
  by simp

lemma read_reply_text: "read_reply (Some (AString t)) = KBulk t" "read_reply None = KNull"
  "(\<And>t. w \<noteq> AString t) \<Longrightarrow> read_reply (Some w) = KWrongType"
  by (auto simp: read_reply_def split: avalue.split)

lemma get_ok:
  assumes "db_ok N db as"
  obtains db' where "getGenericCommand now k db = Some (read_reply (vals (a_expire now k as) k), db')"
    "db_ok N db' (a_expire now k as)"
proof -
  obtain r db1 where l: "lookupKeyRead now db k = Some (r, db1)" "found N db1 k (a_expire now k as) r"
    by (rule read_found [OF assms])
  note ok = foundD(1) [OF l(2)]
  from l(2) show ?thesis
  proof (cases rule: found_cases)
    case missing
    then show ?thesis using that [OF _ ok] l(1) by (simp add: getGenericCommand_def read_reply_text)
  next
    case (there p v w)
    from there(3) show ?thesis
    proof (cases rule: value_string)
      case (str ob)
      then show ?thesis
        using that [OF _ ok] l(1) there by (simp add: getGenericCommand_def read_reply_text getDecodedObject_eq)
    next
      case other
      then have "getGenericCommand now k db = Some (KWrongType, db1)"
        using l(1) there(1) other(1) by (cases v) (auto simp: getGenericCommand_def)
      then show ?thesis using that [OF _ ok] there(2) read_reply_text(3) [OF other(2)] by simp
    qed
  qed
qed

lemma cget_ok:
  assumes "db_ok N db as"
  shows "kstep_ok env now N (CGet k) db as"
proof -
  obtain db' where g: "getGenericCommand now k db = Some (read_reply (vals (a_expire now k as) k), db')"
    "db_ok N db' (a_expire now k as)" by (rule get_ok [OF assms])
  show ?thesis by (rule kstepI [OF _ _ g(2)]) (simp_all add: g(1))
qed

lemma cgetset_ok:
  assumes "db_ok N db as" "sobj_ok val" "N + kcost (CGetSet k val :: 's kcmd) < 2 ^ 29"
  shows "kstep_ok env now N (CGetSet k val :: 's::{linorder, zero} kcmd) db as"
proof -
  let ?as1 = "a_expire now k as"
  obtain db1 where g: "getGenericCommand now k db = Some (read_reply (vals ?as1 k), db1)" "db_ok N db1 ?as1"
    by (rule get_ok [OF assms(1)])
  let ?N = "N + (1 + length (text_of val))"
  show ?thesis
  proof (cases "read_reply (vals ?as1 k) = (KWrongType :: 's kreply)")
    case True
    show ?thesis
      by (rule kstepI [OF _ _ g(2), where r = KWrongType]) (simp_all add: getsetCommand_def Let_def g(1) True)
  next
    case False
    have v: "value_rep ?N (VString val) (AString (text_of val))" using assms(2) by simp
    obtain db2 where p: "add_or_replace (key_can_resize env) db1 k (VString val) = Some (vals ?as1 k = None, db2)"
      "db_ok ?N db2 (a_put k (AString (text_of val)) ?as1)"
      by (rule put_sim [OF g(2) v]) (use assms(3) in simp_all)
    let ?as3 = "a_touch 1 (a_persist k (a_put k (AString (text_of val)) ?as1))"
    have t: "db_ok ?N (db2\<lparr>kdirty := kdirty db2 + 1\<rparr>) (a_touch 1 (a_put k (AString (text_of val)) ?as1))"
      by (rule touch_sim [OF p(2)])
    obtain b db3 where e: "removeExpire (db2\<lparr>kdirty := kdirty db2 + 1\<rparr>) k = Some (b, db3)"
      "db_ok ?N db3 (a_persist k (a_touch 1 (a_put k (AString (text_of val)) ?as1)))" by (rule persist_sim [OF t])
    have "a_persist k (a_touch 1 (a_put k (AString (text_of val)) ?as1)) = ?as3" by (simp add: a_defs)
    then show ?thesis
      using g(1) p(1) e(1) False
      by (intro kstepI [where r = "read_reply (vals ?as1 k)", OF _ _ e(2)]) (simp_all add: getsetCommand_def Let_def)
  qed
qed

lemma cmget_ok:
  assumes "db_ok N db as"
  shows "kstep_ok env now N (CMGet keys) db as"
proof -
  have "\<exists>db'. mget_loop now keys db = Some (fst (a_mget now keys as), db') \<and> db_ok N db' (snd (a_mget now keys as))"
    using assms
  proof (induction keys arbitrary: db as)
    case (Cons k keys)
    obtain r db1 where l: "lookupKeyRead now db k = Some (r, db1)" "found N db1 k (a_expire now k as) r"
      by (rule read_found [OF Cons.prems])
    from Cons.IH [OF foundD(1) [OF l(2)]] obtain db2 where m:
      "mget_loop now keys db1 = Some (fst (a_mget now keys (a_expire now k as)), db2)"
      "db_ok N db2 (snd (a_mget now keys (a_expire now k as)))" by blast
    have "(case r of Some (_, VString ob) \<Rightarrow> map_option Some (getDecodedObject ob) | _ \<Rightarrow> Some None) =
        Some (case vals (a_expire now k as) k of Some (AString t) \<Rightarrow> Some t | _ \<Rightarrow> None)"
      using l(2)
    proof (cases rule: found_cases)
      case (there p v w)
      from there(3) show ?thesis
        using there(1,2) by (cases rule: value_string) (auto simp: getDecodedObject_eq split: rvalue.split avalue.split)
    qed simp
    then show ?case using l(1) m by (auto simp: Let_def split: prod.split)
  qed simp
  then obtain db' where m: "mget_loop now keys db = Some (fst (a_mget now keys as), db')" "db_ok N db' (snd (a_mget now keys as))"
    by blast
  show ?thesis by (rule kstepI [OF _ _ m(2)]) (auto simp: mgetCommand_def m(1))
qed

lemma csubstr_ok:
  assumes "db_ok N db as"
  shows "kstep_ok env now N (CSubstr k a b) db as"
proof -
  obtain r db1 where l: "lookupKeyRead now db k = Some (r, db1)" "found N db1 k (a_expire now k as) r"
    by (rule read_found [OF assms])
  note ok = foundD(1) [OF l(2)]
  have "substrCommand now k a b db = Some (fst (a_substr now k a b as), db1)"
    using l(2)
  proof (cases rule: found_cases)
    case missing
    then show ?thesis using l(1) by (simp add: substrCommand_def a_substr_def Let_def)
  next
    case (there p v w)
    from there(3) show ?thesis
    proof (cases rule: value_string)
      case (str ob)
      have "peek t (nat s) (nat n) = Some (take (nat n) (drop (nat s) t))"
        if "substr_range (int (length t)) a b = Some (s, n)" for t s n
        using that by (cases t) (auto simp: substr_range_def peek_def Let_def split: if_splits)
      then show ?thesis
        using str l(1) there
        by (auto simp: substrCommand_def a_substr_def Let_def getDecodedObject_eq split: option.split)
    next
      case other
      then show ?thesis using l(1) there
        by (cases v; cases w) (simp_all add: substrCommand_def a_substr_def Let_def)
    qed
  qed
  then show ?thesis by (intro kstepI [OF _ _ ok]) (auto simp: a_substr_def Let_def)
qed

lemma ctype_ok:
  assumes "db_ok N db as"
  shows "kstep_ok env now N (CType k) db as"
proof -
  obtain r db1 where l: "lookupKeyRead now db k = Some (r, db1)" "found N db1 k (a_expire now k as) r"
    by (rule read_found [OF assms])
  have "type_name (map_option snd r) = a_type (vals (a_expire now k as) k)"
    using l(2)
  proof (cases rule: found_cases)
    case (there p v w)
    then show ?thesis by (cases v; cases w) (simp_all add: type_name_def a_type_def)
  qed (simp add: type_name_def a_type_def)
  then show ?thesis using l(1) by (intro kstepI [OF _ _ foundD(1) [OF l(2)]]) (simp_all add: typeCommand_def)
qed

lemma cexists_ok:
  assumes "db_ok N db as"
  shows "kstep_ok env now N (CExists k) db as"
proof -
  obtain db1 where e: "expireIfNeeded now db k = Some (overdue now as k, db1)" "db_ok N db1 (a_expire now k as)"
    by (rule expire_sim [OF assms])
  obtain r db2 where l: "lookupKey db1 k = Some (r, db2)" "found N db2 k (a_expire now k as) r"
    by (rule lookup_found [OF e(2)])
  obtain de d where f: "dictFind (kdict db1) k = Some (de, d)" "db2 = db1\<lparr>kdict := d\<rparr>" "r = None \<longleftrightarrow> de = None"
    using l(1) by (auto simp: lookupKey_def split: Option.bind_splits)
  have "existsCommand now k db = Some (if vals (a_expire now k as) k = None then KZero else KOne, db2)"
    using e(1) f foundD(2) [OF l(2)] by (simp add: existsCommand_def del: not_None_eq)
  then show ?thesis by (intro kstepI [OF _ _ foundD(1) [OF l(2)]]) simp_all
qed

lemma cttl_ok:
  assumes "db_ok N db as"
  shows "kstep_ok env now N (CTtl k) db as"
proof -
  obtain ks where ks: "krep db ks" "sim N ks as" by (rule db_okE [OF assms])
  obtain db1 where f: "find_expire db k = Some (deadline ks k, db1)" "krep db1 ks" by (rule find_expire_ok [OF ks(1)])
  have "ttlCommand now k db = Some (KInt (ttl_of now (deadline as k)), db1)"
    using f(1) simD(3) [OF ks(2)] by (cases "deadline as k") (auto simp: ttlCommand_def getExpire_def ttl_of_def Let_def)
  then show ?thesis by (intro kstepI [OF _ _ db_okI [OF f(2) ks(2)]]) simp_all
qed

lemma cdbsize_ok: "db_ok N db as \<Longrightarrow> kstep_ok env now N CDbSize db as"
  by (rule kstepI [where M = N]) (auto simp: dbsizeCommand_def db_card)

lemma cflushdb_ok:
  assumes "db_ok N db as"
  shows "kstep_ok env now N CFlushDb db as"
proof -
  obtain ks where ks: "krep db ks" "sim N ks as" by (rule db_okE [OF assms])
  let ?n = "int (card (dom (vals as)))"
  have "krep (db\<lparr>kdirty := kdirty db + ?n, kdict := dictEmpty (kdict db), kexpires := dictEmpty (kexpires db)\<rparr>)
      (ks\<lparr>vals := \<lambda>_. None, deadline := \<lambda>_. None, changes := changes ks + ?n\<rparr>)"
    using ks(1) by (auto simp: krep_def intro: dictEmpty_rep)
  moreover have "sim N (ks\<lparr>vals := \<lambda>_. None, deadline := \<lambda>_. None, changes := changes ks + ?n\<rparr>)
      (as\<lparr>vals := \<lambda>_. None, deadline := \<lambda>_. None, changes := changes as + ?n\<rparr>)"
    using ks(2) by (simp add: sim_def)
  ultimately have ok: "db_ok N (db\<lparr>kdirty := kdirty db + ?n, kdict := dictEmpty (kdict db), kexpires := dictEmpty (kexpires db)\<rparr>)
      (as\<lparr>vals := \<lambda>_. None, deadline := \<lambda>_. None, changes := changes as + ?n\<rparr>)"
    by (rule db_okI)
  show ?thesis
    by (rule kstepI [OF _ _ ok]) (simp_all add: flushdbCommand_def db_card(2) [OF assms])
qed

lemma cdel_ok:
  assumes "db_ok N db as"
  shows "kstep_ok env now N (CDel keys) db as"
proof -
  have "\<exists>db'. del_loop keys db = Some (fst (a_del keys as), db') \<and> db_ok N db' (snd (a_del keys as))"
    using assms
  proof (induction keys arbitrary: db as)
    case (Cons k keys)
    obtain db1 where d: "deleteKey db k = Some (vals as k \<noteq> None, db1)" "db_ok N db1 (a_remove k as)"
      by (rule remove_sim [OF Cons.prems])
    show ?case
    proof (cases "vals as k = None")
      case True
      from Cons.IH [OF d(2)] d(1) True show ?thesis by auto
    next
      case False
      from Cons.IH [OF touch_sim [OF d(2)], of 1] d(1) False show ?thesis by (auto simp: Let_def split: prod.split)
    qed
  qed simp
  then obtain db' where d: "del_loop keys db = Some (fst (a_del keys as), db')" "db_ok N db' (snd (a_del keys as))" by blast
  show ?thesis by (rule kstepI [OF _ _ d(2)]) (auto simp: delCommand_def d(1))
qed

text \<open>A value is stored and the key keeps no deadline, one change.\<close>

lemma touch_persist_sim:
  assumes "db_ok N db as"
  obtains b db' where "removeExpire (db\<lparr>kdirty := kdirty db + n\<rparr>) k = Some (b, db')" "db_ok N db' (a_touch n (a_persist k as))"
proof -
  obtain b db' where "removeExpire (db\<lparr>kdirty := kdirty db + n\<rparr>) k = Some (b, db')" "db_ok N db' (a_persist k (a_touch n as))"
    by (rule persist_sim [OF touch_sim [OF assms]])
  moreover have "a_persist k (a_touch n as) = a_touch n (a_persist k as)" by (simp add: a_defs)
  ultimately show ?thesis using that by simp
qed

lemma cset_ok:
  assumes "db_ok N db as" "sobj_ok val" "N + kcost (CSet fresh k val expire :: 's kcmd) < 2 ^ 29"
  shows "kstep_ok env now N (CSet fresh k val expire :: 's::{linorder, zero} kcmd) db as"
proof (cases "expire \<noteq> None \<and> the expire \<le> 0")
  case True
  show ?thesis
    by (rule kstepI [OF _ _ assms(1), where r = KBadExpire]) (simp_all add: setGenericCommand_def a_set_def True)
next
  case False
  let ?N = "N + (1 + length (text_of val))" and ?w = "AString (text_of val)" and ?cr = "key_can_resize env"
  define as1 where "as1 = (if fresh then a_volatile k as else as)"
  obtain b db1 where e1: "(if fresh then deleteIfVolatile db k else Some (False, db)) = Some (b, db1)" "db_ok N db1 as1"
  proof (cases fresh)
    case True
    obtain b db1 where "deleteIfVolatile db k = Some (b, db1)" "db_ok N db1 (a_volatile k as)"
      by (rule volatile_sim [OF assms(1)])
    then show ?thesis using that True by (simp add: as1_def)
  qed (use that assms(1) in \<open>simp add: as1_def\<close>)
  have v: "value_rep ?N (VString val) ?w" using assms(2) by simp
  have lt: "N < ?N" "N < 2 ^ 29" "?N < 2 ^ 29" using assms(3) by simp_all
  obtain d where d: "dictAdd ?cr (kdict db1) k (VString val) = Some (if vals as1 k = None then DICT_OK else DICT_ERR, d)"
    "db_ok (if vals as1 k = None then ?N else N) (db1\<lparr>kdict := d\<rparr>) (if vals as1 k = None then a_put k ?w as1 else as1)"
    by (rule add_sim [OF e1(2) v lt(1,2)])
  have sp: "a_set now fresh k (text_of val) expire as = (if fresh \<and> vals as1 k \<noteq> None then (KZero, as1)
      else (if fresh then KOne else KOk, case expire of None \<Rightarrow> a_touch 1 (a_persist k (a_put k ?w as1))
        | Some s \<Rightarrow> a_deadline k (signed_take_bit 63 (now + s)) (a_touch 1 (a_persist k (a_put k ?w as1)))))"
    unfolding a_set_def if_not_P [OF False] as1_def [symmetric] Let_def ..
  show ?thesis
  proof (cases "fresh \<and> vals as1 k \<noteq> None")
    case True
    have ok: "db_ok N (db1\<lparr>kdict := d\<rparr>) as1" using d(2) True by (auto split: if_splits)
    have "kexec env now (CSet fresh k val expire) db = Some (KZero, db1\<lparr>kdict := d\<rparr>)"
      unfolding kexec.simps setGenericCommand_def if_not_P [OF False] e1(1) bind.bind_lunit prod.case d(1) Let_def
      using True dict_codes by auto
    then show ?thesis by (rule kstepI [OF _ _ ok]) (use True sp in auto)
  next
    case nb: False
    obtain db3 where db3: "(if (if vals as1 k = None then DICT_OK else DICT_ERR) = DICT_ERR
          then map_option (\<lambda>(_, d'). db1\<lparr>kdict := d, kdict := d'\<rparr>) (dictReplace ?cr (kdict (db1\<lparr>kdict := d\<rparr>)) k (VString val))
          else Some (db1\<lparr>kdict := d\<rparr>)) = Some db3" "db_ok ?N db3 (a_put k ?w as1)"
    proof (cases "vals as1 k = None")
      case True
      then show ?thesis using that d(2) dict_codes by simp
    next
      case False
      then have "db_ok N (db1\<lparr>kdict := d\<rparr>) as1" using d(2) by (auto split: if_splits)
      then obtain r d' where "dictReplace ?cr (kdict (db1\<lparr>kdict := d\<rparr>)) k (VString val) = Some (r, d')"
        "db_ok ?N (db1\<lparr>kdict := d, kdict := d'\<rparr>) (a_put k ?w as1)" by (rule replace_sim [OF _ v lt(1,2)])
      then show ?thesis using that False by simp
    qed
    let ?as2 = "a_touch 1 (a_persist k (a_put k ?w as1))"
    obtain b4 db4 where db4: "removeExpire (db3\<lparr>kdirty := kdirty db3 + 1\<rparr>) k = Some (b4, db4)" "db_ok ?N db4 ?as2"
      by (rule touch_persist_sim [OF db3(2)])
    obtain b5 db5 where db5: "(case expire of None \<Rightarrow> Some (False, db4)
        | Some seconds \<Rightarrow> setExpire ?cr db4 k (signed_take_bit 63 (now + seconds))) = Some (b5, db5)"
      "db_ok ?N db5 (case expire of None \<Rightarrow> ?as2 | Some s \<Rightarrow> a_deadline k (signed_take_bit 63 (now + s)) ?as2)"
    proof (cases expire)
      case (Some s)
      have "vals ?as2 k \<noteq> None" by simp
      then obtain db' where "setExpire ?cr db4 k (signed_take_bit 63 (now + s)) = Some (deadline ?as2 k = None, db')"
        "db_ok ?N db' (if deadline ?as2 k = None then a_deadline k (signed_take_bit 63 (now + s)) ?as2 else ?as2)"
        by (rule deadline_sim [OF db4(2) _ lt(3)])
      then show ?thesis using that Some by simp
    qed (use that [of False] db4(2) in simp)
    have "kexec env now (CSet fresh k val expire) db = Some (if fresh then KOne else KOk, db5)"
      unfolding kexec.simps setGenericCommand_def if_not_P [OF False] e1(1) bind.bind_lunit prod.case d(1) Let_def
      using nb db3(1) db4(1) db5(1) dict_codes by (cases "vals as1 k = None"; cases fresh; simp)
    then show ?thesis
      by (rule kstepI [OF _ _ db5(2)]) (use nb sp in \<open>simp_all only: kspec.simps if_not_P [OF nb] if_False simp_thms kcost.simps order_refl\<close>)
  qed
qed

lemma cexpire_ok:
  assumes "db_ok N db as" "N < 2 ^ 29"
  shows "kstep_ok env now N (CExpire k param offset) db as"
proof -
  let ?s = "signed_take_bit 63 (param - offset)" and ?t = "signed_take_bit 63 (now + signed_take_bit 63 (param - offset))"
  obtain r db1 where l: "lookupKey db k = Some (r, db1)" "found N db1 k as r" by (rule lookup_found [OF assms(1)])
  note ok = foundD(1) [OF l(2)]
  obtain de d where f: "dictFind (kdict db) k = Some (de, d)" "db1 = db\<lparr>kdict := d\<rparr>" "de = None \<longleftrightarrow> vals as k = None"
    using l(1) foundD(2) [OF l(2)] by (auto simp: lookupKey_def split: Option.bind_splits)
  note unf = kexec.simps expireGenericCommand_def Let_def f(1) bind.bind_lunit prod.case f(2) [symmetric] f(3)
  show ?thesis
  proof (cases "vals as k = None")
    case True
    show ?thesis by (rule kstepI [OF _ _ ok, where r = KZero]) (unfold unf, simp_all add: True a_expire_at_def)
  next
    case there: False
    show ?thesis
    proof (cases "?s \<le> 0")
      case True
      obtain db2 where d: "deleteKey db1 k = Some (vals as k \<noteq> None, db2)" "db_ok N db2 (a_remove k as)"
        by (rule remove_sim [OF ok])
      show ?thesis
        by (rule kstepI [OF _ _ touch_sim [OF d(2), of 1], where r = KOne])
          (unfold unf, use there True d(1) in \<open>simp_all add: a_expire_at_def Let_def\<close>)
    next
      case False
      obtain db2 where e: "setExpire (key_can_resize env) db1 k ?t = Some (deadline as k = None, db2)"
        "db_ok N db2 (if deadline as k = None then a_deadline k ?t as else as)" by (rule deadline_sim [OF ok there assms(2)])
      show ?thesis
      proof (cases "deadline as k = None")
        case True
        have "db_ok N db2 (a_deadline k ?t as)" using e(2) True by simp
        from touch_sim [OF this, of 1] show ?thesis
          by (rule kstepI [where r = KOne, rotated 2])
            (unfold unf, use there True False e(1) in \<open>simp_all add: a_expire_at_def Let_def\<close>)
      next
        case dl: False
        have "db_ok N db2 as" using e(2) dl by (auto split: if_splits)
        then show ?thesis
          by (rule kstepI [where r = KZero, rotated 2])
            (unfold unf, use there dl False e(1) in \<open>auto simp: a_expire_at_def Let_def\<close>)
      qed
    qed
  qed
qed

lemma busy_ok:
  assumes "db_ok N db as"
  shows "\<exists>db'. busy_keys args db = Some (fst (a_busy args as), db') \<and> db_ok N db' (snd (a_busy args as))"
  using assms
proof (induction args as arbitrary: db rule: a_busy.induct)
  case (1 k t args as)
  obtain r db1 where l: "lookupKeyWrite db k = Some (r, db1)" "found N db1 k (a_volatile k as) r"
    by (rule write_found [OF 1(2)])
  from 1(1) [OF refl foundD(1) [OF l(2)]] obtain db2 where
    "busy_keys args db1 = Some (fst (a_busy args (a_volatile k as)), db2)" "db_ok N db2 (snd (a_busy args (a_volatile k as)))"
    by blast
  then show ?case using l(1) foundD(2) [OF l(2)] by (auto simp: Let_def split: prod.split)
qed simp_all

lemma mset_loop_ok:
  assumes "db_ok N db as" "N + mset_cost args < 2 ^ 29"
  shows "\<exists>db'. mset_loop cr args db = Some db' \<and> db_ok (N + mset_cost args) db' (a_mset args as)"
  using assms
proof (induction args as arbitrary: db N rule: a_mset.induct)
  case (1 k t args as)
  let ?N = "N + (1 + length t)"
  have "sobj_ok (Raw t)" using 1(3) by simp
  from tryObjectEncoding_ok [OF this, of 1] obtain ob where
    ob: "tryObjectEncoding 1 (Raw t) = Some ob" "sobj_ok ob" "text_of ob = t" by auto
  have v: "value_rep ?N (VString ob) (AString t)" using ob(2,3) by simp
  obtain db1 where p: "add_or_replace cr db k (VString ob) = Some (vals as k = None, db1)"
    "db_ok ?N db1 (a_put k (AString t) as)"
    by (rule put_sim [OF 1(2) v]) (use 1(3) in simp_all)
  obtain b db2 where e: "removeExpire db1 k = Some (b, db2)" "db_ok ?N db2 (a_persist k (a_put k (AString t) as))"
    by (rule persist_sim [OF p(2)])
  have "?N + mset_cost args < 2 ^ 29" using 1(3) by simp
  from 1(1) [OF e(2) this] p(1) e(1) ob(1) show ?case by (auto simp: add.assoc)
qed simp_all

lemma cmset_ok:
  assumes "db_ok N db as" "N + kcost (CMSet fresh args :: 's kcmd) < 2 ^ 29"
  shows "kstep_ok env now N (CMSet fresh args :: 's::{linorder, zero} kcmd) db as"
proof (cases "odd (length args)")
  case True
  show ?thesis by (rule kstepI [OF _ _ assms(1), where r = KArity]) (use True in \<open>simp_all add: msetGenericCommand_def\<close>)
next
  case False
  define as1 where "as1 = (if fresh then snd (a_busy args as) else as)"
  define busy where "busy = (if fresh then fst (a_busy args as) else 0)"
  obtain db1 where b: "(if fresh then busy_keys args db else Some (0, db)) = Some (busy, db1)" "db_ok N db1 as1"
    using busy_ok [OF assms(1), of args] assms(1) by (cases fresh) (auto simp: as1_def busy_def)
  have sp: "(if fresh then a_busy args as else (0, as)) = (busy, as1)" by (simp add: as1_def busy_def)
  show ?thesis
  proof (cases "busy = 0")
    case nb: False
    show ?thesis
      by (rule kstepI [OF _ _ b(2), where r = KZero])
        (use False nb b(1) sp in \<open>simp_all add: msetGenericCommand_def\<close>)
  next
    case True
    have "N + mset_cost args < 2 ^ 29" using assms(2) by simp
    from mset_loop_ok [OF b(2) this, of "key_can_resize env"] obtain db2 where
      l: "mset_loop (key_can_resize env) args db1 = Some db2" "db_ok (N + mset_cost args) db2 (a_mset args as1)" by blast
    show ?thesis
      by (rule kstepI [OF _ _ touch_sim [OF l(2), of "int (length args div 2)"], where r = "if fresh then KOne else KOk"])
        (use False True b(1) sp l(1) in \<open>simp_all add: msetGenericCommand_def\<close>)
  qed
qed

lemma persist_same: "db_ok N db as \<Longrightarrow> deadline as k = None \<Longrightarrow> a_persist k (a_put k w as) = a_put k w as"
proof -
  assume "deadline as k = None"
  then have "(deadline as)(k := None) = deadline as" by auto
  then show ?thesis by (simp add: a_defs)
qed

lemma cincr_ok:
  assumes "db_ok N db as" "N + kcost (CIncrBy k i :: 's kcmd) < 2 ^ 29"
  shows "kstep_ok env now N (CIncrBy k i :: 's::{linorder, zero} kcmd) db as"
proof -
  let ?as1 = "a_volatile k as"
  obtain r db1 where l: "lookupKeyWrite db k = Some (r, db1)" "found N db1 k ?as1 r"
    by (rule write_found [OF assms(1)])
  note ok = foundD(1) [OF l(2)]
  define old where "old = (case vals ?as1 k of None \<Rightarrow> Some (Some 0) | Some (AString t) \<Rightarrow> Some (number_of t) | Some _ \<Rightarrow> None)"
  define ob where "ob = (case r of Some (_, VString ob) \<Rightarrow> Some (Some (Some ob)) | None \<Rightarrow> Some (Some None) | Some (_, _) \<Rightarrow> Some None)"
  obtain x where x: "ob = Some x" "x = None \<longleftrightarrow> old = None"
    "\<And>y. x = Some y \<Longrightarrow> getLongLongFromObject y = Some (the old)"
    using l(2)
  proof (cases rule: found_cases)
    case missing
    then show ?thesis using that [of "Some None"] by (simp add: ob_def old_def getLongLongFromObject_def)
  next
    case (there p v w)
    from there(3) show ?thesis
    proof (cases rule: value_string)
      case (str o1)
      then show ?thesis using that [of "Some (Some o1)"] there by (simp add: ob_def old_def number_ok)
    next
      case other
      then show ?thesis using that [of None] there by (cases v; cases w) (simp_all add: ob_def old_def)
    qed
  qed
  note unf = kexec.simps incrDecrCommand_def l(1) bind.bind_lunit prod.case ob_def [symmetric] x(1)
  have sp: "a_incr k i as = (case old of None \<Rightarrow> (KWrongType, ?as1) | Some None \<Rightarrow> (KNotInteger, ?as1)
      | Some (Some n) \<Rightarrow> (KInt (signed_take_bit 63 (n + i)), a_touch 1 (a_put k (AString (dec_text (signed_take_bit 63 (n + i)))) ?as1)))"
    unfolding a_incr_def old_def Let_def ..
  show ?thesis
  proof (cases x)
    case None
    then have "old = None" using x(2) by simp
    then show ?thesis
      by (intro kstepI [OF _ _ ok, where r = KWrongType]) (unfold unf, use None sp in simp_all)
  next
    case (Some y)
    then obtain n' where n': "old = Some n'" using x(2) by (cases old) auto
    then have num: "getLongLongFromObject y = Some n'" using x(3) [OF Some] by simp
    show ?thesis
    proof (cases n')
      case None
      then show ?thesis
        by (intro kstepI [OF _ _ ok, where r = KNotInteger]) (unfold unf, use Some num n' sp in simp_all)
    next
      case n: (Some n)
      define new where "new = signed_take_bit 63 (n + i)"
      have long: "is_long new" by (simp add: new_def wrap_is_long)
      have v: "value_rep (N + 21) (VString (Enc new)) (AString (dec_text new))"
        using long length_dec_text [OF long] by auto
      obtain db2 where p: "add_or_replace (key_can_resize env) db1 k (VString (Enc new)) = Some (vals ?as1 k = None, db2)"
        "db_ok (N + 21) db2 (a_put k (AString (dec_text new)) ?as1)"
        by (rule put_sim [OF ok v]) (use assms(2) in simp_all)
      obtain b db3 where e: "(if vals ?as1 k = None then Some (False, db2) else removeExpire db2 k) = Some (b, db3)"
        "db_ok (N + 21) db3 (a_put k (AString (dec_text new)) ?as1)"
      proof (cases "vals ?as1 k = None")
        case False
        obtain b db3 where "removeExpire db2 k = Some (b, db3)"
          "db_ok (N + 21) db3 (a_persist k (a_put k (AString (dec_text new)) ?as1))" by (rule persist_sim [OF p(2)])
        then show ?thesis using that False persist_same [OF ok] by simp
      qed (use that [of False] p(2) in simp)
      show ?thesis
        by (rule kstepI [OF _ _ touch_sim [OF e(2), of 1], where r = "KInt new"])
          (unfold unf, use Some num n' n sp p(1) e(1) createStringObjectFromLongLong_ok [OF long] in
            \<open>simp_all add: new_def [symmetric] Let_def\<close>)
    qed
  qed
qed

lemma cappend_ok:
  assumes "db_ok N db as" "sobj_ok val" "N + kcost (CAppend shared k val :: 's kcmd) < 2 ^ 29"
  shows "kstep_ok env now N (CAppend shared k val :: 's::{linorder, zero} kcmd) db as"
proof -
  let ?as1 = "a_volatile k as" and ?a = "text_of val" and ?N = "N + (1 + length (text_of val))" and ?cr = "key_can_resize env"
  obtain r db1 where l: "lookupKeyWrite db k = Some (r, db1)" "found N db1 k ?as1 r"
    by (rule write_found [OF assms(1)])
  note ok = foundD(1) [OF l(2)]
  have lt: "N < ?N" "N < 2 ^ 29" "?N < 2 ^ 29" using assms(3) by simp_all
  have len: "stringObjectLen val = Some (length ?a)"
    and app: "(case val of Raw s \<Rightarrow> Some s | Enc n \<Rightarrow> sdsfromlonglong n) = Some ?a"
    using assms(2) by (cases val; simp add: stringObjectLen_def)+
  note unf = kexec.simps appendCommand_def l(1) bind.bind_lunit prod.case
  from l(2) show ?thesis
  proof (cases rule: found_cases)
    case missing
    have v: "value_rep ?N (VString val) (AString ?a)" using assms(2) by simp
    obtain d where d: "dictAdd ?cr (kdict db1) k (VString val) = Some (if vals ?as1 k = None then DICT_OK else DICT_ERR, d)"
      "db_ok (if vals ?as1 k = None then ?N else N) (db1\<lparr>kdict := d\<rparr>) (if vals ?as1 k = None then a_put k (AString ?a) ?as1 else ?as1)"
      by (rule add_sim [OF ok v lt(1,2)])
    have ok2: "db_ok ?N (db1\<lparr>kdict := d\<rparr>) (a_put k (AString ?a) ?as1)" using d(2) missing(2) by simp
    show ?thesis
      by (rule kstepI [OF _ _ touch_sim [OF ok2, of 1], where r = "KInt (int (length ?a))"])
        (unfold unf missing(1), use missing(2) d(1) len in \<open>simp_all add: a_append_def\<close>)
  next
    case (there p v w)
    obtain r2 db2 where l2: "lookupKey db1 k = Some (r2, db2)" "found N db2 k ?as1 r2" by (rule lookup_found [OF ok])
    note ok2 = foundD(1) [OF l2(2)]
    from l2(2) obtain p2 v2 where r2: "r2 = Some (p2, v2)" "value_rep N v2 w"
      using there(2) by (cases rule: found_cases) auto
    from r2(2) show ?thesis
    proof (cases rule: value_string)
      case (str ob)
      let ?t = "text_of ob" and ?new = "VString (Raw (text_of ob @ ?a))"
      have v: "value_rep ?N ?new (AString (?t @ ?a))" using str(4) lt(3) by simp
      obtain db3 where db3: "(if \<not> shared \<and> ob = Raw ?t then Some (db2\<lparr>kdict := set_val p2 ?new (kdict db2)\<rparr>)
          else map_option (\<lambda>(_, d). db2\<lparr>kdict := d\<rparr>) (dictReplace ?cr (kdict db2) k ?new)) = Some db3"
        "db_ok ?N db3 (a_put k (AString (?t @ ?a)) ?as1)"
      proof (cases "\<not> shared \<and> ob = Raw ?t")
        case True
        then show ?thesis using that set_sim [OF l2(2) [unfolded r2(1)] v lt(1)] by simp
      next
        case False
        obtain r3 d where "dictReplace ?cr (kdict db2) k ?new = Some (r3, d)"
          "db_ok ?N (db2\<lparr>kdict := d\<rparr>) (a_put k (AString (?t @ ?a)) ?as1)" by (rule replace_sim [OF ok2 v lt(1,2)])
        then show ?thesis using that by (simp add: if_not_P [OF False])
      qed
      have "kexec env now (CAppend shared k val) db =
          Some (KInt (int (length (?t @ ?a))), db3\<lparr>kdirty := kdirty db3 + 1\<rparr>)"
        unfolding unf there(1) option.case l2(1) r2(1) str(1) rvalue.case getDecodedObject_eq [OF str(3)] app Let_def db3(1) ..
      then show ?thesis
        by (rule kstepI [OF _ _ touch_sim [OF db3(2), of 1]]) (use there(2) str(2) in \<open>simp_all add: a_append_def Let_def\<close>)
    next
      case other
      have "kexec env now (CAppend shared k val) db = Some (KWrongType, db2)"
        unfolding unf there(1) option.case l2(1) r2(1) using other(1) by (cases v2) auto
      then show ?thesis
        by (rule kstepI [OF _ _ ok2]) (use there(2) other(2) in \<open>cases w; simp_all add: a_append_def Let_def\<close>)+
    qed
  qed
qed

lemma crename_ok:
  assumes "db_ok N db as" "length src < 2 ^ 31" "length dst < 2 ^ 31" "N + kcost (CRename fresh src dst :: 's kcmd) < 2 ^ 29"
  shows "kstep_ok env now N (CRename fresh src dst :: 's::{linorder, zero} kcmd) db as"
proof (cases "src = dst")
  case True
  then have c: "contents_cmp src dst = 0" using contents_cmp_eq [OF assms(2,3)] by simp
  show ?thesis
    by (rule kstepI [OF _ _ assms(1), where r = KSameObject]) (use True c in \<open>simp_all add: renameGenericCommand_def a_rename_def\<close>)
next
  case False
  then have c: "contents_cmp src dst \<noteq> 0" using contents_cmp_eq [OF assms(2,3)] by simp
  let ?as1 = "a_volatile src as" and ?cr = "key_can_resize env"
  obtain r db1 where l: "lookupKeyWrite db src = Some (r, db1)" "found N db1 src ?as1 r"
    by (rule write_found [OF assms(1)])
  note ok = foundD(1) [OF l(2)]
  have lt: "N < N + 1" "N < 2 ^ 29" using assms(4) by simp_all
  note unf = kexec.simps renameGenericCommand_def if_not_P [OF c] l(1) bind.bind_lunit prod.case
  from l(2) show ?thesis
  proof (cases rule: found_cases)
    case missing
    show ?thesis
      by (rule kstepI [OF _ _ ok, where r = KNoKey]) (unfold unf missing(1), use missing(2) False in \<open>simp_all add: a_rename_def\<close>)
  next
    case (there p v w)
    let ?as2 = "a_volatile dst ?as1"
    obtain b db2 where e: "deleteIfVolatile db1 dst = Some (b, db2)" "db_ok N db2 ?as2" by (rule volatile_sim [OF ok])
    have v: "value_rep (N + 1) v w" using value_rep_mono [OF there(3)] by simp
    obtain d where d: "dictAdd ?cr (kdict db2) dst v = Some (if vals ?as2 dst = None then DICT_OK else DICT_ERR, d)"
      "db_ok (if vals ?as2 dst = None then N + 1 else N) (db2\<lparr>kdict := d\<rparr>) (if vals ?as2 dst = None then a_put dst w ?as2 else ?as2)"
      by (rule add_sim [OF e(2) v lt])
    note unf2 = unf there(1) option.case e(1) d(1) Let_def
    have sp: "a_rename fresh src dst as = (if fresh \<and> vals ?as2 dst \<noteq> None then (KZero, ?as2)
        else (if fresh then KOne else KOk, a_touch 1 (a_remove src (a_put dst w ?as2))))"
      using False there(2) by (simp add: a_rename_def Let_def)
    show ?thesis
    proof (cases "fresh \<and> vals ?as2 dst \<noteq> None")
      case True
      have "db_ok N (db2\<lparr>kdict := d\<rparr>) ?as2" using d(2) True by (auto split: if_splits)
      then show ?thesis
        by (rule kstepI [where r = KZero, rotated 2])
          (unfold unf2, use True sp dict_codes in auto)
    next
      case nb: False
      obtain db4 where db4: "(if (if vals ?as2 dst = None then DICT_OK else DICT_ERR) = DICT_ERR
          then map_option (\<lambda>(_, d'). db2\<lparr>kdict := d, kdict := d'\<rparr>) (dictReplace ?cr (kdict (db2\<lparr>kdict := d\<rparr>)) dst v)
          else Some (db2\<lparr>kdict := d\<rparr>)) = Some db4" "db_ok (N + 1) db4 (a_put dst w ?as2)"
      proof (cases "vals ?as2 dst = None")
        case True
        then show ?thesis using that d(2) dict_codes by simp
      next
        case False
        then have "db_ok N (db2\<lparr>kdict := d\<rparr>) ?as2" using d(2) by (auto split: if_splits)
        then obtain r d' where "dictReplace ?cr (kdict (db2\<lparr>kdict := d\<rparr>)) dst v = Some (r, d')"
          "db_ok (N + 1) (db2\<lparr>kdict := d, kdict := d'\<rparr>) (a_put dst w ?as2)" by (rule replace_sim [OF _ v lt])
        then show ?thesis using that False by simp
      qed
      obtain db5 where db5: "deleteKey db4 src = Some (vals (a_put dst w ?as2) src \<noteq> None, db5)"
        "db_ok (N + 1) db5 (a_remove src (a_put dst w ?as2))" by (rule remove_sim [OF db4(2)])
      have "kexec env now (CRename fresh src dst) db = Some (if fresh then KOne else KOk, db5\<lparr>kdirty := kdirty db5 + 1\<rparr>)"
        unfolding unf2 using nb db4(1) db5(1) dict_codes by (cases "vals ?as2 dst = None"; cases fresh; simp)
      then show ?thesis
        by (rule kstepI [OF _ _ touch_sim [OF db5(2), of 1]]) (use nb sp in auto)
    qed
  qed
qed

text \<open>Commands on a hash or a sorted set: what they find, and what they leave.\<close>

lemma lookup_for_found:
  assumes "db_ok N db as"
  obtains r db' where "lookup_for reads now db k = Some (r, db')" "found N db' k (a_lookup reads now k as) r"
proof (cases reads)
  case True
  obtain r db' where "lookupKeyRead now db k = Some (r, db')" "found N db' k (a_expire now k as) r"
    by (rule read_found [OF assms])
  then show ?thesis using that True by (simp add: lookup_for_def a_lookup_def)
next
  case False
  obtain r db' where "lookupKeyWrite db k = Some (r, db')" "found N db' k (a_volatile k as) r"
    by (rule write_found [OF assms])
  then show ?thesis using that False by (simp add: lookup_for_def a_lookup_def)
qed

lemma store_some_sim:
  assumes "found N db k as r" "value_rep N' v w" "N < N'" "N < 2 ^ 29"
  obtains db' where "store_value cr k (map_option fst r) (Some v) db = Some db'" "db_ok N' db' (a_put k w as)"
  using assms(1)
proof (cases rule: found_cases)
  case missing
  obtain d where "dictAdd cr (kdict db) k v = Some (if vals as k = None then DICT_OK else DICT_ERR, d)"
    "db_ok (if vals as k = None then N' else N) (db\<lparr>kdict := d\<rparr>) (if vals as k = None then a_put k w as else as)"
    by (rule add_sim [OF foundD(1) [OF assms(1)] assms(2-4)])
  then show ?thesis using that missing by (simp add: store_value_def)
next
  case (there p v0 w0)
  show ?thesis
    using that [OF _ set_sim [OF assms(1) [unfolded there(1)] assms(2,3)]] there(1) by (simp add: store_value_def)
qed

lemma store_none_sim:
  assumes "found N db k as r"
  obtains db' where "store_value cr k (map_option fst r) None db = Some db'" "db_ok N db' (a_remove k as)"
  using assms
proof (cases rule: found_cases)
  case missing
  have "(vals as)(k := None) = vals as" using missing(2) by auto
  moreover have "(deadline as)(k := None) = deadline as" using db_card(3) [OF foundD(1) [OF assms] missing(2)] by auto
  ultimately have "a_remove k as = as" by (simp add: a_remove_def)
  then show ?thesis using that missing(1) foundD(1) [OF assms] by (simp add: store_value_def)
next
  case (there p v w)
  obtain db' where "deleteKey db k = Some (vals as k \<noteq> None, db')" "db_ok N db' (a_remove k as)"
    by (rule remove_sim [OF foundD(1) [OF assms]])
  then show ?thesis using that there(1) by (simp add: store_value_def)
qed

lemma hash_wrong: "\<not> (case c of HMSet args \<Rightarrow> odd (length args) | _ \<Rightarrow> False) \<Longrightarrow>
    hexec env c (Some OtherVal) = Some (HWrongType, Some OtherVal, 0)"
  by (cases c) (simp_all add: hsetCommand_def hsetnxCommand_def hmsetCommand_def hincrbyCommand_def hgetCommand_def
    hmgetCommand_def hdelCommand_def hlenCommand_def genericHgetallCommand_def hexistsCommand_def hashLookupWriteOrCreate_def)

lemma zset_wrong: "zexec env c (Some OtherType) = Some (WrongType, Some OtherType, 0)"
  by (cases c) (simp_all add: zaddGenericCommand_def zremCommand_def zremrangebyscoreCommand_def zremrangebyrankCommand_def
    zrangeGenericCommand_def genericZrangebyscoreCommand_def zcardCommand_def zscoreCommand_def zrankGenericCommand_def)

lemma keeps_score_Nil: "\<not> keeps_score addf c []"
  by (cases c) simp_all

lemma touch0 [simp]: "a_touch 0 as = as"
  by (simp add: a_touch_def)

lemma kdirty0 [simp]: "db\<lparr>kdirty := kdirty db + 0\<rparr> = db"
  by simp

lemma chash_ok:
  assumes "db_ok N db as" "kenv_ok env" "hcmd_ok c" "N + kcost (CHash k c :: 's kcmd) < 2 ^ 29"
  shows "kstep_ok env now N (CHash k c :: 's::{linorder, zero} kcmd) db as"
proof (cases "case c of HMSet args \<Rightarrow> odd (length args) | _ \<Rightarrow> False")
  case True
  show ?thesis
    by (rule kstepI [OF _ _ assms(1), where r = "KHash HArity"]) (use True in \<open>simp_all add: hashCommand_def a_hash_def\<close>)
next
  case False
  let ?as1 = "a_lookup (hash_reads c) now k as" and ?cr = "key_can_resize env" and ?N = "N + (3 + cmd_cost c)"
  obtain r db1 where l: "lookup_for (hash_reads c) now db k = Some (r, db1)" "found N db1 k ?as1 r"
    by (rule lookup_for_found [OF assms(1)])
  note ok = foundD(1) [OF l(2)]
  note unf = kexec.simps hashCommand_def if_not_P [OF False] l(1) bind.bind_lunit prod.case
  define x where "x = (case vals ?as1 k of None \<Rightarrow> Some (\<lambda>_. None) | Some (AHash m) \<Rightarrow> Some m | Some _ \<Rightarrow> None)"
  have sp: "a_hash now k c as r' as' \<longleftrightarrow> (case x of None \<Rightarrow> r' = KHash HWrongType \<and> as' = ?as1
      | Some m \<Rightarrow> \<exists>hr m' n. hspec c m hr m' n \<and> r' = KHash hr \<and>
            as' = a_touch n (a_store k (if m' = (\<lambda>_. None) then None else Some (AHash m')) ?as1))" for r' :: "'s kreply" and as'
    unfolding a_hash_def if_not_P [OF False] x_def Let_def ..
  have view: "(\<exists>m. x = Some m \<and> hvalue_ok (hash_view (map_option snd r)) m \<and> value_extent (hash_view (map_option snd r)) \<le> max 2 N)
      \<or> x = None \<and> hash_view (map_option snd r) = Some OtherVal"
    using l(2)
  proof (cases rule: found_cases)
    case missing
    then show ?thesis by (simp add: hash_view_def x_def)
  next
    case (there p v w)
    then show ?thesis by (cases v; cases w) (simp_all add: hash_view_def x_def)
  qed
  show ?thesis
  proof (cases x)
    case None
    then have v: "hash_view (map_option snd r) = Some OtherVal" using view by simp
    show ?thesis
      by (rule kstepI [OF _ _ ok, where r = "KHash HWrongType"])
        (unfold unf v hash_wrong [OF False], simp_all add: None sp)
  next
    case (Some m)
    then have v: "hvalue_ok (hash_view (map_option snd r)) m" "value_extent (hash_view (map_option snd r)) \<le> max 2 N"
      using view by simp_all
    have "value_extent (hash_view (map_option snd r)) + cmd_cost c < 2 ^ 29" using v(2) assms(4) by simp
    moreover have he: "henv_ok (hash_env env)" "env_ok (zset_env env)" using assms(2) by (simp_all add: kenv_ok_def)
    ultimately have "hstep_ok (hash_env env) c (hash_view (map_option snd r)) m" using hexec_ok [OF v(1) he(1) assms(3)] by blast
    then obtain hr v' m' n where
      h: "hexec (hash_env env) c (hash_view (map_option snd r)) = Some (hr, v', n)" "hspec c m hr m' n" "hvalue_ok v' m'"
        "value_extent v' \<le> value_extent (hash_view (map_option snd r)) + cmd_cost c"
      unfolding hstep_ok_def by blast
    have N: "N < ?N" "N < 2 ^ 29" "max 2 N + cmd_cost c \<le> ?N" using assms(4) by simp_all
    obtain db2 where s: "(case v' of None \<Rightarrow> store_value ?cr k (map_option fst r) None db1 | Some OtherVal \<Rightarrow> Some db1
        | Some (HashVal h) \<Rightarrow> store_value ?cr k (map_option fst r) (Some (VHash h)) db1) = Some db2"
      "db_ok ?N db2 (a_store k (if m' = (\<lambda>_. None) then None else Some (AHash m')) ?as1)"
      using h(3)
    proof (cases rule: hvalue_cases)
      case 1
      obtain db' where "store_value ?cr k (map_option fst r) None db1 = Some db'" "db_ok N db' (a_remove k ?as1)"
        by (rule store_none_sim [OF l(2)])
      then show ?thesis using that 1 db_ok_mono N(1) by (force simp: a_store_def)
    next
      case (2 h)
      have "max 2 (hash_extent h) \<le> ?N" using le_trans [OF h(4) le_trans [OF add_le_mono1 [OF v(2)] N(3)]] 2(1) by simp
      then have "value_rep ?N (VHash h) (AHash m')" using 2 by simp
      then obtain db' where "store_value ?cr k (map_option fst r) (Some (VHash h)) db1 = Some db'"
        "db_ok ?N db' (a_put k (AHash m') ?as1)" by (rule store_some_sim [OF l(2) _ N(1,2)])
      then show ?thesis using that 2 by (simp add: a_store_def)
    qed
    show ?thesis
      by (rule kstepI [OF _ _ touch_sim [OF s(2), of n], where r = "KHash hr"])
        (unfold unf h(1) s(1), use h(2) in \<open>auto simp: sp Some\<close>)
  qed
qed

lemma czset_ok:
  fixes c :: "'s::{linorder, zero} zcmd"
  assumes "db_ok N db as" "kenv_ok env" "zcmd_ok c" "N + kcost (CZset k c) < 2 ^ 29"
  shows "if kfault (plus_of (zset_env env)) now (CZset k c) as then kexec env now (CZset k c) db = None
    else kstep_ok env now N (CZset k c) db as"
proof -
  let ?as1 = "a_lookup (zset_reads c) now k as" and ?cr = "key_can_resize env" and ?addf = "plus_of (zset_env env)"
  obtain r db1 where l: "lookup_for (zset_reads c) now db k = Some (r, db1)" "found N db1 k ?as1 r"
    by (rule lookup_for_found [OF assms(1)])
  note ok = foundD(1) [OF l(2)]
  note unf = kexec.simps zsetCommand_def l(1) bind.bind_lunit prod.case
  define x where "x = (case vals ?as1 k of None \<Rightarrow> Some [] | Some (AZset es) \<Rightarrow> Some es | Some _ \<Rightarrow> None)"
  have sp: "a_zset ?addf now k c as = (case x of None \<Rightarrow> (KZset WrongType, ?as1)
      | Some es \<Rightarrow> let (r, es', n) = zspec ?addf c es
          in (KZset r, a_touch n (a_store k (if es' = [] then None else Some (AZset es')) ?as1)))"
    unfolding a_zset_def x_def Let_def ..
  have view: "(\<exists>es. x = Some es \<and> value_ok (zset_view (map_option snd r)) es \<and> length es \<le> N)
      \<or> x = None \<and> zset_view (map_option snd r) = Some OtherType"
    using l(2)
  proof (cases rule: found_cases)
    case missing
    then show ?thesis by (simp add: zset_view_def x_def value_ok_def)
  next
    case (there p v w)
    then show ?thesis by (cases v; cases w) (simp_all add: zset_view_def x_def value_ok_def)
  qed
  show ?thesis
  proof (cases x)
    case None
    then have v: "zset_view (map_option snd r) = Some OtherType" using view by simp
    have nf: "\<not> kfault ?addf now (CZset k c) as" using None by (auto simp: x_def split: option.splits avalue.splits)
    have "kstep_ok env now N (CZset k c) db as"
      by (rule kstepI [OF _ _ ok, where r = "KZset WrongType"])
        (unfold unf v zset_wrong, simp_all add: None sp nf [simplified])
    then show ?thesis using nf by (simp only: if_False)
  next
    case (Some es)
    then have v: "value_ok (zset_view (map_option snd r)) es" "length es \<le> N" using view by simp_all
    obtain zr es' n where z: "zspec ?addf c es = (zr, es', n)" by (metis prod_cases3)
    have N: "N < N + 1" "N < 2 ^ 29" "length es < 2 ^ 29" using assms(4) v(2) by simp_all
    have "env_ok (zset_env env)" using assms(2) by (simp add: kenv_ok_def)
    note step = zexec_ok [OF v(1) this assms(3) N(3)]
    have kf: "kfault ?addf now (CZset k c) as \<longleftrightarrow> keeps_score ?addf c es"
      using Some keeps_score_Nil [of ?addf c] by (auto simp: x_def split: option.splits avalue.splits)
    show ?thesis
    proof (cases "keeps_score ?addf c es")
      case True
      then show ?thesis using step kf unfolding unf by (simp only: if_True) simp
    next
      case False
      from step False z obtain v' where
        h: "zexec (zset_env env) c (zset_view (map_option snd r)) = Some (zr, v', n)" "value_ok v' es'"
        by (auto simp: zstep_ok_def)
      have le: "length es' \<le> N + 1" using zspec_length [of ?addf c es] z v(2) by simp
      obtain db2 where s: "(case v' of None \<Rightarrow> store_value ?cr k (map_option fst r) None db1 | Some OtherType \<Rightarrow> Some db1
          | Some (ZsetVal zs) \<Rightarrow> store_value ?cr k (map_option fst r) (Some (VZset zs)) db1) = Some db2"
        "db_ok (N + 1) db2 (a_store k (if es' = [] then None else Some (AZset es')) ?as1)"
        using h(2)
      proof (cases rule: value_okE)
        case 1
        obtain db' where "store_value ?cr k (map_option fst r) None db1 = Some db'" "db_ok N db' (a_remove k ?as1)"
          by (rule store_none_sim [OF l(2)])
        then show ?thesis using that 1 db_ok_mono N(1) by (force simp: a_store_def)
      next
        case (2 zs)
        have "value_rep (N + 1) (VZset zs) (AZset es')" using 2 le by simp
        then obtain db' where "store_value ?cr k (map_option fst r) (Some (VZset zs)) db1 = Some db'"
          "db_ok (N + 1) db' (a_put k (AZset es') ?as1)" by (rule store_some_sim [OF l(2) _ N(1,2)])
        then show ?thesis using that 2 by (simp add: a_store_def)
      qed
      have "kstep_ok env now N (CZset k c) db as"
        by (rule kstepI [OF _ _ touch_sim [OF s(2), of n], where r = "KZset zr"])
          (unfold unf h(1) s(1), use kf False in \<open>simp_all add: sp Some z\<close>)
      then show ?thesis using kf False by (simp only: if_False)
    qed
  qed
qed

lemma kexec_ok:
  assumes "db_ok N db as" "kenv_ok env" "kcmd_ok c" "N + kcost c < 2 ^ 29"
  shows "if kfault (plus_of (zset_env env)) now c as then kexec env now c db = None else kstep_ok env now N c db as"
proof (cases "\<exists>k zc. c = CZset k zc")
  case True
  then show ?thesis using czset_ok [OF assms(1,2)] assms(3,4) by fastforce
next
  case False
  then have "kstep_ok env now N c db as"
    using assms cset_ok [OF assms(1)] cget_ok [OF assms(1)] cgetset_ok [OF assms(1)] cmget_ok [OF assms(1)]
      cmset_ok [OF assms(1)] cincr_ok [OF assms(1)] cappend_ok [OF assms(1)] csubstr_ok [OF assms(1)] cdel_ok [OF assms(1)]
      cexists_ok [OF assms(1)] ctype_ok [OF assms(1)] cexpire_ok [OF assms(1)] cttl_ok [OF assms(1)] crename_ok [OF assms(1)]
      cdbsize_ok [OF assms(1)] cflushdb_ok [OF assms(1)] chash_ok [OF assms(1,2)]
    by (cases c) simp_all
  moreover have "\<not> kfault (plus_of (zset_env env)) now c as" using False by (cases c) auto
  ultimately show ?thesis by simp
qed

end
