(* ===== verification/Server.thy ===== *)
theory Server
  imports Keyspace_Commands Dict_Random
begin

text \<open>
  The databases of a server (\<open>apps/redis-2.0.4/redis.c\<close>): selecting and emptying them, the commands
  that touch two of them or pick a key at random, and what the timer \<open>serverCron\<close> does to them. The
  random numbers and the clock readings are arguments, one list of random numbers for each call of
  \<open>dictGetRandomKey\<close> and one clock reading for each turn of the expiration loop; \<open>None\<close> is a loop
  that needs more of them.
\<close>

section \<open>The databases together\<close>

record 'v server =
  tables :: "((bytes, 'v) dict \<times> (bytes, int) dict) list"
  dirty_count :: int
  expired_count :: int

text \<open>The types of the two tables, and the empty databases that \<open>initServer\<close> makes.\<close>

definition dbDictType :: "(bytes, 'v) dictType" where
  "dbDictType = \<lparr>hashFunction = dictObjHash, keyDup = None, valDup = None, keyCompare = Some sdsDictKeyCompare,
     keyDestructor = True, valDestructor = True\<rparr>"

definition keyptrDictType :: "(bytes, int) dictType" where
  "keyptrDictType = \<lparr>hashFunction = dictObjHash, keyDup = None, valDup = None, keyCompare = Some sdsDictKeyCompare,
     keyDestructor = True, valDestructor = False\<rparr>"

definition initServer :: "nat \<Rightarrow> 'v server" where
  "initServer n =
     \<lparr>tables = replicate n (dictCreate dbDictType, dictCreate keyptrDictType), dirty_count = 0, expired_count = 0\<rparr>"

definition dbnum :: "'v server \<Rightarrow> nat" where
  "dbnum s = length (tables s)"

definition open_db :: "nat \<Rightarrow> 'v server \<Rightarrow> 'v kdb" where
  "open_db i s = \<lparr>kdict = fst (tables s ! i), kexpires = snd (tables s ! i), kdirty = dirty_count s, kexpired = expired_count s\<rparr>"

definition close_db :: "nat \<Rightarrow> 'v kdb \<Rightarrow> 'v server \<Rightarrow> 'v server" where
  "close_db i db s = s\<lparr>tables := (tables s)[i := (kdict db, kexpires db)], dirty_count := kdirty db, expired_count := kexpired db\<rparr>"

text \<open>The database of the client after \<open>SELECT\<close>; \<open>None\<close> is \<open>REDIS_ERR\<close>.\<close>

definition selectDb :: "int \<Rightarrow> 'v server \<Rightarrow> nat option" where
  "selectDb i s = (if i < 0 \<or> i \<ge> int (dbnum s) then None else Some (nat i))"

definition moveCommand :: "bool \<Rightarrow> bytes \<Rightarrow> int \<Rightarrow> nat \<Rightarrow> 's rvalue server \<Rightarrow> ('s kreply \<times> 's rvalue server) option" where
  "moveCommand cr key target src s =
     (case selectDb target s of
        None \<Rightarrow> Some (KOutOfRange, s)
      | Some dst \<Rightarrow>
          if src = dst then Some (KSameObject, s)
          else do {
            (r, db1) \<leftarrow> lookupKeyWrite (open_db src s) key;
            let s1 = close_db src db1 s;
            case r of
              None \<Rightarrow> Some (KZero, s1)
            | Some (_, v) \<Rightarrow> do {
                (_, db2) \<leftarrow> deleteIfVolatile (open_db dst s1) key;
                (retval, d) \<leftarrow> dictAdd cr (kdict db2) key v;
                let s2 = close_db dst (db2\<lparr>kdict := d\<rparr>) s1;
                if retval = DICT_ERR then Some (KZero, s2)
                else do {
                  (_, db3) \<leftarrow> deleteKey (open_db src s2) key;
                  Some (KOne, close_db src (db3\<lparr>kdirty := kdirty db3 + 1\<rparr>) s2) } } })"

definition emptyDb :: "'v server \<Rightarrow> int \<times> 'v server" where
  "emptyDb s =
     (int (sum_list (map (\<lambda>(d, ex). dictSize d) (tables s))),
      s\<lparr>tables := map (\<lambda>(d, ex). (dictEmpty d, dictEmpty ex)) (tables s)\<rparr>)"

definition flushallCommand :: "bool \<Rightarrow> 's rvalue server \<Rightarrow> 's kreply \<times> 's rvalue server" where
  "flushallCommand saved s =
     (let (removed, s1) = emptyDb s
      in (KOk, s1\<lparr>dirty_count := (if saved then 0 else dirty_count s1 + removed) + 1\<rparr>))"

text \<open>\<open>RANDOMKEY\<close> expires what it picks until it picks a key that stays.\<close>

fun randomkey_loop :: "int \<Rightarrow> nat list list \<Rightarrow> 'v kdb \<Rightarrow> (bytes option \<times> 'v kdb) option" where
  "randomkey_loop now [] db = None"
| "randomkey_loop now (rs # rss) db = do {
     (de, d) \<leftarrow> dictGetRandomKey (kdict db) rs;
     case de of
       None \<Rightarrow> Some (None, db\<lparr>kdict := d\<rparr>)
     | Some (key, _) \<Rightarrow> do {
         (expired, db1) \<leftarrow> expireIfNeeded now (db\<lparr>kdict := d\<rparr>) key;
         if expired then randomkey_loop now rss db1 else Some (Some key, db1) } }"

definition randomkeyCommand :: "int \<Rightarrow> nat list list \<Rightarrow> 's rvalue kdb \<Rightarrow> ('s kreply \<times> 's rvalue kdb) option" where
  "randomkeyCommand now rss db = do {
     (de, db1) \<leftarrow> randomkey_loop now rss db;
     Some (case de of None \<Rightarrow> KNull | Some key \<Rightarrow> KBulk key, db1) }"

section \<open>The timer\<close>

text \<open>What \<open>serverCron\<close> does now and then.\<close>

definition resize_if_needed :: "bool \<Rightarrow> ('k, 'v) dict \<Rightarrow> ('k, 'v) dict" where
  "resize_if_needed cr d = (if htNeedsResize d then snd (dictResize cr d) else d)"

definition tryResizeHashTables :: "bool \<Rightarrow> 'v server \<Rightarrow> 'v server" where
  "tryResizeHashTables cr s =
     s\<lparr>tables := map (\<lambda>(d, ex). (resize_if_needed cr d, resize_if_needed cr ex)) (tables s)\<rparr>"

primrec rehash_dbs :: "int \<Rightarrow> int list \<Rightarrow> ((bytes, 'v) dict \<times> 'e) list \<Rightarrow> ((bytes, 'v) dict \<times> 'e) list option" where
  "rehash_dbs start clock [] = Some []"
| "rehash_dbs start clock (t # ts) =
     (if dictIsRehashing (fst t)
      then do { (_, d) \<leftarrow> dictRehashMilliseconds (fst t) 1 start clock; Some ((d, snd t) # ts) }
      else do { ts' \<leftarrow> rehash_dbs start clock ts; Some (t # ts') })"

definition incrementallyRehash :: "int \<Rightarrow> int list \<Rightarrow> 'v server \<Rightarrow> 'v server option" where
  "incrementallyRehash start clock s = do { ts \<leftarrow> rehash_dbs start clock (tables s); Some (s\<lparr>tables := ts\<rparr>) }"

definition REDIS_EXPIRELOOKUPS_PER_CRON :: nat where "REDIS_EXPIRELOOKUPS_PER_CRON = 10"

text \<open>\<open>num\<close> lookups of a random key with a deadline: how many were due and deleted, and what is left of the
  random numbers.\<close>

primrec expire_lookups :: "int \<Rightarrow> nat \<Rightarrow> nat list list \<Rightarrow> 'v kdb \<Rightarrow> (nat \<times> nat list list \<times> 'v kdb) option" where
  "expire_lookups now 0 rss db = Some (0, rss, db)"
| "expire_lookups now (Suc num) rss db =
     (case rss of
        [] \<Rightarrow> None
      | rs # rss' \<Rightarrow> do {
          (de, ex) \<leftarrow> dictGetRandomKey (kexpires db) rs;
          case de of
            None \<Rightarrow> Some (0, rss', db\<lparr>kexpires := ex\<rparr>)
          | Some (key, t) \<Rightarrow>
              if now > t then do {
                (_, db1) \<leftarrow> deleteKey (db\<lparr>kexpires := ex\<rparr>) key;
                (n, rss2, db2) \<leftarrow> expire_lookups now num rss' (db1\<lparr>kexpired := kexpired db1 + 1\<rparr>);
                Some (Suc n, rss2, db2) }
              else expire_lookups now num rss' (db\<lparr>kexpires := ex\<rparr>) })"

text \<open>The turns go on while more than a quarter of the lookups found a key that was due.\<close>

primrec expire_cycle :: "int list \<Rightarrow> nat list list \<Rightarrow> 'v kdb \<Rightarrow> 'v kdb option" where
  "expire_cycle [] rss db = None"
| "expire_cycle (now # nows) rss db = do {
     (expired, rss', db1) \<leftarrow> expire_lookups now (min (dictSize (kexpires db)) REDIS_EXPIRELOOKUPS_PER_CRON) rss db;
     if expired > REDIS_EXPIRELOOKUPS_PER_CRON div 4 then expire_cycle nows rss' db1 else Some db1 }"

fun expire_dbs :: "nat \<Rightarrow> (int list \<times> nat list list) list \<Rightarrow> 'v server \<Rightarrow> 'v server option" where
  "expire_dbs j [] s = (if j < dbnum s then None else Some s)"
| "expire_dbs j ((nows, rss) # work) s =
     (if j < dbnum s then do { db \<leftarrow> expire_cycle nows rss (open_db j s); expire_dbs (Suc j) work (close_db j db s) }
      else Some s)"

text \<open>
  What one run of the timer reads: its number, whether a child process is saving, the configuration
  \<open>activerehashing\<close>, the clock while rehashing, and for each database the clock and the random
  numbers of the expiration loop.
\<close>

record cron =
  loops :: int
  saving_child :: bool
  activerehashing :: bool
  rehash_start :: int
  rehash_clock :: "int list"
  expire_work :: "(int list \<times> nat list list) list"

definition serverCron :: "bool \<Rightarrow> cron \<Rightarrow> 'v server \<Rightarrow> 'v server option" where
  "serverCron cr c s = do {
     s1 \<leftarrow> (if saving_child c then Some s
           else let s0 = (if loops c mod 10 = 0 then tryResizeHashTables cr s else s)
                in if activerehashing c then incrementallyRehash (rehash_start c) (rehash_clock c) s0 else Some s0);
     expire_dbs 0 (expire_work c) s1 }"

section \<open>Clients\<close>

text \<open>A client issues commands on its database, selects another one, or the timer runs in between.\<close>

datatype 's scmd =
  OnDb "'s kcmd" | SMove bytes int | SSelect int | SFlushAll bool | SRandomKey "nat list list" | SCron cron

fun sexec :: "'s::{linorder, zero} kenv \<Rightarrow> int \<Rightarrow> 's scmd \<Rightarrow> nat \<Rightarrow> 's rvalue server \<Rightarrow> ('s kreply option \<times> nat \<times> 's rvalue server) option" where
  "sexec env now (OnDb c) i s = do { (r, db) \<leftarrow> kexec env now c (open_db i s); Some (Some r, i, close_db i db s) }"
| "sexec env now (SMove key target) i s = do {
     (r, s') \<leftarrow> moveCommand (key_can_resize env) key target i s;
     Some (Some r, i, s') }"
| "sexec env now (SSelect target) i s =
     (case selectDb target s of None \<Rightarrow> Some (Some KBadIndex, i, s) | Some j \<Rightarrow> Some (Some KOk, j, s))"
| "sexec env now (SFlushAll saved) i s = (let (r, s') = flushallCommand saved s in Some (Some r, i, s'))"
| "sexec env now (SRandomKey rss) i s = do { (r, db) \<leftarrow> randomkeyCommand now rss (open_db i s); Some (Some r, i, close_db i db s) }"
| "sexec env now (SCron c) i s = do { s' \<leftarrow> serverCron (key_can_resize env) c s; Some (None, i, s') }"

text \<open>The commands of the clients and the runs of the timer, each with the time it is at.\<close>

fun srun :: "'s::{linorder, zero} kenv \<Rightarrow> (int \<times> 's scmd) list \<Rightarrow> nat \<Rightarrow> 's rvalue server \<Rightarrow> ('s kreply option list \<times> nat \<times> 's rvalue server) option" where
  "srun env [] i s = Some ([], i, s)"
| "srun env ((now, c) # cs) i s = do {
     (r, j, s1) \<leftarrow> sexec env now c i s;
     (rs, l, s2) \<leftarrow> srun env cs j s1;
     Some (r # rs, l, s2) }"

end
