(* ===== verification/Server_Spec.thy ===== *)
theory Server_Spec
  imports Keyspace_Spec Server
begin

text \<open>
  The server against its specification: a list of databases, each a map from keys to values and a
  map from some of the keys to their deadlines. Commands change the database they are sent to,
  \<open>MOVE\<close> two of them, and the timer only removes keys whose deadline has passed.
\<close>

section \<open>Databases as maps\<close>

record 's aserver =
  dbs :: "((bytes \<Rightarrow> 's avalue option) \<times> (bytes \<Rightarrow> int option)) list"
  all_changes :: int
  all_gone :: int

definition a_open :: "nat \<Rightarrow> 's aserver \<Rightarrow> 's avalue kstate" where
  "a_open i a = \<lparr>vals = fst (dbs a ! i), deadline = snd (dbs a ! i), changes = all_changes a, gone = all_gone a\<rparr>"

definition a_close :: "nat \<Rightarrow> 's avalue kstate \<Rightarrow> 's aserver \<Rightarrow> 's aserver" where
  "a_close i as a = a\<lparr>dbs := (dbs a)[i := (vals as, deadline as)], all_changes := changes as, all_gone := gone as\<rparr>"

text \<open>Keys whose deadline has passed at one of the times \<open>T\<close> go, in any order.\<close>

inductive reaps :: "int set \<Rightarrow> 'a kstate \<Rightarrow> 'a kstate \<Rightarrow> bool" for T where
  "reaps T as as"
| "now \<in> T \<Longrightarrow> overdue now as k \<Longrightarrow> reaps T (a_expire now k as) as' \<Longrightarrow> reaps T as as'"

inductive all_reap :: "int set \<Rightarrow> 's aserver \<Rightarrow> 's aserver \<Rightarrow> bool" for T where
  "all_reap T a a"
| "i < length (dbs a) \<Longrightarrow> reaps T (a_open i a) as \<Longrightarrow> all_reap T (a_close i as a) a' \<Longrightarrow> all_reap T a a'"

definition a_move :: "bytes \<Rightarrow> int \<Rightarrow> nat \<Rightarrow> 's aserver \<Rightarrow> 's kreply \<times> 's aserver" where
  "a_move k target src a =
     (if target < 0 \<or> target \<ge> int (length (dbs a)) then (KOutOfRange, a)
      else let dst = nat target in
        if src = dst then (KSameObject, a)
        else let as1 = a_volatile k (a_open src a); a1 = a_close src as1 a in
          case vals as1 k of
            None \<Rightarrow> (KZero, a1)
          | Some w \<Rightarrow>
              let as2 = a_volatile k (a_open dst a1) in
              if vals as2 k \<noteq> None then (KZero, a_close dst as2 a1)
              else let a2 = a_close dst (a_put k w as2) a1
                in (KOne, a_close src (a_touch 1 (a_remove k (a_open src a2))) a2))"

definition a_flush :: "bool \<Rightarrow> 's aserver \<Rightarrow> 's aserver" where
  "a_flush saved a =
     a\<lparr>dbs := map (\<lambda>_. (\<lambda>_. None, \<lambda>_. None)) (dbs a),
       all_changes := (if saved then 0 else all_changes a + int (\<Sum>(m, dl) \<leftarrow> dbs a. card (dom m))) + 1\<rparr>"

definition a_randomkey :: "int \<Rightarrow> 's avalue kstate \<Rightarrow> 's kreply \<Rightarrow> 's avalue kstate \<Rightarrow> bool" where
  "a_randomkey now as r as' \<longleftrightarrow> reaps {now} as as' \<and>
     (vals as' = (\<lambda>_. None) \<and> r = KNull \<or> (\<exists>k. vals as' k \<noteq> None \<and> \<not> overdue now as' k \<and> r = KBulk k))"

definition cron_times :: "cron \<Rightarrow> int set" where
  "cron_times c = (\<Union>(nows, rss) \<in> set (expire_work c). set nows)"

fun sspec :: "('s::linorder \<Rightarrow> 's \<Rightarrow> 's option) \<Rightarrow> int \<Rightarrow> 's scmd \<Rightarrow> nat \<Rightarrow> 's aserver \<Rightarrow> 's kreply option \<Rightarrow> nat \<Rightarrow> 's aserver \<Rightarrow> bool" where
  "sspec addf now (OnDb c) i a r j a' \<longleftrightarrow>
     j = i \<and> (\<exists>kr as'. kspec addf now c (a_open i a) kr as' \<and> r = Some kr \<and> a' = a_close i as' a)"
| "sspec addf now (SMove k target) i a r j a' \<longleftrightarrow> j = i \<and> (\<exists>kr. a_move k target i a = (kr, a') \<and> r = Some kr)"
| "sspec addf now (SSelect target) i a r j a' \<longleftrightarrow>
     a' = a \<and> (if target < 0 \<or> target \<ge> int (length (dbs a)) then j = i \<and> r = Some KBadIndex
               else j = nat target \<and> r = Some KOk)"
| "sspec addf now (SFlushAll saved) i a r j a' \<longleftrightarrow> j = i \<and> r = Some KOk \<and> a' = a_flush saved a"
| "sspec addf now (SRandomKey rss) i a r j a' \<longleftrightarrow>
     j = i \<and> (\<exists>kr as'. a_randomkey now (a_open i a) kr as' \<and> r = Some kr \<and> a' = a_close i as' a)"
| "sspec addf now (SCron c) i a r j a' \<longleftrightarrow> j = i \<and> r = None \<and> all_reap (cron_times c) a a'"

inductive sruns :: "('s::linorder \<Rightarrow> 's \<Rightarrow> 's option) \<Rightarrow> (int \<times> 's scmd) list \<Rightarrow> nat \<Rightarrow> 's aserver \<Rightarrow> 's kreply option list \<Rightarrow> nat \<Rightarrow> 's aserver \<Rightarrow> bool"
  for addf where
  "sruns addf [] i a [] i a"
| "sspec addf now c i a r j a1 \<Longrightarrow> sruns addf cs j a1 rs l a2 \<Longrightarrow> sruns addf ((now, c) # cs) i a (r # rs) l a2"

inductive_simps sruns_simps [simp]:
  "sruns addf [] i a rs l a2" "sruns addf ((now, c) # cs) i a rs l a2"

text \<open>Costs and the commands covered.\<close>

fun scost :: "'s scmd \<Rightarrow> nat" where
  "scost (OnDb c) = kcost c"
| "scost (SMove k target) = 1"
| "scost _ = 0"

fun scmd_ok :: "'s scmd \<Rightarrow> bool" where
  "scmd_ok (OnDb c) = kcmd_ok c"
| "scmd_ok _ = True"

text \<open>The commands that fault, in terms of the maps.\<close>

fun sfault :: "('s::linorder \<Rightarrow> 's \<Rightarrow> 's option) \<Rightarrow> int \<Rightarrow> 's scmd \<Rightarrow> nat \<Rightarrow> 's aserver \<Rightarrow> bool" where
  "sfault addf now (OnDb c) i a = kfault addf now c (a_open i a)"
| "sfault addf now _ i a = False"

text \<open>
  The same command or run of the timer with more random numbers and clock readings: lists of random
  numbers are continued, and there may be more of them.
\<close>

fun longer :: "nat list list \<Rightarrow> nat list list \<Rightarrow> bool" where
  "longer [] rss' = True"
| "longer (rs # rss) [] = False"
| "longer (rs # rss) (rs' # rss') = (take (length rs) rs' = rs \<and> longer rss rss')"

fun longer_work :: "(int list \<times> nat list list) list \<Rightarrow> (int list \<times> nat list list) list \<Rightarrow> bool" where
  "longer_work [] work' = True"
| "longer_work (w # work) [] = False"
| "longer_work ((nows, rss) # work) ((nows', rss') # work') =
     (take (length nows) nows' = nows \<and> longer rss rss' \<and> longer_work work work')"

fun more_numbers :: "'s scmd \<Rightarrow> 's scmd \<Rightarrow> bool" where
  "more_numbers (SRandomKey rss) (SRandomKey rss') = longer rss rss'"
| "more_numbers (SCron c) (SCron c') =
     (longer_work (expire_work c) (expire_work c') \<and> c' = c\<lparr>expire_work := expire_work c'\<rparr>)"
| "more_numbers _ _ = False"

text \<open>A command does not return, but it does when it is given more numbers.\<close>

definition starved :: "'s::{linorder, zero} kenv \<Rightarrow> int \<Rightarrow> 's scmd \<Rightarrow> nat \<Rightarrow> 's rvalue server \<Rightarrow> bool" where
  "starved env now c i s \<longleftrightarrow>
     sexec env now c i s = None \<and> (\<exists>c'. more_numbers c c' \<and> sexec env now c' i s \<noteq> None)"

section \<open>Opening and closing a database\<close>

definition server_ok :: "nat \<Rightarrow> 's::linorder rvalue server \<Rightarrow> 's aserver \<Rightarrow> bool" where
  "server_ok N s a \<longleftrightarrow> length (tables s) = length (dbs a) \<and> dirty_count s = all_changes a \<and> expired_count s = all_gone a \<and>
     (\<forall>i < dbnum s. db_ok N (open_db i s) (a_open i a))"

lemma server_okD:
  assumes "server_ok N s a"
  shows "dbnum s = length (dbs a)" "i < dbnum s \<Longrightarrow> db_ok N (open_db i s) (a_open i a)"
    "dirty_count s = all_changes a" "expired_count s = all_gone a"
  using assms by (simp_all add: server_ok_def dbnum_def)

lemma db_counts: "db_ok N db as \<Longrightarrow> kdirty db = changes as" "db_ok N db as \<Longrightarrow> kexpired db = gone as"
  by (auto simp: db_ok_def krep_def sim_def)

lemma db_recount:
  "db_ok N db as \<Longrightarrow> db_ok N (db\<lparr>kdirty := x, kexpired := y\<rparr>) (as\<lparr>changes := x, gone := y\<rparr>)"
proof -
  assume "db_ok N db as"
  then obtain ks where ks: "krep db ks" "sim N ks as" by (rule db_okE)
  have "krep (db\<lparr>kdirty := x, kexpired := y\<rparr>) (ks\<lparr>changes := x, gone := y\<rparr>)" using ks(1) by (simp add: krep_def)
  moreover have "sim N (ks\<lparr>changes := x, gone := y\<rparr>) (as\<lparr>changes := x, gone := y\<rparr>)" using ks(2) by (simp add: sim_def)
  ultimately show ?thesis by (rule db_okI)
qed

lemma dbnum_close [simp]: "dbnum (close_db i db s) = dbnum s" "length (dbs (a_close i as a)) = length (dbs a)"
  by (simp_all add: dbnum_def close_db_def a_close_def)

lemma open_close [simp]: "i < dbnum s \<Longrightarrow> open_db i (close_db i db s) = db"
  "i < length (dbs a) \<Longrightarrow> a_open i (a_close i as a) = as"
  by (simp_all add: dbnum_def open_db_def close_db_def a_open_def a_close_def)

lemma server_close:
  assumes "server_ok N s a" "db_ok M db as" "N \<le> M"
  shows "server_ok M (close_db i db s) (a_close i as a)"
  unfolding server_ok_def
proof (intro conjI allI impI)
  show "length (tables (close_db i db s)) = length (dbs (a_close i as a))"
    using server_okD(1) [OF assms(1)] by (simp add: close_db_def a_close_def dbnum_def)
  show "dirty_count (close_db i db s) = all_changes (a_close i as a)" "expired_count (close_db i db s) = all_gone (a_close i as a)"
    using db_counts [OF assms(2)] by (simp_all add: close_db_def a_close_def)
  fix j assume j: "j < dbnum (close_db i db s)"
  show "db_ok M (open_db j (close_db i db s)) (a_open j (a_close i as a))"
  proof (cases "j = i")
    case True
    then show ?thesis using j assms(2) server_okD(1) [OF assms(1)] by simp
  next
    case False
    have o: "open_db j (close_db i db s) = (open_db j s)\<lparr>kdirty := kdirty db, kexpired := kexpired db\<rparr>"
      "a_open j (a_close i as a) = (a_open j a)\<lparr>changes := kdirty db, gone := kexpired db\<rparr>"
      using False db_counts [OF assms(2)] by (simp_all add: open_db_def close_db_def a_open_def a_close_def)
    show ?thesis unfolding o using j db_ok_mono [OF server_okD(2) [OF assms(1)] assms(3)] by (intro db_recount) simp
  qed
qed

lemma server_mono: "server_ok N s a \<Longrightarrow> N \<le> M \<Longrightarrow> server_ok M s a"
  unfolding server_ok_def using db_ok_mono by blast

text \<open>Replacing the two tables of every database by ones that represent the same maps.\<close>

lemma db_same:
  assumes "db_ok N db as" "\<And>m. dict_rep (kdict db) m \<Longrightarrow> dict_rep d m" "\<And>m. dict_rep (kexpires db) m \<Longrightarrow> dict_rep ex m"
  shows "db_ok N (db\<lparr>kdict := d, kexpires := ex\<rparr>) as"
proof -
  obtain ks where ks: "krep db ks" "sim N ks as" by (rule db_okE [OF assms(1)])
  have "krep (db\<lparr>kdict := d, kexpires := ex\<rparr>) ks" using ks(1) assms(2,3) by (simp add: krep_def)
  then show ?thesis using ks(2) by (rule db_okI)
qed

definition same_table :: "('k, 'v) dict \<Rightarrow> ('k, 'v) dict \<Rightarrow> bool" where
  "same_table d d' \<longleftrightarrow> (\<forall>m. dict_rep d m \<longrightarrow> dict_rep d' m)"

lemma server_tables:
  assumes "server_ok N s a" "list_all2 (\<lambda>t t'. same_table (fst t) (fst t') \<and> same_table (snd t) (snd t')) (tables s) ts"
  shows "server_ok N (s\<lparr>tables := ts\<rparr>) a"
proof -
  have len: "length ts = length (tables s)" using list_all2_lengthD [OF assms(2)] by simp
  have "db_ok N (open_db i (s\<lparr>tables := ts\<rparr>)) (a_open i a)" if "i < dbnum s" for i
  proof -
    have i: "i < length (tables s)" using that by (simp add: dbnum_def)
    have "db_ok N ((open_db i s)\<lparr>kdict := fst (ts ! i), kexpires := snd (ts ! i)\<rparr>) (a_open i a)"
      by (rule db_same [OF server_okD(2) [OF assms(1) that]])
        (use list_all2_nthD [OF assms(2) i] in \<open>simp_all add: same_table_def open_db_def\<close>)
    then show ?thesis by (simp add: open_db_def)
  qed
  then show ?thesis using assms(1) len by (simp add: server_ok_def dbnum_def)
qed


section \<open>The timer\<close>

lemma db_sizes:
  assumes "db_ok N db as"
  shows "dictSize (kdict db) \<le> N" "dictSize (kexpires db) \<le> N"
proof -
  obtain ks where ks: "krep db ks" "sim N ks as" by (rule db_okE [OF assms])
  show "dictSize (kdict db) \<le> N" "dictSize (kexpires db) \<le> N"
    using krepD(7,8) [OF ks(1)] simD(6) [OF ks(2)] by simp_all
qed

lemma tables_all:
  assumes "server_ok N s a" "\<And>db as. db_ok N db as \<Longrightarrow> P (kdict db, kexpires db)"
  shows "\<forall>t \<in> set (tables s). P t"
proof
  fix t assume "t \<in> set (tables s)"
  then obtain i where i: "i < dbnum s" "tables s ! i = t" by (auto simp: in_set_conv_nth dbnum_def)
  have "P (kdict (open_db i s), kexpires (open_db i s))" by (rule assms(2) [OF server_okD(2) [OF assms(1) i(1)]])
  then show "P t" using i(2) by (simp add: open_db_def)
qed

lemma same_table_refl [simp]: "same_table d d"
  by (simp add: same_table_def)

lemma resize_same: "dictSize d < 2 ^ 29 \<Longrightarrow> same_table d (resize_if_needed cr d)"
  using dictResize_rep by (auto simp: same_table_def resize_if_needed_def)

lemma tryResizeHashTables_ok:
  assumes "server_ok N s a" "N < 2 ^ 29"
  shows "server_ok N (tryResizeHashTables cr s) a"
proof -
  have "\<forall>t \<in> set (tables s). dictSize (fst t) < 2 ^ 29 \<and> dictSize (snd t) < 2 ^ 29"
    by (rule tables_all [OF assms(1)]) (use assms(2) in \<open>auto dest: db_sizes intro: le_less_trans\<close>)
  then show ?thesis
    unfolding tryResizeHashTables_def
    by (intro server_tables [OF assms(1)]) (auto simp: list_all2_map2 resize_same intro!: list.rel_refl_strong split: prod.split)
qed

lemma rehash_ms_same: "dict_rep d m \<Longrightarrow> \<exists>r d'. dictRehashMilliseconds d ms start clock = Some (r, d') \<and> same_table d d'"
proof -
  assume "dict_rep d m"
  then obtain r d' where r: "dictRehashMilliseconds d ms start clock = Some (r, d')" by (rule dictRehashMilliseconds_rep)
  have "dict_rep d' m'" if "dict_rep d m'" for m'
    by (rule dictRehashMilliseconds_rep [OF that, of ms start clock]) (simp add: r)
  with r show ?thesis by (auto simp: same_table_def)
qed

lemma rehash_dbs_ok:
  assumes "\<forall>t \<in> set ts. \<exists>m. dict_rep (fst t) m"
  shows "\<exists>ts'. rehash_dbs start clock ts = Some ts' \<and>
    list_all2 (\<lambda>t t'. same_table (fst t) (fst t') \<and> same_table (snd t) (snd t')) ts ts'"
  using assms
proof (induction ts)
  case (Cons t ts)
  have r: "list_all2 (\<lambda>t t'. same_table (fst t) (fst t') \<and> same_table (snd t) (snd t')) ts ts"
    by (rule list.rel_refl) simp
  obtain m where "dict_rep (fst t) m" using Cons.prems by auto
  from rehash_ms_same [OF this, of 1 start clock] obtain n d where
    "dictRehashMilliseconds (fst t) 1 start clock = Some (n, d)" "same_table (fst t) d" by blast
  then show ?case using Cons r by (cases "dictIsRehashing (fst t)") auto
qed simp

lemma incrementallyRehash_ok:
  assumes "server_ok N s a"
  obtains s' where "incrementallyRehash start clock s = Some s'" "server_ok N s' a"
proof -
  have "\<forall>t \<in> set (tables s). \<exists>m. dict_rep (fst t) m"
    by (rule tables_all [OF assms]) (auto simp: db_ok_def krep_def)
  from rehash_dbs_ok [OF this, of start clock] obtain ts where "rehash_dbs start clock (tables s) = Some ts"
    "list_all2 (\<lambda>t t'. same_table (fst t) (fst t') \<and> same_table (snd t) (snd t')) (tables s) ts" by blast
  then show ?thesis using that server_tables [OF assms] by (simp add: incrementallyRehash_def)
qed

lemma reaps_trans: "reaps T a b \<Longrightarrow> reaps T b c \<Longrightarrow> reaps T a c"
  by (induction rule: reaps.induct) (auto intro: reaps.intros)

lemma reaps_mono: "reaps T a b \<Longrightarrow> T \<subseteq> U \<Longrightarrow> reaps U a b"
  by (induction rule: reaps.induct) (auto intro: reaps.intros)

lemma gone_sim: "db_ok N db as \<Longrightarrow> db_ok N (db\<lparr>kexpired := kexpired db + 1\<rparr>) (as\<lparr>gone := gone as + 1\<rparr>)"
  using db_recount [where N = N and db = db and as = as and x = "kdirty db" and y = "kexpired db + 1"] db_counts [of N db as]
  by (cases db) simp

lemma pick_expire_ok:
  assumes "db_ok N db as" "dictGetRandomKey (kexpires db) rs = Some (e, ex)"
  shows "db_ok N (db\<lparr>kexpires := ex\<rparr>) as" "case e of None \<Rightarrow> deadline as = (\<lambda>_. None) | Some (k, t) \<Rightarrow> deadline as k = Some t"
proof -
  obtain ks where ks: "krep db ks" "sim N ks as" by (rule db_okE [OF assms(1)])
  note r = dictGetRandomKey_rep [OF krepD(2) [OF ks(1)] assms(2)]
  have "krep (db\<lparr>kexpires := ex\<rparr>) ks" using ks(1) r(1) by (simp add: krep_def)
  then show "db_ok N (db\<lparr>kexpires := ex\<rparr>) as" using ks(2) by (rule db_okI)
  show "case e of None \<Rightarrow> deadline as = (\<lambda>_. None) | Some (k, t) \<Rightarrow> deadline as k = Some t"
    using r(2) unfolding simD(3) [OF ks(2)] .
qed

lemma pick_ok:
  assumes "db_ok N db as" "dictGetRandomKey (kdict db) rs = Some (e, d)"
  shows "db_ok N (db\<lparr>kdict := d\<rparr>) as" "case e of None \<Rightarrow> vals as = (\<lambda>_. None) | Some (k, v) \<Rightarrow> vals as k \<noteq> None"
proof -
  obtain ks where ks: "krep db ks" "sim N ks as" by (rule db_okE [OF assms(1)])
  note r = dictGetRandomKey_rep [OF krepD(1) [OF ks(1)] assms(2)]
  have "krep (db\<lparr>kdict := d\<rparr>) ks" using ks(1) r(1) by (simp add: krep_def)
  then show "db_ok N (db\<lparr>kdict := d\<rparr>) as" using ks(2) by (rule db_okI)
  have n: "vals ks k = None \<longleftrightarrow> vals as k = None" for k by (rule simD(2) [OF ks(2)])
  show "case e of None \<Rightarrow> vals as = (\<lambda>_. None) | Some (k, v) \<Rightarrow> vals as k \<noteq> None"
    using r(2) n by (cases e) (force simp: fun_eq_iff simp del: not_None_eq)+
qed


lemma finite_deadlines: "db_ok N db as \<Longrightarrow> finite (dom (deadline as))"
  using dict_repD(2) by (fastforce simp: db_ok_def krep_def sim_def)

lemma card_expire:
  assumes "overdue now as k" "finite (dom (deadline as))"
  shows "Suc (card (dom (deadline (a_expire now k as)))) = card (dom (deadline as))"
proof -
  have "k \<in> dom (deadline as)" using assms(1) by (auto simp: overdue_def split: option.splits)
  then show ?thesis using assms card_Suc_Diff1 [OF assms(2)] by (simp add: a_expire_def)
qed

lemma expire_lookups_ok:
  assumes "db_ok N db as" "expire_lookups now num rss db = Some (n, rss', db')"
  shows "\<exists>as'. reaps {now} as as' \<and> db_ok N db' as' \<and> card (dom (deadline as')) + n = card (dom (deadline as))"
  using assms
proof (induction num arbitrary: rss db as n)
  case 0
  then show ?case by (auto intro: reaps.intros)
next
  case (Suc num)
  then obtain rs rss1 e ex where p: "rss = rs # rss1" "dictGetRandomKey (kexpires db) rs = Some (e, ex)"
    by (auto split: list.splits bind_splits)
  note pick = pick_expire_ok [OF Suc.prems(1) p(2)]
  show ?case
  proof (cases e)
    case None
    then show ?thesis using Suc.prems(2) p pick(1) by (auto intro: reaps.intros)
  next
    case (Some x)
    obtain k t where x: "x = (k, t)" by (cases x)
    show ?thesis
    proof (cases "t < now")
      case False
      then have "expire_lookups now num rss1 (db\<lparr>kexpires := ex\<rparr>) = Some (n, rss', db')"
        using Suc.prems(2) p Some x by simp
      from Suc.IH [OF pick(1) this] show ?thesis .
    next
      case True
      have o: "overdue now as k" using pick(2) Some x True by (simp add: overdue_def)
      obtain db1 where d: "deleteKey (db\<lparr>kexpires := ex\<rparr>) k = Some (vals as k \<noteq> None, db1)" "db_ok N db1 (a_remove k as)"
        by (rule remove_sim [OF pick(1)])
      have "db_ok N (db1\<lparr>kexpired := kexpired db1 + 1\<rparr>) (a_expire now k as)"
        using gone_sim [OF d(2)] o by (simp add: a_expire_def)
      moreover obtain n1 where n1: "n = Suc n1" and "expire_lookups now num rss1 (db1\<lparr>kexpired := kexpired db1 + 1\<rparr>) = Some (n1, rss', db')"
        using Suc.prems(2) p Some x True d(1) by (auto split: bind_splits)
      ultimately obtain as' where as': "reaps {now} (a_expire now k as) as'" "db_ok N db' as'"
        "card (dom (deadline as')) + n1 = card (dom (deadline (a_expire now k as)))" using Suc.IH by blast
      have "reaps {now} as as'" by (rule reaps.intros(2) [OF _ o as'(1)]) simp
      then show ?thesis using as'(2,3) n1 card_expire [OF o finite_deadlines [OF Suc.prems(1)]] by auto
    qed
  qed
qed

lemma expire_cycle_ok:
  assumes "db_ok N db as" "expire_cycle nows rss db = Some db'"
  shows "\<exists>as'. reaps (set nows) as as' \<and> db_ok N db' as'"
  using assms
proof (induction nows arbitrary: rss db as)
  case (Cons now nows)
  then obtain n rss1 db1 where e:
    "expire_lookups now (min (dictSize (kexpires db)) REDIS_EXPIRELOOKUPS_PER_CRON) rss db = Some (n, rss1, db1)"
    "(if n > REDIS_EXPIRELOOKUPS_PER_CRON div 4 then expire_cycle nows rss1 db1 else Some db1) = Some db'"
    by (auto split: bind_splits)
  from expire_lookups_ok [OF Cons.prems(1) e(1)] obtain as1 where a: "reaps {now} as as1" "db_ok N db1 as1" by blast
  have a1: "reaps (set (now # nows)) as as1" using reaps_mono [OF a(1)] by simp
  show ?case
  proof (cases "n > REDIS_EXPIRELOOKUPS_PER_CRON div 4")
    case True
    then have "expire_cycle nows rss1 db1 = Some db'" using e(2) by simp
    from Cons.IH [OF a(2) this] obtain as2 where "reaps (set nows) as1 as2" "db_ok N db' as2" by blast
    then show ?thesis using reaps_trans [OF a1 reaps_mono] by fastforce
  next
    case False
    then show ?thesis using e(2) a(2) a1 by auto
  qed
qed simp

lemma all_reap_mono: "all_reap T a b \<Longrightarrow> T \<subseteq> U \<Longrightarrow> all_reap U a b"
  by (induction rule: all_reap.induct) (auto intro: all_reap.intros reaps_mono)

lemma expire_dbs_ok:
  assumes "server_ok N s a" "expire_dbs j work s = Some s'"
  shows "\<exists>a'. all_reap (\<Union>(nows, rss) \<in> set work. set nows) a a' \<and> server_ok N s' a'"
  using assms
proof (induction j work s arbitrary: a rule: expire_dbs.induct)
  case (1 j s)
  then show ?case by (auto intro: all_reap.intros split: if_splits)
next
  case (2 j nows rss work s)
  let ?T = "\<Union>(nows, rss) \<in> set ((nows, rss) # work). set nows"
  show ?case
  proof (cases "j < dbnum s")
    case False
    then show ?thesis using 2(2,3) by (auto intro: all_reap.intros)
  next
    case True
    with 2(3) obtain db where e: "expire_cycle nows rss (open_db j s) = Some db" "expire_dbs (Suc j) work (close_db j db s) = Some s'"
      by (auto split: bind_splits)
    from expire_cycle_ok [OF server_okD(2) [OF 2(2) True] e(1)] obtain as where
      as: "reaps (set nows) (a_open j a) as" "db_ok N db as" by blast
    from 2(1) [OF True e(1) server_close [OF 2(2) as(2) le_refl] e(2)] obtain a' where
      a': "all_reap (\<Union>(nows, rss) \<in> set work. set nows) (a_close j as a) a'" "server_ok N s' a'" by blast
    have "all_reap ?T a a'"
    proof (rule all_reap.intros(2))
      show "j < length (dbs a)" using True server_okD(1) [OF 2(2)] by simp
      show "reaps ?T (a_open j a) as" by (rule reaps_mono [OF as(1)]) auto
      show "all_reap ?T (a_close j as a) a'" by (rule all_reap_mono [OF a'(1)]) auto
    qed
    then show ?thesis using a'(2) by blast
  qed
qed

lemma cron_start:
  assumes "server_ok N s a" "N < 2 ^ 29"
  obtains s1 where "(if saving_child c then Some s else if activerehashing c
      then incrementallyRehash (rehash_start c) (rehash_clock c) (if loops c mod 10 = 0 then tryResizeHashTables cr s else s)
      else Some (if loops c mod 10 = 0 then tryResizeHashTables cr s else s)) = Some s1" "server_ok N s1 a"
proof -
  let ?s0 = "if loops c mod 10 = 0 then tryResizeHashTables cr s else s"
  have s0: "server_ok N ?s0 a" using assms(1) tryResizeHashTables_ok [OF assms(1,2)] by simp
  obtain s2 where i: "incrementallyRehash (rehash_start c) (rehash_clock c) ?s0 = Some s2" "server_ok N s2 a"
    by (rule incrementallyRehash_ok [OF s0])
  show ?thesis
    using that assms(1) s0 i by (cases "saving_child c"; cases "activerehashing c") simp_all
qed

lemma serverCron_ok:
  assumes "server_ok N s a" "N < 2 ^ 29" "serverCron cr c s = Some s'"
  shows "\<exists>a'. all_reap (cron_times c) a a' \<and> server_ok N s' a'"
proof -
  obtain s1 where s1: "(if saving_child c then Some s else if activerehashing c
      then incrementallyRehash (rehash_start c) (rehash_clock c) (if loops c mod 10 = 0 then tryResizeHashTables cr s else s)
      else Some (if loops c mod 10 = 0 then tryResizeHashTables cr s else s)) = Some s1" "server_ok N s1 a"
    by (rule cron_start [OF assms(1,2)])
  have "expire_dbs 0 (expire_work c) s1 = Some s'"
    using assms(3) unfolding serverCron_def Let_def s1(1) by simp
  from expire_dbs_ok [OF s1(2) this] show ?thesis by (simp add: cron_times_def)
qed

section \<open>More random numbers\<close>

lemma pick_extend:
  assumes "db_ok N db as"
  shows "\<exists>rs' e d. take (length rs) rs' = rs \<and> dictGetRandomKey (kdict db) rs' = Some (e, d)"
    "\<exists>rs' e ex. take (length rs) rs' = rs \<and> dictGetRandomKey (kexpires db) rs' = Some (e, ex)"
proof -
  obtain ks where ks: "krep db ks" by (rule db_okE [OF assms])
  have t: "take (length rs) (rs @ more) = rs" for more by simp
  show "\<exists>rs' e d. take (length rs) rs' = rs \<and> dictGetRandomKey (kdict db) rs' = Some (e, d)"
    using dictGetRandomKey_extend [OF krepD(1) [OF ks]] t by blast
  show "\<exists>rs' e ex. take (length rs) rs' = rs \<and> dictGetRandomKey (kexpires db) rs' = Some (e, ex)"
    using dictGetRandomKey_extend [OF krepD(2) [OF ks]] t by blast
qed

lemma longer_Cons: "longer rss (rs' # rss') \<longleftrightarrow> rss = [] \<or> (\<exists>rs rss1. rss = rs # rss1 \<and> take (length rs) rs' = rs \<and> longer rss1 rss')"
  by (cases rss) auto

lemma longer_refl: "longer rss rss"
  by (induction rss) simp_all

text \<open>The lookups of one turn end on a continuation of the lists of random numbers they use.\<close>

lemma expire_lookups_extend:
  assumes "db_ok N db as"
  shows "\<exists>used n db'. (\<forall>rest. expire_lookups now num (used @ rest) db = Some (n, rest, db')) \<and>
    (\<forall>rest. longer (drop (length used) rss) rest \<longrightarrow> longer rss (used @ rest))"
  using assms
proof (induction num arbitrary: rss db as)
  case 0
  then show ?case by (intro exI [of _ "[]"]) simp
next
  case (Suc num)
  define rs where "rs = (case rss of [] \<Rightarrow> [] | rs # _ \<Rightarrow> rs)"
  obtain rs' e ex where p: "take (length rs) rs' = rs" "dictGetRandomKey (kexpires db) rs' = Some (e, ex)"
    using pick_extend(2) [OF Suc.prems] by blast
  note pick = pick_expire_ok [OF Suc.prems p(2)]
  have first: "longer rss (rs' # rest)" if "longer (tl rss) rest" for rest
    using that p(1) by (cases rss) (simp_all add: rs_def)
  have step: ?case if ok: "db_ok N db1 as1" and look: "\<forall>rest. expire_lookups now (Suc num) (rs' # rest) db =
      (case expire_lookups now num rest db1 of None \<Rightarrow> None | Some (n, rss', db') \<Rightarrow> Some (f n, rss', db'))" for db1 as1 f
  proof -
    obtain used n db' where u: "\<forall>rest. expire_lookups now num (used @ rest) db1 = Some (n, rest, db')"
      "\<forall>rest. longer (drop (length used) (tl rss)) rest \<longrightarrow> longer (tl rss) (used @ rest)"
      using Suc.IH [OF ok] by blast
    have "drop (length (rs' # used)) rss = drop (length used) (tl rss)" by (simp add: drop_Suc)
    then have "\<forall>rest. longer (drop (length (rs' # used)) rss) rest \<longrightarrow> longer rss ((rs' # used) @ rest)"
      using first u(2) by simp
    moreover have "expire_lookups now (Suc num) ((rs' # used) @ rest) db = Some (f n, rest, db')" for rest
      using look u(1) by simp
    ultimately show ?thesis by blast
  qed
  show ?case
  proof (cases e)
    case None
    have "expire_lookups now (Suc num) ([rs'] @ rest) db = Some (0, rest, db\<lparr>kexpires := ex\<rparr>)" for rest
      using p(2) None by simp
    moreover have "longer rss ([rs'] @ rest)" if "longer (drop (length [rs']) rss) rest" for rest
      using that first by (simp add: drop_Suc)
    ultimately show ?thesis by blast
  next
    case (Some x)
    obtain k t where x: "x = (k, t)" by (cases x)
    show ?thesis
    proof (cases "t < now")
      case False
      then show ?thesis using p(2) Some x by (intro step [OF pick(1), of "\<lambda>n. n"]) (simp split: option.split)
    next
      case True
      have o: "overdue now as k" using pick(2) Some x True by (simp add: overdue_def)
      obtain db1 where d: "deleteKey (db\<lparr>kexpires := ex\<rparr>) k = Some (vals as k \<noteq> None, db1)" "db_ok N db1 (a_remove k as)"
        by (rule remove_sim [OF pick(1)])
      have "db_ok N (db1\<lparr>kexpired := kexpired db1 + 1\<rparr>) (a_expire now k as)"
        using gone_sim [OF d(2)] o by (simp add: a_expire_def)
      then show ?thesis using p(2) Some x True d(1) by (intro step [of _ _ Suc]) (auto split: option.split)
    qed
  qed
qed

lemma expire_cycle_extend:
  assumes "db_ok N db as"
  shows "\<exists>nows' rss' db'. take (length nows) nows' = nows \<and> longer rss rss' \<and> expire_cycle nows' rss' db = Some db'"
  using assms
proof (induction "card (dom (deadline as))" arbitrary: nows rss db as rule: less_induct)
  case less
  define now where "now = (case nows of [] \<Rightarrow> 0 | t # _ \<Rightarrow> t)"
  let ?num = "min (dictSize (kexpires db)) REDIS_EXPIRELOOKUPS_PER_CRON"
  obtain used n db1 where u: "\<forall>rest. expire_lookups now ?num (used @ rest) db = Some (n, rest, db1)"
    "\<forall>rest. longer (drop (length used) rss) rest \<longrightarrow> longer rss (used @ rest)"
    using expire_lookups_extend [OF less.prems, of now ?num rss] by blast
  from expire_lookups_ok [OF less.prems u(1) [rule_format, of "[]"]] obtain as1 where
    as1: "db_ok N db1 as1" "card (dom (deadline as1)) + n = card (dom (deadline as))" by blast
  have first: "take (length nows) (now # rest) = nows" if "take (length (tl nows)) rest = tl nows" for rest
    using that by (cases nows) (simp_all add: now_def)
  show ?case
  proof (cases "n > REDIS_EXPIRELOOKUPS_PER_CRON div 4")
    case False
    have "longer rss (used @ drop (length used) rss)" using u(2) by (simp add: longer_refl)
    moreover have "expire_cycle (now # tl nows) (used @ drop (length used) rss) db = Some db1" using u(1) False by simp
    moreover have "take (length nows) (now # tl nows) = nows" by (rule first) simp
    ultimately show ?thesis by blast
  next
    case True
    then have "card (dom (deadline as1)) < card (dom (deadline as))" using as1(2) by simp
    from less.hyps [OF this as1(1), of "tl nows" "drop (length used) rss"] obtain nows' rss' db' where
      n: "take (length (tl nows)) nows' = tl nows" "longer (drop (length used) rss) rss'" "expire_cycle nows' rss' db1 = Some db'"
      by blast
    have "expire_cycle (now # nows') (used @ rss') db = Some db'" using u(1) True n(3) by simp
    then show ?thesis using first [OF n(1)] u(2) n(2) by blast
  qed
qed

lemma expire_dbs_extend:
  assumes "server_ok N s a"
  shows "\<exists>work' s'. longer_work work work' \<and> expire_dbs j work' s = Some s'"
  using assms
proof (induction "dbnum s - j" arbitrary: j s a work)
  case 0
  have "longer_work work work" by (induction work) (auto simp: longer_refl)
  moreover have "expire_dbs j work s = Some s" using 0 by (cases work) auto
  ultimately show ?case by blast
next
  case (Suc m)
  then have j: "j < dbnum s" by simp
  obtain nows rss where w: "(nows, rss) = (case work of [] \<Rightarrow> ([], []) | w # _ \<Rightarrow> w)" by (metis surj_pair)
  obtain nows' rss' db where c: "take (length nows) nows' = nows" "longer rss rss'" "expire_cycle nows' rss' (open_db j s) = Some db"
    using expire_cycle_extend [OF server_okD(2) [OF Suc.prems j]] by blast
  obtain as where "db_ok N db as" using expire_cycle_ok [OF server_okD(2) [OF Suc.prems j] c(3)] by blast
  from server_close [OF Suc.prems this le_refl, of j] have s1: "server_ok N (close_db j db s) (a_close j as a)" .
  have "m = dbnum (close_db j db s) - Suc j" using Suc.hyps(2) by simp
  from Suc.hyps(1) [OF this s1, of "tl work"] obtain work' s' where
    i: "longer_work (tl work) work'" "expire_dbs (Suc j) work' (close_db j db s) = Some s'" by blast
  have "longer_work work ((nows', rss') # work')" using i(1) c(1,2) w by (cases work) auto
  moreover have "expire_dbs j ((nows', rss') # work') s = Some s'" using j c(3) i(2) by simp
  ultimately show ?case by blast
qed

lemma serverCron_expire_work:
  "serverCron cr (c\<lparr>expire_work := work\<rparr>) s = Option.bind (if saving_child c then Some s else if activerehashing c
      then incrementallyRehash (rehash_start c) (rehash_clock c) (if loops c mod 10 = 0 then tryResizeHashTables cr s else s)
      else Some (if loops c mod 10 = 0 then tryResizeHashTables cr s else s)) (expire_dbs 0 work)"
  by (simp add: serverCron_def Let_def)

lemma serverCron_extend:
  assumes "server_ok N s a" "N < 2 ^ 29"
  shows "\<exists>work s'. longer_work (expire_work c) work \<and> serverCron cr (c\<lparr>expire_work := work\<rparr>) s = Some s'"
proof -
  obtain s1 where s1: "(if saving_child c then Some s else if activerehashing c
      then incrementallyRehash (rehash_start c) (rehash_clock c) (if loops c mod 10 = 0 then tryResizeHashTables cr s else s)
      else Some (if loops c mod 10 = 0 then tryResizeHashTables cr s else s)) = Some s1" "server_ok N s1 a"
    by (rule cron_start [OF assms(1,2)])
  obtain work s' where "longer_work (expire_work c) work" "expire_dbs 0 work s1 = Some s'"
    using expire_dbs_extend [OF s1(2)] by blast
  moreover from this(2) have "serverCron cr (c\<lparr>expire_work := work\<rparr>) s = Some s'"
    unfolding serverCron_expire_work s1(1) by simp
  ultimately show ?thesis by blast
qed

section \<open>The commands of the server\<close>

lemma reaps_one: "reaps {now} as (a_expire now k as)"
proof (cases "overdue now as k")
  case True
  show ?thesis by (rule reaps.intros(2) [OF _ True reaps.intros(1)]) simp
qed (simp add: a_expire_def reaps.intros(1))

lemma randomkey_loop_ok:
  assumes "db_ok N db as" "randomkey_loop now rss db = Some (r, db')"
  shows "\<exists>as'. reaps {now} as as' \<and> db_ok N db' as' \<and>
    (case r of None \<Rightarrow> vals as' = (\<lambda>_. None) | Some k \<Rightarrow> vals as' k \<noteq> None \<and> \<not> overdue now as' k)"
  using assms
proof (induction now rss db arbitrary: as rule: randomkey_loop.induct)
  case (2 now rs rss db)
  then obtain e d where p: "dictGetRandomKey (kdict db) rs = Some (e, d)" by (auto split: bind_splits)
  note pick = pick_ok [OF 2(2) p]
  show ?case
  proof (cases e)
    case None
    then show ?thesis using 2(3) p pick by (auto intro: reaps.intros)
  next
    case (Some x)
    obtain k v where x: "x = (k, v)" by (cases x)
    obtain db1 where e: "expireIfNeeded now (db\<lparr>kdict := d\<rparr>) k = Some (overdue now as k, db1)" "db_ok N db1 (a_expire now k as)"
      by (rule expire_sim [OF pick(1)])
    show ?thesis
    proof (cases "overdue now as k")
      case False
      then have "r = Some k" "db' = db1" using 2(3) p Some x e(1) by simp_all
      then show ?thesis using e(2) False pick(2) Some x by (auto intro: reaps.intros simp: a_expire_def)
    next
      case True
      then have "randomkey_loop now rss db1 = Some (r, db')" using 2(3) p Some x e(1) by simp
      from 2(1) [OF p refl Some x [symmetric] e(1) refl True e(2) this]
      obtain as' where "reaps {now} (a_expire now k as) as'" "db_ok N db' as'"
        "case r of None \<Rightarrow> vals as' = (\<lambda>_. None) | Some k \<Rightarrow> vals as' k \<noteq> None \<and> \<not> overdue now as' k" by blast
      then show ?thesis using reaps_trans [OF reaps_one] by blast
    qed
  qed
qed simp

lemma finite_vals: "db_ok N db as \<Longrightarrow> finite (dom (vals as))"
proof -
  assume "db_ok N db as"
  then obtain ks where ks: "krep db ks" "sim N ks as" by (rule db_okE)
  have "dom (vals as) = dom (vals ks)" using simD(2) [OF ks(2)] by (auto simp: dom_def simp del: not_None_eq)
  then show ?thesis using dict_repD(2) [OF krepD(1) [OF ks(1)]] by simp
qed

lemma randomkey_loop_extend:
  assumes "db_ok N db as"
  shows "\<exists>rss' r db'. longer rss rss' \<and> randomkey_loop now rss' db = Some (r, db')"
  using assms
proof (induction "card (dom (vals as))" arbitrary: rss db as rule: less_induct)
  case less
  define rs where "rs = (case rss of [] \<Rightarrow> [] | rs # _ \<Rightarrow> rs)"
  obtain rs' e d where p: "take (length rs) rs' = rs" "dictGetRandomKey (kdict db) rs' = Some (e, d)"
    using pick_extend(1) [OF less.prems] by blast
  note pick = pick_ok [OF less.prems p(2)]
  have first: "longer rss (rs' # rest)" if "longer (tl rss) rest" for rest
    using that p(1) by (cases rss) (simp_all add: rs_def)
  show ?case
  proof (cases e)
    case None
    then have "randomkey_loop now (rs' # tl rss) db = Some (None, db\<lparr>kdict := d\<rparr>)" using p(2) by simp
    then show ?thesis using first [OF longer_refl] by blast
  next
    case (Some x)
    obtain k v where x: "x = (k, v)" by (cases x)
    obtain db1 where ex: "expireIfNeeded now (db\<lparr>kdict := d\<rparr>) k = Some (overdue now as k, db1)" "db_ok N db1 (a_expire now k as)"
      by (rule expire_sim [OF pick(1)])
    show ?thesis
    proof (cases "overdue now as k")
      case False
      then have "randomkey_loop now (rs' # tl rss) db = Some (Some k, db1)" using p(2) Some x ex(1) by simp
      then show ?thesis using first [OF longer_refl] by blast
    next
      case True
      have "k \<in> dom (vals as)" using pick(2) Some x by auto
      then have "card (dom (vals (a_expire now k as))) < card (dom (vals as))"
        using True finite_vals [OF less.prems] card_gt_0_iff [of "dom (vals as)"] by (auto simp: a_expire_def)
      from less.hyps [OF this ex(2), of "tl rss"] obtain rss' r db' where
        "longer (tl rss) rss'" "randomkey_loop now rss' db1 = Some (r, db')" by blast
      moreover from this(2) have "randomkey_loop now (rs' # rss') db = Some (r, db')" using p(2) Some x ex(1) True by simp
      ultimately show ?thesis using first by blast
    qed
  qed
qed

lemma randomkeyCommand_ok:
  assumes "db_ok N db as" "randomkeyCommand now rss db = Some (r, db')"
  shows "\<exists>as'. a_randomkey now as r as' \<and> db_ok N db' as'"
proof -
  obtain e where e: "randomkey_loop now rss db = Some (e, db')" "r = (case e of None \<Rightarrow> KNull | Some key \<Rightarrow> KBulk key)"
    using assms(2) by (auto simp: randomkeyCommand_def split: bind_splits)
  from randomkey_loop_ok [OF assms(1) e(1)] show ?thesis
    using e(2) by (cases e) (auto simp: a_randomkey_def)
qed

lemma flushall_ok:
  assumes "server_ok N s a"
  shows "fst (flushallCommand saved s) = KOk" "server_ok N (snd (flushallCommand saved s)) (a_flush saved a)"
proof -
  let ?s = "snd (flushallCommand saved s)"
  note len = server_okD(1) [OF assms]
  show "fst (flushallCommand saved s) = KOk" by (simp add: flushallCommand_def split: prod.split)
  have "map (\<lambda>(d, ex). dictSize d) (tables s) = map (\<lambda>(m, dl). card (dom m)) (dbs a)"
  proof (rule nth_equalityI)
    fix i assume "i < length (map (\<lambda>(d, ex). dictSize d) (tables s))"
    then have i: "i < dbnum s" by (simp add: dbnum_def)
    show "map (\<lambda>(d, ex). dictSize d) (tables s) ! i = map (\<lambda>(m, dl). card (dom m)) (dbs a) ! i"
      using db_card(2) [OF server_okD(2) [OF assms i]] i len
      by (cases "tables s ! i"; cases "dbs a ! i") (simp add: open_db_def a_open_def dbnum_def)
  qed (use len in \<open>simp add: dbnum_def\<close>)
  then have n: "(\<Sum>(d, ex) \<leftarrow> tables s. dictSize d) = (\<Sum>(m, dl) \<leftarrow> dbs a. card (dom m))" by simp
  show "server_ok N ?s (a_flush saved a)"
    unfolding server_ok_def
  proof (intro conjI allI impI)
    show "length (tables ?s) = length (dbs (a_flush saved a))" "dirty_count ?s = all_changes (a_flush saved a)"
      "expired_count ?s = all_gone (a_flush saved a)"
      using len n server_okD(3,4) [OF assms] by (simp_all add: flushallCommand_def emptyDb_def a_flush_def dbnum_def)
    fix i assume "i < dbnum ?s"
    then have i: "i < dbnum s" by (simp add: flushallCommand_def emptyDb_def dbnum_def)
    obtain ks where ks: "krep (open_db i s) ks" by (rule db_okE [OF server_okD(2) [OF assms i]])
    let ?ks = "\<lparr>vals = \<lambda>_. None, deadline = \<lambda>_. None, changes = dirty_count ?s, gone = expired_count ?s\<rparr>"
    have "krep (open_db i ?s) ?ks"
      using dictEmpty_rep [OF krepD(1) [OF ks]] dictEmpty_rep [OF krepD(2) [OF ks]] i
      by (cases "tables s ! i") (simp add: krep_def open_db_def flushallCommand_def emptyDb_def dbnum_def)
    moreover have "sim N ?ks (a_open i (a_flush saved a))"
      using len n i server_okD(3,4) [OF assms]
      by (simp add: sim_def a_open_def a_flush_def flushallCommand_def emptyDb_def)
    ultimately show "db_ok N (open_db i ?s) (a_open i (a_flush saved a))" by (rule db_okI)
  qed
qed

lemma move_ok:
  assumes "server_ok N s a" "i < dbnum s" "N + 1 < 2 ^ 29"
  shows "\<exists>r s' a'. moveCommand cr k target i s = Some (r, s') \<and> a_move k target i a = (r, a') \<and> server_ok (N + 1) s' a'"
proof (cases "target < 0 \<or> target \<ge> int (dbnum s)")
  case True
  then show ?thesis using server_okD(1) [OF assms(1)] server_mono [OF assms(1), of "N + 1"]
    by (auto simp: moveCommand_def selectDb_def a_move_def)
next
  case False
  note len = server_okD(1) [OF assms(1)]
  let ?dst = "nat target"
  have dst: "?dst < dbnum s" using False by linarith
  have sel: "selectDb target s = Some ?dst" using False by (simp add: selectDb_def)
  show ?thesis
  proof (cases "i = ?dst")
    case True
    then show ?thesis using False sel len server_mono [OF assms(1), of "N + 1"] by (simp add: moveCommand_def a_move_def)
  next
    case ne: False
    let ?as1 = "a_volatile k (a_open i a)"
    obtain r db1 where l: "lookupKeyWrite (open_db i s) k = Some (r, db1)" "found N db1 k ?as1 r"
      by (rule write_found [OF server_okD(2) [OF assms(1,2)]])
    let ?s1 = "close_db i db1 s" and ?a1 = "a_close i ?as1 a"
    have s1: "server_ok N ?s1 ?a1" by (rule server_close [OF assms(1) foundD(1) [OF l(2)] le_refl])
    from l(2) show ?thesis
    proof (cases rule: found_cases)
      case missing
      then show ?thesis
        using False ne sel len l(1) server_mono [OF s1, of "N + 1"] by (simp add: moveCommand_def a_move_def Let_def)
    next
      case (there p v w)
      let ?as2 = "a_volatile k (a_open ?dst ?a1)"
      obtain b db2 where d: "deleteIfVolatile (open_db ?dst ?s1) k = Some (b, db2)" "db_ok N db2 ?as2"
        using server_okD(2) [OF s1, of ?dst] dst volatile_sim by (metis dbnum_close(1))
      have vw: "value_rep (N + 1) v w" by (rule value_rep_mono [OF there(3)]) simp
      obtain dd where a: "dictAdd cr (kdict db2) k v = Some (if vals ?as2 k = None then DICT_OK else DICT_ERR, dd)"
        "db_ok (if vals ?as2 k = None then N + 1 else N) (db2\<lparr>kdict := dd\<rparr>) (if vals ?as2 k = None then a_put k w ?as2 else ?as2)"
        by (rule add_sim [OF d(2) vw]) (use assms(3) in simp_all)
      let ?s2 = "close_db ?dst (db2\<lparr>kdict := dd\<rparr>) ?s1" and ?a2 = "a_close ?dst (if vals ?as2 k = None then a_put k w ?as2 else ?as2) ?a1"
      have s2: "server_ok (N + 1) ?s2 ?a2"
        by (rule server_close [OF server_mono [OF s1, of "N + 1"] db_ok_mono [OF a(2), of "N + 1"] le_refl]) simp_all
      show ?thesis
      proof (cases "vals ?as2 k = None")
        case None': False
        then show ?thesis using False ne sel len l(1) d(1) a(1) s2 there
          by (simp add: moveCommand_def a_move_def Let_def del: not_None_eq)
      next
        case True
        obtain db3 where e: "deleteKey (open_db i ?s2) k = Some (vals (a_open i ?a2) k \<noteq> None, db3)" "db_ok (N + 1) db3 (a_remove k (a_open i ?a2))"
          using server_okD(2) [OF s2, of i] assms(2) remove_sim by (metis dbnum_close(1))
        have s3: "server_ok (N + 1) (close_db i (db3\<lparr>kdirty := kdirty db3 + 1\<rparr>) ?s2) (a_close i (a_touch 1 (a_remove k (a_open i ?a2))) ?a2)"
          by (rule server_close [OF s2 touch_sim [OF e(2)] le_refl])
        then show ?thesis using False ne sel len l(1) d(1) a(1) e(1) there True dict_codes
          by (simp add: moveCommand_def a_move_def Let_def del: not_None_eq)
      qed
    qed
  qed
qed


lemma sspec_length:
  assumes "sspec addf now c i a r j a'"
  shows "length (dbs a') = length (dbs a)"
proof -
  have "length (dbs y) = length (dbs x)" if "all_reap T x y" for T and x y :: "'a aserver"
    using that by (induction rule: all_reap.induct) simp_all
  then show ?thesis
    using assms by (cases c) (auto simp: a_move_def a_flush_def Let_def split: if_splits option.splits)
qed

lemma sruns_length: "sruns addf cs i a rs j a' \<Longrightarrow> length (dbs a') = length (dbs a)"
  by (induction rule: sruns.induct) (simp_all add: sspec_length)

definition sstep_ok :: "'s::{linorder, zero} kenv \<Rightarrow> int \<Rightarrow> nat \<Rightarrow> 's scmd \<Rightarrow> nat \<Rightarrow> 's rvalue server \<Rightarrow> 's aserver \<Rightarrow> bool" where
  "sstep_ok env now N c i s a \<longleftrightarrow> (\<exists>r j s' a'. sexec env now c i s = Some (r, j, s') \<and> j < dbnum s' \<and>
     sspec (plus_of (zset_env env)) now c i a r j a' \<and> server_ok (N + scost c) s' a')"

lemma sstepI:
  assumes "sexec env now c i s = Some (r, j, s')" "sspec (plus_of (zset_env env)) now c i a r j a'" "server_ok (N + scost c) s' a'"
    "j < dbnum s'"
  shows "sstep_ok env now N c i s a"
  using assms unfolding sstep_ok_def by blast

lemma sexec_ok:
  assumes "server_ok N s a" "i < dbnum s" "kenv_ok env" "scmd_ok c" "N + scost c < 2 ^ 29"
    "\<not> sfault (plus_of (zset_env env)) now c i a" "\<not> starved env now c i s"
  shows "sstep_ok env now N c i s a"
proof (cases c)
  case (OnDb kc)
  have "kstep_ok env now N kc (open_db i s) (a_open i a)"
    using kexec_ok [OF server_okD(2) [OF assms(1,2)] assms(3), of kc now] assms(4-6) OnDb by simp
  then obtain r db as where
    k: "kexec env now kc (open_db i s) = Some (r, db)" "kspec (plus_of (zset_env env)) now kc (a_open i a) r as"
      "db_ok (N + kcost kc) db as" by (auto simp: kstep_ok_def)
  show ?thesis
    by (rule sstepI [where s' = "close_db i db s" and a' = "a_close i as a" and j = i and r = "Some r"])
      (use OnDb k assms(2) server_close [OF assms(1) k(3)] in auto)
next
  case (SMove k target)
  from move_ok [OF assms(1,2), of "key_can_resize env" k target] assms(5) SMove obtain r s' a' where
    m: "moveCommand (key_can_resize env) k target i s = Some (r, s')" "a_move k target i a = (r, a')" "server_ok (N + 1) s' a'"
    by auto
  have "length (dbs a') = length (dbs a)" by (rule sspec_length [where c = "SMove k target" and r = "Some r" and i = i and j = i]) (simp add: m(2))
  then show ?thesis
    using SMove m assms(2) server_okD(1) [OF assms(1)] server_okD(1) [OF m(3)]
    by (intro sstepI [where s' = s' and a' = a' and j = i and r = "Some r"]) simp_all
next
  case (SSelect target)
  show ?thesis
  proof (cases "target < 0 \<or> target \<ge> int (dbnum s)")
    case True
    then show ?thesis using SSelect assms(1,2) server_okD(1) [OF assms(1)]
      by (intro sstepI [where s' = s and a' = a and j = i and r = "Some KBadIndex"]) (auto simp: selectDb_def)
  next
    case False
    then show ?thesis using SSelect assms(1) server_okD(1) [OF assms(1)]
      by (intro sstepI [where s' = s and a' = a and j = "nat target" and r = "Some KOk"]) (auto simp: selectDb_def)
  qed
next
  case (SFlushAll saved)
  note f = flushall_ok [OF assms(1), of saved]
  have "dbnum (snd (flushallCommand saved s)) = dbnum s" by (simp add: flushallCommand_def emptyDb_def dbnum_def)
  then show ?thesis
    using SFlushAll f assms(2)
    by (intro sstepI [where s' = "snd (flushallCommand saved s)" and a' = "a_flush saved a" and j = i and r = "Some KOk"])
      (simp_all add: case_prod_beta)
next
  case (SRandomKey rss)
  have "randomkeyCommand now rss (open_db i s) \<noteq> None"
  proof
    assume n: "randomkeyCommand now rss (open_db i s) = None"
    obtain rss' r db' where "longer rss rss'" "randomkey_loop now rss' (open_db i s) = Some (r, db')"
      using randomkey_loop_extend [OF server_okD(2) [OF assms(1,2)]] by blast
    then have "more_numbers c (SRandomKey rss')" "sexec env now (SRandomKey rss') i s \<noteq> None"
      using SRandomKey by (simp_all add: randomkeyCommand_def)
    moreover have "sexec env now c i s = None" using n SRandomKey by simp
    ultimately show False using assms(7) unfolding starved_def by blast
  qed
  then obtain r db where k: "randomkeyCommand now rss (open_db i s) = Some (r, db)" by (auto split: bind_splits)
  from randomkeyCommand_ok [OF server_okD(2) [OF assms(1,2)] k] obtain as where
    as: "a_randomkey now (a_open i a) r as" "db_ok N db as" by blast
  show ?thesis
    by (rule sstepI [where s' = "close_db i db s" and a' = "a_close i as a" and j = i and r = "Some r"])
      (use SRandomKey k as assms(2) server_close [OF assms(1) as(2)] in auto)
next
  case (SCron cr)
  have "serverCron (key_can_resize env) cr s \<noteq> None"
  proof
    assume n: "serverCron (key_can_resize env) cr s = None"
    obtain work s' where "longer_work (expire_work cr) work" "serverCron (key_can_resize env) (cr\<lparr>expire_work := work\<rparr>) s = Some s'"
      using serverCron_extend [OF assms(1)] assms(5) by force
    then have "more_numbers c (SCron (cr\<lparr>expire_work := work\<rparr>))" "sexec env now (SCron (cr\<lparr>expire_work := work\<rparr>)) i s \<noteq> None"
      using SCron by simp_all
    moreover have "sexec env now c i s = None" using n SCron by simp
    ultimately show False using assms(7) unfolding starved_def by blast
  qed
  then obtain s' where k: "serverCron (key_can_resize env) cr s = Some s'" by auto
  from serverCron_ok [OF assms(1) _ k] assms(5) SCron obtain a' where
    a': "all_reap (cron_times cr) a a'" "server_ok N s' a'" by auto
  have "length (dbs a') = length (dbs a)" by (rule sspec_length [where c = "SCron cr" and r = None and i = i and j = i]) (simp add: a'(1))
  then show ?thesis
    using SCron k a' assms(2) server_okD(1) [OF assms(1)] server_okD(1) [OF a'(2)]
    by (intro sstepI [where s' = s' and a' = a' and j = i and r = None]) simp_all
qed

lemma sfault_none:
  assumes "server_ok N s a" "i < dbnum s" "kenv_ok env" "scmd_ok c" "N + scost c < 2 ^ 29"
    "sfault (plus_of (zset_env env)) now c i a"
  shows "sexec env now c i s = None"
proof (cases c)
  case (OnDb kc)
  then show ?thesis
    using kexec_ok [OF server_okD(2) [OF assms(1,2)] assms(3), of kc now] assms(4-6) by simp
qed (use assms(6) in simp_all)

text \<open>
  What a run of the server does: it answers all commands as the maps do, or it stops at a command that
  faults or that has too few random numbers, after answering the ones before it.
\<close>

definition run_ok :: "'s::{linorder, zero} kenv \<Rightarrow> (int \<times> 's scmd) list \<Rightarrow> nat \<Rightarrow> 's rvalue server \<Rightarrow> 's aserver \<Rightarrow> nat \<Rightarrow> bool" where
  "run_ok env cs i s a M \<longleftrightarrow>
     (case srun env cs i s of
        Some (rs, j, s') \<Rightarrow> \<exists>a'. sruns (plus_of (zset_env env)) cs i a rs j a' \<and> server_ok M s' a'
      | None \<Rightarrow> \<exists>cs1 now c cs2 rs j s1 a1. cs = cs1 @ (now, c) # cs2 \<and> srun env cs1 i s = Some (rs, j, s1) \<and>
          sruns (plus_of (zset_env env)) cs1 i a rs j a1 \<and> server_ok M s1 a1 \<and>
          (sfault (plus_of (zset_env env)) now c j a1 \<or> starved env now c j s1))"

lemma srun_ok:
  assumes "server_ok N s a" "i < dbnum s" "kenv_ok env" "\<forall>c \<in> set cs. scmd_ok (snd c)"
    "N + (\<Sum>c \<leftarrow> cs. scost (snd c)) < 2 ^ 29"
  shows "run_ok env cs i s a (N + (\<Sum>c \<leftarrow> cs. scost (snd c)))"
  using assms
proof (induction cs arbitrary: N s a i)
  case Nil
  then show ?case by (simp add: run_ok_def)
next
  case (Cons x cs)
  obtain now c where x: "x = (now, c)" by (cases x)
  let ?f = "plus_of (zset_env env)" and ?M = "N + (\<Sum>c \<leftarrow> x # cs. scost (snd c))"
  have le: "N \<le> ?M" by simp
  show ?case
  proof (cases "sfault ?f now c i a \<or> starved env now c i s")
    case True
    moreover have "srun env (x # cs) i s = None"
      using True sfault_none [OF Cons.prems(1,2,3)] Cons.prems(4,5) x by (auto simp: starved_def)
    moreover have "x # cs = [] @ (now, c) # cs" "srun env [] i s = Some ([], i, s)" "sruns ?f [] i a [] i a" using x by simp_all
    ultimately show ?thesis using server_mono [OF Cons.prems(1) le] unfolding run_ok_def by (simp only: option.case) blast
  next
    case False
    then have "sstep_ok env now N c i s a" using Cons.prems x by (intro sexec_ok) simp_all
    then obtain r j s1 a1 where st: "sexec env now c i s = Some (r, j, s1)" "j < dbnum s1"
      "sspec ?f now c i a r j a1" "server_ok (N + scost c) s1 a1" by (auto simp: sstep_ok_def)
    have M: "?M = N + scost c + (\<Sum>c \<leftarrow> cs. scost (snd c))" using x by simp
    have IH: "run_ok env cs j s1 a1 ?M" unfolding M by (rule Cons.IH [OF st(4,2) assms(3)]) (use Cons.prems(4,5) x in simp_all)
    show ?thesis
    proof (cases "srun env cs j s1")
      case (Some y)
      then show ?thesis using IH st(1,3) x by (cases y) (auto simp: run_ok_def)
    next
      case None
      with IH obtain cs1 now1 c1 cs2 rs l s2 a2 where t: "cs = cs1 @ (now1, c1) # cs2" "srun env cs1 j s1 = Some (rs, l, s2)"
        "sruns ?f cs1 j a1 rs l a2" "server_ok ?M s2 a2" "sfault ?f now1 c1 l a2 \<or> starved env now1 c1 l s2"
        unfolding run_ok_def by (simp only: option.case) blast
      have "srun env (x # cs1) i s = Some (r # rs, l, s2)" "sruns ?f (x # cs1) i a (r # rs) l a2"
        using t(2,3) st(1,3) x by (auto simp: sruns_simps)
      moreover have "x # cs = (x # cs1) @ (now1, c1) # cs2" using t(1) by simp
      moreover have "srun env (x # cs) i s = None" using None st(1) x by simp
      ultimately show ?thesis using t(4,5) unfolding run_ok_def by (simp only: option.case) blast
    qed
  qed
qed

lemma srun_returned:
  assumes "run_ok env cs i s a M" "srun env cs i s = Some (rs, j, s')"
  obtains a' where "sruns (plus_of (zset_env env)) cs i a rs j a'" "server_ok M s' a'"
  using assms by (auto simp: run_ok_def)

lemma srun_stopped:
  assumes "run_ok env cs i s a M" "srun env cs i s = None"
  obtains cs1 now c cs2 rs j s1 a1 where "cs = cs1 @ (now, c) # cs2" "srun env cs1 i s = Some (rs, j, s1)"
    "sfault (plus_of (zset_env env)) now c j a1 \<or> starved env now c j s1"
proof -
  from assms obtain cs1 now c cs2 rs j s1 a1 where "cs = cs1 @ (now, c) # cs2 \<and> srun env cs1 i s = Some (rs, j, s1) \<and>
          sruns (plus_of (zset_env env)) cs1 i a rs j a1 \<and> server_ok M s1 a1 \<and>
          (sfault (plus_of (zset_env env)) now c j a1 \<or> starved env now c j s1)"
    unfolding run_ok_def by (simp only: option.case) (elim exE, rule that)
  then show ?thesis using that by blast
qed

text \<open>A run without random choices and without \<open>ZINCRBY\<close> returns.\<close>

fun settled :: "'s scmd \<Rightarrow> bool" where
  "settled (OnDb (CZset k c)) = (case c of ZAdd incr rs s ob \<Rightarrow> \<not> incr | _ \<Rightarrow> True)"
| "settled (SRandomKey rss) = False"
| "settled (SCron c) = False"
| "settled _ = True"

lemma settled_safe: "settled c \<Longrightarrow> \<not> sfault addf now c i a \<and> \<not> starved env now c i s"
proof (cases c)
  case (OnDb kc)
  moreover assume "settled c"
  ultimately show ?thesis
    by (cases kc) (auto simp: starved_def split: option.splits avalue.splits zcmd.splits)
qed (auto simp: starved_def)

lemma srun_settled:
  assumes "run_ok env cs i s a M" "\<forall>c \<in> set cs. settled (snd c)"
  obtains rs j s' a' where "srun env cs i s = Some (rs, j, s')" "sruns (plus_of (zset_env env)) cs i a rs j a'" "server_ok M s' a'"
proof (cases "srun env cs i s")
  case None
  then obtain cs1 now c cs2 rs j s1 a1 where f: "cs = cs1 @ (now, c) # cs2" "srun env cs1 i s = Some (rs, j, s1)"
    "sfault (plus_of (zset_env env)) now c j a1 \<or> starved env now c j s1"
    by (rule srun_stopped [OF assms(1)])
  have "settled c" using assms(2) unfolding f(1) by simp
  then show ?thesis using f(3) settled_safe [of c "plus_of (zset_env env)" now j a1 env s1] by simp
next
  case (Some x)
  obtain rs j s' where "x = (rs, j, s')" by (cases x)
  note r = Some [unfolded this]
  show ?thesis by (rule srun_returned [OF assms(1) r]) (rule that [OF r])
qed

section \<open>From an empty server\<close>

definition a_empty :: "nat \<Rightarrow> 's aserver" where
  "a_empty n = \<lparr>dbs = replicate n (\<lambda>_. None, \<lambda>_. None), all_changes = 0, all_gone = 0\<rparr>"

lemma db_types: "plain_type dbDictType" "plain_type keyptrDictType"
  by (simp_all add: plain_type_def dbDictType_def keyptrDictType_def sdsDictKeyCompare_eq)

lemma initServer_ok: "server_ok N (initServer n) (a_empty n :: 's::linorder aserver)"
proof -
  have "db_ok N (open_db i (initServer n)) (a_open i (a_empty n :: 's aserver))" if "i < n" for i
  proof (rule db_okI)
    let ?ks = "\<lparr>vals = \<lambda>_. None, deadline = \<lambda>_. None, changes = 0, gone = 0\<rparr>"
    show "krep (open_db i (initServer n)) ?ks" using that by (simp add: krep_def open_db_def initServer_def dictCreate_rep db_types)
    show "sim N ?ks (a_open i (a_empty n))" using that by (simp add: sim_def a_open_def a_empty_def)
  qed
  then show ?thesis by (simp add: server_ok_def initServer_def a_empty_def dbnum_def)
qed

text \<open>C2: A server that starts empty answers every sequence of commands, in whichever of its databases and
  with the timer running in between, as a list of maps from keys to values and deadlines does; the
  timer and \<open>RANDOMKEY\<close> only remove keys whose deadline has passed. A run that does not return has
  answered everything before the command it stops at, and this is a \<open>ZINCRBY\<close> that leaves a score as
  it is (it reads memory it has freed), or \<open>RANDOMKEY\<close> or a run of the timer that returns when it is
  given more random numbers and clock readings behind those it had.\<close>

theorem server_runs_as_keyspace:
  assumes "kenv_ok env" "i < n" "\<forall>c \<in> set cs. scmd_ok (snd c)" "(\<Sum>c \<leftarrow> cs. scost (snd c)) < 2 ^ 29"
  shows "case srun env cs i (initServer n) of
      Some (rs, j, s) \<Rightarrow> \<exists>a. sruns (plus_of (zset_env env)) cs i (a_empty n) rs j a \<and>
        server_ok (\<Sum>c \<leftarrow> cs. scost (snd c)) s a
    | None \<Rightarrow> \<exists>cs1 now c cs2 rs j s a. cs = cs1 @ (now, c) # cs2 \<and> srun env cs1 i (initServer n) = Some (rs, j, s) \<and>
        sruns (plus_of (zset_env env)) cs1 i (a_empty n) rs j a \<and> server_ok (\<Sum>c \<leftarrow> cs. scost (snd c)) s a \<and>
        (sfault (plus_of (zset_env env)) now c j a \<or> starved env now c j s)"
proof -
  have "i < dbnum (initServer n)" using assms(2) by (simp add: initServer_def dbnum_def)
  from srun_ok [OF initServer_ok [of 0 n] this assms(1,3)] assms(4) show ?thesis
    unfolding run_ok_def by (simp only: add_0)
qed

text \<open>What every run keeps of the tables.\<close>

lemma srun_tables:
  assumes "kenv_ok env" "i < n" "\<forall>c \<in> set cs. scmd_ok (snd c)" "(\<Sum>c \<leftarrow> cs. scost (snd c)) < 2 ^ 29"
    "srun env cs i (initServer n) = Some (rs, j, s)" "t \<in> set (tables s)"
  obtains db as where "db_ok (\<Sum>c \<leftarrow> cs. scost (snd c)) db as" "fst t = kdict db" "snd t = kexpires db"
proof -
  have "i < dbnum (initServer n)" using assms(2) by (simp add: initServer_def dbnum_def)
  from srun_ok [OF initServer_ok [of 0 n] this assms(1,3)] assms(4)
  have "run_ok env cs i (initServer n) (a_empty n) (\<Sum>c \<leftarrow> cs. scost (snd c))" by simp
  from srun_returned [OF this assms(5)] obtain a where s: "server_ok (\<Sum>c \<leftarrow> cs. scost (snd c)) s a" by blast
  obtain l where l: "l < dbnum s" "t = tables s ! l" using assms(6) by (auto simp: in_set_conv_nth dbnum_def)
  show ?thesis by (rule that [OF server_okD(2) [OF s l(1)]]) (simp_all add: open_db_def l(2))
qed

text \<open>C20: After any run of a server that starts empty, every key with a deadline is a key with a value, in
  each of the databases and in whatever state of rehashing their tables are.\<close>

theorem server_deadlines_have_keys:
  assumes "kenv_ok env" "i < n" "\<forall>c \<in> set cs. scmd_ok (snd c)" "(\<Sum>c \<leftarrow> cs. scost (snd c)) < 2 ^ 29"
    "srun env cs i (initServer n) = Some (rs, j, s)" "t \<in> set (tables s)"
  shows "\<exists>m dl. dict_rep (fst t) m \<and> dict_rep (snd t) dl \<and> dom dl \<subseteq> dom m"
proof -
  obtain db as where d: "db_ok (\<Sum>c \<leftarrow> cs. scost (snd c)) db as" "fst t = kdict db" "snd t = kexpires db"
    by (rule srun_tables [OF assms])
  obtain ks where "krep db ks" by (rule db_okE [OF d(1)])
  from krepD(1-3) [OF this] d(2,3) show ?thesis by auto
qed

text \<open>What the value at a key is like: a string object that can be decoded, a hash that is not empty, or a
  sorted set that is not empty and whose list and table agree.\<close>

fun value_wf :: "'s::linorder rvalue \<Rightarrow> bool" where
  "value_wf (VString ob) \<longleftrightarrow> sobj_ok ob"
| "value_wf (VHash h) \<longleftrightarrow> (\<exists>f. f \<noteq> (\<lambda>_. None) \<and> hash_rep h f)"
| "value_wf (VZset zs) \<longleftrightarrow> (\<exists>es. es \<noteq> [] \<and> zset_ok zs es)"
| "value_wf VList \<longleftrightarrow> True"
| "value_wf VSet \<longleftrightarrow> True"

lemma value_rep_wf: "value_rep N v w \<Longrightarrow> value_wf v"
  by (cases v; cases w) auto

text \<open>C25: After any run, the value at every key is well formed: in particular no key holds an empty hash or an
  empty sorted set.\<close>

theorem server_values_well_formed:
  assumes "kenv_ok env" "i < n" "\<forall>c \<in> set cs. scmd_ok (snd c)" "(\<Sum>c \<leftarrow> cs. scost (snd c)) < 2 ^ 29"
    "srun env cs i (initServer n) = Some (rs, j, s)" "t \<in> set (tables s)"
  shows "\<exists>m. dict_rep (fst t) m \<and> (\<forall>k v. m k = Some v \<longrightarrow> value_wf v)"
proof -
  obtain db as where d: "db_ok (\<Sum>c \<leftarrow> cs. scost (snd c)) db as" "fst t = kdict db" "snd t = kexpires db"
    by (rule srun_tables [OF assms])
  obtain ks where ks: "krep db ks" "sim (\<Sum>c \<leftarrow> cs. scost (snd c)) ks as" by (rule db_okE [OF d(1)])
  have "value_wf v" if "vals ks k = Some v" for k v
    using simD(1) [OF ks(2), of k] that value_rep_wf by (auto simp: option_rel_Some1)
  with krepD(1) [OF ks(1)] d(2) show ?thesis by auto
qed

section \<open>A sample run\<close>

definition sample_kenv :: "int kenv" where
  "sample_kenv = \<lparr>key_can_resize = True, hash_env = sample_henv, zset_env = sample_env\<rparr>"

lemma sample_kenv_ok: "kenv_ok sample_kenv"
  using sample_env_ok by (simp add: kenv_ok_def sample_kenv_def henv_ok_def sample_henv_def plain_type_def sdsDictKeyCompare_eq)

text \<open>A timer, a key with a deadline, its value moved to another database, and a look at both.\<close>

definition sample_cmds :: "(int \<times> int scmd) list" where
  "sample_cmds =
     [(1, SCron \<lparr>loops = 0, saving_child = False, activerehashing = True, rehash_start = 0, rehash_clock = [],
                 expire_work = [([1], []), ([1], [])]\<rparr>),
      (5, OnDb (CSet False [97] (Raw [98]) (Some 10))), (6, OnDb (CGet [97])), (7, OnDb (CSet False [99] (Raw [100]) None)),
      (8, SMove [99] 1), (9, SSelect 1), (10, OnDb (CGet [99])), (11, SSelect 0), (16, OnDb (CGet [97]))]"

lemma sample_timer: "sexec sample_kenv (fst (hd sample_cmds)) (snd (hd sample_cmds)) 0 (initServer 2) = Some (None, 0, initServer 2)"
proof -
  let ?c = "\<lparr>loops = 0, saving_child = False, activerehashing = True, rehash_start = 0, rehash_clock = [],
                 expire_work = [([1], []), ([1], [])]\<rparr> :: cron"
  have "htNeedsResize (dictCreate ty) = False" "dictIsRehashing (dictCreate ty) = False" "dictSize (dictCreate ty) = 0" for ty
    by (simp_all add: htNeedsResize_def dictCreate_def dictInit_def dictReset_def dictIsRehashing_def dictSize_def dictSlots_def)
  note e = this
  have "serverCron True ?c (initServer 2 :: int rvalue server) = Some (initServer 2)"
    by (simp add: serverCron_def initServer_def tryResizeHashTables_def resize_if_needed_def e incrementallyRehash_def
        numeral_2_eq_2 dbnum_def open_db_def close_db_def)
  then show ?thesis by (simp add: sample_kenv_def sample_cmds_def)
qed

text \<open>The timer runs on an empty server; the other commands choose nothing at random.\<close>

lemma sample_returns:
  assumes "run_ok sample_kenv sample_cmds 0 (initServer 2) (a_empty 2) M"
  obtains rs j s a where "srun sample_kenv sample_cmds 0 (initServer 2) = Some (rs, j, s)"
    "sruns (plus_of (zset_env sample_kenv)) sample_cmds 0 (a_empty 2) rs j a" "server_ok M s a"
proof (cases "srun sample_kenv sample_cmds 0 (initServer 2)")
  case None
  then obtain cs1 now c cs2 rs j s1 a1 where f: "sample_cmds = cs1 @ (now, c) # cs2"
    "srun sample_kenv cs1 0 (initServer 2) = Some (rs, j, s1)"
    "sfault (plus_of (zset_env sample_kenv)) now c j a1 \<or> starved sample_kenv now c j s1"
    by (rule srun_stopped [OF assms])
  show ?thesis
  proof (cases cs1)
    case Nil
    then have "(now, c) = hd sample_cmds" unfolding f(1) by simp
    then have h: "now = fst (hd sample_cmds)" "c = snd (hd sample_cmds)" by (metis fst_conv, metis snd_conv)
    have "j = 0" "s1 = initServer 2" using f(2) Nil by simp_all
    then have "sexec sample_kenv now c j s1 \<noteq> None" using sample_timer h by simp
    moreover have "\<not> sfault (plus_of (zset_env sample_kenv)) now c j a1" unfolding h(2) by (simp add: sample_cmds_def)
    ultimately show ?thesis using f(3) by (simp add: starved_def)
  next
    case (Cons x cs)
    then have "(now, c) \<in> set (tl sample_cmds)" unfolding f(1) by simp
    then have "settled c" by (auto simp: sample_cmds_def)
    then show ?thesis using f(3) settled_safe [of c "plus_of (zset_env sample_kenv)" now j a1 sample_kenv s1] by simp
  qed
next
  case (Some x)
  obtain rs j s where "x = (rs, j, s)" by (cases x)
  note r = Some [unfolded this]
  show ?thesis by (rule srun_returned [OF assms r]) (rule that [OF r])
qed

lemma reaps_idle: "reaps T as as' \<Longrightarrow> deadline as = (\<lambda>_. None) \<Longrightarrow> as' = as"
  by (induction rule: reaps.induct) (simp_all add: overdue_def)

lemma all_reap_idle: "all_reap T a a' \<Longrightarrow> \<forall>x \<in> set (dbs a). snd x = (\<lambda>_. None) \<Longrightarrow> a' = a"
proof (induction rule: all_reap.induct)
  case (2 i a as a')
  have "as = a_open i a" by (rule reaps_idle [OF 2(2)]) (use 2(1,5) in \<open>simp add: a_open_def\<close>)
  then have "a_close i as a = a" by (simp add: a_open_def a_close_def)
  then show ?case using 2(4,5) by simp
qed simp

text \<open>Two databases, the second one without deadlines.\<close>

definition two :: "(bytes \<Rightarrow> int avalue option) \<Rightarrow> (bytes \<Rightarrow> int option) \<Rightarrow> (bytes \<Rightarrow> int avalue option) \<Rightarrow> int \<Rightarrow> int \<Rightarrow> int aserver" where
  "two m0 d0 m1 n g = \<lparr>dbs = [(m0, d0), (m1, \<lambda>_. None)], all_changes = n, all_gone = g\<rparr>"

lemma two_simps:
  "a_open 0 (two m0 d0 m1 n g) = \<lparr>vals = m0, deadline = d0, changes = n, gone = g\<rparr>"
  "a_open (Suc 0) (two m0 d0 m1 n g) = \<lparr>vals = m1, deadline = \<lambda>_. None, changes = n, gone = g\<rparr>"
  "a_close 0 \<lparr>vals = m, deadline = d, changes = x, gone = y\<rparr> (two m0 d0 m1 n g) = two m d m1 x y"
  "a_close (Suc 0) \<lparr>vals = m, deadline = \<lambda>_. None, changes = x, gone = y\<rparr> (two m0 d0 m1 n g) = two m0 d0 m x y"
  "length (dbs (two m0 d0 m1 n g)) = 2"
  by (simp_all add: two_def a_open_def a_close_def)

lemma idle_two: "all_reap T (two m0 (\<lambda>_. None) m1 n g) a \<longleftrightarrow> a = two m0 (\<lambda>_. None) m1 n g"
  using all_reap_idle [of T "two m0 (\<lambda>_. None) m1 n g" a] all_reap.intros(1) by (auto simp: two_def)

lemmas sample_defs = a_set_def a_move_def two_simps a_volatile_def a_expire_def overdue_def read_reply_def Let_def a_put_def
  a_persist_def a_deadline_def a_touch_def a_remove_def

lemma upd_away: "[[97 :: 8 word] \<mapsto> x, [99] \<mapsto> y](([99]) := None) = [[97] \<mapsto> x]"
  "(Map.empty([97 :: 8 word] \<mapsto> x))(([97]) := None) = (\<lambda>_. None)"
  by (simp_all add: fun_eq_iff)

lemma sample_setex:
  "sspec f 5 (OnDb (CSet False [97] (Raw [98]) (Some 10))) 0 (two (\<lambda>_. None) (\<lambda>_. None) m1 n g) r j a \<longleftrightarrow>
     r = Some KOk \<and> j = 0 \<and> a = two [[97] \<mapsto> AString [98]] [[97] \<mapsto> 15] m1 (n + 1) g"
  by (auto simp: sample_defs upd_away)

lemma sample_get:
  "sspec f 6 (OnDb (CGet [97])) 0 (two [[97] \<mapsto> AString [98]] [[97] \<mapsto> 15] m1 n g) r j a \<longleftrightarrow>
     r = Some (KBulk [98]) \<and> j = 0 \<and> a = two [[97] \<mapsto> AString [98]] [[97] \<mapsto> 15] m1 n g"
  by (auto simp: sample_defs upd_away)

lemma sample_set:
  "sspec f 7 (OnDb (CSet False [99] (Raw [100]) None)) 0 (two [[97] \<mapsto> AString [98]] [[97] \<mapsto> 15] m1 n g) r j a \<longleftrightarrow>
     r = Some KOk \<and> j = 0 \<and> a = two [[97] \<mapsto> AString [98], [99] \<mapsto> AString [100]] [[97] \<mapsto> 15] m1 (n + 1) g"
  by (auto simp: sample_defs upd_away fun_upd_idem)

lemma sample_move:
  "sspec f 8 (SMove [99] 1) 0 (two [[97] \<mapsto> AString [98], [99] \<mapsto> AString [100]] [[97] \<mapsto> 15] (\<lambda>_. None) n g) r j a \<longleftrightarrow>
     r = Some KOne \<and> j = 0 \<and> a = two [[97] \<mapsto> AString [98]] [[97] \<mapsto> 15] [[99] \<mapsto> AString [100]] (n + 1) g"
  by (auto simp: sample_defs upd_away fun_upd_idem)

lemma sample_get_moved:
  "sspec f 10 (OnDb (CGet [99])) 1 (two m0 d0 [[99] \<mapsto> AString [100]] n g) r j a \<longleftrightarrow>
     r = Some (KBulk [100]) \<and> j = 1 \<and> a = two m0 d0 [[99] \<mapsto> AString [100]] n g"
  by (auto simp: sample_defs upd_away)

lemma sample_get_late:
  "sspec f 16 (OnDb (CGet [97])) 0 (two [[97] \<mapsto> AString [98]] [[97] \<mapsto> 15] m1 n g) r j a \<longleftrightarrow>
     r = Some KNull \<and> j = 0 \<and> a = two (\<lambda>_. None) (\<lambda>_. None) m1 n (g + 1)"
  by (auto simp: sample_defs upd_away)

lemmas sample_steps = sample_setex sample_get sample_set sample_move sample_get_moved sample_get_late

lemma sample_ok: "\<forall>c \<in> set sample_cmds. scmd_ok (snd c)" "(\<Sum>c \<leftarrow> sample_cmds. scost (snd c)) < 2 ^ 29"
  by (simp_all add: sample_cmds_def sobj_ok_def)

theorem server_runs_as_keyspace_witness:
  "\<exists>s. srun sample_kenv sample_cmds 0 (initServer 2) =
     Some ([None, Some KOk, Some (KBulk [98]), Some KOk, Some KOne, Some KOk, Some (KBulk [100]), Some KOk, Some KNull], 0, s)"
proof -
  have "run_ok sample_kenv sample_cmds 0 (initServer 2) (a_empty 2) (\<Sum>c \<leftarrow> sample_cmds. scost (snd c))"
    unfolding run_ok_def by (rule server_runs_as_keyspace [OF sample_kenv_ok zero_less_numeral sample_ok])
  then obtain rs j s a where r: "srun sample_kenv sample_cmds 0 (initServer 2) = Some (rs, j, s)"
    "sruns (plus_of (zset_env sample_kenv)) sample_cmds 0 (a_empty 2) rs j a" by (rule sample_returns)
  have e: "a_empty 2 = two (\<lambda>_. None) (\<lambda>_. None) (\<lambda>_. None) 0 0" by (simp add: a_empty_def two_def numeral_2_eq_2)
  have c: "sspec f now (SCron c) 0 (two m0 (\<lambda>_. None) m1 n g) r j a \<longleftrightarrow> j = 0 \<and> r = None \<and> a = two m0 (\<lambda>_. None) m1 n g" for f now c m0 m1 n g r j a
    by (simp add: idle_two)
  have sel: "sspec f now (SSelect 0) i (two m0 d0 m1 n g) r j a \<longleftrightarrow> a = two m0 d0 m1 n g \<and> j = 0 \<and> r = Some KOk"
    "sspec f now (SSelect 1) i (two m0 d0 m1 n g) r j a \<longleftrightarrow> a = two m0 d0 m1 n g \<and> j = 1 \<and> r = Some KOk" for f now i m0 d0 m1 n g r j a
    by (auto simp: two_simps)
  have "rs = [None, Some KOk, Some (KBulk [98]), Some KOk, Some KOne, Some KOk, Some (KBulk [100]), Some KOk, Some KNull] \<and> j = 0"
    using r(2) unfolding sample_cmds_def e
    by (elim exE conjE | simp only: sruns_simps sample_steps c sel refl simp_thms ex_simps)+
  with r(1) show ?thesis by simp
qed

lemma sample_run: "\<exists>rs j s. srun sample_kenv sample_cmds 0 (initServer 2) = Some (rs, j, s) \<and> tables s \<noteq> []"
proof -
  have "0 < dbnum (initServer 2 :: int rvalue server)" by (simp add: initServer_def dbnum_def)
  from srun_ok [OF initServer_ok this sample_kenv_ok sample_ok(1), of 0] sample_ok(2)
  have "run_ok sample_kenv sample_cmds 0 (initServer 2) (a_empty 2) (\<Sum>c \<leftarrow> sample_cmds. scost (snd c))" by simp
  then obtain rs j s a where r: "srun sample_kenv sample_cmds 0 (initServer 2) = Some (rs, j, s)"
    "sruns (plus_of (zset_env sample_kenv)) sample_cmds 0 (a_empty 2) rs j a"
    "server_ok (\<Sum>c \<leftarrow> sample_cmds. scost (snd c)) s a" by (rule sample_returns)
  have "dbnum s = 2" using server_okD(1) [OF r(3)] sruns_length [OF r(2)] by (simp add: a_empty_def)
  then have "tables s \<noteq> []" by (auto simp: dbnum_def)
  with r(1) show ?thesis by blast
qed

theorem server_deadlines_have_keys_witness:
  "\<exists>rs j s t m dl. srun sample_kenv sample_cmds 0 (initServer 2) = Some (rs, j, s) \<and> t \<in> set (tables s) \<and>
     dict_rep (fst t) m \<and> dict_rep (snd t) dl \<and> dom dl \<subseteq> dom m"
proof -
  obtain rs j s where r: "srun sample_kenv sample_cmds 0 (initServer 2) = Some (rs, j, s)" "tables s \<noteq> []"
    using sample_run by blast
  have "hd (tables s) \<in> set (tables s)" using r(2) by simp
  from server_deadlines_have_keys [OF sample_kenv_ok zero_less_numeral sample_ok r(1) this] this r(1) show ?thesis by blast
qed

theorem server_values_well_formed_witness:
  "\<exists>rs j s t m. srun sample_kenv sample_cmds 0 (initServer 2) = Some (rs, j, s) \<and> t \<in> set (tables s) \<and>
     dict_rep (fst t) m \<and> (\<forall>k v. m k = Some v \<longrightarrow> value_wf v)"
proof -
  obtain rs j s where r: "srun sample_kenv sample_cmds 0 (initServer 2) = Some (rs, j, s)" "tables s \<noteq> []"
    using sample_run by blast
  have "hd (tables s) \<in> set (tables s)" using r(2) by simp
  from server_values_well_formed [OF sample_kenv_ok zero_less_numeral sample_ok r(1) this] this r(1) show ?thesis by blast
qed

end
