(* ===== verification/Expiry.thy ===== *)
theory Expiry
  imports Server_Spec
begin

text \<open>
  Deadlines: the timer can always finish its turns and can reach every key that is due; a key set
  with a deadline is read until the deadline and not after it; where the arithmetic on deadlines
  wraps around.
\<close>

section \<open>The timer ends, and reaches every key that is due\<close>

lemma reaps_keeps_gone: "reaps T as as' \<Longrightarrow> vals as k = None \<Longrightarrow> vals as' k = None"
  by (induction rule: reaps.induct) (auto simp: a_expire_def split: if_splits)

text \<open>One lookup, with two random numbers that pick a given deadline.\<close>

lemma expire_lookup_pick:
  assumes "db_ok N db as" "deadline as k = Some t"
  obtains rs ex where "db_ok N (db\<lparr>kexpires := ex\<rparr>) as" "dictGetRandomKey (kexpires db) rs = Some (Some (k, t), ex)"
proof -
  obtain ks where ks: "krep db ks" "sim N ks as" by (rule db_okE [OF assms(1)])
  have "deadline ks k = Some t" using assms(2) simD(3) [OF ks(2)] by simp
  then obtain r j ex where "\<forall>rs. dictGetRandomKey (kexpires db) (r # j # rs) = Some (Some (k, t), ex)"
    by (rule dictGetRandomKey_reaches [OF krepD(2) [OF ks(1)]])
  then have "dictGetRandomKey (kexpires db) [r, j] = Some (Some (k, t), ex)" by blast
  then show ?thesis using that pick_expire_ok(1) [OF assms(1)] by blast
qed

lemma expire_lookup_due:
  assumes "db_ok N db as" "overdue now as k"
  obtains rs db1 where "db_ok N db1 (a_expire now k as)"
    "\<forall>num rss. expire_lookups now (Suc num) (rs # rss) db =
       (case expire_lookups now num rss db1 of None \<Rightarrow> None | Some (n, rss', db') \<Rightarrow> Some (Suc n, rss', db'))"
proof -
  obtain t where t: "deadline as k = Some t" "t < now" using assms(2) by (auto simp: overdue_def split: option.splits)
  obtain rs ex where p: "db_ok N (db\<lparr>kexpires := ex\<rparr>) as" "dictGetRandomKey (kexpires db) rs = Some (Some (k, t), ex)"
    by (rule expire_lookup_pick [OF assms(1) t(1)])
  obtain db1 where d: "deleteKey (db\<lparr>kexpires := ex\<rparr>) k = Some (vals as k \<noteq> None, db1)" "db_ok N db1 (a_remove k as)"
    by (rule remove_sim [OF p(1)])
  have "db_ok N (db1\<lparr>kexpired := kexpired db1 + 1\<rparr>) (a_expire now k as)"
    using gone_sim [OF d(2)] assms(2) by (simp add: a_expire_def)
  moreover have "\<forall>num rss. expire_lookups now (Suc num) (rs # rss) db =
       (case expire_lookups now num rss (db1\<lparr>kexpired := kexpired db1 + 1\<rparr>) of None \<Rightarrow> None
        | Some (n, rss', db') \<Rightarrow> Some (Suc n, rss', db'))"
    using p(2) d(1) t(2) by (auto split: option.split)
  ultimately show ?thesis using that by blast
qed

lemma expire_lookups_ends:
  assumes "db_ok N db as"
  shows "\<exists>rss n db'. \<forall>rest. expire_lookups now num (rss @ rest) db = Some (n, rest, db')"
  using expire_lookups_extend [OF assms, of now num "[]"] by blast

text \<open>One turn of the loop, ending with a given key gone when it is due.\<close>

lemma expire_turn:
  assumes "db_ok N db as" "overdue now as k"
  shows "\<exists>rss n db' as'. (\<forall>rest. expire_lookups now (min (dictSize (kexpires db)) REDIS_EXPIRELOOKUPS_PER_CRON) (rss @ rest) db
      = Some (n, rest, db')) \<and> db_ok N db' as' \<and> reaps {now} as as' \<and> vals as' k = None \<and>
      card (dom (deadline as')) + n = card (dom (deadline as))"
proof -
  obtain rs db1 where d: "db_ok N db1 (a_expire now k as)"
    "\<forall>num rss. expire_lookups now (Suc num) (rs # rss) db =
      (case expire_lookups now num rss db1 of None \<Rightarrow> None | Some (n, rss', db') \<Rightarrow> Some (Suc n, rss', db'))"
    by (rule expire_lookup_due [OF assms])
  obtain ks where ks: "krep db ks" "sim N ks as" by (rule db_okE [OF assms(1)])
  have "k \<in> dom (deadline as)" using assms(2) by (auto simp: overdue_def split: option.splits)
  then have "dictSize (kexpires db) \<noteq> 0"
    using dict_repD(2,5) [OF krepD(2) [OF ks(1)]] simD(3) [OF ks(2)] by auto
  then obtain num where num: "min (dictSize (kexpires db)) REDIS_EXPIRELOOKUPS_PER_CRON = Suc num"
    by (cases "min (dictSize (kexpires db)) REDIS_EXPIRELOOKUPS_PER_CRON") (auto simp: REDIS_EXPIRELOOKUPS_PER_CRON_def)
  from expire_lookups_ends [OF d(1)] obtain rss n db' where
    e: "\<forall>rest. expire_lookups now num (rss @ rest) db1 = Some (n, rest, db')" by blast
  from expire_lookups_ok [OF d(1) e [rule_format, of "[]"]] obtain as' where
    as': "reaps {now} (a_expire now k as) as'" "db_ok N db' as'"
      "card (dom (deadline as')) + n = card (dom (deadline (a_expire now k as)))" by blast
  have "vals as' k = None" by (rule reaps_keeps_gone [OF as'(1)]) (simp add: a_expire_def assms(2))
  moreover have "reaps {now} as as'" by (rule reaps_trans [OF reaps_one as'(1)])
  moreover have "card (dom (deadline as')) + Suc n = card (dom (deadline as))"
    using as'(3) card_expire [OF assms(2) finite_deadlines [OF assms(1)]] by simp
  moreover have "expire_lookups now (min (dictSize (kexpires db)) REDIS_EXPIRELOOKUPS_PER_CRON) ((rs # rss) @ rest) db
      = Some (Suc n, rest, db')" for rest using d(2) e num by simp
  ultimately show ?thesis using as'(2) by blast
qed

lemma expire_cycle_ends:
  assumes "db_ok N db as"
  shows "\<exists>nows rss db'. set nows \<subseteq> {now} \<and> expire_cycle nows rss db = Some db'"
  using assms
proof (induction "card (dom (deadline as))" arbitrary: db as rule: less_induct)
  case less
  let ?num = "min (dictSize (kexpires db)) REDIS_EXPIRELOOKUPS_PER_CRON"
  from expire_lookups_ends [OF less.prems, of now ?num] obtain rss n db1 where
    e: "\<forall>rest. expire_lookups now ?num (rss @ rest) db = Some (n, rest, db1)" by blast
  from expire_lookups_ok [OF less.prems e [rule_format, of "[]"]] obtain as1 where
    as1: "db_ok N db1 as1" "card (dom (deadline as1)) + n = card (dom (deadline as))" by blast
  show ?case
  proof (cases "n > REDIS_EXPIRELOOKUPS_PER_CRON div 4")
    case False
    then have "expire_cycle [now] rss db = Some db1" using e [rule_format, of "[]"] by simp
    then show ?thesis by (intro exI [of _ "[now]"]) auto
  next
    case True
    then have "card (dom (deadline as1)) < card (dom (deadline as))" using as1(2) by simp
    from less.hyps [OF this as1(1)] obtain nows rss' db' where
      "set nows \<subseteq> {now}" "expire_cycle nows rss' db1 = Some db'" by blast
    then show ?thesis using e True by (intro exI [of _ "now # nows"] exI [of _ "rss @ rss'"]) auto
  qed
qed

lemma expire_cycle_reaches:
  assumes "db_ok N db as" "overdue now as k"
  shows "\<exists>nows rss db' as'. set nows \<subseteq> {now} \<and> expire_cycle nows rss db = Some db' \<and> db_ok N db' as' \<and>
    reaps {now} as as' \<and> vals as' k = None"
proof -
  from expire_turn [OF assms] obtain rss n db1 as1 where
    e: "\<forall>rest. expire_lookups now (min (dictSize (kexpires db)) REDIS_EXPIRELOOKUPS_PER_CRON) (rss @ rest) db = Some (n, rest, db1)"
    "db_ok N db1 as1" "reaps {now} as as1" "vals as1 k = None" by blast
  show ?thesis
  proof (cases "n > REDIS_EXPIRELOOKUPS_PER_CRON div 4")
    case False
    then have "expire_cycle [now] rss db = Some db1" using e(1) [rule_format, of "[]"] by simp
    then show ?thesis using e(2-4) by (intro exI [of _ "[now]"]) auto
  next
    case True
    from expire_cycle_ends [OF e(2), of now] obtain nows rss' db' where
      c: "set nows \<subseteq> {now}" "expire_cycle nows rss' db1 = Some db'" by blast
    from expire_cycle_ok [OF e(2) c(2)] obtain as2 where as2: "reaps (set nows) as1 as2" "db_ok N db' as2" by blast
    have "expire_cycle (now # nows) (rss @ rss') db = Some db'" using e(1) True c(2) by simp
    moreover have "reaps {now} as as2" by (rule reaps_trans [OF e(3) reaps_mono [OF as2(1) c(1)]])
    ultimately show ?thesis
      using c(1) as2(2) reaps_keeps_gone [OF as2(1) e(4)] by (intro exI [of _ "now # nows"]) auto
  qed
qed


lemma all_reap_keeps_gone: "all_reap T a a' \<Longrightarrow> vals (a_open i a) k = None \<Longrightarrow> vals (a_open i a') k = None"
proof (induction rule: all_reap.induct)
  case (2 j a as a')
  have "vals (a_open i (a_close j as a)) k = None"
    using 2 reaps_keeps_gone [of T "a_open j a" as k] by (cases "i = j") (simp_all add: a_open_def a_close_def)
  then show ?case by (rule 2)
qed simp

lemma diff_Suc_eq: "Suc n = m - j \<Longrightarrow> n = m - Suc j"
  by simp

lemma expire_dbs_ends:
  assumes "server_ok N s a"
  shows "\<exists>work s'. (\<forall>w \<in> set work. set (fst w) \<subseteq> {now}) \<and> expire_dbs j work s = Some s'"
  using assms
proof (induction "dbnum s - j" arbitrary: j s a)
  case 0
  then show ?case by (intro exI [of _ "[]"]) simp
next
  case (Suc n)
  then have j: "j < dbnum s" by simp
  from expire_cycle_ends [OF server_okD(2) [OF Suc.prems j], of now] obtain nows rss db where
    c: "set nows \<subseteq> {now}" "expire_cycle nows rss (open_db j s) = Some db" by blast
  from expire_cycle_ok [OF server_okD(2) [OF Suc.prems j] c(2)] obtain as where "db_ok N db as" by blast
  then have "server_ok N (close_db j db s) (a_close j as a)" by (rule server_close [OF Suc.prems _ le_refl])
  from Suc.hyps(1) [OF _ this, of "Suc j"] diff_Suc_eq [OF Suc.hyps(2)] obtain work s' where
    "\<forall>w \<in> set work. set (fst w) \<subseteq> {now}" "expire_dbs (Suc j) work (close_db j db s) = Some s'" by auto
  then show ?case using j c by (intro exI [of _ "(nows, rss) # work"]) auto
qed

lemma expire_dbs_reaches:
  assumes "server_ok N s a" "j \<le> i" "i < dbnum s" "overdue now (a_open i a) k"
  shows "\<exists>work s' a'. (\<forall>w \<in> set work. set (fst w) \<subseteq> {now}) \<and> expire_dbs j work s = Some s' \<and>
    all_reap {now} a a' \<and> server_ok N s' a' \<and> vals (a_open i a') k = None"
  using assms
proof (induction "i - j" arbitrary: j s a)
  case 0
  then have j: "j = i" by simp
  from expire_cycle_reaches [OF server_okD(2) [OF 0(2,4)] 0(5)] obtain nows rss db as where
    c: "set nows \<subseteq> {now}" "expire_cycle nows rss (open_db i s) = Some db" "db_ok N db as" "reaps {now} (a_open i a) as"
      "vals as k = None" by blast
  let ?a1 = "a_close i as a"
  have s1: "server_ok N (close_db i db s) ?a1" by (rule server_close [OF 0(2) c(3) le_refl])
  have i: "i < length (dbs a)" using 0(4) server_okD(1) [OF 0(2)] by simp
  from expire_dbs_ends [OF s1, of now "Suc i"] obtain work s' where
    w: "\<forall>w \<in> set work. set (fst w) \<subseteq> {now}" "expire_dbs (Suc i) work (close_db i db s) = Some s'" by blast
  from expire_dbs_ok [OF s1 w(2)] obtain a' where
    a': "all_reap (\<Union>(nows, rss) \<in> set work. set nows) ?a1 a'" "server_ok N s' a'" by blast
  have r: "all_reap {now} ?a1 a'" by (rule all_reap_mono [OF a'(1)]) (use w(1) in fastforce)
  have "all_reap {now} a a'" by (rule all_reap.intros(2) [OF i c(4) r])
  moreover have "vals (a_open i a') k = None" by (rule all_reap_keeps_gone [OF r]) (use i c(5) in simp)
  ultimately show ?case
    using j c(1,2) w a'(2) 0(4) by (intro exI [of _ "(nows, rss) # work"] exI [of _ s'] exI [of _ a']) auto
next
  case (Suc n)
  then have j: "j < i" "j < dbnum s" by simp_all
  from expire_cycle_ends [OF server_okD(2) [OF Suc(3) j(2)], of now] obtain nows rss db where
    c: "set nows \<subseteq> {now}" "expire_cycle nows rss (open_db j s) = Some db" by blast
  from expire_cycle_ok [OF server_okD(2) [OF Suc(3) j(2)] c(2)] obtain as where
    as: "reaps (set nows) (a_open j a) as" "db_ok N db as" by blast
  let ?a1 = "a_close j as a"
  have s1: "server_ok N (close_db j db s) ?a1" by (rule server_close [OF Suc(3) as(2) le_refl])
  have "overdue now (a_open i ?a1) k" using Suc(6) j(1) by (simp add: overdue_def a_open_def a_close_def)
  from Suc(1) [OF diff_Suc_eq [OF Suc(2)] s1 _ _ this] Suc(5) j(1) obtain work s' a' where
    w: "\<forall>w \<in> set work. set (fst w) \<subseteq> {now}" "expire_dbs (Suc j) work (close_db j db s) = Some s'"
      "all_reap {now} ?a1 a'" "server_ok N s' a'" "vals (a_open i a') k = None" by auto
  have "all_reap {now} a a'"
    by (rule all_reap.intros(2) [OF _ reaps_mono [OF as(1) c(1)] w(3)]) (use j(2) server_okD(1) [OF Suc(3)] in simp)
  then show ?case
    using j(2) c w by (intro exI [of _ "(nows, rss) # work"] exI [of _ s'] exI [of _ a']) auto
qed

text \<open>C12: Whatever the timer does first, there is a course of its expiration loop, with random numbers and
  the clock at \<open>now\<close>, in which it ends, removes keys that are due only, and removes a given one.\<close>

theorem timer_reaches_due_key:
  assumes "server_ok N s a" "N < 2 ^ 29" "i < dbnum s" "overdue now (a_open i a) k"
  shows "\<exists>work s' a'. cron_times (c\<lparr>expire_work := work\<rparr>) \<subseteq> {now} \<and> serverCron cr (c\<lparr>expire_work := work\<rparr>) s = Some s' \<and>
    all_reap {now} a a' \<and> server_ok N s' a' \<and> vals (a_open i a') k = None"
proof -
  obtain s1 where s1: "(if saving_child c then Some s else if activerehashing c
      then incrementallyRehash (rehash_start c) (rehash_clock c) (if loops c mod 10 = 0 then tryResizeHashTables cr s else s)
      else Some (if loops c mod 10 = 0 then tryResizeHashTables cr s else s)) = Some s1" "server_ok N s1 a" "dbnum s1 = dbnum s"
    using cron_start [OF assms(1,2)] server_okD(1) [OF assms(1)] server_okD(1) by metis
  from expire_dbs_reaches [OF s1(2), of 0 i now k] assms(3,4) s1(3) obtain work s' a' where
    w: "\<forall>w \<in> set work. set (fst w) \<subseteq> {now}" "expire_dbs 0 work s1 = Some s'" "all_reap {now} a a'" "server_ok N s' a'"
      "vals (a_open i a') k = None" by auto
  have "serverCron cr (c\<lparr>expire_work := work\<rparr>) s = Some s'"
    unfolding serverCron_expire_work s1(1) using w(2) by simp
  moreover have "cron_times (c\<lparr>expire_work := work\<rparr>) \<subseteq> {now}" using w(1) by (fastforce simp: cron_times_def)
  ultimately show ?thesis using w(3-5) by blast
qed

text \<open>The timer runs after the deadline of a key set with \<open>SETEX\<close>.\<close>

definition idle_timer :: cron where
  "idle_timer = \<lparr>loops = 0, saving_child = False, activerehashing = True, rehash_start = 0, rehash_clock = [], expire_work = []\<rparr>"

theorem timer_reaches_due_key_witness:
  "\<exists>s s' a' work. sexec sample_kenv 5 (OnDb (CSet False [97] (Raw [98]) (Some 10))) 0 (initServer 1) = Some (Some KOk, 0, s) \<and>
     serverCron True (idle_timer\<lparr>expire_work := work\<rparr>) s = Some s' \<and> cron_times (idle_timer\<lparr>expire_work := work\<rparr>) \<subseteq> {16} \<and>
     server_ok 2 s' a' \<and> vals (a_open 0 a') [97] = None"
proof -
  let ?c = "OnDb (CSet False [97] (Raw [98]) (Some 10)) :: int scmd"
  have "sstep_ok sample_kenv 5 0 ?c 0 (initServer 1) (a_empty 1)"
    by (rule sexec_ok [OF initServer_ok _ sample_kenv_ok]) (simp_all add: initServer_def dbnum_def sobj_ok_def starved_def)
  then obtain r j s a where s: "sexec sample_kenv 5 ?c 0 (initServer 1) = Some (r, j, s)" "j < dbnum s"
    "sspec (plus_of (zset_env sample_kenv)) 5 ?c 0 (a_empty 1) r j a" "server_ok (0 + scost ?c) s a"
    unfolding sstep_ok_def by blast
  have o: "server_ok 2 s a" using s(4) by (simp add: numeral_2_eq_2)
  have a: "j = 0" "r = Some KOk" "overdue 16 (a_open 0 a) [97]"
    using s(3) by (auto simp: a_set_def Let_def overdue_def a_open_def a_close_def a_empty_def)
  have d: "0 < dbnum s" "(2 :: nat) < 2 ^ 29" using s(2) by simp_all
  from timer_reaches_due_key [OF o d(2,1) a(3), of idle_timer True] s(1) a(1,2) show ?thesis by blast
qed

section \<open>Reading a key with a deadline\<close>

text \<open>C15: \<open>SETEX\<close> and a later \<open>GET\<close>: the key is read up to its deadline, and not after it.\<close>

theorem setex_then_get:
  assumes "db_ok N db as" "sobj_ok val" "N + (1 + length (text_of val)) < 2 ^ 29" "0 < secs" "is_long (now + secs)"
  shows "\<exists>db1. kexec env now (CSet False k val (Some secs)) db = Some (KOk, db1) \<and>
    (\<forall>later. \<exists>db2. kexec env later (CGet k) db1 = Some (if now + secs < later then KNull else KBulk (text_of val), db2))"
proof -
  let ?c = "CSet False k val (Some secs)"
  from cset_ok [OF assms(1,2), of False k "Some secs" env now] assms(3) obtain r db1 as1 where
    c: "kexec env now ?c db = Some (r, db1)" "(r, as1) = a_set now False k (text_of val) (Some secs) as"
      "db_ok (N + (1 + length (text_of val))) db1 as1" by (auto simp: kstep_ok_def)
  have w: "signed_take_bit 63 (now + secs) = now + secs"
    using assms(5) by (intro signed_take_bit_int_eq_self) (simp_all add: is_long_def)
  have a: "r = KOk" "vals as1 k = Some (AString (text_of val))" "deadline as1 k = Some (now + secs)"
    using c(2) assms(4) w by (auto simp: a_set_def Let_def)
  have "\<exists>db2. kexec env later (CGet k) db1 = Some (if now + secs < later then KNull else KBulk (text_of val), db2)" for later
  proof -
    from cget_ok [OF c(3), of env later k] obtain db2 where
      g: "kexec env later (CGet k) db1 = Some (read_reply (vals (a_expire later k as1) k), db2)" by (auto simp: kstep_ok_def)
    have "read_reply (vals (a_expire later k as1) k) = (if now + secs < later then KNull else KBulk (text_of val))"
      using a(2,3) by (simp add: a_expire_def overdue_def read_reply_def)
    with g show ?thesis by simp
  qed
  with c(1) a(1) show ?thesis by blast
qed

lemma empty_db_ok: "db_ok N (open_db 0 (initServer 1)) (a_open 0 (a_empty 1))"
  by (rule server_okD(2) [OF initServer_ok]) (simp add: initServer_def dbnum_def)

theorem setex_then_get_witness:
  "\<exists>db1. kexec sample_kenv 100 (CSet False [97] (Raw [98]) (Some 10)) (open_db 0 (initServer 1)) = Some (KOk, db1) \<and>
     (\<exists>db2. kexec sample_kenv 110 (CGet [97]) db1 = Some (KBulk [98], db2)) \<and>
     (\<exists>db2. kexec sample_kenv 111 (CGet [97]) db1 = Some (KNull, db2))"
proof -
  have "sobj_ok (Raw [98])" "(0 :: nat) + (1 + length (text_of (Raw [98]))) < 2 ^ 29" "0 < (10 :: int)" "is_long (100 + 10)"
    by (simp_all add: sobj_ok_def is_long_def)
  from setex_then_get [OF empty_db_ok this, of sample_kenv "[97]"] obtain db1 where
    c: "kexec sample_kenv 100 (CSet False [97] (Raw [98]) (Some 10)) (open_db 0 (initServer 1)) = Some (KOk, db1)"
      "\<forall>later. \<exists>db2. kexec sample_kenv later (CGet [97]) db1 = Some (if 100 + 10 < later then KNull else KBulk (text_of (Raw [98])), db2)"
    by blast
  from c(1) c(2) [rule_format, of 110] c(2) [rule_format, of 111] show ?thesis by simp
qed

section \<open>Divergences\<close>

text \<open>The sum of the clock and the seconds is not checked: a deadline far in the future becomes one in the
  past, and the key is gone at the next read.\<close>

theorem setex_far_future_expires_at_once:
  assumes "db_ok N db as" "sobj_ok val" "N + (1 + length (text_of val)) < 2 ^ 29"
    "0 \<le> now" "secs < 2 ^ 63" "2 ^ 63 \<le> now + secs" "now < 2 ^ 63"
  shows "\<exists>db1 db2. kexec env now (CSet False k val (Some secs)) db = Some (KOk, db1) \<and>
    kexec env now (CGet k) db1 = Some (KNull, db2)"
proof -
  let ?c = "CSet False k val (Some secs)"
  from cset_ok [OF assms(1,2), of False k "Some secs" env now] assms(3) obtain r db1 as1 where
    c: "kexec env now ?c db = Some (r, db1)" "(r, as1) = a_set now False k (text_of val) (Some secs) as"
      "db_ok (N + (1 + length (text_of val))) db1 as1" by (auto simp: kstep_ok_def)
  have "signed_take_bit 63 (now + secs) = signed_take_bit 63 (now + secs - 2 ^ 64)"
    by (rule signed_take_bit_eq_iff_take_bit_eq [THEN iffD2]) (simp add: take_bit_eq_mod mod_diff_eq [of _ _ "2 ^ 64", symmetric])
  also have "\<dots> = now + secs - 2 ^ 64" by (rule signed_take_bit_int_eq_self) (use assms(5-7) in simp_all)
  finally have w: "signed_take_bit 63 (now + secs) = now + secs - 2 ^ 64" .
  have "0 < secs" using assms(6,7) by simp
  then have a: "r = KOk" "deadline as1 k = Some (now + secs - 2 ^ 64)"
    using c(2) w by (auto simp: a_set_def Let_def)
  from cget_ok [OF c(3), of env now k] obtain db2 where
    "kexec env now (CGet k) db1 = Some (read_reply (vals (a_expire now k as1) k), db2)" by (auto simp: kstep_ok_def)
  moreover have "vals (a_expire now k as1) k = None" using a(2) assms(5) by (simp add: a_expire_def overdue_def)
  ultimately show ?thesis using c(1) a(1) by (auto simp: read_reply_def)
qed

text \<open>\<open>TTL\<close> computes the seconds left as an \<open>int\<close>: a deadline more than 68 years away is reported as none.\<close>

theorem ttl_far_future_reported_as_none:
  assumes "db_ok N db as" "deadline as k = Some t" "2 ^ 31 \<le> t - now" "t - now < 2 ^ 32"
  shows "\<exists>db'. kexec env now (CTtl k) db = Some (KInt (- 1), db')"
proof -
  have "signed_take_bit 31 (t - now) = signed_take_bit 31 (t - now - 2 ^ 32)"
    by (rule signed_take_bit_eq_iff_take_bit_eq [THEN iffD2]) (simp add: take_bit_eq_mod)
  also have "\<dots> = t - now - 2 ^ 32" by (rule signed_take_bit_int_eq_self) (use assms(3,4) in simp_all)
  finally have "ttl_of now (deadline as k) = - 1" using assms(2,4) by (simp add: ttl_of_def Let_def)
  then show ?thesis using cttl_ok [OF assms(1), of env now k] by (auto simp: kstep_ok_def)
qed

text \<open>\<open>INCR\<close> does not check for overflow.\<close>

theorem incr_wraps_around:
  assumes "db_ok N db as" "N + 21 < 2 ^ 29" "deadline as k = None" "vals as k = Some (AString (dec_text (2 ^ 63 - 1)))"
  shows "\<exists>db'. kexec env now (CIncrBy k 1) db = Some (KInt (- (2 ^ 63)), db')"
proof -
  have "number_of (dec_text (2 ^ 63 - 1)) = Some (2 ^ 63 - 1)" by (rule number_of_dec_text) (simp add: is_long_def)
  moreover have "signed_take_bit 63 (2 ^ 63 - 1 + 1 :: int) = - (2 ^ 63)" by (simp add: signed_take_bit_eq_if_negative)
  ultimately have "fst (a_incr k 1 as) = KInt (- (2 ^ 63))" using assms(3,4) by (simp add: a_incr_def a_volatile_def Let_def)
  moreover obtain r db' as' where "kexec env now (CIncrBy k 1) db = Some (r, db')" "(r, as') = a_incr k 1 as"
    using cincr_ok [OF assms(1), of k 1 env now] assms(2) by (auto simp: kstep_ok_def)
  ultimately show ?thesis by (metis fst_conv)
qed

end
