(* ===== verification/Wire.thy ===== *)
theory Wire
  imports Client_Spec Expiry
begin

text \<open>
  The bodies of the commands as the command table calls them (\<open>apps/redis-2.0.4/redis.c\<close>): the arguments
  of a request become a command on the databases (theory \<open>Server\<close>), its answer becomes the bytes of the
  reply. Modelled are the commands on strings, on keys of any type and on hashes, \<open>SELECT\<close>, \<open>MOVE\<close>,
  \<open>PING\<close> and \<open>ECHO\<close>; any other command is \<open>None\<close> here. The replies of sorted sets, which are not
  reached, print floating point numbers with the C library and are an argument.
\<close>

section \<open>Replies\<close>

definition reply_line :: "string \<Rightarrow> bytes" where "reply_line s = ascii s @ crlf"

definition reply_int :: "int \<Rightarrow> bytes" where "reply_int v = ascii '':'' @ dec_text v @ crlf"

definition reply_bulk :: "bytes \<Rightarrow> bytes" where
  "reply_bulk t = ascii ''$'' @ dec_text (int (length t)) @ crlf @ t @ crlf"

definition reply_null :: bytes where "reply_null = reply_line ''$-1''"

definition reply_multi :: "bytes option list \<Rightarrow> bytes" where
  "reply_multi ts = ascii ''*'' @ dec_text (int (length ts)) @ crlf
     @ concat (map (\<lambda>t. case t of None \<Rightarrow> reply_null | Some t \<Rightarrow> reply_bulk t) ts)"

definition not_an_integer :: bytes where "not_an_integer = reply_line ''-ERR value is not an integer''"

definition wrong_type :: bytes where
  "wrong_type = reply_line ''-ERR Operation against a key holding the wrong kind of value''"

fun hreply_bytes :: "hreply \<Rightarrow> bytes" where
  "hreply_bytes HWrongType = wrong_type"
| "hreply_bytes HArity = reply_line ''-ERR wrong number of arguments for HMSET''"
| "hreply_bytes HNotInteger = reply_line ''-ERR hash value is not an integer''"
| "hreply_bytes HZero = reply_line '':0''"
| "hreply_bytes HOne = reply_line '':1''"
| "hreply_bytes HOk = reply_line ''+OK''"
| "hreply_bytes HNull = reply_null"
| "hreply_bytes HEmptyMultibulk = reply_line ''*0''"
| "hreply_bytes (HInt v) = reply_int v"
| "hreply_bytes (HBulk t) = reply_bulk t"
| "hreply_bytes (HMulti ts) = reply_multi ts"

fun reply_bytes :: "('s zreply \<Rightarrow> bytes) \<Rightarrow> 's kreply \<Rightarrow> bytes" where
  "reply_bytes pz KOk = reply_line ''+OK''"
| "reply_bytes pz KZero = reply_line '':0''"
| "reply_bytes pz KOne = reply_line '':1''"
| "reply_bytes pz KNull = reply_null"
| "reply_bytes pz KWrongType = wrong_type"
| "reply_bytes pz KNoKey = reply_line ''-ERR no such key''"
| "reply_bytes pz KSameObject = reply_line ''-ERR source and destination objects are the same''"
| "reply_bytes pz KOutOfRange = reply_line ''-ERR index out of range''"
| "reply_bytes pz KArity = reply_line ''-ERR wrong number of arguments for MSET''"
| "reply_bytes pz KBadExpire = reply_line ''-ERR invalid expire time in SETEX''"
| "reply_bytes pz KNotInteger = not_an_integer"
| "reply_bytes pz KBadIndex = reply_line ''-ERR invalid DB index''"
| "reply_bytes pz (KInt v) = reply_int v"
| "reply_bytes pz (KBulk t) = reply_bulk t"
| "reply_bytes pz (KMulti ts) = reply_multi ts"
| "reply_bytes pz (KTypeName t) = ascii ''+'' @ t @ crlf"
| "reply_bytes pz (KHash r) = hreply_bytes r"
| "reply_bytes pz (KZset r) = pz r"

section \<open>Arguments\<close>

text \<open>An argument, its text where the code takes \<open>ptr\<close> for an sds, and its number: not a number is a
  reply at once. \<open>Inl\<close> is such a reply, \<open>Inr\<close> a command.\<close>

type_synonym 's action = "(bytes + 's scmd) option"

definition arg_object :: "sobj list \<Rightarrow> nat \<Rightarrow> sobj option" where
  "arg_object args i = (if i < length args then Some (args ! i) else None)"

fun raw_text :: "sobj \<Rightarrow> bytes option" where
  "raw_text (Raw t) = Some t"
| "raw_text (Enc v) = None"

definition arg_text :: "sobj list \<Rightarrow> nat \<Rightarrow> bytes option" where
  "arg_text args i = Option.bind (arg_object args i) raw_text"

definition arg_atoi :: "sobj list \<Rightarrow> nat \<Rightarrow> int option" where
  "arg_atoi args i = do { t \<leftarrow> arg_text args i; atoi (t @ [0]) }"

definition with_number :: "sobj list \<Rightarrow> nat \<Rightarrow> (int \<Rightarrow> 's scmd) \<Rightarrow> 's action" where
  "with_number args i f = do {
     ob \<leftarrow> arg_object args i;
     v \<leftarrow> getLongLongFromObject (Some ob);
     Some (case v of None \<Rightarrow> Inl not_an_integer | Some v \<Rightarrow> Inr (f v)) }"

definition act_set :: "bool \<Rightarrow> sobj list \<Rightarrow> 's action" where
  "act_set fresh args = do { k \<leftarrow> arg_text args 1; v \<leftarrow> arg_object args 2; Some (Inr (OnDb (CSet fresh k v None))) }"

definition act_setex :: "sobj list \<Rightarrow> 's action" where
  "act_setex args = do {
     k \<leftarrow> arg_text args 1;
     v \<leftarrow> arg_object args 3;
     with_number args 2 (\<lambda>seconds. OnDb (CSet False k v (Some seconds))) }"

definition act_get :: "sobj list \<Rightarrow> 's action" where
  "act_get args = do { k \<leftarrow> arg_text args 1; Some (Inr (OnDb (CGet k))) }"

definition act_getset :: "sobj list \<Rightarrow> 's action" where
  "act_getset args = do { k \<leftarrow> arg_text args 1; v \<leftarrow> arg_object args 2; Some (Inr (OnDb (CGetSet k v))) }"

definition act_mget :: "sobj list \<Rightarrow> 's action" where
  "act_mget args = do { ks \<leftarrow> those (map raw_text (tl args)); Some (Inr (OnDb (CMGet ks))) }"

definition act_mset :: "bool \<Rightarrow> sobj list \<Rightarrow> 's action" where
  "act_mset fresh args = Some (Inr (OnDb (CMSet fresh (map text_of (tl args)))))"

definition act_incr :: "int \<Rightarrow> sobj list \<Rightarrow> 's action" where
  "act_incr i args = do { k \<leftarrow> arg_text args 1; Some (Inr (OnDb (CIncrBy k i))) }"

definition act_incrby :: "sobj list \<Rightarrow> 's action" where
  "act_incrby args = do { k \<leftarrow> arg_text args 1; with_number args 2 (\<lambda>i. OnDb (CIncrBy k i)) }"

definition act_decrby :: "sobj list \<Rightarrow> 's action" where
  "act_decrby args = do { k \<leftarrow> arg_text args 1; with_number args 2 (\<lambda>i. OnDb (CIncrBy k (signed_take_bit 63 (- i)))) }"

definition act_append :: "bool \<Rightarrow> sobj list \<Rightarrow> 's action" where
  "act_append shared args = do { k \<leftarrow> arg_text args 1; v \<leftarrow> arg_object args 2; Some (Inr (OnDb (CAppend shared k v))) }"

definition act_substr :: "sobj list \<Rightarrow> 's action" where
  "act_substr args = do {
     k \<leftarrow> arg_text args 1; a \<leftarrow> arg_atoi args 2; b \<leftarrow> arg_atoi args 3;
     Some (Inr (OnDb (CSubstr k a b))) }"

definition act_del :: "sobj list \<Rightarrow> 's action" where
  "act_del args = do { ks \<leftarrow> those (map raw_text (tl args)); Some (Inr (OnDb (CDel ks))) }"

definition act_key :: "(bytes \<Rightarrow> 's kcmd) \<Rightarrow> sobj list \<Rightarrow> 's action" where
  "act_key f args = do { k \<leftarrow> arg_text args 1; Some (Inr (OnDb (f k))) }"

definition act_expire :: "int \<Rightarrow> sobj list \<Rightarrow> 's action" where
  "act_expire offset args = do { k \<leftarrow> arg_text args 1; with_number args 2 (\<lambda>p. OnDb (CExpire k p offset)) }"

definition act_rename :: "bool \<Rightarrow> sobj list \<Rightarrow> 's action" where
  "act_rename fresh args = do { a \<leftarrow> arg_text args 1; b \<leftarrow> arg_text args 2; Some (Inr (OnDb (CRename fresh a b))) }"

definition act_select :: "sobj list \<Rightarrow> 's action" where
  "act_select args = do { i \<leftarrow> arg_atoi args 1; Some (Inr (SSelect i)) }"

definition act_move :: "sobj list \<Rightarrow> 's action" where
  "act_move args = do { k \<leftarrow> arg_text args 1; i \<leftarrow> arg_atoi args 2; Some (Inr (SMove k i)) }"

definition act_echo :: "sobj list \<Rightarrow> 's action" where
  "act_echo args = do { v \<leftarrow> arg_object args 1; t \<leftarrow> getDecodedObject v; Some (Inl (reply_bulk t)) }"

text \<open>Hash commands.\<close>

definition act_hash :: "sobj list \<Rightarrow> hcmd \<Rightarrow> 's action" where
  "act_hash args c = do { k \<leftarrow> arg_text args 1; Some (Inr (OnDb (CHash k c))) }"

definition act_hset :: "bool \<Rightarrow> sobj list \<Rightarrow> 's action" where
  "act_hset fresh args = do {
     f \<leftarrow> arg_object args 2; v \<leftarrow> arg_object args 3;
     act_hash args (if fresh then HSetNx f v else HSet f v) }"

definition act_hincrby :: "sobj list \<Rightarrow> 's action" where
  "act_hincrby args = do {
     k \<leftarrow> arg_text args 1; f \<leftarrow> arg_object args 2;
     with_number args 3 (\<lambda>i. OnDb (CHash k (HIncrBy f i))) }"

definition act_field :: "(sobj \<Rightarrow> hcmd) \<Rightarrow> sobj list \<Rightarrow> 's action" where
  "act_field c args = do { f \<leftarrow> arg_object args 2; act_hash args (c f) }"

text \<open>The function pointers of the command table. \<open>now\<close> is the time, \<open>shared\<close> whether a reply still refers to
  the value at the key.\<close>

definition proc_table :: "int \<Rightarrow> bool \<Rightarrow> (string \<times> (sobj list \<Rightarrow> 's action)) list" where
  "proc_table now shared = [
     (''getCommand'', act_get), (''setCommand'', act_set False), (''setnxCommand'', act_set True), (''setexCommand'', act_setex),
     (''appendCommand'', act_append shared), (''substrCommand'', act_substr), (''delCommand'', act_del),
     (''existsCommand'', act_key CExists), (''incrCommand'', act_incr 1), (''decrCommand'', act_incr (- 1)),
     (''mgetCommand'', act_mget), (''incrbyCommand'', act_incrby), (''decrbyCommand'', act_decrby), (''getsetCommand'', act_getset),
     (''msetCommand'', act_mset False), (''msetnxCommand'', act_mset True), (''selectCommand'', act_select), (''moveCommand'', act_move),
     (''renameCommand'', act_rename False), (''renamenxCommand'', act_rename True), (''expireCommand'', act_expire 0),
     (''expireatCommand'', act_expire now), (''dbsizeCommand'', \<lambda>_. Some (Inr (OnDb CDbSize))),
     (''pingCommand'', \<lambda>_. Some (Inl (reply_line ''+PONG''))), (''echoCommand'', act_echo), (''typeCommand'', act_key CType),
     (''flushdbCommand'', \<lambda>_. Some (Inr (OnDb CFlushDb))), (''ttlCommand'', act_key CTtl),
     (''hsetCommand'', act_hset False), (''hsetnxCommand'', act_hset True), (''hgetCommand'', act_field HGet),
     (''hmsetCommand'', \<lambda>args. act_hash args (HMSet (drop 2 args))), (''hmgetCommand'', \<lambda>args. act_hash args (HMGet (drop 2 args))),
     (''hincrbyCommand'', act_hincrby), (''hdelCommand'', act_field HDel), (''hlenCommand'', \<lambda>args. act_hash args HLen),
     (''hkeysCommand'', \<lambda>args. act_hash args (HGetAll True False)), (''hvalsCommand'', \<lambda>args. act_hash args (HGetAll False True)),
     (''hgetallCommand'', \<lambda>args. act_hash args (HGetAll True True)), (''hexistsCommand'', act_field HExists)]"

definition action_of :: "int \<Rightarrow> bool \<Rightarrow> string \<Rightarrow> sobj list \<Rightarrow> 's action" where
  "action_of now shared p args = Option.bind (map_of (proc_table now shared) p) (\<lambda>f. f args)"

section \<open>The server as the environment of a client\<close>

text \<open>The databases, the one the client has selected, and the number of commands so far, which tells the time.\<close>

record 's world =
  ticks :: nat
  db_index :: nat
  databases :: "'s rvalue server"

record 's wenv =
  key_env :: "'s kenv"
  clock :: "nat \<Rightarrow> int"
  shared_at :: "nat \<Rightarrow> bool"
  zreply_bytes :: "'s zreply \<Rightarrow> bytes"

definition keyspace_proc ::
  "'s::{linorder, zero} wenv \<Rightarrow> string \<Rightarrow> sobj list \<Rightarrow> nat \<times> bool \<times> 's world \<Rightarrow> (bytes list \<times> nat \<times> bool \<times> 's world) option"
where
  "keyspace_proc W p args x =
     (let (subs, blk, w) = x; t = ticks w; w1 = w\<lparr>ticks := t + 1\<rparr> in do {
        act \<leftarrow> action_of (clock W t) (shared_at W t) p args;
        case act of
          Inl msg \<Rightarrow> Some ([msg], subs, blk, w1)
        | Inr c \<Rightarrow> do {
            (r, i, s) \<leftarrow> sexec (key_env W) (clock W t) c (db_index w) (databases w);
            Some (case r of None \<Rightarrow> [] | Some r \<Rightarrow> [reply_bytes (zreply_bytes W) r], subs, blk, w1\<lparr>db_index := i, databases := s\<rparr>) } })"

definition keyspace_senv :: "'s::{linorder, zero} wenv \<Rightarrow> 's world senv" where
  "keyspace_senv W = \<lparr>requirepass = None, maxmemory = 0, used_memory = (\<lambda>_. 0), freeMemoryIfNeeded = (\<lambda>w. w),
     dirty_incr = (\<lambda>w. w\<lparr>databases := (databases w)\<lparr>dirty_count := dirty_count (databases w) + 1\<rparr>\<rparr>),
     command_proc = keyspace_proc W\<rparr>"

definition start_world :: "nat \<Rightarrow> 's world" where
  "start_world n = \<lparr>ticks = 0, db_index = 0, databases = initServer n\<rparr>"

end
