(* ===== verification/Wire_Spec.thy ===== *)
theory Wire_Spec
  imports Wire
begin

text \<open>
  From the bytes of the requests to the bytes of the replies: a server reached through a connection
  answers as maps from keys to values and deadlines do.
\<close>

section \<open>What requests mean\<close>

text \<open>Whether a request reaches the body of a command, and what it means at time \<open>t\<close>: a reply at once, or a
  command on the databases.\<close>

definition executes :: "bytes list \<Rightarrow> bool" where
  "executes r \<longleftrightarrow>
     (case lookupCommand (hd r) of
        None \<Rightarrow> False
      | Some cmd \<Rightarrow> \<not> ((arity cmd > 0 \<and> arity cmd \<noteq> int (length r)) \<or> int (length r) < - arity cmd))"

definition meaning :: "'s wenv \<Rightarrow> nat \<Rightarrow> bytes list \<Rightarrow> 's action" where
  "meaning W t r =
     (case lookupCommand (hd r) of
        None \<Rightarrow> Some (Inl (ascii ''-ERR unknown command '' @ [39] @ c_string (hd r) @ [39] @ crlf))
      | Some cmd \<Rightarrow>
          if executes r then action_of (clock W t) (shared_at W t) (proc cmd) (objs_of cmd r)
          else Some (Inl (ascii ''-ERR wrong number of arguments for '' @ [39] @ ascii (cname cmd) @ [39] @ ascii '' command'' @ crlf)))"

fun meanings :: "'s wenv \<Rightarrow> nat \<Rightarrow> bytes list list \<Rightarrow> (int \<times> (bytes + 's scmd)) list option" where
  "meanings W t [] = Some []"
| "meanings W t (r # rs) = do {
     m \<leftarrow> meaning W t r;
     ms \<leftarrow> meanings W (if executes r then t + 1 else t) rs;
     Some ((clock W t, m) # ms) }"

fun commands_of :: "(int \<times> (bytes + 's scmd)) list \<Rightarrow> (int \<times> 's scmd) list" where
  "commands_of [] = []"
| "commands_of ((t, Inl msg) # ms) = commands_of ms"
| "commands_of ((t, Inr c) # ms) = (t, c) # commands_of ms"

text \<open>The replies, given the answers of the commands.\<close>

fun replies_of :: "'s wenv \<Rightarrow> (int \<times> (bytes + 's scmd)) list \<Rightarrow> 's kreply option list \<Rightarrow> bytes list" where
  "replies_of W ((t, Inl msg) # ms) rs = msg # replies_of W ms rs"
| "replies_of W ((t, Inr c) # ms) (r # rs) =
     (case r of None \<Rightarrow> [] | Some r \<Rightarrow> [reply_bytes (zreply_bytes W) r]) @ replies_of W ms rs"
| "replies_of W _ _ = []"

section \<open>The commands are as the databases want them\<close>

definition action_ok :: "'s action \<Rightarrow> bool" where
  "action_ok a \<longleftrightarrow> (\<forall>c. a = Some (Inr c) \<longrightarrow> scmd_ok c \<and> settled c)"

lemma arg_object_ok: "list_all sobj_ok args \<Longrightarrow> arg_object args i = Some ob \<Longrightarrow> sobj_ok ob"
  by (auto simp: arg_object_def list_all_length split: if_splits)

lemma arg_text_ok: "list_all sobj_ok args \<Longrightarrow> arg_text args i = Some t \<Longrightarrow> length t < 2 ^ 31"
  by (auto simp: arg_text_def dest!: arg_object_ok elim!: raw_text.elims split: bind_splits)

lemma with_number_ok:
  assumes "\<And>v. is_long v \<Longrightarrow> scmd_ok (f v) \<and> settled (f v)" "list_all sobj_ok args"
  shows "action_ok (with_number args i f)"
proof -
  have "is_long v" if "arg_object args i = Some ob" "getLongLongFromObject (Some ob) = Some (Some v)" for ob v
    using getLongLongFromObject_ok [of "Some ob"] arg_object_ok [OF assms(2) that(1)] that(2) by auto
  then show ?thesis using assms(1) by (auto simp: action_ok_def with_number_def split: bind_splits option.splits)
qed

lemma action_ok_bind: "(\<And>x. m = Some x \<Longrightarrow> action_ok (f x)) \<Longrightarrow> action_ok (Option.bind m f)"
  by (cases m) (simp_all add: action_ok_def)

lemma action_ok_simps [simp]:
  "action_ok None" "action_ok (Some (Inl m))" "action_ok (Some (Inr c)) \<longleftrightarrow> scmd_ok c \<and> settled c"
  by (simp_all add: action_ok_def)

lemma act_hash_ok: "hcmd_ok c \<Longrightarrow> action_ok (act_hash args c)"
  by (auto simp: act_hash_def intro!: action_ok_bind)

lemma acts_ok:
  assumes "list_all sobj_ok args"
  shows "action_ok (act_set fresh args)" "action_ok (act_setex args)" "action_ok (act_get args)" "action_ok (act_getset args)"
    "action_ok (act_mget args)" "action_ok (act_mset fresh args)" "action_ok (act_incr i args)" "action_ok (act_incrby args)"
    "action_ok (act_decrby args)" "action_ok (act_append fresh args)" "action_ok (act_substr args)" "action_ok (act_del args)"
    "action_ok (act_expire i args)" "action_ok (act_rename fresh args)" "action_ok (act_select args)" "action_ok (act_move args)"
    "action_ok (act_echo args)" "action_ok (act_hset fresh args)" "action_ok (act_hincrby args)"
  using arg_object_ok [OF assms] arg_text_ok [OF assms]
  by (auto simp: act_set_def act_setex_def act_get_def act_getset_def act_mget_def act_mset_def act_incr_def act_incrby_def
      act_decrby_def act_append_def act_substr_def act_del_def act_expire_def act_rename_def act_select_def act_move_def
      act_echo_def act_hset_def act_hincrby_def intro!: action_ok_bind with_number_ok [OF _ assms] act_hash_ok)

lemma act_key_ok: "(\<And>k. kcmd_ok (f k) \<and> settled (OnDb (f k))) \<Longrightarrow> action_ok (act_key f args)"
  by (auto simp: act_key_def intro!: action_ok_bind)

lemma act_field_ok: "list_all sobj_ok args \<Longrightarrow> (\<And>f. sobj_ok f \<Longrightarrow> hcmd_ok (c f)) \<Longrightarrow> action_ok (act_field c args)"
  by (auto simp: act_field_def intro!: action_ok_bind act_hash_ok dest: arg_object_ok)

lemma action_of_ok:
  assumes "list_all sobj_ok args" "p = ''hmsetCommand'' \<longrightarrow> 2 < length args"
  shows "action_ok (action_of now shared p args)"
proof -
  have d: "list_all sobj_ok (drop 2 args)" using assms(1) set_drop_subset [of 2 args] by (auto simp: list_all_iff)
  have "list_all (\<lambda>(q, f). (q = ''hmsetCommand'' \<longrightarrow> 2 < length args) \<longrightarrow> action_ok (f args)) (proc_table now shared)"
    using assms(1) d by (simp add: proc_table_def acts_ok act_key_ok act_field_ok act_hash_ok list_all_iff)
  then show ?thesis
    using assms(2) by (auto simp: action_of_def list_all_iff intro!: action_ok_bind dest!: map_of_SomeD)
qed

lemma objs_of_ok: "request_ok r \<Longrightarrow> list_all sobj_ok (objs_of cmd r)"
proof -
  assume r: "request_ok r"
  then have l: "length a < 2 ^ 31" if "a \<in> set r" for a using that by (auto simp: request_ok_def max_bulk_def)
  have "r \<noteq> []" using r by (simp add: request_ok_def)
  then have "sobj_ok (Raw (last r))" using l by simp
  from tryObjectEncoding_text [OF this, of 1] have "sobj_ok (the (tryObjectEncoding 1 (Raw (last r))))" by auto
  then show ?thesis using l in_set_butlastD by (fastforce simp: objs_of_def list_all_iff)
qed

lemma length_objs_of: "r \<noteq> [] \<Longrightarrow> length (objs_of cmd r) = length r"
  by (simp add: objs_of_def)

lemma hmset_arity: "cmd \<in> set cmdTable \<Longrightarrow> proc cmd = ''hmsetCommand'' \<Longrightarrow> arity cmd = - 4"
proof -
  have "list_all (\<lambda>cmd. proc cmd = ''hmsetCommand'' \<longrightarrow> arity cmd = - 4) cmdTable" by (simp add: cmdTable_def entry_def)
  then show "cmd \<in> set cmdTable \<Longrightarrow> proc cmd = ''hmsetCommand'' \<Longrightarrow> arity cmd = - 4" by (simp add: list_all_iff)
qed

lemma meaning_ok:
  fixes W :: "'s wenv"
  assumes "request_ok r"
  shows "action_ok (meaning W t r)"
proof (cases "lookupCommand (hd r)")
  case (Some cmd)
  have "proc cmd = ''hmsetCommand'' \<longrightarrow> 2 < length (objs_of cmd r)" if "executes r"
    using that Some hmset_arity [OF lookupCommand_table [OF Some]] assms length_objs_of [of r cmd]
    by (auto simp: executes_def request_ok_def)
  then have "executes r \<Longrightarrow> action_ok (action_of (clock W t) (shared_at W t) (proc cmd) (objs_of cmd r) :: 's action)"
    by (intro action_of_ok [OF objs_of_ok [OF assms]]) simp
  then show ?thesis using Some by (simp add: meaning_def)
qed (simp add: meaning_def)

lemma meanings_ok:
  "\<forall>r \<in> set rs. request_ok r \<Longrightarrow> meanings W t rs = Some ms \<Longrightarrow> \<forall>c \<in> set (commands_of ms). scmd_ok (snd c) \<and> settled (snd c)"
proof (induction rs arbitrary: t ms)
  case (Cons r rs)
  obtain m ms' where m: "meaning W t r = Some m" "meanings W (if executes r then t + 1 else t) rs = Some ms'" "ms = (clock W t, m) # ms'"
    using Cons.prems(2) by (auto split: bind_splits)
  then show ?case using Cons.IH [OF _ m(2)] Cons.prems(1) meaning_ok [of r W t] by (cases m) (auto simp: action_ok_def)
qed simp

section \<open>Runs\<close>

lemma special_procs:
  "action_of now shared ''authCommand'' args = None" "action_of now shared ''multiCommand'' args = None"
  "action_of now shared ''execCommand'' args = None" "action_of now shared ''discardCommand'' args = None"
  by (simp_all add: action_of_def proc_table_def)

definition wire_ready :: "'s world session \<Rightarrow> bool" where
  "wire_ready s \<longleftrightarrow> \<not> multi_flag s \<and> subscriptions s = 0 \<and> \<not> blocked s"

lemma call_other:
  assumes "proc cmd \<noteq> ''authCommand''" "proc cmd \<noteq> ''multiCommand''" "proc cmd \<noteq> ''execCommand''" "proc cmd \<noteq> ''discardCommand''"
  shows "call env cmd args s = do { s' \<leftarrow> other_command env (proc cmd) args s; Some (s'\<lparr>numcommands := numcommands s' + 1\<rparr>) }"
  using assms by (simp only: call_def call_plain_def if_False)

lemma keyspace_senv_simps [simp]:
  "command_proc (keyspace_senv W) = keyspace_proc W" "requirepass (keyspace_senv W) = None" "maxmemory (keyspace_senv W) = 0"
  by (simp_all add: keyspace_senv_def)

lemma request_proc:
  assumes "lookupCommand (hd r) = Some cmd" "executes r" "wire_ready s"
    "action_of (clock W t) (shared_at W t) (proc cmd) (objs_of cmd r) = Some act"
  shows "request (keyspace_senv W) r s = do {
    (rs, n, b, w) \<leftarrow> keyspace_proc W (proc cmd) (objs_of cmd r) (subscriptions s, blocked s, world s);
    Some (s\<lparr>reply := reply s @ rs, subscriptions := n, blocked := b, world := w, numcommands := numcommands s + 1\<rparr>) }"
proof -
  have np: "proc cmd \<noteq> ''authCommand''" "proc cmd \<noteq> ''multiCommand''" "proc cmd \<noteq> ''execCommand''" "proc cmd \<noteq> ''discardCommand''"
    using assms(4) special_procs by (metis option.distinct(1))+
  have arity: "\<not> ((arity cmd > 0 \<and> arity cmd \<noteq> int (length r)) \<or> int (length r) < - arity cmd)"
    using assms(1,2) by (simp add: executes_def)
  have "open_access (keyspace_senv W) s" using assms(3) by (simp add: open_access_def wire_ready_def)
  from run_command_open [OF this, of cmd r] have "run_command (keyspace_senv W) cmd r s = call (keyspace_senv W) cmd (objs_of cmd r) s"
    using assms(3) by (simp add: wire_ready_def)
  then have "request (keyspace_senv W) r s = call (keyspace_senv W) cmd (objs_of cmd r) s"
    unfolding request_def assms(1) option.case if_not_P [OF arity] .
  then show ?thesis
    unfolding call_other [OF np] other_command_def
    by (cases "keyspace_proc W (proc cmd) (objs_of cmd r) (subscriptions s, blocked s, world s)") (auto split: prod.split)
qed

text \<open>A request is its meaning.\<close>

lemma request_inl:
  fixes W :: "'s::{linorder, zero} wenv"
  assumes "meaning W t r = Some (Inl msg)" "wire_ready s" "ticks (world s) = t"
  shows "\<exists>s'. request (keyspace_senv W) r s = Some s' \<and> wire_ready s' \<and> reply s' = reply s @ [msg]
    \<and> world s' = world s\<lparr>ticks := (if executes r then t + 1 else t)\<rparr>"
proof (cases "executes r")
  case False
  have "request (keyspace_senv W) r s = Some (addReplySds s msg)"
    using False assms(1) by (auto simp: request_def meaning_def executes_def split: option.splits if_splits)
  then show ?thesis using False assms(2,3) by (cases "world s") (auto simp: addReplySds_def wire_ready_def)
next
  case True
  then obtain cmd where cmd: "lookupCommand (hd r) = Some cmd"
    "(action_of (clock W t) (shared_at W t) (proc cmd) (objs_of cmd r) :: 's action) = Some (Inl msg)"
    using assms(1) by (auto simp: meaning_def executes_def split: option.splits)
  have "keyspace_proc W (proc cmd) (objs_of cmd r) (subscriptions s, blocked s, world s) =
      Some ([msg], subscriptions s, blocked s, world s\<lparr>ticks := t + 1\<rparr>)"
    using cmd(2) assms(3) by (simp add: keyspace_proc_def Let_def)
  then show ?thesis using request_proc [OF cmd(1) True assms(2) cmd(2)] True assms(2) by (simp add: wire_ready_def)
qed

lemma request_inr:
  fixes W :: "'s::{linorder, zero} wenv"
  assumes "meaning W t r = Some (Inr c)" "wire_ready s" "ticks (world s) = t"
    "sexec (key_env W) (clock W t) c (db_index (world s)) (databases (world s)) = Some (a, i, srv)"
  shows "\<exists>s'. request (keyspace_senv W) r s = Some s' \<and> wire_ready s' \<and> executes r
    \<and> reply s' = reply s @ (case a of None \<Rightarrow> [] | Some a \<Rightarrow> [reply_bytes (zreply_bytes W) a])
    \<and> world s' = \<lparr>ticks = t + 1, db_index = i, databases = srv\<rparr>"
proof -
  obtain cmd where cmd: "lookupCommand (hd r) = Some cmd" "executes r"
    "(action_of (clock W t) (shared_at W t) (proc cmd) (objs_of cmd r) :: 's action) = Some (Inr c)"
    using assms(1) by (auto simp: meaning_def split: option.splits if_splits)
  have "keyspace_proc W (proc cmd) (objs_of cmd r) (subscriptions s, blocked s, world s) =
      Some (case a of None \<Rightarrow> [] | Some a \<Rightarrow> [reply_bytes (zreply_bytes W) a], subscriptions s, blocked s,
        \<lparr>ticks = t + 1, db_index = i, databases = srv\<rparr>)"
    using cmd(3) assms(3,4) by (cases "world s") (simp add: keyspace_proc_def Let_def)
  then show ?thesis using request_proc [OF cmd(1,2) assms(2) cmd(3)] cmd(2) assms(2) by (simp add: wire_ready_def)
qed

lemma wire_run:
  assumes "meanings W t rs = Some ms" "srun (key_env W) (commands_of ms) i srv = Some (as, j, srv')"
    "wire_ready s" "world s = \<lparr>ticks = t, db_index = i, databases = srv\<rparr>"
  shows "\<exists>s'. run_requests (keyspace_senv W) rs s = Some s' \<and> reply s' = reply s @ replies_of W ms as
    \<and> databases (world s') = srv' \<and> db_index (world s') = j"
  using assms
proof (induction rs arbitrary: t ms i srv as s)
  case (Cons r rs)
  obtain m ms' where m: "meaning W t r = Some m" "meanings W (if executes r then t + 1 else t) rs = Some ms'" "ms = (clock W t, m) # ms'"
    using Cons.prems(1) by (auto split: bind_splits)
  show ?case
  proof (cases m)
    case (Inl msg)
    then obtain s1 where s1: "request (keyspace_senv W) r s = Some s1" "wire_ready s1" "reply s1 = reply s @ [msg]"
      "world s1 = world s\<lparr>ticks := (if executes r then t + 1 else t)\<rparr>"
      using request_inl [of W t r msg s] m(1) Cons.prems(3,4) by auto
    have "srun (key_env W) (commands_of ms') i srv = Some (as, j, srv')" using Cons.prems(2) m(3) Inl by simp
    from Cons.IH [OF m(2) this s1(2)] s1(4) Cons.prems(4) show ?thesis using s1(1,3) m(3) Inl by auto
  next
    case (Inr c)
    then obtain a i1 srv1 as1 where a: "sexec (key_env W) (clock W t) c i srv = Some (a, i1, srv1)"
      "srun (key_env W) (commands_of ms') i1 srv1 = Some (as1, j, srv')" "as = a # as1"
      using Cons.prems(2) m(3) by (auto split: bind_splits)
    obtain s1 where s1: "request (keyspace_senv W) r s = Some s1" "wire_ready s1" "executes r"
      "reply s1 = reply s @ (case a of None \<Rightarrow> [] | Some a \<Rightarrow> [reply_bytes (zreply_bytes W) a])"
      "world s1 = \<lparr>ticks = t + 1, db_index = i1, databases = srv1\<rparr>"
      using request_inr [of W t r c s a i1 srv1] m(1) Inr Cons.prems(3,4) a(1) by auto
    have "meanings W (t + 1) rs = Some ms'" using m(2) s1(3) by simp
    from Cons.IH [OF this a(2) s1(2,5)] show ?thesis using s1(1,4) m(3) Inr a(3) by auto
  qed
qed auto

lemma keyspace_never_blocks: "never_blocks (keyspace_senv W)"
proof -
  have "\<not> b" if "keyspace_proc W p args (n, False, w) = Some (rs, n', b, w')" for p args n w rs n' b w'
    using that by (auto simp: keyspace_proc_def Let_def split: bind_splits sum.splits)
  then show ?thesis unfolding never_blocks_def keyspace_senv_simps by blast
qed

text \<open>C1: The bytes of any sequence of requests whose commands are covered, arriving in any pieces at a server that
  starts empty, are answered by the bytes of replies that maps from keys to values and deadlines give: requests are
  cut at the right places, arguments read, the command executed on tables in any state of rehashing, and the
  reply printed. A request with an unknown name, a wrong number of arguments or something that is not a number has the
  error reply.\<close>

theorem wire_answers_as_keyspace:
  fixes W :: "'s::{linorder, zero} wenv"
  assumes "kenv_ok (key_env W)" "0 < n" "\<forall>r \<in> set rs. request_ok r" "meanings W 0 rs = Some ms"
    and "(\<Sum>c \<leftarrow> commands_of ms. scost (snd c)) < 2 ^ 29"
    and "concat bs = concat (map encode_request rs)" "\<forall>b \<in> set bs. b \<noteq> []" "int (length (concat bs)) < 2 ^ 28"
  shows "\<exists>c' s' as j a. feed (keyspace_senv W) bs createClient (new_session (start_world n)) = Some (Alive c' s')
    \<and> sruns (plus_of (zset_env (key_env W))) (commands_of ms) 0 (a_empty n) as j a
    \<and> reply s' = replies_of W ms as"
proof -
  have cmds: "\<forall>c \<in> set (commands_of ms). scmd_ok (snd c)" "\<forall>c \<in> set (commands_of ms). settled (snd c)"
    using meanings_ok [OF assms(3,4)] by auto
  have "0 < dbnum (initServer n)" using assms(2) by (simp add: initServer_def dbnum_def)
  from srun_ok [OF initServer_ok [of 0 n] this assms(1) cmds(1)] assms(5)
  have "run_ok (key_env W) (commands_of ms) 0 (initServer n) (a_empty n) (\<Sum>c \<leftarrow> commands_of ms. scost (snd c))" by simp
  then obtain as j srv a where run: "srun (key_env W) (commands_of ms) 0 (initServer n) = Some (as, j, srv)"
    "sruns (plus_of (zset_env (key_env W))) (commands_of ms) 0 (a_empty n) as j a" by (rule srun_settled [OF _ cmds(2)])
  let ?s = "new_session (start_world n) :: 's world session"
  have "wire_ready ?s" "world ?s = \<lparr>ticks = 0, db_index = 0, databases = initServer n\<rparr>" "reply ?s = []" "\<not> blocked ?s"
    by (simp_all add: wire_ready_def new_session_def start_world_def)
  then obtain s' where s': "run_requests (keyspace_senv W) rs ?s = Some s'" "reply s' = replies_of W ms as"
    using wire_run [OF assms(4) run(1), of ?s] by auto
  obtain c' where "feed (keyspace_senv W) bs createClient ?s = Some (Alive c' s')"
    using requests_fed [OF keyspace_never_blocks \<open>\<not> blocked ?s\<close> assms(3,6,7,8), of W] s'(1) by auto
  then show ?thesis using run(2) s'(2) by blast
qed

section \<open>An example\<close>

definition sample_wenv :: "int wenv" where
  "sample_wenv = \<lparr>key_env = sample_kenv, clock = (\<lambda>t. 5 + int t), shared_at = (\<lambda>_. True), zreply_bytes = (\<lambda>_. [])\<rparr>"

lemma sample_lookup:
  "lookupCommand [115, 101, 116] = Some (entry ''set'' ''setCommand'' 3 (REDIS_CMD_BULK OR REDIS_CMD_DENYOOM))"
  "lookupCommand [103, 101, 116] = Some (entry ''get'' ''getCommand'' 2 REDIS_CMD_INLINE)"
  by (simp_all add: lookupCommand_def cmdTable_def entry_def strcaseeq_def c_string_def lower_of_def ascii_def)

lemma sample_action:
  "action_of now sh ''setCommand'' = act_set False" "action_of now sh ''getCommand'' = act_get"
  by (simp_all add: action_of_def proc_table_def fun_eq_iff)

lemma sample_meaning:
  "executes [[115, 101, 116], [107], [120]]" "executes [[103, 101, 116], [107]]"
  "meaning W t [[115, 101, 116], [107], [120]] = Some (Inr (OnDb (CSet False [107] (Raw [120]) None)))"
  "meaning W t [[103, 101, 116], [107]] = Some (Inr (OnDb (CGet [107])))"
proof -
  show e: "executes [[115, 101, 116], [107], [120]]" "executes [[103, 101, 116], [107]]"
    by (simp_all add: executes_def sample_lookup entry_def)
  have "tryObjectEncoding 1 (Raw [120]) = Some (Raw [120])"
    by (simp add: tryObjectEncoding_def isStringRepresentableAsLong_def strtoll10_def u8_isspace_def rd_def)
  then have "objs_of (entry ''set'' ''setCommand'' 3 (REDIS_CMD_BULK OR REDIS_CMD_DENYOOM)) [[115, 101, 116], [107], [120]] =
      [Raw [115, 101, 116], Raw [107], Raw [120]]"
    "objs_of (entry ''get'' ''getCommand'' 2 REDIS_CMD_INLINE) [[103, 101, 116], [107]] = [Raw [103, 101, 116], Raw [107]]"
    by (simp_all add: objs_of_def is_bulk_def entry_def REDIS_CMD_BULK_def REDIS_CMD_INLINE_def REDIS_CMD_DENYOOM_def)
  moreover have "proc (entry n p i f) = p" for n p i f by (simp add: entry_def)
  ultimately show "meaning W t [[115, 101, 116], [107], [120]] = Some (Inr (OnDb (CSet False [107] (Raw [120]) None)))"
    "meaning W t [[103, 101, 116], [107]] = Some (Inr (OnDb (CGet [107])))"
    using e by (simp_all add: meaning_def sample_lookup sample_action act_set_def act_get_def arg_text_def arg_object_def)
qed

lemma sample_replies:
  assumes "sruns f [(5, OnDb (CSet False [107] (Raw [120]) None)), (6, OnDb (CGet [107]))] 0 (a_empty 1) as j (a :: int aserver)"
  shows "as = [Some KOk, Some (KBulk [120])]"
  using assms by (auto simp: sample_defs a_open_def a_close_def a_empty_def)

text \<open>\<open>SET k x\<close> and \<open>GET k\<close>, the bytes cut in the middle of a number.\<close>

theorem wire_answers_as_keyspace_witness:
  "\<exists>c' s'. feed (keyspace_senv sample_wenv)
     [[42, 51, 13, 10, 36, 51, 13, 10, 115, 101, 116, 13, 10, 36],
      [49, 13, 10, 107, 13, 10, 36, 49, 13, 10, 120, 13, 10, 42, 50, 13, 10, 36, 51, 13, 10, 103, 101, 116, 13, 10, 36, 49, 13, 10, 107, 13, 10]]
     createClient (new_session (start_world 1)) = Some (Alive c' s')
     \<and> reply s' = [[43, 79, 75, 13, 10], [36, 49, 13, 10, 120, 13, 10]]"
proof -
  let ?rs = "[[[115, 101, 116], [107], [120]], [[103, 101, 116], [107]]] :: bytes list list"
  let ?bs = "[[42, 51, 13, 10, 36, 51, 13, 10, 115, 101, 116, 13, 10, 36],
      [49, 13, 10, 107, 13, 10, 36, 49, 13, 10, 120, 13, 10, 42, 50, 13, 10, 36, 51, 13, 10, 103, 101, 116, 13, 10, 36, 49, 13, 10, 107, 13, 10]]
      :: bytes list"
  let ?ms = "[(5, Inr (OnDb (CSet False [107] (Raw [120]) None))), (6, Inr (OnDb (CGet [107])))] :: (int \<times> (bytes + int scmd)) list"
  have ok: "\<forall>r \<in> set ?rs. request_ok r"
    by (simp add: request_ok_def max_bulk_def strcaseeq_def c_string_def lower_of_def ascii_def)
  have ms: "meanings sample_wenv 0 ?rs = Some ?ms" by (simp add: sample_meaning sample_wenv_def)
  have k: "kenv_ok (key_env sample_wenv)" using sample_kenv_ok by (simp add: sample_wenv_def)
  have bytes: "concat ?bs = concat (map encode_request ?rs)"
    by (simp add: encode_request_def encode_arg_def crlf_def dec_texts)
  have cost: "(\<Sum>c \<leftarrow> commands_of ?ms. scost (snd c)) < 2 ^ 29" by simp
  have pieces: "\<forall>b \<in> set ?bs. b \<noteq> []" "int (length (concat ?bs)) < 2 ^ 28" by simp_all
  from wire_answers_as_keyspace [OF k zero_less_one ok ms cost bytes pieces] obtain c' s' as j a where f:
    "feed (keyspace_senv sample_wenv) ?bs createClient (new_session (start_world 1)) = Some (Alive c' s')"
    "sruns (plus_of (zset_env (key_env sample_wenv))) (commands_of ?ms) 0 (a_empty 1) as j a"
    "reply s' = replies_of sample_wenv ?ms as"
    by (elim exE conjE) 
  have "as = [Some KOk, Some (KBulk [120])]"
    by (rule sample_replies [OF f(2) [unfolded commands_of.simps]])
  then have "reply s' = [[43, 79, 75, 13, 10], [36, 49, 13, 10, 120, 13, 10]]"
    using f(3) by (simp add: reply_line_def reply_bulk_def ascii_def crlf_def dec_texts)
  with f(1) show ?thesis by blast
qed

end
