(* ===== verification/Pqsort.thy ===== *)
theory Pqsort
  imports Prelude "HOL-Library.Multiset" "HOL-Library.Monad_Syntax"
begin

text \<open>
  The partial quicksort of \<open>pqsort.c\<close>: Bentley and McIlroy's quicksort on a range of an array,
  which leaves aside every segment that holds no position between \<open>lrange\<close> and \<open>rrange\<close>.

  A pointer into the array is the index of the element it points to, and an access outside the
  array is \<open>None\<close>. The code exchanges elements word by word or byte by byte; the model exchanges
  whole elements. The comparison function is a parameter, partial because comparing two objects
  can fault.
\<close>

section \<open>Elements, comparisons and exchanges\<close>

type_synonym 'a comparison = "'a \<Rightarrow> 'a \<Rightarrow> int option"

definition elem :: "'a list \<Rightarrow> nat \<Rightarrow> 'a option" where
  "elem xs i = (if i < length xs then Some (xs ! i) else None)"

definition cmp_at :: "'a comparison \<Rightarrow> 'a list \<Rightarrow> nat \<Rightarrow> nat \<Rightarrow> int option" where
  "cmp_at cmp xs i j = do { x \<leftarrow> elem xs i; y \<leftarrow> elem xs j; cmp x y }"

definition exchange :: "'a list \<Rightarrow> nat \<Rightarrow> nat \<Rightarrow> 'a list option" where
  "exchange xs i j = do { x \<leftarrow> elem xs i; y \<leftarrow> elem xs j; Some (xs[i := y, j := x]) }"

fun vecswap :: "'a list \<Rightarrow> nat \<Rightarrow> nat \<Rightarrow> nat \<Rightarrow> 'a list option" where
  "vecswap xs i j 0 = Some xs"
| "vecswap xs i j (Suc r) = do { ys \<leftarrow> exchange xs i j; vecswap ys (Suc i) (Suc j) r }"

text \<open>A pointer below the first element is an error.\<close>

definition prev :: "nat \<Rightarrow> nat option" where
  "prev p = (if p = 0 then None else Some (p - 1))"

definition med3 :: "'a comparison \<Rightarrow> 'a list \<Rightarrow> nat \<Rightarrow> nat \<Rightarrow> nat \<Rightarrow> nat option" where
  "med3 cmp xs a b c =
     do { ab \<leftarrow> cmp_at cmp xs a b;
          bc \<leftarrow> cmp_at cmp xs b c;
          if ab < 0 then
            (if bc < 0 then Some b
             else do { ac \<leftarrow> cmp_at cmp xs a c; Some (if ac < 0 then c else a) })
          else
            (if bc > 0 then Some b
             else do { ac \<leftarrow> cmp_at cmp xs a c; Some (if ac < 0 then a else c) }) }"

section \<open>Insertion sort\<close>

fun insert_down :: "'a comparison \<Rightarrow> 'a list \<Rightarrow> nat \<Rightarrow> nat \<Rightarrow> 'a list option" where
  "insert_down cmp xs a pl =
     (if pl > a
      then do { c \<leftarrow> cmp_at cmp xs (pl - 1) pl;
                if c > 0 then do { ys \<leftarrow> exchange xs pl (pl - 1); insert_down cmp ys a (pl - 1) }
                else Some xs }
      else Some xs)"

function insert_all :: "'a comparison \<Rightarrow> 'a list \<Rightarrow> nat \<Rightarrow> nat \<Rightarrow> nat \<Rightarrow> 'a list option" where
  "insert_all cmp xs a pm e =
     (if pm < e then do { ys \<leftarrow> insert_down cmp xs a pm; insert_all cmp ys a (pm + 1) e }
      else Some xs)"
  by pat_completeness auto

termination
  by (relation "measure (\<lambda>(cmp, xs, a, pm, e). e - pm)") auto

declare insert_down.simps [simp del] insert_all.simps [simp del]

definition insertion_sort :: "'a comparison \<Rightarrow> 'a list \<Rightarrow> nat \<Rightarrow> nat \<Rightarrow> 'a list option" where
  "insertion_sort cmp xs a n = insert_all cmp xs a (a + 1) (a + n)"

section \<open>Partitioning\<close>

definition choose_pivot :: "'a comparison \<Rightarrow> 'a list \<Rightarrow> nat \<Rightarrow> nat \<Rightarrow> nat option" where
  "choose_pivot cmp xs a n =
     (let pm = a + n div 2 in
      if n > 7 then
        (let pl = a; pn = a + n - 1 in
         if n > 40 then
           (let d = n div 8 in
            do { pl \<leftarrow> med3 cmp xs pl (pl + d) (pl + 2 * d);
                 pm \<leftarrow> med3 cmp xs (pm - d) pm (pm + d);
                 pn \<leftarrow> med3 cmp xs (pn - 2 * d) (pn - d) pn;
                 med3 cmp xs pl pm pn })
         else med3 cmp xs pl pm pn)
      else Some pm)"

text \<open>The two inner loops. \<open>s\<close> is the variable \<open>swap_cnt\<close>, which only takes the values 0 and 1.\<close>

function scan_up :: "'a comparison \<Rightarrow> nat \<Rightarrow> nat \<Rightarrow> 'a list \<Rightarrow> nat \<Rightarrow> nat \<Rightarrow> bool \<Rightarrow>
    ('a list \<times> nat \<times> nat \<times> bool) option" where
  "scan_up cmp a pc xs pa pb s =
     (if pb \<le> pc
      then do { c \<leftarrow> cmp_at cmp xs pb a;
                if c \<le> 0 then
                  (if c = 0
                   then do { ys \<leftarrow> exchange xs pa pb; scan_up cmp a pc ys (pa + 1) (pb + 1) True }
                   else scan_up cmp a pc xs pa (pb + 1) s)
                else Some (xs, pa, pb, s) }
      else Some (xs, pa, pb, s))"
  by pat_completeness auto

termination
  by (relation "measure (\<lambda>(cmp, a, pc, xs, pa, pb, s). Suc pc - pb)") auto

function scan_down :: "'a comparison \<Rightarrow> nat \<Rightarrow> nat \<Rightarrow> 'a list \<Rightarrow> nat \<Rightarrow> nat \<Rightarrow> bool \<Rightarrow>
    ('a list \<times> nat \<times> nat \<times> bool) option" where
  "scan_down cmp a pb xs pc pd s =
     (if pb \<le> pc
      then do { c \<leftarrow> cmp_at cmp xs pc a;
                if c \<ge> 0 then
                  (if c = 0
                   then do { ys \<leftarrow> exchange xs pc pd; pd' \<leftarrow> prev pd; pc' \<leftarrow> prev pc;
                             scan_down cmp a pb ys pc' pd' True }
                   else do { pc' \<leftarrow> prev pc; scan_down cmp a pb xs pc' pd s })
                else Some (xs, pc, pd, s) }
      else Some (xs, pc, pd, s))"
  by pat_completeness auto

termination
  by (relation "measure (\<lambda>(cmp, a, pb, xs, pc, pd, s). pc)") (auto simp: prev_def split: if_splits)

declare scan_up.simps [simp del] scan_down.simps [simp del]

partial_function (option) partition_loop :: "'a comparison \<Rightarrow> nat \<Rightarrow> 'a list \<Rightarrow> nat \<Rightarrow> nat \<Rightarrow> nat \<Rightarrow> nat \<Rightarrow>
    bool \<Rightarrow> ('a list \<times> nat \<times> nat \<times> nat \<times> nat \<times> bool) option" where
  "partition_loop cmp a xs pa pb pc pd s =
     do { (xs, pa, pb, s) \<leftarrow> scan_up cmp a pc xs pa pb s;
          (xs, pc, pd, s) \<leftarrow> scan_down cmp a pb xs pc pd s;
          if pb > pc then Some (xs, pa, pb, pc, pd, s)
          else do { xs \<leftarrow> exchange xs pb pc;
                    pc' \<leftarrow> prev pc;
                    partition_loop cmp a xs pa (pb + 1) pc' pd True } }"

section \<open>The sort\<close>

text \<open>The test that leaves a segment of \<open>r\<close> elements aside. \<open>lrange\<close> and \<open>rrange\<close> point to the
  first byte of the first and to the last byte of the last element of the range; the pointers of an
  empty range may lie before the array.\<close>

definition outside :: "int \<Rightarrow> int \<Rightarrow> nat \<Rightarrow> nat \<Rightarrow> bool" where
  "outside lrange rrange l r \<longleftrightarrow>
     lrange < int l \<and> rrange < int l \<or> lrange \<ge> int (l + r) \<and> rrange \<ge> int (l + r)"

partial_function (option) pqsort_from :: "'a comparison \<Rightarrow> int \<Rightarrow> int \<Rightarrow> 'a list \<Rightarrow> nat \<Rightarrow> nat \<Rightarrow>
    'a list option" where
  "pqsort_from cmp lrange rrange xs a n =
     (if n < 7 then insertion_sort cmp xs a n
      else do {
        pm \<leftarrow> choose_pivot cmp xs a n;
        xs \<leftarrow> exchange xs a pm;
        (xs, pa, pb, pc, pd, s) \<leftarrow>
          partition_loop cmp a xs (a + 1) (a + 1) (a + n - 1) (a + n - 1) False;
        if \<not> s then insertion_sort cmp xs a n
        else do {
          let pn = a + n;
          let r = min (pa - a) (pb - pa);
          xs \<leftarrow> vecswap xs a (pb - r) r;
          let r = min (pd - pc) (pn - pd - 1);
          xs \<leftarrow> vecswap xs pb (pn - r) r;
          let r = pb - pa;
          xs \<leftarrow> (if r > 1 \<and> \<not> outside lrange rrange a r then pqsort_from cmp lrange rrange xs a r
                 else Some xs);
          let r = pd - pc;
          if r > 1 \<and> \<not> outside lrange rrange (pn - r) r
          then pqsort_from cmp lrange rrange xs (pn - r) r else Some xs } })"

declare partition_loop.simps [code] pqsort_from.simps [code]

definition pqsort :: "'a comparison \<Rightarrow> 'a list \<Rightarrow> nat \<Rightarrow> int \<Rightarrow> int \<Rightarrow> 'a list option" where
  "pqsort cmp xs n lrange rrange = pqsort_from cmp lrange rrange xs 0 n"

section \<open>Permutations inside a segment\<close>

text \<open>\<open>ys\<close> is \<open>xs\<close> with the elements of the positions from \<open>a\<close> to \<open>e\<close> in another order.\<close>

definition perm_within :: "nat \<Rightarrow> nat \<Rightarrow> 'a list \<Rightarrow> 'a list \<Rightarrow> bool" where
  "perm_within a e xs ys \<longleftrightarrow> length ys = length xs \<and> take a ys = take a xs \<and> drop e ys = drop e xs \<and>
     mset ys = mset xs"

named_theorems perm_intros "permutations inside a segment"

lemma perm_refl [perm_intros]: "perm_within a e xs xs"
  by (simp add: perm_within_def)

lemma perm_trans: "perm_within a e xs ys \<Longrightarrow> perm_within a e ys zs \<Longrightarrow> perm_within a e xs zs"
  by (simp add: perm_within_def)

lemma perm_widen:
  assumes "perm_within a e xs ys" "a' \<le> a" "e \<le> e'"
  shows "perm_within a' e' xs ys"
proof -
  from assms(2) have "take a' zs = take a' (take a zs)" for zs :: "'a list" by simp
  moreover from assms(3) have "drop e' zs = drop (e' - e) (drop e zs)" for zs :: "'a list" by simp
  ultimately show ?thesis using assms(1) unfolding perm_within_def by metis
qed

lemma perm_length: "perm_within a e xs ys \<Longrightarrow> length ys = length xs"
  by (simp add: perm_within_def)

lemma perm_set: "perm_within a e xs ys \<Longrightarrow> set ys = set xs"
  unfolding perm_within_def by (metis mset_eq_setD)

lemma perm_outside:
  assumes "perm_within a e xs ys" "i < a \<or> e \<le> i" "i < length xs"
  shows "ys ! i = xs ! i"
  using assms(2)
proof
  assume "i < a"
  then have "ys ! i = take a ys ! i" "xs ! i = take a xs ! i" by simp_all
  then show ?thesis using assms(1) by (simp add: perm_within_def)
next
  assume e: "e \<le> i"
  have "drop e ys = drop e xs" "length ys = length xs" using assms(1) by (simp_all add: perm_within_def)
  then have "drop e ys ! (i - e) = drop e xs ! (i - e)" "e \<le> length ys" "e \<le> length xs"
    using e assms(3) by simp_all
  then show ?thesis using e by simp
qed

lemma perm_inside:
  assumes p: "perm_within a e xs ys" and b: "e \<le> length xs" and i: "a \<le> i" "i < e"
  shows "\<exists>j. a \<le> j \<and> j < e \<and> ys ! i = xs ! j"
proof -
  have ae: "a \<le> e" using i by simp
  have split: "zs = take a zs @ drop a (take e zs) @ drop e zs" if "length zs = length xs" for zs
  proof -
    have "take e zs = take a (take e zs) @ drop a (take e zs)" by (rule append_take_drop_id [symmetric])
    then have "zs = (take a (take e zs) @ drop a (take e zs)) @ drop e zs"
      using append_take_drop_id [of e zs] by simp
    then show ?thesis using ae by simp
  qed
  have "mset xs = mset (take a xs) + mset (drop a (take e xs)) + mset (drop e xs)"
    by (subst split [of xs]) (simp_all add: ac_simps del: drop_take)
  moreover have "mset ys = mset (take a ys) + mset (drop a (take e ys)) + mset (drop e ys)"
    using p by (subst split [of ys]) (simp_all add: ac_simps perm_within_def del: drop_take)
  ultimately have "mset (drop a (take e ys)) = mset (drop a (take e xs))"
    using p unfolding perm_within_def by (metis add_left_cancel add_right_cancel)
  then have s: "set (drop a (take e ys)) = set (drop a (take e xs))" by (rule mset_eq_setD)
  have "ys ! i = drop a (take e ys) ! (i - a)" using p b i by (simp add: perm_within_def)
  moreover have "i - a < length (drop a (take e ys))" using p b i by (simp add: perm_within_def)
  ultimately have "ys ! i \<in> set (drop a (take e xs))" using s by (metis nth_mem)
  then obtain k where k: "k < length (drop a (take e xs))" "ys ! i = drop a (take e xs) ! k"
    by (metis in_set_conv_nth)
  then show ?thesis using b by (intro exI [of _ "a + k"]) auto
qed

lemma perm_all:
  assumes "perm_within a e xs ys" "e \<le> length xs" "\<And>j. a \<le> j \<Longrightarrow> j < e \<Longrightarrow> P (xs ! j)" "a \<le> i" "i < e"
  shows "P (ys ! i)"
  using perm_inside [OF assms(1,2,4,5)] assms(3) by auto

lemma exchange_Some:
  "i < length xs \<Longrightarrow> j < length xs \<Longrightarrow> exchange xs i j = Some (xs[i := xs ! j, j := xs ! i])"
  by (simp add: exchange_def elem_def)

lemma nth_exchange:
  "exchange xs i j = Some ys \<Longrightarrow> k < length xs \<Longrightarrow>
   ys ! k = (if k = j then xs ! i else if k = i then xs ! j else xs ! k)"
  by (auto simp: exchange_def elem_def nth_list_update split: if_splits bind_splits)

lemma exchange_ok:
  assumes "a \<le> i" "i < e" "a \<le> j" "j < e" "e \<le> length xs"
  shows "\<exists>ys. exchange xs i j = Some ys \<and> perm_within a e xs ys"
proof -
  have "mset (xs[i := xs ! j, j := xs ! i]) = mset xs" using assms by (intro mset_swap) auto
  then show ?thesis using assms by (auto simp: exchange_Some perm_within_def)
qed

text \<open>Two stretches of \<open>r\<close> elements change places.\<close>

lemma vecswap_ok:
  assumes "a \<le> i" "i + r \<le> j" "j + r \<le> e" "e \<le> length xs"
  shows "\<exists>ys. vecswap xs i j r = Some ys \<and> perm_within a e xs ys \<and>
    (\<forall>k < length xs. ys ! k = (if i \<le> k \<and> k < i + r then xs ! (j + (k - i))
        else if j \<le> k \<and> k < j + r then xs ! (i + (k - j)) else xs ! k))"
  using assms
proof (induction r arbitrary: xs i j)
  case 0
  then show ?case by (auto simp: perm_refl)
next
  case (Suc r)
  obtain ys where ys: "exchange xs i j = Some ys" "perm_within a e xs ys"
    using exchange_ok [of a i e j xs] Suc.prems by auto
  have l: "length ys = length xs" using ys(2) by (rule perm_length)
  obtain zs where zs: "vecswap ys (Suc i) (Suc j) r = Some zs" "perm_within a e ys zs"
    "\<forall>k < length ys. zs ! k = (if Suc i \<le> k \<and> k < Suc i + r then ys ! (Suc j + (k - Suc i))
        else if Suc j \<le> k \<and> k < Suc j + r then ys ! (Suc i + (k - Suc j)) else ys ! k)"
    using Suc.IH [of "Suc i" "Suc j" ys] Suc.prems l by auto
  have "zs ! k = (if i \<le> k \<and> k < i + Suc r then xs ! (j + (k - i))
      else if j \<le> k \<and> k < j + Suc r then xs ! (i + (k - j)) else xs ! k)" if k: "k < length xs" for k
  proof -
    have n: "ys ! m = (if m = j then xs ! i else if m = i then xs ! j else xs ! m)" if "m < length xs" for m
      using nth_exchange [OF ys(1) that] .
    consider "k = i" | "k = j" | "Suc i \<le> k" "k < Suc i + r" | "Suc j \<le> k" "k < Suc j + r" |
      "k < i \<or> Suc i + r \<le> k" "k < j \<or> Suc j + r \<le> k" by linarith
    then show ?thesis
    proof cases
      case 3
      then obtain m where m: "k = Suc i + m" "m < r" using le_Suc_ex [of "Suc i" k] by auto
      then show ?thesis using zs(3) l k Suc.prems n [of "Suc j + m"] by simp
    next
      case 4
      then obtain m where m: "k = Suc j + m" "m < r" using le_Suc_ex [of "Suc j" k] by auto
      then show ?thesis using zs(3) l k Suc.prems n [of "Suc i + m"] by simp
    next
      case 5
      then have e: "(i \<le> k \<and> k < i + Suc r) = False" "(j \<le> k \<and> k < j + Suc r) = False"
        "(Suc i \<le> k \<and> k < Suc i + r) = False" "(Suc j \<le> k \<and> k < Suc j + r) = False"
        "(k = i) = False" "(k = j) = False" by auto
      have "zs ! k = ys ! k" using zs(3) l k e(3,4) by (simp only: if_False)
      then show ?thesis using n [OF k] e by (simp only: if_False)
    qed (use zs(3) l k Suc.prems n [of k] in simp_all)
  qed
  then show ?case using ys zs perm_trans by auto
qed

text \<open>Exchanging the shorter of two neighbouring stretches with as many elements at the far end of
  the longer one puts the second before the first.\<close>

lemma vecswap_rotates:
  assumes b: "a \<le> s" "s \<le> m" "m \<le> t" "t \<le> e" "e \<le> length xs" and r: "r = min (m - s) (t - m)"
    and P: "\<And>k. s \<le> k \<Longrightarrow> k < m \<Longrightarrow> P (xs ! k)" and Q: "\<And>k. m \<le> k \<Longrightarrow> k < t \<Longrightarrow> Q (xs ! k)"
  shows "\<exists>ys. vecswap xs s (t - r) r = Some ys \<and> perm_within s t xs ys \<and>
    (\<forall>k. s \<le> k \<and> k < s + (t - m) \<longrightarrow> Q (ys ! k)) \<and> (\<forall>k. s + (t - m) \<le> k \<and> k < t \<longrightarrow> P (ys ! k))"
proof -
  have rr: "s + r \<le> t - r" "t - r + r = t" "r \<le> t" using b r by linarith+
  obtain ys where ys: "vecswap xs s (t - r) r = Some ys" "perm_within s t xs ys"
    "\<forall>k < length xs. ys ! k = (if s \<le> k \<and> k < s + r then xs ! (t - r + (k - s))
        else if t - r \<le> k \<and> k < t then xs ! (s + (k - (t - r))) else xs ! k)"
    using vecswap_ok [of s s r "t - r" t xs] b rr by auto
  have "Q (ys ! k)" if k: "s \<le> k" "k < s + (t - m)" for k
  proof (cases "k < s + r")
    case True
    then have "ys ! k = xs ! (t - r + (k - s))" using ys(3) k b rr by auto
    moreover have "m \<le> t - r + (k - s)" "t - r + (k - s) < t" using k b rr r True by linarith+
    ultimately show ?thesis using Q by simp
  next
    case False
    then have m: "m \<le> k" "k < t - r" using k b r by linarith+
    then have "ys ! k = xs ! k" using ys(3) k b rr False by auto
    then show ?thesis using Q [of k] m rr by simp
  qed
  moreover have "P (ys ! k)" if k: "s + (t - m) \<le> k" "k < t" for k
  proof (cases "t - r \<le> k")
    case True
    then have m: "s + (k - (t - r)) < m" "\<not> k < s + r" using k b rr r by linarith+
    then have "ys ! k = xs ! (s + (k - (t - r)))" using ys(3) k b rr True by auto
    then show ?thesis using P m(1) by simp
  next
    case False
    then have m: "s \<le> k" "k < m" "\<not> k < s + r" using k b r by linarith+
    then have "ys ! k = xs ! k" using ys(3) k b rr False by auto
    then show ?thesis using P [of k] m by simp
  qed
  ultimately show ?thesis using ys(1,2) by blast
qed

section \<open>What the sort needs of its comparison\<close>

definition le_by :: "'a comparison \<Rightarrow> 'a \<Rightarrow> 'a \<Rightarrow> bool" where
  "le_by cmp x y \<longleftrightarrow> (\<exists>c. cmp x y = Some c \<and> c \<le> 0)"

text \<open>All elements of the segment from \<open>a\<close> to \<open>e\<close> that are before one another are in order, where
  one of the two positions is between \<open>lrange\<close> and \<open>rrange\<close>.\<close>

definition placed :: "'a comparison \<Rightarrow> int \<Rightarrow> int \<Rightarrow> 'a list \<Rightarrow> nat \<Rightarrow> nat \<Rightarrow> bool" where
  "placed cmp lrange rrange xs a e \<longleftrightarrow>
     (\<forall>i j. a \<le> i \<and> i < j \<and> j < e \<and>
        (lrange \<le> int i \<and> int i \<le> rrange \<or> lrange \<le> int j \<and> int j \<le> rrange) \<longrightarrow>
        le_by cmp (xs ! i) (xs ! j))"

definition ordered :: "'a comparison \<Rightarrow> 'a list \<Rightarrow> nat \<Rightarrow> nat \<Rightarrow> bool" where
  "ordered cmp xs a e \<longleftrightarrow> (\<forall>i j. a \<le> i \<and> i < j \<and> j < e \<longrightarrow> le_by cmp (xs ! i) (xs ! j))"

definition ordered_but :: "'a comparison \<Rightarrow> nat \<Rightarrow> 'a list \<Rightarrow> nat \<Rightarrow> nat \<Rightarrow> bool" where
  "ordered_but cmp p xs a e \<longleftrightarrow>
     (\<forall>i j. a \<le> i \<and> i < j \<and> j < e \<and> j \<noteq> p \<longrightarrow> le_by cmp (xs ! i) (xs ! j))"

text \<open>The four stretches around the part that has not been looked at: equal to the pivot \<open>v\<close>, below it,
  above it, and equal to it again.\<close>

definition stretches :: "'a comparison \<Rightarrow> 'a \<Rightarrow> 'a list \<Rightarrow> nat \<Rightarrow> nat \<Rightarrow> nat \<Rightarrow> nat \<Rightarrow> nat \<Rightarrow> nat \<Rightarrow> bool" where
  "stretches cmp v xs a e pa pb pc pd \<longleftrightarrow>
     a < pa \<and> pa \<le> pb \<and> pb \<le> Suc pc \<and> pc \<le> pd \<and> pd < e \<and> e \<le> length xs \<and> xs ! a = v \<and>
     (\<forall>i. a \<le> i \<and> i < pa \<longrightarrow> le_by cmp (xs ! i) v \<and> le_by cmp v (xs ! i)) \<and>
     (\<forall>i. pa \<le> i \<and> i < pb \<longrightarrow> \<not> le_by cmp v (xs ! i)) \<and>
     (\<forall>i. pc < i \<and> i \<le> pd \<longrightarrow> \<not> le_by cmp (xs ! i) v) \<and>
     (\<forall>i. pd < i \<and> i < e \<longrightarrow> le_by cmp (xs ! i) v \<and> le_by cmp v (xs ! i))"

text \<open>Once the stretches of equal elements are in the middle: \<open>l\<close> elements below the pivot, and \<open>r\<close>
  elements above it at the end.\<close>

definition zones :: "'a comparison \<Rightarrow> 'a \<Rightarrow> 'a list \<Rightarrow> nat \<Rightarrow> nat \<Rightarrow> nat \<Rightarrow> nat \<Rightarrow> bool" where
  "zones cmp v xs a e l r \<longleftrightarrow>
     a + l + r \<le> e \<and> e \<le> length xs \<and>
     (\<forall>i. a \<le> i \<and> i < a + l \<longrightarrow> \<not> le_by cmp v (xs ! i)) \<and>
     (\<forall>i. a + l \<le> i \<and> i < e - r \<longrightarrow> le_by cmp (xs ! i) v \<and> le_by cmp v (xs ! i)) \<and>
     (\<forall>i. e - r \<le> i \<and> i < e \<longrightarrow> \<not> le_by cmp (xs ! i) v)"

text \<open>The contract of the comparison function, on the elements that satisfy \<open>ok\<close>.\<close>

locale comparison =
  fixes cmp :: "'a comparison" and ok :: "'a \<Rightarrow> bool"
  assumes defined: "ok x \<Longrightarrow> ok y \<Longrightarrow> cmp x y \<noteq> None"
    and opposite: "ok x \<Longrightarrow> ok y \<Longrightarrow> cmp x y = Some c \<Longrightarrow> cmp y x = Some d \<Longrightarrow> c < 0 \<longleftrightarrow> 0 < d"
    and transitive: "ok x \<Longrightarrow> ok y \<Longrightarrow> ok z \<Longrightarrow> le_by cmp x y \<Longrightarrow> le_by cmp y z \<Longrightarrow> le_by cmp x z"
begin

abbreviation le :: "'a \<Rightarrow> 'a \<Rightarrow> bool" where "le \<equiv> le_by cmp"

abbreviation oks :: "'a list \<Rightarrow> bool" where "oks xs \<equiv> \<forall>x \<in> set xs. ok x"

lemma cmp_le:
  assumes "ok x" "ok y"
  obtains c where "cmp x y = Some c" "c \<le> 0 \<longleftrightarrow> le x y" "0 \<le> c \<longleftrightarrow> le y x"
proof -
  obtain c d where c: "cmp x y = Some c" "cmp y x = Some d"
    using defined [OF assms] defined [OF assms(2,1)] by auto
  have "c < 0 \<longleftrightarrow> 0 < d" using opposite [OF assms c] .
  then show thesis using that [OF c(1)] c by (auto simp: le_by_def)
qed

lemma le_total: "ok x \<Longrightarrow> ok y \<Longrightarrow> le x y \<or> le y x"
  using cmp_le [of x y] by (metis linear)

lemma le_refl: "ok x \<Longrightarrow> le x x"
  using le_total by blast

lemma cmp_at_le:
  assumes "oks xs" "i < length xs" "j < length xs"
  obtains c where "cmp_at cmp xs i j = Some c" "c \<le> 0 \<longleftrightarrow> le (xs ! i) (xs ! j)"
    "0 \<le> c \<longleftrightarrow> le (xs ! j) (xs ! i)"
  using cmp_le [of "xs ! i" "xs ! j"] assms by (auto simp: cmp_at_def elem_def)

lemma oks_perm: "oks xs \<Longrightarrow> perm_within a e xs ys \<Longrightarrow> oks ys"
  by (simp add: perm_set)

end

section \<open>Insertion sort sorts\<close>

context comparison
begin

lemma ordered_exchange:
  assumes ys: "exchange xs p (p - 1) = Some ys" and o: "ordered_but cmp p xs a e"
    and b: "a < p" "p < e" "e \<le> length xs" and y: "le (xs ! p) (xs ! (p - 1))"
  shows "ordered_but cmp (p - 1) ys a e"
  unfolding ordered_but_def
proof (intro allI impI, elim conjE)
  fix i j assume ij: "a \<le> i" "i < j" "j < e" "j \<noteq> p - 1"
  have n: "ys ! k = (if k = p - 1 then xs ! p else if k = p then xs ! (p - 1) else xs ! k)" if "k < e" for k
    using nth_exchange [OF ys, of k] that b by simp
  have o': "le (xs ! i') (xs ! j')" if "a \<le> i'" "i' < j'" "j' < e" "j' \<noteq> p" for i' j'
    using o that unfolding ordered_but_def by blast
  show "le (ys ! i) (ys ! j)"
    using n [of i] n [of j] ij b y o' [of i "p - 1"] o' [of p j] o' [of "p - 1" j] o' [of i j]
    by (cases "j = p"; cases "i = p - 1"; cases "i = p") auto
qed

lemma insert_down_ok:
  "oks xs \<Longrightarrow> a \<le> p \<Longrightarrow> p < e \<Longrightarrow> e \<le> length xs \<Longrightarrow> ordered_but cmp p xs a e \<Longrightarrow>
   \<exists>ys. insert_down cmp xs a p = Some ys \<and> perm_within a e xs ys \<and> ordered cmp ys a e"
proof (induction p arbitrary: xs)
  case 0
  then show ?case
    by (intro exI [of _ xs]) (auto simp: insert_down.simps perm_refl ordered_but_def ordered_def)
next
  case (Suc p)
  show ?case
  proof (cases "a < Suc p")
    case False
    then have "Suc p = a" using Suc.prems by simp
    then show ?thesis using Suc.prems
      by (intro exI [of _ xs]) (auto simp: insert_down.simps perm_refl ordered_but_def ordered_def)
  next
    case True
    obtain c where c: "cmp_at cmp xs p (Suc p) = Some c" "c \<le> 0 \<longleftrightarrow> le (xs ! p) (xs ! Suc p)"
      "0 \<le> c \<longleftrightarrow> le (xs ! Suc p) (xs ! p)"
      using cmp_at_le [of xs p "Suc p"] Suc.prems by auto
    show ?thesis
    proof (cases "c > 0")
      case p: True
      obtain ys where ys: "exchange xs (Suc p) p = Some ys" "perm_within a e xs ys"
        using exchange_ok [of a "Suc p" e p xs] Suc.prems True by auto
      have "ordered_but cmp p ys a e"
        using ordered_exchange [of xs "Suc p" ys a e] Suc.prems ys(1) True p c(3) by simp
      moreover have "oks ys" "length ys = length xs"
        using Suc.prems ys(2) by (auto simp: perm_set perm_length)
      ultimately obtain zs where "insert_down cmp ys a p = Some zs" "perm_within a e ys zs" "ordered cmp zs a e"
        using Suc.IH [of ys] Suc.prems True by auto
      then show ?thesis using True p c(1) ys perm_trans
        by (auto simp: insert_down.simps [of cmp xs])
    next
      case p: False
      have "le (xs ! i) (xs ! Suc p)" if "a \<le> i" "i < Suc p" for i
      proof (cases "i = p")
        case True
        then show ?thesis using p c(2) by simp
      next
        case False
        then have "le (xs ! i) (xs ! p)" using Suc.prems that by (auto simp: ordered_but_def)
        then show ?thesis using transitive [of "xs ! i" "xs ! p" "xs ! Suc p"] p c(2) Suc.prems that by auto
      qed
      then have "ordered cmp xs a e" using Suc.prems unfolding ordered_but_def ordered_def by metis
      then show ?thesis using True p c(1) perm_refl by (auto simp: insert_down.simps)
    qed
  qed
qed

lemma insert_all_ok:
  "oks xs \<Longrightarrow> a \<le> p \<Longrightarrow> e \<le> length xs \<Longrightarrow> ordered cmp xs a p \<Longrightarrow>
   \<exists>ys. insert_all cmp xs a p e = Some ys \<and> perm_within a e xs ys \<and> ordered cmp ys a e"
proof (induction "e - p" arbitrary: xs p)
  case 0
  then show ?case by (intro exI [of _ xs]) (auto simp: insert_all.simps perm_refl ordered_def)
next
  case (Suc k)
  have "ordered_but cmp p xs a (Suc p)" using Suc.prems by (auto simp: ordered_but_def ordered_def)
  then obtain ys where ys: "insert_down cmp xs a p = Some ys" "perm_within a (Suc p) xs ys" "ordered cmp ys a (Suc p)"
    using insert_down_ok [of xs a p "Suc p"] Suc.hyps(2) Suc.prems by fastforce
  have "k = e - Suc p" "oks ys" "length ys = length xs"
    using Suc ys(2) by (auto simp: perm_set perm_length)
  then obtain zs where "insert_all cmp ys a (Suc p) e = Some zs" "perm_within a e ys zs" "ordered cmp zs a e"
    using Suc.hyps(1) [of "Suc p" ys] Suc.prems ys(3) by auto
  moreover have "perm_within a e xs ys" using perm_widen [OF ys(2)] Suc.hyps(2) by simp
  ultimately show ?case using ys(1) Suc.hyps(2) perm_trans
    by (auto simp: insert_all.simps [of cmp xs])
qed

lemma insertion_sort_ok:
  assumes "oks xs" "a + n \<le> length xs"
  shows "\<exists>ys. insertion_sort cmp xs a n = Some ys \<and> perm_within a (a + n) xs ys \<and> ordered cmp ys a (a + n)"
proof -
  have "ordered cmp xs a (a + 1)" by (auto simp: ordered_def)
  then show ?thesis
    using insert_all_ok [of xs a "a + 1" "a + n"] assms by (simp add: insertion_sort_def)
qed

end

section \<open>Partitioning partitions\<close>

context comparison
begin

lemma stretches_down_equal:
  assumes st: "stretches cmp v xs a e pa pb pc pd" and ys: "exchange xs pc pd = Some ys"
    and c: "pb < pc" "le (xs ! pc) v" "le v (xs ! pc)"
  shows "stretches cmp v ys a e pa pb (pc - 1) (pd - 1)" "ys ! pb = xs ! pb"
proof -
  note st = st [unfolded stretches_def]
  have n: "ys ! k = (if k = pd then xs ! pc else if k = pc then xs ! pd else xs ! k)" if "k < e" for k
    using nth_exchange [OF ys, of k] that st by simp
  have l: "length ys = length xs" using ys by (auto simp: exchange_def elem_def split: bind_splits if_splits)
  have "le (ys ! i) v \<and> le v (ys ! i)" if "a \<le> i" "i < pa" for i using n [of i] that st c(1) by auto
  moreover have "\<not> le v (ys ! i)" if "pa \<le> i" "i < pb" for i using n [of i] that st c(1) by auto
  moreover have "\<not> le (ys ! i) v" if "pc - 1 < i" "i \<le> pd - 1" for i
  proof (cases "i = pc")
    case True
    then have "ys ! i = xs ! pd" "pc < pd" using n [of i] that st c(1) by auto
    then show ?thesis using st by simp
  next
    case False
    then have "ys ! i = xs ! i" "pc < i" "i \<le> pd" using n [of i] that st c(1) by auto
    then show ?thesis using st by simp
  qed
  moreover have "le (ys ! i) v \<and> le v (ys ! i)" if "pd - 1 < i" "i < e" for i
    using n [of i] that st c by (cases "i = pd") auto
  ultimately show "stretches cmp v ys a e pa pb (pc - 1) (pd - 1)"
    using st l c(1) n [of a] unfolding stretches_def by auto
  show "ys ! pb = xs ! pb" using n [of pb] c(1) st by auto
qed

lemma stretches_down_above:
  assumes st: "stretches cmp v xs a e pa pb pc pd" and c: "pb \<le> pc" "\<not> le (xs ! pc) v"
  shows "stretches cmp v xs a e pa pb (pc - 1) pd"
proof -
  note st = st [unfolded stretches_def]
  have "\<not> le (xs ! i) v" if "pc - 1 < i" "i \<le> pd" for i using that st c by (cases "i = pc") auto
  then show ?thesis using st c(1) unfolding stretches_def by auto
qed

lemma stretches_up_equal:
  assumes st: "stretches cmp v xs a e pa pb pc pd" and ys: "exchange xs pa pb = Some ys"
    and c: "pb \<le> pc" "le (xs ! pb) v" "le v (xs ! pb)"
  shows "stretches cmp v ys a e (pa + 1) (pb + 1) pc pd"
proof -
  note st = st [unfolded stretches_def]
  have n: "ys ! k = (if k = pb then xs ! pa else if k = pa then xs ! pb else xs ! k)" if "k < e" for k
    using nth_exchange [OF ys, of k] that st by simp
  have l: "length ys = length xs" using ys by (auto simp: exchange_def elem_def split: bind_splits if_splits)
  have "le (ys ! i) v \<and> le v (ys ! i)" if "a \<le> i" "i < pa + 1" for i
    using n [of i] that st c by (cases "i = pa") auto
  moreover have "\<not> le v (ys ! i)" if "pa + 1 \<le> i" "i < pb + 1" for i
  proof (cases "i = pb")
    case True
    then have "ys ! i = xs ! pa" "pa < pb" using n [of i] that st c(1) by auto
    then show ?thesis using st by simp
  next
    case False
    then have "ys ! i = xs ! i" "pa \<le> i" "i < pb" using n [of i] that st c(1) by auto
    then show ?thesis using st by simp
  qed
  moreover have "\<not> le (ys ! i) v" if "pc < i" "i \<le> pd" for i using n [of i] that st c(1) by auto
  moreover have "le (ys ! i) v \<and> le v (ys ! i)" if "pd < i" "i < e" for i using n [of i] that st c(1) by auto
  ultimately show ?thesis using st l c(1) n [of a] unfolding stretches_def by auto
qed

lemma stretches_up_below:
  assumes st: "stretches cmp v xs a e pa pb pc pd" and c: "pb \<le> pc" "\<not> le v (xs ! pb)"
  shows "stretches cmp v xs a e pa (pb + 1) pc pd"
proof -
  note st = st [unfolded stretches_def]
  have "\<not> le v (xs ! i)" if "pa \<le> i" "i < pb + 1" for i using that st c by (cases "i = pb") auto
  then show ?thesis using st c(1) unfolding stretches_def by auto
qed

lemma scan_up_ok:
  "oks xs \<Longrightarrow> stretches cmp v xs a e pa pb pc pd \<Longrightarrow>
   \<exists>ys pa' pb' s'. scan_up cmp a pc xs pa pb s = Some (ys, pa', pb', s') \<and> perm_within a e xs ys \<and>
     stretches cmp v ys a e pa' pb' pc pd \<and> pb \<le> pb' \<and> (pb' \<le> pc \<longrightarrow> \<not> le (ys ! pb') v)"
proof (induction "Suc pc - pb" arbitrary: xs pa pb s rule: less_induct)
  case less
  note st = less.prems(2) [unfolded stretches_def]
  show ?case
  proof (cases "pb \<le> pc")
    case False
    then show ?thesis using less.prems perm_refl by (auto simp: scan_up.simps)
  next
    case True
    then have m: "Suc pc - Suc pb < Suc pc - pb" by linarith
    obtain c where c: "cmp_at cmp xs pb a = Some c" "c \<le> 0 \<longleftrightarrow> le (xs ! pb) v" "0 \<le> c \<longleftrightarrow> le v (xs ! pb)"
      using cmp_at_le [of xs pb a] less.prems(1) st True by auto
    consider "c > 0" | "c = 0" | "c < 0" by linarith
    then show ?thesis
    proof cases
      case 1
      then have "scan_up cmp a pc xs pa pb s = Some (xs, pa, pb, s)" "\<not> le (xs ! pb) v"
        using True c by (auto simp: scan_up.simps [of cmp a pc xs pa pb])
      then show ?thesis using less.prems(2) perm_refl by blast
    next
      case 2
      obtain ys where ys: "exchange xs pa pb = Some ys" "perm_within a e xs ys"
        using exchange_ok [of a pa e pb xs] st True by auto
      have "stretches cmp v ys a e (pa + 1) (pb + 1) pc pd"
        using stretches_up_equal [OF less.prems(2) ys(1) True] 2 c by auto
      then obtain zs pa' pb' s' where "scan_up cmp a pc ys (pa + 1) (pb + 1) True = Some (zs, pa', pb', s')"
        "perm_within a e ys zs" "stretches cmp v zs a e pa' pb' pc pd" "pb + 1 \<le> pb'"
        "pb' \<le> pc \<longrightarrow> \<not> le (zs ! pb') v"
        using less.hyps [of "pb + 1" ys "pa + 1" True] oks_perm [OF less.prems(1) ys(2)] m by auto
      moreover have "scan_up cmp a pc xs pa pb s = scan_up cmp a pc ys (pa + 1) (pb + 1) True"
        using True c(1) 2 ys(1) by (simp add: scan_up.simps [of cmp a pc xs pa pb])
      ultimately show ?thesis using perm_trans [OF ys(2)] by auto
    next
      case 3
      have "stretches cmp v xs a e pa (pb + 1) pc pd"
        using stretches_up_below [OF less.prems(2) True] 3 c by auto
      then obtain zs pa' pb' s' where "scan_up cmp a pc xs pa (pb + 1) s = Some (zs, pa', pb', s')"
        "perm_within a e xs zs" "stretches cmp v zs a e pa' pb' pc pd" "pb + 1 \<le> pb'"
        "pb' \<le> pc \<longrightarrow> \<not> le (zs ! pb') v"
        using less.hyps [of "pb + 1" xs pa s] less.prems(1) m by auto
      moreover have "scan_up cmp a pc xs pa pb s = scan_up cmp a pc xs pa (pb + 1) s"
        using True c(1) 3 by (simp add: scan_up.simps [of cmp a pc xs pa pb])
      ultimately show ?thesis by auto
    qed
  qed
qed

lemma scan_down_ok:
  "oks xs \<Longrightarrow> stretches cmp v xs a e pa pb pc pd \<Longrightarrow> pb \<le> pc \<longrightarrow> \<not> le (xs ! pb) v \<Longrightarrow>
   \<exists>ys pc' pd' s'. scan_down cmp a pb xs pc pd s = Some (ys, pc', pd', s') \<and> perm_within a e xs ys \<and>
     stretches cmp v ys a e pa pb pc' pd' \<and> pc' \<le> pc \<and>
     (pb \<le> pc' \<longrightarrow> \<not> le (ys ! pb) v \<and> \<not> le v (ys ! pc'))"
proof (induction pc arbitrary: xs pd s rule: less_induct)
  case (less pc)
  note st = less.prems(2) [unfolded stretches_def]
  show ?case
  proof (cases "pb \<le> pc")
    case False
    then show ?thesis using less.prems perm_refl by (auto simp: scan_down.simps)
  next
    case True
    then have pos: "0 < pc" "0 < pd" using st by linarith+
    obtain c where c: "cmp_at cmp xs pc a = Some c" "c \<le> 0 \<longleftrightarrow> le (xs ! pc) v" "0 \<le> c \<longleftrightarrow> le v (xs ! pc)"
      using cmp_at_le [of xs pc a] less.prems(1) st True by auto
    consider "c < 0" | "c = 0" | "c > 0" by linarith
    then show ?thesis
    proof cases
      case 1
      then have "scan_down cmp a pb xs pc pd s = Some (xs, pc, pd, s)" "\<not> le v (xs ! pc)"
        using True c by (auto simp: scan_down.simps [of cmp a pb xs pc pd])
      then show ?thesis using less.prems(2,3) perm_refl True by blast
    next
      case 2
      then have ne: "pb < pc" using True less.prems(3) c by (cases "pb = pc") auto
      obtain ys where ys: "exchange xs pc pd = Some ys" "perm_within a e xs ys"
        using exchange_ok [of a pc e pd xs] st True by auto
      have "stretches cmp v ys a e pa pb (pc - 1) (pd - 1)" "\<not> le (ys ! pb) v"
        using stretches_down_equal [OF less.prems(2) ys(1) ne] less.prems(3) 2 c True by auto
      then obtain zs pc' pd' s' where "scan_down cmp a pb ys (pc - 1) (pd - 1) True = Some (zs, pc', pd', s')"
        "perm_within a e ys zs" "stretches cmp v zs a e pa pb pc' pd'" "pc' \<le> pc - 1"
        "pb \<le> pc' \<longrightarrow> \<not> le (zs ! pb) v \<and> \<not> le v (zs ! pc')"
        using less.IH [of "pc - 1" ys "pd - 1" True] oks_perm [OF less.prems(1) ys(2)] pos by auto
      moreover have "scan_down cmp a pb xs pc pd s = scan_down cmp a pb ys (pc - 1) (pd - 1) True"
        using True c(1) 2 ys(1) pos by (simp add: scan_down.simps [of cmp a pb xs pc pd] prev_def)
      ultimately show ?thesis using perm_trans [OF ys(2)] by auto
    next
      case 3
      have "stretches cmp v xs a e pa pb (pc - 1) pd"
        using stretches_down_above [OF less.prems(2) True] 3 c by auto
      then obtain zs pc' pd' s' where "scan_down cmp a pb xs (pc - 1) pd s = Some (zs, pc', pd', s')"
        "perm_within a e xs zs" "stretches cmp v zs a e pa pb pc' pd'" "pc' \<le> pc - 1"
        "pb \<le> pc' \<longrightarrow> \<not> le (zs ! pb) v \<and> \<not> le v (zs ! pc')"
        using less.IH [of "pc - 1" xs pd s] less.prems(1,3) pos by auto
      moreover have "scan_down cmp a pb xs pc pd s = scan_down cmp a pb xs (pc - 1) pd s"
        using True c(1) 3 pos by (simp add: scan_down.simps [of cmp a pb xs pc pd] prev_def)
      ultimately show ?thesis by auto
    qed
  qed
qed

lemma partition_loop_ok:
  "oks xs \<Longrightarrow> stretches cmp v xs a e pa pb pc pd \<Longrightarrow>
   \<exists>ys pa' pb' pc' pd' s'. partition_loop cmp a xs pa pb pc pd s = Some (ys, pa', pb', pc', pd', s') \<and>
     perm_within a e xs ys \<and> stretches cmp v ys a e pa' pb' pc' pd' \<and> pb' = Suc pc'"
proof (induction "Suc pc - pb" arbitrary: xs pa pb pc pd s rule: less_induct)
  case less
  obtain ys pa' pb' s1 where up: "scan_up cmp a pc xs pa pb s = Some (ys, pa', pb', s1)" "perm_within a e xs ys"
    "stretches cmp v ys a e pa' pb' pc pd" "pb \<le> pb'" "pb' \<le> pc \<longrightarrow> \<not> le (ys ! pb') v"
    using scan_up_ok [OF less.prems, of s] by blast
  have ok: "oks ys" using oks_perm [OF less.prems(1) up(2)] .
  obtain zs pc' pd' s2 where down: "scan_down cmp a pb' ys pc pd s1 = Some (zs, pc', pd', s2)" "perm_within a e ys zs"
    "stretches cmp v zs a e pa' pb' pc' pd'" "pc' \<le> pc" "pb' \<le> pc' \<longrightarrow> \<not> le (zs ! pb') v \<and> \<not> le v (zs ! pc')"
    using scan_down_ok [OF ok up(3,5), of s1] by blast
  have z: "oks zs" "perm_within a e xs zs" using oks_perm [OF ok down(2)] perm_trans [OF up(2) down(2)] by auto
  note st = down(3) [unfolded stretches_def]
  show ?case
  proof (cases "pb' > pc'")
    case True
    have "partition_loop cmp a xs pa pb pc pd s = Some (zs, pa', pb', pc', pd', s2)"
      using True by (subst partition_loop.simps) (simp add: up(1) down(1))
    moreover have "pb' = Suc pc'" using True st by linarith
    ultimately show ?thesis using z(2) down(3) by blast
  next
    case False
    then have ne: "pb' < pc'" using down(5) z(1) st le_total [of "zs ! pc'" v] by (cases "pb' = pc'") auto
    obtain ws where ws: "exchange zs pb' pc' = Some ws" "perm_within a e zs ws"
      using exchange_ok [of a pb' e pc' zs] st ne by auto
    have n: "ws ! k = (if k = pc' then zs ! pb' else if k = pb' then zs ! pc' else zs ! k)" if "k < e" for k
      using nth_exchange [OF ws(1), of k] that st by simp
    have "\<not> le v (ws ! i)" if "pa' \<le> i" "i < pb' + 1" for i
      using n [of i] that st ne down(5) by (cases "i = pb'") auto
    moreover have "\<not> le (ws ! i) v" if "pc' - 1 < i" "i \<le> pd'" for i
      using n [of i] that st ne down(5) by (cases "i = pc'") auto
    moreover have "ws ! i = zs ! i" if "i < pa' \<or> pd' < i" "i < e" for i using n [of i] that st ne by auto
    moreover have "length ws = length zs" by (rule perm_length [OF ws(2)])
    ultimately have "stretches cmp v ws a e pa' (pb' + 1) (pc' - 1) pd'"
      using st ne unfolding stretches_def by auto
    moreover have "Suc (pc' - 1) - (pb' + 1) < Suc pc - pb" using ne down(4) up(4) by linarith
    moreover have "oks ws" using oks_perm [OF z(1) ws(2)] .
    ultimately obtain us pa2 pb2 pc2 pd2 s3 where r: "partition_loop cmp a ws pa' (pb' + 1) (pc' - 1) pd' True =
        Some (us, pa2, pb2, pc2, pd2, s3)" "perm_within a e ws us" "stretches cmp v us a e pa2 pb2 pc2 pd2"
        "pb2 = Suc pc2"
      using less.hyps [of "pc' - 1" "pb' + 1" ws pa' pd' True] by blast
    have "partition_loop cmp a xs pa pb pc pd s = Some (us, pa2, pb2, pc2, pd2, s3)"
      using False ne r(1) by (subst partition_loop.simps) (simp add: up(1) down(1) ws(1) prev_def)
    moreover have "perm_within a e xs us" using perm_trans [OF perm_trans [OF z(2) ws(2)] r(2)] .
    ultimately show ?thesis using r(3,4) by blast
  qed
qed

text \<open>The two block exchanges.\<close>

lemma blocks_ok:
  assumes st: "stretches cmp v xs a e pa pb pc pd" and pb: "pb = Suc pc"
  shows "\<exists>ys zs. vecswap xs a (pb - min (pa - a) (pb - pa)) (min (pa - a) (pb - pa)) = Some ys \<and>
    vecswap ys pb (e - min (pd - pc) (e - pd - 1)) (min (pd - pc) (e - pd - 1)) = Some zs \<and>
    perm_within a e xs zs \<and> zones cmp v zs a e (pb - pa) (pd - pc)"
proof -
  note st = st [unfolded stretches_def]
  let ?eq = "\<lambda>x. le x v \<and> le v x"
  obtain ys where ys: "vecswap xs a (pb - min (pa - a) (pb - pa)) (min (pa - a) (pb - pa)) = Some ys"
    "perm_within a pb xs ys" "\<forall>k. a \<le> k \<and> k < a + (pb - pa) \<longrightarrow> \<not> le v (ys ! k)"
    "\<forall>k. a + (pb - pa) \<le> k \<and> k < pb \<longrightarrow> ?eq (ys ! k)"
    using vecswap_rotates [OF _ _ _ _ _ refl, of a a pa pb e xs ?eq "\<lambda>x. \<not> le v x"] st pb by auto
  have y: "ys ! k = xs ! k" "length ys = length xs" if "pb \<le> k" "k < e" for k
    using perm_outside [OF ys(2), of k] perm_length [OF ys(2)] that st by auto
  have m: "pd - pc = Suc pd - pb" "e - pd - 1 = e - Suc pd" using pb by auto
  have "\<exists>zs. vecswap ys pb (e - min (pd - pc) (e - pd - 1)) (min (pd - pc) (e - pd - 1)) = Some zs \<and>
    perm_within pb e ys zs \<and> (\<forall>k. pb \<le> k \<and> k < pb + (e - Suc pd) \<longrightarrow> ?eq (zs ! k)) \<and>
    (\<forall>k. pb + (e - Suc pd) \<le> k \<and> k < e \<longrightarrow> \<not> le (zs ! k) v)"
    unfolding m
  proof (rule vecswap_rotates [OF _ _ _ _ _ refl])
    show "pb \<le> pb" "pb \<le> Suc pd" "Suc pd \<le> e" "e \<le> e" "e \<le> length ys"
      using st pb perm_length [OF ys(2)] by auto
    show "\<not> le (ys ! k) v" if "pb \<le> k" "k < Suc pd" for k using y(1) [of k] that st pb by auto
    show "?eq (ys ! k)" if "Suc pd \<le> k" "k < e" for k using y(1) [of k] that st pb by auto
  qed
  then obtain zs where zs: "vecswap ys pb (e - min (pd - pc) (e - pd - 1)) (min (pd - pc) (e - pd - 1)) = Some zs"
    "perm_within pb e ys zs" "\<forall>k. pb \<le> k \<and> k < pb + (e - Suc pd) \<longrightarrow> ?eq (zs ! k)"
    "\<forall>k. pb + (e - Suc pd) \<le> k \<and> k < e \<longrightarrow> \<not> le (zs ! k) v" by blast
  have z: "zs ! k = ys ! k" if "k < pb" for k
    using perm_outside [OF zs(2), of k] perm_length [OF ys(2)] that st by auto
  have "perm_within a e xs zs"
    using perm_widen [OF ys(2), of a e] perm_widen [OF zs(2), of a e] perm_trans st by force
  moreover have "zones cmp v zs a e (pb - pa) (pd - pc)"
    unfolding zones_def
  proof (intro conjI allI impI; (elim conjE)?)
    show "a + (pb - pa) + (pd - pc) \<le> e" using st pb by auto
    show "e \<le> length zs" using st perm_length [OF ys(2)] perm_length [OF zs(2)] by auto
    show "\<not> le v (zs ! i)" if "a \<le> i" "i < a + (pb - pa)" for i
      using ys(3) z [of i] that st pb by auto
    have e: "?eq (zs ! i)" if "a + (pb - pa) \<le> i" "i < e - (pd - pc)" for i
      using ys(4) zs(3) z [of i] that st pb by (cases "i < pb") auto
    then show "le (zs ! i) v" "le v (zs ! i)" if "a + (pb - pa) \<le> i" "i < e - (pd - pc)" for i
      using that by auto
    show "\<not> le (zs ! i) v" if "e - (pd - pc) \<le> i" "i < e" for i
      using zs(4) that st pb by auto
  qed
  ultimately show ?thesis using ys(1) zs(1) by blast
qed

end

section \<open>The sort places the range\<close>

context comparison
begin

lemma med3_ok:
  assumes "oks xs" "a < length xs" "b < length xs" "c < length xs"
  shows "\<exists>m. med3 cmp xs a b c = Some m \<and> (m = a \<or> m = b \<or> m = c)"
proof -
  obtain ab bc ac where "cmp_at cmp xs a b = Some ab" "cmp_at cmp xs b c = Some bc" "cmp_at cmp xs a c = Some ac"
    using cmp_at_le assms by metis
  then show ?thesis by (simp add: med3_def)
qed

lemma choose_pivot_ok:
  assumes "oks xs" "a + n \<le> length xs" "7 \<le> n"
  shows "\<exists>m. choose_pivot cmp xs a n = Some m \<and> a \<le> m \<and> m < a + n"
proof (cases "n > 40")
  case True
  let ?d = "n div 8" and ?pm = "a + n div 2" and ?pn = "a + n - 1"
  have b: "2 * ?d \<le> n - 1" "?d \<le> n div 2" "n div 2 + ?d < n" using True by linarith+
  obtain l where l: "med3 cmp xs a (a + ?d) (a + 2 * ?d) = Some l" "a \<le> l" "l < a + n"
    using med3_ok [OF assms(1), of a "a + ?d" "a + 2 * ?d"] assms(2) b True by fastforce
  obtain m where m: "med3 cmp xs (?pm - ?d) ?pm (?pm + ?d) = Some m" "a \<le> m" "m < a + n"
    using med3_ok [OF assms(1), of "?pm - ?d" ?pm "?pm + ?d"] assms(2) b True by fastforce
  obtain h where h: "med3 cmp xs (?pn - 2 * ?d) (?pn - ?d) ?pn = Some h" "a \<le> h" "h < a + n"
    using med3_ok [OF assms(1), of "?pn - 2 * ?d" "?pn - ?d" ?pn] assms(2) b True by fastforce
  show ?thesis
    using med3_ok [OF assms(1), of l m h] l m h assms(2) True by (auto simp: choose_pivot_def Let_def)
next
  case False
  have b: "a + n div 2 < a + n" "a + n - 1 < a + n" "a \<le> a + n - 1" using assms(3) by linarith+
  then have l: "a < length xs" "a + n div 2 < length xs" "a + n - 1 < length xs" using assms(2) by linarith+
  obtain m where m: "med3 cmp xs a (a + n div 2) (a + n - 1) = Some m" "m = a \<or> m = a + n div 2 \<or> m = a + n - 1"
    using med3_ok [OF assms(1) l] by blast
  then have "a \<le> m" "m < a + n" using b by auto
  then show ?thesis using False m(1) b by (simp add: choose_pivot_def Let_def)
qed

lemma ordered_placed: "ordered cmp xs a e \<Longrightarrow> placed cmp lrange rrange xs a e"
  by (auto simp: ordered_def placed_def)

lemma stretches_start:
  assumes "oks xs" "a + n \<le> length xs" "2 \<le> n"
  shows "stretches cmp (xs ! a) xs a (a + n) (a + 1) (a + 1) (a + n - 1) (a + n - 1)"
proof -
  have "le (xs ! a) (xs ! a)" using le_refl assms by auto
  then show ?thesis using assms by (auto simp: stretches_def less_Suc_eq)
qed

lemma zones_perm:
  assumes z: "zones cmp v xs a e l r" and p: "perm_within a (a + l) xs ys \<or> perm_within (e - r) e xs ys"
  shows "zones cmp v ys a e l r"
proof -
  note z = z [unfolded zones_def]
  have len: "length ys = length xs" using p perm_length by blast
  have "\<not> le v (ys ! i)" if i: "a \<le> i" "i < a + l" for i
    using p
  proof
    assume "perm_within a (a + l) xs ys"
    then show ?thesis using perm_all [of a "a + l" xs ys "\<lambda>x. \<not> le v x" i] z i by auto
  next
    assume "perm_within (e - r) e xs ys"
    then show ?thesis using perm_outside [of "e - r" e xs ys i] z i by auto
  qed
  moreover have "ys ! i = xs ! i" if i: "a + l \<le> i" "i < e - r" for i
    using p perm_outside [of a "a + l" xs ys i] perm_outside [of "e - r" e xs ys i] z i by auto
  moreover have "\<not> le (ys ! i) v" if i: "e - r \<le> i" "i < e" for i
    using p
  proof
    assume "perm_within a (a + l) xs ys"
    moreover have "a + l \<le> i" using z i by linarith
    ultimately show ?thesis using perm_outside [of a "a + l" xs ys i] z i by auto
  next
    assume "perm_within (e - r) e xs ys"
    then show ?thesis using perm_all [of "e - r" e xs ys "\<lambda>x. \<not> le x v" i] z i by auto
  qed
  ultimately show ?thesis using z len unfolding zones_def by auto
qed

lemma zones_placed:
  assumes ok: "oks xs" "ok v" and z: "zones cmp v xs a e l r"
    and p: "placed cmp lrange rrange xs a (a + l)" "placed cmp lrange rrange xs (e - r) e"
  shows "placed cmp lrange rrange xs a e"
  unfolding placed_def
proof (intro allI impI, elim conjE)
  fix i j assume ij: "a \<le> i" "i < j" "j < e" and range: "lrange \<le> int i \<and> int i \<le> rrange \<or> lrange \<le> int j \<and> int j \<le> rrange"
  note z = z [unfolded zones_def]
  have o: "ok (xs ! k)" if "k < e" for k using ok(1) z that by auto
  have low: "le (xs ! k) v" if "a \<le> k" "k < e - r" for k
    using that z le_total [OF o ok(2), of k] by (cases "k < a + l") auto
  have high: "le v (xs ! k)" if "a + l \<le> k" "k < e" for k
    using that z le_total [OF o ok(2), of k] by (cases "k < e - r") auto
  consider "j < a + l" | "e - r \<le> i" | "i < e - r" "a + l \<le> j" by linarith
  then show "le (xs ! i) (xs ! j)"
  proof cases
    case 1
    then show ?thesis using p(1) ij range unfolding placed_def by blast
  next
    case 2
    then show ?thesis using p(2) ij range unfolding placed_def by blast
  next
    case 3
    then show ?thesis using transitive [of "xs ! i" v "xs ! j"] low [of i] high [of j] o ok(2) ij by auto
  qed
qed

text \<open>A segment that is left aside holds no position of the range.\<close>

lemma segment_ok:
  assumes "1 < r \<Longrightarrow> \<exists>ys. pqsort_from cmp lrange rrange xs b r = Some ys \<and> perm_within b (b + r) xs ys \<and>
      placed cmp lrange rrange ys b (b + r)"
  shows "\<exists>ys. (if r > 1 \<and> \<not> outside lrange rrange b r then pqsort_from cmp lrange rrange xs b r else Some xs) =
      Some ys \<and> perm_within b (b + r) xs ys \<and> placed cmp lrange rrange ys b (b + r)"
proof (cases "r > 1 \<and> \<not> outside lrange rrange b r")
  case False
  then have "placed cmp lrange rrange xs b (b + r)" by (auto simp: placed_def outside_def)
  then show ?thesis using False perm_refl by auto
qed (use assms in auto)

lemma placed_perm:
  assumes "placed cmp lrange rrange xs a b" "perm_within b' e' xs ys" "b \<le> b'" "b' \<le> length xs"
  shows "placed cmp lrange rrange ys a b"
proof -
  have "ys ! i = xs ! i" if "i < b" for i using perm_outside [OF assms(2), of i] that assms(3,4) by auto
  then show ?thesis using assms(1) unfolding placed_def by auto
qed

lemma pqsort_from_ok:
  "oks xs \<Longrightarrow> a + n \<le> length xs \<Longrightarrow>
   \<exists>ys. pqsort_from cmp lrange rrange xs a n = Some ys \<and> perm_within a (a + n) xs ys \<and>
     placed cmp lrange rrange ys a (a + n)"
proof (induction n arbitrary: xs a rule: less_induct)
  case (less n)
  let ?e = "a + n"
  show ?case
  proof (cases "n < 7")
    case True
    then show ?thesis using insertion_sort_ok [OF less.prems] ordered_placed
      by (subst pqsort_from.simps) auto
  next
    case False
    obtain m where m: "choose_pivot cmp xs a n = Some m" "a \<le> m" "m < ?e"
      using choose_pivot_ok [OF less.prems] False by auto
    obtain x1 where x1: "exchange xs a m = Some x1" "perm_within a ?e xs x1"
      using exchange_ok [of a a ?e m xs] m False less.prems by auto
    have o1: "oks x1" "?e \<le> length x1" using oks_perm [OF less.prems(1) x1(2)] perm_length [OF x1(2)] less.prems by auto
    obtain x2 pa pb pc pd s where x2: "partition_loop cmp a x1 (a + 1) (a + 1) (a + n - 1) (a + n - 1) False =
        Some (x2, pa, pb, pc, pd, s)" "perm_within a ?e x1 x2" "stretches cmp (x1 ! a) x2 a ?e pa pb pc pd" "pb = Suc pc"
      using partition_loop_ok [OF o1(1) stretches_start, of a n False] o1(2) False o1(1) by auto
    have o2: "oks x2" "?e \<le> length x2" "perm_within a ?e xs x2"
      using oks_perm [OF o1(1) x2(2)] perm_length [OF x2(2)] o1(2) perm_trans [OF x1(2) x2(2)] by auto
    show ?thesis
    proof (cases s)
      case s: False
      then show ?thesis using insertion_sort_ok [OF o2(1,2)] ordered_placed perm_trans [OF o2(3)] False
        by (subst pqsort_from.simps) (auto simp: m(1) x1(1) x2(1) [simplified])
    next
      case s: True
      let ?l = "pb - pa" and ?r = "pd - pc"
      obtain x3 x4 where x3: "vecswap x2 a (pb - min (pa - a) ?l) (min (pa - a) ?l) = Some x3"
        "vecswap x3 pb (?e - min ?r (?e - pd - 1)) (min ?r (?e - pd - 1)) = Some x4"
        "perm_within a ?e x2 x4" "zones cmp (x1 ! a) x4 a ?e ?l ?r"
        using blocks_ok [OF x2(3,4)] by blast
      have sz: "?l < n" "?r < n" "a + ?l + ?r \<le> ?e" "?e - ?r + ?r = ?e"
        using x2(3,4) x3(4) unfolding stretches_def zones_def by linarith+
      have o4: "oks x4" "?e \<le> length x4" "perm_within a ?e xs x4"
        using oks_perm [OF o2(1) x3(3)] perm_length [OF x3(3)] o2(2) perm_trans [OF o2(3) x3(3)] by auto
      have "\<exists>ys. pqsort_from cmp lrange rrange x4 a ?l = Some ys \<and> perm_within a (a + ?l) x4 ys \<and>
          placed cmp lrange rrange ys a (a + ?l)"
        by (rule less.IH [OF sz(1) o4(1)]) (use o4(2) sz(3) in linarith)
      then obtain x5 where x5: "(if ?l > 1 \<and> \<not> outside lrange rrange a ?l then pqsort_from cmp lrange rrange x4 a ?l
          else Some x4) = Some x5" "perm_within a (a + ?l) x4 x5" "placed cmp lrange rrange x5 a (a + ?l)"
        using segment_ok [of ?l lrange rrange x4 a] by blast
      have o5: "oks x5" "?e \<le> length x5" "zones cmp (x1 ! a) x5 a ?e ?l ?r" "perm_within a ?e xs x5"
        using oks_perm [OF o4(1) x5(2)] perm_length [OF x5(2)] o4(2) zones_perm [OF x3(4)] x5(2)
          perm_trans [OF o4(3) perm_widen [OF x5(2)]] sz(3) by auto
      have "\<exists>ys. pqsort_from cmp lrange rrange x5 (?e - ?r) ?r = Some ys \<and>
          perm_within (?e - ?r) (?e - ?r + ?r) x5 ys \<and> placed cmp lrange rrange ys (?e - ?r) (?e - ?r + ?r)"
        by (rule less.IH [OF sz(2) o5(1)]) (use o5(2) sz(4) in linarith)
      then obtain x6 where x6: "(if ?r > 1 \<and> \<not> outside lrange rrange (?e - ?r) ?r
          then pqsort_from cmp lrange rrange x5 (?e - ?r) ?r else Some x5) = Some x6"
          "perm_within (?e - ?r) ?e x5 x6" "placed cmp lrange rrange x6 (?e - ?r) ?e"
        using segment_ok [of ?r lrange rrange x5 "?e - ?r"] unfolding sz(4) by blast
      have o6: "oks x6" "zones cmp (x1 ! a) x6 a ?e ?l ?r" "perm_within a ?e xs x6"
        "placed cmp lrange rrange x6 a (a + ?l)"
        using oks_perm [OF o5(1) x6(2)] zones_perm [OF o5(3)] x6(2)
          perm_trans [OF o5(4) perm_widen [OF x6(2)]] placed_perm [OF x5(3) x6(2)] sz(3) o5(2) by auto
      have "ok (x1 ! a)" using o1 False by auto
      then have "placed cmp lrange rrange x6 a ?e" using zones_placed o6 x6(3) by blast
      moreover have "pqsort_from cmp lrange rrange xs a n = Some x6"
        using False s by (subst pqsort_from.simps) (simp add: m(1) x1(1) x2(1) [simplified] x3(1) x3(2) [simplified]
            x5(1) [simplified] x6(1) [simplified] Let_def)
      ultimately show ?thesis using o6(3) by blast
    qed
  qed
qed

lemma pqsort_ok:
  assumes "oks xs" "n \<le> length xs"
  shows "\<exists>ys. pqsort cmp xs n lrange rrange = Some ys \<and> length ys = length xs \<and> mset ys = mset xs \<and>
    drop n ys = drop n xs \<and> placed cmp lrange rrange ys 0 n"
  using pqsort_from_ok [of xs 0 n lrange rrange] assms by (auto simp: pqsort_def perm_within_def)

end

end
