(* ===== verification/Sort.thy ===== *)
theory Sort
  imports Pqsort Keyspace Client
begin

text \<open>
  The command \<open>SORT\<close> (\<open>apps/redis-2.0.4/redis.c\<close>, lines 480-491 and 6861-7232): the elements of a list,
  set or sorted set are ordered by themselves or by the values of other keys, and a part of them, or values
  that belong to them, is sent or stored.

  The command is a function of the elements its key holds, in the order in which the code loads them into
  the vector, of its arguments after the key, and of the database the patterns refer to. It returns the
  reply, the list it stores, and the database. The program never calls \<open>setlocale\<close>, so \<open>strcoll\<close> is
  \<open>strcmp\<close>. \<open>strtod\<close>, the conversion of a number to a double and \<open>qsort\<close> of the C library are arguments.
  \<open>strtod\<close> reads texts such as \<open>nan\<close> as NaN, so a score is a number or NaN, written \<open>None\<close>, and NaN
  compares as the code's comparisons do: it is neither greater nor less than anything. \<open>int\<close>s wrap around.
  Reference counts are not modelled.
\<close>

section \<open>Values by pattern\<close>

definition REDIS_SORTKEY_MAX :: nat where "REDIS_SORTKEY_MAX = 1024"

text \<open>\<open>strchr(s, c)\<close> and \<open>strstr(s, "->")\<close>: the index in the text, which ends with its first zero.\<close>

fun index_char :: "u8 \<Rightarrow> bytes \<Rightarrow> nat option" where
  "index_char c [] = None"
| "index_char c (x # s) = (if x = c then Some 0 else if x = 0 then None else map_option Suc (index_char c s))"

fun index_arrow :: "bytes \<Rightarrow> nat option" where
  "index_arrow (x # y # s) =
     (if x = 45 \<and> y = 62 then Some 0 else if x = 0 then None else map_option Suc (index_arrow (y # s)))"
| "index_arrow _ = None"

text \<open>A copy into one of the two buffers.\<close>

definition sortkey_room :: "nat \<Rightarrow> unit option" where
  "sortkey_room n = (if n \<le> REDIS_SORTKEY_MAX + 1 then Some () else None)"

text \<open>The name of the key, and that of the field: \<open>None\<close> inside when the function returns \<open>NULL\<close> before
  the lookup. The length of the sum is unsigned.\<close>

definition pattern_names :: "bytes \<Rightarrow> bytes \<Rightarrow> (bytes \<times> bytes option) option option" where
  "pattern_names spat ssub =
     (if length spat + length ssub = 0 \<or> length spat + length ssub - 1 > REDIS_SORTKEY_MAX then Some None
      else case index_char 42 spat of
        None \<Rightarrow> Some None
      | Some p \<Rightarrow> do {
          let f = map_option (\<lambda>i. p + 1 + i) (index_arrow (drop (p + 1) spat));
          let fieldlen = (case f of Some f \<Rightarrow> length spat - f | None \<Rightarrow> 0);
          fieldname \<leftarrow> (case f of
              Some f \<Rightarrow> do { _ \<leftarrow> sortkey_room (fieldlen - 1);
                            b \<leftarrow> peek (spat @ [0]) (f + 2) (fieldlen - 1);
                            Some (Some (take (fieldlen - 2) b)) }
            | None \<Rightarrow> Some None);
          let prefixlen = p;
          let sublen = length ssub;
          let postfixlen = length spat - (prefixlen + 1) - fieldlen;
          _ \<leftarrow> sortkey_room (prefixlen + sublen + postfixlen + 1);
          pre \<leftarrow> peek spat 0 prefixlen;
          post \<leftarrow> peek spat (p + 1) postfixlen;
          Some (Some (pre @ ssub @ post, fieldname)) })"

definition lookupKeyByPattern ::
  "int \<Rightarrow> 's rvalue kdb \<Rightarrow> bytes \<Rightarrow> sobj \<Rightarrow> (sobj option \<times> 's rvalue kdb) option"
where
  "lookupKeyByPattern now db spat subst =
     (if take 2 (spat @ [0]) = [35, 0] then Some (Some subst, db)
      else do {
        ssub \<leftarrow> getDecodedObject subst;
        names \<leftarrow> pattern_names spat ssub;
        case names of
          None \<Rightarrow> Some (None, db)
        | Some (keyname, fieldname) \<Rightarrow> do {
            (r, db1) \<leftarrow> lookupKeyRead now db keyname;
            case r of
              None \<Rightarrow> Some (None, db1)
            | Some (pos, v) \<Rightarrow>
                (case fieldname of
                   Some field \<Rightarrow>
                     (case v of
                        VHash h \<Rightarrow>
                          if length field < 1 then Some (None, db1)
                          else do {
                            (x, h') \<leftarrow> hashGet h (Raw field);
                            Some (x, db1\<lparr>kdict := set_val pos (VHash h') (kdict db1)\<rparr>) }
                      | _ \<Rightarrow> Some (None, db1))
                 | None \<Rightarrow> (case v of VString ob \<Rightarrow> Some (Some ob, db1) | _ \<Rightarrow> Some (None, db1))) } })"

section \<open>The vector and its order\<close>

text \<open>The union \<open>u\<close> of an entry of the vector is its score in a numeric sort and the object to compare by in
  an alphabetic one; the code never reads the one it did not write. A score of \<open>None\<close> is NaN.\<close>

record 's sort_object =
  obj_of :: sobj
  score_of :: "'s option"
  cmp_of :: "bytes option"

text \<open>\<open><\<close> on two doubles: no order holds with a NaN.\<close>

fun double_less :: "'s::linorder option \<Rightarrow> 's option \<Rightarrow> bool" where
  "double_less (Some a) (Some b) = (a < b)"
| "double_less _ _ = False"

definition sortCompare :: "bool \<Rightarrow> bool \<Rightarrow> bool \<Rightarrow> 's::linorder sort_object comparison" where
  "sortCompare desc alpha bypattern so1 so2 = do {
     cmp \<leftarrow>
       (if \<not> alpha then
          Some (if double_less (score_of so2) (score_of so1) then 1 else if double_less (score_of so1) (score_of so2) then - 1 else 0)
        else if bypattern then
          (case (cmp_of so1, cmp_of so2) of
             (None, None) \<Rightarrow> Some 0
           | (None, Some _) \<Rightarrow> Some (- 1)
           | (Some _, None) \<Rightarrow> Some 1
           | (Some s, Some t) \<Rightarrow> c_strcmp (s @ [0]) (t @ [0]))
        else compareStringObjects False (obj_of so1) (obj_of so2));
     Some (if desc then - cmp else cmp) }"

section \<open>The arguments\<close>

record sort_options =
  desc :: bool
  alpha :: bool
  limit_start :: int
  limit_count :: int
  sortby :: "bytes option"
  dontsort :: bool
  storekey :: "bytes option"
  operations :: "bytes list"

definition sort_defaults :: sort_options where
  "sort_defaults = \<lparr>desc = False, alpha = False, limit_start = 0, limit_count = - 1, sortby = None,
     dontsort = False, storekey = None, operations = []\<rparr>"

text \<open>\<open>Some None\<close> is a syntax error.\<close>

function parse_sort :: "bytes list \<Rightarrow> sort_options \<Rightarrow> sort_options option option" where
  "parse_sort [] opts = Some (Some opts)"
| "parse_sort (w # args) opts = do {
     asc \<leftarrow> same_text (w @ [0]) (ascii ''asc'' @ [0]);
     dsc \<leftarrow> same_text (w @ [0]) (ascii ''desc'' @ [0]);
     alp \<leftarrow> same_text (w @ [0]) (ascii ''alpha'' @ [0]);
     lim \<leftarrow> same_text (w @ [0]) (ascii ''limit'' @ [0]);
     sto \<leftarrow> same_text (w @ [0]) (ascii ''store'' @ [0]);
     by' \<leftarrow> same_text (w @ [0]) (ascii ''by'' @ [0]);
     get \<leftarrow> same_text (w @ [0]) (ascii ''get'' @ [0]);
     if asc then parse_sort args (opts\<lparr>desc := False\<rparr>)
     else if dsc then parse_sort args (opts\<lparr>desc := True\<rparr>)
     else if alp then parse_sort args (opts\<lparr>alpha := True\<rparr>)
     else if lim \<and> length args \<ge> 2 then do {
       s \<leftarrow> atoi (args ! 0 @ [0]);
       n \<leftarrow> atoi (args ! 1 @ [0]);
       parse_sort (drop 2 args) (opts\<lparr>limit_start := s, limit_count := n\<rparr>) }
     else if sto \<and> length args \<ge> 1 then parse_sort (drop 1 args) (opts\<lparr>storekey := Some (args ! 0)\<rparr>)
     else if by' \<and> length args \<ge> 1 then
       parse_sort (drop 1 args)
         (opts\<lparr>sortby := Some (args ! 0), dontsort := (dontsort opts \<or> index_char 42 (args ! 0) = None)\<rparr>)
     else if get \<and> length args \<ge> 1 then parse_sort (drop 1 args) (opts\<lparr>operations := operations opts @ [args ! 0]\<rparr>)
     else Some None }"
  by pat_completeness auto

termination
  by (relation "measure (\<lambda>(args, opts). length args)") auto

section \<open>The command\<close>

record 's sort_env =
  strtod_of :: "bytes \<Rightarrow> 's option"
  double_of :: "int \<Rightarrow> 's"
  qsort_of :: "'s sort_object comparison \<Rightarrow> 's sort_object list \<Rightarrow> 's sort_object list option"

text \<open>Loading the vector with the score or the object to compare by.\<close>

definition load_weight ::
  "'s sort_env \<Rightarrow> int \<Rightarrow> sort_options \<Rightarrow> 's sort_object \<Rightarrow> 's rvalue kdb \<Rightarrow> ('s sort_object \<times> 's rvalue kdb) option"
where
  "load_weight env now opts so db = do {
     (byval, db1) \<leftarrow> (case sortby opts of
         Some pat \<Rightarrow> lookupKeyByPattern now db pat (obj_of so)
       | None \<Rightarrow> Some (Some (obj_of so), db));
     case byval of
       None \<Rightarrow> Some (so, db1)
     | Some v \<Rightarrow>
         if alpha opts then
           (if sortby opts \<noteq> None then do { t \<leftarrow> getDecodedObject v; Some (so\<lparr>cmp_of := Some t\<rparr>, db1) } else Some (so, db1))
         else Some (so\<lparr>score_of := (case v of Raw s \<Rightarrow> strtod_of env s | Enc n \<Rightarrow> Some (double_of env n))\<rparr>, db1) }"

fun load_weights ::
  "'s sort_env \<Rightarrow> int \<Rightarrow> sort_options \<Rightarrow> 's sort_object list \<Rightarrow> 's rvalue kdb \<Rightarrow>
    ('s sort_object list \<times> 's rvalue kdb) option"
where
  "load_weights env now opts [] db = Some ([], db)"
| "load_weights env now opts (so # vec) db = do {
     (so', db1) \<leftarrow> load_weight env now opts so db;
     (vec', db2) \<leftarrow> load_weights env now opts vec db1;
     Some (so' # vec', db2) }"

text \<open>The first and the last position sent.\<close>

definition sort_range :: "sort_options \<Rightarrow> int \<Rightarrow> int \<times> int" where
  "sort_range opts vectorlen =
     (let start = (if limit_start opts < 0 then 0 else limit_start opts);
          end' = (if limit_count opts < 0 then vectorlen - 1
                  else signed_take_bit 31 (start + limit_count opts - 1));
          (start, end') = (if start \<ge> vectorlen then (vectorlen - 1, vectorlen - 2) else (start, end'))
      in (start, if end' \<ge> vectorlen then vectorlen - 1 else end'))"

definition sort_vector ::
  "'s::linorder sort_env \<Rightarrow> sort_options \<Rightarrow> int \<Rightarrow> int \<Rightarrow> 's sort_object list \<Rightarrow> 's sort_object list option"
where
  "sort_vector env opts start end' vec =
     (let cmp = sortCompare (desc opts) (alpha opts) (sortby opts \<noteq> None) in
      if dontsort opts then Some vec
      else if sortby opts \<noteq> None \<and> (start \<noteq> 0 \<or> end' \<noteq> int (length vec) - 1)
        then pqsort cmp vec (length vec) start end'
      else qsort_of env cmp vec)"

definition vector_part :: "'a list \<Rightarrow> int \<Rightarrow> int \<Rightarrow> 'a list option" where
  "vector_part vec start end' =
     (if end' < start then Some []
      else if 0 \<le> start \<and> end' < int (length vec)
        then Some (take (nat (end' - start + 1)) (drop (nat start) vec))
      else None)"

text \<open>What is sent for one element, and for all of them; \<open>None\<close> stands for a missing value.\<close>

fun get_values ::
  "int \<Rightarrow> bytes list \<Rightarrow> sobj \<Rightarrow> 's rvalue kdb \<Rightarrow> (sobj option list \<times> 's rvalue kdb) option"
where
  "get_values now [] ob db = Some ([], db)"
| "get_values now (pat # pats) ob db = do {
     (v, db1) \<leftarrow> lookupKeyByPattern now db pat ob;
     (vs, db2) \<leftarrow> get_values now pats ob db1;
     Some (v # vs, db2) }"

fun sort_output ::
  "int \<Rightarrow> bytes list \<Rightarrow> sobj list \<Rightarrow> 's rvalue kdb \<Rightarrow> (sobj option list \<times> 's rvalue kdb) option"
where
  "sort_output now pats [] db = Some ([], db)"
| "sort_output now pats (ob # obs) db = do {
     (vs, db1) \<leftarrow> get_values now pats ob db;
     (ws, db2) \<leftarrow> sort_output now pats obs db1;
     Some ((if pats = [] then [Some ob] else []) @ vs @ ws, db2) }"

text \<open>The type of the value the key holds, with its elements.\<close>

datatype sort_source = Elements "sobj list" | NotSortable

datatype sort_reply = SortEmpty | SortWrongType | SortSyntax | SortSent int "bytes option list" | SortStored int

fun reply_texts :: "sobj option list \<Rightarrow> bytes option list option" where
  "reply_texts [] = Some []"
| "reply_texts (None # vs) = map_option (Cons None) (reply_texts vs)"
| "reply_texts (Some v # vs) = do { t \<leftarrow> getDecodedObject v; ts \<leftarrow> reply_texts vs; Some (Some t # ts) }"

definition sortCommand ::
  "'s::{linorder, zero} sort_env \<Rightarrow> bool \<Rightarrow> int \<Rightarrow> bytes list \<Rightarrow> sort_source option \<Rightarrow> 's rvalue kdb \<Rightarrow>
    (sort_reply \<times> sobj list option \<times> 's rvalue kdb) option"
where
  "sortCommand env cr now args sortval db =
     (case sortval of
        None \<Rightarrow> Some (SortEmpty, None, db)
      | Some NotSortable \<Rightarrow> Some (SortWrongType, None, db)
      | Some (Elements xs) \<Rightarrow> do {
          parsed \<leftarrow> parse_sort args sort_defaults;
          case parsed of
            None \<Rightarrow> Some (SortSyntax, None, db)
          | Some opts \<Rightarrow> do {
              let vector = map (\<lambda>ob. \<lparr>obj_of = ob, score_of = Some 0, cmp_of = None\<rparr>) xs;
              (vector, db1) \<leftarrow> (if dontsort opts then Some (vector, db) else load_weights env now opts vector db);
              let (start, end') = sort_range opts (int (length xs));
              vector \<leftarrow> sort_vector env opts start end' vector;
              let getop = int (length (operations opts));
              let len = signed_take_bit 31 (end' - start + 1);
              let outputlen = (if getop \<noteq> 0 then signed_take_bit 31 (getop * len) else len);
              part \<leftarrow> vector_part vector start end';
              (vs, db2) \<leftarrow> sort_output now (operations opts) (map obj_of part) db1;
              case storekey opts of
                None \<Rightarrow> do { ts \<leftarrow> reply_texts vs; Some (SortSent outputlen ts, None, db2) }
              | Some dst \<Rightarrow> do {
                  (_, d) \<leftarrow> dictReplace cr (kdict db2) dst VList;
                  Some (SortStored outputlen,
                    Some (map (\<lambda>v. case v of None \<Rightarrow> Raw [] | Some v \<Rightarrow> v) vs),
                    db2\<lparr>kdict := d, kdirty := kdirty db2 + 1 + outputlen\<rparr>) } } })"

end
