(* ===== verification/Sort_Spec.thy ===== *)
theory Sort_Spec
  imports Sort Expiry Client_Spec "HOL-Library.Option_ord"
begin

text \<open>
  \<open>SORT\<close> against its specification. The comparison of the code meets the contract of theory
  \<open>Pqsort\<close>, a pattern stands for the value of a key or of a field of a hash, and what is sent are the
  elements at the positions of \<open>LIMIT\<close> in the order of their weights.
\<close>

section \<open>The comparison is a total preorder\<close>

definition c_text :: "bytes \<Rightarrow> bytes" where
  "c_text t = takeWhile (\<lambda>c. c \<noteq> 0) t"

lemma c_strcmp_c_text: "c_strcmp (s @ [0]) (t @ [0]) = c_strcmp (c_text s @ [0]) (c_text t @ [0])"
proof (induction s arbitrary: t)
  case Nil
  then show ?case by (cases t) (simp_all add: c_text_def)
next
  case (Cons a s)
  then show ?case by (cases t) (auto simp: c_text_def)
qed

lemma c_strcmp_texts:
  "\<exists>c. c_strcmp (s @ [0]) (t @ [0]) = Some c \<and> (c < 0 \<longleftrightarrow> c_text s < c_text t) \<and> (c = 0 \<longleftrightarrow> c_text s = c_text t)"
proof -
  have "0 \<notin> set (c_text s)" "0 \<notin> set (c_text t)" using set_takeWhileD by (fastforce simp: c_text_def)+
  then show ?thesis using c_strcmp_order c_strcmp_c_text by metis
qed

lemma comparison_key:
  fixes f :: "'a \<Rightarrow> 'k::linorder"
  assumes "\<And>x y. ok x \<Longrightarrow> ok y \<Longrightarrow> \<exists>c. cmp x y = Some c \<and> (c < 0 \<longleftrightarrow> f x < f y) \<and> (c = 0 \<longleftrightarrow> f x = f y)"
  shows "comparison cmp ok"
proof (unfold_locales, goal_cases)
  case (1 x y)
  then show ?case using assms [of x y] by auto
next
  case (2 x y c d)
  then show ?case using assms [of x y] assms [of y x] by (auto simp: not_less_iff_gr_or_eq)
next
  case (3 x y z)
  have "le_by cmp a b \<longleftrightarrow> f a \<le> f b" if "ok a" "ok b" for a b
    using assms [OF that] by (auto simp: le_by_def le_less)
  then show ?case using 3 by force
qed

context comparison
begin

lemma flipped: "comparison (\<lambda>x y. map_option uminus (cmp x y)) ok"
proof -
  have le: "le_by (\<lambda>x y. map_option uminus (cmp x y)) x y \<longleftrightarrow> le y x" if xy: "ok x" "ok y" for x y
  proof -
    obtain c where "cmp x y = Some c" "0 \<le> c \<longleftrightarrow> le y x" by (rule cmp_le [OF xy])
    then show ?thesis by (auto simp: le_by_def)
  qed
  show ?thesis
  proof (unfold_locales, goal_cases)
    case (1 x y)
    then show ?case using defined by blast
  next
    case (2 x y c d)
    then obtain c' d' where "cmp x y = Some c'" "cmp y x = Some d'" "c = - c'" "d = - d'" by auto
    then show ?case using opposite [OF 2(2,1)] by auto
  next
    case (3 x y z)
    then show ?case using le transitive by blast
  qed
qed

end

definition sort_ok :: "bool \<Rightarrow> bool \<Rightarrow> 's sort_object \<Rightarrow> bool" where
  "sort_ok alph bypattern so \<longleftrightarrow> (alph \<and> \<not> bypattern \<longrightarrow> plain (obj_of so)) \<and> (\<not> alph \<longrightarrow> score_of so \<noteq> None)"

lemma sortCompare_numeric: "comparison (sortCompare False False bypattern) (sort_ok False bypattern)"
  by (rule comparison_key [where f = "\<lambda>so. the (score_of so)"]) (auto simp: sortCompare_def sort_ok_def)

lemma sortCompare_pattern: "comparison (sortCompare False True True) (sort_ok True True)"
proof (rule comparison_key [where f = "\<lambda>so. map_option c_text (cmp_of so)"])
  fix x y :: "'a sort_object"
  show "\<exists>c. sortCompare False True True x y = Some c \<and>
      (c < 0 \<longleftrightarrow> map_option c_text (cmp_of x) < map_option c_text (cmp_of y)) \<and>
      (c = 0 \<longleftrightarrow> map_option c_text (cmp_of x) = map_option c_text (cmp_of y))"
    using c_strcmp_texts [of "the (cmp_of x)" "the (cmp_of y)"]
    by (cases "cmp_of x"; cases "cmp_of y") (auto simp: sortCompare_def)
qed

lemma sortCompare_element: "comparison (sortCompare False True False) (sort_ok True False)"
proof (rule comparison_key [where f = "\<lambda>so. text_of (obj_of so)"])
  fix x y :: "'a sort_object"
  assume "sort_ok True False x" "sort_ok True False y"
  then show "\<exists>c. sortCompare False True False x y = Some c \<and>
      (c < 0 \<longleftrightarrow> text_of (obj_of x) < text_of (obj_of y)) \<and> (c = 0 \<longleftrightarrow> text_of (obj_of x) = text_of (obj_of y))"
    using compare_order [of "obj_of x" "obj_of y"] by (auto simp: sort_ok_def sortCompare_def)
qed

lemma sortCompare_desc: "sortCompare True alph bypattern = (\<lambda>x y. map_option uminus (sortCompare False alph bypattern x y))"
  by (intro ext) (auto simp: sortCompare_def split: bind_splits)

interpretation sort_order: comparison "sortCompare dsc alph bypattern" "sort_ok alph bypattern" for dsc alph bypattern
proof -
  have up: "comparison (sortCompare False alph bypattern) (sort_ok alph bypattern)"
    using sortCompare_numeric sortCompare_pattern sortCompare_element by (cases alph; cases bypattern) auto
  show "comparison (sortCompare dsc alph bypattern) (sort_ok alph bypattern)"
    using up comparison.flipped [OF up] by (cases dsc) (simp_all add: sortCompare_desc)
qed

section \<open>What a pattern stands for\<close>

definition visible :: "int \<Rightarrow> 'a kstate \<Rightarrow> bytes \<Rightarrow> 'a option" where
  "visible now as k = (if overdue now as k then None else vals as k)"

text \<open>A later state in which only keys past their deadline may be missing.\<close>

definition expired_some :: "int \<Rightarrow> 'a kstate \<Rightarrow> 'a kstate \<Rightarrow> bool" where
  "expired_some now as as' \<longleftrightarrow> changes as' = changes as \<and>
     (\<forall>k. vals as' k = vals as k \<and> deadline as' k = deadline as k \<or>
        overdue now as k \<and> vals as' k = None \<and> deadline as' k = None)"

lemma expired_refl: "expired_some now as as"
  by (simp add: expired_some_def)

lemma overdue_deadline: "deadline as' k = deadline as k \<Longrightarrow> overdue now as' k = overdue now as k"
  by (simp add: overdue_def)

lemma overdue_None: "deadline as k = None \<Longrightarrow> \<not> overdue now as k"
  by (simp add: overdue_def)

lemma expired_trans: "expired_some now a b \<Longrightarrow> expired_some now b c \<Longrightarrow> expired_some now a c"
  unfolding expired_some_def using overdue_deadline overdue_None by metis

lemma expired_visible: "expired_some now as as' \<Longrightarrow> visible now as' k = visible now as k"
  unfolding expired_some_def visible_def using overdue_deadline overdue_None by metis

lemma expired_expire: "expired_some now as (a_expire now k as)"
  by (auto simp: expired_some_def a_expire_def a_remove_def)

lemma visible_expire: "vals (a_expire now k as) k = visible now as k"
  by (simp add: visible_def a_expire_def)

text \<open>A text cut at the first place where \<open>sep\<close> stands before any zero byte.\<close>

definition cut_at :: "bytes \<Rightarrow> bytes \<Rightarrow> (bytes \<times> bytes) option" where
  "cut_at sep s = map_option (\<lambda>i. (take i s, drop (i + length sep) s))
     (find (\<lambda>i. take (length sep) (drop i s) = sep \<and> 0 \<notin> set (take i s)) [0..<length s])"

text \<open>The meaning of a pattern: \<open>#\<close> is the element itself. Otherwise the pattern is \<open>pre*post\<close> or
  \<open>pre*inner->field\<close>: the element takes the place of the star in the name of a key, and the value is that of
  the key, a string, or that of the field of the key, a hash. A pattern without a star stands for nothing, and
  neither does one that is too long.\<close>

definition pattern_value :: "(bytes \<Rightarrow> 's avalue option) \<Rightarrow> bytes \<Rightarrow> bytes \<Rightarrow> bytes option" where
  "pattern_value look spat sub =
     (if c_text spat = [35] then Some sub
      else if length spat + length sub < 1 \<or> length spat + length sub > REDIS_SORTKEY_MAX + 1 then None
      else case cut_at [42] spat of
        None \<Rightarrow> None
      | Some (pre, post) \<Rightarrow>
          (case cut_at [45, 62] post of
             None \<Rightarrow> (case look (pre @ sub @ post) of Some (AString t) \<Rightarrow> Some t | _ \<Rightarrow> None)
           | Some (inner, field) \<Rightarrow>
               (case look (pre @ sub @ inner) of Some (AHash m) \<Rightarrow> if field = [] then None else m field | _ \<Rightarrow> None)))"

lemma find_map: "find P (map f xs) = map_option f (find (P \<circ> f) xs)"
  by (induction xs) simp_all

lemma find_none: "(\<And>x. x \<in> set xs \<Longrightarrow> \<not> P x) \<Longrightarrow> find P xs = None"
  by (induction xs) simp_all

lemma cut_at_Nil: "cut_at sep [] = None"
  by (simp add: cut_at_def)

lemma cut_at_Cons:
  "cut_at sep (x # s) =
     (if take (length sep) (x # s) = sep then Some ([], drop (length sep) (x # s))
      else if x = 0 then None
      else map_option (\<lambda>(a, b). (x # a, b)) (cut_at sep s))"
proof -
  have u: "[0..<length (x # s)] = 0 # map Suc [0..<length s]" by (simp add: upt_conv_Cons map_Suc_upt del: upt_Suc)
  show ?thesis
    unfolding cut_at_def u by (simp add: find_map comp_def option.map_comp find_none)
qed

lemma index_char_cut: "c \<noteq> 0 \<Longrightarrow> index_char c s = map_option (length \<circ> fst) (cut_at [c] s)"
  by (induction s) (auto simp: cut_at_Nil cut_at_Cons option.map_comp comp_def split_def)

lemma index_arrow_cut: "index_arrow s = map_option (length \<circ> fst) (cut_at [45, 62] s)"
  by (induction s rule: index_arrow.induct) (auto simp: cut_at_Nil cut_at_Cons option.map_comp comp_def split_def)

lemma cut_at_parts: "cut_at sep s = Some (a, b) \<Longrightarrow> sep \<noteq> [] \<Longrightarrow> s = a @ sep @ b"
  by (auto simp: cut_at_def find_Some_iff) (metis append_take_drop_id drop_drop add.commute)

lemma hash_sign: "take 2 (spat @ [0]) = [35, 0] \<longleftrightarrow> c_text spat = [35]"
  by (cases spat; cases "tl spat") (auto simp: c_text_def)

text \<open>The names the code computes are those of the specification.\<close>

lemma pattern_names_cut:
  "pattern_names spat sub = Some
     (if length spat + length sub < 1 \<or> length spat + length sub > REDIS_SORTKEY_MAX + 1 then None
      else case cut_at [42] spat of
        None \<Rightarrow> None
      | Some (pre, post) \<Rightarrow>
          (case cut_at [45, 62] post of
             None \<Rightarrow> Some (pre @ sub @ post, None)
           | Some (inner, field) \<Rightarrow> Some (pre @ sub @ inner, Some field)))"
proof (cases "length spat + length sub < 1 \<or> length spat + length sub > REDIS_SORTKEY_MAX + 1")
  case True
  then show ?thesis by (auto simp: pattern_names_def)
next
  case False
  show ?thesis
  proof (cases "cut_at [42] spat")
    case None
    then show ?thesis using False by (auto simp: pattern_names_def index_char_cut)
  next
    case (Some parts)
    obtain pre post where p: "parts = (pre, post)" by fastforce
    have s: "spat = pre @ 42 # post" using cut_at_parts [of "[42]" spat pre post] Some p by simp
    have i: "index_char 42 spat = Some (length pre)" using Some p by (simp add: index_char_cut)
    show ?thesis
    proof (cases "cut_at [45, 62] post")
      case None
      then show ?thesis using False Some p i s
        by (simp add: pattern_names_def index_arrow_cut sortkey_room_def peek_def REDIS_SORTKEY_MAX_def)
    next
      case cut: (Some ends)
      obtain inner field where e: "ends = (inner, field)" by fastforce
      have "post = inner @ 45 # 62 # field" using cut_at_parts [of "[45, 62]" post inner field] cut e by simp
      then show ?thesis using False Some p i s cut e
        by (simp add: pattern_names_def index_arrow_cut sortkey_room_def peek_def REDIS_SORTKEY_MAX_def numeral_3_eq_3)
    qed
  qed
qed

lemma pattern_value_names:
  "pattern_value look spat sub =
     (if take 2 (spat @ [0]) = [35, 0] then Some sub
      else case the (pattern_names spat sub) of
        None \<Rightarrow> None
      | Some (key, field) \<Rightarrow>
          (case (look key, field) of
             (Some (AString t), None) \<Rightarrow> Some t
           | (Some (AHash m), Some f) \<Rightarrow> if f = [] then None else m f
           | _ \<Rightarrow> None))"
  unfolding pattern_value_def pattern_names_cut hash_sign
  by (auto split: option.splits avalue.splits)

lemma set_same_sim:
  assumes "found N db k as (Some (p, v0))" "vals as k = Some w" "value_rep N v w"
  shows "db_ok N (db\<lparr>kdict := set_val p v (kdict db)\<rparr>) as"
proof -
  obtain ks where ks: "krep db ks" "sim N ks as" "pos_ok (kdict db) p k v0" "vals ks k = Some v0"
    using assms(1) by (auto simp: found_def)
  have "dom ((vals ks)(k \<mapsto> v)) = dom (vals ks)" using ks(4) by auto
  then have "sim N (a_put k v ks) as"
    using ks(2) assms(2,3) by (auto simp: sim_def a_put_def simp del: dom_fun_upd)
  with kset_ok [OF ks(1,3,4), of v] show ?thesis by (auto simp: db_ok_def)
qed

lemma value_kinds [consumes 1, case_names string hash zset list set]:
  assumes "value_rep N v w"
  obtains ob where "v = VString ob" "w = AString (text_of ob)" "sobj_ok ob" | h m where "v = VHash h" "w = AHash m"
    | zs es where "v = VZset zs" "w = AZset es" | "v = VList" "w = AList" | "v = VSet" "w = ASet"
  using assms by (cases "(N, v, w)" rule: value_rep.cases) auto

text \<open>The conclusion of the lookups: they succeed, and only expire keys.\<close>

definition reads :: "int \<Rightarrow> nat \<Rightarrow> 's::linorder avalue kstate \<Rightarrow> ('x \<times> 's rvalue kdb) option \<Rightarrow> ('x \<Rightarrow> bool) \<Rightarrow> bool" where
  "reads now N as res P \<longleftrightarrow> (\<exists>x db' as'. res = Some (x, db') \<and> db_ok N db' as' \<and> expired_some now as as' \<and> P x)"

lemma readsI: "res = Some (x, db') \<Longrightarrow> db_ok N db' as' \<Longrightarrow> expired_some now as as' \<Longrightarrow> P x \<Longrightarrow> reads now N as res P"
  by (auto simp: reads_def)

lemma readsE:
  assumes "reads now N as res P"
  obtains x db' as' where "res = Some (x, db')" "db_ok N db' as'" "expired_some now as as'" "P x"
  using assms by (auto simp: reads_def)

lemma lookup_pattern_ok:
  assumes "db_ok N db as" "sobj_ok subst" "N < 2 ^ 29"
  shows "reads now N as (lookupKeyByPattern now db spat subst)
    (\<lambda>r. map_option text_of r = pattern_value (visible now as) spat (text_of subst) \<and> (\<forall>x. r = Some x \<longrightarrow> sobj_ok x))"
proof (cases "take 2 (spat @ [0]) = [35, 0]")
  case True
  then show ?thesis
    by (intro readsI [OF _ assms(1) expired_refl, where x = "Some subst"])
      (use assms in \<open>simp_all add: lookupKeyByPattern_def pattern_value_names\<close>)
next
  case False
  have t: "getDecodedObject subst = Some (text_of subst)" using assms(2) by (cases subst) (auto simp: getDecodedObject_def)
  obtain names where n: "pattern_names spat (text_of subst) = Some names" using pattern_names_cut by blast
  note eval = lookupKeyByPattern_def if_not_P [OF False] t n bind.bind_lunit pattern_value_names option.sel
  show ?thesis
  proof (cases names)
    case None
    then show ?thesis
      by (intro readsI [OF _ assms(1) expired_refl, where x = None]) (unfold eval, simp_all)
  next
    case (Some kf)
    obtain key field where kf: "names = Some (key, field)" using Some by (cases kf) simp
    obtain r db1 where l: "lookupKeyRead now db key = Some (r, db1)" "found N db1 key (a_expire now key as) r"
      by (rule read_found [OF assms(1)])
    note ok = foundD(1) [OF l(2)] expired_expire
    note eval = eval kf l(1) option.case prod.case
    show ?thesis
      using l(2)
    proof (cases rule: found_cases)
      case missing
      then show ?thesis
        by (intro readsI [OF _ ok, where x = None]) (unfold eval, simp_all add: visible_expire [of now key])
    next
      case (there p v w)
      note f = l(2) [unfolded there(1)]
      have vis: "visible now as key = Some w" using there(2) visible_expire by metis
      show ?thesis
      proof (cases "\<exists>h m k. v = VHash h \<and> w = AHash m \<and> field = Some k \<and> k \<noteq> []")
        case True
        then obtain h m k where h: "v = VHash h" "w = AHash m" "field = Some k" "k \<noteq> []" by blast
        then have hr: "hash_rep h m" using there(3) by simp
        obtain x h' where g: "hashGet h (Raw k) = Some (x, h')" "hash_rep h' m" "hash_extent h' = hash_extent h"
          "map_option text_of x = m k" "\<forall>y. x = Some y \<longrightarrow> sobj_ok y"
          using hashGet_ok [OF hr, of "Raw k" k] by (auto simp: getDecodedObject_def)
        have "value_rep N (VHash h') w" using there(3) h g(2,3) by simp
        then have s: "db_ok N (db1\<lparr>kdict := set_val p (VHash h') (kdict db1)\<rparr>) (a_expire now key as)"
          by (rule set_same_sim [OF f there(2)])
        show ?thesis
          by (rule readsI [OF _ s ok(2), where x = x]) (unfold eval, use h g vis there(1) in \<open>simp_all\<close>)
      next
        case False
        define x where "x = (case (v, field) of (VString ob, None) \<Rightarrow> Some ob | _ \<Rightarrow> None)"
        have x: "lookupKeyByPattern now db spat subst = Some (x, db1) \<and>
            map_option text_of x = pattern_value (visible now as) spat (text_of subst) \<and> (\<forall>y. x = Some y \<longrightarrow> sobj_ok y)"
          unfolding eval there(1) vis using there(3) False
          by (cases rule: value_kinds; cases field) (simp_all add: x_def)
        show ?thesis by (rule readsI [OF _ ok, where x = x]) (use x in simp_all)
      qed
    qed
  qed
qed

section \<open>Loading and sending\<close>

text \<open>What is asked of the C library: \<open>strtod\<close> reads the decimal text of an integer as its conversion to
  a double, and \<open>qsort\<close>, given a comparison that is a total preorder on the elements, returns them in
  ascending order.\<close>

definition sort_env_ok :: "'s::linorder sort_env \<Rightarrow> bool" where
  "sort_env_ok env \<longleftrightarrow> (\<forall>v. is_long v \<longrightarrow> strtod_of env (dec_text v) = Some (double_of env v)) \<and>
     (\<forall>cmp ok xs. comparison cmp ok \<longrightarrow> (\<forall>x \<in> set xs. ok x) \<longrightarrow>
        (\<exists>ys. qsort_of env cmp xs = Some ys \<and> mset ys = mset xs \<and> ordered cmp ys 0 (length ys)))"

text \<open>The entry of the vector for an element, and the values sent for it.\<close>

definition weigh :: "'s::{linorder, zero} sort_env \<Rightarrow> sort_options \<Rightarrow> (bytes \<Rightarrow> bytes \<Rightarrow> bytes option) \<Rightarrow> sobj \<Rightarrow> 's sort_object" where
  "weigh env opts value ob =
     (let byval = (if dontsort opts then None
                   else case sortby opts of None \<Rightarrow> Some (text_of ob) | Some pat \<Rightarrow> value pat (text_of ob))
      in \<lparr>obj_of = ob,
          score_of = (if alpha opts then Some 0 else case byval of None \<Rightarrow> Some 0 | Some t \<Rightarrow> strtod_of env t),
          cmp_of = (if alpha opts \<and> sortby opts \<noteq> None then byval else None)\<rparr>)"

definition row_of :: "(bytes \<Rightarrow> bytes \<Rightarrow> bytes option) \<Rightarrow> bytes list \<Rightarrow> sobj \<Rightarrow> bytes option list" where
  "row_of value pats ob = (if pats = [] then [Some (text_of ob)] else map (\<lambda>pat. value pat (text_of ob)) pats)"

lemma decoded_text: "sobj_ok ob \<Longrightarrow> getDecodedObject ob = Some (text_of ob)"
  by (cases ob) (auto simp: getDecodedObject_def)

lemma load_weight_ok:
  assumes "db_ok N db as" "sobj_ok ob" "N < 2 ^ 29" "sort_env_ok env" "\<not> dontsort opts"
  shows "reads now N as (load_weight env now opts \<lparr>obj_of = ob, score_of = Some 0, cmp_of = None\<rparr> db)
    (\<lambda>so. so = weigh env opts (pattern_value (visible now as)) ob)"
proof -
  let ?by = "case sortby opts of Some pat \<Rightarrow> lookupKeyByPattern now db pat ob | None \<Rightarrow> Some (Some ob, db)"
  have "reads now N as ?by
    (\<lambda>r. map_option text_of r = (case sortby opts of None \<Rightarrow> Some (text_of ob)
        | Some pat \<Rightarrow> pattern_value (visible now as) pat (text_of ob)) \<and> (\<forall>x. r = Some x \<longrightarrow> sobj_ok x))"
  proof (cases "sortby opts")
    case None
    then show ?thesis by (intro readsI [OF _ assms(1) expired_refl, where x = "Some ob"]) (use assms(2) in simp_all)
  qed (use lookup_pattern_ok [OF assms(1-3)] in simp)
  then obtain r db1 as1 where r: "?by = Some (r, db1)" "db_ok N db1 as1" "expired_some now as as1"
    "map_option text_of r = (case sortby opts of None \<Rightarrow> Some (text_of ob)
        | Some pat \<Rightarrow> pattern_value (visible now as) pat (text_of ob))" "\<forall>x. r = Some x \<longrightarrow> sobj_ok x"
    by (rule readsE) blast
  define so where "so = weigh env opts (pattern_value (visible now as)) ob"
  have w: "so = \<lparr>obj_of = ob, score_of = (if alpha opts then Some 0 else case map_option text_of r of None \<Rightarrow> Some 0 | Some t \<Rightarrow> strtod_of env t),
      cmp_of = (if alpha opts \<and> sortby opts \<noteq> None then map_option text_of r else None)\<rparr>"
    using assms(5) r(4) by (simp add: so_def weigh_def)
  have ev: "load_weight env now opts \<lparr>obj_of = ob, score_of = Some 0, cmp_of = None\<rparr> db = Some (so, db1)"
  proof (cases r)
    case None
    then show ?thesis unfolding load_weight_def sort_object.select_convs r(1) by (simp add: w)
  next
    case (Some v)
    then have v: "sobj_ok v" using r(5) by simp
    then have "(case v of Raw s \<Rightarrow> strtod_of env s | Enc n \<Rightarrow> Some (double_of env n)) = strtod_of env (text_of v)"
      using assms(4) by (cases v) (auto simp: sort_env_ok_def)
    then show ?thesis
      unfolding load_weight_def sort_object.select_convs r(1) using Some decoded_text [OF v] by (simp add: w)
  qed
  show ?thesis by (rule readsI [OF ev r(2,3)]) (rule so_def)
qed

lemma reads_more:
  assumes "expired_some now as as1" "reads now N as1 res P"
  shows "reads now N as res P"
  using assms expired_trans unfolding reads_def by blast

lemma visible_same: "expired_some now as as' \<Longrightarrow> visible now as' = visible now as"
  using expired_visible by (intro ext)

lemma load_weights_ok:
  assumes "db_ok N db as" "\<forall>ob \<in> set xs. sobj_ok ob" "N < 2 ^ 29" "sort_env_ok env" "\<not> dontsort opts"
  shows "reads now N as (load_weights env now opts (map (\<lambda>ob. \<lparr>obj_of = ob, score_of = Some 0, cmp_of = None\<rparr>) xs) db)
    (\<lambda>vec. vec = map (weigh env opts (pattern_value (visible now as))) xs)"
  using assms(1,2)
proof (induction xs arbitrary: db as)
  case Nil
  show ?case by (rule readsI [OF _ Nil(1) expired_refl, where x = "[]"]) simp_all
next
  case (Cons ob xs)
  let ?new = "\<lambda>ob. \<lparr>obj_of = ob, score_of = Some 0, cmp_of = None\<rparr>"
  obtain so db1 as1 where a: "load_weight env now opts (?new ob) db = Some (so, db1)" "db_ok N db1 as1"
    "expired_some now as as1" "so = weigh env opts (pattern_value (visible now as)) ob"
    using load_weight_ok [OF Cons.prems(1) _ assms(3-5), of ob now] Cons.prems(2) by (auto elim!: readsE)
  obtain vec db2 as2 where b: "load_weights env now opts (map ?new xs) db1 = Some (vec, db2)" "db_ok N db2 as2"
    "expired_some now as1 as2" "vec = map (weigh env opts (pattern_value (visible now as1))) xs"
    using Cons.IH [OF a(2)] Cons.prems(2) by (auto elim!: readsE)
  show ?case
    by (rule readsI [OF _ b(2) expired_trans [OF a(3) b(3)], where x = "so # vec"])
      (use a(1,4) b(1,4) visible_same [OF a(3)] in simp_all)
qed

lemma get_values_ok:
  assumes "db_ok N db as" "sobj_ok ob" "N < 2 ^ 29"
  shows "reads now N as (get_values now pats ob db)
    (\<lambda>vs. map (map_option text_of) vs = map (\<lambda>pat. pattern_value (visible now as) pat (text_of ob)) pats \<and>
       (\<forall>x. Some x \<in> set vs \<longrightarrow> sobj_ok x))"
  using assms(1)
proof (induction pats arbitrary: db as)
  case Nil
  show ?case by (rule readsI [OF _ Nil(1) expired_refl, where x = "[]"]) simp_all
next
  case (Cons pat pats)
  obtain v db1 as1 where a: "lookupKeyByPattern now db pat ob = Some (v, db1)" "db_ok N db1 as1" "expired_some now as as1"
    "map_option text_of v = pattern_value (visible now as) pat (text_of ob)" "\<forall>x. v = Some x \<longrightarrow> sobj_ok x"
    by (rule readsE [OF lookup_pattern_ok [OF Cons.prems assms(2,3)]]) blast
  obtain vs db2 as2 where b: "get_values now pats ob db1 = Some (vs, db2)" "db_ok N db2 as2" "expired_some now as1 as2"
    "map (map_option text_of) vs = map (\<lambda>pat. pattern_value (visible now as1) pat (text_of ob)) pats"
    "\<forall>x. Some x \<in> set vs \<longrightarrow> sobj_ok x"
    by (rule readsE [OF Cons.IH [OF a(2)]]) blast
  show ?case
    by (rule readsI [OF _ b(2) expired_trans [OF a(3) b(3)], where x = "v # vs"])
      (use a(1,4,5) b(1,4,5) visible_same [OF a(3)] in auto)
qed

lemma sort_output_ok:
  assumes "db_ok N db as" "\<forall>ob \<in> set obs. sobj_ok ob" "N < 2 ^ 29"
  shows "reads now N as (sort_output now pats obs db)
    (\<lambda>vs. map (map_option text_of) vs = concat (map (row_of (pattern_value (visible now as)) pats) obs) \<and>
       (\<forall>x. Some x \<in> set vs \<longrightarrow> sobj_ok x))"
  using assms(1,2)
proof (induction obs arbitrary: db as)
  case Nil
  show ?case by (rule readsI [OF _ Nil(1) expired_refl, where x = "[]"]) simp_all
next
  case (Cons ob obs)
  have ob: "sobj_ok ob" using Cons.prems(2) by simp
  obtain vs db1 as1 where a: "get_values now pats ob db = Some (vs, db1)" "db_ok N db1 as1" "expired_some now as as1"
    "map (map_option text_of) vs = map (\<lambda>pat. pattern_value (visible now as) pat (text_of ob)) pats"
    "\<forall>x. Some x \<in> set vs \<longrightarrow> sobj_ok x"
    by (rule readsE [OF get_values_ok [OF Cons.prems(1) ob assms(3)]]) blast
  have "\<forall>ob \<in> set obs. sobj_ok ob" using Cons.prems(2) by simp
  then obtain ws db2 as2 where b: "sort_output now pats obs db1 = Some (ws, db2)" "db_ok N db2 as2" "expired_some now as1 as2"
    "map (map_option text_of) ws = concat (map (row_of (pattern_value (visible now as1)) pats) obs)"
    "\<forall>x. Some x \<in> set ws \<longrightarrow> sobj_ok x"
    by (rule readsE [OF Cons.IH [OF a(2)]]) blast
  show ?case
    by (rule readsI [OF _ b(2) expired_trans [OF a(3) b(3)], where x = "(if pats = [] then [Some ob] else []) @ vs @ ws"])
      (use a(1,4,5) b(1,4,5) visible_same [OF a(3)] ob in \<open>auto simp: row_of_def [of _ _ ob]\<close>)
qed

lemma reply_texts_ok: "\<forall>x. Some x \<in> set vs \<longrightarrow> sobj_ok x \<Longrightarrow> reply_texts vs = Some (map (map_option text_of) vs)"
  by (induction vs rule: reply_texts.induct) (auto simp: decoded_text)

section \<open>The part that is sent\<close>

text \<open>The order of the entries, and the part that \<open>LIMIT\<close> selects.\<close>

definition entry_le :: "bool \<Rightarrow> bool \<Rightarrow> 's::linorder sort_object \<Rightarrow> 's sort_object \<Rightarrow> bool" where
  "entry_le alph bypattern x y =
     (if \<not> alph then the (score_of x) \<le> the (score_of y)
      else if bypattern then map_option c_text (cmp_of x) \<le> map_option c_text (cmp_of y)
      else text_of (obj_of x) \<le> text_of (obj_of y))"

definition sort_le :: "sort_options \<Rightarrow> 's::linorder sort_object \<Rightarrow> 's sort_object \<Rightarrow> bool" where
  "sort_le opts x y =
     (if desc opts then entry_le (alpha opts) (sortby opts \<noteq> None) y x else entry_le (alpha opts) (sortby opts \<noteq> None) x y)"

definition sort_part :: "sort_options \<Rightarrow> 'a list \<Rightarrow> 'a list" where
  "sort_part opts xs =
     (let rest = drop (nat (limit_start opts)) xs in
      if limit_count opts < 0 then rest else take (nat (limit_count opts)) rest)"

lemma sort_part_map: "sort_part opts (map f xs) = map f (sort_part opts xs)"
  by (simp add: sort_part_def drop_map take_map Let_def)

lemma sort_part_split: "\<exists>us ws. xs = us @ sort_part opts xs @ ws \<and> length us = min (nat (limit_start opts)) (length xs)"
  by (intro exI [of _ "take (nat (limit_start opts)) xs"]
      exI [of _ "if limit_count opts < 0 then [] else drop (nat (limit_count opts)) (drop (nat (limit_start opts)) xs)"])
    (simp add: sort_part_def Let_def del: drop_drop)

lemma le_entry:
  assumes "sort_ok alph bypattern x" "sort_ok alph bypattern y"
  shows "le_by (sortCompare False alph bypattern) x y \<longleftrightarrow> entry_le alph bypattern x y"
proof -
  have a: "\<exists>c. compareStringObjects False (obj_of x) (obj_of y) = Some c \<and> (c \<le> 0 \<longleftrightarrow> text_of (obj_of x) \<le> text_of (obj_of y))"
    if "alph" "\<not> bypattern"
    using compare_order [of "obj_of x" "obj_of y"] assms that by (auto simp: sort_ok_def)
  have b: "\<exists>c. c_strcmp (s @ [0]) (t @ [0]) = Some c \<and> (c \<le> 0 \<longleftrightarrow> c_text s \<le> c_text t)" for s t
    using c_strcmp_texts [of s t] by (auto simp: le_less)
  show ?thesis
  proof (cases alph)
    case False
    then show ?thesis using assms by (auto simp: sort_ok_def le_by_def sortCompare_def entry_le_def)
  next
    case True
    then show ?thesis
      using a b [of "the (cmp_of x)" "the (cmp_of y)"]
      by (cases bypattern; cases "cmp_of x"; cases "cmp_of y") (auto simp: le_by_def sortCompare_def entry_le_def)
  qed
qed

lemma le_flags:
  assumes "sort_ok alph bypattern x" "sort_ok alph bypattern y"
  shows "le_by (sortCompare dsc alph bypattern) x y \<longleftrightarrow>
    (if dsc then entry_le alph bypattern y x else entry_le alph bypattern x y)"
proof (cases dsc)
  case True
  obtain c where "sortCompare False alph bypattern x y = Some c" "0 \<le> c \<longleftrightarrow> le_by (sortCompare False alph bypattern) y x"
    by (rule sort_order.cmp_le [OF assms])
  then show ?thesis using True le_entry [OF assms(2,1)] by (auto simp: sortCompare_desc le_by_def)
qed (use le_entry [OF assms] in simp)

lemma le_sortCompare:
  assumes "sort_ok (alpha opts) (sortby opts \<noteq> None) x" "sort_ok (alpha opts) (sortby opts \<noteq> None) y"
  shows "le_by (sortCompare (desc opts) (alpha opts) (sortby opts \<noteq> None)) x y \<longleftrightarrow> sort_le opts x y"
  unfolding le_flags [OF assms] sort_le_def ..

lemma sort_range_cases:
  assumes "length vec < 2 ^ 31" "max 0 (limit_start opts) + limit_count opts \<le> 2 ^ 31"
    and r: "sort_range opts (int (length vec)) = (start, end')"
  defines "lo \<equiv> nat (limit_start opts)" and "n \<equiv> length (sort_part opts vec)"
  shows "lo < length vec \<and> start = int lo \<and> end' = int lo + int n - 1 \<or>
    length vec \<le> lo \<and> n = 0 \<and> start = int (length vec) - 1 \<and> end' = int (length vec) - 2"
proof (cases "lo < length vec")
  case False
  then show ?thesis using r by (auto simp: sort_range_def lo_def n_def sort_part_def Let_def split: if_splits)
next
  case True
  have l: "(if limit_start opts < 0 then 0 else limit_start opts) = int lo" by (simp add: lo_def)
  show ?thesis
  proof (cases "limit_count opts < 0")
    case neg: True
    then have "n = length vec - lo" by (simp add: n_def lo_def sort_part_def Let_def)
    then show ?thesis using r True neg by (simp add: sort_range_def Let_def l)
  next
    case pos: False
    have "signed_take_bit 31 (int lo + limit_count opts - 1) = int lo + limit_count opts - 1"
      using assms(2) pos by (intro signed_take_bit_int_eq_self) (auto simp: lo_def)
    moreover have "n = min (length vec - lo) (nat (limit_count opts))"
      using pos by (simp add: n_def lo_def sort_part_def Let_def)
    ultimately show ?thesis using r True pos by (auto simp: sort_range_def Let_def l split: if_splits)
  qed
qed

lemma sort_range_part:
  assumes "length vec < 2 ^ 31" "max 0 (limit_start opts) + limit_count opts \<le> 2 ^ 31"
    and r: "sort_range opts (int (length vec)) = (start, end')"
  shows "vector_part vec start end' = Some (sort_part opts vec)" "end' - start + 1 = int (length (sort_part opts vec))"
    "i < length vec \<Longrightarrow> start \<le> int i \<and> int i \<le> end' \<longleftrightarrow>
       nat (limit_start opts) \<le> i \<and> i < nat (limit_start opts) + length (sort_part opts vec)"
proof -
  define lo where "lo = nat (limit_start opts)"
  define n where "n = length (sort_part opts vec)"
  have c: "lo < length vec \<and> start = int lo \<and> end' = int lo + int n - 1 \<or>
      length vec \<le> lo \<and> n = 0 \<and> start = int (length vec) - 1 \<and> end' = int (length vec) - 2"
    using sort_range_cases [OF assms] by (simp add: lo_def n_def)
  have n: "n \<le> length vec - lo" by (simp add: n_def lo_def sort_part_def Let_def)
  have p: "sort_part opts vec = take n (drop lo vec)"
    by (auto simp: n_def lo_def sort_part_def Let_def min_def)
  then have e: "n = 0 \<Longrightarrow> sort_part opts vec = []" by simp
  show "vector_part vec start end' = Some (sort_part opts vec)"
  proof (cases "n = 0")
    case True
    then show ?thesis using c e by (auto simp: vector_part_def)
  next
    case False
    then have s: "start = int lo" "end' = int lo + int n - 1" "lo < length vec" using c by auto
    then have "\<not> end' < start" "0 \<le> start \<and> end' < int (length vec)" "nat (end' - start + 1) = n" "nat start = lo"
      using False n by auto
    then show ?thesis by (simp add: vector_part_def p del: take_drop)
  qed
  show "end' - start + 1 = int (length (sort_part opts vec))" using c by (auto simp: n_def)
  show "i < length vec \<Longrightarrow> start \<le> int i \<and> int i \<le> end' \<longleftrightarrow>
       nat (limit_start opts) \<le> i \<and> i < nat (limit_start opts) + length (sort_part opts vec)"
    using c by (auto simp: n_def [symmetric] lo_def [symmetric])
qed

lemma placed_part:
  assumes p: "placed cmp start end' ys 0 (length ys)" and ys: "ys = us @ part @ ws"
    and b: "length us = min lo (length ys)"
    and r: "\<And>i. i < length ys \<Longrightarrow> start \<le> int i \<and> int i \<le> end' \<longleftrightarrow> lo \<le> i \<and> i < lo + length part"
  shows "sorted_wrt (le_by cmp) part" "x \<in> set us \<Longrightarrow> y \<in> set part \<Longrightarrow> le_by cmp x y"
    "y \<in> set part \<Longrightarrow> z \<in> set ws \<Longrightarrow> le_by cmp y z"
proof -
  have le: "le_by cmp (ys ! i) (ys ! j)"
    if "i < j" "j < length ys" "lo \<le> i \<and> i < lo + length part \<or> lo \<le> j \<and> j < lo + length part" for i j
    using p that r [of i] r [of j] unfolding placed_def by auto
  have at: "ys ! (lo + k) = part ! k" "length us = lo" if "k < length part" for k
  proof -
    show l: "length us = lo" using b ys that by (cases "lo \<le> length ys") auto
    show "ys ! (lo + k) = part ! k" using that l ys by (simp add: nth_append)
  qed
  show "sorted_wrt (le_by cmp) part"
    unfolding sorted_wrt_iff_nth_less
  proof (intro allI impI)
    fix i j assume ij: "i < j" "j < length part"
    then have "lo + j < length ys" using at(2) [OF ij(2)] ys by simp
    then show "le_by cmp (part ! i) (part ! j)" using le [of "lo + i" "lo + j"] ij at(1) [of i] at(1) [of j] by simp
  qed
  show "le_by cmp x y" if "x \<in> set us" "y \<in> set part"
  proof -
    obtain i k where i: "i < length us" "x = us ! i" and k: "k < length part" "y = part ! k"
      using \<open>x \<in> set us\<close> \<open>y \<in> set part\<close> by (auto simp: in_set_conv_nth)
    moreover have "lo + k < length ys" using at(2) [OF k(1)] k(1) ys by simp
    ultimately show ?thesis using le [of i "lo + k"] at [OF k(1)] ys by (simp add: nth_append)
  qed
  show "le_by cmp y z" if "y \<in> set part" "z \<in> set ws"
  proof -
    obtain i k where i: "i < length ws" "z = ws ! i" and k: "k < length part" "y = part ! k"
      using \<open>z \<in> set ws\<close> \<open>y \<in> set part\<close> by (auto simp: in_set_conv_nth)
    moreover have "ys ! (lo + length part + i) = ws ! i" using at(2) [OF k(1)] i(1) ys by (simp add: nth_append)
    moreover have "lo + length part + i < length ys" using at(2) [OF k(1)] i(1) ys by simp
    ultimately show ?thesis using le [of "lo + k" "lo + length part + i"] at(1) [OF k(1)] by simp
  qed
qed

text \<open>\<open>part\<close> is what \<open>SORT\<close> selects from \<open>xs\<close>: in an order of all the elements, the elements of the part
  are in ascending order among themselves, after everything before the part and before everything after it.\<close>

definition selected ::
  "'s::{linorder, zero} sort_env \<Rightarrow> sort_options \<Rightarrow> (bytes \<Rightarrow> bytes \<Rightarrow> bytes option) \<Rightarrow> sobj list \<Rightarrow> sobj list \<Rightarrow> bool"
where
  "selected env opts value xs part \<longleftrightarrow>
     (\<exists>us ws. mset (us @ part @ ws) = mset xs \<and> part = sort_part opts (us @ part @ ws) \<and>
        length us = min (nat (limit_start opts)) (length xs) \<and>
        (if dontsort opts then us @ part @ ws = xs
         else let le = (\<lambda>a b. sort_le opts (weigh env opts value a) (weigh env opts value b)) in
           sorted_wrt le part \<and> (\<forall>x \<in> set us. \<forall>y \<in> set part. le x y) \<and> (\<forall>y \<in> set part. \<forall>z \<in> set ws. le y z)))"

lemma sort_vector_ok:
  assumes "sort_env_ok env" "\<forall>so \<in> set vec. sort_ok (alpha opts) (sortby opts \<noteq> None) so"
  shows "\<exists>ys. sort_vector env opts start end' vec = Some ys \<and> mset ys = mset vec \<and>
    (if dontsort opts then ys = vec
     else placed (sortCompare (desc opts) (alpha opts) (sortby opts \<noteq> None)) start end' ys 0 (length ys))"
proof (cases "dontsort opts")
  case True
  then show ?thesis by (simp add: sort_vector_def)
next
  case False
  let ?cmp = "sortCompare (desc opts) (alpha opts) (sortby opts \<noteq> None)"
  show ?thesis
  proof (cases "sortby opts \<noteq> None \<and> (start \<noteq> 0 \<or> end' \<noteq> int (length vec) - 1)")
    case True
    then show ?thesis
      using sort_order.pqsort_ok [OF assms(2) order.refl, of "desc opts" start end'] False
      by (auto simp: sort_vector_def Let_def simp del: not_None_eq)
  next
    case n: False
    obtain ys where "qsort_of env ?cmp vec = Some ys" "mset ys = mset vec" "ordered ?cmp ys 0 (length ys)"
      using assms sort_order.comparison_axioms unfolding sort_env_ok_def by metis
    then show ?thesis using False n sort_order.ordered_placed by (auto simp: sort_vector_def Let_def)
  qed
qed

section \<open>The command\<close>

text \<open>What the arguments and the elements have to satisfy: the sums and products of the code stay in the range
  of an \<open>int\<close>, elements that are compared as texts hold no zero byte, and no weight of a numeric sort is
  read as NaN (\<open>sort_nan_unsorted\<close> shows what happens otherwise).\<close>

definition sort_input_ok ::
  "'s::{linorder, zero} sort_env \<Rightarrow> sort_options \<Rightarrow> (bytes \<Rightarrow> bytes \<Rightarrow> bytes option) \<Rightarrow> sobj list \<Rightarrow> bool"
where
  "sort_input_ok env opts value xs \<longleftrightarrow>
     (\<forall>ob \<in> set xs. sobj_ok ob \<and> (alpha opts \<and> sortby opts = None \<longrightarrow> plain ob) \<and>
        score_of (weigh env opts value ob) \<noteq> None) \<and>
     length xs < 2 ^ 31 \<and> length (operations opts) * length xs < 2 ^ 31 \<and>
     max 0 (limit_start opts) + limit_count opts \<le> 2 ^ 31"

lemma weigh_simps [simp]: "obj_of (weigh env opts value ob) = ob"
  by (simp add: weigh_def Let_def)

lemma weighed_list: "mset ys = mset (map (weigh env opts value) xs) \<Longrightarrow> ys = map (weigh env opts value) (map obj_of ys)"
proof -
  assume "mset ys = mset (map (weigh env opts value) xs)"
  then have "set ys = weigh env opts value ` set xs" using mset_eq_setD by fastforce
  then have "map (\<lambda>y. weigh env opts value (obj_of y)) ys = ys" by (intro map_idI) auto
  then show ?thesis by (simp add: comp_def)
qed

lemma sorted_selected:
  assumes ys: "mset ys = mset (map (weigh env opts value) xs)" and i: "sort_input_ok env opts value xs"
    and r: "sort_range opts (int (length xs)) = (start, end')"
    and o: "if dontsort opts then ys = map (weigh env opts value) xs
      else placed (sortCompare (desc opts) (alpha opts) (sortby opts \<noteq> None)) start end' ys 0 (length ys)"
  shows "selected env opts value xs (map obj_of (sort_part opts ys))"
proof -
  let ?w = "weigh env opts value"
  let ?cmp = "sortCompare (desc opts) (alpha opts) (sortby opts \<noteq> None)"
  define obs where "obs = map obj_of ys"
  have yo: "ys = map ?w obs" using weighed_list [OF ys] by (simp add: obs_def)
  have len: "length ys = length xs" using ys by (metis length_map size_mset)
  have m: "mset obs = mset xs"
  proof -
    have "mset obs = image_mset obj_of (mset ys)" by (simp add: obs_def)
    then show ?thesis by (simp add: ys image_mset.compositionality comp_def)
  qed
  obtain us ws where split: "obs = us @ sort_part opts obs @ ws" "length us = min (nat (limit_start opts)) (length obs)"
    using sort_part_split [of obs opts] by blast
  have part: "map obj_of (sort_part opts ys) = sort_part opts obs" by (simp add: obs_def sort_part_map)
  have xy: "map ?w obs = map ?w us @ map ?w (sort_part opts obs) @ map ?w ws"
    using arg_cong [OF split(1), of "map ?w"] by simp
  have bounds: "length ys < 2 ^ 31" "max 0 (limit_start opts) + limit_count opts \<le> 2 ^ 31"
    "sort_range opts (int (length ys)) = (start, end')"
    using i r len by (simp_all add: sort_input_ok_def)
  have order: "sorted_wrt le (sort_part opts obs) \<and> (\<forall>x \<in> set us. \<forall>y \<in> set (sort_part opts obs). le x y) \<and>
      (\<forall>y \<in> set (sort_part opts obs). \<forall>z \<in> set ws. le y z)"
    if "\<not> dontsort opts" and le: "le = (\<lambda>a b. sort_le opts (?w a) (?w b))" for le
  proof -
    have "length obs = length ys" "length (sort_part opts obs) = length (sort_part opts ys)"
      by (simp_all add: obs_def sort_part_map)
    then have u: "length (map ?w us) = min (nat (limit_start opts)) (length ys)"
      and q: "i < length ys \<Longrightarrow> start \<le> int i \<and> int i \<le> end' \<longleftrightarrow>
        nat (limit_start opts) \<le> i \<and> i < nat (limit_start opts) + length (map ?w (sort_part opts obs))" for i
      using split(2) sort_range_part(3) [OF bounds] by simp_all
    have p: "placed ?cmp start end' ys 0 (length ys)" using o that(1) by simp
    note pl = placed_part [OF p xy [folded yo] u q]
    have ok: "sort_ok (alpha opts) (sortby opts \<noteq> None) (?w x)" if "x \<in> set obs" for x
      using i that mset_eq_setD [OF m] by (auto simp: sort_ok_def sort_input_ok_def)
    have l: "le_by ?cmp (?w x) (?w y) \<longleftrightarrow> le x y" if "x \<in> set obs" "y \<in> set obs" for x y
      using le_sortCompare [OF ok [OF that(1)] ok [OF that(2)]] by (simp add: le)
    have s: "set us \<subseteq> set obs" "set (sort_part opts obs) \<subseteq> set obs" "set ws \<subseteq> set obs"
      using arg_cong [OF split(1), of set] by auto
    have "sorted_wrt (\<lambda>a b. le_by ?cmp (?w a) (?w b)) (sort_part opts obs)" using pl(1) by (simp add: sorted_wrt_map)
    then have "sorted_wrt le (sort_part opts obs)"
      by (rule sorted_wrt_mono_rel [rotated]) (use l s(2) in blast)
    moreover have "le x y" if "x \<in> set us" "y \<in> set (sort_part opts obs)" for x y
      using pl(2) [of "?w x" "?w y"] l [of x y] s that by auto
    moreover have "le y z" if "y \<in> set (sort_part opts obs)" "z \<in> set ws" for y z
      using pl(3) [of "?w y" "?w z"] l [of y z] s that by auto
    ultimately show ?thesis by blast
  qed
  have id: "obs = xs" if "dontsort opts" using o that by (simp add: obs_def comp_def)
  have "length obs = length xs" using m by (metis size_mset)
  then show ?thesis
    unfolding selected_def part
  proof (intro exI [of _ us] exI [of _ ws], unfold split(1) [symmetric], intro conjI)
    show "if dontsort opts then obs = xs
      else let le = (\<lambda>a b. sort_le opts (?w a) (?w b)) in
        sorted_wrt le (sort_part opts obs) \<and> (\<forall>x \<in> set us. \<forall>y \<in> set (sort_part opts obs). le x y) \<and>
        (\<forall>y \<in> set (sort_part opts obs). \<forall>z \<in> set ws. le y z)"
      using order [OF _ refl] id unfolding Let_def by presburger
  qed (use split(2) m in simp_all)
qed

text \<open>The command up to the point where its output is sent or stored.\<close>

lemma sort_until_output:
  fixes now :: int
  assumes db: "db_ok N db as" "N < 2 ^ 29" and env: "sort_env_ok env" and i: "sort_input_ok env opts (pattern_value (visible now as)) xs"
  defines "value \<equiv> pattern_value (visible now as)"
    and "new \<equiv> \<lambda>ob. \<lparr>obj_of = ob, score_of = Some 0, cmp_of = None\<rparr>"
  obtains vec db1 start end' ys part vs db2 as2 where
    "(if dontsort opts then Some (map new xs, db) else load_weights env now opts (map new xs) db) = Some (vec, db1)"
    "sort_range opts (int (length xs)) = (start, end')" "sort_vector env opts start end' vec = Some ys"
    "end' - start + 1 = int (length part)" "vector_part ys start end' = Some part"
    "sort_output now (operations opts) (map obj_of part) db1 = Some (vs, db2)" "db_ok N db2 as2" "expired_some now as as2"
    "map (map_option text_of) vs = concat (map (row_of value (operations opts)) (map obj_of part))"
    "\<forall>x. Some x \<in> set vs \<longrightarrow> sobj_ok x" "selected env opts value xs (map obj_of part)" "length part \<le> length xs"
proof -
  let ?w = "weigh env opts value"
  have objs: "\<forall>ob \<in> set xs. sobj_ok ob" using i by (simp add: sort_input_ok_def)
  have "reads now N as (if dontsort opts then Some (map new xs, db) else load_weights env now opts (map new xs) db)
      (\<lambda>vec. vec = map ?w xs)"
  proof (cases "dontsort opts")
    case True
    then have "?w = new" by (intro ext) (simp add: weigh_def new_def)
    then show ?thesis using True by (intro readsI [OF _ db(1) expired_refl, where x = "map new xs"]) simp_all
  qed (use load_weights_ok [OF db(1) objs db(2) env] in \<open>simp add: value_def new_def\<close>)
  then obtain vec db1 as1 where a: "(if dontsort opts then Some (map new xs, db) else load_weights env now opts (map new xs) db) =
      Some (vec, db1)" "db_ok N db1 as1" "expired_some now as as1" "vec = map ?w xs"
    by (rule readsE)
  obtain start end' where r: "sort_range opts (int (length xs)) = (start, end')"
    by (cases "sort_range opts (int (length xs))") simp
  have "\<forall>so \<in> set vec. sort_ok (alpha opts) (sortby opts \<noteq> None) so"
    using i a(4) unfolding value_def by (auto simp: sort_ok_def sort_input_ok_def)
  then obtain ys where ys: "sort_vector env opts start end' vec = Some ys" "mset ys = mset vec"
    "if dontsort opts then ys = vec
     else placed (sortCompare (desc opts) (alpha opts) (sortby opts \<noteq> None)) start end' ys 0 (length ys)"
    using sort_vector_ok [OF env] by blast
  have len: "length ys = length xs" using ys(2) a(4) by (metis length_map size_mset)
  have bounds: "length ys < 2 ^ 31" "max 0 (limit_start opts) + limit_count opts \<le> 2 ^ 31"
    "sort_range opts (int (length ys)) = (start, end')"
    using i r len by (simp_all add: sort_input_ok_def)
  have sel: "selected env opts value xs (map obj_of (sort_part opts ys))"
    by (rule sorted_selected [OF ys(2) [unfolded a(4)] i [folded value_def] r ys(3) [unfolded a(4)]])
  have "set ys = set vec" using mset_eq_setD [OF ys(2)] .
  then have "obj_of ` set ys = set xs" using a(4) by force
  moreover have "set (sort_part opts ys) \<subseteq> set ys"
    by (auto simp: sort_part_def Let_def split: if_splits dest: in_set_dropD in_set_takeD)
  ultimately have po: "\<forall>ob \<in> set (map obj_of (sort_part opts ys)). sobj_ok ob" using objs by auto
  obtain vs db2 as2 where v: "sort_output now (operations opts) (map obj_of (sort_part opts ys)) db1 = Some (vs, db2)"
    "db_ok N db2 as2" "expired_some now as1 as2"
    "map (map_option text_of) vs = concat (map (row_of (pattern_value (visible now as1)) (operations opts)) (map obj_of (sort_part opts ys)))"
    "\<forall>x. Some x \<in> set vs \<longrightarrow> sobj_ok x"
    by (rule readsE [OF sort_output_ok [OF a(2) po db(2), of now "operations opts"]]) blast
  have "length (sort_part opts ys) \<le> length xs" using len by (auto simp: sort_part_def Let_def)
  then show thesis
    using that [OF a(1) r ys(1) sort_range_part(2,1) [OF bounds] v(1,2) expired_trans [OF a(3) v(3)] _ v(5) sel] v(4)
    by (simp add: visible_same [OF a(3)] value_def)
qed

text \<open>The length that is announced is the number of values.\<close>

lemma announced_length:
  assumes "sort_input_ok env opts v xs" "length part \<le> length xs"
  shows "operations opts \<noteq> [] \<Longrightarrow>
      signed_take_bit 31 (int (length (operations opts)) * signed_take_bit 31 (int (length part))) =
      int (length (concat (map (row_of value (operations opts)) (map obj_of part))))"
    "operations opts = [] \<Longrightarrow> signed_take_bit 31 (int (length part)) =
      int (length (concat (map (row_of value []) (map obj_of part))))"
proof -
  let ?g = "length (operations opts)" and ?p = "length part"
  have b: "?p < 2 ^ 31" "?g * ?p < 2 ^ 31"
    using assms mult_le_mono2 [OF assms(2), of ?g] unfolding sort_input_ok_def by linarith+
  have s: "signed_take_bit 31 (int ?p) = int ?p" "signed_take_bit 31 (int ?g * int ?p) = int ?g * int ?p"
    using b by (auto intro!: signed_take_bit_int_eq_self simp flip: of_nat_mult)
  have "length (row_of value pats ob) = (if pats = [] then 1 else length pats)" for pats ob by (simp add: row_of_def)
  then have c: "length (concat (map (row_of value pats) (map obj_of part))) = (if pats = [] then ?p else length pats * ?p)" for pats
    by (simp add: length_concat comp_def sum_list_triv)
  show "operations opts \<noteq> [] \<Longrightarrow>
      signed_take_bit 31 (int ?g * signed_take_bit 31 (int ?p)) =
      int (length (concat (map (row_of value (operations opts)) (map obj_of part))))"
    using s c [of "operations opts"] by simp
  show "operations opts = [] \<Longrightarrow> signed_take_bit 31 (int ?p) =
      int (length (concat (map (row_of value []) (map obj_of part))))"
    using s c [of "[]"] by simp
qed

text \<open>C17: \<open>SORT\<close> with valid arguments and no \<open>STORE\<close> returns, and sends a row of values for each of the selected
  elements: the values of the \<open>GET\<close> patterns, or the element itself. Announced is the number of values. The
  selected elements are those at the positions \<open>LIMIT\<close> names in the order of their weights, and the database
  loses at most keys past their deadline.\<close>

theorem sort_sends_selection:
  assumes "db_ok N db as" "N < 2 ^ 29" "sort_env_ok env" "sort_input_ok env opts (pattern_value (visible now as)) xs"
    "parse_sort args sort_defaults = Some (Some opts)" "storekey opts = None"
  shows "\<exists>part db' as'. selected env opts (pattern_value (visible now as)) xs part \<and>
    (let rows = concat (map (row_of (pattern_value (visible now as)) (operations opts)) part) in
      sortCommand env cr now args (Some (Elements xs)) db = Some (SortSent (int (length rows)) rows, None, db')) \<and>
    db_ok N db' as' \<and> expired_some now as as'"
proof -
  obtain vec db1 start end' ys part vs db2 as2 where s:
    "(if dontsort opts then Some (map (\<lambda>ob. \<lparr>obj_of = ob, score_of = Some 0, cmp_of = None\<rparr>) xs, db)
      else load_weights env now opts (map (\<lambda>ob. \<lparr>obj_of = ob, score_of = Some 0, cmp_of = None\<rparr>) xs) db) = Some (vec, db1)"
    "sort_range opts (int (length xs)) = (start, end')" "sort_vector env opts start end' vec = Some ys"
    "end' - start + 1 = int (length part)" "vector_part ys start end' = Some part"
    "sort_output now (operations opts) (map obj_of part) db1 = Some (vs, db2)" "db_ok N db2 as2" "expired_some now as as2"
    "map (map_option text_of) vs = concat (map (row_of (pattern_value (visible now as)) (operations opts)) (map obj_of part))"
    "\<forall>x. Some x \<in> set vs \<longrightarrow> sobj_ok x" "selected env opts (pattern_value (visible now as)) xs (map obj_of part)"
    "length part \<le> length xs"
    by (rule sort_until_output [OF assms(1-4)])
  show ?thesis
    by (rule exI [of _ "map obj_of part"], rule exI [of _ db2], rule exI [of _ as2])
      (simp add: sortCommand_def assms(5,6) s announced_length [OF assms(4) s(12)] reply_texts_ok [OF s(10)] Let_def
        del: map_map)
qed

text \<open>C27: \<open>SORT\<close> with \<open>STORE\<close> puts a list of the same values at the destination, an empty text for each missing one. The
  deadline of the destination stays as it was, other than with \<open>SET\<close> or \<open>RENAME\<close>.\<close>

theorem sort_stores_selection:
  assumes "db_ok N db as" "N < 2 ^ 29" "sort_env_ok env" "sort_input_ok env opts (pattern_value (visible now as)) xs"
    "parse_sort args sort_defaults = Some (Some opts)" "storekey opts = Some dst"
  shows "\<exists>part stored db' as1 as'. selected env opts (pattern_value (visible now as)) xs part \<and>
    (let rows = concat (map (row_of (pattern_value (visible now as)) (operations opts)) part) in
      sortCommand env cr now args (Some (Elements xs)) db = Some (SortStored (int (length rows)), Some stored, db') \<and>
      map text_of stored = map (\<lambda>r. case r of None \<Rightarrow> [] | Some t \<Rightarrow> t) rows \<and>
      as' = a_touch (1 + int (length rows)) (a_put dst AList as1)) \<and>
    expired_some now as as1 \<and> db_ok (Suc N) db' as' \<and>
    (\<not> overdue now as dst \<longrightarrow> deadline as' dst = deadline as dst)"
proof -
  obtain vec db1 start end' ys part vs db2 as2 where s:
    "(if dontsort opts then Some (map (\<lambda>ob. \<lparr>obj_of = ob, score_of = Some 0, cmp_of = None\<rparr>) xs, db)
      else load_weights env now opts (map (\<lambda>ob. \<lparr>obj_of = ob, score_of = Some 0, cmp_of = None\<rparr>) xs) db) = Some (vec, db1)"
    "sort_range opts (int (length xs)) = (start, end')" "sort_vector env opts start end' vec = Some ys"
    "end' - start + 1 = int (length part)" "vector_part ys start end' = Some part"
    "sort_output now (operations opts) (map obj_of part) db1 = Some (vs, db2)" "db_ok N db2 as2" "expired_some now as as2"
    "map (map_option text_of) vs = concat (map (row_of (pattern_value (visible now as)) (operations opts)) (map obj_of part))"
    "\<forall>x. Some x \<in> set vs \<longrightarrow> sobj_ok x" "selected env opts (pattern_value (visible now as)) xs (map obj_of part)"
    "length part \<le> length xs"
    by (rule sort_until_output [OF assms(1-4)])
  define rows where "rows = concat (map (row_of (pattern_value (visible now as)) (operations opts)) (map obj_of part))"
  define stored where "stored = map (\<lambda>v. case v of None \<Rightarrow> Raw [] | Some v \<Rightarrow> v) vs"
  have "value_rep (Suc N) VList (AList :: 'a avalue)" by simp
  then obtain r d where d: "dictReplace cr (kdict db2) dst VList = Some (r, d)"
    "db_ok (Suc N) (db2\<lparr>kdict := d\<rparr>) (a_put dst AList as2)"
    using replace_sim [OF s(7) _ _ assms(2)] by blast
  have touch: "db_ok (Suc N) (db2\<lparr>kdict := d, kdirty := kdirty db2 + 1 + int (length rows)\<rparr>)
      (a_touch (1 + int (length rows)) (a_put dst AList as2))"
    using touch_sim [OF d(2), of "1 + int (length rows)"] by (simp add: add.assoc)
  have cmd: "sortCommand env cr now args (Some (Elements xs)) db = Some (SortStored (int (length rows)), Some stored,
      db2\<lparr>kdict := d, kdirty := kdirty db2 + 1 + int (length rows)\<rparr>)"
    by (simp add: sortCommand_def assms(5,6) s(1-6) announced_length [OF assms(4) s(12)] d(1) Let_def rows_def stored_def
        del: map_map)
  have texts: "map text_of stored = map (\<lambda>r. case r of None \<Rightarrow> [] | Some t \<Rightarrow> t) rows"
    unfolding stored_def rows_def s(9) [symmetric] by (auto split: option.split)
  have keep: "\<not> overdue now as dst \<longrightarrow> deadline as2 dst = deadline as dst" using s(8) by (auto simp: expired_some_def)
  show ?thesis
    unfolding Let_def
    by (rule exI [of _ "map obj_of part"], rule exI [of _ stored], rule exI, rule exI [of _ as2], rule exI)
      (use s(8,11) cmd texts keep touch in \<open>auto simp: rows_def simp del: map_map\<close>)
qed

text \<open>C18: The partial sort of the vector returns, keeps the elements, and brings every element with a position in the
  range to where a complete sort could have it: nothing before it is greater and nothing behind it less.\<close>

theorem pqsort_places_range:
  assumes "\<forall>so \<in> set vec. sort_ok alph bypattern so" "n \<le> length vec"
  shows "\<exists>ys. pqsort (sortCompare dsc alph bypattern) vec n lrange rrange = Some ys \<and> mset ys = mset vec \<and>
    drop n ys = drop n vec \<and>
    (\<forall>i j. i < j \<and> j < n \<and> (lrange \<le> int i \<and> int i \<le> rrange \<or> lrange \<le> int j \<and> int j \<le> rrange) \<longrightarrow>
      (if dsc then entry_le alph bypattern (ys ! j) (ys ! i) else entry_le alph bypattern (ys ! i) (ys ! j)))"
proof -
  obtain ys where ys: "pqsort (sortCompare dsc alph bypattern) vec n lrange rrange = Some ys" "length ys = length vec"
    "mset ys = mset vec" "drop n ys = drop n vec" "placed (sortCompare dsc alph bypattern) lrange rrange ys 0 n"
    using sort_order.pqsort_ok [OF assms, of dsc lrange rrange] by blast
  have "sort_ok alph bypattern (ys ! i)" if "i < n" for i
    using that assms ys(2) mset_eq_setD [OF ys(3)] by (metis less_le_trans nth_mem)
  then have "if dsc then entry_le alph bypattern (ys ! j) (ys ! i) else entry_le alph bypattern (ys ! i) (ys ! j)"
    if "i < j" "j < n" "lrange \<le> int i \<and> int i \<le> rrange \<or> lrange \<le> int j \<and> int j \<le> rrange" for i j
    using ys(5) that le_flags [of alph bypattern "ys ! i" "ys ! j" dsc] unfolding placed_def by auto
  then show ?thesis using ys(1,3,4) by blast
qed

text \<open>With \<open>LIMIT\<close> the sum of the two numbers is not checked. From the third element on, the greatest count makes
  the code announce the greatest number of values and send none of them.\<close>

theorem sort_limit_overflow:
  assumes "db_ok N db as" "N < 2 ^ 29" "sort_env_ok env" "\<forall>ob \<in> set xs. sobj_ok ob" "length xs < 2 ^ 31"
    "parse_sort args sort_defaults = Some (Some opts)" "\<not> alpha opts" "sortby opts = None" "\<not> dontsort opts"
    "storekey opts = None" "operations opts = []" "\<forall>ob \<in> set xs. strtod_of env (text_of ob) \<noteq> None"
    "2 \<le> limit_start opts" "limit_start opts < int (length xs)" "limit_count opts = 2 ^ 31 - 1"
  shows "\<exists>db'. sortCommand env cr now args (Some (Elements xs)) db = Some (SortSent (2 ^ 31 - 1) [], None, db')"
proof -
  let ?look = "pattern_value (visible now as)"
  obtain db1 as1 where w: "load_weights env now opts (map (\<lambda>ob. \<lparr>obj_of = ob, score_of = Some 0, cmp_of = None\<rparr>) xs) db =
      Some (map (weigh env opts ?look) xs, db1)"
    using load_weights_ok [OF assms(1,4,2,3,9), of now] by (auto elim!: readsE)
  let ?s = "limit_start opts"
  have b: "?s < 2 ^ 31" using assms(5,14) by simp
  have "signed_take_bit 31 (?s + limit_count opts - 1) = ?s - 2 - 2 ^ 31"
  proof -
    have w: "signed_take_bit 31 (x + 4294967296) = signed_take_bit 31 x" for x :: int
      unfolding signed_take_bit_eq_iff_take_bit_eq take_bit_eq_mod by simp
    have "signed_take_bit 31 (?s + limit_count opts - 1) = signed_take_bit 31 ((?s - 2 - 2 ^ 31) + 4294967296)"
      using assms(15) by simp
    also note w
    finally show ?thesis using b assms(13) by (simp add: signed_take_bit_int_eq_self)
  qed
  then have r: "sort_range opts (int (length xs)) = (?s, ?s - 2 - 2 ^ 31)"
    using assms(13-15) b by (simp add: sort_range_def Let_def)
  have "\<forall>so \<in> set (map (weigh env opts ?look) xs). sort_ok (alpha opts) (sortby opts \<noteq> None) so"
    using assms(7-9,12) by (auto simp: sort_ok_def weigh_def)
  then obtain ys where ys: "sort_vector env opts ?s (?s - 2 - 2 ^ 31) (map (weigh env opts ?look) xs) = Some ys"
    using sort_vector_ok [OF assms(3)] by blast
  have "vector_part ys ?s (?s - 2 - 2 ^ 31) = Some []" by (simp add: vector_part_def)
  then show ?thesis
    using w r ys by (simp add: sortCommand_def assms(6,9,10,11) Let_def)
qed

text \<open>Numeric weights that \<open>strtod\<close> reads as NaN compare as equal to every number, and the order of the
  others is lost: three entries with the scores \<open>b\<close>, NaN and \<open>a\<close>, a smaller number, stay as they are.\<close>

theorem sort_nan_unsorted:
  assumes "a < b"
  shows "pqsort (sortCompare False False bypattern)
      [\<lparr>obj_of = x, score_of = Some b, cmp_of = u\<rparr>, \<lparr>obj_of = y, score_of = None, cmp_of = v\<rparr>, \<lparr>obj_of = z, score_of = Some a, cmp_of = w\<rparr>]
      3 lrange rrange =
    Some [\<lparr>obj_of = x, score_of = Some b, cmp_of = u\<rparr>, \<lparr>obj_of = y, score_of = None, cmp_of = v\<rparr>, \<lparr>obj_of = z, score_of = Some a, cmp_of = w\<rparr>]"
  using assms by (subst pqsort_def, subst pqsort_from.simps)
    (simp add: insertion_sort_def insert_all.simps insert_down.simps cmp_at_def elem_def exchange_def sortCompare_def)

theorem sort_nan_unsorted_witness:
  "pqsort (sortCompare False False True)
      [\<lparr>obj_of = Enc 3, score_of = Some (3 :: int), cmp_of = None\<rparr>, \<lparr>obj_of = Raw (ascii ''nan''), score_of = None, cmp_of = None\<rparr>,
        \<lparr>obj_of = Enc 1, score_of = Some 1, cmp_of = None\<rparr>] 3 0 1 =
    Some [\<lparr>obj_of = Enc 3, score_of = Some 3, cmp_of = None\<rparr>, \<lparr>obj_of = Raw (ascii ''nan''), score_of = None, cmp_of = None\<rparr>,
        \<lparr>obj_of = Enc 1, score_of = Some 1, cmp_of = None\<rparr>]"
  by (rule sort_nan_unsorted) simp

section \<open>Examples\<close>

definition sample_sort_env :: "int sort_env" where
  "sample_sort_env = \<lparr>strtod_of = (\<lambda>t. case strtoll10 (t @ [0]) of Some (v, _) \<Rightarrow> Some v | None \<Rightarrow> Some 0),
     double_of = (\<lambda>v. v), qsort_of = (\<lambda>cmp xs. insertion_sort cmp xs 0 (length xs))\<rparr>"

lemma sample_sort_env_ok: "sort_env_ok sample_sort_env"
proof -
  have "strtod_of sample_sort_env (dec_text v) = Some (double_of sample_sort_env v)" if "is_long v" for v
    using strtoll10_dec_text [OF that, of 0 "[]"] by (simp add: sample_sort_env_def)
  moreover have "\<exists>ys. qsort_of sample_sort_env cmp xs = Some ys \<and> mset ys = mset xs \<and> ordered cmp ys 0 (length ys)"
    if "comparison cmp ok" "\<forall>x \<in> set xs. ok x" for cmp ok and xs :: "int sort_object list"
    using comparison.insertion_sort_ok [OF that(1), of xs 0 "length xs"] that(2)
    by (auto simp: sample_sort_env_def perm_within_def)
  ultimately show ?thesis by (simp add: sort_env_ok_def)
qed

abbreviation sample_db :: "int rvalue kdb" where "sample_db \<equiv> open_db 0 (initServer 1)"

abbreviation sample_keys :: "int avalue kstate" where "sample_keys \<equiv> a_open 0 (a_empty 1)"

lemma sample_db_ok: "db_ok 0 sample_db sample_keys"
  by (rule empty_db_ok)

lemma sample_desc: "parse_sort [ascii ''desc''] sort_defaults = Some (Some (sort_defaults\<lparr>desc := True\<rparr>))"
  by code_simp

lemma sample_by: "parse_sort [ascii ''BY'', ascii ''w_*'', ascii ''STORE'', ascii ''d''] sort_defaults =
    Some (Some (sort_defaults\<lparr>sortby := Some (ascii ''w_*''), storekey := Some (ascii ''d'')\<rparr>))"
  by code_simp

lemma sample_limit: "parse_sort [ascii ''limit'', dec_text 2, dec_text (2 ^ 31 - 1)] sort_defaults =
    Some (Some (sort_defaults\<lparr>limit_start := 2, limit_count := 2 ^ 31 - 1\<rparr>))"
proof -
  have w: "same_text (ascii ''limit'' @ [0]) (ascii ''asc'' @ [0]) = Some False"
    "same_text (ascii ''limit'' @ [0]) (ascii ''desc'' @ [0]) = Some False"
    "same_text (ascii ''limit'' @ [0]) (ascii ''alpha'' @ [0]) = Some False"
    "same_text (ascii ''limit'' @ [0]) (ascii ''limit'' @ [0]) = Some True"
    "same_text (ascii ''limit'' @ [0]) (ascii ''store'' @ [0]) = Some False"
    "same_text (ascii ''limit'' @ [0]) (ascii ''by'' @ [0]) = Some False"
    "same_text (ascii ''limit'' @ [0]) (ascii ''get'' @ [0]) = Some False"
    by code_simp+
  show ?thesis using atoi_dec [of 2] atoi_dec [of "2 ^ 31 - 1"] by (simp add: w)
qed

lemma sample_number: "strtod_of sample_sort_env t \<noteq> None"
  by (simp add: sample_sort_env_def split: option.split)

lemma sample_input: "sort_input_ok sample_sort_env (sort_defaults\<lparr>desc := b\<rparr>) value [Enc 5, Enc 9, Enc 7]"
  "sort_input_ok sample_sort_env (sort_defaults\<lparr>sortby := p, storekey := q\<rparr>) value [Enc 5, Enc 9, Enc 7]"
  using sample_number by (simp_all add: sort_input_ok_def sort_defaults_def is_long_def weigh_def split: option.split)

theorem sort_sends_selection_witness:
  "\<exists>part db' as'. selected sample_sort_env (sort_defaults\<lparr>desc := True\<rparr>) (pattern_value (visible 100 sample_keys))
       [Enc 5, Enc 9, Enc 7] part \<and>
     (let rows = concat (map (row_of (pattern_value (visible 100 sample_keys)) []) part) in
       sortCommand sample_sort_env True 100 [ascii ''desc''] (Some (Elements [Enc 5, Enc 9, Enc 7])) sample_db =
         Some (SortSent (int (length rows)) rows, None, db')) \<and>
     db_ok 0 db' as' \<and> expired_some 100 sample_keys as'"
  using sort_sends_selection [OF sample_db_ok _ sample_sort_env_ok sample_input(1) sample_desc, where now = 100 and cr = True]
  by (simp add: sort_defaults_def)

theorem sort_stores_selection_witness:
  "\<exists>stored db'. sortCommand sample_sort_env True 100 [ascii ''BY'', ascii ''w_*'', ascii ''STORE'', ascii ''d'']
      (Some (Elements [Enc 5, Enc 9, Enc 7])) sample_db = Some (SortStored (int (length stored)), Some stored, db')"
proof -
  have "(0 :: nat) < 2 ^ 29" "storekey (sort_defaults\<lparr>sortby := Some (ascii ''w_*''), storekey := Some (ascii ''d'')\<rparr>) = Some (ascii ''d'')"
    by simp_all
  from sort_stores_selection [OF sample_db_ok this(1) sample_sort_env_ok sample_input(2) sample_by this(2), where now = 100 and cr = True]
  show ?thesis unfolding Let_def by (elim exE conjE) (metis length_map)
qed

theorem pqsort_places_range_witness:
  "\<exists>ys. pqsort (sortCompare False False True) (map (\<lambda>v. \<lparr>obj_of = Enc v, score_of = Some v, cmp_of = None\<rparr>) [5, 9, 1, 7, 3, 8, 2, 6, 4])
      9 2 4 = Some ys \<and> the (score_of (ys ! 2)) \<le> the (score_of (ys ! 8))"
proof -
  let ?vec = "map (\<lambda>v. \<lparr>obj_of = Enc v, score_of = Some v, cmp_of = None\<rparr>) [5, 9, 1, 7, 3, 8, 2, 6, 4 :: int]"
  have "\<forall>so \<in> set ?vec. sort_ok False True so" "9 \<le> length ?vec" by (simp_all add: sort_ok_def)
  from pqsort_places_range [OF this, of False 2 4] obtain ys where
    "pqsort (sortCompare False False True) ?vec 9 2 4 = Some ys"
    "\<forall>i j. i < j \<and> j < 9 \<and> (2 \<le> int i \<and> int i \<le> 4 \<or> 2 \<le> int j \<and> int j \<le> 4) \<longrightarrow> entry_le False True (ys ! i) (ys ! j)"
    by auto
  then show ?thesis by (auto simp: entry_le_def)
qed

theorem sort_limit_overflow_witness:
  "\<exists>db'. sortCommand sample_sort_env True 100 [ascii ''limit'', dec_text 2, dec_text (2 ^ 31 - 1)]
      (Some (Elements [Enc 5, Enc 9, Enc 7])) sample_db = Some (SortSent (2 ^ 31 - 1) [], None, db')"
  by (rule sort_limit_overflow [OF sample_db_ok _ sample_sort_env_ok _ _ sample_limit])
    (use sample_number in \<open>simp_all add: sort_defaults_def is_long_def\<close>)

end
