(* ===== verification/Spec2Isabelle.thy ===== *)
theory Spec2Isabelle
  imports Arm_Rewriter Arm_Identifier Light_Loader Zmalloc Adlist Sds_Args Zipmap Dict Lzf Rdb_Safe Pattern_Spec Set_Spec Wire_Spec Sort_Spec
begin

text \<open>
  HermiTux runs unmodified Linux programs on a unikernel. This repository holds the tools that
  prepare and load binaries (\<open>src/tools\<close>) and the applications it is exercised with
  (\<open>src/apps\<close>); the kernel, the C library and the OpenMP runtime are git submodules whose
  directories are empty. The development models the tools and, of the applications, the server
  Redis 2.0.4 (\<open>src/apps/redis-2.0.4\<close>): its base modules, its data types and its databases.

  \<^bold>\<open>The parts and how they interact.\<close>
  \<^item> The ARM tools. \<open>arm-binary-rewriter\<close> replaces \<open>SVC\<close> instructions by branches to a handler,
    \<open>arm-syscall-identifier\<close> scans the code for system calls and wrapper calls; both find the code
    through the scan of the program headers in \<open>br-elf.c\<close>. \<open>hermitux-light.c\<close> builds the initial
    stack of the program and enters it.
  \<^item> The base of Redis: the accounting allocator (\<open>zmalloc.c\<close>), linked lists (\<open>adlist.c\<close>), strings
    (\<open>sds.c\<close>), the packed map (\<open>zipmap.c\<close>), the hash table with incremental rehashing
    (\<open>dict.c\<close>), and the compressor (\<open>lzf_c.c\<close>, \<open>lzf_d.c\<close>).
  \<^item> The objects of Redis (\<open>redis.c\<close>): strings that may be encoded as numbers, hashes that are a
    zipmap first and a hash table later, sorted sets that are a skip list and a hash table.
  \<^item> The dump: saving all databases to a file and loading them.
  \<^item> The databases: a table of keys and a table of deadlines each, the commands on keys, and the
    timer that resizes and rehashes the tables and removes keys that are due.
  \<^item> The clients: the bytes a client sends are cut into requests, which are checked against the command table
    and executed, or queued by \<open>MULTI\<close> for \<open>EXEC\<close>.
  \<^item> Sorting: the partial quicksort of \<open>pqsort.c\<close>, and the command \<open>SORT\<close>, which uses it with patterns over
    the keys of a database.

  \<^bold>\<open>Theories.\<close>
  \<^item> \<open>Prelude\<close> has words, byte memories, the functions of the C library that several parts use;
    \<open>Buffers\<close> has heap blocks with checked accesses; \<open>Kv_Store\<close> has the contract of a key-value
    store as a locale, interpreted by \<open>Zipmap\<close>, \<open>Dict\<close> and \<open>Hash_Object_Spec\<close>.
  \<^item> \<open>Arm_Branch\<close> (branch words of both tools), \<open>Br_Elf\<close>, \<open>Arm_Rewriter\<close>, \<open>Arm_Identifier\<close>,
    \<open>Light_Loader\<close>: one C file each. This theory relates the two ARM tools.
  \<^item> \<open>Zmalloc\<close>, \<open>Adlist\<close>, \<open>Sds\<close>, \<open>Sds_Args\<close>, \<open>Zipmap\<close>, \<open>Dict\<close>, \<open>Lzf\<close>: one module of Redis
    each. \<open>Dict_Random\<close> adds the background work on a table and the choice of a random entry.
  \<^item> \<open>Redis_Object\<close> (string objects), \<open>Object_Dict\<close> (their hash and comparison), \<open>Pattern\<close> and
    \<open>Pattern_Spec\<close> (glob-style matching, amounts of memory).
  \<^item> \<open>Skip_Index\<close>, \<open>Skiplist\<close>, \<open>Skiplist_Rep\<close>, \<open>Skiplist_Delete\<close>, \<open>Skiplist_Order\<close>,
    \<open>Skiplist_Spec\<close>: the skip list as a heap of nodes, and the sequence it represents.
    \<open>Sorted_Set\<close> and \<open>Sorted_Set_Spec\<close>: sorted sets and their commands.
  \<^item> \<open>Hash_Object\<close>, \<open>Hash_Object_Spec\<close>, \<open>Hash_Commands_Spec\<close>: hashes and their commands.
    \<open>Dict_Iterators\<close>, \<open>Set_Object\<close>, \<open>Set_Spec\<close>: sets and the commands on one of them.
  \<^item> \<open>Rdb_File\<close> (files and the locale of a saver and its loader), \<open>Rdb_Value\<close>, \<open>Rdb\<close> (model),
    \<open>Rdb_Dump\<close> (round trip, atomic saving), \<open>Rdb_Safe\<close> (loading a damaged file returns).
  \<^item> \<open>Keyspace\<close>, \<open>Keyspace_Commands\<close> (one database), \<open>Server\<close> (all of them and the timer): model.
    \<open>Keyspace_Rep\<close>, \<open>Keyspace_Values\<close>, \<open>Keyspace_Spec\<close>, \<open>Server_Spec\<close>, \<open>Expiry\<close>: what they represent,
    their specification, and deadlines.
  \<^item> \<open>Client\<close> (parser, command table, transactions) and \<open>Client_Spec\<close> (what is executed for which input).
    \<open>Wire\<close> and \<open>Wire_Spec\<close>: the command table over the databases, from the bytes received to the bytes replied.
  \<^item> \<open>Pqsort\<close> (the sort and the locale of its comparison function, with the proof that it places its range),
    \<open>Sort\<close> (the command) and \<open>Sort_Spec\<close> (the locale on the comparison of the command, and what is sent and stored).

  \<^bold>\<open>How state and operations correspond to the code.\<close>
  Definitions carry the names of the C functions and types. A struct is a record; a C function is a
  function on explicit state that returns its result and the new state. An optional result is
  \<open>None\<close> for what C leaves undefined (an access outside a block or a table, a failed assertion) and, in
  the few operations that take lists of random numbers or clock readings, for a loop that needs more of
  them; failures the code reports are values. Lists and skip lists live in an explicit heap of
  nodes; zipmaps, strings and compressed blocks are byte lists with exactly the bytes allocated, and each
  single read and write of a byte is checked against them; the
  buckets of a hash table are lists, and a found entry is the position of the entry. Integers are
  words, or integers with the conversion of the code written out.
  Compiler and machine are those of the Linux build: 64-bit \<open>long\<close>, two's complement.

  \<^bold>\<open>What the lemmas show.\<close>
  For each data structure a representation predicate (\<open>dict_rep\<close>, \<open>zm_rep\<close>, \<open>hash_rep\<close>, \<open>zsl_ok\<close>,
  \<open>zset_ok\<close>, \<open>krep\<close>) relates the concrete state, in every state of rehashing, encoding or spare
  room, to an abstract value; each operation is shown to return (not \<open>None\<close>), to answer what the
  abstract value says and to keep the relation. The run theorems compose the operations: any
  sequence of commands on a zipmap, a dictionary, a hash, a sorted set, and on a whole server
  answers as its abstract specification does. Where a run has no result the theorems name the place: a
  \<open>ZINCRBY\<close> that leaves the score unchanged, which reads the score it has freed, or a command whose random numbers
  do not suffice, and that goes on with more of them. \<open>wire_answers_as_keyspace\<close> is the top of this chain: bytes that
  arrive in any pieces are cut into requests and answered with the bytes the specification gives; it rests on the
  chain for the server and, below it, on those for strings, hashes, sorted sets, dictionaries, zipmaps and skip lists. Round trips relate printers and parsers (dump files, compressed blocks, quoted arguments, numbers,
  branch words, the initial stack). Safety theorems state that readers of untrusted bytes stay
  inside their buffers and return; loading a dump faults only at the length byte of a score that is over the end of
  the buffer for its digits. The listing of the system call identifier is specified on the list of instructions by
  arithmetic on their encodings. The sort returns for every comparison that is a total preorder, permutes its
  elements and brings those of the range to where a complete sort has them; \<open>SORT\<close> sends the part \<open>LIMIT\<close> selects. Theorems in sections on divergences exhibit inputs on which
  the code does something else than its comments or documents say.

  \<^bold>\<open>Bounds and parameters.\<close>
  Tables have at most \<open>2 ^ 30\<close> buckets and hold fewer than \<open>2 ^ 29\<close> entries (above that the \<open>int\<close>s of the code
  overflow: \<open>dictNext_ends_on_large_table\<close>), formatted texts are shorter than \<open>INT_MAX\<close>, blocks are
  shorter than \<open>2 ^ 32\<close> bytes; a run theorem bounds the sum of what its commands may add. Uninitialised
  memory, allocation, random numbers, levels of skip list nodes, the clock, the operating system
  calls of saving, and \<open>dict_can_resize\<close> are arguments; hypotheses on them state
  what the C library documents (fresh addresses, for instance). Scores of sorted sets are a linear order
  with an addition that may fail, which excludes NaN as \<open>ZADD\<close> does. \<open>SORT\<close> does not: its scores may be NaN,
  and its theorems ask for numeric weights that are numbers (\<open>sort_nan_unsorted\<close> shows the order lost otherwise).
  Patterns of \<open>SORT\<close> have a meaning of their own, the first star and the first arrow of a text. Members of sorted sets
  have no zero bytes and are encoded as \<open>tryObjectEncoding\<close> encodes them, as the command parser leaves
  them. Loops that may not end are \<open>partial_function\<close>s, and are proved to return.
  The number of environment variables and of arguments that the light loader passes on is an \<open>int\<close>.
  A string that decompresses to fewer bytes than announced ends with zeros, as \<open>sdsnewlen\<close> fills it.
  A timer run takes its clock readings and random numbers as an argument; that there are some with
  which it ends, and which reach any key that is due, is a theorem.

  \<^bold>\<open>Not modelled.\<close>
  Virtual memory, replication, the append-only file, publish/subscribe, blocking
  operations and the sending of replies are event-driven code over sockets, threads and processes. List and
  set objects are opaque values of the databases; list commands, commands on several sets, \<open>KEYS\<close> and
  the commands that combine sorted sets are not modelled. \<open>SORT\<close> is given the elements of its key in the order
  the code loads them; \<open>strtod\<close> and \<open>qsort\<close> are arguments, with what the C library documents as hypotheses. Reference counts appear only where they decide what is
  destroyed or copied (lists, dictionaries, skip lists, \<open>tryObjectEncoding\<close>, \<open>APPEND\<close>). The other applications
  (SQLite, Mongoose, Lua, the benchmarks) are third-party code that the repository carries
  unchanged.
\<close>

section \<open>The two ARM tools together\<close>

text \<open>C38: a whitelisted site that the rewriter has processed is, for the identifier run with the
  handler as wrapper address, a call of the wrapper: the two tools agree on the meaning of the
  word that was written, for handlers within branch range.\<close>

theorem rewritten_site_is_wrapper_call:
  assumes "rewrite_loop cfg h m 0 scs = LoopDone m' k" "sites_apart cfg scs"
    and "sc \<in> set scs" "whitelisted sc" "h \<noteq> 0"
    and "4 dvd sint (h - addr sc)" "- (2 ^ 27) \<le> sint (h - addr sc)" "sint (h - addr sc) < 2 ^ 27"
  shows "\<exists>w. read32 m' (site_off cfg sc) = Some w \<and> instr_kind h (addr sc) w = WrapperCall"
proof -
  have "site_ok cfg h m m' sc"
    using rewrite_loop_sites_aux [OF assms(1,2)] assms(3) by blast
  with assms(4) have w: "read32 m' (site_off cfg sc) = Some (encode_branch REWRITE_MASK_BL (addr sc) h)"
    by (auto simp: site_ok_def site_branch_def)
  obtain e where e: "sint (h - addr sc) = 4 * e" using assms(6) by (auto simp: dvd_def)
  have "bl_target (addr sc) (encode_branch REWRITE_MASK_BL (addr sc) h) = h"
    using assms(7,8) e by (intro bl_target_encode [OF _ e]) auto
  with w encode_not_svc [of REWRITE_MASK_BL] assms(5) show ?thesis
    by (simp add: instr_kind_def)
qed

theorem rewritten_site_is_wrapper_call_witness:
  "\<exists>m' k w. rewrite_loop sample_cfg 0x200000 sample_code 0 [sample_site 0x400008 True] = LoopDone m' k
    \<and> read32 m' 8 = Some w \<and> instr_kind 0x200000 0x400008 w = WrapperCall"
proof -
  obtain m' k where r: "rewrite_loop sample_cfg 0x200000 sample_code 0 [sample_site 0x400008 True]
      = LoopDone m' k"
    by (simp add: run_simps)
  have o: "site_off sample_cfg (sample_site 0x400008 True) = 8"
    by (simp add: site_off_def sample_cfg_def sample_site_def)
  have a: "addr (sample_site 0x400008 True) = 0x400008" by (simp add: sample_site_def)
  from rewritten_site_is_wrapper_call [OF r, of "sample_site 0x400008 True"] r o a
  show ?thesis by (auto simp: sample_site_def)
qed

end
